(* ===== verification/Prelude.thy ===== *)
theory Prelude
  imports Main "HOL-Library.Word" "HOL-Library.Signed_Division"
begin

text \<open>
  Shared vocabulary of the development: the machine integers of the C++ code, the
  collections of simplification facts the component theories fill, and generic lemmas on
  lists, sums over finite sets and words.

  Signed 64-bit values (\<^verbatim>\<open>std::int64_t\<close>, and the \<^verbatim>\<open>raw\<close> member of
  \<^verbatim>\<open>Fixed<Tag>\<close>) are \<^typ>\<open>int\<close>. Signed overflow is undefined behaviour in C++, so
  an addition of the model agrees with the code exactly when its result is in range
  (\<open>in_i64\<close> below); every conversion from \<^verbatim>\<open>__int128\<close> back to 64 bits, which C++
  defines as reduction modulo \<open>2 ^ 64\<close>, is written out as \<open>i64\<close>. Unsigned counters and
  keys whose wrap-around matters are \<open>64 word\<close>.
\<close>

unbundle bit_operations_syntax

type_synonym u64 = "64 word"
type_synonym u32 = "32 word"

named_theorems model_defs "definitions a component's proofs unfold"
named_theorems frame_simps "what an operation leaves unchanged"
named_theorems keeps_inv "an operation preserves its component's invariant"

section \<open>64-bit signed integers\<close>

definition i64_min :: int where
  "i64_min = - (2 ^ 63)"

definition i64_max :: int where
  "i64_max = 2 ^ 63 - 1"

definition in_i64 :: "int \<Rightarrow> bool" where
  "in_i64 x \<longleftrightarrow> i64_min \<le> x \<and> x \<le> i64_max"

text \<open>\<^verbatim>\<open>static_cast<std::int64_t>\<close> of a wider integer.\<close>

definition i64 :: "int \<Rightarrow> int" where
  "i64 x = (x + 2 ^ 63) mod 2 ^ 64 - 2 ^ 63"

lemma i64_id [simp]: "in_i64 x \<Longrightarrow> i64 x = x"
  by (simp add: in_i64_def i64_def i64_min_def i64_max_def)

lemma i64_0 [simp]: "i64 0 = 0"
  by (simp add: i64_def)

lemma in_i64_i64 [simp]: "in_i64 (i64 x)"
  using pos_mod_bound [of "2 ^ 64" "x + 2 ^ 63"] pos_mod_sign [of "2 ^ 64" "x + 2 ^ 63"]
  by (simp add: in_i64_def i64_def i64_min_def i64_max_def)

lemma i64_cong: "i64 x mod 2 ^ 64 = x mod 2 ^ 64"
  by (simp add: i64_def mod_diff_left_eq)

lemma in_i64_abs: "in_i64 x \<Longrightarrow> \<bar>x\<bar> \<le> 2 ^ 63"
  by (auto simp: in_i64_def i64_min_def i64_max_def)

lemma in_i64_between: "in_i64 a \<Longrightarrow> in_i64 b \<Longrightarrow> a \<le> x \<Longrightarrow> x \<le> b \<Longrightarrow> in_i64 x"
  by (auto simp: in_i64_def)

section \<open>Truncating division\<close>

text \<open>
  C++ \<^verbatim>\<open>/\<close> and \<^verbatim>\<open>%\<close> truncate towards zero: \<open>(sdiv)\<close> and \<open>(smod)\<close> of
  HOL-Library.
\<close>

lemma sdiv_pos: "0 \<le> (a::int) \<Longrightarrow> 0 \<le> b \<Longrightarrow> a sdiv b = a div b"
  by (auto simp: signed_divide_int_def sgn_if)

lemma sdiv_neg: "(a::int) < 0 \<Longrightarrow> 0 < b \<Longrightarrow> a sdiv b = - (- a div b)"
  by (auto simp: signed_divide_int_def sgn_if)

lemma smod_pos: "0 \<le> (a::int) \<Longrightarrow> 0 < b \<Longrightarrow> a smod b = a mod b"
  by (auto simp: signed_modulo_int_def sgn_if)

lemma div_le_dividend_int: "0 \<le> (a::int) \<Longrightarrow> 0 \<le> b \<Longrightarrow> a div b \<le> a"
  by (cases "b = 0") (use zdiv_mono2 [of a 1 b] in auto)

lemma abs_sdiv_le: "\<bar>(a::int) sdiv b\<bar> \<le> \<bar>a\<bar>"
proof -
  have "\<bar>a\<bar> div \<bar>b\<bar> \<le> \<bar>a\<bar>"
    by (simp add: div_le_dividend_int)
  moreover have "0 \<le> \<bar>a\<bar> div \<bar>b\<bar>"
    by (cases "b = 0") (auto simp: pos_imp_zdiv_nonneg_iff)
  ultimately show ?thesis
    by (auto simp: signed_divide_int_def abs_mult sgn_if)
qed

lemma sdiv_nonneg: "0 \<le> (a::int) \<Longrightarrow> 0 \<le> b \<Longrightarrow> 0 \<le> a sdiv b"
  by (cases "b = 0") (auto simp: sdiv_pos pos_imp_zdiv_nonneg_iff)

section \<open>Words\<close>

lemma unat_u64_less: "unat (x::u64) < 2 ^ 64"
  using unsigned_less [of x, where ?'a = nat] by simp

end
