(* ===== verification/Enums.thy ===== *)
theory Enums
  imports Prelude
begin

text \<open>
  The engine enumerations of \<^verbatim>\<open>include/fastmm/core/enums.hpp\<close> that the modelled
  components use, with the predicates defined beside them, and the two price comparisons
  of \<^verbatim>\<open>include/fastmm/core/book/book_view.hpp\<close>. Constructors keep the source's names;
  where one would hide a constant of the library it takes a prefix
  (\<open>RejectReason::None\<close> is \<open>NoReject\<close>).
\<close>

datatype side = Buy | Sell

definition opposite :: "side \<Rightarrow> side" where
  "opposite s = (if s = Buy then Sell else Buy)"

definition side_sign :: "side \<Rightarrow> int" where
  "side_sign s = (if s = Buy then 1 else - 1)"

datatype order_type = Limit | Market | PostOnly

datatype time_in_force = Gtc | Ioc | Fok | Day

datatype order_state =
    PendingNew | Live | PartiallyFilled | PendingCancel | PendingReplace
  | Filled | Canceled | Rejected | Expired

text \<open>The underlying values order the enumerators; \<^verbatim>\<open>is_terminal\<close> compares them.\<close>

primrec order_state_value :: "order_state \<Rightarrow> nat" where
  "order_state_value PendingNew = 0"
| "order_state_value Live = 1"
| "order_state_value PartiallyFilled = 2"
| "order_state_value PendingCancel = 3"
| "order_state_value PendingReplace = 4"
| "order_state_value Filled = 5"
| "order_state_value Canceled = 6"
| "order_state_value Rejected = 7"
| "order_state_value Expired = 8"

definition is_terminal :: "order_state \<Rightarrow> bool" where
  "is_terminal s \<longleftrightarrow> order_state_value s \<ge> order_state_value Filled"

definition is_pending :: "order_state \<Rightarrow> bool" where
  "is_pending s \<longleftrightarrow> s = PendingNew \<or> s = PendingCancel \<or> s = PendingReplace"

datatype (plugins only: code size) reject_reason =
    NoReject | KillSwitch | VenueKilled | InstrumentDisabled | InvalidTick | InvalidLot
  | BelowMinNotional | StaleMarketData | PriceCollar | FatFinger | MaxOrderQty
  | MaxOrderNotional | MaxPosition | MaxOpenOrders | SelfTradePrevention | RateLimit
  | MaxLoss | MaxGrossNotional | MaxNetNotional | FxRateUnknown | FeedLag
  | MaxUnderlyingNet | UnderlyingMarkUnknown | BalanceShort | ReduceOnly | PricedOut
  | PoolExhausted | UnknownOrder | InvalidState | DuplicateId | TransportFull
  | NotReconciled | InvalidTag | OrderTableFull | InvalidAccount | HomeUnavailable
  | GatewayRateLimit | GatewayOpenNotional | GatewayNotOwner | GatewayAccountKilled
  | GatewayGrossNotional | GatewayNetNotional | GatewayFxRateUnknown
  | GatewayUnderlyingNet | GatewayUnderlyingMarkUnknown | GatewaySelfTrade
  | GatewayBalanceShort | VenueReject | PostOnlyWouldCross | InsufficientBalance
  | VenueRateLimit | VenueUnknownOrder

text \<open>\<^verbatim>\<open>at_or_better\<close> and \<^verbatim>\<open>better\<close> of book\_view.hpp.\<close>

definition at_or_better :: "side \<Rightarrow> int \<Rightarrow> int \<Rightarrow> bool" where
  "at_or_better s p q = (if s = Buy then p \<ge> q else p \<le> q)"

definition better :: "side \<Rightarrow> int \<Rightarrow> int \<Rightarrow> bool" where
  "better s p q = (if s = Buy then p > q else p < q)"

lemma opposite_simps [simp]: "opposite Buy = Sell" "opposite Sell = Buy"
  "opposite (opposite s) = s" "opposite s \<noteq> s"
  by (cases s; simp add: opposite_def)+

lemma better_irrefl [simp]: "\<not> better s p p"
  by (simp add: better_def)

lemma better_trans: "better s p q \<Longrightarrow> better s q r \<Longrightarrow> better s p r"
  by (auto simp: better_def split: if_splits)

lemma better_asym: "better s p q \<Longrightarrow> \<not> better s q p"
  by (auto simp: better_def split: if_splits)

lemma better_linear: "better s p q \<or> p = q \<or> better s q p"
  by (auto simp: better_def)

lemma at_or_better_iff: "at_or_better s p q \<longleftrightarrow> better s p q \<or> p = q"
  by (auto simp: better_def at_or_better_def)

lemma not_better_iff: "\<not> better s p q \<longleftrightarrow> at_or_better s q p"
  by (auto simp: better_def at_or_better_def)

end
