(* ===== verification/FixedPoint.thy ===== *)
theory FixedPoint
  imports Enums
begin

text \<open>
  \<^verbatim>\<open>include/fastmm/core/fixed_point.hpp\<close>: \<^verbatim>\<open>Fixed<Tag>\<close>, the 64-bit fixed-point
  values with a \<open>1e-8\<close> scale that prices, quantities and notionals are. A value is its
  \<^verbatim>\<open>raw\<close> member, an \<^typ>\<open>int\<close>. The theory models the scaled multiplication and
  division with their 128-bit intermediates, rounding to the tick and lot grids, the
  checked operations, and exact decimal parsing and printing. The conversions from and to
  \<^verbatim>\<open>double\<close>, used for configuration and diagnostics only, are not modelled.
\<close>

type_synonym price = int
type_synonym qty = int
type_synonym notional = int
type_synonym ratio = int

definition kFixedScale :: int where
  "kFixedScale = 100000000"

definition kFixedDecimals :: nat where
  "kFixedDecimals = 8"

section \<open>Scaled arithmetic\<close>

text \<open>\<^verbatim>\<open>detail::mul_div\<close>: the 64-bit product when it does not overflow
  (\<^verbatim>\<open>__builtin_mul_overflow\<close>), the 128-bit one otherwise.\<close>

definition mul_div :: "int \<Rightarrow> int \<Rightarrow> int \<Rightarrow> int" where
  "mul_div a b d =
     (if in_i64 (a * b) \<and> d \<noteq> - 1 then (a * b) sdiv d
      else i64 ((a * b) sdiv d))"

text \<open>The overload whose divisor is a template argument.\<close>

definition mul_div_c :: "int \<Rightarrow> int \<Rightarrow> int \<Rightarrow> int" where
  "mul_div_c D a b =
     (if in_i64 (a * b) then (a * b) sdiv D else i64 ((a * b) sdiv D))"

definition mul :: "price \<Rightarrow> qty \<Rightarrow> notional" where
  "mul p q = mul_div_c kFixedScale p q"

definition mul_raw :: "int \<Rightarrow> int \<Rightarrow> int" where
  "mul_raw a b = mul_div_c kFixedScale a b"

definition fixed_times_ratio :: "int \<Rightarrow> ratio \<Rightarrow> int" where
  "fixed_times_ratio v r = mul_div_c kFixedScale v r"

definition ratio_of :: "int \<Rightarrow> int \<Rightarrow> ratio" where
  "ratio_of num den = (if den = 0 then 0 else mul_div num kFixedScale den)"

definition div_notional :: "notional \<Rightarrow> qty \<Rightarrow> price" where
  "div_notional n q = (if q = 0 then 0 else mul_div n kFixedScale q)"

definition apply_bps :: "int \<Rightarrow> int \<Rightarrow> int" where
  "apply_bps v bps = mul_div_c 10000 v bps"

section \<open>Rounding to the grids\<close>

definition floor_div :: "int \<Rightarrow> int \<Rightarrow> int" where
  "floor_div a b =
     (let q = a sdiv b
      in if a smod b \<noteq> 0 \<and> ((a < 0) \<noteq> (b < 0)) then q - 1 else q)"

definition round_to_tick :: "price \<Rightarrow> price \<Rightarrow> side \<Rightarrow> price" where
  "round_to_tick p tick s =
     (let q = floor_div p tick; floored = q * tick
      in if s = Buy \<or> floored = p then floored else floored + tick)"

definition round_to_tick_nearest :: "price \<Rightarrow> price \<Rightarrow> price" where
  "round_to_tick_nearest p tick =
     (let half = tick sdiv 2; shifted = (if p \<ge> 0 then p + half else p - half)
      in floor_div shifted tick * tick)"

definition on_tick :: "price \<Rightarrow> price \<Rightarrow> bool" where
  "on_tick p tick \<longleftrightarrow> tick > 0 \<and> p smod tick = 0"

definition round_to_lot :: "qty \<Rightarrow> qty \<Rightarrow> qty" where
  "round_to_lot q lot = floor_div q lot * lot"

definition on_lot :: "qty \<Rightarrow> qty \<Rightarrow> bool" where
  "on_lot q lot \<longleftrightarrow> lot > 0 \<and> q smod lot = 0"

section \<open>Checked arithmetic\<close>

definition checked_add :: "int \<Rightarrow> int \<Rightarrow> int option" where
  "checked_add a b = (if in_i64 (a + b) then Some (a + b) else None)"

definition checked_sub :: "int \<Rightarrow> int \<Rightarrow> int option" where
  "checked_sub a b = (if in_i64 (a - b) then Some (a - b) else None)"

definition checked_mul :: "int \<Rightarrow> int \<Rightarrow> int option" where
  "checked_mul a k = (if in_i64 (a * k) then Some (a * k) else None)"

section \<open>Decimal strings\<close>

text \<open>\<^verbatim>\<open>c >= '0' && c <= '9'\<close> and \<^verbatim>\<open>c - '0'\<close>.\<close>

definition is_digit :: "char \<Rightarrow> bool" where
  "is_digit c \<longleftrightarrow> (48::nat) \<le> of_char c \<and> of_char c \<le> (57::nat)"

definition digit_val :: "char \<Rightarrow> int" where
  "digit_val c = int (of_char c) - 48"

definition digit_char :: "int \<Rightarrow> char" where
  "digit_char d = char_of (48 + nat d)"

text \<open>The integer-part loop of \<^verbatim>\<open>Fixed::from_decimal\<close>: stops at the end or at the dot.\<close>

definition kMaxInt :: int where
  "kMaxInt = i64_max sdiv kFixedScale"

fun dec_int_loop :: "int \<Rightarrow> nat \<Rightarrow> string \<Rightarrow> (int \<times> nat \<times> string) option" where
  "dec_int_loop ip n [] = Some (ip, n, [])"
| "dec_int_loop ip n (c # cs) =
     (if c = CHR ''.'' then Some (ip, n, c # cs)
      else if \<not> is_digit c then None
      else if ip > (kMaxInt - digit_val c) sdiv 10 then None
      else dec_int_loop (ip * 10 + digit_val c) (Suc n) cs)"

text \<open>The fraction loop, after the dot.\<close>

fun dec_frac_loop :: "int \<Rightarrow> nat \<Rightarrow> string \<Rightarrow> (int \<times> nat) option" where
  "dec_frac_loop fp n [] = Some (fp, n)"
| "dec_frac_loop fp n (c # cs) =
     (if \<not> is_digit c then None
      else if n < kFixedDecimals then dec_frac_loop (fp * 10 + digit_val c) (Suc n) cs
      else if c \<noteq> CHR ''0'' then None
      else dec_frac_loop fp n cs)"

definition dec_magnitude :: "string \<Rightarrow> int option" where
  "dec_magnitude body =
     (case dec_int_loop 0 0 body of
        None \<Rightarrow> None
      | Some (ip, int_digits, rest) \<Rightarrow>
          (case (case rest of [] \<Rightarrow> Some (0, 0) | _ # fs \<Rightarrow> dec_frac_loop 0 0 fs) of
             None \<Rightarrow> None
           | Some (fp, frac_digits) \<Rightarrow>
               if int_digits = 0 \<and> frac_digits = 0 then None
               else (let fp = fp * 10 ^ (kFixedDecimals - frac_digits);
                         mag = ip * kFixedScale
                     in if mag > i64_max - fp then None else Some (mag + fp))))"

definition from_decimal :: "string \<Rightarrow> int option" where
  "from_decimal s =
     (case s of [] \<Rightarrow> None | c # cs \<Rightarrow>
        (let neg = (c = CHR ''-'');
             body = (if c = CHR ''-'' \<or> c = CHR ''+'' then cs else s)
         in case dec_magnitude body of
              None \<Rightarrow> None
            | Some r \<Rightarrow> Some (if neg then - r else r)))"

text \<open>\<^verbatim>\<open>Fixed::to_decimal\<close>: the digit buffer of the integer part, least significant
  first (a do-while loop), and the eight fraction digits with trailing zeros dropped.\<close>

function tmp_digits :: "int \<Rightarrow> string" where
  "tmp_digits v =
     digit_char (v mod 10) # (if v div 10 \<le> 0 then [] else tmp_digits (v div 10))"
  by pat_completeness auto
termination
  by (relation "measure nat") auto

declare tmp_digits.simps [simp del]

fun frac_buffer :: "nat \<Rightarrow> int \<Rightarrow> string" where
  "frac_buffer 0 fp = []"
| "frac_buffer (Suc k) fp = frac_buffer k (fp div 10) @ [digit_char (fp mod 10)]"

definition to_decimal :: "int \<Rightarrow> string" where
  "to_decimal raw =
     (let mag = (if raw < 0 then - raw else raw);
          ip = mag div kFixedScale; fp = mag mod kFixedScale
      in (if raw < 0 then ''-'' else []) @ rev (tmp_digits ip) @
         (if fp \<noteq> 0
          then CHR ''.'' # rev (dropWhile (\<lambda>c. c = CHR ''0'') (rev (frac_buffer kFixedDecimals fp)))
          else []))"

section \<open>What a decimal literal denotes\<close>

text \<open>The value of a digit string, and the literals \<^verbatim>\<open>[+-]ds[.fs]\<close> with at least one
  digit that the grammar of \<^verbatim>\<open>from_decimal\<close> admits.\<close>

definition digits_val :: "string \<Rightarrow> int" where
  "digits_val ds = foldl (\<lambda>a c. a * 10 + digit_val c) 0 ds"

definition decimal_literal :: "string \<Rightarrow> bool \<Rightarrow> string \<Rightarrow> string \<Rightarrow> bool" where
  "decimal_literal s neg ds fs \<longleftrightarrow>
     (\<exists>sg dot. s = sg @ ds @ dot @ fs \<and> sg \<in> {[], ''+'', ''-''} \<and> (neg \<longleftrightarrow> sg = ''-'') \<and>
        (dot = ''.'' \<or> dot = [] \<and> fs = []) \<and>
        list_all is_digit ds \<and> list_all is_digit fs \<and> (ds \<noteq> [] \<or> fs \<noteq> []))"

section \<open>Facts: scaled arithmetic and rounding\<close>

lemma smod_0_iff_dvd: "a smod b = 0 \<longleftrightarrow> b dvd (a::int)"
  by (auto simp: signed_modulo_int_def sgn_if dvd_eq_mod_eq_0 [symmetric])

lemma in_i64_sdiv:
  assumes "in_i64 x" and "d \<noteq> - 1"
  shows "in_i64 (x sdiv d)"
proof (cases "x = i64_min")
  case False
  with assms(1) have "\<bar>x\<bar> \<le> i64_max" by (auto simp: in_i64_def i64_min_def i64_max_def)
  with abs_sdiv_le [of x d] have "\<bar>x sdiv d\<bar> \<le> i64_max" by linarith
  then show ?thesis by (auto simp: in_i64_def i64_min_def i64_max_def)
next
  case True
  have "0 \<le> 9223372036854775808 div \<bar>d\<bar>" by (simp add: div_int_pos_iff)
  moreover have "d < 0 \<Longrightarrow> 9223372036854775808 div \<bar>d\<bar> \<le> 9223372036854775808 div (2::int)"
    using assms(2) by (intro zdiv_mono2) auto
  ultimately show ?thesis
    using abs_sdiv_le [of x d] True
    by (auto simp: in_i64_def i64_min_def i64_max_def signed_divide_int_def sgn_if)
qed

lemma mul_div_ref: "mul_div a b d = i64 ((a * b) sdiv d)"
  by (auto simp: mul_div_def in_i64_sdiv)

lemma mul_div_c_ref: "D \<noteq> - 1 \<Longrightarrow> mul_div_c D a b = i64 ((a * b) sdiv D)"
  by (auto simp: mul_div_c_def in_i64_sdiv)

lemma floor_div_eq: "b \<noteq> 0 \<Longrightarrow> floor_div a b = a div b"
  by (auto simp: floor_div_def Let_def divide_int_eq_signed_divide_int smod_0_iff_dvd sgn_if)

lemma round_to_tick_Buy: "0 < t \<Longrightarrow> round_to_tick p t Buy = p - p mod t"
  by (simp add: round_to_tick_def floor_div_eq minus_mod_eq_div_mult)

lemma round_to_tick_grid: "0 < t \<Longrightarrow> t dvd round_to_tick p t s"
  by (auto simp: round_to_tick_def floor_div_eq Let_def)

lemma checked_add_Some: "checked_add a b = Some c \<longleftrightarrow> c = a + b \<and> in_i64 c"
  by (auto simp: checked_add_def)

lemma round_to_tick_Sell: "0 < t \<Longrightarrow> round_to_tick p t Sell = p + (- p) mod t"
  by (auto simp: round_to_tick_def floor_div_eq minus_mod_eq_div_mult [symmetric] Let_def zmod_zminus1_eq_if)

lemma round_to_tick_offset:
  "0 < t \<Longrightarrow> side_sign s * (p - round_to_tick p t s) = (side_sign s * p) mod t"
  by (cases s) (simp_all add: side_sign_def round_to_tick_Buy round_to_tick_Sell)

lemma nearest_multiple_dist:
  fixes p t :: int
  assumes "0 < t" "0 \<le> p"
  shows "2 * \<bar>(p + t div 2) - (p + t div 2) mod t - p\<bar> \<le> t"
proof -
  define m h where "m = (p + t div 2) mod t" and "h = t div 2"
  have "0 \<le> m" "m < t" "2 * h \<le> t" "t \<le> 2 * h + 1"
    using assms by (auto simp: m_def h_def)
  then have "2 * \<bar>p + h - m - p\<bar> \<le> t" by arith
  then show ?thesis by (simp add: m_def h_def)
qed

lemma round_to_tick_nearest_eq:
  "0 < t \<Longrightarrow> 0 \<le> p \<Longrightarrow> round_to_tick_nearest p t = (p + t div 2) - (p + t div 2) mod t"
  by (simp add: round_to_tick_nearest_def floor_div_eq sdiv_pos minus_mod_eq_div_mult)

section \<open>Facts: decimal strings\<close>

lemma is_digit_val: "is_digit c \<Longrightarrow> 0 \<le> digit_val c \<and> digit_val c \<le> 9"
  by (simp add: is_digit_def digit_val_def)

lemma foldl_digits: "foldl (\<lambda>a c. a * 10 + digit_val c) (x::int) ds = x * 10 ^ length ds + digits_val ds"
proof (induction ds arbitrary: x)
  case (Cons c ds)
  have "digits_val (c # ds) = digit_val c * 10 ^ length ds + digits_val ds"
    using Cons.IH [of "digit_val c"] by (simp add: digits_val_def)
  then show ?case using Cons.IH [of "x * 10 + digit_val c"] by (simp add: algebra_simps)
qed (simp add: digits_val_def)

lemma digits_val_Nil [simp]: "digits_val [] = 0"
  by (simp add: digits_val_def)

lemma digits_val_Cons: "digits_val (c # ds) = digit_val c * 10 ^ length ds + digits_val ds"
  using foldl_digits [of "digit_val c" ds] by (simp add: digits_val_def)

lemma digits_val_append: "digits_val (ds @ es) = digits_val ds * 10 ^ length es + digits_val es"
  using foldl_digits [of "digits_val ds" es] by (simp add: digits_val_def)

lemma digits_val_nonneg: "list_all is_digit ds \<Longrightarrow> 0 \<le> digits_val ds"
  by (induction ds) (auto simp: digits_val_Cons dest: is_digit_val)

lemma digits_val_less: "list_all is_digit ds \<Longrightarrow> digits_val ds < 10 ^ length ds"
proof (induction ds)
  case (Cons c ds)
  then have "digit_val c * 10 ^ length ds \<le> 9 * 10 ^ length ds"
    by (intro mult_right_mono) (auto dest: is_digit_val)
  moreover have "digits_val ds < 10 ^ length ds" using Cons by simp
  moreover have "(10::int) ^ length (c # ds) = 10 * 10 ^ length ds" by simp
  ultimately show ?case unfolding digits_val_Cons by linarith
qed simp

lemma kMaxInt_val: "kMaxInt = 92233720368"
  by (simp add: kMaxInt_def i64_max_def kFixedScale_def sdiv_pos)

lemma dec_int_step: "is_digit c \<Longrightarrow> ip > (kMaxInt - digit_val c) sdiv 10 \<longleftrightarrow> ip * 10 + digit_val c > kMaxInt"
  using is_digit_val [of c] by (auto simp: kMaxInt_val sdiv_pos)

lemma digit_not_dot: "is_digit c \<Longrightarrow> c \<noteq> CHR ''.''"
  by (auto simp: is_digit_def)

lemma dec_int_loop_iff:
  assumes "0 \<le> ip" "ip \<le> kMaxInt"
  shows "dec_int_loop ip n s = Some (ip', n', rest) \<longleftrightarrow>
    (\<exists>ds. s = ds @ rest \<and> list_all is_digit ds \<and> (rest = [] \<or> hd rest = CHR ''.'') \<and>
       ip' = ip * 10 ^ length ds + digits_val ds \<and> n' = n + length ds \<and> ip' \<le> kMaxInt)"
  using assms
proof (induction ip n s rule: dec_int_loop.induct)
  case (1 ip n)
  then show ?case by auto
next
  case (2 ip n c cs)
  consider "c = CHR ''.''" | "c \<noteq> CHR ''.''" "\<not> is_digit c" | "c \<noteq> CHR ''.''" "is_digit c" by blast
  then show ?case
  proof cases
    case 1
    have "\<not> is_digit (CHR ''.'')" by (simp add: is_digit_def)
    with 1 show ?thesis using 2(2,3) by (auto simp: Cons_eq_append_conv)
  next
    case 2
    then show ?thesis by (auto simp: Cons_eq_append_conv)
  next
    case 3
    note v = is_digit_val [OF 3(2)]
    have mono: "ip * 10 + digit_val c \<le> (ip * 10 + digit_val c) * 10 ^ length ds + digits_val ds"
      if "list_all is_digit ds" for ds
    proof -
      have "(ip * 10 + digit_val c) * 1 \<le> (ip * 10 + digit_val c) * 10 ^ length ds"
        using v 2(2) by (intro mult_left_mono) auto
      then show ?thesis using digits_val_nonneg [OF that] by simp
    qed
    show ?thesis
    proof (cases "ip * 10 + digit_val c > kMaxInt")
      case True
      then have "dec_int_loop ip n (c # cs) = None" using 3 dec_int_step by simp
      moreover have "\<not> (\<exists>ds. c # cs = ds @ rest \<and> list_all is_digit ds \<and> (rest = [] \<or> hd rest = CHR ''.'') \<and>
       ip' = ip * 10 ^ length ds + digits_val ds \<and> n' = n + length ds \<and> ip' \<le> kMaxInt)"
        using True 3 mono by (fastforce simp: Cons_eq_append_conv digits_val_Cons algebra_simps)
      ultimately show ?thesis by simp
    next
      case False
      have "dec_int_loop ip n (c # cs) = dec_int_loop (ip * 10 + digit_val c) (Suc n) cs"
        using 3 False dec_int_step by simp
      also have "\<dots> = Some (ip', n', rest) \<longleftrightarrow> (\<exists>ds. cs = ds @ rest \<and> list_all is_digit ds \<and> (rest = [] \<or> hd rest = CHR ''.'') \<and>
       ip' = (ip * 10 + digit_val c) * 10 ^ length ds + digits_val ds \<and> n' = Suc n + length ds \<and> ip' \<le> kMaxInt)"
        using 3 False v 2(2) dec_int_step by (intro 2(1)) auto
      also have "\<dots> \<longleftrightarrow> (\<exists>ds. c # cs = ds @ rest \<and> list_all is_digit ds \<and> (rest = [] \<or> hd rest = CHR ''.'') \<and>
       ip' = ip * 10 ^ length ds + digits_val ds \<and> n' = n + length ds \<and> ip' \<le> kMaxInt)"
        using 3 by (auto simp: Cons_eq_append_conv digits_val_Cons algebra_simps)
      finally show ?thesis .
    qed
  qed
qed

lemma dec_frac_loop_iff:
  "n \<le> 8 \<Longrightarrow> dec_frac_loop fp n s = Some (fp', n') \<longleftrightarrow>
    list_all is_digit s \<and> fp' = fp * 10 ^ length (take (8 - n) s) + digits_val (take (8 - n) s) \<and>
    n' = n + length (take (8 - n) s) \<and> list_all (\<lambda>c. c = CHR ''0'') (drop (8 - n) s)"
proof (induction fp n s rule: dec_frac_loop.induct)
  case (2 fp n c cs)
  show ?case
  proof (cases "n < 8")
    case True
    then obtain m where m: "8 - n = Suc m" by (metis Suc_diff_Suc)
    then have "8 - Suc n = m" by simp
    then show ?thesis using 2 True m
      by (auto simp: kFixedDecimals_def digits_val_Cons algebra_simps)
  next
    case False
    then show ?thesis using 2 by (auto simp: kFixedDecimals_def)
  qed
qed auto

lemma digits_val_0_iff:
  "list_all is_digit ds \<Longrightarrow> digits_val ds = 0 \<longleftrightarrow> list_all (\<lambda>c. c = CHR ''0'') ds"
proof (induction ds)
  case (Cons c ds)
  have "digit_val c = 0 \<longleftrightarrow> c = CHR ''0''"
    using of_char_eq_iff [where ?'a = nat, of c "CHR ''0''"] Cons.prems
    by (auto simp: digit_val_def is_digit_def)
  moreover have "0 \<le> digit_val c * 10 ^ length ds" "0 \<le> digits_val ds"
    using Cons.prems digits_val_nonneg is_digit_val by auto
  ultimately show ?case
    using Cons by (auto simp: digits_val_Cons add_nonneg_eq_0_iff)
qed simp

lemma mult_cancel_right1_pos: "0 < (c::int) \<Longrightarrow> a * c = b * c \<longleftrightarrow> a = b"
  by simp

lemma quot_rem_unique:
  fixes a b p d :: int
  assumes "0 \<le> d" "d < p"
  shows "a * p = b * p + d \<longleftrightarrow> a = b \<and> d = 0"
proof
  assume eq: "a * p = b * p + d"
  then have "a = (b * p + d) div p" using assms by (metis nonzero_mult_div_cancel_right less_irrefl le_less_trans)
  also have "\<dots> = b" using assms by simp
  finally show "a = b \<and> d = 0" using eq by simp
qed simp

lemma decimal_scale_iff:
  assumes "list_all is_digit fs"
  shows "m * 10 ^ length fs = digits_val (ds @ fs) * 10 ^ 8 \<longleftrightarrow>
    m = digits_val ds * 10 ^ 8 + digits_val (take 8 fs) * 10 ^ (8 - length (take 8 fs)) \<and>
    list_all (\<lambda>c. c = CHR ''0'') (drop 8 fs)"
proof (cases "length fs \<le> 8")
  case True
  then obtain k where k: "8 = length fs + k" using le_Suc_ex by blast
  have "m * 10 ^ length fs = digits_val (ds @ fs) * 10 ^ 8 \<longleftrightarrow>
        m * 10 ^ length fs = (digits_val ds * 10 ^ 8 + digits_val fs * 10 ^ k) * 10 ^ length fs"
    unfolding k by (simp add: digits_val_append power_add algebra_simps)
  then show ?thesis using True k by auto
next
  case False
  let ?t = "take 8 fs" and ?d = "drop 8 fs"
  have len: "length fs = 8 + length ?d" using False by simp
  have dv: "digits_val fs = digits_val ?t * 10 ^ length ?d + digits_val ?d"
    using digits_val_append [of ?t ?d] by simp
  have d: "list_all is_digit ?d" using assms by (auto simp: list_all_iff dest: in_set_dropD)
  have "m * 10 ^ length fs = digits_val (ds @ fs) * 10 ^ 8 \<longleftrightarrow>
        (m * 10 ^ length ?d) * 10 ^ 8 =
        (((digits_val ds * 10 ^ 8 + digits_val ?t) * 10 ^ length ?d) + digits_val ?d) * 10 ^ 8"
    unfolding digits_val_append dv len by (simp add: power_add algebra_simps)
  also have "\<dots> \<longleftrightarrow> m * 10 ^ length ?d =
        (digits_val ds * 10 ^ 8 + digits_val ?t) * 10 ^ length ?d + digits_val ?d"
    by (rule mult_cancel_right1_pos) simp
  also have "\<dots> \<longleftrightarrow> m = digits_val ds * 10 ^ 8 + digits_val ?t \<and> digits_val ?d = 0"
    using digits_val_nonneg [OF d] digits_val_less [OF d] by (rule quot_rem_unique)
  also have "\<dots> \<longleftrightarrow> m = digits_val ds * 10 ^ 8 + digits_val ?t \<and> list_all (\<lambda>c. c = CHR ''0'') ?d"
    using digits_val_0_iff [OF d] by simp
  finally show ?thesis using False by simp
qed

lemma dec_magnitude_iff:
  "dec_magnitude b = Some m \<longleftrightarrow>
    (\<exists>ds dot fs. b = ds @ dot @ fs \<and> (dot = ''.'' \<or> dot = [] \<and> fs = []) \<and>
       list_all is_digit ds \<and> list_all is_digit fs \<and> (ds \<noteq> [] \<or> fs \<noteq> []) \<and>
       m * 10 ^ length fs = digits_val (ds @ fs) * 10 ^ 8 \<and> m \<le> i64_max)"
  (is "?L \<longleftrightarrow> ?R")
proof
  assume ?L
  then obtain ip n rest fp k where
    1: "dec_int_loop 0 0 b = Some (ip, n, rest)" and
    2: "(case rest of [] \<Rightarrow> Some (0, 0) | _ # fs \<Rightarrow> dec_frac_loop 0 0 fs) = Some (fp, k)" and
    3: "\<not> (n = 0 \<and> k = 0)" "m = ip * kFixedScale + fp * 10 ^ (8 - k)" "m \<le> i64_max"
    by (auto simp: dec_magnitude_def kFixedDecimals_def Let_def split: option.splits if_splits)
  from 1 obtain ds where ds: "b = ds @ rest" "list_all is_digit ds" "rest = [] \<or> hd rest = CHR ''.''"
    "ip = digits_val ds" "n = length ds"
    by (subst (asm) dec_int_loop_iff) (auto simp: kMaxInt_val)
  show ?R
  proof (cases rest)
    case Nil
    then show ?thesis using 2 3 ds
      by (intro exI [of _ ds] exI [of _ "[]"]) (auto simp: kFixedScale_def)
  next
    case (Cons c fs)
    with 2 have "dec_frac_loop 0 0 fs = Some (fp, k)" by simp
    then have f: "list_all is_digit fs" "fp = digits_val (take 8 fs)" "k = length (take 8 fs)"
      "list_all (\<lambda>c. c = CHR ''0'') (drop 8 fs)"
      by (auto simp: dec_frac_loop_iff)
    have "m * 10 ^ length fs = digits_val (ds @ fs) * 10 ^ 8"
      unfolding decimal_scale_iff [OF f(1)] using 3 f ds by (simp add: kFixedScale_def)
    then show ?thesis using Cons ds 3 f
      by (intro exI [of _ ds] exI [of _ "''.''"] exI [of _ fs]) auto
  qed
next
  assume ?R
  then obtain ds dot fs where b: "b = ds @ dot @ fs" "dot = ''.'' \<or> dot = [] \<and> fs = []"
    "list_all is_digit ds" "list_all is_digit fs" "ds \<noteq> [] \<or> fs \<noteq> []"
    and m: "m * 10 ^ length fs = digits_val (ds @ fs) * 10 ^ 8" "m \<le> i64_max" by blast
  from m(1) have m': "m = digits_val ds * 10 ^ 8 + digits_val (take 8 fs) * 10 ^ (8 - length (take 8 fs))"
    and z: "list_all (\<lambda>c. c = CHR ''0'') (drop 8 fs)"
    by (simp_all only: decimal_scale_iff [OF b(4)])
  have "list_all is_digit (take 8 fs)" using b(4) by (auto simp: list_all_iff dest: in_set_takeD)
  then have "0 \<le> digits_val (take 8 fs) * 10 ^ (8 - length (take 8 fs))"
    by (simp add: digits_val_nonneg)
  with m' m(2) have "digits_val ds \<le> kMaxInt" by (simp add: kMaxInt_val i64_max_def)
  then have 1: "dec_int_loop 0 0 b = Some (digits_val ds, length ds, dot @ fs)"
    using b by (subst dec_int_loop_iff) (auto simp: kMaxInt_val intro: exI [of _ ds])
  show ?L
  proof (cases "dot = []")
    case True
    then show ?thesis using 1 b m m'
      by (auto simp: dec_magnitude_def kFixedDecimals_def kFixedScale_def)
  next
    case False
    then have "dec_frac_loop 0 0 fs = Some (digits_val (take 8 fs), length (take 8 fs))"
      using b z by (simp add: dec_frac_loop_iff)
    then show ?thesis using 1 b m m' False
      by (auto simp: dec_magnitude_def kFixedDecimals_def kFixedScale_def Let_def)
  qed
qed

lemma dec_magnitude_nonneg: "dec_magnitude b = Some m \<Longrightarrow> 0 \<le> m"
proof (rule ccontr)
  assume "dec_magnitude b = Some m" "\<not> 0 \<le> m"
  then obtain k xs where "m * 10 ^ k = digits_val xs * 10 ^ 8" "list_all is_digit xs"
    unfolding dec_magnitude_iff by (metis list_all_append)
  moreover have "m * 10 ^ k < 0" using \<open>\<not> 0 \<le> m\<close> by (simp add: mult_neg_pos)
  ultimately show False using digits_val_nonneg [of xs] by simp
qed

lemma dec_magnitude_unsigned:
  "dec_magnitude b = Some m \<Longrightarrow> \<exists>c cs. b = c # cs \<and> c \<noteq> CHR ''-'' \<and> c \<noteq> CHR ''+''"
proof -
  assume "dec_magnitude b = Some m"
  then obtain ds dot fs where b: "b = ds @ dot @ fs" "dot = ''.'' \<or> dot = [] \<and> fs = []"
    "list_all is_digit ds" "ds \<noteq> [] \<or> fs \<noteq> []" unfolding dec_magnitude_iff by blast
  moreover have "\<not> is_digit (CHR ''-'')" "\<not> is_digit (CHR ''+'')" by (simp_all add: is_digit_def)
  ultimately show ?thesis by (cases ds) auto
qed

lemma from_decimal_iff:
  "from_decimal s = Some r \<longleftrightarrow>
    (\<exists>sg b m. s = sg @ b \<and> sg \<in> {[], ''+'', ''-''} \<and> dec_magnitude b = Some m \<and>
       r = (if sg = ''-'' then - m else m))"
proof
  assume "from_decimal s = Some r"
  then obtain c cs m where "s = c # cs" "dec_magnitude (if c = CHR ''-'' \<or> c = CHR ''+'' then cs else s) = Some m"
      and "r = (if c = CHR ''-'' then - m else m)"
    by (auto simp: from_decimal_def Let_def split: list.splits option.splits)
  then show "\<exists>sg b m. s = sg @ b \<and> sg \<in> {[], ''+'', ''-''} \<and> dec_magnitude b = Some m \<and>
       r = (if sg = ''-'' then - m else m)"
    by (intro exI [of _ "if c = CHR ''-'' \<or> c = CHR ''+'' then [c] else []"]
      exI [of _ "if c = CHR ''-'' \<or> c = CHR ''+'' then cs else s"] exI [of _ m]) auto
next
  assume "\<exists>sg b m. s = sg @ b \<and> sg \<in> {[], ''+'', ''-''} \<and> dec_magnitude b = Some m \<and>
       r = (if sg = ''-'' then - m else m)"
  then obtain sg b m where s: "s = sg @ b" "sg \<in> {[], ''+'', ''-''}" and mag: "dec_magnitude b = Some m"
    and r: "r = (if sg = ''-'' then - m else m)" by blast
  moreover obtain c cs where "b = c # cs" "c \<noteq> CHR ''-''" "c \<noteq> CHR ''+''"
    using dec_magnitude_unsigned [OF mag] by blast
  ultimately show "from_decimal s = Some r" by (auto simp: from_decimal_def)
qed


lemma digit_char_facts: "0 \<le> d \<Longrightarrow> d \<le> 9 \<Longrightarrow> is_digit (digit_char d) \<and> digit_val (digit_char d) = d"
  by (simp add: is_digit_def digit_val_def digit_char_def of_char_of)

lemma tmp_digits_val: "0 \<le> v \<Longrightarrow> list_all is_digit (tmp_digits v) \<and> digits_val (rev (tmp_digits v)) = v \<and> tmp_digits v \<noteq> []"
proof (induction v rule: tmp_digits.induct)
  case (1 v)
  have "0 \<le> v mod 10" "v mod 10 \<le> 9" by auto
  note d = digit_char_facts [OF this]
  show ?case
  proof (cases "v div 10 \<le> 0")
    case True
    then have "v div 10 = 0" using 1(2) by (simp add: div_int_pos_iff order_antisym)
    then have "v mod 10 = v" using 1(2) by (metis div_mult_mod_eq mult_zero_left add_0)
    then show ?thesis using d True
      by (subst (1 2 3) tmp_digits.simps) (simp add: digits_val_Cons)
  next
    case False
    then show ?thesis using d 1
      by (subst (1 2 3) tmp_digits.simps) (simp add: digits_val_Cons digits_val_append)
  qed
qed

lemma frac_buffer_val:
  "0 \<le> v \<Longrightarrow> list_all is_digit (frac_buffer k v) \<and> length (frac_buffer k v) = k \<and>
    digits_val (frac_buffer k v) = v mod 10 ^ k"
proof (induction k arbitrary: v)
  case (Suc k)
  have "0 \<le> v mod 10" "v mod 10 \<le> 9" by auto
  note d = digit_char_facts [OF this]
  have "v mod (10 * 10 ^ k) = 10 * (v div 10 mod 10 ^ k) + v mod 10"
    by (rule zmod_zmult2_eq) simp
  then show ?case using Suc.IH [of "v div 10"] Suc.prems d
    by (simp add: digits_val_append digits_val_Cons)
qed simp

lemma trim_zeros: "\<exists>z. list_all (\<lambda>c. c = CHR ''0'') z \<and> xs = rev (dropWhile (\<lambda>c. c = CHR ''0'') (rev xs)) @ z"
proof (intro exI conjI)
  show "list_all (\<lambda>c. c = CHR ''0'') (rev (takeWhile (\<lambda>c. c = CHR ''0'') (rev xs)))"
    by (auto simp: list_all_iff dest: set_takeWhileD)
  show "xs = rev (dropWhile (\<lambda>c. c = CHR ''0'') (rev xs)) @ rev (takeWhile (\<lambda>c. c = CHR ''0'') (rev xs))"
    by (simp only: rev_append [symmetric] takeWhile_dropWhile_id rev_rev_ident)
qed


lemma digits_val_zeros: "list_all (\<lambda>c. c = CHR ''0'') z \<Longrightarrow> digits_val z = 0"
  by (induction z) (auto simp: digits_val_Cons digit_val_def)

lemma trimmed_fraction:
  assumes "0 \<le> fp" "fp < 10 ^ 8"
  defines "fs \<equiv> rev (dropWhile (\<lambda>c. c = CHR ''0'') (rev (frac_buffer 8 fp)))"
  shows "list_all is_digit fs" "length fs \<le> 8" "digits_val fs * 10 ^ (8 - length fs) = fp"
proof -
  let ?b = "frac_buffer 8 fp"
  have b: "list_all is_digit ?b" "length ?b = 8" "digits_val ?b = fp"
    using frac_buffer_val [of fp 8] assms(1,2) by auto
  obtain z where z: "list_all (\<lambda>c. c = CHR ''0'') z" and bz: "?b = fs @ z"
    using trim_zeros [of ?b] by (auto simp: fs_def)
  have len: "8 - length fs = length z" using b(2) bz by simp
  have "digits_val (fs @ z) = fp" using b(3) bz by simp
  then show "digits_val fs * 10 ^ (8 - length fs) = fp"
    unfolding len digits_val_append digits_val_zeros [OF z] by simp
  show "list_all is_digit fs" using b(1) unfolding bz by simp
  show "length fs \<le> 8" using b(2) unfolding bz by simp
qed

lemma to_decimal_literal:
  assumes "\<bar>r\<bar> = mag"
  shows "\<exists>ds fs. decimal_literal (to_decimal r) (r < 0) ds fs \<and> mag * 10 ^ length fs = digits_val (ds @ fs) * 10 ^ 8"
proof -
  have nn: "0 \<le> mag" using assms by simp
  define ip fp where "ip = mag div 10 ^ 8" and "fp = mag mod 10 ^ 8"
  have split: "ip * 10 ^ 8 + fp = mag" unfolding ip_def fp_def by (rule div_mult_mod_eq)
  have fp: "0 \<le> fp" "fp < 10 ^ 8" by (simp_all add: fp_def)
  have ip: "0 \<le> ip" using nn by (simp add: ip_def pos_imp_zdiv_nonneg_iff)
  define ds where "ds = rev (tmp_digits ip)"
  have ds: "list_all is_digit ds" "digits_val ds = ip" "ds \<noteq> []"
    using tmp_digits_val [OF ip] by (auto simp: ds_def)
  define tz where "tz = rev (dropWhile (\<lambda>c. c = CHR ''0'') (rev (frac_buffer 8 fp)))"
  note tz = trimmed_fraction [OF fp, folded tz_def]
  define fs where "fs = (if fp \<noteq> 0 then tz else [])"
  have fs: "list_all is_digit fs" "length fs \<le> 8" "digits_val fs * 10 ^ (8 - length fs) = fp"
    using tz by (simp_all add: fs_def)
  have "mag * 10 ^ length fs = digits_val (ds @ fs) * 10 ^ 8"
    unfolding decimal_scale_iff [OF fs(1)] using fs ds split by simp
  moreover have "to_decimal r = (if r < 0 then ''-'' else []) @ ds @ (if fp \<noteq> 0 then ''.'' else []) @ fs"
  proof -
    have "(if r < 0 then - r else r) = mag" using assms by auto
    then show ?thesis
      by (simp add: to_decimal_def Let_def kFixedScale_def kFixedDecimals_def ds_def fs_def tz_def ip_def fp_def)
  qed
  then have "decimal_literal (to_decimal r) (r < 0) ds fs"
    unfolding decimal_literal_def using ds fs(1)
    by (intro exI [of _ "if r < 0 then ''-'' else []"] exI [of _ "if fp \<noteq> 0 then ''.'' else []"])
      (simp add: fs_def)
  ultimately show ?thesis by blast
qed

lemma from_decimal_literal:
  "from_decimal s = Some r \<longleftrightarrow>
    (\<exists>neg ds fs. decimal_literal s neg ds fs \<and> \<bar>r\<bar> \<le> i64_max \<and>
       r * 10 ^ length fs = (if neg then - 1 else 1) * digits_val (ds @ fs) * 10 ^ 8)"
proof
  assume "from_decimal s = Some r"
  then obtain sg b m where s: "s = sg @ b" "sg \<in> {[], ''+'', ''-''}" and mag: "dec_magnitude b = Some m" and
     r: "r = (if sg = ''-'' then - m else m)" unfolding from_decimal_iff by blast
  from mag obtain ds dot fs where b: "b = ds @ dot @ fs"
      "dot = ''.'' \<or> dot = [] \<and> fs = []" "list_all is_digit ds" "list_all is_digit fs" "ds \<noteq> [] \<or> fs \<noteq> []"
      and eq: "m * 10 ^ length fs = digits_val (ds @ fs) * 10 ^ 8" and le: "m \<le> i64_max"
      unfolding dec_magnitude_iff by blast
  have "decimal_literal s (sg = ''-'') ds fs"
    unfolding decimal_literal_def using b s by (intro exI [of _ sg] exI [of _ dot]) simp
  moreover have "\<bar>r\<bar> \<le> i64_max" using dec_magnitude_nonneg [OF mag] le r by simp
  moreover have "r * 10 ^ length fs = (if sg = ''-'' then - 1 else 1) * digits_val (ds @ fs) * 10 ^ 8"
    using eq r by (simp del: power_numeral)
  ultimately show "\<exists>neg ds fs. decimal_literal s neg ds fs \<and> \<bar>r\<bar> \<le> i64_max \<and>
       r * 10 ^ length fs = (if neg then - 1 else 1) * digits_val (ds @ fs) * 10 ^ 8"
    by blast
next
  assume "\<exists>neg ds fs. decimal_literal s neg ds fs \<and> \<bar>r\<bar> \<le> i64_max \<and>
       r * 10 ^ length fs = (if neg then - 1 else 1) * digits_val (ds @ fs) * 10 ^ 8"
  then obtain neg ds fs sg dot where s: "s = sg @ ds @ dot @ fs" "sg \<in> {[], ''+'', ''-''}" "neg \<longleftrightarrow> sg = ''-''"
      and d: "dot = ''.'' \<or> dot = [] \<and> fs = []" "list_all is_digit ds" "list_all is_digit fs" "ds \<noteq> [] \<or> fs \<noteq> []"
      and r: "\<bar>r\<bar> \<le> i64_max" and eq: "r * 10 ^ length fs = (if neg then - 1 else 1) * digits_val (ds @ fs) * 10 ^ 8"
    unfolding decimal_literal_def by blast
  have eq': "(if neg then - r else r) * 10 ^ length fs = digits_val (ds @ fs) * 10 ^ 8"
    using eq by (cases neg) (simp_all del: power_numeral)
  have "(if neg then - r else r) \<le> i64_max" using r by auto
  with eq' d have "dec_magnitude (ds @ dot @ fs) = Some (if neg then - r else r)"
    unfolding dec_magnitude_iff by blast
  then show "from_decimal s = Some r"
    unfolding from_decimal_iff using s
    by (intro exI [of _ sg] exI [of _ "ds @ dot @ fs"] exI [of _ "if neg then - r else r"]) simp
qed

section \<open>Properties\<close>

text \<open>Whichever of the 64-bit and the 128-bit path \<^verbatim>\<open>detail::mul_div\<close> takes, it
  returns the exact product divided with truncation and reduced to 64 bits, for every divisor
  but 0; so does the overload for a constant divisor other than \<open>- 1\<close>.\<close>

theorem mul_div_exact:
  assumes "d \<noteq> 0" and "D \<noteq> 0" and "D \<noteq> - 1"
  shows "mul_div a b d = i64 ((a * b) sdiv d) \<and> mul_div_c D a b = i64 ((a * b) sdiv D)"
  using assms by (simp add: mul_div_ref mul_div_c_ref)

theorem mul_div_exact_witness:
  "mul_div 9000000000000000000 300000000 100000000 = i64 27000000000000000000 \<and>
   mul_div_c 100000000 (- 5) 30000000 = - 1"
  using mul_div_exact [of 100000000 100000000 9000000000000000000 300000000]
    mul_div_exact [of 1 100000000 "- 5" 30000000]
  by (simp add: sdiv_pos sdiv_neg in_i64_def i64_min_def i64_max_def)

text \<open>Rounding a price to the tick grid gives a multiple of the tick, never on the
  aggressive side (down for a bid, up for an ask), by less than a tick, and leaves a price
  already on the grid alone.\<close>

theorem round_to_tick_passive:
  assumes "0 < tick"
  shows "on_tick (round_to_tick p tick s) tick \<and>
    0 \<le> side_sign s * (p - round_to_tick p tick s) \<and>
    side_sign s * (p - round_to_tick p tick s) < tick \<and>
    (on_tick p tick \<longrightarrow> round_to_tick p tick s = p)"
proof -
  have "on_tick (round_to_tick p tick s) tick"
    using assms round_to_tick_grid by (simp add: on_tick_def smod_0_iff_dvd)
  moreover have "on_tick p tick \<Longrightarrow> round_to_tick p tick s = p"
    using round_to_tick_offset [OF assms, of s p] by (cases s) (auto simp: side_sign_def on_tick_def smod_0_iff_dvd)
  ultimately show ?thesis
    using assms by (simp add: round_to_tick_offset)
qed

theorem round_to_tick_passive_witness:
  "on_tick (round_to_tick (- 7) 5 Sell) 5 \<and> round_to_tick (- 7) 5 Sell = - 5 \<and> round_to_tick (- 7) 5 Buy = - 10"
  using round_to_tick_passive [of 5 "- 7" Sell] by (simp add: round_to_tick_Buy round_to_tick_Sell)

text \<open>Rounding a non-negative price to the nearest tick lands on the grid at most half a
  tick away.\<close>

theorem round_to_tick_nearest_half:
  assumes "0 < tick" and "0 \<le> p"
  shows "tick dvd round_to_tick_nearest p tick \<and> 2 * \<bar>round_to_tick_nearest p tick - p\<bar> \<le> tick"
  using assms nearest_multiple_dist [OF assms]
  by (simp add: round_to_tick_nearest_eq minus_mod_eq_div_mult)

theorem round_to_tick_nearest_half_witness:
  "(5::int) dvd round_to_tick_nearest 13 5 \<and> round_to_tick_nearest 13 5 = 15"
  using round_to_tick_nearest_half [of 5 13] by (simp add: round_to_tick_nearest_eq)

text \<open>For a negative price the same function is off: the floor division comes after the
  half tick was subtracted, so it goes a full tick too low, and \<open>-6\<close> on a grid of \<open>10\<close> becomes
  \<open>-20\<close> although \<open>-10\<close> is nearer.\<close>

theorem round_to_tick_nearest_negative:
  "round_to_tick_nearest (- 6) 10 = - 20 \<and> round_to_tick_nearest (- 1) 10 = - 10"
  by (simp add: round_to_tick_nearest_def floor_div_eq sdiv_pos)

text \<open>C39: \<^verbatim>\<open>from_decimal\<close> accepts exactly the decimal literals whose value is a multiple of
  \<open>1e-8\<close> of magnitude at most \<open>INT64_MAX\<close> in raw units, and returns that value with no rounding;
  every other string is rejected.\<close>

theorem from_decimal_exact:
  "from_decimal s = Some r \<longleftrightarrow>
    (\<exists>neg ds fs. decimal_literal s neg ds fs \<and> \<bar>r\<bar> \<le> i64_max \<and>
       r * 10 ^ length fs = (if neg then - 1 else 1) * digits_val (ds @ fs) * 10 ^ 8)"
  by (rule from_decimal_literal)

text \<open>C40: printing a value with \<^verbatim>\<open>to_decimal\<close> and parsing it back gives the value, for
  every 64-bit value but \<open>INT64_MIN\<close>, whose magnitude the parser refuses.\<close>

theorem decimal_round_trip:
  assumes "in_i64 r" "r \<noteq> i64_min"
  shows "from_decimal (to_decimal r) = Some r"
proof -
  obtain ds fs where lit: "decimal_literal (to_decimal r) (r < 0) ds fs"
    and eq: "\<bar>r\<bar> * 10 ^ length fs = digits_val (ds @ fs) * 10 ^ 8" using to_decimal_literal [OF refl] by blast
  have "r * 10 ^ length fs = (if r < 0 then - 1 else 1) * (\<bar>r\<bar> * 10 ^ length fs)" by simp
  then have "r * 10 ^ length fs = (if r < 0 then - 1 else 1) * digits_val (ds @ fs) * 10 ^ 8"
    unfolding eq by (simp only: mult.assoc)
  moreover have "\<bar>r\<bar> \<le> i64_max" using assms by (auto simp: in_i64_def i64_min_def i64_max_def)
  ultimately show ?thesis unfolding from_decimal_literal using lit by blast
qed

theorem decimal_round_trip_witness:
  "from_decimal (to_decimal (- 123450000)) = Some (- 123450000)"
  by (rule decimal_round_trip) (simp_all add: in_i64_def i64_min_def i64_max_def)

end
