(* ===== verification/RingBuffer.thy ===== *)
theory RingBuffer
  imports Prelude
begin

text \<open>
  \<^verbatim>\<open>include/fastmm/core/containers/ring_buffer.hpp\<close>: \<^verbatim>\<open>RingBuffer<T, N>\<close> with
  \<open>N = 2 ^ rb_bits\<close>. The two positions are 64-bit counters that only ever grow, modulo
  \<open>2 ^ 64\<close>; the lemmas hold across that wrap-around.
\<close>

section \<open>The buffer\<close>

record 'a ring_buffer =
  rb_bits :: nat
  rb_head :: u64
  rb_tail :: u64
  rb_buf :: "nat \<Rightarrow> 'a"

definition rb_N :: "'a ring_buffer \<Rightarrow> u64" where
  "rb_N r = 2 ^ rb_bits r"

text \<open>\<^verbatim>\<open>pos & (N - 1)\<close>\<close>

definition rb_slot :: "'a ring_buffer \<Rightarrow> u64 \<Rightarrow> nat" where
  "rb_slot r pos = unat (pos AND (rb_N r - 1))"

definition rb_size :: "'a ring_buffer \<Rightarrow> u64" where
  "rb_size r = rb_tail r - rb_head r"

definition rb_empty :: "'a ring_buffer \<Rightarrow> bool" where
  "rb_empty r \<longleftrightarrow> rb_head r = rb_tail r"

definition rb_full :: "'a ring_buffer \<Rightarrow> bool" where
  "rb_full r \<longleftrightarrow> rb_size r = rb_N r"

definition rb_clear :: "'a ring_buffer \<Rightarrow> 'a ring_buffer" where
  "rb_clear r = r\<lparr>rb_head := 0, rb_tail := 0\<rparr>"

definition rb_new :: "nat \<Rightarrow> (nat \<Rightarrow> 'a) \<Rightarrow> 'a ring_buffer" where
  "rb_new b buf = \<lparr>rb_bits = b, rb_head = 0, rb_tail = 0, rb_buf = buf\<rparr>"

definition rb_write :: "'a ring_buffer \<Rightarrow> 'a \<Rightarrow> 'a ring_buffer" where
  "rb_write r v = r\<lparr>rb_buf := (rb_buf r)(rb_slot r (rb_tail r) := v), rb_tail := rb_tail r + 1\<rparr>"

definition rb_push :: "'a ring_buffer \<Rightarrow> 'a \<Rightarrow> 'a ring_buffer" where
  "rb_push r v = rb_write (if rb_full r then r\<lparr>rb_head := rb_head r + 1\<rparr> else r) v"

definition rb_try_push :: "'a ring_buffer \<Rightarrow> 'a \<Rightarrow> 'a ring_buffer \<times> bool" where
  "rb_try_push r v = (if rb_full r then (r, False) else (rb_write r v, True))"

definition rb_pop :: "'a ring_buffer \<Rightarrow> 'a ring_buffer \<times> 'a option" where
  "rb_pop r =
     (if rb_empty r then (r, None)
      else (r\<lparr>rb_head := rb_head r + 1\<rparr>, Some (rb_buf r (rb_slot r (rb_head r)))))"

definition rb_front :: "'a ring_buffer \<Rightarrow> 'a" where
  "rb_front r = rb_buf r (rb_slot r (rb_head r))"

definition rb_back :: "'a ring_buffer \<Rightarrow> 'a" where
  "rb_back r = rb_buf r (rb_slot r (rb_tail r - 1))"

definition rb_nth :: "'a ring_buffer \<Rightarrow> u64 \<Rightarrow> 'a" where
  "rb_nth r i = rb_buf r (rb_slot r (rb_head r + i))"

text \<open>\<^verbatim>\<open>at_pos\<close>: the slot of a position that is still in the buffer.\<close>

definition rb_at_pos :: "'a ring_buffer \<Rightarrow> u64 \<Rightarrow> nat option" where
  "rb_at_pos r pos = (if pos - rb_head r < rb_size r then Some (rb_slot r pos) else None)"

fun rb_find_from :: "'a ring_buffer \<Rightarrow> ('a \<Rightarrow> bool) \<Rightarrow> nat \<Rightarrow> 'a option" where
  "rb_find_from r P 0 = None"
| "rb_find_from r P (Suc i) =
     (let e = rb_nth r (of_nat i) in if P e then Some e else rb_find_from r P i)"

definition rb_find_if :: "'a ring_buffer \<Rightarrow> ('a \<Rightarrow> bool) \<Rightarrow> 'a option" where
  "rb_find_if r P = rb_find_from r P (unat (rb_size r))"

section \<open>Contents and invariant\<close>

definition rb_list :: "'a ring_buffer \<Rightarrow> 'a list" where
  "rb_list r = map (\<lambda>i. rb_buf r ((unat (rb_head r) + i) mod 2 ^ rb_bits r)) [0..<unat (rb_size r)]"

definition rb_inv :: "'a ring_buffer \<Rightarrow> bool" where
  "rb_inv r \<longleftrightarrow> rb_bits r \<le> 63 \<and> unat (rb_size r) \<le> 2 ^ rb_bits r"

section \<open>Positions modulo the capacity\<close>

lemma pow_dvd_64: "b \<le> 64 \<Longrightarrow> (2::nat) ^ b dvd 18446744073709551616"
  using le_imp_power_dvd [of b 64 "2::nat"] by simp

lemma pow_less_64: "b \<le> 63 \<Longrightarrow> (2::nat) ^ b < 18446744073709551616"
  using power_strict_increasing [of b 64 "2::nat"] by simp

lemma mask_slot: "unat ((pos::u64) AND (2 ^ b - 1)) = unat pos mod 2 ^ b"
proof -
  have "pos AND (2 ^ b - 1) = take_bit b pos"
    by (simp only: take_bit_eq_mask mask_eq_exp_minus_1)
  then show ?thesis by (simp only: unsigned_take_bit_eq take_bit_eq_mod [where ?'a = nat])
qed

lemma rb_slot_eq: "rb_slot r pos = unat pos mod 2 ^ rb_bits r"
  by (simp add: rb_slot_def rb_N_def mask_slot)

lemma unat_add_mod: "b \<le> 64 \<Longrightarrow> unat (x + y :: u64) mod 2 ^ b = (unat x + unat y) mod 2 ^ b"
  by (simp add: unat_word_ariths(1) mod_mod_cancel pow_dvd_64)

lemma unat_of_nat_mod: "b \<le> 64 \<Longrightarrow> unat (of_nat i :: u64) mod 2 ^ b = i mod 2 ^ b"
  by (simp add: unat_of_nat mod_mod_cancel pow_dvd_64)

lemma slot_off:
  assumes "b \<le> 64"
  shows "unat (h + of_nat i :: u64) mod 2 ^ b = (unat h + i) mod 2 ^ b"
proof -
  have "unat (h + of_nat i :: u64) mod 2 ^ b = (unat h + unat (of_nat i :: u64) mod 2 ^ b) mod 2 ^ b"
    using unat_add_mod [OF assms] by (simp add: mod_add_right_eq)
  then show ?thesis by (simp only: unat_of_nat_mod [OF assms] mod_add_right_eq)
qed

lemma unat_pow: "b \<le> 63 \<Longrightarrow> unat (2 ^ b :: u64) = 2 ^ b"
proof -
  assume b: "b \<le> 63"
  have "unat (of_nat (2 ^ b) :: u64) = 2 ^ b" using pow_less_64 [OF b] by (simp only: unat_of_nat) simp
  then show ?thesis by simp
qed

section \<open>Operations on the contents\<close>

lemma rb_tail_pos: "rb_tail r = rb_head r + of_nat (unat (rb_size r))"
  by (simp add: rb_size_def)

lemma rb_tail_slot: "rb_inv r \<Longrightarrow> rb_slot r (rb_tail r) = (unat (rb_head r) + unat (rb_size r)) mod 2 ^ rb_bits r"
  by (simp only: rb_tail_pos rb_slot_eq) (rule slot_off, simp add: rb_inv_def)

lemma rb_length: "length (rb_list r) = unat (rb_size r)"
  by (simp add: rb_list_def)

lemma rb_full_iff: "rb_inv r \<Longrightarrow> rb_full r \<longleftrightarrow> length (rb_list r) = 2 ^ rb_bits r"
  using unat_pow [of "rb_bits r"] by (simp add: rb_full_def rb_N_def rb_length rb_inv_def word_unat_eq_iff)

lemma mod_distinct: "i < s \<Longrightarrow> s - i < n \<Longrightarrow> (h + i) mod n \<noteq> (h + s) mod (n::nat)"
proof
  assume a: "i < s" "s - i < n" "(h + i) mod n = (h + s) mod n"
  then have "n dvd (h + s) - (h + i)" using mod_eq_dvd_iff_nat [of "h + i" "h + s" n] by auto
  then have "n dvd s - i" by simp
  then show False using a by (simp add: nat_dvd_not_less)
qed

lemma unat_size_succ: "rb_inv r \<Longrightarrow> unat (rb_size r) < 2 ^ rb_bits r \<Longrightarrow> unat (rb_size r + 1) = Suc (unat (rb_size r))"
proof -
  assume a: "rb_inv r" "unat (rb_size r) < 2 ^ rb_bits r"
  have "(2::nat) ^ rb_bits r \<le> 2 ^ 63" using a(1) by (intro power_increasing) (auto simp: rb_inv_def)
  then have "unat (rb_size r) + 1 < 2 ^ 64" using a(2) by simp
  then show ?thesis by (simp add: unat_word_ariths(1))
qed

lemma rb_write_list:
  assumes inv: "rb_inv r" and room: "length (rb_list r) < 2 ^ rb_bits r"
  shows "rb_list (rb_write r v) = rb_list r @ [v] \<and> rb_inv (rb_write r v) \<and> rb_bits (rb_write r v) = rb_bits r"
proof -
  let ?s = "unat (rb_size r)" and ?n = "2 ^ rb_bits r :: nat" and ?h = "unat (rb_head r)"
  have s: "?s < ?n" using room by (simp add: rb_length)
  have size: "rb_size (rb_write r v) = rb_size r + 1" by (simp add: rb_write_def rb_size_def)
  have usize: "unat (rb_size (rb_write r v)) = Suc ?s" unfolding size by (rule unat_size_succ [OF inv s])
  have buf: "rb_buf (rb_write r v) = (rb_buf r)((?h + ?s) mod ?n := v)"
    by (simp add: rb_write_def rb_tail_slot [OF inv])
  have "(?h + i) mod ?n \<noteq> (?h + ?s) mod ?n" if "i < ?s" for i
    using mod_distinct [OF that, of ?n ?h] s by simp
  then have "rb_list (rb_write r v) = rb_list r @ [v]"
    unfolding rb_list_def usize buf by (simp add: rb_write_def)
  then show ?thesis using inv s usize by (simp add: rb_inv_def rb_write_def [of r v])
qed

lemma rb_drop_list:
  assumes inv: "rb_inv r" and ne: "rb_list r \<noteq> []"
  shows "rb_list (r\<lparr>rb_head := rb_head r + 1\<rparr>) = tl (rb_list r) \<and> rb_inv (r\<lparr>rb_head := rb_head r + 1\<rparr>)"
proof -
  let ?s = "unat (rb_size r)" and ?n = "2 ^ rb_bits r :: nat" and ?h = "unat (rb_head r)"
  have pos: "0 < ?s" using ne by (simp add: rb_list_def)
  have size: "rb_size (r\<lparr>rb_head := rb_head r + 1\<rparr>) = rb_size r - 1" by (simp add: rb_size_def)
  have us: "unat (rb_size r - 1) = ?s - 1" using pos by (simp add: unat_sub word_le_nat_alt)
  have slot: "(unat (rb_head r + 1) + i) mod ?n = (?h + Suc i) mod ?n" for i
    using slot_off [of "rb_bits r" "rb_head r" 1] inv by (simp add: rb_inv_def) (metis mod_add_left_eq add_Suc)
  have "rb_list (r\<lparr>rb_head := rb_head r + 1\<rparr>) = map (\<lambda>i. rb_buf r ((?h + Suc i) mod ?n)) [0..<?s - 1]"
    unfolding rb_list_def size us by (simp add: slot)
  also have "\<dots> = map (\<lambda>i. rb_buf r ((?h + i) mod ?n)) [Suc 0..<?s]"
  proof -
    have "[Suc 0..<?s] = map Suc [0..<?s - 1]" using pos by (simp add: map_Suc_upt)
    then show ?thesis by (simp only: map_map o_def)
  qed
  also have "\<dots> = tl (rb_list r)" using pos by (simp add: rb_list_def map_tl [symmetric] tl_upt)
  finally show ?thesis using inv us size by (auto simp: rb_inv_def)
qed

lemma rb_push_list:
  assumes inv: "rb_inv r"
  shows "rb_list (rb_push r v) = (if rb_full r then tl (rb_list r) else rb_list r) @ [v] \<and> rb_inv (rb_push r v) \<and>
    rb_bits (rb_push r v) = rb_bits r"
proof (cases "rb_full r")
  case True
  have l: "length (rb_list r) = 2 ^ rb_bits r" using True rb_full_iff [OF inv] by simp
  then have "rb_list r \<noteq> []" by auto
  note d = rb_drop_list [OF inv this]
  have "length (rb_list (r\<lparr>rb_head := rb_head r + 1\<rparr>)) < 2 ^ rb_bits r" using d l by simp
  then show ?thesis using rb_write_list [of "r\<lparr>rb_head := rb_head r + 1\<rparr>" v] d True by (simp add: rb_push_def)
next
  case False
  have "length (rb_list r) < 2 ^ rb_bits r" using False rb_full_iff [OF inv] inv by (simp add: rb_length rb_inv_def)
  then show ?thesis using rb_write_list [OF inv] False by (simp add: rb_push_def)
qed

lemma rb_empty_iff: "rb_empty r \<longleftrightarrow> rb_list r = []"
  by (auto simp: rb_empty_def rb_list_def rb_size_def unat_eq_0)

lemma rb_front_hd: "rb_list r \<noteq> [] \<Longrightarrow> rb_front r = hd (rb_list r)"
  by (simp add: rb_front_def rb_list_def rb_slot_eq hd_map)

lemma rb_pop_list:
  assumes "rb_inv r"
  shows "rb_list r = [] \<and> rb_pop r = (r, None) \<or>
    (\<exists>r'. rb_pop r = (r', Some (hd (rb_list r))) \<and> rb_list r' = tl (rb_list r) \<and> rb_inv r' \<and> rb_list r \<noteq> [])"
  using rb_drop_list [OF assms] rb_front_hd [of r]
  by (auto simp: rb_pop_def rb_empty_iff rb_front_def)

lemma rb_nth_list: "rb_inv r \<Longrightarrow> i < length (rb_list r) \<Longrightarrow> rb_nth r (of_nat i) = rb_list r ! i"
  by (simp add: rb_nth_def rb_slot_eq slot_off rb_inv_def rb_list_def)

lemma rb_find_from_list:
  "rb_inv r \<Longrightarrow> i \<le> length (rb_list r) \<Longrightarrow> rb_find_from r P i = find P (rev (take i (rb_list r)))"
  by (induction i) (auto simp: Let_def rb_nth_list take_Suc_conv_app_nth)

lemma rb_at_pos_list:
  assumes "rb_inv r" "i < length (rb_list r)"
  shows "rb_at_pos r (rb_head r + of_nat i) = Some ((unat (rb_head r) + i) mod 2 ^ rb_bits r)"
proof -
  have "i < 2 ^ 64"
    using assms(2) unat_u64_less [of "rb_size r"] by (simp add: rb_length)
  then have "unat (of_nat i :: u64) = i" by (simp add: unat_of_nat)
  then show ?thesis
    using assms by (simp add: rb_at_pos_def word_less_nat_alt rb_length rb_slot_eq slot_off rb_inv_def)
qed

section \<open>The contract of a bounded queue\<close>

locale bounded_queue =
  fixes inv :: "'q \<Rightarrow> bool" and contents :: "'q \<Rightarrow> 'a list" and cap :: "'q \<Rightarrow> nat"
    and push :: "'q \<Rightarrow> 'a \<Rightarrow> 'q \<times> bool" and pop :: "'q \<Rightarrow> 'q \<times> 'a option"
  assumes bounded: "inv q \<Longrightarrow> length (contents q) \<le> cap q"
    and push_law: "inv q \<Longrightarrow> push q x = (q', ok) \<Longrightarrow>
      inv q' \<and> cap q' = cap q \<and> ok = (length (contents q) < cap q) \<and>
      contents q' = (if ok then contents q @ [x] else contents q)"
    and pop_law: "inv q \<Longrightarrow> pop q = (q', r) \<Longrightarrow>
      inv q' \<and> cap q' = cap q \<and>
      (case contents q of [] \<Rightarrow> r = None \<and> contents q' = [] | y # ys \<Rightarrow> r = Some y \<and> contents q' = ys)"

text \<open>A client pushes and pops in any order; what it pushed and what it popped.\<close>

datatype 'a queue_op = Push 'a | Pop

fun queue_run :: "('q \<Rightarrow> 'a \<Rightarrow> 'q \<times> bool) \<Rightarrow> ('q \<Rightarrow> 'q \<times> 'a option) \<Rightarrow> 'a queue_op list \<Rightarrow> 'q \<Rightarrow> 'q \<times> 'a list \<times> 'a list" where
  "queue_run push pop [] q = (q, [], [])"
| "queue_run push pop (Push x # ops) q =
     (case push q x of (q', ok) \<Rightarrow>
        (case queue_run push pop ops q' of (r, ins, outs) \<Rightarrow> (r, (if ok then x # ins else ins), outs)))"
| "queue_run push pop (Pop # ops) q =
     (case pop q of (q', y) \<Rightarrow>
        (case queue_run push pop ops q' of
           (r, ins, outs) \<Rightarrow> (r, ins, (case y of None \<Rightarrow> outs | Some z \<Rightarrow> z # outs))))"

context bounded_queue
begin

lemma run_fifo:
  "inv q \<Longrightarrow> queue_run push pop ops q = (q', ins, outs) \<Longrightarrow>
   inv q' \<and> cap q' = cap q \<and> contents q @ ins = outs @ contents q'"
proof (induction ops arbitrary: q q' ins outs)
  case (Cons x ops)
  show ?case
  proof (cases x)
    case (Push a)
    obtain q1 ok where s: "push q a = (q1, ok)" by fastforce
    obtain r i o1 where r: "queue_run push pop ops q1 = (r, i, o1)" by (metis prod.collapse)
    have "inv q1" "cap q1 = cap q" "contents q1 = (if ok then contents q @ [a] else contents q)"
      using push_law [OF Cons.prems(1) s] by auto
    then show ?thesis using Cons.IH [OF _ r] Cons.prems(2) Push s r by (cases ok) auto
  next
    case Pop
    obtain q1 y where s: "pop q = (q1, y)" by fastforce
    obtain r i o1 where r: "queue_run push pop ops q1 = (r, i, o1)" by (metis prod.collapse)
    have q1: "inv q1" "cap q1 = cap q"
      "case contents q of [] \<Rightarrow> y = None \<and> contents q1 = [] | z # zs \<Rightarrow> y = Some z \<and> contents q1 = zs"
      using pop_law [OF Cons.prems(1) s] by auto
    then show ?thesis using Cons.IH [OF q1(1) r] Cons.prems(2) Pop s r by (cases "contents q") auto
  qed
qed auto

end

interpretation rb: bounded_queue rb_inv rb_list "\<lambda>r. 2 ^ rb_bits r" rb_try_push rb_pop
proof unfold_locales
  fix q q' :: "'a ring_buffer" and x ok r
  show "rb_inv q \<Longrightarrow> length (rb_list q) \<le> 2 ^ rb_bits q" by (simp add: rb_inv_def rb_length)
  show "rb_inv q \<Longrightarrow> rb_try_push q x = (q', ok) \<Longrightarrow>
      rb_inv q' \<and> (2::nat) ^ rb_bits q' = 2 ^ rb_bits q \<and> ok = (length (rb_list q) < 2 ^ rb_bits q) \<and>
      rb_list q' = (if ok then rb_list q @ [x] else rb_list q)"
    using rb_write_list [of q x] rb_full_iff [of q] rb_length [of q]
    by (cases "rb_full q") (auto simp: rb_try_push_def rb_inv_def)
  show "rb_inv q \<Longrightarrow> rb_pop q = (q', r) \<Longrightarrow>
      rb_inv q' \<and> (2::nat) ^ rb_bits q' = 2 ^ rb_bits q \<and>
      (case rb_list q of [] \<Rightarrow> r = None \<and> rb_list q' = [] | y # ys \<Rightarrow> r = Some y \<and> rb_list q' = ys)"
    using rb_pop_list [of q] by (auto simp: rb_pop_def split: list.splits if_splits)
qed

section \<open>Properties\<close>

text \<open>Whatever a client pushes with \<^verbatim>\<open>try_push\<close> and pops, elements leave the buffer in the
  order they went in, none lost and none twice, also when the 64-bit positions wrap around.\<close>

theorem ring_buffer_fifo:
  assumes "rb_inv r" and "queue_run rb_try_push rb_pop ops r = (r', ins, outs)"
  shows "rb_list r @ ins = outs @ rb_list r' \<and> length (rb_list r') \<le> 2 ^ rb_bits r"
  using rb.run_fifo [OF assms] rb.bounded [of r'] by auto

theorem ring_buffer_fifo_witness:
  "snd (snd (queue_run rb_try_push rb_pop [Push True, Push False, Pop, Push True, Pop, Pop]
     \<lparr>rb_bits = 1, rb_head = - 1, rb_tail = - 1, rb_buf = (\<lambda>i. False)\<rparr>)) = [True, False, True]"
proof -
  define r where "r = \<lparr>rb_bits = 1, rb_head = - 1, rb_tail = - 1, rb_buf = (\<lambda>i. False)\<rparr>"
  define q where "q = queue_run rb_try_push rb_pop [Push True, Push False, Pop, Push True, Pop, Pop] r"
  have "rb_inv r" "rb_list r = []" by (simp_all add: r_def rb_inv_def rb_size_def rb_list_def)
  moreover have "rb_list (fst q) = []" "fst (snd q) = [True, False, True]"
    unfolding q_def r_def by code_simp+
  moreover have "queue_run rb_try_push rb_pop [Push True, Push False, Pop, Push True, Pop, Pop] r =
    (fst q, fst (snd q), snd (snd q))" unfolding q_def by (simp only: prod.collapse)
  ultimately have "snd (snd q) = [True, False, True]" using ring_buffer_fifo by (metis append_Nil append_Nil2)
  then show ?thesis by (simp only: q_def r_def)
qed

text \<open>\<^verbatim>\<open>push\<close> always stores its element as the newest and evicts the oldest exactly when the
  buffer is full; \<^verbatim>\<open>find_if\<close> returns the newest element that satisfies the predicate.\<close>

theorem ring_buffer_push_evicts:
  assumes "rb_inv r"
  shows "rb_inv (rb_push r v) \<and>
    rb_list (rb_push r v) = drop (length (rb_list r) + 1 - 2 ^ rb_bits r) (rb_list r) @ [v] \<and>
    rb_find_if r P = find P (rev (rb_list r))"
proof -
  have "rb_find_if r P = find P (rev (rb_list r))"
    using rb_find_from_list [OF assms, of "length (rb_list r)" P] by (simp add: rb_find_if_def rb_length)
  moreover have "(if rb_full r then tl (rb_list r) else rb_list r) = drop (length (rb_list r) + 1 - 2 ^ rb_bits r) (rb_list r)"
    using rb_full_iff [OF assms] rb.bounded [OF assms] by (auto simp: drop_Suc)
  ultimately show ?thesis using rb_push_list [OF assms, of v] by simp
qed

theorem ring_buffer_push_evicts_witness:
  "rb_list (rb_push (rb_push (rb_push (rb_new 1 (\<lambda>i. False)) True) False) False) = [False, False]"
proof -
  let ?r = "rb_push (rb_push (rb_new 1 (\<lambda>i. False)) True) False"
  have "rb_inv ?r" "rb_list ?r = [True, False]" "rb_bits ?r = 1" by code_simp+
  then show ?thesis using ring_buffer_push_evicts [of ?r False] by simp
qed

end
