(* ===== verification/SpscRing.thy ===== *)
theory SpscRing
  imports RingBuffer
begin

text \<open>
  \<^verbatim>\<open>include/fastmm/core/spsc_ring.hpp\<close>: \<^verbatim>\<open>SpscRing<T, N>\<close>, the wait-free ring between one
  producer thread and one consumer thread. The two threads interleave at every access to shared
  memory: a step of the relation \<open>spsc_step\<close> is one load, store or buffer access of
  \<^verbatim>\<open>try_push\<close> or \<^verbatim>\<open>try_pop\<close> (\<^verbatim>\<open>try_reserve\<close> and \<^verbatim>\<open>commit\<close> are the same steps with the
  write done by the caller). An acquire load of the other side's index may return any value
  that index has had since the last load, so a stale index is part of the model. \<open>sp_in\<close> and
  \<open>sp_out\<close> record what was published and what was consumed; no step reads them.
\<close>

section \<open>The two threads\<close>

datatype 'a producer = PIdle | PFull 'a | PRoom 'a | PWritten 'a

datatype 'a consumer = CIdle | CReload | CFront | CRead 'a

record 'a spsc =
  sp_bits :: nat
  sp_buf :: "nat \<Rightarrow> 'a"
  sp_tail :: u64
  sp_head_cache :: u64
  sp_head :: u64
  sp_tail_cache :: u64
  sp_prod :: "'a producer"
  sp_cons :: "'a consumer"
  sp_in :: "'a list"
  sp_out :: "'a list"

definition sp_slot :: "'a spsc \<Rightarrow> u64 \<Rightarrow> nat" where
  "sp_slot s pos = unat (pos AND (2 ^ sp_bits s - 1))"

definition sp_no_room :: "'a spsc \<Rightarrow> u64 \<Rightarrow> bool" where
  "sp_no_room s cache \<longleftrightarrow> sp_tail s - cache \<ge> 2 ^ sp_bits s"

text \<open>What an acquire load of an index that moved from \<open>old\<close> to \<open>now\<close> may return.\<close>

definition seen_between :: "u64 \<Rightarrow> u64 \<Rightarrow> u64 \<Rightarrow> bool" where
  "seen_between old now v \<longleftrightarrow> v - old \<le> now - old"

inductive spsc_step :: "'a spsc \<Rightarrow> 'a spsc \<Rightarrow> bool" where
  push_begin: "sp_prod s = PIdle \<Longrightarrow>
    spsc_step s (s\<lparr>sp_prod := (if sp_no_room s (sp_head_cache s) then PFull v else PRoom v)\<rparr>)"
| push_reload: "sp_prod s = PFull v \<Longrightarrow> seen_between (sp_head_cache s) (sp_head s) h \<Longrightarrow>
    spsc_step s (s\<lparr>sp_head_cache := h, sp_prod := (if sp_no_room s h then PIdle else PRoom v)\<rparr>)"
| push_write: "sp_prod s = PRoom v \<Longrightarrow>
    spsc_step s (s\<lparr>sp_buf := (sp_buf s)(sp_slot s (sp_tail s) := v), sp_prod := PWritten v\<rparr>)"
| push_publish: "sp_prod s = PWritten v \<Longrightarrow>
    spsc_step s (s\<lparr>sp_tail := sp_tail s + 1, sp_prod := PIdle, sp_in := sp_in s @ [v]\<rparr>)"
| pop_begin: "sp_cons s = CIdle \<Longrightarrow>
    spsc_step s (s\<lparr>sp_cons := (if sp_head s = sp_tail_cache s then CReload else CFront)\<rparr>)"
| pop_reload: "sp_cons s = CReload \<Longrightarrow> seen_between (sp_tail_cache s) (sp_tail s) t \<Longrightarrow>
    spsc_step s (s\<lparr>sp_tail_cache := t, sp_cons := (if sp_head s = t then CIdle else CFront)\<rparr>)"
| pop_read: "sp_cons s = CFront \<Longrightarrow>
    spsc_step s (s\<lparr>sp_cons := CRead (sp_buf s (sp_slot s (sp_head s)))\<rparr>)"
| pop_advance: "sp_cons s = CRead x \<Longrightarrow>
    spsc_step s (s\<lparr>sp_head := sp_head s + 1, sp_cons := CIdle, sp_out := sp_out s @ [x]\<rparr>)"

definition spsc_init :: "nat \<Rightarrow> (nat \<Rightarrow> 'a) \<Rightarrow> 'a spsc" where
  "spsc_init b buf =
     \<lparr>sp_bits = b, sp_buf = buf, sp_tail = 0, sp_head_cache = 0, sp_head = 0, sp_tail_cache = 0,
      sp_prod = PIdle, sp_cons = CIdle, sp_in = [], sp_out = []\<rparr>"

inductive spsc_reachable :: "nat \<Rightarrow> (nat \<Rightarrow> 'a) \<Rightarrow> 'a spsc \<Rightarrow> bool" for b buf where
  start: "spsc_reachable b buf (spsc_init b buf)"
| step: "spsc_reachable b buf s \<Longrightarrow> spsc_step s s' \<Longrightarrow> spsc_reachable b buf s'"

section \<open>Invariant\<close>

text \<open>The ring between the two indices, as the single-threaded buffer of the same shape.\<close>

definition sp_ring :: "'a spsc \<Rightarrow> 'a ring_buffer" where
  "sp_ring s = \<lparr>rb_bits = sp_bits s, rb_head = sp_head s, rb_tail = sp_tail s, rb_buf = sp_buf s\<rparr>"

definition sp_queued :: "'a spsc \<Rightarrow> 'a list" where
  "sp_queued s = rb_list (sp_ring s)"

definition spsc_inv :: "'a spsc \<Rightarrow> bool" where
  "spsc_inv s \<longleftrightarrow>
     rb_inv (sp_ring s) \<and> sp_in s = sp_out s @ sp_queued s \<and>
     unat (sp_head s - sp_head_cache s) + unat (sp_tail s - sp_head s) \<le> 2 ^ sp_bits s \<and>
     unat (sp_tail_cache s - sp_head s) \<le> unat (sp_tail s - sp_head s) \<and>
     (case sp_prod s of
        PRoom v \<Rightarrow> unat (sp_head s - sp_head_cache s) + unat (sp_tail s - sp_head s) < 2 ^ sp_bits s
      | PWritten v \<Rightarrow> unat (sp_head s - sp_head_cache s) + unat (sp_tail s - sp_head s) < 2 ^ sp_bits s \<and>
          sp_buf s (sp_slot s (sp_tail s)) = v
      | _ \<Rightarrow> True) \<and>
     (case sp_cons s of
        CIdle \<Rightarrow> True
      | CReload \<Rightarrow> sp_tail_cache s = sp_head s
      | CFront \<Rightarrow> sp_tail_cache s \<noteq> sp_head s
      | CRead x \<Rightarrow> sp_tail_cache s \<noteq> sp_head s \<and> x = sp_buf s (sp_slot s (sp_head s)))"

lemma sp_ring_simps [simp]:
  "rb_bits (sp_ring s) = sp_bits s" "rb_head (sp_ring s) = sp_head s" "rb_tail (sp_ring s) = sp_tail s"
  "rb_buf (sp_ring s) = sp_buf s" "rb_size (sp_ring s) = sp_tail s - sp_head s"
  "rb_slot (sp_ring s) p = sp_slot s p"
  by (simp_all add: sp_ring_def rb_size_def rb_slot_def sp_slot_def rb_N_def)

lemma unat_diff_split:
  assumes "unat (b - a :: u64) \<le> unat (c - a)"
  shows "unat (b - a) + unat (c - b) = unat (c - a)"
  using unat_sub [of "b - a" "c - a"] assms by (simp add: word_le_nat_alt)

lemma unat_diff_add:
  assumes "unat (b - a :: u64) + unat (c - b) < 2 ^ 64"
  shows "unat (c - a) = unat (b - a) + unat (c - b)"
  using unat_word_ariths(1) [of "b - a" "c - b"] assms by simp

lemma unat_diff_Suc:
  assumes "a \<noteq> (b::u64)"
  shows "unat (b - (a + 1)) + 1 = unat (b - a)" 
proof -
  have pos: "0 < unat (b - a)" using assms by (simp add: unat_gt_0)
  then have "1 \<le> b - a" by (simp add: word_le_nat_alt Suc_le_eq)
  then have "unat ((b - a) - 1) = unat (b - a) - 1" using unat_sub [of 1 "b - a"] by simp
  then show ?thesis using pos by (simp add: diff_diff_eq)
qed

lemma pow_le_63: "b \<le> 63 \<Longrightarrow> (2::nat) ^ b \<le> 9223372036854775808"
  using power_increasing [of b 63 "2::nat"] by simp

lemma sp_no_room_iff:
  "sp_bits s \<le> 63 \<Longrightarrow> sp_no_room s c \<longleftrightarrow> 2 ^ sp_bits s \<le> unat (sp_tail s - c)"
  by (simp add: sp_no_room_def word_le_nat_alt unat_pow)

lemma spsc_inv_bits: "spsc_inv s \<Longrightarrow> sp_bits s \<le> 63"
  by (simp add: spsc_inv_def rb_inv_def)

text \<open>The producer's view of the free space is never too large.\<close>

lemma spsc_inv_room:
  assumes "spsc_inv s"
  shows "unat (sp_tail s - sp_head_cache s) = unat (sp_head s - sp_head_cache s) + unat (sp_tail s - sp_head s)"
  using assms pow_le_63 [OF spsc_inv_bits [OF assms]] by (intro unat_diff_add) (simp add: spsc_inv_def)

lemma spsc_inv_reload_head:
  assumes inv: "spsc_inv s" and h: "seen_between (sp_head_cache s) (sp_head s) h"
  shows "unat (sp_head s - h) + unat (sp_tail s - sp_head s) = unat (sp_tail s - h)"
    "unat (sp_head s - h) \<le> unat (sp_head s - sp_head_cache s)"
proof -
  have sp: "unat (h - sp_head_cache s) + unat (sp_head s - h) = unat (sp_head s - sp_head_cache s)"
    using h by (intro unat_diff_split) (simp add: seen_between_def word_le_nat_alt)
  then show "unat (sp_head s - h) \<le> unat (sp_head s - sp_head_cache s)" by linarith
  then show "unat (sp_head s - h) + unat (sp_tail s - sp_head s) = unat (sp_tail s - h)"
    using inv pow_le_63 [OF spsc_inv_bits [OF inv]] unat_diff_add [of "sp_head s" h "sp_tail s"]
    by (simp add: spsc_inv_def)
qed

lemma step_push_write:
  assumes inv: "spsc_inv s" and p: "sp_prod s = PRoom v"
  shows "spsc_inv (s\<lparr>sp_buf := (sp_buf s)(sp_slot s (sp_tail s) := v), sp_prod := PWritten v\<rparr>)"
proof -
  let ?s' = "s\<lparr>sp_buf := (sp_buf s)(sp_slot s (sp_tail s) := v), sp_prod := PWritten v\<rparr>"
  let ?n = "2 ^ sp_bits s :: nat" and ?q = "unat (sp_tail s - sp_head s)"
  have rb: "rb_inv (sp_ring s)" and lt: "?q < ?n" using inv p by (auto simp: spsc_inv_def)
  have tail: "sp_slot s (sp_tail s) = (unat (sp_head s) + ?q) mod ?n"
    using rb_tail_slot [OF rb] by simp
  have ne: "(unat (sp_head s) + i) mod ?n \<noteq> sp_slot s (sp_tail s)" if "i < ?q" for i
    unfolding tail using mod_distinct [OF that, of ?n] lt by simp
  have queued: "sp_queued ?s' = sp_queued s"
    unfolding sp_queued_def rb_list_def sp_ring_simps using ne by simp
  have "sp_slot s (sp_head s) \<noteq> sp_slot s (sp_tail s)" if "sp_tail_cache s \<noteq> sp_head s"
  proof -
    have "0 < unat (sp_tail_cache s - sp_head s)" using that by (simp add: unat_gt_0)
    then have "0 < ?q" using inv by (simp add: spsc_inv_def)
    from ne [OF this] show ?thesis by (simp add: rb_slot_eq flip: sp_ring_simps(6))
  qed
  then show ?thesis
    using inv p queued unfolding spsc_inv_def
    by (auto simp: sp_slot_def rb_inv_def split: consumer.splits)
qed

lemma step_push_publish:
  assumes inv: "spsc_inv s" and p: "sp_prod s = PWritten v"
  shows "spsc_inv (s\<lparr>sp_tail := sp_tail s + 1, sp_prod := PIdle, sp_in := sp_in s @ [v]\<rparr>)"
proof -
  let ?s' = "s\<lparr>sp_tail := sp_tail s + 1, sp_prod := PIdle, sp_in := sp_in s @ [v]\<rparr>"
  let ?n = "2 ^ sp_bits s :: nat" and ?q = "unat (sp_tail s - sp_head s)"
  have rb: "rb_inv (sp_ring s)" and lt: "?q < ?n"
    and v: "sp_buf s (sp_slot s (sp_tail s)) = v" using inv p by (auto simp: spsc_inv_def)
  have "sp_ring ?s' = rb_write (sp_ring s) v"
    using v by (auto simp: rb_write_def sp_ring_def rb_slot_def sp_slot_def rb_N_def)
  then have w: "sp_queued ?s' = sp_queued s @ [v]" "rb_inv (sp_ring ?s')"
    using rb_write_list [OF rb, of v] lt by (simp_all add: sp_queued_def rb_length)
  have "unat (sp_tail s + 1 - sp_head s) = Suc ?q"
    using unat_size_succ [OF rb] lt by (simp add: algebra_simps)
  then show ?thesis
    using inv p w unfolding spsc_inv_def by (auto simp: sp_slot_def split: consumer.splits)
qed

lemma step_pop_advance:
  assumes inv: "spsc_inv s" and c: "sp_cons s = CRead x"
  shows "spsc_inv (s\<lparr>sp_head := sp_head s + 1, sp_cons := CIdle, sp_out := sp_out s @ [x]\<rparr>)"
proof -
  let ?s' = "s\<lparr>sp_head := sp_head s + 1, sp_cons := CIdle, sp_out := sp_out s @ [x]\<rparr>"
  have rb: "rb_inv (sp_ring s)" and tc: "sp_tail_cache s \<noteq> sp_head s"
    and x: "x = sp_buf s (sp_slot s (sp_head s))"
    and le: "unat (sp_tail_cache s - sp_head s) \<le> unat (sp_tail s - sp_head s)"
    using inv c by (auto simp: spsc_inv_def)
  have t1: "unat (sp_tail_cache s - (sp_head s + 1)) + 1 = unat (sp_tail_cache s - sp_head s)"
    using tc by (intro unat_diff_Suc) simp
  then have "sp_head s \<noteq> sp_tail s" using le by auto
  note t2 = unat_diff_Suc [OF this]
  have ne: "sp_queued s \<noteq> []" using t2 by (simp add: sp_queued_def rb_list_def)
  have eq: "sp_ring ?s' = (sp_ring s)\<lparr>rb_head := rb_head (sp_ring s) + 1\<rparr>" by (simp add: sp_ring_def)
  have d: "sp_queued ?s' = tl (sp_queued s)" "rb_inv (sp_ring ?s')"
    unfolding sp_queued_def eq using rb_drop_list [OF rb] ne unfolding sp_queued_def by blast+
  have "hd (sp_queued s) = x" using rb_front_hd [of "sp_ring s"] ne x by (simp add: sp_queued_def rb_front_def)
  then have q: "sp_queued s = x # tl (sp_queued s)" using ne by (metis list.collapse)
  have h: "unat (sp_head s + 1 - sp_head_cache s) = unat (sp_head s - sp_head_cache s) + 1"
  proof -
    have "unat (sp_head s - sp_head_cache s) + 1 < 2 ^ 64"
      using inv t2 pow_le_63 [OF spsc_inv_bits [OF inv]] by (simp add: spsc_inv_def)
    then have "unat ((sp_head s - sp_head_cache s) + 1) = unat (sp_head s - sp_head_cache s) + 1"
      by (simp add: unat_word_ariths(1))
    then show ?thesis by (simp add: algebra_simps)
  qed
  have "sp_in s = sp_out s @ [x] @ tl (sp_queued s)" using inv q by (simp add: spsc_inv_def)
  then show ?thesis
    using inv d h t1 t2 unfolding spsc_inv_def by (auto simp: sp_slot_def split: producer.splits)
qed

lemma step_push_begin:
  assumes inv: "spsc_inv s" and "sp_prod s = PIdle"
  shows "spsc_inv (s\<lparr>sp_prod := (if sp_no_room s (sp_head_cache s) then PFull v else PRoom v)\<rparr>)"
  using inv spsc_inv_room [OF inv] sp_no_room_iff [OF spsc_inv_bits [OF inv], of "sp_head_cache s"]
  unfolding spsc_inv_def by (auto simp: sp_slot_def sp_queued_def sp_ring_def split: consumer.splits)

lemma step_push_reload:
  assumes inv: "spsc_inv s" and "sp_prod s = PFull v" and h: "seen_between (sp_head_cache s) (sp_head s) h"
  shows "spsc_inv (s\<lparr>sp_head_cache := h, sp_prod := (if sp_no_room s h then PIdle else PRoom v)\<rparr>)"
  using inv spsc_inv_reload_head [OF inv h] sp_no_room_iff [OF spsc_inv_bits [OF inv], of h]
  unfolding spsc_inv_def by (auto simp: sp_slot_def sp_queued_def sp_ring_def split: consumer.splits)

lemma step_pop_begin:
  "spsc_inv s \<Longrightarrow> sp_cons s = CIdle \<Longrightarrow>
   spsc_inv (s\<lparr>sp_cons := (if sp_head s = sp_tail_cache s then CReload else CFront)\<rparr>)"
  unfolding spsc_inv_def by (auto simp: sp_slot_def sp_queued_def sp_ring_def split: producer.splits)

lemma step_pop_reload:
  assumes inv: "spsc_inv s" and c: "sp_cons s = CReload" and t: "seen_between (sp_tail_cache s) (sp_tail s) t"
  shows "spsc_inv (s\<lparr>sp_tail_cache := t, sp_cons := (if sp_head s = t then CIdle else CFront)\<rparr>)"
proof -
  have "unat (t - sp_head s) \<le> unat (sp_tail s - sp_head s)"
    using inv c t by (simp add: spsc_inv_def seen_between_def word_le_nat_alt)
  then show ?thesis
    using inv unfolding spsc_inv_def by (auto simp: sp_slot_def sp_queued_def sp_ring_def split: producer.splits)
qed

lemma step_pop_read:
  "spsc_inv s \<Longrightarrow> sp_cons s = CFront \<Longrightarrow> spsc_inv (s\<lparr>sp_cons := CRead (sp_buf s (sp_slot s (sp_head s)))\<rparr>)"
  unfolding spsc_inv_def by (auto simp: sp_slot_def sp_queued_def sp_ring_def split: producer.splits)

lemma spsc_step_inv: "spsc_step s s' \<Longrightarrow> spsc_inv s \<Longrightarrow> spsc_inv s'"
  by (induction rule: spsc_step.induct)
    (blast intro: step_push_begin step_push_reload step_push_write step_push_publish
       step_pop_begin step_pop_reload step_pop_read step_pop_advance)+

lemma spsc_reachable_inv: "spsc_reachable b buf s \<Longrightarrow> b \<le> 63 \<Longrightarrow> spsc_inv s"
proof (induction rule: spsc_reachable.induct)
  case start
  then show ?case
    by (simp add: spsc_inv_def spsc_init_def rb_inv_def sp_queued_def rb_list_def sp_ring_def rb_size_def)
qed (blast intro: spsc_step_inv)

section \<open>Properties\<close>

text \<open>C31: however the producer and the consumer interleave, and however stale the indices they
  load, what was consumed is a prefix of what was published, in order, and the rest is what the
  ring holds, at most its capacity: nothing is lost, duplicated or reordered.\<close>

theorem spsc_ring_fifo:
  assumes "spsc_reachable b buf s" and "b \<le> 63"
  shows "sp_in s = sp_out s @ sp_queued s \<and> length (sp_queued s) \<le> 2 ^ b"
proof -
  have "sp_bits s = b" using assms(1)
    by (induction rule: spsc_reachable.induct) (auto simp: spsc_init_def elim: spsc_step.cases)
  then show ?thesis
    using spsc_reachable_inv [OF assms] by (simp add: spsc_inv_def rb_inv_def sp_queued_def rb_length)
qed

lemma spsc_example:
  "spsc_reachable 1 (\<lambda>i. False) ((spsc_init 1 (\<lambda>i. False))
     \<lparr>sp_buf := (\<lambda>i. i = 0), sp_tail := 1, sp_prod := PIdle, sp_in := [True]\<rparr>)"
proof -
  let ?s0 = "spsc_init 1 (\<lambda>i. False)"
  have s1: "spsc_step ?s0 (?s0\<lparr>sp_prod := PRoom True\<rparr>)"
    using spsc_step.push_begin [of ?s0 True] by (simp add: spsc_init_def sp_no_room_def)
  have s2: "spsc_step (?s0\<lparr>sp_prod := PRoom True\<rparr>) (?s0\<lparr>sp_buf := (\<lambda>i. i = 0), sp_prod := PWritten True\<rparr>)"
    using spsc_step.push_write [of "?s0\<lparr>sp_prod := PRoom True\<rparr>" True]
    by (simp add: spsc_init_def sp_slot_def fun_upd_def if_bool_eq_disj)
  have s3: "spsc_step (?s0\<lparr>sp_buf := (\<lambda>i. i = 0), sp_prod := PWritten True\<rparr>)
      (?s0\<lparr>sp_buf := (\<lambda>i. i = 0), sp_tail := 1, sp_prod := PIdle, sp_in := [True]\<rparr>)"
    using spsc_step.push_publish [of "?s0\<lparr>sp_buf := (\<lambda>i. i = 0), sp_prod := PWritten True\<rparr>" True]
    by (simp add: spsc_init_def)
  show ?thesis
    using spsc_reachable.step [OF spsc_reachable.step [OF spsc_reachable.step [OF spsc_reachable.start s1] s2] s3] .
qed

theorem spsc_ring_fifo_witness:
  "sp_queued ((spsc_init 1 (\<lambda>i. False)) \<lparr>sp_buf := (\<lambda>i. i = 0), sp_tail := 1, sp_prod := PIdle, sp_in := [True]\<rparr>) = [True]"
  using spsc_ring_fifo [OF spsc_example] by (simp add: spsc_init_def)

text \<open>The two threads never touch the same slot at the same time: while the producer is about
  to write a slot, the consumer is neither about to read it nor holding what it read from it.\<close>

theorem spsc_ring_no_race:
  assumes "spsc_reachable b buf s" and "b \<le> 63"
    and "sp_prod s = PRoom v" and "sp_cons s = CFront \<or> sp_cons s = CRead x"
  shows "sp_slot s (sp_tail s) \<noteq> sp_slot s (sp_head s)"
proof -
  have inv: "spsc_inv s" by (rule spsc_reachable_inv [OF assms(1,2)])
  let ?q = "unat (sp_tail s - sp_head s)" and ?n = "2 ^ sp_bits s :: nat"
  have rb: "rb_inv (sp_ring s)" and lt: "?q < ?n" using inv assms(3) by (auto simp: spsc_inv_def)
  have "sp_tail_cache s \<noteq> sp_head s" using inv assms(4) by (auto simp: spsc_inv_def)
  then have "0 < unat (sp_tail_cache s - sp_head s)" by (simp add: unat_gt_0)
  then have "0 < ?q" using inv by (simp add: spsc_inv_def)
  from mod_distinct [OF this, of ?n "unat (sp_head s)"] lt show ?thesis
    using rb_tail_slot [OF rb] by (simp add: rb_slot_eq flip: sp_ring_simps(6))
qed

theorem spsc_ring_no_race_witness:
  "\<exists>s::bool spsc. sp_prod s = PRoom True \<and> sp_cons s = CFront \<and> sp_slot s (sp_tail s) \<noteq> sp_slot s (sp_head s)"
proof -
  let ?s = "(spsc_init 1 (\<lambda>i. False)) \<lparr>sp_buf := (\<lambda>i. i = 0), sp_tail := 1, sp_prod := PIdle, sp_in := [True]\<rparr>"
  let ?s1 = "?s\<lparr>sp_cons := CReload\<rparr>" and ?s2 = "?s\<lparr>sp_tail_cache := 1, sp_cons := CFront\<rparr>"
  let ?s3 = "?s2\<lparr>sp_prod := PRoom True\<rparr>"
  have s1: "spsc_step ?s ?s1" using spsc_step.pop_begin [of ?s] by (simp add: spsc_init_def)
  have s2: "spsc_step ?s1 ?s2"
    using spsc_step.pop_reload [of ?s1 1] by (simp add: spsc_init_def seen_between_def)
  have s3: "spsc_step ?s2 ?s3"
    using spsc_step.push_begin [of ?s2 True] by (simp add: spsc_init_def sp_no_room_def word_le_nat_alt)
  have r: "spsc_reachable 1 (\<lambda>i. False) ?s3"
    using spsc_reachable.step [OF spsc_reachable.step [OF spsc_reachable.step [OF spsc_example s1] s2] s3] .
  have "sp_slot ?s3 (sp_tail ?s3) \<noteq> sp_slot ?s3 (sp_head ?s3)"
    by (rule spsc_ring_no_race [OF r, where v = True]) simp_all
  then show ?thesis by (intro exI [of _ ?s3]) simp
qed

end
