(* ===== verification/BitWords.thy ===== *)
theory BitWords
  imports Prelude
begin

text \<open>
  Bit sets kept in 64-bit words, the way \<^verbatim>\<open>Pool\<close>'s liveness bitmap and \<^verbatim>\<open>BucketBits\<close>
  keep them: setting and clearing a bit with shifts, and the visit loop that takes the lowest
  set bit with \<^verbatim>\<open>__builtin_ctzll\<close> and clears it with \<^verbatim>\<open>m &= m - 1\<close>.
\<close>

section \<open>Operations\<close>

definition ctz :: "u64 \<Rightarrow> nat" where
  "ctz m = length (takeWhile (\<lambda>i. \<not> bit m i) [0..<64])"

definition shl1 :: "nat \<Rightarrow> u64" where
  "shl1 i = push_bit i 1"

lemma pred_less: "(m::u64) \<noteq> 0 \<Longrightarrow> unat (m AND (m - 1)) < unat m"
  by (metis le_less_trans measure_unat word_and_le1 word_le_nat_alt)

function bit_scan :: "u64 \<Rightarrow> nat list" where
  "bit_scan m = (if m = 0 then [] else ctz m # bit_scan (m AND (m - 1)))"
  by pat_completeness auto
termination
  by (relation "measure unat") (auto simp: pred_less)

declare bit_scan.simps [simp del]

text \<open>An array of words read as one bit set.\<close>

definition word_bit :: "(nat \<Rightarrow> u64) \<Rightarrow> nat \<Rightarrow> bool" where
  "word_bit ws i \<longleftrightarrow> bit (ws (i div 64)) (i mod 64)"

definition set_word_bit :: "(nat \<Rightarrow> u64) \<Rightarrow> nat \<Rightarrow> (nat \<Rightarrow> u64)" where
  "set_word_bit ws i = ws(i div 64 := ws (i div 64) OR shl1 (i mod 64))"

definition clear_word_bit :: "(nat \<Rightarrow> u64) \<Rightarrow> nat \<Rightarrow> (nat \<Rightarrow> u64)" where
  "clear_word_bit ws i = ws(i div 64 := ws (i div 64) AND NOT (shl1 (i mod 64)))"

definition scan_words :: "nat \<Rightarrow> (nat \<Rightarrow> u64) \<Rightarrow> nat list" where
  "scan_words k ws = concat (map (\<lambda>w. map (\<lambda>b. w * 64 + b) (bit_scan (ws w))) [0..<k])"

section \<open>Facts\<close>

lemma bit_shl1: "bit (shl1 i) j \<longleftrightarrow> j = i \<and> i < 64"
  by (auto simp: shl1_def bit_exp_iff)

lemma nonzero_bit: "(m::u64) \<noteq> 0 \<Longrightarrow> \<exists>i<64. bit m i"
  by (rule ccontr) (auto intro: bit_word_eqI)

lemma first_index:
  fixes n :: nat
  assumes "j < n" "P j"
  defines "c \<equiv> length (takeWhile (\<lambda>i. \<not> P i) [0..<n])"
  shows "c < n" "P c" "i < c \<Longrightarrow> \<not> P i"
proof -
  let ?l = "takeWhile (\<lambda>i. \<not> P i) [0..<n]"
  have "?l \<noteq> [0..<n]" using assms(1,2) by (auto simp: takeWhile_eq_all_conv)
  moreover have "?l = take (length ?l) [0..<n]" by (rule takeWhile_eq_take)
  ultimately have lt: "length ?l < length [0..<n]"
    by (metis linorder_not_less take_all)
  then show "c < n" by (simp add: c_def)
  show "P c" using nth_length_takeWhile [OF lt] lt by (simp add: c_def)
  show "\<not> P i" if "i < c"
  proof -
    have il: "i < length ?l" using that by (simp add: c_def)
    then have "?l ! i = i" using lt by (simp add: takeWhile_nth)
    then have "i \<in> set ?l" using nth_mem [OF il] by simp
    then show ?thesis using set_takeWhileD [of i "\<lambda>i. \<not> P i" "[0..<n]"] by blast
  qed
qed

lemma ctz_first:
  assumes "m \<noteq> 0"
  shows "ctz m < 64" "bit m (ctz m)" "i < ctz m \<Longrightarrow> \<not> bit m i"
proof -
  obtain j where "j < 64" "bit m j" using nonzero_bit [OF assms] by blast
  note f = first_index [of j 64 "bit m", OF this, folded ctz_def]
  show "ctz m < 64" by (rule f(1))
  show "bit m (ctz m)" by (rule f(2))
  show "i < ctz m \<Longrightarrow> \<not> bit m i" by (rule f(3))
qed

lemma clear_lowest:
  assumes "m \<noteq> 0"
  shows "bit (m AND (m - 1)) i \<longleftrightarrow> bit m i \<and> i \<noteq> ctz m"
proof -
  define c x where "c = ctz m" and "x = m AND NOT (mask (Suc c))"
  note c = ctz_first [OF assms, folded c_def]
  have bx: "bit x i \<longleftrightarrow> bit m i \<and> i > c" for i
    by (auto simp: x_def bit_and_iff bit_not_iff bit_mask_iff dest: bit_imp_le_length)
  have c64: "c < 64" using c(1) .
  have m: "m = x + 2 ^ c"
  proof -
    have "x + 2 ^ c = x OR 2 ^ c"
      by (rule disjunctive_add) (auto simp: bx bit_exp_iff)
    also have "\<dots> = m"
    proof (rule bit_word_eqI)
      fix n
      show "bit (x OR 2 ^ c) n \<longleftrightarrow> bit m n"
        using c(2) c(3) [of n] c64 by (cases n c rule: linorder_cases) (auto simp: bit_or_iff bx bit_exp_iff)
    qed
    finally show ?thesis by simp
  qed
  have "m - 1 = x + mask c" by (simp add: m mask_eq_exp_minus_1)
  also have "\<dots> = x OR mask c"
    by (rule disjunctive_add) (auto simp: bx bit_mask_iff)
  finally have m1: "m - 1 = x OR mask c" .
  show ?thesis
    unfolding bit_and_iff m1 bit_or_iff bx bit_mask_iff c_def [symmetric]
    using c c64 by (metis (no_types, lifting) linorder_neqE_nat less_irrefl)
qed

lemma bit_scan_sorted: "bit_scan m = filter (bit m) [0..<64]"
proof (induction m rule: bit_scan.induct)
  case (1 m)
  show ?case
  proof (cases "m = 0")
    case True
    then show ?thesis by (simp add: bit_scan.simps)
  next
    case False
    let ?c = "ctz m"
    note c = ctz_first [OF False]
    have split: "[0..<64] = [0..<?c] @ ?c # [Suc ?c..<64]"
      using c(1) upt_add_eq_append [of 0 ?c "64 - ?c"] upt_conv_Cons [of ?c 64] by simp
    have "filter (bit m) [0..<64] = ?c # filter (bit m) [Suc ?c..<64]"
      unfolding split using c by (auto simp: filter_empty_conv)
    moreover have "filter (bit (m AND (m - 1))) [0..<64] = filter (bit m) [Suc ?c..<64]"
      unfolding split using c by (auto simp: clear_lowest [OF False] filter_empty_conv intro!: filter_cong)
    ultimately show ?thesis using 1 False by (subst bit_scan.simps) simp
  qed
qed

lemma words_cover: "n \<le> (n + 63) div 64 * (64::nat)"
proof -
  define k r where "k = (n + 63) div 64" and "r = (n + 63) mod 64"
  have "k * 64 + r = n + 63" "r < 64" by (simp_all add: k_def r_def)
  then have "n \<le> k * 64" by linarith
  then show ?thesis by (simp add: k_def)
qed

lemma word_bit_set [simp]: "word_bit (set_word_bit ws i) j \<longleftrightarrow> j = i \<or> word_bit ws j"
proof -
  have "j div 64 = i div 64 \<Longrightarrow> j mod 64 = i mod 64 \<longleftrightarrow> j = i" by (metis div_mult_mod_eq)
  then show ?thesis by (auto simp: word_bit_def set_word_bit_def bit_or_iff bit_shl1)
qed

lemma word_bit_clear [simp]: "word_bit (clear_word_bit ws i) j \<longleftrightarrow> j \<noteq> i \<and> word_bit ws j"
proof -
  have "j div 64 = i div 64 \<Longrightarrow> j mod 64 = i mod 64 \<longleftrightarrow> j = i" by (metis div_mult_mod_eq)
  then show ?thesis
    by (auto simp: word_bit_def clear_word_bit_def bit_and_iff bit_not_iff bit_shl1 dest: bit_imp_le_length)
qed

lemma word_bit_zero [simp]: "\<not> word_bit (\<lambda>w. 0) i"
  by (simp add: word_bit_def)

lemma scan_word: "map (\<lambda>b. w * 64 + b) (bit_scan (ws w)) = filter (word_bit ws) [w * 64..<w * 64 + 64]"
proof -
  have "[w * 64..<w * 64 + 64] = map (\<lambda>b. b + w * 64) [0..<64]"
    by (simp only: map_add_upt add.commute [of "w * 64"] add_0)
  moreover have "word_bit ws (b + w * 64) \<longleftrightarrow> bit (ws w) b" if "b < 64" for b
    using that by (simp add: word_bit_def)
  ultimately show ?thesis
    by (auto simp: bit_scan_sorted filter_map o_def add.commute intro!: map_cong filter_cong)
qed

lemma scan_words_sorted: "scan_words k ws = filter (word_bit ws) [0..<k * 64]"
proof (induction k)
  case (Suc k)
  have "[0..<Suc k * 64] = [0..<k * 64] @ [k * 64..<k * 64 + 64]"
    using upt_add_eq_append [of 0 "k * 64" 64] by (simp add: add.commute)
  then show ?case using Suc by (simp only: scan_words_def upt_Suc_append le0 map_append concat_append filter_append
    list.map concat.simps append_Nil2 scan_word)
qed (simp add: scan_words_def)

end
