(* ===== verification/Pool.thy ===== *)
theory Pool
  imports BitWords
begin

text \<open>
  \<^verbatim>\<open>include/fastmm/core/containers/pool.hpp\<close>: \<^verbatim>\<open>Pool<T, N>\<close>, the fixed-size object pool.
  A handle is a slot number, \<open>kNullHandle\<close> the invalid one. The slot union is a datatype: an
  object, the link of the free list, or storage that was never written. The invariant
  \<open>pool_inv\<close> says that the list threaded through the free slots visits every slot that was
  handed out and is not live exactly once.
\<close>

section \<open>The pool\<close>

definition kNullHandle :: nat where
  "kNullHandle = 4294967295"

datatype 'a pool_slot = Raw | Obj 'a | NextFree nat

record 'a pool =
  pl_capacity :: nat
  pl_slots :: "nat \<Rightarrow> 'a pool_slot"
  pl_live :: "nat \<Rightarrow> u64"
  pl_free_head :: nat
  pl_unused :: nat
  pl_size :: nat

definition pl_words :: "'a pool \<Rightarrow> nat" where
  "pl_words p = (pl_capacity p + 63) div 64"

definition pool_reset :: "'a pool \<Rightarrow> 'a pool" where
  "pool_reset p =
     p\<lparr>pl_live := (\<lambda>w. if w < pl_words p then 0 else pl_live p w),
       pl_free_head := kNullHandle, pl_unused := 0, pl_size := 0\<rparr>"

definition pool_new :: "nat \<Rightarrow> 'a pool" where
  "pool_new n =
     pool_reset \<lparr>pl_capacity = n, pl_slots = (\<lambda>i. Raw), pl_live = (\<lambda>w. 0),
                pl_free_head = kNullHandle, pl_unused = 0, pl_size = 0\<rparr>"

definition pool_warm_up :: "'a pool \<Rightarrow> 'a pool" where
  "pool_warm_up p =
     p\<lparr>pl_slots := (\<lambda>i. if pl_unused p \<le> i \<and> i < pl_capacity p then NextFree 0 else pl_slots p i)\<rparr>"

definition pool_full :: "'a pool \<Rightarrow> bool" where
  "pool_full p \<longleftrightarrow> pl_size p = pl_capacity p"

definition pool_is_live :: "'a pool \<Rightarrow> nat \<Rightarrow> bool" where
  "pool_is_live p h \<longleftrightarrow>
     h < pl_capacity p \<and> (drop_bit (h mod 64) (pl_live p (h div 64))) AND 1 \<noteq> 0"

definition mark_live :: "'a pool \<Rightarrow> nat \<Rightarrow> 'a pool" where
  "mark_live p h = p\<lparr>pl_live := set_word_bit (pl_live p) h, pl_size := pl_size p + 1\<rparr>"

text \<open>\<^verbatim>\<open>slots_[h].next_free\<close> of a slot on the free list\<close>

definition next_free :: "'a pool \<Rightarrow> nat \<Rightarrow> nat" where
  "next_free p h = (case pl_slots p h of NextFree n \<Rightarrow> n | _ \<Rightarrow> kNullHandle)"

definition pool_allocate :: "'a pool \<Rightarrow> 'a pool \<times> nat" where
  "pool_allocate p =
     (let h = pl_free_head p in
      if h \<noteq> kNullHandle then (mark_live (p\<lparr>pl_free_head := next_free p h\<rparr>) h, h)
      else if pl_unused p < pl_capacity p
      then (mark_live (p\<lparr>pl_unused := pl_unused p + 1\<rparr>) (pl_unused p), pl_unused p)
      else (p, kNullHandle))"

definition pool_put :: "'a pool \<Rightarrow> nat \<Rightarrow> 'a \<Rightarrow> 'a pool" where
  "pool_put p h x = p\<lparr>pl_slots := (pl_slots p)(h := Obj x)\<rparr>"

definition pool_allocate_init :: "'a pool \<Rightarrow> 'a \<Rightarrow> 'a pool \<times> nat" where
  "pool_allocate_init p x =
     (case pool_allocate p of (p', h) \<Rightarrow> if h \<noteq> kNullHandle then (pool_put p' h x, h) else (p', h))"

definition pool_free :: "'a pool \<Rightarrow> nat \<Rightarrow> 'a pool" where
  "pool_free p h =
     p\<lparr>pl_live := clear_word_bit (pl_live p) h,
       pl_slots := (pl_slots p)(h := NextFree (pl_free_head p)),
       pl_free_head := h, pl_size := pl_size p - 1\<rparr>"

definition pool_get :: "'a pool \<Rightarrow> nat \<Rightarrow> 'a option" where
  "pool_get p h = (case pl_slots p h of Obj x \<Rightarrow> Some x | _ \<Rightarrow> None)"

text \<open>The handles \<^verbatim>\<open>for_each\<close> visits, in its order.\<close>

definition pool_handles :: "'a pool \<Rightarrow> nat list" where
  "pool_handles p = scan_words (pl_words p) (pl_live p)"

section \<open>Invariant\<close>

fun free_chain :: "(nat \<Rightarrow> 'a pool_slot) \<Rightarrow> nat \<Rightarrow> nat list \<Rightarrow> bool" where
  "free_chain s h [] \<longleftrightarrow> h = kNullHandle"
| "free_chain s h (x # xs) \<longleftrightarrow> h = x \<and> (\<exists>n. s x = NextFree n \<and> free_chain s n xs)"

definition pool_live :: "'a pool \<Rightarrow> nat set" where
  "pool_live p = {h. h < pl_capacity p \<and> word_bit (pl_live p) h}"

definition pool_inv :: "'a pool \<Rightarrow> bool" where
  "pool_inv p \<longleftrightarrow>
     pl_capacity p < kNullHandle \<and> pl_unused p \<le> pl_capacity p \<and>
     (\<forall>h. word_bit (pl_live p) h \<longrightarrow> h < pl_unused p) \<and>
     pl_size p = card (pool_live p) \<and>
     (\<exists>xs. free_chain (pl_slots p) (pl_free_head p) xs \<and> distinct xs \<and>
        set xs = {h. h < pl_unused p \<and> \<not> word_bit (pl_live p) h})"

section \<open>Facts\<close>

lemma pool_is_live_iff: "pool_is_live p h \<longleftrightarrow> h \<in> pool_live p"
  by (simp add: pool_is_live_def pool_live_def word_bit_def and_one_eq odd_iff_mod_2_eq_one bit_iff_odd_drop_bit
      flip: odd_iff_mod_2_eq_one)

lemma pool_handles_sorted:
  assumes "pool_inv p"
  shows "pool_handles p = filter (\<lambda>h. h \<in> pool_live p) [0..<pl_capacity p]"
proof -
  let ?c = "pl_capacity p" and ?k = "pl_words p * 64"
  have le: "?c \<le> ?k" unfolding pl_words_def by (rule words_cover)
  have "filter (word_bit (pl_live p)) [?c..<?k] = []"
    using assms by (fastforce simp: pool_inv_def filter_empty_conv)
  then have "filter (word_bit (pl_live p)) [0..<?k] = filter (word_bit (pl_live p)) [0..<?c]"
    using upt_add_eq_append [of 0 ?c "?k - ?c"] le by simp
  then show ?thesis
    by (auto simp: pool_handles_def scan_words_sorted pool_live_def intro!: filter_cong)
qed

lemma finite_pool_live [simp]: "finite (pool_live p)"
  by (simp add: pool_live_def)

lemma free_chain_upd: "h \<notin> set xs \<Longrightarrow> free_chain (s(h := x)) a xs = free_chain s a xs"
  by (induction xs arbitrary: a) auto

lemma free_chain_head: "free_chain s a xs \<Longrightarrow> a = (case xs of [] \<Rightarrow> kNullHandle | x # _ \<Rightarrow> x)"
  by (cases xs) auto

lemma mark_live_simps [simp]:
  "pl_capacity (mark_live p h) = pl_capacity p" "pl_slots (mark_live p h) = pl_slots p"
  "pl_unused (mark_live p h) = pl_unused p" "pl_free_head (mark_live p h) = pl_free_head p"
  "pl_size (mark_live p h) = Suc (pl_size p)" "pl_live (mark_live p h) = set_word_bit (pl_live p) h"
  by (simp_all add: mark_live_def)

lemma pool_live_all: "pool_inv p \<Longrightarrow> pool_live p = {h. word_bit (pl_live p) h}"
  by (fastforce simp: pool_inv_def pool_live_def)

lemma pool_inv_mark:
  assumes "pool_inv p" and q: "pl_capacity q = pl_capacity p" "pl_live q = pl_live p" "pl_size q = pl_size p"
    "pl_slots q = pl_slots p" "pl_unused p \<le> pl_unused q" "pl_unused q \<le> pl_capacity p"
    and h: "h < pl_unused q" "\<not> word_bit (pl_live p) h"
    and xs: "free_chain (pl_slots p) (pl_free_head q) xs" "distinct xs"
    "set xs = {g. g < pl_unused q \<and> \<not> word_bit (pl_live p) g} - {h}"
  shows "pool_inv (mark_live q h) \<and> pool_live (mark_live q h) = insert h (pool_live p)"
proof -
  have live: "pool_live (mark_live q h) = insert h (pool_live p)"
    using q h by (auto simp: pool_live_def)
  moreover have "h \<notin> pool_live p" using h(2) by (simp add: pool_live_def)
  moreover have "\<exists>xs. free_chain (pl_slots q) (pl_free_head q) xs \<and> distinct xs \<and>
      set xs = {g. g < pl_unused q \<and> \<not> (g = h \<or> word_bit (pl_live p) g)}"
    using xs q by (intro exI [of _ xs]) auto
  ultimately show ?thesis using assms(1) q h(1) by (auto simp: pool_inv_def)
qed

lemma pool_allocate_law:
  assumes inv: "pool_inv p" and alloc: "pool_allocate p = (p', h)"
  shows "(h = kNullHandle \<and> p' = p \<and> pool_live p = {..<pl_capacity p}) \<or>
    (h < pl_capacity p \<and> h \<notin> pool_live p \<and> pool_inv p' \<and> pool_live p' = insert h (pool_live p) \<and>
     pl_slots p' = pl_slots p \<and> pl_capacity p' = pl_capacity p)"
proof -
  obtain xs where xs: "free_chain (pl_slots p) (pl_free_head p) xs" "distinct xs"
    "set xs = {h. h < pl_unused p \<and> \<not> word_bit (pl_live p) h}" using inv by (auto simp: pool_inv_def)
  have cap: "pl_unused p \<le> pl_capacity p" "pl_capacity p < kNullHandle"
    using inv by (auto simp: pool_inv_def)
  show ?thesis
  proof (cases xs)
    case (Cons x ys)
    then obtain n where n: "pl_free_head p = x" "pl_slots p x = NextFree n" "free_chain (pl_slots p) n ys"
      using xs(1) by auto
    have x: "x < pl_unused p" "\<not> word_bit (pl_live p) x" using xs(3) Cons by auto
    have eq: "p' = mark_live (p\<lparr>pl_free_head := n\<rparr>) x" "h = x"
      using alloc n x cap by (auto simp: pool_allocate_def next_free_def Let_def)
    have "pool_inv p' \<and> pool_live p' = insert x (pool_live p)"
      unfolding eq using x n(3) xs(2,3) Cons cap by (intro pool_inv_mark [OF inv, where xs = ys]) auto
    then show ?thesis using eq x cap by (auto simp: pool_live_def)
  next
    case Nil
    then have null: "pl_free_head p = kNullHandle" using xs(1) by simp
    show ?thesis
    proof (cases "pl_unused p < pl_capacity p")
      case True
      let ?u = "pl_unused p"
      have eq: "p' = mark_live (p\<lparr>pl_unused := ?u + 1\<rparr>) ?u" "h = ?u"
        using alloc null True by (auto simp: pool_allocate_def Let_def)
      have u: "\<not> word_bit (pl_live p) ?u" using inv by (auto simp: pool_inv_def)
      have "{g. g < Suc ?u \<and> \<not> word_bit (pl_live p) g} - {?u} = {}"
        using xs(3) Nil by (auto simp: less_Suc_eq)
      then have "pool_inv p' \<and> pool_live p' = insert ?u (pool_live p)"
        unfolding eq using u True null by (intro pool_inv_mark [OF inv, where xs = "[]"]) auto
      then show ?thesis using eq u True by (auto simp: pool_live_def)
    next
      case False
      then have "p' = p" "h = kNullHandle" using alloc null by (auto simp: pool_allocate_def Let_def)
      moreover have "pool_live p = {..<pl_capacity p}"
        using xs(3) Nil False cap by (auto simp: pool_live_def)
      ultimately show ?thesis by simp
    qed
  qed
qed

lemma pool_free_law:
  assumes inv: "pool_inv p" and h: "h \<in> pool_live p"
  shows "pool_inv (pool_free p h) \<and> pool_live (pool_free p h) = pool_live p - {h} \<and>
    pl_capacity (pool_free p h) = pl_capacity p \<and> (\<forall>g. g \<noteq> h \<longrightarrow> pool_get (pool_free p h) g = pool_get p g)"
proof -
  obtain xs where xs: "free_chain (pl_slots p) (pl_free_head p) xs" "distinct xs"
    "set xs = {h. h < pl_unused p \<and> \<not> word_bit (pl_live p) h}" using inv by (auto simp: pool_inv_def)
  have wh: "word_bit (pl_live p) h" "h < pl_unused p" using h inv by (auto simp: pool_live_def pool_inv_def)
  have live: "pool_live (pool_free p h) = pool_live p - {h}" by (auto simp: pool_live_def pool_free_def)
  have "free_chain (pl_slots (pool_free p h)) h (h # xs)"
    using xs(1,3) wh by (simp add: pool_free_def free_chain_upd)
  moreover have "distinct (h # xs)" "set (h # xs) = {g. g < pl_unused p \<and> \<not> (g \<noteq> h \<and> word_bit (pl_live p) g)}"
    using xs wh by auto
  ultimately have "\<exists>xs. free_chain (pl_slots (pool_free p h)) (pl_free_head (pool_free p h)) xs \<and> distinct xs \<and>
      set xs = {g. g < pl_unused (pool_free p h) \<and> \<not> word_bit (pl_live (pool_free p h)) g}"
    by (intro exI [of _ "h # xs"]) (simp add: pool_free_def)
  moreover have "pl_size (pool_free p h) = card (pool_live (pool_free p h))"
    unfolding live using inv h by (simp add: pool_inv_def pool_free_def card_Diff_singleton)
  ultimately show ?thesis
    using inv live by (auto simp: pool_inv_def pool_get_def) (auto simp: pool_free_def)
qed

lemma pool_put_law:
  assumes inv: "pool_inv p" and h: "h \<in> pool_live p"
  shows "pool_inv (pool_put p h x) \<and> pool_live (pool_put p h x) = pool_live p \<and>
    pool_get (pool_put p h x) g = (if g = h then Some x else pool_get p g)"
proof -
  obtain xs where xs: "free_chain (pl_slots p) (pl_free_head p) xs" "distinct xs"
    "set xs = {h. h < pl_unused p \<and> \<not> word_bit (pl_live p) h}" using inv by (auto simp: pool_inv_def)
  have live: "pool_live (pool_put p h x) = pool_live p" by (simp add: pool_live_def pool_put_def)
  have "h \<notin> set xs" using h xs(3) by (simp add: pool_live_def)
  then have "free_chain (pl_slots (pool_put p h x)) (pl_free_head p) xs"
    using xs(1) by (simp add: pool_put_def free_chain_upd)
  then have "pool_inv (pool_put p h x)"
    using inv xs(2,3) live unfolding pool_inv_def by (auto simp: pool_put_def)
  then show ?thesis using live by (simp add: pool_get_def pool_put_def)
qed

lemma pool_new_inv:
  "n < kNullHandle \<Longrightarrow> pool_inv (pool_new n :: 'a pool) \<and> pool_live (pool_new n :: 'a pool) = {}"
proof -
  assume "n < kNullHandle"
  moreover have z: "pl_live (pool_new n :: 'a pool) = (\<lambda>w. 0)" by (auto simp: pool_new_def pool_reset_def)
  moreover from this have "pool_live (pool_new n :: 'a pool) = {}" by (simp add: pool_live_def)
  ultimately show ?thesis
    by (auto simp: pool_inv_def pool_new_def pool_reset_def intro: exI [of _ "[]"])
qed

section \<open>The contract of a slot pool\<close>

text \<open>
  What a client relies on: a fresh handle is not one in use, refusal means that every slot is,
  and writing or freeing one object leaves the others alone.
\<close>

locale slot_pool =
  fixes inv :: "'p \<Rightarrow> bool" and live :: "'p \<Rightarrow> nat set" and cap :: "'p \<Rightarrow> nat" and null :: nat
    and alloc :: "'p \<Rightarrow> 'p \<times> nat" and put :: "'p \<Rightarrow> nat \<Rightarrow> 'a \<Rightarrow> 'p"
    and get :: "'p \<Rightarrow> nat \<Rightarrow> 'a option" and release :: "'p \<Rightarrow> nat \<Rightarrow> 'p"
  assumes live_bound: "inv p \<Longrightarrow> live p \<subseteq> {..<cap p} \<and> cap p < null"
    and alloc_law: "inv p \<Longrightarrow> alloc p = (p', h) \<Longrightarrow>
      (h = null \<and> p' = p \<and> live p = {..<cap p}) \<or>
      (h < cap p \<and> h \<notin> live p \<and> inv p' \<and> live p' = insert h (live p) \<and> cap p' = cap p \<and> get p' = get p)"
    and put_law: "inv p \<Longrightarrow> h \<in> live p \<Longrightarrow>
      inv (put p h x) \<and> live (put p h x) = live p \<and> cap (put p h x) = cap p \<and>
      get (put p h x) = (get p)(h \<mapsto> x)"
    and release_law: "inv p \<Longrightarrow> h \<in> live p \<Longrightarrow>
      inv (release p h) \<and> live (release p h) = live p - {h} \<and> cap (release p h) = cap p \<and>
      (\<forall>g. g \<noteq> h \<longrightarrow> get (release p h) g = get p g)"
begin

text \<open>Allocating and filling a slot: the new object is there, the others are as before.\<close>

lemma alloc_put:
  assumes "inv p" "alloc p = (p', h)" "h \<noteq> null"
  shows "inv (put p' h x) \<and> live (put p' h x) = insert h (live p) \<and> h \<notin> live p \<and> h < cap p \<and>
    cap (put p' h x) = cap p \<and> get (put p' h x) = (get p)(h \<mapsto> x)"
  using alloc_law [OF assms(1,2)] assms(3) put_law [of p' h x] by auto

lemma alloc_succeeds: "inv p \<Longrightarrow> alloc p = (p', h) \<Longrightarrow> h \<noteq> null \<longleftrightarrow> card (live p) < cap p"
proof -
  assume a: "inv p" "alloc p = (p', h)"
  have sub: "live p \<subseteq> {..<cap p}" "cap p < null" using live_bound [OF a(1)] by auto
  show ?thesis
  proof (cases "h = null")
    case True
    then show ?thesis using alloc_law [OF a] sub by auto
  next
    case False
    then have "h < cap p" "h \<notin> live p" using alloc_law [OF a] by auto
    then have "live p \<subset> {..<cap p}" using sub by auto
    then have "card (live p) < card {..<cap p}" by (intro psubset_card_mono) auto
    then show ?thesis using False by simp
  qed
qed

text \<open>A slot given back and taken again does not resurrect a handle that is still in use.\<close>

lemma realloc_distinct:
  assumes "inv p" "h \<in> live p" "alloc (release p h) = (p', h')"
  shows "h' \<notin> live p - {h} \<and> h' \<noteq> null"
proof -
  have r: "inv (release p h)" "live (release p h) = live p - {h}" "cap (release p h) = cap p"
    using release_law [OF assms(1,2)] by auto
  have b: "live p \<subseteq> {..<cap p}" using live_bound [OF assms(1)] by blast
  then have "finite (live p)" by (rule finite_subset) simp
  then have "card (live p - {h}) < cap p"
    using card_Diff1_less [of "live p" h] assms(2) b card_mono [of "{..<cap p}" "live p"] by simp
  then have "h' \<noteq> null" using alloc_succeeds [OF r(1) assms(3)] r by simp
  then show ?thesis using alloc_law [OF r(1) assms(3)] r by auto
qed

end

interpretation pool: slot_pool pool_inv pool_live pl_capacity kNullHandle pool_allocate pool_put pool_get pool_free
proof unfold_locales
  fix p :: "'a pool" and p' h x
  show "pool_inv p \<Longrightarrow> pool_live p \<subseteq> {..<pl_capacity p} \<and> pl_capacity p < kNullHandle"
    by (auto simp: pool_live_def pool_inv_def)
  show "pool_inv p \<Longrightarrow> pool_allocate p = (p', h) \<Longrightarrow>
      (h = kNullHandle \<and> p' = p \<and> pool_live p = {..<pl_capacity p}) \<or>
      (h < pl_capacity p \<and> h \<notin> pool_live p \<and> pool_inv p' \<and> pool_live p' = insert h (pool_live p) \<and>
       pl_capacity p' = pl_capacity p \<and> pool_get p' = pool_get p)"
    using pool_allocate_law [of p p' h] by (auto simp: pool_get_def fun_eq_iff)
  show "pool_inv p \<Longrightarrow> h \<in> pool_live p \<Longrightarrow>
      pool_inv (pool_put p h x) \<and> pool_live (pool_put p h x) = pool_live p \<and>
      pl_capacity (pool_put p h x) = pl_capacity p \<and> pool_get (pool_put p h x) = (pool_get p)(h \<mapsto> x)"
    using pool_put_law [of p h x] by (auto simp: fun_eq_iff pool_put_def)
  show "pool_inv p \<Longrightarrow> h \<in> pool_live p \<Longrightarrow>
      pool_inv (pool_free p h) \<and> pool_live (pool_free p h) = pool_live p - {h} \<and>
      pl_capacity (pool_free p h) = pl_capacity p \<and>
      (\<forall>g. g \<noteq> h \<longrightarrow> pool_get (pool_free p h) g = pool_get p g)"
    using pool_free_law [of p h] by blast
qed

section \<open>Properties\<close>

text \<open>A pool never hands out a slot that is in use, refuses exactly when every slot is in
  use, keeps the other objects as they are when one is allocated and initialised, and its
  \<^verbatim>\<open>for_each\<close> then visits the live handles in ascending order, each once.\<close>

theorem pool_allocate_fresh:
  assumes "pool_inv p" and "pool_allocate_init p x = (p', h)"
  shows "(h = kNullHandle \<longleftrightarrow> pool_full p) \<and>
    (h \<noteq> kNullHandle \<longrightarrow> h \<notin> pool_live p \<and> pool_inv p' \<and> pool_get p' = (pool_get p)(h \<mapsto> x) \<and>
       pool_handles p' = filter (\<lambda>g. g = h \<or> g \<in> pool_live p) [0..<pl_capacity p])"
proof -
  obtain q where q: "pool_allocate p = (q, h)" "p' = (if h \<noteq> kNullHandle then pool_put q h x else q)"
    using assms(2) by (auto simp: pool_allocate_init_def split: prod.splits if_splits)
  have "h = kNullHandle \<longleftrightarrow> pool_full p"
    using pool.alloc_succeeds [OF assms(1) q(1)] assms(1) pool.live_bound [OF assms(1)]
      card_mono [of "{..<pl_capacity p}" "pool_live p"]
    by (auto simp: pool_full_def pool_inv_def)
  moreover have "h \<noteq> kNullHandle \<Longrightarrow> h \<notin> pool_live p \<and> pool_inv p' \<and> pool_get p' = (pool_get p)(h \<mapsto> x) \<and>
       pool_handles p' = filter (\<lambda>g. g = h \<or> g \<in> pool_live p) [0..<pl_capacity p]"
    using pool.alloc_put [OF assms(1) q(1), of x] q(2) pool_handles_sorted [of p'] by auto
  ultimately show ?thesis by blast
qed

theorem pool_allocate_fresh_witness:
  "pool_handles (fst (pool_allocate_init (pool_new 3) True)) = [0]"
proof -
  have inv: "pool_inv (pool_new 3 :: bool pool)" "pool_live (pool_new 3 :: bool pool) = {}"
    using pool_new_inv [of 3, where ?'a = bool] by (simp_all add: kNullHandle_def)
  have "snd (pool_allocate_init (pool_new 3) True) = 0" "pl_capacity (pool_new 3 :: bool pool) = 3"
    by (simp_all add: pool_allocate_init_def pool_allocate_def pool_new_def pool_reset_def kNullHandle_def)
  then show ?thesis
    using pool_allocate_fresh [OF inv(1) surjective_pairing, of True] inv(2)
    by (simp add: kNullHandle_def numeral_3_eq_3)
qed

end
