(* ===== verification/BucketBits.thy ===== *)
theory BucketBits
  imports BitWords
begin

text \<open>
  \<^verbatim>\<open>include/fastmm/core/containers/bucket_bits.hpp\<close>: \<^verbatim>\<open>BucketBits<N, B>\<close>, which slots
  belong to each bucket, with a summary word per bucket. \<open>bb_slots\<close> is \<open>N\<close> and \<open>bb_buckets\<close>
  is \<open>B\<close>; the static assertions bound \<open>N\<close> by 4096.
\<close>

record bucket_bits =
  bb_slots :: nat
  bb_buckets :: nat
  bb_bits :: "nat \<Rightarrow> u64"
  bb_words :: "nat \<Rightarrow> u64"

definition bb_kWords :: "bucket_bits \<Rightarrow> nat" where
  "bb_kWords bb = (bb_slots bb + 63) div 64"

definition bb_new :: "nat \<Rightarrow> nat \<Rightarrow> bucket_bits" where
  "bb_new n b = \<lparr>bb_slots = n, bb_buckets = b, bb_bits = (\<lambda>i. 0), bb_words = (\<lambda>i. 0)\<rparr>"

definition bb_bucket :: "bucket_bits \<Rightarrow> nat \<Rightarrow> nat" where
  "bb_bucket bb key = key AND (bb_buckets bb - 1)"

definition bb_set :: "bucket_bits \<Rightarrow> nat \<Rightarrow> nat \<Rightarrow> bucket_bits" where
  "bb_set bb b slot =
     bb\<lparr>bb_bits := (bb_bits bb)(b * bb_kWords bb + slot div 64 :=
          bb_bits bb (b * bb_kWords bb + slot div 64) OR shl1 (slot mod 64)),
        bb_words := (bb_words bb)(b := bb_words bb b OR shl1 (slot div 64))\<rparr>"

definition bb_clear :: "bucket_bits \<Rightarrow> nat \<Rightarrow> nat \<Rightarrow> bucket_bits" where
  "bb_clear bb b slot =
     (let w = bb_bits bb (b * bb_kWords bb + slot div 64) AND NOT (shl1 (slot mod 64))
      in bb\<lparr>bb_bits := (bb_bits bb)(b * bb_kWords bb + slot div 64 := w),
            bb_words := (if w = 0 then (bb_words bb)(b := bb_words bb b AND NOT (shl1 (slot div 64)))
                         else bb_words bb)\<rparr>)"

text \<open>The slots \<^verbatim>\<open>for_each\<close> visits, in its order.\<close>

definition bb_scan :: "bucket_bits \<Rightarrow> nat \<Rightarrow> nat list" where
  "bb_scan bb b =
     concat (map (\<lambda>w. map (\<lambda>i. w * 64 + i) (bit_scan (bb_bits bb (b * bb_kWords bb + w))))
              (bit_scan (bb_words bb b)))"

section \<open>Invariant\<close>

definition bb_mem :: "bucket_bits \<Rightarrow> nat \<Rightarrow> nat \<Rightarrow> bool" where
  "bb_mem bb b slot \<longleftrightarrow> slot < bb_slots bb \<and> bit (bb_bits bb (b * bb_kWords bb + slot div 64)) (slot mod 64)"

definition bb_inv :: "bucket_bits \<Rightarrow> bool" where
  "bb_inv bb \<longleftrightarrow>
     bb_slots bb \<le> 4096 \<and> (\<exists>k. bb_buckets bb = 2 ^ k) \<and>
     (\<forall>b<bb_buckets bb.
        (\<forall>w. bit (bb_words bb b) w \<longleftrightarrow> w < bb_kWords bb \<and> bb_bits bb (b * bb_kWords bb + w) \<noteq> 0) \<and>
        (\<forall>w<bb_kWords bb. \<forall>i. bit (bb_bits bb (b * bb_kWords bb + w)) i \<longrightarrow> w * 64 + i < bb_slots bb))"

section \<open>Facts\<close>

lemma bb_bucket_less: "bb_inv bb \<Longrightarrow> bb_bucket bb key < bb_buckets bb"
proof -
  assume "bb_inv bb"
  then obtain k where k: "bb_buckets bb = 2 ^ k" by (auto simp: bb_inv_def)
  have "bb_bucket bb key = key mod 2 ^ k"
    unfolding bb_bucket_def k by (simp add: take_bit_eq_mask mask_eq_exp_minus_1 flip: take_bit_eq_mod)
  then show ?thesis by (simp add: k)
qed

lemma bb_cell_inj:
  "w < k \<Longrightarrow> w' < k \<Longrightarrow> b * k + w = b' * k + w' \<longleftrightarrow> b = b' \<and> w = (w'::nat)"
  by (metis add.commute add_left_cancel div_mult_self3 div_less gr_implies_not0 mod_less mod_mult_self3 mult.commute)

lemma slot_word_less: "slot < bb_slots bb \<Longrightarrow> slot div 64 < bb_kWords bb"
  using words_cover [of "bb_slots bb"] unfolding bb_kWords_def by (intro less_mult_imp_div_less) linarith

lemma kWords_le: "bb_slots bb \<le> 4096 \<Longrightarrow> bb_kWords bb \<le> 64"
  unfolding bb_kWords_def using div_le_mono [of "bb_slots bb + 63" 4159 64] by simp

lemma bb_simps [simp]:
  "bb_slots (bb_set bb b s) = bb_slots bb" "bb_buckets (bb_set bb b s) = bb_buckets bb"
  "bb_slots (bb_clear bb b s) = bb_slots bb" "bb_buckets (bb_clear bb b s) = bb_buckets bb"
  "bb_kWords (bb_set bb b s) = bb_kWords bb" "bb_kWords (bb_clear bb b s) = bb_kWords bb"
  by (simp_all add: bb_set_def bb_clear_def bb_kWords_def Let_def)

lemma slot_eq_iff: "s div 64 = s' div 64 \<Longrightarrow> s mod 64 = s' mod 64 \<longleftrightarrow> s = (s'::nat)"
  by (metis div_mult_mod_eq)

lemma bb_set_cell:
  assumes "w < bb_kWords bb" "s < bb_slots bb"
  shows "bit (bb_bits (bb_set bb b s) (b' * bb_kWords bb + w)) i \<longleftrightarrow>
    (b' = b \<and> w = s div 64 \<and> i = s mod 64) \<or> bit (bb_bits bb (b' * bb_kWords bb + w)) i"
  using bb_cell_inj [OF assms(1) slot_word_less [OF assms(2)], of b' b]
  by (auto simp: bb_set_def bit_or_iff bit_shl1)

lemma bb_clear_cell:
  assumes "w < bb_kWords bb" "s < bb_slots bb"
  shows "bit (bb_bits (bb_clear bb b s) (b' * bb_kWords bb + w)) i \<longleftrightarrow>
    \<not> (b' = b \<and> w = s div 64 \<and> i = s mod 64) \<and> bit (bb_bits bb (b' * bb_kWords bb + w)) i"
  using bb_cell_inj [OF assms(1) slot_word_less [OF assms(2)], of b' b]
  by (auto simp: bb_clear_def Let_def bit_and_iff bit_not_iff bit_shl1 dest: bit_imp_le_length)

lemma bb_mem_set [simp]:
  "s < bb_slots bb \<Longrightarrow> bb_mem (bb_set bb b s) b' s' \<longleftrightarrow> (b' = b \<and> s' = s) \<or> bb_mem bb b' s'"
  using slot_eq_iff [of s' s] by (auto simp: bb_mem_def bb_set_cell slot_word_less)

lemma bb_mem_clear [simp]:
  "s < bb_slots bb \<Longrightarrow> bb_mem (bb_clear bb b s) b' s' \<longleftrightarrow> \<not> (b' = b \<and> s' = s) \<and> bb_mem bb b' s'"
  using slot_eq_iff [of s' s] by (auto simp: bb_mem_def bb_clear_cell slot_word_less)

lemma word_nonzero_iff: "(x::u64) \<noteq> 0 \<longleftrightarrow> (\<exists>i. bit x i)"
  using nonzero_bit [of x] by auto

lemma bb_set_inv:
  assumes inv: "bb_inv bb" and s: "s < bb_slots bb" "b < bb_buckets bb"
  shows "bb_inv (bb_set bb b s)"
proof -
  have 64: "s div 64 < 64" using slot_word_less [OF s(1)] kWords_le inv by (fastforce simp: bb_inv_def)
  have words: "bit (bb_words (bb_set bb b s) b') w \<longleftrightarrow> (b' = b \<and> w = s div 64) \<or> bit (bb_words bb b') w" for b' w
    using 64 by (auto simp: bb_set_def bit_or_iff bit_shl1)
  show ?thesis
    unfolding bb_inv_def bb_simps words word_nonzero_iff
  proof (intro conjI allI impI)
    show "bb_slots bb \<le> 4096" "\<exists>k. bb_buckets bb = 2 ^ k" using inv by (simp_all add: bb_inv_def)
  next
    fix b' w assume "b' < bb_buckets bb"
    then show "(b' = b \<and> w = s div 64 \<or> bit (bb_words bb b') w) \<longleftrightarrow>
        (w < bb_kWords bb \<and> (\<exists>i. bit (bb_bits (bb_set bb b s) (b' * bb_kWords bb + w)) i))"
      using inv s bb_set_cell [of w bb s] slot_word_less [OF s(1)] by (auto simp: bb_inv_def word_nonzero_iff)
  next
    fix b' w i
    assume "b' < bb_buckets bb" "w < bb_kWords bb" "bit (bb_bits (bb_set bb b s) (b' * bb_kWords bb + w)) i"
    then show "w * 64 + i < bb_slots bb"
      using inv s by (auto simp: bb_set_cell bb_inv_def)
  qed
qed

lemma bb_clear_inv:
  assumes inv: "bb_inv bb" and s: "s < bb_slots bb" "b < bb_buckets bb"
  shows "bb_inv (bb_clear bb b s)"
proof -
  let ?c = "bb_bits (bb_clear bb b s) (b * bb_kWords bb + s div 64)"
  have words: "bit (bb_words (bb_clear bb b s) b') w \<longleftrightarrow>
      \<not> (?c = 0 \<and> b' = b \<and> w = s div 64) \<and> bit (bb_words bb b') w" for b' w
    by (auto simp: bb_clear_def Let_def bit_and_iff bit_not_iff bit_shl1 dest: bit_imp_le_length)
  show ?thesis
    unfolding bb_inv_def bb_simps words
  proof (intro conjI allI impI)
    show "bb_slots bb \<le> 4096" "\<exists>k. bb_buckets bb = 2 ^ k" using inv by (simp_all add: bb_inv_def)
  next
    fix b' w assume b': "b' < bb_buckets bb"
    show "(\<not> (?c = 0 \<and> b' = b \<and> w = s div 64) \<and> bit (bb_words bb b') w) \<longleftrightarrow>
        (w < bb_kWords bb \<and> bb_bits (bb_clear bb b s) (b' * bb_kWords bb + w) \<noteq> 0)"
    proof (cases "b' = b \<and> w = s div 64")
      case True
      then show ?thesis
        using inv s b' bb_clear_cell [OF slot_word_less [OF s(1)] s(1), of b b] slot_word_less [OF s(1)]
        by (auto simp: bb_inv_def word_nonzero_iff)
    next
      case False
      then have "w < bb_kWords bb \<Longrightarrow> bb_bits (bb_clear bb b s) (b' * bb_kWords bb + w) \<noteq> 0 \<longleftrightarrow>
          bb_bits bb (b' * bb_kWords bb + w) \<noteq> 0"
        using bb_clear_cell [of w bb s b b'] s(1) by (auto simp: word_nonzero_iff)
      then show ?thesis using inv b' False by (auto simp: bb_inv_def)
    qed
  next
    fix b' w i
    assume "b' < bb_buckets bb" "w < bb_kWords bb" "bit (bb_bits (bb_clear bb b s) (b' * bb_kWords bb + w)) i"
    then show "w * 64 + i < bb_slots bb"
      using inv s by (auto simp: bb_clear_cell bb_inv_def)
  qed
qed

lemma concat_map_filter: "(\<And>x. x \<in> set xs \<Longrightarrow> \<not> P x \<Longrightarrow> f x = []) \<Longrightarrow> concat (map f (filter P xs)) = concat (map f xs)"
  by (induction xs) auto

lemma filter_upt_cut: "m \<le> n \<Longrightarrow> (\<And>i. P i \<Longrightarrow> i < m) \<Longrightarrow> filter P [0..<n] = filter P [0..<m]"
  using upt_add_eq_append [of 0 m "n - m"] by (fastforce simp: filter_empty_conv)

lemma bb_scan_sorted:
  assumes inv: "bb_inv bb" and b: "b < bb_buckets bb"
  shows "bb_scan bb b = filter (bb_mem bb b) [0..<bb_slots bb]"
proof -
  let ?k = "bb_kWords bb" and ?ws = "\<lambda>w. bb_bits bb (b * bb_kWords bb + w)"
  let ?f = "\<lambda>w. map (\<lambda>i. w * 64 + i) (bit_scan (?ws w))"
  have words: "bit (bb_words bb b) w \<longleftrightarrow> w < ?k \<and> ?ws w \<noteq> 0" for w
    using inv b by (simp add: bb_inv_def)
  have le: "?k \<le> 64" using inv kWords_le by (simp add: bb_inv_def)
  have "bit_scan (bb_words bb b) = filter (\<lambda>w. ?ws w \<noteq> 0) [0..<?k]"
    unfolding bit_scan_sorted by (subst filter_upt_cut [OF le]) (auto simp: words intro: filter_cong)
  then have "bb_scan bb b = concat (map ?f (filter (\<lambda>w. ?ws w \<noteq> 0) [0..<?k]))" by (simp add: bb_scan_def)
  also have "\<dots> = scan_words ?k ?ws"
    unfolding scan_words_def by (rule concat_map_filter) (simp add: bit_scan.simps)
  also have "\<dots> = filter (word_bit ?ws) [0..<?k * 64]" by (rule scan_words_sorted)
  also have "\<dots> = filter (\<lambda>s. s < bb_slots bb \<and> word_bit ?ws s) [0..<?k * 64]"
  proof (intro filter_cong refl)
    fix s assume "s \<in> set [0..<?k * 64]"
    then have "s div 64 < ?k" by (simp add: less_mult_imp_div_less)
    then have "word_bit ?ws s \<Longrightarrow> s div 64 * 64 + s mod 64 < bb_slots bb"
      using inv b unfolding bb_inv_def word_bit_def by blast
    then show "word_bit ?ws s \<longleftrightarrow> s < bb_slots bb \<and> word_bit ?ws s" by auto
  qed
  also have "\<dots> = filter (\<lambda>s. s < bb_slots bb \<and> word_bit ?ws s) [0..<bb_slots bb]"
    using words_cover [of "bb_slots bb"] by (intro filter_upt_cut) (auto simp: bb_kWords_def)
  finally show ?thesis by (simp add: bb_mem_def [abs_def] word_bit_def)
qed

lemma bb_new_inv: "n \<le> 4096 \<Longrightarrow> bb_inv (bb_new n (2 ^ k)) \<and> \<not> bb_mem (bb_new n (2 ^ k)) b s"
  by (auto simp: bb_inv_def bb_new_def bb_mem_def)

section \<open>Properties\<close>

text \<open>After a slot is put into a bucket, or taken out of one, the summary words agree with the
  slot words again, no other membership changes, and \<^verbatim>\<open>for_each\<close> visits exactly the members of
  a bucket, in ascending order.\<close>

theorem bucket_bits_exact:
  assumes "bb_inv bb" and "b < bb_buckets bb" and "s < bb_slots bb" and "b' < bb_buckets bb"
  shows "bb_inv (bb_set bb b s) \<and> bb_inv (bb_clear bb b s) \<and>
    bb_scan (bb_set bb b s) b' = filter (\<lambda>x. (b' = b \<and> x = s) \<or> x \<in> set (bb_scan bb b')) [0..<bb_slots bb] \<and>
    bb_scan (bb_clear bb b s) b' = filter (\<lambda>x. \<not> (b' = b \<and> x = s)) (bb_scan bb b')"
  using assms bb_set_inv [OF assms(1,3,2)] bb_clear_inv [OF assms(1,3,2)]
  by (auto simp: bb_scan_sorted intro: filter_cong)

theorem bucket_bits_exact_witness:
  "bb_scan (bb_set (bb_new 4 2) 1 3) 1 = [3]"
  using bucket_bits_exact [of "bb_new 4 2" 1 3 1] bb_new_inv [of 4 1]
  by (simp add: bb_scan_sorted) (simp add: bb_new_def numeral_eq_Suc)

end
