(* ===== verification/Probing.thy ===== *)
theory Probing
  imports Prelude
begin

text \<open>
  Linear probing with backward-shift deletion, the part \<^verbatim>\<open>OpenHashMap\<close> and the index of
  \<^verbatim>\<open>RecentMap\<close> (\<^verbatim>\<open>include/fastmm/core/containers\<close>) have in common. A table maps slot
  numbers below \<open>N\<close> to an entry or to nothing, and every entry has a home slot. The two loops
  run forever on a table with no free slot, so they take fuel and say when it runs out; on a
  table with a free slot \<open>N\<close> steps are enough (\<open>lp_probe_total\<close>, \<open>lp_shift_total\<close>).
\<close>

section \<open>The loops\<close>

text \<open>\<^verbatim>\<open>(i + 1) & (N - 1)\<close>\<close>

definition wrap_next :: "nat \<Rightarrow> nat \<Rightarrow> nat" where
  "wrap_next n i = (i + 1) AND (n - 1)"

datatype probe = Found nat | Vacant nat | Stuck

text \<open>\<^verbatim>\<open>while (used) { if (match) return found; i = next; }\<close>\<close>

fun lp_probe :: "nat \<Rightarrow> nat \<Rightarrow> (nat \<Rightarrow> 'e option) \<Rightarrow> ('e \<Rightarrow> bool) \<Rightarrow> nat \<Rightarrow> probe" where
  "lp_probe 0 n t match i = Stuck"
| "lp_probe (Suc f) n t match i =
     (case t i of
        None \<Rightarrow> Vacant i
      | Some e \<Rightarrow> if match e then Found i else lp_probe f n t match (wrap_next n i))"

text \<open>The backward-shift loop: \<open>hole\<close> is the slot to fill, \<open>j\<close> the one looked at last.\<close>

definition home_in_range :: "nat \<Rightarrow> nat \<Rightarrow> nat \<Rightarrow> bool" where
  "home_in_range hole j h \<longleftrightarrow> (if hole \<le> j then h > hole \<and> h \<le> j else h > hole \<or> h \<le> j)"

fun lp_shift ::
  "nat \<Rightarrow> nat \<Rightarrow> ('e \<Rightarrow> nat) \<Rightarrow> (nat \<Rightarrow> 'e option) \<Rightarrow> nat \<Rightarrow> nat \<Rightarrow> (nat \<Rightarrow> 'e option) option" where
  "lp_shift 0 n home t hole j = None"
| "lp_shift (Suc f) n home t hole j =
     (let j = wrap_next n j in
      case t j of
        None \<Rightarrow> Some (t (hole := None))
      | Some e \<Rightarrow>
          if \<not> home_in_range hole j (home e)
          then lp_shift f n home (t (hole := Some e)) j j
          else lp_shift f n home t hole j)"

section \<open>Cyclic distance\<close>

definition cdist :: "nat \<Rightarrow> nat \<Rightarrow> nat \<Rightarrow> nat" where
  "cdist n a p = (if a \<le> p then p - a else p + n - a)"

text \<open>
  A table is well probed when every slot between an entry's home and its slot is taken, so that
  a probe from the home reaches the entry before it meets a free slot.
\<close>

definition well_probed :: "nat \<Rightarrow> ('e \<Rightarrow> nat) \<Rightarrow> (nat \<Rightarrow> 'e option) \<Rightarrow> bool" where
  "well_probed n home t \<longleftrightarrow>
     (\<forall>p<n. \<forall>e. t p = Some e \<longrightarrow>
        (\<forall>q<n. cdist n (home e) q < cdist n (home e) p \<longrightarrow> t q \<noteq> None))"

definition entries :: "nat \<Rightarrow> (nat \<Rightarrow> 'e option) \<Rightarrow> 'e set" where
  "entries n t = {e. \<exists>p<n. t p = Some e}"

definition key_unique :: "nat \<Rightarrow> ('e \<Rightarrow> 'k) \<Rightarrow> (nat \<Rightarrow> 'e option) \<Rightarrow> bool" where
  "key_unique n key t \<longleftrightarrow>
     (\<forall>p<n. \<forall>q<n. \<forall>e f. t p = Some e \<longrightarrow> t q = Some f \<longrightarrow> key e = key f \<longrightarrow> p = q)"

definition occupied :: "nat \<Rightarrow> (nat \<Rightarrow> 'e option) \<Rightarrow> nat set" where
  "occupied n t = {p. p < n \<and> t p \<noteq> None}"

section \<open>Distance arithmetic\<close>

lemma wrap_next_mod: "wrap_next (2 ^ b) i = (i + 1) mod 2 ^ b"
  by (simp add: wrap_next_def take_bit_eq_mask mask_eq_exp_minus_1 flip: take_bit_eq_mod)

lemma cdist_less: "a < n \<Longrightarrow> p < n \<Longrightarrow> cdist n a p < n"
  by (auto simp: cdist_def)

lemma cdist_self [simp]: "cdist n a a = 0"
  by (simp add: cdist_def)

lemma cdist_eq_0: "p < n \<Longrightarrow> a < n \<Longrightarrow> cdist n a p = 0 \<longleftrightarrow> a = p"
  by (auto simp: cdist_def)

lemma cdist_inj: "cdist n a p = cdist n a q \<Longrightarrow> a < n \<Longrightarrow> p < n \<Longrightarrow> q < n \<Longrightarrow> p = q"
  by (auto simp: cdist_def split: if_splits)

text \<open>If \<open>m\<close> lies on the way from \<open>a\<close> to \<open>p\<close>, the distances add up.\<close>

lemma cdist_split:
  "cdist n m p \<le> cdist n a p \<Longrightarrow> a < n \<Longrightarrow> m < n \<Longrightarrow> p < n \<Longrightarrow>
   cdist n a m + cdist n m p = cdist n a p"
  by (auto simp: cdist_def split: if_splits)

lemma cdist_mono_split:
  "cdist n h q < cdist n h p \<Longrightarrow> h < n \<Longrightarrow> p < n \<Longrightarrow> q < n \<Longrightarrow> cdist n q p + cdist n h q = cdist n h p"
  by (auto simp: cdist_def split: if_splits)

lemma home_in_range_iff:
  "hole < n \<Longrightarrow> j < n \<Longrightarrow> h < n \<Longrightarrow> hole \<noteq> j \<Longrightarrow>
   home_in_range hole j h \<longleftrightarrow> cdist n h j < cdist n hole j"
  by (auto simp: home_in_range_def cdist_def)

section \<open>Entries of a table\<close>

lemma well_probedD:
  "well_probed n home t \<Longrightarrow> p < n \<Longrightarrow> t p = Some e \<Longrightarrow> q < n \<Longrightarrow>
   cdist n (home e) q < cdist n (home e) p \<Longrightarrow> t q \<noteq> None"
  unfolding well_probed_def by blast

lemma entries_iff: "e \<in> entries n t \<longleftrightarrow> (\<exists>p<n. t p = Some e)"
  by (simp add: entries_def)

lemma entries_add:
  assumes "p < n" "t p = None"
  shows "entries n (t(p := Some e)) = insert e (entries n t)"
proof (rule set_eqI)
  fix x
  show "x \<in> entries n (t(p := Some e)) \<longleftrightarrow> x \<in> insert e (entries n t)"
    using assms unfolding entries_iff insert_iff by (metis fun_upd_apply option.distinct(1) option.inject)
qed

lemma entries_remove:
  assumes "p < n" "t p = Some e" "key_unique n key t"
  shows "entries n (t(p := None)) = entries n t - {e}"
proof (rule set_eqI)
  fix x
  have "q = p" if "q < n" "t q = Some e" for q
    using assms that unfolding key_unique_def by blast
  then show "x \<in> entries n (t(p := None)) \<longleftrightarrow> x \<in> entries n t - {e}"
    using assms(1,2) unfolding entries_iff Diff_iff singleton_iff
    by (metis fun_upd_apply option.distinct(1) option.inject)
qed

lemma entries_replace:
  assumes "p < n" "t p = Some e" "key_unique n key t"
  shows "entries n (t(p := Some e')) = insert e' (entries n t - {e})"
  using entries_remove [OF assms] entries_add [of p n "t(p := None)" e'] assms(1) by simp

lemma key_uniqueD:
  "key_unique n key t \<Longrightarrow> p < n \<Longrightarrow> q < n \<Longrightarrow> t p = Some e \<Longrightarrow> t q = Some f \<Longrightarrow> key e = key f \<Longrightarrow> p = q"
  unfolding key_unique_def by blast

lemma well_probed_add:
  assumes "well_probed n home t" "\<forall>q<n. cdist n (home e) q < cdist n (home e) i \<longrightarrow> t q \<noteq> None"
  shows "well_probed n home (t(i := Some e))"
  using assms unfolding well_probed_def by (auto split: if_splits)

lemma key_unique_add:
  assumes "key_unique n key t" "\<And>q f. q < n \<Longrightarrow> t q = Some f \<Longrightarrow> key f \<noteq> key e"
  shows "key_unique n key (t(i := Some e))"
  unfolding key_unique_def
proof (intro allI impI)
  fix p q x y
  assume "p < n" "q < n" "(t(i := Some e)) p = Some x" "(t(i := Some e)) q = Some y" "key x = key y"
  then show "p = q"
    using assms(2) [of p x] assms(2) [of q y] key_uniqueD [OF assms(1), of p q x y]
    by (cases "p = i"; cases "q = i") auto
qed

lemma lp_shift_range:
  "lp_shift f n home t hole j = Some t' \<Longrightarrow> t' i = Some s \<Longrightarrow> \<exists>q. t q = Some s"
proof (induction f arbitrary: t hole j)
  case (Suc f)
  let ?j = "wrap_next n j"
  show ?case
  proof (cases "t ?j")
    case None
    then show ?thesis using Suc.prems by (auto split: if_splits)
  next
    case (Some e)
    show ?thesis
    proof (cases "home_in_range hole ?j (home e)")
      case True
      then show ?thesis using Suc.IH [of t hole ?j] Suc.prems Some by simp
    next
      case False
      then have "lp_shift f n home (t(hole \<mapsto> e)) ?j ?j = Some t'" using Suc.prems Some by (simp add: Let_def)
      then obtain q where "(t(hole \<mapsto> e)) q = Some s" using Suc.IH Suc.prems(2) by blast
      then show ?thesis using Some by (auto split: if_splits)
    qed
  qed
qed simp

section \<open>Moving an entry into the hole\<close>

lemma move_origin:
  "(t(hole := Some e, j := None)) p = Some x \<Longrightarrow> t j = Some e \<Longrightarrow> hole \<noteq> j \<Longrightarrow>
   (t(hole := None)) (if p = hole then j else p) = Some x \<and> p \<noteq> j"
  by (auto split: if_splits)

lemma move_entries:
  assumes "t j = Some e" "hole < n" "j < n" "hole \<noteq> j"
  shows "entries n (t(hole := Some e, j := None)) = entries n (t(hole := None))"
proof (rule set_eqI, rule iffI)
  fix x assume "x \<in> entries n (t(hole := Some e, j := None))"
  then obtain p where p: "p < n" "(t(hole := Some e, j := None)) p = Some x"
    by (auto simp: entries_def)
  then have "(t(hole := None)) (if p = hole then j else p) = Some x" "(if p = hole then j else p) < n"
    using move_origin [OF p(2) assms(1,4)] assms(3) p(1) by simp_all
  then show "x \<in> entries n (t(hole := None))" unfolding entries_def by blast
next
  fix x assume "x \<in> entries n (t(hole := None))"
  then obtain p where p: "p < n" "(t(hole := None)) p = Some x"
    by (auto simp: entries_def)
  then have "(t(hole := Some e, j := None)) (if p = j then hole else p) = Some x" "(if p = j then hole else p) < n"
    using assms by (auto split: if_splits)
  then show "x \<in> entries n (t(hole := Some e, j := None))" unfolding entries_def by blast
qed

lemma move_unique:
  assumes u: "key_unique n key (t(hole := None))" and j: "t j = Some e" "j < n" "hole \<noteq> j"
  shows "key_unique n key (t(hole := Some e, j := None))"
  unfolding key_unique_def
proof (intro allI impI)
  fix p q x y
  assume a: "p < n" "q < n" "(t(hole := Some e, j := None)) p = Some x"
    "(t(hole := Some e, j := None)) q = Some y" "key x = key y"
  let ?s = "\<lambda>p. if p = hole then j else p"
  note o = move_origin [OF a(3) j(1,3)] move_origin [OF a(4) j(1,3)]
  have "?s p < n" "?s q < n" using a j by simp_all
  then have "?s p = ?s q"
    using u o a(5) unfolding key_unique_def by blast
  then show "p = q" using o by (simp split: if_splits)
qed

section \<open>Correctness of the loops\<close>

locale probing =
  fixes n :: nat and home :: "'e \<Rightarrow> nat"
  assumes pow2: "\<exists>b. n = 2 ^ b"
    and home_less: "home e < n"
begin

lemma n_pos: "0 < n"
  using pow2 by auto

lemma next_less: "wrap_next n i < n"
  using pow2 by (auto simp: wrap_next_mod)

lemma next_eq: "i < n \<Longrightarrow> wrap_next n i = (if Suc i = n then 0 else Suc i)"
  using pow2 by (auto simp: wrap_next_mod)

lemma cdist_next: "a < n \<Longrightarrow> p < n \<Longrightarrow> Suc (cdist n a p) < n \<Longrightarrow> cdist n a (wrap_next n p) = Suc (cdist n a p)"
  by (auto simp: next_eq cdist_def split: if_splits)

lemma cdist_next_self: "p < n \<Longrightarrow> wrap_next n p \<noteq> p \<Longrightarrow> cdist n p (wrap_next n p) = 1"
  by (auto simp: next_eq cdist_def split: if_splits)

lemma probe_from:
  assumes "h < n" and "f + d = n" and "f > 0 \<longrightarrow> i < n \<and> cdist n h i = d"
    and "\<And>q. q < n \<Longrightarrow> cdist n h q < d \<Longrightarrow> \<exists>e. t q = Some e \<and> \<not> match e"
    and "\<exists>p<n. t p = None"
  shows "\<exists>p<n. (\<forall>q<n. cdist n h q < cdist n h p \<longrightarrow> (\<exists>e. t q = Some e \<and> \<not> match e)) \<and>
    (case t p of None \<Rightarrow> lp_probe f n t match i = Vacant p
     | Some e \<Rightarrow> match e \<and> lp_probe f n t match i = Found p)"
  using assms
proof (induction f arbitrary: d i)
  case 0
  obtain p where p: "p < n" "t p = None" using 0(5) by blast
  have "cdist n h p < d" using cdist_less [OF 0(1) p(1)] 0(2) by simp
  with 0(4) [OF p(1)] p(2) show ?case by simp
next
  case (Suc f)
  then have i: "i < n" "cdist n h i = d" by auto
  show ?case
  proof (cases "\<exists>e. t i = Some e \<and> \<not> match e")
    case False
    then show ?thesis using i Suc.prems(4) by (intro exI [of _ i]) (simp split: option.splits)
  next
    case True
    have "\<exists>p<n. (\<forall>q<n. cdist n h q < cdist n h p \<longrightarrow> (\<exists>e. t q = Some e \<and> \<not> match e)) \<and>
      (case t p of None \<Rightarrow> lp_probe f n t match (wrap_next n i) = Vacant p
       | Some e \<Rightarrow> match e \<and> lp_probe f n t match (wrap_next n i) = Found p)"
    proof (rule Suc.IH [of "Suc d"])
      show "f > 0 \<longrightarrow> wrap_next n i < n \<and> cdist n h (wrap_next n i) = Suc d"
        using i Suc.prems(1,2) next_less [of i] cdist_next [of h i] by simp
      show "\<exists>e. t q = Some e \<and> \<not> match e" if "q < n" "cdist n h q < Suc d" for q
      proof (cases "cdist n h q = d")
        case True
        then have "q = i" using cdist_inj [of n h q i] that i Suc.prems(1) by simp
        then show ?thesis using \<open>\<exists>e. t i = Some e \<and> \<not> match e\<close> by simp
      next
        case False
        then show ?thesis using Suc.prems(4) that by simp
      qed
    qed (use Suc.prems in simp_all)
    moreover have "lp_probe (Suc f) n t match i = lp_probe f n t match (wrap_next n i)"
      using True by auto
    ultimately show ?thesis by (simp only:)
  qed
qed

lemma lp_probe_total:
  assumes "h < n" "\<exists>p<n. t p = None"
  obtains p where "p < n" "\<forall>q<n. cdist n h q < cdist n h p \<longrightarrow> (\<exists>e. t q = Some e \<and> \<not> match e)"
    "case t p of None \<Rightarrow> lp_probe n n t match h = Vacant p
     | Some e \<Rightarrow> match e \<and> lp_probe n n t match h = Found p"
  using probe_from [of h n 0 h t match] assms n_pos by auto

definition shift_inv :: "(nat \<Rightarrow> 'e option) \<Rightarrow> nat \<Rightarrow> nat \<Rightarrow> bool" where
  "shift_inv t hole j \<longleftrightarrow>
     hole < n \<and> j < n \<and> t hole \<noteq> None \<and>
     (\<forall>p<n. \<forall>e. p \<noteq> hole \<longrightarrow> t p = Some e \<longrightarrow>
        (\<forall>q<n. cdist n (home e) q < cdist n (home e) p \<longrightarrow> t q \<noteq> None)) \<and>
     (\<forall>p<n. 0 < cdist n hole p \<longrightarrow> cdist n hole p \<le> cdist n hole j \<longrightarrow>
        (\<exists>e. t p = Some e \<and> cdist n (home e) p < cdist n hole p))"

lemma shift_inv_start:
  "well_probed n home t \<Longrightarrow> hole < n \<Longrightarrow> t hole \<noteq> None \<Longrightarrow> shift_inv t hole hole"
  by (auto simp: shift_inv_def well_probed_def)

lemma shift_inv_path:
  "shift_inv t hole j \<Longrightarrow> p < n \<Longrightarrow> p \<noteq> hole \<Longrightarrow> t p = Some e \<Longrightarrow> q < n \<Longrightarrow>
   cdist n (home e) q < cdist n (home e) p \<Longrightarrow> t q \<noteq> None"
  unfolding shift_inv_def by blast

lemma shift_inv_occupied: "shift_inv t hole j \<Longrightarrow> t j \<noteq> None"
  by (cases "j = hole") (auto simp: shift_inv_def cdist_eq_0)

text \<open>The hole can be emptied once the slot after \<open>j\<close> is free.\<close>

lemma shift_inv_done:
  assumes inv: "shift_inv t hole j" and free: "t (wrap_next n j) = None"
  shows "well_probed n home (t(hole := None))"
  unfolding well_probed_def
proof (intro allI impI)
  fix p e q
  assume p: "p < n" "(t(hole := None)) p = Some e" and q: "q < n" "cdist n (home e) q < cdist n (home e) p"
  let ?g = "wrap_next n j"
  have tp: "p \<noteq> hole" "t p = Some e" using p by (auto split: if_splits)
  have lt: "hole < n" "j < n" "?g < n" using inv next_less by (auto simp: shift_inv_def)
  have tq: "t q \<noteq> None" using inv p q tp by (auto simp: shift_inv_def)
  moreover have "q \<noteq> hole"
  proof
    assume "q = hole"
    then have on: "cdist n hole p + cdist n (home e) hole = cdist n (home e) p"
      using cdist_mono_split q p home_less by blast
    have pos: "0 < cdist n hole p" using tp lt p cdist_eq_0 by (metis gr0I)
    show False
    proof (cases "cdist n hole p \<le> cdist n hole j")
      case True
      then show False using inv tp p pos on by (auto simp: shift_inv_def)
    next
      case False
      then have "Suc (cdist n hole j) < n" using cdist_less [OF lt(1) p(1)] by simp
      then have g: "cdist n hole ?g = Suc (cdist n hole j)" using cdist_next lt by simp
      then have "?g \<noteq> p" using free tp by auto
      then have "cdist n hole ?g < cdist n hole p"
        using g False cdist_inj [of n hole ?g p] lt p by fastforce
      then have "cdist n (home e) ?g < cdist n (home e) p"
        using cdist_mono_split [of n hole ?g p] on lt p cdist_split [of n ?g p "home e"] home_less by simp
      then show False using shift_inv_path [OF inv p(1) tp lt(3)] free by blast
    qed
  qed
  ultimately show "(t(hole := None)) q \<noteq> None" by simp
qed

lemma shift_inv_skip:
  assumes inv: "shift_inv t hole j" and e: "t (wrap_next n j) = Some e" "wrap_next n j \<noteq> hole"
    and r: "home_in_range hole (wrap_next n j) (home e)" and len: "Suc (cdist n hole j) < n"
  shows "shift_inv t hole (wrap_next n j)"
proof -
  let ?g = "wrap_next n j"
  have lt: "hole < n" "j < n" "?g < n" using inv next_less by (auto simp: shift_inv_def)
  have g: "cdist n hole ?g = Suc (cdist n hole j)" using cdist_next lt len by simp
  have "\<exists>e. t p = Some e \<and> cdist n (home e) p < cdist n hole p"
    if p: "p < n" "0 < cdist n hole p" "cdist n hole p \<le> cdist n hole ?g" for p
  proof (cases "p = ?g")
    case True
    then show ?thesis using e r home_in_range_iff [of hole n ?g "home e"] lt home_less by auto
  next
    case False
    then have "cdist n hole p \<le> cdist n hole j"
      using g p cdist_inj [of n hole p ?g] lt by fastforce
    then show ?thesis using inv p by (auto simp: shift_inv_def)
  qed
  then show ?thesis using inv lt by (simp add: shift_inv_def)
qed

lemma shift_inv_move:
  assumes inv: "shift_inv t hole j" and e: "t (wrap_next n j) = Some e" "wrap_next n j \<noteq> hole"
    and r: "\<not> home_in_range hole (wrap_next n j) (home e)"
  shows "shift_inv (t(hole := Some e)) (wrap_next n j) (wrap_next n j)"
proof -
  let ?g = "wrap_next n j" and ?t = "t(hole := Some e)"
  have lt: "hole < n" "j < n" "?g < n" using inv next_less by (auto simp: shift_inv_def)
  have far: "cdist n hole ?g \<le> cdist n (home e) ?g"
    using r home_in_range_iff [of hole n ?g "home e"] lt home_less e(2) by auto
  have occ: "?t q \<noteq> None \<longleftrightarrow> t q \<noteq> None" for q
    using inv by (auto simp: shift_inv_def)
  have "t q \<noteq> None"
    if p: "p < n" "p \<noteq> ?g" "?t p = Some x" and q: "q < n" "cdist n (home x) q < cdist n (home x) p" for p x q
  proof (cases "p = hole")
    case True
    then have "x = e" using p by simp
    moreover have "cdist n (home e) q < cdist n (home e) ?g"
      using q True \<open>x = e\<close> far cdist_split [of n hole ?g "home e"] lt home_less by simp
    ultimately show ?thesis using inv e lt q by (auto simp: shift_inv_def)
  next
    case False
    then show ?thesis using inv p q by (auto simp: shift_inv_def)
  qed
  then show ?thesis using lt e occ by (auto simp: shift_inv_def)
qed

lemma shift_inv_len:
  assumes "shift_inv t hole j" "g < n" "t g = None"
  shows "Suc (cdist n hole j) < n"
proof (rule ccontr)
  assume "\<not> ?thesis"
  moreover have h: "hole < n" "t hole \<noteq> None" using assms(1) by (auto simp: shift_inv_def)
  ultimately have "cdist n hole g \<le> cdist n hole j" using cdist_less [OF h(1) assms(2)] by simp
  moreover have "0 < cdist n hole g" using h assms(2,3) cdist_eq_0 [of g n hole] by auto
  ultimately show False using assms by (auto simp: shift_inv_def)
qed

lemma shift_total:
  assumes "shift_inv t hole j" and "g < n" "t g = None" and "cdist n j g \<le> f"
  shows "\<exists>t' hole'. lp_shift f n home t hole j = Some t' \<and> well_probed n home t' \<and>
    entries n t' = entries n (t(hole := None)) \<and>
    (\<forall>key::'e \<Rightarrow> 'k. key_unique n key (t(hole := None)) \<longrightarrow> key_unique n key t') \<and>
    hole' < n \<and> occupied n t = insert hole' (occupied n t') \<and> hole' \<notin> occupied n t'"
  using assms
proof (induction f arbitrary: t hole j)
  case 0
  then have "j < n" by (simp add: shift_inv_def)
  then have "g = j" using 0 cdist_eq_0 [of g n j] by simp
  then show ?case using 0 shift_inv_occupied by blast
next
  case (Suc f)
  let ?j = "wrap_next n j"
  have lt: "hole < n" "j < n" "?j < n" using Suc.prems(1) next_less by (auto simp: shift_inv_def)
  have jg: "j \<noteq> g" using shift_inv_occupied [OF Suc.prems(1)] Suc.prems(3) by auto
  show ?case
  proof (cases "t ?j")
    case None
    have "lp_shift (Suc f) n home t hole j = Some (t(hole := None))" using None by simp
    moreover have "occupied n t = insert hole (occupied n (t(hole := None)))" "hole \<notin> occupied n (t(hole := None))"
      using Suc.prems(1) by (auto simp: occupied_def shift_inv_def)
    ultimately show ?thesis using shift_inv_done [OF Suc.prems(1) None] lt(1) by blast
  next
    case (Some e)
    have ng: "?j \<noteq> g" using Some Suc.prems(3) by auto
    have le: "cdist n ?j g \<le> f"
      using Suc.prems(2,4) jg ng lt by (auto simp: next_eq cdist_def split: if_splits)
    have len: "Suc (cdist n hole j) < n"
      using shift_inv_len [OF Suc.prems(1-3)] .
    have nh: "?j \<noteq> hole" using cdist_next [OF lt(1,2) len] by auto
    show ?thesis
    proof (cases "home_in_range hole ?j (home e)")
      case True
      then have "shift_inv t hole ?j" using shift_inv_skip [OF Suc.prems(1) Some nh _ len] by blast
      moreover have "lp_shift (Suc f) n home t hole j = lp_shift f n home t hole ?j" using Some True by simp
      ultimately show ?thesis using Suc.IH [of t hole ?j] Suc.prems(2,3) le by simp
    next
      case False
      let ?t = "t(hole := Some e)"
      have "shift_inv ?t ?j ?j" using shift_inv_move [OF Suc.prems(1) Some nh False] .
      moreover have "lp_shift (Suc f) n home t hole j = lp_shift f n home ?t ?j ?j" using Some False by (simp add: Let_def)
      moreover have "?t g = None" using Suc.prems(1,3) by (auto simp: shift_inv_def)
      moreover have "occupied n ?t = occupied n t"
        using Suc.prems(1) by (auto simp: occupied_def shift_inv_def)
      moreover have "entries n (?t(?j := None)) = entries n (t(hole := None))"
        using move_entries [of t ?j e hole n] Some lt nh by auto
      moreover have "key_unique n key (?t(?j := None))" if "key_unique n key (t(hole := None))" for key :: "'e \<Rightarrow> 'k"
        using move_unique [of n key t hole ?j e] that Some lt nh by auto
      ultimately show ?thesis
        using Suc.IH [of ?t ?j ?j] Suc.prems(2) le by metis
    qed
  qed
qed

text \<open>On a table with no free slot and no match the probe loop never ends.\<close>

lemma probe_full_stuck:
  assumes "\<And>p. p < n \<Longrightarrow> \<exists>e. t p = Some e \<and> \<not> match e" "i < n"
  shows "lp_probe f n t match i = Stuck"
  using assms(2)
proof (induction f arbitrary: i)
  case (Suc f)
  obtain e where "t i = Some e" "\<not> match e" using assms(1) [OF Suc.prems] by blast
  then show ?case using Suc.IH [OF next_less] by simp
qed simp

end

end
