(* ===== verification/OpenHashMap.thy ===== *)
theory OpenHashMap
  imports Probing
begin

text \<open>
  \<^verbatim>\<open>include/fastmm/core/containers/open_hash_map.hpp\<close>: \<^verbatim>\<open>OpenHashMap<K, V, N>\<close>. A key is
  its 64-bit representation (\<^verbatim>\<open>KeyRep::to_u64\<close>), the capacity is \<open>2 ^ ohm_bits\<close>, and a slot
  whose \<^verbatim>\<open>used\<close> flag is clear is \<^const>\<open>None\<close>. A pointer to a value is the number of its slot.
  Under the invariant \<open>ohm_inv\<close> the map behaves as the partial function \<open>ohm_find m\<close>, and no
  loop of it runs out of fuel.
\<close>

definition index_of :: "nat \<Rightarrow> u64 \<Rightarrow> nat" where
  "index_of b k = unat (drop_bit (64 - b) (k * 0x9E3779B97F4A7C15))"

record 'v open_hash_map =
  ohm_bits :: nat
  ohm_slots :: "nat \<Rightarrow> (u64 \<times> 'v) option"
  ohm_size :: nat

definition kMaxSize :: "nat \<Rightarrow> nat" where
  "kMaxSize n = n - n div 8"

definition ohm_new :: "nat \<Rightarrow> 'v open_hash_map" where
  "ohm_new b = \<lparr>ohm_bits = b, ohm_slots = (\<lambda>i. None), ohm_size = 0\<rparr>"

definition ohm_clear :: "'v open_hash_map \<Rightarrow> 'v open_hash_map" where
  "ohm_clear m = m\<lparr>ohm_slots := (\<lambda>i. None), ohm_size := 0\<rparr>"

definition ohm_probe :: "'v open_hash_map \<Rightarrow> u64 \<Rightarrow> probe" where
  "ohm_probe m k =
     lp_probe (2 ^ ohm_bits m) (2 ^ ohm_bits m) (ohm_slots m) (\<lambda>e. fst e = k) (index_of (ohm_bits m) k)"

definition ohm_find :: "'v open_hash_map \<Rightarrow> u64 \<Rightarrow> 'v option" where
  "ohm_find m k = (case ohm_probe m k of Found i \<Rightarrow> map_option snd (ohm_slots m i) | _ \<Rightarrow> None)"

definition ohm_contains :: "'v open_hash_map \<Rightarrow> u64 \<Rightarrow> bool" where
  "ohm_contains m k \<longleftrightarrow> ohm_find m k \<noteq> None"

definition ohm_insert :: "'v open_hash_map \<Rightarrow> u64 \<Rightarrow> 'v \<Rightarrow> 'v open_hash_map \<times> nat option \<times> bool" where
  "ohm_insert m k v =
     (case ohm_probe m k of
        Found i \<Rightarrow> (m, Some i, False)
      | Stuck \<Rightarrow> (m, None, False)
      | Vacant i \<Rightarrow>
          if ohm_size m \<ge> kMaxSize (2 ^ ohm_bits m) then (m, None, False)
          else (m\<lparr>ohm_slots := (ohm_slots m)(i := Some (k, v)), ohm_size := ohm_size m + 1\<rparr>, Some i, True))"

definition ohm_assign :: "'v open_hash_map \<Rightarrow> u64 \<Rightarrow> 'v \<Rightarrow> 'v open_hash_map \<times> nat option" where
  "ohm_assign m k v =
     (case ohm_insert m k v of
        (m', p, inserted) \<Rightarrow>
          (case p of
             Some i \<Rightarrow> if \<not> inserted
               then (m'\<lparr>ohm_slots := (ohm_slots m')(i := Some (k, v))\<rparr>, Some i) else (m', Some i)
           | None \<Rightarrow> (m', None)))"

definition ohm_erase_slot :: "'v open_hash_map \<Rightarrow> nat \<Rightarrow> 'v open_hash_map" where
  "ohm_erase_slot m hole =
     (case lp_shift (2 ^ ohm_bits m) (2 ^ ohm_bits m) (\<lambda>e. index_of (ohm_bits m) (fst e)) (ohm_slots m) hole hole of
        None \<Rightarrow> m
      | Some t \<Rightarrow> m\<lparr>ohm_slots := t, ohm_size := ohm_size m - 1\<rparr>)"

definition ohm_erase :: "'v open_hash_map \<Rightarrow> u64 \<Rightarrow> 'v open_hash_map \<times> bool" where
  "ohm_erase m k =
     (case ohm_probe m k of Found i \<Rightarrow> (ohm_erase_slot m i, True) | _ \<Rightarrow> (m, False))"

definition ohm_inv :: "'v open_hash_map \<Rightarrow> bool" where
  "ohm_inv m \<longleftrightarrow>
     3 \<le> ohm_bits m \<and> well_probed (2 ^ ohm_bits m) (\<lambda>e. index_of (ohm_bits m) (fst e)) (ohm_slots m) \<and>
     key_unique (2 ^ ohm_bits m) fst (ohm_slots m) \<and>
     ohm_size m = card (occupied (2 ^ ohm_bits m) (ohm_slots m)) \<and>
     ohm_size m \<le> kMaxSize (2 ^ ohm_bits m)"

lemma index_of_less: "index_of b k < 2 ^ b"
proof -
  define h where "h = k * 0x9E3779B97F4A7C15"
  have "unat h div 2 ^ (64 - b) < 2 ^ b"
  proof (cases "b \<le> 64")
    case True
    then have "unat h < 2 ^ b * 2 ^ (64 - b)" using unat_u64_less [of h] by (simp flip: power_add)
    then show ?thesis by (rule less_mult_imp_div_less)
  next
    case False
    then have "(2::nat) ^ 64 \<le> 2 ^ b" by (intro power_increasing) auto
    then show ?thesis using unat_u64_less [of h] False by (simp add: less_le_trans)
  qed
  then show ?thesis by (simp add: index_of_def h_def unat_drop_bit_eq drop_bit_eq_div [where ?'a = nat])
qed

lemma ohm_invD:
  assumes "ohm_inv m"
  shows "well_probed (2 ^ ohm_bits m) (\<lambda>e. index_of (ohm_bits m) (fst e)) (ohm_slots m)"
    "key_unique (2 ^ ohm_bits m) fst (ohm_slots m)"
  using assms by (simp_all add: ohm_inv_def)

interpretation ohm: probing "2 ^ b" "\<lambda>e. index_of b (fst e)" for b
  by unfold_locales (auto simp: index_of_less)

lemma kMaxSize_less: "3 \<le> b \<Longrightarrow> kMaxSize (2 ^ b) < 2 ^ b"
proof -
  assume "3 \<le> b"
  then obtain c where "b = 3 + c" using le_Suc_ex by blast
  then show ?thesis by (simp add: kMaxSize_def power_add)
qed

lemma ohm_gap: "ohm_inv m \<Longrightarrow> \<exists>p<2 ^ ohm_bits m. ohm_slots m p = None"
proof (rule ccontr)
  assume inv: "ohm_inv m" and "\<not> ?thesis"
  then have "occupied (2 ^ ohm_bits m) (ohm_slots m) = {..<2 ^ ohm_bits m}"
    by (auto simp: occupied_def)
  then show False using inv kMaxSize_less [of "ohm_bits m"] by (simp add: ohm_inv_def)
qed

lemma ohm_probe_cases:
  assumes inv: "ohm_inv m"
  obtains (found) p v where "ohm_probe m k = Found p" "p < 2 ^ ohm_bits m" "ohm_slots m p = Some (k, v)"
    "ohm_find m k = Some v"
  | (absent) p where "ohm_probe m k = Vacant p" "p < 2 ^ ohm_bits m" "ohm_slots m p = None"
    "ohm_find m k = None" "\<forall>v. (k, v) \<notin> entries (2 ^ ohm_bits m) (ohm_slots m)"
    "\<forall>q<2 ^ ohm_bits m. cdist (2 ^ ohm_bits m) (index_of (ohm_bits m) k) q <
       cdist (2 ^ ohm_bits m) (index_of (ohm_bits m) k) p \<longrightarrow> ohm_slots m q \<noteq> None"
proof -
  let ?n = "2 ^ ohm_bits m :: nat" and ?h = "index_of (ohm_bits m) k"
  obtain p where p: "p < ?n"
    "\<forall>q<?n. cdist ?n ?h q < cdist ?n ?h p \<longrightarrow> (\<exists>e. ohm_slots m q = Some e \<and> \<not> fst e = k)"
    "case ohm_slots m p of None \<Rightarrow> lp_probe ?n ?n (ohm_slots m) (\<lambda>e. fst e = k) ?h = Vacant p
     | Some e \<Rightarrow> fst e = k \<and> lp_probe ?n ?n (ohm_slots m) (\<lambda>e. fst e = k) ?h = Found p"
    by (rule ohm.lp_probe_total [OF index_of_less ohm_gap [OF inv], of _ "\<lambda>e. fst e = k"])
  show thesis
  proof (cases "ohm_slots m p")
    case (Some e)
    then have "ohm_probe m k = Found p" "ohm_slots m p = Some (k, snd e)"
      using p(3) by (auto simp: ohm_probe_def)
    then show thesis using found p(1) by (simp add: ohm_find_def)
  next
    case None
    then have vac: "ohm_probe m k = Vacant p" using p(3) by (simp add: ohm_probe_def)
    have "(k, v) \<notin> entries ?n (ohm_slots m)" for v
    proof
      assume "(k, v) \<in> entries ?n (ohm_slots m)"
      then obtain q where q: "q < ?n" "ohm_slots m q = Some (k, v)" by (auto simp: entries_def)
      have "\<not> cdist ?n ?h q < cdist ?n ?h p" using p(2) [rule_format, OF q(1)] q(2) by auto
      moreover have "cdist ?n ?h q \<noteq> cdist ?n ?h p"
        using cdist_inj [of ?n ?h q p] index_of_less [of "ohm_bits m" k] p(1) q None by auto
      ultimately have "cdist ?n ?h p < cdist ?n ?h q" by simp
      moreover have "well_probed ?n (\<lambda>e. index_of (ohm_bits m) (fst e)) (ohm_slots m)"
        using inv by (simp add: ohm_inv_def)
      ultimately show False using q p(1) None unfolding well_probed_def by fastforce
    qed
    moreover have "ohm_find m k = None" using vac by (simp add: ohm_find_def)
    moreover have "\<forall>q<?n. cdist ?n ?h q < cdist ?n ?h p \<longrightarrow> ohm_slots m q \<noteq> None"
      using p(2) by (metis option.discI)
    ultimately show thesis using absent [OF vac p(1) None] by blast
  qed
qed

lemma ohm_find_iff:
  assumes "ohm_inv m"
  shows "ohm_find m k = Some v \<longleftrightarrow> (k, v) \<in> entries (2 ^ ohm_bits m) (ohm_slots m)"
  using assms
proof (cases rule: ohm_probe_cases [OF assms, of k])
  case (1 p w)
  have "v = w" if "(k, v) \<in> entries (2 ^ ohm_bits m) (ohm_slots m)"
  proof -
    from that obtain q where q: "q < 2 ^ ohm_bits m" "ohm_slots m q = Some (k, v)" by (auto simp: entries_def)
    have "key_unique (2 ^ ohm_bits m) fst (ohm_slots m)" using assms by (simp add: ohm_inv_def)
    then have "q = p" using q 1(2,3) unfolding key_unique_def by (metis fst_conv)
    then show "v = w" using q 1(3) by simp
  qed
  then show ?thesis using 1 by (auto simp: entries_def)
qed auto

lemma ohm_find_eqI:
  assumes "ohm_inv m" "ohm_inv m'"
    and "\<And>k v. (k, v) \<in> entries (2 ^ ohm_bits m') (ohm_slots m') \<longleftrightarrow> f k = Some v"
  shows "ohm_find m' = f"
proof
  fix k
  show "ohm_find m' k = f k"
    using ohm_find_iff [OF assms(2), of k] assms(3) [of k] by (metis not_None_eq)
qed

lemma ohm_size_dom: 
  assumes "ohm_inv m"
  shows "finite (dom (ohm_find m)) \<and> card (dom (ohm_find m)) = ohm_size m"
proof -
  let ?n = "2 ^ ohm_bits m :: nat" and ?t = "ohm_slots m"
  have "dom (ohm_find m) = (\<lambda>p. fst (the (?t p))) ` occupied ?n ?t"
    using ohm_find_iff [OF assms] by (force simp: occupied_def entries_def dom_def)
  moreover have "inj_on (\<lambda>p. fst (the (?t p))) (occupied ?n ?t)"
    using assms unfolding ohm_inv_def inj_on_def occupied_def key_unique_def by fastforce
  moreover have "finite (occupied ?n ?t)" by (simp add: occupied_def)
  ultimately show ?thesis using assms by (simp add: card_image ohm_inv_def)
qed

lemma ohm_fill:
  assumes inv: "ohm_inv m" and vac: "ohm_probe m k = Vacant p" and room: "ohm_size m < kMaxSize (2 ^ ohm_bits m)"
    and m'_def: "m' = m\<lparr>ohm_slots := (ohm_slots m)(p := Some (k, v)), ohm_size := ohm_size m + 1\<rparr>"
  shows "ohm_inv m'" "ohm_find m' = (ohm_find m)(k \<mapsto> v)" 
proof -
  let ?n = "2 ^ ohm_bits m :: nat" and ?t = "ohm_slots m" and ?h = "index_of (ohm_bits m)"
  have p: "p < ?n" "?t p = None" "\<And>v. (k, v) \<notin> entries ?n ?t"
    "\<And>q. q < ?n \<Longrightarrow> cdist ?n (?h k) q < cdist ?n (?h k) p \<Longrightarrow> ?t q \<noteq> None"
    using vac by (rule_tac ohm_probe_cases [OF inv, of k]; simp)+
  have wp: "well_probed ?n (\<lambda>e. ?h (fst e)) (?t(p := Some (k, v)))"
    unfolding well_probed_def
  proof (intro allI impI)
    fix q e r
    assume *: "q < ?n" "(?t(p := Some (k, v))) q = Some e" "r < ?n" "cdist ?n (?h (fst e)) r < cdist ?n (?h (fst e)) q"
    show "(?t(p := Some (k, v))) r \<noteq> None"
    proof (cases "q = p")
      case True
      then show ?thesis using * p(4) by auto
    next
      case False
      then have "?t q = Some e" using * by simp
      then have "?t r \<noteq> None" using well_probedD [OF ohm_invD(1) [OF inv] *(1) _ *(3)] *(4) by blast
      then show ?thesis by simp
    qed
  qed
  have un: "key_unique ?n fst (?t(p := Some (k, v)))"
    using inv p(3) unfolding ohm_inv_def key_unique_def entries_def by (auto split: if_splits)
  have occ: "occupied ?n (?t(p := Some (k, v))) = insert p (occupied ?n ?t)" "p \<notin> occupied ?n ?t"
    using p(1,2) by (auto simp: occupied_def)
  have fin: "finite (occupied ?n ?t)" by (simp add: occupied_def)
  show inv': "ohm_inv m'"
    using wp un occ fin room inv by (simp add: ohm_inv_def m'_def)
  have "entries ?n (?t(p := Some (k, v))) = insert (k, v) (entries ?n ?t)"
    using p(1,2) by (rule entries_add)
  then have "(k', v') \<in> entries ?n (?t(p := Some (k, v))) \<longleftrightarrow> ((ohm_find m)(k \<mapsto> v)) k' = Some v'" for k' v'
    using ohm_find_iff [OF inv] p(3) by auto
  then show "ohm_find m' = (ohm_find m)(k \<mapsto> v)"
    by (intro ohm_find_eqI [OF inv inv']) (simp add: m'_def)
qed

lemma ohm_overwrite:
  assumes inv: "ohm_inv m" and f: "ohm_probe m k = Found p"
    and m'_def: "m' = m\<lparr>ohm_slots := (ohm_slots m)(p := Some (k, v))\<rparr>"
  shows "ohm_inv m'" "ohm_find m' = (ohm_find m)(k \<mapsto> v)"
proof -
  let ?n = "2 ^ ohm_bits m :: nat" and ?t = "ohm_slots m" and ?h = "index_of (ohm_bits m)"
  obtain w where p: "p < ?n" "?t p = Some (k, w)"
    using f by (rule_tac ohm_probe_cases [OF inv, of k]; simp)
  have occ: "(?t(p := Some (k, v))) q = None \<longleftrightarrow> ?t q = None" for q using p by simp
  have key: "(?t(p := Some (k, v))) q = Some e \<Longrightarrow> \<exists>e'. ?t q = Some e' \<and> fst e' = fst e" for q e
    using p by (cases e; cases "q = p") auto
  have "well_probed ?n (\<lambda>e. ?h (fst e)) (?t(p := Some (k, v)))"
    using inv key unfolding ohm_inv_def well_probed_def occ by metis
  moreover have "key_unique ?n fst (?t(p := Some (k, v)))"
    using inv key unfolding ohm_inv_def key_unique_def by metis
  moreover have "occupied ?n (?t(p := Some (k, v))) = occupied ?n ?t"
    using occ by (simp add: occupied_def)
  ultimately show inv': "ohm_inv m'" using inv by (simp add: ohm_inv_def m'_def)
  have "entries ?n (?t(p := Some (k, v))) = insert (k, v) (entries ?n ?t - {(k, w)})"
    using p ohm_invD(2) [OF inv] by (rule entries_replace)
  moreover have "(k, u) \<in> entries ?n ?t \<longleftrightarrow> u = w" for u
    using ohm_find_iff [OF inv, of k] p f by (simp add: ohm_find_def eq_commute)
  ultimately have "(k', v') \<in> entries ?n (?t(p := Some (k, v))) \<longleftrightarrow> ((ohm_find m)(k \<mapsto> v)) k' = Some v'" for k' v'
    using ohm_find_iff [OF inv] by auto
  then show "ohm_find m' = (ohm_find m)(k \<mapsto> v)"
    by (intro ohm_find_eqI [OF inv inv']) (simp add: m'_def)
qed

lemma ohm_shift_out:
  assumes inv: "ohm_inv m" and f: "ohm_probe m k = Found p"
  shows "ohm_inv (ohm_erase_slot m p)" "ohm_find (ohm_erase_slot m p) = (ohm_find m)(k := None)"
    "ohm_size m = Suc (ohm_size (ohm_erase_slot m p))"
proof -
  let ?n = "2 ^ ohm_bits m :: nat" and ?t = "ohm_slots m" and ?h = "\<lambda>e. index_of (ohm_bits m) (fst e)"
  obtain w where p: "p < ?n" "?t p = Some (k, w)"
    using f by (rule_tac ohm_probe_cases [OF inv, of k]; simp)
  obtain g where g: "g < ?n" "?t g = None" using ohm_gap [OF inv] by blast
  have "ohm.shift_inv (ohm_bits m) ?t p p"
    using inv p by (intro ohm.shift_inv_start) (simp_all add: ohm_inv_def)
  moreover have "cdist ?n p g \<le> ?n" using cdist_less [OF p(1) g(1)] by simp
  ultimately obtain t' hole' where t': "lp_shift ?n ?n ?h ?t p p = Some t'" "well_probed ?n ?h t'"
    "entries ?n t' = entries ?n (?t(p := None))"
    "key_unique ?n fst (?t(p := None)) \<longrightarrow> key_unique ?n fst t'"
    "occupied ?n ?t = insert hole' (occupied ?n t')" "hole' \<notin> occupied ?n t'"
    using ohm.shift_total [where ?'k = u64 and b = "ohm_bits m" and t = ?t and hole = p and j = p and g = g and f = ?n] g
    by (metis (no_types, lifting))
  have "key_unique ?n fst (?t(p := None))"
    using inv unfolding ohm_inv_def key_unique_def by (simp split: if_splits)
  then have un: "key_unique ?n fst t'" using t'(4) by simp
  have card: "card (occupied ?n ?t) = Suc (card (occupied ?n t'))"
    using t'(5,6) by (simp add: occupied_def)
  have er: "ohm_erase_slot m p = m\<lparr>ohm_slots := t', ohm_size := ohm_size m - 1\<rparr>"
    using t'(1) by (simp add: ohm_erase_slot_def)
  show inv': "ohm_inv (ohm_erase_slot m p)"
    using inv t'(2) un card unfolding er by (simp add: ohm_inv_def)
  show "ohm_size m = Suc (ohm_size (ohm_erase_slot m p))"
    using inv card unfolding er by (simp add: ohm_inv_def)
  have "entries ?n (?t(p := None)) = entries ?n ?t - {(k, w)}"
    using p ohm_invD(2) [OF inv] by (rule entries_remove)
  moreover have "(k, u) \<in> entries ?n ?t \<longleftrightarrow> u = w" for u
    using ohm_find_iff [OF inv, of k] p f by (simp add: ohm_find_def eq_commute)
  ultimately have "(k', v') \<in> entries ?n t' \<longleftrightarrow> ((ohm_find m)(k := None)) k' = Some v'" for k' v'
    using ohm_find_iff [OF inv] t'(3) by auto
  then show "ohm_find (ohm_erase_slot m p) = (ohm_find m)(k := None)"
    by (intro ohm_find_eqI [OF inv inv']) (simp add: er)
qed

section \<open>Laws of the operations\<close>

lemma ohm_insert_cases:
  assumes inv: "ohm_inv m"
  shows "ohm_insert m k v =
    (if ohm_find m k \<noteq> None then (m, fst (snd (ohm_insert m k v)), False)
     else if ohm_size m \<ge> kMaxSize (2 ^ ohm_bits m) then (m, None, False)
     else (fst (ohm_insert m k v), fst (snd (ohm_insert m k v)), True))"
  by (cases rule: ohm_probe_cases [OF inv, of k]) (simp_all add: ohm_insert_def)

lemma ohm_insert_new:
  assumes inv: "ohm_inv m" and new: "ohm_find m k = None" and room: "ohm_size m < kMaxSize (2 ^ ohm_bits m)"
  obtains m' i where "ohm_insert m k v = (m', Some i, True)" "ohm_inv m'" "ohm_find m' = (ohm_find m)(k \<mapsto> v)"
    "ohm_size m' = Suc (ohm_size m)" "ohm_bits m' = ohm_bits m"
proof (cases rule: ohm_probe_cases [OF inv, of k])
  case (2 p)
  then show thesis
    using that [OF _ ohm_fill [OF inv 2(1) room refl]] room by (simp add: ohm_insert_def)
qed (use new in simp)

lemma ohm_assign_law:
  assumes inv: "ohm_inv m"
  shows "(ohm_find m k = None \<and> ohm_size m \<ge> kMaxSize (2 ^ ohm_bits m) \<and> ohm_assign m k v = (m, None)) \<or>
    (\<exists>m' i. ohm_assign m k v = (m', Some i) \<and> ohm_inv m' \<and> ohm_find m' = (ohm_find m)(k \<mapsto> v) \<and>
       ohm_bits m' = ohm_bits m \<and>
       (ohm_find m k = None \<longrightarrow> ohm_size m < kMaxSize (2 ^ ohm_bits m)))"
proof (cases rule: ohm_probe_cases [OF inv, of k])
  case (1 p w)
  then show ?thesis
    using ohm_overwrite [OF inv 1(1) refl] by (simp add: ohm_assign_def ohm_insert_def)
next
  case (2 p)
  then show ?thesis
    using ohm_fill [OF inv 2(1) _ refl] by (auto simp: ohm_assign_def ohm_insert_def not_le)
qed

lemma ohm_erase_law:
  assumes inv: "ohm_inv m"
  shows "\<exists>m'. ohm_erase m k = (m', ohm_find m k \<noteq> None) \<and> ohm_inv m' \<and>
    ohm_find m' = (ohm_find m)(k := None) \<and> ohm_bits m' = ohm_bits m"
proof (cases rule: ohm_probe_cases [OF inv, of k])
  case (1 p w)
  then show ?thesis
    using ohm_shift_out [OF inv 1(1)] by (auto simp: ohm_erase_def ohm_erase_slot_def split: option.splits)
next
  case (2 p)
  then show ?thesis using inv by (simp add: ohm_erase_def fun_upd_idem)
qed

lemma ohm_new_inv: "3 \<le> b \<Longrightarrow> ohm_inv (ohm_new b :: 'v open_hash_map) \<and> ohm_find (ohm_new b :: 'v open_hash_map) = Map.empty"
proof -
  assume b: "3 \<le> b"
  have inv: "ohm_inv (ohm_new b :: 'v open_hash_map)"
    using b by (simp add: ohm_inv_def ohm_new_def well_probed_def key_unique_def occupied_def)
  have "ohm_find (ohm_new b :: 'v open_hash_map) k \<noteq> Some v" for k v
    unfolding ohm_find_iff [OF inv] by (simp add: entries_iff ohm_new_def)
  then have "ohm_find (ohm_new b :: 'v open_hash_map) k = None" for k by (metis not_None_eq)
  with inv show ?thesis by auto
qed

section \<open>The contract of a keyed table\<close>

text \<open>
  What a client of the counter-key map relies on, whose insert is only called with an absent key: the insert either takes
  effect or leaves the table as it was, an erase removes the key and says whether it was there.
\<close>

locale key_table =
  fixes inv :: "'m \<Rightarrow> bool" and lookup :: "'m \<Rightarrow> u64 \<Rightarrow> 'v option"
    and put :: "'m \<Rightarrow> u64 \<Rightarrow> 'v \<Rightarrow> 'm \<times> bool" and del :: "'m \<Rightarrow> u64 \<Rightarrow> 'm \<times> bool"
  assumes put_ok: "inv m \<Longrightarrow> lookup m k = None \<Longrightarrow> put m k v = (m', True) \<Longrightarrow>
      inv m' \<and> lookup m' = (lookup m)(k \<mapsto> v)"
    and put_refused: "inv m \<Longrightarrow> lookup m k = None \<Longrightarrow> put m k v = (m', False) \<Longrightarrow> m' = m"
    and del_ok: "inv m \<Longrightarrow> del m k = (m', b) \<Longrightarrow>
      inv m' \<and> lookup m' = (lookup m)(k := None) \<and> b = (lookup m k \<noteq> None)"

text \<open>A client that inserts absent keys only, and the partial function it computes.\<close>

datatype 'v table_op = Put u64 'v | Del u64

fun table_step ::
  "('m \<Rightarrow> u64 \<Rightarrow> 'v option) \<Rightarrow> ('m \<Rightarrow> u64 \<Rightarrow> 'v \<Rightarrow> 'm \<times> bool) \<Rightarrow> ('m \<Rightarrow> u64 \<Rightarrow> 'm \<times> bool) \<Rightarrow>
   'v table_op \<Rightarrow> 'm \<Rightarrow> 'm \<times> bool" where
  "table_step look put del (Put k v) m = (if look m k \<noteq> None then (m, False) else put m k v)"
| "table_step look put del (Del k) m = del m k"

fun table_effect :: "'v table_op \<Rightarrow> bool \<Rightarrow> (u64 \<rightharpoonup> 'v) \<Rightarrow> (u64 \<rightharpoonup> 'v)" where
  "table_effect (Put k v) done f = (if done then f(k \<mapsto> v) else f)"
| "table_effect (Del k) done f = f(k := None)"

fun table_run ::
  "('m \<Rightarrow> u64 \<Rightarrow> 'v option) \<Rightarrow> ('m \<Rightarrow> u64 \<Rightarrow> 'v \<Rightarrow> 'm \<times> bool) \<Rightarrow> ('m \<Rightarrow> u64 \<Rightarrow> 'm \<times> bool) \<Rightarrow>
   'v table_op list \<Rightarrow> 'm \<Rightarrow> 'm \<times> bool list" where
  "table_run look put del [] m = (m, [])"
| "table_run look put del (x # xs) m =
     (case table_step look put del x m of (m', b) \<Rightarrow>
        (case table_run look put del xs m' of (m'', bs) \<Rightarrow> (m'', b # bs)))"

context key_table
begin

lemma step_correct:
  assumes "inv m" "table_step lookup put del x m = (m', b)"
  shows "inv m' \<and> lookup m' = table_effect x b (lookup m)"
proof (cases x)
  case (Put k v)
  show ?thesis
  proof (cases "lookup m k")
    case None
    then have "put m k v = (m', b)" using assms(2) Put by simp
    then show ?thesis
      using put_ok [OF assms(1) None] put_refused [OF assms(1) None] assms(1) Put by (cases b) auto
  next
    case (Some w)
    then show ?thesis using assms Put by simp
  qed
next
  case (Del k)
  then show ?thesis using assms(2) del_ok [OF assms(1)] by simp
qed

lemma run_correct:
  "inv m \<Longrightarrow> table_run lookup put del xs m = (m', bs) \<Longrightarrow>
   inv m' \<and> length bs = length xs \<and>
   lookup m' = fold (\<lambda>(x, b). table_effect x b) (zip xs bs) (lookup m)"
proof (induction xs arbitrary: m m' bs)
  case (Cons x xs)
  obtain m1 b where s: "table_step lookup put del x m = (m1, b)" by fastforce
  obtain m2 cs where r: "table_run lookup put del xs m1 = (m2, cs)" by fastforce
  have "inv m1" "lookup m1 = table_effect x b (lookup m)" using step_correct [OF Cons.prems(1) s] by auto
  then show ?case using Cons.IH [OF _ r] Cons.prems(2) s r by auto
qed auto

end

definition ohm_put :: "'v open_hash_map \<Rightarrow> u64 \<Rightarrow> 'v \<Rightarrow> 'v open_hash_map \<times> bool" where
  "ohm_put m k v = (case ohm_insert m k v of (m', p, inserted) \<Rightarrow> (m', p \<noteq> None \<and> inserted))"

lemma ohm_put_law:
  assumes "ohm_inv m" "ohm_find m k = None" "ohm_put m k v = (m', b)"
  shows "ohm_inv m' \<and> (if b then ohm_find m' = (ohm_find m)(k \<mapsto> v) \<and> ohm_size m' = Suc (ohm_size m) else m' = m) \<and>
    ohm_bits m' = ohm_bits m \<and> b = (ohm_size m < kMaxSize (2 ^ ohm_bits m))"
proof (cases "ohm_size m < kMaxSize (2 ^ ohm_bits m)")
  case True
  obtain m1 i where "ohm_insert m k v = (m1, Some i, True)" "ohm_inv m1" "ohm_find m1 = (ohm_find m)(k \<mapsto> v)"
    "ohm_size m1 = Suc (ohm_size m)" "ohm_bits m1 = ohm_bits m" by (rule ohm_insert_new [OF assms(1,2) True])
  then show ?thesis using assms(3) True by (simp add: ohm_put_def)
next
  case False
  then have "ohm_insert m k v = (m, None, False)" using ohm_insert_cases [OF assms(1), of k v] assms(2) by simp
  then show ?thesis using assms(1,3) False by (simp add: ohm_put_def)
qed

text \<open>
  The contract of the maps whose operations may be called with any key. \<open>Insert\<close> never overwrites, \<open>Assign\<close> does;
  each reports whether it took effect. The reference is a partial function of at most \<open>n\<close> keys.
\<close>

datatype 'v map_op = Insert u64 'v | Assign u64 'v | Erase u64 | Clear

fun map_spec :: "nat \<Rightarrow> 'v map_op \<Rightarrow> (u64 \<rightharpoonup> 'v) \<Rightarrow> (u64 \<rightharpoonup> 'v) \<times> bool" where
  "map_spec n (Insert k v) f = (if k \<notin> dom f \<and> card (dom f) < n then (f(k \<mapsto> v), True) else (f, False))"
| "map_spec n (Assign k v) f = (if k \<in> dom f \<or> card (dom f) < n then (f(k \<mapsto> v), True) else (f, False))"
| "map_spec n (Erase k) f = (f(k := None), k \<in> dom f)"
| "map_spec n Clear f = (Map.empty, True)"

fun op_run :: "('o \<Rightarrow> 's \<Rightarrow> 's \<times> bool) \<Rightarrow> 'o list \<Rightarrow> 's \<Rightarrow> 's \<times> bool list" where
  "op_run f [] s = (s, [])"
| "op_run f (x # xs) s = (case f x s of (s', b) \<Rightarrow> case op_run f xs s' of (s'', bs) \<Rightarrow> (s'', b # bs))"

locale map_table =
  fixes inv :: "'m \<Rightarrow> bool" and lookup :: "'m \<Rightarrow> u64 \<Rightarrow> 'v option" and room :: "'m \<Rightarrow> nat"
    and exec :: "'v map_op \<Rightarrow> 'm \<Rightarrow> 'm \<times> bool"
  assumes exec_ok: "inv m \<Longrightarrow> exec x m = (m', b) \<Longrightarrow>
      inv m' \<and> room m' = room m \<and> map_spec (room m) x (lookup m) = (lookup m', b)"
begin

lemma runs_exact:
  "inv m \<Longrightarrow> op_run exec xs m = (m', bs) \<Longrightarrow>
   inv m' \<and> room m' = room m \<and> op_run (map_spec (room m)) xs (lookup m) = (lookup m', bs)"
proof (induction xs arbitrary: m m' bs)
  case (Cons x xs)
  obtain m1 b where s: "exec x m = (m1, b)" by fastforce
  obtain m2 cs where r: "op_run exec xs m1 = (m2, cs)" by fastforce
  note e = exec_ok [OF Cons.prems(1) s]
  have "m2 = m'" "bs = b # cs" using Cons.prems(2) s r by simp_all
  then show ?case using Cons.IH [OF _ r] e by simp
qed simp

end

fun ohm_exec :: "'v map_op \<Rightarrow> 'v open_hash_map \<Rightarrow> 'v open_hash_map \<times> bool" where
  "ohm_exec (Insert k v) m = (case ohm_insert m k v of (m', p, inserted) \<Rightarrow> (m', inserted))"
| "ohm_exec (Assign k v) m = (case ohm_assign m k v of (m', p) \<Rightarrow> (m', p \<noteq> None))"
| "ohm_exec (Erase k) m = ohm_erase m k"
| "ohm_exec Clear m = (ohm_clear m, True)"

abbreviation ohm_room :: "'v open_hash_map \<Rightarrow> nat" where
  "ohm_room m \<equiv> kMaxSize (2 ^ ohm_bits m)"

lemma ohm_find_empty: "ohm_slots m = (\<lambda>i. None) \<Longrightarrow> ohm_inv m \<Longrightarrow> ohm_find m = Map.empty"
  using ohm_find_iff [of m] by (auto simp: fun_eq_iff entries_iff) (metis not_None_eq)

lemma ohm_exec_ok:
  assumes inv: "ohm_inv m" and e: "ohm_exec x m = (m', b)"
  shows "ohm_inv m' \<and> ohm_room m' = ohm_room m \<and> map_spec (ohm_room m) x (ohm_find m) = (ohm_find m', b)"
proof -
  have c: "card (dom (ohm_find m)) = ohm_size m" using ohm_size_dom [OF inv] by blast
  show ?thesis
  proof (cases x)
    case (Insert k v)
    show ?thesis
    proof (cases "ohm_find m k = None \<and> ohm_size m < ohm_room m")
      case True
      then obtain m1 i where "ohm_insert m k v = (m1, Some i, True)" "ohm_inv m1" "ohm_find m1 = (ohm_find m)(k \<mapsto> v)"
        "ohm_bits m1 = ohm_bits m" using ohm_insert_new [OF inv] by blast
      then show ?thesis using e Insert True c by (auto simp: dom_def)
    next
      case False
      then have "fst (ohm_insert m k v) = m" "\<not> snd (snd (ohm_insert m k v))"
        using ohm_insert_cases [OF inv, of k v] by (metis fst_conv snd_conv not_le)+
      then show ?thesis using e Insert False c inv by (auto split: prod.splits)
    qed
  next
    case (Assign k v)
    then show ?thesis using ohm_assign_law [OF inv, of k v] e c inv by (auto split: prod.splits)
  next
    case (Erase k)
    then show ?thesis using ohm_erase_law [OF inv, of k] e by auto
  next
    case Clear
    have "ohm_inv (ohm_clear m)"
      using inv by (simp add: ohm_inv_def ohm_clear_def well_probed_def key_unique_def occupied_def)
    then show ?thesis using Clear e ohm_find_empty [of "ohm_clear m"] by (auto simp: ohm_clear_def)
  qed
qed

interpretation ohm_table: map_table ohm_inv ohm_find ohm_room ohm_exec
  by unfold_locales (rule ohm_exec_ok)

section \<open>Properties\<close>

lemma ohm_probe_not_stuck: "ohm_inv m \<Longrightarrow> ohm_probe m k \<noteq> Stuck"
  by (rule ohm_probe_cases [of m k]) auto

text \<open>C34: whatever a client does to a new map of at least eight slots, with keys that are there or not, the map is the
  partial function that an insert which keeps what it finds, an overwriting assignment, an erase and a clear compute over
  at most \<open>N - N / 8\<close> keys. Every call reports what the reference reports, the size is the number of keys, and every
  probe loop ends.\<close>

theorem ohm_refines_map:
  assumes "3 \<le> b" and "op_run ohm_exec xs (ohm_new b) = (m, bs)"
  shows "op_run (map_spec (kMaxSize (2 ^ b))) xs Map.empty = (ohm_find m, bs) \<and>
    ohm_size m = card (dom (ohm_find m)) \<and> (\<forall>k. ohm_probe m k \<noteq> Stuck)"
proof -
  have new: "ohm_inv (ohm_new b :: 'a open_hash_map)" "ohm_find (ohm_new b :: 'a open_hash_map) = Map.empty"
    using ohm_new_inv [OF assms(1)] by blast+
  have "ohm_bits (ohm_new b :: 'a open_hash_map) = b" by (simp add: ohm_new_def)
  with ohm_table.runs_exact [OF new(1) assms(2)]
  have "ohm_inv m" "op_run (map_spec (kMaxSize (2 ^ b))) xs Map.empty = (ohm_find m, bs)" unfolding new(2) by simp_all
  then show ?thesis using ohm_size_dom [of m] ohm_probe_not_stuck [of m] by simp
qed

theorem ohm_refines_map_witness:
  "ohm_find (fst (op_run ohm_exec [Insert 1 True, Insert 9 False, Insert 9 True, Assign 1 False, Erase 1] (ohm_new 3))) =
     [9 \<mapsto> False]"
proof -
  let ?xs = "[Insert 1 True, Insert 9 False, Insert 9 True, Assign 1 False, Erase 1]"
  let ?r = "op_run ohm_exec ?xs (ohm_new 3)"
  have "op_run (map_spec (kMaxSize (2 ^ 3))) ?xs Map.empty = (ohm_find (fst ?r), snd ?r)"
    using ohm_refines_map [of 3 ?xs "fst ?r" "snd ?r"] by simp
  then show ?thesis by (simp add: kMaxSize_def fun_eq_iff)
qed

text \<open>An erase removes its key and no other: the backward shift leaves every other key
  findable with its value, and the size drops by one exactly when the key was there.\<close>

theorem ohm_erase_exact:
  assumes "ohm_inv m" and "ohm_erase m k = (m', erased)"
  shows "ohm_inv m' \<and> ohm_find m' k = None \<and> (\<forall>k'. k' \<noteq> k \<longrightarrow> ohm_find m' k' = ohm_find m k') \<and>
    erased = (ohm_find m k \<noteq> None) \<and> ohm_size m = ohm_size m' + (if erased then 1 else 0)"
proof -
  have r: "ohm_inv m'" "ohm_find m' = (ohm_find m)(k := None)" "erased = (ohm_find m k \<noteq> None)"
    using ohm_erase_law [OF assms(1), of k] assms(2) by auto
  have "card (dom (ohm_find m)) = card (dom (ohm_find m')) + (if erased then 1 else 0)"
  proof (cases erased)
    case True
    then have "k \<in> dom (ohm_find m)" using r(3) by auto
    then have "Suc (card (dom (ohm_find m) - {k})) = card (dom (ohm_find m))"
      using ohm_size_dom [OF assms(1)] by (intro card_Suc_Diff1) auto
    then show ?thesis using True r(2) by simp
  next
    case False
    then show ?thesis using r(2,3) by (simp add: fun_upd_idem)
  qed
  then show ?thesis using r ohm_size_dom [OF assms(1)] ohm_size_dom [OF r(1)] by auto
qed

theorem ohm_erase_exact_witness:
  "ohm_find (fst (ohm_erase (fst (ohm_put (ohm_new 3) 7 True)) 7)) 7 = None"
proof -
  have "ohm_inv (fst (ohm_put (ohm_new 3) 7 True))"
    using ohm_put_law [of "ohm_new 3" 7 True, OF _ _ surjective_pairing] ohm_new_inv [of 3, where ?'v = bool]
    by simp
  from ohm_erase_exact [OF this surjective_pairing] show ?thesis by blast
qed

text \<open>C38: both loops of the table end within as many steps as it has slots, on every map of at least eight slots that
  inserts, assignments, erases and clears can build: a probe reaches its key or a free slot, and the backward shift of an erase reaches a
  free slot.\<close>

theorem ohm_loops_end:
  assumes "3 \<le> b" and "op_run ohm_exec xs (ohm_new b) = (m, bs)"
  shows "ohm_probe m k \<noteq> Stuck \<and>
    (\<forall>i. ohm_probe m k = Found i \<longrightarrow>
       lp_shift (2 ^ ohm_bits m) (2 ^ ohm_bits m) (\<lambda>e. index_of (ohm_bits m) (fst e)) (ohm_slots m) i i \<noteq> None)"
proof -
  have "ohm_inv (ohm_new b :: 'a open_hash_map)" using ohm_new_inv [OF assms(1)] by blast
  then have inv: "ohm_inv m" using ohm_table.runs_exact [OF _ assms(2)] by blast
  have "lp_shift (2 ^ ohm_bits m) (2 ^ ohm_bits m) (\<lambda>e. index_of (ohm_bits m) (fst e)) (ohm_slots m) i i \<noteq> None"
    if "ohm_probe m k = Found i" for i
  proof
    assume "lp_shift (2 ^ ohm_bits m) (2 ^ ohm_bits m) (\<lambda>e. index_of (ohm_bits m) (fst e)) (ohm_slots m) i i = None"
    then have "ohm_erase_slot m i = m" by (simp add: ohm_erase_slot_def)
    with ohm_shift_out(3) [OF inv that] show False by simp
  qed
  then show ?thesis using ohm_probe_not_stuck [OF inv] by blast
qed

theorem ohm_loops_end_witness:
  "ohm_probe (fst (op_run ohm_exec [Insert 1 True, Insert 9 False, Erase 1] (ohm_new 3))) 9 \<noteq> Stuck"
proof -
  let ?r = "op_run ohm_exec [Insert 1 True, Insert 9 False, Erase 1] (ohm_new 3)"
  show ?thesis using ohm_loops_end [of 3 "[Insert 1 True, Insert 9 False, Erase 1]" "fst ?r" "snd ?r" 9] by simp
qed

text \<open>The static assertion admits a capacity of four, for which the load cap
  \<^verbatim>\<open>N - N / 8\<close> is the capacity itself. Such a map accepts four keys and then looking up a fifth
  never ends.\<close>

theorem ohm_capacity_four_hangs:
  "let m = fst (op_run ohm_exec
                  [Insert 1 True, Insert 2 True, Insert 3 True, Insert 4 True] (ohm_new 2))
   in kMaxSize 4 = 4 \<and> ohm_size m = 4 \<and>
      lp_probe fuel 4 (ohm_slots m) (\<lambda>e. fst e = 5) (index_of 2 5) = Stuck"
proof -
  define m where "m = fst (op_run ohm_exec
    [Insert 1 True, Insert 2 True, Insert 3 True, Insert 4 True] (ohm_new 2))"
  have "\<exists>e. ohm_slots m p = Some e \<and> fst e \<noteq> 5" if "p < 4" for p
  proof -
    have "list_all (\<lambda>p. \<not> Option.is_none (ohm_slots m p) \<and> fst (the (ohm_slots m p)) \<noteq> 5) [0, 1, 2, 3]"
      unfolding m_def by code_simp
    moreover have "p \<in> {0, 1, 2, 3}" using that by auto
    ultimately show ?thesis by (auto simp: Option.is_none_def)
  qed
  moreover have "index_of 2 5 < 2 ^ 2" by (rule index_of_less)
  ultimately have "lp_probe fuel (2 ^ 2) (ohm_slots m) (\<lambda>e. fst e = 5) (index_of 2 5) = Stuck"
    by (intro ohm.probe_full_stuck) auto
  moreover have "ohm_size m = 4" unfolding m_def by code_simp
  ultimately show ?thesis unfolding Let_def m_def [symmetric] by (simp add: kMaxSize_def)
qed

end
