(* ===== verification/FlatMap.thy ===== *)
theory FlatMap
  imports OpenHashMap
begin

text \<open>
  \<^verbatim>\<open>include/fastmm/core/containers/flat_map.hpp\<close>: \<^verbatim>\<open>FlatMap<K, V, N>\<close>, a sorted array of
  at most \<open>N\<close> entries searched by bisection; and \<^verbatim>\<open>StaticVector\<close>
  (\<^verbatim>\<open>include/fastmm/core/containers/static_vector.hpp\<close>), the bounded array that the books are
  made of, as a list with a bound on its length. The bisection loop is generic in the test it
  makes, because \<^verbatim>\<open>L2Book\<close> runs the same loop.
\<close>

section \<open>Bisection\<close>

function lower_bound :: "(nat \<Rightarrow> bool) \<Rightarrow> nat \<Rightarrow> nat \<Rightarrow> nat" where
  "lower_bound prec lo hi =
     (if lo < hi
      then (let mid = lo + (hi - lo) div 2
            in if prec mid then lower_bound prec (mid + 1) hi else lower_bound prec lo mid)
      else lo)"
  by pat_completeness auto
termination
  by (relation "measure (\<lambda>(_, lo, hi). hi - lo)") auto

declare lower_bound.simps [simp del]

section \<open>StaticVector\<close>

definition sv_push_back :: "nat \<Rightarrow> 'a list \<Rightarrow> 'a \<Rightarrow> 'a list \<times> bool" where
  "sv_push_back n xs v = (if length xs = n then (xs, False) else (xs @ [v], True))"

definition sv_insert_at :: "nat \<Rightarrow> 'a list \<Rightarrow> nat \<Rightarrow> 'a \<Rightarrow> 'a list \<times> bool" where
  "sv_insert_at n xs i v =
     (if length xs = n \<or> i > length xs then (xs, False) else (take i xs @ v # drop i xs, True))"

definition sv_erase_at :: "'a list \<Rightarrow> nat \<Rightarrow> 'a list" where
  "sv_erase_at xs i = (if i \<ge> length xs then xs else take i xs @ drop (Suc i) xs)"

definition sv_erase_front :: "'a list \<Rightarrow> nat \<Rightarrow> 'a list" where
  "sv_erase_front xs k = drop (if k > length xs then length xs else k) xs"

definition sv_assign :: "nat \<Rightarrow> 'a list \<Rightarrow> 'a list \<times> bool" where
  "sv_assign n src = (take n src, length src \<le> n)"

section \<open>FlatMap\<close>

record 'v flat_map =
  fm_N :: nat
  fm_entries :: "(u64 \<times> 'v) list"

definition fm_lower_bound :: "'v flat_map \<Rightarrow> u64 \<Rightarrow> nat" where
  "fm_lower_bound m k = lower_bound (\<lambda>i. fst (fm_entries m ! i) < k) 0 (length (fm_entries m))"

definition fm_hit :: "'v flat_map \<Rightarrow> u64 \<Rightarrow> nat \<Rightarrow> bool" where
  "fm_hit m k i \<longleftrightarrow> i < length (fm_entries m) \<and> fst (fm_entries m ! i) = k"

definition fm_insert :: "'v flat_map \<Rightarrow> u64 \<Rightarrow> 'v \<Rightarrow> 'v flat_map \<times> nat option \<times> bool" where
  "fm_insert m k v =
     (let i = fm_lower_bound m k in
      if fm_hit m k i then (m, Some i, False)
      else if length (fm_entries m) = fm_N m then (m, None, False)
      else (m\<lparr>fm_entries := take i (fm_entries m) @ (k, v) # drop i (fm_entries m)\<rparr>, Some i, True))"

definition fm_assign :: "'v flat_map \<Rightarrow> u64 \<Rightarrow> 'v \<Rightarrow> 'v flat_map \<times> nat option" where
  "fm_assign m k v =
     (case fm_insert m k v of
        (m', Some i, False) \<Rightarrow> (m'\<lparr>fm_entries := (fm_entries m')[i := (k, v)]\<rparr>, Some i)
      | (m', p, _) \<Rightarrow> (m', p))"

definition fm_find :: "'v flat_map \<Rightarrow> u64 \<Rightarrow> 'v option" where
  "fm_find m k =
     (let i = fm_lower_bound m k in if fm_hit m k i then Some (snd (fm_entries m ! i)) else None)"

definition fm_erase :: "'v flat_map \<Rightarrow> u64 \<Rightarrow> 'v flat_map \<times> bool" where
  "fm_erase m k =
     (let i = fm_lower_bound m k in
      if \<not> fm_hit m k i then (m, False)
      else (m\<lparr>fm_entries := sv_erase_at (fm_entries m) i\<rparr>, True))"

definition fm_put :: "'v flat_map \<Rightarrow> u64 \<Rightarrow> 'v \<Rightarrow> 'v flat_map \<times> bool" where
  "fm_put m k v = (case fm_insert m k v of (m', p, inserted) \<Rightarrow> (m', p \<noteq> None \<and> inserted))"

definition fm_inv :: "'v flat_map \<Rightarrow> bool" where
  "fm_inv m \<longleftrightarrow> sorted_wrt (<) (map fst (fm_entries m)) \<and> length (fm_entries m) \<le> fm_N m"

section \<open>Facts\<close>

lemma lower_bound_split:
  assumes "\<And>i j. i \<le> j \<Longrightarrow> j < hi \<Longrightarrow> prec j \<Longrightarrow> prec i" and "lo \<le> hi" and "\<And>i. i < lo \<Longrightarrow> prec i"
  shows "lower_bound prec lo hi \<le> hi \<and> (\<forall>i<lower_bound prec lo hi. prec i) \<and>
    (\<forall>i<hi. lower_bound prec lo hi \<le> i \<longrightarrow> \<not> prec i)"
  using assms
proof (induction prec lo hi rule: lower_bound.induct)
  case (1 prec lo hi)
  let ?mid = "lo + (hi - lo) div 2"
  show ?case
  proof (cases "lo < hi")
    case False
    then have "lower_bound prec lo hi = lo" by (subst lower_bound.simps) simp
    then show ?thesis using False 1(4,5) by simp
  next
    case True
    then have mid: "lo \<le> ?mid" "?mid < hi" by auto
    show ?thesis
    proof (cases "prec ?mid")
      case t: True
      have "lower_bound prec (?mid + 1) hi \<le> hi \<and> (\<forall>i<lower_bound prec (?mid + 1) hi. prec i) \<and>
          (\<forall>i<hi. lower_bound prec (?mid + 1) hi \<le> i \<longrightarrow> \<not> prec i)"
      proof (rule 1(1) [OF True refl t])
        show "prec i" if "i \<le> j" "j < hi" "prec j" for i j using 1(3) that .
        show "?mid + 1 \<le> hi" using mid by simp
        show "prec i" if "i < ?mid + 1" for i using 1(3) [of i ?mid] that mid(2) t by simp
      qed
      moreover have "lower_bound prec lo hi = lower_bound prec (?mid + 1) hi"
        using True t by (subst lower_bound.simps) (simp add: Let_def)
      ultimately show ?thesis by simp
    next
      case f: False
      have *: "lower_bound prec lo ?mid \<le> ?mid \<and> (\<forall>i<lower_bound prec lo ?mid. prec i) \<and>
          (\<forall>i<?mid. lower_bound prec lo ?mid \<le> i \<longrightarrow> \<not> prec i)"
      proof (rule 1(2) [OF True refl f])
        show "prec i" if "i \<le> j" "j < ?mid" "prec j" for i j using 1(3) [of i j] that mid(2) by simp
      qed (use mid 1(5) in simp_all)
      have "lower_bound prec lo hi = lower_bound prec lo ?mid"
        using True f by (subst lower_bound.simps) (simp add: Let_def)
      moreover have "\<not> prec i" if "i < hi" "lower_bound prec lo ?mid \<le> i" for i
        using * that 1(3) [of ?mid i] f by (cases "i < ?mid") auto
      ultimately show ?thesis using * mid(2) by auto
    qed
  qed
qed

lemma lower_bound_takeWhile:
  assumes "\<And>i j. i \<le> j \<Longrightarrow> j < length xs \<Longrightarrow> P (xs ! j) \<Longrightarrow> P (xs ! i)"
  shows "lower_bound (\<lambda>i. P (xs ! i)) 0 (length xs) = length (takeWhile P xs)"
proof -
  let ?k = "lower_bound (\<lambda>i. P (xs ! i)) 0 (length xs)"
  have k: "?k \<le> length xs \<and> (\<forall>i<?k. P (xs ! i)) \<and> (\<forall>i<length xs. ?k \<le> i \<longrightarrow> \<not> P (xs ! i))"
    by (rule lower_bound_split) (use assms in \<open>blast, simp_all\<close>)
  have "takeWhile P xs = take ?k xs"
  proof (rule takeWhile_eq_take_P_nth)
    show "P (xs ! i)" if "i < ?k" for i using k that by blast
    show "\<not> P (xs ! ?k)" if "?k < length xs" using k that by blast
  qed
  then show ?thesis using k by simp
qed

lemma fm_split:
  assumes "fm_inv m"
  obtains a b where "fm_entries m = a @ b" "fm_lower_bound m k = length a"
    "\<forall>e\<in>set a. fst e < k" "\<forall>e\<in>set b. k \<le> fst e" "sorted_wrt (<) (map fst a @ map fst b)"
proof -
  let ?es = "fm_entries m" and ?P = "\<lambda>e. fst e < k"
  have s: "sorted_wrt (<) (map fst ?es)" using assms by (simp add: fm_inv_def)
  have mono: "fst (?es ! i) \<le> fst (?es ! j)" if "i \<le> j" "j < length ?es" for i j
    using s that sorted_wrt_nth_less [of "(<)" "map fst ?es" i j] by (cases "i = j") auto
  have "fm_lower_bound m k = length (takeWhile ?P ?es)"
    unfolding fm_lower_bound_def using mono by (intro lower_bound_takeWhile) (meson le_less_trans)
  moreover have "\<forall>e\<in>set (dropWhile ?P ?es). k \<le> fst e"
  proof (cases "dropWhile ?P ?es")
    case (Cons e r)
    have "sorted_wrt (<) (map fst (dropWhile ?P ?es))"
      using s by (metis dropWhile_eq_drop drop_map sorted_wrt_drop)
    moreover have "k \<le> fst e" using Cons hd_dropWhile [of ?P ?es] by (simp add: not_less)
    ultimately show ?thesis using Cons by (auto intro: order_trans less_imp_le)
  next
    case Nil
    show ?thesis unfolding Nil by simp
  qed
  ultimately show thesis
    using that [of "takeWhile ?P ?es" "dropWhile ?P ?es"] s
    by (simp flip: map_append) (blast dest: set_takeWhileD)
qed

lemma fm_find_cases:
  assumes "fm_inv m"
  obtains (hit) a v b where "fm_entries m = a @ (k, v) # b" "fm_lower_bound m k = length a" "fm_hit m k (length a)"
    "fm_find m k = Some v" "\<forall>e\<in>set a. fst e < k" "\<forall>e\<in>set b. k < fst e"
  | (miss) a b where "fm_entries m = a @ b" "fm_lower_bound m k = length a" "\<not> fm_hit m k (length a)"
    "fm_find m k = None" "\<forall>e\<in>set a. fst e < k" "\<forall>e\<in>set b. k < fst e"
proof (rule fm_split [OF assms, of k])
  fix a b
  assume ab: "fm_entries m = a @ b" "fm_lower_bound m k = length a"
    "\<forall>e\<in>set a. fst e < k" "\<forall>e\<in>set b. k \<le> fst e" "sorted_wrt (<) (map fst a @ map fst b)"
  have hitb: "fm_hit m k (length a) \<longleftrightarrow> (\<exists>v r. b = (k, v) # r)"
    using ab(1) by (cases b) (auto simp: fm_hit_def)
  show thesis
  proof (cases "fm_hit m k (length a)")
    case True
    then obtain v r where b: "b = (k, v) # r" using hitb by blast
    have "\<forall>e\<in>set r. k < fst e" using ab(5) b by (auto simp: sorted_wrt_append)
    then show thesis using hit [of a v r] ab b True by (simp add: fm_find_def Let_def nth_append)
  next
    case False
    have "\<forall>e\<in>set b. k < fst e"
    proof (cases b)
      case (Cons e r)
      then have "fst e \<noteq> k" using False hitb by (cases e) auto
      then show ?thesis using Cons ab(4,5) by (fastforce simp: sorted_wrt_append)
    qed simp
    then show thesis using miss [of a b] ab False by (simp add: fm_find_def Let_def)
  qed
qed

lemma map_of_None_set: "(\<forall>e\<in>set xs. fst e \<noteq> k) \<Longrightarrow> map_of xs k = None"
  by (simp add: map_of_eq_None_iff) blast

lemma fm_find_map_of: "fm_inv m \<Longrightarrow> fm_find m = map_of (fm_entries m)"
proof
  fix k assume "fm_inv m"
  then show "fm_find m k = map_of (fm_entries m) k"
  proof (cases rule: fm_find_cases [of m k])
    case (hit a v b)
    have "map_of a k = None" using hit(5) by (intro map_of_None_set) auto
    then show ?thesis using hit by (simp add: map_add_def)
  next
    case (miss a b)
    have "map_of (a @ b) k = None" using miss(5,6) by (intro map_of_None_set) auto
    then show ?thesis by (simp only: miss)
  qed
qed

lemma fm_put_law:
  assumes inv: "fm_inv m" and new: "fm_find m k = None" and put: "fm_put m k v = (m', b)"
  shows "fm_inv m' \<and> (if b then fm_find m' = (fm_find m)(k \<mapsto> v) else m' = m) \<and> b = (length (fm_entries m) < fm_N m)"
proof (cases rule: fm_find_cases [OF inv, of k])
  case (2 x y)
  note miss = 2
  show ?thesis
  proof (cases "length (fm_entries m) < fm_N m")
    case False
    then have "length (fm_entries m) = fm_N m" using inv by (simp add: fm_inv_def)
    then show ?thesis using miss put inv by (simp add: fm_put_def fm_insert_def Let_def)
  next
    case True
    have eq: "m' = m\<lparr>fm_entries := x @ (k, v) # y\<rparr>" "b"
      using True miss put by (simp_all add: fm_put_def fm_insert_def Let_def)
    have inv': "fm_inv m'"
      using inv miss True unfolding eq by (auto simp: fm_inv_def sorted_wrt_append)
    have "map_of (x @ y) k = None" using miss(5,6) by (intro map_of_None_set) auto
    then have "map_of (x @ (k, v) # y) = (map_of (x @ y))(k \<mapsto> v)"
      by (auto simp: fun_eq_iff map_add_def split: option.splits)
    then show ?thesis
      using fm_find_map_of [OF inv'] fm_find_map_of [OF inv] inv' eq True miss(1) by simp
  qed
qed (use new in simp)

lemma fm_erase_law:
  assumes inv: "fm_inv m" and er: "fm_erase m k = (m', b)"
  shows "fm_inv m' \<and> fm_find m' = (fm_find m)(k := None) \<and> b = (fm_find m k \<noteq> None)"
proof (cases rule: fm_find_cases [OF inv, of k])
  case (1 x v y)
  have eq: "m' = m\<lparr>fm_entries := x @ y\<rparr>" "b"
    using 1 er by (simp_all add: fm_erase_def Let_def sv_erase_at_def)
  have inv': "fm_inv m'" using inv 1 unfolding eq by (auto simp: fm_inv_def sorted_wrt_append)
  have "map_of (x @ y) k = None" using 1(5,6) by (intro map_of_None_set) auto
  then have "map_of (x @ y) = (map_of (x @ (k, v) # y))(k := None)"
    by (auto simp: fun_eq_iff map_add_def split: option.splits)
  then show ?thesis
    using fm_find_map_of [OF inv'] fm_find_map_of [OF inv] inv' eq 1(1,4) by simp
next
  case (2 x y)
  then show ?thesis using er inv by (simp add: fm_erase_def Let_def fun_upd_idem)
qed

lemma fm_insert_present: "fm_inv m \<Longrightarrow> fm_find m k \<noteq> None \<Longrightarrow> \<exists>i. fm_insert m k v = (m, Some i, False)"
  by (cases rule: fm_find_cases [of m k]) (auto simp: fm_insert_def Let_def)

lemma fm_assign_present:
  assumes inv: "fm_inv m" and hit: "fm_find m k \<noteq> None"
  obtains m' i where "fm_assign m k v = (m', Some i)" "fm_inv m'" "fm_find m' = (fm_find m)(k \<mapsto> v)" "fm_N m' = fm_N m"
proof (cases rule: fm_find_cases [OF inv, of k])
  case (1 x w y)
  let ?m = "m\<lparr>fm_entries := x @ (k, v) # y\<rparr>"
  have a: "fm_assign m k v = (?m, Some (length x))" using 1 by (simp add: fm_assign_def fm_insert_def Let_def)
  have inv': "fm_inv ?m" using inv 1 by (auto simp: fm_inv_def sorted_wrt_append)
  have "map_of x k = None" using 1(5) by (intro map_of_None_set) auto
  then have "map_of (x @ (k, v) # y) = (map_of (x @ (k, w) # y))(k \<mapsto> v)"
    by (auto simp: fun_eq_iff map_add_def split: option.splits)
  then show thesis
    using that [OF a inv'] fm_find_map_of [OF inv'] fm_find_map_of [OF inv] 1(1) by simp
qed (use hit in simp)

lemma fm_card_dom: "fm_inv m \<Longrightarrow> card (dom (fm_find m)) = length (fm_entries m)"
proof -
  assume inv: "fm_inv m"
  then have "distinct (map fst (fm_entries m))"
    using strict_sorted_iff [of "map fst (fm_entries m)"] by (simp add: fm_inv_def strict_sorted_iff)
  then have "card (set (map fst (fm_entries m))) = length (fm_entries m)" by (simp only: distinct_card length_map)
  then show ?thesis by (simp add: fm_find_map_of [OF inv] dom_map_of_conv_image_fst)
qed

section \<open>The contract of a map\<close>

fun fm_exec :: "'v map_op \<Rightarrow> 'v flat_map \<Rightarrow> 'v flat_map \<times> bool" where
  "fm_exec (Insert k v) m = (case fm_insert m k v of (m', p, inserted) \<Rightarrow> (m', inserted))"
| "fm_exec (Assign k v) m = (case fm_assign m k v of (m', p) \<Rightarrow> (m', p \<noteq> None))"
| "fm_exec (Erase k) m = fm_erase m k"
| "fm_exec Clear m = (m\<lparr>fm_entries := []\<rparr>, True)"

lemma fm_insert_absent:
  assumes "fm_inv m" "fm_find m k = None"
  shows "fm_insert m k v = (fst (fm_put m k v), if snd (fm_put m k v) then Some (fm_lower_bound m k) else None, snd (fm_put m k v))"
    "fm_assign m k v = (fst (fm_put m k v), if snd (fm_put m k v) then Some (fm_lower_bound m k) else None)"
    "fm_N (fst (fm_put m k v)) = fm_N m"
  using assms(2) by (auto simp: fm_find_def fm_insert_def fm_put_def fm_assign_def Let_def split: if_splits)

lemma fm_exec_ok:
  assumes inv: "fm_inv m" and e: "fm_exec x m = (m', b)"
  shows "fm_inv m' \<and> fm_N m' = fm_N m \<and> map_spec (fm_N m) x (fm_find m) = (fm_find m', b)"
proof -
  note c = fm_card_dom [OF inv]
  have put: "fm_inv (fst (fm_put m k v)) \<and> snd (fm_put m k v) = (length (fm_entries m) < fm_N m) \<and>
      fm_find (fst (fm_put m k v)) = (if snd (fm_put m k v) then (fm_find m)(k \<mapsto> v) else fm_find m)"
    if "fm_find m k = None" for k v
    using fm_put_law [OF inv that surjective_pairing [of "fm_put m k v"]] by (metis (full_types))
  show ?thesis
  proof (cases x)
    case (Insert k v)
    show ?thesis
    proof (cases "fm_find m k = None")
      case True
      then show ?thesis using e Insert c put [OF True, of v] fm_insert_absent [OF inv True, of v] by (auto simp: dom_def)
    next
      case False
      then show ?thesis using e Insert inv fm_insert_present [OF inv False, of v] by auto
    qed
  next
    case (Assign k v)
    show ?thesis
    proof (cases "fm_find m k = None")
      case True
      then show ?thesis using e Assign c put [OF True, of v] fm_insert_absent [OF inv True, of v] by (auto simp: dom_def split: if_splits)
    next
      case False
      obtain m1 i where "fm_assign m k v = (m1, Some i)" "fm_inv m1" "fm_find m1 = (fm_find m)(k \<mapsto> v)" "fm_N m1 = fm_N m"
        by (rule fm_assign_present [OF inv False])
      then show ?thesis using e Assign False by auto
    qed
  next
    case (Erase k)
    then have "fm_erase m k = (m', b)" using e by simp
    moreover have "fm_N m' = fm_N m" using calculation by (auto simp: fm_erase_def Let_def split: if_splits)
    ultimately show ?thesis using Erase fm_erase_law [OF inv] by auto
  next
    case Clear
    then have m: "m' = m\<lparr>fm_entries := []\<rparr>" "b" using e by auto
    have "fm_inv m'" unfolding m by (simp add: fm_inv_def)
    then show ?thesis using Clear m fm_find_map_of [of m'] by simp
  qed
qed

interpretation flat_map: map_table fm_inv fm_find fm_N fm_exec
  by unfold_locales (rule fm_exec_ok)

section \<open>Properties\<close>

text \<open>A flat map of \<open>N\<close> entries is the partial function its operations compute, whatever keys they are called with, and
  its entries stay sorted by key with no key twice.\<close>

theorem flat_map_refines:
  assumes "op_run fm_exec xs \<lparr>fm_N = n, fm_entries = []\<rparr> = (m, bs)"
  shows "op_run (map_spec n) xs Map.empty = (fm_find m, bs) \<and> sorted_wrt (<) (map fst (fm_entries m))"
proof -
  have inv0: "fm_inv \<lparr>fm_N = n, fm_entries = []\<rparr>" by (simp add: fm_inv_def)
  have f0: "fm_find \<lparr>fm_N = n, fm_entries = []\<rparr> = Map.empty" using fm_find_map_of [OF inv0] by simp
  show ?thesis using flat_map.runs_exact [OF inv0 assms] unfolding f0 by (simp add: fm_inv_def)
qed

theorem flat_map_refines_witness:
  "fm_find (fst (op_run fm_exec [Insert 5 True, Insert 2 False, Insert 9 True] \<lparr>fm_N = 2, fm_entries = []\<rparr>)) =
     [5 \<mapsto> True, 2 \<mapsto> False]"
proof -
  define r where "r = op_run fm_exec [Insert 5 True, Insert 2 False, Insert 9 True] \<lparr>fm_N = 2, fm_entries = []\<rparr>"
  have "op_run (map_spec 2) [Insert 5 True, Insert 2 False, Insert 9 True] Map.empty = (fm_find (fst r), snd r)"
    using flat_map_refines [of "[Insert 5 True, Insert 2 False, Insert 9 True]" 2 "fst r" "snd r"]
    unfolding r_def prod.collapse by blast
  then show ?thesis unfolding r_def [symmetric] by (auto split: if_splits)
qed

end
