(* ===== verification/CounterKeyMap.thy ===== *)
theory CounterKeyMap
  imports OpenHashMap RingBuffer
begin

text \<open>
  \<^verbatim>\<open>include/fastmm/core/containers/counter_key_map.hpp\<close>: \<^verbatim>\<open>CounterKeyMap<V, N, OverflowN>\<close>,
  a direct-mapped table for non-zero keys with an \<^verbatim>\<open>OpenHashMap\<close> for the keys whose slot an
  older key still holds. A key of 0 marks an empty slot. The map meets the same contract as the
  tables it is built from.
\<close>

record 'v counter_key_map =
  ckm_bits :: nat
  ckm_key :: "nat \<Rightarrow> u64"
  ckm_value :: "nat \<Rightarrow> 'v"
  ckm_overflow :: "'v open_hash_map"
  ckm_size :: nat

definition ckm_new :: "nat \<Rightarrow> nat \<Rightarrow> 'v \<Rightarrow> 'v counter_key_map" where
  "ckm_new b ob zero =
     \<lparr>ckm_bits = b, ckm_key = (\<lambda>i. 0), ckm_value = (\<lambda>i. zero), ckm_overflow = ohm_new ob, ckm_size = 0\<rparr>"

definition ckm_slot :: "'v counter_key_map \<Rightarrow> u64 \<Rightarrow> nat" where
  "ckm_slot m k = unat (k AND (2 ^ ckm_bits m - 1))"

definition ckm_find :: "'v counter_key_map \<Rightarrow> u64 \<Rightarrow> 'v option" where
  "ckm_find m k =
     (let s = ckm_slot m k in
      if ckm_key m s = k \<and> k \<noteq> 0 then Some (ckm_value m s)
      else if ohm_size (ckm_overflow m) = 0 then None else ohm_find (ckm_overflow m) k)"

definition ckm_insert :: "'v counter_key_map \<Rightarrow> u64 \<Rightarrow> 'v \<Rightarrow> 'v counter_key_map \<times> bool" where
  "ckm_insert m k v =
     (if k = 0 then (m, False)
      else let s = ckm_slot m k in
        if ckm_key m s = 0
        then (m\<lparr>ckm_key := (ckm_key m)(s := k), ckm_value := (ckm_value m)(s := v), ckm_size := ckm_size m + 1\<rparr>, True)
        else (case ohm_insert (ckm_overflow m) k v of
                (ov, p, inserted) \<Rightarrow>
                  if p = None \<or> \<not> inserted then (m\<lparr>ckm_overflow := ov\<rparr>, False)
                  else (m\<lparr>ckm_overflow := ov, ckm_size := ckm_size m + 1\<rparr>, True)))"

definition ckm_erase :: "'v counter_key_map \<Rightarrow> u64 \<Rightarrow> 'v counter_key_map \<times> bool" where
  "ckm_erase m k =
     (let s = ckm_slot m k in
      if ckm_key m s = k \<and> k \<noteq> 0
      then (m\<lparr>ckm_key := (ckm_key m)(s := 0), ckm_size := ckm_size m - 1\<rparr>, True)
      else if ohm_size (ckm_overflow m) \<noteq> 0
      then (case ohm_erase (ckm_overflow m) k of
              (ov, erased) \<Rightarrow>
                if erased then (m\<lparr>ckm_overflow := ov, ckm_size := ckm_size m - 1\<rparr>, True)
                else (m\<lparr>ckm_overflow := ov\<rparr>, False))
      else (m, False))"

definition ckm_inv :: "'v counter_key_map \<Rightarrow> bool" where
  "ckm_inv m \<longleftrightarrow>
     ohm_inv (ckm_overflow m) \<and> ohm_find (ckm_overflow m) 0 = None \<and>
     (\<forall>i. ckm_key m i \<noteq> 0 \<longrightarrow> ckm_slot m (ckm_key m i) = i \<and> ohm_find (ckm_overflow m) (ckm_key m i) = None)"

section \<open>Facts\<close>

lemma ckm_slot_upd [simp]:
  "ckm_slot (m\<lparr>ckm_key := x\<rparr>) = ckm_slot m" "ckm_slot (m\<lparr>ckm_value := y\<rparr>) = ckm_slot m"
  "ckm_slot (m\<lparr>ckm_size := z\<rparr>) = ckm_slot m" "ckm_slot (m\<lparr>ckm_overflow := w\<rparr>) = ckm_slot m"
  by (simp_all add: ckm_slot_def fun_eq_iff)

lemma ckm_slot_cong: "ckm_bits m' = ckm_bits m \<Longrightarrow> ckm_slot m' = ckm_slot m"
  by (simp add: ckm_slot_def fun_eq_iff)

lemma ohm_empty_find: "ohm_inv m \<Longrightarrow> ohm_size m = 0 \<Longrightarrow> ohm_find m k = None"
  using ohm_size_dom [of m] by (cases "ohm_find m k") auto

lemma ckm_find_eq:
  "ckm_inv m \<Longrightarrow> ckm_find m k =
     (if ckm_key m (ckm_slot m k) = k \<and> k \<noteq> 0 then Some (ckm_value m (ckm_slot m k))
      else ohm_find (ckm_overflow m) k)"
  using ohm_empty_find [of "ckm_overflow m" k] by (simp add: ckm_find_def ckm_inv_def Let_def)

lemma ckm_invD:
  assumes "ckm_inv m"
  shows "ohm_inv (ckm_overflow m)" "ohm_find (ckm_overflow m) 0 = None"
    "ckm_key m i \<noteq> 0 \<Longrightarrow> ckm_slot m (ckm_key m i) = i"
    "ckm_key m i \<noteq> 0 \<Longrightarrow> ohm_find (ckm_overflow m) (ckm_key m i) = None"
  using assms by (simp_all add: ckm_inv_def)

lemma ckm_insert_slot:
  assumes inv: "ckm_inv m" and k: "k \<noteq> 0" "ckm_key m (ckm_slot m k) = 0" "ohm_find (ckm_overflow m) k = None"
    and m': "m' = m\<lparr>ckm_key := (ckm_key m)(ckm_slot m k := k), ckm_value := (ckm_value m)(ckm_slot m k := v), ckm_size := n\<rparr>"
  shows "ckm_inv m' \<and> ckm_find m' = (ckm_find m)(k \<mapsto> v)"
proof -
  let ?s = "ckm_slot m k"
  have f: "ckm_overflow m' = ckm_overflow m" "ckm_slot m' = ckm_slot m"
    "ckm_key m' = (ckm_key m)(?s := k)" "ckm_value m' = (ckm_value m)(?s := v)" by (simp_all add: m')
  have inv': "ckm_inv m'"
    unfolding ckm_inv_def f
  proof (intro conjI allI impI)
    fix i assume "((ckm_key m)(?s := k)) i \<noteq> 0"
    then show "ckm_slot m (((ckm_key m)(?s := k)) i) = i"
      "ohm_find (ckm_overflow m) (((ckm_key m)(?s := k)) i) = None"
      using ckm_invD(3,4) [OF inv, of i] k(3) by (cases "i = ?s"; simp)+
  qed (use ckm_invD [OF inv] in blast)+
  have "ckm_find m' j = ((ckm_find m)(k \<mapsto> v)) j" for j
  proof (cases "ckm_slot m j = ?s")
    case True
    then show ?thesis using k by (auto simp: ckm_find_eq [OF inv'] ckm_find_eq [OF inv] f)
  next
    case False
    then have "j \<noteq> k" by auto
    then show ?thesis using False by (simp add: ckm_find_eq [OF inv'] ckm_find_eq [OF inv] f)
  qed
  then show ?thesis using inv' by auto
qed

lemma ckm_overflow_change:
  assumes inv: "ckm_inv m" and ov: "ohm_inv ov" "ohm_find ov = (ohm_find (ckm_overflow m))(k := x)"
    and k: "ckm_key m (ckm_slot m k) \<noteq> k \<or> k = 0" "k = 0 \<Longrightarrow> x = None"
    and m': "m' = m\<lparr>ckm_overflow := ov, ckm_size := n\<rparr>"
  shows "ckm_inv m' \<and> ckm_find m' = (ckm_find m)(k := x)"
proof -
  have f: "ckm_overflow m' = ov" "ckm_slot m' = ckm_slot m" "ckm_key m' = ckm_key m" "ckm_value m' = ckm_value m"
    by (simp_all add: m')
  have inv': "ckm_inv m'"
    unfolding ckm_inv_def f
  proof (intro conjI allI impI)
    fix i assume i: "ckm_key m i \<noteq> 0"
    show "ckm_slot m (ckm_key m i) = i" using ckm_invD(3) [OF inv i] .
    then have "ckm_key m i \<noteq> k" using k i by auto
    then show "ohm_find ov (ckm_key m i) = None" using ckm_invD(4) [OF inv i] ov(2) by simp
  qed (use ov ckm_invD(2) [OF inv] k(2) in auto)
  have "ckm_find m' j = ((ckm_find m)(k := x)) j" for j
    using k(1) by (cases "j = k") (auto simp: ckm_find_eq [OF inv'] ckm_find_eq [OF inv] f ov(2))
  then show ?thesis using inv' by auto
qed

lemma ckm_insert_law:
  assumes inv: "ckm_inv m" and new: "ckm_find m k = None" and ins: "ckm_insert m k v = (m', b)"
  shows "ckm_inv m' \<and> (if b then ckm_find m' = (ckm_find m)(k \<mapsto> v) else m' = m)"
proof -
  have k: "ckm_key m (ckm_slot m k) \<noteq> k \<or> k = 0" "ohm_find (ckm_overflow m) k = None"
    using new ckm_find_eq [OF inv, of k] by (auto split: if_splits)
  consider "k = 0" | "k \<noteq> 0" "ckm_key m (ckm_slot m k) = 0" | "k \<noteq> 0" "ckm_key m (ckm_slot m k) \<noteq> 0" by blast
  then show ?thesis
  proof cases
    case 1
    then show ?thesis using ins inv by (simp add: ckm_insert_def)
  next
    case 2
    then show ?thesis
      using ins ckm_insert_slot [OF inv 2 k(2) refl] by (auto simp: ckm_insert_def Let_def)
  next
    case 3
    obtain ov c where put: "ohm_put (ckm_overflow m) k v = (ov, c)" by fastforce
    note law = ohm_put_law [OF ckm_invD(1) [OF inv] k(2) put]
    have eq: "m' = (if c then m\<lparr>ckm_overflow := ov, ckm_size := ckm_size m + 1\<rparr> else m\<lparr>ckm_overflow := ov\<rparr>)" "b = c"
      using ins put 3 by (auto simp: ckm_insert_def ohm_put_def Let_def split: prod.splits if_splits)
    show ?thesis
      using eq law inv ckm_overflow_change [OF inv _ _ k(1) _ refl, of ov "Some v"] 3(1) by (cases c) auto
  qed
qed

lemma ckm_erase_law:
  assumes inv: "ckm_inv m" and er: "ckm_erase m k = (m', b)"
  shows "ckm_inv m' \<and> ckm_find m' = (ckm_find m)(k := None) \<and> b = (ckm_find m k \<noteq> None)"
proof (cases "ckm_key m (ckm_slot m k) = k \<and> k \<noteq> 0")
  case True
  let ?s = "ckm_slot m k"
  have "m' = m\<lparr>ckm_key := (ckm_key m)(?s := 0), ckm_size := ckm_size m - 1\<rparr>" and b: "b"
    using er True by (auto simp: ckm_erase_def Let_def)
  then have f: "ckm_overflow m' = ckm_overflow m" "ckm_slot m' = ckm_slot m"
    "ckm_key m' = (ckm_key m)(?s := 0)" "ckm_value m' = ckm_value m" by simp_all
  have inv': "ckm_inv m'" using inv by (simp add: ckm_inv_def f)
  have ok: "ohm_find (ckm_overflow m) k = None" using ckm_invD(4) [OF inv, of ?s] True by simp
  have "ckm_find m' j = ((ckm_find m)(k := None)) j" for j
  proof (cases "ckm_slot m j = ?s")
    case t: True
    then show ?thesis using True ok by (auto simp: ckm_find_eq [OF inv'] ckm_find_eq [OF inv] f)
  next
    case False
    then have "j \<noteq> k" by auto
    then show ?thesis using False by (simp add: ckm_find_eq [OF inv'] ckm_find_eq [OF inv] f)
  qed
  then show ?thesis using inv' b True ckm_find_eq [OF inv, of k] by auto
next
  case False
  let ?o = "ckm_overflow m"
  note oi = ckm_invD(1) [OF inv]
  have fk: "ckm_find m k = ohm_find ?o k" using ckm_find_eq [OF inv, of k] False by auto
  show ?thesis
  proof (cases "ohm_size ?o = 0")
    case True
    then have "m' = m" "\<not> b" using er False by (auto simp: ckm_erase_def Let_def)
    then show ?thesis using inv fk ohm_empty_find [OF oi True] by (simp add: fun_upd_idem)
  next
    case ne: False
    obtain ov where ov: "ohm_erase ?o k = (ov, ohm_find ?o k \<noteq> None)" "ohm_inv ov" "ohm_find ov = (ohm_find ?o)(k := None)"
      using ohm_erase_law [OF oi, of k] by blast
    have "m' = m\<lparr>ckm_overflow := ov, ckm_size := ckm_size m'\<rparr>" "b = (ohm_find ?o k \<noteq> None)"
      using er False ne ov(1) by (auto simp: ckm_erase_def Let_def split: if_splits)
    moreover have "ckm_key m (ckm_slot m k) \<noteq> k \<or> k = 0" using False by blast
    ultimately show ?thesis
      using ckm_overflow_change [OF inv ov(2,3) _ refl, of m' "ckm_size m'"] fk by simp
  qed
qed

interpretation counter_map: key_table ckm_inv ckm_find ckm_insert ckm_erase
proof unfold_locales
  fix m m' :: "'v counter_key_map" and k v b
  assume inv: "ckm_inv m"
  show "ckm_find m k = None \<Longrightarrow> ckm_insert m k v = (m', True) \<Longrightarrow> ckm_inv m' \<and> ckm_find m' = (ckm_find m)(k \<mapsto> v)"
    using ckm_insert_law [OF inv] by auto
  show "ckm_find m k = None \<Longrightarrow> ckm_insert m k v = (m', False) \<Longrightarrow> m' = m"
    using ckm_insert_law [OF inv] by fastforce
  show "ckm_erase m k = (m', b) \<Longrightarrow> ckm_inv m' \<and> ckm_find m' = (ckm_find m)(k := None) \<and> b = (ckm_find m k \<noteq> None)"
    using ckm_erase_law [OF inv] by blast
qed

section \<open>Properties\<close>

lemma ckm_new_inv:
  assumes "3 \<le> ob"
  shows "ckm_inv (ckm_new b ob zero) \<and> ckm_find (ckm_new b ob zero) = Map.empty"
proof -
  have o: "ohm_inv (ohm_new ob :: 'a open_hash_map)" "ohm_find (ohm_new ob :: 'a open_hash_map) = Map.empty"
    using ohm_new_inv [OF assms] by blast+
  have inv: "ckm_inv (ckm_new b ob zero)" using o by (simp add: ckm_inv_def ckm_new_def)
  then have "ckm_find (ckm_new b ob zero) k = None" for k
    using o unfolding ckm_find_eq [OF inv] by (simp add: ckm_new_def)
  then show ?thesis using inv by auto
qed

text \<open>A counter-key map, its direct-mapped slots and its overflow table together, is the
  partial function its inserts of absent keys and its erases compute, whatever keys share a
  slot.\<close>

theorem counter_key_map_refines:
  assumes "3 \<le> ob" and "table_run ckm_find ckm_insert ckm_erase xs (ckm_new b ob zero) = (m, bs)"
  shows "ckm_find m = fold (\<lambda>(x, done). table_effect x done) (zip xs bs) Map.empty"
proof -
  have new: "ckm_inv (ckm_new b ob zero)" "ckm_find (ckm_new b ob zero) = Map.empty"
    using ckm_new_inv [OF assms(1), of b zero] by simp_all
  show ?thesis using counter_map.run_correct [OF new(1) assms(2)] unfolding new(2) by blast
qed

theorem counter_key_map_refines_witness:
  "ckm_find (fst (table_run ckm_find ckm_insert ckm_erase [Put 1 True, Put 5 False, Del 1] (ckm_new 2 3 True))) 5 = Some False"
proof -
  define r where "r = table_run ckm_find ckm_insert ckm_erase [Put 1 True, Put 5 False, Del 1] (ckm_new 2 3 True)"
  have "snd r = [True, True, True]" unfolding r_def by code_simp
  moreover have "table_run ckm_find ckm_insert ckm_erase [Put 1 True, Put 5 False, Del 1] (ckm_new 2 3 True) = (fst r, snd r)"
    by (simp only: r_def prod.collapse)
  ultimately have "ckm_find (fst r) 5 = Some False"
    using counter_key_map_refines [of 3 "[Put 1 True, Put 5 False, Del 1]" 2 True "fst r" "snd r"] by simp
  then show ?thesis by (simp only: r_def)
qed

end
