(* ===== verification/RecentMap.thy ===== *)
theory RecentMap
  imports OpenHashMap RingBuffer
begin

text \<open>
  \<^verbatim>\<open>include/fastmm/core/containers/recent_map.hpp\<close>: \<^verbatim>\<open>RecentMap<K, V, N>\<close>, the \<open>N\<close> most
  recently inserted keys. \<open>N\<close> is \<open>2 ^ rm_bits\<close>; keys and values sit in a ring, and an index of
  \<open>2 * N\<close> words maps a key to its ring position. An index word is the top half of the key's
  hash and the position plus one; 0 is empty. The specification is a list of key-value pairs in
  insertion order (\<open>recent_assign\<close>), and the map refines it.
\<close>

section \<open>The map\<close>

record 'v recent_map =
  rm_bits :: nat
  rm_index :: "nat \<Rightarrow> u64"
  rm_keys :: "nat \<Rightarrow> u64"
  rm_values :: "nat \<Rightarrow> 'v"
  rm_head :: u64
  rm_tail :: u64

definition rm_N :: "'v recent_map \<Rightarrow> u64" where
  "rm_N m = 2 ^ rm_bits m"

definition rm_kSlots :: "'v recent_map \<Rightarrow> nat" where
  "rm_kSlots m = 2 * 2 ^ rm_bits m"

definition rm_kSlotBits :: "'v recent_map \<Rightarrow> nat" where
  "rm_kSlotBits m = Suc (rm_bits m)"

definition rm_hash :: "u64 \<Rightarrow> u64" where
  "rm_hash k = k * 0x9E3779B97F4A7C15"

text \<open>The slot a hash probes first; an index word keeps the bits it is made of.\<close>

definition rm_home :: "nat \<Rightarrow> u64 \<Rightarrow> nat" where
  "rm_home c h = unat (drop_bit (64 - c) h)"

definition rm_word :: "u64 \<Rightarrow> nat \<Rightarrow> u64" where
  "rm_word h pos = push_bit 32 (drop_bit 32 h) OR of_nat (pos + 1)"

definition rm_low :: "u64 \<Rightarrow> nat" where
  "rm_low s = unat (s AND 0xFFFFFFFF)"

definition rm_table :: "(nat \<Rightarrow> u64) \<Rightarrow> nat \<Rightarrow> u64 option" where
  "rm_table ix i = (if ix i = 0 then None else Some (ix i))"

definition rm_untable :: "(nat \<Rightarrow> u64 option) \<Rightarrow> nat \<Rightarrow> u64" where
  "rm_untable t i = (case t i of None \<Rightarrow> 0 | Some s \<Rightarrow> s)"

definition rm_find_pos :: "'v recent_map \<Rightarrow> u64 \<Rightarrow> nat option" where
  "rm_find_pos m k =
     (let h = rm_hash k in
      case lp_probe (rm_kSlots m) (rm_kSlots m) (rm_table (rm_index m))
             (\<lambda>s. drop_bit 32 s = drop_bit 32 h \<and> rm_keys m (rm_low s - 1) = k) (rm_home (rm_kSlotBits m) h) of
        Found i \<Rightarrow> Some (rm_low (rm_index m i) - 1)
      | _ \<Rightarrow> None)"

definition rm_find :: "'v recent_map \<Rightarrow> u64 \<Rightarrow> 'v option" where
  "rm_find m k = map_option (rm_values m) (rm_find_pos m k)"

text \<open>The first loop of \<^verbatim>\<open>unindex\<close>, which looks at empty slots too.\<close>

fun rm_seek :: "nat \<Rightarrow> nat \<Rightarrow> (nat \<Rightarrow> u64) \<Rightarrow> nat \<Rightarrow> nat \<Rightarrow> nat option" where
  "rm_seek 0 n ix target i = None"
| "rm_seek (Suc f) n ix target i =
     (if rm_low (ix i) = target then Some i else rm_seek f n ix target (wrap_next n i))"

definition rm_unindex :: "'v recent_map \<Rightarrow> u64 \<Rightarrow> nat \<Rightarrow> 'v recent_map" where
  "rm_unindex m h pos =
     (case rm_seek (rm_kSlots m) (rm_kSlots m) (rm_index m) (pos + 1) (rm_home (rm_kSlotBits m) h) of
        None \<Rightarrow> m
      | Some hole \<Rightarrow>
          (case lp_shift (rm_kSlots m) (rm_kSlots m) (rm_home (rm_kSlotBits m)) (rm_table (rm_index m)) hole hole of
             None \<Rightarrow> m
           | Some t \<Rightarrow> m\<lparr>rm_index := rm_untable t\<rparr>))"

definition rm_slot :: "'v recent_map \<Rightarrow> u64 \<Rightarrow> nat" where
  "rm_slot m pos = unat (pos AND (rm_N m - 1))"

definition rm_evict :: "'v recent_map \<Rightarrow> 'v recent_map" where
  "rm_evict m =
     (if rm_tail m - rm_head m = rm_N m
      then (let oldest = rm_slot m (rm_head m)
            in (rm_unindex m (rm_hash (rm_keys m oldest)) oldest)\<lparr>rm_head := rm_head m + 1\<rparr>)
      else m)"

definition rm_add :: "'v recent_map \<Rightarrow> u64 \<Rightarrow> 'v \<Rightarrow> 'v recent_map" where
  "rm_add m k v =
     (let h = rm_hash k; pos = rm_slot m (rm_tail m)
      in case lp_probe (rm_kSlots m) (rm_kSlots m) (rm_table (rm_index m)) (\<lambda>s. False)
                (rm_home (rm_kSlotBits m) h) of
           Vacant i \<Rightarrow> m\<lparr>rm_keys := (rm_keys m)(pos := k), rm_values := (rm_values m)(pos := v),
                         rm_tail := rm_tail m + 1, rm_index := (rm_index m)(i := rm_word h pos)\<rparr>
         | _ \<Rightarrow> m)"

definition rm_assign :: "'v recent_map \<Rightarrow> u64 \<Rightarrow> 'v \<Rightarrow> 'v recent_map \<times> bool" where
  "rm_assign m k v =
     (case rm_find_pos m k of
        Some pos \<Rightarrow> (m\<lparr>rm_values := (rm_values m)(pos := v)\<rparr>, False)
      | None \<Rightarrow> (rm_add (rm_evict m) k v, True))"

definition rm_clear :: "'v recent_map \<Rightarrow> 'v recent_map" where
  "rm_clear m = m\<lparr>rm_index := (\<lambda>i. 0), rm_head := 0, rm_tail := 0\<rparr>"

definition rm_new :: "nat \<Rightarrow> 'v \<Rightarrow> 'v recent_map" where
  "rm_new b zero = \<lparr>rm_bits = b, rm_index = (\<lambda>i. 0), rm_keys = (\<lambda>i. 0), rm_values = (\<lambda>i. zero),
                    rm_head = 0, rm_tail = 0\<rparr>"

section \<open>Specification\<close>

text \<open>The last \<open>n\<close> distinct keys, oldest first.\<close>

definition recent_assign :: "nat \<Rightarrow> (u64 \<times> 'v) list \<Rightarrow> u64 \<Rightarrow> 'v \<Rightarrow> (u64 \<times> 'v) list \<times> bool" where
  "recent_assign n xs k v =
     (if k \<in> fst ` set xs then (map (\<lambda>e. if fst e = k then (k, v) else e) xs, False)
      else ((if length xs = n then tl xs else xs) @ [(k, v)], True))"

definition rm_ring :: "'v recent_map \<Rightarrow> (u64 \<times> 'v) ring_buffer" where
  "rm_ring m = \<lparr>rb_bits = rm_bits m, rb_head = rm_head m, rb_tail = rm_tail m,
                rb_buf = (\<lambda>i. (rm_keys m i, rm_values m i))\<rparr>"

definition rm_list :: "'v recent_map \<Rightarrow> (u64 \<times> 'v) list" where
  "rm_list m = rb_list (rm_ring m)"

text \<open>The ring positions in use.\<close>

definition rm_live :: "'v recent_map \<Rightarrow> nat set" where
  "rm_live m = (\<lambda>i. (unat (rm_head m) + i) mod 2 ^ rm_bits m) ` {..<unat (rm_tail m - rm_head m)}"

definition rm_inv :: "'v recent_map \<Rightarrow> bool" where
  "rm_inv m \<longleftrightarrow>
     rm_bits m \<le> 31 \<and> unat (rm_tail m - rm_head m) \<le> 2 ^ rm_bits m \<and>
     inj_on (rm_keys m) (rm_live m) \<and>
     well_probed (rm_kSlots m) (rm_home (rm_kSlotBits m)) (rm_table (rm_index m)) \<and>
     key_unique (rm_kSlots m) rm_low (rm_table (rm_index m)) \<and>
     entries (rm_kSlots m) (rm_table (rm_index m)) = (\<lambda>p. rm_word (rm_hash (rm_keys m p)) p) ` rm_live m"

section \<open>Index words\<close>

lemma rm_home_less: "c \<le> 64 \<Longrightarrow> rm_home c h < 2 ^ c"
proof -
  assume c: "c \<le> 64"
  have "unat h < 2 ^ c * 2 ^ (64 - c)" using unat_u64_less [of h] c by (simp flip: power_add)
  then have "unat h div 2 ^ (64 - c) < 2 ^ c" by (rule less_mult_imp_div_less)
  then show ?thesis by (simp add: rm_home_def unat_drop_bit_eq drop_bit_eq_div [where ?'a = nat])
qed

lemma small_bits: "pos < 2 ^ 31 \<Longrightarrow> bit (of_nat (pos + 1) :: u64) n \<Longrightarrow> n < 32"
proof -
  assume p: "pos < 2 ^ 31" and b: "bit (of_nat (pos + 1) :: u64) n"
  have "bit (pos + 1) n" using b by (simp add: bit_of_nat_iff del: of_nat_add of_nat_Suc)
  moreover have "take_bit 32 (pos + 1) = pos + 1" using p by (simp add: take_bit_nat_eq_self)
  ultimately show ?thesis by (metis bit_take_bit_iff)
qed

lemma rm_word_bit:
  "pos < 2 ^ 31 \<Longrightarrow> bit (rm_word h pos) n \<longleftrightarrow> (if n < 32 then bit (of_nat (pos + 1) :: u64) n else bit h n)"
  using small_bits [of pos n]
  by (auto simp: rm_word_def bit_or_iff bit_push_bit_iff bit_drop_bit_eq dest: bit_imp_le_length simp del: of_nat_add of_nat_Suc)

lemma rm_word_low: "pos < 2 ^ 31 \<Longrightarrow> rm_low (rm_word h pos) = pos + 1"
proof -
  assume p: "pos < 2 ^ 31"
  have m: "(0xFFFFFFFF :: u64) = mask 32" by (simp add: mask_eq_exp_minus_1)
  have "rm_word h pos AND mask 32 = of_nat (pos + 1)"
  proof (rule bit_word_eqI)
    fix n
    show "bit (rm_word h pos AND mask 32) n \<longleftrightarrow> bit (of_nat (pos + 1) :: u64) n"
      using small_bits [OF p, of n] rm_word_bit [OF p, of h n]
      by (auto simp: bit_and_iff bit_mask_iff dest: bit_imp_le_length simp del: of_nat_add of_nat_Suc)
  qed
  then show ?thesis using p unfolding rm_low_def m by (simp only: unat_of_nat) simp
qed

lemma rm_word_top: "pos < 2 ^ 31 \<Longrightarrow> drop_bit 32 (rm_word h pos) = drop_bit 32 h"
  by (rule bit_word_eqI) (simp add: bit_drop_bit_eq rm_word_bit)

lemma rm_word_home: "pos < 2 ^ 31 \<Longrightarrow> c \<le> 32 \<Longrightarrow> rm_home c (rm_word h pos) = rm_home c h"
proof -
  assume p: "pos < 2 ^ 31" and c: "c \<le> 32"
  have "drop_bit (64 - c) (rm_word h pos) = drop_bit (64 - c) h"
  proof (rule bit_word_eqI)
    fix n
    have "\<not> 64 - c + n < 32" using c by simp
    then show "bit (drop_bit (64 - c) (rm_word h pos)) n \<longleftrightarrow> bit (drop_bit (64 - c) h) n"
      unfolding bit_drop_bit_eq o_def rm_word_bit [OF p] by simp
  qed
  then show ?thesis by (simp add: rm_home_def)
qed

lemma rm_word_nonzero: "pos < 2 ^ 31 \<Longrightarrow> rm_word h pos \<noteq> 0"
  using rm_word_low [of pos h] by (auto simp: rm_low_def)

lemma rm_home_lt: "rm_home c h < 2 ^ c"
proof (cases "c \<le> 64")
  case False
  then have "(2::nat) ^ 64 \<le> 2 ^ c" by (intro power_increasing) auto
  then show ?thesis using unat_u64_less [of h] False by (simp add: rm_home_def)
qed (rule rm_home_less)

interpretation rm_index: probing "2 ^ c" "rm_home c" for c
  by unfold_locales (auto simp: rm_home_lt)

section \<open>The index of a well-formed map\<close>

lemma rm_kSlots_pow: "rm_kSlots m = 2 ^ rm_kSlotBits m"
  by (simp add: rm_kSlots_def rm_kSlotBits_def)

lemma rm_table_nonzero: "rm_table ix i = Some s \<Longrightarrow> s = ix i \<and> s \<noteq> 0"
  by (auto simp: rm_table_def split: if_splits)

lemma rm_live_less: "p \<in> rm_live m \<Longrightarrow> p < 2 ^ rm_bits m"
  by (auto simp: rm_live_def)

lemma rm_live_31: "rm_inv m \<Longrightarrow> p \<in> rm_live m \<Longrightarrow> p < 2 ^ 31"
  using rm_live_less [of p m] power_increasing [of "rm_bits m" 31 "2::nat"] by (simp add: rm_inv_def)

lemma rm_live_card: "rm_inv m \<Longrightarrow> finite (rm_live m) \<and> card (rm_live m) \<le> 2 ^ rm_bits m"
  using card_image_le [of "{..<unat (rm_tail m - rm_head m)}" "\<lambda>i. (unat (rm_head m) + i) mod 2 ^ rm_bits m"]
  by (simp add: rm_live_def rm_inv_def)

lemma rm_entry:
  assumes "rm_inv m" "i < rm_kSlots m" "rm_table (rm_index m) i = Some s"
  obtains p where "p \<in> rm_live m" "s = rm_word (rm_hash (rm_keys m p)) p" "rm_low s = p + 1" "p < 2 ^ 31"
proof -
  have "s \<in> entries (rm_kSlots m) (rm_table (rm_index m))" using assms(2,3) by (auto simp: entries_iff)
  then obtain p where "p \<in> rm_live m" "s = rm_word (rm_hash (rm_keys m p)) p" using assms(1) by (auto simp: rm_inv_def)
  then show thesis using that rm_live_31 [OF assms(1)] rm_word_low by simp
qed

lemma rm_gap:
  assumes inv: "rm_inv m"
  shows "\<exists>p<rm_kSlots m. rm_table (rm_index m) p = None"
proof (rule ccontr)
  let ?t = "rm_table (rm_index m)" and ?f = "\<lambda>i. rm_low (the (rm_table (rm_index m) i))"
  assume "\<not> ?thesis"
  then have full: "\<And>i. i < rm_kSlots m \<Longrightarrow> \<exists>s. ?t i = Some s" by auto
  have "inj_on ?f {..<rm_kSlots m}"
  proof (rule inj_onI)
    fix i j assume ij: "i \<in> {..<rm_kSlots m}" "j \<in> {..<rm_kSlots m}" "?f i = ?f j"
    then obtain s r where "?t i = Some s" "?t j = Some r" using full by (metis lessThan_iff)
    then show "i = j" using ij inv unfolding rm_inv_def key_unique_def by (metis lessThan_iff option.sel)
  qed
  moreover have "?f ` {..<rm_kSlots m} \<subseteq> Suc ` rm_live m"
  proof
    fix x assume "x \<in> ?f ` {..<rm_kSlots m}"
    then obtain i s where i: "i < rm_kSlots m" "?t i = Some s" "x = rm_low s" using full by force
    show "x \<in> Suc ` rm_live m" by (rule rm_entry [OF inv i(1,2)]) (use i(3) in auto)
  qed
  ultimately have "card {..<rm_kSlots m} \<le> card (Suc ` rm_live m)"
    using rm_live_card [OF inv] by (metis card_image card_mono finite_imageI)
  also have "\<dots> \<le> 2 ^ rm_bits m" using rm_live_card [OF inv] by (simp add: card_image)
  finally show False by (simp add: rm_kSlots_def)
qed

lemma rm_find_pos_iff:
  assumes inv: "rm_inv m"
  shows "rm_find_pos m k = Some p \<longleftrightarrow> p \<in> rm_live m \<and> rm_keys m p = k"
proof -
  let ?n = "2 ^ rm_kSlotBits m :: nat" and ?t = "rm_table (rm_index m)" and ?h = "rm_home (rm_kSlotBits m) (rm_hash k)"
  let ?M = "\<lambda>s. drop_bit 32 s = drop_bit 32 (rm_hash k) \<and> rm_keys m (rm_low s - 1) = k"
  have gap: "\<exists>p<?n. ?t p = None" using rm_gap [OF inv] by (simp add: rm_kSlots_pow)
  obtain i where i: "i < ?n" "\<forall>q<?n. cdist ?n ?h q < cdist ?n ?h i \<longrightarrow> (\<exists>e. ?t q = Some e \<and> \<not> ?M e)"
    "case ?t i of None \<Rightarrow> lp_probe ?n ?n ?t ?M ?h = Vacant i | Some e \<Rightarrow> ?M e \<and> lp_probe ?n ?n ?t ?M ?h = Found i"
    by (rule rm_index.lp_probe_total [OF rm_home_lt gap, of _ ?M])
  have uniq: "p' = p" if "p \<in> rm_live m" "p' \<in> rm_live m" "rm_keys m p = rm_keys m p'" for p p'
    using inv that unfolding rm_inv_def inj_on_def by metis
  show ?thesis
  proof (cases "?t i")
    case (Some s)
    have lp: "lp_probe ?n ?n ?t ?M ?h = Found i" "?M s" using i(3) Some by auto
    have ii: "i < rm_kSlots m" using i(1) by (simp add: rm_kSlots_pow)
    obtain q where q: "q \<in> rm_live m" "rm_low s = q + 1" by (rule rm_entry [OF inv ii Some])
    have "rm_find_pos m k = Some q"
      using lp q Some rm_table_nonzero [OF Some] by (simp add: rm_find_pos_def rm_kSlots_pow Let_def)
    then show ?thesis using q lp(2) uniq [of q p] by auto
  next
    case None
    have none: "rm_find_pos m k = None" using i(3) None by (simp add: rm_find_pos_def rm_kSlots_pow Let_def)
    have "\<not> (p \<in> rm_live m \<and> rm_keys m p = k)"
    proof
      assume p: "p \<in> rm_live m \<and> rm_keys m p = k"
      let ?s = "rm_word (rm_hash k) p"
      note p31 = rm_live_31 [OF inv, of p]
      have "?s \<in> entries (rm_kSlots m) ?t" using inv p by (auto simp: rm_inv_def)
      then obtain q where q: "q < ?n" "?t q = Some ?s" by (auto simp: entries_iff rm_kSlots_pow)
      have M: "?M ?s" using p p31 by (simp add: rm_word_top rm_word_low)
      have hs: "rm_home (rm_kSlotBits m) ?s = ?h"
        using p p31 inv by (intro rm_word_home) (auto simp: rm_inv_def rm_kSlotBits_def)
      have "\<not> cdist ?n ?h q < cdist ?n ?h i" using i(2) q M by fastforce
      moreover have "cdist ?n ?h q \<noteq> cdist ?n ?h i"
        using cdist_inj [of ?n ?h q i] rm_home_lt q(1) i(1) q(2) None by (metis option.distinct(1))
      ultimately have "cdist ?n ?h i < cdist ?n ?h q" by simp
      moreover have "well_probed ?n (rm_home (rm_kSlotBits m)) ?t" using inv by (simp add: rm_inv_def rm_kSlots_pow)
      ultimately show False using well_probedD [of ?n "rm_home (rm_kSlotBits m)" ?t q ?s i] q i(1) None hs by simp
    qed
    then show ?thesis using none by simp
  qed
qed

section \<open>Operations\<close>

lemma rm_ring_simps [simp]:
  "rb_bits (rm_ring m) = rm_bits m" "rb_head (rm_ring m) = rm_head m" "rb_tail (rm_ring m) = rm_tail m"
  "rb_size (rm_ring m) = rm_tail m - rm_head m" "rb_slot (rm_ring m) p = rm_slot m p"
  "rb_buf (rm_ring m) i = (rm_keys m i, rm_values m i)"
  by (simp_all add: rm_ring_def rb_size_def rb_slot_def rm_slot_def rb_N_def rm_N_def)

lemma rm_ring_inv: "rm_inv m \<Longrightarrow> rb_inv (rm_ring m)"
  by (simp add: rb_inv_def rm_inv_def)

lemma rm_list_eq:
  "rm_list m = map (\<lambda>i. (rm_keys m ((unat (rm_head m) + i) mod 2 ^ rm_bits m),
     rm_values m ((unat (rm_head m) + i) mod 2 ^ rm_bits m))) [0..<unat (rm_tail m - rm_head m)]"
  by (simp add: rm_list_def rb_list_def)

lemma rm_list_set: "set (rm_list m) = (\<lambda>p. (rm_keys m p, rm_values m p)) ` rm_live m"
  by (auto simp: rm_list_eq rm_live_def)

lemma rm_list_keys: "fst ` set (rm_list m) = rm_keys m ` rm_live m"
  by (force simp: rm_list_set)

lemma rm_overwrite:
  assumes inv: "rm_inv m" and pos: "rm_find_pos m k = Some p"
    and m': "m' = m\<lparr>rm_values := (rm_values m)(p := v)\<rparr>"
  shows "rm_inv m' \<and> rm_list m' = map (\<lambda>e. if fst e = k then (k, v) else e) (rm_list m)"
proof -
  have p: "p \<in> rm_live m" "rm_keys m p = k" using pos by (auto simp: rm_find_pos_iff [OF inv])
  have live: "rm_live m' = rm_live m" by (simp add: m' rm_live_def)
  have inv': "rm_inv m'" using inv unfolding rm_inv_def live by (simp add: m' rm_kSlots_def rm_kSlotBits_def)
  have "rm_keys m q = k \<longleftrightarrow> q = p" if "q \<in> rm_live m" for q
    using inv p that unfolding rm_inv_def inj_on_def by metis
  then have "rm_keys m ((unat (rm_head m) + i) mod 2 ^ rm_bits m) = k \<longleftrightarrow>
      (unat (rm_head m) + i) mod 2 ^ rm_bits m = p" if "i < unat (rm_tail m - rm_head m)" for i
    using that by (auto simp: rm_live_def)
  then show ?thesis using inv' p(2) by (auto simp: rm_list_eq m')
qed

lemma rm_live_split:
  assumes inv: "rm_inv m" and ne: "rm_tail m \<noteq> rm_head m"
  shows "rm_live m = insert (rm_slot m (rm_head m)) (rm_live (m\<lparr>rm_head := rm_head m + 1\<rparr>))"
    "rm_slot m (rm_head m) \<notin> rm_live (m\<lparr>rm_head := rm_head m + 1\<rparr>)"
proof -
  let ?n = "2 ^ rm_bits m :: nat" and ?s = "unat (rm_tail m - rm_head m)" and ?h = "unat (rm_head m)"
  have le: "?s \<le> ?n" and b: "rm_bits m \<le> 64" using inv by (auto simp: rm_inv_def)
  have "unat (rm_tail m - rm_head m) \<noteq> 0" using ne by (simp add: unat_eq_0)
  then have "1 \<le> rm_tail m - rm_head m" by (simp add: word_le_nat_alt)
  then have s1: "unat (rm_tail m - (rm_head m + 1)) = ?s - 1"
    using unat_sub [of 1 "rm_tail m - rm_head m"] by (simp add: diff_diff_eq)
  have pos: "0 < ?s" using ne by (simp add: unat_gt_0)
  have slot: "rm_slot m (rm_head m) = ?h mod ?n" by (simp add: rm_slot_def rm_N_def mask_slot)
  have sh: "(unat (rm_head m + 1) + i) mod ?n = (?h + Suc i) mod ?n" for i
  proof -
    have "unat (rm_head m + 1) mod ?n = (?h + 1) mod ?n" using slot_off [OF b, of "rm_head m" 1] by simp
    then have "(unat (rm_head m + 1) + i) mod ?n = (?h + 1 + i) mod ?n" by (rule mod_add_cong) simp
    then show ?thesis by simp
  qed
  have tl: "rm_live (m\<lparr>rm_head := rm_head m + 1\<rparr>) = (\<lambda>i. (?h + Suc i) mod ?n) ` {..<?s - 1}"
    unfolding rm_live_def by (simp add: s1 sh)
  have "{..<?s} = insert 0 (Suc ` {..<?s - 1})" using pos lessThan_Suc_eq_insert_0 [of "?s - 1"] by simp
  then show "rm_live m = insert (rm_slot m (rm_head m)) (rm_live (m\<lparr>rm_head := rm_head m + 1\<rparr>))"
    unfolding tl slot rm_live_def [of m] by (simp add: image_image)
  show "rm_slot m (rm_head m) \<notin> rm_live (m\<lparr>rm_head := rm_head m + 1\<rparr>)"
  proof
    assume "rm_slot m (rm_head m) \<in> rm_live (m\<lparr>rm_head := rm_head m + 1\<rparr>)"
    then obtain i where "i < ?s - 1" "(?h + 0) mod ?n = (?h + Suc i) mod ?n" unfolding tl slot by auto
    moreover from this have "Suc i < ?n" using le by linarith
    ultimately show False using mod_distinct [of 0 "Suc i" ?n ?h] by simp
  qed
qed

lemma rm_seek_probe:
  "rm_seek f n ix target i =
     (case lp_probe f n (\<lambda>i. if rm_low (ix i) = target then None else Some ()) (\<lambda>_. False) i of
        Vacant p \<Rightarrow> Some p | _ \<Rightarrow> None)"
  by (induction f arbitrary: i) auto

lemma rm_seek_total:
  assumes "i < 2 ^ c" "rm_low (ix i) = target"
  obtains p where "p < 2 ^ c" "rm_low (ix p) = target" "rm_seek (2 ^ c) (2 ^ c) ix target (rm_home c h) = Some p"
proof -
  let ?t = "\<lambda>i. if rm_low (ix i) = target then None else Some ()"
  have "\<exists>p<2 ^ c. ?t p = None" using assms by auto
  then obtain p where "p < 2 ^ c"
    "case ?t p of None \<Rightarrow> lp_probe (2 ^ c) (2 ^ c) ?t (\<lambda>_. False) (rm_home c h) = Vacant p
     | Some e \<Rightarrow> False \<and> lp_probe (2 ^ c) (2 ^ c) ?t (\<lambda>_. False) (rm_home c h) = Found p"
    using rm_index.lp_probe_total [where c = c and h = "rm_home c h" and t = ?t and match = "\<lambda>_. False", OF rm_home_lt] by blast
  then show thesis using that [of p] by (auto simp: rm_seek_probe split: if_splits)
qed

lemma rm_table_untable: "(\<And>i. t i \<noteq> Some 0) \<Longrightarrow> rm_table (rm_untable t) = t"
  by (auto simp: rm_table_def rm_untable_def fun_eq_iff split: option.splits)

lemma rm_seek_hole:
  assumes inv: "rm_inv m" and pl: "p \<in> rm_live m"
  obtains hole where "hole < 2 ^ rm_kSlotBits m"
    "rm_table (rm_index m) hole = Some (rm_word (rm_hash (rm_keys m p)) p)"
    "rm_seek (2 ^ rm_kSlotBits m) (2 ^ rm_kSlotBits m) (rm_index m) (p + 1)
       (rm_home (rm_kSlotBits m) (rm_hash (rm_keys m p))) = Some hole"
proof -
  let ?n = "2 ^ rm_kSlotBits m :: nat" and ?t = "rm_table (rm_index m)" and ?w = "rm_word (rm_hash (rm_keys m p)) p"
  have low: "rm_low ?w = p + 1" using rm_word_low rm_live_31 [OF inv pl] by blast
  have "?w \<in> entries ?n ?t" using inv pl by (simp add: rm_inv_def rm_kSlots_pow)
  then obtain i where i: "i < ?n" "?t i = Some ?w" unfolding entries_iff by blast
  have ixi: "rm_low (rm_index m i) = p + 1" using rm_table_nonzero [OF i(2)] low by simp
  obtain hole where hole: "hole < ?n" "rm_low (rm_index m hole) = p + 1"
    "rm_seek ?n ?n (rm_index m) (p + 1) (rm_home (rm_kSlotBits m) (rm_hash (rm_keys m p))) = Some hole"
    by (rule rm_seek_total [where ix = "rm_index m", OF i(1) ixi])
  have "rm_index m hole \<noteq> 0" using hole(2) by (auto simp: rm_low_def)
  then have th: "?t hole = Some (rm_index m hole)" by (simp add: rm_table_def)
  have "key_unique ?n rm_low ?t" using inv by (simp add: rm_inv_def rm_kSlots_pow)
  then have "hole = i" by (rule key_uniqueD [OF _ hole(1) i(1) th i(2)]) (simp add: hole(2) low)
  then show thesis using that [OF hole(1) _ hole(3)] i(2) by simp
qed

lemma rm_unindex_law:
  assumes inv: "rm_inv m" and pl: "p \<in> rm_live m"
  defines "w \<equiv> \<lambda>p. rm_word (rm_hash (rm_keys m p)) p"
  obtains t' where "rm_unindex m (rm_hash (rm_keys m p)) p = m\<lparr>rm_index := rm_untable t'\<rparr>"
    "rm_table (rm_untable t') = t'" "well_probed (rm_kSlots m) (rm_home (rm_kSlotBits m)) t'"
    "key_unique (rm_kSlots m) rm_low t'" "entries (rm_kSlots m) t' = w ` (rm_live m - {p})"
proof -
  let ?c = "rm_kSlotBits m" and ?n = "2 ^ rm_kSlotBits m :: nat" and ?t = "rm_table (rm_index m)"
  have uniq: "key_unique ?n rm_low ?t" and ents: "entries ?n ?t = w ` rm_live m" and wp: "well_probed ?n (rm_home ?c) ?t"
    using inv by (simp_all add: rm_inv_def rm_kSlots_pow w_def)
  obtain hole where hole: "hole < ?n" "?t hole = Some (w p)"
    "rm_seek ?n ?n (rm_index m) (p + 1) (rm_home ?c (rm_hash (rm_keys m p))) = Some hole"
    unfolding w_def by (rule rm_seek_hole [OF inv pl])
  obtain g where g: "g < ?n" "?t g = None" using rm_gap [OF inv] by (auto simp: rm_kSlots_pow)
  have si: "rm_index.shift_inv ?c ?t hole hole" using wp hole(1,2) by (intro rm_index.shift_inv_start) simp_all
  have "cdist ?n hole g \<le> ?n" using cdist_less [OF hole(1) g(1)] by simp
  from rm_index.shift_total [where ?'k = nat, OF si g this]
  obtain t' where t': "lp_shift ?n ?n (rm_home ?c) ?t hole hole = Some t'" "well_probed ?n (rm_home ?c) t'"
    "entries ?n t' = entries ?n (?t(hole := None))" "key_unique ?n rm_low (?t(hole := None)) \<Longrightarrow> key_unique ?n rm_low t'"
    by blast
  have "t' q \<noteq> Some 0" for q
    using lp_shift_range [OF t'(1)] rm_table_nonzero by blast
  then have tt: "rm_table (rm_untable t') = t'" by (rule rm_table_untable)
  have un: "rm_unindex m (rm_hash (rm_keys m p)) p = m\<lparr>rm_index := rm_untable t'\<rparr>"
    using hole(3) t'(1) by (simp add: rm_unindex_def rm_kSlots_pow)
  have "key_unique ?n rm_low (?t(hole := None))" using uniq unfolding key_unique_def by (simp split: if_splits)
  note un' = t'(4) [OF this]
  have "rm_low (w q) = q + 1" if "q \<in> rm_live m" for q
    using rm_word_low rm_live_31 [OF inv that] by (simp add: w_def)
  then have "inj_on w (rm_live m)" by (metis add_right_imp_eq inj_onI)
  then have "w ` rm_live m - {w p} = w ` (rm_live m - {p})" using pl by (auto simp: inj_on_def)
  then have "entries ?n t' = w ` (rm_live m - {p})"
    using t'(3) entries_remove [OF hole(1,2) uniq] ents by simp
  then show thesis using that [OF un tt] t'(2) un' by (simp add: rm_kSlots_pow)
qed

lemma rm_evict_law:
  assumes inv: "rm_inv m" and full: "rm_tail m - rm_head m = rm_N m"
  shows "rm_inv (rm_evict m) \<and> rm_list (rm_evict m) = tl (rm_list m) \<and> rm_bits (rm_evict m) = rm_bits m \<and>
    rm_keys (rm_evict m) = rm_keys m \<and> rm_live (rm_evict m) \<subseteq> rm_live m"
proof -
  let ?p = "rm_slot m (rm_head m)" and ?m1 = "m\<lparr>rm_head := rm_head m + 1\<rparr>"
  have bits: "rm_bits m \<le> 31" using inv by (simp add: rm_inv_def)
  have ne: "rm_tail m \<noteq> rm_head m"
    using full unat_pow [of "rm_bits m"] bits by (auto simp: rm_N_def)
  note live = rm_live_split [OF inv ne]
  have pl: "?p \<in> rm_live m" using live(1) by blast
  have lp: "rm_live m - {?p} = rm_live ?m1" using live by blast
  obtain t' where t': "rm_unindex m (rm_hash (rm_keys m ?p)) ?p = m\<lparr>rm_index := rm_untable t'\<rparr>"
    "rm_table (rm_untable t') = t'" "well_probed (rm_kSlots m) (rm_home (rm_kSlotBits m)) t'"
    "key_unique (rm_kSlots m) rm_low t'"
    "entries (rm_kSlots m) t' = (\<lambda>p. rm_word (rm_hash (rm_keys m p)) p) ` (rm_live m - {?p})"
    by (rule rm_unindex_law [OF inv pl])
  have ev: "rm_evict m = m\<lparr>rm_index := rm_untable t', rm_head := rm_head m + 1\<rparr>"
    using full t'(1) by (simp add: rm_evict_def Let_def)
  have lv: "rm_live (rm_evict m) = rm_live ?m1" by (simp add: ev rm_live_def)
  have ring: "rm_ring (rm_evict m) = (rm_ring m)\<lparr>rb_head := rb_head (rm_ring m) + 1\<rparr>" by (simp add: ev rm_ring_def)
  have "rb_list (rm_ring m) \<noteq> []" using ne by (simp add: rb_list_def unat_eq_0)
  note d = rb_drop_list [OF rm_ring_inv [OF inv] this, folded ring]
  have "inj_on (rm_keys m) (rm_live ?m1)" using inv live(1) by (simp add: rm_inv_def inj_on_insert)
  moreover have "unat (rm_tail m - (rm_head m + 1)) \<le> 2 ^ rm_bits m" using d by (simp add: rb_inv_def ev)
  ultimately have "rm_inv (rm_evict m)"
    unfolding rm_inv_def lv using bits t'(2-5) lp by (simp add: ev rm_kSlots_def rm_kSlotBits_def)
  moreover have "rm_list (rm_evict m) = tl (rm_list m)" using d by (simp add: rm_list_def)
  ultimately show ?thesis using lv live(1) by (auto simp: ev)
qed

lemma rm_add_law:
  assumes inv: "rm_inv m" and room: "unat (rm_tail m - rm_head m) < 2 ^ rm_bits m"
    and new: "k \<notin> rm_keys m ` rm_live m"
  shows "rm_inv (rm_add m k v) \<and> rm_list (rm_add m k v) = rm_list m @ [(k, v)] \<and> rm_bits (rm_add m k v) = rm_bits m"
proof -
  let ?c = "rm_kSlotBits m" and ?n = "2 ^ rm_kSlotBits m :: nat" and ?t = "rm_table (rm_index m)"
  let ?h = "rm_home (rm_kSlotBits m) (rm_hash k)" and ?p = "rm_slot m (rm_tail m)"
  let ?s = "unat (rm_tail m - rm_head m)" and ?N = "2 ^ rm_bits m :: nat"
  let ?w = "rm_word (rm_hash k) (rm_slot m (rm_tail m))"
  have gap: "\<exists>p<?n. ?t p = None" using rm_gap [OF inv] by (simp add: rm_kSlots_pow)
  obtain i where i0: "i < ?n" "\<forall>q<?n. cdist ?n ?h q < cdist ?n ?h i \<longrightarrow> (\<exists>e. ?t q = Some e \<and> \<not> False)"
    "case ?t i of None \<Rightarrow> lp_probe ?n ?n ?t (\<lambda>s. False) ?h = Vacant i
     | Some e \<Rightarrow> False \<and> lp_probe ?n ?n ?t (\<lambda>s. False) ?h = Found i"
    by (rule rm_index.lp_probe_total [OF rm_home_lt gap, of _ "\<lambda>s. False"])
  then have i: "?t i = None" "lp_probe ?n ?n ?t (\<lambda>s. False) ?h = Vacant i" by (auto split: option.splits)
  have add: "rm_add m k v = m\<lparr>rm_keys := (rm_keys m)(?p := k), rm_values := (rm_values m)(?p := v),
      rm_tail := rm_tail m + 1, rm_index := (rm_index m)(i := ?w)\<rparr>" (is "_ = ?m'")
    using i(2) by (simp add: rm_add_def Let_def rm_kSlots_pow)
  have bits: "rm_bits m \<le> 31" using inv by (simp add: rm_inv_def)
  have ring: "rm_ring ?m' = rb_write (rm_ring m) (k, v)"
    by (simp add: rb_write_def) (auto simp: rm_ring_def rb_slot_def rm_slot_def rb_N_def rm_N_def)
  have l: "length (rb_list (rm_ring m)) < 2 ^ rb_bits (rm_ring m)" using room by (simp add: rb_length)
  note wl = rb_write_list [OF rm_ring_inv [OF inv] l, of "(k, v)", folded ring]
  have ptail: "?p = (unat (rm_head m) + ?s) mod ?N" using rb_tail_slot [OF rm_ring_inv [OF inv]] by simp
  have pN: "?p < ?N" by (simp add: ptail)
  then have p31: "?p < 2 ^ 31" using bits power_increasing [of "rm_bits m" 31 "2::nat"] by linarith
  have pnew: "?p \<notin> rm_live m"
  proof
    assume "?p \<in> rm_live m"
    then obtain j where "j < ?s" "(unat (rm_head m) + j) mod ?N = (unat (rm_head m) + ?s) mod ?N"
      unfolding ptail by (auto simp: rm_live_def)
    then show False using mod_distinct [of j ?s ?N] room by simp
  qed
  have ts: "unat (rm_tail m + 1 - rm_head m) = Suc ?s"
    using unat_size_succ [OF rm_ring_inv [OF inv]] room by (simp add: algebra_simps)
  have live: "rm_live ?m' = insert ?p (rm_live m)"
    by (simp add: rm_live_def ts lessThan_Suc ptail)
  have w0: "?w \<noteq> 0" using rm_word_nonzero [OF p31] .
  have low: "rm_low ?w = ?p + 1" using rm_word_low [OF p31] .
  have tbl: "rm_table ((rm_index m)(i := ?w)) = ?t(i := Some ?w)" using w0 by (auto simp: rm_table_def fun_eq_iff)
  have "rm_home ?c ?w = ?h" using p31 bits by (intro rm_word_home) (auto simp: rm_kSlotBits_def)
  then have wp: "well_probed ?n (rm_home ?c) (?t(i := Some ?w))"
    using well_probed_add [of ?n "rm_home ?c" ?t ?w i] inv i0 by (auto simp: rm_inv_def rm_kSlots_pow)
  have "rm_low s \<noteq> rm_low ?w" if "q < ?n" "?t q = Some s" for q s
  proof -
    have "q < rm_kSlots m" using that by (simp add: rm_kSlots_pow)
    from rm_entry [OF inv this that(2)] obtain r where "r \<in> rm_live m" "rm_low s = r + 1" by blast
    then show ?thesis using low pnew by auto
  qed
  then have un: "key_unique ?n rm_low (?t(i := Some ?w))"
    using inv by (auto simp: rm_inv_def rm_kSlots_pow intro: key_unique_add)
  have en: "entries ?n (?t(i := Some ?w)) = insert ?w ((\<lambda>p. rm_word (rm_hash (rm_keys m p)) p) ` rm_live m)"
    using entries_add [of i ?n ?t ?w] i0(1) i(1) inv by (simp add: rm_inv_def rm_kSlots_pow)
  have "inj_on ((rm_keys m)(?p := k)) (insert ?p (rm_live m))"
    using inv pnew new by (auto simp: rm_inv_def inj_on_def)
  moreover have "(\<lambda>q. rm_word (rm_hash (((rm_keys m)(?p := k)) q)) q) ` insert ?p (rm_live m) =
      insert ?w ((\<lambda>p. rm_word (rm_hash (rm_keys m p)) p) ` rm_live m)"
  proof -
    have "(\<lambda>q. rm_word (rm_hash (((rm_keys m)(?p := k)) q)) q) ` rm_live m =
        (\<lambda>p. rm_word (rm_hash (rm_keys m p)) p) ` rm_live m"
      by (rule image_cong) (use pnew in auto)
    then show ?thesis by simp
  qed
  ultimately have "rm_inv ?m'"
    unfolding rm_inv_def live using bits ts room wp un en tbl
    by (simp add: rm_kSlots_pow rm_kSlotBits_def)
  then show ?thesis using wl unfolding add by (simp add: rm_list_def)
qed

lemma rm_assign_refines:
  assumes inv: "rm_inv m" and a: "rm_assign m k v = (m', fresh)"
  shows "rm_inv m' \<and> (rm_list m', fresh) = recent_assign (2 ^ rm_bits m) (rm_list m) k v \<and> rm_bits m' = rm_bits m"
proof (cases "rm_find_pos m k")
  case (Some p)
  then have "k \<in> fst ` set (rm_list m)" using rm_find_pos_iff [OF inv] by (force simp: rm_list_keys)
  then show ?thesis
    using a Some rm_overwrite [OF inv Some refl, of v] by (auto simp: rm_assign_def recent_assign_def)
next
  case None
  then have new: "k \<notin> rm_keys m ` rm_live m" using rm_find_pos_iff [OF inv, of k] by auto
  then have nk: "k \<notin> fst ` set (rm_list m)" by (simp add: rm_list_keys)
  have m': "m' = rm_add (rm_evict m) k v" "fresh" using a None by (auto simp: rm_assign_def)
  have len: "length (rm_list m) = unat (rm_tail m - rm_head m)" by (simp add: rm_list_eq)
  have b63: "rm_bits m \<le> 63" using inv by (simp add: rm_inv_def)
  have full: "rm_tail m - rm_head m = rm_N m \<longleftrightarrow> length (rm_list m) = 2 ^ rm_bits m"
    unfolding len word_unat_eq_iff rm_N_def unat_pow [OF b63] ..
  show ?thesis
  proof (cases "rm_tail m - rm_head m = rm_N m")
    case True
    note ev = rm_evict_law [OF inv True]
    have "length (rm_list (rm_evict m)) < 2 ^ rm_bits m" using ev True full by simp
    then have "unat (rm_tail (rm_evict m) - rm_head (rm_evict m)) < 2 ^ rm_bits (rm_evict m)"
      using ev by (simp add: rm_list_eq)
    moreover have "k \<notin> rm_keys (rm_evict m) ` rm_live (rm_evict m)" using ev new by auto
    ultimately show ?thesis
      using rm_add_law [of "rm_evict m" k v] ev m' nk True full by (simp add: recent_assign_def)
  next
    case False
    then have "unat (rm_tail m - rm_head m) < 2 ^ rm_bits m" using inv full len by (simp add: rm_inv_def)
    then show ?thesis
      using rm_add_law [OF inv _ new] m' nk False full by (simp add: recent_assign_def rm_evict_def)
  qed
qed

lemma map_of_unique: "(k, v) \<in> set xs \<Longrightarrow> (\<And>w. (k, w) \<in> set xs \<Longrightarrow> w = v) \<Longrightarrow> map_of xs k = Some v"
  by (metis map_of_SomeD map_of_eq_None_iff not_Some_eq option.sel fst_conv image_eqI)

lemma rm_find_map_of:
  assumes inv: "rm_inv m"
  shows "rm_find m k = map_of (rm_list m) k"
proof (cases "rm_find_pos m k")
  case None
  then have "k \<notin> fst ` set (rm_list m)" using rm_find_pos_iff [OF inv, of k] by (auto simp: rm_list_keys)
  then show ?thesis using None by (simp add: rm_find_def map_of_eq_None_iff [symmetric])
next
  case (Some p)
  then have p: "p \<in> rm_live m" "rm_keys m p = k" using rm_find_pos_iff [OF inv] by auto
  have "map_of (rm_list m) k = Some (rm_values m p)"
  proof (rule map_of_unique)
    show "(k, rm_values m p) \<in> set (rm_list m)" using p by (auto simp: rm_list_set)
    fix w assume "(k, w) \<in> set (rm_list m)"
    then obtain q where q: "q \<in> rm_live m" "rm_keys m q = k" "w = rm_values m q" by (auto simp: rm_list_set)
    then have "q = p" using inv p unfolding rm_inv_def inj_on_def by blast
    then show "w = rm_values m p" using q by simp
  qed
  then show ?thesis using Some by (simp add: rm_find_def)
qed

lemma rm_new_inv: "b \<le> 31 \<Longrightarrow> rm_inv (rm_new b zero) \<and> rm_list (rm_new b zero) = []"
  by (simp add: rm_inv_def rm_new_def rm_live_def well_probed_def key_unique_def rm_table_def entries_def rm_list_eq)

section \<open>Properties\<close>

text \<open>A recent map holds the last \<open>N\<close> distinct keys in insertion order. An assignment
  overwrites the value of a key it holds, and otherwise appends the key and, when full, drops
  the oldest one and no other; it reports which of the two happened; lookups agree with the
  list. The hash index with its backward-shift deletion is invisible.\<close>

theorem recent_map_refines:
  assumes "rm_inv m" and "rm_assign m k v = (m', fresh)"
  shows "rm_inv m' \<and> (rm_list m', fresh) = recent_assign (2 ^ rm_bits m) (rm_list m) k v \<and>
    rm_find m' j = map_of (rm_list m') j"
  using rm_assign_refines [OF assms] rm_find_map_of [of m' j] by simp

theorem recent_map_refines_witness:
  "rm_find (fst (rm_assign (rm_new 1 False) 7 True)) 7 = Some True"
proof -
  define r where "r = rm_assign (rm_new 1 False) 7 True"
  have new: "rm_inv (rm_new 1 False)" "rm_list (rm_new 1 False) = []" using rm_new_inv [of 1 False] by auto
  have "rm_assign (rm_new 1 False) 7 True = (fst r, snd r)" by (simp only: r_def prod.collapse)
  from recent_map_refines [OF new(1) this, of 7] have "rm_find (fst r) 7 = Some True"
    unfolding new(2) by (simp add: recent_assign_def rm_new_def)
  then show ?thesis by (simp only: r_def)
qed

end
