(* ===== verification/Order.thy ===== *)
theory Order
  imports FixedPoint Pool
begin

text \<open>
  The order record of \<^verbatim>\<open>include/fastmm/core/order.hpp\<close>, the requests that create orders, and
  the order messages of \<^verbatim>\<open>include/fastmm/core/messages.hpp\<close> that the order manager consumes.
  Identifiers: a client order id is its 64-bit value, 0 the invalid one; instruments and venues
  are numbers, 255 the invalid venue. Times are nanoseconds, 0 the invalid time. Message fields
  that only the transport, the journal or the store reads are left out.
\<close>

type_synonym cl_ord_id = u64
type_synonym instrument_id = nat
type_synonym venue_id = nat
type_synonym timestamp = int
type_synonym duration = int

definition kMaxInstruments :: nat where "kMaxInstruments = 256"

definition venue_invalid :: venue_id where
  "venue_invalid = 255"

section \<open>Client order ids\<close>

definition make_cl_ord_id :: "nat \<Rightarrow> nat \<Rightarrow> cl_ord_id" where
  "make_cl_ord_id epoch sq = push_bit 32 (of_nat epoch) OR of_nat sq"

definition cl_ord_id_epoch :: "cl_ord_id \<Rightarrow> nat" where
  "cl_ord_id_epoch cid = unat (drop_bit 32 cid AND 0xFFFF)"

definition cl_ord_id_seq :: "cl_ord_id \<Rightarrow> nat" where
  "cl_ord_id_seq cid = unat (cid AND 0xFFFFFFFF)"

section \<open>Orders\<close>

text \<open>\<^verbatim>\<open>Order::Flags\<close>\<close>

definition kPostOnly :: "8 word" where "kPostOnly = 1"
definition kReduceOnly :: "8 word" where "kReduceOnly = 2"
definition kUnsolicitedCancel :: "8 word" where "kUnsolicitedCancel = 4"
definition kReconciled :: "8 word" where "kReconciled = 8"
definition kSeenInReconcile :: "8 word" where "kSeenInReconcile = 16"
definition kSynthetic :: "8 word" where "kSynthetic = 32"
definition kReplaceOldCanceled :: "8 word" where "kReplaceOldCanceled = 64"

record order =
  o_cl_ord_id :: cl_ord_id
  o_venue_order_id :: string
  o_arm :: nat
  o_instrument :: instrument_id
  o_venue :: venue_id
  o_side :: side
  o_type :: order_type
  o_tif :: time_in_force
  o_state :: order_state
  o_reject_reason :: reject_reason
  o_flags :: "8 word"
  o_cancel_attempts :: "8 word"
  o_user_tag :: nat
  o_price :: price
  o_qty :: qty
  o_cum_qty :: qty
  o_created :: timestamp
  o_pending_cl_ord_id :: cl_ord_id
  o_pending_price :: price
  o_pending_qty :: qty

text \<open>\<^verbatim>\<open>Order{}\<close>: every member zero or its default.\<close>

definition order_zero :: order where
  "order_zero =
     \<lparr>o_cl_ord_id = 0, o_venue_order_id = [], o_arm = 0, o_instrument = 4294967295,
      o_venue = venue_invalid, o_side = Buy, o_type = Limit, o_tif = Gtc, o_state = PendingNew,
      o_reject_reason = NoReject, o_flags = 0, o_cancel_attempts = 0, o_user_tag = 0, o_price = 0,
      o_qty = 0, o_cum_qty = 0, o_created = 0, o_pending_cl_ord_id = 0, o_pending_price = 0,
      o_pending_qty = 0\<rparr>"

definition leaves_qty :: "order \<Rightarrow> qty" where
  "leaves_qty ord = o_qty ord - o_cum_qty ord"

definition is_open :: "order \<Rightarrow> bool" where
  "is_open ord \<longleftrightarrow> \<not> is_terminal (o_state ord)"

definition is_working :: "order \<Rightarrow> bool" where
  "is_working ord \<longleftrightarrow> o_state ord = Live \<or> o_state ord = PartiallyFilled"

definition order_has :: "order \<Rightarrow> 8 word \<Rightarrow> bool" where
  "order_has ord f \<longleftrightarrow> o_flags ord AND f \<noteq> 0"

text \<open>The state an order is in once nothing is pending.\<close>

definition working_state :: "qty \<Rightarrow> order_state" where
  "working_state cum = (if cum = 0 then Live else PartiallyFilled)"

record order_times =
  ot_sent :: timestamp
  ot_venue_ack :: timestamp
  ot_local_ack :: timestamp

definition times_zero :: order_times where
  "times_zero = \<lparr>ot_sent = 0, ot_venue_ack = 0, ot_local_ack = 0\<rparr>"

section \<open>Requests\<close>

text \<open>The worth of an order in the quote currency, a \<^verbatim>\<open>float\<close> that the order manager does not
  read, is left out.\<close>

record new_order_request =
  nr_instrument :: instrument_id
  nr_venue :: venue_id
  nr_account :: venue_id
  nr_side :: side
  nr_type :: order_type
  nr_tif :: time_in_force
  nr_post_only :: bool
  nr_reduce_only :: bool
  nr_price :: price
  nr_qty :: qty
  nr_user_tag :: nat

text \<open>\<^verbatim>\<open>NewOrderRequest::limit\<close> and the builder methods.\<close>

definition limit_order :: "instrument_id \<Rightarrow> side \<Rightarrow> price \<Rightarrow> qty \<Rightarrow> new_order_request" where
  "limit_order inst s p q =
     \<lparr>nr_instrument = inst, nr_venue = venue_invalid, nr_account = venue_invalid, nr_side = s,
      nr_type = Limit, nr_tif = Gtc, nr_post_only = False, nr_reduce_only = False,
      nr_price = p, nr_qty = q, nr_user_tag = 0\<rparr>"

definition lo_post_only :: "new_order_request \<Rightarrow> new_order_request" where
  "lo_post_only r = r\<lparr>nr_type := PostOnly, nr_post_only := True\<rparr>"

definition lo_reduce_only :: "new_order_request \<Rightarrow> new_order_request" where
  "lo_reduce_only r = r\<lparr>nr_reduce_only := True\<rparr>"

definition lo_ioc :: "new_order_request \<Rightarrow> new_order_request" where
  "lo_ioc r = r\<lparr>nr_tif := Ioc\<rparr>"

definition lo_tag :: "nat \<Rightarrow> new_order_request \<Rightarrow> new_order_request" where
  "lo_tag t r = r\<lparr>nr_user_tag := t\<rparr>"

definition lo_account :: "venue_id \<Rightarrow> new_order_request \<Rightarrow> new_order_request" where
  "lo_account v r = r\<lparr>nr_account := v\<rparr>"

section \<open>Messages\<close>

record event_header =
  eh_venue :: venue_id
  eh_flags :: "8 word"
  eh_instrument :: instrument_id
  eh_exch_ts :: timestamp
  eh_recv_ts :: timestamp

record order_ack_msg =
  am_hdr :: event_header
  am_cl_ord_id :: cl_ord_id
  am_venue_order_id :: string
  am_amended_in_place :: bool

record order_reject_msg =
  jm_cl_ord_id :: cl_ord_id
  jm_reason :: reject_reason

record order_cancel_ack_msg =
  cm_cl_ord_id :: cl_ord_id
  cm_cum_qty :: qty

record order_cancel_reject_msg =
  crm_cl_ord_id :: cl_ord_id
  crm_reason :: reject_reason

record order_fill_msg =
  fmsg_hdr :: event_header
  fmsg_cl_ord_id :: cl_ord_id
  fmsg_venue_order_id :: string
  fmsg_exec_id :: string
  fmsg_price :: price
  fmsg_qty :: qty
  fmsg_cum_qty :: qty
  fmsg_side :: side
  fmsg_replayed :: bool

record order_expired_msg =
  em_cl_ord_id :: cl_ord_id
  em_cum_qty :: qty

record reconcile_msg =
  rcm_cl_ord_id :: cl_ord_id
  rcm_venue_order_id :: string
  rcm_cum_qty :: qty

text \<open>\<^verbatim>\<open>FixedString::hash\<close>: FNV-1a over the bytes.\<close>

fun fnv1a :: "u64 \<Rightarrow> string \<Rightarrow> u64" where
  "fnv1a h [] = h"
| "fnv1a h (c # cs) = fnv1a ((h XOR of_nat (of_char c)) * 1099511628211) cs"

definition fixed_string_hash :: "string \<Rightarrow> u64" where
  "fixed_string_hash s = fnv1a 14695981039346656037 s"

end
