(* ===== verification/Oms.thy ===== *)
theory Oms
  imports Order OpenHashMap BucketBits RingBuffer RecentMap
begin

text \<open>
  \<^verbatim>\<open>include/fastmm/core/oms.hpp\<close>: the order manager. The state is a record with the members of
  \<^verbatim>\<open>Oms\<close>, each container being the model of the class the member has; every public operation and
  every private helper is a definition of the same name. A handler takes the state and a message
  and returns the new state and the \<^verbatim>\<open>OmsUpdate\<close>; a reference to an order is its handle, read with
  \<open>order_at\<close> and written with \<open>upd_order\<close>. Capacities are parameters of \<open>oms_make\<close>;
  \<open>oms_new\<close> takes those of the code. Counters are unbounded integers. The callbacks of
  \<^verbatim>\<open>reconcile_end\<close> and \<^verbatim>\<open>sweep_pending\<close> may act on the order manager, so they are functions on
  its state and the state of the rest of the engine.
\<close>

definition kMaxSeq :: nat where "kMaxSeq = 4294967295"
definition kTerminalRef :: u32 where "kTerminalRef = 0x80000000"

section \<open>State\<close>

datatype oms_action = NoAction | Ignored | Duplicate | CancelUnknown | LateFill | UnknownFill | ReconcileNeeded

record oms_update =
  u_order :: order
  u_handle :: nat
  u_prev :: order_state
  u_action :: oms_action
  u_known :: bool
  u_changed :: bool
  u_terminal :: bool
  u_refused :: reject_reason
  u_fill_qty :: qty
  u_fill_px :: price
  u_missed_qty :: qty
  u_replaced_cl_ord_id :: cl_ord_id
  u_unresolved_qty :: qty
  u_corrected_qty :: qty
  u_synthetic_px :: price
  u_forgotten_qty :: qty
  u_forgotten_id :: cl_ord_id
  u_times :: order_times
  u_slot :: nat

definition update_zero :: oms_update where
  "update_zero =
     \<lparr>u_order = order_zero, u_handle = kNullHandle, u_prev = PendingNew, u_action = NoAction,
      u_known = False, u_changed = False, u_terminal = False, u_refused = NoReject, u_fill_qty = 0,
      u_fill_px = 0, u_missed_qty = 0, u_replaced_cl_ord_id = 0, u_unresolved_qty = 0,
      u_corrected_qty = 0, u_synthetic_px = 0, u_forgotten_qty = 0, u_forgotten_id = 0,
      u_times = times_zero, u_slot = kNullHandle\<rparr>"

record oms_stats =
  st_open :: int
  st_submitted :: int
  st_acked :: int
  st_rejected :: int
  st_canceled :: int
  st_filled :: int
  st_fills :: int
  st_expired :: int
  st_unknown_ids :: int
  st_duplicates :: int
  st_late_fills :: int
  st_unsolicited_cancels :: int
  st_missed_fills :: int
  st_corrected_fills :: int
  st_synthetic_pending :: int
  st_synthetic_forgotten :: int
  st_ack_timeouts :: int
  st_reconcile_unresolved :: int

definition stats_zero :: oms_stats where
  "stats_zero =
     \<lparr>st_open = 0, st_submitted = 0, st_acked = 0, st_rejected = 0, st_canceled = 0, st_filled = 0,
      st_fills = 0, st_expired = 0, st_unknown_ids = 0, st_duplicates = 0, st_late_fills = 0,
      st_unsolicited_cancels = 0, st_missed_fills = 0, st_corrected_fills = 0,
      st_synthetic_pending = 0, st_synthetic_forgotten = 0, st_ack_timeouts = 0,
      st_reconcile_unresolved = 0\<rparr>"

datatype order_class = ClassOpen | ClassRecentlyTerminal | ClassUnknown

record estimate =
  es_qty :: qty
  es_price :: price

definition estimate_zero :: estimate where
  "estimate_zero = \<lparr>es_qty = 0, es_price = 0\<rparr>"

record terminal_record =
  tr_cl_ord_id :: cl_ord_id
  tr_price :: price
  tr_qty :: qty
  tr_cum_qty :: qty
  tr_instrument :: instrument_id
  tr_venue :: venue_id
  tr_state :: order_state
  tr_side :: side
  tr_by_reconcile :: bool
  tr_estimate :: estimate

definition terminal_zero :: terminal_record where
  "terminal_zero =
     \<lparr>tr_cl_ord_id = 0, tr_price = 0, tr_qty = 0, tr_cum_qty = 0, tr_instrument = 0, tr_venue = 0,
      tr_state = PendingNew, tr_side = Buy, tr_by_reconcile = False, tr_estimate = estimate_zero\<rparr>"

record reconcile_scope =
  rs_watermark :: cl_ord_id
  rs_bounded :: bool

record times_slot =
  tsl_times :: order_times
  tsl_replace_sent :: timestamp

record oms =
  om_epoch :: nat
  om_max_seq :: nat
  om_seq :: nat
  om_stats :: oms_stats
  om_pool :: "order pool"
  om_by_inst :: bucket_bits
  om_ids :: "u32 open_hash_map"
  om_ring :: "terminal_record ring_buffer"
  om_exec_seen :: "nat recent_map"
  om_best_own :: "instrument_id \<Rightarrow> side \<Rightarrow> price"
  om_open_qty :: "instrument_id \<Rightarrow> side \<Rightarrow> qty"
  om_open_per_inst :: "instrument_id \<Rightarrow> int"
  om_recon_scope :: "venue_id \<Rightarrow> reconcile_scope"
  om_times :: "nat \<Rightarrow> times_slot"
  om_estimates :: "nat \<Rightarrow> estimate"

definition oms_make :: "nat \<Rightarrow> nat \<Rightarrow> nat \<Rightarrow> nat \<Rightarrow> nat \<Rightarrow> nat \<Rightarrow> oms" where
  "oms_make cap ids_bits ring_bits exec_bits epoch max_seq =
     \<lparr>om_epoch = epoch, om_max_seq = max_seq, om_seq = 0, om_stats = stats_zero,
      om_pool = pool_new cap, om_by_inst = bb_new cap kMaxInstruments,
      om_ids = ohm_new ids_bits, om_ring = rb_new ring_bits (\<lambda>i. terminal_zero),
      om_exec_seen = rm_new exec_bits 0, om_best_own = (\<lambda>i sd. 0), om_open_qty = (\<lambda>i sd. 0),
      om_open_per_inst = (\<lambda>i. 0), om_recon_scope = (\<lambda>v. \<lparr>rs_watermark = 0, rs_bounded = False\<rparr>),
      om_times = (\<lambda>h. \<lparr>tsl_times = times_zero, tsl_replace_sent = 0\<rparr>),
      om_estimates = (\<lambda>h. estimate_zero)\<rparr>"

text \<open>\<^verbatim>\<open>Oms\<close> as the engine constructs it: 4096 open orders, 16384 id slots, 4096 recently terminal
  orders, 65536 executions.\<close>

definition oms_new :: "nat \<Rightarrow> nat \<Rightarrow> oms" where
  "oms_new = oms_make 4096 14 12 16"

definition order_at :: "oms \<Rightarrow> nat \<Rightarrow> order" where
  "order_at s h = (case pool_get (om_pool s) h of Some od \<Rightarrow> od | None \<Rightarrow> order_zero)"

definition upd_order :: "nat \<Rightarrow> (order \<Rightarrow> order) \<Rightarrow> oms \<Rightarrow> oms" where
  "upd_order h f s = s\<lparr>om_pool := pool_put (om_pool s) h (f (order_at s h))\<rparr>"

definition upd_stats :: "(oms_stats \<Rightarrow> oms_stats) \<Rightarrow> oms \<Rightarrow> oms" where
  "upd_stats f s = s\<lparr>om_stats := f (om_stats s)\<rparr>"

definition upd_times :: "nat \<Rightarrow> (times_slot \<Rightarrow> times_slot) \<Rightarrow> oms \<Rightarrow> oms" where
  "upd_times h f s = s\<lparr>om_times := (om_times s)(h := f (om_times s h))\<rparr>"

definition upd_estimate :: "nat \<Rightarrow> (estimate \<Rightarrow> estimate) \<Rightarrow> oms \<Rightarrow> oms" where
  "upd_estimate h f s = s\<lparr>om_estimates := (om_estimates s)(h := f (om_estimates s h))\<rparr>"

definition add_open_qty :: "instrument_id \<Rightarrow> side \<Rightarrow> qty \<Rightarrow> oms \<Rightarrow> oms" where
  "add_open_qty i sd d s =
     s\<lparr>om_open_qty := (om_open_qty s)(i := (om_open_qty s i)(sd := om_open_qty s i sd + d))\<rparr>"

definition set_best_own :: "instrument_id \<Rightarrow> side \<Rightarrow> price \<Rightarrow> oms \<Rightarrow> oms" where
  "set_best_own i sd p s = s\<lparr>om_best_own := (om_best_own s)(i := (om_best_own s i)(sd := p))\<rparr>"

definition add_open_count :: "instrument_id \<Rightarrow> int \<Rightarrow> oms \<Rightarrow> oms" where
  "add_open_count i d s =
     s\<lparr>om_stats := (om_stats s)\<lparr>st_open := st_open (om_stats s) + d\<rparr>,
       om_open_per_inst := (om_open_per_inst s)(i := om_open_per_inst s i + d)\<rparr>"

section \<open>Ids\<close>

definition next_cl_ord_id :: "oms \<Rightarrow> oms \<times> cl_ord_id" where
  "next_cl_ord_id s =
     (if om_seq s \<ge> om_max_seq s then (s, 0)
      else (s\<lparr>om_seq := om_seq s + 1\<rparr>, make_cl_ord_id (om_epoch s) (om_seq s + 1)))"

definition ids_left :: "oms \<Rightarrow> nat" where
  "ids_left s = om_max_seq s - om_seq s"

definition is_terminal_ref :: "u32 \<Rightarrow> bool" where
  "is_terminal_ref v \<longleftrightarrow> v AND kTerminalRef \<noteq> 0"

definition open_handle :: "oms \<Rightarrow> cl_ord_id \<Rightarrow> nat" where
  "open_handle s cid =
     (case ohm_find (om_ids s) cid of
        None \<Rightarrow> kNullHandle
      | Some v \<Rightarrow> if is_terminal_ref v then kNullHandle else unat v)"

definition add_open :: "oms \<Rightarrow> cl_ord_id \<Rightarrow> nat \<Rightarrow> oms \<times> bool" where
  "add_open s cid h =
     (case ohm_assign (om_ids s) cid (of_nat h) of (m, p) \<Rightarrow> (s\<lparr>om_ids := m\<rparr>, p \<noteq> None))"

definition drop_open :: "cl_ord_id \<Rightarrow> oms \<Rightarrow> oms" where
  "drop_open cid s =
     (case ohm_find (om_ids s) cid of
        Some v \<Rightarrow> if is_terminal_ref v then s else s\<lparr>om_ids := fst (ohm_erase (om_ids s) cid)\<rparr>
      | None \<Rightarrow> s)"

definition terminal_ref :: "'a ring_buffer \<Rightarrow> u64 \<Rightarrow> u32" where
  "terminal_ref r pos = kTerminalRef OR ucast (pos AND (rb_N r - 1))"

definition terminal_pos :: "oms \<Rightarrow> cl_ord_id \<Rightarrow> u64" where
  "terminal_pos s cid =
     (case ohm_find (om_ids s) cid of
        None \<Rightarrow> rb_tail (om_ring s)
      | Some v \<Rightarrow> if \<not> is_terminal_ref v then rb_tail (om_ring s)
          else rb_head (om_ring s) + ((ucast v - rb_head (om_ring s)) AND (rb_N (om_ring s) - 1)))"

text \<open>The buffer slot of the newest terminal record of an id.\<close>

definition find_terminal :: "oms \<Rightarrow> cl_ord_id \<Rightarrow> nat option" where
  "find_terminal s cid = rb_at_pos (om_ring s) (terminal_pos s cid)"

definition upd_terminal :: "nat \<Rightarrow> (terminal_record \<Rightarrow> terminal_record) \<Rightarrow> oms \<Rightarrow> oms" where
  "upd_terminal i f s =
     s\<lparr>om_ring := (om_ring s)\<lparr>rb_buf := (rb_buf (om_ring s))(i := f (rb_buf (om_ring s) i))\<rparr>\<rparr>"

definition remember_terminal :: "terminal_record \<Rightarrow> oms \<times> oms_update \<Rightarrow> oms \<times> oms_update" where
  "remember_terminal r su =
     (let (s1, u1) =
        (case su of (s, u) \<Rightarrow>
          if rb_full (om_ring s)
          then (let gone = rb_front (om_ring s);
                    (s', u') =
                      (if es_qty (tr_estimate gone) > 0
                       then (upd_stats (\<lambda>st. st\<lparr>st_synthetic_forgotten := st_synthetic_forgotten st + 1,
                                               st_synthetic_pending := st_synthetic_pending st - 1\<rparr>) s,
                             u\<lparr>u_forgotten_qty := es_qty (tr_estimate gone),
                               u_forgotten_id := tr_cl_ord_id gone\<rparr>)
                       else (s, u))
                in if ohm_find (om_ids s') (tr_cl_ord_id gone) =
                        Some (terminal_ref (om_ring s') (rb_head (om_ring s')))
                   then (s'\<lparr>om_ids := fst (ohm_erase (om_ids s') (tr_cl_ord_id gone))\<rparr>, u')
                   else (s', u'))
          else (s, u))
      in (s1\<lparr>om_ids := fst (ohm_assign (om_ids s1) (tr_cl_ord_id r)
                              (terminal_ref (om_ring s1) (rb_tail (om_ring s1)))),
             om_ring := rb_push (om_ring s1) r\<rparr>, u1))"

definition lookup :: "oms \<Rightarrow> cl_ord_id \<Rightarrow> oms_update \<Rightarrow> nat \<times> oms_update" where
  "lookup s cid u =
     (case ohm_find (om_ids s) cid of
        None \<Rightarrow> (kNullHandle, u)
      | Some v \<Rightarrow>
          if \<not> is_terminal_ref v then (unat v, u\<lparr>u_known := True, u_handle := unat v\<rparr>)
          else (kNullHandle,
            (case find_terminal s cid of
               None \<Rightarrow> u
             | Some i \<Rightarrow>
                 (let r = rb_buf (om_ring s) i; od = u_order u
                  in u\<lparr>u_known := True,
                       u_order := od\<lparr>o_cl_ord_id := tr_cl_ord_id r, o_instrument := tr_instrument r,
                         o_venue := tr_venue r, o_side := tr_side r, o_state := tr_state r,
                         o_price := tr_price r, o_qty := tr_qty r, o_cum_qty := tr_cum_qty r,
                         o_flags := (if tr_by_reconcile r then o_flags od OR kReconciled else o_flags od)\<rparr>\<rparr>))))"

definition classify :: "oms \<Rightarrow> cl_ord_id \<Rightarrow> order_class" where
  "classify s cid =
     (if open_handle s cid \<noteq> kNullHandle then ClassOpen
      else if find_terminal s cid \<noteq> None then ClassRecentlyTerminal else ClassUnknown)"

section \<open>Estimates\<close>

definition note_synthetic :: "nat \<Rightarrow> qty \<Rightarrow> price \<Rightarrow> oms \<Rightarrow> oms" where
  "note_synthetic h q px s =
     (let s1 = (if \<not> es_qty (om_estimates s h) > 0
                then upd_stats (\<lambda>st. st\<lparr>st_synthetic_pending := st_synthetic_pending st + 1\<rparr>) s else s)
      in upd_estimate h (\<lambda>e. \<lparr>es_qty = es_qty e + q, es_price = px\<rparr>) s1)"

definition absorb_cum :: "nat \<Rightarrow> qty \<Rightarrow> oms \<times> oms_update \<Rightarrow> oms \<times> oms_update" where
  "absorb_cum h reported su =
     (case su of (s, u) \<Rightarrow>
      let od = order_at s h; cum = (if reported > o_qty od then o_qty od else reported)
      in if cum \<le> o_cum_qty od then (s, u)
         else (let diff = cum - o_cum_qty od
               in (note_synthetic h diff (o_price od)
                     (upd_stats (\<lambda>st. st\<lparr>st_missed_fills := st_missed_fills st + 1\<rparr>)
                       (upd_order h (\<lambda>od. od\<lparr>o_cum_qty := cum\<rparr>)
                         (add_open_qty (o_instrument od) (o_side od) (- diff) s))),
                   u\<lparr>u_missed_qty := u_missed_qty u + diff, u_changed := True\<rparr>)))"

text \<open>The part of \<^verbatim>\<open>take_synthetic\<close> that acts on the estimate it found.\<close>

definition take_estimate :: "estimate \<Rightarrow> qty \<Rightarrow> estimate \<times> qty" where
  "take_estimate e q =
     (let c = (if q < es_qty e then q else es_qty e); rest = es_qty e - c
      in (if rest > 0 then e\<lparr>es_qty := rest\<rparr> else estimate_zero, c))"

definition take_synthetic :: "nat \<Rightarrow> cl_ord_id \<Rightarrow> qty \<Rightarrow> oms \<times> oms_update \<Rightarrow> oms \<times> oms_update" where
  "take_synthetic h cid q su =
     (case su of (s, u) \<Rightarrow>
      let found = (if h \<noteq> kNullHandle then Some (om_estimates s h)
                   else map_option (\<lambda>i. tr_estimate (rb_buf (om_ring s) i)) (find_terminal s cid))
      in case found of
           None \<Rightarrow> (s, u)
         | Some e \<Rightarrow>
             if \<not> es_qty e > 0 then (s, u)
             else (let (e', c) = take_estimate e q;
                       s1 = (if h \<noteq> kNullHandle then upd_estimate h (\<lambda>e. e') s
                             else (case find_terminal s cid of
                                     None \<Rightarrow> s
                                   | Some i \<Rightarrow> upd_terminal i (\<lambda>r. r\<lparr>tr_estimate := e'\<rparr>) s));
                       s2 = upd_stats (\<lambda>st. st\<lparr>st_corrected_fills := st_corrected_fills st + 1\<rparr>) s1;
                       s3 = (if \<not> es_qty e - c > 0
                             then upd_stats (\<lambda>st. st\<lparr>st_synthetic_pending := st_synthetic_pending st - 1\<rparr>) s2
                             else s2)
                   in (s3, u\<lparr>u_corrected_qty := c, u_synthetic_px := es_price e\<rparr>)))"

section \<open>Ending an order\<close>

definition best_step :: "side \<Rightarrow> price \<Rightarrow> price \<Rightarrow> price" where
  "best_step sd best px = (if best = 0 \<or> better sd px best then px else best)"

text \<open>Every slot of the instrument's bucket, in slot order.\<close>

definition recompute_best_own :: "instrument_id \<Rightarrow> side \<Rightarrow> oms \<Rightarrow> oms" where
  "recompute_best_own inst sd s =
     set_best_own inst sd
       (fold (\<lambda>h best. let od = order_at s h in
                if o_side od \<noteq> sd \<or> o_instrument od \<noteq> inst then best else best_step sd best (o_price od))
          (bb_scan (om_by_inst s) (bb_bucket (om_by_inst s) inst)) 0) s"

definition finish_update :: "oms \<Rightarrow> oms_update \<Rightarrow> nat \<Rightarrow> oms_update" where
  "finish_update s u h =
     u\<lparr>u_order := order_at s h, u_handle := h, u_times := tsl_times (om_times s h), u_slot := h\<rparr>"

definition record_of :: "oms \<Rightarrow> nat \<Rightarrow> order_state \<Rightarrow> bool \<Rightarrow> terminal_record" where
  "record_of s h end_state by_reconcile =
     (let od = order_at s h in
      \<lparr>tr_cl_ord_id = o_cl_ord_id od, tr_price = o_price od, tr_qty = o_qty od,
       tr_cum_qty = o_cum_qty od, tr_instrument = o_instrument od, tr_venue = o_venue od,
       tr_state = end_state, tr_side = o_side od, tr_by_reconcile = by_reconcile,
       tr_estimate = om_estimates s h\<rparr>)"

text \<open>\<^verbatim>\<open>drop_open\<close> of a pending id other than the order's own.\<close>

definition drop_pending :: "order \<Rightarrow> oms \<Rightarrow> oms" where
  "drop_pending od s =
     (if o_pending_cl_ord_id od \<noteq> 0 \<and> o_pending_cl_ord_id od \<noteq> o_cl_ord_id od
      then drop_open (o_pending_cl_ord_id od) s else s)"

definition order_clear_pending :: "order \<Rightarrow> order" where
  "order_clear_pending od =
     od\<lparr>o_pending_cl_ord_id := 0, o_pending_price := 0, o_pending_qty := 0,
        o_flags := o_flags od AND NOT kReplaceOldCanceled\<rparr>"

definition clear_pending :: "nat \<Rightarrow> oms \<Rightarrow> oms" where
  "clear_pending h s = upd_order h order_clear_pending (drop_pending (order_at s h) s)"

definition terminate :: "nat \<Rightarrow> order_state \<Rightarrow> bool \<Rightarrow> oms \<times> oms_update \<Rightarrow> oms \<times> oms_update" where
  "terminate h final by_reconcile su =
     (case su of (s0, u0) \<Rightarrow>
      let s1 = upd_order h (\<lambda>od. od\<lparr>o_state := final\<rparr>) s0;
          od = order_at s1 h;
          s2 = (if final = Canceled
                then upd_stats (\<lambda>st. st\<lparr>st_canceled := st_canceled st + 1\<rparr>) s1 else s1);
          s3 = add_open_count (o_instrument od) (- 1) s2;
          s4 = add_open_qty (o_instrument od) (o_side od) (- leaves_qty od) s3;
          s5 = drop_pending od s4;
          (s6, u6) = remember_terminal (record_of s5 h final by_reconcile) (s5, u0);
          s7 = upd_estimate h (\<lambda>e. estimate_zero) s6;
          u7 = u6\<lparr>u_order := od, u_handle := kNullHandle, u_times := tsl_times (om_times s7 h),
                  u_slot := h, u_changed := True, u_terminal := True\<rparr>;
          s8 = s7\<lparr>om_by_inst := bb_clear (om_by_inst s7) (bb_bucket (om_by_inst s7) (o_instrument od)) h,
                  om_pool := pool_free (om_pool s7) h\<rparr>;
          s9 = (if o_price od = om_best_own s8 (o_instrument od) (o_side od)
                then recompute_best_own (o_instrument od) (o_side od) s8 else s8)
      in (s9, u7))"

text \<open>The old leg of a cancel-replace that holds an estimate keeps a terminal record.\<close>

definition keep_old_leg :: "nat \<Rightarrow> oms \<times> oms_update \<Rightarrow> oms \<times> oms_update" where
  "keep_old_leg h su =
     (case su of (s, u) \<Rightarrow>
      if es_qty (om_estimates s h) > 0
      then (let od = order_at s h; end_state = (if o_cum_qty od \<ge> o_qty od then Filled else Canceled);
                (s', u') = remember_terminal (record_of s h end_state False) (s, u)
            in (upd_estimate h (\<lambda>e. estimate_zero) s', u'))
      else (s, u))"

text \<open>The order's own fields once its replacement is acknowledged, and the best own price then.\<close>

definition order_replace :: "bool \<Rightarrow> order \<Rightarrow> order" where
  "order_replace new_venue_order od =
     (let cum = (if new_venue_order then 0 else o_cum_qty od);
          cum' = (if cum > o_pending_qty od then o_pending_qty od else cum)
      in od\<lparr>o_cum_qty := cum', o_price := o_pending_price od, o_qty := o_pending_qty od,
            o_pending_cl_ord_id := 0, o_pending_price := 0, o_pending_qty := 0,
            o_flags := o_flags od AND NOT kReplaceOldCanceled, o_state := working_state cum'\<rparr>)"

definition replace_best :: "instrument_id \<Rightarrow> side \<Rightarrow> price \<Rightarrow> price \<Rightarrow> oms \<Rightarrow> oms" where
  "replace_best i sd old_px px s =
     (let best = om_best_own s i sd
      in if best = 0 \<or> better sd px best then set_best_own i sd px s
         else if old_px = best then recompute_best_own i sd s
         else s)"

definition apply_replace :: "nat \<Rightarrow> bool \<Rightarrow> bool \<Rightarrow> oms \<times> oms_update \<Rightarrow> oms \<times> oms_update" where
  "apply_replace h rekey new_venue_order su =
     (case su of (s0, u0) \<Rightarrow>
      let od = order_at s0 h; i = o_instrument od; sd = o_side od;
          s1 = add_open_qty i sd (- leaves_qty od) s0;
          (s2, u2) = (if rekey \<and> new_venue_order then keep_old_leg h (s1, u0) else (s1, u0));
          s3 = (if rekey
                then upd_order h (\<lambda>od. od\<lparr>o_cl_ord_id := o_pending_cl_ord_id od\<rparr>)
                       (drop_open (o_cl_ord_id od) s2)
                else s2);
          s4 = upd_order h (order_replace new_venue_order) s3;
          s5 = add_open_qty i sd (leaves_qty (order_at s4 h)) s4
      in (replace_best i sd (o_price od) (o_price (order_at s5 h)) s5, u2))"

definition late_cum :: "order_fill_msg \<Rightarrow> qty \<Rightarrow> terminal_record \<Rightarrow> qty" where
  "late_cum m corrected r =
     (let fresh = fmsg_qty m - corrected;
          cum = (if fmsg_cum_qty m > 0 then fmsg_cum_qty m else tr_cum_qty r + fresh)
      in if cum > tr_qty r then tr_qty r else cum)"

definition late_fill :: "order_fill_msg \<Rightarrow> oms \<times> oms_update \<Rightarrow> oms \<times> oms_update" where
  "late_fill m su =
     (case su of (s, u) \<Rightarrow>
      case find_terminal s (fmsg_cl_ord_id m) of
        None \<Rightarrow> (s, u)
      | Some i \<Rightarrow>
          let r = rb_buf (om_ring s) i;
              u1 = u\<lparr>u_prev := tr_state r\<rparr>;
              cum = late_cum m (u_corrected_qty u1) r
          in if cum \<le> tr_cum_qty r then (s, u1)
             else (let fills = (cum \<ge> tr_qty r \<and> (tr_state r = Canceled \<or> tr_state r = Expired));
                       r' = r\<lparr>tr_cum_qty := cum, tr_state := (if fills then Filled else tr_state r)\<rparr>;
                       s1 = upd_terminal i (\<lambda>r. r') s;
                       s2 = (if fills then upd_stats (\<lambda>st. st\<lparr>st_filled := st_filled st + 1\<rparr>) s1 else s1)
                   in (s2, u1\<lparr>u_order := (u_order u1)\<lparr>o_cum_qty := tr_cum_qty r', o_state := tr_state r'\<rparr>,
                              u_changed := True\<rparr>)))"

text \<open>The key an execution is remembered by.\<close>

definition exec_key :: "order_fill_msg \<Rightarrow> u64" where
  "exec_key m =
     fixed_string_hash (fmsg_exec_id m) XOR push_bit 1 (of_nat (eh_instrument (fmsg_hdr m))) XOR
     ((if fmsg_side m = Buy then 0 else 1) * 0x9E3779B97F4A7C15)"

definition remember_exec :: "order_fill_msg \<Rightarrow> oms \<Rightarrow> oms \<times> bool" where
  "remember_exec m s =
     (case rm_assign (om_exec_seen s) (exec_key m) 1 of (e, fresh) \<Rightarrow> (s\<lparr>om_exec_seen := e\<rparr>, fresh))"

section \<open>Outbound operations\<close>

definition new_order :: "new_order_request \<Rightarrow> cl_ord_id \<Rightarrow> timestamp \<Rightarrow> order" where
  "new_order req cid now =
     order_zero\<lparr>o_cl_ord_id := cid, o_instrument := nr_instrument req, o_venue := nr_venue req,
       o_side := nr_side req, o_type := nr_type req, o_tif := nr_tif req,
       o_flags := (if nr_post_only req then kPostOnly else 0) OR (if nr_reduce_only req then kReduceOnly else 0),
       o_state := PendingNew, o_price := nr_price req, o_qty := nr_qty req, o_created := now,
       o_user_tag := nr_user_tag req\<rparr>"

text \<open>\<^verbatim>\<open>submit\<close> once it has a slot and the id is mapped to it.\<close>

definition install_order :: "new_order_request \<Rightarrow> cl_ord_id \<Rightarrow> timestamp \<Rightarrow> nat \<Rightarrow> oms \<Rightarrow> oms" where
  "install_order req cid now h s1 =
     (let i = nr_instrument req; sd = nr_side req;
          s2 = s1\<lparr>om_by_inst := bb_set (om_by_inst s1) (bb_bucket (om_by_inst s1) i) h\<rparr>;
          s3 = upd_order h (\<lambda>_. new_order req cid now) s2;
          s4 = upd_times h (\<lambda>_. \<lparr>tsl_times = \<lparr>ot_sent = now, ot_venue_ack = 0, ot_local_ack = 0\<rparr>,
                                tsl_replace_sent = 0\<rparr>) s3;
          s5 = upd_estimate h (\<lambda>_. estimate_zero) s4;
          s6 = upd_stats (\<lambda>st. st\<lparr>st_submitted := st_submitted st + 1\<rparr>) s5;
          s7 = add_open_count i 1 s6;
          s8 = add_open_qty i sd (nr_qty req) s7
      in set_best_own i sd (best_step sd (om_best_own s8 i sd) (nr_price req)) s8)"

definition submit :: "new_order_request \<Rightarrow> cl_ord_id \<Rightarrow> timestamp \<Rightarrow> oms \<Rightarrow> oms \<times> (reject_reason + nat)" where
  "submit req cid now s =
     (if nr_instrument req \<ge> kMaxInstruments then (s, Inl InstrumentDisabled)
      else if open_handle s cid \<noteq> kNullHandle then (s, Inl DuplicateId)
      else
        let (p, h) = pool_allocate (om_pool s) in
        if h = kNullHandle then (s\<lparr>om_pool := p\<rparr>, Inl PoolExhausted)
        else
          let (s1, ok) = add_open (s\<lparr>om_pool := p\<rparr>) cid h in
          if \<not> ok then (s1\<lparr>om_pool := pool_free (om_pool s1) h\<rparr>, Inl PoolExhausted)
          else (install_order req cid now h s1, Inr h))"

definition request_cancel :: "nat \<Rightarrow> oms \<Rightarrow> oms \<times> reject_reason option" where
  "request_cancel h s =
     (if \<not> pool_is_live (om_pool s) h then (s, Some UnknownOrder)
      else if \<not> is_working (order_at s h) then (s, Some InvalidState)
      else (upd_order h (\<lambda>od. od\<lparr>o_state := PendingCancel\<rparr>) s, None))"

definition request_cancel_unacked :: "nat \<Rightarrow> oms \<Rightarrow> oms \<times> reject_reason option" where
  "request_cancel_unacked h s =
     (if \<not> pool_is_live (om_pool s) h then (s, Some UnknownOrder)
      else if o_state (order_at s h) \<noteq> PendingNew then (s, Some InvalidState)
      else (upd_order h (\<lambda>od. od\<lparr>o_state := PendingCancel\<rparr>) s, None))"

definition set_replace :: "nat \<Rightarrow> cl_ord_id \<Rightarrow> price \<Rightarrow> qty \<Rightarrow> timestamp \<Rightarrow> oms \<Rightarrow> oms" where
  "set_replace h new_id px q now s =
     upd_times h (\<lambda>t. t\<lparr>tsl_replace_sent := now\<rparr>)
       (upd_order h (\<lambda>od. od\<lparr>o_pending_cl_ord_id := new_id, o_pending_price := px, o_pending_qty := q,
                            o_state := PendingReplace\<rparr>) s)"

definition request_replace ::
  "nat \<Rightarrow> cl_ord_id \<Rightarrow> price \<Rightarrow> qty \<Rightarrow> timestamp \<Rightarrow> oms \<Rightarrow> oms \<times> reject_reason option" where
  "request_replace h new_id px q now s =
     (if \<not> pool_is_live (om_pool s) h then (s, Some UnknownOrder)
      else if \<not> is_working (order_at s h) then (s, Some InvalidState)
      else if new_id \<noteq> o_cl_ord_id (order_at s h) then
        (if open_handle s new_id \<noteq> kNullHandle then (s, Some DuplicateId)
         else case add_open s new_id h of (s1, ok) \<Rightarrow>
           if \<not> ok then (s1, Some PoolExhausted) else (set_replace h new_id px q now s1, None))
      else (set_replace h new_id px q now s, None))"

section \<open>Inbound messages\<close>

definition set_ack_times :: "nat \<Rightarrow> order_ack_msg \<Rightarrow> oms \<Rightarrow> oms" where
  "set_ack_times h m =
     upd_times h (\<lambda>t. t\<lparr>tsl_times := (tsl_times t)\<lparr>ot_venue_ack := eh_exch_ts (am_hdr m),
                                                ot_local_ack := eh_recv_ts (am_hdr m)\<rparr>\<rparr>)"

definition on_ack :: "order_ack_msg \<Rightarrow> oms \<Rightarrow> oms \<times> oms_update" where
  "on_ack m s =
     (case lookup s (am_cl_ord_id m) update_zero of (h, u0) \<Rightarrow>
      if h = kNullHandle then
        (if \<not> u_known u0
         then (upd_stats (\<lambda>st. st\<lparr>st_unknown_ids := st_unknown_ids st + 1\<rparr>) s, u0\<lparr>u_action := CancelUnknown\<rparr>)
         else if order_has (u_order u0) kReconciled then (s, u0\<lparr>u_action := CancelUnknown\<rparr>)
         else (s, u0\<lparr>u_action := Ignored\<rparr>))
      else
        let od = order_at s h; u = u0\<lparr>u_prev := o_state od\<rparr>;
            (s', u') =
              (case o_state od of
                 PendingNew \<Rightarrow>
                   (set_ack_times h m
                      (upd_stats (\<lambda>st. st\<lparr>st_acked := st_acked st + 1\<rparr>)
                        (upd_order h (\<lambda>od. od\<lparr>o_state := Live, o_venue_order_id := am_venue_order_id m\<rparr>) s)),
                    u\<lparr>u_changed := True\<rparr>)
               | PendingReplace \<Rightarrow>
                   if am_cl_ord_id m = o_pending_cl_ord_id od then
                     let old_id = o_cl_ord_id od; rekey = (o_pending_cl_ord_id od \<noteq> old_id);
                         (s1, u1) = apply_replace h rekey (rekey \<and> \<not> am_amended_in_place m) (s, u);
                         u2 = (if o_cl_ord_id (order_at s1 h) \<noteq> old_id
                               then u1\<lparr>u_replaced_cl_ord_id := old_id\<rparr> else u1);
                         s2 = upd_order h (\<lambda>od. od\<lparr>o_venue_order_id := am_venue_order_id m\<rparr>) s1
                     in (upd_times h (\<lambda>t. t\<lparr>tsl_times := \<lparr>ot_sent = tsl_replace_sent t,
                            ot_venue_ack = eh_exch_ts (am_hdr m), ot_local_ack = eh_recv_ts (am_hdr m)\<rparr>\<rparr>) s2,
                         u2\<lparr>u_changed := True\<rparr>)
                   else (s, u\<lparr>u_action := Ignored\<rparr>)
               | _ \<Rightarrow>
                   (if am_cl_ord_id m = o_cl_ord_id od \<and> ot_venue_ack (tsl_times (om_times s h)) = 0
                    then upd_times h (\<lambda>t. t\<lparr>tsl_times := (tsl_times t)\<lparr>ot_venue_ack := eh_exch_ts (am_hdr m)\<rparr>\<rparr>) s
                    else s,
                    u\<lparr>u_action := Ignored\<rparr>))
        in (s', finish_update s' u' h))"

definition on_reject :: "order_reject_msg \<Rightarrow> oms \<Rightarrow> oms \<times> oms_update" where
  "on_reject m s =
     (case lookup s (jm_cl_ord_id m) update_zero of (h, u0) \<Rightarrow>
      if h = kNullHandle then (s, u0\<lparr>u_action := Ignored\<rparr>)
      else
        let od = order_at s h; u = u0\<lparr>u_prev := o_state od\<rparr> in
        if o_state od = PendingNew then
          terminate h Rejected False
            (upd_stats (\<lambda>st. st\<lparr>st_rejected := st_rejected st + 1\<rparr>)
               (upd_order h (\<lambda>od. od\<lparr>o_reject_reason := jm_reason m\<rparr>) s),
             u\<lparr>u_refused := jm_reason m\<rparr>)
        else if o_state od = PendingReplace \<and> jm_cl_ord_id m = o_pending_cl_ord_id od then
          (let u1 = u\<lparr>u_refused := jm_reason m\<rparr> in
           if order_has od kReplaceOldCanceled then terminate h Canceled False (clear_pending h s, u1)
           else
             let s1 = upd_order h (\<lambda>od. od\<lparr>o_state := working_state (o_cum_qty od)\<rparr>) (clear_pending h s)
             in (s1, finish_update s1 (u1\<lparr>u_changed := True\<rparr>) h))
        else (s, finish_update s (u\<lparr>u_action := Ignored\<rparr>) h))"

definition on_cancel_ack :: "order_cancel_ack_msg \<Rightarrow> oms \<Rightarrow> oms \<times> oms_update" where
  "on_cancel_ack m s =
     (case lookup s (cm_cl_ord_id m) update_zero of (h, u0) \<Rightarrow>
      if h = kNullHandle then (s, u0\<lparr>u_action := Ignored\<rparr>)
      else
        let (s1, u1) = absorb_cum h (cm_cum_qty m) (s, u0\<lparr>u_prev := o_state (order_at s h)\<rparr>);
            od = order_at s1 h
        in if o_state od = PendingReplace \<and> cm_cl_ord_id m = o_cl_ord_id od then
             (let s2 = upd_order h (\<lambda>od. od\<lparr>o_flags := o_flags od OR kReplaceOldCanceled\<rparr>) s1
              in (s2, finish_update s2 u1 h))
           else if o_cum_qty od \<ge> o_qty od then
             terminate h Filled False (upd_stats (\<lambda>st. st\<lparr>st_filled := st_filled st + 1\<rparr>) s1, u1)
           else
             let s2 = (if o_state od \<noteq> PendingCancel
                       then upd_stats (\<lambda>st. st\<lparr>st_unsolicited_cancels := st_unsolicited_cancels st + 1\<rparr>)
                              (upd_order h (\<lambda>od. od\<lparr>o_flags := o_flags od OR kUnsolicitedCancel\<rparr>) s1)
                       else s1)
             in terminate h Canceled False (s2, u1))"

definition on_cancel_reject :: "order_cancel_reject_msg \<Rightarrow> oms \<Rightarrow> oms \<times> oms_update" where
  "on_cancel_reject m s =
     (case lookup s (crm_cl_ord_id m) update_zero of (h, u0) \<Rightarrow>
      if h = kNullHandle then (s, u0\<lparr>u_action := Ignored\<rparr>)
      else
        let od = order_at s h; u = u0\<lparr>u_prev := o_state od\<rparr> in
        if o_state od \<noteq> PendingCancel then (s, finish_update s (u\<lparr>u_action := Ignored\<rparr>) h)
        else if crm_reason m = VenueUnknownOrder then terminate h Canceled False (s, u)
        else
          let s1 = upd_order h (\<lambda>od. od\<lparr>o_state := working_state (o_cum_qty od),
                                       o_cancel_attempts := o_cancel_attempts od + 1\<rparr>) s;
              u1 = (if o_cancel_attempts (order_at s1 h) > 3 then u\<lparr>u_action := ReconcileNeeded\<rparr> else u)
          in (s1, finish_update s1 (u1\<lparr>u_changed := True\<rparr>) h))"

text \<open>The part of \<^verbatim>\<open>on_fill\<close> that takes the quantity an estimate already covers.\<close>

definition fill_covered :: "order_fill_msg \<Rightarrow> nat \<Rightarrow> oms \<times> oms_update \<Rightarrow> oms \<times> oms_update" where
  "fill_covered m h su =
     (case su of (s, u) \<Rightarrow>
      if st_synthetic_pending (om_stats s) \<noteq> 0 \<and> u_known u then
        if \<not> fmsg_replayed m \<and> fmsg_cum_qty m > 0 then
          (let booked = (if h \<noteq> kNullHandle then o_cum_qty (order_at s h) else o_cum_qty (u_order u));
               covered0 = booked - (fmsg_cum_qty m - fmsg_qty m);
               covered = (if covered0 > fmsg_qty m then fmsg_qty m else covered0)
           in if covered > 0 then take_synthetic h (fmsg_cl_ord_id m) covered (s, u) else (s, u))
        else if fmsg_replayed m \<or> h = kNullHandle then take_synthetic h (fmsg_cl_ord_id m) (fmsg_qty m) (s, u)
        else (s, u)
      else (s, u))"

definition fill_cum :: "order_fill_msg \<Rightarrow> qty \<Rightarrow> order \<Rightarrow> qty" where
  "fill_cum m corrected od =
     (let fresh = fmsg_qty m - corrected;
          cum0 = (if fmsg_cum_qty m > 0 then fmsg_cum_qty m else o_cum_qty od + fresh);
          cum1 = (if cum0 < o_cum_qty od then o_cum_qty od else cum0)
      in if cum1 > o_qty od then o_qty od else cum1)"

text \<open>The order takes the quantity of a fill.\<close>

definition book_fill :: "nat \<Rightarrow> order_fill_msg \<Rightarrow> qty \<Rightarrow> oms \<Rightarrow> oms" where
  "book_fill h m cum s =
     (let od = order_at s h
      in upd_order h (\<lambda>od. od\<lparr>o_cum_qty := cum,
             o_venue_order_id := (if o_venue_order_id od = [] then fmsg_venue_order_id m
                                  else o_venue_order_id od)\<rparr>)
           (add_open_qty (o_instrument od) (o_side od) (- (cum - o_cum_qty od)) s))"

definition on_fill :: "order_fill_msg \<Rightarrow> oms \<Rightarrow> oms \<times> oms_update" where
  "on_fill m s0 =
     (let u0 = update_zero\<lparr>u_fill_qty := fmsg_qty m, u_fill_px := fmsg_price m\<rparr>;
          (s, fresh_exec) = (if fmsg_exec_id m \<noteq> [] then remember_exec m s0 else (s0, True))
      in if \<not> fresh_exec
         then (upd_stats (\<lambda>st. st\<lparr>st_duplicates := st_duplicates st + 1\<rparr>) s, u0\<lparr>u_action := Duplicate\<rparr>)
         else
           let (h, u1) = lookup s (fmsg_cl_ord_id m) u0;
               (s2, u2) = fill_covered m h (s, u1);
               s3 = upd_stats (\<lambda>st. st\<lparr>st_fills := st_fills st + 1\<rparr>) s2
           in if h = kNullHandle then
                (if u_known u2
                 then late_fill m (upd_stats (\<lambda>st. st\<lparr>st_late_fills := st_late_fills st + 1\<rparr>) s3,
                                   u2\<lparr>u_action := LateFill\<rparr>)
                 else (upd_stats (\<lambda>st. st\<lparr>st_unknown_ids := st_unknown_ids st + 1\<rparr>) s3,
                       u2\<lparr>u_action := UnknownFill\<rparr>))
              else
                let od = order_at s3 h; cum = fill_cum m (u_corrected_qty u2) od;
                    s5 = book_fill h m cum s3;
                    u3 = u2\<lparr>u_prev := o_state od, u_changed := True\<rparr>
                in if cum \<ge> o_qty od
                   then terminate h Filled False (upd_stats (\<lambda>st. st\<lparr>st_filled := st_filled st + 1\<rparr>) s5, u3)
                   else
                     let s6 = (if o_state od = Live \<or> o_state od = PendingNew
                               then upd_order h (\<lambda>od. od\<lparr>o_state := PartiallyFilled\<rparr>) s5 else s5)
                     in (s6, finish_update s6 u3 h))"

definition on_expired :: "order_expired_msg \<Rightarrow> oms \<Rightarrow> oms \<times> oms_update" where
  "on_expired m s =
     (case lookup s (em_cl_ord_id m) update_zero of (h, u0) \<Rightarrow>
      if h = kNullHandle then (s, u0\<lparr>u_action := Ignored\<rparr>)
      else
        let (s1, u1) = absorb_cum h (em_cum_qty m) (s, u0\<lparr>u_prev := o_state (order_at s h)\<rparr>);
            od = order_at s1 h
        in if o_cum_qty od \<ge> o_qty od
           then terminate h Filled False (upd_stats (\<lambda>st. st\<lparr>st_filled := st_filled st + 1\<rparr>) s1, u1)
           else terminate h Expired False (upd_stats (\<lambda>st. st\<lparr>st_expired := st_expired st + 1\<rparr>) s1, u1))"

section \<open>Reconciliation, ack timeout and queries\<close>

definition in_scope :: "order \<Rightarrow> venue_id \<Rightarrow> bool" where
  "in_scope od v \<longleftrightarrow> v = venue_invalid \<or> o_venue od = v"

definition reconcile_begin :: "venue_id \<Rightarrow> cl_ord_id option \<Rightarrow> oms \<Rightarrow> oms" where
  "reconcile_begin v watermark s =
     (let s1 = s\<lparr>om_recon_scope := (om_recon_scope s)(v :=
                   \<lparr>rs_watermark = (case watermark of Some w \<Rightarrow> w | None \<Rightarrow> 0),
                    rs_bounded = (watermark \<noteq> None)\<rparr>)\<rparr>
      in fold (\<lambda>h s. if in_scope (order_at s h) v
                     then upd_order h (\<lambda>od. od\<lparr>o_flags := o_flags od AND NOT kSeenInReconcile\<rparr>) s else s)
           (pool_handles (om_pool s1)) s1)"

definition reconcile_open_order :: "reconcile_msg \<Rightarrow> oms \<Rightarrow> oms \<times> oms_update" where
  "reconcile_open_order m s =
     (case lookup s (rcm_cl_ord_id m) update_zero of (h, u0) \<Rightarrow>
      if h = kNullHandle
      then (upd_stats (\<lambda>st. st\<lparr>st_unknown_ids := st_unknown_ids st + 1\<rparr>) s, u0\<lparr>u_action := CancelUnknown\<rparr>)
      else
        let u = u0\<lparr>u_prev := o_state (order_at s h)\<rparr>;
            s1 = upd_order h (\<lambda>od. od\<lparr>o_flags := o_flags od OR (kSeenInReconcile OR kReconciled),
                   o_venue_order_id := (if o_venue_order_id od \<noteq> [] \<or> rcm_venue_order_id m \<noteq> []
                                        then rcm_venue_order_id m else o_venue_order_id od)\<rparr>) s;
            (s2, u2) = absorb_cum h (rcm_cum_qty m) (s1, u);
            (s3, u3) = (if o_state (order_at s2 h) = PendingNew
                        then (upd_order h (\<lambda>od. od\<lparr>o_state := working_state (o_cum_qty od)\<rparr>) s2,
                              u2\<lparr>u_changed := True\<rparr>)
                        else (s2, u2))
        in (s3, finish_update s3 u3 h))"

text \<open>The orders a snapshot of the venue did not report.\<close>

definition unseen_orders :: "venue_id \<Rightarrow> oms \<Rightarrow> nat list" where
  "unseen_orders v s =
     filter (\<lambda>h. let od = order_at s h; sc = om_recon_scope s v in
               \<not> (\<not> in_scope od v \<or> order_has od kSeenInReconcile) \<and>
               \<not> (rs_bounded sc \<and> o_cl_ord_id od > rs_watermark sc))
       (pool_handles (om_pool s))"

definition end_unseen :: "nat \<Rightarrow> oms \<Rightarrow> oms \<times> oms_update" where
  "end_unseen h s =
     (let u = update_zero\<lparr>u_prev := o_state (order_at s h), u_known := True\<rparr>;
          s1 = upd_order h (\<lambda>od. od\<lparr>o_flags := o_flags od OR kReconciled\<rparr>) s;
          lv = leaves_qty (order_at s1 h);
          (s2, u2) = (if lv > 0
                      then (upd_stats (\<lambda>st. st\<lparr>st_reconcile_unresolved := st_reconcile_unresolved st + 1\<rparr>) s1,
                            u\<lparr>u_unresolved_qty := lv\<rparr>)
                      else (s1, u))
      in terminate h Canceled True (s2, u2))"

definition reconcile_end ::
  "(oms_update \<Rightarrow> oms \<times> 'e \<Rightarrow> oms \<times> 'e) \<Rightarrow> venue_id \<Rightarrow> oms \<times> 'e \<Rightarrow> oms \<times> 'e" where
  "reconcile_end f v se =
     fold (\<lambda>h (s, e). if pool_is_live (om_pool s) h
                      then (case end_unseen h s of (s', u) \<Rightarrow> f u (s', e)) else (s, e))
       (unseen_orders v (fst se)) se"

definition stale_orders :: "timestamp \<Rightarrow> duration \<Rightarrow> oms \<Rightarrow> nat list" where
  "stale_orders now timeout s =
     filter (\<lambda>h. let od = order_at s h in
               \<not> (o_state od \<noteq> PendingNew \<or> o_created od = 0) \<and> \<not> now - o_created od < timeout)
       (pool_handles (om_pool s))"

definition sweep_pending ::
  "timestamp \<Rightarrow> duration \<Rightarrow> (nat \<Rightarrow> order \<Rightarrow> oms \<times> 'e \<Rightarrow> oms \<times> 'e) \<Rightarrow> oms \<times> 'e \<Rightarrow> (oms \<times> 'e) \<times> nat" where
  "sweep_pending now timeout f se =
     (if timeout \<le> 0 then (se, 0)
      else (let stale = stale_orders now timeout (fst se)
            in (fold (\<lambda>h (s, e). if pool_is_live (om_pool s) h
                        then f h (order_at s h)
                               (upd_stats (\<lambda>st. st\<lparr>st_ack_timeouts := st_ack_timeouts st + 1\<rparr>) s, e)
                        else (s, e)) stale se,
                length stale)))"

text \<open>The handles the two \<^verbatim>\<open>for_each_open_order\<close> visit, in their order.\<close>

definition open_orders :: "oms \<Rightarrow> nat list" where
  "open_orders s = pool_handles (om_pool s)"

definition open_orders_of :: "instrument_id \<Rightarrow> oms \<Rightarrow> nat list" where
  "open_orders_of inst s =
     filter (\<lambda>h. o_instrument (order_at s h) = inst)
       (bb_scan (om_by_inst s) (bb_bucket (om_by_inst s) inst))"

end
