(* ===== verification/OmsRouting.thy ===== *)
theory OmsRouting
  imports Oms
begin

text \<open>
  The id table of the order manager, on its own: every id of an open order leads to its slot, and
  every id of a recently terminal order to the newest record of it in the ring. \<open>routed\<close> states
  this for a set \<open>R\<close> of (id, slot) pairs, and the lemmas say how each operation on the table
  changes \<open>R\<close>.
\<close>

section \<open>References\<close>

lemma kTerminalRef_bit: "bit kTerminalRef n \<longleftrightarrow> n = 31"
proof -
  have eq: "kTerminalRef = push_bit 31 1" by (simp add: kTerminalRef_def push_bit_eq_mult)
  show ?thesis unfolding eq bit_push_bit_iff by (auto simp: bit_1_iff)
qed

lemma is_terminal_ref_iff: "is_terminal_ref v \<longleftrightarrow> bit v 31"
proof
  assume "is_terminal_ref v"
  then obtain n where "bit (v AND kTerminalRef) n"
    unfolding is_terminal_ref_def using bit_eqI [of "v AND kTerminalRef" 0] by auto
  then show "bit v 31" unfolding bit_and_iff kTerminalRef_bit by fast
next
  assume "bit v 31"
  then have "bit (v AND kTerminalRef) 31" by (simp add: bit_and_iff kTerminalRef_bit)
  then show "is_terminal_ref v" by (auto simp: is_terminal_ref_def)
qed

lemma open_ref [simp]: 
  assumes "h < 2 ^ 31"
  shows "\<not> is_terminal_ref (of_nat h)" "unat (of_nat h :: u32) = h"
proof -
  show u: "unat (of_nat h :: u32) = h" using assms by (simp add: unat_of_nat)
  have "of_nat h = (take_bit 31 (of_nat h) :: u32)"
    using assms by (intro word_unat_eq_iff [THEN iffD2]) (simp add: unsigned_take_bit_eq u take_bit_nat_eq_self)
  then have "\<not> bit (of_nat h :: u32) 31" by (metis bit_take_bit_iff less_irrefl)
  then show "\<not> is_terminal_ref (of_nat h)" by (simp add: is_terminal_ref_iff)
qed

lemma terminal_ref_terminal [simp]: "is_terminal_ref (terminal_ref r pos)"
  by (simp add: is_terminal_ref_iff terminal_ref_def bit_or_iff kTerminalRef_bit)

lemma rb_mask: "pos AND (rb_N r - 1) = take_bit (rb_bits r) pos"
  by (simp only: take_bit_eq_mask mask_eq_exp_minus_1 rb_N_def)

lemma mod_add_cancel: "(a + c) mod n = (b + c) mod n \<Longrightarrow> a mod n = b mod (n::nat)"
proof -
  assume a: "(a + c) mod n = (b + c) mod n"
  have "(int a + int c) mod int n = (int b + int c) mod int n" using arg_cong [OF a, of int] by (simp add: zmod_int)
  then have "int a mod int n = int b mod int n" by (simp add: mod_eq_dvd_iff)
  then show ?thesis by (metis nat_int zmod_int)
qed

lemma unat_diff_mod: "b \<le> 64 \<Longrightarrow> unat x mod 2 ^ b = (unat y + i) mod 2 ^ b \<Longrightarrow> unat (x - y :: u64) mod 2 ^ b = i mod 2 ^ b"
proof -
  assume a: "b \<le> 64" "unat x mod 2 ^ b = (unat y + i) mod 2 ^ b"
  have "unat (x - y + y) mod 2 ^ b = (unat (x - y) + unat y) mod 2 ^ b" by (rule unat_add_mod [OF a(1)])
  then have "(unat (x - y) + unat y) mod 2 ^ b = (i + unat y) mod 2 ^ b"
    unfolding diff_add_cancel a(2) by (simp only: add.commute)
  then show ?thesis by (rule mod_add_cancel)
qed

lemma terminal_ref_offset:
  assumes "rb_bits r \<le> 31" "i < 2 ^ rb_bits r"
  shows "(ucast (terminal_ref r (rb_head r + of_nat i)) - rb_head r) AND (rb_N r - 1) = of_nat i"
proof -
  let ?b = "rb_bits r" and ?p = "rb_head r + of_nat i"
  have v: "take_bit ?b (ucast (terminal_ref r ?p) :: u64) = take_bit ?b ?p"
    using assms(1) by (intro bit_eqI) (auto simp: bit_take_bit_iff bit_unsigned_iff terminal_ref_def rb_mask bit_or_iff kTerminalRef_bit)
  have "unat (ucast (terminal_ref r ?p) :: u64) mod 2 ^ ?b = unat ?p mod 2 ^ ?b"
    using arg_cong [OF v, of unat] by (simp only: unsigned_take_bit_eq take_bit_eq_mod [where ?'a = nat])
  also have "\<dots> = (unat (rb_head r) + i) mod 2 ^ ?b" using assms(1) by (intro slot_off) simp
  finally have "unat (ucast (terminal_ref r ?p) - rb_head r) mod 2 ^ ?b = i"
    using unat_diff_mod [of ?b "ucast (terminal_ref r ?p)" "rb_head r" i] assms by simp
  then have "unat ((ucast (terminal_ref r ?p) - rb_head r) AND (rb_N r - 1)) = i"
    by (simp only: rb_N_def mask_slot)
  then have "of_nat (unat ((ucast (terminal_ref r ?p) - rb_head r) AND (rb_N r - 1))) = (of_nat i :: u64)" by (rule arg_cong)
  then show ?thesis by (simp only: of_nat_unat ucast_id)
qed

lemma terminal_ref_inj:
  assumes "rb_bits r \<le> 31" "i < 2 ^ rb_bits r" "j < 2 ^ rb_bits r"
    "terminal_ref r (rb_head r + of_nat i) = terminal_ref r (rb_head r + of_nat j)"
  shows "i = j"
proof -
  have "(of_nat i :: u64) = of_nat j"
    by (rule trans [OF terminal_ref_offset [OF assms(1,2), symmetric, unfolded assms(4)] terminal_ref_offset [OF assms(1,3)]])
  then have "i mod 2 ^ rb_bits r = j mod 2 ^ rb_bits r"
    using unat_of_nat_mod [of "rb_bits r" i] unat_of_nat_mod [of "rb_bits r" j] assms(1) by (simp del: unat_of_nat)
  then show ?thesis using assms(2,3) by simp
qed

section \<open>Routing\<close>

definition names_record :: "terminal_record ring_buffer \<Rightarrow> cl_ord_id \<Rightarrow> u32 \<Rightarrow> nat \<Rightarrow> bool" where
  "names_record ring cid v i \<longleftrightarrow>
     i < length (rb_list ring) \<and> v = terminal_ref ring (rb_head ring + of_nat i) \<and>
     tr_cl_ord_id (rb_list ring ! i) = cid \<and>
     (\<forall>j. i < j \<and> j < length (rb_list ring) \<longrightarrow> tr_cl_ord_id (rb_list ring ! j) \<noteq> cid)"

definition routed :: "u32 open_hash_map \<Rightarrow> terminal_record ring_buffer \<Rightarrow> (cl_ord_id \<times> nat) set \<Rightarrow> bool" where
  "routed ids ring R \<longleftrightarrow>
     (\<forall>cid v. ohm_find ids cid = Some v \<longrightarrow>
        (if is_terminal_ref v then \<exists>i. names_record ring cid v i else (cid, unat v) \<in> R)) \<and>
     (\<forall>cid h. (cid, h) \<in> R \<longrightarrow> ohm_find ids cid = Some (of_nat h) \<and> h < 2 ^ 31)"

lemma routed_open: "routed ids ring R \<Longrightarrow> ohm_find ids cid = Some v \<Longrightarrow> \<not> is_terminal_ref v \<Longrightarrow> (cid, unat v) \<in> R"
  by (auto simp: routed_def)

lemma routed_terminal: "routed ids ring R \<Longrightarrow> ohm_find ids cid = Some v \<Longrightarrow> is_terminal_ref v \<Longrightarrow> \<exists>i. names_record ring cid v i"
  by (auto simp: routed_def)

lemma routed_find: "routed ids ring R \<Longrightarrow> (cid, h) \<in> R \<Longrightarrow> ohm_find ids cid = Some (of_nat h) \<and> h < 2 ^ 31"
  by (auto simp: routed_def)

lemma routed_fun: "routed ids ring R \<Longrightarrow> (cid, h) \<in> R \<Longrightarrow> (cid, h') \<in> R \<Longrightarrow> h = h'"
  using routed_find [of ids ring R cid h] routed_find [of ids ring R cid h'] open_ref(2) [of h] open_ref(2) [of h']
  by auto

lemma routed_add:
  assumes r: "routed ids ring R" and f: "ohm_find ids' = (ohm_find ids)(cid \<mapsto> of_nat h)"
    and h: "h < 2 ^ 31" and new: "\<And>h'. (cid, h') \<notin> R"
  shows "routed ids' ring (insert (cid, h) R)"
  unfolding routed_def
proof (intro conjI allI impI)
  fix c v assume a: "ohm_find ids' c = Some v"
  show "if is_terminal_ref v then \<exists>i. names_record ring c v i else (c, unat v) \<in> insert (cid, h) R"
  proof (cases "c = cid")
    case True
    then show ?thesis using a f h by auto
  next
    case False
    then show ?thesis using a f r by (auto simp: routed_def)
  qed
next
  fix c g assume "(c, g) \<in> insert (cid, h) R"
  then show "ohm_find ids' c = Some (of_nat g)" "g < 2 ^ 31" using f h new routed_find [OF r, of c g] by auto
qed

lemma routed_remove:
  assumes r: "routed ids ring R" and f: "ohm_find ids' = (ohm_find ids)(cid := None)"
  shows "routed ids' ring {(c, h). (c, h) \<in> R \<and> c \<noteq> cid}"
  using assms by (auto simp: routed_def split: if_splits)

lemma routed_drop_open:
  assumes r: "routed (om_ids s) ring R" and inv: "ohm_inv (om_ids s)"
  shows "ohm_inv (om_ids (drop_open cid s)) \<and> ohm_bits (om_ids (drop_open cid s)) = ohm_bits (om_ids s) \<and>
    routed (om_ids (drop_open cid s)) ring {(c, h). (c, h) \<in> R \<and> c \<noteq> cid}"
proof (cases "\<exists>h. (cid, h) \<in> R")
  case True
  then obtain h where h: "ohm_find (om_ids s) cid = Some (of_nat h)" "h < 2 ^ 31" using routed_find [OF r] by blast
  obtain m where m: "ohm_erase (om_ids s) cid = (m, True)" "ohm_inv m" "ohm_find m = (ohm_find (om_ids s))(cid := None)"
    "ohm_bits m = ohm_bits (om_ids s)"
    using ohm_erase_law [OF inv, of cid] h by auto
  then show ?thesis using h routed_remove [OF r m(3)] by (simp add: drop_open_def)
next
  case False
  then have "{(c, h). (c, h) \<in> R \<and> c \<noteq> cid} = R" by auto
  moreover have "drop_open cid s = s"
    using False routed_open [OF r, of cid] by (auto simp: drop_open_def split: option.splits)
  ultimately show ?thesis using r inv by simp
qed

section \<open>Terminal records\<close>

lemma names_record_push:
  assumes inv: "rb_inv ring" and n: "names_record ring cid v i"
    and i: "rb_full ring \<longrightarrow> 0 < i" and ne: "tr_cl_ord_id r \<noteq> cid"
  shows "\<exists>j. names_record (rb_push ring r) cid v j"
proof -
  define k :: nat where "k = (if rb_full ring then 1 else 0)"
  let ?xs = "rb_list ring"
  have l: "rb_list (rb_push ring r) = drop k ?xs @ [r]"
    using rb_push_list [OF inv, of r] by (simp add: k_def drop_Suc)
  have hd: "rb_head (rb_push ring r) = rb_head ring + of_nat k"
    by (simp add: rb_push_def rb_write_def k_def)
  have N: "rb_N (rb_push ring r) = rb_N ring" using rb_push_list [OF inv, of r] by (simp add: rb_N_def)
  have i': "k \<le> i" "i < length ?xs" using i n by (auto simp: names_record_def k_def)
  then have off: "rb_head ring + of_nat k + of_nat (i - k) = rb_head ring + of_nat i" by (simp add: of_nat_diff)
  have newest: "tr_cl_ord_id (?xs ! j) \<noteq> cid" if "i < j" "j < length ?xs" for j
    using n that by (simp add: names_record_def)
  have "names_record (rb_push ring r) cid v (i - k)"
    unfolding names_record_def l hd terminal_ref_def N off
  proof (intro conjI allI impI)
    show "i - k < length (drop k ?xs @ [r])" using i' by simp
    show "v = kTerminalRef OR ucast ((rb_head ring + of_nat i) AND (rb_N ring - 1))"
      "tr_cl_ord_id ((drop k ?xs @ [r]) ! (i - k)) = cid"
      using n i' diff_less_mono [of i "length ?xs" k] by (simp_all add: names_record_def terminal_ref_def nth_append)
    fix j assume j: "i - k < j \<and> j < length (drop k ?xs @ [r])"
    show "tr_cl_ord_id ((drop k ?xs @ [r]) ! j) \<noteq> cid"
      using j ne i' newest [of "k + j"] by (cases "j < length ?xs - k") (auto simp: nth_append)
  qed
  then show ?thesis by blast
qed

lemma names_record_last:
  assumes inv: "rb_inv ring" and b: "rb_bits ring \<le> 31"
  shows "names_record (rb_push ring r) (tr_cl_ord_id r) (terminal_ref ring (rb_tail ring))
    (length (rb_list (rb_push ring r)) - 1)"
proof -
  let ?k = "if rb_full ring then 1 else 0 :: nat" and ?xs = "rb_list ring"
  have l: "rb_list (rb_push ring r) = drop ?k ?xs @ [r]" using rb_push_list [OF inv, of r] by (simp add: drop_Suc)
  have hd: "rb_head (rb_push ring r) = rb_head ring + of_nat ?k"
    by (simp add: rb_push_def rb_write_def)
  have N: "rb_N (rb_push ring r) = rb_N ring" using rb_push_list [OF inv, of r] by (simp add: rb_N_def)
  have k: "?k \<le> length ?xs" using rb_full_iff [OF inv] by (auto simp: Suc_le_eq)
  have "rb_tail ring = rb_head ring + of_nat (length ?xs)" by (simp only: rb_tail_pos rb_length)
  also have "\<dots> = rb_head ring + of_nat ?k + of_nat (length ?xs - ?k)"
    using k by (simp add: of_nat_diff algebra_simps)
  finally have "terminal_ref ring (rb_tail ring) = terminal_ref (rb_push ring r) (rb_head (rb_push ring r) + of_nat (length ?xs - ?k))"
    unfolding hd terminal_ref_def N by simp
  moreover have "(drop ?k ?xs @ [r]) ! (length ?xs - ?k) = r" by (simp only: nth_append length_drop) simp
  ultimately show ?thesis unfolding names_record_def l by auto
qed

lemma names_record_find:
  assumes inv: "rb_inv ring" and b: "rb_bits ring \<le> 31" and n: "names_record ring cid v i"
  shows "rb_head ring + ((ucast v - rb_head ring) AND (rb_N ring - 1)) = rb_head ring + of_nat i"
  using n terminal_ref_offset [OF b, of i] rb.bounded [OF inv] by (auto simp: names_record_def)

text \<open>\<^verbatim>\<open>find_terminal\<close> returns the newest record of an id, and none for an id that is open or unknown.\<close>

lemma find_terminal_routed:
  assumes r: "routed (om_ids s) (om_ring s) R" and inv: "rb_inv (om_ring s)" "rb_bits (om_ring s) \<le> 31"
  shows "case ohm_find (om_ids s) cid of
      None \<Rightarrow> find_terminal s cid = None
    | Some v \<Rightarrow> if is_terminal_ref v
        then \<exists>i. names_record (om_ring s) cid v i \<and>
          find_terminal s cid = Some ((unat (rb_head (om_ring s)) + i) mod 2 ^ rb_bits (om_ring s))
        else find_terminal s cid = None"
proof -
  have out: "rb_at_pos (om_ring s) (rb_tail (om_ring s)) = None"
    by (simp add: rb_at_pos_def rb_size_def)
  show ?thesis
  proof (cases "ohm_find (om_ids s) cid")
    case None
    then show ?thesis using out by (simp add: find_terminal_def terminal_pos_def)
  next
    case (Some v)
    show ?thesis
    proof (cases "is_terminal_ref v")
      case True
      then obtain i where i: "names_record (om_ring s) cid v i" using routed_terminal [OF r Some] by blast
      then have "find_terminal s cid = Some ((unat (rb_head (om_ring s)) + i) mod 2 ^ rb_bits (om_ring s))"
        using Some True rb_at_pos_list [OF inv(1), of i] names_record_find [OF inv i]
        by (simp add: find_terminal_def terminal_pos_def names_record_def)
      then show ?thesis using Some True i by auto
    next
      case False
      then show ?thesis using Some out by (simp add: find_terminal_def terminal_pos_def)
    qed
  qed
qed

section \<open>Remembering a record\<close>

definition forgets :: "terminal_record ring_buffer \<Rightarrow> bool" where
  "forgets ring \<longleftrightarrow> rb_full ring \<and> es_qty (tr_estimate (rb_front ring)) > 0"

lemma remember_terminal_frame:
  assumes "remember_terminal r (s, u) = (s', u')"
  shows "om_ring s' = rb_push (om_ring s) r"
    "om_stats s' = (if forgets (om_ring s)
       then (om_stats s)\<lparr>st_synthetic_forgotten := st_synthetic_forgotten (om_stats s) + 1,
                         st_synthetic_pending := st_synthetic_pending (om_stats s) - 1\<rparr> else om_stats s)"
    "\<exists>ids. s' = s\<lparr>om_stats := om_stats s', om_ids := ids, om_ring := om_ring s'\<rparr>"
    "u' = (if forgets (om_ring s)
       then u\<lparr>u_forgotten_qty := es_qty (tr_estimate (rb_front (om_ring s))),
              u_forgotten_id := tr_cl_ord_id (rb_front (om_ring s))\<rparr> else u)"
  using assms
  by (auto simp: remember_terminal_def forgets_def upd_stats_def Let_def split: if_splits prod.splits)

lemma remember_terminal_ids:
  assumes "remember_terminal r (s, u) = (s', u')"
  shows "om_ids s' = fst (ohm_assign
    (if rb_full (om_ring s) \<and> ohm_find (om_ids s) (tr_cl_ord_id (rb_front (om_ring s))) =
          Some (terminal_ref (om_ring s) (rb_head (om_ring s)))
     then fst (ohm_erase (om_ids s) (tr_cl_ord_id (rb_front (om_ring s)))) else om_ids s)
    (tr_cl_ord_id r) (terminal_ref (om_ring s) (rb_tail (om_ring s))))"
  using assms
  by (auto simp: remember_terminal_def upd_stats_def Let_def split: if_splits prod.splits)

lemma routed_evict:
  assumes r: "routed ids ring R" and inv: "ohm_inv ids" "rb_inv ring" "rb_bits ring \<le> 31"
    and cid: "(cid, h) \<in> R" "cid = tr_cl_ord_id r"
    and ids: "ids1 = (if rb_full ring \<and> ohm_find ids (tr_cl_ord_id (rb_front ring)) = Some (terminal_ref ring (rb_head ring))
       then fst (ohm_erase ids (tr_cl_ord_id (rb_front ring))) else ids)"
  shows "ohm_inv ids1 \<and> ohm_bits ids1 = ohm_bits ids \<and> ohm_find ids1 cid = Some (of_nat h) \<and>
    (\<forall>c v. ohm_find ids1 c = Some v \<longrightarrow> c \<noteq> cid \<longrightarrow> is_terminal_ref v \<longrightarrow> (\<exists>j. names_record (rb_push ring r) c v j)) \<and>
    (\<forall>c v. ohm_find ids1 c = Some v \<longrightarrow> \<not> is_terminal_ref v \<longrightarrow> (c, unat v) \<in> R) \<and>
    (\<forall>c g. (c, g) \<in> R \<longrightarrow> ohm_find ids1 c = Some (of_nat g))"
proof -
  let ?g = "tr_cl_ord_id (rb_front ring)" and ?e = "rb_full ring \<and> ohm_find ids (tr_cl_ord_id (rb_front ring)) = Some (terminal_ref ring (rb_head ring))"
  obtain m where m: "ohm_erase ids ?g = (m, ohm_find ids ?g \<noteq> None)" "ohm_inv m" "ohm_find m = (ohm_find ids)(?g := None)" "ohm_bits m = ohm_bits ids"
    using ohm_erase_law [OF inv(1), of ?g] by blast
  have f: "ohm_find ids1 = (if ?e then (ohm_find ids)(?g := None) else ohm_find ids)"
    and i: "ohm_inv ids1" "ohm_bits ids1 = ohm_bits ids"
    using m inv(1) unfolding ids by auto
  have open_kept: "ohm_find ids1 c = Some (of_nat g)" if "(c, g) \<in> R" for c g
  proof -
    have g: "ohm_find ids c = Some (of_nat g)" "g < 2 ^ 31" using routed_find [OF r that] by auto
    have "c \<noteq> ?g" if "?e"
    proof
      assume "c = ?g"
      then have "of_nat g = terminal_ref ring (rb_head ring)" using g(1) that by simp
      then show False using open_ref(1) [OF g(2)] by simp
    qed
    then show ?thesis using g(1) unfolding f by auto
  qed
  have term_kept: "\<exists>j. names_record (rb_push ring r) c v j"
    if v: "ohm_find ids1 c = Some v" "c \<noteq> cid" "is_terminal_ref v" for c v
  proof -
    have v': "ohm_find ids c = Some v" "?e \<Longrightarrow> c \<noteq> ?g" using v(1) unfolding f by (auto split: if_splits)
    obtain k where k: "names_record ring c v k" using routed_terminal [OF r v'(1) v(3)] by blast
    have "0 < k" if full: "rb_full ring"
    proof (rule ccontr)
      assume "\<not> 0 < k"
      then have "names_record ring c v 0" using k by simp
      then have "v = terminal_ref ring (rb_head ring)" "?g = c"
        by (auto simp: names_record_def rb_front_hd hd_conv_nth)
      then show False using v' full by auto
    qed
    then show ?thesis using v(2) cid(2) by (intro names_record_push [OF inv(2) k]) auto
  qed
  show ?thesis
    using i open_kept open_kept [OF cid(1)] term_kept routed_open [OF r] unfolding f by (auto split: if_splits)
qed

lemma remember_terminal_routed:
  assumes r: "routed (om_ids s) (om_ring s) R" and inv: "ohm_inv (om_ids s)" "rb_inv (om_ring s)" "rb_bits (om_ring s) \<le> 31"
    and cid: "(tr_cl_ord_id r, h) \<in> R" and rem: "remember_terminal r (s, u) = (s', u')"
  shows "ohm_inv (om_ids s') \<and> ohm_bits (om_ids s') = ohm_bits (om_ids s) \<and>
    routed (om_ids s') (om_ring s') {(c, g). (c, g) \<in> R \<and> c \<noteq> tr_cl_ord_id r} \<and>
    ohm_find (om_ids s') (tr_cl_ord_id r) = Some (terminal_ref (om_ring s) (rb_tail (om_ring s)))"
proof -
  let ?c = "tr_cl_ord_id r" and ?v = "terminal_ref (om_ring s) (rb_tail (om_ring s))"
  define ids1 where "ids1 = (if rb_full (om_ring s) \<and> ohm_find (om_ids s) (tr_cl_ord_id (rb_front (om_ring s))) =
        Some (terminal_ref (om_ring s) (rb_head (om_ring s)))
       then fst (ohm_erase (om_ids s) (tr_cl_ord_id (rb_front (om_ring s)))) else om_ids s)"
  note e = routed_evict [OF r inv cid refl ids1_def]
  have ids': "om_ids s' = fst (ohm_assign ids1 ?c ?v)" using remember_terminal_ids [OF rem] by (simp only: ids1_def)
  have ring': "om_ring s' = rb_push (om_ring s) r" by (rule remember_terminal_frame(1) [OF rem])
  obtain m i where m: "ohm_assign ids1 ?c ?v = (m, Some i)" "ohm_inv m" "ohm_find m = (ohm_find ids1)(?c \<mapsto> ?v)" "ohm_bits m = ohm_bits ids1"
    using ohm_assign_law [of ids1 ?c ?v] e by auto
  have last: "\<exists>j. names_record (rb_push (om_ring s) r) ?c ?v j" using names_record_last [OF inv(2,3)] by blast
  have "routed m (rb_push (om_ring s) r) {(c, g). (c, g) \<in> R \<and> c \<noteq> ?c}"
    unfolding routed_def
  proof (intro conjI allI impI)
    fix c v assume v: "ohm_find m c = Some v"
    show "if is_terminal_ref v then \<exists>i. names_record (rb_push (om_ring s) r) c v i
          else (c, unat v) \<in> {(c, g). (c, g) \<in> R \<and> c \<noteq> ?c}"
      using v m(3) e last by (cases "c = ?c") auto
  next
    fix c g assume "(c, g) \<in> {(c, g). (c, g) \<in> R \<and> c \<noteq> ?c}"
    then show "ohm_find m c = Some (of_nat g)" "g < 2 ^ 31" using m(3) e routed_find [OF r, of c g] by auto
  qed
  then show ?thesis using m e by (simp add: ids' ring')
qed

text \<open>The table never fills: it has one entry per open id and at most one per record.\<close>

lemma routed_size:
  assumes r: "routed ids ring R" and inv: "ohm_inv ids" and R: "finite (fst ` R)" "card (fst ` R) \<le> n"
  shows "ohm_size ids \<le> n + length (rb_list ring)"
proof -
  have "dom (ohm_find ids) \<subseteq> fst ` R \<union> set (map tr_cl_ord_id (rb_list ring))"
  proof
    fix c assume "c \<in> dom (ohm_find ids)"
    then obtain v where v: "ohm_find ids c = Some v" by auto
    show "c \<in> fst ` R \<union> set (map tr_cl_ord_id (rb_list ring))"
    proof (cases "is_terminal_ref v")
      case True
      then obtain i where "names_record ring c v i" using routed_terminal [OF r v] by blast
      then show ?thesis by (auto simp: names_record_def)
    next
      case False
      then show ?thesis using routed_open [OF r v] by force
    qed
  qed
  then have "card (dom (ohm_find ids)) \<le> card (fst ` R \<union> set (map tr_cl_ord_id (rb_list ring)))"
    using R by (intro card_mono) auto
  also have "\<dots> \<le> card (fst ` R) + card (set (map tr_cl_ord_id (rb_list ring)))" by (rule card_Un_le)
  also have "\<dots> \<le> n + length (rb_list ring)"
    using R(2) card_length [of "map tr_cl_ord_id (rb_list ring)"] by simp
  finally show ?thesis using ohm_size_dom [OF inv] by simp
qed

end
