(* ===== verification/OmsInv.thy ===== *)
theory OmsInv
  imports OmsRouting
begin

text \<open>
  The invariant of the order manager and the operations that change one order in place. The
  invariant says that the containers are well formed, that the id table routes every id of a live
  order to its slot and every other id it holds to the newest terminal record of that id, that the
  per-instrument index lists the live orders of each instrument, that the counters and open
  quantities are the sums over the live orders, and that the gauge of pending estimates counts the
  estimates held by live orders and by terminal records.
\<close>

section \<open>The invariant\<close>

definition order_ids :: "order \<Rightarrow> cl_ord_id set" where
  "order_ids od = {cid. cid = o_cl_ord_id od \<or> (cid = o_pending_cl_ord_id od \<and> cid \<noteq> 0)}"

definition order_ok :: "order \<Rightarrow> bool" where
  "order_ok od \<longleftrightarrow>
     o_instrument od < kMaxInstruments \<and> is_open od \<and> 0 \<le> o_cum_qty od \<and> o_cum_qty od \<le> o_qty od \<and>
     0 \<le> o_pending_qty od \<and> o_cl_ord_id od \<noteq> 0 \<and>
     (o_pending_cl_ord_id od \<noteq> 0 \<longrightarrow> o_state od = PendingReplace)"

definition live :: "oms \<Rightarrow> nat set" where
  "live s = pool_live (om_pool s)"

definition open_ids :: "oms \<Rightarrow> (cl_ord_id \<times> nat) set" where
  "open_ids s = {(cid, h). h \<in> live s \<and> cid \<in> order_ids (order_at s h)}"

definition total :: "(order \<Rightarrow> int) \<Rightarrow> oms \<Rightarrow> int" where
  "total w s = (\<Sum>h\<in>live s. w (order_at s h))"

definition open_leaves :: "instrument_id \<Rightarrow> side \<Rightarrow> order \<Rightarrow> int" where
  "open_leaves i sd od = (if o_instrument od = i \<and> o_side od = sd then leaves_qty od else 0)"

definition oms_shape :: "oms \<Rightarrow> bool" where
  "oms_shape s \<longleftrightarrow>
     pool_inv (om_pool s) \<and> bb_inv (om_by_inst s) \<and> ohm_inv (om_ids s) \<and> rb_inv (om_ring s) \<and>
     rm_inv (om_exec_seen s) \<and> bb_slots (om_by_inst s) = pl_capacity (om_pool s) \<and>
     bb_buckets (om_by_inst s) = kMaxInstruments \<and> rb_bits (om_ring s) \<le> 31 \<and>
     pl_capacity (om_pool s) \<le> 4096 \<and>
     2 * pl_capacity (om_pool s) + 2 ^ rb_bits (om_ring s) < kMaxSize (2 ^ ohm_bits (om_ids s))"

definition oms_orders :: "oms \<Rightarrow> bool" where
  "oms_orders s \<longleftrightarrow> (\<forall>h\<in>live s. order_ok (order_at s h))"

definition oms_index :: "oms \<Rightarrow> bool" where
  "oms_index s \<longleftrightarrow> (\<forall>b<kMaxInstruments. \<forall>h. bb_mem (om_by_inst s) b h \<longleftrightarrow> h \<in> live s \<and> o_instrument (order_at s h) = b)"

definition oms_counts :: "oms \<Rightarrow> bool" where
  "oms_counts s \<longleftrightarrow>
     st_open (om_stats s) = total (\<lambda>od. 1) s \<and>
     (\<forall>i. om_open_per_inst s i = total (\<lambda>od. of_bool (o_instrument od = i)) s) \<and>
     (\<forall>i sd. om_open_qty s i sd = total (open_leaves i sd) s)"

definition pending_estimates :: "oms \<Rightarrow> int" where
  "pending_estimates s =
     (\<Sum>h\<in>live s. of_bool (es_qty (om_estimates s h) > 0)) +
     (\<Sum>r\<leftarrow>rb_list (om_ring s). of_bool (es_qty (tr_estimate r) > 0))"

definition oms_gauge :: "oms \<Rightarrow> bool" where
  "oms_gauge s \<longleftrightarrow>
     st_synthetic_pending (om_stats s) = pending_estimates s \<and> (\<forall>h\<in>live s. 0 \<le> es_qty (om_estimates s h))"

definition oms_inv :: "oms \<Rightarrow> bool" where
  "oms_inv s \<longleftrightarrow> oms_shape s \<and> oms_orders s \<and> oms_index s \<and>
     routed (om_ids s) (om_ring s) (open_ids s) \<and> oms_counts s \<and> oms_gauge s"

lemmas oms_parts = oms_shape_def oms_orders_def oms_index_def oms_counts_def oms_gauge_def

section \<open>What the invariant depends on\<close>

lemma live_finite [simp]: "finite (live s)"
  by (simp add: live_def)

lemma oms_inv_cong:
  assumes "om_pool s' = om_pool s" "om_by_inst s' = om_by_inst s" "om_ids s' = om_ids s" "om_ring s' = om_ring s"
    "om_exec_seen s' = om_exec_seen s" "om_open_qty s' = om_open_qty s" "om_open_per_inst s' = om_open_per_inst s"
    "om_estimates s' = om_estimates s" "st_open (om_stats s') = st_open (om_stats s)"
    "st_synthetic_pending (om_stats s') = st_synthetic_pending (om_stats s)"
  shows "oms_inv s' = oms_inv s"
proof -
  have l: "live s' = live s" "order_at s' = order_at s" using assms(1) by (simp_all add: live_def order_at_def fun_eq_iff)
  then have "open_ids s' = open_ids s" "\<And>w. total w s' = total w s" by (simp_all add: open_ids_def total_def)
  moreover have "pending_estimates s' = pending_estimates s" using l assms by (simp add: pending_estimates_def)
  ultimately show ?thesis using assms l by (simp add: oms_inv_def oms_parts)
qed

lemma upd_times_inv [simp]: "oms_inv (upd_times h f s) = oms_inv s"
  by (rule oms_inv_cong) (simp_all add: upd_times_def)

lemma set_best_own_inv [simp]: "oms_inv (set_best_own i sd p s) = oms_inv s"
  by (rule oms_inv_cong) (simp_all add: set_best_own_def)

lemma recompute_best_own_inv [simp]: "oms_inv (recompute_best_own i sd s) = oms_inv s"
  by (simp add: recompute_best_own_def)

lemma upd_stats_inv:
  "(\<And>st. st_open (f st) = st_open st \<and> st_synthetic_pending (f st) = st_synthetic_pending st) \<Longrightarrow>
   oms_inv (upd_stats f s) = oms_inv s"
  by (rule oms_inv_cong) (simp_all add: upd_stats_def)

lemma live_simps [simp]:
  "live (upd_times h f s) = live s" "live (set_best_own i sd p s) = live s" "live (upd_stats g s) = live s"
  "live (add_open_qty i sd d s) = live s" "live (upd_estimate h fe s) = live s" "live (upd_terminal k fr s) = live s"
  "live (recompute_best_own i sd s) = live s" "live (add_open_count i d s) = live s"
  by (simp_all add: live_def upd_times_def set_best_own_def upd_stats_def add_open_qty_def upd_estimate_def
      upd_terminal_def recompute_best_own_def add_open_count_def)

lemma order_at_simps [simp]:
  "order_at (upd_times h f s) = order_at s" "order_at (set_best_own i sd p s) = order_at s"
  "order_at (upd_stats g s) = order_at s" "order_at (add_open_qty i sd d s) = order_at s"
  "order_at (upd_estimate h fe s) = order_at s" "order_at (upd_terminal k fr s) = order_at s"
  "order_at (recompute_best_own i sd s) = order_at s" "order_at (add_open_count i d s) = order_at s"
  by (simp_all add: order_at_def fun_eq_iff upd_times_def set_best_own_def upd_stats_def add_open_qty_def
      upd_estimate_def upd_terminal_def recompute_best_own_def add_open_count_def)

lemma oms_inv_cap: "oms_inv s \<Longrightarrow> h \<in> live s \<Longrightarrow> h < pl_capacity (om_pool s) \<and> h < 4096 \<and> h < 2 ^ 31 \<and> h \<noteq> kNullHandle"
  by (auto simp: oms_inv_def oms_shape_def live_def pool_live_def kNullHandle_def)

section \<open>Writing one order\<close>

lemma upd_order_at:
  assumes "pool_inv (om_pool s)" "h \<in> live s"
  shows "live (upd_order h f s) = live s" "order_at (upd_order h f s) = (order_at s)(h := f (order_at s h))"
    "pool_inv (om_pool (upd_order h f s))"
  using pool_put_law [OF assms(1), of h] assms(2) by (auto simp: live_def order_at_def upd_order_def fun_eq_iff)

lemma total_upd:
  assumes "finite A" "h \<in> A"
  shows "(\<Sum>x\<in>A. w ((g(h := v)) x)) = (\<Sum>x\<in>A. w (g x)) + (w v - w (g h) :: int)"
proof -
  have "(\<Sum>x\<in>A - {h}. w ((g(h := v)) x)) = (\<Sum>x\<in>A - {h}. w (g x))" by (intro sum.cong) auto
  then show ?thesis using assms by (simp add: sum.remove [of A h])
qed

lemma upd_order_commute: "upd_order h f (add_open_qty i sd d s) = add_open_qty i sd d (upd_order h f s)"
  by (simp add: upd_order_def add_open_qty_def order_at_def)

lemma add_open_qty_0 [simp]: "add_open_qty i sd 0 s = s"
  by (simp add: add_open_qty_def)

lemma upd_order_inv:
  assumes inv: "oms_inv s" and h: "h \<in> live s" and ok: "order_ok (f (order_at s h))"
    and same: "o_instrument (f (order_at s h)) = o_instrument (order_at s h)" "o_side (f (order_at s h)) = o_side (order_at s h)"
    "order_ids (f (order_at s h)) = order_ids (order_at s h)"
    and i: "i = o_instrument (order_at s h)" "sd = o_side (order_at s h)"
    and d: "d = leaves_qty (f (order_at s h)) - leaves_qty (order_at s h)"
  shows "oms_inv (add_open_qty i sd d (upd_order h f s))"
proof -
  let ?s = "add_open_qty i sd d (upd_order h f s)"
  have p: "pool_inv (om_pool s)" using inv by (simp add: oms_inv_def oms_shape_def)
  note u = upd_order_at [OF p h, of f]
  have frame: "om_by_inst ?s = om_by_inst s" "om_ids ?s = om_ids s" "om_ring ?s = om_ring s"
    "om_exec_seen ?s = om_exec_seen s" "pl_capacity (om_pool (upd_order h f s)) = pl_capacity (om_pool s)"
    "om_open_per_inst ?s = om_open_per_inst s" "om_estimates ?s = om_estimates s" "om_stats ?s = om_stats s"
    "om_pool ?s = om_pool (upd_order h f s)"
    by (simp_all add: add_open_qty_def upd_order_def pool_put_def)
  have at: "live ?s = live s" "order_at ?s = (order_at s)(h := f (order_at s h))" using u by simp_all
  have ids: "open_ids ?s = open_ids s" using same(3) by (auto simp: open_ids_def u split: if_splits)
  have tot: "total w ?s = total w s + (w (f (order_at s h)) - w (order_at s h))" for w
    unfolding total_def at by (rule total_upd) (use h in auto)
  have "oms_shape ?s" using inv u(3) by (simp add: oms_inv_def oms_shape_def frame)
  moreover have "oms_orders ?s" using inv ok by (auto simp: oms_inv_def oms_orders_def u)
  moreover have "oms_index ?s" using inv same(1) by (auto simp: oms_inv_def oms_index_def u frame)
  moreover have "oms_counts ?s"
  proof -
    have "om_open_qty ?s j t = om_open_qty s j t + (open_leaves j t (f (order_at s h)) - open_leaves j t (order_at s h))" for j t
      using i same d by (auto simp: add_open_qty_def upd_order_def open_leaves_def)
    then show ?thesis using inv same by (simp add: oms_inv_def oms_counts_def tot frame)
  qed
  moreover have "oms_gauge ?s" using inv by (simp add: oms_inv_def oms_gauge_def pending_estimates_def u frame)
  ultimately show ?thesis using inv by (simp add: oms_inv_def ids frame)
qed

lemma upd_order_inv0:
  assumes "oms_inv s" "h \<in> live s" "order_ok (f (order_at s h))"
    "o_instrument (f (order_at s h)) = o_instrument (order_at s h)" "o_side (f (order_at s h)) = o_side (order_at s h)"
    "order_ids (f (order_at s h)) = order_ids (order_at s h)" "leaves_qty (f (order_at s h)) = leaves_qty (order_at s h)"
  shows "oms_inv (upd_order h f s)"
  using upd_order_inv [where f = f, OF assms(1-6) refl refl refl] assms(7) by simp

lemma oms_inv_pool: "oms_inv s \<Longrightarrow> pool_inv (om_pool s)"
  by (simp add: oms_inv_def oms_shape_def)

lemma live_upd_order: "oms_inv s \<Longrightarrow> h \<in> live s \<Longrightarrow> live (upd_order h f s) = live s"
  using upd_order_at oms_inv_pool by blast

lemma order_at_upd_order: "oms_inv s \<Longrightarrow> h \<in> live s \<Longrightarrow> order_at (upd_order h f s) = (order_at s)(h := f (order_at s h))"
  using upd_order_at oms_inv_pool by blast

lemma live_ok: "oms_inv s \<Longrightarrow> h \<in> live s \<Longrightarrow> order_ok (order_at s h)"
  by (simp add: oms_inv_def oms_orders_def)

section \<open>Estimates\<close>

text \<open>Equality of two states but for the estimates and the counters.\<close>

definition same_but_estimates :: "oms \<Rightarrow> oms \<Rightarrow> bool" where
  "same_but_estimates s' s \<longleftrightarrow>
     om_pool s' = om_pool s \<and> om_by_inst s' = om_by_inst s \<and> om_ids s' = om_ids s \<and> om_ring s' = om_ring s \<and>
     om_exec_seen s' = om_exec_seen s \<and> om_open_qty s' = om_open_qty s \<and> om_open_per_inst s' = om_open_per_inst s \<and>
     st_open (om_stats s') = st_open (om_stats s)"

lemma estimate_inv:
  assumes inv: "oms_inv s" and h: "h \<in> live s" and same: "same_but_estimates s' s"
    and e: "om_estimates s' = (om_estimates s)(h := e')" "0 \<le> es_qty e'"
    and g: "st_synthetic_pending (om_stats s') =
      st_synthetic_pending (om_stats s) + (of_bool (es_qty e' > 0) - of_bool (es_qty (om_estimates s h) > 0))"
  shows "oms_inv s'"
proof -
  have l: "live s' = live s" "order_at s' = order_at s"
    using same by (auto simp: same_but_estimates_def live_def order_at_def)
  have o: "open_ids s' = open_ids s" "\<And>w. total w s' = total w s" by (simp_all add: open_ids_def total_def l)
  have "pending_estimates s' = pending_estimates s + (of_bool (es_qty e' > 0) - of_bool (es_qty (om_estimates s h) > 0))"
    using total_upd [of "live s" h "\<lambda>e. of_bool (es_qty e > 0)" "om_estimates s" e'] h same
    unfolding pending_estimates_def l e(1) by (simp add: same_but_estimates_def)
  then have "oms_gauge s'" using inv g e by (auto simp: oms_inv_def oms_gauge_def l)
  then show ?thesis using inv same by (simp add: oms_inv_def oms_parts same_but_estimates_def l o)
qed

lemma note_synthetic_inv:
  assumes "oms_inv s" "h \<in> live s" "0 < q"
  shows "oms_inv (note_synthetic h q px s)"
proof (rule estimate_inv [OF assms(1,2)])
  have "0 \<le> es_qty (om_estimates s h)" using assms by (simp add: oms_inv_def oms_gauge_def)
  then show "0 \<le> es_qty \<lparr>es_qty = es_qty (om_estimates s h) + q, es_price = px\<rparr>"
    "st_synthetic_pending (om_stats (note_synthetic h q px s)) = st_synthetic_pending (om_stats s) +
      (of_bool (es_qty \<lparr>es_qty = es_qty (om_estimates s h) + q, es_price = px\<rparr> > 0) - of_bool (es_qty (om_estimates s h) > 0))"
    using assms(3) by (auto simp: note_synthetic_def Let_def upd_stats_def upd_estimate_def)
qed (auto simp: note_synthetic_def Let_def upd_stats_def upd_estimate_def same_but_estimates_def)

lemma note_synthetic_frame [simp]:
  "live (note_synthetic h q px s) = live s" "order_at (note_synthetic h q px s) = order_at s"
  by (simp_all add: note_synthetic_def Let_def)

lemma absorb_cum_inv:
  assumes "oms_inv s" "h \<in> live s" "absorb_cum h q (s, u) = (s', u')"
  shows "oms_inv s'" "live s' = live s"
    "order_at s' = (order_at s)(h := (order_at s h)\<lparr>o_cum_qty := max (o_cum_qty (order_at s h)) (min q (o_qty (order_at s h)))\<rparr>)"
proof -
  let ?od = "order_at s h" and ?c = "min q (o_qty (order_at s h))"
  have ok: "order_ok ?od" using assms by (intro live_ok)
  have "oms_inv s' \<and> live s' = live s \<and> order_at s' = (order_at s)(h := ?od\<lparr>o_cum_qty := max (o_cum_qty ?od) ?c\<rparr>)"
  proof (cases "?c \<le> o_cum_qty ?od")
    case True
    then have "s' = s" using assms(3) by (auto simp: absorb_cum_def Let_def min_def split: if_splits)
    then show ?thesis using assms(1) True by (simp add: max_absorb1)
  next
    case False
    let ?f = "\<lambda>od. od\<lparr>o_cum_qty := ?c\<rparr>" and ?g = "\<lambda>st. st\<lparr>st_missed_fills := st_missed_fills st + 1\<rparr>"
    let ?t = "add_open_qty (o_instrument ?od) (o_side ?od) (- (?c - o_cum_qty ?od)) (upd_order h ?f s)"
    have s': "s' = note_synthetic h (?c - o_cum_qty ?od) (o_price ?od) (upd_stats ?g ?t)"
      using assms(3) False by (auto simp: absorb_cum_def Let_def min_def upd_order_commute split: if_splits)
    have "oms_inv ?t"
      using ok False by (intro upd_order_inv assms) (auto simp: order_ok_def is_open_def order_ids_def leaves_qty_def)
    then have "oms_inv (upd_stats ?g ?t)" by (simp add: upd_stats_inv)
    then have "oms_inv s'" unfolding s' using False assms
      by (intro note_synthetic_inv) (auto simp: live_upd_order)
    then show ?thesis
      using False assms unfolding s' by (auto simp: live_upd_order order_at_upd_order max_absorb2)
  qed
  then show "oms_inv s'" "live s' = live s" "order_at s' = (order_at s)(h := ?od\<lparr>o_cum_qty := max (o_cum_qty ?od) ?c\<rparr>)"
    by auto
qed

section \<open>Terminal records\<close>

lemma rb_list_write:
  assumes "rb_inv r" "i < length (rb_list r)"
  shows "rb_list (r\<lparr>rb_buf := (rb_buf r)((unat (rb_head r) + i) mod 2 ^ rb_bits r := v)\<rparr>) = (rb_list r)[i := v]"
proof (rule nth_equalityI)
  let ?r = "r\<lparr>rb_buf := (rb_buf r)((unat (rb_head r) + i) mod 2 ^ rb_bits r := v)\<rparr>"
  have sz: "rb_size ?r = rb_size r" by (simp add: rb_size_def)
  then show "length (rb_list ?r) = length ((rb_list r)[i := v])" by (simp add: rb_length)
  fix j assume "j < length (rb_list ?r)"
  then have j: "j < unat (rb_size r)" by (simp add: rb_length sz)
  have i: "i < unat (rb_size r)" "unat (rb_size r) \<le> 2 ^ rb_bits r" using assms by (auto simp: rb_length rb_inv_def)
  have "(unat (rb_head r) + j) mod 2 ^ rb_bits r = (unat (rb_head r) + i) mod 2 ^ rb_bits r \<longleftrightarrow> i = j"
  proof (cases i j rule: linorder_cases)
    case less
    then have "j - i < 2 ^ rb_bits r" using i j by linarith
    then show ?thesis using mod_distinct [OF less, of "2 ^ rb_bits r" "unat (rb_head r)"] less by auto
  next
    case greater
    then have "i - j < 2 ^ rb_bits r" using i j by linarith
    then show ?thesis using mod_distinct [OF greater, of "2 ^ rb_bits r" "unat (rb_head r)"] greater by auto
  qed simp
  then show "rb_list ?r ! j = (rb_list r)[i := v] ! j"
    using j i by (simp add: rb_list_def sz nth_list_update)
qed

lemma oms_inv_ring: "oms_inv s \<Longrightarrow> rb_inv (om_ring s) \<and> rb_bits (om_ring s) \<le> 31"
  by (simp add: oms_inv_def oms_shape_def)

lemma oms_inv_routed: "oms_inv s \<Longrightarrow> routed (om_ids s) (om_ring s) (open_ids s)"
  by (simp add: oms_inv_def)

lemma oms_inv_ids: "oms_inv s \<Longrightarrow> ohm_inv (om_ids s)"
  by (simp add: oms_inv_def oms_shape_def)

text \<open>A position of the ring as the code addresses it, and its index in the list of records.\<close>

definition ring_at :: "terminal_record ring_buffer \<Rightarrow> nat \<Rightarrow> nat \<Rightarrow> bool" where
  "ring_at ring k i \<longleftrightarrow> i < length (rb_list ring) \<and> k = (unat (rb_head ring) + i) mod 2 ^ rb_bits ring"

lemma ring_at_buf: "ring_at ring k i \<Longrightarrow> rb_buf ring k = rb_list ring ! i"
  by (simp add: ring_at_def rb_list_def)

lemma find_terminal_at:
  assumes "oms_inv s" "find_terminal s cid = Some k"
  shows "\<exists>i. ring_at (om_ring s) k i \<and> tr_cl_ord_id (rb_list (om_ring s) ! i) = cid"
proof -
  note f = find_terminal_routed [OF oms_inv_routed [OF assms(1)], of cid] oms_inv_ring [OF assms(1)]
  then obtain v i where "names_record (om_ring s) cid v i" "k = (unat (rb_head (om_ring s)) + i) mod 2 ^ rb_bits (om_ring s)"
    using assms(2) by (auto split: option.splits if_splits)
  then show ?thesis by (auto simp: ring_at_def names_record_def)
qed

lemma names_record_upd:
  assumes "rb_inv ring" "ring_at ring k i" "tr_cl_ord_id r = tr_cl_ord_id (rb_list ring ! i)"
  shows "names_record (ring\<lparr>rb_buf := (rb_buf ring)(k := r)\<rparr>) cid v j = names_record ring cid v j"
proof -
  let ?ring = "ring\<lparr>rb_buf := (rb_buf ring)(k := r)\<rparr>"
  have l: "rb_list ?ring = (rb_list ring)[i := r]" using assms rb_list_write [of ring i r] by (simp add: ring_at_def)
  have "tr_cl_ord_id ((rb_list ring)[i := r] ! m) = tr_cl_ord_id (rb_list ring ! m)" if "m < length (rb_list ring)" for m
    using assms(3) that by (cases "m = i") auto
  then show ?thesis by (auto simp: names_record_def l terminal_ref_def rb_N_def)
qed

lemma sum_list_update_int:
  "i < length xs \<Longrightarrow> (\<Sum>x\<leftarrow>xs[i := y]. f x) = (\<Sum>x\<leftarrow>xs. f x) + (f y - f (xs ! i) :: int)"
  by (induction xs arbitrary: i) (auto split: nat.splits)

lemma terminal_inv:
  assumes inv: "oms_inv s" and k: "ring_at (om_ring s) k i" and r: "tr_cl_ord_id r = tr_cl_ord_id (rb_list (om_ring s) ! i)"
    and s': "om_ring s' = om_ring (upd_terminal k (\<lambda>_. r) s)"
    "om_pool s' = om_pool s" "om_by_inst s' = om_by_inst s" "om_ids s' = om_ids s" "om_exec_seen s' = om_exec_seen s"
    "om_open_qty s' = om_open_qty s" "om_open_per_inst s' = om_open_per_inst s" "om_estimates s' = om_estimates s"
    "st_open (om_stats s') = st_open (om_stats s)"
    "st_synthetic_pending (om_stats s') = st_synthetic_pending (om_stats s) +
       (of_bool (es_qty (tr_estimate r) > 0) - of_bool (es_qty (tr_estimate (rb_list (om_ring s) ! i)) > 0))"
  shows "oms_inv s'"
proof -
  have ring: "om_ring s' = (om_ring s)\<lparr>rb_buf := (rb_buf (om_ring s))(k := r)\<rparr>" by (simp add: s'(1) upd_terminal_def)
  have l: "rb_list (om_ring s') = (rb_list (om_ring s))[i := r]"
    unfolding ring using k rb_list_write [of "om_ring s" i r] oms_inv_ring [OF inv] by (simp add: ring_at_def)
  have at: "live s' = live s" "order_at s' = order_at s" using s'(2) by (simp_all add: live_def order_at_def fun_eq_iff)
  have o: "open_ids s' = open_ids s" "\<And>w. total w s' = total w s" by (simp_all add: open_ids_def total_def at)
  have rinv: "rb_inv (om_ring s')" "rb_bits (om_ring s') = rb_bits (om_ring s)"
    using oms_inv_ring [OF inv] by (simp_all add: ring rb_inv_def rb_size_def)
  have "routed (om_ids s') (om_ring s') (open_ids s')"
  proof -
    have "names_record (om_ring s') = names_record (om_ring s)"
      unfolding ring using names_record_upd [OF _ k r] oms_inv_ring [OF inv] by (simp add: fun_eq_iff)
    then show ?thesis using oms_inv_routed [OF inv] unfolding o s'(4) routed_def by metis
  qed
  moreover have "pending_estimates s' = pending_estimates s +
      (of_bool (es_qty (tr_estimate r) > 0) - of_bool (es_qty (tr_estimate (rb_list (om_ring s) ! i)) > 0))"
    unfolding pending_estimates_def l at s'(8)
    using sum_list_update_int [of i "rb_list (om_ring s)" "\<lambda>r. of_bool (es_qty (tr_estimate r) > 0)" r] k
    by (simp add: ring_at_def)
  ultimately show ?thesis
    using inv rinv s' by (simp add: oms_inv_def oms_parts at o)
qed

lemma take_estimate_rest:
  "take_estimate e q = (e', c) \<Longrightarrow> es_qty e > 0 \<Longrightarrow>
   0 \<le> es_qty e' \<and> c = min q (es_qty e) \<and> es_qty e' = es_qty e - c \<and> (es_qty e' > 0 \<longleftrightarrow> es_qty e - c > 0)"
  by (auto simp: take_estimate_def Let_def estimate_zero_def split: if_splits)

lemma take_synthetic_inv:
  assumes inv: "oms_inv s" and h: "h \<noteq> kNullHandle \<Longrightarrow> h \<in> live s" and t: "take_synthetic h cid q (s, u) = (s', u')"
  shows "oms_inv s' \<and> om_pool s' = om_pool s"
proof (cases "s' = s")
  case False
  show ?thesis
  proof (cases "h = kNullHandle")
    case False
    let ?e = "om_estimates s h"
    obtain e' c where e: "take_estimate ?e q = (e', c)" by fastforce
    have pos: "es_qty ?e > 0" using t False \<open>s' \<noteq> s\<close> by (auto simp: take_synthetic_def split: if_splits)
    note r = take_estimate_rest [OF e pos]
    have "oms_inv s'"
      by (rule estimate_inv [OF inv h [OF False], where e' = e'])
        (use t False pos e r in \<open>auto simp: take_synthetic_def Let_def upd_stats_def upd_estimate_def same_but_estimates_def\<close>)
    then show ?thesis
      using t False pos e by (auto simp: take_synthetic_def Let_def upd_stats_def upd_estimate_def)
  next
    case True
    then obtain k where k: "find_terminal s cid = Some k"
      using t \<open>s' \<noteq> s\<close> by (auto simp: take_synthetic_def split: option.splits)
    then obtain i where i: "ring_at (om_ring s) k i" "tr_cl_ord_id (rb_list (om_ring s) ! i) = cid"
      using find_terminal_at [OF inv] by blast
    let ?r = "rb_list (om_ring s) ! i"
    obtain e' c where e: "take_estimate (tr_estimate ?r) q = (e', c)" by fastforce
    have pos: "es_qty (tr_estimate ?r) > 0"
      using t True k \<open>s' \<noteq> s\<close> ring_at_buf [OF i(1)] by (auto simp: take_synthetic_def split: if_splits)
    note r = take_estimate_rest [OF e pos]
    have "oms_inv s'"
      by (rule terminal_inv [OF inv i(1), where r = "?r\<lparr>tr_estimate := e'\<rparr>"])
        (use t True k pos e r ring_at_buf [OF i(1)] in
          \<open>auto simp: take_synthetic_def Let_def upd_stats_def upd_terminal_def\<close>)
    then show ?thesis
      using t True k pos e ring_at_buf [OF i(1)] by (auto simp: take_synthetic_def Let_def upd_stats_def upd_terminal_def)
  qed
qed (use inv in simp)

lemma late_fill_inv:
  assumes inv: "oms_inv s" and t: "late_fill m (s, u) = (s', u')"
  shows "oms_inv s' \<and> om_pool s' = om_pool s"
proof (cases "s' = s")
  case False
  then obtain k where k: "find_terminal s (fmsg_cl_ord_id m) = Some k"
    using t by (auto simp: late_fill_def split: option.splits)
  then obtain i where i: "ring_at (om_ring s) k i" using find_terminal_at [OF inv] by blast
  let ?r = "rb_list (om_ring s) ! i"
  define c where "c = late_cum m (u_corrected_qty u) ?r"
  define f where "f \<longleftrightarrow> c \<ge> tr_qty ?r \<and> (tr_state ?r = Canceled \<or> tr_state ?r = Expired)"
  define st where "st = (if f then Filled else tr_state ?r)"
  have s': "s' = (if f then upd_stats (\<lambda>st. st\<lparr>st_filled := st_filled st + 1\<rparr>) else id)
      (upd_terminal k (\<lambda>_. ?r\<lparr>tr_cum_qty := c, tr_state := st\<rparr>) s)"
    using t False k ring_at_buf [OF i]
    by (auto simp: late_fill_def Let_def c_def f_def st_def split: if_splits)
  have "oms_inv s'"
    by (rule terminal_inv [OF inv i, where r = "?r\<lparr>tr_cum_qty := c, tr_state := st\<rparr>"])
      (auto simp: s' upd_stats_def upd_terminal_def)
  then show ?thesis by (simp add: s' upd_stats_def upd_terminal_def)
qed (use inv in simp)

section \<open>Looking up an id\<close>

lemma lookup_open:
  assumes inv: "oms_inv s" and l: "lookup s cid u = (h, u')" and h: "h \<noteq> kNullHandle"
  shows "h \<in> live s \<and> cid \<in> order_ids (order_at s h) \<and> u' = u\<lparr>u_known := True, u_handle := h\<rparr>"
proof -
  obtain v where v: "ohm_find (om_ids s) cid = Some v" "\<not> is_terminal_ref v" "h = unat v" "u' = u\<lparr>u_known := True, u_handle := h\<rparr>"
    using l h by (auto simp: lookup_def split: option.splits if_splits)
  have "(cid, h) \<in> open_ids s" using routed_open [OF oms_inv_routed [OF inv] v(1,2)] v(3) by simp
  then show ?thesis using v(4) by (simp add: open_ids_def)
qed

lemma open_handle_iff:
  assumes "oms_inv s"
  shows "open_handle s cid = h \<and> h \<noteq> kNullHandle \<longleftrightarrow> (cid, h) \<in> open_ids s"
proof
  assume a: "open_handle s cid = h \<and> h \<noteq> kNullHandle"
  then show "(cid, h) \<in> open_ids s"
    using routed_open [OF oms_inv_routed [OF assms], of cid] by (auto simp: open_handle_def split: option.splits if_splits)
next
  assume a: "(cid, h) \<in> open_ids s"
  then have "h \<in> live s" by (simp add: open_ids_def)
  then show "open_handle s cid = h \<and> h \<noteq> kNullHandle"
    using oms_inv_cap [OF assms, of h] routed_find [OF oms_inv_routed [OF assms] a] by (simp add: open_handle_def)
qed

lemma open_handle_null: "oms_inv s \<Longrightarrow> open_handle s cid = kNullHandle \<longleftrightarrow> (\<forall>h. (cid, h) \<notin> open_ids s)"
  by (metis open_handle_iff)

lemma open_ids_own: "h \<in> live s \<Longrightarrow> (c, h) \<in> open_ids s \<longleftrightarrow> c \<in> order_ids (order_at s h)"
  by (simp add: open_ids_def)

lemma open_ids_fun:
  assumes "oms_inv s" "h \<in> live s" "(c, g) \<in> open_ids s" "c \<in> order_ids (order_at s h)"
  shows "g = h"
  using routed_fun [OF oms_inv_routed [OF assms(1)] assms(3), of h] assms(2,4) open_ids_own by blast

section \<open>Ending an order\<close>

text \<open>The table after the ids of one order are taken out.\<close>

definition ids_without :: "nat \<Rightarrow> oms \<Rightarrow> (cl_ord_id \<times> nat) set" where
  "ids_without h s = {(c, g). (c, g) \<in> open_ids s \<and> g \<noteq> h}"

lemma ids_without_drop:
  assumes inv: "oms_inv s" and h: "h \<in> live s"
  shows "ids_without h s = {(c, g). (c, g) \<in> open_ids s \<and> c \<notin> order_ids (order_at s h)}"
proof -
  have "(c, h) \<in> open_ids s" if "c \<in> order_ids (order_at s h)" for c using that h by (simp add: open_ids_def)
  then show ?thesis
    using routed_fun [OF oms_inv_routed [OF inv]] by (auto simp: ids_without_def open_ids_def)
qed

lemma drop_open_frame [simp]:
  "om_pool (drop_open c s) = om_pool s" "om_by_inst (drop_open c s) = om_by_inst s" "om_ring (drop_open c s) = om_ring s"
  "om_exec_seen (drop_open c s) = om_exec_seen s" "om_open_qty (drop_open c s) = om_open_qty s"
  "om_open_per_inst (drop_open c s) = om_open_per_inst s" "om_estimates (drop_open c s) = om_estimates s"
  "om_stats (drop_open c s) = om_stats s" "om_best_own (drop_open c s) = om_best_own s" "om_times (drop_open c s) = om_times s"
  "live (drop_open c s) = live s" "order_at (drop_open c s) = order_at s"
  by (auto simp: drop_open_def live_def order_at_def split: option.splits)

lemma drop_pending_frame [simp]:
  "om_pool (drop_pending od s) = om_pool s" "om_by_inst (drop_pending od s) = om_by_inst s" "om_ring (drop_pending od s) = om_ring s"
  "om_exec_seen (drop_pending od s) = om_exec_seen s" "om_open_qty (drop_pending od s) = om_open_qty s"
  "om_open_per_inst (drop_pending od s) = om_open_per_inst s" "om_estimates (drop_pending od s) = om_estimates s"
  "om_stats (drop_pending od s) = om_stats s" "om_best_own (drop_pending od s) = om_best_own s" "om_times (drop_pending od s) = om_times s"
  "live (drop_pending od s) = live s" "order_at (drop_pending od s) = order_at s"
  by (simp_all add: drop_pending_def)

lemma drop_pending_routed:
  assumes r: "routed (om_ids s) ring R" and inv: "ohm_inv (om_ids s)"
  shows "ohm_inv (om_ids (drop_pending od s)) \<and> ohm_bits (om_ids (drop_pending od s)) = ohm_bits (om_ids s) \<and>
    routed (om_ids (drop_pending od s)) ring {(c, g). (c, g) \<in> R \<and> (c \<in> order_ids od \<longrightarrow> c = o_cl_ord_id od)}"
proof (cases "o_pending_cl_ord_id od \<noteq> 0 \<and> o_pending_cl_ord_id od \<noteq> o_cl_ord_id od")
  case True
  then have "{(c, g). (c, g) \<in> R \<and> (c \<in> order_ids od \<longrightarrow> c = o_cl_ord_id od)} = {(c, g). (c, g) \<in> R \<and> c \<noteq> o_pending_cl_ord_id od}"
    by (auto simp: order_ids_def)
  then show ?thesis using True routed_drop_open [OF r inv] by (simp add: drop_pending_def)
next
  case False
  then have "{(c, g). (c, g) \<in> R \<and> (c \<in> order_ids od \<longrightarrow> c = o_cl_ord_id od)} = R" by (auto simp: order_ids_def)
  then show ?thesis using False assms by (auto simp: drop_pending_def)
qed

lemma sum_remove_int: "finite A \<Longrightarrow> h \<in> A \<Longrightarrow> (\<Sum>x\<in>A - {h}. f x) = (\<Sum>x\<in>A. f x) - (f h :: int)"
  by (simp add: sum_diff1)

text \<open>Records pushed on the ring: the estimates that wait, and the ones it forgets.\<close>

lemma push_estimates:
  assumes "rb_inv ring"
  shows "(\<Sum>r\<leftarrow>rb_list (rb_push ring x). of_bool (es_qty (tr_estimate r) > 0)) =
    (\<Sum>r\<leftarrow>rb_list ring. of_bool (es_qty (tr_estimate r) > 0)) + of_bool (es_qty (tr_estimate x) > 0) -
    (of_bool (forgets ring) :: int)"
proof (cases "rb_full ring")
  case True
  then have "rb_list ring \<noteq> []" using rb_full_iff [OF assms] by auto
  then obtain y ys where "rb_list ring = y # ys" by (cases "rb_list ring") auto
  then show ?thesis using True rb_push_list [OF assms, of x] rb_front_hd [of ring] by (simp add: forgets_def)
next
  case False
  then show ?thesis using rb_push_list [OF assms, of x] by (simp add: forgets_def)
qed

end
