(* ===== verification/OmsOps.thy ===== *)
theory OmsOps
  imports OmsInv
begin

text \<open>
  The invariant of the order manager is kept by the operations that move ids and slots: ending an
  order, completing or giving up a replace, and asking for one.
\<close>

lemma bb_bucket_id: "bb_inv bb \<Longrightarrow> key < bb_buckets bb \<Longrightarrow> bb_bucket bb key = key"
proof -
  assume a: "bb_inv bb" "key < bb_buckets bb"
  then obtain k where k: "bb_buckets bb = 2 ^ k" by (auto simp: bb_inv_def)
  have "bb_bucket bb key = key mod 2 ^ k"
    unfolding bb_bucket_def k by (simp add: take_bit_eq_mask mask_eq_exp_minus_1 flip: take_bit_eq_mod)
  then show ?thesis using a(2) k by simp
qed

lemma inst_bucket: "oms_inv s \<Longrightarrow> i < kMaxInstruments \<Longrightarrow> bb_bucket (om_by_inst s) i = i"
  by (intro bb_bucket_id) (simp_all add: oms_inv_def oms_shape_def)

lemma order_gone_inv:
  assumes inv: "oms_inv s" and h: "h \<in> live s"
    and pool: "pool_inv (om_pool s')" "live s' = live s - {h}" "pl_capacity (om_pool s') = pl_capacity (om_pool s)"
      "\<And>g. g \<noteq> h \<Longrightarrow> order_at s' g = order_at s g"
    and bi: "om_by_inst s' = bb_clear (om_by_inst s) (bb_bucket (om_by_inst s) (o_instrument (order_at s h))) h"
    and ids: "ohm_inv (om_ids s')" "ohm_bits (om_ids s') = ohm_bits (om_ids s)"
      "routed (om_ids s') (om_ring s') (ids_without h s)"
    and ring: "om_ring s' = rb_push (om_ring s) r" "tr_estimate r = om_estimates s h"
    and rest: "om_exec_seen s' = om_exec_seen s" "\<And>g. g \<noteq> h \<Longrightarrow> om_estimates s' g = om_estimates s g"
      "st_open (om_stats s') = st_open (om_stats s) - 1"
      "st_synthetic_pending (om_stats s') = st_synthetic_pending (om_stats s) - of_bool (forgets (om_ring s))"
      "\<And>i. om_open_per_inst s' i = om_open_per_inst s i - of_bool (o_instrument (order_at s h) = i)"
      "\<And>i sd. om_open_qty s' i sd = om_open_qty s i sd - open_leaves i sd (order_at s h)"
  shows "oms_inv s'"
proof -
  have i: "o_instrument (order_at s h) < kMaxInstruments" using live_ok [OF inv h] by (simp add: order_ok_def)
  note sh = inv [unfolded oms_inv_def oms_shape_def]
  have hb: "h < bb_slots (om_by_inst s)" using sh oms_inv_cap [OF inv h] by simp
  have bid: "bb_bucket (om_by_inst s) (o_instrument (order_at s h)) = o_instrument (order_at s h)" by (rule inst_bucket [OF inv i])
  have rinv: "rb_inv (om_ring s')" "rb_bits (om_ring s') = rb_bits (om_ring s)"
    using rb_push_list [of "om_ring s" r] oms_inv_ring [OF inv] by (simp_all add: ring(1))
  have tot: "total w s' = total w s - w (order_at s h)" for w
  proof -
    have "(\<Sum>g\<in>live s - {h}. w (order_at s' g)) = (\<Sum>g\<in>live s - {h}. w (order_at s g))" using pool(4) by (intro sum.cong) auto
    then show ?thesis unfolding total_def pool(2) by (simp add: sum_remove_int [OF live_finite h])
  qed
  have est: "(\<Sum>g\<in>live s'. of_bool (es_qty (om_estimates s' g) > 0)) =
      (\<Sum>g\<in>live s. of_bool (es_qty (om_estimates s g) > 0)) - (of_bool (es_qty (om_estimates s h) > 0) :: int)"
  proof -
    have "(\<Sum>g\<in>live s - {h}. of_bool (es_qty (om_estimates s' g) > 0) :: int) = (\<Sum>g\<in>live s - {h}. of_bool (es_qty (om_estimates s g) > 0))"
      using rest(2) by (intro sum.cong) auto
    then show ?thesis unfolding pool(2) by (simp add: sum_remove_int [OF live_finite h])
  qed
  have pe: "pending_estimates s' = pending_estimates s - of_bool (forgets (om_ring s))"
    using push_estimates [of "om_ring s" r] oms_inv_ring [OF inv]
    unfolding pending_estimates_def est ring by simp
  have "open_ids s' = ids_without h s"
    using pool(2,4) by (auto simp: open_ids_def ids_without_def)
  moreover have "bb_inv (om_by_inst s')"
    unfolding bi using sh hb i by (intro bb_clear_inv) (auto simp: bid)
  then have "oms_shape s'" using sh pool(1,3) ids(1,2) rinv rest(1) by (simp add: oms_shape_def bi)
  moreover have "oms_orders s'" using inv pool(2,4) by (auto simp: oms_inv_def oms_orders_def)
  moreover have "oms_index s'"
    unfolding oms_index_def
  proof (intro allI impI)
    fix b g assume b: "b < kMaxInstruments"
    then have "bb_mem (om_by_inst s) b g \<longleftrightarrow> g \<in> live s \<and> o_instrument (order_at s g) = b"
      using inv by (simp add: oms_inv_def oms_index_def)
    then show "bb_mem (om_by_inst s') b g \<longleftrightarrow> g \<in> live s' \<and> o_instrument (order_at s' g) = b"
      unfolding bi bid using hb pool(2) pool(4) [of g] by (cases "g = h") auto
  qed
  moreover have "oms_counts s'" using inv rest by (simp add: oms_inv_def oms_counts_def tot)
  moreover have "oms_gauge s'" using inv rest(2,4) pe pool(2) by (auto simp: oms_inv_def oms_gauge_def)
  ultimately show ?thesis using ids(3) by (simp add: oms_inv_def)
qed

lemma remember_terminal_keeps:
  assumes "remember_terminal r (s, u) = (s', u')"
  shows "om_pool s' = om_pool s" "om_by_inst s' = om_by_inst s" "om_exec_seen s' = om_exec_seen s"
    "om_open_qty s' = om_open_qty s" "om_open_per_inst s' = om_open_per_inst s" "om_estimates s' = om_estimates s"
    "om_best_own s' = om_best_own s" "om_times s' = om_times s" "live s' = live s" "order_at s' = order_at s"
    "st_open (om_stats s') = st_open (om_stats s)"
    "st_synthetic_pending (om_stats s') = st_synthetic_pending (om_stats s) - of_bool (forgets (om_ring s))"
proof -
  obtain ids where s': "s' = s\<lparr>om_stats := om_stats s', om_ids := ids, om_ring := om_ring s'\<rparr>"
    using remember_terminal_frame(3) [OF assms] by blast
  have "om_pool s' = om_pool s \<and> om_by_inst s' = om_by_inst s \<and> om_exec_seen s' = om_exec_seen s \<and>
    om_open_qty s' = om_open_qty s \<and> om_open_per_inst s' = om_open_per_inst s \<and> om_estimates s' = om_estimates s \<and>
    om_best_own s' = om_best_own s \<and> om_times s' = om_times s"
    by (subst (1 2 3 4 5 6 7 8) s') simp
  then show "om_pool s' = om_pool s" "om_by_inst s' = om_by_inst s" "om_exec_seen s' = om_exec_seen s"
    "om_open_qty s' = om_open_qty s" "om_open_per_inst s' = om_open_per_inst s" "om_estimates s' = om_estimates s"
    "om_best_own s' = om_best_own s" "om_times s' = om_times s" "live s' = live s" "order_at s' = order_at s"
    by (auto simp: live_def order_at_def)
  show "st_open (om_stats s') = st_open (om_stats s)"
    "st_synthetic_pending (om_stats s') = st_synthetic_pending (om_stats s) - of_bool (forgets (om_ring s))"
    by (simp_all add: remember_terminal_frame(2) [OF assms])
qed

lemma record_of_simps [simp]:
  "tr_cl_ord_id (record_of s h st b) = o_cl_ord_id (order_at s h)" "tr_estimate (record_of s h st b) = om_estimates s h"
  "tr_cum_qty (record_of s h st b) = o_cum_qty (order_at s h)" "tr_qty (record_of s h st b) = o_qty (order_at s h)"
  "tr_state (record_of s h st b) = st" "tr_instrument (record_of s h st b) = o_instrument (order_at s h)"
  "tr_side (record_of s h st b) = o_side (order_at s h)"
  by (simp_all add: record_of_def Let_def)

text \<open>The state just before the record is pushed, and what the rest of \<^verbatim>\<open>terminate\<close> does.\<close>

lemma terminate_unfold:
  assumes inv: "oms_inv s" and h: "h \<in> live s" and t: "terminate h final br (s, u) = (s', u')"
  obtains s5 s6 u6 tm where "remember_terminal (record_of s5 h final br) (s5, u) = (s6, u6)"
    "om_pool s5 = om_pool (upd_order h (\<lambda>od. od\<lparr>o_state := final\<rparr>) s)"
    "order_at s5 h = (order_at s h)\<lparr>o_state := final\<rparr>" "om_estimates s5 = om_estimates s" "om_ring s5 = om_ring s"
    "om_ids s5 = om_ids (drop_pending (order_at s h) s)" "om_by_inst s5 = om_by_inst s" "om_exec_seen s5 = om_exec_seen s"
    "st_open (om_stats s5) = st_open (om_stats s) - 1" "st_synthetic_pending (om_stats s5) = st_synthetic_pending (om_stats s)"
    "\<And>i. om_open_per_inst s5 i = om_open_per_inst s i - of_bool (o_instrument (order_at s h) = i)"
    "\<And>i sd. om_open_qty s5 i sd = om_open_qty s i sd - open_leaves i sd (order_at s h)"
    "s' = (let s8 = s6\<lparr>om_estimates := (om_estimates s6)(h := estimate_zero),
                       om_by_inst := bb_clear (om_by_inst s6) (bb_bucket (om_by_inst s6) (o_instrument (order_at s h))) h,
                       om_pool := pool_free (om_pool s6) h\<rparr>
           in if o_price (order_at s h) = om_best_own s6 (o_instrument (order_at s h)) (o_side (order_at s h))
              then recompute_best_own (o_instrument (order_at s h)) (o_side (order_at s h)) s8 else s8)"
    "u' = u6\<lparr>u_order := (order_at s h)\<lparr>o_state := final\<rparr>, u_handle := kNullHandle, u_times := tm, u_slot := h,
             u_changed := True, u_terminal := True\<rparr>"
proof -
  let ?od = "order_at s h" and ?f = "\<lambda>od. od\<lparr>o_state := final\<rparr>"
  let ?i = "o_instrument (?f ?od)" and ?sd = "o_side (?f ?od)"
  define s1 where "s1 = upd_order h ?f s"
  define s2 where "s2 = (if final = Canceled then upd_stats (\<lambda>st. st\<lparr>st_canceled := st_canceled st + 1\<rparr>) s1 else s1)"
  define s4 where "s4 = add_open_qty ?i ?sd (- leaves_qty (?f ?od)) (add_open_count ?i (- 1) s2)"
  define s5 where "s5 = drop_pending (?f ?od) s4"
  obtain s6 u6 where s6: "remember_terminal (record_of s5 h final br) (s5, u) = (s6, u6)" by fastforce
  define s7 where "s7 = upd_estimate h (\<lambda>e. estimate_zero) s6"
  define s8 where "s8 = s7\<lparr>om_by_inst := bb_clear (om_by_inst s7) (bb_bucket (om_by_inst s7) ?i) h,
                              om_pool := pool_free (om_pool s7) h\<rparr>"
  have od: "order_at s1 h = ?f ?od" unfolding s1_def using inv h by (simp add: order_at_upd_order)
  have e: "(if o_price (?f ?od) = om_best_own s8 ?i ?sd then recompute_best_own ?i ?sd s8 else s8) = s'"
    "u6\<lparr>u_order := ?f ?od, u_handle := kNullHandle, u_times := tsl_times (om_times s7 h), u_slot := h, u_changed := True, u_terminal := True\<rparr> = u'"
    using t unfolding terminate_def
    by (simp_all only: Let_def prod.case s1_def [symmetric] od s2_def [symmetric] s4_def [symmetric] s5_def [symmetric] s6
        s7_def [symmetric] s8_def [symmetric] prod.inject)
  have f4: "om_ids s4 = om_ids s" "om_pool s4 = om_pool s1" "om_ring s4 = om_ring s" "om_estimates s4 = om_estimates s"
    "om_by_inst s4 = om_by_inst s" "om_exec_seen s4 = om_exec_seen s" "st_open (om_stats s4) = st_open (om_stats s) - 1"
    "st_synthetic_pending (om_stats s4) = st_synthetic_pending (om_stats s)"
    by (simp_all add: s4_def s2_def s1_def add_open_qty_def add_open_count_def upd_stats_def upd_order_def)
  have s8: "s8 = s6\<lparr>om_estimates := (om_estimates s6)(h := estimate_zero),
      om_by_inst := bb_clear (om_by_inst s6) (bb_bucket (om_by_inst s6) (o_instrument ?od)) h, om_pool := pool_free (om_pool s6) h\<rparr>"
    by (simp add: s8_def s7_def upd_estimate_def)
  show thesis
  proof (rule that [OF s6 _ _ _ _ _ _ _ _ _ _ _ _ e(2) [symmetric]])
    show "order_at s5 h = ?f ?od" using od f4 by (simp add: s5_def order_at_def)
    show "om_ids s5 = om_ids (drop_pending ?od s)" using f4(1) by (simp add: s5_def drop_pending_def drop_open_def split: option.splits)
    show "om_open_per_inst s5 i = om_open_per_inst s i - of_bool (o_instrument ?od = i)" for i
      by (simp add: s5_def s4_def s2_def s1_def add_open_qty_def add_open_count_def upd_stats_def upd_order_def)
    show "om_open_qty s5 i sd = om_open_qty s i sd - open_leaves i sd ?od" for i sd
      by (simp add: s5_def s4_def s2_def s1_def add_open_qty_def add_open_count_def upd_stats_def upd_order_def open_leaves_def leaves_qty_def)
  qed (use f4 e(1) in \<open>simp_all add: s5_def s1_def s8 Let_def cong: if_cong\<close>)
qed

lemma terminate_ids:
  assumes inv: "oms_inv s" and h: "h \<in> live s" and r: "remember_terminal (record_of s5 h final br) (s5, u) = (s6, u6)"
    and at: "order_at s5 h = (order_at s h)\<lparr>o_state := final\<rparr>" "om_ring s5 = om_ring s" "om_ids s5 = om_ids (drop_pending (order_at s h) s)"
  shows "ohm_inv (om_ids s6)" "ohm_bits (om_ids s6) = ohm_bits (om_ids s)" "routed (om_ids s6) (om_ring s6) (ids_without h s)"
    "ohm_find (om_ids s6) (o_cl_ord_id (order_at s h)) = Some (terminal_ref (om_ring s) (rb_tail (om_ring s)))"
proof -
  let ?od = "order_at s h" and ?R = "{(c, g). (c, g) \<in> open_ids s \<and> (c \<in> order_ids (order_at s h) \<longrightarrow> c = o_cl_ord_id (order_at s h))}"
  have ids5: "ohm_inv (om_ids s5)" "ohm_bits (om_ids s5) = ohm_bits (om_ids s)" "routed (om_ids s5) (om_ring s5) ?R"
    using drop_pending_routed [OF oms_inv_routed [OF inv] oms_inv_ids [OF inv], of ?od] by (simp_all add: at)
  have c: "tr_cl_ord_id (record_of s5 h final br) = o_cl_ord_id ?od" by (simp add: at)
  have mem: "(tr_cl_ord_id (record_of s5 h final br), h) \<in> ?R" unfolding c using h by (simp add: open_ids_def order_ids_def)
  have eq: "{(c, g). (c, g) \<in> ?R \<and> c \<noteq> tr_cl_ord_id (record_of s5 h final br)} = ids_without h s"
    unfolding ids_without_drop [OF inv h] c by (auto simp: order_ids_def)
  have ri: "rb_inv (om_ring s5)" "rb_bits (om_ring s5) \<le> 31" using oms_inv_ring [OF inv] by (simp_all add: at)
  note rr = remember_terminal_routed [OF ids5(3,1) ri mem r]
  show "ohm_inv (om_ids s6)" "ohm_bits (om_ids s6) = ohm_bits (om_ids s)" "routed (om_ids s6) (om_ring s6) (ids_without h s)"
    using rr ids5(2) unfolding eq by auto
  show "ohm_find (om_ids s6) (o_cl_ord_id ?od) = Some (terminal_ref (om_ring s) (rb_tail (om_ring s)))"
    using rr by (simp add: c at)
qed

lemma terminate_inv:
  assumes inv: "oms_inv s" and h: "h \<in> live s" and t: "terminate h final br (s, u) = (s', u')"
  shows "oms_inv s'" "live s' = live s - {h}" "\<And>g. g \<noteq> h \<Longrightarrow> order_at s' g = order_at s g"
proof -
  let ?od = "order_at s h" and ?f = "\<lambda>od. od\<lparr>o_state := final\<rparr>"
  obtain s5 s6 u6 tm where r: "remember_terminal (record_of s5 h final br) (s5, u) = (s6, u6)"
    and s5: "om_pool s5 = om_pool (upd_order h ?f s)" "order_at s5 h = ?f ?od" "om_estimates s5 = om_estimates s" "om_ring s5 = om_ring s"
    "om_ids s5 = om_ids (drop_pending ?od s)" "om_by_inst s5 = om_by_inst s" "om_exec_seen s5 = om_exec_seen s"
    "st_open (om_stats s5) = st_open (om_stats s) - 1" "st_synthetic_pending (om_stats s5) = st_synthetic_pending (om_stats s)"
    "\<And>i. om_open_per_inst s5 i = om_open_per_inst s i - of_bool (o_instrument ?od = i)"
    "\<And>i sd. om_open_qty s5 i sd = om_open_qty s i sd - open_leaves i sd ?od"
    and s': "s' = (let s8 = s6\<lparr>om_estimates := (om_estimates s6)(h := estimate_zero),
                       om_by_inst := bb_clear (om_by_inst s6) (bb_bucket (om_by_inst s6) (o_instrument ?od)) h,
                       om_pool := pool_free (om_pool s6) h\<rparr>
           in if o_price ?od = om_best_own s6 (o_instrument ?od) (o_side ?od) then recompute_best_own (o_instrument ?od) (o_side ?od) s8 else s8)"
    and "u' = u6\<lparr>u_order := ?f ?od, u_handle := kNullHandle, u_times := tm, u_slot := h, u_changed := True, u_terminal := True\<rparr>"
    using terminate_unfold [OF inv h t] that by blast
  define s8 where "s8 = s6\<lparr>om_estimates := (om_estimates s6)(h := estimate_zero),
      om_by_inst := bb_clear (om_by_inst s6) (bb_bucket (om_by_inst s6) (o_instrument ?od)) h, om_pool := pool_free (om_pool s6) h\<rparr>"
  note k = remember_terminal_keeps [OF r] and pl = upd_order_at [OF oms_inv_pool [OF inv] h, of ?f]
    and ids6 = terminate_ids [OF inv h r s5(2,4,5)]
  have h1: "h \<in> pool_live (om_pool s5)" "pool_inv (om_pool s5)" using pl h by (simp_all add: s5 live_def)
  note fr = pool_free_law [OF h1(2,1)]
  have pool8: "om_pool s8 = pool_free (om_pool s5) h" by (simp add: s8_def k)
  have live8: "live s8 = live s - {h}" using fr pl(1) by (simp add: live_def pool8) (simp add: s5)
  have at8: "order_at s8 g = order_at s g" if "g \<noteq> h" for g
  proof -
    have "order_at s8 g = order_at (upd_order h ?f s) g" using fr that by (simp add: order_at_def pool8) (simp add: s5)
    then show ?thesis using that by (simp add: pl(2))
  qed
  have i8: "oms_inv s8"
  proof (rule order_gone_inv [OF inv h _ live8 _ at8, where r = "record_of s5 h final br"])
    show "pool_inv (om_pool s8)" "pl_capacity (om_pool s8) = pl_capacity (om_pool s)"
      using fr by (simp_all add: pool8) (simp add: s5 upd_order_def pool_put_def)
  qed (use ids6 in \<open>simp_all add: s8_def k s5 remember_terminal_frame(1) [OF r]\<close>)
  show "oms_inv s'" "live s' = live s - {h}" "\<And>g. g \<noteq> h \<Longrightarrow> order_at s' g = order_at s g"
    using i8 live8 at8 unfolding s' s8_def [symmetric] by (simp_all add: Let_def)
qed

section \<open>Replacing an order\<close>

lemma order_changed_inv:
  assumes inv: "oms_inv s" and h: "h \<in> live s"
    and pool: "pool_inv (om_pool s')" "live s' = live s" "pl_capacity (om_pool s') = pl_capacity (om_pool s)"
      "order_at s' = (order_at s)(h := od)"
    and od: "order_ok od" "o_instrument od = o_instrument (order_at s h)" "o_side od = o_side (order_at s h)"
    and ids: "ohm_inv (om_ids s')" "ohm_bits (om_ids s') = ohm_bits (om_ids s)"
      "routed (om_ids s') (om_ring s') (ids_without h s \<union> {(c, g). g = h \<and> c \<in> order_ids od})"
    and ring: "rb_inv (om_ring s')" "rb_bits (om_ring s') = rb_bits (om_ring s)" "oms_gauge s'"
    and rest: "om_by_inst s' = om_by_inst s" "om_exec_seen s' = om_exec_seen s" "st_open (om_stats s') = st_open (om_stats s)"
      "om_open_per_inst s' = om_open_per_inst s"
      "\<And>i sd. om_open_qty s' i sd = om_open_qty s i sd + (open_leaves i sd od - open_leaves i sd (order_at s h))"
  shows "oms_inv s'"
proof -
  have tot: "total w s' = total w s + (w od - w (order_at s h))" for w
    unfolding total_def pool(2,4) by (rule total_upd) (use h in auto)
  have "open_ids s' = ids_without h s \<union> {(c, g). g = h \<and> c \<in> order_ids od}"
    using h by (auto simp: open_ids_def ids_without_def pool(2,4) split: if_splits)
  moreover have "oms_shape s'" using inv pool(1,3) ids(1,2) ring(1,2) rest by (simp add: oms_inv_def oms_shape_def)
  moreover have "oms_orders s'" using inv od(1) by (simp add: oms_inv_def oms_orders_def pool)
  moreover have "oms_index s'" using inv od(2) rest(1) by (auto simp: oms_inv_def oms_index_def pool)
  moreover have "oms_counts s'" using inv rest od(2) by (simp add: oms_inv_def oms_counts_def tot)
  ultimately show ?thesis using ids(3) ring(3) by (simp add: oms_inv_def)
qed

text \<open>The order after its replacement is acknowledged.\<close>

definition replaced :: "bool \<Rightarrow> bool \<Rightarrow> order \<Rightarrow> order" where
  "replaced rekey new_venue_order od =
     order_replace new_venue_order (if rekey then od\<lparr>o_cl_ord_id := o_pending_cl_ord_id od\<rparr> else od)"

lemma replaced_ok:
  assumes "order_ok od" "rekey \<longrightarrow> o_pending_cl_ord_id od \<noteq> 0"
  shows "order_ok (replaced rekey nvo od)"
  using assms by (auto simp: order_ok_def replaced_def order_replace_def Let_def is_open_def is_terminal_def working_state_def)

lemma replaced_ids: "order_ids (replaced rekey nvo od) = {if rekey then o_pending_cl_ord_id od else o_cl_ord_id od}"
  by (auto simp: order_ids_def replaced_def order_replace_def Let_def)

lemma replaced_simps [simp]:
  "o_instrument (replaced rekey nvo od) = o_instrument od" "o_side (replaced rekey nvo od) = o_side od"
  by (simp_all add: replaced_def order_replace_def Let_def)

lemma ids_without_rekey:
  assumes inv: "oms_inv s" and h: "h \<in> live s" and p: "o_pending_cl_ord_id (order_at s h) \<noteq> 0"
    and c: "rekey \<longleftrightarrow> o_pending_cl_ord_id (order_at s h) \<noteq> o_cl_ord_id (order_at s h)"
  shows "ids_without h s \<union> {(c, g). g = h \<and> c \<in> order_ids (replaced rekey nvo (order_at s h))} =
    {(c, g). (c, g) \<in> open_ids s \<and> (rekey \<longrightarrow> c \<noteq> o_cl_ord_id (order_at s h))}"
  unfolding ids_without_drop [OF inv h] replaced_ids using p c open_ids_own [OF h] open_ids_fun [OF inv h]
  by (auto simp: order_ids_def split: if_splits)

lemma keep_old_leg_facts:
  assumes inv: "oms_inv s" and h: "h \<in> live s" and s1: "s1 = add_open_qty i sd d s" and k: "keep_old_leg h (s1, u) = (s2, u2)"
  defines "c \<equiv> o_cl_ord_id (order_at s h)"
  shows "om_pool s2 = om_pool s \<and> om_by_inst s2 = om_by_inst s \<and> om_exec_seen s2 = om_exec_seen s \<and>
    om_open_qty s2 = om_open_qty s1 \<and> om_open_per_inst s2 = om_open_per_inst s \<and> st_open (om_stats s2) = st_open (om_stats s) \<and>
    om_best_own s2 = om_best_own s \<and>
    ohm_inv (om_ids s2) \<and> ohm_bits (om_ids s2) = ohm_bits (om_ids s) \<and> rb_inv (om_ring s2) \<and> rb_bits (om_ring s2) = rb_bits (om_ring s) \<and>
    oms_gauge s2 \<and> (routed (om_ids s2) (om_ring s2) (open_ids s) \<or> routed (om_ids s2) (om_ring s2) {(a, g). (a, g) \<in> open_ids s \<and> a \<noteq> c})"
proof -
  have f1: "om_pool s1 = om_pool s" "om_by_inst s1 = om_by_inst s" "om_exec_seen s1 = om_exec_seen s" "om_ids s1 = om_ids s"
    "om_open_per_inst s1 = om_open_per_inst s" "om_stats s1 = om_stats s" "om_ring s1 = om_ring s" "om_estimates s1 = om_estimates s"
    "live s1 = live s" "order_at s1 = order_at s" "om_best_own s1 = om_best_own s"
    by (simp_all add: s1 add_open_qty_def live_def order_at_def fun_eq_iff)
  have g1: "oms_gauge s1" using inv by (simp add: oms_inv_def oms_gauge_def pending_estimates_def f1)
  note ri = oms_inv_ring [OF inv] and ro = oms_inv_routed [OF inv] and oi = oms_inv_ids [OF inv]
  show ?thesis
  proof (cases "es_qty (om_estimates s h) > 0")
    case False
    then have "s2 = s1" using k by (simp add: keep_old_leg_def f1)
    then show ?thesis using g1 ri ro oi by (simp add: f1)
  next
    case True
    define e where "e = (if o_cum_qty (order_at s h) \<ge> o_qty (order_at s h) then Filled else Canceled)"
    obtain s' u' where r: "remember_terminal (record_of s1 h e False) (s1, u) = (s', u')" by fastforce
    have s2: "s2 = upd_estimate h (\<lambda>e. estimate_zero) s'"
      using k True r by (simp add: keep_old_leg_def Let_def f1 e_def [symmetric])
    note kp = remember_terminal_keeps [OF r] and ring' = remember_terminal_frame(1) [OF r]
    have mem: "(tr_cl_ord_id (record_of s1 h e False), h) \<in> open_ids s" using h by (simp add: open_ids_def order_ids_def f1)
    have rt: "routed (om_ids s1) (om_ring s1) (open_ids s)" "ohm_inv (om_ids s1)" "rb_inv (om_ring s1)" "rb_bits (om_ring s1) \<le> 31"
      using ri ro oi by (simp_all add: f1)
    note rr = remember_terminal_routed [OF rt mem r]
    have "rb_inv (om_ring s') \<and> rb_bits (om_ring s') = rb_bits (om_ring s)"
      using rb_push_list [of "om_ring s1"] ri by (simp add: ring' f1)
    moreover have "oms_gauge s2"
    proof -
      have l2: "live s2 = live s" by (simp add: s2 kp f1)
      have e2: "om_estimates s2 = (om_estimates s)(h := estimate_zero)" by (simp add: s2 upd_estimate_def kp f1)
      have "(\<Sum>g\<in>live s2. of_bool (es_qty (om_estimates s2 g) > 0)) = (\<Sum>g\<in>live s. of_bool (es_qty (om_estimates s g) > 0)) - (1 :: int)"
        unfolding l2 e2 using total_upd [of "live s" h "\<lambda>e. of_bool (es_qty e > 0)" "om_estimates s" estimate_zero] h True
        by (simp add: estimate_zero_def)
      moreover have "om_ring s2 = rb_push (om_ring s) (record_of s1 h e False)" by (simp add: s2 upd_estimate_def ring' f1)
      ultimately have "pending_estimates s2 = pending_estimates s - of_bool (forgets (om_ring s))"
        using push_estimates [of "om_ring s" "record_of s1 h e False"] ri True by (simp add: pending_estimates_def f1)
      moreover have "st_synthetic_pending (om_stats s2) = st_synthetic_pending (om_stats s) - of_bool (forgets (om_ring s))"
        using kp(12) by (simp add: s2 upd_estimate_def f1)
      ultimately show ?thesis
        using inv unfolding oms_gauge_def l2 e2 by (auto simp: oms_inv_def oms_gauge_def estimate_zero_def)
    qed
    ultimately show ?thesis using rr kp by (simp add: s2 upd_estimate_def f1 c_def)
  qed
qed

lemma replace_leg_facts:
  assumes inv: "oms_inv s" and h: "h \<in> live s" and s1: "s1 = add_open_qty i sd d s"
    and s2: "(if rekey \<and> nvo then keep_old_leg h (s1, u) else (s1, u)) = (s2, u2)"
  shows "om_pool s2 = om_pool s \<and> om_by_inst s2 = om_by_inst s \<and> om_exec_seen s2 = om_exec_seen s \<and>
    om_open_qty s2 = om_open_qty s1 \<and> om_open_per_inst s2 = om_open_per_inst s \<and> st_open (om_stats s2) = st_open (om_stats s) \<and>
    om_best_own s2 = om_best_own s \<and>
    ohm_inv (om_ids s2) \<and> ohm_bits (om_ids s2) = ohm_bits (om_ids s) \<and> rb_inv (om_ring s2) \<and> rb_bits (om_ring s2) = rb_bits (om_ring s) \<and>
    oms_gauge s2 \<and> (routed (om_ids s2) (om_ring s2) (open_ids s) \<or>
      rekey \<and> routed (om_ids s2) (om_ring s2) {(a, g). (a, g) \<in> open_ids s \<and> a \<noteq> o_cl_ord_id (order_at s h)})"
proof (cases "rekey \<and> nvo")
  case True
  then show ?thesis using keep_old_leg_facts [OF inv h s1, of u s2 u2] s2 by auto
next
  case False
  then have "s2 = s1" using s2 by auto
  moreover have "oms_gauge s1" using inv by (simp add: oms_inv_def oms_gauge_def pending_estimates_def s1) (simp add: add_open_qty_def)
  ultimately show ?thesis using oms_inv_ring [OF inv] oms_inv_routed [OF inv] oms_inv_ids [OF inv] by (simp add: s1 add_open_qty_def)
qed

lemma rekey_routed:
  assumes "ohm_inv (om_ids s)" "ohm_bits (om_ids s) = b"
    and r: "routed (om_ids s) ring R \<or> rekey \<and> routed (om_ids s) ring {(a, g). (a, g) \<in> R \<and> a \<noteq> c}"
    and s': "s' = (if rekey then upd_order h f (drop_open c s) else s)"
  shows "ohm_inv (om_ids s') \<and> ohm_bits (om_ids s') = b \<and> routed (om_ids s') ring {(a, g). (a, g) \<in> R \<and> (rekey \<longrightarrow> a \<noteq> c)}"
proof (cases rekey)
  case True
  have "{(a, g). (a, g) \<in> {(a, g). (a, g) \<in> R \<and> a \<noteq> c} \<and> a \<noteq> c} = {(a, g). (a, g) \<in> R \<and> a \<noteq> c}" by auto
  then show ?thesis
    using assms True routed_drop_open [of s ring R c] routed_drop_open [of s ring "{(a, g). (a, g) \<in> R \<and> a \<noteq> c}" c]
    by (auto simp: upd_order_def)
qed (use assms in simp)

lemma replace_best_inv [simp]:
  "oms_inv (replace_best i sd p q s) = oms_inv s" "live (replace_best i sd p q s) = live s" "order_at (replace_best i sd p q s) = order_at s"
  by (simp_all add: replace_best_def Let_def)

lemma apply_replace_inv:
  assumes inv: "oms_inv s" and h: "h \<in> live s" and p: "o_pending_cl_ord_id (order_at s h) \<noteq> 0"
    and c: "rekey \<longleftrightarrow> o_pending_cl_ord_id (order_at s h) \<noteq> o_cl_ord_id (order_at s h)"
    and a: "apply_replace h rekey nvo (s, u) = (s', u')"
  shows "oms_inv s'" "live s' = live s" "order_at s' = (order_at s)(h := replaced rekey nvo (order_at s h))"
proof -
  let ?od = "order_at s h" and ?i = "o_instrument (order_at s h)" and ?sd = "o_side (order_at s h)"
  let ?fr = "\<lambda>od. od\<lparr>o_cl_ord_id := o_pending_cl_ord_id od\<rparr>" and ?new = "replaced rekey nvo (order_at s h)"
  define s1 where "s1 = add_open_qty ?i ?sd (- leaves_qty ?od) s"
  obtain s2 u2 where s2: "(if rekey \<and> nvo then keep_old_leg h (s1, u) else (s1, u)) = (s2, u2)" by fastforce
  define s3 where "s3 = (if rekey then upd_order h ?fr (drop_open (o_cl_ord_id ?od) s2) else s2)"
  define s4 where "s4 = upd_order h (order_replace nvo) s3"
  define s5 where "s5 = add_open_qty ?i ?sd (leaves_qty (order_at s4 h)) s4"
  have s': "s' = replace_best ?i ?sd (o_price ?od) (o_price (order_at s5 h)) s5"
    using a unfolding apply_replace_def
    by (simp only: Let_def prod.case s1_def [symmetric] s2 s3_def [symmetric] s4_def [symmetric] s5_def [symmetric] prod.inject)
  note k = replace_leg_facts [OF inv h s1_def s2]
  have l2: "live s2 = live s" "order_at s2 = order_at s" using k by (simp_all add: live_def order_at_def fun_eq_iff)
  have p2: "pool_inv (om_pool s2)" "h \<in> live s2" using oms_inv_pool [OF inv] h k l2 by simp_all
  have p3: "pool_inv (om_pool s3) \<and> live s3 = live s \<and> order_at s3 = (order_at s)(h := if rekey then ?fr ?od else ?od)"
    using upd_order_at [of "drop_open (o_cl_ord_id ?od) s2" h ?fr] p2 by (simp add: s3_def l2)
  then have h3: "h \<in> live s3" using h by simp
  note p4 = upd_order_at [OF conjunct1 [OF p3] h3, of "order_replace nvo"]
  have at5: "live s5 = live s" "order_at s5 = (order_at s)(h := ?new)" "order_at s4 h = ?new"
    using p3 p4 by (auto simp: s5_def s4_def replaced_def)
  have ids3: "ohm_inv (om_ids s3) \<and> ohm_bits (om_ids s3) = ohm_bits (om_ids s) \<and>
    routed (om_ids s3) (om_ring s2) {(a, g). (a, g) \<in> open_ids s \<and> (rekey \<longrightarrow> a \<noteq> o_cl_ord_id ?od)}"
    by (rule rekey_routed [OF _ _ _ s3_def]) (use k in auto)
  have f5: "om_ids s5 = om_ids s3" "om_ring s5 = om_ring s2" "om_by_inst s5 = om_by_inst s2" "om_exec_seen s5 = om_exec_seen s2"
    "om_open_per_inst s5 = om_open_per_inst s2" "om_stats s5 = om_stats s2" "om_estimates s5 = om_estimates s2"
    "pl_capacity (om_pool s5) = pl_capacity (om_pool s2)" "om_pool s5 = om_pool s4"
    by (simp_all add: s5_def s4_def s3_def add_open_qty_def upd_order_def pool_put_def)
  have ok: "order_ok ?new" using live_ok [OF inv h] p by (intro replaced_ok) auto
  have "oms_inv s5"
  proof (rule order_changed_inv [OF inv h _ at5(1) _ at5(2) ok])
    show "pool_inv (om_pool s5)" using p4(3) by (simp add: f5 s4_def)
    show "routed (om_ids s5) (om_ring s5) (ids_without h s \<union> {(c, g). g = h \<and> c \<in> order_ids ?new})"
      unfolding ids_without_rekey [OF inv h p c] using ids3 by (simp add: f5)
    show "oms_gauge s5" using k l2 by (simp add: oms_gauge_def pending_estimates_def f5 at5(1))
    show "om_open_qty s5 i sd = om_open_qty s i sd + (open_leaves i sd ?new - open_leaves i sd ?od)" for i sd
      using k by (simp add: s5_def at5(3)) (simp add: s4_def s3_def s1_def add_open_qty_def upd_order_def open_leaves_def)
  qed (use k ids3 in \<open>simp_all add: f5\<close>, simp add: f5(9)[symmetric] f5(8) k)
  then show "oms_inv s'" unfolding s' by simp
  show "live s' = live s" "order_at s' = (order_at s)(h := ?new)" unfolding s' by (simp_all add: at5)
qed

section \<open>Clearing a pending replace\<close>

lemma clear_pending_inv:
  assumes inv: "oms_inv s" and h: "h \<in> live s"
  shows "oms_inv (clear_pending h s)" "live (clear_pending h s) = live s"
    "order_at (clear_pending h s) = (order_at s)(h := order_clear_pending (order_at s h))"
proof -
  let ?od = "order_at s h" and ?s = "drop_pending (order_at s h) s"
  have p: "pool_inv (om_pool ?s)" "h \<in> live ?s" using oms_inv_pool [OF inv] h by simp_all
  note u = upd_order_at [OF p, of order_clear_pending]
  have at: "live (clear_pending h s) = live s" "order_at (clear_pending h s) = (order_at s)(h := order_clear_pending ?od)"
    "pool_inv (om_pool (clear_pending h s))" using u by (simp_all add: clear_pending_def)
  have f: "om_ids (clear_pending h s) = om_ids ?s" "om_ring (clear_pending h s) = om_ring s" "om_by_inst (clear_pending h s) = om_by_inst s"
    "om_exec_seen (clear_pending h s) = om_exec_seen s" "om_open_per_inst (clear_pending h s) = om_open_per_inst s"
    "om_open_qty (clear_pending h s) = om_open_qty s" "om_stats (clear_pending h s) = om_stats s"
    "om_estimates (clear_pending h s) = om_estimates s" "pl_capacity (om_pool (clear_pending h s)) = pl_capacity (om_pool s)"
    by (simp_all add: clear_pending_def upd_order_def pool_put_def)
  have "ids_without h s \<union> {(c, g). g = h \<and> c \<in> order_ids (order_clear_pending ?od)} =
      {(c, g). (c, g) \<in> open_ids s \<and> (c \<in> order_ids ?od \<longrightarrow> c = o_cl_ord_id ?od)}"
    unfolding ids_without_drop [OF inv h] using open_ids_fun [OF inv h] open_ids_own [OF h]
    by (auto simp: order_ids_def order_clear_pending_def)
  then have r: "ohm_inv (om_ids ?s)" "ohm_bits (om_ids ?s) = ohm_bits (om_ids s)"
    "routed (om_ids ?s) (om_ring s) (ids_without h s \<union> {(c, g). g = h \<and> c \<in> order_ids (order_clear_pending ?od)})"
    using drop_pending_routed [OF oms_inv_routed [OF inv] oms_inv_ids [OF inv], of ?od] by auto
  have ok: "order_ok (order_clear_pending ?od)"
    using live_ok [OF inv h] by (auto simp: order_ok_def order_clear_pending_def is_open_def)
  show "oms_inv (clear_pending h s)"
  proof (rule order_changed_inv [OF inv h at(3,1) _ at(2) ok])
    show "oms_gauge (clear_pending h s)" using inv by (simp add: oms_inv_def oms_gauge_def pending_estimates_def f at)
  qed (use r oms_inv_ring [OF inv] in \<open>simp_all add: f order_clear_pending_def open_leaves_def leaves_qty_def\<close>)
  show "live (clear_pending h s) = live s" "order_at (clear_pending h s) = (order_at s)(h := order_clear_pending ?od)" by (fact at)+
qed

section \<open>New ids\<close>

lemma open_ids_card: "finite (fst ` open_ids s)" "card (fst ` open_ids s) \<le> 2 * card (live s)"
proof -
  let ?A = "(\<lambda>h. o_cl_ord_id (order_at s h)) ` live s" and ?B = "(\<lambda>h. o_pending_cl_ord_id (order_at s h)) ` live s"
  have sub: "fst ` open_ids s \<subseteq> ?A \<union> ?B" by (auto simp: open_ids_def order_ids_def)
  then show "finite (fst ` open_ids s)" by (rule finite_subset) simp
  have "card (fst ` open_ids s) \<le> card (?A \<union> ?B)" using sub by (intro card_mono) auto
  also have "\<dots> \<le> card ?A + card ?B" by (rule card_Un_le)
  also have "\<dots> \<le> 2 * card (live s)" using card_image_le [OF live_finite, of "\<lambda>h. o_cl_ord_id (order_at s h)" s]
      card_image_le [OF live_finite, of "\<lambda>h. o_pending_cl_ord_id (order_at s h)" s] by simp
  finally show "card (fst ` open_ids s) \<le> 2 * card (live s)" .
qed

lemma live_card: "pool_inv (om_pool s) \<Longrightarrow> card (live s) \<le> pl_capacity (om_pool s)"
  using card_mono [of "{..<pl_capacity (om_pool s)}" "live s"] by (auto simp: live_def pool_live_def)

text \<open>There is always room for one more id, so \<^verbatim>\<open>add_open\<close> never fails.\<close>

lemma add_open_succeeds:
  assumes inv: "oms_inv s"
  shows "\<exists>m i. ohm_assign (om_ids s) cid v = (m, Some i) \<and> ohm_inv m \<and> ohm_find m = (ohm_find (om_ids s))(cid \<mapsto> v) \<and>
    ohm_bits m = ohm_bits (om_ids s)"
proof -
  have "ohm_size (om_ids s) \<le> 2 * pl_capacity (om_pool s) + length (rb_list (om_ring s))"
    using routed_size [OF oms_inv_routed [OF inv] oms_inv_ids [OF inv] open_ids_card(1), of "2 * pl_capacity (om_pool s)"]
      open_ids_card(2) [of s] live_card [OF oms_inv_pool [OF inv]] by simp
  also have "\<dots> < kMaxSize (2 ^ ohm_bits (om_ids s))"
    using inv rb.bounded [of "om_ring s"] by (auto simp: oms_inv_def oms_shape_def)
  finally show ?thesis using ohm_assign_law [OF oms_inv_ids [OF inv], of cid v] by auto
qed

lemma request_replace_inv:
  assumes inv: "oms_inv s" and r: "request_replace h new_id px q now s = (s', res)" and new: "new_id \<noteq> 0" "0 \<le> q"
  shows "oms_inv s'"
proof (cases "res = None")
  case False
  then have "s' = s \<or> (\<exists>ok. add_open s new_id h = (s', ok) \<and> \<not> ok)"
    using r by (auto simp: request_replace_def split: if_splits prod.splits)
  then show ?thesis using inv add_open_succeeds [OF inv, of new_id "of_nat h"] by (auto simp: add_open_def)
next
  case True
  let ?od = "order_at s h"
  let ?f = "\<lambda>od. od\<lparr>o_pending_cl_ord_id := new_id, o_pending_price := px, o_pending_qty := q, o_state := PendingReplace\<rparr>"
  have h: "h \<in> live s" and w: "is_working ?od"
    using r True by (auto simp: request_replace_def pool_is_live_iff live_def split: if_splits)
  have ok: "order_ok ?od" by (rule live_ok [OF inv h])
  have p0: "o_pending_cl_ord_id ?od = 0" using ok w by (auto simp: order_ok_def is_working_def)
  obtain ids where s': "s' = set_replace h new_id px q now (s\<lparr>om_ids := ids\<rparr>)"
    and ids: "ohm_inv ids" "ohm_bits ids = ohm_bits (om_ids s)"
    "routed ids (om_ring s) (insert (new_id, h) (open_ids s))"
  proof (cases "new_id = o_cl_ord_id ?od")
    case True
    then have "insert (new_id, h) (open_ids s) = open_ids s" using h by (auto simp: open_ids_def order_ids_def)
    moreover have "s' = set_replace h new_id px q now s" using r \<open>res = None\<close> True by (auto simp: request_replace_def split: if_splits)
    ultimately show thesis using that [of "om_ids s"] oms_inv_ids [OF inv] oms_inv_routed [OF inv] by simp
  next
    case False
    then have n: "open_handle s new_id = kNullHandle" using r \<open>res = None\<close> by (auto simp: request_replace_def split: if_splits)
    obtain m i where m: "ohm_assign (om_ids s) new_id (of_nat h) = (m, Some i)" "ohm_inv m"
      "ohm_find m = (ohm_find (om_ids s))(new_id \<mapsto> of_nat h)" "ohm_bits m = ohm_bits (om_ids s)"
      using add_open_succeeds [OF inv] by blast
    have "routed m (om_ring s) (insert (new_id, h) (open_ids s))"
      using n open_handle_null [OF inv] oms_inv_cap [OF inv h] by (intro routed_add [OF oms_inv_routed [OF inv] m(3)]) auto
    moreover have "s' = set_replace h new_id px q now (s\<lparr>om_ids := m\<rparr>)"
      using r True False n m(1) by (auto simp: request_replace_def add_open_def split: if_splits)
    ultimately show thesis using that m by blast
  qed
  let ?s = "upd_order h ?f (s\<lparr>om_ids := ids\<rparr>)"
  have l: "live (s\<lparr>om_ids := ids\<rparr>) = live s" "order_at (s\<lparr>om_ids := ids\<rparr>) = order_at s"
    by (simp_all add: live_def order_at_def fun_eq_iff)
  note u = upd_order_at [of "s\<lparr>om_ids := ids\<rparr>" h ?f, simplified l, OF _ h]
  have p: "pool_inv (om_pool (s\<lparr>om_ids := ids\<rparr>))" using oms_inv_pool [OF inv] by simp
  have "ids_without h s \<union> {(c, g). g = h \<and> c \<in> order_ids (?f ?od)} = insert (new_id, h) (open_ids s)"
    using h p0 new by (auto simp: ids_without_def open_ids_def order_ids_def)
  then have r': "routed ids (om_ring s) (ids_without h s \<union> {(c, g). g = h \<and> c \<in> order_ids (?f ?od)})" using ids(3) by simp
  have "oms_inv ?s"
  proof (rule order_changed_inv [OF inv h u(3) u(1) _ u(2)])
    show "order_ok (?f ?od)" using ok new by (auto simp: order_ok_def is_open_def is_terminal_def)
    show "oms_gauge ?s" using inv u(1) p by (simp add: oms_inv_def oms_gauge_def pending_estimates_def) (simp add: upd_order_def)
  qed (use r' ids p oms_inv_ring [OF inv] in \<open>simp_all add: upd_order_def pool_put_def open_leaves_def leaves_qty_def\<close>)
  then show ?thesis unfolding s' set_replace_def by simp
qed

end
