(* ===== verification/OmsHandlers.thy ===== *)
theory OmsHandlers
  imports OmsOps
begin

text \<open>
  Every public operation of the order manager keeps the invariant. The operations are the rules of
  a step relation, whose reachable states therefore all satisfy it; the constructor of the code
  starts from a state that does.
\<close>

section \<open>New orders\<close>

lemma order_added_inv:
  assumes inv: "oms_inv s" and h: "h \<notin> live s" "h < pl_capacity (om_pool s)"
    and pool: "pool_inv (om_pool s')" "live s' = insert h (live s)" "pl_capacity (om_pool s') = pl_capacity (om_pool s)"
      "order_at s' h = od" "\<And>g. g \<noteq> h \<Longrightarrow> order_at s' g = order_at s g"
    and od: "order_ok od"
    and bi: "om_by_inst s' = bb_set (om_by_inst s) (bb_bucket (om_by_inst s) (o_instrument od)) h"
    and ids: "ohm_inv (om_ids s')" "ohm_bits (om_ids s') = ohm_bits (om_ids s)"
      "routed (om_ids s') (om_ring s') (open_ids s \<union> {(c, g). g = h \<and> c \<in> order_ids od})"
    and rest: "om_ring s' = om_ring s" "om_exec_seen s' = om_exec_seen s"
      "om_estimates s' = (om_estimates s)(h := estimate_zero)"
      "st_open (om_stats s') = st_open (om_stats s) + 1"
      "st_synthetic_pending (om_stats s') = st_synthetic_pending (om_stats s)"
      "\<And>i. om_open_per_inst s' i = om_open_per_inst s i + of_bool (o_instrument od = i)"
      "\<And>i sd. om_open_qty s' i sd = om_open_qty s i sd + open_leaves i sd od"
  shows "oms_inv s'"
proof -
  have i: "o_instrument od < kMaxInstruments" using od by (simp add: order_ok_def)
  note sh = inv [unfolded oms_inv_def oms_shape_def]
  have hb: "h < bb_slots (om_by_inst s)" using sh h by simp
  have bid: "bb_bucket (om_by_inst s) (o_instrument od) = o_instrument od" by (rule inst_bucket [OF inv i])
  have tot: "total w s' = total w s + w od" for w
  proof -
    have "(\<Sum>g\<in>live s. w (order_at s' g)) = (\<Sum>g\<in>live s. w (order_at s g))" using pool(5) h by (intro sum.cong refl arg_cong [of _ _ w]) metis
    then show ?thesis using h pool(4) unfolding total_def pool(2) by simp
  qed
  have est: "(\<Sum>g\<in>live s. of_bool (es_qty (om_estimates s' g) > 0) :: int) = (\<Sum>g\<in>live s. of_bool (es_qty (om_estimates s g) > 0))"
    using h unfolding rest(3) by (intro sum.cong) auto
  have pe: "pending_estimates s' = pending_estimates s"
    using h est rest(1) unfolding pending_estimates_def pool(2) by (simp add: rest(3) estimate_zero_def)
  have "open_ids s' = open_ids s \<union> {(c, g). g = h \<and> c \<in> order_ids od}"
    unfolding open_ids_def pool(2) using pool(4,5) h by auto metis+
  moreover have "bb_inv (om_by_inst s')"
    unfolding bi using sh hb i by (intro bb_set_inv) (auto simp: bid)
  then have "oms_shape s'" using sh pool(1,3) ids(1,2) rest by (simp add: oms_shape_def bi)
  moreover have "oms_orders s'"
    unfolding oms_orders_def
  proof
    fix g assume "g \<in> live s'"
    then show "order_ok (order_at s' g)" using inv od pool by (cases "g = h") (auto simp: oms_inv_def oms_orders_def)
  qed
  moreover have "oms_index s'"
    unfolding oms_index_def
  proof (intro allI impI)
    fix b g assume b: "b < kMaxInstruments"
    then have "bb_mem (om_by_inst s) b g \<longleftrightarrow> g \<in> live s \<and> o_instrument (order_at s g) = b"
      using inv by (simp add: oms_inv_def oms_index_def)
    then show "bb_mem (om_by_inst s') b g \<longleftrightarrow> g \<in> live s' \<and> o_instrument (order_at s' g) = b"
      unfolding bi bid using hb pool(2,4) pool(5) [of g] h by (cases "g = h") auto
  qed
  moreover have "oms_counts s'" using inv rest by (simp add: oms_inv_def oms_counts_def tot)
  moreover have "oms_gauge s'" using inv rest pe pool(2) by (auto simp: oms_inv_def oms_gauge_def estimate_zero_def)
  ultimately show ?thesis using ids(3) by (simp add: oms_inv_def)
qed

lemma new_order_ok:
  "nr_instrument req < kMaxInstruments \<Longrightarrow> 0 \<le> nr_qty req \<Longrightarrow> cid \<noteq> 0 \<Longrightarrow>
   order_ok (new_order req cid now) \<and> order_ids (new_order req cid now) = {cid}"
  by (auto simp: order_ok_def order_ids_def new_order_def order_zero_def is_open_def is_terminal_def)

text \<open>The two ways \<^verbatim>\<open>submit\<close> can refuse an order, and what it does otherwise.\<close>

lemma submit_cases:
  assumes inv: "oms_inv s" and sub: "submit req cid now s = (s', r)"
  obtains (instrument) "nr_instrument req \<ge> kMaxInstruments" "r = Inl InstrumentDisabled" "s' = s"
  | (duplicate) "nr_instrument req < kMaxInstruments" "\<exists>h. (cid, h) \<in> open_ids s" "r = Inl DuplicateId" "s' = s"
  | (full) "nr_instrument req < kMaxInstruments" "\<forall>h. (cid, h) \<notin> open_ids s" "live s = {..<pl_capacity (om_pool s)}"
      "r = Inl PoolExhausted" "s' = s"
  | (accepted) h p m where "nr_instrument req < kMaxInstruments" "\<forall>h. (cid, h) \<notin> open_ids s" "r = Inr h"
      "pool_allocate (om_pool s) = (p, h)" "h \<noteq> kNullHandle"
      "ohm_inv m" "ohm_find m = (ohm_find (om_ids s))(cid \<mapsto> of_nat h)" "ohm_bits m = ohm_bits (om_ids s)"
      "s' = install_order req cid now h (s\<lparr>om_pool := p, om_ids := m\<rparr>)"
proof (cases "nr_instrument req \<ge> kMaxInstruments")
  case True
  then have "r = Inl InstrumentDisabled" "s' = s" using sub by (simp_all add: submit_def)
  then show thesis using True by (intro instrument)
next
  case i: False
  show thesis
  proof (cases "open_handle s cid = kNullHandle")
    case False
    then have "\<exists>h. (cid, h) \<in> open_ids s" using open_handle_null [OF inv] by blast
    moreover have "r = Inl DuplicateId" "s' = s" using sub i False by (simp_all add: submit_def)
    ultimately show thesis using i by (intro duplicate) simp_all
  next
    case True
    then have n: "\<forall>h. (cid, h) \<notin> open_ids s" using open_handle_null [OF inv] by blast
    obtain p h where p: "pool_allocate (om_pool s) = (p, h)" by fastforce
    note al = pool_allocate_law [OF oms_inv_pool [OF inv] p]
    show thesis
    proof (cases "h = kNullHandle")
      case null: True
      then have "p = om_pool s" "live s = {..<pl_capacity (om_pool s)}"
        using al oms_inv_pool [OF inv] by (auto simp: live_def pool_inv_def)
      moreover from this have "r = Inl PoolExhausted" "s' = s" using sub i True p null by (simp_all add: submit_def)
      ultimately show thesis using i n by (intro full) simp_all
    next
      case False
      obtain m k where m: "ohm_assign (om_ids s) cid (of_nat h) = (m, Some k)" "ohm_inv m"
        "ohm_find m = (ohm_find (om_ids s))(cid \<mapsto> of_nat h)" "ohm_bits m = ohm_bits (om_ids s)"
        using add_open_succeeds [OF inv] by blast
      have "s' = install_order req cid now h (s\<lparr>om_pool := p, om_ids := m\<rparr>)" "r = Inr h"
        using sub i True p False m(1) by (simp_all add: submit_def add_open_def)
      then show thesis using i by (intro accepted [OF _ n _ p False m(2,3,4)]) simp_all
    qed
  qed
qed

lemma submit_inv:
  assumes inv: "oms_inv s" and sub: "submit req cid now s = (s', r)" and req: "cid \<noteq> 0" "0 \<le> nr_qty req"
  shows "oms_inv s'" "r = Inr h \<Longrightarrow> h \<notin> live s \<and> live s' = insert h (live s) \<and> order_at s' h = new_order req cid now \<and>
    (\<forall>g. g \<noteq> h \<longrightarrow> order_at s' g = order_at s g)"
proof -
  have "oms_inv s' \<and> (r = Inr h \<longrightarrow> h \<notin> live s \<and> live s' = insert h (live s) \<and> order_at s' h = new_order req cid now \<and>
    (\<forall>g. g \<noteq> h \<longrightarrow> order_at s' g = order_at s g))"
    using inv sub
  proof (cases rule: submit_cases)
    case (accepted k p m)
    let ?s = "s\<lparr>om_pool := p, om_ids := m\<rparr>" and ?od = "new_order req cid now"
    have al: "k < pl_capacity (om_pool s)" "k \<notin> live s" "pool_inv p" "pool_live p = insert k (live s)"
      "pl_slots p = pl_slots (om_pool s)" "pl_capacity p = pl_capacity (om_pool s)"
      using pool_allocate_law [OF oms_inv_pool [OF inv] accepted(4)] accepted(5) by (auto simp: live_def)
    have nz: "?od \<in> {?od}" by simp
    note ok = new_order_ok [OF accepted(1) req(2,1), of now]
    let ?s2 = "?s\<lparr>om_by_inst := bb_set (om_by_inst s) (bb_bucket (om_by_inst s) (nr_instrument req)) k\<rparr>"
    have l2: "live ?s2 = insert k (live s)" "\<And>g. order_at ?s2 g = order_at s g"
      using al by (simp_all add: live_def order_at_def pool_get_def)
    have s': "om_pool s' = om_pool (upd_order k (\<lambda>_. ?od) ?s2)" "om_ids s' = m" "om_ring s' = om_ring s"
      "om_by_inst s' = om_by_inst ?s2"
      by (simp_all add: accepted(9) install_order_def Let_def set_best_own_def add_open_qty_def add_open_count_def upd_stats_def
          upd_estimate_def upd_times_def upd_order_def)
    have p2: "pool_inv (om_pool ?s2)" "k \<in> live ?s2" using al l2 by simp_all
    note u = upd_order_at [OF p2, of "\<lambda>_. ?od"]
    have at: "pool_inv (om_pool s')" "live s' = insert k (live s)" "order_at s' k = ?od" "\<And>g. g \<noteq> k \<Longrightarrow> order_at s' g = order_at s g"
      using u l2 s'(1) by (simp_all add: live_def order_at_def fun_eq_iff)
    have r31: "k < 2 ^ 31" using al inv by (auto simp: oms_inv_def oms_shape_def)
    have "open_ids s \<union> {(c, g). g = k \<and> c \<in> order_ids ?od} = insert (cid, k) (open_ids s)" using ok by auto
    then have rt: "routed (om_ids s') (om_ring s') (open_ids s \<union> {(c, g). g = k \<and> c \<in> order_ids ?od})"
      using routed_add [OF oms_inv_routed [OF inv] accepted(7) r31] accepted(2) by (simp add: s')
    have "oms_inv s'"
    proof (rule order_added_inv [OF inv al(2,1) at(1,2) _ at(3,4) conjunct1 [OF ok] _ _ _ rt])
      show "pl_capacity (om_pool s') = pl_capacity (om_pool s)" using al(6) by (simp add: s' upd_order_def pool_put_def)
    qed (use accepted(6,8) in \<open>simp_all add: s' new_order_def\<close>,
        simp_all add: accepted(9) install_order_def Let_def set_best_own_def add_open_qty_def add_open_count_def upd_stats_def
          upd_estimate_def upd_times_def upd_order_def open_leaves_def leaves_qty_def order_zero_def)
    then show ?thesis using at al(2) accepted(3) by auto
  qed (use inv in auto)
  then show "oms_inv s'" "r = Inr h \<Longrightarrow> h \<notin> live s \<and> live s' = insert h (live s) \<and> order_at s' h = new_order req cid now \<and>
    (\<forall>g. g \<noteq> h \<longrightarrow> order_at s' g = order_at s g)" by auto
qed

section \<open>Handlers\<close>

text \<open>Writes that leave the ids, the instrument, the side and the quantities of an order alone.\<close>

definition quiet :: "(order \<Rightarrow> order) \<Rightarrow> order \<Rightarrow> bool" where
  "quiet f od \<longleftrightarrow>
     o_instrument (f od) = o_instrument od \<and> o_side (f od) = o_side od \<and> o_cl_ord_id (f od) = o_cl_ord_id od \<and>
     o_pending_cl_ord_id (f od) = o_pending_cl_ord_id od \<and> o_pending_qty (f od) = o_pending_qty od \<and>
     o_qty (f od) = o_qty od \<and> o_cum_qty (f od) = o_cum_qty od \<and> is_open (f od) \<and>
     (o_pending_cl_ord_id od \<noteq> 0 \<longrightarrow> o_state (f od) = PendingReplace)"

lemma quiet_inv:
  assumes "oms_inv s" "h \<in> live s" "quiet f (order_at s h)"
  shows "oms_inv (upd_order h f s)"
  using live_ok [OF assms(1,2)] assms
  by (intro upd_order_inv0) (auto simp: quiet_def order_ok_def order_ids_def leaves_qty_def)

lemma working_open [simp]: "\<not> is_terminal (working_state c)"
  by (simp add: working_state_def is_terminal_def)

lemma live_pending:
  "oms_inv s \<Longrightarrow> h \<in> live s \<Longrightarrow> o_state (order_at s h) \<noteq> PendingReplace \<Longrightarrow> o_pending_cl_ord_id (order_at s h) = 0"
  using live_ok order_ok_def by blast

lemma live_open: "oms_inv s \<Longrightarrow> h \<in> live s \<Longrightarrow> \<not> is_terminal (o_state (order_at s h))"
  using live_ok order_ok_def is_open_def by blast

lemma request_cancel_inv:
  assumes inv: "oms_inv s" shows "oms_inv (fst (request_cancel h s))"
proof (cases "pool_is_live (om_pool s) h \<and> is_working (order_at s h)")
  case True
  then have h: "h \<in> live s" "o_state (order_at s h) \<noteq> PendingReplace" by (auto simp: pool_is_live_iff live_def is_working_def)
  have "quiet (\<lambda>od. od\<lparr>o_state := PendingCancel\<rparr>) (order_at s h)"
    using live_pending [OF inv h] by (simp add: quiet_def is_open_def is_terminal_def)
  then show ?thesis using True inv h by (simp add: request_cancel_def quiet_inv)
qed (use inv in \<open>auto simp: request_cancel_def\<close>)

lemma request_cancel_unacked_inv:
  assumes inv: "oms_inv s" shows "oms_inv (fst (request_cancel_unacked h s))"
proof (cases "pool_is_live (om_pool s) h \<and> o_state (order_at s h) = PendingNew")
  case True
  then have h: "h \<in> live s" "o_state (order_at s h) \<noteq> PendingReplace" by (auto simp: pool_is_live_iff live_def)
  have "quiet (\<lambda>od. od\<lparr>o_state := PendingCancel\<rparr>) (order_at s h)"
    using live_pending [OF inv h] by (simp add: quiet_def is_open_def is_terminal_def)
  then show ?thesis using True inv h by (simp add: request_cancel_unacked_def quiet_inv)
qed (use inv in \<open>auto simp: request_cancel_unacked_def\<close>)

text \<open>A handler is applied to the order a lookup found, or it leaves the live orders alone.\<close>

lemma stats_step_inv [simp]:
  "oms_inv (upd_stats (\<lambda>st. st\<lparr>st_unknown_ids := st_unknown_ids st + 1\<rparr>) s) = oms_inv s"
  "oms_inv (upd_stats (\<lambda>st. st\<lparr>st_acked := st_acked st + 1\<rparr>) s) = oms_inv s"
  "oms_inv (upd_stats (\<lambda>st. st\<lparr>st_rejected := st_rejected st + 1\<rparr>) s) = oms_inv s"
  "oms_inv (upd_stats (\<lambda>st. st\<lparr>st_filled := st_filled st + 1\<rparr>) s) = oms_inv s"
  "oms_inv (upd_stats (\<lambda>st. st\<lparr>st_fills := st_fills st + 1\<rparr>) s) = oms_inv s"
  "oms_inv (upd_stats (\<lambda>st. st\<lparr>st_expired := st_expired st + 1\<rparr>) s) = oms_inv s"
  "oms_inv (upd_stats (\<lambda>st. st\<lparr>st_duplicates := st_duplicates st + 1\<rparr>) s) = oms_inv s"
  "oms_inv (upd_stats (\<lambda>st. st\<lparr>st_late_fills := st_late_fills st + 1\<rparr>) s) = oms_inv s"
  "oms_inv (upd_stats (\<lambda>st. st\<lparr>st_unsolicited_cancels := st_unsolicited_cancels st + 1\<rparr>) s) = oms_inv s"
  "oms_inv (upd_stats (\<lambda>st. st\<lparr>st_ack_timeouts := st_ack_timeouts st + 1\<rparr>) s) = oms_inv s"
  "oms_inv (upd_stats (\<lambda>st. st\<lparr>st_reconcile_unresolved := st_reconcile_unresolved st + 1\<rparr>) s) = oms_inv s"
  by (rule upd_stats_inv, simp)+

lemma set_ack_times_inv [simp]: "oms_inv (set_ack_times h m s) = oms_inv s"
  by (simp add: set_ack_times_def)

lemma terminate_fst_inv: "oms_inv s \<Longrightarrow> h \<in> live s \<Longrightarrow> oms_inv (fst (terminate h st b (s, u)))"
  using terminate_inv(1) [of s h st b u] by (cases "terminate h st b (s, u)") simp

lemma on_ack_inv:
  assumes inv: "oms_inv s"
  shows "oms_inv (fst (on_ack m s))"
proof -
  obtain h u0 where l: "lookup s (am_cl_ord_id m) update_zero = (h, u0)" by fastforce
  show ?thesis
  proof (cases "h = kNullHandle")
    case True
    then show ?thesis using inv l by (simp add: on_ack_def)
  next
    case False
    then have h: "h \<in> live s" using lookup_open [OF inv l] by blast
    have q1: "quiet (\<lambda>od. od\<lparr>o_state := Live, o_venue_order_id := am_venue_order_id m\<rparr>) (order_at s h)"
      if "o_state (order_at s h) = PendingNew"
      using live_pending [OF inv h] that by (simp add: quiet_def is_open_def is_terminal_def)
    have q2: "oms_inv (upd_order h (\<lambda>od. od\<lparr>o_venue_order_id := am_venue_order_id m\<rparr>) s1)"
      if "o_state (order_at s h) = PendingReplace" "am_cl_ord_id m = o_pending_cl_ord_id (order_at s h)"
        "apply_replace h (o_pending_cl_ord_id (order_at s h) \<noteq> o_cl_ord_id (order_at s h)) nvo (s, u) = (s1, u1)" for s1 u1 nvo u
    proof -
      have "o_pending_cl_ord_id (order_at s h) \<noteq> 0"
        using lookup_open [OF inv l False] live_ok [OF inv h] that(2) by (auto simp: order_ids_def order_ok_def)
      note a = apply_replace_inv [OF inv h this refl that(3)]
      show ?thesis using a(2) h live_open [OF a(1)] live_ok [OF a(1)]
        by (intro quiet_inv [OF a(1)]) (auto simp: quiet_def is_open_def order_ok_def)
    qed
    show ?thesis
    proof (cases "o_state (order_at s h) = PendingReplace \<and> am_cl_ord_id m = o_pending_cl_ord_id (order_at s h)")
      case True
      let ?rk = "o_pending_cl_ord_id (order_at s h) \<noteq> o_cl_ord_id (order_at s h)"
      obtain s1 u1 where a: "apply_replace h ?rk (?rk \<and> \<not> am_amended_in_place m) (s, u0\<lparr>u_prev := o_state (order_at s h)\<rparr>) = (s1, u1)"
        by fastforce
      show ?thesis using q2 [OF _ _ a] True l False a by (simp add: on_ack_def Let_def)
    next
      case other: False
      show ?thesis
      proof (cases "o_state (order_at s h) = PendingNew")
        case True
        then show ?thesis using l False q1 inv h by (simp add: on_ack_def Let_def quiet_inv)
      next
        case not_new: False
        then show ?thesis using l False other inv
          by (cases "o_state (order_at s h)") (simp_all add: on_ack_def Let_def)
      qed
    qed
  qed
qed

lemma on_reject_inv:
  assumes inv: "oms_inv s"
  shows "oms_inv (fst (on_reject m s))"
proof -
  obtain h u0 where l: "lookup s (jm_cl_ord_id m) update_zero = (h, u0)" by fastforce
  show ?thesis
  proof (cases "h = kNullHandle")
    case True
    then show ?thesis using inv l by (simp add: on_reject_def)
  next
    case False
    then have h: "h \<in> live s" using lookup_open [OF inv l] by blast
    have q1: "quiet (\<lambda>od. od\<lparr>o_reject_reason := r\<rparr>) (order_at s h)" for r
      using live_ok [OF inv h] by (simp add: quiet_def is_open_def order_ok_def)
    note c = clear_pending_inv [OF inv h]
    have q2: "oms_inv (upd_order h (\<lambda>od. od\<lparr>o_state := working_state (o_cum_qty od)\<rparr>) (clear_pending h s))"
      by (rule quiet_inv [OF c(1)]) (use c h in \<open>simp_all add: quiet_def is_open_def order_clear_pending_def\<close>)
    show ?thesis
      using inv l False h q1 q2 c by (simp add: on_reject_def Let_def terminate_fst_inv quiet_inv live_upd_order)
  qed
qed

lemma absorb_cum_keeps_state:
  assumes "oms_inv s" "h \<in> live s" "absorb_cum h q (s, u) = (s1, u1)"
  shows "o_state (order_at s1 h) = o_state (order_at s h)" "o_cl_ord_id (order_at s1 h) = o_cl_ord_id (order_at s h)"
    "o_qty (order_at s1 h) = o_qty (order_at s h)" "o_pending_cl_ord_id (order_at s1 h) = o_pending_cl_ord_id (order_at s h)"
  using absorb_cum_inv(3) [OF assms] by simp_all

lemma quiet_flags: "oms_inv s \<Longrightarrow> h \<in> live s \<Longrightarrow> quiet (\<lambda>od. od\<lparr>o_flags := g od\<rparr>) (order_at s h)"
  using live_ok by (simp add: quiet_def is_open_def order_ok_def)

lemma on_cancel_ack_inv:
  assumes inv: "oms_inv s"
  shows "oms_inv (fst (on_cancel_ack m s))"
proof -
  obtain h u0 where l: "lookup s (cm_cl_ord_id m) update_zero = (h, u0)" by fastforce
  show ?thesis
  proof (cases "h = kNullHandle")
    case True
    then show ?thesis using inv l by (simp add: on_cancel_ack_def)
  next
    case False
    then have h: "h \<in> live s" using lookup_open [OF inv l] by blast
    obtain s1 u1 where a: "absorb_cum h (cm_cum_qty m) (s, u0\<lparr>u_prev := o_state (order_at s h)\<rparr>) = (s1, u1)" by fastforce
    note i = absorb_cum_inv [OF inv h a]
    have h1: "h \<in> live s1" using i h by simp
    show ?thesis
      using l False a i(1) h1 quiet_flags [OF i(1) h1]
      by (simp add: on_cancel_ack_def Let_def terminate_fst_inv quiet_inv live_upd_order)
  qed
qed

lemma on_cancel_reject_inv:
  assumes inv: "oms_inv s"
  shows "oms_inv (fst (on_cancel_reject m s))"
proof -
  obtain h u0 where l: "lookup s (crm_cl_ord_id m) update_zero = (h, u0)" by fastforce
  show ?thesis
  proof (cases "h = kNullHandle")
    case True
    then show ?thesis using inv l by (simp add: on_cancel_reject_def)
  next
    case False
    then have h: "h \<in> live s" using lookup_open [OF inv l] by blast
    have q: "quiet (\<lambda>od. od\<lparr>o_state := working_state (o_cum_qty od), o_cancel_attempts := o_cancel_attempts od + 1\<rparr>) (order_at s h)"
      if "o_state (order_at s h) = PendingCancel"
      using live_pending [OF inv h] that by (simp add: quiet_def is_open_def)
    show ?thesis
      using l False inv h q by (simp add: on_cancel_reject_def Let_def terminate_fst_inv quiet_inv)
  qed
qed

lemma on_expired_inv:
  assumes inv: "oms_inv s"
  shows "oms_inv (fst (on_expired m s))"
proof -
  obtain h u0 where l: "lookup s (em_cl_ord_id m) update_zero = (h, u0)" by fastforce
  show ?thesis
  proof (cases "h = kNullHandle")
    case True
    then show ?thesis using inv l by (simp add: on_expired_def)
  next
    case False
    then have h: "h \<in> live s" using lookup_open [OF inv l] by blast
    obtain s1 u1 where a: "absorb_cum h (em_cum_qty m) (s, u0\<lparr>u_prev := o_state (order_at s h)\<rparr>) = (s1, u1)" by fastforce
    note i = absorb_cum_inv [OF inv h a]
    show ?thesis using l False a i h by (simp add: on_expired_def Let_def terminate_fst_inv)
  qed
qed

section \<open>Fills\<close>

lemma remember_exec_inv:
  assumes inv: "oms_inv s" and r: "remember_exec m s = (s', fresh)"
  shows "oms_inv s'" "live s' = live s" "order_at s' = order_at s" "om_ids s' = om_ids s" "om_ring s' = om_ring s"
    "om_stats s' = om_stats s" "om_estimates s' = om_estimates s"
proof -
  obtain e where e: "rm_assign (om_exec_seen s) (exec_key m) 1 = (e, fresh)" "s' = s\<lparr>om_exec_seen := e\<rparr>"
    using r by (auto simp: remember_exec_def split: prod.splits)
  then show f: "live s' = live s" "order_at s' = order_at s" "om_ids s' = om_ids s" "om_ring s' = om_ring s"
    "om_stats s' = om_stats s" "om_estimates s' = om_estimates s"
    by (simp_all add: live_def order_at_def fun_eq_iff)
  have "rm_inv e" using rm_assign_refines [OF _ e(1)] inv by (simp add: oms_inv_def oms_shape_def)
  moreover have "open_ids s' = open_ids s" "\<And>w. total w s' = total w s" "pending_estimates s' = pending_estimates s"
    using f by (simp_all add: open_ids_def total_def pending_estimates_def)
  ultimately show "oms_inv s'" using inv e(2) f by (simp add: oms_inv_def oms_parts)
qed

lemma fill_covered_inv:
  assumes inv: "oms_inv s" and h: "h \<noteq> kNullHandle \<Longrightarrow> h \<in> live s" and c: "fill_covered m h (s, u) = (s', u')"
  shows "oms_inv s'" "live s' = live s" "order_at s' = order_at s"
proof -
  have "s' = s \<or> (\<exists>q. take_synthetic h (fmsg_cl_ord_id m) q (s, u) = (s', u'))"
    using c by (simp add: fill_covered_def Let_def split: if_splits) blast+
  then have "oms_inv s' \<and> om_pool s' = om_pool s" using take_synthetic_inv [OF inv h] inv by blast
  then show "oms_inv s'" "live s' = live s" "order_at s' = order_at s" by (simp_all add: live_def order_at_def fun_eq_iff)
qed

lemma fill_cum_bounds:
  "0 \<le> o_cum_qty od \<Longrightarrow> o_cum_qty od \<le> o_qty od \<Longrightarrow> o_cum_qty od \<le> fill_cum m c od \<and> fill_cum m c od \<le> o_qty od"
  by (simp add: fill_cum_def Let_def)

lemma book_fill_inv:
  assumes inv: "oms_inv s" and h: "h \<in> live s" and b: "o_cum_qty (order_at s h) \<le> cum" "cum \<le> o_qty (order_at s h)"
  shows "oms_inv (book_fill h m cum s)" "live (book_fill h m cum s) = live s"
    "\<And>g. g \<noteq> h \<Longrightarrow> order_at (book_fill h m cum s) g = order_at s g"
    "o_state (order_at (book_fill h m cum s) h) = o_state (order_at s h)"
    "o_cum_qty (order_at (book_fill h m cum s) h) = cum" "o_qty (order_at (book_fill h m cum s) h) = o_qty (order_at s h)"
proof -
  have "order_ok (order_at s h)" by (rule live_ok [OF inv h])
  then show "oms_inv (book_fill h m cum s)"
    unfolding book_fill_def Let_def upd_order_commute using b
    by (intro upd_order_inv [OF inv h]) (auto simp: order_ok_def is_open_def order_ids_def leaves_qty_def)
qed (use inv h in \<open>simp_all add: book_fill_def Let_def upd_order_commute live_upd_order order_at_upd_order\<close>)

lemma on_fill_inv:
  assumes inv: "oms_inv s0"
  shows "oms_inv (fst (on_fill m s0))"
proof -
  let ?u0 = "update_zero\<lparr>u_fill_qty := fmsg_qty m, u_fill_px := fmsg_price m\<rparr>"
  obtain s fresh where e: "(if fmsg_exec_id m \<noteq> [] then remember_exec m s0 else (s0, True)) = (s, fresh)" by fastforce
  have i: "oms_inv s" using e remember_exec_inv(1) [OF inv, of m s fresh] inv by (auto split: if_splits)
  show ?thesis
  proof (cases fresh)
    case False
    then show ?thesis using i e by (simp add: on_fill_def Let_def)
  next
    case True
    obtain h u1 where l: "lookup s (fmsg_cl_ord_id m) ?u0 = (h, u1)" by fastforce
    obtain s2 u2 where c: "fill_covered m h (s, u1) = (s2, u2)" by fastforce
    have hl: "h \<noteq> kNullHandle \<Longrightarrow> h \<in> live s" using lookup_open [OF i l] by blast
    note f = fill_covered_inv [OF i hl c]
    show ?thesis
    proof (cases "h = kNullHandle")
      case True
      have "oms_inv (fst (late_fill m (upd_stats (\<lambda>st. st\<lparr>st_late_fills := st_late_fills st + 1\<rparr>)
          (upd_stats (\<lambda>st. st\<lparr>st_fills := st_fills st + 1\<rparr>) s2), u)))" for u
        using late_fill_inv f(1) by (metis (no_types, lifting) stats_step_inv(5,8) prod.collapse)
      then show ?thesis using True \<open>fresh\<close> e l c f(1) by (simp add: on_fill_def Let_def)
    next
      case False
      let ?s3 = "upd_stats (\<lambda>st. st\<lparr>st_fills := st_fills st + 1\<rparr>) s2" and ?od = "order_at s h"
      have h2: "h \<in> live s2" using hl False f by simp
      define cum where "cum = fill_cum m (u_corrected_qty u2) ?od"
      have ok: "order_ok ?od" using live_ok [OF i] hl False by blast
      then have b: "o_cum_qty ?od \<le> cum" "cum \<le> o_qty ?od"
        using fill_cum_bounds [of ?od m] by (auto simp: order_ok_def cum_def)
      let ?s5 = "book_fill h m cum ?s3"
      have i5: "oms_inv ?s5" "live ?s5 = live s" "o_state (order_at ?s5 h) = o_state ?od"
        using book_fill_inv(1,2,4) [of ?s3 h cum m] f h2 b by simp_all
      have q: "quiet (\<lambda>od. od\<lparr>o_state := PartiallyFilled\<rparr>) (order_at ?s5 h)" if "o_state ?od = Live \<or> o_state ?od = PendingNew"
        using live_pending [OF i5(1), of h] i5 hl False that by (auto simp: quiet_def is_open_def is_terminal_def)
      show ?thesis
        using False \<open>fresh\<close> e l c i5 q hl
        by (simp add: on_fill_def Let_def f(3) cum_def [symmetric] terminate_fst_inv quiet_inv)
    qed
  qed
qed

section \<open>Reconciliation\<close>

lemma fold_quiet_inv:
  assumes "oms_inv s" "\<forall>h\<in>set hs. h \<in> live s"
  shows "oms_inv (fold (\<lambda>h s. if P h s then upd_order h (\<lambda>od. od\<lparr>o_flags := g od\<rparr>) s else s) hs s)"
  using assms
proof (induction hs arbitrary: s)
  case (Cons h hs)
  have h: "h \<in> live s" using Cons.prems by simp
  show ?case
  proof (cases "P h s")
    case True
    have "oms_inv (upd_order h (\<lambda>od. od\<lparr>o_flags := g od\<rparr>) s)" by (intro quiet_inv quiet_flags Cons.prems h)
    then show ?thesis using True Cons h by (simp add: live_upd_order)
  qed (use Cons in simp)
qed simp

lemma handles_live: "oms_inv s \<Longrightarrow> set (pool_handles (om_pool s)) = live s"
  using pool_handles_sorted [OF oms_inv_pool] oms_inv_pool by (auto simp: live_def pool_live_def)

lemma reconcile_begin_inv:
  assumes "oms_inv s"
  shows "oms_inv (reconcile_begin v w s)"
proof -
  let ?s = "s\<lparr>om_recon_scope := (om_recon_scope s)(v := \<lparr>rs_watermark = (case w of Some w \<Rightarrow> w | None \<Rightarrow> 0), rs_bounded = (w \<noteq> None)\<rparr>)\<rparr>"
  have i: "oms_inv ?s" using assms by (subst oms_inv_cong [of _ s]) simp_all
  then show ?thesis unfolding reconcile_begin_def Let_def
    by (intro fold_quiet_inv [where P = "\<lambda>h s. in_scope (order_at s h) v"]) (use handles_live [OF i] in auto)
qed

lemma reconcile_open_order_inv:
  assumes inv: "oms_inv s"
  shows "oms_inv (fst (reconcile_open_order m s))"
proof -
  obtain h u0 where l: "lookup s (rcm_cl_ord_id m) update_zero = (h, u0)" by fastforce
  show ?thesis
  proof (cases "h = kNullHandle")
    case True
    then show ?thesis using inv l by (simp add: reconcile_open_order_def)
  next
    case False
    then have h: "h \<in> live s" using lookup_open [OF inv l] by blast
    let ?f = "\<lambda>od. od\<lparr>o_flags := o_flags od OR (kSeenInReconcile OR kReconciled),
       o_venue_order_id := (if o_venue_order_id od \<noteq> [] \<or> rcm_venue_order_id m \<noteq> [] then rcm_venue_order_id m else o_venue_order_id od)\<rparr>"
    have "quiet ?f (order_at s h)" using live_ok [OF inv h] by (simp add: quiet_def is_open_def order_ok_def)
    then have i1: "oms_inv (upd_order h ?f s)" by (intro quiet_inv inv h)
    have h1: "h \<in> live (upd_order h ?f s)" using inv h by (simp add: live_upd_order)
    obtain s2 u2 where a: "absorb_cum h (rcm_cum_qty m) (upd_order h ?f s, u0\<lparr>u_prev := o_state (order_at s h)\<rparr>) = (s2, u2)" by fastforce
    note i2 = absorb_cum_inv [OF i1 h1 a]
    have "quiet (\<lambda>od. od\<lparr>o_state := working_state (o_cum_qty od)\<rparr>) (order_at s2 h)" if "o_state (order_at s2 h) = PendingNew"
      using live_pending [OF i2(1), of h] i2(2) h1 that by (simp add: quiet_def is_open_def)
    then show ?thesis using l False a i2 h1 by (simp add: reconcile_open_order_def Let_def quiet_inv)
  qed
qed

lemma end_unseen_inv:
  assumes inv: "oms_inv s" and h: "h \<in> live s"
  shows "oms_inv (fst (end_unseen h s))"
proof -
  have "oms_inv (upd_order h (\<lambda>od. od\<lparr>o_flags := o_flags od OR kReconciled\<rparr>) s)" by (intro quiet_inv quiet_flags inv h)
  then show ?thesis using inv h by (simp add: end_unseen_def Let_def terminate_fst_inv live_upd_order)
qed

section \<open>Reachable states\<close>

text \<open>
  One call of the engine. The client order ids of new orders and of replaces are valid ones, and
  quantities are not negative; messages from the venue are arbitrary. The loops of
  \<^verbatim>\<open>reconcile_end\<close> and \<^verbatim>\<open>sweep_pending\<close> are steps of their own, since their callbacks act on
  the order manager between one iteration and the next.
\<close>

inductive oms_step :: "oms \<Rightarrow> oms \<Rightarrow> bool" where
  step_next_id: "oms_step s (fst (next_cl_ord_id s))"
| step_submit: "cid \<noteq> 0 \<Longrightarrow> 0 \<le> nr_qty req \<Longrightarrow> oms_step s (fst (submit req cid now s))"
| step_cancel: "oms_step s (fst (request_cancel h s))"
| step_cancel_unacked: "oms_step s (fst (request_cancel_unacked h s))"
| step_replace: "new_id \<noteq> 0 \<Longrightarrow> 0 \<le> q \<Longrightarrow> oms_step s (fst (request_replace h new_id px q now s))"
| step_ack: "oms_step s (fst (on_ack am s))"
| step_reject: "oms_step s (fst (on_reject jm s))"
| step_cancel_ack: "oms_step s (fst (on_cancel_ack cm s))"
| step_cancel_reject: "oms_step s (fst (on_cancel_reject crm s))"
| step_fill: "oms_step s (fst (on_fill fm s))"
| step_expired: "oms_step s (fst (on_expired em s))"
| step_reconcile_begin: "oms_step s (reconcile_begin v w s)"
| step_reconcile_open_order: "oms_step s (fst (reconcile_open_order rm s))"
| step_reconcile_end: "pool_is_live (om_pool s) h \<Longrightarrow> oms_step s (fst (end_unseen h s))"
| step_sweep: "oms_step s (upd_stats (\<lambda>st. st\<lparr>st_ack_timeouts := st_ack_timeouts st + 1\<rparr>) s)"

lemma oms_step_inv: "oms_step s s' \<Longrightarrow> oms_inv s \<Longrightarrow> oms_inv s'"
proof (induction rule: oms_step.induct)
  case (step_next_id s)
  moreover have "oms_inv (s\<lparr>om_seq := n\<rparr>) = oms_inv s" for n by (rule oms_inv_cong) simp_all
  ultimately show ?case by (simp add: next_cl_ord_id_def)
next
  case (step_submit cid req s now)
  then show ?case by (intro submit_inv(1) [OF _ prod.collapse [symmetric]])
next
  case (step_replace new_id q s h px now)
  then show ?case by (intro request_replace_inv [OF _ prod.collapse [symmetric]])
next
  case (step_reconcile_end s h)
  then show ?case by (intro end_unseen_inv) (simp_all add: pool_is_live_iff live_def)
qed (simp_all add: request_cancel_inv request_cancel_unacked_inv on_ack_inv on_reject_inv on_cancel_ack_inv
    on_cancel_reject_inv on_fill_inv on_expired_inv reconcile_begin_inv reconcile_open_order_inv)

definition oms_reachable :: "oms \<Rightarrow> oms \<Rightarrow> bool" where
  "oms_reachable = oms_step\<^sup>*\<^sup>*"

lemma oms_reachable_inv: "oms_reachable s s' \<Longrightarrow> oms_inv s \<Longrightarrow> oms_inv s'"
  unfolding oms_reachable_def by (induction rule: rtranclp_induct) (auto intro: oms_step_inv)

lemma oms_make_inv:
  assumes "cap \<le> 4096" "3 \<le> ids_bits" "ring_bits \<le> 31" "exec_bits \<le> 31" "2 * cap + 2 ^ ring_bits < kMaxSize (2 ^ ids_bits)"
  shows "oms_inv (oms_make cap ids_bits ring_bits exec_bits epoch max_seq)" (is "oms_inv ?s")
    "live (oms_make cap ids_bits ring_bits exec_bits epoch max_seq) = {}"
proof -
  have p: "pool_inv (om_pool ?s) \<and> pool_live (om_pool ?s) = {}"
    using pool_new_inv [of cap, where ?'a = order] assms by (simp add: oms_make_def kNullHandle_def)
  then show l: "live ?s = {}" by (simp add: live_def)
  have b: "bb_inv (om_by_inst ?s) \<and> (\<forall>b h. \<not> bb_mem (om_by_inst ?s) b h)"
    using bb_new_inv [of cap 8] assms by (simp add: oms_make_def kMaxInstruments_def)
  have i: "ohm_inv (om_ids ?s) \<and> ohm_find (om_ids ?s) = Map.empty"
    using ohm_new_inv [OF assms(2), where ?'v = u32] by (simp add: oms_make_def)
  have r: "rb_inv (om_ring ?s) \<and> rb_list (om_ring ?s) = []"
    using assms by (simp add: oms_make_def rb_new_def rb_inv_def rb_size_def rb_list_def)
  have e: "rm_inv (om_exec_seen ?s)" using rm_new_inv [OF assms(4), of "0::nat"] by (simp add: oms_make_def)
  have "oms_shape ?s"
    using p b i r e assms
    by (simp add: oms_shape_def) (simp add: oms_make_def bb_new_def pool_new_def pool_reset_def ohm_new_def rb_new_def)
  moreover have "open_ids ?s = {}" by (simp add: open_ids_def l)
  then have "routed (om_ids ?s) (om_ring ?s) (open_ids ?s)" using i by (simp add: routed_def)
  moreover have "oms_counts ?s" by (simp add: oms_counts_def total_def l) (simp add: oms_make_def stats_zero_def)
  moreover have "oms_gauge ?s" using r by (simp add: oms_gauge_def pending_estimates_def l) (simp add: oms_make_def stats_zero_def)
  ultimately show "oms_inv ?s" using b by (simp add: oms_inv_def oms_orders_def oms_index_def l)
qed

lemma oms_new_inv: "oms_inv (oms_new epoch max_seq)" "live (oms_new epoch max_seq) = {}"
  using oms_make_inv [of 4096 14 12 16 epoch max_seq] by (simp_all add: oms_new_def kMaxSize_def)

end
