(* ===== verification/OmsIds.thy ===== *)
theory OmsIds
  imports OmsHandlers
begin

text \<open>
  Client order ids: their layout, that no operation but \<^verbatim>\<open>next_cl_ord_id\<close> moves the sequence,
  and that the ids of a session never repeat.
\<close>

section \<open>Client order ids\<close>

lemma make_cl_ord_id_value:
  assumes "epoch < 2 ^ 16" "sq < 2 ^ 32"
  shows "unat (make_cl_ord_id epoch sq) = epoch * 2 ^ 32 + sq"
proof -
  have "of_nat sq = (take_bit 32 (of_nat sq) :: u64)"
    using assms(2) by (intro word_unat_eq_iff [THEN iffD2]) (simp add: unsigned_take_bit_eq unat_of_nat take_bit_nat_eq_self)
  then have dis: "push_bit 32 (of_nat epoch) AND of_nat sq = (0 :: u64)"
    by (intro bit_eqI) (metis bit_0_eq bit_and_iff bit_push_bit_iff bit_take_bit_iff bot_apply bot_bool_def linorder_not_less)
  then have "make_cl_ord_id epoch sq = push_bit 32 (of_nat epoch) + of_nat sq"
    unfolding make_cl_ord_id_def by (simp add: disjunctive_add_eq_or)
  also have "\<dots> = of_nat (epoch * 2 ^ 32 + sq)" by (simp add: push_bit_eq_mult mult.commute)
  finally show ?thesis using assms by (simp add: unat_of_nat del: of_nat_add of_nat_mult)
qed

lemma make_cl_ord_id_parts:
  assumes "epoch < 2 ^ 16" "sq < 2 ^ 32"
  shows "cl_ord_id_epoch (make_cl_ord_id epoch sq) = epoch \<and> cl_ord_id_seq (make_cl_ord_id epoch sq) = sq"
proof -
  have m: "(0xFFFFFFFF :: u64) = mask 32" "(0xFFFF :: u64) = mask 16" by (simp_all add: mask_eq_exp_minus_1)
  show ?thesis
    unfolding cl_ord_id_epoch_def cl_ord_id_seq_def m take_bit_eq_mask [symmetric] unsigned_take_bit_eq unsigned_drop_bit_eq
      make_cl_ord_id_value [OF assms]
    using assms by (simp add: take_bit_eq_mod drop_bit_eq_div unsigned_take_bit_eq make_cl_ord_id_value [OF assms])
qed

text \<open>Only \<^verbatim>\<open>next_cl_ord_id\<close> moves the sequence, and only \<^verbatim>\<open>remember_exec\<close> the memory of executions.\<close>

definition id_source :: "oms \<Rightarrow> nat \<times> nat \<times> nat \<times> nat recent_map" where
  "id_source s = (om_epoch s, om_max_seq s, om_seq s, om_exec_seen s)"

lemma id_source_basic [simp]:
  "id_source (upd_order h f s) = id_source s" "id_source (upd_stats g s) = id_source s" "id_source (upd_times h ft s) = id_source s"
  "id_source (upd_estimate h fe s) = id_source s" "id_source (add_open_qty i sd d s) = id_source s"
  "id_source (set_best_own i sd p s) = id_source s" "id_source (add_open_count i d s) = id_source s"
  "id_source (upd_terminal k fr s) = id_source s" "id_source (recompute_best_own i sd s) = id_source s"
  "id_source (replace_best i sd p q s) = id_source s" "id_source (set_ack_times h am s) = id_source s"
  "id_source (s\<lparr>om_pool := p'\<rparr>) = id_source s" "id_source (s\<lparr>om_by_inst := b'\<rparr>) = id_source s" "id_source (s\<lparr>om_ids := ids'\<rparr>) = id_source s"
  "id_source (s\<lparr>om_ring := r'\<rparr>) = id_source s"
  "id_source (s\<lparr>om_recon_scope := sc'\<rparr>) = id_source s" "id_source (drop_open c s) = id_source s"
  "id_source (drop_pending od s) = id_source s" "id_source (clear_pending h s) = id_source s"
  "id_source (note_synthetic h qq px s) = id_source s" "id_source (install_order req cid now h s) = id_source s"
  "id_source (book_fill h m cum s) = id_source s" "id_source (set_replace h cid px qq now s) = id_source s"
  by (auto simp: id_source_def upd_order_def upd_stats_def upd_times_def upd_estimate_def add_open_qty_def set_best_own_def
      add_open_count_def upd_terminal_def recompute_best_own_def replace_best_def set_ack_times_def drop_open_def drop_pending_def
      clear_pending_def note_synthetic_def install_order_def book_fill_def set_replace_def Let_def split: option.splits)

lemma id_source_pairs [simp]:
  "id_source (fst (absorb_cum h q su)) = id_source (fst su)" "id_source (fst (take_synthetic h cid q su)) = id_source (fst su)"
  "id_source (fst (remember_terminal r su)) = id_source (fst su)" "id_source (fst (late_fill m su)) = id_source (fst su)"
  "id_source (fst (add_open s cid h)) = id_source s"
proof -
  obtain s u s' u' where su: "su = (s, u)" "remember_terminal r (s, u) = (s', u')" by (metis prod.collapse)
  obtain ids where "s' = s\<lparr>om_stats := om_stats s', om_ids := ids, om_ring := om_ring s'\<rparr>"
    using remember_terminal_frame(3) [OF su(2)] by blast
  then have "id_source s' = id_source (s\<lparr>om_stats := om_stats s', om_ids := ids, om_ring := om_ring s'\<rparr>)" by (rule arg_cong)
  then show "id_source (fst (remember_terminal r su)) = id_source (fst su)" by (simp add: su) (simp add: id_source_def)
qed (auto simp: absorb_cum_def take_synthetic_def late_fill_def add_open_def Let_def split: prod.splits option.splits)

lemma id_source_let: "id_source (fst (Let x f)) = id_source s \<longleftrightarrow> (\<forall>y. y = x \<longrightarrow> id_source (fst (f y)) = id_source s)"
  by (simp add: Let_def)

lemma id_source_moves [simp]:
  "id_source (fst (terminate h st b su)) = id_source (fst su)" "id_source (fst (keep_old_leg h su)) = id_source (fst su)"
  "id_source (fst (fill_covered m h su)) = id_source (fst su)"
proof -
  obtain s u where su: "su = (s, u)" by fastforce
  show "id_source (fst (terminate h st b su)) = id_source (fst su)"
    unfolding su terminate_def fst_conv prod.case id_source_let case_prod_unfold
    by (intro allI impI) (simp add: if_distrib [of id_source])
  show "id_source (fst (keep_old_leg h su)) = id_source (fst su)"
    by (simp add: su keep_old_leg_def case_prod_unfold Let_def)
  show "id_source (fst (fill_covered m h su)) = id_source (fst su)"
    by (simp add: su fill_covered_def Let_def)
qed

lemma id_source_apply_replace [simp]: "id_source (fst (apply_replace h rk nvo su)) = id_source (fst su)"
proof -
  obtain s u where su: "su = (s, u)" by fastforce
  show ?thesis
    unfolding su apply_replace_def fst_conv prod.case id_source_let case_prod_unfold
    by (intro allI impI) (simp add: if_distrib [of id_source])
qed

lemma id_source_fold: "(\<And>h s. id_source (g h s) = id_source s) \<Longrightarrow> id_source (fold g hs s) = id_source s"
  by (induction hs arbitrary: s) auto

lemma id_source_handlers:
  "id_source (fst (submit req cid now s)) = id_source s" "id_source (fst (request_cancel h s)) = id_source s"
  "id_source (fst (request_cancel_unacked h s)) = id_source s" "id_source (fst (request_replace h cid px q now s)) = id_source s"
  "id_source (fst (on_reject jm s)) = id_source s" "id_source (fst (on_cancel_ack cm s)) = id_source s"
  "id_source (fst (on_cancel_reject crm s)) = id_source s"
  "id_source (fst (on_expired em s)) = id_source s" "id_source (reconcile_begin v w s) = id_source s"
  "id_source (fst (reconcile_open_order rcm s)) = id_source s" "id_source (fst (end_unseen h s)) = id_source s"
  by (simp_all add: submit_def request_cancel_def request_cancel_unacked_def request_replace_def on_reject_def on_cancel_ack_def
      on_cancel_reject_def on_expired_def reconcile_begin_def reconcile_open_order_def end_unseen_def
      Let_def case_prod_unfold id_source_fold if_distrib [of id_source] if_distrib [of fst])

lemma id_source_on_ack: "id_source (fst (on_ack m s)) = id_source s"
  by (cases "o_state (order_at s (fst (lookup s (am_cl_ord_id m) update_zero)))")
    (simp_all add: on_ack_def Let_def case_prod_unfold if_distrib [of id_source] if_distrib [of fst])

lemma id_source_on_fill:
  "id_source (fst (on_fill m s)) = id_source (if fmsg_exec_id m \<noteq> [] then fst (remember_exec m s) else s)"
proof -
  obtain s1 f where e: "(if fmsg_exec_id m \<noteq> [] then remember_exec m s else (s, True)) = (s1, f)" by fastforce
  then have s1: "(if fmsg_exec_id m \<noteq> [] then fst (remember_exec m s) else s) = s1" by (cases "fmsg_exec_id m = []") auto
  show ?thesis unfolding on_fill_def Let_def e s1
    by (simp add: case_prod_unfold if_distrib [of id_source] if_distrib [of fst])
qed

lemma oms_step_id_source:
  "oms_step s s' \<Longrightarrow> id_source s' = id_source s \<or> s' = fst (next_cl_ord_id s) \<or> (\<exists>m. id_source s' = id_source (fst (remember_exec m s)))"
  by (induction rule: oms_step.induct) (auto simp: id_source_handlers id_source_on_ack id_source_on_fill)

lemma oms_step_ids: "oms_step s s' \<Longrightarrow> om_epoch s' = om_epoch s \<and> om_max_seq s' = om_max_seq s \<and> om_seq s \<le> om_seq s' \<and>
    (om_seq s \<le> om_max_seq s \<longrightarrow> om_seq s' \<le> om_max_seq s')"
  using oms_step_id_source [of s s'] by (auto simp: id_source_def next_cl_ord_id_def remember_exec_def case_prod_unfold)

lemma oms_reachable_ids:
  "oms_reachable s s' \<Longrightarrow> om_epoch s' = om_epoch s \<and> om_max_seq s' = om_max_seq s \<and> om_seq s \<le> om_seq s' \<and>
    (om_seq s \<le> om_max_seq s \<longrightarrow> om_seq s' \<le> om_max_seq s')"
  unfolding oms_reachable_def by (induction rule: rtranclp_induct) (auto dest: oms_step_ids)

lemma next_cl_ord_id_value:
  assumes "om_epoch s < 2 ^ 16" "om_max_seq s \<le> kMaxSeq" "om_seq s < om_max_seq s" "next_cl_ord_id s = (s', cid)"
  shows "unat cid = om_epoch s * 2 ^ 32 + (om_seq s + 1) \<and> om_seq s' = om_seq s + 1 \<and> om_epoch s' = om_epoch s \<and> om_max_seq s' = om_max_seq s"
proof -
  have "om_seq s + 1 < 2 ^ 32" using assms by (simp add: kMaxSeq_def)
  from make_cl_ord_id_value [OF assms(1) this] show ?thesis using assms(3,4) by (auto simp: next_cl_ord_id_def)
qed

text \<open>Within a session the ids of \<^verbatim>\<open>next_cl_ord_id\<close> never repeat: whatever the order manager
  does between two calls, the second id is greater than the first as long as neither call came
  after the sequence ran out, and every valid id carries the epoch of the session. Once the
  sequence is used up, every later call answers the invalid id.\<close>

theorem client_ids_increase:
  assumes "epoch < 2 ^ 16" and "max_seq \<le> kMaxSeq"
    and "oms_reachable (oms_new epoch max_seq) s1" and "next_cl_ord_id s1 = (s1', c1)"
    and "oms_reachable s1' s2" and "next_cl_ord_id s2 = (s2', c2)"
  shows "(c1 = 0 \<longleftrightarrow> om_seq s1 = max_seq) \<and> (c1 = 0 \<longrightarrow> c2 = 0) \<and>
    (c2 \<noteq> 0 \<longrightarrow> c1 < c2 \<and> cl_ord_id_epoch c1 = epoch \<and> cl_ord_id_epoch c2 = epoch)"
proof -
  have i: "om_epoch s1 = epoch" "om_max_seq s1 = max_seq" using oms_reachable_ids [OF assms(3)] by (simp_all add: oms_new_def oms_make_def)
  have le: "om_seq s1 \<le> max_seq" using oms_reachable_ids [OF assms(3)] i by (simp add: oms_new_def oms_make_def)
  have m: "om_epoch s1' = epoch" "om_max_seq s1' = max_seq" "om_seq s1 \<le> om_seq s1'"
    using i assms(4) by (auto simp: next_cl_ord_id_def split: if_splits)
  have i2: "om_epoch s2 = epoch" "om_max_seq s2 = max_seq" "om_seq s1' \<le> om_seq s2" using oms_reachable_ids [OF assms(5)] m by auto
  have z1: "c1 = 0" if "om_seq s1 = max_seq" using that assms(4) i by (auto simp: next_cl_ord_id_def)
  have z2: "c2 = 0" if "\<not> om_seq s2 < max_seq" using that assms(6) i2 by (auto simp: next_cl_ord_id_def)
  have v1: "unat c1 = epoch * 2 ^ 32 + (om_seq s1 + 1)" "om_seq s1' = om_seq s1 + 1" if "om_seq s1 < max_seq"
    using next_cl_ord_id_value [OF _ _ _ assms(4)] that assms(1,2) i by auto
  have v2: "unat c2 = epoch * 2 ^ 32 + (om_seq s2 + 1)" if "om_seq s2 < max_seq"
    using next_cl_ord_id_value [OF _ _ _ assms(6)] that assms(1,2) i2 by auto
  have ep: "cl_ord_id_epoch (make_cl_ord_id epoch sq) = epoch" if "sq \<le> max_seq" for sq
    using make_cl_ord_id_parts [OF assms(1), of sq] that assms(2) by (simp add: kMaxSeq_def)
  have c1: "c1 = 0 \<longleftrightarrow> om_seq s1 = max_seq" using z1 v1(1) le by (cases "om_seq s1 = max_seq") auto
  have c2: "c2 \<noteq> 0 \<longrightarrow> om_seq s2 < max_seq" using z2 by blast
  show ?thesis
  proof (intro conjI impI)
    show "c1 = 0 \<longleftrightarrow> om_seq s1 = max_seq" by (rule c1)
    show "c1 = 0 \<Longrightarrow> c2 = 0" using c1 z2 m(3) i2(3) by auto
    assume n2: "c2 \<noteq> 0"
    then have l2: "om_seq s2 < max_seq" using c2 by blast
    then have l1: "om_seq s1 < max_seq" using m(3) i2(3) by simp
    show "c1 < c2" using v1 [OF l1] v2 [OF l2] i2(3) by (simp add: word_less_nat_alt)
    show "cl_ord_id_epoch c1 = epoch" "cl_ord_id_epoch c2 = epoch"
      using assms(4,6) l1 l2 i i2 ep [of "om_seq s1 + 1"] ep [of "om_seq s2 + 1"] by (auto simp: next_cl_ord_id_def)
  qed
qed

theorem client_ids_increase_witness:
  "snd (next_cl_ord_id (fst (next_cl_ord_id (oms_new 7 2)))) = make_cl_ord_id 7 2 \<and>
   snd (next_cl_ord_id (oms_new 7 2)) < snd (next_cl_ord_id (fst (next_cl_ord_id (oms_new 7 2))))"
proof -
  have r: "oms_reachable s s" for s by (simp add: oms_reachable_def)
  have v: "snd (next_cl_ord_id (fst (next_cl_ord_id (oms_new 7 2)))) = make_cl_ord_id 7 2"
    by (simp add: next_cl_ord_id_def oms_new_def oms_make_def numeral_2_eq_2)
  moreover have "make_cl_ord_id 7 2 \<noteq> 0" using make_cl_ord_id_value [of 7 2] by (auto simp: unat_eq_0 [symmetric])
  ultimately show ?thesis
    using client_ids_increase [OF _ _ r [of "oms_new 7 2"] surjective_pairing r surjective_pairing] by (simp add: kMaxSeq_def)
qed

end
