(* ===== verification/OmsProps.thy ===== *)
theory OmsProps imports OmsIds
begin

unbundle bit_operations_syntax

text \<open>What the order manager promises, over the invariant of OmsInv and the step relation of
OmsHandlers: every reachable state balances its books and routes every message to the order it names,
a submission answers exactly by its guards, an execution is booked at most once, and each handler's
outcome for an open order, for a remembered order and for the reconcile sweep.\<close>

section \<open>What ending an order reports and remembers\<close>

lemma terminate_update:
  assumes inv: "oms_inv s" and h: "h \<in> live s" and t: "terminate h final br (s, u) = (s', u')"
  shows "u_order u' = (order_at s h)\<lparr>o_state := final\<rparr> \<and> u_terminal u' \<and> u_handle u' = kNullHandle \<and> u_changed u' \<and> u_slot u' = h \<and>
    u_action u' = u_action u \<and> u_corrected_qty u' = u_corrected_qty u \<and> u_missed_qty u' = u_missed_qty u \<and> u_known u' = u_known u \<and>
    u_prev u' = u_prev u \<and> u_unresolved_qty u' = u_unresolved_qty u"
proof (rule terminate_unfold [OF inv h t])
  fix s5 s6 u6 tm
  assume r: "remember_terminal (record_of s5 h final br) (s5, u) = (s6, u6)"
    and u': "u' = u6\<lparr>u_order := (order_at s h)\<lparr>o_state := final\<rparr>, u_handle := kNullHandle, u_times := tm, u_slot := h,
             u_changed := True, u_terminal := True\<rparr>"
  show ?thesis unfolding u' remember_terminal_frame(4) [OF r] by simp
qed

lemma names_record_unique:
  assumes "names_record ring cid v i" "names_record ring cid v j"
  shows "i = j"
  using assms by (metis linorder_neqE_nat names_record_def)

text \<open>The id of an order that ended leads to its record.\<close>

lemma terminate_remembered:
  assumes inv: "oms_inv s" and h: "h \<in> live s" and t: "terminate h final br (s, u) = (s', u')"
  shows "\<exists>k. find_terminal s' (o_cl_ord_id (order_at s h)) = Some k \<and>
    tr_state (rb_buf (om_ring s') k) = final \<and> tr_cum_qty (rb_buf (om_ring s') k) = o_cum_qty (order_at s h) \<and>
    tr_qty (rb_buf (om_ring s') k) = o_qty (order_at s h) \<and> tr_estimate (rb_buf (om_ring s') k) = om_estimates s h"
proof (rule terminate_unfold [OF inv h t])
  fix s5 s6 u6 tm
  let ?od = "order_at s h"
  assume r: "remember_terminal (record_of s5 h final br) (s5, u) = (s6, u6)"
    and at: "order_at s5 h = ?od\<lparr>o_state := final\<rparr>" "om_estimates s5 = om_estimates s" "om_ring s5 = om_ring s"
      "om_ids s5 = om_ids (drop_pending ?od s)"
    and s': "s' = (let s8 = s6\<lparr>om_estimates := (om_estimates s6)(h := estimate_zero),
                       om_by_inst := bb_clear (om_by_inst s6) (bb_bucket (om_by_inst s6) (o_instrument ?od)) h,
                       om_pool := pool_free (om_pool s6) h\<rparr>
           in if o_price ?od = om_best_own s6 (o_instrument ?od) (o_side ?od) then recompute_best_own (o_instrument ?od) (o_side ?od) s8 else s8)"
  let ?r = "record_of s5 h final br" and ?c = "o_cl_ord_id ?od" and ?v = "terminal_ref (om_ring s) (rb_tail (om_ring s))"
  have f: "om_ids s' = om_ids s6" "om_ring s' = om_ring s6"
    unfolding s' by (simp_all add: Let_def recompute_best_own_def set_best_own_def)
  have ri: "rb_inv (om_ring s)" "rb_bits (om_ring s) \<le> 31" using oms_inv_ring [OF inv] by auto
  have ring: "om_ring s' = rb_push (om_ring s) ?r" using remember_terminal_frame(1) [OF r] by (simp add: f at)
  have v: "ohm_find (om_ids s') ?c = Some ?v" using terminate_ids(4) [OF inv h r at(1,3,4)] by (simp add: f)
  note i' = terminate_inv(1) [OF inv h t]
  let ?n = "length (rb_list (om_ring s')) - 1"
  have n: "names_record (om_ring s') ?c ?v ?n" using names_record_last [OF ri, of ?r] by (simp add: ring at)
  obtain i where i: "names_record (om_ring s') ?c ?v i"
    "find_terminal s' ?c = Some ((unat (rb_head (om_ring s')) + i) mod 2 ^ rb_bits (om_ring s'))"
    using find_terminal_routed [OF oms_inv_routed [OF i'], of ?c] oms_inv_ring [OF i'] v by auto
  have "i = ?n" by (rule names_record_unique [OF i(1) n])
  then have at_n: "ring_at (om_ring s') ((unat (rb_head (om_ring s')) + i) mod 2 ^ rb_bits (om_ring s')) ?n"
    using i(1) by (simp add: ring_at_def names_record_def)
  have "rb_list (om_ring s') ! ?n = ?r" using rb_push_list [OF ri(1), of ?r] by (simp add: ring nth_append)
  then show ?thesis using i(2) ring_at_buf [OF at_n] by (simp add: at)
qed

section \<open>Properties\<close>

text \<open>C1: in every state the order manager can reach, whatever the venue sent: the counters are the
  number of live orders, in all and per instrument, the open quantity of an instrument and side is
  the sum of what its live orders have left, and the gauge of unnamed synthetic fills counts the
  live orders and the terminal records that hold one. No live order is in a terminal state or has
  more filled than ordered.\<close>

theorem oms_books_balance:
  assumes "oms_reachable (oms_new epoch max_seq) s"
  shows "st_open (om_stats s) = int (card (live s)) \<and>
    om_open_per_inst s i = int (card {h \<in> live s. o_instrument (order_at s h) = i}) \<and>
    om_open_qty s i sd = (\<Sum>h | h \<in> live s \<and> o_instrument (order_at s h) = i \<and> o_side (order_at s h) = sd. leaves_qty (order_at s h)) \<and>
    st_synthetic_pending (om_stats s) = int (card {h \<in> live s. es_qty (om_estimates s h) > 0}) +
      int (length (filter (\<lambda>r. es_qty (tr_estimate r) > 0) (rb_list (om_ring s)))) \<and>
    (\<forall>h\<in>live s. is_open (order_at s h) \<and> 0 \<le> o_cum_qty (order_at s h) \<and> o_cum_qty (order_at s h) \<le> o_qty (order_at s h))"
proof -
  have inv: "oms_inv s" by (rule oms_reachable_inv [OF assms oms_new_inv(1)])
  then have c: "oms_counts s" "oms_gauge s" by (simp_all add: oms_inv_def)
  have bool_sum: "(\<Sum>h\<in>live s. of_bool (P h) :: int) = int (card {h \<in> live s. P h})" for P
    by (simp add: of_bool_def sum.If_cases Int_def)
  have list_sum: "(\<Sum>r\<leftarrow>xs. of_bool (P r) :: int) = int (length (filter P xs))" for P and xs :: "terminal_record list"
    by (induction xs) auto
  have "om_open_qty s i sd = (\<Sum>h\<in>live s. open_leaves i sd (order_at s h))" using c by (simp add: oms_counts_def total_def)
  also have "\<dots> = (\<Sum>h | h \<in> live s \<and> o_instrument (order_at s h) = i \<and> o_side (order_at s h) = sd. leaves_qty (order_at s h))"
    by (simp add: open_leaves_def sum.If_cases Int_def)
  finally show ?thesis
    using c inv bool_sum list_sum live_ok [OF inv]
    by (simp add: oms_counts_def oms_gauge_def total_def pending_estimates_def order_ok_def)
qed

text \<open>A first order, for the witnesses.\<close>

definition sample_request :: new_order_request where
  "sample_request = limit_order 3 Buy 10000000000 500000000"

definition sample_state :: oms where
  "sample_state = fst (submit sample_request 7 1 (oms_new 1 5))"

lemma sample_accepted:
  "oms_reachable (oms_new 1 5) sample_state"
  "\<exists>h. snd (submit sample_request 7 1 (oms_new 1 5)) = Inr h \<and> live sample_state = {h} \<and> order_at sample_state h = new_order sample_request 7 1"
proof -
  have q: "(7::cl_ord_id) \<noteq> 0" "0 \<le> nr_qty sample_request" by (simp_all add: sample_request_def limit_order_def)
  have "oms_step (oms_new 1 5) sample_state" unfolding sample_state_def using q by (rule step_submit)
  then show "oms_reachable (oms_new 1 5) sample_state" by (simp add: oms_reachable_def)
  have inv: "oms_inv (oms_new 1 5)" "live (oms_new 1 5) = {}" by (rule oms_new_inv)+
  have e: "submit sample_request 7 1 (oms_new 1 5) = (sample_state, snd (submit sample_request 7 1 (oms_new 1 5)))"
    by (simp add: sample_state_def)
  have cap: "pl_capacity (om_pool (oms_new 1 5)) = 4096" by (simp add: oms_new_def oms_make_def pool_new_def pool_reset_def)
  obtain h where "snd (submit sample_request 7 1 (oms_new 1 5)) = Inr h"
    using inv(1) e
  proof (cases rule: submit_cases)
    case (accepted h p m)
    then show thesis using that by blast
  next
    case full
    then have "0 \<in> live (oms_new 1 5)" unfolding full(3) cap by simp
    then show thesis using inv(2) by simp
  qed (use inv(2) cap in \<open>auto simp: sample_request_def limit_order_def kMaxInstruments_def open_ids_def\<close>)
  then show "\<exists>h. snd (submit sample_request 7 1 (oms_new 1 5)) = Inr h \<and> live sample_state = {h} \<and> order_at sample_state h = new_order sample_request 7 1"
    using submit_inv(2) [OF inv(1) e q] inv(2) by auto
qed

theorem oms_books_balance_witness:
  "st_open (om_stats sample_state) = 1 \<and> om_open_qty sample_state 3 Buy = 500000000"
proof -
  obtain h where h: "live sample_state = {h}" "order_at sample_state h = new_order sample_request 7 1" using sample_accepted(2) by blast
  have "{g. g = h \<and> o_instrument (order_at sample_state g) = 3 \<and> o_side (order_at sample_state g) = Buy} = {h}"
    using h(2) by (auto simp: new_order_def sample_request_def limit_order_def)
  then show ?thesis
    using oms_books_balance [OF sample_accepted(1), of 3 Buy] h
    by (simp add: leaves_qty_def new_order_def sample_request_def limit_order_def order_zero_def)
qed

text \<open>C3: in every reachable state an id of an open order, its own or that of a pending replace,
  leads to that order's slot and to no other, no other id leads to an open order, and an id the
  table takes for recently terminal leads to the newest terminal record of that very id. The
  table never refuses an id, so a message from the venue is never applied to the wrong order.\<close>

theorem oms_routes_messages:
  assumes "oms_reachable (oms_new epoch max_seq) s"
  shows "(open_handle s cid = h \<and> h \<noteq> kNullHandle \<longleftrightarrow> h \<in> live s \<and> cid \<in> order_ids (order_at s h)) \<and>
    (classify s cid = ClassRecentlyTerminal \<longrightarrow>
       (\<exists>i k. find_terminal s cid = Some k \<and> ring_at (om_ring s) k i \<and> tr_cl_ord_id (rb_list (om_ring s) ! i) = cid \<and>
          (\<forall>j. i < j \<and> j < length (rb_list (om_ring s)) \<longrightarrow> tr_cl_ord_id (rb_list (om_ring s) ! j) \<noteq> cid))) \<and>
    snd (add_open s cid g)"
proof (intro conjI impI)
  have inv: "oms_inv s" by (rule oms_reachable_inv [OF assms oms_new_inv(1)])
  show "open_handle s cid = h \<and> h \<noteq> kNullHandle \<longleftrightarrow> h \<in> live s \<and> cid \<in> order_ids (order_at s h)"
    unfolding open_handle_iff [OF inv] by (simp add: open_ids_def)
  show "snd (add_open s cid g)" using add_open_succeeds [OF inv, of cid "of_nat g"] by (auto simp: add_open_def)
  assume "classify s cid = ClassRecentlyTerminal"
  then have "find_terminal s cid \<noteq> None" by (auto simp: classify_def split: if_splits)
  then obtain v i where "names_record (om_ring s) cid v i"
    "find_terminal s cid = Some ((unat (rb_head (om_ring s)) + i) mod 2 ^ rb_bits (om_ring s))"
    using find_terminal_routed [OF oms_inv_routed [OF inv], of cid] oms_inv_ring [OF inv] by (auto split: option.splits if_splits)
  then show "\<exists>i k. find_terminal s cid = Some k \<and> ring_at (om_ring s) k i \<and> tr_cl_ord_id (rb_list (om_ring s) ! i) = cid \<and>
          (\<forall>j. i < j \<and> j < length (rb_list (om_ring s)) \<longrightarrow> tr_cl_ord_id (rb_list (om_ring s) ! j) \<noteq> cid)"
    by (auto simp: names_record_def ring_at_def)
qed

theorem oms_routes_messages_witness:
  "\<exists>h. snd (submit sample_request 7 1 (oms_new 1 5)) = Inr h \<and> open_handle sample_state 7 = h"
proof -
  obtain h where h: "snd (submit sample_request 7 1 (oms_new 1 5)) = Inr h" "live sample_state = {h}"
    "order_at sample_state h = new_order sample_request 7 1" using sample_accepted(2) by blast
  then show ?thesis
    using oms_routes_messages [OF sample_accepted(1), of 7 h 0] by (simp add: order_ids_def new_order_def)
qed



section \<open>Executions\<close>

definition exec_fresh :: "order_fill_msg \<Rightarrow> oms \<Rightarrow> bool" where
  "exec_fresh m s \<longleftrightarrow> fmsg_exec_id m = [] \<or> exec_key m \<notin> fst ` set (rm_list (om_exec_seen s))"

lemma oms_inv_exec: "oms_inv s \<Longrightarrow> rm_inv (om_exec_seen s)"
  by (simp add: oms_inv_def oms_shape_def)

lemma remember_exec_fresh:
  assumes "oms_inv s" "remember_exec m s = (s', f)"
  shows "f \<longleftrightarrow> exec_key m \<notin> fst ` set (rm_list (om_exec_seen s))"
    "rm_list (om_exec_seen s') = fst (recent_assign (2 ^ rm_bits (om_exec_seen s)) (rm_list (om_exec_seen s)) (exec_key m) 1)"
    "rm_bits (om_exec_seen s') = rm_bits (om_exec_seen s)"
proof -
  obtain e where e: "rm_assign (om_exec_seen s) (exec_key m) 1 = (e, f)" "s' = s\<lparr>om_exec_seen := e\<rparr>"
    using assms(2) by (auto simp: remember_exec_def split: prod.splits)
  note r = rm_assign_refines [OF oms_inv_exec [OF assms(1)] e(1)]
  show "f \<longleftrightarrow> exec_key m \<notin> fst ` set (rm_list (om_exec_seen s))"
    using r by (auto simp: recent_assign_def split: if_splits)
  show "rm_list (om_exec_seen s') = fst (recent_assign (2 ^ rm_bits (om_exec_seen s)) (rm_list (om_exec_seen s)) (exec_key m) 1)"
    "rm_bits (om_exec_seen s') = rm_bits (om_exec_seen s)"
    using r e(2) by (metis fst_conv oms.select_convs(9) oms.surjective oms.update_convs(9), simp)
qed

lemma on_fill_duplicate:
  assumes "oms_inv s" "\<not> exec_fresh m s"
  shows "\<exists>e. fst (on_fill m s) = (s\<lparr>om_exec_seen := e\<rparr>)\<lparr>om_stats := (om_stats s)\<lparr>st_duplicates := st_duplicates (om_stats s) + 1\<rparr>\<rparr> \<and>
      map fst (rm_list e) = map fst (rm_list (om_exec_seen s))"
    "u_action (snd (on_fill m s)) = Duplicate"
proof -
  obtain s' f where r: "remember_exec m s = (s', f)" by fastforce
  have f: "\<not> f" using assms remember_exec_fresh(1) [OF assms(1) r] by (simp add: exec_fresh_def)
  have ne: "fmsg_exec_id m \<noteq> []" using assms(2) by (simp add: exec_fresh_def)
  obtain e where e: "s' = s\<lparr>om_exec_seen := e\<rparr>" using r by (auto simp: remember_exec_def split: prod.splits)
  have "map fst (rm_list e) = map fst (rm_list (om_exec_seen s))"
    using remember_exec_fresh(2) [OF assms(1) r] assms(2) e by (auto simp: recent_assign_def exec_fresh_def)
  then show "\<exists>e. fst (on_fill m s) = (s\<lparr>om_exec_seen := e\<rparr>)\<lparr>om_stats := (om_stats s)\<lparr>st_duplicates := st_duplicates (om_stats s) + 1\<rparr>\<rparr> \<and>
      map fst (rm_list e) = map fst (rm_list (om_exec_seen s))"
    using r f ne e by (intro exI [of _ e]) (simp add: on_fill_def upd_stats_def)
  show "u_action (snd (on_fill m s)) = Duplicate" using r f ne by (simp add: on_fill_def)
qed

text \<open>A key stays known while fewer than the capacity of new keys came after it.\<close>

definition recent_within :: "nat \<Rightarrow> (u64 \<times> 'v) list \<Rightarrow> u64 \<Rightarrow> bool" where
  "recent_within j xs k \<longleftrightarrow> k \<in> fst ` set (drop (length xs - j) xs)"

lemma recent_within_mem: "recent_within j xs k \<Longrightarrow> k \<in> fst ` set xs"
  using in_set_dropD by (fastforce simp: recent_within_def)

lemma recent_within_new: "recent_within 1 (fst (recent_assign n xs k v)) k" if "k \<notin> fst ` set xs"
  using that by (simp add: recent_within_def recent_assign_def)

lemma drop_last_Suc: "drop (length (xs @ [y]) - Suc j) (xs @ [y]) = drop (length xs - j) xs @ [y]"
  by simp

lemma recent_within_assign:
  assumes "recent_within j xs k" "j < n" "length xs \<le> n"
  shows "recent_within (Suc j) (fst (recent_assign n xs k' v)) k"
proof (cases "k' \<in> fst ` set xs")
  case True
  let ?f = "\<lambda>e. if fst e = k' then (k', v) else e"
  have "map fst (drop m (map ?f xs)) = map fst (drop m xs)" for m by (auto simp: drop_map)
  then have "fst ` set (drop m (map ?f xs)) = fst ` set (drop m xs)" for m by (metis set_map)
  then have "recent_within j (map ?f xs) k" using assms(1) by (simp add: recent_within_def)
  moreover have "set (drop (length xs - j) (map ?f xs)) \<subseteq> set (drop (length xs - Suc j) (map ?f xs))"
    by (rule set_drop_subset_set_drop) simp
  ultimately show ?thesis using True by (auto simp: recent_within_def recent_assign_def)
next
  case False
  have "drop (length (tl xs) - j) (tl xs) = drop (length xs - j) xs" if "length xs = n"
    using that assms(2) by (simp add: drop_Suc [symmetric] Suc_diff_Suc)
  then have "set (drop (length ys - j) ys) = set (drop (length xs - j) xs)" if "ys = (if length xs = n then tl xs else xs)" for ys
    using that by auto
  then show ?thesis
    using assms(1) False drop_last_Suc [of _ "(k', v)" j] by (auto simp: recent_within_def recent_assign_def)
qed

lemma rm_list_length: "rm_inv m \<Longrightarrow> length (rm_list m) \<le> 2 ^ rm_bits m"
  by (simp add: rm_list_def rb_length rm_ring_def rb_size_def rm_inv_def)

text \<open>What one step does to the memory of executions.\<close>

lemma on_fill_exec_seen:
  "om_exec_seen (fst (on_fill m s)) = (if fmsg_exec_id m \<noteq> [] then om_exec_seen (fst (remember_exec m s)) else om_exec_seen s)"
  using id_source_on_fill [of m s] by (simp add: id_source_def split: if_splits)

lemma on_fill_within:
  assumes "oms_inv s" "recent_within j (rm_list (om_exec_seen s)) k" "j < 2 ^ rm_bits (om_exec_seen s)"
  shows "recent_within (Suc j) (rm_list (om_exec_seen (fst (on_fill m s)))) k"
proof (cases "fmsg_exec_id m = []")
  case True
  have "set (drop (length xs - j) xs) \<subseteq> set (drop (length xs - Suc j) xs)" for xs :: "(u64 \<times> nat) list"
    by (rule set_drop_subset_set_drop) simp
  then show ?thesis using assms(2) True by (auto simp: on_fill_exec_seen recent_within_def)
next
  case False
  then show ?thesis
    using remember_exec_fresh(2) [OF assms(1) prod.collapse [symmetric], of m] recent_within_assign [OF assms(2,3)]
      rm_list_length [OF oms_inv_exec [OF assms(1)]] by (simp add: on_fill_exec_seen)
qed

lemma exec_bits_step: "oms_step s s' \<Longrightarrow> oms_inv s \<Longrightarrow> rm_bits (om_exec_seen s') = rm_bits (om_exec_seen s)"
  using oms_step_id_source [of s s'] remember_exec_fresh(3) [of s]
  by (auto simp: id_source_def next_cl_ord_id_def) (metis prod.collapse)

lemma exec_bits_reachable: "oms_reachable s s' \<Longrightarrow> oms_inv s \<Longrightarrow> rm_bits (om_exec_seen s') = rm_bits (om_exec_seen s)"
  unfolding oms_reachable_def
proof (induction rule: rtranclp_induct)
  case (step s1 s2)
  then show ?case using exec_bits_step [OF step(2)] oms_reachable_inv [of s s1] by (simp add: oms_reachable_def)
qed simp

text \<open>A stretch of calls, with the number of fills among them.\<close>

inductive fills_between :: "nat \<Rightarrow> oms \<Rightarrow> oms \<Rightarrow> bool" where
  between_none: "fills_between 0 s s"
| between_other: "fills_between n s s1 \<Longrightarrow> oms_step s1 s2 \<Longrightarrow> om_exec_seen s2 = om_exec_seen s1 \<Longrightarrow> fills_between n s s2"
| between_fill: "fills_between n s s1 \<Longrightarrow> fills_between (Suc n) s (fst (on_fill m s1))"

lemma fills_between_within:
  "fills_between n s s' \<Longrightarrow> oms_inv s \<Longrightarrow> recent_within j (rm_list (om_exec_seen s)) k \<Longrightarrow> j + n \<le> 2 ^ rm_bits (om_exec_seen s) \<Longrightarrow>
   oms_inv s' \<and> rm_bits (om_exec_seen s') = rm_bits (om_exec_seen s) \<and> recent_within (j + n) (rm_list (om_exec_seen s')) k"
proof (induction rule: fills_between.induct)
  case (between_other n s s1 s2)
  then show ?case using oms_step_inv [of s1 s2] by simp
next
  case (between_fill n s s1 m)
  then have i: "oms_inv s1" "rm_bits (om_exec_seen s1) = rm_bits (om_exec_seen s)" "recent_within (j + n) (rm_list (om_exec_seen s1)) k" by auto
  have "oms_step s1 (fst (on_fill m s1))" by (rule step_fill)
  then show ?case
    using oms_step_inv [of s1] exec_bits_step [of s1] on_fill_within [OF i(1,3)] i between_fill.prems by simp
qed simp

text \<open>C10: an execution the venue reports again is booked once. After a fill was accepted, and as long
  as fewer than 65536 further fills came in between, whatever else happened, a fill with the same
  execution id, instrument and side is answered Duplicate, whichever order it names, and changes no
  order, no quantity and no terminal record.\<close>

theorem execution_booked_once:
  assumes "oms_reachable (oms_new epoch max_seq) s" and "exec_fresh m s" and "fmsg_exec_id m \<noteq> []"
    and "fills_between n (fst (on_fill m s)) s'" and "n < 65536"
    and "exec_key m' = exec_key m" and "fmsg_exec_id m' \<noteq> []"
  shows "u_action (snd (on_fill m' s')) = Duplicate \<and> om_pool (fst (on_fill m' s')) = om_pool s' \<and>
    om_open_qty (fst (on_fill m' s')) = om_open_qty s' \<and> om_ring (fst (on_fill m' s')) = om_ring s' \<and>
    om_ids (fst (on_fill m' s')) = om_ids s'"
proof -
  have inv: "oms_inv s" by (rule oms_reachable_inv [OF assms(1) oms_new_inv(1)])
  have b: "rm_bits (om_exec_seen s) = 16"
    using exec_bits_reachable [OF assms(1) oms_new_inv(1)] by (simp add: oms_new_def oms_make_def rm_new_def)
  let ?s1 = "fst (on_fill m s)"
  have i1: "oms_inv ?s1" "rm_bits (om_exec_seen ?s1) = 16"
    using on_fill_inv [OF inv] exec_bits_step [OF step_fill inv] b by simp_all
  have "recent_within 1 (rm_list (om_exec_seen ?s1)) (exec_key m)"
    using remember_exec_fresh(2) [OF inv prod.collapse [symmetric], of m] assms(2,3) recent_within_new [of "exec_key m"]
    by (simp add: on_fill_exec_seen exec_fresh_def)
  from fills_between_within [OF assms(4) i1(1) this] have "oms_inv s'" "exec_key m \<in> fst ` set (rm_list (om_exec_seen s'))"
    using assms(5) i1(2) recent_within_mem by auto
  then have "oms_inv s'" "\<not> exec_fresh m' s'" using assms(6,7) by (auto simp: exec_fresh_def)
  from on_fill_duplicate [OF this] show ?thesis by auto
qed

definition sample_fill :: order_fill_msg where
  "sample_fill =
     \<lparr>fmsg_hdr = \<lparr>eh_venue = 0, eh_flags = 0, eh_instrument = 3, eh_exch_ts = 5, eh_recv_ts = 6\<rparr>,
      fmsg_cl_ord_id = 7, fmsg_venue_order_id = ''v1'', fmsg_exec_id = ''e1'', fmsg_price = 10000000000,
      fmsg_qty = 200000000, fmsg_cum_qty = 0, fmsg_side = Buy, fmsg_replayed = False\<rparr>"

theorem execution_booked_once_witness:
  "u_action (snd (on_fill (sample_fill\<lparr>fmsg_cl_ord_id := 99\<rparr>) (fst (on_fill sample_fill (oms_new 1 5))))) = Duplicate"
proof -
  have "rm_list (om_exec_seen (oms_new 1 5)) = []" using rm_new_inv [of 16 "0::nat"] by (simp add: oms_new_def oms_make_def)
  then have f: "exec_fresh sample_fill (oms_new 1 5)" by (simp add: exec_fresh_def)
  show ?thesis
    using execution_booked_once [OF _ f _ between_none, of 1 5 "sample_fill\<lparr>fmsg_cl_ord_id := 99\<rparr>"]
    by (simp add: oms_reachable_def sample_fill_def exec_key_def)
qed

section \<open>Fills of open orders\<close>

lemma fill_covered_update:
  assumes "fill_covered m h (s, u) = (s', u')"
  shows "\<exists>c p. u' = u\<lparr>u_corrected_qty := c, u_synthetic_px := p\<rparr>" "st_synthetic_pending (om_stats s) = 0 \<Longrightarrow> u' = u"
proof -
  have "u' = u \<or> (\<exists>c p. u' = u\<lparr>u_corrected_qty := c, u_synthetic_px := p\<rparr>)"
    using assms by (simp add: fill_covered_def take_synthetic_def Let_def case_prod_unfold split: if_splits option.splits) (auto intro: exI)
  moreover have "u = u\<lparr>u_corrected_qty := u_corrected_qty u, u_synthetic_px := u_synthetic_px u\<rparr>" by simp
  ultimately show "\<exists>c p. u' = u\<lparr>u_corrected_qty := c, u_synthetic_px := p\<rparr>" by metis
  show "st_synthetic_pending (om_stats s) = 0 \<Longrightarrow> u' = u" using assms by (simp add: fill_covered_def)
qed

lemma fill_covered_corrected:
  assumes "fill_covered m h (s, u) = (s', u')" "h \<noteq> kNullHandle" "u_known u" "u_corrected_qty u = 0"
  shows "u_corrected_qty u' =
      (if st_synthetic_pending (om_stats s) = 0 \<or> es_qty (om_estimates s h) \<le> 0 then 0
       else if fmsg_cum_qty m > 0 \<and> \<not> fmsg_replayed m
       then max 0 (min (es_qty (om_estimates s h)) (min (fmsg_qty m) (o_cum_qty (order_at s h) - (fmsg_cum_qty m - fmsg_qty m))))
       else if fmsg_replayed m then min (es_qty (om_estimates s h)) (fmsg_qty m) else 0)"
proof -
  have t: "u_corrected_qty (snd (take_synthetic h c q (s, u))) =
      (if es_qty (om_estimates s h) \<le> 0 then 0 else min (es_qty (om_estimates s h)) q)" for c q
    using assms(2,4) by (simp add: take_synthetic_def take_estimate_def Let_def case_prod_unfold min_def)
  have "u' = snd (fill_covered m h (s, u))" using assms(1) by simp
  then show ?thesis using assms(2,3,4) by (auto simp: fill_covered_def Let_def t min_def max_def)
qed

text \<open>Remembering a new execution changes nothing else.\<close>

lemma exec_stage:
  assumes "oms_inv s" "exec_fresh m s"
  obtains s1 where "(if fmsg_exec_id m \<noteq> [] then remember_exec m s else (s, True)) = (s1, True)" "oms_inv s1"
    "om_ids s1 = om_ids s" "om_stats s1 = om_stats s" "om_pool s1 = om_pool s" "om_ring s1 = om_ring s" "om_open_qty s1 = om_open_qty s"
    "om_estimates s1 = om_estimates s"
proof (cases "fmsg_exec_id m = []")
  case True
  then show thesis using that [of s] assms(1) by simp
next
  case False
  obtain s1 f where r: "remember_exec m s = (s1, f)" by fastforce
  then have "om_pool s1 = om_pool s" "om_open_qty s1 = om_open_qty s" "om_estimates s1 = om_estimates s" by (auto simp: remember_exec_def split: prod.splits)
  then show thesis using that [of s1] r False remember_exec_inv [OF assms(1) r] remember_exec_fresh(1) [OF assms(1) r] assms(2)
    by (simp add: exec_fresh_def)
qed

lemma order_at_pool: "om_pool s' = om_pool s \<Longrightarrow> live s' = live s \<and> order_at s' = order_at s"
  by (simp add: live_def order_at_def fun_eq_iff)

text \<open>A fill whose execution is new, of an order that is open.\<close>

lemma on_fill_fresh:
  assumes inv: "oms_inv s" and fresh: "exec_fresh m s" and h: "open_handle s (fmsg_cl_ord_id m) = h" "h \<noteq> kNullHandle"
  defines "u1 \<equiv> update_zero\<lparr>u_fill_qty := fmsg_qty m, u_fill_px := fmsg_price m, u_known := True, u_handle := h\<rparr>"
  obtains s1 s2 u2 where "oms_inv s1" "live s1 = live s" "order_at s1 = order_at s" "om_stats s1 = om_stats s" "om_estimates s1 = om_estimates s"
    "fill_covered m h (s1, u1) = (s2, u2)" "oms_inv s2" "live s2 = live s" "order_at s2 = order_at s" "h \<in> live s"
    "on_fill m s =
       (let s3 = upd_stats (\<lambda>st. st\<lparr>st_fills := st_fills st + 1\<rparr>) s2;
            od = order_at s h; cum = fill_cum m (u_corrected_qty u2) od; s5 = book_fill h m cum s3;
            u3 = u2\<lparr>u_prev := o_state od, u_changed := True\<rparr>
        in if cum \<ge> o_qty od
           then terminate h Filled False (upd_stats (\<lambda>st. st\<lparr>st_filled := st_filled st + 1\<rparr>) s5, u3)
           else let s6 = (if o_state od = Live \<or> o_state od = PendingNew
                          then upd_order h (\<lambda>od. od\<lparr>o_state := PartiallyFilled\<rparr>) s5 else s5)
                in (s6, finish_update s6 u3 h))"
proof -
  let ?u0 = "update_zero\<lparr>u_fill_qty := fmsg_qty m, u_fill_px := fmsg_price m\<rparr>"
  obtain s1 where e: "(if fmsg_exec_id m \<noteq> [] then remember_exec m s else (s, True)) = (s1, True)"
    and i1: "oms_inv s1" "om_ids s1 = om_ids s" "om_stats s1 = om_stats s" "om_pool s1 = om_pool s" "om_estimates s1 = om_estimates s"
    by (rule exec_stage [OF inv fresh])
  note at1 = order_at_pool [OF i1(4)]
  have hl: "h \<in> live s" using open_handle_iff [OF inv] h by (auto simp: open_ids_def)
  have l: "lookup s1 (fmsg_cl_ord_id m) ?u0 = (h, u1)"
    using h by (auto simp: lookup_def open_handle_def i1 u1_def split: option.splits if_splits)
  obtain s2 u2 where c: "fill_covered m h (s1, u1) = (s2, u2)" by fastforce
  have "h \<noteq> kNullHandle \<Longrightarrow> h \<in> live s1" using hl at1 by simp
  note i2 = fill_covered_inv [OF i1(1) this c]
  show thesis
  proof (rule that [OF i1(1) conjunct1 [OF at1] conjunct2 [OF at1] i1(3,5) c i2(1) _ _ hl])
    show "live s2 = live s" "order_at s2 = order_at s" using i2 at1 by simp_all
    then show "on_fill m s =
       (let s3 = upd_stats (\<lambda>st. st\<lparr>st_fills := st_fills st + 1\<rparr>) s2;
            od = order_at s h; cum = fill_cum m (u_corrected_qty u2) od; s5 = book_fill h m cum s3;
            u3 = u2\<lparr>u_prev := o_state od, u_changed := True\<rparr>
        in if cum \<ge> o_qty od
           then terminate h Filled False (upd_stats (\<lambda>st. st\<lparr>st_filled := st_filled st + 1\<rparr>) s5, u3)
           else let s6 = (if o_state od = Live \<or> o_state od = PendingNew
                          then upd_order h (\<lambda>od. od\<lparr>o_state := PartiallyFilled\<rparr>) s5 else s5)
                in (s6, finish_update s6 u3 h))"
      using h(2) by (simp add: on_fill_def Let_def e l c)
  qed
qed

text \<open>C13: a fresh fill of an open order moves it forward and never back: the filled quantity becomes
  the venue's cumulative quantity when the fill carries one, else grows by the part no earlier
  estimate covers, and stays between the old quantity and the order's size. What an estimate covers is what was booked of
  the order beyond the venue's count before this fill, or all of a replayed fill, up to the estimate. The order ends Filled,
  and leaves its slot, exactly when its size is reached; otherwise it stays in its slot, working if
  it was new or live and still pending if a cancel or replace is. No other order changes.\<close>

theorem on_fill_open_order:
  assumes "oms_inv s" and "exec_fresh m s" and "open_handle s (fmsg_cl_ord_id m) = h" and "h \<noteq> kNullHandle"
    and "on_fill m s = (s', u)"
  shows "let od = order_at s h; booked = es_qty (om_estimates s h);
      cum = min (o_qty od) (max (o_cum_qty od)
        (if fmsg_cum_qty m > 0 then fmsg_cum_qty m else o_cum_qty od + fmsg_qty m - u_corrected_qty u)) in
    u_corrected_qty u =
      (if st_synthetic_pending (om_stats s) = 0 \<or> booked \<le> 0 then 0
       else if fmsg_cum_qty m > 0 \<and> \<not> fmsg_replayed m
       then max 0 (min booked (min (fmsg_qty m) (o_cum_qty od - (fmsg_cum_qty m - fmsg_qty m))))
       else if fmsg_replayed m then min booked (fmsg_qty m) else 0) \<and>
    (\<forall>g\<in>live s - {h}. order_at s' g = order_at s g) \<and>
    (if cum = o_qty od
     then live s' = live s - {h} \<and> u_terminal u \<and> o_state (u_order u) = Filled \<and> o_cum_qty (u_order u) = cum
     else live s' = live s \<and> \<not> u_terminal u \<and> u_order u = order_at s' h \<and> o_cum_qty (order_at s' h) = cum \<and>
       o_state (order_at s' h) = (if o_state od = Live \<or> o_state od = PendingNew then PartiallyFilled else o_state od))"
proof (rule on_fill_fresh [OF assms(1-4)])
  fix s1 s2 and u2 :: oms_update
  let ?u1 = "update_zero\<lparr>u_fill_qty := fmsg_qty m, u_fill_px := fmsg_price m, u_known := True, u_handle := h\<rparr>"
  let ?s3 = "upd_stats (\<lambda>st. st\<lparr>st_fills := st_fills st + 1\<rparr>) s2" and ?od = "order_at s h"
  define cum where "cum = fill_cum m (u_corrected_qty u2) ?od"
  let ?s5 = "book_fill h m cum ?s3" and ?u3 = "u2\<lparr>u_prev := o_state ?od, u_changed := True\<rparr>"
  let ?s6 = "if o_state ?od = Live \<or> o_state ?od = PendingNew then upd_order h (\<lambda>od. od\<lparr>o_state := PartiallyFilled\<rparr>) ?s5 else ?s5"
  assume st: "om_stats s1 = om_stats s" and es: "om_estimates s1 = om_estimates s" "order_at s1 = order_at s" and c: "fill_covered m h (s1, ?u1) = (s2, u2)"
    and i2: "oms_inv s2" "live s2 = live s" "order_at s2 = order_at s" and h: "h \<in> live s"
    and f: "on_fill m s =
       (let s3 = upd_stats (\<lambda>st. st\<lparr>st_fills := st_fills st + 1\<rparr>) s2;
            od = order_at s h; cum = fill_cum m (u_corrected_qty u2) od; s5 = book_fill h m cum s3;
            u3 = u2\<lparr>u_prev := o_state od, u_changed := True\<rparr>
        in if cum \<ge> o_qty od
           then terminate h Filled False (upd_stats (\<lambda>st. st\<lparr>st_filled := st_filled st + 1\<rparr>) s5, u3)
           else let s6 = (if o_state od = Live \<or> o_state od = PendingNew
                          then upd_order h (\<lambda>od. od\<lparr>o_state := PartiallyFilled\<rparr>) s5 else s5)
                in (s6, finish_update s6 u3 h))"
  have f': "on_fill m s = (if cum \<ge> o_qty ?od
      then terminate h Filled False (upd_stats (\<lambda>st. st\<lparr>st_filled := st_filled st + 1\<rparr>) ?s5, ?u3)
      else (?s6, finish_update ?s6 ?u3 h))" using f by (simp add: Let_def cum_def)
  have b: "o_cum_qty ?od \<le> cum" "cum \<le> o_qty ?od"
    using fill_cum_bounds [of ?od m] live_ok [OF assms(1) h] by (auto simp: order_ok_def cum_def)
  note cu = fill_covered_update [OF c]
  obtain cc p where u2: "u2 = ?u1\<lparr>u_corrected_qty := cc, u_synthetic_px := p\<rparr>" using cu(1) by blast
  have "u_corrected_qty ?u1 = 0" by (simp add: update_zero_def)
  note z = fill_covered_corrected [OF c assms(4) _ this, unfolded st es, simplified]
  have cm: "min (o_qty ?od) (max (o_cum_qty ?od)
      (if fmsg_cum_qty m > 0 then fmsg_cum_qty m else o_cum_qty ?od + fmsg_qty m - u_corrected_qty u2)) = cum"
    by (simp add: cum_def fill_cum_def Let_def min_def max_def)
  have i3: "oms_inv ?s3" "h \<in> live ?s3" "o_cum_qty (order_at ?s3 h) \<le> cum" "cum \<le> o_qty (order_at ?s3 h)" using i2 h b by simp_all
  note i5 = book_fill_inv [OF i3, where m = m]
  show ?thesis
  proof (cases "cum = o_qty ?od")
    case True
    let ?s5' = "upd_stats (\<lambda>st. st\<lparr>st_filled := st_filled st + 1\<rparr>) ?s5"
    have t: "terminate h Filled False (?s5', ?u3) = (s', u)" using f' True assms(5) by simp
    have h5: "oms_inv ?s5'" "h \<in> live ?s5'" using i5(1,2) i2 h by simp_all
    note tu = terminate_update [OF h5 t] and ti = terminate_inv [OF h5 t]
    have uu: "u_corrected_qty u = u_corrected_qty u2" using tu by simp
    show ?thesis unfolding Let_def uu cm using True z tu ti i5 i2 by auto
  next
    case False
    then have e: "s' = ?s6" "u = finish_update ?s6 ?u3 h" using f' b assms(5) by auto
    have "live ?s6 = live s" "\<And>g. g \<noteq> h \<Longrightarrow> order_at ?s6 g = order_at s g" "o_cum_qty (order_at ?s6 h) = cum"
      "o_state (order_at ?s6 h) = (if o_state ?od = Live \<or> o_state ?od = PendingNew then PartiallyFilled else o_state ?od)"
      using i5 i2 h by (auto simp: live_upd_order order_at_upd_order)
    moreover have "\<not> u_terminal u" and uu: "u_corrected_qty u = u_corrected_qty u2" and "u_order u = order_at ?s6 h"
      unfolding e(2) by (simp_all add: finish_update_def u2 update_zero_def)
    ultimately show ?thesis unfolding Let_def uu cm e(1) using False z by simp
  qed
qed

lemma sample_inv: "oms_inv sample_state"
  by (rule oms_reachable_inv [OF sample_accepted(1) oms_new_inv(1)])

lemma sample_handle:
  obtains h where "h \<in> live sample_state" "live sample_state = {h}" "open_handle sample_state 7 = h" "h \<noteq> kNullHandle"
    "order_at sample_state h = new_order sample_request 7 1"
proof -
  obtain h where h: "live sample_state = {h}" "order_at sample_state h = new_order sample_request 7 1" using sample_accepted(2) by blast
  then have "(7, h) \<in> open_ids sample_state" by (simp add: open_ids_def order_ids_def new_order_def)
  then show thesis using that [of h] h open_handle_iff [OF sample_inv] by blast
qed

lemma submit_keeps_execs: "om_exec_seen (fst (submit req cid now s)) = om_exec_seen s" "st_synthetic_pending (om_stats (fst (submit req cid now s))) = st_synthetic_pending (om_stats s)"
  using id_source_handlers(1) [of req cid now s]
  by (simp_all add: id_source_def submit_def install_order_def add_open_def case_prod_unfold Let_def upd_order_def upd_stats_def upd_times_def
      upd_estimate_def add_open_qty_def set_best_own_def add_open_count_def)

theorem on_fill_open_order_witness:
  "\<exists>h. live (fst (on_fill sample_fill sample_state)) = {h} \<and>
     o_cum_qty (order_at (fst (on_fill sample_fill sample_state)) h) = 200000000 \<and>
     o_state (order_at (fst (on_fill sample_fill sample_state)) h) = PartiallyFilled"
proof -
  obtain h where h: "h \<in> live sample_state" "live sample_state = {h}" "open_handle sample_state 7 = h" "h \<noteq> kNullHandle"
    "order_at sample_state h = new_order sample_request 7 1" by (rule sample_handle)
  have "om_exec_seen sample_state = om_exec_seen (oms_new 1 5)" "st_synthetic_pending (om_stats sample_state) = 0"
    using submit_keeps_execs [of sample_request 7 1 "oms_new 1 5"] by (simp_all add: sample_state_def) (simp add: oms_new_def oms_make_def stats_zero_def)
  then have f: "exec_fresh sample_fill sample_state" "st_synthetic_pending (om_stats sample_state) = 0"
    using rm_new_inv [of 16 "0::nat"] by (simp_all add: exec_fresh_def oms_new_def oms_make_def)
  have c: "fmsg_cum_qty sample_fill = 0" "fmsg_qty sample_fill = 200000000" "o_cum_qty (new_order sample_request 7 1) = 0"
    "o_qty (new_order sample_request 7 1) = 500000000" "o_state (new_order sample_request 7 1) = PendingNew"
    by (simp_all add: sample_fill_def new_order_def sample_request_def limit_order_def order_zero_def)
  have o: "open_handle sample_state (fmsg_cl_ord_id sample_fill) = h" using h(3) by (simp add: sample_fill_def)
  show ?thesis
    using on_fill_open_order [OF sample_inv f(1) o h(4) surjective_pairing] f(2) h(2,5) c by (auto simp: Let_def)
qed

section \<open>Cancel acknowledgements\<close>

lemma absorb_cum_update:
  assumes "order_at s h = od" "o_cum_qty od \<le> o_qty od" "absorb_cum h q (s, u) = (s', u')"
  shows "u_missed_qty u' = u_missed_qty u + (max (o_cum_qty od) (min q (o_qty od)) - o_cum_qty od) \<and> u_terminal u' = u_terminal u"
  using assms by (auto simp: absorb_cum_def Let_def split: if_splits)

text \<open>The state in which a cancel acknowledgement ends the order.\<close>

lemma cancel_ack_ends:
  assumes h: "h \<in> live s" and le: "o_qty (order_at s h) \<le> cum \<longleftrightarrow> cum = o_qty (order_at s h)" and nn: "h \<noteq> kNullHandle"
    and m: "on_cancel_ack m s = (s', u)" and l: "lookup s (cm_cl_ord_id m) update_zero = (h, u0)"
    and a: "absorb_cum h (cm_cum_qty m) (s, u0\<lparr>u_prev := o_state (order_at s h)\<rparr>) = (s1, u1)"
    and i1: "oms_inv s1" "live s1 = live s" "\<And>g. g \<noteq> h \<Longrightarrow> order_at s1 g = order_at s g"
    and od1: "order_at s1 h = (order_at s h)\<lparr>o_cum_qty := cum\<rparr>"
    and st_def: "st = (if cum = o_qty (order_at s h) then Filled else Canceled)"
    and False: "\<not> (o_state (order_at s h) = PendingReplace \<and> cm_cl_ord_id m = o_cl_ord_id (order_at s h))"
  obtains s2 where "terminate h st False (s2, u1) = (s', u)" "oms_inv s2" "live s2 = live s"
      "\<And>g. g \<noteq> h \<Longrightarrow> order_at s2 g = order_at s g" "o_cum_qty (order_at s2 h) = cum" "o_cl_ord_id (order_at s2 h) = o_cl_ord_id (order_at s h)"
      "o_flags (order_at s2 h) = (if cum \<noteq> o_qty (order_at s h) \<and> o_state (order_at s h) \<noteq> PendingCancel
         then o_flags (order_at s h) OR kUnsolicitedCancel else o_flags (order_at s h))"
proof (cases "cum \<noteq> o_qty (order_at s h) \<and> o_state (order_at s h) \<noteq> PendingCancel")
  case True
  let ?f = "\<lambda>od. od\<lparr>o_flags := o_flags od OR kUnsolicitedCancel\<rparr>"
  let ?s2 = "upd_stats (\<lambda>st. st\<lparr>st_unsolicited_cancels := st_unsolicited_cancels st + 1\<rparr>) (upd_order h ?f s1)"
  have "terminate h st False (?s2, u1) = (s', u)"
    using nn m l a True False od1 le by (simp add: on_cancel_ack_def Let_def st_def)
  then show thesis
  proof (rule that)
    have h1: "h \<in> live s1" using i1(2) h by simp
    show "oms_inv ?s2" using i1(1) h1 by (simp add: quiet_inv quiet_flags)
    show "live ?s2 = live s" using i1(1,2) h1 by (simp add: live_upd_order)
    show "order_at ?s2 g = order_at s g" if "g \<noteq> h" for g using i1(1,3) h1 that by (simp add: order_at_upd_order)
    show "o_cum_qty (order_at ?s2 h) = cum" "o_cl_ord_id (order_at ?s2 h) = o_cl_ord_id (order_at s h)"
      "o_flags (order_at ?s2 h) = (if cum \<noteq> o_qty (order_at s h) \<and> o_state (order_at s h) \<noteq> PendingCancel then o_flags (order_at s h) OR kUnsolicitedCancel else o_flags (order_at s h))"
      using i1(1) h1 od1 True by (simp_all add: order_at_upd_order)
  qed
next
  case nu: False
  show thesis
  proof (cases "cum = o_qty (order_at s h)")
    case True
    let ?s2 = "upd_stats (\<lambda>st. st\<lparr>st_filled := st_filled st + 1\<rparr>) s1"
    have "terminate h st False (?s2, u1) = (s', u)"
      using nn m l a False od1 True by (simp add: on_cancel_ack_def Let_def st_def)
    then show thesis by (rule that) (use True od1 i1 in simp_all)
  next
    case nf: False
    then have pc: "o_state (order_at s h) = PendingCancel" using nu by simp
    have "terminate h st False (s1, u1) = (s', u)"
      using nn m l a False od1 le nf pc by (simp add: on_cancel_ack_def Let_def st_def)
    then show thesis by (rule that) (use pc od1 i1 in simp_all)
  qed
qed

text \<open>C24: a cancel acknowledgement of an open order books the quantity the venue counts beyond what
  was seen, and reports it. The old leg of a cancel-then-new replace stays open, marked; in every
  other case the order leaves its slot, Filled when that quantity completes it and Canceled
  otherwise, flagged as unsolicited when no cancel was pending; its id then leads to a terminal
  record with that state and quantity. No other order changes.\<close>

theorem on_cancel_ack_outcome:
  assumes "oms_inv s" and "open_handle s (cm_cl_ord_id m) = h" and "h \<noteq> kNullHandle" and "on_cancel_ack m s = (s', u)"
  shows "let od = order_at s h; cum = max (o_cum_qty od) (min (cm_cum_qty m) (o_qty od)) in
    u_missed_qty u = cum - o_cum_qty od \<and> (\<forall>g\<in>live s - {h}. order_at s' g = order_at s g) \<and>
    (if o_state od = PendingReplace \<and> cm_cl_ord_id m = o_cl_ord_id od
     then live s' = live s \<and> \<not> u_terminal u \<and> o_state (order_at s' h) = PendingReplace \<and>
       o_cum_qty (order_at s' h) = cum \<and> o_flags (order_at s' h) = o_flags od OR kReplaceOldCanceled
     else live s' = live s - {h} \<and> u_terminal u \<and> o_cum_qty (u_order u) = cum \<and>
       o_state (u_order u) = (if cum = o_qty od then Filled else Canceled) \<and>
       o_flags (u_order u) = (if cum \<noteq> o_qty od \<and> o_state od \<noteq> PendingCancel then o_flags od OR kUnsolicitedCancel else o_flags od) \<and>
       (\<exists>k. find_terminal s' (o_cl_ord_id od) = Some k \<and> tr_state (rb_buf (om_ring s') k) = o_state (u_order u) \<and>
          tr_cum_qty (rb_buf (om_ring s') k) = cum))"
proof -
  let ?od = "order_at s h" and ?u0 = "update_zero\<lparr>u_known := True, u_handle := h\<rparr>"
  define cum where "cum = max (o_cum_qty ?od) (min (cm_cum_qty m) (o_qty ?od))"
  have h: "h \<in> live s" using open_handle_iff [OF assms(1)] assms(2,3) by (auto simp: open_ids_def)
  have ok: "order_ok ?od" by (rule live_ok [OF assms(1) h])
  have l: "lookup s (cm_cl_ord_id m) update_zero = (h, ?u0)"
    using assms(2,3) by (auto simp: lookup_def open_handle_def split: option.splits if_splits)
  obtain s1 u1 where a: "absorb_cum h (cm_cum_qty m) (s, ?u0\<lparr>u_prev := o_state ?od\<rparr>) = (s1, u1)" by fastforce
  note i1 = absorb_cum_inv [OF assms(1) h a]
  have od1: "order_at s1 h = ?od\<lparr>o_cum_qty := cum\<rparr>" using i1(3) by (simp add: cum_def)
  have u1: "u_missed_qty u1 = cum - o_cum_qty ?od" "\<not> u_terminal u1"
    using absorb_cum_update [OF refl _ a] ok by (simp_all add: order_ok_def cum_def update_zero_def)
  show ?thesis
  proof (cases "o_state ?od = PendingReplace \<and> cm_cl_ord_id m = o_cl_ord_id ?od")
    case True
    let ?s2 = "upd_order h (\<lambda>od. od\<lparr>o_flags := o_flags od OR kReplaceOldCanceled\<rparr>) s1"
    have "s' = ?s2" "u = finish_update ?s2 u1 h" using assms(3,4) l a True od1 by (auto simp: on_cancel_ack_def Let_def)
    moreover have h1: "h \<in> live s1" using i1(2) h by simp
    moreover from this have "live ?s2 = live s" "\<And>g. g \<noteq> h \<Longrightarrow> order_at ?s2 g = order_at s g"
      "order_at ?s2 h = ?od\<lparr>o_cum_qty := cum, o_flags := o_flags ?od OR kReplaceOldCanceled\<rparr>"
      using i1 od1 by (simp_all add: live_upd_order order_at_upd_order)
    ultimately show ?thesis
      unfolding Let_def cum_def [symmetric] if_P [OF True] using u1 True by (simp add: finish_update_def)
  next
    case False
    define st where "st = (if cum = o_qty ?od then Filled else Canceled)"
    have le: "o_qty ?od \<le> cum \<longleftrightarrow> cum = o_qty ?od" using ok by (auto simp: cum_def order_ok_def)
    obtain s2 where t: "terminate h st False (s2, u1) = (s', u)" and i2: "oms_inv s2" "live s2 = live s"
      "\<And>g. g \<noteq> h \<Longrightarrow> order_at s2 g = order_at s g" "o_cum_qty (order_at s2 h) = cum" "o_cl_ord_id (order_at s2 h) = o_cl_ord_id ?od"
      "o_flags (order_at s2 h) = (if cum \<noteq> o_qty ?od \<and> o_state ?od \<noteq> PendingCancel then o_flags ?od OR kUnsolicitedCancel else o_flags ?od)"
      by (rule cancel_ack_ends [OF h _ assms(3,4) l a i1(1,2) _ od1 st_def False]) (use i1(3) le in auto)
    have h2: "h \<in> live s2" using h i2 by simp
    note tu = terminate_update [OF i2(1) h2 t] and ti = terminate_inv [OF i2(1) h2 t] and tr = terminate_remembered [OF i2(1) h2 t]
    have o: "o_state (u_order u) = st" "o_cum_qty (u_order u) = cum" "o_flags (u_order u) = o_flags (order_at s2 h)"
      "u_missed_qty u = cum - o_cum_qty ?od" "u_terminal u" using tu u1(1) i2(4) by simp_all
    have r: "\<exists>k. find_terminal s' (o_cl_ord_id ?od) = Some k \<and> tr_state (rb_buf (om_ring s') k) = st \<and> tr_cum_qty (rb_buf (om_ring s') k) = cum"
      using tr unfolding i2(4,5) by blast
    show ?thesis
      unfolding Let_def cum_def [symmetric] if_not_P [OF False] o i2(6)
      using r ti(2) ti(3) i2(2,3) o(5) by (simp add: st_def)
  qed
qed

theorem on_cancel_ack_outcome_witness:
  "snd (on_cancel_ack \<lparr>cm_cl_ord_id = 7, cm_cum_qty = 500000000\<rparr> sample_state) \<noteq> update_zero \<and>
   o_state (u_order (snd (on_cancel_ack \<lparr>cm_cl_ord_id = 7, cm_cum_qty = 500000000\<rparr> sample_state))) = Filled"
proof -
  obtain h where h: "open_handle sample_state 7 = h" "h \<noteq> kNullHandle" "order_at sample_state h = new_order sample_request 7 1"
    by (rule sample_handle)
  have c: "o_cum_qty (new_order sample_request 7 1) = 0" "o_qty (new_order sample_request 7 1) = 500000000"
    "o_state (new_order sample_request 7 1) = PendingNew"
    by (simp_all add: new_order_def sample_request_def limit_order_def order_zero_def)
  show ?thesis
    using on_cancel_ack_outcome [OF sample_inv _ h(2) surjective_pairing, of "\<lparr>cm_cl_ord_id = 7, cm_cum_qty = 500000000\<rparr>"] h c
    by (auto simp: Let_def update_zero_def)
qed

section \<open>Fills of ended orders\<close>

text \<open>Taking quantity out of the estimate of a terminal record.\<close>

definition with_estimate :: "nat \<Rightarrow> estimate \<Rightarrow> oms \<Rightarrow> oms" where
  "with_estimate k e s = upd_terminal k (\<lambda>r. r\<lparr>tr_estimate := e\<rparr>) s"

lemma take_synthetic_record:
  assumes "find_terminal s cid = Some k" "take_synthetic kNullHandle cid q (s, u) = (s', u')" "u_corrected_qty u = 0"
  shows "\<exists>e st. s' = (with_estimate k e s)\<lparr>om_stats := st\<rparr> \<and> es_qty e = es_qty (tr_estimate (rb_buf (om_ring s) k)) - u_corrected_qty u'"
proof -
  let ?e = "tr_estimate (rb_buf (om_ring s) k)"
  obtain e' c where e: "take_estimate ?e q = (e', c)" by fastforce
  show ?thesis
  proof (cases "es_qty ?e > 0")
    case True
    have u': "u_corrected_qty u' = c" and s': "s' = (with_estimate k e' s)\<lparr>om_stats := om_stats s'\<rparr>"
      using assms(1,2) True e
      by (auto simp: take_synthetic_def Let_def upd_stats_def with_estimate_def upd_terminal_def split: if_splits)
    show ?thesis using u' s' take_estimate_rest [OF e True] by metis
  next
    case False
    have "s = (with_estimate k ?e s)\<lparr>om_stats := om_stats s\<rparr>" by (simp add: with_estimate_def upd_terminal_def)
    moreover have "s' = s" "u_corrected_qty u' = 0" using assms False by (auto simp: take_synthetic_def)
    ultimately show ?thesis by (metis diff_zero)
  qed
qed

lemma fill_covered_record:
  assumes "find_terminal s (fmsg_cl_ord_id m) = Some k" "fill_covered m kNullHandle (s, u) = (s', u')" "u_corrected_qty u = 0"
  shows "\<exists>e st. s' = (with_estimate k e s)\<lparr>om_stats := st\<rparr> \<and> es_qty e = es_qty (tr_estimate (rb_buf (om_ring s) k)) - u_corrected_qty u'"
proof -
  have "(s', u') = (s, u) \<or> (\<exists>q. take_synthetic kNullHandle (fmsg_cl_ord_id m) q (s, u) = (s', u'))"
    using assms(2) by (simp add: fill_covered_def Let_def split: if_splits) blast+
  moreover have "s = (with_estimate k (tr_estimate (rb_buf (om_ring s) k)) s)\<lparr>om_stats := om_stats s\<rparr>"
    by (simp add: with_estimate_def upd_terminal_def)
  ultimately show ?thesis using take_synthetic_record [OF assms(1) _ assms(3)] assms(3) by (metis diff_zero prod.inject)
qed

lemma find_terminal_cong:
  assumes "om_ids s' = om_ids s" "rb_head (om_ring s') = rb_head (om_ring s)" "rb_tail (om_ring s') = rb_tail (om_ring s)"
    "rb_bits (om_ring s') = rb_bits (om_ring s)"
  shows "find_terminal s' cid = find_terminal s cid"
  unfolding find_terminal_def terminal_pos_def rb_at_pos_def rb_size_def rb_slot_def rb_N_def assms ..

lemma find_terminal_with_estimate [simp]:
  "find_terminal (upd_stats g s) cid = find_terminal s cid" "find_terminal ((with_estimate k e s)\<lparr>om_stats := st\<rparr>) cid = find_terminal s cid"
  by (rule find_terminal_cong, simp_all add: upd_stats_def with_estimate_def upd_terminal_def)+

lemma lookup_terminal:
  assumes inv: "oms_inv s" and c: "classify s cid = ClassRecentlyTerminal"
  shows "fst (lookup s cid u) = kNullHandle \<and> u_known (snd (lookup s cid u)) \<and> u_corrected_qty (snd (lookup s cid u)) = u_corrected_qty u"
proof -
  have f: "open_handle s cid = kNullHandle" "find_terminal s cid \<noteq> None" using c by (auto simp: classify_def split: if_splits)
  then obtain v where v: "ohm_find (om_ids s) cid = Some v" "is_terminal_ref v"
    using find_terminal_routed [OF oms_inv_routed [OF inv], of cid] oms_inv_ring [OF inv] by (auto split: option.splits if_splits)
  then show ?thesis using f(2) by (auto simp: lookup_def Let_def)
qed

text \<open>A fresh fill of a recently terminal order is reported as late, touches no open order and no
  open quantity, and reaches the newest terminal record of that id: its quantity grows to what the
  fill accounts for, capped at the order's size and never back, its state becomes Filled when that
  completes an order that had ended Canceled or Expired, and the part that a synthetic fill had
  already booked is taken out of the record's estimate.\<close>

theorem late_fill_updates_record:
  assumes "oms_inv s" and "exec_fresh m s" and "classify s (fmsg_cl_ord_id m) = ClassRecentlyTerminal"
    and "find_terminal s (fmsg_cl_ord_id m) = Some k" and "on_fill m s = (s', u)"
  shows "let r = rb_buf (om_ring s) k; r' = rb_buf (om_ring s') k; cum = late_cum m (u_corrected_qty u) r in
    u_action u = LateFill \<and> om_pool s' = om_pool s \<and> om_open_qty s' = om_open_qty s \<and>
    tr_cum_qty r' = max (tr_cum_qty r) cum \<and>
    tr_state r' = (if cum > tr_cum_qty r \<and> cum = tr_qty r \<and> tr_state r \<in> {Canceled, Expired} then Filled else tr_state r) \<and>
    es_qty (tr_estimate r') = es_qty (tr_estimate r) - u_corrected_qty u"
proof -
  let ?c = "fmsg_cl_ord_id m" and ?u0 = "update_zero\<lparr>u_fill_qty := fmsg_qty m, u_fill_px := fmsg_price m\<rparr>" and ?r = "rb_buf (om_ring s) k"
  obtain s1 where e: "(if fmsg_exec_id m \<noteq> [] then remember_exec m s else (s, True)) = (s1, True)"
    and i1: "oms_inv s1" "om_ids s1 = om_ids s" "om_pool s1 = om_pool s" "om_ring s1 = om_ring s" "om_open_qty s1 = om_open_qty s"
    by (rule exec_stage [OF assms(1,2)])
  have o1: "open_handle s1 ?c = open_handle s ?c" unfolding open_handle_def i1 ..
  have f1: "find_terminal s1 ?c = Some k" "classify s1 ?c = ClassRecentlyTerminal"
    using assms(3,4) find_terminal_cong [of s1 s ?c] by (simp_all add: classify_def o1 i1 split: if_splits)
  obtain u1 where l: "lookup s1 ?c ?u0 = (kNullHandle, u1)" "u_known u1" "u_corrected_qty u1 = 0"
    using lookup_terminal [OF i1(1) f1(2), of ?u0] by (metis prod.collapse update_zero_def oms_update.select_convs(14) oms_update.update_convs(9,10))
  obtain s2 u2 where c: "fill_covered m kNullHandle (s1, u1) = (s2, u2)" by fastforce
  obtain es st where s2: "s2 = (with_estimate k es s1)\<lparr>om_stats := st\<rparr>" "es_qty es = es_qty (tr_estimate ?r) - u_corrected_qty u2"
    using fill_covered_record [OF f1(1) c l(3)] by (auto simp: i1)
  have k2: "u_known u2" using fill_covered_update(1) [OF c] l(2) by auto
  let ?r2 = "?r\<lparr>tr_estimate := es\<rparr>" and ?cum = "late_cum m (u_corrected_qty u2) ?r"
  have r2: "rb_buf (om_ring s2) k = ?r2" "om_pool s2 = om_pool s" "om_open_qty s2 = om_open_qty s"
    by (simp_all add: s2(1) with_estimate_def upd_terminal_def i1)
  have lc: "late_cum m q ?r2 = late_cum m q ?r" for q by (simp add: late_cum_def Let_def)
  have f2: "find_terminal s2 ?c = Some k" using f1(1) by (simp add: s2(1))
  let ?s3 = "upd_stats (\<lambda>st. st\<lparr>st_late_fills := st_late_fills st + 1\<rparr>) (upd_stats (\<lambda>st. st\<lparr>st_fills := st_fills st + 1\<rparr>) s2)"
  have t: "late_fill m (?s3, u2\<lparr>u_action := LateFill\<rparr>) = (s', u)"
    using assms(5) k2 by (simp add: on_fill_def Let_def e l(1) c)
  have f3: "find_terminal ?s3 ?c = Some k" "rb_buf (om_ring ?s3) k = ?r2" using f2 r2(1) by simp_all (simp add: upd_stats_def)
  have le: "?cum \<le> tr_qty ?r" by (simp add: late_cum_def Let_def)
  have u: "u_action u = LateFill" "u_corrected_qty u = u_corrected_qty u2"
    using t f3 by (auto simp: late_fill_def Let_def split: if_splits)
  have s': "om_pool s' = om_pool s" "om_open_qty s' = om_open_qty s"
    "rb_buf (om_ring s') k = (if ?cum \<le> tr_cum_qty ?r then ?r2
       else ?r2\<lparr>tr_cum_qty := ?cum, tr_state := (if ?cum \<ge> tr_qty ?r \<and> (tr_state ?r = Canceled \<or> tr_state ?r = Expired) then Filled else tr_state ?r)\<rparr>)"
    using t f3 r2 by (auto simp: late_fill_def Let_def lc upd_stats_def upd_terminal_def split: if_splits)
  show ?thesis unfolding Let_def u s' using le s2(2) by auto
qed

definition rejected_state :: oms where
  "rejected_state = fst (on_reject \<lparr>jm_cl_ord_id = 7, jm_reason = VenueReject\<rparr> sample_state)"

lemma sample_execs: "rm_list (om_exec_seen sample_state) = []"
  using submit_keeps_execs(1) [of sample_request 7 1 "oms_new 1 5"] rm_new_inv [of 16 "0::nat"]
  by (simp add: sample_state_def oms_new_def oms_make_def)

lemma rejected_sample:
  "oms_inv rejected_state" "classify rejected_state 7 = ClassRecentlyTerminal" "exec_fresh sample_fill rejected_state"
proof -
  show i: "oms_inv rejected_state" unfolding rejected_state_def by (rule on_reject_inv [OF sample_inv])
  have "id_source rejected_state = id_source sample_state" unfolding rejected_state_def by (rule id_source_handlers)
  then show "exec_fresh sample_fill rejected_state" using sample_execs by (simp add: exec_fresh_def id_source_def)
  obtain h where h: "h \<in> live sample_state" "live sample_state = {h}" "open_handle sample_state 7 = h" "h \<noteq> kNullHandle"
    "order_at sample_state h = new_order sample_request 7 1" by (rule sample_handle)
  have l: "lookup sample_state 7 update_zero = (h, update_zero\<lparr>u_known := True, u_handle := h\<rparr>)"
    using h(3,4) by (auto simp: lookup_def open_handle_def split: option.splits if_splits)
  have st: "o_state (new_order sample_request 7 1) = PendingNew" "o_cl_ord_id (new_order sample_request 7 1) = 7" by (simp_all add: new_order_def)
  let ?s = "upd_stats (\<lambda>st. st\<lparr>st_rejected := st_rejected st + 1\<rparr>) (upd_order h (\<lambda>od. od\<lparr>o_reject_reason := VenueReject\<rparr>) sample_state)"
  have q: "quiet (\<lambda>od. od\<lparr>o_reject_reason := VenueReject\<rparr>) (order_at sample_state h)"
    using live_ok [OF sample_inv h(1)] by (simp add: quiet_def is_open_def order_ok_def)
  have i': "oms_inv ?s" "h \<in> live ?s" "order_at ?s h = (new_order sample_request 7 1)\<lparr>o_reject_reason := VenueReject\<rparr>" "live ?s = {h}"
    using quiet_inv [OF sample_inv h(1) q] h sample_inv by (simp_all add: live_upd_order order_at_upd_order)
  let ?u = "update_zero\<lparr>u_known := True, u_handle := h, u_prev := PendingNew, u_refused := VenueReject\<rparr>"
  have "fst (terminate h Rejected False (?s, ?u)) = rejected_state"
    using l h(4,5) st by (simp add: rejected_state_def on_reject_def Let_def)
  then obtain u' where t: "terminate h Rejected False (?s, ?u) = (rejected_state, u')" by (cases "terminate h Rejected False (?s, ?u)") simp
  have "find_terminal rejected_state 7 \<noteq> None" using terminate_remembered [OF i'(1,2) t] i'(3) st by auto
  moreover have "open_handle rejected_state 7 = kNullHandle"
    using terminate_inv(2) [OF i'(1,2) t] i'(4) by (simp add: open_handle_null [OF i] open_ids_def)
  ultimately show "classify rejected_state 7 = ClassRecentlyTerminal" by (simp add: classify_def)
qed

theorem late_fill_updates_record_witness:
  "u_action (snd (on_fill sample_fill rejected_state)) = LateFill"
proof -
  have c: "fmsg_cl_ord_id sample_fill = 7" by (simp add: sample_fill_def)
  have "find_terminal rejected_state 7 \<noteq> None" using rejected_sample(2) by (simp add: classify_def split: if_splits)
  then obtain k where "find_terminal rejected_state (fmsg_cl_ord_id sample_fill) = Some k" by (auto simp: c)
  from late_fill_updates_record [OF rejected_sample(1,3) _ this surjective_pairing] rejected_sample(2) show ?thesis
    by (simp add: c Let_def)
qed

section \<open>Walks over the open orders\<close>

text \<open>In every reachable state \<^verbatim>\<open>for_each_open_order\<close> visits every live order once, in
  ascending slot order, and its variant for one instrument visits exactly those of that instrument.\<close>

theorem open_orders_complete:
  assumes "oms_reachable (oms_new epoch max_seq) s" and "inst < kMaxInstruments"
  shows "open_orders s = sorted_list_of_set (live s) \<and>
    open_orders_of inst s = filter (\<lambda>h. o_instrument (order_at s h) = inst) (open_orders s)"
proof -
  have inv: "oms_inv s" by (rule oms_reachable_inv [OF assms(1) oms_new_inv(1)])
  let ?c = "pl_capacity (om_pool s)"
  have b: "bb_inv (om_by_inst s)" "bb_slots (om_by_inst s) = ?c" "inst < bb_buckets (om_by_inst s)"
    using inv assms(2) by (simp_all add: oms_inv_def oms_shape_def)
  have o: "open_orders s = filter (\<lambda>h. h \<in> live s) [0..<?c]"
    unfolding open_orders_def using pool_handles_sorted [OF oms_inv_pool [OF inv]] by (simp add: live_def)
  have "set (open_orders s) = live s" using handles_live [OF inv] by (simp add: open_orders_def)
  then have "open_orders s = sorted_list_of_set (live s)"
    using sorted_list_of_set.idem_if_sorted_distinct [of "open_orders s"] o by (simp add: sorted_wrt_filter)
  moreover have "bb_scan (om_by_inst s) inst = filter (bb_mem (om_by_inst s) inst) [0..<?c]"
    using bb_scan_sorted [OF b(1,3)] b(2) by simp
  moreover have "bb_mem (om_by_inst s) inst h \<longleftrightarrow> h \<in> live s \<and> o_instrument (order_at s h) = inst" for h
    using inv assms(2) by (simp add: oms_inv_def oms_index_def)
  moreover have "open_orders_of inst s = filter (\<lambda>h. o_instrument (order_at s h) = inst) (filter (\<lambda>h. h \<in> live s) [0..<?c])"
    unfolding open_orders_of_def inst_bucket [OF inv assms(2)] calculation(2) filter_filter
    using calculation(3) by (intro filter_cong) auto
  ultimately show ?thesis using o by simp
qed

theorem open_orders_complete_witness:
  "\<exists>h. open_orders_of 3 sample_state = [h]"
proof -
  obtain h where h: "live sample_state = {h}" "order_at sample_state h = new_order sample_request 7 1" by (rule sample_handle)
  show ?thesis
    using open_orders_complete [OF sample_accepted(1), of 3] h
    by (simp add: kMaxInstruments_def new_order_def sample_request_def limit_order_def)
qed

section \<open>Reconciliation\<close>

text \<open>The callback may do anything the engine can do to the order manager.\<close>

lemma fold_steps:
  assumes "\<And>h s e. oms_reachable s (fst (g h (s, e)))"
  shows "oms_reachable s (fst (fold g hs (s, e)))"
proof (induction hs arbitrary: s e)
  case (Cons h hs)
  obtain s1 e1 where g: "g h (s, e) = (s1, e1)" by fastforce
  have "oms_reachable s s1" using assms [of s h e] g by simp
  then show ?case using Cons [of s1 e1] g by (simp add: oms_reachable_def)
qed (simp add: oms_reachable_def)

lemma reconcile_end_reachable:
  assumes f: "\<And>u s e. oms_reachable s (fst (f u (s, e)))"
  shows "oms_reachable s (fst (reconcile_end f v (s, e)))"
  unfolding reconcile_end_def
proof (rule fold_steps)
  fix h s e
  obtain s1 u1 where t: "end_unseen h s = (s1, u1)" by fastforce
  have "oms_reachable s (fst (f u1 (s1, e)))" if "pool_is_live (om_pool s) h"
    using step_reconcile_end [OF that] t f [of s1 u1 e] by (simp add: oms_reachable_def)
  then show "oms_reachable s (fst (case (s, e) of (s, e) \<Rightarrow>
      if pool_is_live (om_pool s) h then case end_unseen h s of (s', u) \<Rightarrow> f u (s', e) else (s, e)))"
    by (simp add: t) (simp add: oms_reachable_def)
qed

lemma sweep_pending_reachable:
  assumes f: "\<And>h od s e. oms_reachable s (fst (f h od (s, e)))"
  shows "oms_reachable s (fst (fst (sweep_pending now timeout f (s, e))))"
proof (cases "timeout \<le> 0")
  case False
  have "oms_reachable s (fst (fold (\<lambda>h (s, e). if pool_is_live (om_pool s) h
      then f h (order_at s h) (upd_stats (\<lambda>st. st\<lparr>st_ack_timeouts := st_ack_timeouts st + 1\<rparr>) s, e) else (s, e)) hs (s, e)))" for hs
  proof (rule fold_steps)
    fix h s e
    have "oms_reachable s (fst (f h (order_at s h) (upd_stats (\<lambda>st. st\<lparr>st_ack_timeouts := st_ack_timeouts st + 1\<rparr>) s, e)))"
      using step_sweep [of s] f [of "upd_stats (\<lambda>st. st\<lparr>st_ack_timeouts := st_ack_timeouts st + 1\<rparr>) s" h "order_at s h" e]
      by (simp add: oms_reachable_def)
    then show "oms_reachable s (fst (case (s, e) of (s, e) \<Rightarrow> if pool_is_live (om_pool s) h
        then f h (order_at s h) (upd_stats (\<lambda>st. st\<lparr>st_ack_timeouts := st_ack_timeouts st + 1\<rparr>) s, e) else (s, e)))"
      by (simp add: oms_reachable_def)
  qed
  then show ?thesis using False by (simp add: sweep_pending_def Let_def)
qed (simp add: sweep_pending_def oms_reachable_def)

lemma end_unseen_outcome:
  assumes inv: "oms_inv s" and h: "h \<in> live s" and t: "end_unseen h s = (s', u)"
  shows "oms_inv s' \<and> live s' = live s - {h} \<and> (\<forall>g. g \<noteq> h \<longrightarrow> order_at s' g = order_at s g) \<and>
    u_terminal u \<and> u_slot u = h \<and> u_order u = (order_at s h)\<lparr>o_flags := o_flags (order_at s h) OR kReconciled, o_state := Canceled\<rparr> \<and>
    u_unresolved_qty u = max 0 (leaves_qty (order_at s h))"
proof -
  let ?f = "\<lambda>od. od\<lparr>o_flags := o_flags od OR kReconciled\<rparr>" and ?od = "order_at s h"
  let ?s1 = "upd_order h ?f s" and ?u = "update_zero\<lparr>u_prev := o_state (order_at s h), u_known := True\<rparr>"
  let ?g = "\<lambda>st. st\<lparr>st_reconcile_unresolved := st_reconcile_unresolved st + 1\<rparr>"
  define s2 where "s2 = (if leaves_qty ?od > 0 then upd_stats ?g ?s1 else ?s1)"
  define u2 where "u2 = (if leaves_qty ?od > 0 then ?u\<lparr>u_unresolved_qty := leaves_qty ?od\<rparr> else ?u)"
  have i1: "oms_inv ?s1" "live ?s1 = live s" "order_at ?s1 = (order_at s)(h := ?f ?od)"
    using inv h by (simp_all add: quiet_inv quiet_flags live_upd_order order_at_upd_order)
  then have i2: "oms_inv s2" "live s2 = live s" "order_at s2 = (order_at s)(h := ?f ?od)" by (simp_all add: s2_def)
  have "terminate h Canceled True (s2, u2) = (s', u)"
    using t i1(3) by (auto simp: end_unseen_def Let_def s2_def u2_def leaves_qty_def split: if_splits)
  moreover have "h \<in> live s2" using h i2 by simp
  ultimately show ?thesis
    using terminate_inv [OF i2(1), of h Canceled True u2 s' u] terminate_update [OF i2(1), of h Canceled True u2 s' u] i2(2,3)
    by (auto simp: u2_def update_zero_def)
qed

text \<open>The callback that records the updates it is given.\<close>

definition record_update :: "oms_update \<Rightarrow> oms \<times> oms_update list \<Rightarrow> oms \<times> oms_update list" where
  "record_update u se = (fst se, snd se @ [u])"

lemma reconcile_loop:
  assumes "oms_inv s" "distinct hs" "set hs \<subseteq> live s"
    "fold (\<lambda>h (s, e). if pool_is_live (om_pool s) h
         then (case end_unseen h s of (s', u) \<Rightarrow> record_update u (s', e)) else (s, e)) hs (s, us) = (s', us')"
  shows "oms_inv s' \<and> live s' = live s - set hs \<and> (\<forall>g. g \<notin> set hs \<longrightarrow> order_at s' g = order_at s g) \<and>
    (\<exists>vs. us' = us @ vs \<and> map u_slot vs = hs \<and>
      (\<forall>u\<in>set vs. u_terminal u \<and> o_state (u_order u) = Canceled \<and> u_unresolved_qty u = max 0 (leaves_qty (order_at s (u_slot u)))))"
  using assms
proof (induction hs arbitrary: s us)
  case (Cons h hs)
  obtain s1 u1 where t: "end_unseen h s = (s1, u1)" by fastforce
  have h: "h \<in> live s" using Cons.prems by simp
  note o = end_unseen_outcome [OF Cons.prems(1) h t]
  have "pool_is_live (om_pool s) h" using h by (simp add: pool_is_live_iff live_def)
  then have f: "fold (\<lambda>h (s, e). if pool_is_live (om_pool s) h
         then (case end_unseen h s of (s', u) \<Rightarrow> record_update u (s', e)) else (s, e)) hs (s1, us @ [u1]) = (s', us')"
    using Cons.prems(4) t by (simp add: record_update_def)
  have ih: "oms_inv s' \<and> live s' = live s1 - set hs \<and> (\<forall>g. g \<notin> set hs \<longrightarrow> order_at s' g = order_at s1 g) \<and>
    (\<exists>vs. us' = (us @ [u1]) @ vs \<and> map u_slot vs = hs \<and>
      (\<forall>u\<in>set vs. u_terminal u \<and> o_state (u_order u) = Canceled \<and> u_unresolved_qty u = max 0 (leaves_qty (order_at s1 (u_slot u)))))"
    using Cons.IH [OF _ _ _ f] o Cons.prems by auto
  then obtain vs where vs: "us' = (us @ [u1]) @ vs" "map u_slot vs = hs"
    "\<forall>u\<in>set vs. u_terminal u \<and> o_state (u_order u) = Canceled \<and> u_unresolved_qty u = max 0 (leaves_qty (order_at s1 (u_slot u)))" by blast
  have "order_at s1 (u_slot u) = order_at s (u_slot u)" if "u \<in> set vs" for u
  proof -
    have "u_slot u \<in> set hs" using that vs(2) by force
    then have "u_slot u \<noteq> h" using Cons.prems(2) by auto
    then show ?thesis using o by blast
  qed
  then have "\<exists>ws. us' = us @ ws \<and> map u_slot ws = h # hs \<and>
      (\<forall>u\<in>set ws. u_terminal u \<and> o_state (u_order u) = Canceled \<and> u_unresolved_qty u = max 0 (leaves_qty (order_at s (u_slot u))))"
    using vs o by (intro exI [of _ "u1 # vs"]) auto
  then show ?case using ih o by auto
qed simp

text \<open>C33: at the end of a reconciliation the orders that are cancelled are exactly the open orders of
  the venue that the snapshot did not report, except those sent after it was requested; each is
  reported once, in slot order, with the quantity nobody accounted for, and every other order is
  left as it was.\<close>

theorem reconcile_end_exact:
  assumes "oms_inv s" and "reconcile_end record_update v (s, []) = (s', us)"
  shows "live s' = live s - set (unseen_orders v s) \<and> (\<forall>g\<in>live s'. order_at s' g = order_at s g) \<and>
    map u_slot us = unseen_orders v s \<and>
    (\<forall>u\<in>set us. u_terminal u \<and> o_state (u_order u) = Canceled \<and> u_unresolved_qty u = max 0 (leaves_qty (order_at s (u_slot u)))) \<and>
    set (unseen_orders v s) = {h \<in> live s. (v = venue_invalid \<or> o_venue (order_at s h) = v) \<and>
       \<not> order_has (order_at s h) kSeenInReconcile \<and>
       (rs_bounded (om_recon_scope s v) \<longrightarrow> o_cl_ord_id (order_at s h) \<le> rs_watermark (om_recon_scope s v))}"
proof -
  have d: "distinct (unseen_orders v s)" "set (unseen_orders v s) \<subseteq> live s"
    using pool_handles_sorted [OF oms_inv_pool [OF assms(1)]] by (auto simp: unseen_orders_def live_def)
  have "set (unseen_orders v s) = {h \<in> live s. (v = venue_invalid \<or> o_venue (order_at s h) = v) \<and>
       \<not> order_has (order_at s h) kSeenInReconcile \<and>
       (rs_bounded (om_recon_scope s v) \<longrightarrow> o_cl_ord_id (order_at s h) \<le> rs_watermark (om_recon_scope s v))}"
    using handles_live [OF assms(1)] by (auto simp: unseen_orders_def in_scope_def Let_def)
  then show ?thesis
    using reconcile_loop [OF assms(1) d, of "[]" s' us] assms(2) by (auto simp: reconcile_end_def)
qed

theorem reconcile_end_exact_witness:
  "live (fst (reconcile_end record_update venue_invalid (sample_state, []))) = {}"
proof -
  obtain h where h: "live sample_state = {h}" "order_at sample_state h = new_order sample_request 7 1" by (rule sample_handle)
  have "om_recon_scope sample_state = om_recon_scope (oms_new 1 5)"
    by (simp add: sample_state_def submit_def install_order_def add_open_def case_prod_unfold Let_def upd_order_def upd_stats_def upd_times_def
      upd_estimate_def add_open_qty_def set_best_own_def add_open_count_def)
  then have "\<not> rs_bounded (om_recon_scope sample_state venue_invalid)" by (simp add: oms_new_def oms_make_def)
  then show ?thesis
    using reconcile_end_exact [OF sample_inv surjective_pairing, of venue_invalid] h
    by (auto simp: order_has_def new_order_def sample_request_def limit_order_def)
qed

end
