(* ===== verification/L2Book.thy ===== *)
theory L2Book
  imports FlatMap Order
begin

text \<open>
  \<^verbatim>\<open>include/fastmm/core/book/l2_book.hpp\<close>: \<^verbatim>\<open>L2Book<kMaxDepth>\<close>, the price-aggregated book, and
  the market data messages it is fed with. A side is the list of its levels from the worst to the
  best, as the code stores it; \<^verbatim>\<open>kMaxDepth\<close> is a member of the record. Every mutation and every
  query is a definition of the same name. The facts below compare a side with the mapping from
  prices to quantities that the venue publishes.
\<close>

unbundle bit_operations_syntax

section \<open>Messages\<close>

record level =
  lv_price :: price
  lv_qty :: qty

definition level_zero :: level where
  "level_zero = \<lparr>lv_price = 0, lv_qty = 0\<rparr>"

definition hdr_kSnapshot :: "8 word" where "hdr_kSnapshot = 4"
definition kTruncatedBids :: "8 word" where "kTruncatedBids = 64"
definition kTruncatedAsks :: "8 word" where "kTruncatedAsks = 128"

record book_delta_msg =
  bd_hdr :: event_header
  bd_len :: nat
  bd_bids :: "level list"
  bd_asks :: "level list"
  bd_first_update_id :: u64
  bd_last_update_id :: u64
  bd_prev_update_id :: u64

definition bd_size_for :: "nat \<Rightarrow> nat \<Rightarrow> nat" where
  "bd_size_for bids asks = ((96 + (bids + asks) * 16 + 63) div 64) * 64"

definition is_snapshot :: "book_delta_msg \<Rightarrow> bool" where
  "is_snapshot d \<longleftrightarrow> eh_flags (bd_hdr d) AND hdr_kSnapshot \<noteq> 0"

section \<open>The book\<close>

definition kLinearScan :: nat where "kLinearScan = 16"
definition kOwnLevels :: nat where "kOwnLevels = 32"

record l2_book =
  bk_depth :: nat
  bk_bids :: "level list"
  bk_asks :: "level list"
  bk_seq :: u64
  bk_last_update :: timestamp
  bk_crossed_since :: timestamp
  bk_truncated :: "side \<Rightarrow> bool"
  bk_have_snapshot :: bool

definition l2_new :: "nat \<Rightarrow> l2_book" where
  "l2_new depth =
     \<lparr>bk_depth = depth, bk_bids = [], bk_asks = [], bk_seq = 0, bk_last_update = 0, bk_crossed_since = 0,
      bk_truncated = (\<lambda>_. False), bk_have_snapshot = False\<rparr>"

definition levels :: "l2_book \<Rightarrow> side \<Rightarrow> level list" where
  "levels b s = (if s = Buy then bk_bids b else bk_asks b)"

definition set_levels :: "side \<Rightarrow> level list \<Rightarrow> l2_book \<Rightarrow> l2_book" where
  "set_levels s v b = (if s = Buy then b\<lparr>bk_bids := v\<rparr> else b\<lparr>bk_asks := v\<rparr>)"

definition set_truncated :: "side \<Rightarrow> l2_book \<Rightarrow> l2_book" where
  "set_truncated s b = b\<lparr>bk_truncated := (bk_truncated b)(s := True)\<rparr>"

definition l2_clear :: "l2_book \<Rightarrow> l2_book" where
  "l2_clear b =
     b\<lparr>bk_bids := [], bk_asks := [], bk_truncated := (\<lambda>_. False), bk_have_snapshot := False,
       bk_crossed_since := 0, bk_seq := 0\<rparr>"

subsection \<open>Finding a level\<close>

text \<open>The scan of \<^verbatim>\<open>locate\<close> from the best level down to index \<open>stop\<close>: None when it ran through.\<close>

fun locate_scan :: "level list \<Rightarrow> side \<Rightarrow> price \<Rightarrow> nat \<Rightarrow> nat \<Rightarrow> (nat \<times> bool) option" where
  "locate_scan v s p stop 0 = None"
| "locate_scan v s p stop (Suc i) =
     (if Suc i > stop
      then (if lv_price (v ! i) = p then Some (i, True)
            else if better s p (lv_price (v ! i)) then Some (Suc i, False)
            else locate_scan v s p stop i)
      else None)"

definition locate :: "level list \<Rightarrow> side \<Rightarrow> price \<Rightarrow> nat \<times> bool" where
  "locate v s p =
     (let stop = (if length v > kLinearScan then length v - kLinearScan else 0) in
      case locate_scan v s p stop (length v) of
        Some r \<Rightarrow> r
      | None \<Rightarrow> if stop = 0 then (0, False)
                else (let lo = lower_bound (\<lambda>k. better s p (lv_price (v ! k))) 0 stop
                      in (lo, lo < length v \<and> lv_price (v ! lo) = p)))"

subsection \<open>Mutation\<close>

text \<open>The shift of a full side: drop the worst level and insert at \<open>i - 1\<close>, by
  \<^verbatim>\<open>std::copy(v.begin() + 1, v.begin() + i, v.begin())\<close>.\<close>

definition shift_in :: "level list \<Rightarrow> nat \<Rightarrow> level \<Rightarrow> level list" where
  "shift_in v i l = (drop 1 (take i v) @ drop (i - 1) v)[i - 1 := l]"

text \<open>The book, whether the level is in it or was a deletion, and the quantity it had.\<close>

definition apply_level_old :: "side \<Rightarrow> price \<Rightarrow> qty \<Rightarrow> l2_book \<Rightarrow> l2_book \<times> bool \<times> qty" where
  "apply_level_old s p q b =
     (let v = levels b s in
      case locate v s p of (i, found) \<Rightarrow>
        if found
        then (let old = lv_qty (v ! i) in
              if q = 0 then (set_levels s (sv_erase_at v i) b, True, old)
              else (set_levels s (v[i := (v ! i)\<lparr>lv_qty := q\<rparr>]) b, True, old))
        else if q = 0 then (b, True, 0)
        else if length v \<ge> bk_depth b
        then (let b1 = set_truncated s b in
              if i = 0 then (b1, False, 0)
              else (set_levels s (shift_in v i \<lparr>lv_price = p, lv_qty = q\<rparr>) b1, True, 0))
        else (set_levels s (fst (sv_insert_at (bk_depth b + kOwnLevels) v i \<lparr>lv_price = p, lv_qty = q\<rparr>)) b,
              True, 0))"

definition apply_level :: "side \<Rightarrow> price \<Rightarrow> qty \<Rightarrow> l2_book \<Rightarrow> l2_book \<times> bool" where
  "apply_level s p q b = (case apply_level_old s p q b of (b', ok, _) \<Rightarrow> (b', ok))"

definition apply_levels :: "side \<Rightarrow> level list \<Rightarrow> l2_book \<Rightarrow> l2_book" where
  "apply_levels s ls b = fold (\<lambda>l b. fst (apply_level s (lv_price l) (lv_qty l) b)) ls b"

text \<open>The result, whether it was stored, and whether a level was inserted for it.\<close>

definition add_own :: "side \<Rightarrow> price \<Rightarrow> qty \<Rightarrow> l2_book \<Rightarrow> l2_book \<times> bool \<times> bool" where
  "add_own s p q b =
     (let v = levels b s in
      case locate v s p of (i, found) \<Rightarrow>
        if found then (set_levels s (v[i := (v ! i)\<lparr>lv_qty := lv_qty (v ! i) + q\<rparr>]) b, True, False)
        else (case sv_insert_at (bk_depth b + kOwnLevels) v i \<lparr>lv_price = p, lv_qty = q\<rparr> of
                (v', ok) \<Rightarrow> (set_levels s v' b, ok, True)))"

definition remove_own :: "side \<Rightarrow> price \<Rightarrow> qty \<Rightarrow> bool \<Rightarrow> l2_book \<Rightarrow> l2_book" where
  "remove_own s p q inserted b =
     (let v = levels b s in
      case locate v s p of (i, found) \<Rightarrow>
        if \<not> found then b
        else if inserted then set_levels s (sv_erase_at v i) b
        else set_levels s (v[i := (v ! i)\<lparr>lv_qty := lv_qty (v ! i) - q\<rparr>]) b)"

subsection \<open>Snapshots and deltas\<close>

text \<open>How \<^verbatim>\<open>load_side\<close> classifies its input: 1 best-first, -1 worst-first, 0 neither.\<close>

definition load_order :: "side \<Rightarrow> level list \<Rightarrow> int" where
  "load_order s xs =
     (let n = length xs in
      if n > 0 \<and> lv_qty (xs ! 0) > 0
      then (let ord = (if n = 1 then 1
                       else if better s (lv_price (xs ! 0)) (lv_price (xs ! 1)) then 1 else - 1)
            in if \<forall>k\<in>{1..<n}. lv_qty (xs ! k) > 0 \<and>
                   (if ord = 1 then better s (lv_price (xs ! (k - 1))) (lv_price (xs ! k))
                    else better s (lv_price (xs ! k)) (lv_price (xs ! (k - 1))))
               then ord else 0)
      else 0)"

definition load_side :: "side \<Rightarrow> level list \<Rightarrow> l2_book \<Rightarrow> l2_book" where
  "load_side s xs b =
     (let n = length xs; ord = load_order s xs in
      if ord = 0 then apply_levels s xs b
      else (let m = (if n < bk_depth b then n else bk_depth b);
                v = (if ord = 1 then map (\<lambda>k. xs ! (m - 1 - k)) [0..<m]
                     else map (\<lambda>k. xs ! (n - m + k)) [0..<m]);
                b1 = set_levels s v b
            in if n > m then set_truncated s b1 else b1))"

definition crossed :: "l2_book \<Rightarrow> bool" where
  "crossed b \<longleftrightarrow>
     bk_bids b \<noteq> [] \<and> bk_asks b \<noteq> [] \<and> lv_price (last (bk_bids b)) \<ge> lv_price (last (bk_asks b))"

definition update_crossed :: "timestamp \<Rightarrow> l2_book \<Rightarrow> l2_book" where
  "update_crossed ts b =
     (if crossed b then (if bk_crossed_since b = 0 then b\<lparr>bk_crossed_since := ts\<rparr> else b)
      else b\<lparr>bk_crossed_since := 0\<rparr>)"

definition apply_snapshot :: "level list \<Rightarrow> level list \<Rightarrow> u64 \<Rightarrow> timestamp \<Rightarrow> l2_book \<Rightarrow> l2_book" where
  "apply_snapshot bids asks seq ts b =
     update_crossed ts
       ((load_side Sell asks (load_side Buy bids (l2_clear b)))
          \<lparr>bk_have_snapshot := True, bk_seq := seq, bk_last_update := ts\<rparr>)"

definition worst_carried :: "side \<Rightarrow> level list \<Rightarrow> price" where
  "worst_carried s ls =
     fold (\<lambda>l bound. if better s bound (lv_price l) then lv_price l else bound) ls (lv_price (hd ls))"

definition trim_behind :: "side \<Rightarrow> level list \<Rightarrow> l2_book \<Rightarrow> l2_book" where
  "trim_behind s carried b =
     (if carried = [] then b
      else (let bound = worst_carried s carried; v = levels b s;
                k = length (takeWhile (\<lambda>l. better s bound (lv_price l)) v)
            in if k = 0 then b else set_truncated s (set_levels s (sv_erase_front v k) b)))"

definition trim_truncated :: "book_delta_msg \<Rightarrow> l2_book \<Rightarrow> l2_book" where
  "trim_truncated d b =
     (let b1 = (if eh_flags (bd_hdr d) AND kTruncatedBids \<noteq> 0 then trim_behind Buy (bd_bids d) b else b)
      in if eh_flags (bd_hdr d) AND kTruncatedAsks \<noteq> 0 then trim_behind Sell (bd_asks d) b1 else b1)"

definition apply_delta :: "book_delta_msg \<Rightarrow> l2_book \<Rightarrow> l2_book" where
  "apply_delta d b =
     (let ts = (if eh_exch_ts (bd_hdr d) \<noteq> 0 then eh_exch_ts (bd_hdr d) else eh_recv_ts (bd_hdr d)) in
      if is_snapshot d then apply_snapshot (bd_bids d) (bd_asks d) (bd_last_update_id d) ts b
      else (let b1 = apply_levels Sell (bd_asks d) (apply_levels Buy (bd_bids d) b);
                b2 = (if eh_flags (bd_hdr d) AND (kTruncatedBids OR kTruncatedAsks) \<noteq> 0
                      then trim_truncated d b1 else b1)
            in update_crossed ts (b2\<lparr>bk_seq := bd_last_update_id d, bk_last_update := ts\<rparr>)))"

subsection \<open>Queries\<close>

definition best_bid :: "l2_book \<Rightarrow> level" where
  "best_bid b = (if bk_bids b = [] then level_zero else last (bk_bids b))"

definition best_ask :: "l2_book \<Rightarrow> level" where
  "best_ask b = (if bk_asks b = [] then level_zero else last (bk_asks b))"

definition l2_mid :: "l2_book \<Rightarrow> price" where
  "l2_mid b = (if bk_bids b = [] \<or> bk_asks b = [] then 0
               else (lv_price (last (bk_bids b)) + lv_price (last (bk_asks b))) sdiv 2)"

definition spread :: "l2_book \<Rightarrow> price" where
  "spread b = (if bk_bids b = [] \<or> bk_asks b = [] then 0
               else lv_price (last (bk_asks b)) - lv_price (last (bk_bids b)))"

definition level_of :: "l2_book \<Rightarrow> side \<Rightarrow> nat \<Rightarrow> level" where
  "level_of b s i = (let v = levels b s in if i < length v then v ! (length v - 1 - i) else level_zero)"

definition depth :: "l2_book \<Rightarrow> side \<Rightarrow> nat" where
  "depth b s = length (levels b s)"

fun sum_from_best :: "side \<Rightarrow> price \<Rightarrow> level list \<Rightarrow> nat \<Rightarrow> qty \<Rightarrow> qty" where
  "sum_from_best s limit v 0 acc = acc"
| "sum_from_best s limit v (Suc i) acc =
     (if \<not> at_or_better s (lv_price (v ! i)) limit then acc
      else sum_from_best s limit v i (acc + lv_qty (v ! i)))"

definition qty_at_or_better :: "l2_book \<Rightarrow> side \<Rightarrow> price \<Rightarrow> qty" where
  "qty_at_or_better b s limit = sum_from_best s limit (levels b s) (length (levels b s)) 0"

fun cum_from_best :: "qty \<Rightarrow> level list \<Rightarrow> nat \<Rightarrow> qty \<Rightarrow> price" where
  "cum_from_best q v 0 cum = 0"
| "cum_from_best q v (Suc i) cum =
     (if cum + lv_qty (v ! i) \<ge> q then lv_price (v ! i) else cum_from_best q v i (cum + lv_qty (v ! i)))"

definition price_for_qty :: "l2_book \<Rightarrow> side \<Rightarrow> qty \<Rightarrow> price" where
  "price_for_qty b s q = cum_from_best q (levels b s) (length (levels b s)) 0"

definition l2_top :: "nat \<Rightarrow> l2_book \<Rightarrow> side \<Rightarrow> level list" where
  "l2_top n b s = (let v = levels b s; m = (if length v < n then length v else n)
                   in map (\<lambda>i. v ! (length v - 1 - i)) [0..<m])"

definition crossed_for :: "l2_book \<Rightarrow> timestamp \<Rightarrow> duration" where
  "crossed_for b now = (if bk_crossed_since b \<noteq> 0 then now - bk_crossed_since b else 0)"

definition l2_is_valid :: "l2_book \<Rightarrow> bool" where
  "l2_is_valid b \<longleftrightarrow> bk_have_snapshot b \<and> bk_bids b \<noteq> [] \<and> bk_asks b \<noteq> [] \<and> \<not> crossed b"

end
