(* ===== verification/BookSyncer.thy ===== *)
theory BookSyncer
  imports L2Book
begin

text \<open>
  \<^verbatim>\<open>include/fastmm/core/book/book_syncer.hpp\<close>: \<^verbatim>\<open>BookSyncer<Traits, Sink>\<close>, which joins a snapshot and a
  stream of deltas, and the three sets of venue rules beside it. The traits are a record of functions; the
  sink records what it is told, so an operation returns the new state and the calls it made, in order. The
  byte arena maps the offset a message was copied to to the message; offsets, the bytes used and the moves
  of \<^verbatim>\<open>drop_front\<close> are those of the code. \<open>sy_list\<close> reads the buffered messages back.
\<close>

datatype sync_state = SyncIdle | SyncBuffering | SyncSynced | SyncResync

datatype sync_reason =
    NoReason | SequenceGap | BufferOverflow | SnapshotTooOld | ExplicitResync | SnapshotMarker | ChecksumMismatch

section \<open>Venue rules\<close>

record sync_traits =
  tr_needs_rest_snapshot :: bool
  tr_buffers_deltas :: bool
  tr_is_stale :: "book_delta_msg \<Rightarrow> u64 \<Rightarrow> bool"
  tr_first_applies :: "book_delta_msg \<Rightarrow> u64 \<Rightarrow> bool"
  tr_next_applies :: "book_delta_msg \<Rightarrow> u64 \<Rightarrow> bool"
  tr_is_snapshot_marker :: "book_delta_msg \<Rightarrow> bool"

definition binance_spot :: sync_traits where
  "binance_spot =
     \<lparr>tr_needs_rest_snapshot = True, tr_buffers_deltas = True,
      tr_is_stale = (\<lambda>d snap. bd_last_update_id d \<le> snap),
      tr_first_applies = (\<lambda>d snap. bd_first_update_id d \<le> snap + 1 \<and> snap + 1 \<le> bd_last_update_id d),
      tr_next_applies = (\<lambda>d prev_u. bd_first_update_id d = prev_u + 1),
      tr_is_snapshot_marker = (\<lambda>_. False)\<rparr>"

definition binance_futures :: sync_traits where
  "binance_futures =
     \<lparr>tr_needs_rest_snapshot = True, tr_buffers_deltas = True,
      tr_is_stale = (\<lambda>d snap. bd_last_update_id d < snap),
      tr_first_applies = (\<lambda>d snap. bd_first_update_id d \<le> snap \<and> bd_last_update_id d \<ge> snap),
      tr_next_applies = (\<lambda>d prev_u. bd_prev_update_id d = prev_u),
      tr_is_snapshot_marker = (\<lambda>_. False)\<rparr>"

definition bybit :: sync_traits where
  "bybit =
     \<lparr>tr_needs_rest_snapshot = False, tr_buffers_deltas = False,
      tr_is_stale = (\<lambda>d snap. bd_last_update_id d \<le> snap),
      tr_first_applies = (\<lambda>d snap. bd_last_update_id d > snap),
      tr_next_applies = (\<lambda>d prev_u. bd_last_update_id d > prev_u),
      tr_is_snapshot_marker = (\<lambda>d. bd_last_update_id d = 1 \<and> \<not> is_snapshot d)\<rparr>"

section \<open>The syncer\<close>

datatype sink_call = OnSnapshot book_delta_msg | OnDelta book_delta_msg | OnResync sync_reason | RequestSnapshot

definition kMaxBuffered :: nat where "kMaxBuffered = 4096"

record syncer =
  sy_state :: sync_state
  sy_awaiting_first :: bool
  sy_prev_u :: u64
  sy_resyncs :: nat
  sy_arena :: "nat \<Rightarrow> book_delta_msg"
  sy_offsets :: "nat list"
  sy_buf_bytes :: nat
  sy_used :: nat

definition msg_zero :: book_delta_msg where
  "msg_zero =
     \<lparr>bd_hdr = \<lparr>eh_venue = 0, eh_flags = 0, eh_instrument = 0, eh_exch_ts = 0, eh_recv_ts = 0\<rparr>, bd_len = 0,
      bd_bids = [], bd_asks = [], bd_first_update_id = 0, bd_last_update_id = 0, bd_prev_update_id = 0\<rparr>"

definition syncer_new :: "sync_traits \<Rightarrow> nat \<Rightarrow> syncer" where
  "syncer_new tr buffer_bytes =
     \<lparr>sy_state = SyncIdle, sy_awaiting_first = False, sy_prev_u = 0, sy_resyncs = 0, sy_arena = (\<lambda>_. msg_zero),
      sy_offsets = [], sy_buf_bytes = (if tr_buffers_deltas tr then buffer_bytes else 0), sy_used = 0\<rparr>"

definition sy_at :: "syncer \<Rightarrow> nat \<Rightarrow> book_delta_msg" where
  "sy_at sy i = sy_arena sy (sy_offsets sy ! i)"

definition sy_list :: "syncer \<Rightarrow> book_delta_msg list" where
  "sy_list sy = map (sy_arena sy) (sy_offsets sy)"

definition reset_buffer :: "syncer \<Rightarrow> syncer" where
  "reset_buffer sy = sy\<lparr>sy_offsets := [], sy_used := 0\<rparr>"

definition sy_buffer :: "book_delta_msg \<Rightarrow> syncer \<Rightarrow> syncer \<times> bool" where
  "sy_buffer d sy =
     (if length (sy_offsets sy) \<ge> kMaxBuffered \<or> sy_used sy + bd_len d > sy_buf_bytes sy then (sy, False)
      else (sy\<lparr>sy_arena := (sy_arena sy)(sy_used sy := d), sy_offsets := sy_offsets sy @ [sy_used sy],
               sy_used := sy_used sy + bd_len d\<rparr>, True))"

definition drop_front :: "nat \<Rightarrow> syncer \<Rightarrow> syncer" where
  "drop_front n sy =
     (if n = 0 then sy
      else if n \<ge> length (sy_offsets sy) then reset_buffer sy
      else (let base = sy_offsets sy ! n in
            sy\<lparr>sy_arena := (\<lambda>a. sy_arena sy (a + base)),
               sy_offsets := map (\<lambda>off. off - base) (drop n (sy_offsets sy)), sy_used := sy_used sy - base\<rparr>))"

definition sy_start :: "sync_traits \<Rightarrow> syncer \<Rightarrow> syncer \<times> sink_call list" where
  "sy_start tr sy =
     ((reset_buffer sy)\<lparr>sy_awaiting_first := False, sy_state := SyncBuffering\<rparr>,
      if tr_needs_rest_snapshot tr then [RequestSnapshot] else [])"

definition sy_resync :: "sync_traits \<Rightarrow> sync_reason \<Rightarrow> syncer \<Rightarrow> syncer \<times> sink_call list" where
  "sy_resync tr reason sy =
     (case sy_start tr (sy\<lparr>sy_resyncs := sy_resyncs sy + 1, sy_state := SyncResync\<rparr>) of
        (sy', calls) \<Rightarrow> (sy', OnResync reason # calls))"

definition resync_keeping :: "sync_traits \<Rightarrow> book_delta_msg \<Rightarrow> syncer \<Rightarrow> syncer \<times> sink_call list" where
  "resync_keeping tr d sy =
     (case sy_resync tr SequenceGap sy of (sy1, c1) \<Rightarrow>
        if tr_buffers_deltas tr \<and> sy_state sy1 = SyncBuffering
        then (case sy_buffer d sy1 of (sy2, ok) \<Rightarrow>
                if ok then (sy2, c1)
                else (case sy_resync tr BufferOverflow sy2 of (sy3, c3) \<Rightarrow> (sy3, c1 @ c3)))
        else (sy1, c1))"

text \<open>The replay loop of \<^verbatim>\<open>on_snapshot\<close> over the buffered messages from the first that is not stale:
  \<^verbatim>\<open>prev_u_\<close> and \<^verbatim>\<open>first\<close> after it, the messages passed on, and whether all were.\<close>

fun sy_replay ::
  "sync_traits \<Rightarrow> u64 \<Rightarrow> book_delta_msg list \<Rightarrow> bool \<Rightarrow> u64 \<Rightarrow> u64 \<times> bool \<times> book_delta_msg list \<times> bool" where
  "sy_replay tr L [] first prev_u = (prev_u, first, [], True)"
| "sy_replay tr L (d # ds) first prev_u =
     (if (if first then tr_first_applies tr d L else tr_next_applies tr d prev_u)
      then (case sy_replay tr L ds False (bd_last_update_id d) of (p, f, passed, ok) \<Rightarrow> (p, f, d # passed, ok))
      else (prev_u, first, [], False))"

definition sy_on_snapshot :: "sync_traits \<Rightarrow> book_delta_msg \<Rightarrow> syncer \<Rightarrow> syncer \<times> sink_call list" where
  "sy_on_snapshot tr snap sy =
     (if sy_state sy = SyncIdle then (sy, [])
      else (let L = bd_last_update_id snap in
        if tr_buffers_deltas tr
        then (let buffered = sy_list sy;
                  i = length (takeWhile (\<lambda>d. tr_is_stale tr d L) buffered)
              in if i < length buffered \<and> \<not> tr_first_applies tr (buffered ! i) L
                 then (drop_front i (sy\<lparr>sy_resyncs := sy_resyncs sy + 1\<rparr>), [OnResync SnapshotTooOld, RequestSnapshot])
                 else (case sy_replay tr L (drop i buffered) True L of (p, first, passed, ok) \<Rightarrow>
                         if ok
                         then (reset_buffer (sy\<lparr>sy_prev_u := p, sy_state := SyncSynced, sy_awaiting_first := first\<rparr>),
                               OnSnapshot snap # map OnDelta passed)
                         else ((drop_front (i + length passed) sy)
                                 \<lparr>sy_prev_u := p, sy_resyncs := sy_resyncs sy + 1, sy_awaiting_first := False,
                                  sy_state := SyncBuffering\<rparr>,
                               OnSnapshot snap # map OnDelta passed @ [OnResync SequenceGap, RequestSnapshot])))
        else (sy\<lparr>sy_prev_u := L, sy_state := SyncSynced\<rparr>, [OnSnapshot snap])))"

definition sy_on_delta :: "sync_traits \<Rightarrow> book_delta_msg \<Rightarrow> syncer \<Rightarrow> syncer \<times> sink_call list" where
  "sy_on_delta tr d sy =
     (if is_snapshot d then sy_on_snapshot tr d sy
      else if tr_is_snapshot_marker tr d then sy_resync tr SnapshotMarker sy
      else (case sy_state sy of
          SyncIdle \<Rightarrow> (sy, [])
        | SyncResync \<Rightarrow> (sy, [])
        | SyncBuffering \<Rightarrow>
            if tr_buffers_deltas tr
            then (case sy_buffer d sy of (sy', ok) \<Rightarrow> if ok then (sy', []) else sy_resync tr BufferOverflow sy')
            else (sy, [])
        | SyncSynced \<Rightarrow>
            if tr_buffers_deltas tr \<and> sy_awaiting_first sy
            then (if tr_is_stale tr d (sy_prev_u sy) then (sy, [])
                  else if \<not> tr_first_applies tr d (sy_prev_u sy) then resync_keeping tr d sy
                  else (sy\<lparr>sy_awaiting_first := False, sy_prev_u := bd_last_update_id d\<rparr>, [OnDelta d]))
            else if tr_next_applies tr d (sy_prev_u sy)
            then (sy\<lparr>sy_prev_u := bd_last_update_id d\<rparr>, [OnDelta d])
            else if \<not> tr_is_stale tr d (sy_prev_u sy) then resync_keeping tr d sy
            else (sy, [])))"

end
