(* ===== verification/L2BookProps.thy ===== *)
theory L2BookProps
  imports L2Book
begin

unbundle bit_operations_syntax

text \<open>
  Facts about the price-aggregated book of L2Book: the search, one level update against a reference
  insertion, the snapshot loader against the level-by-level one, the book against the book the venue
  publishes, our own quantity in it and the depth queries.
\<close>

section \<open>Sorted sides\<close>

text \<open>From the worst level to the best, each price once.\<close>

abbreviation worst_first :: "side \<Rightarrow> level list \<Rightarrow> bool" where
  "worst_first s \<equiv> sorted_wrt (\<lambda>a b. better s (lv_price b) (lv_price a))"

abbreviation behind :: "side \<Rightarrow> price \<Rightarrow> level \<Rightarrow> bool" where
  "behind s p l \<equiv> better s p (lv_price l)"

lemma levels_set [simp]: "levels (set_levels s v b) t = (if t = s then v else levels b t)"
  by (cases s; cases t; simp add: levels_def set_levels_def)

lemma set_levels_frame [simp]:
  "bk_depth (set_levels s v b) = bk_depth b" "bk_truncated (set_levels s v b) = bk_truncated b"
  "bk_seq (set_levels s v b) = bk_seq b" "bk_have_snapshot (set_levels s v b) = bk_have_snapshot b"
  "bk_last_update (set_levels s v b) = bk_last_update b" "bk_crossed_since (set_levels s v b) = bk_crossed_since b"
  by (simp_all add: set_levels_def)

lemma set_truncated_frame [simp]:
  "levels (set_truncated s b) t = levels b t" "bk_depth (set_truncated s b) = bk_depth b"
  "bk_truncated (set_truncated s b) = (bk_truncated b)(s := True)" "bk_seq (set_truncated s b) = bk_seq b"
  "bk_have_snapshot (set_truncated s b) = bk_have_snapshot b" "bk_crossed_since (set_truncated s b) = bk_crossed_since b"
  "bk_last_update (set_truncated s b) = bk_last_update b"
  by (simp_all add: set_truncated_def levels_def)

lemma set_levels_id [simp]: "set_levels s (levels b s) b = b"
  by (cases s; simp add: levels_def set_levels_def)

lemma set_levels_twice [simp]: "set_levels s v (set_levels s w b) = set_levels s v b"
  by (cases s; simp add: set_levels_def)

text \<open>The reference: a side is cut where the levels behind a price end.\<close>

lemma worst_first_split:
  assumes "worst_first s v"
  obtains a c where "v = a @ c" "takeWhile (behind s p) v = a" "\<forall>l\<in>set a. better s p (lv_price l)"
    "\<forall>l\<in>set c. at_or_better s (lv_price l) p" "worst_first s a" "worst_first s c"
    "\<forall>l\<in>set a. \<forall>l'\<in>set c. better s (lv_price l') (lv_price l)"
proof -
  define a c where "a = takeWhile (behind s p) v" and "c = dropWhile (behind s p) v"
  have v: "v = a @ c" by (simp add: a_def c_def)
  have sorted: "worst_first s a" "worst_first s c" "\<forall>l\<in>set a. \<forall>l'\<in>set c. better s (lv_price l') (lv_price l)"
    using assms by (simp_all add: v sorted_wrt_append)
  have "at_or_better s (lv_price l) p" if "l \<in> set c" for l
  proof (cases c)
    case (Cons x r)
    then have x: "\<not> better s p (lv_price x)" using hd_dropWhile [of "behind s p" v] by (simp add: c_def)
    show ?thesis
      using that x sorted(2) better_trans [of s p "lv_price l" "lv_price x"] by (auto simp: Cons not_better_iff [symmetric])
  qed (use that in simp)
  then show thesis
    using that [OF v _ _ _ sorted] by (auto simp: a_def dest: set_takeWhileD)
qed

lemma takeWhile_behind:
  "\<forall>l\<in>set a. better s p (lv_price l) \<Longrightarrow> \<forall>l\<in>set c. at_or_better s (lv_price l) p \<Longrightarrow>
     takeWhile (behind s p) (a @ c) = a"
  by (cases c) (simp_all add: takeWhile_append2 takeWhile_eq_all_conv not_better_iff)

section \<open>Finding a level\<close>

lemma locate_scan_split:
  assumes "v = a @ c" "worst_first s v" "\<forall>l\<in>set a. better s p (lv_price l)" "\<forall>l\<in>set c. at_or_better s (lv_price l) p"
    and "length a \<le> i" "i \<le> length v" "\<And>k. i \<le> k \<Longrightarrow> k < length v \<Longrightarrow> lv_price (v ! k) \<noteq> p"
  shows "(case locate_scan v s p stop i of
            Some (k, f) \<Rightarrow> k = length a \<and> (f \<longleftrightarrow> p \<in> lv_price ` set v)
          | None \<Rightarrow> length a \<le> stop \<and> (\<forall>k<length v. stop \<le> k \<longrightarrow> lv_price (v ! k) \<noteq> p))"
  using assms(5-7)
proof (induction i)
  case 0
  then show ?case by auto
next
  case (Suc i)
  have i: "i < length v" using Suc.prems(2) by simp
  have mono: "better s (lv_price (v ! k)) (lv_price (v ! j))" if "j < k" "k < length v" for j k
    using sorted_wrt_nth_less [OF assms(2) that] .
  show ?case
  proof (cases "Suc i > stop")
    case False
    then show ?thesis using Suc.prems by simp
  next
    case s: True
    show ?thesis
    proof (cases "length a \<le> i")
      case True
      then have c: "v ! i \<in> set c" using i assms(1) by (simp add: nth_append)
      then have nb: "\<not> better s p (lv_price (v ! i))" using assms(4) by (simp add: not_better_iff)
      show ?thesis
      proof (cases "lv_price (v ! i) = p")
        case p: True
        have "length a = i"
        proof (rule ccontr)
          assume "length a \<noteq> i"
          then have "length a < i" using True by simp
          then have "better s p (lv_price (v ! length a))" using mono [of "length a" i] i p by simp
          moreover have "v ! length a \<in> set c" using \<open>length a < i\<close> i assms(1) by (cases c) (simp_all add: nth_append)
          ultimately show False using assms(4) by (simp add: not_better_iff [symmetric])
        qed
        then show ?thesis using s p i by force
      next
        case np: False
        have "lv_price (v ! k) \<noteq> p" if "i \<le> k" "k < length v" for k
          using np Suc.prems(3) [of k] that by (cases "k = i") auto
        then show ?thesis using Suc.IH True s nb np i by simp
      qed
    next
      case False
      then have a: "length a = Suc i" using Suc.prems(1) by simp
      then have l: "v ! i \<in> set a" using assms(1) by (simp add: nth_append)
      then have b: "better s p (lv_price (v ! i))" using assms(3) by blast
      then have np: "lv_price (v ! i) \<noteq> p" by auto
      have "lv_price l \<noteq> p" if "l \<in> set v" for l
      proof -
        obtain k where "k < length v" "l = v ! k" using \<open>l \<in> set v\<close> by (auto simp: in_set_conv_nth)
        then show ?thesis
          using Suc.prems(3) [of k] assms(3) a
          by (cases "Suc i \<le> k") (auto simp: assms(1) nth_append dest!: bspec [OF _ nth_mem, of a _ k])
      qed
      then show ?thesis using s b np a by auto
    qed
  qed
qed

lemma locate_exact:
  assumes "worst_first s v"
  shows "locate v s p = (length (takeWhile (behind s p) v), p \<in> lv_price ` set v)"
proof -
  obtain a c where v: "v = a @ c" "takeWhile (behind s p) v = a" and a: "\<forall>l\<in>set a. better s p (lv_price l)"
    and c: "\<forall>l\<in>set c. at_or_better s (lv_price l) p" using assms by (rule worst_first_split [of s v p])
  define stop where "stop = (if length v > kLinearScan then length v - kLinearScan else 0)"
  have stop: "stop \<le> length v" by (simp add: stop_def)
  have scan: "case locate_scan v s p stop (length v) of
            Some (k, f) \<Rightarrow> k = length a \<and> (f \<longleftrightarrow> p \<in> lv_price ` set v)
          | None \<Rightarrow> length a \<le> stop \<and> (\<forall>k<length v. stop \<le> k \<longrightarrow> lv_price (v ! k) \<noteq> p)"
    by (rule locate_scan_split [OF v(1) assms a c]) (simp_all add: v(1))
  show ?thesis
  proof (cases "locate_scan v s p stop (length v)")
    case (Some r)
    then show ?thesis using scan v(2) by (cases r) (simp add: locate_def stop_def [symmetric])
  next
    case None
    then have n: "length a \<le> stop" "\<forall>k<length v. stop \<le> k \<longrightarrow> lv_price (v ! k) \<noteq> p" using scan by auto
    define P where "P = (\<lambda>k. better s p (lv_price (v ! k)))"
    define k where "k = lower_bound P 0 stop"
    have P: "P j \<longleftrightarrow> j < length a" if "j < length v" for j
      using a c that by (cases "j < length a") (simp_all add: P_def v(1) nth_append not_better_iff)
    have lb: "k \<le> stop \<and> (\<forall>j. j < k \<longrightarrow> P j) \<and> (\<forall>j. j < stop \<longrightarrow> k \<le> j \<longrightarrow> \<not> P j)"
      unfolding k_def by (rule lower_bound_split) (use P stop in auto)
    have k_eq: "k = length a"
    proof (rule linorder_cases [of k "length a"])
      assume "k < length a"
      then show ?thesis using lb P [of k] n(1) stop by auto
    next
      assume "length a < k"
      then show ?thesis using lb P [of "length a"] stop by auto
    qed
    have found: "k < length v \<and> lv_price (v ! k) = p \<longleftrightarrow> p \<in> lv_price ` set v"
    proof
      assume "p \<in> lv_price ` set v"
      then obtain j where j: "j < length v" "lv_price (v ! j) = p" by (auto simp: in_set_conv_nth)
      have "\<not> P j" using j by (simp add: P_def)
      then have "length a \<le> j" using P [OF j(1)] by simp
      moreover have "\<not> length a < j"
      proof
        assume l: "length a < j"
        then have "P (length a)" using sorted_wrt_nth_less [OF assms l j(1)] j(2) by (simp add: P_def)
        then show False using P [of "length a"] l j(1) by simp
      qed
      ultimately show "k < length v \<and> lv_price (v ! k) = p" using j k_eq by (metis linorder_neqE_nat not_le)
    qed auto
    have "stop = 0 \<Longrightarrow> a = [] \<and> p \<notin> lv_price ` set v" using n by (auto simp: in_set_conv_nth)
    then show ?thesis
      using None v(2) k_eq found by (cases "stop = 0") (simp_all add: locate_def stop_def [symmetric] Let_def k_def P_def)
  qed
qed

section \<open>One level\<close>

lemma worst_first_distinct: "worst_first s v \<Longrightarrow> distinct (map lv_price v)"
  by (induction v) auto

text \<open>What a side says about a price.\<close>

definition qty_on :: "level list \<Rightarrow> price \<Rightarrow> qty option" where
  "qty_on v = map_of (map (\<lambda>l. (lv_price l, lv_qty l)) v)"

lemma qty_on_simps [simp]: "qty_on [] p = None" "qty_on (l # v) p = (if lv_price l = p then Some (lv_qty l) else qty_on v p)"
  by (simp_all add: qty_on_def)

lemma qty_on_append: "qty_on (a @ c) p = (case qty_on a p of None \<Rightarrow> qty_on c p | Some q \<Rightarrow> Some q)"
  by (induction a) simp_all

lemma qty_on_None: "qty_on v p = None \<longleftrightarrow> p \<notin> lv_price ` set v"
  by (induction v) auto

text \<open>A side around a price: the levels behind it, its own level if there is one, those better.\<close>

lemma side_around:
  assumes "worst_first s v"
  obtains a c where "v = a @ c" "locate v s p = (length a, False)" "p \<notin> lv_price ` set v"
      "\<forall>l\<in>set a. better s p (lv_price l)" "\<forall>l\<in>set c. better s (lv_price l) p" "worst_first s a" "worst_first s c"
      "\<forall>l\<in>set a. \<forall>l'\<in>set c. better s (lv_price l') (lv_price l)"
    | a q c where "v = a @ \<lparr>lv_price = p, lv_qty = q\<rparr> # c" "locate v s p = (length a, True)" "p \<in> lv_price ` set v"
      "\<forall>l\<in>set a. better s p (lv_price l)" "\<forall>l\<in>set c. better s (lv_price l) p" "worst_first s a" "worst_first s c"
      "\<forall>l\<in>set a. \<forall>l'\<in>set c. better s (lv_price l') (lv_price l)"
proof -
  obtain a c where v: "v = a @ c" "takeWhile (behind s p) v = a" and a: "\<forall>l\<in>set a. better s p (lv_price l)"
    and c: "\<forall>l\<in>set c. at_or_better s (lv_price l) p" and w: "worst_first s a" "worst_first s c"
    and x: "\<forall>l\<in>set a. \<forall>l'\<in>set c. better s (lv_price l') (lv_price l)" using assms by (rule worst_first_split [of s v p])
  have l: "locate v s p = (length a, p \<in> lv_price ` set v)" using locate_exact [OF assms] v(2) by simp
  show thesis
  proof (cases "p \<in> lv_price ` set v")
    case False
    then have "\<forall>l\<in>set c. better s (lv_price l) p" using c by (auto simp: v(1) at_or_better_iff)
    then show thesis using that(1) [OF v(1) _ False a _ w x] l False by simp
  next
    case True
    then have "p \<in> lv_price ` set c" using a by (auto simp: v(1))
    then obtain x0 c' where c': "c = x0 # c'" by (cases c) auto
    have "lv_price x0 = p"
    proof (rule ccontr)
      assume n: "lv_price x0 \<noteq> p"
      then obtain y where y: "y \<in> set c'" "lv_price y = p" using \<open>p \<in> lv_price ` set c\<close> c' by auto
      then have "better s p (lv_price x0)" using w(2) c' by auto
      then show False using c c' by (auto simp: not_better_iff [symmetric])
    qed
    then have x0: "x0 = \<lparr>lv_price = p, lv_qty = lv_qty x0\<rparr>" by simp
    have "\<forall>l\<in>set c'. better s (lv_price l) p" using w(2) \<open>lv_price x0 = p\<close> c' by simp
    moreover have "worst_first s c'" using w(2) c' by simp
    moreover have "v = a @ \<lparr>lv_price = p, lv_qty = lv_qty x0\<rparr> # c'" using v(1) c' x0 by simp
    ultimately show thesis using that(2) [of a "lv_qty x0" c'] l True a w(1) x c' by simp
  qed
qed

text \<open>The reference for \<^verbatim>\<open>apply_level\<close>: take the level out, put the new one where the order wants it, and
  let the worst level go when a new one met a full side.\<close>

definition put_level :: "nat \<Rightarrow> side \<Rightarrow> price \<Rightarrow> qty \<Rightarrow> level list \<Rightarrow> level list" where
  "put_level D s p q v =
     (let w = filter (\<lambda>l. lv_price l \<noteq> p) v;
          w' = (if q = 0 then w
                else filter (behind s p) w @ \<lparr>lv_price = p, lv_qty = q\<rparr> # filter (\<lambda>l. \<not> behind s p l) w)
      in if q \<noteq> 0 \<and> p \<notin> lv_price ` set v \<and> D \<le> length v then tl w' else w')"

lemma filter_around:
  assumes "\<forall>l\<in>set a. better s p (lv_price l)" "\<forall>l\<in>set c. better s (lv_price l) p"
  shows "filter (\<lambda>l. lv_price l \<noteq> p) a = a" "filter (\<lambda>l. lv_price l \<noteq> p) c = c" "filter (behind s p) a = a"
    "filter (behind s p) c = []" "filter (\<lambda>l. \<not> behind s p l) a = []" "filter (\<lambda>l. \<not> behind s p l) c = c"
  using assms better_asym by (fastforce simp: filter_id_conv filter_empty_conv)+

lemma put_level_found:
  assumes "\<forall>l\<in>set a. better s p (lv_price l)" "\<forall>l\<in>set c. better s (lv_price l) p"
  shows "put_level D s p q (a @ \<lparr>lv_price = p, lv_qty = q0\<rparr> # c) =
    (if q = 0 then a @ c else a @ \<lparr>lv_price = p, lv_qty = q\<rparr> # c)"
  using filter_around [OF assms] by (simp add: put_level_def)

lemma put_level_new:
  assumes "\<forall>l\<in>set a. better s p (lv_price l)" "\<forall>l\<in>set c. better s (lv_price l) p"
  shows "put_level D s p q (a @ c) =
    (if q = 0 then a @ c else if length (a @ c) < D then a @ \<lparr>lv_price = p, lv_qty = q\<rparr> # c
     else tl (a @ \<lparr>lv_price = p, lv_qty = q\<rparr> # c))"
proof -
  have "p \<notin> lv_price ` set (a @ c)" using assms by auto
  then show ?thesis using filter_around [OF assms] by (auto simp: put_level_def)
qed

lemma shift_in_append:
  assumes "a \<noteq> []"
  shows "shift_in (a @ c) (length a) l = tl a @ l # c"
proof -
  have "a @ c = butlast a @ last a # c" using assms by simp
  then have "drop (length a - 1) (a @ c) = last a # c" by (metis append_eq_conv_conj length_butlast)
  then show ?thesis using assms by (simp add: shift_in_def drop_Suc list_update_append)
qed

definition overflows :: "side \<Rightarrow> price \<Rightarrow> qty \<Rightarrow> l2_book \<Rightarrow> bool" where
  "overflows s p q b \<longleftrightarrow> q \<noteq> 0 \<and> p \<notin> lv_price ` set (levels b s) \<and> bk_depth b \<le> length (levels b s)"

lemma apply_level_eq:
  assumes "worst_first s (levels b s)"
  shows "fst (apply_level s p q b) =
    set_levels s (put_level (bk_depth b) s p q (levels b s)) (if overflows s p q b then set_truncated s b else b)"
proof -
  let ?v = "levels b s" and ?l = "\<lparr>lv_price = p, lv_qty = q\<rparr>"
  show ?thesis
  proof (cases rule: side_around [OF assms, of p, case_names new found])
    case (new a c)
    note put = put_level_new [OF new(4,5), of "bk_depth b" q]
    show ?thesis
    proof (cases "q \<noteq> 0 \<and> bk_depth b \<le> length ?v")
      case True
      then have t: "overflows s p q b" using new(3) by (simp add: overflows_def)
      show ?thesis
      proof (cases "a = []")
        case True
        then show ?thesis
          using t \<open>q \<noteq> 0 \<and> _\<close> new(1,2) put set_levels_id [of s "set_truncated s b"]
          by (simp add: apply_level_def apply_level_old_def Let_def)
      next
        case False
        then show ?thesis
          using t \<open>q \<noteq> 0 \<and> _\<close> new(1,2) put shift_in_append [OF False, of c ?l]
          by (simp add: apply_level_def apply_level_old_def Let_def)
      qed
    next
      case False
      then have "\<not> overflows s p q b" by (auto simp: overflows_def)
      moreover have "fst (sv_insert_at (bk_depth b + kOwnLevels) ?v (length a) ?l) = a @ ?l # c" if "length ?v < bk_depth b"
        using that new(1) by (simp add: sv_insert_at_def)
      ultimately show ?thesis
        using False new(1,2) put set_levels_id [of s b]
        by (auto simp: apply_level_def apply_level_old_def Let_def)
    qed
  next
    case (found a q0 c)
    have "\<not> overflows s p q b" using found(3) by (simp add: overflows_def)
    then show ?thesis
      using found(1,2) put_level_found [OF found(4,5), of "bk_depth b" q q0]
      by (simp add: apply_level_def apply_level_old_def Let_def sv_erase_at_def list_update_append)
  qed
qed

lemma apply_level_report:
  assumes "worst_first s (levels b s)"
  shows "snd (apply_level s p q b) \<longleftrightarrow>
    \<not> (overflows s p q b \<and> (\<forall>l\<in>set (levels b s). better s (lv_price l) p))"
proof (cases rule: side_around [OF assms, of p, case_names new found])
  case (new a c)
  have "(\<forall>l\<in>set (levels b s). better s (lv_price l) p) \<longleftrightarrow> a = []"
    using new(1,4,5) better_asym by (cases a) (auto simp: new(1))
  then show ?thesis
    using new(1,2,3) by (auto simp: apply_level_def apply_level_old_def Let_def overflows_def)
next
  case (found a q0 c)
  then show ?thesis by (simp add: apply_level_def apply_level_old_def Let_def overflows_def)
qed

lemma put_level_sorted:
  assumes "worst_first s v"
  shows "worst_first s (put_level D s p q v)"
proof -
  have i: "worst_first s (a @ \<lparr>lv_price = p, lv_qty = q\<rparr> # c)"
    if "worst_first s a" "worst_first s c" "\<forall>l\<in>set a. \<forall>l'\<in>set c. better s (lv_price l') (lv_price l)"
      "\<forall>l\<in>set a. better s p (lv_price l)" "\<forall>l\<in>set c. better s (lv_price l) p" for a c
    using that by (auto simp: sorted_wrt_append)
  have t: "worst_first s (tl w)" if "worst_first s w" for w using that by (cases w) auto
  show ?thesis
  proof (cases rule: side_around [OF assms, of p, case_names new found])
    case (new a c)
    show ?thesis
      using i [OF new(6,7,8,4,5)] t [OF i [OF new(6,7,8,4,5)]] assms put_level_new [OF new(4,5), of D q] new(1) by (auto split: if_splits)
  next
    case (found a q0 c)
    show ?thesis
      using i [OF found(6,7,8,4,5)] found(6,7,8) put_level_found [OF found(4,5), of D q q0] found(1)
      by (auto simp: sorted_wrt_append split: if_splits)
  qed
qed

lemma put_level_length:
  assumes "worst_first s v"
  shows "length (put_level D s p q v) \<le> max D (length v)"
proof (cases rule: side_around [OF assms, of p, case_names new found])
  case (new a c)
  then show ?thesis using put_level_new [OF new(4,5), of D q] by auto
next
  case (found a q0 c)
  then show ?thesis using put_level_found [OF found(4,5), of D q q0] by auto
qed

text \<open>What a level update does to the side as a mapping.\<close>

lemma put_level_qty_on:
  assumes "worst_first s v"
  shows "qty_on (put_level D s p q v) x =
    (if q \<noteq> 0 \<and> p \<notin> lv_price ` set v \<and> D \<le> length v \<and>
        x = lv_price (hd (put_level (Suc (length v)) s p q v)) then None
     else if x = p then (if q = 0 then None else Some q) else qty_on v x)"
proof -
  have none: "qty_on a p = None" "qty_on c p = None"
    if "\<forall>l\<in>set a. better s p (lv_price l)" "\<forall>l\<in>set c. better s (lv_price l) p" for a c
    using that by (auto simp: qty_on_None)
  show ?thesis
  proof (cases rule: side_around [OF assms, of p, case_names new found])
    case (new a c)
    show ?thesis
    proof (cases "q \<noteq> 0 \<and> D \<le> length v")
      case False
      then show ?thesis
        using put_level_new [OF new(4,5), of D q] new(1) none [OF new(4,5)] by (auto simp: qty_on_append split: option.splits)
    next
      case True
      note put = put_level_new [OF new(4,5), of D q] put_level_new [OF new(4,5), of "Suc (length v)" q]
      show ?thesis
      proof (cases a)
        case Nil
        then show ?thesis using put True new(1,3) none [OF new(4,5)] by (auto simp: qty_on_append split: option.splits)
      next
        case (Cons y a')
        have "qty_on (a' @ c) (lv_price y) = None"
          using new(6,8) Cons better_irrefl by (fastforce simp: qty_on_None)
        moreover have "lv_price y \<noteq> p" using new(4) Cons by auto
        ultimately show ?thesis
          using put True new(1,3) none [OF new(4,5)] Cons by (auto simp: qty_on_append split: option.splits)
      qed
    qed
  next
    case (found a q0 c)
    then show ?thesis
      using put_level_found [OF found(4,5), of D q q0] none [OF found(4,5)] by (auto simp: qty_on_append split: option.splits)
  qed
qed

definition l2_inv :: "l2_book \<Rightarrow> bool" where
  "l2_inv b \<longleftrightarrow> 0 < bk_depth b \<and>
     (\<forall>s. worst_first s (levels b s) \<and> length (levels b s) \<le> bk_depth b + kOwnLevels)"

lemma l2_inv_side: "l2_inv b \<Longrightarrow> worst_first s (levels b s)"
  by (simp add: l2_inv_def)

lemma set_truncated_flag [simp]: "set_truncated s (set_truncated s b) = set_truncated s b"
  by (simp add: set_truncated_def)

lemma truncate_levels_swap: "set_truncated s (set_levels t v b) = set_levels t v (set_truncated s b)"
  by (cases t) (simp_all add: set_truncated_def set_levels_def levels_def)

lemma apply_levels_simps [simp]:
  "apply_levels s [] b = b" "apply_levels s (l # ls) b = apply_levels s ls (fst (apply_level s (lv_price l) (lv_qty l) b))"
  "apply_levels s (ls @ ms) b = apply_levels s ms (apply_levels s ls b)"
  by (simp_all add: apply_levels_def)

lemma apply_level_inv [keeps_inv]: "l2_inv b \<Longrightarrow> l2_inv (fst (apply_level s p q b))"
proof -
  assume i: "l2_inv b"
  then have w: "worst_first s (levels b s)" by (rule l2_inv_side)
  have "length (put_level (bk_depth b) s p q (levels b s)) \<le> max (bk_depth b) (length (levels b s))" using put_level_length [OF w] .
  then show ?thesis
    using i put_level_sorted [OF w, of "bk_depth b" p q]
    by (auto simp: apply_level_eq [OF w] l2_inv_def le_max_iff_disj intro: order_trans)
qed

lemma apply_levels_inv [keeps_inv]: "l2_inv b \<Longrightarrow> l2_inv (apply_levels s ls b)"
  by (induction ls arbitrary: b) (auto intro: apply_level_inv)

lemma apply_level_frame:
  assumes "worst_first s (levels b s)"
  shows "bk_depth (fst (apply_level s p q b)) = bk_depth b" "t \<noteq> s \<Longrightarrow> levels (fst (apply_level s p q b)) t = levels b t"
    "t \<noteq> s \<Longrightarrow> bk_truncated (fst (apply_level s p q b)) t = bk_truncated b t"
    "bk_truncated b t \<Longrightarrow> bk_truncated (fst (apply_level s p q b)) t"
    "bk_have_snapshot (fst (apply_level s p q b)) = bk_have_snapshot b" "bk_crossed_since (fst (apply_level s p q b)) = bk_crossed_since b"
    "bk_seq (fst (apply_level s p q b)) = bk_seq b" "bk_last_update (fst (apply_level s p q b)) = bk_last_update b"
  by (simp_all add: apply_level_eq [OF assms])

lemma apply_levels_frame:
  assumes "l2_inv b"
  shows "bk_depth (apply_levels s ls b) = bk_depth b \<and> (t \<noteq> s \<longrightarrow> levels (apply_levels s ls b) t = levels b t) \<and>
    (t \<noteq> s \<longrightarrow> bk_truncated (apply_levels s ls b) t = bk_truncated b t) \<and>
    (bk_truncated b t \<longrightarrow> bk_truncated (apply_levels s ls b) t) \<and>
    bk_have_snapshot (apply_levels s ls b) = bk_have_snapshot b \<and> bk_crossed_since (apply_levels s ls b) = bk_crossed_since b"
  using assms
  by (induction ls arbitrary: b) (simp_all add: apply_level_frame [OF l2_inv_side] apply_level_inv)

section \<open>Loading a snapshot\<close>

lemma level_eta [simp]: "\<lparr>lv_price = lv_price l, lv_qty = lv_qty l\<rparr> = l"
  by (cases l) simp

lemma load_best_first:
  assumes "levels b s = []" "0 < bk_depth b" "sorted_wrt (\<lambda>a b. better s (lv_price a) (lv_price b)) xs" "\<forall>l\<in>set xs. 0 < lv_qty l"
  shows "apply_levels s xs b =
    set_levels s (rev (take (bk_depth b) xs)) (if length xs > bk_depth b then set_truncated s b else b)"
  using assms(3,4)
proof (induction xs rule: rev_induct)
  case Nil
  then show ?case using set_levels_id [of s b] assms(1) by simp
next
  case (snoc l xs)
  let ?D = "bk_depth b" and ?b = "apply_levels s xs b"
  have xs: "sorted_wrt (\<lambda>a b. better s (lv_price a) (lv_price b)) xs" "\<forall>x\<in>set xs. better s (lv_price x) (lv_price l)"
    "\<forall>l\<in>set xs. 0 < lv_qty l" "lv_qty l \<noteq> 0" using snoc.prems by (auto simp: sorted_wrt_append)
  have b: "?b = set_levels s (rev (take ?D xs)) (if length xs > ?D then set_truncated s b else b)" by (rule snoc.IH [OF xs(1,3)])
  have lv: "levels ?b s = rev (take ?D xs)" "bk_depth ?b = ?D" by (simp_all add: b)
  have w: "worst_first s (levels ?b s)"
    unfolding lv sorted_wrt_rev using sorted_wrt_take [OF xs(1), of ?D] .
  have a: "\<forall>x\<in>set (rev (take ?D xs)). better s (lv_price x) (lv_price l)" using xs(2) by (auto dest: in_set_takeD)
  from put_level_new [of "[]" s "lv_price l" _ "?D" "lv_qty l", OF _ this]
  have put: "put_level ?D s (lv_price l) (lv_qty l) (rev (take ?D xs)) =
      (if length xs < ?D then l # rev (take ?D xs) else rev (take ?D xs))"
    using xs(4) by auto
  have "lv_price l \<notin> lv_price ` set (rev (take ?D xs))" using a by force
  then have o: "overflows s (lv_price l) (lv_qty l) ?b \<longleftrightarrow> ?D \<le> length xs" using xs(4) by (auto simp: overflows_def lv)
  show ?case
    using o put apply_level_eq [OF w, of "lv_price l" "lv_qty l"] unfolding lv
    by (cases "?D \<le> length xs") (simp_all add: b truncate_levels_swap)
qed

lemma load_worst_first:
  assumes "levels b s = []" "0 < bk_depth b" "worst_first s xs" "\<forall>l\<in>set xs. 0 < lv_qty l"
  shows "apply_levels s xs b =
    set_levels s (drop (length xs - bk_depth b) xs) (if length xs > bk_depth b then set_truncated s b else b)"
  using assms(3,4)
proof (induction xs rule: rev_induct)
  case Nil
  then show ?case using set_levels_id [of s b] assms(1) by simp
next
  case (snoc l xs)
  let ?D = "bk_depth b" and ?b = "apply_levels s xs b"
  let ?v = "drop (length xs - bk_depth b) xs"
  have xs: "worst_first s xs" "\<forall>x\<in>set xs. better s (lv_price l) (lv_price x)"
    "\<forall>l\<in>set xs. 0 < lv_qty l" "lv_qty l \<noteq> 0" using snoc.prems by (auto simp: sorted_wrt_append)
  have b: "?b = set_levels s ?v (if length xs > ?D then set_truncated s b else b)" by (rule snoc.IH [OF xs(1,3)])
  have lv: "levels ?b s = ?v" "bk_depth ?b = ?D" by (simp_all add: b)
  have w: "worst_first s (levels ?b s)" unfolding lv by (rule sorted_wrt_drop [OF xs(1)])
  have a: "\<forall>x\<in>set ?v. better s (lv_price l) (lv_price x)" using xs(2) by (auto dest: in_set_dropD)
  from put_level_new [OF this, of "[]" "?D" "lv_qty l"]
  have put: "put_level ?D s (lv_price l) (lv_qty l) ?v = (if length xs < ?D then ?v @ [l] else tl (?v @ [l]))"
    using xs(4) by auto
  have n: "lv_price l \<notin> lv_price ` set ?v" using a by force
  then have o: "overflows s (lv_price l) (lv_qty l) ?b \<longleftrightarrow> ?D \<le> length xs" using xs(4) by (auto simp: overflows_def lv)
  have d: "drop (Suc (length xs) - ?D) (xs @ [l]) = (if length xs < ?D then ?v @ [l] else tl (?v @ [l]))"
  proof (cases "length xs < ?D")
    case False
    then have "?v \<noteq> []" using assms(2) by simp
    then show ?thesis using False assms(2) by (simp add: Suc_diff_le drop_Suc tl_drop)
  qed simp
  show ?case
    using o put d apply_level_eq [OF w, of "lv_price l" "lv_qty l"] unfolding lv
    by (cases "?D \<le> length xs") (simp_all add: b truncate_levels_swap)
qed

lemma adjacent_sorted:
  assumes "\<And>x y z. R x y \<Longrightarrow> R y z \<Longrightarrow> R x z" "\<forall>k\<in>{1..<length xs}. R (xs ! (k - 1)) (xs ! k)"
  shows "sorted_wrt R xs"
proof -
  have "transp R" using assms(1) by (auto intro: transpI)
  moreover have "R (xs ! i) (xs ! Suc i)" if "Suc i < length xs" for i using assms(2) that by (auto dest: bspec [of _ _ "Suc i"])
  ultimately show ?thesis by (simp add: sorted_wrt_iff_nth_Suc_transp)
qed

lemma load_order_sorted:
  assumes "load_order s xs \<noteq> 0"
  shows "(\<forall>l\<in>set xs. 0 < lv_qty l) \<and>
    (if load_order s xs = 1 then sorted_wrt (\<lambda>a b. better s (lv_price a) (lv_price b)) xs else worst_first s xs)"
proof -
  define ord :: int where "ord = (if length xs = 1 then 1 else if better s (lv_price (xs ! 0)) (lv_price (xs ! 1)) then 1 else - 1)"
  define Q where "Q k \<longleftrightarrow> 0 < lv_qty (xs ! k) \<and>
       (if ord = 1 then better s (lv_price (xs ! (k - 1))) (lv_price (xs ! k)) else better s (lv_price (xs ! k)) (lv_price (xs ! (k - 1))))" for k
  have o: "load_order s xs = ord" "0 < length xs" "0 < lv_qty (xs ! 0)"
    "\<forall>k\<in>{1..<length xs}. Q k"
    using assms unfolding load_order_def Let_def ord_def [symmetric] Q_def [symmetric] by (simp_all split: if_splits)
  have "0 < lv_qty (xs ! k)" if "k < length xs" for k using o(3,4) that by (cases k) (auto simp: Q_def)
  then have "\<forall>l\<in>set xs. 0 < lv_qty l" by (auto simp: in_set_conv_nth)
  moreover have "sorted_wrt (\<lambda>a b. better s (lv_price a) (lv_price b)) xs" if "ord = 1"
    by (rule adjacent_sorted) (use o(4) that better_trans in \<open>auto simp: Q_def\<close>)
  moreover have "worst_first s xs" if "ord \<noteq> 1"
    by (rule adjacent_sorted) (use o(4) that better_trans in \<open>auto simp: Q_def\<close>)
  ultimately show ?thesis by (simp add: o(1))
qed

lemma load_side_levelwise:
  assumes "levels b s = []" "0 < bk_depth b"
  shows "load_side s xs b = apply_levels s xs b"
proof (cases "load_order s xs = 0")
  case False
  define m where "m = (if length xs < bk_depth b then length xs else bk_depth b)"
  have m: "m \<le> length xs" "length xs > m \<longleftrightarrow> length xs > bk_depth b" "take m xs = take (bk_depth b) xs"
    "length xs - m = length xs - bk_depth b" by (auto simp: m_def)
  note s = load_order_sorted [OF False]
  have e1: "map (\<lambda>k. xs ! (m - 1 - k)) [0..<m] = rev (take m xs)"
    using m(1) by (auto simp: list_eq_iff_nth_eq rev_nth)
  have e2: "map (\<lambda>k. xs ! (length xs - m + k)) [0..<m] = drop (length xs - m) xs"
    using m(1) by (auto simp: list_eq_iff_nth_eq)
  show ?thesis
    unfolding load_side_def Let_def m_def [symmetric] e1 e2 m(2)
    using False s load_best_first [OF assms, of xs] load_worst_first [OF assms, of xs]
    by (cases "load_order s xs = 1") (simp_all add: m(3,4) truncate_levels_swap)
qed (simp add: load_side_def)

section \<open>The book and the venue's book\<close>

text \<open>The venue publishes changes to a mapping from prices to quantities, zero where there is no level.
  A side is sound when every level it shows is the venue's, and complete when it shows every level.\<close>

definition venue_apply :: "(price \<Rightarrow> qty) \<Rightarrow> level list \<Rightarrow> price \<Rightarrow> qty" where
  "venue_apply m ls = fold (\<lambda>l m. m(lv_price l := lv_qty l)) ls m"

definition side_sound :: "level list \<Rightarrow> (price \<Rightarrow> qty) \<Rightarrow> bool" where
  "side_sound v m \<longleftrightarrow> (\<forall>p q. qty_on v p = Some q \<longrightarrow> q \<noteq> 0 \<and> m p = q)"

definition side_complete :: "level list \<Rightarrow> (price \<Rightarrow> qty) \<Rightarrow> bool" where
  "side_complete v m \<longleftrightarrow> (\<forall>p. m p \<noteq> 0 \<longrightarrow> qty_on v p = Some (m p))"

lemma venue_apply_simps [simp]:
  "venue_apply m [] = m" "venue_apply m (l # ls) = venue_apply (m(lv_price l := lv_qty l)) ls"
  "venue_apply m (ls @ ms) = venue_apply (venue_apply m ls) ms"
  by (simp_all add: venue_apply_def)

lemma venue_apply_elsewhere: "p \<notin> lv_price ` set ls \<Longrightarrow> venue_apply m ls p = m p"
  by (induction ls arbitrary: m) auto

lemma side_sound_put: "worst_first s v \<Longrightarrow> side_sound v m \<Longrightarrow> side_sound (put_level D s p q v) (m(p := q))"
  by (auto simp: side_sound_def put_level_qty_on split: if_splits)

lemma side_complete_put:
  "worst_first s v \<Longrightarrow> side_complete v m \<Longrightarrow> \<not> (q \<noteq> 0 \<and> p \<notin> lv_price ` set v \<and> D \<le> length v) \<Longrightarrow>
     side_complete (put_level D s p q v) (m(p := q))"
  by (auto simp: side_complete_def put_level_qty_on split: if_splits)

lemma apply_levels_tracks:
  assumes "l2_inv b" "side_sound (levels b s) m" "\<not> bk_truncated b s \<Longrightarrow> whole \<Longrightarrow> side_complete (levels b s) m"
  shows "side_sound (levels (apply_levels s ls b) s) (venue_apply m ls) \<and>
    (\<not> bk_truncated (apply_levels s ls b) s \<and> whole \<longrightarrow> side_complete (levels (apply_levels s ls b) s) (venue_apply m ls))"
  using assms
proof (induction ls arbitrary: b m)
  case (Cons l ls)
  let ?b = "fst (apply_level s (lv_price l) (lv_qty l) b)" and ?m = "m(lv_price l := lv_qty l)"
  have w: "worst_first s (levels b s)" using Cons.prems(1) by (rule l2_inv_side)
  have e: "levels ?b s = put_level (bk_depth b) s (lv_price l) (lv_qty l) (levels b s)"
    "bk_truncated ?b s \<longleftrightarrow> bk_truncated b s \<or> overflows s (lv_price l) (lv_qty l) b"
    by (simp_all add: apply_level_eq [OF w])
  have "side_sound (levels ?b s) ?m" using side_sound_put [OF w Cons.prems(2)] by (simp add: e)
  moreover have "side_complete (levels ?b s) ?m" if "\<not> bk_truncated ?b s" whole
    using that side_complete_put [OF w Cons.prems(3)] by (simp add: e overflows_def)
  ultimately show ?case unfolding apply_levels_simps venue_apply_simps by (intro Cons.IH apply_level_inv [OF Cons.prems(1)])
qed auto

subsection \<open>Cut updates\<close>

lemma worst_carried_fold:
  "(let w = fold (\<lambda>l bound. if better s bound (lv_price l) then lv_price l else bound) ls p
    in (w = p \<or> w \<in> lv_price ` set ls) \<and> at_or_better s p w \<and> (\<forall>l\<in>set ls. at_or_better s (lv_price l) w))"
proof (induction ls arbitrary: p)
  case Nil
  then show ?case by (simp add: at_or_better_iff)
next
  case (Cons l ls)
  have trans: "at_or_better s x z" if "at_or_better s x y" "at_or_better s y z" for x y z
    using that better_trans by (auto simp: at_or_better_iff)
  show ?case
  proof (cases "better s p (lv_price l)")
    case True
    then have "at_or_better s p (lv_price l)" by (simp add: at_or_better_iff)
    then show ?thesis using True Cons.IH [of "lv_price l"] trans unfolding Let_def by auto
  next
    case False
    then have "at_or_better s (lv_price l) p" by (simp add: not_better_iff)
    then show ?thesis using False Cons.IH [of p] trans unfolding Let_def by auto
  qed
qed

lemma worst_carried_worst:
  assumes "ls \<noteq> []"
  shows "worst_carried s ls \<in> lv_price ` set ls" "l \<in> set ls \<Longrightarrow> at_or_better s (lv_price l) (worst_carried s ls)"
  using worst_carried_fold [where p = "lv_price (hd ls)" and ls = ls and s = s] assms by (auto simp: worst_carried_def Let_def)

lemma trim_behind_levels:
  assumes "worst_first s (levels b s)" "ls \<noteq> []"
  shows "levels (trim_behind s ls b) s = filter (\<lambda>l. at_or_better s (lv_price l) (worst_carried s ls)) (levels b s)"
    "t \<noteq> s \<Longrightarrow> levels (trim_behind s ls b) t = levels b t" "t \<noteq> s \<Longrightarrow> bk_truncated (trim_behind s ls b) t = bk_truncated b t"
    "bk_truncated (trim_behind s ls b) s \<longleftrightarrow> bk_truncated b s \<or> levels (trim_behind s ls b) s \<noteq> levels b s"
    "bk_depth (trim_behind s ls b) = bk_depth b" "bk_crossed_since (trim_behind s ls b) = bk_crossed_since b"
    "bk_have_snapshot (trim_behind s ls b) = bk_have_snapshot b"
proof -
  let ?p = "worst_carried s ls"
  obtain a c where v: "levels b s = a @ c" "takeWhile (behind s ?p) (levels b s) = a" and a: "\<forall>l\<in>set a. better s ?p (lv_price l)"
    and c: "\<forall>l\<in>set c. at_or_better s (lv_price l) ?p" using assms(1) by (rule worst_first_split [of s _ ?p])
  have f: "filter (\<lambda>l. at_or_better s (lv_price l) ?p) (levels b s) = c"
    using a c by (auto simp: v(1) filter_empty_conv filter_id_conv not_better_iff [symmetric])
  have t: "trim_behind s ls b = (if a = [] then b else set_truncated s (set_levels s c b))"
    using assms(2) v by (simp add: trim_behind_def Let_def sv_erase_front_def)
  show "levels (trim_behind s ls b) s = filter (\<lambda>l. at_or_better s (lv_price l) ?p) (levels b s)"
    "bk_truncated (trim_behind s ls b) s \<longleftrightarrow> bk_truncated b s \<or> levels (trim_behind s ls b) s \<noteq> levels b s"
    unfolding f using v(1) by (auto simp: t)
qed (simp_all add: trim_behind_def Let_def)

lemma qty_on_filter: "qty_on (filter (\<lambda>l. P (lv_price l)) v) p = (if P p then qty_on v p else None)"
  by (induction v) auto

text \<open>A cut update leaves out changes behind the last level it carries. The trimmed side is sound for
  the venue's book with those changes in it.\<close>

lemma trim_behind_sound:
  assumes "worst_first s (levels b s)" "ls \<noteq> []" "side_sound (levels b s) m"
    and "\<forall>c\<in>set ls. \<forall>h\<in>set hidden. better s (lv_price c) (lv_price h)"
  shows "side_sound (levels (trim_behind s ls b) s) (venue_apply m hidden)"
  unfolding side_sound_def
proof (intro allI impI)
  fix p q assume "qty_on (levels (trim_behind s ls b) s) p = Some q"
  then have p: "at_or_better s p (worst_carried s ls)" "qty_on (levels b s) p = Some q"
    unfolding trim_behind_levels(1) [OF assms(1,2)] using qty_on_filter [of "\<lambda>x. at_or_better s x (worst_carried s ls)" "levels b s" p] by (simp_all split: if_splits)
  have "p \<notin> lv_price ` set hidden"
  proof
    assume "p \<in> lv_price ` set hidden"
    then have "better s (worst_carried s ls) p" using worst_carried_worst(1) [OF assms(2), of s] assms(4) by auto
    then show False using p(1) by (simp add: not_better_iff [symmetric])
  qed
  then show "q \<noteq> 0 \<and> venue_apply m hidden p = q" using assms(3) p(2) by (simp add: side_sound_def venue_apply_elsewhere)
qed

lemma trim_behind_inv [keeps_inv]: "l2_inv b \<Longrightarrow> l2_inv (trim_behind s ls b)"
proof (cases "ls = []")
  case False
  assume i: "l2_inv b"
  note t = trim_behind_levels [OF l2_inv_side [OF i] False]
  have "worst_first u (levels (trim_behind s ls b) u) \<and> length (levels (trim_behind s ls b) u) \<le> bk_depth b + kOwnLevels" for u
  proof (cases "u = s")
    case True
    have "length (filter P (levels b s)) \<le> bk_depth b + kOwnLevels" for P
      using i length_filter_le [of P "levels b s"] unfolding l2_inv_def by (meson order_trans)
    then show ?thesis using True i by (simp add: t(1) l2_inv_def sorted_wrt_filter)
  next
    case False
    then show ?thesis using i by (simp add: t(2) l2_inv_def)
  qed
  then show ?thesis using i by (simp add: l2_inv_def t(5))
qed (simp add: trim_behind_def)

definition changes :: "book_delta_msg \<Rightarrow> side \<Rightarrow> level list" where
  "changes d s = (if s = Buy then bd_bids d else bd_asks d)"

definition cut :: "book_delta_msg \<Rightarrow> side \<Rightarrow> bool" where
  "cut d s \<longleftrightarrow> eh_flags (bd_hdr d) AND (if s = Buy then kTruncatedBids else kTruncatedAsks) \<noteq> 0"

definition update_time :: "book_delta_msg \<Rightarrow> timestamp" where
  "update_time d = (if eh_exch_ts (bd_hdr d) \<noteq> 0 then eh_exch_ts (bd_hdr d) else eh_recv_ts (bd_hdr d))"

lemma cut_either: "eh_flags (bd_hdr d) AND (kTruncatedBids OR kTruncatedAsks) \<noteq> 0 \<longleftrightarrow> cut d Buy \<or> cut d Sell"
  by (simp add: cut_def bit.conj_disj_distrib or_eq_0_iff)

lemma trim_behind_frame:
  assumes "l2_inv b"
  shows "t \<noteq> s \<Longrightarrow> levels (trim_behind s ls b) t = levels b t" "t \<noteq> s \<Longrightarrow> bk_truncated (trim_behind s ls b) t = bk_truncated b t"
    "bk_depth (trim_behind s ls b) = bk_depth b" "bk_crossed_since (trim_behind s ls b) = bk_crossed_since b"
  using trim_behind_levels [OF l2_inv_side [OF assms], of ls] by (cases "ls = []"; simp add: trim_behind_def)+

lemma trim_behind_same_side:
  assumes "l2_inv b" "l2_inv c" "levels b s = levels c s" "bk_truncated b s = bk_truncated c s"
  shows "levels (trim_behind s ls b) s = levels (trim_behind s ls c) s \<and>
    bk_truncated (trim_behind s ls b) s = bk_truncated (trim_behind s ls c) s"
  by (simp add: trim_behind_def Let_def assms(3,4))

lemma trim_truncated_side:
  assumes "l2_inv b"
  shows "l2_inv (trim_truncated d b) \<and>
    levels (trim_truncated d b) s = levels (if cut d s then trim_behind s (changes d s) b else b) s \<and>
    bk_truncated (trim_truncated d b) s = bk_truncated (if cut d s then trim_behind s (changes d s) b else b) s"
proof -
  define b1 where "b1 = (if cut d Buy then trim_behind Buy (bd_bids d) b else b)"
  have t: "trim_truncated d b = (if cut d Sell then trim_behind Sell (bd_asks d) b1 else b1)"
    by (simp add: trim_truncated_def b1_def cut_def)
  have b1: "l2_inv b1" "levels b1 Sell = levels b Sell" "bk_truncated b1 Sell = bk_truncated b Sell"
    using assms by (simp_all add: b1_def trim_behind_inv trim_behind_frame [OF assms])
  show ?thesis
  proof (cases s)
    case Buy
    then show ?thesis
      using b1(1) trim_behind_frame [OF b1(1)] by (simp add: t trim_behind_inv changes_def b1_def)
  next
    case Sell
    then show ?thesis
      using b1 trim_behind_same_side [OF b1(1) assms, of Sell "bd_asks d"] by (simp add: t trim_behind_inv changes_def)
  qed
qed

lemma update_crossed_frame [simp]:
  "levels (update_crossed ts b) s = levels b s" "bk_truncated (update_crossed ts b) = bk_truncated b"
  "bk_depth (update_crossed ts b) = bk_depth b" "crossed (update_crossed ts b) = crossed b"
  by (simp_all add: update_crossed_def levels_def crossed_def)

lemma stamp_frame [simp]:
  "levels (b\<lparr>bk_seq := q\<rparr>) s = levels b s" "levels (b\<lparr>bk_last_update := ts\<rparr>) s = levels b s"
  "levels (b\<lparr>bk_have_snapshot := h\<rparr>) s = levels b s"
  by (simp_all add: levels_def)

lemma update_crossed_timer: "ts \<noteq> 0 \<Longrightarrow> bk_crossed_since (update_crossed ts b) \<noteq> 0 \<longleftrightarrow> crossed (update_crossed ts b)"
  by (simp add: update_crossed_def crossed_def)

lemma apply_delta_tracks:
  assumes inv: "l2_inv b" and d: "\<not> is_snapshot d"
    and sound: "\<And>s. side_sound (levels b s) (m s)"
    and complete: "\<And>s. \<not> bk_truncated b s \<Longrightarrow> whole s \<Longrightarrow> side_complete (levels b s) (m s)"
    and hidden: "\<And>s. hidden s \<noteq> [] \<Longrightarrow> cut d s \<and> changes d s \<noteq> [] \<and>
      (\<forall>c\<in>set (changes d s). \<forall>h\<in>set (hidden s). better s (lv_price c) (lv_price h))"
  shows "l2_inv (apply_delta d b) \<and> side_sound (levels (apply_delta d b) s) (venue_apply (m s) (changes d s @ hidden s)) \<and>
    (\<not> bk_truncated (apply_delta d b) s \<and> whole s \<and> hidden s = [] \<longrightarrow>
       side_complete (levels (apply_delta d b) s) (venue_apply (m s) (changes d s)))"
proof -
  define b1 where "b1 = apply_levels Buy (bd_bids d) b"
  define b2 where "b2 = apply_levels Sell (bd_asks d) b1"
  define b3 where "b3 = (if cut d Buy \<or> cut d Sell then trim_truncated d b2 else b2)"
  have i1: "l2_inv b1" and i2: "l2_inv b2" using inv by (simp_all add: b1_def b2_def apply_levels_inv)
  have a: "levels (apply_delta d b) s = levels b3 s" "bk_truncated (apply_delta d b) s = bk_truncated b3 s"
    "bk_depth (apply_delta d b) = bk_depth b3" for s
    unfolding apply_delta_def Let_def cut_either b1_def [symmetric] b2_def [symmetric] b3_def [symmetric]
    by (simp_all add: d)
  have f1: "levels b1 Sell = levels b Sell" "bk_truncated b1 Sell = bk_truncated b Sell"
    using apply_levels_frame [OF inv, of Buy "bd_bids d" Sell] by (simp_all add: b1_def)
  have f2: "levels b2 Buy = levels b1 Buy" "bk_truncated b2 Buy = bk_truncated b1 Buy"
    using apply_levels_frame [OF i1, of Sell "bd_asks d" Buy] by (simp_all add: b2_def)
  have t2: "side_sound (levels b2 s) (venue_apply (m s) (changes d s)) \<and>
    (\<not> bk_truncated b2 s \<and> whole s \<longrightarrow> side_complete (levels b2 s) (venue_apply (m s) (changes d s)))"
  proof (cases s)
    case Buy
    then show ?thesis
      using apply_levels_tracks [OF inv sound complete, of Buy "whole Buy" "bd_bids d"] f2 by (simp add: changes_def b1_def)
  next
    case Sell
    show ?thesis
      using Sell apply_levels_tracks [OF i1, of Sell "m Sell" "whole Sell" "bd_asks d"] sound [of Sell] complete [of Sell]
      unfolding f1 b2_def by (simp add: changes_def)
  qed
  have "l2_inv b3" using trim_truncated_side [OF i2] i2 by (simp add: b3_def)
  then have i3: "l2_inv (apply_delta d b)" by (simp add: l2_inv_def a)
  have l3: "levels b3 s = levels (if cut d s then trim_behind s (changes d s) b2 else b2) s"
    "bk_truncated b3 s = bk_truncated (if cut d s then trim_behind s (changes d s) b2 else b2) s"
    using trim_truncated_side [OF i2, of d s] by (cases s; simp add: b3_def)+
  show ?thesis
  proof (cases "cut d s \<and> changes d s \<noteq> []")
    case True
    note tl = trim_behind_levels [OF l2_inv_side [OF i2], of "changes d s"]
    have "side_sound (levels (trim_behind s (changes d s) b2) s) (venue_apply (venue_apply (m s) (changes d s)) (hidden s))"
      by (rule trim_behind_sound [OF l2_inv_side [OF i2]]) (use True t2 hidden [of s] in \<open>cases "hidden s = []"; simp\<close>)+
    then show ?thesis
      using True t2 tl(4) i3 by (simp add: a l3)
  next
    case False
    then have "hidden s = []" "levels b3 s = levels b2 s" "bk_truncated b3 s = bk_truncated b2 s"
      using hidden [of s] l3 by (auto simp: trim_behind_def)
    then show ?thesis using t2 i3 by (simp add: a)
  qed
qed

lemma l2_clear_simps [simp]:
  "levels (l2_clear b) s = []" "bk_depth (l2_clear b) = bk_depth b" "bk_truncated (l2_clear b) s = False"
  by (simp_all add: l2_clear_def levels_def)

lemma l2_clear_inv: "0 < bk_depth b \<Longrightarrow> l2_inv (l2_clear b)"
  by (simp add: l2_inv_def)

lemma snapshot_levels:
  assumes "0 < bk_depth b" "is_snapshot d"
  defines "c \<equiv> apply_levels Sell (bd_asks d) (apply_levels Buy (bd_bids d) (l2_clear b))"
  shows "levels (apply_delta d b) s = levels c s" "bk_truncated (apply_delta d b) = bk_truncated c"
    "bk_depth (apply_delta d b) = bk_depth c" "l2_inv c"
proof -
  have i: "l2_inv (apply_levels Buy (bd_bids d) (l2_clear b))" by (simp add: apply_levels_inv l2_clear_inv assms(1))
  then show "l2_inv c" by (simp add: c_def apply_levels_inv)
  have "load_side Sell (bd_asks d) (load_side Buy (bd_bids d) (l2_clear b)) = c"
    using assms(1) apply_levels_frame [OF l2_clear_inv [OF assms(1)], of Buy "bd_bids d" Sell]
    by (simp add: c_def load_side_levelwise)
  then show "levels (apply_delta d b) s = levels c s" "bk_truncated (apply_delta d b) = bk_truncated c"
    "bk_depth (apply_delta d b) = bk_depth c"
    using assms(2) by (simp_all add: apply_delta_def apply_snapshot_def Let_def)
qed

lemma snapshot_tracks:
  assumes "0 < bk_depth b" "is_snapshot d"
  shows "l2_inv (apply_delta d b) \<and> side_sound (levels (apply_delta d b) s) (venue_apply (\<lambda>_. 0) (changes d s)) \<and>
    (\<not> bk_truncated (apply_delta d b) s \<longrightarrow> side_complete (levels (apply_delta d b) s) (venue_apply (\<lambda>_. 0) (changes d s)))"
proof -
  define b1 where "b1 = apply_levels Buy (bd_bids d) (l2_clear b)"
  define c where "c = apply_levels Sell (bd_asks d) b1"
  note s = snapshot_levels [OF assms, folded b1_def, folded c_def]
  have i0: "l2_inv (l2_clear b)" and i1: "l2_inv b1" by (simp_all add: b1_def apply_levels_inv l2_clear_inv assms(1))
  have e: "side_sound [] (\<lambda>_. 0)" "side_complete [] (\<lambda>_. 0)" by (simp_all add: side_sound_def side_complete_def)
  have f1: "levels b1 Sell = []" "\<not> bk_truncated b1 Sell"
    using apply_levels_frame [OF i0, of Buy "bd_bids d" Sell] by (simp_all add: b1_def)
  have f2: "levels c Buy = levels b1 Buy" "bk_truncated c Buy = bk_truncated b1 Buy"
    using apply_levels_frame [OF i1, of Sell "bd_asks d" Buy] by (simp_all add: c_def)
  have "side_sound (levels c s) (venue_apply (\<lambda>_. 0) (changes d s)) \<and>
    (\<not> bk_truncated c s \<longrightarrow> side_complete (levels c s) (venue_apply (\<lambda>_. 0) (changes d s)))"
  proof (cases s)
    case Buy
    then show ?thesis
      using apply_levels_tracks [OF i0, of Buy "\<lambda>_. 0" True "bd_bids d"] e f2 by (simp add: changes_def b1_def)
  next
    case Sell
    then show ?thesis
      using apply_levels_tracks [OF i1, of Sell "\<lambda>_. 0" True "bd_asks d"] e f1 by (simp add: changes_def c_def)
  qed
  moreover have "l2_inv (apply_delta d b)" using s(1,3,4) by (simp add: l2_inv_def)
  ultimately show ?thesis by (simp add: s)
qed

lemma apply_delta_timer: "update_time d \<noteq> 0 \<Longrightarrow> bk_crossed_since (apply_delta d b) \<noteq> 0 \<longleftrightarrow> crossed (apply_delta d b)"
  unfolding apply_delta_def Let_def update_time_def [symmetric] apply_snapshot_def
  by (cases "is_snapshot d") (simp_all only: if_True if_False update_crossed_timer simp_thms)

text \<open>A book that was given a snapshot and then every update the venue sent. \<open>m\<close> is the venue's book;
  \<open>hidden\<close> the changes a cut update left out, all behind the levels it carries; \<open>whole\<close> says that no update
  was cut since the snapshot.\<close>

inductive book_follows :: "l2_book \<Rightarrow> (side \<Rightarrow> price \<Rightarrow> qty) \<Rightarrow> (side \<Rightarrow> bool) \<Rightarrow> bool" where
  follows_snapshot:
    "0 < bk_depth b \<Longrightarrow> is_snapshot d \<Longrightarrow> update_time d \<noteq> 0 \<Longrightarrow>
       book_follows (apply_delta d b) (\<lambda>s. venue_apply (\<lambda>_. 0) (changes d s)) (\<lambda>_. True)"
| follows_delta:
    "book_follows b m whole \<Longrightarrow> \<not> is_snapshot d \<Longrightarrow> update_time d \<noteq> 0 \<Longrightarrow>
       (\<And>s. hidden s \<noteq> [] \<Longrightarrow> cut d s \<and> changes d s \<noteq> [] \<and>
          (\<forall>c\<in>set (changes d s). \<forall>h\<in>set (hidden s). better s (lv_price c) (lv_price h))) \<Longrightarrow>
       book_follows (apply_delta d b) (\<lambda>s. venue_apply (m s) (changes d s @ hidden s)) (\<lambda>s. whole s \<and> hidden s = [])"

lemma book_follows_tracks:
  "book_follows b m whole \<Longrightarrow> l2_inv b \<and> (\<forall>s. side_sound (levels b s) (m s) \<and>
    (\<not> bk_truncated b s \<and> whole s \<longrightarrow> side_complete (levels b s) (m s))) \<and> (bk_crossed_since b \<noteq> 0 \<longleftrightarrow> crossed b)"
proof (induction rule: book_follows.induct)
  case (follows_snapshot b d)
  then show ?case using snapshot_tracks [of b d] apply_delta_timer [of d b] by blast
next
  case (follows_delta b m whole d hidden)
  have "l2_inv (apply_delta d b) \<and> side_sound (levels (apply_delta d b) s) (venue_apply (m s) (changes d s @ hidden s)) \<and>
    (\<not> bk_truncated (apply_delta d b) s \<and> whole s \<and> hidden s = [] \<longrightarrow>
       side_complete (levels (apply_delta d b) s) (venue_apply (m s) (changes d s)))" for s
    by (rule apply_delta_tracks) (use follows_delta in blast)+
  then show ?case using apply_delta_timer [OF follows_delta.hyps(3), of b] by auto
qed

section \<open>Our own quantity\<close>

lemma own_round_trip:
  assumes inv: "l2_inv b" and a: "add_own s p q b = (c, True, inserted)"
  shows "l2_inv c \<and> remove_own s p q inserted c = b"
proof -
  have w: "worst_first s (levels b s)" by (rule l2_inv_side [OF inv])
  show ?thesis
  proof (cases rule: side_around [OF w, of p, case_names new found])
    case (new x y)
    let ?l = "\<lparr>lv_price = p, lv_qty = q\<rparr>"
    have r: "length (levels b s) \<noteq> bk_depth b + kOwnLevels" "c = set_levels s (x @ ?l # y) b" inserted
      using a new(1,2) by (auto simp: add_own_def Let_def sv_insert_at_def split: if_splits)
    have ws: "worst_first s (x @ ?l # y)" using new(4-8) by (auto simp: sorted_wrt_append)
    have "locate (x @ ?l # y) s p = (length x, True)"
      using locate_exact [OF ws, of p] takeWhile_behind [of x s p "?l # y"] new(4,5) by (auto simp: at_or_better_iff)
    then have "remove_own s p q inserted c = set_levels s (x @ y) b"
      using r by (simp add: remove_own_def Let_def sv_erase_at_def)
    moreover have "length (levels b s) \<le> bk_depth b + kOwnLevels" using inv by (simp add: l2_inv_def)
    ultimately show ?thesis using r ws inv new(1) set_levels_id [of s b] by (auto simp: l2_inv_def)
  next
    case (found x q0 y)
    let ?l = "\<lparr>lv_price = p, lv_qty = q0 + q\<rparr>"
    have r: "c = set_levels s (x @ ?l # y) b" "\<not> inserted"
      using a found(1,2) by (auto simp: add_own_def Let_def list_update_append)
    have ws: "worst_first s (x @ ?l # y)" using found(4-8) by (auto simp: sorted_wrt_append)
    have "locate (x @ ?l # y) s p = (length x, True)"
      using locate_exact [OF ws, of p] takeWhile_behind [of x s p "?l # y"] found(4,5) by (auto simp: at_or_better_iff)
    then have "remove_own s p q inserted c = set_levels s (x @ \<lparr>lv_price = p, lv_qty = q0\<rparr> # y) b"
      using r by (simp add: remove_own_def Let_def list_update_append)
    moreover have "length (levels b s) \<le> bk_depth b + kOwnLevels" using inv by (simp add: l2_inv_def)
    ultimately show ?thesis using r ws inv found(1) set_levels_id [of s b] by (auto simp: l2_inv_def)
  qed
qed

section \<open>Depth queries\<close>

lemma sum_from_best_take:
  assumes "worst_first s v" "i \<le> length v"
  shows "sum_from_best s limit v i acc = acc + (\<Sum>l\<leftarrow>take i v. if at_or_better s (lv_price l) limit then lv_qty l else 0)"
  using assms(2)
proof (induction i arbitrary: acc)
  case (Suc i)
  have t: "take (Suc i) v = take i v @ [v ! i]" using Suc.prems by (simp add: take_Suc_conv_app_nth)
  show ?case
  proof (cases "at_or_better s (lv_price (v ! i)) limit")
    case False
    have "\<not> at_or_better s (lv_price l) limit" if "l \<in> set (take i v)" for l
    proof -
      obtain k where k: "k < i" "l = v ! k" using \<open>l \<in> set (take i v)\<close> by (auto simp: in_set_conv_nth)
      have "better s (lv_price (v ! i)) (lv_price l)" using sorted_wrt_nth_less [OF assms(1) k(1)] Suc.prems k(2) by simp
      then show ?thesis using False better_trans by (auto simp: at_or_better_iff)
    qed
    then have "(\<Sum>l\<leftarrow>take i v. if at_or_better s (lv_price l) limit then lv_qty l else 0) = (\<Sum>l\<leftarrow>take i v. 0)"
      by (intro arg_cong [where f = sum_list] map_cong) auto
    then show ?thesis using False by (simp add: t)
  qed (use Suc in \<open>simp add: t\<close>)
qed simp

lemma qty_at_or_better_sum:
  "l2_inv b \<Longrightarrow> qty_at_or_better b s limit = (\<Sum>l\<leftarrow>levels b s. if at_or_better s (lv_price l) limit then lv_qty l else 0)"
  using sum_from_best_take [OF l2_inv_side, of b "length (levels b s)" s limit 0] by (simp add: qty_at_or_better_def)

lemma cum_from_best_spec:
  assumes "i \<le> length v"
  shows "(\<exists>k<i. cum_from_best q v i acc = lv_price (v ! k) \<and> q \<le> acc + (\<Sum>l\<leftarrow>drop k (take i v). lv_qty l) \<and>
      (\<forall>j. k < j \<and> j < i \<longrightarrow> acc + (\<Sum>l\<leftarrow>drop j (take i v). lv_qty l) < q)) \<or>
    cum_from_best q v i acc = 0 \<and> (\<forall>j<i. acc + (\<Sum>l\<leftarrow>drop j (take i v). lv_qty l) < q)"
  using assms
proof (induction i arbitrary: acc)
  case (Suc i)
  have t: "take (Suc i) v = take i v @ [v ! i]" using Suc.prems by (simp add: take_Suc_conv_app_nth)
  have d: "drop j (take (Suc i) v) = drop j (take i v) @ [v ! i]" if "j \<le> i" for j using that Suc.prems by (simp add: t)
  show ?case
  proof (cases "acc + lv_qty (v ! i) \<ge> q")
    case True
    then show ?thesis using Suc.prems d [of i] by (intro disjI1 exI [of _ i]) auto
  next
    case False
    define acc' where "acc' = acc + lv_qty (v ! i)"
    have c: "cum_from_best q v (Suc i) acc = cum_from_best q v i acc'" using False by (simp add: acc'_def)
    have s: "acc + (\<Sum>l\<leftarrow>drop j (take (Suc i) v). lv_qty l) = acc' + (\<Sum>l\<leftarrow>drop j (take i v). lv_qty l)" if "j \<le> i" for j
      by (simp add: d [OF that] acc'_def)
    have last: "acc' + (\<Sum>l\<leftarrow>drop i (take i v). lv_qty l) < q" using False by (simp add: acc'_def)
    have IH: "(\<exists>k<i. cum_from_best q v i acc' = lv_price (v ! k) \<and> q \<le> acc' + (\<Sum>l\<leftarrow>drop k (take i v). lv_qty l) \<and>
        (\<forall>j. k < j \<and> j < i \<longrightarrow> acc' + (\<Sum>l\<leftarrow>drop j (take i v). lv_qty l) < q)) \<or>
      cum_from_best q v i acc' = 0 \<and> (\<forall>j<i. acc' + (\<Sum>l\<leftarrow>drop j (take i v). lv_qty l) < q)"
      by (rule Suc.IH) (use Suc.prems in simp)
    then show ?thesis
      unfolding c using last s by (elim disjE exE conjE) (metis less_Suc_eq less_imp_le_nat order_refl)+
  qed
qed simp

lemma at_level_sum:
  assumes "worst_first s v" "j < length v"
  shows "(\<Sum>l\<leftarrow>v. if at_or_better s (lv_price l) (lv_price (v ! j)) then lv_qty l else 0) = (\<Sum>l\<leftarrow>drop j v. lv_qty l)"
proof -
  have "(\<Sum>l\<leftarrow>take j v. if at_or_better s (lv_price l) (lv_price (v ! j)) then lv_qty l else 0) = (\<Sum>l\<leftarrow>take j v. 0)"
  proof (intro arg_cong [where f = sum_list] map_cong refl)
    fix l assume "l \<in> set (take j v)"
    then obtain k where k: "k < j" "l = v ! k" using assms(2) by (auto simp: in_set_conv_nth)
    then have "better s (lv_price (v ! j)) (lv_price l)" using sorted_wrt_nth_less [OF assms(1) k(1) assms(2)] by simp
    then show "(if at_or_better s (lv_price l) (lv_price (v ! j)) then lv_qty l else 0) = 0"
      by (simp add: not_better_iff [symmetric])
  qed
  moreover have "(\<Sum>l\<leftarrow>drop j v. if at_or_better s (lv_price l) (lv_price (v ! j)) then lv_qty l else 0) = (\<Sum>l\<leftarrow>drop j v. lv_qty l)"
  proof (intro arg_cong [where f = sum_list] map_cong refl)
    fix l assume "l \<in> set (drop j v)"
    then obtain i where i: "i < length v - j" "l = v ! (j + i)" by (auto simp: in_set_conv_nth)
    then have "at_or_better s (lv_price l) (lv_price (v ! j))"
      using sorted_wrt_nth_less [OF assms(1), of j "j + i"] by (cases i) (auto simp: at_or_better_iff)
    then show "(if at_or_better s (lv_price l) (lv_price (v ! j)) then lv_qty l else 0) = lv_qty l" by simp
  qed
  moreover have "(\<Sum>l\<leftarrow>v. f l) = (\<Sum>l\<leftarrow>take j v. f l) + (\<Sum>l\<leftarrow>drop j v. f l)" for f :: "level \<Rightarrow> int"
    by (metis append_take_drop_id map_append sum_list_append)
  ultimately show ?thesis by simp
qed

section \<open>Properties\<close>

definition sample_level :: "int \<Rightarrow> int \<Rightarrow> level" where
  "sample_level p q = \<lparr>lv_price = p, lv_qty = q\<rparr>"

definition sample_delta :: "8 word \<Rightarrow> level list \<Rightarrow> level list \<Rightarrow> u64 \<Rightarrow> book_delta_msg" where
  "sample_delta flags bids asks u =
     \<lparr>bd_hdr = \<lparr>eh_venue = 0, eh_flags = flags, eh_instrument = 3, eh_exch_ts = 5, eh_recv_ts = 6\<rparr>, bd_len = 128,
      bd_bids = bids, bd_asks = asks, bd_first_update_id = u, bd_last_update_id = u, bd_prev_update_id = u - 1\<rparr>"

definition sample_book :: l2_book where
  "sample_book = apply_delta (sample_delta 4 [sample_level 100 5, sample_level 99 7, sample_level 98 2] [sample_level 101 4] 10) (l2_new 2)"

text \<open>C26: a book that was given a snapshot and then every update of the venue shows nothing the venue's
  book does not hold: every level it shows has the venue's quantity at that price, also after updates
  that were cut and trimmed. While the side is not flagged \<^verbatim>\<open>truncated()\<close> and no update was cut it shows
  every level of the venue. Both sides stay sorted with each price once and within their storage, and the
  crossed timer runs exactly while the book is crossed.\<close>

theorem l2_book_follows_venue:
  assumes "book_follows b m whole"
  shows "(\<forall>p q. qty_on (levels b s) p = Some q \<longrightarrow> q \<noteq> 0 \<and> m s p = q) \<and>
    (\<not> bk_truncated b s \<and> whole s \<longrightarrow> (\<forall>p. m s p \<noteq> 0 \<longrightarrow> qty_on (levels b s) p = Some (m s p))) \<and>
    sorted_wrt (\<lambda>x y. better s (lv_price y) (lv_price x)) (levels b s) \<and> length (levels b s) \<le> bk_depth b + kOwnLevels \<and>
    (bk_crossed_since b \<noteq> 0 \<longleftrightarrow> crossed b)"
  using book_follows_tracks [OF assms] unfolding l2_inv_def side_sound_def side_complete_def by blast

lemma sample_book_levels:
  "levels sample_book Buy = [sample_level 99 7, sample_level 100 5]" "levels sample_book Sell = [sample_level 101 4]"
  "bk_truncated sample_book Buy" "\<not> bk_truncated sample_book Sell" "bk_depth sample_book = 2"
  by code_simp+

lemma sample_delta_simps [simp]:
  "changes (sample_delta f bids asks u) s = (if s = Buy then bids else asks)" "update_time (sample_delta f bids asks u) = 5"
  "is_snapshot (sample_delta f bids asks u) \<longleftrightarrow> f AND 4 \<noteq> 0"
  by (simp_all add: changes_def sample_delta_def is_snapshot_def update_time_def hdr_kSnapshot_def)

lemma sample_book_follows:
  "book_follows sample_book (\<lambda>s. venue_apply (\<lambda>_. 0) (if s = Buy then [sample_level 100 5, sample_level 99 7, sample_level 98 2] else [sample_level 101 4])) (\<lambda>_. True)"
  using follows_snapshot [of "l2_new 2" "sample_delta 4 [sample_level 100 5, sample_level 99 7, sample_level 98 2] [sample_level 101 4] 10"]
  unfolding sample_book_def [symmetric] by (simp add: l2_new_def)

theorem l2_book_follows_venue_witness:
  "venue_apply (\<lambda>_. 0) [sample_level 100 5, sample_level 99 7, sample_level 98 2] 99 = 7 \<and> \<not> crossed sample_book"
proof -
  have q: "qty_on (levels sample_book Buy) 99 = Some 7" by (simp add: sample_book_levels sample_level_def)
  have c: "bk_crossed_since sample_book = 0" by code_simp
  note f = l2_book_follows_venue [OF sample_book_follows, of Buy]
  show ?thesis
    using conjunct1 [OF f, THEN spec, THEN spec, THEN mp, OF q] conjunct2 [OF f, THEN conjunct2, THEN conjunct2, THEN conjunct2] c by simp
qed

text \<open>C28: \<^verbatim>\<open>apply_level\<close>, with its scan of the top levels, its bisection below them and its two ways of
  moving levels, is the plain insertion into a sorted side: the price's level goes, the new one takes its
  place in the order, and when a new level meets a full side the worst one is let go and the side is flagged.
  It reports false exactly when the new level itself is the one let go.\<close>

theorem apply_level_reference:
  assumes "l2_inv b"
  shows "fst (apply_level s p q b) = set_levels s (put_level (bk_depth b) s p q (levels b s))
      (if overflows s p q b then set_truncated s b else b) \<and>
    (snd (apply_level s p q b) \<longleftrightarrow> \<not> (overflows s p q b \<and> (\<forall>l\<in>set (levels b s). better s (lv_price l) p))) \<and>
    l2_inv (fst (apply_level s p q b))"
  using apply_level_eq [OF l2_inv_side [OF assms]] apply_level_report [OF l2_inv_side [OF assms]] apply_level_inv [OF assms] by blast

lemma sample_book_inv: "l2_inv sample_book"
  using book_follows_tracks [OF sample_book_follows] by blast

theorem apply_level_reference_witness:
  "levels (fst (apply_level Buy 101 3 sample_book)) Buy = [sample_level 100 5, sample_level 101 3]"
  using apply_level_reference [OF sample_book_inv, of Buy 101 3] put_level_def [of 2 Buy 101 3]
  by (simp add: sample_book_levels better_def sample_level_def)

text \<open>Loading a snapshot side in one pass gives the same book as applying its levels one by one, for
  every input: sorted either way, unsorted, with empty or repeated levels, and longer than the side is deep.\<close>

theorem snapshot_load_equiv:
  assumes "levels b s = []" and "0 < bk_depth b"
  shows "load_side s xs b = apply_levels s xs b"
  using assms by (rule load_side_levelwise)

theorem snapshot_load_equiv_witness:
  "load_side Sell [sample_level 1 2, sample_level 2 2, sample_level 3 2] (l2_new 2) =
   apply_levels Sell [sample_level 1 2, sample_level 2 2, sample_level 3 2] (l2_new 2)"
  by (rule snapshot_load_equiv) (simp_all add: l2_new_def levels_def)

text \<open>Taking our own quantity out of a side after adding it leaves the book as it was, whether it shared
  a level with the market's or had one of its own, and the book is well formed in between.\<close>

theorem own_quantity_round_trip:
  assumes "l2_inv b" and "add_own s p q b = (c, True, inserted)"
  shows "l2_inv c \<and> remove_own s p q inserted c = b"
  using assms by (rule own_round_trip)

theorem own_quantity_round_trip_witness:
  "remove_own Buy 97 4 True (fst (add_own Buy 97 4 sample_book)) = sample_book"
proof -
  have "snd (add_own Buy 97 4 sample_book) = (True, True)" by code_simp
  then have "add_own Buy 97 4 sample_book = (fst (add_own Buy 97 4 sample_book), True, True)" by (simp add: prod_eq_iff)
  then show ?thesis using own_quantity_round_trip [OF sample_book_inv] by blast
qed

text \<open>\<^verbatim>\<open>qty_at_or_better\<close>, which stops at the first worse level, is the whole quantity at those prices;
  \<^verbatim>\<open>price_for_qty\<close> is the price of the first level from the best at which that quantity reaches the request,
  and zero exactly when the side is too thin; \<^verbatim>\<open>top\<close> lists the best levels, best first.\<close>

theorem depth_queries_exact:
  assumes "l2_inv b"
  shows "let v = levels b s in
    qty_at_or_better b s limit = (\<Sum>l\<leftarrow>v. if at_or_better s (lv_price l) limit then lv_qty l else 0) \<and>
    ((\<exists>k<length v. price_for_qty b s q = lv_price (v ! k) \<and> q \<le> qty_at_or_better b s (lv_price (v ! k)) \<and>
        (\<forall>j. k < j \<and> j < length v \<longrightarrow> qty_at_or_better b s (lv_price (v ! j)) < q)) \<or>
     price_for_qty b s q = 0 \<and> (\<forall>j<length v. qty_at_or_better b s (lv_price (v ! j)) < q)) \<and>
    l2_top n b s = take n (rev v)"
proof -
  let ?v = "levels b s"
  note w = l2_inv_side [OF assms, of s]
  have s: "qty_at_or_better b s (lv_price (?v ! j)) = (\<Sum>l\<leftarrow>drop j ?v. lv_qty l)" if "j < length ?v" for j
    using qty_at_or_better_sum [OF assms] at_level_sum [OF w that] by simp
  have top: "l2_top n b s = take n (rev ?v)"
    unfolding l2_top_def Let_def by (rule nth_equalityI) (simp_all add: rev_nth split: if_splits)
  have price: "(\<exists>k<length ?v. price_for_qty b s q = lv_price (?v ! k) \<and> q \<le> qty_at_or_better b s (lv_price (?v ! k)) \<and>
      (\<forall>j. k < j \<and> j < length ?v \<longrightarrow> qty_at_or_better b s (lv_price (?v ! j)) < q)) \<or>
    price_for_qty b s q = 0 \<and> (\<forall>j<length ?v. qty_at_or_better b s (lv_price (?v ! j)) < q)" (is ?P)
    using cum_from_best_spec [of "length ?v" ?v q 0, OF order_refl, unfolded take_all [OF order_refl] add_0 price_for_qty_def [symmetric]]
  proof (elim disjE exE conjE)
    fix k
    assume "k < length ?v" "price_for_qty b s q = lv_price (?v ! k)" "q \<le> (\<Sum>l\<leftarrow>drop k ?v. lv_qty l)"
      "\<forall>j. k < j \<and> j < length ?v \<longrightarrow> (\<Sum>l\<leftarrow>drop j ?v. lv_qty l) < q"
    then show ?P by (intro disjI1 exI [of _ k]) (simp add: s)
  next
    assume "price_for_qty b s q = 0" "\<forall>j<length ?v. (\<Sum>l\<leftarrow>drop j ?v. lv_qty l) < q"
    then show ?P by (intro disjI2) (simp add: s)
  qed
  show ?thesis
    unfolding Let_def by (intro conjI qty_at_or_better_sum [OF assms] price top)
qed

theorem depth_queries_exact_witness:
  "qty_at_or_better sample_book Buy 99 = 12 \<and> price_for_qty sample_book Buy 6 = 99 \<and>
   l2_top 1 sample_book Buy = [sample_level 100 5]"
  using depth_queries_exact [OF sample_book_inv, of Buy 99 6 1]
  by (simp add: Let_def sample_book_levels sample_level_def at_or_better_def price_for_qty_def)

end
