(* ===== verification/BookFeed.thy ===== *)
theory BookFeed
  imports BookSyncer L2BookProps
begin

unbundle bit_operations_syntax

text \<open>
  The book syncer of BookSyncer against the contract of its sink, and the whole feed: the messages of a venue
  through the syncer into the L2 book. The locale states what a set of venue rules has to guarantee about the
  messages it lets through; it is interpreted for the Binance spot and futures rules. The Bybit rules only ask
  for growing ids and cannot see a lost message, so they have the sink contract only.
\<close>

section \<open>The buffer\<close>

text \<open>Messages lie one after the other in the arena: the offsets grow and stay below the bytes used, which
  stay within the arena.\<close>

definition sy_wf :: "syncer \<Rightarrow> bool" where
  "sy_wf sy \<longleftrightarrow> sorted_wrt (<) (sy_offsets sy) \<and> (\<forall>off\<in>set (sy_offsets sy). off < sy_used sy) \<and>
     sy_used sy \<le> sy_buf_bytes sy \<and> length (sy_offsets sy) \<le> kMaxBuffered"

lemma reset_buffer_simps [simp]:
  "sy_list (reset_buffer sy) = []" "sy_state (reset_buffer sy) = sy_state sy" "sy_prev_u (reset_buffer sy) = sy_prev_u sy"
  "sy_awaiting_first (reset_buffer sy) = sy_awaiting_first sy" "sy_buf_bytes (reset_buffer sy) = sy_buf_bytes sy"
  "sy_resyncs (reset_buffer sy) = sy_resyncs sy" "sy_wf (reset_buffer sy)"
  by (simp_all add: reset_buffer_def sy_list_def sy_wf_def)

lemma sy_fields [simp]:
  "sy_list (sy\<lparr>sy_resyncs := n\<rparr>) = sy_list sy" "sy_list (sy\<lparr>sy_state := st\<rparr>) = sy_list sy"
  "sy_list (sy\<lparr>sy_prev_u := u\<rparr>) = sy_list sy" "sy_list (sy\<lparr>sy_awaiting_first := a\<rparr>) = sy_list sy"
  "sy_wf (sy\<lparr>sy_resyncs := n\<rparr>) = sy_wf sy" "sy_wf (sy\<lparr>sy_state := st\<rparr>) = sy_wf sy"
  "sy_wf (sy\<lparr>sy_prev_u := u\<rparr>) = sy_wf sy" "sy_wf (sy\<lparr>sy_awaiting_first := a\<rparr>) = sy_wf sy"
  by (simp_all add: sy_list_def sy_wf_def)

lemma sy_buffer_list:
  assumes "sy_wf sy" "0 < bd_len d" "sy_buffer d sy = (sy', ok)"
  shows "sy_wf sy' \<and> sy_list sy' = (if ok then sy_list sy @ [d] else sy_list sy) \<and> sy_state sy' = sy_state sy \<and>
    sy_prev_u sy' = sy_prev_u sy \<and> sy_awaiting_first sy' = sy_awaiting_first sy"
proof -
  have "sy_used sy \<notin> set (sy_offsets sy)" using assms(1) by (auto simp: sy_wf_def)
  then have "map ((sy_arena sy)(sy_used sy := d)) (sy_offsets sy) = map (sy_arena sy) (sy_offsets sy)" by (intro map_cong) auto
  then show ?thesis
    using assms by (auto simp: sy_buffer_def sy_wf_def sy_list_def sorted_wrt_append trans_less_add1 split: if_splits)
qed

lemma drop_front_list:
  assumes "sy_wf sy"
  shows "sy_wf (drop_front n sy) \<and> sy_list (drop_front n sy) = drop n (sy_list sy) \<and>
    sy_state (drop_front n sy) = sy_state sy \<and> sy_prev_u (drop_front n sy) = sy_prev_u sy \<and>
    sy_awaiting_first (drop_front n sy) = sy_awaiting_first sy"
proof (cases "n = 0 \<or> n \<ge> length (sy_offsets sy)")
  case True
  then show ?thesis using assms by (auto simp: drop_front_def sy_list_def reset_buffer_def sy_wf_def)
next
  case False
  let ?base = "sy_offsets sy ! n"
  have ge: "?base \<le> off" if "off \<in> set (drop n (sy_offsets sy))" for off
  proof -
    obtain i where i: "i < length (sy_offsets sy) - n" "off = sy_offsets sy ! (n + i)"
      using \<open>off \<in> _\<close> by (auto simp: in_set_conv_nth)
    then show ?thesis
      using assms sorted_wrt_nth_less [of "(<)" "sy_offsets sy" n "n + i"] by (cases i) (auto simp: sy_wf_def intro: less_imp_le)
  qed
  have s: "sorted_wrt (<) (drop n (sy_offsets sy))" using assms by (simp add: sy_wf_def sorted_wrt_drop)
  have "sorted_wrt (<) (map (\<lambda>off. off - ?base) (drop n (sy_offsets sy)))"
    unfolding sorted_wrt_map by (rule sorted_wrt_mono_rel [OF _ s]) (use ge in \<open>auto intro: diff_less_mono\<close>)
  moreover have "off - ?base < sy_used sy - ?base" if "off \<in> set (drop n (sy_offsets sy))" for off
    using ge [OF that] assms in_set_dropD [OF that] by (auto simp: sy_wf_def intro: diff_less_mono)
  moreover have "map (\<lambda>a. sy_arena sy (a - ?base + ?base)) (drop n (sy_offsets sy)) = map (sy_arena sy) (drop n (sy_offsets sy))"
    using ge by (intro map_cong) auto
  ultimately show ?thesis
    using False assms by (auto simp: drop_front_def Let_def sy_list_def sy_wf_def drop_map o_def)
qed

section \<open>What the sink is told\<close>

text \<open>The contract of the sink: a delta is passed on only after a snapshot, the first one by the rule for the
  first delta and each later one by the rule for the next, until a resynchronisation is announced. The state is
  the last update id and whether a delta followed the snapshot; None is no book.\<close>

fun sink_step :: "sync_traits \<Rightarrow> (u64 \<times> bool) option \<Rightarrow> sink_call \<Rightarrow> (u64 \<times> bool) option option" where
  "sink_step tr st (OnSnapshot m) = Some (Some (bd_last_update_id m, True))"
| "sink_step tr None (OnDelta d) = None"
| "sink_step tr (Some (u, fresh)) (OnDelta d) =
     (if (if fresh \<and> tr_buffers_deltas tr then tr_first_applies tr d u else tr_next_applies tr d u)
      then Some (Some (bd_last_update_id d, False)) else None)"
| "sink_step tr st (OnResync r) = Some None"
| "sink_step tr st RequestSnapshot = Some st"

fun sink_run :: "sync_traits \<Rightarrow> (u64 \<times> bool) option \<Rightarrow> sink_call list \<Rightarrow> (u64 \<times> bool) option option" where
  "sink_run tr st [] = Some st"
| "sink_run tr st (c # cs) = (case sink_step tr st c of None \<Rightarrow> None | Some st' \<Rightarrow> sink_run tr st' cs)"

lemma sink_run_append: "sink_run tr st (cs @ ds) = (case sink_run tr st cs of None \<Rightarrow> None | Some st' \<Rightarrow> sink_run tr st' ds)"
  by (induction cs arbitrary: st) (auto split: option.splits)

text \<open>The syncer is in step with the sink: when it is synced the sink has a book, at the same update id and
  with the same rule for the next delta, and the buffer is empty; the buffer holds deltas it was given.\<close>

definition in_step :: "sync_traits \<Rightarrow> (book_delta_msg \<Rightarrow> bool) \<Rightarrow> syncer \<Rightarrow> (u64 \<times> bool) option \<Rightarrow> bool" where
  "in_step tr ok sy st \<longleftrightarrow> sy_wf sy \<and> (\<forall>d\<in>set (sy_list sy). ok d \<and> \<not> is_snapshot d) \<and> sy_state sy \<noteq> SyncResync \<and>
     (\<not> tr_buffers_deltas tr \<longrightarrow> sy_list sy = []) \<and>
     (sy_state sy = SyncSynced \<longrightarrow>
        sy_list sy = [] \<and> (\<exists>fresh. st = Some (sy_prev_u sy, fresh) \<and> (tr_buffers_deltas tr \<longrightarrow> fresh = sy_awaiting_first sy)))"

definition told :: "(book_delta_msg \<Rightarrow> bool) \<Rightarrow> sink_call list \<Rightarrow> bool" where
  "told ok cs \<longleftrightarrow> (\<forall>d. OnDelta d \<in> set cs \<longrightarrow> ok d \<and> \<not> is_snapshot d) \<and> (\<forall>m. OnSnapshot m \<in> set cs \<longrightarrow> ok m \<and> is_snapshot m)"

text \<open>One operation: the calls it makes are ones the contract allows, and it stays in step.\<close>

definition step_ok :: "sync_traits \<Rightarrow> (book_delta_msg \<Rightarrow> bool) \<Rightarrow> (u64 \<times> bool) option \<Rightarrow> syncer \<times> sink_call list \<Rightarrow> bool" where
  "step_ok tr ok st r \<longleftrightarrow> (\<exists>st'. sink_run tr st (snd r) = Some st' \<and> in_step tr ok (fst r) st') \<and> told ok (snd r)"

lemma step_okI: "sink_run tr st cs = Some st' \<Longrightarrow> in_step tr ok sy st' \<Longrightarrow> told ok cs \<Longrightarrow> step_ok tr ok st (sy, cs)"
  by (auto simp: step_ok_def)

lemma told_simps [simp]:
  "told ok []" "told ok (OnResync r # cs) = told ok cs" "told ok (RequestSnapshot # cs) = told ok cs"
  "told ok (OnDelta d # cs) \<longleftrightarrow> ok d \<and> \<not> is_snapshot d \<and> told ok cs" "told ok (cs @ ds) \<longleftrightarrow> told ok cs \<and> told ok ds"
  "told ok (OnSnapshot d # cs) \<longleftrightarrow> ok d \<and> is_snapshot d \<and> told ok cs"
  by (auto simp: told_def)

lemma start_step: "step_ok tr ok st (sy_start tr sy)"
  by (auto simp: sy_start_def step_ok_def in_step_def)

lemma resync_step: "step_ok tr ok st (sy_resync tr r sy)"
  by (simp add: sy_resync_def sy_start_def step_ok_def in_step_def)

lemma sy_resync_buffering: "sy_resync tr r sy = (sy', cs) \<Longrightarrow> sy_state sy' = SyncBuffering \<and> sy_list sy' = [] \<and> sy_wf sy'"
  by (auto simp: sy_resync_def sy_start_def)

lemma resync_keeping_step:
  assumes "ok d" "\<not> is_snapshot d" "0 < bd_len d"
  shows "step_ok tr ok st (resync_keeping tr d sy)"
proof -
  obtain sy1 c1 where r: "sy_resync tr SequenceGap sy = (sy1, c1)" by (cases "sy_resync tr SequenceGap sy")
  note b = sy_resync_buffering [OF r]
  obtain st1 where st1: "sink_run tr st c1 = Some st1" "in_step tr ok sy1 st1" "told ok c1"
    using resync_step [of tr ok st SequenceGap sy] by (auto simp: r step_ok_def)
  show ?thesis
  proof (cases "tr_buffers_deltas tr")
    case False
    then show ?thesis using st1 by (auto simp: resync_keeping_def r intro: step_okI)
  next
    case True
    obtain sy2 bf where bf: "sy_buffer d sy1 = (sy2, bf)" by (cases "sy_buffer d sy1")
    note l = sy_buffer_list [OF _ assms(3) bf]
    show ?thesis
    proof (cases bf)
      case True
      then have "in_step tr ok sy2 st1" using st1(2) l b assms(1,2) \<open>tr_buffers_deltas tr\<close> by (simp add: in_step_def)
      then show ?thesis using st1 True bf b \<open>tr_buffers_deltas tr\<close> by (auto simp: resync_keeping_def r intro: step_okI)
    next
      case False
      then show ?thesis
        using st1 bf b \<open>tr_buffers_deltas tr\<close> resync_step [of tr ok st1 BufferOverflow sy2]
        by (auto simp: resync_keeping_def r step_ok_def sink_run_append split: prod.splits)
    qed
  qed
qed

lemma replay_run:
  assumes "tr_buffers_deltas tr" "sy_replay tr L ds first p = (p', f', passed, ok)" "first \<Longrightarrow> p = L"
  shows "sink_run tr (Some (p, first)) (map OnDelta passed) = Some (Some (p', f')) \<and>
    passed = take (length passed) ds \<and> (ok \<longrightarrow> passed = ds) \<and> (\<not> ok \<longrightarrow> length passed < length ds)"
  using assms(2,3)
proof (induction ds arbitrary: first p p' f' passed ok)
  case (Cons d ds)
  show ?case
  proof (cases "if first then tr_first_applies tr d L else tr_next_applies tr d p")
    case True
    then obtain ps where ps: "sy_replay tr L ds False (bd_last_update_id d) = (p', f', ps, ok)" "passed = d # ps"
      using Cons.prems(1) unfolding sy_replay.simps if_P [OF True]
      by (cases "sy_replay tr L ds False (bd_last_update_id d)") simp
    show ?thesis using Cons.IH [OF ps(1)] ps(2) True Cons.prems(2) assms(1) by auto
  next
    case False
    then show ?thesis using Cons.prems(1) unfolding sy_replay.simps if_not_P [OF False] by simp
  qed
qed simp

lemma on_snapshot_step:
  assumes step: "in_step tr ok sy st" and m: "ok m" "is_snapshot m"
  shows "step_ok tr ok st (sy_on_snapshot tr m sy)"
proof (cases "sy_state sy = SyncIdle")
  case True
  then show ?thesis using step by (auto simp: sy_on_snapshot_def intro: step_okI)
next
  case ni: False
  let ?L = "bd_last_update_id m" and ?ds = "sy_list sy"
  show ?thesis
  proof (cases "tr_buffers_deltas tr")
    case False
    then show ?thesis using ni step m by (auto simp: sy_on_snapshot_def step_ok_def in_step_def)
  next
    case buf: True
    define i where "i = length (takeWhile (\<lambda>d. tr_is_stale tr d ?L) ?ds)"
    have wf: "sy_wf sy" and oks: "\<forall>d\<in>set ?ds. ok d \<and> \<not> is_snapshot d" using step by (simp_all add: in_step_def)
    show ?thesis
    proof (cases "i < length ?ds \<and> \<not> tr_first_applies tr (?ds ! i) ?L")
      case True
      then have ns: "sy_state sy \<noteq> SyncSynced" using step by (auto simp: in_step_def)
      have e: "sy_on_snapshot tr m sy =
          (drop_front i (sy\<lparr>sy_resyncs := sy_resyncs sy + 1\<rparr>), [OnResync SnapshotTooOld, RequestSnapshot])"
        using True ni buf by (simp add: sy_on_snapshot_def Let_def i_def)
      show ?thesis
        using drop_front_list [of "sy\<lparr>sy_resyncs := sy_resyncs sy + 1\<rparr>" i] wf oks ns step
        by (auto simp: e step_ok_def in_step_def dest: in_set_dropD)
    next
      case False
      obtain p f passed good where r: "sy_replay tr ?L (drop i ?ds) True ?L = (p, f, passed, good)"
        by (cases "sy_replay tr ?L (drop i ?ds) True ?L")
      note run = replay_run [OF buf r refl]
      have told: "told ok (OnSnapshot m # map OnDelta passed)"
      proof -
        have "set passed \<subseteq> set ?ds" using run by (metis set_drop_subset set_take_subset subset_trans)
        then show ?thesis using oks m by (auto simp: told_def)
      qed
      have sr: "sink_run tr st (OnSnapshot m # map OnDelta passed) = Some (Some (p, f))" using run by simp
      show ?thesis
      proof (cases good)
        case True
        then have "sy_on_snapshot tr m sy = (reset_buffer (sy\<lparr>sy_prev_u := p, sy_state := SyncSynced, sy_awaiting_first := f\<rparr>),
            OnSnapshot m # map OnDelta passed)"
          using False ni buf r by (simp add: sy_on_snapshot_def Let_def i_def [symmetric])
        then show ?thesis using sr told by (auto simp: in_step_def intro!: step_okI)
      next
        case bad: False
        then have e: "sy_on_snapshot tr m sy = ((drop_front (i + length passed) sy)
              \<lparr>sy_prev_u := p, sy_resyncs := sy_resyncs sy + 1, sy_awaiting_first := False, sy_state := SyncBuffering\<rparr>,
            OnSnapshot m # map OnDelta passed @ [OnResync SequenceGap, RequestSnapshot])"
          using False ni buf r by (simp add: sy_on_snapshot_def Let_def i_def [symmetric])
        have "sink_run tr st ((OnSnapshot m # map OnDelta passed) @ [OnResync SequenceGap, RequestSnapshot]) = Some None"
          unfolding sink_run_append sr by simp
        then show ?thesis
          using told drop_front_list [OF wf, of "i + length passed"] oks unfolding e
          by (intro step_okI [where st' = None]) (auto simp: in_step_def buf dest: in_set_dropD)
      qed
    qed
  qed
qed

lemma on_delta_step:
  assumes step: "in_step tr ok sy st" and d: "ok d" "0 < bd_len d"
  shows "step_ok tr ok st (sy_on_delta tr d sy)"
proof (cases "is_snapshot d")
  case True
  then show ?thesis using on_snapshot_step [OF step d(1)] by (simp add: sy_on_delta_def)
next
  case ns: False
  have quiet: "step_ok tr ok st (sy, [])" using step by (auto intro: step_okI)
  have keeping: "step_ok tr ok st (resync_keeping tr d sy)" using resync_keeping_step [of ok d] d ns by blast
  show ?thesis
  proof (cases "tr_is_snapshot_marker tr d")
    case True
    then show ?thesis using ns by (simp add: sy_on_delta_def resync_step)
  next
    case nm: False
    show ?thesis
    proof (cases "sy_state sy")
      case SyncBuffering
      obtain sy' bf where bf: "sy_buffer d sy = (sy', bf)" by (cases "sy_buffer d sy")
      have wf: "sy_wf sy" using step by (simp add: in_step_def)
      have "in_step tr ok sy' st" if bf "tr_buffers_deltas tr"
        using that step sy_buffer_list [OF wf d(2) bf] SyncBuffering d(1) ns by (auto simp: in_step_def)
      then have "step_ok tr ok st (sy', [])" if bf "tr_buffers_deltas tr" using that by (auto intro: step_okI)
      then show ?thesis using ns nm quiet by (simp add: sy_on_delta_def SyncBuffering bf resync_step)
    next
      case SyncSynced
      then obtain fresh where f: "sy_list sy = []" "st = Some (sy_prev_u sy, fresh)"
        "tr_buffers_deltas tr \<longrightarrow> fresh = sy_awaiting_first sy" and wf: "sy_wf sy" using step by (auto simp: in_step_def)
      have pass: "step_ok tr ok st (sy\<lparr>sy_awaiting_first := a, sy_prev_u := bd_last_update_id d\<rparr>, [OnDelta d])"
        if "tr_buffers_deltas tr \<longrightarrow> \<not> a"
          "if fresh \<and> tr_buffers_deltas tr then tr_first_applies tr d (sy_prev_u sy) else tr_next_applies tr d (sy_prev_u sy)" for a
        using that SyncSynced f wf d(1) ns by (intro step_okI [where st' = "Some (bd_last_update_id d, False)"]) (auto simp: in_step_def)
      show ?thesis
      proof (cases "tr_buffers_deltas tr \<and> sy_awaiting_first sy")
        case True
        then show ?thesis
          using ns nm quiet keeping pass [of False] f(3) by (simp add: sy_on_delta_def SyncSynced)
      next
        case False
        have "sy\<lparr>sy_awaiting_first := sy_awaiting_first sy, sy_prev_u := bd_last_update_id d\<rparr> = sy\<lparr>sy_prev_u := bd_last_update_id d\<rparr>" by simp
        then show ?thesis
          using False ns nm quiet keeping pass [of "sy_awaiting_first sy"] f(3) by (auto simp: sy_on_delta_def SyncSynced)
      qed
    qed (use ns nm quiet step in \<open>simp_all add: sy_on_delta_def in_step_def\<close>)
  qed
qed

text \<open>Any sequence of calls on a new syncer, with what the sink was told. \<open>ok\<close> is what is known of the
  messages the venue sends.\<close>

inductive sync_run :: "sync_traits \<Rightarrow> (book_delta_msg \<Rightarrow> bool) \<Rightarrow> syncer \<Rightarrow> sink_call list \<Rightarrow> bool" for tr ok where
  run_new: "sync_run tr ok (syncer_new tr n) []"
| run_start: "sync_run tr ok sy cs \<Longrightarrow> sy_start tr sy = (sy', ds) \<Longrightarrow> sync_run tr ok sy' (cs @ ds)"
| run_resync: "sync_run tr ok sy cs \<Longrightarrow> sy_resync tr r sy = (sy', ds) \<Longrightarrow> sync_run tr ok sy' (cs @ ds)"
| run_delta: "sync_run tr ok sy cs \<Longrightarrow> ok d \<Longrightarrow> 0 < bd_len d \<Longrightarrow> sy_on_delta tr d sy = (sy', ds) \<Longrightarrow> sync_run tr ok sy' (cs @ ds)"
| run_snapshot: "sync_run tr ok sy cs \<Longrightarrow> ok m \<Longrightarrow> is_snapshot m \<Longrightarrow> sy_on_snapshot tr m sy = (sy', ds) \<Longrightarrow> sync_run tr ok sy' (cs @ ds)"

lemma run_extend:
  assumes "sink_run tr None cs = Some st" "told ok cs" "step_ok tr ok st (sy', ds)"
  shows "\<exists>st'. sink_run tr None (cs @ ds) = Some st' \<and> in_step tr ok sy' st' \<and> told ok (cs @ ds)"
  using assms by (auto simp: step_ok_def sink_run_append)

lemma sync_run_in_step:
  "sync_run tr ok sy cs \<Longrightarrow> \<exists>st. sink_run tr None cs = Some st \<and> in_step tr ok sy st \<and> told ok cs"
proof (induction rule: sync_run.induct)
  case (run_new n)
  then show ?case by (auto simp: syncer_new_def in_step_def sy_list_def sy_wf_def)
next
  case (run_start sy cs sy' ds)
  then obtain st where st: "sink_run tr None cs = Some st" "told ok cs" by blast
  show ?case using run_extend [OF st] start_step [of tr ok st sy] run_start.hyps(2) by simp
next
  case (run_resync sy cs r sy' ds)
  then obtain st where st: "sink_run tr None cs = Some st" "told ok cs" by blast
  show ?case using run_extend [OF st] resync_step [of tr ok st r sy] run_resync.hyps(2) by simp
next
  case (run_delta sy cs d sy' ds)
  then obtain st where st: "sink_run tr None cs = Some st" "in_step tr ok sy st" "told ok cs" by blast
  show ?case using run_extend [OF st(1,3)] on_delta_step [OF st(2) run_delta.hyps(2,3)] run_delta.hyps(4) by simp
next
  case (run_snapshot sy cs m sy' ds)
  then obtain st where st: "sink_run tr None cs = Some st" "in_step tr ok sy st" "told ok cs" by blast
  show ?case using run_extend [OF st(1,3)] on_snapshot_step [OF st(2) run_snapshot.hyps(2,3)] run_snapshot.hyps(4) by simp
qed

section \<open>Replaying what the sink was told\<close>

text \<open>The book the calls describe, as a mapping, and the L2 book they are applied to.\<close>

fun told_map :: "sink_call \<Rightarrow> (side \<Rightarrow> price \<Rightarrow> qty) \<Rightarrow> side \<Rightarrow> price \<Rightarrow> qty" where
  "told_map (OnSnapshot m) book = (\<lambda>s. venue_apply (\<lambda>_. 0) (changes m s))"
| "told_map (OnDelta d) book = (\<lambda>s. venue_apply (book s) (changes d s))"
| "told_map _ book = book"

fun told_book :: "sink_call \<Rightarrow> l2_book \<Rightarrow> l2_book" where
  "told_book (OnSnapshot m) b = apply_delta m b"
| "told_book (OnDelta d) b = apply_delta d b"
| "told_book _ b = b"

text \<open>An update with a time and with all its changes in it.\<close>

definition whole_update :: "book_delta_msg \<Rightarrow> bool" where
  "whole_update d \<longleftrightarrow> update_time d \<noteq> 0 \<and> \<not> cut d Buy \<and> \<not> cut d Sell"

lemma apply_level_depth [simp]: "bk_depth (fst (apply_level s p q b)) = bk_depth b"
  by (simp add: apply_level_def apply_level_old_def Let_def split: prod.splits)

lemma apply_levels_depth [simp]: "bk_depth (apply_levels s ls b) = bk_depth b"
  by (induction ls arbitrary: b) simp_all

lemma load_side_depth [simp]: "bk_depth (load_side s xs b) = bk_depth b"
  by (simp add: load_side_def Let_def)

lemma trim_behind_depth [simp]: "bk_depth (trim_behind s ls b) = bk_depth b"
  by (simp add: trim_behind_def Let_def)

lemma apply_delta_depth [simp]: "bk_depth (apply_delta d b) = bk_depth b"
  by (simp add: apply_delta_def apply_snapshot_def trim_truncated_def Let_def)

lemma told_book_follows:
  assumes "sink_run tr st cs = Some st'" "told (\<lambda>d. sent d \<and> whole_update d) cs" "0 < bk_depth b"
    and "st \<noteq> None \<Longrightarrow> book_follows b book (\<lambda>_. True)" and "st' \<noteq> None"
  shows "book_follows (fold told_book cs b) (fold told_map cs book) (\<lambda>_. True)"
  using assms(1-4)
proof (induction cs arbitrary: st b book)
  case Nil
  then show ?case using assms(5) by simp
next
  case (Cons c cs)
  obtain st1 where st1: "sink_step tr st c = Some st1" "sink_run tr st1 cs = Some st'"
    using Cons.prems(1) by (auto split: option.splits)
  have told: "told (\<lambda>d. sent d \<and> whole_update d) cs" using Cons.prems(2) by (simp add: told_def)
  have next_state: "book_follows (told_book c b) (told_map c book) (\<lambda>_. True)" if "st1 \<noteq> None"
  proof (cases c)
    case (OnSnapshot m)
    then show ?thesis using follows_snapshot [of b m] Cons.prems(2,3) by (simp add: whole_update_def)
  next
    case (OnDelta d)
    then have "st \<noteq> None" "\<not> is_snapshot d" "whole_update d" using st1(1) Cons.prems(2) by (cases st; simp)+
    then show ?thesis
      using OnDelta follows_delta [OF Cons.prems(4), of d "\<lambda>_. []"] by (simp add: whole_update_def)
  next
    case (OnResync r)
    then show ?thesis using st1(1) that by simp
  next
    case RequestSnapshot
    then show ?thesis using st1(1) that Cons.prems(4) by simp
  qed
  moreover have "0 < bk_depth (told_book c b)" using Cons.prems(3) by (cases c) simp_all
  ultimately show ?case using Cons.IH [OF st1(2) told] by simp
qed

section \<open>Rules that catch every gap\<close>

text \<open>\<open>V n\<close> is the venue's book after update \<open>n\<close>. A message advances the book at \<open>n\<close> when applying it there
  gives the book at the message's last id.\<close>

definition advances :: "(nat \<Rightarrow> side \<Rightarrow> price \<Rightarrow> qty) \<Rightarrow> book_delta_msg \<Rightarrow> nat \<Rightarrow> bool" where
  "advances V d n \<longleftrightarrow> (\<forall>s. venue_apply (V n s) (changes d s) = V (unat (bd_last_update_id d)) s)"

definition snapshot_of :: "(nat \<Rightarrow> side \<Rightarrow> price \<Rightarrow> qty) \<Rightarrow> book_delta_msg \<Rightarrow> bool" where
  "snapshot_of V m \<longleftrightarrow> (\<forall>s. venue_apply (\<lambda>_. 0) (changes m s) = V (unat (bd_last_update_id m)) s)"

text \<open>Rules for a venue whose messages \<open>sent V\<close> describes: a delta the rules let through advances the book.\<close>

locale sync_rules =
  fixes tr :: sync_traits and sent :: "(nat \<Rightarrow> side \<Rightarrow> price \<Rightarrow> qty) \<Rightarrow> book_delta_msg \<Rightarrow> bool"
  assumes buffers: "tr_buffers_deltas tr"
    and sent_snapshot: "sent V d \<Longrightarrow> is_snapshot d \<Longrightarrow> snapshot_of V d"
    and first_advances: "sent V d \<Longrightarrow> \<not> is_snapshot d \<Longrightarrow> tr_first_applies tr d u \<Longrightarrow> advances V d (unat u)"
    and next_advances: "sent V d \<Longrightarrow> \<not> is_snapshot d \<Longrightarrow> tr_next_applies tr d u \<Longrightarrow> advances V d (unat u)"
begin

lemma told_map_is_venue:
  assumes "sink_run tr st cs = Some (Some (u', f'))" "told (\<lambda>d. sent V d \<and> ok d) cs" "\<And>u f. st = Some (u, f) \<Longrightarrow> book = V (unat u)"
  shows "fold told_map cs book = V (unat u')"
  using assms
proof (induction cs arbitrary: st book)
  case (Cons c cs)
  obtain st1 where st1: "sink_step tr st c = Some st1" "sink_run tr st1 cs = Some (Some (u', f'))"
    using Cons.prems(1) by (auto split: option.splits)
  have told: "told (\<lambda>d. sent V d \<and> ok d) cs" using Cons.prems(2) by (simp add: told_def)
  have "told_map c book = V (unat u)" if "st1 = Some (u, f)" for u f
  proof (cases c)
    case (OnSnapshot m)
    then have "snapshot_of V m" using Cons.prems(2) sent_snapshot by simp
    then show ?thesis using OnSnapshot st1(1) that by (auto simp: snapshot_of_def)
  next
    case (OnDelta d)
    then obtain u0 f0 where s: "st = Some (u0, f0)" using st1(1) by (cases st) auto
    have d: "sent V d" "\<not> is_snapshot d" using Cons.prems(2) OnDelta by simp_all
    have "advances V d (unat u0)"
      using st1(1) OnDelta s d first_advances next_advances by (auto split: if_splits)
    then show ?thesis using OnDelta s st1(1) that Cons.prems(3) [OF s] by (auto simp: advances_def split: if_splits)
  next
    case (OnResync r)
    then show ?thesis using st1(1) that by simp
  next
    case RequestSnapshot
    then show ?thesis using st1(1) that Cons.prems(3) by simp
  qed
  then show ?case using Cons.IH [OF st1(2) told] by simp
qed simp

lemma feed_book_exact:
  assumes "sync_run tr (\<lambda>d. sent V d \<and> whole_update d) sy cs" "sy_state sy = SyncSynced" "0 < D"
  shows "(\<forall>p q. qty_on (levels (fold told_book cs (l2_new D)) s) p = Some q \<longrightarrow> q \<noteq> 0 \<and> V (unat (sy_prev_u sy)) s p = q) \<and>
    (\<not> bk_truncated (fold told_book cs (l2_new D)) s \<longrightarrow>
       (\<forall>p. V (unat (sy_prev_u sy)) s p \<noteq> 0 \<longrightarrow>
          qty_on (levels (fold told_book cs (l2_new D)) s) p = Some (V (unat (sy_prev_u sy)) s p)))"
proof -
  let ?ok = "\<lambda>d. sent V d \<and> whole_update d" and ?b = "fold told_book cs (l2_new D)" and ?m = "fold told_map cs (\<lambda>_ _. 0)"
  obtain st where st: "sink_run tr None cs = Some st" "in_step tr ?ok sy st" "told ?ok cs" using sync_run_in_step [OF assms(1)] by blast
  obtain f where f: "st = Some (sy_prev_u sy, f)" using st(2) assms(2) by (auto simp: in_step_def)
  have b: "book_follows ?b ?m (\<lambda>_. True)"
    by (rule told_book_follows [OF st(1,3)]) (simp_all add: assms(3) f l2_new_def)
  have m: "?m = V (unat (sy_prev_u sy))" by (rule told_map_is_venue [OF st(1) [unfolded f] st(3)]) simp
  show ?thesis using book_follows_tracks [OF b] unfolding m side_sound_def side_complete_def by blast
qed

end

text \<open>Binance spot: a delta carries the absolute quantity of every price that changed in updates \<open>U\<close> to \<open>u\<close>, so
  it advances the book at every id from \<open>U - 1\<close> to \<open>u\<close>.\<close>

definition spot_sent :: "(nat \<Rightarrow> side \<Rightarrow> price \<Rightarrow> qty) \<Rightarrow> book_delta_msg \<Rightarrow> bool" where
  "spot_sent V d \<longleftrightarrow>
     (if is_snapshot d then snapshot_of V d
      else 0 < bd_first_update_id d \<and> bd_first_update_id d \<le> bd_last_update_id d \<and>
        (\<forall>n. unat (bd_first_update_id d) \<le> n + 1 \<and> n \<le> unat (bd_last_update_id d) \<longrightarrow> advances V d n))"

text \<open>Binance futures: ids have holes, so a delta names the last id of the one before it, \<open>pu\<close>: it advances the
  book there and at every id from \<open>U\<close> to \<open>u\<close>.\<close>

definition futures_sent :: "(nat \<Rightarrow> side \<Rightarrow> price \<Rightarrow> qty) \<Rightarrow> book_delta_msg \<Rightarrow> bool" where
  "futures_sent V d \<longleftrightarrow>
     (if is_snapshot d then snapshot_of V d
      else advances V d (unat (bd_prev_update_id d)) \<and>
        (\<forall>n. unat (bd_first_update_id d) \<le> n \<and> n \<le> unat (bd_last_update_id d) \<longrightarrow> advances V d n))"

lemma spot_window:
  fixes U L u :: u64
  assumes "0 < U" "U \<le> L + 1" "L + 1 \<le> u"
  shows "unat U \<le> unat L + 1 \<and> unat L \<le> unat u"
proof -
  have "1 + L \<noteq> 0" using assms by (auto simp: add.commute)
  then have "unat (L + 1) = unat L + 1" using unatSuc [of L] by (simp add: add.commute)
  then show ?thesis using assms by (simp add: word_le_nat_alt)
qed

interpretation spot: sync_rules binance_spot spot_sent
proof
  fix V d u
  assume d: "spot_sent V d" "\<not> is_snapshot d" and f: "tr_first_applies binance_spot d u"
  then show "advances V d (unat u)"
    using spot_window [of "bd_first_update_id d" u "bd_last_update_id d"] by (simp add: spot_sent_def binance_spot_def)
next
  fix V d u
  assume d: "spot_sent V d" "\<not> is_snapshot d" and n: "tr_next_applies binance_spot d u"
  then show "advances V d (unat u)"
    using spot_window [of "bd_first_update_id d" u "bd_last_update_id d"] by (simp add: spot_sent_def binance_spot_def)
qed (simp_all add: binance_spot_def spot_sent_def)

interpretation futures: sync_rules binance_futures futures_sent
  by unfold_locales (auto simp: binance_futures_def futures_sent_def word_le_nat_alt)

section \<open>Properties\<close>

text \<open>Whatever the stream and the snapshots bring, and for all three sets of venue rules, the syncer tells
  its sink about a delta only when a snapshot came before it and the delta follows what the sink last saw by the
  venue's rule; a gap is announced before anything else. When it says it is synced the sink's book is at the
  update id it reports. Its buffer stays within its bytes and its number of messages.\<close>

theorem syncer_no_gap:
  assumes "sync_run tr ok sy cs"
  shows "(\<exists>st. sink_run tr None cs = Some st \<and>
      (sy_state sy = SyncSynced \<longrightarrow> (\<exists>fresh. st = Some (sy_prev_u sy, fresh)))) \<and>
    sy_state sy \<noteq> SyncResync \<and> length (sy_offsets sy) \<le> kMaxBuffered \<and> sy_used sy \<le> sy_buf_bytes sy"
  using sync_run_in_step [OF assms] by (auto simp: in_step_def sy_wf_def)

text \<open>A venue whose best bid is at 100 with the update id as its quantity.\<close>

definition counting_venue :: "nat \<Rightarrow> side \<Rightarrow> price \<Rightarrow> qty" where
  "counting_venue n s p = (if s = Buy \<and> p = 100 then int n else 0)"

definition counting_msg :: "8 word \<Rightarrow> u64 \<Rightarrow> u64 \<Rightarrow> book_delta_msg" where
  "counting_msg flags U u = (sample_delta flags [sample_level 100 (uint u)] [] u)\<lparr>bd_first_update_id := U, bd_prev_update_id := U - 1\<rparr>"

definition counting_run :: "sync_traits \<Rightarrow> syncer \<times> sink_call list" where
  "counting_run tr =
     (let (s1, c1) = sy_start tr (syncer_new tr 1024); (s2, c2) = sy_on_delta tr (counting_msg 0 3 7) s1;
          (s3, c3) = sy_on_snapshot tr (counting_msg 4 5 5) s2; (s4, c4) = sy_on_delta tr (counting_msg 0 8 9) s3
      in (s4, c1 @ c2 @ c3 @ c4))"

lemma counting_msg_simps [simp]:
  "is_snapshot (counting_msg f U u) \<longleftrightarrow> f AND 4 \<noteq> 0" "bd_len (counting_msg f U u) = 128"
  "bd_first_update_id (counting_msg f U u) = U" "bd_last_update_id (counting_msg f U u) = u"
  "bd_prev_update_id (counting_msg f U u) = U - 1"
  "changes (counting_msg f U u) s = (if s = Buy then [sample_level 100 (uint u)] else [])"
  by (simp_all add: counting_msg_def is_snapshot_def changes_def sample_delta_def hdr_kSnapshot_def)

lemma counting_advances: "advances counting_venue (counting_msg f U u) n"
  by (auto simp: advances_def counting_venue_def sample_level_def fun_eq_iff)

lemma counting_snapshot: "snapshot_of counting_venue (counting_msg f U u)"
  by (auto simp: snapshot_of_def counting_venue_def sample_level_def fun_eq_iff)

lemma counting_whole: "f = 0 \<or> f = 4 \<Longrightarrow> whole_update (counting_msg f U u)"
  by (auto simp: whole_update_def cut_def counting_msg_def sample_delta_def update_time_def kTruncatedBids_def kTruncatedAsks_def)

lemma counting_run_runs:
  assumes "\<And>f U u. f = 0 \<or> f = 4 \<Longrightarrow> 0 < U \<Longrightarrow> U \<le> u \<Longrightarrow> ok (counting_msg f U u)"
  shows "sync_run tr ok (fst (counting_run tr)) (snd (counting_run tr))"
proof -
  obtain s1 c1 where 1: "sy_start tr (syncer_new tr 1024) = (s1, c1)" by (cases "sy_start tr (syncer_new tr 1024)")
  obtain s2 c2 where 2: "sy_on_delta tr (counting_msg 0 3 7) s1 = (s2, c2)" by (cases "sy_on_delta tr (counting_msg 0 3 7) s1")
  obtain s3 c3 where 3: "sy_on_snapshot tr (counting_msg 4 5 5) s2 = (s3, c3)" by (cases "sy_on_snapshot tr (counting_msg 4 5 5) s2")
  obtain s4 c4 where 4: "sy_on_delta tr (counting_msg 0 8 9) s3 = (s4, c4)" by (cases "sy_on_delta tr (counting_msg 0 8 9) s3")
  have "sync_run tr ok s4 (((([] @ c1) @ c2) @ c3) @ c4)"
    by (rule run_delta [OF run_snapshot [OF run_delta [OF run_start [OF run_new 1] _ _ 2] _ _ 3] _ _ 4]) (simp_all add: assms)
  then show ?thesis by (simp add: counting_run_def 1 2 3 4)
qed

lemma counting_synced:
  "sy_state (fst (counting_run binance_spot)) = SyncSynced" "sy_prev_u (fst (counting_run binance_spot)) = 9"
  "sy_state (fst (counting_run binance_futures)) = SyncSynced" "sy_prev_u (fst (counting_run binance_futures)) = 9"
  by code_simp+

theorem syncer_no_gap_witness:
  "\<exists>fresh. sink_run binance_spot None (snd (counting_run binance_spot)) = Some (Some (9, fresh))"
  using syncer_no_gap [OF counting_run_runs [of "\<lambda>_. True" binance_spot]] counting_synced(1,2) by auto

text \<open>C8: from the wire to the book, Binance spot. If every snapshot is the venue's book at its id and every
  delta carries what changed in the updates from \<open>U\<close> to \<open>u\<close>, then whatever was lost, repeated or reordered
  on the way, whenever the syncer is synced the L2 book its sink feeds holds the venue's quantities at the id
  the syncer reports: every level shown is right, and while the side is not truncated none is missing.\<close>

theorem spot_feed_exact:
  assumes "sync_run binance_spot (\<lambda>d. spot_sent V d \<and> whole_update d) sy cs" and "sy_state sy = SyncSynced" and "0 < D"
  shows "(\<forall>p q. qty_on (levels (fold told_book cs (l2_new D)) s) p = Some q \<longrightarrow> q \<noteq> 0 \<and> V (unat (sy_prev_u sy)) s p = q) \<and>
    (\<not> bk_truncated (fold told_book cs (l2_new D)) s \<longrightarrow>
       (\<forall>p. V (unat (sy_prev_u sy)) s p \<noteq> 0 \<longrightarrow>
          qty_on (levels (fold told_book cs (l2_new D)) s) p = Some (V (unat (sy_prev_u sy)) s p)))"
  using assms by (rule spot.feed_book_exact)

lemma counting_spot: "f = 0 \<or> f = 4 \<Longrightarrow> 0 < U \<Longrightarrow> U \<le> u \<Longrightarrow> spot_sent counting_venue (counting_msg f U u)"
  by (auto simp: spot_sent_def counting_advances counting_snapshot)

theorem spot_feed_exact_witness:
  "qty_on (levels (fold told_book (snd (counting_run binance_spot)) (l2_new 2)) Buy) 100 = Some 9"
proof -
  have r: "sync_run binance_spot (\<lambda>d. spot_sent counting_venue d \<and> whole_update d) (fst (counting_run binance_spot)) (snd (counting_run binance_spot))"
    by (rule counting_run_runs) (simp add: counting_spot counting_whole)
  have t: "\<not> bk_truncated (fold told_book (snd (counting_run binance_spot)) (l2_new 2)) Buy" by code_simp
  note f = spot_feed_exact [OF r counting_synced(1), of 2 Buy]
  show ?thesis
    using f [THEN conjunct2, THEN mp, OF _ t, THEN spec, of 100] by (simp add: counting_synced(2) counting_venue_def)
qed

text \<open>The same for Binance futures, whose ids have holes and whose deltas name the one before them.\<close>

theorem futures_feed_exact:
  assumes "sync_run binance_futures (\<lambda>d. futures_sent V d \<and> whole_update d) sy cs" and "sy_state sy = SyncSynced" and "0 < D"
  shows "(\<forall>p q. qty_on (levels (fold told_book cs (l2_new D)) s) p = Some q \<longrightarrow> q \<noteq> 0 \<and> V (unat (sy_prev_u sy)) s p = q) \<and>
    (\<not> bk_truncated (fold told_book cs (l2_new D)) s \<longrightarrow>
       (\<forall>p. V (unat (sy_prev_u sy)) s p \<noteq> 0 \<longrightarrow>
          qty_on (levels (fold told_book cs (l2_new D)) s) p = Some (V (unat (sy_prev_u sy)) s p)))"
  using assms by (rule futures.feed_book_exact)

lemma counting_futures: "f = 0 \<or> f = 4 \<Longrightarrow> futures_sent counting_venue (counting_msg f U u)"
  by (auto simp: futures_sent_def counting_advances counting_snapshot)

theorem futures_feed_exact_witness:
  "qty_on (levels (fold told_book (snd (counting_run binance_futures)) (l2_new 2)) Buy) 100 = Some 9"
proof -
  have r: "sync_run binance_futures (\<lambda>d. futures_sent counting_venue d \<and> whole_update d) (fst (counting_run binance_futures)) (snd (counting_run binance_futures))"
    by (rule counting_run_runs) (simp add: counting_futures counting_whole)
  have t: "\<not> bk_truncated (fold told_book (snd (counting_run binance_futures)) (l2_new 2)) Buy" by code_simp
  note f = futures_feed_exact [OF r counting_synced(3), of 2 Buy]
  show ?thesis
    using f [THEN conjunct2, THEN mp, OF _ t, THEN spec, of 100] by (simp add: counting_synced(4) counting_venue_def)
qed

end
