(* ===== verification/OpenQty.thy ===== *)
theory OpenQty
  imports OmsProps
begin

unbundle bit_operations_syntax

text \<open>
  What each operation of the order manager does to the open quantity per instrument and side that the risk checks read: every
  message takes out of it at least what its update reports as filled, on the side of its order, and only a new order and the
  acknowledgement of a replace can add to it.
\<close>

section \<open>What a message does to the open quantity\<close>

lemma open_qty_basic [simp]:
  "om_open_qty (upd_order h f s) = om_open_qty s" "om_open_qty (upd_stats g s) = om_open_qty s" "om_open_qty (upd_times h ft s) = om_open_qty s"
  "om_open_qty (upd_estimate h fe s) = om_open_qty s" "om_open_qty (set_best_own i sd p s) = om_open_qty s"
  "om_open_qty (upd_terminal k fr s) = om_open_qty s" "om_open_qty (drop_open c s) = om_open_qty s" "om_open_qty (drop_pending od s) = om_open_qty s"
  "om_open_qty (clear_pending h s) = om_open_qty s" "om_open_qty (set_ack_times h am s) = om_open_qty s"
  "om_open_qty (note_synthetic h q px s) = om_open_qty s"
  by (auto simp: upd_order_def upd_stats_def upd_times_def upd_estimate_def set_best_own_def upd_terminal_def drop_open_def
      drop_pending_def clear_pending_def set_ack_times_def note_synthetic_def Let_def split: option.splits)

lemma open_qty_add: "om_open_qty (add_open_qty i sd d s) j sd' = om_open_qty s j sd' + (if j = i \<and> sd' = sd then d else 0)"
  by (simp add: add_open_qty_def)

lemma open_qty_pairs:
  "om_open_qty (fst (take_synthetic h cid q su)) = om_open_qty (fst su)" "om_open_qty (fst (late_fill m su)) = om_open_qty (fst su)"
  "om_open_qty (fst (fill_covered m h su)) = om_open_qty (fst su)" "om_open_qty (fst (remember_exec m s)) = om_open_qty s"
proof -
  show t: "om_open_qty (fst (take_synthetic h cid q su)) = om_open_qty (fst su)" for h cid q su
    by (auto simp: take_synthetic_def Let_def split: prod.splits option.splits)
  show "om_open_qty (fst (fill_covered m h su)) = om_open_qty (fst su)"
    by (cases su) (simp add: fill_covered_def Let_def t)
qed (auto simp: late_fill_def remember_exec_def Let_def split: prod.splits option.splits)

lemma open_qty_total: "oms_inv s \<Longrightarrow> om_open_qty s i sd = (\<Sum>h\<in>live s. open_leaves i sd (order_at s h))"
  by (simp add: oms_inv_def oms_counts_def total_def)

lemma leaves_nonneg: "oms_inv s \<Longrightarrow> h \<in> live s \<Longrightarrow> 0 \<le> open_leaves i sd (order_at s h)"
  using live_ok [of s h] by (simp add: open_leaves_def leaves_qty_def order_ok_def)

lemma open_qty_nonneg: "oms_inv s \<Longrightarrow> 0 \<le> om_open_qty s i sd"
  using leaves_nonneg by (simp add: open_qty_total sum_nonneg)

lemma open_qty_gone:
  assumes "oms_inv s" "oms_inv s'" "h \<in> live s" "live s' = live s - {h}" "\<And>g. g \<noteq> h \<Longrightarrow> order_at s' g = order_at s g"
  shows "om_open_qty s' i sd = om_open_qty s i sd - open_leaves i sd (order_at s h)"
proof -
  have "(\<Sum>g\<in>live s - {h}. open_leaves i sd (order_at s' g)) = (\<Sum>g\<in>live s - {h}. open_leaves i sd (order_at s g))"
    using assms(5) by (intro sum.cong) auto
  then show ?thesis using assms by (simp add: open_qty_total sum_remove_int)
qed

lemma open_qty_changed:
  assumes "oms_inv s" "oms_inv s'" "h \<in> live s" "live s' = live s" "\<And>g. g \<noteq> h \<Longrightarrow> order_at s' g = order_at s g"
  shows "om_open_qty s' i sd = om_open_qty s i sd - open_leaves i sd (order_at s h) + open_leaves i sd (order_at s' h)"
proof -
  have "order_at s' = (order_at s)(h := order_at s' h)" using assms(5) by (auto simp: fun_eq_iff)
  then have "(\<Sum>g\<in>live s. open_leaves i sd (order_at s' g)) = (\<Sum>g\<in>live s. open_leaves i sd (((order_at s)(h := order_at s' h)) g))" by simp
  then show ?thesis using assms total_upd [of "live s" h "open_leaves i sd" "order_at s" "order_at s' h"] by (simp add: open_qty_total)
qed

lemma open_qty_same:
  "oms_inv s \<Longrightarrow> oms_inv s' \<Longrightarrow> live s' = live s \<Longrightarrow> order_at s' = order_at s \<Longrightarrow> om_open_qty s' = om_open_qty s"
  by (simp add: fun_eq_iff open_qty_total)

text \<open>At least \<open>d\<close> less of one instrument and side, and no more of any other.\<close>

definition less_by :: "instrument_id \<Rightarrow> side \<Rightarrow> qty \<Rightarrow> oms \<Rightarrow> oms \<Rightarrow> bool" where
  "less_by i sd d s s' \<longleftrightarrow> 0 \<le> d \<and> (\<forall>j sd'. om_open_qty s' j sd' + (if j = i \<and> sd' = sd then d else 0) \<le> om_open_qty s j sd')"

lemma less_by_refl [simp]: "less_by i sd 0 s s"
  by (simp add: less_by_def)

lemma less_by_trans:
  "less_by i sd d s s1 \<Longrightarrow> (\<And>j sd'. om_open_qty s' j sd' \<le> om_open_qty s1 j sd') \<Longrightarrow> less_by i sd d s s'"
  unfolding less_by_def by (meson add_right_mono order_trans)

lemma less_by_less: "less_by i sd d s s' \<Longrightarrow> 0 \<le> c \<Longrightarrow> c \<le> d \<Longrightarrow> less_by i sd c s s'"
  unfolding less_by_def
proof (intro conjI allI)
  fix j sd' assume "0 \<le> d \<and> (\<forall>j sd'. om_open_qty s' j sd' + (if j = i \<and> sd' = sd then d else 0) \<le> om_open_qty s j sd')" "0 \<le> c" "c \<le> d"
  then have "om_open_qty s' j sd' + (if j = i \<and> sd' = sd then d else 0) \<le> om_open_qty s j sd'" by blast
  then show "om_open_qty s' j sd' + (if j = i \<and> sd' = sd then c else 0) \<le> om_open_qty s j sd'" using \<open>c \<le> d\<close> by (cases "j = i \<and> sd' = sd") auto
qed simp

lemma less_by_same: "om_open_qty s' = om_open_qty s1 \<Longrightarrow> less_by i sd d s s1 = less_by i sd d s s'"
  by (simp add: less_by_def)

text \<open>A message takes at least what its update reports as missed out of the open quantity, on the side of its order, and adds nothing.\<close>

definition takes_out :: "oms \<Rightarrow> oms \<times> oms_update \<Rightarrow> bool" where
  "takes_out s su \<longleftrightarrow> less_by (o_instrument (u_order (snd su))) (o_side (u_order (snd su))) (u_missed_qty (snd su)) s (fst su)"

lemma takes_none: "om_open_qty s' = om_open_qty s \<Longrightarrow> u_missed_qty u = 0 \<Longrightarrow> takes_out s (s', u)"
  by (simp add: takes_out_def less_by_def)

text \<open>What a message has taken of the order \<open>h\<close> when it ends or writes it.\<close>

definition taken :: "oms \<Rightarrow> nat \<Rightarrow> qty \<Rightarrow> oms \<Rightarrow> bool" where
  "taken s h d s1 \<longleftrightarrow> oms_inv s1 \<and> h \<in> live s1 \<and> less_by (o_instrument (order_at s1 h)) (o_side (order_at s1 h)) d s s1"

lemma taken_refl: "oms_inv s \<Longrightarrow> h \<in> live s \<Longrightarrow> taken s h 0 s"
  by (simp add: taken_def)

lemma taken_stats: "taken s h d s1 \<Longrightarrow> oms_inv (upd_stats g s1) \<Longrightarrow> taken s h d (upd_stats g s1)"
  by (simp add: taken_def less_by_def)

lemma taken_quiet: "taken s h d s1 \<Longrightarrow> quiet f (order_at s1 h) \<Longrightarrow> taken s h d (upd_order h f s1)"
  using quiet_inv [of s1 h f] by (auto simp: taken_def live_upd_order order_at_upd_order quiet_def less_by_def)

lemma taken_absorb:
  assumes "oms_inv s1" "h \<in> live s1" "om_open_qty s1 = om_open_qty s" "absorb_cum h q (s1, u) = (s2, u2)" "u_missed_qty u = 0"
  shows "taken s h (u_missed_qty u2) s2"
proof -
  let ?od = "order_at s1 h"
  let ?c = "max (o_cum_qty ?od) (min q (o_qty ?od))"
  note a = absorb_cum_inv [OF assms(1,2,4)]
  have le: "o_cum_qty ?od \<le> o_qty ?od" using live_ok [OF assms(1,2)] by (simp add: order_ok_def)
  have d: "u_missed_qty u2 = ?c - o_cum_qty ?od" using absorb_cum_update [OF refl le assms(4)] assms(5) by simp
  have "om_open_qty s2 i sd = om_open_qty s1 i sd - open_leaves i sd ?od + open_leaves i sd (order_at s2 h)" for i sd
    using a assms(1,2) by (intro open_qty_changed) simp_all
  then show ?thesis using a assms(2,3) d by (auto simp: taken_def less_by_def open_leaves_def leaves_qty_def)
qed

lemma taken_terminate:
  assumes "taken s h d s1" "terminate h final br (s1, u) = (s', u')"
  shows "less_by (o_instrument (u_order u')) (o_side (u_order u')) d s s'" "u_missed_qty u' = u_missed_qty u" "u_corrected_qty u' = u_corrected_qty u"
    "u_action u' = u_action u" "o_instrument (u_order u') = o_instrument (order_at s1 h)"
proof -
  have i: "oms_inv s1" "h \<in> live s1" using assms by (simp_all add: taken_def)
  note tu = terminate_update [OF i assms(2)] and ti = terminate_inv [OF i assms(2)]
  have "om_open_qty s' j sd = om_open_qty s1 j sd - open_leaves j sd (order_at s1 h)" for j sd
    using i ti by (intro open_qty_gone)
  moreover have "0 \<le> open_leaves j sd (order_at s1 h)" for j sd using i by (rule leaves_nonneg)
  ultimately have "om_open_qty s' j sd \<le> om_open_qty s1 j sd" for j sd by simp
  moreover show "o_instrument (u_order u') = o_instrument (order_at s1 h)" using tu by simp
  moreover have "o_side (u_order u') = o_side (order_at s1 h)" using tu by simp
  ultimately show "less_by (o_instrument (u_order u')) (o_side (u_order u')) d s s'"
    using assms(1) unfolding taken_def by (auto intro: less_by_trans)
  show "u_missed_qty u' = u_missed_qty u" "u_corrected_qty u' = u_corrected_qty u" "u_action u' = u_action u" using tu by simp_all
qed

lemma takes_terminate: "taken s h (u_missed_qty u) s1 \<Longrightarrow> takes_out s (terminate h final br (s1, u))"
  using taken_terminate [of s h "u_missed_qty u" s1 final br u] by (cases "terminate h final br (s1, u)") (simp add: takes_out_def)

lemma takes_finish:
  assumes "taken s h (u_missed_qty u) s1"
  shows "takes_out s (s1, finish_update s1 u h)"
  using assms by (simp add: takes_out_def taken_def finish_update_def)

section \<open>The handlers\<close>

lemma lookup_missed [simp]: "lookup s cid update_zero = (h, u) \<Longrightarrow> u_missed_qty u = 0"
  by (auto simp: lookup_def update_zero_def Let_def split: option.splits if_splits)

lemma lookup_routes:
  assumes "oms_inv s"
  obtains (unrouted) u0 where "lookup s cid update_zero = (kNullHandle, u0)" "u_missed_qty u0 = 0"
  | (order) h u0 where "lookup s cid update_zero = (h, u0)" "u_missed_qty u0 = 0" "h \<noteq> kNullHandle" "h \<in> live s" "cid \<in> order_ids (order_at s h)"
  using lookup_open [OF assms] lookup_missed by (metis prod.collapse)

lemma on_reject_takes:
  assumes inv: "oms_inv s"
  shows "takes_out s (on_reject m s)"
  using inv
proof (cases rule: lookup_routes [where cid = "jm_cl_ord_id m"])
  case (unrouted u0)
  then show ?thesis by (simp add: on_reject_def takes_none)
next
  case (order h u0)
  note l = order(1) and u = order(2) and n = order(3) and h = order(4)
  have q: "quiet (\<lambda>od. od\<lparr>o_reject_reason := r\<rparr>) (order_at s h)" for r
    using live_ok [OF inv h] by (simp add: quiet_def is_open_def order_ok_def)
  note c = clear_pending_inv [OF inv h]
  have t0: "taken s h 0 s" using inv h by (rule taken_refl)
  have t1: "taken s h 0 (upd_stats (\<lambda>st. st\<lparr>st_rejected := st_rejected st + 1\<rparr>) (upd_order h (\<lambda>od. od\<lparr>o_reject_reason := jm_reason m\<rparr>) s))"
    using quiet_inv [OF inv h q] by (intro taken_stats taken_quiet t0 q) simp
  have t2: "taken s h 0 (clear_pending h s)"
    using c h by (simp add: taken_def less_by_def)
  have "quiet (\<lambda>od. od\<lparr>o_state := working_state (o_cum_qty od)\<rparr>) (order_at (clear_pending h s) h)"
    using c by (simp add: quiet_def is_open_def order_clear_pending_def)
  then have t3: "taken s h 0 (upd_order h (\<lambda>od. od\<lparr>o_state := working_state (o_cum_qty od)\<rparr>) (clear_pending h s))"
    by (intro taken_quiet t2)
  show ?thesis using l n u t0 t1 t2 t3
    by (simp add: on_reject_def Let_def takes_terminate takes_finish)
qed

lemma on_cancel_reject_takes:
  assumes inv: "oms_inv s"
  shows "takes_out s (on_cancel_reject m s)"
  using inv
proof (cases rule: lookup_routes [where cid = "crm_cl_ord_id m"])
  case (unrouted u0)
  then show ?thesis by (simp add: on_cancel_reject_def takes_none)
next
  case (order h u0)
  note l = order(1) and u = order(2) and n = order(3) and h = order(4)
  have t0: "taken s h 0 s" using inv h by (rule taken_refl)
  have "taken s h 0 (upd_order h (\<lambda>od. od\<lparr>o_state := working_state (o_cum_qty od), o_cancel_attempts := o_cancel_attempts od + 1\<rparr>) s)"
    if "o_state (order_at s h) = PendingCancel"
    using live_pending [OF inv h] that by (intro taken_quiet t0) (simp add: quiet_def is_open_def)
  then show ?thesis using l n u t0
    by (simp add: on_cancel_reject_def Let_def takes_terminate takes_finish)
qed

lemma on_cancel_ack_takes:
  assumes inv: "oms_inv s"
  shows "takes_out s (on_cancel_ack m s)"
  using inv
proof (cases rule: lookup_routes [where cid = "cm_cl_ord_id m"])
  case (unrouted u0)
  then show ?thesis by (simp add: on_cancel_ack_def takes_none)
next
  case (order h u0)
  note l = order(1) and u = order(2) and n = order(3) and h = order(4)
  obtain s1 u1 where a: "absorb_cum h (cm_cum_qty m) (s, u0\<lparr>u_prev := o_state (order_at s h)\<rparr>) = (s1, u1)" by fastforce
  have t: "taken s h (u_missed_qty u1) s1" using u by (intro taken_absorb [OF inv h refl a]) simp
  then have i: "oms_inv s1" "h \<in> live s1" by (simp_all add: taken_def)
  have f: "taken s h (u_missed_qty u1) (upd_order h (\<lambda>od. od\<lparr>o_flags := g od\<rparr>) s1)" for g
    by (intro taken_quiet t quiet_flags i)
  then have "oms_inv (upd_order h (\<lambda>od. od\<lparr>o_flags := g od\<rparr>) s1)" for g by (simp add: taken_def)
  then show ?thesis using l n a t f i(1)
    by (simp add: on_cancel_ack_def Let_def takes_terminate takes_finish taken_stats)
qed

lemma on_expired_takes:
  assumes inv: "oms_inv s"
  shows "takes_out s (on_expired m s)"
  using inv
proof (cases rule: lookup_routes [where cid = "em_cl_ord_id m"])
  case (unrouted u0)
  then show ?thesis by (simp add: on_expired_def takes_none)
next
  case (order h u0)
  note l = order(1) and u = order(2) and n = order(3) and h = order(4)
  obtain s1 u1 where a: "absorb_cum h (em_cum_qty m) (s, u0\<lparr>u_prev := o_state (order_at s h)\<rparr>) = (s1, u1)" by fastforce
  have t: "taken s h (u_missed_qty u1) s1" using u by (intro taken_absorb [OF inv h refl a]) simp
  then have "oms_inv s1" by (simp add: taken_def)
  then show ?thesis using l n a t by (simp add: on_expired_def Let_def takes_terminate taken_stats)
qed

lemma reconcile_open_order_takes:
  assumes inv: "oms_inv s"
  shows "takes_out s (reconcile_open_order m s)"
  using inv
proof (cases rule: lookup_routes [where cid = "rcm_cl_ord_id m"])
  case (unrouted u0)
  then show ?thesis by (simp add: reconcile_open_order_def takes_none)
next
  case (order h u0)
  note l = order(1) and u = order(2) and n = order(3) and h = order(4)
  let ?f = "\<lambda>od. od\<lparr>o_flags := o_flags od OR (kSeenInReconcile OR kReconciled),
     o_venue_order_id := (if o_venue_order_id od \<noteq> [] \<or> rcm_venue_order_id m \<noteq> [] then rcm_venue_order_id m else o_venue_order_id od)\<rparr>"
  have "quiet ?f (order_at s h)" using live_ok [OF inv h] by (simp add: quiet_def is_open_def order_ok_def)
  then have i1: "oms_inv (upd_order h ?f s)" by (intro quiet_inv inv h)
  have h1: "h \<in> live (upd_order h ?f s)" using inv h by (simp add: live_upd_order)
  obtain s2 u2 where a: "absorb_cum h (rcm_cum_qty m) (upd_order h ?f s, u0\<lparr>u_prev := o_state (order_at s h)\<rparr>) = (s2, u2)" by fastforce
  have t: "taken s h (u_missed_qty u2) s2" using u by (intro taken_absorb [OF i1 h1 _ a]) simp_all
  then have i2: "oms_inv s2" "h \<in> live s2" by (simp_all add: taken_def)
  have "taken s h (u_missed_qty u2) (upd_order h (\<lambda>od. od\<lparr>o_state := working_state (o_cum_qty od)\<rparr>) s2)" if "o_state (order_at s2 h) = PendingNew"
    using live_pending [OF i2] that by (intro taken_quiet t) (simp add: quiet_def is_open_def)
  then show ?thesis using l n a t by (simp add: reconcile_open_order_def Let_def takes_finish)
qed

lemma end_unseen_takes:
  assumes inv: "oms_inv s" and h: "h \<in> live s"
  shows "takes_out s (end_unseen h s)"
proof -
  have t: "taken s h 0 (upd_order h (\<lambda>od. od\<lparr>o_flags := g od\<rparr>) s)" for g
    by (intro taken_quiet taken_refl quiet_flags inv h)
  then have "oms_inv (upd_order h (\<lambda>od. od\<lparr>o_flags := g od\<rparr>) s)" for g by (simp add: taken_def)
  then show ?thesis using t by (simp add: end_unseen_def Let_def takes_terminate taken_stats update_zero_def)
qed

text \<open>The acknowledgement of a replace that leaves no more open than the order had: of a new venue order no more than its leaves, of
  an amended one no more than its quantity.\<close>

definition ack_no_growth :: "order_ack_msg \<Rightarrow> oms \<Rightarrow> bool" where
  "ack_no_growth m s \<longleftrightarrow> (let h = open_handle s (am_cl_ord_id m); od = order_at s h in
     h \<noteq> kNullHandle \<and> o_state od = PendingReplace \<and> am_cl_ord_id m = o_pending_cl_ord_id od \<longrightarrow>
       o_pending_qty od \<le> (if o_pending_cl_ord_id od \<noteq> o_cl_ord_id od \<and> \<not> am_amended_in_place m then leaves_qty od else o_qty od))"

lemma replaced_leaves:
  assumes "order_ok od" "o_pending_qty od \<le> (if nvo then leaves_qty od else o_qty od)"
  shows "leaves_qty (replaced rekey nvo od) \<le> leaves_qty od"
  using assms by (auto simp: replaced_def order_replace_def leaves_qty_def order_ok_def Let_def split: if_splits)

lemma replaced_open_leaves:
  assumes "order_ok od" "o_pending_qty od \<le> (if nvo then leaves_qty od else o_qty od)" "od' = (replaced rekey nvo od)\<lparr>o_venue_order_id := v\<rparr>"
  shows "open_leaves i sd od' \<le> open_leaves i sd od"
  using replaced_leaves [OF assms(1,2), of rekey] by (simp add: open_leaves_def assms(3) leaves_qty_def)

lemma lookup_handle: "lookup s cid u = (h, u') \<Longrightarrow> open_handle s cid = h"
  by (auto simp: lookup_def open_handle_def split: option.splits if_splits)

lemma apply_replace_missed: "u_missed_qty (snd (apply_replace h rekey nvo (s, u))) = u_missed_qty u"
proof -
  have "u_missed_qty (snd (remember_terminal r (t, u))) = u_missed_qty u" for r t
  proof -
    obtain t' u' where e: "remember_terminal r (t, u) = (t', u')" by fastforce
    show ?thesis unfolding e snd_conv remember_terminal_frame(4) [OF e] by simp
  qed
  then show ?thesis by (simp add: apply_replace_def keep_old_leg_def Let_def case_prod_unfold)
qed

lemma on_ack_replace:
  assumes inv: "oms_inv s" and l: "lookup s (am_cl_ord_id m) update_zero = (h, u0)" "h \<noteq> kNullHandle"
    and st: "o_state (order_at s h) = PendingReplace" "am_cl_ord_id m = o_pending_cl_ord_id (order_at s h)"
  defines "rekey \<equiv> o_pending_cl_ord_id (order_at s h) \<noteq> o_cl_ord_id (order_at s h)"
  shows "live (fst (on_ack m s)) = live s" "\<And>g. g \<noteq> h \<Longrightarrow> order_at (fst (on_ack m s)) g = order_at s g"
    "order_at (fst (on_ack m s)) h = (replaced rekey (rekey \<and> \<not> am_amended_in_place m) (order_at s h))\<lparr>o_venue_order_id := am_venue_order_id m\<rparr>"
    "u_missed_qty (snd (on_ack m s)) = 0"
proof -
  let ?nvo = "rekey \<and> \<not> am_amended_in_place m"
  have h: "h \<in> live s" "o_pending_cl_ord_id (order_at s h) \<noteq> 0"
    using lookup_open [OF inv l] live_ok [OF inv] st(2) by (auto simp: order_ids_def order_ok_def)
  obtain s1 u1 where a: "apply_replace h rekey ?nvo (s, u0\<lparr>u_prev := o_state (order_at s h)\<rparr>) = (s1, u1)" by fastforce
  note i = apply_replace_inv [OF inv h rekey_def [THEN meta_eq_to_obj_eq] a]
  have e: "fst (on_ack m s) = upd_times h (\<lambda>t. t\<lparr>tsl_times := \<lparr>ot_sent = tsl_replace_sent t,
      ot_venue_ack = eh_exch_ts (am_hdr m), ot_local_ack = eh_recv_ts (am_hdr m)\<rparr>\<rparr>)
      (upd_order h (\<lambda>od. od\<lparr>o_venue_order_id := am_venue_order_id m\<rparr>) s1)"
    "u_missed_qty (snd (on_ack m s)) = u_missed_qty u1"
    using l st a by (simp_all add: on_ack_def Let_def rekey_def finish_update_def)
  show "live (fst (on_ack m s)) = live s" "\<And>g. g \<noteq> h \<Longrightarrow> order_at (fst (on_ack m s)) g = order_at s g"
    "order_at (fst (on_ack m s)) h = (replaced rekey ?nvo (order_at s h))\<lparr>o_venue_order_id := am_venue_order_id m\<rparr>"
    unfolding e(1) using i h(1) by (simp_all add: live_upd_order order_at_upd_order)
  have "u_missed_qty u1 = u_missed_qty u0"
    using apply_replace_missed [of h rekey ?nvo s "u0\<lparr>u_prev := o_state (order_at s h)\<rparr>"] a by simp
  then show "u_missed_qty (snd (on_ack m s)) = 0" using e(2) l by simp
qed

lemma on_ack_other:
  assumes inv: "oms_inv s" and l: "lookup s (am_cl_ord_id m) update_zero = (h, u0)" "h \<noteq> kNullHandle"
    and st: "\<not> (o_state (order_at s h) = PendingReplace \<and> am_cl_ord_id m = o_pending_cl_ord_id (order_at s h))"
  shows "om_open_qty (fst (on_ack m s)) = om_open_qty s \<and> u_missed_qty (snd (on_ack m s)) = 0"
proof -
  have "u_missed_qty u0 = 0" using l(1) by simp
  then show ?thesis using l st by (cases "o_state (order_at s h)") (simp_all add: on_ack_def Let_def finish_update_def)
qed

lemma on_ack_takes:
  assumes inv: "oms_inv s" and g: "ack_no_growth m s"
  shows "takes_out s (on_ack m s)"
  using inv
proof (cases rule: lookup_routes [where cid = "am_cl_ord_id m"])
  case (unrouted u0)
  then show ?thesis by (simp add: on_ack_def takes_none)
next
  case (order h u0)
  obtain s' u where a: "on_ack m s = (s', u)" by fastforce
  show ?thesis
  proof (cases "o_state (order_at s h) = PendingReplace \<and> am_cl_ord_id m = o_pending_cl_ord_id (order_at s h)")
    case True
    let ?od = "order_at s h"
    let ?rk = "o_pending_cl_ord_id ?od \<noteq> o_cl_ord_id ?od"
    note r = on_ack_replace [OF inv order(1,3) conjunct1 [OF True] conjunct2 [OF True], unfolded a fst_conv snd_conv]
    have i': "oms_inv s'" using on_ack_inv [OF inv, of m] a by simp
    have "o_pending_qty ?od \<le> (if ?rk \<and> \<not> am_amended_in_place m then leaves_qty ?od else o_qty ?od)"
      using g True order(3) unfolding ack_no_growth_def Let_def lookup_handle [OF order(1)] by blast
    from replaced_open_leaves [OF live_ok [OF inv order(4)] this r(3)]
    have "open_leaves i sd (order_at s' h) \<le> open_leaves i sd ?od" for i sd .
    then have "om_open_qty s' i sd \<le> om_open_qty s i sd" for i sd
      using open_qty_changed [OF inv i' order(4) r(1) r(2), of i sd] by simp
    then show ?thesis using r(4) by (simp add: a takes_out_def less_by_def)
  next
    case False
    then show ?thesis using on_ack_other [OF inv order(1,3) False] by (metis prod.collapse takes_none)
  qed
qed

text \<open>A fill that fits: one seen before, one whose quantity was booked already, or one of an open order that takes no more than
  its leaves and that the venue's count of the order, when the fill carries it, includes.\<close>

definition fill_fits :: "order_fill_msg \<Rightarrow> oms \<Rightarrow> bool" where
  "fill_fits m s \<longleftrightarrow> (let u = snd (on_fill m s); fresh = fmsg_qty m - u_corrected_qty u;
       h = open_handle s (fmsg_cl_ord_id m); od = order_at s h in
     u_action u = Duplicate \<or> fresh \<le> 0 \<or>
     h \<noteq> kNullHandle \<and> fresh \<le> leaves_qty od \<and> (fmsg_cum_qty m > 0 \<longrightarrow> o_cum_qty od + fresh \<le> fmsg_cum_qty m))"

lemma on_fill_unrouted:
  assumes inv: "oms_inv s" and fresh: "exec_fresh m s" and h: "open_handle s (fmsg_cl_ord_id m) = kNullHandle"
  shows "om_open_qty (fst (on_fill m s)) = om_open_qty s" "u_missed_qty (snd (on_fill m s)) = 0" "u_action (snd (on_fill m s)) \<noteq> Duplicate"
proof -
  let ?u0 = "update_zero\<lparr>u_fill_qty := fmsg_qty m, u_fill_px := fmsg_price m\<rparr>"
  obtain s1 where e: "(if fmsg_exec_id m \<noteq> [] then remember_exec m s else (s, True)) = (s1, True)" "om_ids s1 = om_ids s" "om_open_qty s1 = om_open_qty s"
    by (rule exec_stage [OF inv fresh])
  obtain u1 where l: "lookup s1 (fmsg_cl_ord_id m) ?u0 = (kNullHandle, u1)"
    using lookup_handle [of s1 "fmsg_cl_ord_id m" ?u0] h e(2) by (metis open_handle_def prod.collapse)
  have u1: "u_missed_qty u1 = 0"
    using l by (auto simp: lookup_def update_zero_def Let_def split: option.splits if_splits)
  obtain s2 u2 where c: "fill_covered m kNullHandle (s1, u1) = (s2, u2)" by fastforce
  have u2: "u_missed_qty u2 = 0" using fill_covered_update(1) [OF c] u1 by auto
  have s2: "om_open_qty s2 = om_open_qty s" using open_qty_pairs(3) [of m kNullHandle "(s1, u1)"] c e(3) by simp
  have lf: "u_missed_qty (snd (late_fill m (t, u))) = u_missed_qty u \<and> u_action (snd (late_fill m (t, u))) = u_action u" for t u
    by (auto simp: late_fill_def Let_def split: option.splits)
  show "om_open_qty (fst (on_fill m s)) = om_open_qty s" "u_missed_qty (snd (on_fill m s)) = 0" "u_action (snd (on_fill m s)) \<noteq> Duplicate"
    using u2 s2 by (simp_all add: on_fill_def Let_def e(1) l c open_qty_pairs lf)
qed

lemma on_fill_routed:
  assumes inv: "oms_inv s" and fresh: "exec_fresh m s" and h: "open_handle s (fmsg_cl_ord_id m) = h" "h \<noteq> kNullHandle" and f: "on_fill m s = (s', u)"
    and g: "fmsg_qty m - u_corrected_qty u \<le> 0 \<or> fmsg_qty m - u_corrected_qty u \<le> leaves_qty (order_at s h) \<and>
      (fmsg_cum_qty m > 0 \<longrightarrow> o_cum_qty (order_at s h) + (fmsg_qty m - u_corrected_qty u) \<le> fmsg_cum_qty m)"
  shows "less_by (o_instrument (u_order u)) (o_side (u_order u)) (max 0 (fmsg_qty m - u_corrected_qty u)) s s' \<and> u_missed_qty u = 0 \<and>
    o_instrument (u_order u) < kMaxInstruments"
proof (rule on_fill_fresh [OF inv fresh h])
  fix s1 s2 and u2 :: oms_update
  let ?s3 = "upd_stats (\<lambda>st. st\<lparr>st_fills := st_fills st + 1\<rparr>) s2" and ?od = "order_at s h"
  let ?u1 = "update_zero\<lparr>u_fill_qty := fmsg_qty m, u_fill_px := fmsg_price m, u_known := True, u_handle := h\<rparr>"
  define cum where "cum = fill_cum m (u_corrected_qty u2) ?od"
  let ?s5 = "book_fill h m cum ?s3" and ?u3 = "u2\<lparr>u_prev := o_state ?od, u_changed := True\<rparr>"
  let ?s6 = "if o_state ?od = Live \<or> o_state ?od = PendingNew then upd_order h (\<lambda>od. od\<lparr>o_state := PartiallyFilled\<rparr>) ?s5 else ?s5"
  assume c: "fill_covered m h (s1, ?u1) = (s2, u2)" and i2: "oms_inv s2" "live s2 = live s" "order_at s2 = order_at s" and hl: "h \<in> live s"
    and f': "on_fill m s =
   (let s3 = upd_stats (\<lambda>st. st\<lparr>st_fills := st_fills st + 1\<rparr>) s2;
        od = order_at s h; cum = fill_cum m (u_corrected_qty u2) od; s5 = book_fill h m cum s3;
        u3 = u2\<lparr>u_prev := o_state od, u_changed := True\<rparr>
    in if cum \<ge> o_qty od
       then terminate h Filled False (upd_stats (\<lambda>st. st\<lparr>st_filled := st_filled st + 1\<rparr>) s5, u3)
       else let s6 = (if o_state od = Live \<or> o_state od = PendingNew
                      then upd_order h (\<lambda>od. od\<lparr>o_state := PartiallyFilled\<rparr>) s5 else s5)
            in (s6, finish_update s6 u3 h))"
  have e: "(s', u) = (if cum \<ge> o_qty ?od
      then terminate h Filled False (upd_stats (\<lambda>st. st\<lparr>st_filled := st_filled st + 1\<rparr>) ?s5, ?u3)
      else (?s6, finish_update ?s6 ?u3 h))" unfolding f [symmetric] f' Let_def cum_def ..
  have ok: "order_ok ?od" by (rule live_ok [OF inv hl])
  have b: "o_cum_qty ?od \<le> cum" "cum \<le> o_qty ?od" using fill_cum_bounds [of ?od m] ok by (auto simp: order_ok_def cum_def)
  have i3: "oms_inv ?s3" "h \<in> live ?s3" "o_cum_qty (order_at ?s3 h) \<le> cum" "cum \<le> o_qty (order_at ?s3 h)" using i2 hl b by simp_all
  note i5 = book_fill_inv [OF i3, where m = m]
  have at5: "o_instrument (order_at ?s5 h) = o_instrument ?od" "o_side (order_at ?s5 h) = o_side ?od"
    using i3(1,2) i2(3) by (simp_all add: book_fill_def Let_def upd_order_commute order_at_upd_order)
  have op: "om_open_qty ?s5 i sd = om_open_qty s i sd - (if i = o_instrument ?od \<and> sd = o_side ?od then cum - o_cum_qty ?od else 0)" for i sd
    using open_qty_same [OF inv i2(1)] i2 by (simp add: book_fill_def Let_def open_qty_add)
  have t5: "taken s h (cum - o_cum_qty ?od) ?s5"
    using i5(1,2) i2 hl b by (simp add: taken_def at5 less_by_def op)
  have u2: "u_missed_qty u2 = 0" using fill_covered_update(1) [OF c] by (auto simp: update_zero_def)
  have d: "max 0 (fmsg_qty m - u_corrected_qty u2) \<le> cum - o_cum_qty ?od" if "u_corrected_qty u = u_corrected_qty u2"
    using g b that ok by (auto simp: cum_def fill_cum_def Let_def leaves_qty_def order_ok_def)
  show ?thesis
  proof (cases "cum \<ge> o_qty ?od")
    case True
    then have t: "terminate h Filled False (upd_stats (\<lambda>st. st\<lparr>st_filled := st_filled st + 1\<rparr>) ?s5, ?u3) = (s', u)" using e by simp
    have "taken s h (cum - o_cum_qty ?od) (upd_stats (\<lambda>st. st\<lparr>st_filled := st_filled st + 1\<rparr>) ?s5)" using i5(1) by (intro taken_stats t5) simp
    note tt = taken_terminate [OF this t]
    have "u_corrected_qty u = u_corrected_qty u2" using tt(3) by simp
    then show ?thesis using less_by_less [OF tt(1) _ d] tt(2,5) u2 at5 ok by (simp add: order_ok_def)
  next
    case False
    then have e': "s' = ?s6" "u = finish_update ?s6 ?u3 h" using e by (simp_all only: if_False prod.inject)
    have q: "quiet (\<lambda>od. od\<lparr>o_state := PartiallyFilled\<rparr>) (order_at ?s5 h)" if "o_state ?od = Live \<or> o_state ?od = PendingNew"
      using live_pending [OF i5(1), of h] i5 i2 hl that by (auto simp: quiet_def is_open_def is_terminal_def)
    have t6: "taken s h (cum - o_cum_qty ?od) ?s6" using taken_quiet [OF t5 q] t5 by (simp split: if_splits)
    have "u_corrected_qty u = u_corrected_qty u2" "u_missed_qty u = 0" "u_order u = order_at ?s6 h" unfolding e'(2) by (simp_all add: finish_update_def u2)
    moreover have "o_instrument (order_at ?s6 h) = o_instrument ?od"
      using at5 i5(1,2) i2 hl by (simp add: order_at_upd_order)
    ultimately show ?thesis using t6 d ok unfolding e'(1) taken_def by (auto intro: less_by_less simp: order_ok_def)
  qed
qed

lemma on_fill_takes:
  assumes inv: "oms_inv s" and fits: "fill_fits m s" and f: "on_fill m s = (s', u)" and a: "u_action u \<noteq> Duplicate"
  shows "less_by (o_instrument (u_order u)) (o_side (u_order u)) (max 0 (fmsg_qty m - u_corrected_qty u)) s s' \<and> u_missed_qty u = 0 \<and>
    (0 < fmsg_qty m - u_corrected_qty u \<longrightarrow> o_instrument (u_order u) < kMaxInstruments)"
proof -
  have fresh: "exec_fresh m s" using on_fill_duplicate(2) [OF inv] f a by force
  note g = fits [unfolded fill_fits_def f Let_def snd_conv] a
  show ?thesis
  proof (cases "open_handle s (fmsg_cl_ord_id m) = kNullHandle")
    case True
    then show ?thesis using on_fill_unrouted [OF inv fresh True] g f by (auto simp: less_by_def)
  next
    case False
    then show ?thesis using on_fill_routed [OF inv fresh refl False f] g by blast
  qed
qed

lemma terminate_action: "oms_inv s \<Longrightarrow> h \<in> live s \<Longrightarrow> u_action (snd (terminate h final br (s, u))) = u_action u"
  using terminate_update [of s h final br u] by (cases "terminate h final br (s, u)") simp

text \<open>A fill is called a duplicate exactly when its execution is remembered.\<close>

lemma on_fill_duplicate_iff:
  assumes inv: "oms_inv s"
  shows "u_action (snd (on_fill m s)) = Duplicate \<longleftrightarrow> \<not> exec_fresh m s"
proof (cases "exec_fresh m s \<and> open_handle s (fmsg_cl_ord_id m) \<noteq> kNullHandle")
  case True
  define h where "h = open_handle s (fmsg_cl_ord_id m)"
  have h0: "h \<noteq> kNullHandle" using True by (simp add: h_def)
  show ?thesis
  proof (rule on_fill_fresh [OF inv conjunct1 [OF True] h_def [symmetric] h0])
    fix s1 s2 and u2 :: oms_update
    assume c: "fill_covered m h (s1, update_zero\<lparr>u_fill_qty := fmsg_qty m, u_fill_px := fmsg_price m, u_known := True, u_handle := h\<rparr>) = (s2, u2)"
      and i2: "oms_inv s2" "live s2 = live s" "order_at s2 = order_at s" and h: "h \<in> live s"
      and f: "on_fill m s =
       (let s3 = upd_stats (\<lambda>st. st\<lparr>st_fills := st_fills st + 1\<rparr>) s2;
            od = order_at s h; cum = fill_cum m (u_corrected_qty u2) od; s5 = book_fill h m cum s3;
            u3 = u2\<lparr>u_prev := o_state od, u_changed := True\<rparr>
        in if cum \<ge> o_qty od
           then terminate h Filled False (upd_stats (\<lambda>st. st\<lparr>st_filled := st_filled st + 1\<rparr>) s5, u3)
           else let s6 = (if o_state od = Live \<or> o_state od = PendingNew
                          then upd_order h (\<lambda>od. od\<lparr>o_state := PartiallyFilled\<rparr>) s5 else s5)
                in (s6, finish_update s6 u3 h))"
    let ?cum = "fill_cum m (u_corrected_qty u2) (order_at s h)"
    let ?s5 = "book_fill h m ?cum (upd_stats (\<lambda>st. st\<lparr>st_fills := st_fills st + 1\<rparr>) s2)"
    have u2: "u_action u2 = NoAction" using fill_covered_update(1) [OF c] by (auto simp: update_zero_def)
    have i5: "oms_inv ?s5" "h \<in> live ?s5"
      using book_fill_inv(1,2) [of "upd_stats (\<lambda>st. st\<lparr>st_fills := st_fills st + 1\<rparr>) s2" h ?cum m] i2 h
        fill_cum_bounds [of "order_at s h" m] live_ok [OF inv h] by (auto simp: order_ok_def)
    have "u_action (snd (terminate h Filled False (upd_stats (\<lambda>st. st\<lparr>st_filled := st_filled st + 1\<rparr>) ?s5, u))) = u_action u" for u
      by (rule terminate_action) (use i5 in simp_all)
    then show ?thesis using True u2 unfolding f by (simp add: Let_def finish_update_def)
  qed
next
  case False
  then show ?thesis using on_fill_duplicate(2) [OF inv] on_fill_unrouted(3) [OF inv] by blast
qed

end
