(* ===== verification/Instrument.thy ===== *)
theory Instrument
  imports FixedPoint Order
begin

text \<open>
  The static data of the engine: \<^verbatim>\<open>include/fastmm/core/instrument.hpp\<close> (instruments and their table),
  \<^verbatim>\<open>include/fastmm/core/fx.hpp\<close> (rates and conversion), \<^verbatim>\<open>include/fastmm/core/fees.hpp\<close> (fee schedules, the
  integer part) and the conversions of \<^verbatim>\<open>include/fastmm/core/underlying.hpp\<close>. Arrays indexed by an instrument
  or a currency are functions; a \<^verbatim>\<open>FixedString\<close> is the string it holds; the symbol index, a \<^verbatim>\<open>FlatMap\<close> keyed by venue and symbol, is the mapping that a
  flat map is (theory FlatMap). Quotients of 128-bit products are cast back to 64 bits as the code does.
\<close>

unbundle bit_operations_syntax

section \<open>Instruments\<close>

datatype asset_class = Spot | Perpetual | Future | Option | Fx | Equity
datatype option_type = NoOption | Call | Put

text \<open>\<^verbatim>\<open>FixedString<N>(sv)\<close> keeps the first N characters.\<close>

definition kSymbolCapacity :: nat where "kSymbolCapacity = 20"
definition kCurrencyCapacity :: nat where "kCurrencyCapacity = 8"

definition fixed_string :: "nat \<Rightarrow> string \<Rightarrow> string" where
  "fixed_string n s = take n s"

definition kEnabled :: "8 word" where "kEnabled = 1"
definition kInverse :: "8 word" where "kInverse = 2"
definition kReduceOnlySupported :: "8 word" where "kReduceOnlySupported = 4"
definition kCoinQuoted :: "8 word" where "kCoinQuoted = 8"

record instrument =
  in_id :: instrument_id
  in_venue :: venue_id
  in_asset_class :: asset_class
  in_flags :: "8 word"
  in_price_decimals :: nat
  in_tick :: price
  in_lot :: qty
  in_min_qty :: qty
  in_max_qty :: qty
  in_min_notional :: notional
  in_contract_multiplier :: qty
  in_max_notional :: notional
  in_expiry_ns :: int
  in_strike :: price
  in_symbol :: string
  in_base :: string
  in_quote :: string
  in_option_type :: option_type

definition enabled :: "instrument \<Rightarrow> bool" where
  "enabled inst \<longleftrightarrow> in_flags inst AND kEnabled \<noteq> 0"

definition inverse_contract :: "instrument \<Rightarrow> bool" where
  "inverse_contract inst \<longleftrightarrow> in_flags inst AND kInverse \<noteq> 0"

definition coin_quoted :: "instrument \<Rightarrow> bool" where
  "coin_quoted inst \<longleftrightarrow> in_flags inst AND kCoinQuoted \<noteq> 0"

definition round_price :: "instrument \<Rightarrow> price \<Rightarrow> side \<Rightarrow> price" where
  "round_price inst p s = round_to_tick p (in_tick inst) s"

definition round_qty :: "instrument \<Rightarrow> qty \<Rightarrow> qty" where
  "round_qty inst q = round_to_lot q (in_lot inst)"

definition in_ticks :: "instrument \<Rightarrow> int \<Rightarrow> price" where
  "in_ticks inst n = in_tick inst * n"

definition valid_price :: "instrument \<Rightarrow> price \<Rightarrow> bool" where
  "valid_price inst p \<longleftrightarrow> p > 0 \<and> on_tick p (in_tick inst)"

definition valid_qty :: "instrument \<Rightarrow> qty \<Rightarrow> bool" where
  "valid_qty inst q \<longleftrightarrow>
     q > 0 \<and> on_lot q (in_lot inst) \<and> q \<ge> in_min_qty inst \<and> (in_max_qty inst = 0 \<or> q \<le> in_max_qty inst)"

definition in_notional :: "instrument \<Rightarrow> price \<Rightarrow> qty \<Rightarrow> notional" where
  "in_notional inst p q =
     (if inverse_contract inst
      then (if \<not> p > 0 then 0 else i64 ((q * in_contract_multiplier inst) sdiv p))
      else (let n = mul p q
            in if in_contract_multiplier inst = kFixedScale then n else mul_raw n (in_contract_multiplier inst)))"

definition pnl_per_tick :: "instrument \<Rightarrow> notional" where
  "pnl_per_tick inst = (if inverse_contract inst then 0 else mul_raw (in_tick inst) (in_contract_multiplier inst))"

definition inverse_pnl :: "instrument \<Rightarrow> price \<Rightarrow> price \<Rightarrow> qty \<Rightarrow> notional" where
  "inverse_pnl inst fr to q =
     (if \<not> fr > 0 \<or> \<not> to > 0 then 0
      else i64 ((q * in_contract_multiplier inst * (to - fr)) sdiv (fr * to)))"

definition settlement_ccy :: "instrument \<Rightarrow> string" where
  "settlement_ccy inst = (if inverse_contract inst then in_base inst else in_quote inst)"

definition is_derivative :: "instrument \<Rightarrow> bool" where
  "is_derivative inst \<longleftrightarrow> in_asset_class inst \<in> {Perpetual, Future, Option}"

section \<open>The instrument table\<close>

datatype instrument_error = TableFull | DuplicateSymbol | InvalidTickSize | InvalidLotSize | EmptySymbol

record instrument_table =
  it_by_id :: "instrument list"
  it_by_symbol :: "venue_id \<times> string \<Rightarrow> instrument_id option"

definition it_new :: instrument_table where
  "it_new = \<lparr>it_by_id = [], it_by_symbol = (\<lambda>_. None)\<rparr>"

definition it_add :: "instrument \<Rightarrow> instrument_table \<Rightarrow> instrument_table \<times> (instrument_error + instrument_id)" where
  "it_add inst t =
     (if in_symbol inst = [] then (t, Inl EmptySymbol)
      else if \<not> in_tick inst > 0 then (t, Inl InvalidTickSize)
      else if \<not> in_lot inst > 0 then (t, Inl InvalidLotSize)
      else if length (it_by_id t) = kMaxInstruments then (t, Inl TableFull)
      else (let i = length (it_by_id t); k = (in_venue inst, in_symbol inst)
            in if it_by_symbol t k \<noteq> None then (t, Inl DuplicateSymbol)
               else (\<lparr>it_by_id = it_by_id t @ [inst\<lparr>in_id := i\<rparr>], it_by_symbol = (it_by_symbol t)(k \<mapsto> i)\<rparr>, Inr i)))"

definition it_contains :: "instrument_table \<Rightarrow> instrument_id \<Rightarrow> bool" where
  "it_contains t i \<longleftrightarrow> i < length (it_by_id t)"

definition it_get :: "instrument_table \<Rightarrow> instrument_id \<Rightarrow> instrument" where
  "it_get t i = it_by_id t ! i"

definition it_find :: "instrument_table \<Rightarrow> venue_id \<Rightarrow> string \<Rightarrow> instrument option" where
  "it_find t v name = (case it_by_symbol t (v, fixed_string kSymbolCapacity name) of None \<Rightarrow> None | Some i \<Rightarrow> Some (it_by_id t ! i))"

text \<open>\<^verbatim>\<open>settlement_mix\<close>: the first enabled instrument, and the first one after it that settles in another
  currency.\<close>

definition settles_alike :: "instrument \<Rightarrow> instrument \<Rightarrow> bool" where
  "settles_alike a b \<longleftrightarrow>
     \<not> (settlement_ccy b \<noteq> settlement_ccy a \<or> (settlement_ccy b = [] \<and> inverse_contract b \<noteq> inverse_contract a))"

definition settlement_mix :: "instrument_table \<Rightarrow> instrument option \<times> instrument option" where
  "settlement_mix t =
     (case filter enabled (it_by_id t) of
        [] \<Rightarrow> (None, None)
      | first # rest \<Rightarrow> (Some first, find (\<lambda>inst. \<not> settles_alike first inst) rest))"

definition it_clear :: "instrument_table \<Rightarrow> instrument_table" where
  "it_clear t = it_new"

section \<open>Currencies\<close>

definition kMaxCurrencies :: nat where "kMaxCurrencies = 8"

definition up_char :: "char \<Rightarrow> char" where
  "up_char c = (let n = of_char c :: nat in if 97 \<le> n \<and> n \<le> 122 then char_of (n - 32) else c)"

definition same_currency :: "string \<Rightarrow> string \<Rightarrow> bool" where
  "same_currency a b \<longleftrightarrow> length a = length b \<and> (\<forall>i\<in>{..<length a}. up_char (a ! i) = up_char (b ! i))"

record fx_rate =
  fx_num :: int
  fx_den :: int

definition fx_unknown :: fx_rate where "fx_unknown = \<lparr>fx_num = 0, fx_den = 1\<rparr>"
definition fx_identity :: fx_rate where "fx_identity = \<lparr>fx_num = 1, fx_den = 1\<rparr>"

definition fx_from_mid :: "price \<Rightarrow> bool \<Rightarrow> fx_rate" where
  "fx_from_mid mid invert =
     (if \<not> mid > 0 then fx_unknown
      else if invert then \<lparr>fx_num = kFixedScale, fx_den = mid\<rparr> else \<lparr>fx_num = mid, fx_den = kFixedScale\<rparr>)"

definition fx_known :: "fx_rate \<Rightarrow> bool" where
  "fx_known r \<longleftrightarrow> fx_num r > 0"

definition fx_price :: "fx_rate \<Rightarrow> price" where
  "fx_price r = (if fx_known r then i64 ((kFixedScale * fx_num r) sdiv fx_den r) else 0)"

definition convert :: "notional \<Rightarrow> fx_rate \<Rightarrow> notional" where
  "convert n r = (if fx_num r = fx_den r then n else i64 ((n * fx_num r) sdiv fx_den r))"

record fx_source =
  fs_instrument :: "instrument_id option"
  fs_invert :: bool

record fx_plan =
  fp_count :: nat
  fp_names :: "nat \<Rightarrow> string"
  fp_sources :: "nat \<Rightarrow> fx_source"
  fp_ccy :: "instrument_id \<Rightarrow> nat"
  fp_prices :: "instrument_id \<Rightarrow> nat"
  fp_stale :: duration

definition fp_active :: "fx_plan \<Rightarrow> bool" where
  "fp_active p \<longleftrightarrow> fp_count p > 1"

definition fp_reporting :: "fx_plan \<Rightarrow> string" where
  "fp_reporting p = fp_names p 0"

definition priced_by :: "fx_plan \<Rightarrow> instrument_id \<Rightarrow> int" where
  "priced_by p i = (if i < kMaxInstruments then int (fp_prices p i) - 1 else - 1)"

section \<open>Fees\<close>

datatype liquidity = UnknownLiquidity | Maker | Taker

record fee_rates =
  fr_maker_cbps :: int
  fr_taker_cbps :: int

definition fee_cbps :: "fee_rates \<Rightarrow> liquidity \<Rightarrow> int" where
  "fee_cbps r l = (if l = Taker then fr_taker_cbps r else fr_maker_cbps r)"

definition fee_of_notional :: "fee_rates \<Rightarrow> notional \<Rightarrow> liquidity \<Rightarrow> notional" where
  "fee_of_notional r n l = i64 ((n * fee_cbps r l) sdiv 1000000)"

definition fee_of :: "fee_rates \<Rightarrow> price \<Rightarrow> qty \<Rightarrow> liquidity \<Rightarrow> notional" where
  "fee_of r px q l = fee_of_notional r (mul px q) l"

record fee_table =
  ft_default :: fee_rates
  ft_per :: "instrument_id \<Rightarrow> fee_rates"
  ft_has :: "nat \<Rightarrow> u64"

definition ft_uniform :: "fee_rates \<Rightarrow> fee_table" where
  "ft_uniform s = \<lparr>ft_default = s, ft_per = (\<lambda>_. \<lparr>fr_maker_cbps = 0, fr_taker_cbps = 0\<rparr>), ft_has = (\<lambda>_. 0)\<rparr>"

definition ft_default_fee :: "fee_table \<Rightarrow> price \<Rightarrow> qty \<Rightarrow> liquidity \<Rightarrow> notional" where
  "ft_default_fee t px q l = fee_of (ft_default t) px q l"

definition ft_default_fee_of_notional :: "fee_table \<Rightarrow> notional \<Rightarrow> liquidity \<Rightarrow> notional" where
  "ft_default_fee_of_notional t n l = fee_of_notional (ft_default t) n l"

definition ft_set_default :: "fee_rates \<Rightarrow> fee_table \<Rightarrow> fee_table" where
  "ft_set_default s t = t\<lparr>ft_default := s\<rparr>"

definition ft_set_instrument :: "instrument_id \<Rightarrow> fee_rates \<Rightarrow> fee_table \<Rightarrow> fee_table" where
  "ft_set_instrument i s t =
     (if i \<ge> kMaxInstruments then t
      else t\<lparr>ft_per := (ft_per t)(i := s), ft_has := (ft_has t)(i div 64 := ft_has t (i div 64) OR push_bit (i mod 64) 1)\<rparr>)"

definition ft_has_override :: "fee_table \<Rightarrow> instrument_id \<Rightarrow> bool" where
  "ft_has_override t i \<longleftrightarrow> i < kMaxInstruments \<and> ft_has t (i div 64) AND push_bit (i mod 64) 1 \<noteq> 0"

definition ft_schedule :: "fee_table \<Rightarrow> instrument_id \<Rightarrow> fee_rates" where
  "ft_schedule t i = (if ft_has_override t i then ft_per t i else ft_default t)"

definition ft_is_uniform :: "fee_table \<Rightarrow> bool" where
  "ft_is_uniform t \<longleftrightarrow> (\<forall>i\<in>{..<kMaxInstruments}. \<not> (ft_has_override t i \<and> ft_per t i \<noteq> ft_default t))"

definition ft_fee :: "fee_table \<Rightarrow> instrument_id \<Rightarrow> price \<Rightarrow> qty \<Rightarrow> liquidity \<Rightarrow> notional" where
  "ft_fee t i px q l = fee_of (ft_schedule t i) px q l"

section \<open>Underlyings\<close>

definition kMaxUnderlyings :: nat where "kMaxUnderlyings = 8"

definition counts_toward_underlying :: "instrument \<Rightarrow> bool" where
  "counts_toward_underlying inst \<longleftrightarrow> in_asset_class inst \<noteq> Option \<and> \<not> coin_quoted inst"

definition to_base_units :: "instrument \<Rightarrow> int \<Rightarrow> price \<Rightarrow> int option" where
  "to_base_units inst q mark =
     (if q = 0 then Some 0
      else if inverse_contract inst
      then (if \<not> mark > 0 then None else Some (i64 ((q * in_contract_multiplier inst) sdiv mark)))
      else Some (if in_contract_multiplier inst = kFixedScale then q else mul_raw q (in_contract_multiplier inst)))"

definition underlying_exceeds :: "int \<Rightarrow> int \<Rightarrow> int \<Rightarrow> bool" where
  "underlying_exceeds max_net net worst \<longleftrightarrow>
     (let abs_worst = (if worst < 0 then - worst else worst); abs_net = (if net < 0 then - net else net)
      in max_net > 0 \<and> abs_worst > max_net \<and> abs_worst > abs_net)"

record underlying_plan =
  up_count :: nat
  up_names :: "nat \<Rightarrow> string"
  up_max_net :: "nat \<Rightarrow> qty"
  up_of :: "instrument_id \<Rightarrow> nat"
  up_members :: "nat \<Rightarrow> instrument_id"
  up_begin :: "nat \<Rightarrow> nat"

definition up_active :: "underlying_plan \<Rightarrow> bool" where
  "up_active p \<longleftrightarrow> up_count p > 0"

definition up_underlying_of :: "underlying_plan \<Rightarrow> instrument_id \<Rightarrow> int" where
  "up_underlying_of p i = (if i < kMaxInstruments then int (up_of p i) - 1 else - 1)"

definition up_instruments :: "underlying_plan \<Rightarrow> nat \<Rightarrow> instrument_id list" where
  "up_instruments p u = (if u < up_count p then map (up_members p) [up_begin p u..<up_begin p (u + 1)] else [])"

end
