(* ===== verification/Position.thy ===== *)
theory Position
  imports Instrument
begin

text \<open>
  \<^verbatim>\<open>include/fastmm/core/position.hpp\<close>: positions by the average-cost method and the totals over every
  instrument that the loss limit and the exposure caps read, in one currency or converted from several. The
  members of \<^verbatim>\<open>PositionTracker\<close> are the fields of a record, its arrays functions of the index; a pointer to a
  member of \<^verbatim>\<open>Totals\<close> is a name of the field. Every operation is a definition of the same name.
\<close>

record position =
  po_qty :: qty
  po_avg_px :: price
  po_realized :: notional
  po_unrealized :: notional
  po_fees :: notional
  po_last_mark :: price
  po_gross_traded :: qty
  po_fills :: u32

definition position_zero :: position where
  "position_zero =
     \<lparr>po_qty = 0, po_avg_px = 0, po_realized = 0, po_unrealized = 0, po_fees = 0, po_last_mark = 0,
      po_gross_traded = 0, po_fills = 0\<rparr>"

definition po_net_pnl :: "position \<Rightarrow> notional" where
  "po_net_pnl p = po_realized p + po_unrealized p - po_fees p"

definition opening_qty :: "int \<Rightarrow> side \<Rightarrow> int \<Rightarrow> int \<Rightarrow> int" where
  "opening_qty q s ahead n =
     (if q = 0 \<or> (q > 0) = (s = Buy) then n
      else (let room = (if q < 0 then - q else q) - ahead
            in if room \<le> 0 then n else if n > room then n - room else 0))"

definition nearer_zero :: "int \<Rightarrow> side \<Rightarrow> int \<Rightarrow> int \<Rightarrow> bool" where
  "nearer_zero q s ahead n =
     (if q = 0 \<or> (q > 0) = (s = Buy) then False
      else (let room = (if q < 0 then - q else q) - ahead in room > 0 \<and> n - room < room))"

definition notional_share :: "notional \<Rightarrow> int \<Rightarrow> int \<Rightarrow> notional" where
  "notional_share n part q = (if part \<ge> q \<or> q \<le> 0 then n else i64 ((n * part + q - 1) sdiv q))"

section \<open>State\<close>

datatype total_field = TRealized | TUnrealized | TFees | TGross | TNet

type_synonym totals = "total_field \<Rightarrow> notional"

record tracker =
  tk_pos :: "instrument_id \<Rightarrow> position"
  tk_realized_total :: notional
  tk_unrealized_total :: notional
  tk_fees_total :: notional
  tk_exposure :: "instrument_id \<Rightarrow> notional"
  tk_gross_exposure :: notional
  tk_net_exposure :: notional
  tk_ccy_count :: nat
  tk_ccy :: "instrument_id \<Rightarrow> nat"
  tk_rate :: "nat \<Rightarrow> fx_rate"
  tk_native :: "nat \<Rightarrow> totals"
  tk_conv :: "nat \<Rightarrow> totals"
  tk_conv_total :: totals
  tk_changes :: nat
  tk_fund_total :: notional
  tk_fund_per :: "instrument_id \<Rightarrow> notional"
  tk_fund_native :: "nat \<Rightarrow> notional"

definition tracker_new :: tracker where
  "tracker_new =
     \<lparr>tk_pos = (\<lambda>_. position_zero), tk_realized_total = 0, tk_unrealized_total = 0, tk_fees_total = 0,
      tk_exposure = (\<lambda>_. 0), tk_gross_exposure = 0, tk_net_exposure = 0, tk_ccy_count = 0, tk_ccy = (\<lambda>_. 0),
      tk_rate = (\<lambda>c. if c = 0 then fx_identity else fx_unknown), tk_native = (\<lambda>_ _. 0), tk_conv = (\<lambda>_ _. 0),
      tk_conv_total = (\<lambda>_. 0), tk_changes = 0, tk_fund_total = 0, tk_fund_per = (\<lambda>_. 0), tk_fund_native = (\<lambda>_. 0)\<rparr>"

definition converting :: "tracker \<Rightarrow> bool" where
  "converting t \<longleftrightarrow> tk_ccy_count t > 1"

definition upd_pos :: "instrument_id \<Rightarrow> (position \<Rightarrow> position) \<Rightarrow> tracker \<Rightarrow> tracker" where
  "upd_pos i f t = t\<lparr>tk_pos := (tk_pos t)(i := f (tk_pos t i))\<rparr>"

definition count_change :: "tracker \<Rightarrow> tracker" where
  "count_change t = t\<lparr>tk_changes := tk_changes t + 1\<rparr>"

section \<open>Values\<close>

definition po_scale :: "notional \<Rightarrow> instrument \<Rightarrow> notional" where
  "po_scale n inst = (if in_contract_multiplier inst = kFixedScale then n else mul_raw n (in_contract_multiplier inst))"

definition arithmetic_avg :: "int \<Rightarrow> price \<Rightarrow> int \<Rightarrow> price \<Rightarrow> int \<Rightarrow> price" where
  "arithmetic_avg cur avg f px denom = i64 ((cur * avg + f * px) sdiv denom)"

definition harmonic_avg :: "int \<Rightarrow> price \<Rightarrow> int \<Rightarrow> price \<Rightarrow> int \<Rightarrow> price" where
  "harmonic_avg cur avg f px denom =
     (if \<not> px > 0 then avg
      else (let inv0 = (f * kFixedScale) sdiv px;
                inv = (if cur \<noteq> 0 \<and> avg > 0 then inv0 + (cur * kFixedScale) sdiv avg else inv0)
            in if inv = 0 then px else i64 ((denom * kFixedScale) sdiv inv)))"

definition signed_notional :: "position \<Rightarrow> price \<Rightarrow> instrument \<Rightarrow> notional" where
  "signed_notional p mark inst =
     (if po_qty p = 0 \<or> \<not> mark > 0 then 0
      else (let n = in_notional inst mark \<bar>po_qty p\<bar> in if po_qty p < 0 then 0 - n else n))"

definition revalue :: "position \<Rightarrow> price \<Rightarrow> instrument \<Rightarrow> notional" where
  "revalue p mark inst =
     (if po_qty p = 0 \<or> \<not> mark > 0 then 0
      else if inverse_contract inst then inverse_pnl inst (po_avg_px p) mark (po_qty p)
      else po_scale (mul_div_c kFixedScale (mark - po_avg_px p) (po_qty p)) inst)"

section \<open>Totals\<close>

definition book_converted :: "instrument_id \<Rightarrow> total_field \<Rightarrow> notional \<Rightarrow> tracker \<Rightarrow> tracker" where
  "book_converted i f d t =
     (let c = tk_ccy t i; n = tk_native t c f + d; v = convert n (tk_rate t c) in
      t\<lparr>tk_native := (tk_native t)(c := (tk_native t c)(f := n)),
        tk_conv_total := (tk_conv_total t)(f := tk_conv_total t f + (v - tk_conv t c f)),
        tk_conv := (tk_conv t)(c := (tk_conv t c)(f := v))\<rparr>)"

definition tk_book :: "instrument_id \<Rightarrow> total_field \<Rightarrow> notional \<Rightarrow> tracker \<Rightarrow> tracker" where
  "tk_book i f d t = (if converting t then book_converted i f d t else t)"

definition reconvert_field :: "nat \<Rightarrow> total_field \<Rightarrow> tracker \<Rightarrow> tracker" where
  "reconvert_field c f t =
     (let v = convert (tk_native t c f) (tk_rate t c) in
      t\<lparr>tk_conv_total := (tk_conv_total t)(f := tk_conv_total t f + (v - tk_conv t c f)),
        tk_conv := (tk_conv t)(c := (tk_conv t c)(f := v))\<rparr>)"

definition reconvert :: "nat \<Rightarrow> tracker \<Rightarrow> tracker" where
  "reconvert c t = fold (reconvert_field c) [TRealized, TUnrealized, TFees, TGross, TNet] t"

definition set_exposure :: "instrument_id \<Rightarrow> notional \<Rightarrow> tracker \<Rightarrow> tracker" where
  "set_exposure i e t =
     (let cur = tk_exposure t i; dg = \<bar>e\<bar> - \<bar>cur\<bar>; dn = e - cur;
          t1 = t\<lparr>tk_gross_exposure := tk_gross_exposure t + dg, tk_net_exposure := tk_net_exposure t + dn\<rparr>;
          t2 = tk_book i TNet dn (tk_book i TGross dg t1)
      in t2\<lparr>tk_exposure := (tk_exposure t2)(i := e)\<rparr>)"

definition set_unrealized :: "instrument_id \<Rightarrow> notional \<Rightarrow> tracker \<Rightarrow> tracker" where
  "set_unrealized i u t =
     (let d = u - po_unrealized (tk_pos t i);
          t1 = tk_book i TUnrealized d (t\<lparr>tk_unrealized_total := tk_unrealized_total t + d\<rparr>)
      in upd_pos i (\<lambda>p. p\<lparr>po_unrealized := u\<rparr>) t1)"

definition add_realized :: "instrument_id \<Rightarrow> notional \<Rightarrow> tracker \<Rightarrow> tracker" where
  "add_realized i r t =
     (let t1 = upd_pos i (\<lambda>p. p\<lparr>po_realized := po_realized p + r\<rparr>) t
      in tk_book i TRealized r (t1\<lparr>tk_realized_total := tk_realized_total t1 + r\<rparr>))"

definition add_fees :: "instrument_id \<Rightarrow> notional \<Rightarrow> tracker \<Rightarrow> tracker" where
  "add_fees i fee t =
     (let t1 = upd_pos i (\<lambda>p. p\<lparr>po_fees := po_fees p + fee\<rparr>) t
      in tk_book i TFees fee (t1\<lparr>tk_fees_total := tk_fees_total t1 + fee\<rparr>))"

section \<open>Operations\<close>

definition tk_mark :: "instrument_id \<Rightarrow> price \<Rightarrow> instrument \<Rightarrow> tracker \<Rightarrow> tracker" where
  "tk_mark i mid inst t =
     (let t1 = upd_pos i (\<lambda>p. p\<lparr>po_last_mark := mid\<rparr>) t;
          t2 = set_unrealized i (revalue (tk_pos t1 i) mid inst) t1
      in set_exposure i (signed_notional (tk_pos t2 i) mid inst) t2)"

text \<open>The realized PnL of closing \<open>closed\<close> of the position at \<open>px\<close>.\<close>

definition closing_pnl :: "instrument \<Rightarrow> price \<Rightarrow> price \<Rightarrow> int \<Rightarrow> int \<Rightarrow> notional" where
  "closing_pnl inst avg px closed dir =
     (if inverse_contract inst then inverse_pnl inst avg px (closed * dir)
      else po_scale (i64 (((px - avg) * closed * dir) sdiv kFixedScale)) inst)"

definition tk_on_fill ::
  "instrument_id \<Rightarrow> side \<Rightarrow> price \<Rightarrow> qty \<Rightarrow> notional \<Rightarrow> instrument \<Rightarrow> tracker \<Rightarrow> tracker" where
  "tk_on_fill i s px q fee inst t =
     (let f = (if s = Buy then q else - q);
          cur = po_qty (tk_pos t i);
          t1 = upd_pos i (\<lambda>p. p\<lparr>po_gross_traded := po_gross_traded p + q, po_fills := po_fills p + 1\<rparr>)
                 (add_fees i fee (count_change t));
          p = tk_pos t1 i;
          t2 = (if cur = 0 \<or> (cur > 0) = (f > 0)
                then (let denom = cur + f;
                          avg = (if inverse_contract inst then harmonic_avg cur (po_avg_px p) f px denom
                                 else arithmetic_avg cur (po_avg_px p) f px denom)
                      in upd_pos i (\<lambda>p. p\<lparr>po_avg_px := avg, po_qty := denom\<rparr>) t1)
                else (let abs_cur = (if cur < 0 then - cur else cur); abs_f = (if f < 0 then - f else f);
                          closed = (if abs_f < abs_cur then abs_f else abs_cur); dir = (if cur > 0 then 1 else - 1);
                          t2 = add_realized i (closing_pnl inst (po_avg_px p) px closed dir) t1;
                          remaining = abs_f - closed
                      in if remaining > 0
                         then upd_pos i (\<lambda>p. p\<lparr>po_qty := (if f > 0 then remaining else - remaining), po_avg_px := px\<rparr>) t2
                         else upd_pos i (\<lambda>p. p\<lparr>po_qty := cur + f, po_avg_px := (if cur + f = 0 then 0 else po_avg_px p)\<rparr>) t2));
          p2 = tk_pos t2 i
      in if po_last_mark p2 > 0 then tk_mark i (po_last_mark p2) inst t2
         else set_exposure i (signed_notional p2 px inst) t2)"

definition correct_fill ::
  "instrument_id \<Rightarrow> side \<Rightarrow> price \<Rightarrow> price \<Rightarrow> qty \<Rightarrow> notional \<Rightarrow> instrument \<Rightarrow> tracker \<Rightarrow> tracker" where
  "correct_fill i s est_px px q fee inst t =
     (let diff = (if inverse_contract inst then inverse_pnl inst est_px px q
                  else po_scale (mul_div_c kFixedScale (px - est_px) q) inst);
          adj = (if s = Buy then 0 - diff else diff)
      in add_fees i fee (add_realized i adj (count_change t)))"

definition on_funding :: "instrument_id \<Rightarrow> notional \<Rightarrow> tracker \<Rightarrow> tracker" where
  "on_funding i amount t =
     (let t1 = add_realized i amount (count_change t);
          t2 = t1\<lparr>tk_fund_per := (tk_fund_per t1)(i := tk_fund_per t1 i + amount), tk_fund_total := tk_fund_total t1 + amount\<rparr>
      in if converting t2
         then t2\<lparr>tk_fund_native := (tk_fund_native t2)(tk_ccy t2 i := tk_fund_native t2 (tk_ccy t2 i) + amount)\<rparr>
         else t2)"

definition unrealized_at :: "instrument_id \<Rightarrow> price \<Rightarrow> instrument \<Rightarrow> tracker \<Rightarrow> notional" where
  "unrealized_at i mid inst t = revalue (tk_pos t i) mid inst"

definition tk_set :: "instrument_id \<Rightarrow> qty \<Rightarrow> price \<Rightarrow> instrument \<Rightarrow> tracker \<Rightarrow> tracker" where
  "tk_set i q avg inst t =
     (let t1 = count_change t; p = tk_pos t1 i;
          avg' = (if q \<noteq> 0 \<and> \<not> avg > 0
                  then (let same_side = (po_qty p \<noteq> 0 \<and> (po_qty p < 0) = (q < 0))
                        in if same_side \<and> po_avg_px p > 0 then po_avg_px p else po_last_mark p)
                  else avg);
          t2 = upd_pos i (\<lambda>p. p\<lparr>po_qty := q, po_avg_px := (if q = 0 then 0 else avg')\<rparr>) t1;
          t3 = set_unrealized i (revalue (tk_pos t2 i) (po_last_mark (tk_pos t2 i)) inst) t2
      in set_exposure i (signed_notional (tk_pos t3 i) (po_last_mark (tk_pos t3 i)) inst) t3)"

definition tk_reset :: "instrument_id \<Rightarrow> tracker \<Rightarrow> tracker" where
  "tk_reset i t =
     (let t1 = count_change t; p = tk_pos t1 i;
          t2 = tk_book i TRealized (0 - po_realized p) (t1\<lparr>tk_realized_total := tk_realized_total t1 - po_realized p\<rparr>);
          t3 = tk_book i TFees (0 - po_fees p) (t2\<lparr>tk_fees_total := tk_fees_total t2 - po_fees p\<rparr>);
          t4 = t3\<lparr>tk_fund_total := tk_fund_total t3 - tk_fund_per t3 i\<rparr>;
          t5 = (if converting t4
                then t4\<lparr>tk_fund_native := (tk_fund_native t4)(tk_ccy t4 i := tk_fund_native t4 (tk_ccy t4 i) - tk_fund_per t4 i)\<rparr>
                else t4);
          t6 = t5\<lparr>tk_fund_per := (tk_fund_per t5)(i := 0)\<rparr>;
          t7 = set_exposure i 0 (set_unrealized i 0 t6)
      in upd_pos i (\<lambda>_. position_zero) t7)"

text \<open>The two loops of \<^verbatim>\<open>set_accounting\<close> that move what is booked already into its currencies.\<close>

definition add_fund_native :: "instrument_id \<Rightarrow> tracker \<Rightarrow> tracker" where
  "add_fund_native i t =
     t\<lparr>tk_fund_native := (tk_fund_native t)(tk_ccy t i := tk_fund_native t (tk_ccy t i) + tk_fund_per t i)\<rparr>"

definition add_native :: "instrument_id \<Rightarrow> tracker \<Rightarrow> tracker" where
  "add_native i t =
     (let p = tk_pos t i; c = tk_ccy t i; n = tk_native t c in
      t\<lparr>tk_native := (tk_native t)(c :=
         n(TRealized := n TRealized + po_realized p, TUnrealized := n TUnrealized + po_unrealized p,
           TFees := n TFees + po_fees p, TGross := n TGross + \<bar>tk_exposure t i\<bar>, TNet := n TNet + tk_exposure t i))\<rparr>)"

definition set_accounting :: "fx_plan \<Rightarrow> tracker \<Rightarrow> tracker" where
  "set_accounting plan t =
     (let t1 = (count_change t)\<lparr>tk_ccy_count := fp_count plan, tk_ccy := fp_ccy plan,
            tk_rate := (\<lambda>c. if c = 0 then fx_identity else fx_unknown), tk_native := (\<lambda>_ _. 0), tk_conv := (\<lambda>_ _. 0),
            tk_conv_total := (\<lambda>_. 0), tk_fund_native := (\<lambda>_. 0)\<rparr>
      in if \<not> converting t1 then t1
         else reconvert 0 (fold add_native [0..<kMaxInstruments] (fold add_fund_native [0..<kMaxInstruments] t1)))"

definition set_rate :: "nat \<Rightarrow> fx_rate \<Rightarrow> tracker \<Rightarrow> tracker" where
  "set_rate c r t =
     (if c = 0 \<or> c \<ge> kMaxCurrencies then t
      else reconvert c ((count_change t)\<lparr>tk_rate := (tk_rate t)(c := r)\<rparr>))"

section \<open>Reports\<close>

definition tk_total :: "total_field \<Rightarrow> tracker \<Rightarrow> notional" where
  "tk_total f t =
     (if converting t then tk_conv_total t f
      else (case f of TRealized \<Rightarrow> tk_realized_total t | TUnrealized \<Rightarrow> tk_unrealized_total t | TFees \<Rightarrow> tk_fees_total t
              | TGross \<Rightarrow> tk_gross_exposure t | TNet \<Rightarrow> tk_net_exposure t))"

definition total_funding :: "tracker \<Rightarrow> notional" where
  "total_funding t =
     (if \<not> converting t then tk_fund_total t
      else (\<Sum>c\<leftarrow>[0..<tk_ccy_count t]. convert (tk_fund_native t c) (tk_rate t c)))"

definition tk_net_pnl :: "tracker \<Rightarrow> notional" where
  "tk_net_pnl t = tk_total TRealized t + tk_total TUnrealized t - tk_total TFees t"

end
