(* ===== verification/TokenBucket.thy ===== *)
theory TokenBucket
  imports Order
begin

text \<open>
  \<^verbatim>\<open>TokenBucket\<close> of \<^verbatim>\<open>include/fastmm/core/risk.hpp\<close>: the order rate limiter. Tokens are kept in millionths and
  refilled from the nanoseconds elapsed.
\<close>

definition kScale :: int where "kScale = 1000000"

record token_bucket =
  tb_rate :: nat
  tb_capacity :: int
  tb_tokens :: int
  tb_last :: timestamp

definition tb_new :: token_bucket where
  "tb_new = \<lparr>tb_rate = 0, tb_capacity = 0, tb_tokens = 0, tb_last = 0\<rparr>"

definition tb_configure :: "nat \<Rightarrow> nat \<Rightarrow> timestamp \<Rightarrow> token_bucket \<Rightarrow> token_bucket" where
  "tb_configure rate burst now b =
     (let cap = int (if burst = 0 then rate else burst) * kScale
      in \<lparr>tb_rate = rate, tb_capacity = cap, tb_tokens = cap, tb_last = now\<rparr>)"

definition tb_enabled :: "token_bucket \<Rightarrow> bool" where
  "tb_enabled b \<longleftrightarrow> tb_rate b \<noteq> 0"

text \<open>The micro-tokens that \<open>elapsed\<close> nanoseconds bring.\<close>

definition tb_gain :: "token_bucket \<Rightarrow> duration \<Rightarrow> int" where
  "tb_gain b elapsed = i64 ((elapsed * int (tb_rate b) * kScale) sdiv 1000000000)"

definition refill :: "timestamp \<Rightarrow> token_bucket \<Rightarrow> token_bucket" where
  "refill now b =
     (if now \<le> tb_last b then b
      else (let t = tb_tokens b + tb_gain b (now - tb_last b)
            in b\<lparr>tb_tokens := (if t > tb_capacity b then tb_capacity b else t), tb_last := now\<rparr>))"

definition try_take :: "timestamp \<Rightarrow> token_bucket \<Rightarrow> token_bucket \<times> bool" where
  "try_take now b =
     (if tb_rate b = 0 then (b, True)
      else (let b1 = refill now b
            in if tb_tokens b1 < kScale then (b1, False) else (b1\<lparr>tb_tokens := tb_tokens b1 - kScale\<rparr>, True)))"

definition available :: "timestamp \<Rightarrow> token_bucket \<Rightarrow> int" where
  "available now b =
     (if tb_rate b = 0 then i64_max
      else (let t = (if now > tb_last b
                     then (let t = tb_tokens b + tb_gain b (now - tb_last b)
                           in if t > tb_capacity b then tb_capacity b else t)
                     else tb_tokens b)
            in t sdiv kScale))"

definition wait_ns :: "timestamp \<Rightarrow> token_bucket \<Rightarrow> int" where
  "wait_ns now b =
     (if tb_rate b = 0 then 0
      else (let t = (if now > tb_last b then tb_tokens b + tb_gain b (now - tb_last b) else tb_tokens b)
            in if t \<ge> kScale then 0
               else (let need = (kScale - t) * 1000000000; per = int (tb_rate b) * kScale
                     in i64 ((need + per - 1) sdiv per))))"

definition rebase :: "timestamp \<Rightarrow> token_bucket \<Rightarrow> token_bucket" where
  "rebase now b = b\<lparr>tb_last := now\<rparr>"

definition tb_whole_tokens :: "token_bucket \<Rightarrow> int" where
  "tb_whole_tokens b = tb_tokens b sdiv kScale"

end
