(* ===== verification/Risk.thy ===== *)
theory Risk
  imports Position TokenBucket
begin

text \<open>
  \<^verbatim>\<open>include/fastmm/core/risk.hpp\<close> and \<^verbatim>\<open>risk_limits.hpp\<close>: the limits, the market state they are measured
  against, the kill switch, the checks an order passes before it is sent and the headroom the checks leave. The
  members of \<^verbatim>\<open>RiskEngine\<close> are the fields of a record; \<^verbatim>\<open>check_new\<close> and \<^verbatim>\<open>check_replace\<close> return the engine
  after the check (statistics and the rate limiter) with the verdict. A \<^verbatim>\<open>const Position*\<close> is an option, the
  kill word is 32 bits wide and each of its atomic updates is one operation.
\<close>

unbundle bit_operations_syntax

section \<open>Limits and inputs\<close>

record risk_limits =
  rl_max_order_qty :: qty
  rl_max_order_notional :: notional
  rl_max_position :: qty
  rl_max_open_orders :: nat
  rl_price_collar_bps :: int
  rl_fat_finger_bps :: int
  rl_stale_md :: duration
  rl_max_gross_notional :: notional
  rl_max_net_notional :: notional
  rl_max_loss :: notional
  rl_orders_per_sec :: nat
  rl_burst :: nat
  rl_stp :: bool
  rl_max_feed_lag_ms :: nat

definition risk_limits_default :: risk_limits where
  "risk_limits_default =
     \<lparr>rl_max_order_qty = 0, rl_max_order_notional = 0, rl_max_position = 0, rl_max_open_orders = 0,
      rl_price_collar_bps = 0, rl_fat_finger_bps = 0, rl_stale_md = 0, rl_max_gross_notional = 0,
      rl_max_net_notional = 0, rl_max_loss = 0, rl_orders_per_sec = 0, rl_burst = 0, rl_stp = True,
      rl_max_feed_lag_ms = 0\<rparr>"

definition reads_totals :: "risk_limits \<Rightarrow> bool" where
  "reads_totals l \<longleftrightarrow> rl_max_loss l > 0 \<or> rl_max_gross_notional l > 0 \<or> rl_max_net_notional l > 0"

record order_intent =
  oi_instrument :: instrument_id
  oi_venue :: venue_id
  oi_side :: side
  oi_type :: order_type
  oi_price :: price
  oi_qty :: qty
  oi_tif :: time_in_force

record underlying_inputs =
  ui_net :: int
  ui_open :: int
  ui_limited :: bool
  ui_known :: bool

definition underlying_inputs_none :: underlying_inputs where
  "underlying_inputs_none = \<lparr>ui_net = 0, ui_open = 0, ui_limited = False, ui_known = True\<rparr>"

record risk_inputs =
  ri_now :: timestamp
  ri_position :: "position option"
  ri_gross_exposure :: notional
  ri_net_exposure :: notional
  ri_open_same_side :: qty
  ri_open_orders :: nat
  ri_best_own_opposite :: price
  ri_feed_lagged :: bool
  ri_underlying :: underlying_inputs
  ri_balance_short :: bool
  ri_primary_killed :: bool
  ri_account_full :: bool
  ri_flatten :: bool
  ri_reduce_only :: bool

record risk_stats =
  rs_checks :: nat
  rs_passed :: nat
  rs_rejects :: "reject_reason \<Rightarrow> nat"
  rs_trips :: nat

definition risk_stats_zero :: risk_stats where
  "risk_stats_zero = \<lparr>rs_checks = 0, rs_passed = 0, rs_rejects = (\<lambda>_. 0), rs_trips = 0\<rparr>"

record md_state =
  md_book_ts :: timestamp
  md_mid :: price
  md_last_trade :: price
  md_collar_lo :: price
  md_collar_hi :: price
  md_ff_lo :: price
  md_ff_hi :: price

definition md_zero :: md_state where
  "md_zero = \<lparr>md_book_ts = 0, md_mid = 0, md_last_trade = 0, md_collar_lo = 0, md_collar_hi = 0, md_ff_lo = 0, md_ff_hi = 0\<rparr>"

record risk_engine =
  re_limits :: risk_limits
  re_bucket :: token_bucket
  re_stats :: risk_stats
  re_kill :: u32
  re_md :: "instrument_id \<Rightarrow> md_state"
  re_portfolio :: bool
  re_fx_gate :: bool
  re_fx_on :: bool
  re_fx_stale :: duration
  re_und_on :: bool
  re_fx_valid :: "nat \<Rightarrow> bool"
  re_fx_src :: "nat \<Rightarrow> fx_source"
  re_fx_ccy :: "instrument_id \<Rightarrow> nat"
  re_und_count :: nat
  re_und_max :: "nat \<Rightarrow> int"
  re_und_of :: "instrument_id \<Rightarrow> nat"
  re_und_members :: "nat \<Rightarrow> instrument_id"
  re_und_begin :: "nat \<Rightarrow> nat"

section \<open>Configuration\<close>

definition update_flags :: "risk_engine \<Rightarrow> risk_engine" where
  "update_flags r =
     (let gate = (re_fx_on r \<and> reads_totals (re_limits r))
      in r\<lparr>re_fx_gate := gate,
           re_portfolio := (gate \<or> rl_max_gross_notional (re_limits r) > 0 \<or> rl_max_net_notional (re_limits r) > 0),
           re_und_on := (\<exists>u\<in>set [0..<re_und_count r]. re_und_max r u > 0)\<rparr>)"

definition set_limits :: "risk_limits \<Rightarrow> timestamp \<Rightarrow> risk_engine \<Rightarrow> risk_engine" where
  "set_limits l now r =
     (let r1 = update_flags (r\<lparr>re_limits := l\<rparr>)
      in r1\<lparr>re_bucket := tb_configure (rl_orders_per_sec l) (rl_burst l) now (re_bucket r1)\<rparr>)"

definition risk_engine_new :: "risk_limits \<Rightarrow> timestamp \<Rightarrow> risk_engine" where
  "risk_engine_new l now = set_limits l now
     \<lparr>re_limits = risk_limits_default, re_bucket = tb_new, re_stats = risk_stats_zero, re_kill = 0, re_md = (\<lambda>_. md_zero),
      re_portfolio = False, re_fx_gate = False, re_fx_on = False, re_fx_stale = 0, re_und_on = False,
      re_fx_valid = (\<lambda>_. False), re_fx_src = (\<lambda>_. \<lparr>fs_instrument = None, fs_invert = False\<rparr>), re_fx_ccy = (\<lambda>_. 0),
      re_und_count = 0, re_und_max = (\<lambda>_. 0), re_und_of = (\<lambda>_. 0), re_und_members = (\<lambda>_. 0), re_und_begin = (\<lambda>_. 0)\<rparr>"

section \<open>Kill switch\<close>

definition venue_bit :: "venue_id \<Rightarrow> u32" where
  "venue_bit v = push_bit (1 + (if v < 31 then v else 30)) 1"

definition kKillVenueSlots :: nat where "kKillVenueSlots = 31"

definition venue_slot :: "venue_id \<Rightarrow> nat" where
  "venue_slot v = (if v < kKillVenueSlots then v else kKillVenueSlots - 1)"

definition count_trip :: "risk_engine \<Rightarrow> risk_engine" where
  "count_trip r = r\<lparr>re_stats := (re_stats r)\<lparr>rs_trips := rs_trips (re_stats r) + 1\<rparr>\<rparr>"

definition trip :: "risk_engine \<Rightarrow> risk_engine" where
  "trip r = count_trip (r\<lparr>re_kill := re_kill r OR 1\<rparr>)"

definition trip_venue :: "venue_id \<Rightarrow> risk_engine \<Rightarrow> risk_engine" where
  "trip_venue v r = count_trip (r\<lparr>re_kill := re_kill r OR venue_bit v\<rparr>)"

definition risk_reset :: "risk_engine \<Rightarrow> risk_engine" where
  "risk_reset r = r\<lparr>re_kill := 0\<rparr>"

definition reset_venue :: "venue_id \<Rightarrow> risk_engine \<Rightarrow> risk_engine" where
  "reset_venue v r = r\<lparr>re_kill := re_kill r AND NOT (venue_bit v)\<rparr>"

definition killed :: "risk_engine \<Rightarrow> bool" where
  "killed r \<longleftrightarrow> re_kill r AND 1 \<noteq> 0"

definition venue_killed :: "risk_engine \<Rightarrow> venue_id \<Rightarrow> bool" where
  "venue_killed r v \<longleftrightarrow> re_kill r AND venue_bit v \<noteq> 0"

definition on_pnl :: "notional \<Rightarrow> risk_engine \<Rightarrow> risk_engine \<times> bool" where
  "on_pnl net r =
     (if rl_max_loss (re_limits r) > 0 \<and> net \<le> - rl_max_loss (re_limits r) \<and> \<not> killed r then (trip r, True) else (r, False))"

section \<open>Market state\<close>

text \<open>The band of \<open>bps\<close> around a price, \<open>(0, 0)\<close> when there is none.\<close>

definition price_band :: "int \<Rightarrow> price \<Rightarrow> price \<times> price" where
  "price_band bps px =
     (if bps > 0 \<and> px > 0
      then (let band = apply_bps px bps
            in case checked_add px band of Some hi \<Rightarrow> (px - band, hi) | None \<Rightarrow> (0, 0))
      else (0, 0))"

definition on_book :: "instrument_id \<Rightarrow> price \<Rightarrow> timestamp \<Rightarrow> risk_engine \<Rightarrow> risk_engine" where
  "on_book i mid ts r =
     (if i \<ge> kMaxInstruments then r
      else (let (lo, hi) = price_band (rl_price_collar_bps (re_limits r)) mid
            in r\<lparr>re_md := (re_md r)(i := (re_md r i)\<lparr>md_book_ts := ts, md_mid := mid, md_collar_lo := lo, md_collar_hi := hi\<rparr>)\<rparr>))"

definition on_trade :: "instrument_id \<Rightarrow> price \<Rightarrow> risk_engine \<Rightarrow> risk_engine" where
  "on_trade i px r =
     (if i \<ge> kMaxInstruments then r
      else (let (lo, hi) = price_band (rl_fat_finger_bps (re_limits r)) px
            in r\<lparr>re_md := (re_md r)(i := (re_md r i)\<lparr>md_last_trade := px, md_ff_lo := lo, md_ff_hi := hi\<rparr>)\<rparr>))"

definition set_fx :: "fx_plan \<Rightarrow> risk_engine \<Rightarrow> risk_engine" where
  "set_fx plan r =
     (let r1 = update_flags (r\<lparr>re_fx_on := fp_active plan, re_fx_stale := fp_stale plan\<rparr>)
      in r1\<lparr>re_fx_ccy := fp_ccy plan, re_fx_src := fp_sources plan, re_fx_valid := (\<lambda>_. False)\<rparr>)"

definition on_fx_book :: "nat \<Rightarrow> bool \<Rightarrow> risk_engine \<Rightarrow> risk_engine" where
  "on_fx_book c valid r = (if c < kMaxCurrencies then r\<lparr>re_fx_valid := (re_fx_valid r)(c := valid)\<rparr> else r)"

definition older_than :: "timestamp \<Rightarrow> timestamp \<Rightarrow> duration \<Rightarrow> bool" where
  "older_than now ts age \<longleftrightarrow> age > 0 \<and> (ts = 0 \<or> now - ts > age)"

definition risk_fx_rate :: "nat \<Rightarrow> timestamp \<Rightarrow> risk_engine \<Rightarrow> fx_rate" where
  "risk_fx_rate c now r =
     (if c = 0 then fx_identity
      else if c \<ge> kMaxCurrencies \<or> \<not> re_fx_valid r c then fx_unknown
      else (case fs_instrument (re_fx_src r c) of
              None \<Rightarrow> fx_unknown
            | Some i \<Rightarrow> (let md = re_md r i
                        in if older_than now (md_book_ts md) (re_fx_stale r) then fx_unknown
                           else fx_from_mid (md_mid md) (fs_invert (re_fx_src r c)))))"

section \<open>Underlyings\<close>

definition set_underlying :: "underlying_plan \<Rightarrow> risk_engine \<Rightarrow> risk_engine" where
  "set_underlying plan r = update_flags
     (r\<lparr>re_und_count := up_count plan, re_und_of := up_of plan, re_und_members := up_members plan,
        re_und_begin := up_begin plan, re_und_max := up_max_net plan\<rparr>)"

definition set_underlying_limit :: "nat \<Rightarrow> qty \<Rightarrow> risk_engine \<Rightarrow> risk_engine \<times> bool" where
  "set_underlying_limit u max_net r =
     (if u \<ge> re_und_count r \<or> max_net < 0 then (r, False)
      else (update_flags (r\<lparr>re_und_max := (re_und_max r)(u := max_net)\<rparr>), True))"

definition underlying_limit :: "nat \<Rightarrow> risk_engine \<Rightarrow> qty" where
  "underlying_limit u r = (if u < kMaxUnderlyings then re_und_max r u else 0)"

definition underlying_mark :: "instrument_id \<Rightarrow> timestamp \<Rightarrow> risk_engine \<Rightarrow> price" where
  "underlying_mark i now r =
     (if i \<ge> kMaxInstruments then 0
      else (let md = re_md r i
            in if \<not> md_mid md > 0 then 0
               else if older_than now (md_book_ts md) (rl_stale_md (re_limits r)) then 0
               else md_mid md))"

definition und_instruments :: "risk_engine \<Rightarrow> nat \<Rightarrow> instrument_id list" where
  "und_instruments r u = map (re_und_members r) [re_und_begin r u..<re_und_begin r (u + 1)]"

text \<open>The loop of \<^verbatim>\<open>underlying_net\<close> goes on past an unknown mark; that of \<^verbatim>\<open>underlying_inputs\<close> stops there.\<close>

definition underlying_net ::
  "nat \<Rightarrow> (instrument_id \<Rightarrow> instrument) \<Rightarrow> timestamp \<Rightarrow> (instrument_id \<Rightarrow> qty) \<Rightarrow> risk_engine \<Rightarrow> int \<times> bool" where
  "underlying_net u insts now position_of r =
     (if u \<ge> re_und_count r then (0, False)
      else fold (\<lambda>j (net, known).
             case to_base_units (insts j) (position_of j) (underlying_mark j now r) of
               Some b \<Rightarrow> (net + b, known) | None \<Rightarrow> (net, False))
           (und_instruments r u) (0, True))"

fun underlying_sum ::
  "(instrument_id \<Rightarrow> instrument) \<Rightarrow> timestamp \<Rightarrow> (instrument_id \<Rightarrow> qty) \<Rightarrow> (instrument_id \<Rightarrow> qty) \<Rightarrow> risk_engine \<Rightarrow>
   instrument_id list \<Rightarrow> underlying_inputs \<Rightarrow> underlying_inputs" where
  "underlying_sum insts now position_of open_of r [] x = x"
| "underlying_sum insts now position_of open_of r (j # js) x =
     (let mark = underlying_mark j now r
      in case (to_base_units (insts j) (position_of j) mark, to_base_units (insts j) (open_of j) mark) of
           (Some p, Some q) \<Rightarrow>
             underlying_sum insts now position_of open_of r js (x\<lparr>ui_net := ui_net x + p, ui_open := ui_open x + q\<rparr>)
         | _ \<Rightarrow> x\<lparr>ui_known := False\<rparr>)"

definition gather_underlying ::
  "instrument_id \<Rightarrow> (instrument_id \<Rightarrow> instrument) \<Rightarrow> timestamp \<Rightarrow> (instrument_id \<Rightarrow> qty) \<Rightarrow> (instrument_id \<Rightarrow> qty) \<Rightarrow>
   risk_engine \<Rightarrow> underlying_inputs" where
  "gather_underlying i insts now position_of open_of r =
     (if i \<ge> kMaxInstruments \<or> re_und_of r i = 0 then underlying_inputs_none
      else (let u = re_und_of r i - 1
            in if re_und_max r u \<le> 0 then underlying_inputs_none
               else underlying_sum insts now position_of open_of r (und_instruments r u)
                      (underlying_inputs_none\<lparr>ui_limited := True\<rparr>)))"

section \<open>Checks\<close>

definition may_rest :: "order_intent \<Rightarrow> bool" where
  "may_rest ord \<longleftrightarrow> oi_type ord \<noteq> Market \<and> oi_tif ord \<noteq> Ioc \<and> oi_tif ord \<noteq> Fok"

definition reduces_position :: "order_intent \<Rightarrow> risk_inputs \<Rightarrow> qty \<Rightarrow> bool" where
  "reduces_position ord inp excl =
     (case ri_position inp of
        None \<Rightarrow> False
      | Some p \<Rightarrow> opening_qty (po_qty p) (oi_side ord) (ri_open_same_side inp - excl) (oi_qty ord) = 0)"

definition at_or_better_cross :: "side \<Rightarrow> price \<Rightarrow> price \<Rightarrow> bool" where
  "at_or_better_cross s px own = (if s = Buy then px \<ge> own else px \<le> own)"

definition exceeds_position :: "risk_limits \<Rightarrow> order_intent \<Rightarrow> risk_inputs \<Rightarrow> qty \<Rightarrow> bool" where
  "exceeds_position l ord inp excl =
     (rl_max_position l > 0 \<and>
      (case ri_position inp of
         None \<Rightarrow> False
       | Some p \<Rightarrow>
           (let dir = side_sign (oi_side ord);
                predicted = po_qty p + dir * (ri_open_same_side inp - excl + oi_qty ord);
                abs_pred = (if predicted < 0 then - predicted else predicted);
                cur_abs = (if po_qty p < 0 then - po_qty p else po_qty p)
            in abs_pred > rl_max_position l \<and> abs_pred > cur_abs)))"

text \<open>The portfolio block and the underlying block of \<^verbatim>\<open>evaluate\<close>: the reason they return, or \<^const>\<open>NoReject\<close> to
  go on.\<close>

definition check_portfolio :: "risk_engine \<Rightarrow> order_intent \<Rightarrow> notional \<Rightarrow> risk_inputs \<Rightarrow> qty \<Rightarrow> reject_reason" where
  "check_portfolio r ord notional inp excl =
     (case ri_position inp of
        None \<Rightarrow> NoReject
      | Some p \<Rightarrow>
          (let opens = opening_qty (po_qty p) (oi_side ord) (ri_open_same_side inp - excl) (oi_qty ord);
               c = re_fx_ccy r (oi_instrument ord); rate = risk_fx_rate c (ri_now inp) r; l = re_limits r
           in if \<not> re_portfolio r \<or> \<not> opens > 0 then NoReject
              else if re_fx_gate r \<and> c \<noteq> 0 \<and> \<not> fx_known rate then FxRateUnknown
              else (let exposure = (if re_fx_gate r \<and> c \<noteq> 0 then convert notional rate else notional);
                        net = ri_net_exposure inp + (if oi_side ord = Buy then exposure else 0 - exposure)
                    in if rl_max_gross_notional l > 0 \<and>
                          ri_gross_exposure inp + notional_share exposure opens (oi_qty ord) > rl_max_gross_notional l
                       then MaxGrossNotional
                       else if rl_max_net_notional l > 0 \<and> \<bar>net\<bar> > rl_max_net_notional l \<and> \<bar>net\<bar> > \<bar>ri_net_exposure inp\<bar>
                       then MaxNetNotional
                       else NoReject)))"

definition check_underlying :: "risk_engine \<Rightarrow> order_intent \<Rightarrow> instrument \<Rightarrow> risk_inputs \<Rightarrow> qty \<Rightarrow> reject_reason" where
  "check_underlying r ord inst inp excl =
     (let u = ri_underlying inp in
      if \<not> ui_limited u \<or> ri_position inp = None then NoReject
      else if \<not> ui_known u then UnderlyingMarkUnknown
      else (case to_base_units inst (oi_qty ord - excl) (underlying_mark (oi_instrument ord) (ri_now inp) r) of
              None \<Rightarrow> UnderlyingMarkUnknown
            | Some add \<Rightarrow>
                (let worst = ui_net u + side_sign (oi_side ord) * (ui_open u + add)
                 in if underlying_exceeds (re_und_max r (re_und_of r (oi_instrument ord) - 1)) (ui_net u) worst
                    then MaxUnderlyingNet else NoReject)))"

definition order_notional :: "risk_engine \<Rightarrow> order_intent \<Rightarrow> instrument \<Rightarrow> notional" where
  "order_notional r ord inst =
     in_notional inst (if oi_type ord = Market then md_mid (re_md r (oi_instrument ord)) else oi_price ord) (oi_qty ord)"

text \<open>Everything \<^verbatim>\<open>evaluate\<close> looks at before the rate limiter.\<close>

definition evaluate_limits ::
  "risk_engine \<Rightarrow> order_intent \<Rightarrow> instrument \<Rightarrow> risk_inputs \<Rightarrow> qty \<Rightarrow> bool \<Rightarrow> reject_reason" where
  "evaluate_limits r ord inst inp excl count_order =
     (let l = re_limits r; md = re_md r (oi_instrument ord); notional = order_notional r ord inst;
          portfolio = check_portfolio r ord notional inp excl;
          underlying = check_underlying r ord inst inp excl
      in if re_kill r AND 1 \<noteq> 0 \<and> \<not> ri_flatten inp then KillSwitch
         else if re_kill r AND venue_bit (oi_venue ord) \<noteq> 0 then VenueKilled
         else if \<not> enabled inst \<or> oi_instrument ord \<ge> kMaxInstruments then InstrumentDisabled
         else if oi_type ord \<noteq> Market \<and> \<not> valid_price inst (oi_price ord) then InvalidTick
         else if \<not> valid_qty inst (oi_qty ord) then InvalidLot
         else if in_min_notional inst > 0 \<and> notional < in_min_notional inst then BelowMinNotional
         else if older_than (ri_now inp) (md_book_ts md) (rl_stale_md l) then StaleMarketData
         else if ri_feed_lagged inp \<and> may_rest ord \<and> \<not> reduces_position ord inp excl then FeedLag
         else if oi_type ord \<noteq> Market \<and> md_collar_hi md > 0 \<and>
                 (oi_price ord < md_collar_lo md \<or> oi_price ord > md_collar_hi md) then PriceCollar
         else if oi_type ord \<noteq> Market \<and> md_ff_hi md > 0 \<and>
                 (oi_price ord < md_ff_lo md \<or> oi_price ord > md_ff_hi md) then FatFinger
         else if rl_max_order_qty l > 0 \<and> oi_qty ord > rl_max_order_qty l then MaxOrderQty
         else if rl_max_order_notional l > 0 \<and> notional > rl_max_order_notional l then MaxOrderNotional
         else if ri_reduce_only inp \<and>
                 (case ri_position inp of None \<Rightarrow> False
                  | Some p \<Rightarrow> \<not> nearer_zero (po_qty p) (oi_side ord) (ri_open_same_side inp - excl) (oi_qty ord))
         then ReduceOnly
         else if exceeds_position l ord inp excl then MaxPosition
         else if portfolio \<noteq> NoReject then portfolio
         else if underlying \<noteq> NoReject then underlying
         else if count_order \<and> rl_max_open_orders l > 0 \<and> ri_open_orders inp \<ge> rl_max_open_orders l then MaxOpenOrders
         else if rl_stp l \<and> oi_type ord \<noteq> Market \<and> ri_best_own_opposite inp > 0 \<and>
                 at_or_better_cross (oi_side ord) (oi_price ord) (ri_best_own_opposite inp) then SelfTradePrevention
         else if ri_balance_short inp then BalanceShort
         else if ri_primary_killed inp then VenueKilled
         else if ri_account_full inp then RateLimit
         else NoReject)"

definition evaluate ::
  "order_intent \<Rightarrow> instrument \<Rightarrow> risk_inputs \<Rightarrow> qty \<Rightarrow> bool \<Rightarrow> risk_engine \<Rightarrow> risk_engine \<times> reject_reason" where
  "evaluate ord inst inp excl count_order r =
     (let reason = evaluate_limits r ord inst inp excl count_order
      in if reason \<noteq> NoReject then (r, reason)
         else (let (b, ok) = try_take (ri_now inp) (re_bucket r)
               in (r\<lparr>re_bucket := b\<rparr>, if ok then NoReject else RateLimit)))"

definition risk_check ::
  "order_intent \<Rightarrow> instrument \<Rightarrow> risk_inputs \<Rightarrow> qty \<Rightarrow> bool \<Rightarrow> risk_engine \<Rightarrow> risk_engine \<times> reject_reason" where
  "risk_check ord inst inp excl count_order r =
     (let s = re_stats r;
          (r1, reason) = evaluate ord inst inp excl count_order (r\<lparr>re_stats := s\<lparr>rs_checks := rs_checks s + 1\<rparr>\<rparr>);
          s1 = re_stats r1;
          s2 = (if reason = NoReject then s1\<lparr>rs_passed := rs_passed s1 + 1\<rparr>
                else s1\<lparr>rs_rejects := (rs_rejects s1)(reason := rs_rejects s1 reason + 1)\<rparr>)
      in (r1\<lparr>re_stats := s2\<rparr>, reason))"

definition check_new :: "order_intent \<Rightarrow> instrument \<Rightarrow> risk_inputs \<Rightarrow> risk_engine \<Rightarrow> risk_engine \<times> reject_reason" where
  "check_new ord inst inp r = risk_check ord inst inp 0 True r"

definition check_replace ::
  "order_intent \<Rightarrow> order \<Rightarrow> instrument \<Rightarrow> risk_inputs \<Rightarrow> risk_engine \<Rightarrow> risk_engine \<times> reject_reason" where
  "check_replace ord existing inst inp r = risk_check ord inst inp (leaves_qty existing) False r"

section \<open>Headroom\<close>

record risk_headroom =
  rh_order_tokens :: int
  rh_open_orders :: int
  rh_max_order_qty :: qty
  rh_max_order_notional :: notional
  rh_buy_qty :: qty
  rh_sell_qty :: qty
  rh_underlying_buy_qty :: qty
  rh_underlying_sell_qty :: qty
  rh_gross_notional :: notional
  rh_net_buy_notional :: notional
  rh_net_sell_notional :: notional
  rh_exposure_buy_notional :: notional
  rh_exposure_sell_notional :: notional
  rh_loss_budget :: notional
  rh_balance_buy_qty :: qty
  rh_balance_sell_qty :: qty

definition to_own :: "notional \<Rightarrow> fx_rate \<Rightarrow> notional" where
  "to_own n rate =
     (if n = i64_max \<or> fx_num rate = fx_den rate then n
      else (let x = (n * fx_den rate) sdiv fx_num rate in if x \<ge> i64_max then i64_max else i64 x))"

definition lot_floor :: "instrument \<Rightarrow> int \<Rightarrow> qty" where
  "lot_floor inst raw =
     (if raw \<le> 0 then 0 else if \<not> in_lot inst > 0 then raw else raw - raw smod in_lot inst)"

text \<open>The position rooms, the net rooms (the same arithmetic) and the two \<^verbatim>\<open>room\<close> functions of \<^verbatim>\<open>headroom\<close>.\<close>

definition buy_room :: "int \<Rightarrow> int \<Rightarrow> int \<Rightarrow> int" where
  "buy_room m q opn = (let b = m - q - opn in if q < 0 then max b (- 2 * q - opn) else b)"

definition sell_room :: "int \<Rightarrow> int \<Rightarrow> int \<Rightarrow> int" where
  "sell_room m q opn = (let s = m + q - opn in if q > 0 then max s (2 * q - opn) else s)"

definition exposure_room ::
  "risk_engine \<Rightarrow> instrument \<Rightarrow> position \<Rightarrow> timestamp \<Rightarrow> notional \<Rightarrow> bool \<Rightarrow> qty \<Rightarrow> notional \<Rightarrow> notional" where
  "exposure_room r inst p now gross is_buy ahead net =
     (let q = po_qty p; c = re_fx_ccy r (in_id inst); mid = md_mid (re_md r (in_id inst));
          left = (if q \<noteq> 0 \<and> (q > 0) \<noteq> is_buy then (if q < 0 then - q else q) - ahead else 0);
          closes = (if left > 0 \<and> mid > 0 then in_notional inst mid left else 0);
          conv = (re_fx_gate r \<and> c \<noteq> 0); rate = risk_fx_rate c now r
      in if conv \<and> \<not> fx_known rate then closes
         else (let g = (if conv then to_own gross rate else gross); n = (if conv then to_own net rate else net);
                   opened = (if g = i64_max \<or> closes > i64_max - g then i64_max else closes + g)
               in max closes (min opened n)))"

definition underlying_room :: "instrument \<Rightarrow> price \<Rightarrow> int \<Rightarrow> underlying_inputs \<Rightarrow> bool \<Rightarrow> qty" where
  "underlying_room inst mark m u is_buy =
     (if \<not> ui_known u \<or> (inverse_contract inst \<and> \<not> mark > 0) then 0
      else (let q = (if is_buy then ui_net u else - ui_net u); x = buy_room m q (ui_open u)
            in if x \<le> 0 then 0
               else lot_floor inst (i64 (if inverse_contract inst then (x * mark) sdiv in_contract_multiplier inst
                                         else (x * kFixedScale) sdiv in_contract_multiplier inst))))"

definition headroom ::
  "risk_engine \<Rightarrow> instrument \<Rightarrow> risk_inputs \<Rightarrow> risk_inputs \<Rightarrow> notional \<Rightarrow> risk_headroom" where
  "headroom r inst buy sell net_pnl =
     (let l = re_limits r; i = in_id inst;
          n = ri_net_exposure buy; m = rl_max_net_notional l;
          gross = (if rl_max_gross_notional l > 0 then max 0 (rl_max_gross_notional l - ri_gross_exposure buy) else i64_max);
          net_buy = (if m > 0 then max 0 (buy_room m n 0) else i64_max);
          net_sell = (if m > 0 then max 0 (sell_room m n 0) else i64_max);
          left = int (rl_max_open_orders l) - int (ri_open_orders buy);
          und = (ui_limited (ri_underlying buy) \<and> i < kMaxInstruments);
          um = re_und_max r (re_und_of r i - 1); mark = underlying_mark i (ri_now buy) r
      in \<lparr>rh_order_tokens = available (ri_now buy) (re_bucket r),
          rh_open_orders = (if rl_max_open_orders l > 0 then (if left > 0 then left else 0) else i64_max),
          rh_max_order_qty = (if rl_max_order_qty l > 0 then rl_max_order_qty l else i64_max),
          rh_max_order_notional = (if rl_max_order_notional l > 0 then rl_max_order_notional l else i64_max),
          rh_buy_qty = (case ri_position buy of
             Some p \<Rightarrow> if rl_max_position l > 0
               then lot_floor inst (buy_room (rl_max_position l) (po_qty p) (ri_open_same_side buy)) else i64_max
           | None \<Rightarrow> i64_max),
          rh_sell_qty = (case ri_position buy of
             Some p \<Rightarrow> if rl_max_position l > 0
               then lot_floor inst (sell_room (rl_max_position l) (po_qty p) (ri_open_same_side sell)) else i64_max
           | None \<Rightarrow> i64_max),
          rh_underlying_buy_qty = (if und then underlying_room inst mark um (ri_underlying buy) True else i64_max),
          rh_underlying_sell_qty = (if und then underlying_room inst mark um (ri_underlying sell) False else i64_max),
          rh_gross_notional = gross, rh_net_buy_notional = net_buy, rh_net_sell_notional = net_sell,
          rh_exposure_buy_notional = (case ri_position buy of
             Some p \<Rightarrow> if re_portfolio r \<and> i < kMaxInstruments
               then exposure_room r inst p (ri_now buy) gross True (ri_open_same_side buy) net_buy else i64_max
           | None \<Rightarrow> i64_max),
          rh_exposure_sell_notional = (case ri_position buy of
             Some p \<Rightarrow> if re_portfolio r \<and> i < kMaxInstruments
               then exposure_room r inst p (ri_now buy) gross False (ri_open_same_side sell) net_sell else i64_max
           | None \<Rightarrow> i64_max),
          rh_loss_budget = (if rl_max_loss l > 0 then rl_max_loss l + net_pnl else i64_max),
          rh_balance_buy_qty = i64_max, rh_balance_sell_qty = i64_max\<rparr>)"

end
