(* ===== verification/Engine.thy ===== *)
theory Engine
  imports Oms Risk Position
begin

unbundle bit_operations_syntax

text \<open>
  The order path of \<^verbatim>\<open>include/fastmm/core/engine.hpp\<close>: how an order, a replace or a cancel is checked and sent, and what
  each message about an order does to the order manager, the positions and the risk engine. The state holds the engine's
  members of the models before it (\<^verbatim>\<open>risk_\<close>, \<^verbatim>\<open>positions_\<close>, \<^verbatim>\<open>oms_\<close>, \<^verbatim>\<open>instruments_\<close>); what a check asks of the
  engine's other members (account pools, balances, feed health, capacity pricing) comes in an \<open>engine_view\<close>. What the quoter,
  the strategy and a kill send in answer to an update are further events; journal, records and statistics are left out.
\<close>

section \<open>State\<close>

record engine_state =
  en_risk :: risk_engine
  en_positions :: tracker
  en_oms :: oms
  en_instruments :: instrument_table
  en_pnl_carry :: notional

text \<open>The answers of the other members when an order is sent: the clock, the venues still to reconcile, the account pool's
  route (its refusal or the account), whether the price admits the purchase, whether the feed of the venue is gated, whether the
  balance is short, the account's order window full, the instrument reduce-only, replaces supported, and the arm of a
  comparison the order is counted for.\<close>

record engine_view =
  ev_now :: timestamp
  ev_awaiting :: bool
  ev_pools :: bool
  ev_route :: "reject_reason + venue_id"
  ev_priced_out :: bool
  ev_gated :: bool
  ev_balance_short :: bool
  ev_window_full :: bool
  ev_reduce_only :: bool
  ev_supports_replace :: bool
  ev_arm :: nat

datatype fee_asset = QuoteFee | BaseFee | OtherFee

definition net_pnl :: "engine_state \<Rightarrow> notional" where
  "net_pnl e = tk_net_pnl (en_positions e) + en_pnl_carry e"

text \<open>\<^verbatim>\<open>if (risk_.on_pnl(net_pnl())) on_kill(...)\<close>; the cancels of the kill are events of their own.\<close>

definition check_loss :: "engine_state \<Rightarrow> engine_state" where
  "check_loss e = e\<lparr>en_risk := fst (on_pnl (net_pnl e) (en_risk e))\<rparr>"

section \<open>Sending\<close>

definition engine_underlying :: "instrument_id \<Rightarrow> side \<Rightarrow> timestamp \<Rightarrow> engine_state \<Rightarrow> underlying_inputs" where
  "engine_underlying i sd now e =
     gather_underlying i (it_get (en_instruments e)) now (\<lambda>j. po_qty (tk_pos (en_positions e) j))
       (\<lambda>j. om_open_qty (en_oms e) j sd) (en_risk e)"

definition new_inputs :: "new_order_request \<Rightarrow> bool \<Rightarrow> venue_id \<Rightarrow> engine_view \<Rightarrow> engine_state \<Rightarrow> risk_inputs" where
  "new_inputs req flatten account v e =
     (let i = nr_instrument req; inst = it_get (en_instruments e) i in
      \<lparr>ri_now = ev_now v,
       ri_position = (if flatten then None else Some (tk_pos (en_positions e) i)),
       ri_gross_exposure = tk_total TGross (en_positions e), ri_net_exposure = tk_total TNet (en_positions e),
       ri_open_same_side = om_open_qty (en_oms e) i (nr_side req),
       ri_open_orders = nat (om_open_per_inst (en_oms e) i),
       ri_best_own_opposite = (if flatten then 0 else om_best_own (en_oms e) i (opposite (nr_side req))),
       ri_feed_lagged = ev_gated v,
       ri_underlying = (if re_und_on (en_risk e) \<and> \<not> flatten then engine_underlying i (nr_side req) (ev_now v) e
                        else underlying_inputs_none),
       ri_balance_short = ev_balance_short v,
       ri_primary_killed = (account \<noteq> in_venue inst \<and> venue_killed (en_risk e) (in_venue inst)),
       ri_account_full = (ev_pools v \<and> ev_window_full v),
       ri_flatten = flatten, ri_reduce_only = ev_reduce_only v\<rparr>)"

text \<open>The account an order goes from.\<close>

definition order_account :: "new_order_request \<Rightarrow> instrument \<Rightarrow> engine_view \<Rightarrow> reject_reason + venue_id" where
  "order_account req inst v =
     (if ev_pools v
      then (case ev_route v of
              Inl rr \<Rightarrow> Inl rr
            | Inr account \<Rightarrow> if account = venue_invalid then Inl InvalidAccount else Inr account)
      else if nr_account req \<noteq> venue_invalid \<and> nr_account req \<noteq> in_venue inst then Inl InvalidAccount
      else Inr (in_venue inst))"

definition on_ids_exhausted :: "risk_engine \<Rightarrow> risk_engine" where
  "on_ids_exhausted r = (if killed r then r else trip r)"

definition set_arm :: "nat \<Rightarrow> nat \<Rightarrow> oms \<Rightarrow> oms" where
  "set_arm h arm = upd_order h (\<lambda>od. od\<lparr>o_arm := arm\<rparr>)"

text \<open>What follows a check that passed: the id, the order manager's own checks, the order.\<close>

definition send_new :: "new_order_request \<Rightarrow> venue_id \<Rightarrow> engine_view \<Rightarrow> engine_state \<Rightarrow> engine_state \<times> (reject_reason + cl_ord_id)" where
  "send_new req account v e =
     (case next_cl_ord_id (en_oms e) of (s1, cid) \<Rightarrow>
      if cid = 0 then (e\<lparr>en_oms := s1, en_risk := on_ids_exhausted (en_risk e)\<rparr>, Inl PoolExhausted)
      else case submit (req\<lparr>nr_venue := account, nr_account := account\<rparr>) cid (ev_now v) s1 of
             (s2, Inl rr) \<Rightarrow> (e\<lparr>en_oms := s2\<rparr>, Inl rr)
           | (s2, Inr h) \<Rightarrow> (e\<lparr>en_oms := set_arm h (ev_arm v) s2\<rparr>, Inr cid))"

definition submit_new ::
  "new_order_request \<Rightarrow> bool \<Rightarrow> engine_view \<Rightarrow> engine_state \<Rightarrow> engine_state \<times> (reject_reason + cl_ord_id)" where
  "submit_new req flatten v e =
     (if \<not> it_contains (en_instruments e) (nr_instrument req) then (e, Inl InstrumentDisabled)
      else if ev_awaiting v then (e, Inl NotReconciled)
      else let inst = it_get (en_instruments e) (nr_instrument req) in
        case order_account req inst v of
          Inl rr \<Rightarrow> (e, Inl rr)
        | Inr account \<Rightarrow>
            if ev_priced_out v then (e, Inl PricedOut)
            else
              let oi = \<lparr>oi_instrument = nr_instrument req, oi_venue = account, oi_side = nr_side req, oi_type = nr_type req,
                        oi_price = nr_price req, oi_qty = nr_qty req, oi_tif = nr_tif req\<rparr>;
                  (r, rr) = check_new oi inst (new_inputs req flatten account v e) (en_risk e);
                  e1 = e\<lparr>en_risk := r\<rparr>
              in if rr \<noteq> NoReject then (e1, Inl rr) else send_new req account v e1)"

definition submit_cancel :: "nat \<Rightarrow> engine_state \<Rightarrow> engine_state \<times> reject_reason option" where
  "submit_cancel h e = (case request_cancel h (en_oms e) of (s, r) \<Rightarrow> (e\<lparr>en_oms := s\<rparr>, r))"

definition replace_inputs :: "order \<Rightarrow> engine_view \<Rightarrow> engine_state \<Rightarrow> risk_inputs" where
  "replace_inputs od v e =
     (let i = o_instrument od in
      \<lparr>ri_now = ev_now v, ri_position = Some (tk_pos (en_positions e) i),
       ri_gross_exposure = tk_total TGross (en_positions e), ri_net_exposure = tk_total TNet (en_positions e),
       ri_open_same_side = om_open_qty (en_oms e) i (o_side od),
       ri_open_orders = nat (om_open_per_inst (en_oms e) i),
       ri_best_own_opposite = om_best_own (en_oms e) i (opposite (o_side od)),
       ri_feed_lagged = ev_gated v,
       ri_underlying = (if re_und_on (en_risk e) then engine_underlying i (o_side od) (ev_now v) e else underlying_inputs_none),
       ri_balance_short = ev_balance_short v, ri_primary_killed = False, ri_account_full = False, ri_flatten = False,
       ri_reduce_only = ev_reduce_only v\<rparr>)"

definition send_replace :: "nat \<Rightarrow> price \<Rightarrow> qty \<Rightarrow> engine_view \<Rightarrow> engine_state \<Rightarrow> engine_state \<times> reject_reason option" where
  "send_replace h px q v e =
     (case next_cl_ord_id (en_oms e) of (s1, new_id) \<Rightarrow>
      if new_id = 0 then (e\<lparr>en_oms := s1, en_risk := on_ids_exhausted (en_risk e)\<rparr>, Some PoolExhausted)
      else case request_replace h new_id px q (ev_now v) s1 of
             (s2, Some rr) \<Rightarrow> (e\<lparr>en_oms := s2\<rparr>, Some rr)
           | (s2, None) \<Rightarrow> (e\<lparr>en_oms := set_arm h (ev_arm v) s2\<rparr>, None))"

definition submit_replace :: "nat \<Rightarrow> price \<Rightarrow> qty \<Rightarrow> engine_view \<Rightarrow> engine_state \<Rightarrow> engine_state \<times> reject_reason option" where
  "submit_replace h px q v e =
     (if \<not> pool_is_live (om_pool (en_oms e)) h then (e, Some UnknownOrder)
      else let od = order_at (en_oms e) h in
        if \<not> is_working od then (e, Some InvalidState)
        else if \<not> ev_supports_replace v then (e, Some VenueReject)
        else
          let oi = \<lparr>oi_instrument = o_instrument od, oi_venue = o_venue od, oi_side = o_side od, oi_type = o_type od,
                    oi_price = px, oi_qty = q, oi_tif = o_tif od\<rparr>;
              (r, rr) = check_replace oi od (it_get (en_instruments e) (o_instrument od)) (replace_inputs od v e) (en_risk e);
              e1 = e\<lparr>en_risk := r\<rparr>
          in if rr \<noteq> NoReject then (e1, Some rr) else send_replace h px q v e1)"

section \<open>Messages about orders\<close>

text \<open>A quantity the venue counts as filled and no fill message covered.\<close>

definition book_missed_fill :: "oms_update \<Rightarrow> engine_state \<Rightarrow> engine_state" where
  "book_missed_fill u e =
     (let od = u_order u in
      if u_missed_qty u = 0 \<or> \<not> it_contains (en_instruments e) (o_instrument od) then e
      else check_loss (e\<lparr>en_positions := tk_on_fill (o_instrument od) (o_side od) (o_price od) (u_missed_qty u) 0
                          (it_get (en_instruments e) (o_instrument od)) (en_positions e)\<rparr>))"

definition after_oms_update :: "oms \<times> oms_update \<Rightarrow> engine_state \<Rightarrow> engine_state" where
  "after_oms_update su e = book_missed_fill (snd su) (e\<lparr>en_oms := fst su\<rparr>)"

text \<open>The quantity and the fee of an execution as they are booked: a commission in the base asset changes what is held.\<close>

definition booked_of :: "instrument \<Rightarrow> side \<Rightarrow> order_fill_msg \<Rightarrow> notional \<Rightarrow> fee_asset \<Rightarrow> qty \<times> notional" where
  "booked_of inst sd m fee asset =
     (case asset of
        QuoteFee \<Rightarrow> (fmsg_qty m, fee)
      | OtherFee \<Rightarrow> (fmsg_qty m, 0)
      | BaseFee \<Rightarrow>
          (let held = (if sd = Buy then fmsg_qty m - fee else fmsg_qty m + fee)
           in (if held > 0 then held else fmsg_qty m, in_notional inst (fmsg_price m) fee)))"

text \<open>The part an estimate covered is repriced, the rest is booked.\<close>

definition book_execution ::
  "instrument_id \<Rightarrow> side \<Rightarrow> instrument \<Rightarrow> order_fill_msg \<Rightarrow> oms_update \<Rightarrow> qty \<times> notional \<Rightarrow> tracker \<Rightarrow> tracker" where
  "book_execution i sd inst m u bf t =
     (case bf of (amount, fee) \<Rightarrow>
      let corrected = (if u_corrected_qty u < amount then u_corrected_qty u else amount);
          (t1, rest, fee') =
            (if u_corrected_qty u \<noteq> 0
             then (correct_fill i sd (u_synthetic_px u) (fmsg_price m) corrected fee inst t, amount - corrected, 0)
             else (t, amount, fee))
      in if rest > 0 then tk_on_fill i sd (fmsg_price m) rest fee' inst t1 else t1)"

definition engine_on_fill :: "order_fill_msg \<Rightarrow> notional \<Rightarrow> fee_asset \<Rightarrow> engine_state \<Rightarrow> engine_state" where
  "engine_on_fill m fee asset e =
     (case on_fill m (en_oms e) of (s, u) \<Rightarrow>
      let e1 = e\<lparr>en_oms := s\<rparr> in
      if u_action u = Duplicate then e1
      else
        let from_order = (o_instrument (u_order u) \<noteq> o_instrument order_zero);
            i = (if from_order then o_instrument (u_order u) else eh_instrument (fmsg_hdr m));
            sd = (if from_order then o_side (u_order u) else fmsg_side m);
            inst = it_get (en_instruments e) i;
            e2 = (if it_contains (en_instruments e) i
                  then check_loss (e1\<lparr>en_positions := book_execution i sd inst m u (booked_of inst sd m fee asset) (en_positions e)\<rparr>)
                  else e1)
        in after_oms_update (s, u) e2)"

text \<open>A valid book moves the risk engine's mid and, when the mid marks the position, its mark.\<close>

definition engine_book_changed :: "instrument_id \<Rightarrow> price \<Rightarrow> timestamp \<Rightarrow> bool \<Rightarrow> engine_state \<Rightarrow> engine_state" where
  "engine_book_changed i mid now marks e =
     (let e1 = e\<lparr>en_risk := on_book i mid now (en_risk e)\<rparr>;
          e2 = (if marks then e1\<lparr>en_positions := tk_mark i mid (it_get (en_instruments e) i) (en_positions e1)\<rparr> else e1)
      in check_loss e2)"

section \<open>Sessions\<close>

text \<open>What an engine is given, one event at a time; a session is any sequence of them.\<close>

datatype engine_event =
    EvNew new_order_request bool engine_view
  | EvReplace nat price qty engine_view
  | EvCancel nat
  | EvAck order_ack_msg
  | EvReject order_reject_msg
  | EvCancelAck order_cancel_ack_msg
  | EvCancelReject order_cancel_reject_msg
  | EvExpired order_expired_msg
  | EvFill order_fill_msg notional fee_asset
  | EvReconcileBegin venue_id "cl_ord_id option"
  | EvReconcileOrder reconcile_msg
  | EvReconcileEnd venue_id
  | EvBook instrument_id price timestamp bool

definition end_reconcile :: "venue_id \<Rightarrow> engine_state \<Rightarrow> engine_state" where
  "end_reconcile v e =
     (case reconcile_end (\<lambda>u (s, x). let x' = after_oms_update (s, u) x in (en_oms x', x')) v (en_oms e, e) of
        (s, x) \<Rightarrow> x\<lparr>en_oms := s\<rparr>)"

fun engine_step :: "engine_event \<Rightarrow> engine_state \<Rightarrow> engine_state" where
  "engine_step (EvNew req flatten v) e = fst (submit_new req flatten v e)"
| "engine_step (EvReplace h px q v) e = fst (submit_replace h px q v e)"
| "engine_step (EvCancel h) e = fst (submit_cancel h e)"
| "engine_step (EvAck m) e = after_oms_update (on_ack m (en_oms e)) e"
| "engine_step (EvReject m) e = after_oms_update (on_reject m (en_oms e)) e"
| "engine_step (EvCancelAck m) e = after_oms_update (on_cancel_ack m (en_oms e)) e"
| "engine_step (EvCancelReject m) e = after_oms_update (on_cancel_reject m (en_oms e)) e"
| "engine_step (EvExpired m) e = after_oms_update (on_expired m (en_oms e)) e"
| "engine_step (EvFill m fee asset) e = engine_on_fill m fee asset e"
| "engine_step (EvReconcileBegin v w) e = e\<lparr>en_oms := reconcile_begin v w (en_oms e)\<rparr>"
| "engine_step (EvReconcileOrder m) e = after_oms_update (reconcile_open_order m (en_oms e)) e"
| "engine_step (EvReconcileEnd v) e = end_reconcile v e"
| "engine_step (EvBook i mid now marks) e = engine_book_changed i mid now marks e"

fun engine_run :: "engine_event list \<Rightarrow> engine_state \<Rightarrow> engine_state" where
  "engine_run [] e = e"
| "engine_run (ev # evs) e = engine_run evs (engine_step ev e)"

end
