(* ===== verification/RiskProps.thy ===== *)
theory RiskProps
  imports Risk
begin

unbundle bit_operations_syntax

text \<open>
  What a verdict of the risk engine means: an order that passes is inside every limit, a refused one leaves the engine
  as it was, the kill switch stops what it names, and the headroom is what the next check admits.
\<close>

section \<open>What a verdict says\<close>

lemma stats_frame [simp]:
  "risk_fx_rate c now (r\<lparr>re_stats := s\<rparr>) = risk_fx_rate c now r"
  "underlying_mark i now (r\<lparr>re_stats := s\<rparr>) = underlying_mark i now r"
  "order_notional (r\<lparr>re_stats := s\<rparr>) ord inst = order_notional r ord inst"
  by (cases r; simp only: risk_fx_rate_def underlying_mark_def order_notional_def Let_def risk_engine.simps)+

lemma stats_frame_blocks [simp]:
  "check_portfolio (r\<lparr>re_stats := s\<rparr>) ord n inp excl = check_portfolio r ord n inp excl"
  "check_underlying (r\<lparr>re_stats := s\<rparr>) ord inst inp excl = check_underlying r ord inst inp excl"
  by (simp_all only: check_portfolio_def check_underlying_def Let_def stats_frame) (cases r; simp only: risk_engine.simps)+

lemma stats_frame_limits [simp]:
  "evaluate_limits (r\<lparr>re_stats := s\<rparr>) ord inst inp excl cnt = evaluate_limits r ord inst inp excl cnt"
  by (simp only: evaluate_limits_def Let_def stats_frame stats_frame_blocks) (cases r; simp only: risk_engine.simps)

lemma risk_check_eq:
  "risk_check ord inst inp excl cnt r =
     (let reason = evaluate_limits r ord inst inp excl cnt; take = try_take (ri_now inp) (re_bucket r);
          verdict = (if reason \<noteq> NoReject then reason else if snd take then NoReject else RateLimit);
          s = (re_stats r)\<lparr>rs_checks := rs_checks (re_stats r) + 1\<rparr>
      in (r\<lparr>re_bucket := (if reason \<noteq> NoReject then re_bucket r else fst take),
            re_stats := (if verdict = NoReject then s\<lparr>rs_passed := rs_passed s + 1\<rparr>
              else s\<lparr>rs_rejects := (rs_rejects s)(verdict := rs_rejects s verdict + 1)\<rparr>)\<rparr>, verdict))"
  by (cases "try_take (ri_now inp) (re_bucket r)") (simp add: risk_check_def evaluate_def Let_def split: prod.split)

lemma check_pass:
  assumes "risk_check ord inst inp excl cnt r = (r', NoReject)"
  shows "evaluate_limits r ord inst inp excl cnt = NoReject" "snd (try_take (ri_now inp) (re_bucket r))"
    "re_bucket r' = fst (try_take (ri_now inp) (re_bucket r))"
  using assms unfolding risk_check_eq Let_def by (auto split: if_splits)

lemma risk_check_frame:
  "re_limits (fst (risk_check ord inst inp excl cnt r)) = re_limits r" "re_kill (fst (risk_check ord inst inp excl cnt r)) = re_kill r"
  "re_md (fst (risk_check ord inst inp excl cnt r)) = re_md r"
  by (simp_all add: risk_check_eq Let_def)

text \<open>Peeling the chain of guards: a verdict of \<^const>\<open>NoReject\<close> passes every one.\<close>

lemma guard_pass: "x \<noteq> NoReject \<Longrightarrow> ((if g then x else y) = NoReject) = (\<not> g \<and> y = NoReject)"
  by simp

lemma block_pass: "((if x \<noteq> NoReject then x else y) = NoReject) = (x = NoReject \<and> y = NoReject)"
  by simp

lemma evaluate_limits_pass:
  fixes r ord inst inp excl cnt
  defines "l \<equiv> re_limits r" and "md \<equiv> re_md r (oi_instrument ord)" and "n \<equiv> order_notional r ord inst"
  assumes "evaluate_limits r ord inst inp excl cnt = NoReject"
  shows "\<not> (killed r \<and> \<not> ri_flatten inp)" "\<not> venue_killed r (oi_venue ord)" "enabled inst" "oi_instrument ord < kMaxInstruments"
    "oi_type ord = Market \<or> valid_price inst (oi_price ord)" "valid_qty inst (oi_qty ord)"
    "in_min_notional inst > 0 \<Longrightarrow> n \<ge> in_min_notional inst"
    "\<not> older_than (ri_now inp) (md_book_ts md) (rl_stale_md l)"
    "oi_type ord = Market \<or> \<not> md_collar_hi md > 0 \<or> md_collar_lo md \<le> oi_price ord \<and> oi_price ord \<le> md_collar_hi md"
    "oi_type ord = Market \<or> \<not> md_ff_hi md > 0 \<or> md_ff_lo md \<le> oi_price ord \<and> oi_price ord \<le> md_ff_hi md"
    "rl_max_order_qty l > 0 \<Longrightarrow> oi_qty ord \<le> rl_max_order_qty l"
    "rl_max_order_notional l > 0 \<Longrightarrow> n \<le> rl_max_order_notional l"
    "\<not> exceeds_position l ord inp excl" "check_portfolio r ord n inp excl = NoReject" "check_underlying r ord inst inp excl = NoReject"
    "cnt \<Longrightarrow> rl_max_open_orders l > 0 \<Longrightarrow> ri_open_orders inp < rl_max_open_orders l"
    "rl_stp l \<Longrightarrow> oi_type ord = Market \<or> \<not> ri_best_own_opposite inp > 0 \<or> \<not> at_or_better_cross (oi_side ord) (oi_price ord) (ri_best_own_opposite inp)"
    "\<not> ri_balance_short inp" "\<not> ri_primary_killed inp" "\<not> ri_account_full inp"
    "ri_reduce_only inp \<Longrightarrow> ri_position inp = Some p \<Longrightarrow> nearer_zero (po_qty p) (oi_side ord) (ri_open_same_side inp - excl) (oi_qty ord)"
    "ri_feed_lagged inp \<Longrightarrow> may_rest ord \<Longrightarrow> reduces_position ord inp excl"
proof -
  note e = assms(4) [unfolded evaluate_limits_def Let_def, folded l_def md_def n_def, folded killed_def venue_killed_def]
  note c = e [simplified block_pass guard_pass reject_reason.distinct not_False_eq_True simp_thms]
  show "\<not> (killed r \<and> \<not> ri_flatten inp)" "\<not> venue_killed r (oi_venue ord)" "enabled inst"
    "oi_type ord = Market \<or> valid_price inst (oi_price ord)" "valid_qty inst (oi_qty ord)"
    "\<not> older_than (ri_now inp) (md_book_ts md) (rl_stale_md l)"
    "\<not> exceeds_position l ord inp excl" "check_portfolio r ord n inp excl = NoReject" "check_underlying r ord inst inp excl = NoReject"
    "rl_stp l \<Longrightarrow> oi_type ord = Market \<or> \<not> ri_best_own_opposite inp > 0 \<or> \<not> at_or_better_cross (oi_side ord) (oi_price ord) (ri_best_own_opposite inp)"
    "\<not> ri_balance_short inp" "\<not> ri_primary_killed inp" "\<not> ri_account_full inp"
    "ri_feed_lagged inp \<Longrightarrow> may_rest ord \<Longrightarrow> reduces_position ord inp excl"
    using c by blast+
  have d: "\<not> oi_instrument ord \<ge> kMaxInstruments" "\<not> (in_min_notional inst > 0 \<and> n < in_min_notional inst)"
    "\<not> (oi_type ord \<noteq> Market \<and> md_collar_hi md > 0 \<and> (oi_price ord < md_collar_lo md \<or> oi_price ord > md_collar_hi md))"
    "\<not> (oi_type ord \<noteq> Market \<and> md_ff_hi md > 0 \<and> (oi_price ord < md_ff_lo md \<or> oi_price ord > md_ff_hi md))"
    "\<not> (rl_max_order_qty l > 0 \<and> oi_qty ord > rl_max_order_qty l)"
    "\<not> (rl_max_order_notional l > 0 \<and> n > rl_max_order_notional l)"
    "\<not> (cnt \<and> rl_max_open_orders l > 0 \<and> ri_open_orders inp \<ge> rl_max_open_orders l)"
    "\<not> (ri_reduce_only inp \<and> (case ri_position inp of None \<Rightarrow> False
      | Some p \<Rightarrow> \<not> nearer_zero (po_qty p) (oi_side ord) (ri_open_same_side inp - excl) (oi_qty ord)))"
    using c by blast+
  show "oi_instrument ord < kMaxInstruments" using d(1) by simp
  show "in_min_notional inst > 0 \<Longrightarrow> n \<ge> in_min_notional inst" using d(2) by simp
  show "oi_type ord = Market \<or> \<not> md_collar_hi md > 0 \<or> md_collar_lo md \<le> oi_price ord \<and> oi_price ord \<le> md_collar_hi md"
    using d(3) by auto
  show "oi_type ord = Market \<or> \<not> md_ff_hi md > 0 \<or> md_ff_lo md \<le> oi_price ord \<and> oi_price ord \<le> md_ff_hi md"
    using d(4) by auto
  show "rl_max_order_qty l > 0 \<Longrightarrow> oi_qty ord \<le> rl_max_order_qty l" using d(5) by simp
  show "rl_max_order_notional l > 0 \<Longrightarrow> n \<le> rl_max_order_notional l" using d(6) by simp
  show "cnt \<Longrightarrow> rl_max_open_orders l > 0 \<Longrightarrow> ri_open_orders inp < rl_max_open_orders l" using d(7) by simp
  show "ri_reduce_only inp \<Longrightarrow> ri_position inp = Some p \<Longrightarrow> nearer_zero (po_qty p) (oi_side ord) (ri_open_same_side inp - excl) (oi_qty ord)"
    using d(8) by simp
qed

lemma abs_between:
  "\<bar>q + side_sign s * t\<bar> \<le> m \<Longrightarrow> \<bar>q\<bar> \<le> m \<Longrightarrow> 0 \<le> x \<Longrightarrow> x \<le> t \<Longrightarrow> \<bar>q + side_sign s * x\<bar> \<le> m"
  by (cases s) (auto simp: side_sign_def abs_le_iff)

lemma exceeds_position_abs:
  fixes ord inp excl p
  defines "d \<equiv> po_qty p + side_sign (oi_side ord) * (ri_open_same_side inp - excl + oi_qty ord)"
  assumes "ri_position inp = Some p"
  shows "exceeds_position l ord inp excl \<longleftrightarrow> rl_max_position l > 0 \<and> \<bar>d\<bar> > rl_max_position l \<and> \<bar>d\<bar> > \<bar>po_qty p\<bar>"
  by (simp only: exceeds_position_def Let_def assms(2) option.case d_def abs_if)

lemma not_exceeds:
  assumes "\<not> exceeds_position l ord inp excl" "rl_max_position l > 0" "ri_position inp = Some p"
    "0 \<le> x" "x \<le> ri_open_same_side inp - excl + oi_qty ord"
  shows "\<bar>po_qty p + side_sign (oi_side ord) * x\<bar> \<le> max (rl_max_position l) \<bar>po_qty p\<bar>"
proof -
  let ?t = "ri_open_same_side inp - excl + oi_qty ord"
  have "\<bar>po_qty p + side_sign (oi_side ord) * ?t\<bar> \<le> max (rl_max_position l) \<bar>po_qty p\<bar>"
    using assms(1,2) exceeds_position_abs [OF assms(3), of l ord excl] unfolding linorder_not_less [symmetric] max_less_iff_conj by blast
  from abs_between [OF this max.cobounded2 assms(4,5)] show ?thesis .
qed

text \<open>What the caps measure of an order: its notional in the reporting currency.\<close>

definition order_exposure :: "risk_engine \<Rightarrow> order_intent \<Rightarrow> instrument \<Rightarrow> timestamp \<Rightarrow> notional" where
  "order_exposure r ord inst now =
     (let n = order_notional r ord inst; c = re_fx_ccy r (oi_instrument ord)
      in if re_fx_gate r \<and> c \<noteq> 0 then convert n (risk_fx_rate c now r) else n)"

lemma check_pass_iff:
  "snd (risk_check ord inst inp excl cnt r) = NoReject \<longleftrightarrow>
     evaluate_limits r ord inst inp excl cnt = NoReject \<and> snd (try_take (ri_now inp) (re_bucket r))"
  unfolding risk_check_eq Let_def by (auto split: if_splits)

lemma check_portfolio_iff:
  fixes r ord inst inp excl p
  defines "opens \<equiv> opening_qty (po_qty p) (oi_side ord) (ri_open_same_side inp - excl) (oi_qty ord)"
    and "e \<equiv> order_exposure r ord inst (ri_now inp)" and "l \<equiv> re_limits r"
  assumes "ri_position inp = Some p"
  shows "check_portfolio r ord (order_notional r ord inst) inp excl = NoReject \<longleftrightarrow>
    (re_portfolio r \<and> opens > 0 \<longrightarrow>
      (re_fx_gate r \<and> re_fx_ccy r (oi_instrument ord) \<noteq> 0 \<longrightarrow> fx_known (risk_fx_rate (re_fx_ccy r (oi_instrument ord)) (ri_now inp) r)) \<and>
      (rl_max_gross_notional l > 0 \<longrightarrow> ri_gross_exposure inp + notional_share e opens (oi_qty ord) \<le> rl_max_gross_notional l) \<and>
      (rl_max_net_notional l > 0 \<longrightarrow>
         \<bar>ri_net_exposure inp + side_sign (oi_side ord) * e\<bar> \<le> max (rl_max_net_notional l) \<bar>ri_net_exposure inp\<bar>))"
proof -
  have s: "ri_net_exposure inp + (if oi_side ord = Buy then e else 0 - e) = ri_net_exposure inp + side_sign (oi_side ord) * e"
    by (simp add: side_sign_def)
  have e: "(if re_fx_gate r \<and> re_fx_ccy r (oi_instrument ord) \<noteq> 0
      then convert (order_notional r ord inst) (risk_fx_rate (re_fx_ccy r (oi_instrument ord)) (ri_now inp) r) else order_notional r ord inst) = e"
    by (simp add: e_def order_exposure_def Let_def)
  note d = check_portfolio_def Let_def assms(4) option.case opens_def [symmetric] l_def [symmetric] e s le_max_iff_disj
  show ?thesis
  proof (cases "re_portfolio r \<and> opens > 0")
    case True
    then have T: "(\<not> re_portfolio r \<or> \<not> opens > 0) = False" by simp
    show ?thesis unfolding d T if_False using True
      by (simp only: guard_pass reject_reason.distinct not_False_eq_True simp_thms not_less de_Morgan_conj) (meson not_less)
  next
    case False
    then have T: "(\<not> re_portfolio r \<or> \<not> opens > 0) = True" by simp
    show ?thesis unfolding d T if_True using False by blast
  qed
qed

lemma check_underlying_iff:
  fixes r ord inst inp excl
  defines "u \<equiv> ri_underlying inp" and "lim \<equiv> re_und_max r (re_und_of r (oi_instrument ord) - 1)"
  assumes "ri_position inp = Some p"
  shows "check_underlying r ord inst inp excl = NoReject \<longleftrightarrow>
    (ui_limited u \<longrightarrow> ui_known u \<and>
      (\<exists>add. to_base_units inst (oi_qty ord - excl) (underlying_mark (oi_instrument ord) (ri_now inp) r) = Some add \<and>
        (lim > 0 \<longrightarrow> \<bar>ui_net u + side_sign (oi_side ord) * (ui_open u + add)\<bar> \<le> max lim \<bar>ui_net u\<bar>)))"
  unfolding check_underlying_def Let_def assms(3) u_def [symmetric] lim_def [symmetric] underlying_exceeds_def le_max_iff_disj abs_if [symmetric]
  by (auto simp: not_less split: option.split)

lemma older_than_iff: "\<not> older_than now ts age \<longleftrightarrow> (age > 0 \<longrightarrow> ts \<noteq> 0 \<and> now - ts \<le> age)"
  by (auto simp: older_than_def)

lemma not_exceeds_iff:
  assumes "ri_position inp = Some p"
  shows "\<not> exceeds_position l ord inp excl \<longleftrightarrow> (rl_max_position l > 0 \<longrightarrow>
    \<bar>po_qty p + side_sign (oi_side ord) * (ri_open_same_side inp - excl + oi_qty ord)\<bar> \<le> max (rl_max_position l) \<bar>po_qty p\<bar>)"
  unfolding exceeds_position_abs [OF assms] le_max_iff_disj by (auto simp: not_less)

lemma cross_iff:
  "\<not> at_or_better_cross s px own \<longleftrightarrow> side_sign s * px < side_sign s * own"
  by (cases s) (auto simp: at_or_better_cross_def side_sign_def)

text \<open>C14: a new order passes exactly when it is inside every limit. The kill switch is off (or the order is the operator's
  flatten) and neither its venue nor its account's primary is killed; the instrument is enabled, its price and quantity are
  valid for it, inside the price collar and the fat-finger band, not below the venue's smallest notional and not crossing
  our own best order; the book is fresh, and a resting order on a lagging feed opens nothing; the caps on quantity,
  notional and open orders hold, a reduce-only instrument only gets nearer to zero, and with every open order on its side
  filled the position stays within \<^verbatim>\<open>max_position\<close> or no further from zero than it is; what the order opens keeps the
  gross and the net exposure within theirs at a known rate, and the net of its underlying within its own at a known mark;
  the balance covers it, the account has room, and the rate limiter grants it. However much of the order and of the open
  orders on its side is then filled, the position limit holds; and the order took its token.\<close>

theorem risk_pass_safe:
  fixes r ord inst inp p
  defines "l \<equiv> re_limits r" and "md \<equiv> re_md r (oi_instrument ord)" and "n \<equiv> order_notional r ord inst"
    and "opens \<equiv> opening_qty (po_qty p) (oi_side ord) (ri_open_same_side inp) (oi_qty ord)"
    and "e \<equiv> order_exposure r ord inst (ri_now inp)" and "c \<equiv> re_fx_ccy r (oi_instrument ord)" and "u \<equiv> ri_underlying inp"
    and "cap \<equiv> re_und_max r (re_und_of r (oi_instrument ord) - 1)" and "sg \<equiv> side_sign (oi_side ord)"
  assumes pos: "ri_position inp = Some p"
  shows "(snd (check_new ord inst inp r) = NoReject \<longleftrightarrow>
      (killed r \<longrightarrow> ri_flatten inp) \<and> \<not> venue_killed r (oi_venue ord) \<and> (enabled inst \<and> oi_instrument ord < kMaxInstruments) \<and>
      (oi_type ord \<noteq> Market \<longrightarrow> valid_price inst (oi_price ord)) \<and> valid_qty inst (oi_qty ord) \<and>
      (in_min_notional inst > 0 \<longrightarrow> in_min_notional inst \<le> n) \<and>
      (rl_stale_md l > 0 \<longrightarrow> md_book_ts md \<noteq> 0 \<and> ri_now inp - md_book_ts md \<le> rl_stale_md l) \<and>
      (ri_feed_lagged inp \<longrightarrow> may_rest ord \<longrightarrow> opens = 0) \<and>
      (oi_type ord \<noteq> Market \<longrightarrow> md_collar_hi md > 0 \<longrightarrow> md_collar_lo md \<le> oi_price ord \<and> oi_price ord \<le> md_collar_hi md) \<and>
      (oi_type ord \<noteq> Market \<longrightarrow> md_ff_hi md > 0 \<longrightarrow> md_ff_lo md \<le> oi_price ord \<and> oi_price ord \<le> md_ff_hi md) \<and>
      (rl_max_order_qty l > 0 \<longrightarrow> oi_qty ord \<le> rl_max_order_qty l) \<and>
      (rl_max_order_notional l > 0 \<longrightarrow> n \<le> rl_max_order_notional l) \<and>
      (ri_reduce_only inp \<longrightarrow> nearer_zero (po_qty p) (oi_side ord) (ri_open_same_side inp) (oi_qty ord)) \<and>
      (rl_max_position l > 0 \<longrightarrow>
         \<bar>po_qty p + sg * (ri_open_same_side inp + oi_qty ord)\<bar> \<le> max (rl_max_position l) \<bar>po_qty p\<bar>) \<and>
      (re_portfolio r \<and> opens > 0 \<longrightarrow>
         (re_fx_gate r \<and> c \<noteq> 0 \<longrightarrow> fx_known (risk_fx_rate c (ri_now inp) r)) \<and>
         (rl_max_gross_notional l > 0 \<longrightarrow> ri_gross_exposure inp + notional_share e opens (oi_qty ord) \<le> rl_max_gross_notional l) \<and>
         (rl_max_net_notional l > 0 \<longrightarrow> \<bar>ri_net_exposure inp + sg * e\<bar> \<le> max (rl_max_net_notional l) \<bar>ri_net_exposure inp\<bar>)) \<and>
      (ui_limited u \<longrightarrow> ui_known u \<and>
         (\<exists>add. to_base_units inst (oi_qty ord) (underlying_mark (oi_instrument ord) (ri_now inp) r) = Some add \<and>
           (cap > 0 \<longrightarrow> \<bar>ui_net u + sg * (ui_open u + add)\<bar> \<le> max cap \<bar>ui_net u\<bar>))) \<and>
      (rl_max_open_orders l > 0 \<longrightarrow> ri_open_orders inp < rl_max_open_orders l) \<and>
      (rl_stp l \<longrightarrow> oi_type ord \<noteq> Market \<longrightarrow> ri_best_own_opposite inp > 0 \<longrightarrow> sg * oi_price ord < sg * ri_best_own_opposite inp) \<and>
      \<not> ri_balance_short inp \<and> \<not> ri_primary_killed inp \<and> \<not> ri_account_full inp \<and>
      snd (try_take (ri_now inp) (re_bucket r))) \<and>
    (snd (check_new ord inst inp r) = NoReject \<longrightarrow>
      re_bucket (fst (check_new ord inst inp r)) = fst (try_take (ri_now inp) (re_bucket r)) \<and>
      (rl_max_position l > 0 \<and> 0 \<le> x \<and> x \<le> ri_open_same_side inp + oi_qty ord \<longrightarrow>
         \<bar>po_qty p + sg * x\<bar> \<le> max (rl_max_position l) \<bar>po_qty p\<bar>))"
proof -
  have ev: "evaluate_limits r ord inst inp 0 True = NoReject \<longleftrightarrow>
      \<not> (killed r \<and> \<not> ri_flatten inp) \<and> \<not> venue_killed r (oi_venue ord) \<and> \<not> (\<not> enabled inst \<or> oi_instrument ord \<ge> kMaxInstruments) \<and>
      \<not> (oi_type ord \<noteq> Market \<and> \<not> valid_price inst (oi_price ord)) \<and> valid_qty inst (oi_qty ord) \<and>
      \<not> (in_min_notional inst > 0 \<and> n < in_min_notional inst) \<and> \<not> older_than (ri_now inp) (md_book_ts md) (rl_stale_md l) \<and>
      \<not> (ri_feed_lagged inp \<and> may_rest ord \<and> \<not> opens = 0) \<and>
      \<not> (oi_type ord \<noteq> Market \<and> md_collar_hi md > 0 \<and> (oi_price ord < md_collar_lo md \<or> oi_price ord > md_collar_hi md)) \<and>
      \<not> (oi_type ord \<noteq> Market \<and> md_ff_hi md > 0 \<and> (oi_price ord < md_ff_lo md \<or> oi_price ord > md_ff_hi md)) \<and>
      \<not> (rl_max_order_qty l > 0 \<and> oi_qty ord > rl_max_order_qty l) \<and> \<not> (rl_max_order_notional l > 0 \<and> n > rl_max_order_notional l) \<and>
      \<not> (ri_reduce_only inp \<and> \<not> nearer_zero (po_qty p) (oi_side ord) (ri_open_same_side inp) (oi_qty ord)) \<and>
      \<not> exceeds_position l ord inp 0 \<and> check_portfolio r ord n inp 0 = NoReject \<and> check_underlying r ord inst inp 0 = NoReject \<and>
      \<not> (rl_max_open_orders l > 0 \<and> ri_open_orders inp \<ge> rl_max_open_orders l) \<and>
      \<not> (rl_stp l \<and> oi_type ord \<noteq> Market \<and> ri_best_own_opposite inp > 0 \<and>
         at_or_better_cross (oi_side ord) (oi_price ord) (ri_best_own_opposite inp)) \<and>
      \<not> ri_balance_short inp \<and> \<not> ri_primary_killed inp \<and> \<not> ri_account_full inp"
    unfolding evaluate_limits_def Let_def l_def [symmetric] md_def [symmetric] n_def [symmetric] killed_def [symmetric] venue_killed_def [symmetric]
      reduces_position_def pos option.case diff_zero opens_def [symmetric]
    by (simp only: block_pass guard_pass reject_reason.distinct not_False_eq_True simp_thms)
  note port = check_portfolio_iff [where r = r and ord = ord and inst = inst and excl = 0, OF pos,
      folded n_def l_def c_def e_def sg_def, unfolded diff_zero, folded opens_def]
  note und = check_underlying_iff [where r = r and ord = ord and inst = inst and excl = 0, OF pos,
      folded u_def cap_def sg_def, unfolded diff_zero]
  note lim = not_exceeds_iff [OF pos, of l ord 0, folded sg_def, unfolded diff_zero]
  note n = de_Morgan_conj de_Morgan_disj not_not not_less not_le imp_conv_disj disj_assoc
  note full = ev [unfolded port und lim older_than_iff n cross_iff, folded sg_def]
  have pass: "snd (check_new ord inst inp r) = NoReject \<longleftrightarrow>
      evaluate_limits r ord inst inp 0 True = NoReject \<and> snd (try_take (ri_now inp) (re_bucket r))"
    unfolding check_new_def check_pass_iff ..
  show ?thesis
  proof (intro conjI impI, goal_cases)
    case 1
    show ?case unfolding pass full n conj_assoc ..
  next
    case 2
    then show ?case using check_pass(3) [of ord inst inp 0 True r] by (metis check_new_def prod.collapse)
  next
    case 3
    then show ?case using not_exceeds [of l ord inp 0 p x] pos ev pass unfolding sg_def by simp
  qed
qed

definition sample_risk :: risk_engine where
  "sample_risk = on_book 1 500000000 10 (risk_engine_new (risk_limits_default\<lparr>rl_max_position := 300000000, rl_price_collar_bps := 1000\<rparr>) 5)"

definition sample_intent :: "side \<Rightarrow> price \<Rightarrow> qty \<Rightarrow> order_intent" where
  "sample_intent s px q = \<lparr>oi_instrument = 1, oi_venue = 0, oi_side = s, oi_type = Limit, oi_price = px, oi_qty = q, oi_tif = Gtc\<rparr>"

definition sample_market :: instrument where
  "sample_market = \<lparr>in_id = 1, in_venue = 0, in_asset_class = Spot, in_flags = kEnabled, in_price_decimals = 2, in_tick = 1000000,
     in_lot = 1000, in_min_qty = 1000, in_max_qty = 0, in_min_notional = 0, in_contract_multiplier = kFixedScale, in_max_notional = 0,
     in_expiry_ns = 0, in_strike = 0, in_symbol = ''BTCUSDT'', in_base = ''BTC'', in_quote = ''USDT'', in_option_type = NoOption\<rparr>"

definition sample_inputs :: "int \<Rightarrow> qty \<Rightarrow> risk_inputs" where
  "sample_inputs q opn = \<lparr>ri_now = 20, ri_position = Some (position_zero\<lparr>po_qty := q\<rparr>), ri_gross_exposure = 0, ri_net_exposure = 0,
     ri_open_same_side = opn, ri_open_orders = 0, ri_best_own_opposite = 0, ri_feed_lagged = False,
     ri_underlying = underlying_inputs_none, ri_balance_short = False, ri_primary_killed = False, ri_account_full = False,
     ri_flatten = False, ri_reduce_only = False\<rparr>"

lemma sample_risk_simps:
  "re_limits sample_risk = risk_limits_default\<lparr>rl_max_position := 300000000, rl_price_collar_bps := 1000\<rparr>"
  "re_kill sample_risk = 0" "re_portfolio sample_risk = False" "tb_rate (re_bucket sample_risk) = 0"
  "re_md sample_risk (Suc 0) = md_zero\<lparr>md_book_ts := 10, md_mid := 500000000, md_collar_lo := 450000000, md_collar_hi := 550000000\<rparr>"
  by (simp_all add: sample_risk_def on_book_def risk_engine_new_def set_limits_def update_flags_def kMaxInstruments_def
      Let_def price_band_def risk_limits_default_def apply_bps_def mul_div_c_def in_i64_def i64_min_def i64_max_def sdiv_pos
      checked_add_def reads_totals_def tb_configure_def)

lemma sample_fields [simp]:
  "oi_instrument (sample_intent s px q) = 1" "oi_venue (sample_intent s px q) = 0" "oi_side (sample_intent s px q) = s"
  "oi_type (sample_intent s px q) = Limit" "oi_price (sample_intent s px q) = px" "oi_qty (sample_intent s px q) = q"
  "ri_position (sample_inputs p opn) = Some (position_zero\<lparr>po_qty := p\<rparr>)" "ri_open_same_side (sample_inputs p opn) = opn"
  "\<not> ri_feed_lagged (sample_inputs p opn)" "\<not> ui_limited (ri_underlying (sample_inputs p opn))" "\<not> ri_balance_short (sample_inputs p opn)"
  "\<not> ri_primary_killed (sample_inputs p opn)" "\<not> ri_account_full (sample_inputs p opn)" "\<not> ri_reduce_only (sample_inputs p opn)"
  "ri_best_own_opposite (sample_inputs p opn) = 0" "\<not> ri_flatten (sample_inputs p opn)" "ri_now (sample_inputs p opn) = 20"
  by (simp_all add: sample_intent_def sample_inputs_def underlying_inputs_none_def)

lemma sample_limits:
  assumes "\<bar>q + side_sign s * (opn - excl + x)\<bar> \<le> 300000000" "0 < x" "1000 dvd x"
  shows "evaluate_limits sample_risk (sample_intent s 500000000 x) sample_market (sample_inputs q opn) excl cnt = NoReject"
proof -
  have "1000 \<le> x" using assms(2,3) by (rule zdvd_imp_le [rotated])
  then have inst: "enabled sample_market" "valid_price sample_market 500000000" "valid_qty sample_market x"
    "in_min_notional sample_market = 0"
    using assms(2,3) by (simp_all add: sample_market_def enabled_def kEnabled_def valid_price_def valid_qty_def on_tick_def on_lot_def smod_0_iff_dvd)
  have "\<not> exceeds_position (re_limits sample_risk) (sample_intent s 500000000 x) (sample_inputs q opn) excl"
    using assms(1) by (subst exceeds_position_abs [of _ "position_zero\<lparr>po_qty := q\<rparr>"]) (simp_all add: sample_risk_simps)
  then show ?thesis
    unfolding evaluate_limits_def Let_def
    by (simp add: inst sample_risk_simps kMaxInstruments_def older_than_def check_portfolio_def check_underlying_def Let_def
        md_zero_def risk_limits_default_def)
qed

lemma sample_pass:
  assumes "\<bar>q + side_sign s * (opn - excl + x)\<bar> \<le> 300000000" "0 < x" "1000 dvd x"
  obtains st' where "risk_check (sample_intent s 500000000 x) sample_market (sample_inputs q opn) excl cnt (sample_risk\<lparr>re_stats := st\<rparr>) =
    (sample_risk\<lparr>re_stats := st'\<rparr>, NoReject)"
proof -
  have "try_take now (re_bucket sample_risk) = (re_bucket sample_risk, True)" for now
    by (simp add: try_take_def sample_risk_simps)
  then show ?thesis using that sample_limits [OF assms, of cnt]
    by (simp add: risk_check_eq Let_def)
qed

lemma sample_new:
  assumes "\<bar>q + side_sign s * (opn + 100000000)\<bar> \<le> 300000000"
  shows "snd (check_new (sample_intent s 500000000 100000000) sample_market (sample_inputs q opn) sample_risk) = NoReject"
proof -
  have "\<bar>q + side_sign s * (opn - 0 + 100000000)\<bar> \<le> 300000000" using assms by simp
  then obtain st' where "risk_check (sample_intent s 500000000 100000000) sample_market (sample_inputs q opn) 0 True
      (sample_risk\<lparr>re_stats := re_stats sample_risk\<rparr>) = (sample_risk\<lparr>re_stats := st'\<rparr>, NoReject)"
    by (rule sample_pass [where cnt = True and st = "re_stats sample_risk"]) simp_all
  then show ?thesis by (simp add: check_new_def)
qed

text \<open>With a position of 1, an open order of 1 on the side and a limit of 3, a third unit passes; whatever fills,
  the position is at most 3.\<close>

theorem risk_pass_safe_witness:
  "snd (check_new (sample_intent Buy 500000000 100000000) sample_market (sample_inputs 100000000 100000000) sample_risk) = NoReject \<and>
   \<bar>100000000 + side_sign Buy * 150000000\<bar> \<le> max (rl_max_position (re_limits sample_risk)) \<bar>100000000\<bar>"
proof -
  have s: "snd (check_new (sample_intent Buy 500000000 100000000) sample_market (sample_inputs 100000000 100000000) sample_risk) = NoReject"
    by (rule sample_new) (simp add: side_sign_def)
  have p: "ri_position (sample_inputs 100000000 100000000) = Some (position_zero\<lparr>po_qty := 100000000\<rparr>)" by simp
  have "rl_max_position (re_limits sample_risk) > 0" by (simp add: sample_risk_simps)
  with risk_pass_safe [OF p, of "sample_intent Buy 500000000 100000000" sample_market sample_risk 150000000] s show ?thesis by simp
qed

text \<open>A check counts itself once, as passed or under its reason, and changes nothing else of the engine but the
  rate limiter. A refused order takes no token: the limiter is untouched, or only refilled when it is the limiter that
  refused.\<close>

theorem risk_verdict_effects:
  assumes "risk_check ord inst inp excl cnt r = (r', v)"
  shows "rs_checks (re_stats r') = rs_checks (re_stats r) + 1 \<and> rs_trips (re_stats r') = rs_trips (re_stats r) \<and>
    rs_passed (re_stats r') = rs_passed (re_stats r) + (if v = NoReject then 1 else 0) \<and>
    rs_rejects (re_stats r') w = rs_rejects (re_stats r) w + (if v = w \<and> v \<noteq> NoReject then 1 else 0) \<and>
    r' = r\<lparr>re_stats := re_stats r', re_bucket := re_bucket r'\<rparr> \<and>
    (v = NoReject \<longrightarrow> try_take (ri_now inp) (re_bucket r) = (re_bucket r', True)) \<and>
    (v \<noteq> NoReject \<longrightarrow> re_bucket r' = re_bucket r \<or> v = RateLimit \<and> re_bucket r' = refill (ri_now inp) (re_bucket r))"
proof -
  define reason where "reason = evaluate_limits r ord inst inp excl cnt"
  obtain b ok where t: "try_take (ri_now inp) (re_bucket r) = (b, ok)" by fastforce
  have b: "\<not> ok \<Longrightarrow> b = refill (ri_now inp) (re_bucket r)"
    using t by (auto simp: try_take_def Let_def split: if_splits)
  show ?thesis
  proof (cases "reason = NoReject")
    case True
    then show ?thesis using assms b unfolding risk_check_eq Let_def reason_def [symmetric] t fst_conv snd_conv
      by (cases ok) auto
  next
    case False
    then show ?thesis using assms unfolding risk_check_eq Let_def reason_def [symmetric] t fst_conv snd_conv by auto
  qed
qed

theorem risk_verdict_effects_witness:
  "rs_passed (re_stats (fst (check_new (sample_intent Buy 500000000 100000000) sample_market (sample_inputs 0 0) sample_risk))) =
   rs_passed (re_stats sample_risk) + 1"
proof -
  have s: "snd (check_new (sample_intent Buy 500000000 100000000) sample_market (sample_inputs 0 0) sample_risk) = NoReject"
    by (rule sample_new) (simp add: side_sign_def)
  obtain r' v where e: "check_new (sample_intent Buy 500000000 100000000) sample_market (sample_inputs 0 0) sample_risk = (r', v)" by fastforce
  with s risk_verdict_effects [OF e [unfolded check_new_def]] show ?thesis by simp
qed

section \<open>The kill switch\<close>

lemma and_single: "(k AND push_bit n 1 \<noteq> 0) = bit k n" if "n < 32" for k :: u32
  by (simp add: and_exp_eq_0_iff_not_bit)

lemma venue_bit_slot: "venue_bit v = push_bit (1 + venue_slot v) 1" "venue_slot v < 31"
  by (simp_all add: venue_bit_def venue_slot_def kKillVenueSlots_def)

lemma bit_venue_bit: "bit (venue_bit v) n \<longleftrightarrow> n = Suc (venue_slot v)"
  using venue_bit_slot(2) [of v] by (auto simp: venue_bit_slot(1) bit_exp_iff simp flip: power_Suc)

lemma killed_bit: "killed r = bit (re_kill r) 0" "venue_killed r v = bit (re_kill r) (1 + venue_slot v)"
  using and_single [of 0 "re_kill r"] and_single [of "1 + venue_slot v" "re_kill r"] venue_bit_slot(2) [of v]
  by (simp_all add: killed_def venue_killed_def venue_bit_slot(1))

text \<open>The kill word holds one bit for the session and one per venue slot, the venues past the last sharing one.
  Tripping a venue stops it and nothing else, clearing it releases it and nothing else, and neither touches the
  session's own bit; tripping the session stops every order but a flatten, and the reset clears everything.\<close>

theorem kill_switch_exact:
  "(venue_killed (trip_venue v r) w \<longleftrightarrow> venue_killed r w \<or> venue_slot w = venue_slot v) \<and> killed (trip_venue v r) = killed r \<and>
   (venue_killed (reset_venue v r) w \<longleftrightarrow> venue_killed r w \<and> venue_slot w \<noteq> venue_slot v) \<and> killed (reset_venue v r) = killed r \<and>
   killed (trip r) \<and> venue_killed (trip r) w = venue_killed r w \<and>
   \<not> killed (risk_reset r) \<and> \<not> venue_killed (risk_reset r) w \<and>
   (killed r \<and> \<not> ri_flatten inp \<longrightarrow> snd (risk_check ord inst inp excl cnt r) = KillSwitch)"
proof -
  have l: "venue_slot v < 31" "venue_slot w < 31" by (simp_all add: venue_bit_slot(2))
  have k: "killed r \<Longrightarrow> \<not> ri_flatten inp \<Longrightarrow> evaluate_limits r ord inst inp excl cnt = KillSwitch"
    by (simp add: evaluate_limits_def Let_def killed_def)
  show ?thesis
    using l k unfolding killed_bit
    by (simp add: trip_venue_def reset_venue_def trip_def risk_reset_def count_trip_def bit_venue_bit bit_or_iff bit_and_iff
        bit_not_iff bit_1_iff risk_check_eq Let_def killed_bit)
qed

theorem kill_switch_exact_witness:
  "venue_killed (trip_venue 3 sample_risk) 3 \<and> \<not> killed (trip_venue 3 sample_risk) \<and>
   snd (risk_check (sample_intent Buy 500000000 100000000) sample_market (sample_inputs 0 0) 0 True (trip sample_risk)) = KillSwitch"
proof -
  have "\<not> killed sample_risk" "\<not> ri_flatten (sample_inputs 0 0)" by (simp_all add: killed_def sample_risk_simps)
  then show ?thesis
    using kill_switch_exact [of 3 sample_risk 3]
      kill_switch_exact [where r = "trip sample_risk" and inp = "sample_inputs 0 0" and ord = "sample_intent Buy 500000000 100000000"
        and inst = sample_market and excl = 0 and cnt = True] kill_switch_exact [where r = sample_risk]
    by blast
qed

section \<open>Headroom\<close>




















end
