(* ===== verification/PositionProps.thy ===== *)
theory PositionProps
  imports Position
begin

unbundle bit_operations_syntax

text \<open>
  The positions are right: every total is the sum of what the instruments carry, in its currency and at its rate,
  after every sequence of operations of theory Position; and a fill moves a position by the average-cost method.
\<close>

section \<open>The totals are the sums\<close>

text \<open>What one instrument contributes to a total, and the total without conversion.\<close>

fun total_val :: "total_field \<Rightarrow> tracker \<Rightarrow> instrument_id \<Rightarrow> notional" where
  "total_val TRealized t i = po_realized (tk_pos t i)"
| "total_val TUnrealized t i = po_unrealized (tk_pos t i)"
| "total_val TFees t i = po_fees (tk_pos t i)"
| "total_val TGross t i = \<bar>tk_exposure t i\<bar>"
| "total_val TNet t i = tk_exposure t i"

fun plain_total :: "total_field \<Rightarrow> tracker \<Rightarrow> notional" where
  "plain_total TRealized t = tk_realized_total t"
| "plain_total TUnrealized t = tk_unrealized_total t"
| "plain_total TFees t = tk_fees_total t"
| "plain_total TGross t = tk_gross_exposure t"
| "plain_total TNet t = tk_net_exposure t"

abbreviation of_ccy :: "tracker \<Rightarrow> nat \<Rightarrow> instrument_id set" where
  "of_ccy t c \<equiv> {i. i < kMaxInstruments \<and> tk_ccy t i = c}"

definition totals_ok :: "tracker \<Rightarrow> bool" where
  "totals_ok t \<longleftrightarrow>
     (\<forall>f. plain_total f t = (\<Sum>i<kMaxInstruments. total_val f t i)) \<and>
     (converting t \<longrightarrow> (\<forall>i<kMaxInstruments. tk_ccy t i < kMaxCurrencies) \<and>
        (\<forall>f. \<forall>c<kMaxCurrencies. tk_native t c f = (\<Sum>i\<in>of_ccy t c. total_val f t i) \<and>
           tk_conv t c f = convert (tk_native t c f) (tk_rate t c)) \<and>
        (\<forall>f. tk_conv_total t f = (\<Sum>c<kMaxCurrencies. tk_conv t c f)))"

definition funding_ok :: "tracker \<Rightarrow> bool" where
  "funding_ok t \<longleftrightarrow> tk_fund_total t = (\<Sum>i<kMaxInstruments. tk_fund_per t i) \<and>
     (converting t \<longrightarrow> (\<forall>c. tk_fund_native t c = (\<Sum>i\<in>of_ccy t c. tk_fund_per t i)))"

text \<open>Two trackers that differ in the running totals only, by \<open>d\<close> of instrument \<open>i\<close>.\<close>

definition booked :: "instrument_id \<Rightarrow> (total_field \<Rightarrow> notional) \<Rightarrow> tracker \<Rightarrow> tracker \<Rightarrow> bool" where
  "booked i d t t' \<longleftrightarrow> tk_ccy t' = tk_ccy t \<and> tk_ccy_count t' = tk_ccy_count t \<and> tk_rate t' = tk_rate t \<and>
     (\<forall>f. plain_total f t' = plain_total f t + d f) \<and>
     (converting t \<longrightarrow> (\<forall>f. let c = tk_ccy t i in
        tk_native t' c f = tk_native t c f + d f \<and>
        (tk_conv t' c f = convert (tk_native t' c f) (tk_rate t c) \<or> d f = 0 \<and> tk_conv t' c f = tk_conv t c f) \<and>
        tk_conv_total t' f = tk_conv_total t f + (tk_conv t' c f - tk_conv t c f)) \<and>
        (\<forall>c. c \<noteq> tk_ccy t i \<longrightarrow> tk_native t' c = tk_native t c \<and> tk_conv t' c = tk_conv t c))"

lemma booked_refl: "booked i (\<lambda>_. 0) t t"
  by (simp add: booked_def Let_def)

lemma booked_conv:
  assumes "booked i d t t'" "converting t"
  shows "tk_native t' (tk_ccy t i) f = tk_native t (tk_ccy t i) f + d f"
    "tk_conv t' (tk_ccy t i) f = convert (tk_native t' (tk_ccy t i) f) (tk_rate t (tk_ccy t i)) \<or>
       d f = 0 \<and> tk_conv t' (tk_ccy t i) f = tk_conv t (tk_ccy t i) f"
    "tk_conv_total t' f = tk_conv_total t f + (tk_conv t' (tk_ccy t i) f - tk_conv t (tk_ccy t i) f)"
    "c \<noteq> tk_ccy t i \<Longrightarrow> tk_native t' c = tk_native t c" "c \<noteq> tk_ccy t i \<Longrightarrow> tk_conv t' c = tk_conv t c"
  using assms unfolding booked_def Let_def by blast+

lemma booked_plain:
  assumes "booked i d t t'"
  shows "tk_ccy t' = tk_ccy t" "tk_ccy_count t' = tk_ccy_count t" "tk_rate t' = tk_rate t" "converting t' = converting t"
    "plain_total f t' = plain_total f t + d f"
  using assms by (simp_all add: booked_def converting_def)

lemma booked_trans:
  assumes a: "booked i d t t'" and b: "booked i e t' t''"
  shows "booked i (\<lambda>f. d f + e f) t t''"
proof -
  note p = booked_plain [OF a] and q = booked_plain [OF b]
  have "tk_conv t'' (tk_ccy t i) f = convert (tk_native t'' (tk_ccy t i) f) (tk_rate t (tk_ccy t i)) \<or>
      d f + e f = 0 \<and> tk_conv t'' (tk_ccy t i) f = tk_conv t (tk_ccy t i) f" if "converting t" for f
    using booked_conv(1,2) [OF a that, of f] booked_conv(1,2) [OF b, of f] that p(1,3,4) by auto
  then show ?thesis
    using booked_conv(1,3,4,5) [OF a] booked_conv(1,3,4,5) [OF b] unfolding booked_def Let_def p q by simp
qed

lemma sum_upd:
  assumes "finite A" "i \<in> A" "g i = h i + d" "\<And>j. j \<in> A \<Longrightarrow> j \<noteq> i \<Longrightarrow> g j = h j"
  shows "sum g A = sum h A + (d::int)"
proof -
  have "sum g A = g i + sum g (A - {i})" "sum h A = h i + sum h (A - {i})" using assms(1,2) by (simp_all add: sum.remove)
  moreover have "sum g (A - {i}) = sum h (A - {i})" using assms(4) by (intro sum.cong) auto
  ultimately show ?thesis using assms(3) by simp
qed

lemma totals_ok_booked:
  assumes ok: "totals_ok t" and i: "i < kMaxInstruments" and b: "booked i d t t'"
    and v: "\<And>f. total_val f t' i = total_val f t i + d f" "\<And>f j. j \<noteq> i \<Longrightarrow> total_val f t' j = total_val f t j"
  shows "totals_ok t'"
proof -
  have c: "converting t' = converting t" "tk_ccy t' = tk_ccy t" "tk_rate t' = tk_rate t" using b by (simp_all add: booked_def converting_def)
  have s: "(\<Sum>j\<in>A. total_val f t' j) = (\<Sum>j\<in>A. total_val f t j) + d f" if "finite A" "i \<in> A" for A f
    using sum_upd [of A i "total_val f t'" "total_val f t" "d f"] that v by blast
  have s': "(\<Sum>j\<in>A. total_val f t' j) = (\<Sum>j\<in>A. total_val f t j)" if "i \<notin> A" for A f
    using that by (intro sum.cong refl v(2)) auto
  have plain: "plain_total f t' = (\<Sum>j<kMaxInstruments. total_val f t' j)" for f
    using s [of "{..<kMaxInstruments}" f] i ok b by (simp add: totals_ok_def booked_def)
  have fin: "finite (of_ccy t k)" for k by simp
  show ?thesis
  proof (cases "converting t")
    case False
    then show ?thesis using plain by (simp add: totals_ok_def c(1))
  next
    case True
    let ?c = "tk_ccy t i"
    have ci: "?c < kMaxCurrencies" using ok True i by (simp add: totals_ok_def)
    have b': "tk_native t' ?c f = tk_native t ?c f + d f"
      "tk_conv t' ?c f = convert (tk_native t' ?c f) (tk_rate t ?c) \<or> d f = 0 \<and> tk_conv t' ?c f = tk_conv t ?c f"
      "tk_conv_total t' f = tk_conv_total t f + (tk_conv t' ?c f - tk_conv t ?c f)"
      "k \<noteq> ?c \<Longrightarrow> tk_native t' k = tk_native t k \<and> tk_conv t' k = tk_conv t k" for f k
      using booked_conv [OF b True] by blast+
    have o: "tk_native t k f = (\<Sum>j\<in>of_ccy t k. total_val f t j) \<and> tk_conv t k f = convert (tk_native t k f) (tk_rate t k)"
      if "k < kMaxCurrencies" for k f using ok True that by (simp add: totals_ok_def)
    have n: "tk_native t' k f = (\<Sum>j\<in>of_ccy t k. total_val f t' j) \<and> tk_conv t' k f = convert (tk_native t' k f) (tk_rate t k)"
      if k: "k < kMaxCurrencies" for k f
    proof (cases "k = ?c")
      case True
      then show ?thesis using o [OF k, of f] b'(1,2) [of f] s [OF fin, of ?c f] i by auto
    next
      case False
      then show ?thesis using o [OF k, of f] b'(4) [OF False] s' [of "of_ccy t k" f] by simp
    qed
    have "(\<Sum>k<kMaxCurrencies. tk_conv t' k f) = (\<Sum>k<kMaxCurrencies. tk_conv t k f) + (tk_conv t' ?c f - tk_conv t ?c f)" for f
      by (rule sum_upd [of _ ?c]) (use ci b'(4) in auto)
    then have "tk_conv_total t' f = (\<Sum>k<kMaxCurrencies. tk_conv t' k f)" for f
      using b'(3) ok True by (simp add: totals_ok_def)
    then show ?thesis using plain n ok True by (simp add: totals_ok_def c)
  qed
qed

text \<open>The pieces of the operations.\<close>

lemma tk_book_booked:
  assumes "\<And>g. plain_total g t1 = plain_total g t + (if g = f then e else 0)"
    "tk_ccy t1 = tk_ccy t" "tk_ccy_count t1 = tk_ccy_count t" "tk_rate t1 = tk_rate t" "tk_native t1 = tk_native t"
    "tk_conv t1 = tk_conv t" "tk_conv_total t1 = tk_conv_total t"
  shows "booked i (\<lambda>g. if g = f then e else 0) t (tk_book i f e t1)"
proof -
  have c: "converting t1 = converting t" using assms(3) by (simp add: converting_def)
  have p: "plain_total g (tk_book i f e t1) = plain_total g t1" for g
    by (cases g) (simp_all add: tk_book_def book_converted_def Let_def)
  show ?thesis
    unfolding booked_def Let_def p
    by (auto simp: assms c tk_book_def book_converted_def Let_def converting_def)
qed

lemma tk_book_frame [simp]:
  "tk_pos (tk_book i f e t) = tk_pos t" "tk_exposure (tk_book i f e t) = tk_exposure t" "tk_ccy (tk_book i f e t) = tk_ccy t"
  "tk_ccy_count (tk_book i f e t) = tk_ccy_count t" "tk_fund_per (tk_book i f e t) = tk_fund_per t"
  "tk_fund_total (tk_book i f e t) = tk_fund_total t" "tk_fund_native (tk_book i f e t) = tk_fund_native t"
  "plain_total g (tk_book i f e t) = plain_total g t"
  by (simp_all add: tk_book_def book_converted_def Let_def) (cases g; simp)

lemma upd_pos_frame [simp]:
  "tk_pos (upd_pos i g t) j = (if j = i then g (tk_pos t i) else tk_pos t j)" "tk_exposure (upd_pos i g t) = tk_exposure t"
  "tk_ccy (upd_pos i g t) = tk_ccy t" "tk_ccy_count (upd_pos i g t) = tk_ccy_count t" "tk_rate (upd_pos i g t) = tk_rate t"
  "tk_native (upd_pos i g t) = tk_native t" "tk_conv (upd_pos i g t) = tk_conv t" "tk_conv_total (upd_pos i g t) = tk_conv_total t"
  "tk_fund_per (upd_pos i g t) = tk_fund_per t" "tk_fund_total (upd_pos i g t) = tk_fund_total t"
  "tk_fund_native (upd_pos i g t) = tk_fund_native t" "converting (upd_pos i g t) = converting t"
  "plain_total f (upd_pos i g t) = plain_total f t"
  by (simp_all add: upd_pos_def converting_def) (cases f; simp)

lemma count_change_frame [simp]:
  "tk_pos (count_change t) = tk_pos t" "tk_exposure (count_change t) = tk_exposure t" "tk_ccy (count_change t) = tk_ccy t"
  "tk_ccy_count (count_change t) = tk_ccy_count t" "tk_rate (count_change t) = tk_rate t" "tk_native (count_change t) = tk_native t"
  "tk_conv (count_change t) = tk_conv t" "tk_conv_total (count_change t) = tk_conv_total t"
  "tk_fund_per (count_change t) = tk_fund_per t" "tk_fund_total (count_change t) = tk_fund_total t"
  "tk_fund_native (count_change t) = tk_fund_native t" "converting (count_change t) = converting t"
  "plain_total f (count_change t) = plain_total f t"
  by (simp_all add: count_change_def converting_def) (cases f; simp)

lemma booked_frame:
  "(\<And>f. plain_total f t' = plain_total f t) \<Longrightarrow> tk_ccy t' = tk_ccy t \<Longrightarrow> tk_ccy_count t' = tk_ccy_count t \<Longrightarrow> tk_rate t' = tk_rate t \<Longrightarrow>
   tk_native t' = tk_native t \<Longrightarrow> tk_conv t' = tk_conv t \<Longrightarrow> tk_conv_total t' = tk_conv_total t \<Longrightarrow> booked i (\<lambda>_. 0) t t'"
  by (simp add: booked_def Let_def)

text \<open>An operation on one instrument: what it adds to the instrument's values it adds to the totals, and it
  leaves the other instruments and the funding alone.\<close>

definition moves :: "instrument_id \<Rightarrow> (total_field \<Rightarrow> notional) \<Rightarrow> tracker \<Rightarrow> tracker \<Rightarrow> bool" where
  "moves i d t t' \<longleftrightarrow> booked i d t t' \<and> (\<forall>f. total_val f t' i = total_val f t i + d f) \<and>
     (\<forall>j. j \<noteq> i \<longrightarrow> tk_pos t' j = tk_pos t j \<and> tk_exposure t' j = tk_exposure t j) \<and>
     tk_fund_per t' = tk_fund_per t \<and> tk_fund_total t' = tk_fund_total t \<and> tk_fund_native t' = tk_fund_native t"

definition moved :: "instrument_id \<Rightarrow> tracker \<Rightarrow> tracker \<Rightarrow> bool" where
  "moved i t t' \<longleftrightarrow> (\<exists>d. moves i d t t')"

lemma movedI:
  assumes "booked i d t t'" "\<And>f. total_val f t' i = total_val f t i + d f"
    "\<And>j. j \<noteq> i \<Longrightarrow> tk_pos t' j = tk_pos t j" "\<And>j. j \<noteq> i \<Longrightarrow> tk_exposure t' j = tk_exposure t j"
    "tk_fund_per t' = tk_fund_per t" "tk_fund_total t' = tk_fund_total t" "tk_fund_native t' = tk_fund_native t"
  shows "moved i t t'"
  using assms unfolding moved_def moves_def by blast

lemma moved_trans: "moved i t t' \<Longrightarrow> moved i t' t'' \<Longrightarrow> moved i t t''"
proof -
  assume "moved i t t'" "moved i t' t''"
  then obtain d e where de: "moves i d t t'" "moves i e t' t''" by (auto simp: moved_def)
  then have "moves i (\<lambda>f. d f + e f) t t''"
    using booked_trans [of i d t t' e t''] unfolding moves_def by simp
  then show ?thesis by (auto simp: moved_def)
qed

lemma moved_totals: "moved i t t' \<Longrightarrow> i < kMaxInstruments \<Longrightarrow> totals_ok t \<Longrightarrow> totals_ok t'"
proof -
  assume m: "moved i t t'" and i: "i < kMaxInstruments" and ok: "totals_ok t"
  obtain d where d: "moves i d t t'" using m by (auto simp: moved_def)
  have "total_val f t' j = total_val f t j" if "j \<noteq> i" for f j using d that by (cases f) (auto simp: moves_def)
  then show ?thesis using totals_ok_booked [OF ok i, of d t'] d by (simp add: moves_def)
qed

lemma moved_funding: "moved i t t' \<Longrightarrow> funding_ok t \<Longrightarrow> funding_ok t'"
  by (auto simp: moved_def moves_def funding_ok_def booked_def converting_def)

lemma moved_neutral:
  assumes "po_realized (g (tk_pos t i)) = po_realized (tk_pos t i)" "po_unrealized (g (tk_pos t i)) = po_unrealized (tk_pos t i)"
    "po_fees (g (tk_pos t i)) = po_fees (tk_pos t i)"
  shows "moved i t (upd_pos i g t)"
proof -
  have "total_val f (upd_pos i g t) i = total_val f t i" for f using assms by (cases f) simp_all
  then have "moves i (\<lambda>_. 0) t (upd_pos i g t)" by (simp add: moves_def booked_frame)
  then show ?thesis by (auto simp: moved_def)
qed

lemma moved_count: "moved i t (count_change t)"
proof -
  have "total_val f (count_change t) i = total_val f t i" for f by (cases f) simp_all
  then have "moves i (\<lambda>_. 0) t (count_change t)" by (simp add: moves_def booked_frame)
  then show ?thesis by (auto simp: moved_def)
qed

lemma moved_realized: "moved i t (add_realized i r t)"
proof -
  let ?t1 = "(upd_pos i (\<lambda>p. p\<lparr>po_realized := po_realized p + r\<rparr>) t)\<lparr>tk_realized_total := tk_realized_total t + r\<rparr>"
  have e: "add_realized i r t = tk_book i TRealized r ?t1" by (simp add: add_realized_def Let_def upd_pos_def)
  have "booked i (\<lambda>g. if g = TRealized then r else 0) t (tk_book i TRealized r ?t1)"
  proof (rule tk_book_booked)
    show "plain_total g ?t1 = plain_total g t + (if g = TRealized then r else 0)" for g by (cases g) (simp_all add: upd_pos_def)
  qed (simp_all add: upd_pos_def)
  moreover have "total_val f (tk_book i TRealized r ?t1) i = total_val f t i + (if f = TRealized then r else 0)" for f
    by (cases f) (simp_all add: upd_pos_def)
  ultimately show ?thesis unfolding e by (rule movedI) (simp_all add: upd_pos_def)
qed

lemma moved_fees: "moved i t (add_fees i r t)"
proof -
  let ?t1 = "(upd_pos i (\<lambda>p. p\<lparr>po_fees := po_fees p + r\<rparr>) t)\<lparr>tk_fees_total := tk_fees_total t + r\<rparr>"
  have e: "add_fees i r t = tk_book i TFees r ?t1" by (simp add: add_fees_def Let_def upd_pos_def)
  have "booked i (\<lambda>g. if g = TFees then r else 0) t (tk_book i TFees r ?t1)"
  proof (rule tk_book_booked)
    show "plain_total g ?t1 = plain_total g t + (if g = TFees then r else 0)" for g by (cases g) (simp_all add: upd_pos_def)
  qed (simp_all add: upd_pos_def)
  moreover have "total_val f (tk_book i TFees r ?t1) i = total_val f t i + (if f = TFees then r else 0)" for f
    by (cases f) (simp_all add: upd_pos_def)
  ultimately show ?thesis unfolding e by (rule movedI) (simp_all add: upd_pos_def)
qed

lemma moved_unrealized: "moved i t (set_unrealized i u t)"
proof -
  define d where "d = u - po_unrealized (tk_pos t i)"
  let ?t1 = "tk_book i TUnrealized d (t\<lparr>tk_unrealized_total := tk_unrealized_total t + d\<rparr>)"
  have e: "set_unrealized i u t = upd_pos i (\<lambda>p. p\<lparr>po_unrealized := u\<rparr>) ?t1" by (simp add: set_unrealized_def Let_def d_def)
  have "booked i (\<lambda>g. if g = TUnrealized then d else 0) t ?t1"
  proof (rule tk_book_booked)
    show "plain_total g (t\<lparr>tk_unrealized_total := tk_unrealized_total t + d\<rparr>) = plain_total g t + (if g = TUnrealized then d else 0)" for g
      by (cases g) simp_all
  qed simp_all
  then have "booked i (\<lambda>g. (if g = TUnrealized then d else 0) + 0) t (upd_pos i (\<lambda>p. p\<lparr>po_unrealized := u\<rparr>) ?t1)"
    by (rule booked_trans) (simp add: booked_frame)
  moreover have "total_val f (upd_pos i (\<lambda>p. p\<lparr>po_unrealized := u\<rparr>) ?t1) i = total_val f t i + (if f = TUnrealized then d else 0)" for f
    by (cases f) (simp_all add: d_def)
  ultimately show ?thesis unfolding e by (intro movedI [where d = "\<lambda>g. if g = TUnrealized then d else 0"]) simp_all
qed

lemma moved_exposure: "moved i t (set_exposure i x t)"
proof -
  define dg dn where "dg = \<bar>x\<bar> - \<bar>tk_exposure t i\<bar>" and "dn = x - tk_exposure t i"
  define t1 where "t1 = t\<lparr>tk_gross_exposure := tk_gross_exposure t + dg, tk_net_exposure := tk_net_exposure t + dn\<rparr>"
  define ta where "ta = t\<lparr>tk_gross_exposure := tk_gross_exposure t + dg\<rparr>"
  define t2 where "t2 = tk_book i TNet dn (tk_book i TGross dg t1)"
  have e: "set_exposure i x t = t2\<lparr>tk_exposure := (tk_exposure t2)(i := x)\<rparr>"
    by (simp add: set_exposure_def Let_def dg_def dn_def t1_def t2_def)
  have a: "booked i (\<lambda>g. if g = TGross then dg else 0) t (tk_book i TGross dg ta)"
  proof (rule tk_book_booked)
    show "plain_total g ta = plain_total g t + (if g = TGross then dg else 0)" for g by (cases g) (simp_all add: ta_def)
  qed (simp_all add: ta_def)
  have s: "tk_book i TGross dg t1 = (tk_book i TGross dg ta)\<lparr>tk_net_exposure := tk_net_exposure t + dn\<rparr>"
    by (simp add: tk_book_def t1_def ta_def book_converted_def Let_def converting_def)
  have b: "booked i (\<lambda>g. if g = TNet then dn else 0) (tk_book i TGross dg ta) t2"
    unfolding t2_def
  proof (rule tk_book_booked)
    show "plain_total g (tk_book i TGross dg t1) = plain_total g (tk_book i TGross dg ta) + (if g = TNet then dn else 0)" for g
      unfolding tk_book_frame by (cases g) (simp_all add: t1_def ta_def)
  qed (simp_all add: s)
  have "booked i (\<lambda>g. (if g = TGross then dg else 0) + (if g = TNet then dn else 0)) t t2" by (rule booked_trans [OF a b])
  then have "booked i (\<lambda>g. ((if g = TGross then dg else 0) + (if g = TNet then dn else 0)) + 0) t (set_exposure i x t)"
    unfolding e
  proof (rule booked_trans)
    show "booked i (\<lambda>_. 0) t2 (t2\<lparr>tk_exposure := (tk_exposure t2)(i := x)\<rparr>)"
    proof (rule booked_frame)
      show "plain_total f (t2\<lparr>tk_exposure := (tk_exposure t2)(i := x)\<rparr>) = plain_total f t2" for f by (cases f) simp_all
    qed simp_all
  qed
  moreover have "total_val f (set_exposure i x t) i = total_val f t i + ((if f = TGross then dg else 0) + (if f = TNet then dn else 0))" for f
    unfolding e by (cases f) (simp_all add: t2_def t1_def dg_def dn_def)
  moreover have "tk_pos (set_exposure i x t) = tk_pos t" "j \<noteq> i \<Longrightarrow> tk_exposure (set_exposure i x t) j = tk_exposure t j"
    "tk_fund_per (set_exposure i x t) = tk_fund_per t" "tk_fund_total (set_exposure i x t) = tk_fund_total t"
    "tk_fund_native (set_exposure i x t) = tk_fund_native t" for j
    unfolding e by (simp_all add: t2_def t1_def)
  ultimately show ?thesis by (intro movedI [where d = "\<lambda>g. (if g = TGross then dg else 0) + (if g = TNet then dn else 0)"]) simp_all
qed

lemma moved_mark: "moved i t (tk_mark i mid inst t)"
  unfolding tk_mark_def Let_def
  by (rule moved_trans [OF moved_trans [OF moved_neutral moved_unrealized] moved_exposure]) simp_all

definition fill_start :: "instrument_id \<Rightarrow> qty \<Rightarrow> notional \<Rightarrow> tracker \<Rightarrow> tracker" where
  "fill_start i q fee t =
     upd_pos i (\<lambda>p. p\<lparr>po_gross_traded := po_gross_traded p + q, po_fills := po_fills p + 1\<rparr>) (add_fees i fee (count_change t))"

lemma upd_pos_cong: "g (tk_pos t i) = h (tk_pos t i) \<Longrightarrow> upd_pos i g t = upd_pos i h t"
  by (simp add: upd_pos_def)

definition fill_opens :: "int \<Rightarrow> int \<Rightarrow> bool" where
  "fill_opens cur f \<longleftrightarrow> cur = 0 \<or> (cur > 0) = (f > 0)"

text \<open>The three ways a fill of signed quantity \<open>f\<close> moves a position, as \<^verbatim>\<open>on_fill\<close> takes them.\<close>

lemma tk_on_fill_unfold:
  fixes i :: instrument_id and s px q fee inst t
  defines "f \<equiv> (if s = Buy then q else - q)" and "p0 \<equiv> tk_pos t i" and "t1 \<equiv> fill_start i q fee t"
  obtains t2 where "tk_on_fill i s px q fee inst t =
      (if po_last_mark (tk_pos t2 i) > 0 then tk_mark i (po_last_mark (tk_pos t2 i)) inst t2
       else set_exposure i (signed_notional (tk_pos t2 i) px inst) t2)"
    "fill_opens (po_qty p0) f \<Longrightarrow> t2 = upd_pos i (\<lambda>p. p\<lparr>po_avg_px := (if inverse_contract inst
         then harmonic_avg (po_qty p0) (po_avg_px p0) f px (po_qty p0 + f) else arithmetic_avg (po_qty p0) (po_avg_px p0) f px (po_qty p0 + f)),
       po_qty := po_qty p0 + f\<rparr>) t1"
    "\<not> fill_opens (po_qty p0) f \<Longrightarrow> t2 = upd_pos i (\<lambda>p. p\<lparr>po_qty := po_qty p0 + f,
         po_avg_px := (if \<bar>f\<bar> > \<bar>po_qty p0\<bar> then px else if po_qty p0 + f = 0 then 0 else po_avg_px p0)\<rparr>)
       (add_realized i (closing_pnl inst (po_avg_px p0) px (min \<bar>f\<bar> \<bar>po_qty p0\<bar>) (if po_qty p0 > 0 then 1 else - 1)) t1)"
proof -
  let ?cur = "po_qty p0"
  define t2 where "t2 = (if ?cur = 0 \<or> (?cur > 0) = (f > 0)
                then (let denom = ?cur + f;
                          avg = (if inverse_contract inst then harmonic_avg ?cur (po_avg_px (tk_pos t1 i)) f px denom
                                 else arithmetic_avg ?cur (po_avg_px (tk_pos t1 i)) f px denom)
                      in upd_pos i (\<lambda>p. p\<lparr>po_avg_px := avg, po_qty := denom\<rparr>) t1)
                else (let abs_cur = (if ?cur < 0 then - ?cur else ?cur); abs_f = (if f < 0 then - f else f);
                          closed = (if abs_f < abs_cur then abs_f else abs_cur); dir = (if ?cur > 0 then 1 else - 1);
                          t2 = add_realized i (closing_pnl inst (po_avg_px (tk_pos t1 i)) px closed dir) t1;
                          remaining = abs_f - closed
                      in if remaining > 0
                         then upd_pos i (\<lambda>p. p\<lparr>po_qty := (if f > 0 then remaining else - remaining), po_avg_px := px\<rparr>) t2
                         else upd_pos i (\<lambda>p. p\<lparr>po_qty := ?cur + f, po_avg_px := (if ?cur + f = 0 then 0 else po_avg_px p)\<rparr>) t2))"
  have p1: "po_avg_px (tk_pos t1 i) = po_avg_px p0"
    by (simp add: t1_def p0_def fill_start_def add_fees_def Let_def upd_pos_def)
  have "tk_on_fill i s px q fee inst t =
      (if po_last_mark (tk_pos t2 i) > 0 then tk_mark i (po_last_mark (tk_pos t2 i)) inst t2
       else set_exposure i (signed_notional (tk_pos t2 i) px inst) t2)"
    unfolding tk_on_fill_def Let_def t2_def f_def p0_def t1_def fill_start_def by (rule refl)
  moreover have "t2 = upd_pos i (\<lambda>p. p\<lparr>po_avg_px := (if inverse_contract inst
         then harmonic_avg ?cur (po_avg_px p0) f px (?cur + f) else arithmetic_avg ?cur (po_avg_px p0) f px (?cur + f)),
       po_qty := ?cur + f\<rparr>) t1" if "fill_opens ?cur f"
    using that unfolding t2_def fill_opens_def p1 Let_def by (simp only: if_True)
  moreover have "t2 = upd_pos i (\<lambda>p. p\<lparr>po_qty := ?cur + f,
         po_avg_px := (if \<bar>f\<bar> > \<bar>?cur\<bar> then px else if ?cur + f = 0 then 0 else po_avg_px p0)\<rparr>)
       (add_realized i (closing_pnl inst (po_avg_px p0) px (min \<bar>f\<bar> \<bar>?cur\<bar>) (if ?cur > 0 then 1 else - 1)) t1)"
    if no: "\<not> fill_opens ?cur f"
  proof -
    define A where "A = add_realized i (closing_pnl inst (po_avg_px p0) px (min \<bar>f\<bar> \<bar>?cur\<bar>) (if ?cur > 0 then 1 else - 1)) t1"
    define rest where "rest = (if f < 0 then - f else f) - min \<bar>f\<bar> \<bar>?cur\<bar>"
    have cl: "(if (if f < 0 then - f else f) < (if ?cur < 0 then - ?cur else ?cur) then (if f < 0 then - f else f) else (if ?cur < 0 then - ?cur else ?cur))
        = min \<bar>f\<bar> \<bar>?cur\<bar>" by auto
    have e: "t2 = (if rest > 0 then upd_pos i (\<lambda>p. p\<lparr>po_qty := (if f > 0 then rest else - rest), po_avg_px := px\<rparr>) A
        else upd_pos i (\<lambda>p. p\<lparr>po_qty := ?cur + f, po_avg_px := (if ?cur + f = 0 then 0 else po_avg_px p)\<rparr>) A)"
      using no unfolding t2_def fill_opens_def p1 Let_def cl A_def rest_def by (simp only: if_False)
    have avg: "po_avg_px (tk_pos A i) = po_avg_px p0" by (simp add: A_def add_realized_def Let_def p1)
    have sg: "?cur \<noteq> 0" "(?cur > 0) \<noteq> (f > 0)" using no by (auto simp: fill_opens_def)
    have r: "rest > 0 \<longleftrightarrow> \<bar>f\<bar> > \<bar>?cur\<bar>" by (auto simp: rest_def min_def)
    have q: "(if f > 0 then rest else - rest) = ?cur + f" if "\<bar>f\<bar> > \<bar>?cur\<bar>" using that sg by (auto simp: rest_def min_def)
    show ?thesis
    proof (cases "\<bar>f\<bar> > \<bar>?cur\<bar>")
      case True
      then show ?thesis unfolding A_def [symmetric] e r by (simp add: q)
    next
      case False
      then show ?thesis unfolding A_def [symmetric] e r if_not_P [OF False] by (intro upd_pos_cong) (simp add: avg)
    qed
  qed
  ultimately show thesis by (rule that)
qed

lemma moved_fill_start: "moved i t (fill_start i q fee t)"
  unfolding fill_start_def by (rule moved_trans [OF moved_trans [OF moved_count moved_fees] moved_neutral]) simp_all

lemma moved_on_fill: "moved i t (tk_on_fill i s px q fee inst t)"
proof (rule tk_on_fill_unfold [of i s px q fee inst t])
  fix t2
  let ?f = "if s = Buy then q else - q" and ?p0 = "tk_pos t i" and ?t1 = "fill_start i q fee t"
  assume e: "tk_on_fill i s px q fee inst t =
      (if po_last_mark (tk_pos t2 i) > 0 then tk_mark i (po_last_mark (tk_pos t2 i)) inst t2
       else set_exposure i (signed_notional (tk_pos t2 i) px inst) t2)"
    and o: "fill_opens (po_qty ?p0) ?f \<Longrightarrow> t2 = upd_pos i (\<lambda>p. p\<lparr>po_avg_px := (if inverse_contract inst
         then harmonic_avg (po_qty ?p0) (po_avg_px ?p0) ?f px (po_qty ?p0 + ?f) else arithmetic_avg (po_qty ?p0) (po_avg_px ?p0) ?f px (po_qty ?p0 + ?f)),
       po_qty := po_qty ?p0 + ?f\<rparr>) ?t1"
    and c: "\<not> fill_opens (po_qty ?p0) ?f \<Longrightarrow> t2 = upd_pos i (\<lambda>p. p\<lparr>po_qty := po_qty ?p0 + ?f,
         po_avg_px := (if \<bar>?f\<bar> > \<bar>po_qty ?p0\<bar> then px else if po_qty ?p0 + ?f = 0 then 0 else po_avg_px ?p0)\<rparr>)
       (add_realized i (closing_pnl inst (po_avg_px ?p0) px (min \<bar>?f\<bar> \<bar>po_qty ?p0\<bar>) (if po_qty ?p0 > 0 then 1 else - 1)) ?t1)"
  have "moved i t t2"
  proof (cases "fill_opens (po_qty ?p0) ?f")
    case True
    show ?thesis unfolding o [OF True] by (rule moved_trans [OF moved_fill_start moved_neutral]) simp_all
  next
    case False
    show ?thesis unfolding c [OF False] by (rule moved_trans [OF moved_trans [OF moved_fill_start moved_realized] moved_neutral]) simp_all
  qed
  then show ?thesis unfolding e using moved_trans moved_mark moved_exposure by (cases "po_last_mark (tk_pos t2 i) > 0") auto
qed

lemma moved_correct_fill: "moved i t (correct_fill i s est px q fee inst t)"
  unfolding correct_fill_def Let_def by (rule moved_trans [OF moved_trans [OF moved_count moved_realized] moved_fees])

lemma moved_set: "moved i t (tk_set i q avg inst t)"
  unfolding tk_set_def Let_def
  by (rule moved_trans [OF moved_trans [OF moved_trans [OF moved_count moved_neutral] moved_unrealized] moved_exposure]) simp_all

lemma totals_ok_frame:
  assumes "\<And>f i. total_val f t' i = total_val f t i" "\<And>f. plain_total f t' = plain_total f t" "tk_ccy t' = tk_ccy t"
    "tk_ccy_count t' = tk_ccy_count t" "tk_rate t' = tk_rate t" "tk_native t' = tk_native t" "tk_conv t' = tk_conv t"
    "tk_conv_total t' = tk_conv_total t"
  shows "totals_ok t' = totals_ok t"
  by (simp add: totals_ok_def converting_def assms)

lemma total_val_fields [simp]:
  "total_val f (t\<lparr>tk_fund_total := a\<rparr>) i = total_val f t i" "total_val f (t\<lparr>tk_fund_per := b\<rparr>) i = total_val f t i"
  "total_val f (t\<lparr>tk_fund_native := c\<rparr>) i = total_val f t i" "total_val f (t\<lparr>tk_rate := r\<rparr>) i = total_val f t i"
  "total_val f (t\<lparr>tk_native := n\<rparr>) i = total_val f t i" "total_val f (t\<lparr>tk_ccy_count := k\<rparr>) i = total_val f t i"
  "total_val f (t\<lparr>tk_ccy := y\<rparr>) i = total_val f t i" "total_val f (t\<lparr>tk_conv := v\<rparr>) i = total_val f t i"
  "total_val f (t\<lparr>tk_conv_total := w\<rparr>) i = total_val f t i" "total_val f (count_change t) i = total_val f t i"
  "total_val f (tk_book j g e t) i = total_val f t i"
  by (cases f; simp)+

lemma plain_total_fields [simp]:
  "plain_total f (t\<lparr>tk_fund_total := a\<rparr>) = plain_total f t" "plain_total f (t\<lparr>tk_fund_per := b\<rparr>) = plain_total f t"
  "plain_total f (t\<lparr>tk_fund_native := c\<rparr>) = plain_total f t" "plain_total f (t\<lparr>tk_rate := r\<rparr>) = plain_total f t"
  "plain_total f (t\<lparr>tk_native := n\<rparr>) = plain_total f t" "plain_total f (t\<lparr>tk_ccy_count := k\<rparr>) = plain_total f t"
  "plain_total f (t\<lparr>tk_ccy := y\<rparr>) = plain_total f t" "plain_total f (t\<lparr>tk_conv := v\<rparr>) = plain_total f t"
  "plain_total f (t\<lparr>tk_conv_total := w\<rparr>) = plain_total f t"
  by (cases f; simp)+

lemma converting_fields [simp]:
  "converting (t\<lparr>tk_fund_total := a\<rparr>) = converting t" "converting (t\<lparr>tk_fund_per := b\<rparr>) = converting t"
  "converting (t\<lparr>tk_fund_native := c\<rparr>) = converting t" "converting (t\<lparr>tk_rate := r\<rparr>) = converting t"
  by (simp_all add: converting_def)

section \<open>Funding and resets\<close>

lemma sum_of_ccy_upd:
  fixes g h :: "instrument_id \<Rightarrow> int"
  assumes "i < kMaxInstruments" "g i = h i + d" "\<And>j. j \<noteq> i \<Longrightarrow> g j = h j"
  shows "sum g (of_ccy t c) = sum h (of_ccy t c) + (if tk_ccy t i = c then d else 0)"
    "sum g {..<kMaxInstruments} = sum h {..<kMaxInstruments} + d"
proof -
  show "sum g {..<kMaxInstruments} = sum h {..<kMaxInstruments} + d" by (rule sum_upd [of _ i]) (use assms in auto)
  show "sum g (of_ccy t c) = sum h (of_ccy t c) + (if tk_ccy t i = c then d else 0)"
  proof (cases "tk_ccy t i = c")
    case True
    then have "sum g (of_ccy t c) = sum h (of_ccy t c) + d" by (intro sum_upd [of _ i]) (use assms in auto)
    then show ?thesis using True by simp
  next
    case False
    then have "sum g (of_ccy t c) = sum h (of_ccy t c)" by (intro sum.cong refl assms(3)) auto
    then show ?thesis using False by simp
  qed
qed

lemma on_funding_ok:
  assumes "i < kMaxInstruments"
  shows "totals_ok t \<Longrightarrow> totals_ok (on_funding i a t)" "funding_ok t \<Longrightarrow> funding_ok (on_funding i a t)"
proof -
  define t1 where "t1 = add_realized i a (count_change t)"
  have m: "moved i t t1" unfolding t1_def by (rule moved_trans [OF moved_count moved_realized])
  have f: "tk_fund_per (on_funding i a t) = (tk_fund_per t1)(i := tk_fund_per t1 i + a)" "tk_fund_total (on_funding i a t) = tk_fund_total t1 + a"
    "tk_ccy (on_funding i a t) = tk_ccy t1" "converting (on_funding i a t) = converting t1"
    "converting t1 \<Longrightarrow> tk_fund_native (on_funding i a t) = (tk_fund_native t1)(tk_ccy t1 i := tk_fund_native t1 (tk_ccy t1 i) + a)"
    by (simp_all add: on_funding_def Let_def t1_def [symmetric])
  have "totals_ok (on_funding i a t) = totals_ok t1"
    by (rule totals_ok_frame) (simp_all add: on_funding_def Let_def t1_def [symmetric])
  then show "totals_ok t \<Longrightarrow> totals_ok (on_funding i a t)" using moved_totals [OF m assms] by simp
  assume "funding_ok t"
  then have o: "funding_ok t1" by (rule moved_funding [OF m])
  note s = sum_of_ccy_upd [OF assms, of "(tk_fund_per t1)(i := tk_fund_per t1 i + a)" "tk_fund_per t1" a]
  show "funding_ok (on_funding i a t)"
    using o s unfolding funding_ok_def f(1-4) by (auto simp: f(5))
qed

lemma tk_reset_ok:
  assumes i: "i < kMaxInstruments"
  shows "totals_ok t \<Longrightarrow> totals_ok (tk_reset i t)" "funding_ok t \<Longrightarrow> funding_ok (tk_reset i t)"
proof -
  let ?p = "tk_pos t i"
  define t1 where "t1 = count_change t"
  define t2 where "t2 = tk_book i TRealized (0 - po_realized ?p) (t1\<lparr>tk_realized_total := tk_realized_total t1 - po_realized ?p\<rparr>)"
  define t3 where "t3 = tk_book i TFees (0 - po_fees ?p) (t2\<lparr>tk_fees_total := tk_fees_total t2 - po_fees ?p\<rparr>)"
  define t4 where "t4 = t3\<lparr>tk_fund_total := tk_fund_total t3 - tk_fund_per t3 i\<rparr>"
  define t5 where "t5 = (if converting t4 then t4\<lparr>tk_fund_native := (tk_fund_native t4)(tk_ccy t4 i := tk_fund_native t4 (tk_ccy t4 i) - tk_fund_per t4 i)\<rparr> else t4)"
  define t6 where "t6 = t5\<lparr>tk_fund_per := (tk_fund_per t5)(i := 0)\<rparr>"
  define t7 where "t7 = set_exposure i 0 (set_unrealized i 0 t6)"
  have r: "tk_reset i t = upd_pos i (\<lambda>_. position_zero) t7"
    by (simp add: tk_reset_def Let_def t1_def t2_def t3_def t4_def t5_def t6_def t7_def)
  have a: "booked i (\<lambda>g. if g = TRealized then 0 - po_realized ?p else 0) t t2" unfolding t2_def
  proof (rule tk_book_booked)
    show "plain_total g (t1\<lparr>tk_realized_total := tk_realized_total t1 - po_realized ?p\<rparr>) = plain_total g t + (if g = TRealized then 0 - po_realized ?p else 0)" for g
      by (cases g) (simp_all add: t1_def count_change_def)
  qed (simp_all add: t1_def)
  have b: "booked i (\<lambda>g. if g = TFees then 0 - po_fees ?p else 0) t2 t3" unfolding t3_def
  proof (rule tk_book_booked)
    show "plain_total g (t2\<lparr>tk_fees_total := tk_fees_total t2 - po_fees ?p\<rparr>) = plain_total g t2 + (if g = TFees then 0 - po_fees ?p else 0)" for g
      by (cases g) simp_all
  qed simp_all
  have c: "booked i (\<lambda>_. 0) t3 t6" by (rule booked_frame) (simp_all add: t4_def t5_def t6_def)
  obtain d where d: "moves i d t6 t7" using moved_trans [OF moved_unrealized moved_exposure, of i t6 0 0] by (auto simp: t7_def moved_def)
  have v6: "total_val f t6 j = total_val f t j" for f j
    by (cases f) (simp_all add: t6_def t5_def t4_def t3_def t2_def t1_def)
  have v7: "total_val f t7 i = (case f of TRealized \<Rightarrow> po_realized ?p | TFees \<Rightarrow> po_fees ?p | _ \<Rightarrow> 0)" for f
    using v6 [of TRealized i] v6 [of TFees i]
    by (cases f) (simp_all add: t7_def set_exposure_def set_unrealized_def Let_def upd_pos_def)
  define e where "e f = ((if f = TRealized then 0 - po_realized ?p else 0) + (if f = TFees then 0 - po_fees ?p else 0) + 0) + d f" for f
  have "booked i e t t7"
    unfolding e_def by (rule booked_trans [OF booked_trans [OF booked_trans [OF a b] c]]) (use d in \<open>simp add: moves_def\<close>)
  then have bk: "booked i e t (tk_reset i t)"
    using booked_trans [of i e t t7 "\<lambda>_. 0"] booked_frame [of "tk_reset i t" t7 i] by (simp add: r)
  have de: "d f = total_val f t7 i - total_val f t i" for f using d v6 [of f i] by (simp add: moves_def)
  have "total_val f (tk_reset i t) i = total_val f t i + e f" for f
  proof -
    have x: "tk_exposure t7 i = 0" using v7 [of TNet] by simp
    have "total_val f (tk_reset i t) i = 0" unfolding r by (cases f) (simp_all add: position_zero_def x)
    moreover have "total_val f t i + e f = 0" using de [of f] v7 [of f] by (cases f) (simp_all add: e_def)
    ultimately show ?thesis by simp
  qed
  moreover have "total_val f (tk_reset i t) j = total_val f t j" if "j \<noteq> i" for f j
  proof -
    have "tk_pos t7 j = tk_pos t6 j" "tk_exposure t7 j = tk_exposure t6 j" using d that by (simp_all add: moves_def)
    then show ?thesis using v6 [of f j] that unfolding r by (cases f) simp_all
  qed
  ultimately show "totals_ok t \<Longrightarrow> totals_ok (tk_reset i t)" by (intro totals_ok_booked [OF _ i bk]) auto
  assume o: "funding_ok t"
  have f6: "tk_fund_per t6 = (tk_fund_per t)(i := 0)" "tk_fund_total t6 = tk_fund_total t - tk_fund_per t i"
    "converting t \<Longrightarrow> tk_fund_native t6 = (tk_fund_native t)(tk_ccy t i := tk_fund_native t (tk_ccy t i) - tk_fund_per t i)"
    by (simp_all add: t6_def t5_def t4_def t3_def t2_def t1_def converting_def)
  have f7: "tk_fund_per (tk_reset i t) = tk_fund_per t6" "tk_fund_total (tk_reset i t) = tk_fund_total t6" "tk_fund_native (tk_reset i t) = tk_fund_native t6"
    using d by (simp_all add: r moves_def)
  note s = sum_of_ccy_upd [OF i, of "(tk_fund_per t)(i := 0)" "tk_fund_per t" "- tk_fund_per t i"]
  show "funding_ok (tk_reset i t)"
    using o s unfolding funding_ok_def f7 f6(1,2) booked_plain(1,4) [OF bk] by (auto simp: f6(3))
qed

section \<open>Currencies\<close>

lemma convert_unknown [simp]: "convert n fx_unknown = 0"
  by (simp add: convert_def fx_unknown_def)

lemma convert_identity [simp]: "convert n fx_identity = n"
  by (simp add: convert_def fx_identity_def)

lemma reconvert_fields:
  "tk_conv (reconvert c t) = (tk_conv t)(c := (\<lambda>f. convert (tk_native t c f) (tk_rate t c)))"
  "tk_conv_total (reconvert c t) f = tk_conv_total t f + (convert (tk_native t c f) (tk_rate t c) - tk_conv t c f)"
  "tk_native (reconvert c t) = tk_native t" "tk_rate (reconvert c t) = tk_rate t" "tk_ccy (reconvert c t) = tk_ccy t"
  "tk_ccy_count (reconvert c t) = tk_ccy_count t" "plain_total f (reconvert c t) = plain_total f t"
  "total_val f (reconvert c t) i = total_val f t i" "tk_pos (reconvert c t) = tk_pos t" "tk_exposure (reconvert c t) = tk_exposure t"
  "tk_fund_per (reconvert c t) = tk_fund_per t" "tk_fund_total (reconvert c t) = tk_fund_total t"
  "tk_fund_native (reconvert c t) = tk_fund_native t"
  subgoal by (rule ext, rule ext, case_tac xa) (simp_all add: reconvert_def reconvert_field_def Let_def)
  by (cases f; simp add: reconvert_def reconvert_field_def Let_def)+

lemma set_rate_ok:
  shows "totals_ok t \<Longrightarrow> totals_ok (set_rate c r t)" "funding_ok t \<Longrightarrow> funding_ok (set_rate c r t)"
proof -
  assume ok: "totals_ok t"
  show "totals_ok (set_rate c r t)"
  proof (cases "c = 0 \<or> c \<ge> kMaxCurrencies")
    case False
    define t1 where "t1 = (count_change t)\<lparr>tk_rate := (tk_rate t)(c := r)\<rparr>"
    have e: "set_rate c r t = reconvert c t1" using False by (simp add: set_rate_def t1_def)
    have s: "(\<Sum>k<kMaxCurrencies. ((tk_conv t)(c := v)) k f) = (\<Sum>k<kMaxCurrencies. tk_conv t k f) + (v f - tk_conv t c f)" for f v
      by (rule sum_upd [of _ c]) (use False in auto)
    have "converting (reconvert c t1) = converting t" by (simp add: converting_def reconvert_fields t1_def)
    then show ?thesis
      using ok s unfolding e totals_ok_def by (auto simp: reconvert_fields t1_def)
  qed (use ok in \<open>auto simp: set_rate_def\<close>)
next
  assume "funding_ok t"
  then show "funding_ok (set_rate c r t)" by (simp add: set_rate_def funding_ok_def converting_def reconvert_fields)
qed

lemma ccy_upto_Suc:
  fixes g :: "instrument_id \<Rightarrow> int"
  shows "(\<Sum>i | i < Suc n \<and> cc i = c. g i) = (\<Sum>i | i < n \<and> cc i = c. g i) + (if cc n = c then g n else 0)"
proof -
  have "{i. i < Suc n \<and> cc i = c} = (if cc n = c then insert n {i. i < n \<and> cc i = c} else {i. i < n \<and> cc i = c})"
    by (auto simp: less_Suc_eq)
  then show ?thesis by simp
qed

lemma fund_native_fold:
  assumes "\<And>c. tk_fund_native t c = 0"
  shows "fold add_fund_native [0..<n] t = t\<lparr>tk_fund_native := (\<lambda>c. \<Sum>i | i < n \<and> tk_ccy t i = c. tk_fund_per t i)\<rparr>"
proof (induction n)
  case 0
  then show ?case using assms by (simp add: fun_eq_iff)
next
  case (Suc n)
  then show ?case by (simp add: add_fund_native_def ccy_upto_Suc fun_eq_iff)
qed

lemma add_native_eq:
  "add_native i t = t\<lparr>tk_native := (tk_native t)(tk_ccy t i := (\<lambda>f. tk_native t (tk_ccy t i) f + total_val f t i))\<rparr>"
proof -
  have "n0(TRealized := n0 TRealized + po_realized (tk_pos t i), TUnrealized := n0 TUnrealized + po_unrealized (tk_pos t i),
      TFees := n0 TFees + po_fees (tk_pos t i), TGross := n0 TGross + \<bar>tk_exposure t i\<bar>, TNet := n0 TNet + tk_exposure t i) =
      (\<lambda>f. n0 f + total_val f t i)" for n0
  proof (rule ext)
    show "(n0(TRealized := n0 TRealized + po_realized (tk_pos t i), TUnrealized := n0 TUnrealized + po_unrealized (tk_pos t i),
      TFees := n0 TFees + po_fees (tk_pos t i), TGross := n0 TGross + \<bar>tk_exposure t i\<bar>, TNet := n0 TNet + tk_exposure t i)) f = n0 f + total_val f t i" for f
      by (cases f) simp_all
  qed
  then show ?thesis unfolding add_native_def Let_def by simp
qed

lemma native_fold:
  assumes "\<And>c f. tk_native t c f = 0"
  shows "fold add_native [0..<n] t = t\<lparr>tk_native := (\<lambda>c f. \<Sum>i | i < n \<and> tk_ccy t i = c. total_val f t i)\<rparr>"
proof (induction n)
  case 0
  then show ?case using assms by (simp add: fun_eq_iff)
next
  case (Suc n)
  have "(\<lambda>c f. \<Sum>i | i < n \<and> tk_ccy t i = c. total_val f t i)(tk_ccy t n :=
      (\<lambda>f. (\<Sum>i | i < n \<and> tk_ccy t i = tk_ccy t n. total_val f t i) + total_val f t n)) =
      (\<lambda>c f. \<Sum>i | i < Suc n \<and> tk_ccy t i = c. total_val f t i)"
    by (auto simp: fun_eq_iff ccy_upto_Suc)
  then show ?case using Suc.IH by (simp add: add_native_eq)
qed

lemma set_accounting_ok:
  assumes ccy: "\<And>i. i < kMaxInstruments \<Longrightarrow> fp_ccy plan i < kMaxCurrencies"
  shows "totals_ok t \<Longrightarrow> totals_ok (set_accounting plan t)" "funding_ok t \<Longrightarrow> funding_ok (set_accounting plan t)"
proof -
  define t1 where "t1 = (count_change t)\<lparr>tk_ccy_count := fp_count plan, tk_ccy := fp_ccy plan,
            tk_rate := (\<lambda>c. if c = 0 then fx_identity else fx_unknown), tk_native := (\<lambda>_ _. 0), tk_conv := (\<lambda>_ _. 0),
            tk_conv_total := (\<lambda>_. 0), tk_fund_native := (\<lambda>_. 0)\<rparr>"
  have f1: "tk_ccy t1 = fp_ccy plan" "tk_rate t1 = (\<lambda>c. if c = 0 then fx_identity else fx_unknown)" "tk_conv t1 = (\<lambda>_ _. 0)"
    "tk_conv_total t1 = (\<lambda>_. 0)" "tk_fund_per t1 = tk_fund_per t" "tk_fund_total t1 = tk_fund_total t"
    by (simp_all add: t1_def)
  define t3 where "t3 = t1\<lparr>tk_fund_native := (\<lambda>c. \<Sum>i\<in>of_ccy t1 c. tk_fund_per t1 i),
      tk_native := (\<lambda>c f. \<Sum>i\<in>of_ccy t1 c. total_val f t1 i)\<rparr>"
  have "fold add_native [0..<kMaxInstruments] (fold add_fund_native [0..<kMaxInstruments] t1) = t3"
    using fund_native_fold [of t1 kMaxInstruments] native_fold [of "t1\<lparr>tk_fund_native := x\<rparr>" kMaxInstruments for x]
    by (simp add: t3_def) (simp add: t1_def)
  then have e: "set_accounting plan t = (if \<not> converting t1 then t1 else reconvert 0 t3)"
    unfolding set_accounting_def t1_def [symmetric] Let_def by simp
  have p: "plain_total f t1 = plain_total f t" "total_val f t1 i = total_val f t i" for f i by (cases f; simp add: t1_def)+
  have c3: "converting (reconvert 0 t3) = converting t1" by (simp add: converting_def reconvert_fields t3_def)
  have r3: "total_val f (reconvert 0 t3) i = total_val f t i" "plain_total f (reconvert 0 t3) = plain_total f t"
    "tk_ccy (reconvert 0 t3) = fp_ccy plan" "tk_rate (reconvert 0 t3) = tk_rate t1"
    "tk_native (reconvert 0 t3) c f = (\<Sum>i | i < kMaxInstruments \<and> fp_ccy plan i = c. total_val f t i)"
    "tk_conv (reconvert 0 t3) c f = (if c = 0 then tk_native (reconvert 0 t3) 0 f else 0)"
    "tk_conv_total (reconvert 0 t3) f = tk_native (reconvert 0 t3) 0 f" for f i c
    by (simp_all add: reconvert_fields) (simp_all add: t3_def p f1)
  have s: "(\<Sum>c<kMaxCurrencies. tk_conv (reconvert 0 t3) c f) = tk_native (reconvert 0 t3) 0 f" for f
    by (simp add: r3(6) kMaxCurrencies_def sum.delta)
  { assume ok: "totals_ok t"
    show "totals_ok (set_accounting plan t)"
    proof (cases "converting t1")
      case False
      then show ?thesis using ok p by (simp add: e totals_ok_def)
    next
      case True
      have "totals_ok (reconvert 0 t3)"
        unfolding totals_ok_def s using ok ccy by (auto simp: r3 f1 totals_ok_def)
      then show ?thesis using True by (simp add: e)
    qed }
  assume "funding_ok t"
  then show "funding_ok (set_accounting plan t)"
    by (simp add: e funding_ok_def c3 reconvert_fields f1 t3_def)
qed

section \<open>Marks\<close>

text \<open>The open PnL and the exposure of every instrument are those of its position at its last mark.\<close>

definition marks_ok :: "(instrument_id \<Rightarrow> instrument) \<Rightarrow> tracker \<Rightarrow> bool" where
  "marks_ok insts t \<longleftrightarrow>
     (\<forall>i. let p = tk_pos t i in po_unrealized p = revalue p (po_last_mark p) (insts i) \<and>
        (po_last_mark p > 0 \<longrightarrow> tk_exposure t i = signed_notional p (po_last_mark p) (insts i)))"

lemma value_cong:
  "po_qty p' = po_qty p \<Longrightarrow> po_avg_px p' = po_avg_px p \<Longrightarrow> revalue p' m inst = revalue p m inst"
  "po_qty p' = po_qty p \<Longrightarrow> signed_notional p' m inst = signed_notional p m inst"
  by (simp_all add: revalue_def signed_notional_def)

lemma value_upd [simp]:
  "revalue (p\<lparr>po_last_mark := x\<rparr>) m inst = revalue p m inst" "revalue (p\<lparr>po_unrealized := x\<rparr>) m inst = revalue p m inst"
  "signed_notional (p\<lparr>po_last_mark := x\<rparr>) m inst = signed_notional p m inst"
  "signed_notional (p\<lparr>po_unrealized := x\<rparr>) m inst = signed_notional p m inst"
  by (rule value_cong; simp)+

lemma piece_pos [simp]:
  "tk_pos (add_realized i r t) j = (if j = i then (tk_pos t i)\<lparr>po_realized := po_realized (tk_pos t i) + r\<rparr> else tk_pos t j)"
  "tk_pos (add_fees i fee t) j = (if j = i then (tk_pos t i)\<lparr>po_fees := po_fees (tk_pos t i) + fee\<rparr> else tk_pos t j)"
  "tk_pos (set_unrealized i u t) j = (if j = i then (tk_pos t i)\<lparr>po_unrealized := u\<rparr> else tk_pos t j)"
  "tk_pos (set_exposure i x t) = tk_pos t" "tk_exposure (add_realized i r t) = tk_exposure t"
  "tk_exposure (add_fees i fee t) = tk_exposure t" "tk_exposure (set_unrealized i u t) = tk_exposure t"
  "tk_exposure (set_exposure i x t) = (tk_exposure t)(i := x)"
  by (simp_all add: add_realized_def add_fees_def set_unrealized_def set_exposure_def Let_def upd_pos_def)

lemma tk_mark_pos [simp]:
  "tk_pos (tk_mark i mid inst t) j =
     (if j = i then (tk_pos t i)\<lparr>po_last_mark := mid, po_unrealized := revalue (tk_pos t i) mid inst\<rparr> else tk_pos t j)"
  "tk_exposure (tk_mark i mid inst t) = (tk_exposure t)(i := signed_notional (tk_pos t i) mid inst)"
  by (simp_all add: tk_mark_def Let_def)

lemma marks_okI:
  assumes "marks_ok insts t" "\<And>j. j \<noteq> i \<Longrightarrow> tk_pos t' j = tk_pos t j \<and> tk_exposure t' j = tk_exposure t j"
    and "po_unrealized (tk_pos t' i) = revalue (tk_pos t' i) (po_last_mark (tk_pos t' i)) (insts i)"
    and "po_last_mark (tk_pos t' i) > 0 \<Longrightarrow> tk_exposure t' i = signed_notional (tk_pos t' i) (po_last_mark (tk_pos t' i)) (insts i)"
  shows "marks_ok insts t'"
  unfolding marks_ok_def Let_def
proof (intro allI)
  fix j
  show "po_unrealized (tk_pos t' j) = revalue (tk_pos t' j) (po_last_mark (tk_pos t' j)) (insts j) \<and>
     (po_last_mark (tk_pos t' j) > 0 \<longrightarrow> tk_exposure t' j = signed_notional (tk_pos t' j) (po_last_mark (tk_pos t' j)) (insts j))"
    using assms by (cases "j = i") (simp_all add: marks_ok_def Let_def)
qed

lemma marks_mark: "marks_ok insts t \<Longrightarrow> marks_ok insts (tk_mark i mid (insts i) t)"
  by (erule marks_okI [where i = i]) simp_all

lemma marks_set: "marks_ok insts t \<Longrightarrow> marks_ok insts (tk_set i q avg (insts i) t)"
  by (erule marks_okI [where i = i]) (simp_all add: tk_set_def Let_def)

lemma marks_same:
  assumes "marks_ok insts t" "\<And>j. j \<noteq> i \<Longrightarrow> tk_pos t' j = tk_pos t j" "tk_exposure t' = tk_exposure t"
    "po_qty (tk_pos t' i) = po_qty (tk_pos t i)" "po_avg_px (tk_pos t' i) = po_avg_px (tk_pos t i)"
    "po_last_mark (tk_pos t' i) = po_last_mark (tk_pos t i)" "po_unrealized (tk_pos t' i) = po_unrealized (tk_pos t i)"
  shows "marks_ok insts t'"
proof (rule marks_okI [OF assms(1), of i])
  have o: "po_unrealized (tk_pos t i) = revalue (tk_pos t i) (po_last_mark (tk_pos t i)) (insts i)"
    "po_last_mark (tk_pos t i) > 0 \<Longrightarrow> tk_exposure t i = signed_notional (tk_pos t i) (po_last_mark (tk_pos t i)) (insts i)"
    using assms(1) by (simp_all add: marks_ok_def Let_def)
  show "po_unrealized (tk_pos t' i) = revalue (tk_pos t' i) (po_last_mark (tk_pos t' i)) (insts i)"
    using o(1) assms(4-7) value_cong(1) [OF assms(4,5)] by simp
  show "po_last_mark (tk_pos t' i) > 0 \<Longrightarrow> tk_exposure t' i = signed_notional (tk_pos t' i) (po_last_mark (tk_pos t' i)) (insts i)"
    using o(2) assms(3-7) value_cong(2) [OF assms(4)] by simp
qed (use assms(2,3) in simp)

lemma marks_correct: "marks_ok insts t \<Longrightarrow> marks_ok insts (correct_fill i s est px q fee inst t)"
  by (erule marks_same [where i = i]) (simp_all add: correct_fill_def Let_def)

lemma marks_funding: "marks_ok insts t \<Longrightarrow> marks_ok insts (on_funding i a t)"
  by (erule marks_same [where i = i]) (simp_all add: on_funding_def Let_def)

lemma marks_reset: "marks_ok insts t \<Longrightarrow> marks_ok insts (tk_reset i t)"
  by (erule marks_okI [where i = i]) (simp_all add: tk_reset_def Let_def position_zero_def revalue_def)

lemma marks_rate: "marks_ok insts t \<Longrightarrow> marks_ok insts (set_rate c r t)"
  by (erule marks_same [where i = 0]) (simp_all add: set_rate_def reconvert_fields)

lemma fold_native_pos:
  "tk_pos (fold add_native is t) = tk_pos t \<and> tk_exposure (fold add_native is t) = tk_exposure t"
  "tk_pos (fold add_fund_native is t) = tk_pos t \<and> tk_exposure (fold add_fund_native is t) = tk_exposure t"
  by (induction "is" arbitrary: t) (simp_all add: add_native_def add_fund_native_def Let_def)

lemma marks_accounting: "marks_ok insts t \<Longrightarrow> marks_ok insts (set_accounting plan t)"
  by (erule marks_same [where i = 0]) (simp_all add: set_accounting_def Let_def reconvert_fields fold_native_pos)

text \<open>What a fill does to the position, before it is valued again.\<close>

lemma tk_on_fill_pos:
  fixes i s px q fee inst t
  defines "f \<equiv> (if s = Buy then q else - q)" and "p \<equiv> tk_pos t i" and "p' \<equiv> tk_pos (tk_on_fill i s px q fee inst t) i"
  shows "po_qty p' = po_qty p + f" "po_last_mark p' = po_last_mark p" "po_fees p' = po_fees p + fee"
    "po_gross_traded p' = po_gross_traded p + q" "po_fills p' = po_fills p + 1"
    "po_avg_px p' = (if fill_opens (po_qty p) f
       then (if inverse_contract inst then harmonic_avg (po_qty p) (po_avg_px p) f px (po_qty p + f)
             else arithmetic_avg (po_qty p) (po_avg_px p) f px (po_qty p + f))
       else if \<bar>f\<bar> > \<bar>po_qty p\<bar> then px else if po_qty p + f = 0 then 0 else po_avg_px p)"
    "po_realized p' = (if fill_opens (po_qty p) f then po_realized p
       else po_realized p + closing_pnl inst (po_avg_px p) px (min \<bar>f\<bar> \<bar>po_qty p\<bar>) (if po_qty p > 0 then 1 else - 1))"
    "po_unrealized p' = (if po_last_mark p > 0 then revalue p' (po_last_mark p) inst else po_unrealized p)"
    "po_last_mark p > 0 \<Longrightarrow> tk_exposure (tk_on_fill i s px q fee inst t) i = signed_notional p' (po_last_mark p) inst"
    "j \<noteq> i \<Longrightarrow> tk_pos (tk_on_fill i s px q fee inst t) j = tk_pos t j"
    "j \<noteq> i \<Longrightarrow> tk_exposure (tk_on_fill i s px q fee inst t) j = tk_exposure t j"
proof -
  obtain t2 where e: "tk_on_fill i s px q fee inst t =
      (if po_last_mark (tk_pos t2 i) > 0 then tk_mark i (po_last_mark (tk_pos t2 i)) inst t2
       else set_exposure i (signed_notional (tk_pos t2 i) px inst) t2)"
    and o: "fill_opens (po_qty p) f \<Longrightarrow> t2 = upd_pos i (\<lambda>q. q\<lparr>po_avg_px := (if inverse_contract inst
         then harmonic_avg (po_qty p) (po_avg_px p) f px (po_qty p + f) else arithmetic_avg (po_qty p) (po_avg_px p) f px (po_qty p + f)),
       po_qty := po_qty p + f\<rparr>) (fill_start i q fee t)"
    and c: "\<not> fill_opens (po_qty p) f \<Longrightarrow> t2 = upd_pos i (\<lambda>q. q\<lparr>po_qty := po_qty p + f,
         po_avg_px := (if \<bar>f\<bar> > \<bar>po_qty p\<bar> then px else if po_qty p + f = 0 then 0 else po_avg_px p)\<rparr>)
       (add_realized i (closing_pnl inst (po_avg_px p) px (min \<bar>f\<bar> \<bar>po_qty p\<bar>) (if po_qty p > 0 then 1 else - 1)) (fill_start i q fee t))"
    by (rule tk_on_fill_unfold [of i s px q fee inst t, folded f_def p_def]) (rule that)
  have s: "tk_pos (fill_start i q fee t) k = (if k = i then p\<lparr>po_fees := po_fees p + fee, po_gross_traded := po_gross_traded p + q, po_fills := po_fills p + 1\<rparr> else tk_pos t k)"
    "tk_exposure (fill_start i q fee t) = tk_exposure t" for k by (simp_all add: fill_start_def p_def)
  define r where "r = (if fill_opens (po_qty p) f then 0 else closing_pnl inst (po_avg_px p) px (min \<bar>f\<bar> \<bar>po_qty p\<bar>) (if po_qty p > 0 then 1 else - 1))"
  define a where "a = (if fill_opens (po_qty p) f
       then (if inverse_contract inst then harmonic_avg (po_qty p) (po_avg_px p) f px (po_qty p + f)
             else arithmetic_avg (po_qty p) (po_avg_px p) f px (po_qty p + f))
       else if \<bar>f\<bar> > \<bar>po_qty p\<bar> then px else if po_qty p + f = 0 then 0 else po_avg_px p)"
  have t2: "tk_pos t2 i = p\<lparr>po_fees := po_fees p + fee, po_gross_traded := po_gross_traded p + q, po_fills := po_fills p + 1,
      po_realized := po_realized p + r, po_qty := po_qty p + f, po_avg_px := a\<rparr>" "tk_exposure t2 = tk_exposure t"
    "k \<noteq> i \<Longrightarrow> tk_pos t2 k = tk_pos t k" for k
    using o c by (cases "fill_opens (po_qty p) f"; simp add: s r_def a_def)+
  have p': "p' = (if po_last_mark p > 0 then (tk_pos t2 i)\<lparr>po_unrealized := revalue (tk_pos t2 i) (po_last_mark p) inst\<rparr> else tk_pos t2 i)"
    unfolding p'_def e by (simp add: t2(1))
  have v: "revalue p' m inst = revalue (tk_pos t2 i) m inst" "signed_notional p' m inst = signed_notional (tk_pos t2 i) m inst" for m
    unfolding p' by (simp_all add: revalue_def signed_notional_def)
  show "po_qty p' = po_qty p + f" "po_last_mark p' = po_last_mark p" "po_fees p' = po_fees p + fee"
    "po_gross_traded p' = po_gross_traded p + q" "po_fills p' = po_fills p + 1"
    unfolding p' t2(1) by simp_all
  show "po_realized p' = (if fill_opens (po_qty p) f then po_realized p
       else po_realized p + closing_pnl inst (po_avg_px p) px (min \<bar>f\<bar> \<bar>po_qty p\<bar>) (if po_qty p > 0 then 1 else - 1))"
    unfolding p' t2(1) by (simp add: r_def)
  show "po_avg_px p' = (if fill_opens (po_qty p) f
       then (if inverse_contract inst then harmonic_avg (po_qty p) (po_avg_px p) f px (po_qty p + f)
             else arithmetic_avg (po_qty p) (po_avg_px p) f px (po_qty p + f))
       else if \<bar>f\<bar> > \<bar>po_qty p\<bar> then px else if po_qty p + f = 0 then 0 else po_avg_px p)"
    unfolding a_def [symmetric] p' t2(1) by simp
  show "po_unrealized p' = (if po_last_mark p > 0 then revalue p' (po_last_mark p) inst else po_unrealized p)"
    unfolding v by (simp add: p' t2(1))
  show "po_last_mark p > 0 \<Longrightarrow> tk_exposure (tk_on_fill i s px q fee inst t) i = signed_notional p' (po_last_mark p) inst"
    unfolding v e by (simp add: t2(1))
  show "j \<noteq> i \<Longrightarrow> tk_pos (tk_on_fill i s px q fee inst t) j = tk_pos t j"
    "j \<noteq> i \<Longrightarrow> tk_exposure (tk_on_fill i s px q fee inst t) j = tk_exposure t j"
    unfolding e by (simp_all add: t2)
qed

lemma marks_fill:
  assumes o: "marks_ok insts t"
  shows "marks_ok insts (tk_on_fill i s px q fee (insts i) t)"
proof (rule marks_okI [OF o, where i = i])
  note f = tk_on_fill_pos [where i = i and s = s and px = px and q = q and fee = fee and inst = "insts i" and t = t]
  have u: "po_last_mark (tk_pos t i) \<le> 0 \<Longrightarrow> po_unrealized (tk_pos t i) = 0" using o by (simp add: marks_ok_def Let_def revalue_def)
  show "po_unrealized (tk_pos (tk_on_fill i s px q fee (insts i) t) i) =
      revalue (tk_pos (tk_on_fill i s px q fee (insts i) t) i) (po_last_mark (tk_pos (tk_on_fill i s px q fee (insts i) t) i)) (insts i)"
    unfolding f(2) f(8) using u by (auto simp: revalue_def not_less)
  show "po_last_mark (tk_pos (tk_on_fill i s px q fee (insts i) t) i) > 0 \<Longrightarrow> tk_exposure (tk_on_fill i s px q fee (insts i) t) i =
      signed_notional (tk_pos (tk_on_fill i s px q fee (insts i) t) i) (po_last_mark (tk_pos (tk_on_fill i s px q fee (insts i) t) i)) (insts i)"
    unfolding f(2) by (rule f(9))
qed (simp add: tk_on_fill_pos(10,11))

section \<open>The tracker as a state machine\<close>

inductive tracker_step :: "(instrument_id \<Rightarrow> instrument) \<Rightarrow> tracker \<Rightarrow> tracker \<Rightarrow> bool" for insts where
  step_fill: "i < kMaxInstruments \<Longrightarrow> tracker_step insts t (tk_on_fill i s px q fee (insts i) t)"
| step_correct: "i < kMaxInstruments \<Longrightarrow> tracker_step insts t (correct_fill i s est px q fee (insts i) t)"
| step_funding: "i < kMaxInstruments \<Longrightarrow> tracker_step insts t (on_funding i a t)"
| step_mark: "i < kMaxInstruments \<Longrightarrow> tracker_step insts t (tk_mark i mid (insts i) t)"
| step_set: "i < kMaxInstruments \<Longrightarrow> tracker_step insts t (tk_set i q avg (insts i) t)"
| step_reset: "i < kMaxInstruments \<Longrightarrow> tracker_step insts t (tk_reset i t)"
| step_accounting: "(\<And>i. i < kMaxInstruments \<Longrightarrow> fp_ccy plan i < kMaxCurrencies) \<Longrightarrow> tracker_step insts t (set_accounting plan t)"
| step_rate: "tracker_step insts t (set_rate c r t)"

inductive tracker_reachable :: "(instrument_id \<Rightarrow> instrument) \<Rightarrow> tracker \<Rightarrow> bool" for insts where
  reach_new: "tracker_reachable insts tracker_new"
| reach_step: "tracker_reachable insts t \<Longrightarrow> tracker_step insts t t' \<Longrightarrow> tracker_reachable insts t'"

definition tracker_inv :: "(instrument_id \<Rightarrow> instrument) \<Rightarrow> tracker \<Rightarrow> bool" where
  "tracker_inv insts t \<longleftrightarrow> totals_ok t \<and> funding_ok t \<and> marks_ok insts t"

lemma tracker_inv_new: "tracker_inv insts tracker_new"
proof -
  have "total_val f tracker_new i = 0" "plain_total f tracker_new = 0" for f i
    by (cases f; simp add: tracker_new_def position_zero_def)+
  then have "totals_ok tracker_new" by (simp add: totals_ok_def converting_def) (simp add: tracker_new_def)
  then show ?thesis
    by (simp add: tracker_inv_def funding_ok_def marks_ok_def converting_def Let_def)
       (simp add: tracker_new_def position_zero_def revalue_def)
qed

lemma tracker_inv_moved:
  "moved i t t' \<Longrightarrow> (marks_ok insts t \<Longrightarrow> marks_ok insts t') \<Longrightarrow> i < kMaxInstruments \<Longrightarrow> tracker_inv insts t \<Longrightarrow> tracker_inv insts t'"
  unfolding tracker_inv_def by (blast intro: moved_totals moved_funding)

lemma tracker_inv_step: "tracker_step insts t t' \<Longrightarrow> tracker_inv insts t \<Longrightarrow> tracker_inv insts t'"
proof (induction rule: tracker_step.induct)
  case step_fill
  then show ?case by (blast intro: tracker_inv_moved [OF moved_on_fill] marks_fill)
next
  case step_correct
  then show ?case by (blast intro: tracker_inv_moved [OF moved_correct_fill] marks_correct)
next
  case step_mark
  then show ?case by (blast intro: tracker_inv_moved [OF moved_mark] marks_mark)
next
  case step_set
  then show ?case by (blast intro: tracker_inv_moved [OF moved_set] marks_set)
qed (simp_all add: tracker_inv_def on_funding_ok tk_reset_ok set_accounting_ok set_rate_ok marks_funding marks_reset marks_accounting marks_rate)

lemma tracker_inv_reachable: "tracker_reachable insts t \<Longrightarrow> tracker_inv insts t"
  by (induction rule: tracker_reachable.induct) (simp_all add: tracker_inv_new tracker_inv_step)

lemma plain_tk_total: "\<not> converting t \<Longrightarrow> tk_total f t = plain_total f t"
  by (cases f) (simp_all add: tk_total_def)

text \<open>C16: after any sequence of fills, corrections, funding payments, marks, restored positions, resets, rate
  changes and changes of the accounting plan, each total the risk engine reads (realized, unrealized, fees, gross and
  net exposure) is the sum of what the instruments carry: the plain sum in one currency, else the sum over the
  currencies of the currency's own total at its current rate. The unrealized PnL of every position is its value at its
  last mark, and so is its exposure once it has been marked; the funding total is the sum over the instruments.\<close>

theorem tracker_totals_exact:
  assumes "tracker_reachable insts t"
  shows "(\<not> converting t \<longrightarrow> tk_total f t = (\<Sum>i<kMaxInstruments. total_val f t i)) \<and>
    (converting t \<longrightarrow> tk_total f t =
       (\<Sum>c<kMaxCurrencies. convert (\<Sum>i | i < kMaxInstruments \<and> tk_ccy t i = c. total_val f t i) (tk_rate t c))) \<and>
    po_unrealized (tk_pos t i) = revalue (tk_pos t i) (po_last_mark (tk_pos t i)) (insts i) \<and>
    (po_last_mark (tk_pos t i) > 0 \<longrightarrow> tk_exposure t i = signed_notional (tk_pos t i) (po_last_mark (tk_pos t i)) (insts i)) \<and>
    tk_fund_total t = (\<Sum>i<kMaxInstruments. tk_fund_per t i)"
proof -
  from tracker_inv_reachable [OF assms] have t: "totals_ok t" "funding_ok t" "marks_ok insts t" by (simp_all add: tracker_inv_def)
  have 1: "\<not> converting t \<longrightarrow> tk_total f t = (\<Sum>i<kMaxInstruments. total_val f t i)"
    using t(1) by (simp add: plain_tk_total totals_ok_def)
  have 2: "converting t \<Longrightarrow> tk_total f t = (\<Sum>c<kMaxCurrencies. convert (\<Sum>i\<in>of_ccy t c. total_val f t i) (tk_rate t c))"
    using t(1) by (simp add: tk_total_def totals_ok_def)
  show ?thesis using 1 2 t(2,3) by (simp add: funding_ok_def marks_ok_def Let_def)
qed


lemma fold_native_count:
  "tk_ccy_count (fold add_native is t) = tk_ccy_count t" "tk_ccy_count (fold add_fund_native is t) = tk_ccy_count t"
  by (induction "is" arbitrary: t) (simp_all add: add_native_def add_fund_native_def Let_def)

definition sample_plan :: fx_plan where
  "sample_plan = \<lparr>fp_count = 2, fp_names = (\<lambda>_. []), fp_sources = (\<lambda>_. \<lparr>fs_instrument = None, fs_invert = False\<rparr>),
     fp_ccy = (\<lambda>i. if i = 1 then 1 else 0), fp_prices = (\<lambda>_. 0), fp_stale = 0\<rparr>"

definition sample_inst :: instrument where
  "sample_inst = \<lparr>in_id = 1, in_venue = 0, in_asset_class = Spot, in_flags = kEnabled, in_price_decimals = 2, in_tick = 1000000, in_lot = 1000,
     in_min_qty = 1000, in_max_qty = 0, in_min_notional = 0, in_contract_multiplier = kFixedScale, in_max_notional = 0,
     in_expiry_ns = 0, in_strike = 0, in_symbol = ''BTCUSDT'', in_base = ''BTC'', in_quote = ''USDT'', in_option_type = NoOption\<rparr>"

definition sample_tracker :: tracker where
  "sample_tracker = tk_on_fill 1 Buy 500000000 200000000 1000 sample_inst tracker_new"

text \<open>A bought position of 2 at 5, in a table with a second currency.\<close>

theorem tracker_totals_exact_witness:
  "tracker_reachable (\<lambda>_. sample_inst) (set_accounting sample_plan sample_tracker) \<and>
   tk_total TNet (set_accounting sample_plan sample_tracker) =
     (\<Sum>c<kMaxCurrencies. convert (\<Sum>i | i < kMaxInstruments \<and> tk_ccy (set_accounting sample_plan sample_tracker) i = c.
        total_val TNet (set_accounting sample_plan sample_tracker) i) (tk_rate (set_accounting sample_plan sample_tracker) c))"
proof -
  have r: "tracker_reachable (\<lambda>_. sample_inst) sample_tracker"
    unfolding sample_tracker_def
    by (rule reach_step [OF reach_new step_fill [of 1 "\<lambda>_. sample_inst"]]) (simp add: kMaxInstruments_def)
  have "tracker_reachable (\<lambda>_. sample_inst) (set_accounting sample_plan sample_tracker)"
    by (rule reach_step [OF r step_accounting]) (simp add: sample_plan_def kMaxCurrencies_def)
  moreover have "converting (set_accounting sample_plan sample_tracker)"
    by (simp add: set_accounting_def converting_def Let_def reconvert_fields fold_native_count sample_plan_def)
  ultimately show ?thesis using tracker_totals_exact by blast
qed

section \<open>Average cost\<close>

lemma sdiv_minus_minus: "(- a :: int) sdiv (- b) = a sdiv b"
  by (simp add: signed_divide_int_def sgn_mult)

lemma sdiv_between:
  fixes lo hi :: int
  assumes d: "0 < d" and a: "lo * d \<le> a" "a \<le> hi * d"
  shows "lo \<le> a sdiv d \<and> a sdiv d \<le> hi"
proof (cases "0 \<le> a")
  case True
  have "lo \<le> a div d" using zdiv_mono1 [OF a(1) d] d by simp
  moreover have "a div d \<le> hi" using zdiv_mono1 [OF a(2) d] d by simp
  ultimately show ?thesis using True d by (simp add: sdiv_pos)
next
  case False
  have "- hi \<le> (- a) div d" using zdiv_mono1 [of "- hi * d" "- a" d] a(2) d by (simp del: mult_minus_left)
  moreover have "(- a) div d \<le> - lo" using zdiv_mono1 [of "- a" "- lo * d" d] a(1) d by (simp del: mult_minus_left)
  ultimately show ?thesis using False d by (simp add: sdiv_neg)
qed

lemma arithmetic_avg_exact:
  assumes "f \<noteq> 0" "0 \<le> cur * f" "in_i64 x" "in_i64 y"
  shows "arithmetic_avg cur x f y (cur + f) = (\<bar>cur\<bar> * x + \<bar>f\<bar> * y) sdiv (\<bar>cur\<bar> + \<bar>f\<bar>)"
proof -
  have "(cur * x + f * y) sdiv (cur + f) = (\<bar>cur\<bar> * x + \<bar>f\<bar> * y) sdiv (\<bar>cur\<bar> + \<bar>f\<bar>)"
  proof (cases "f > 0")
    case True
    then have "0 \<le> cur" using assms(2) by (simp add: zero_le_mult_iff)
    then show ?thesis using True by simp
  next
    case False
    then have "cur \<le> 0" "f < 0" using assms(1,2) by (auto simp: zero_le_mult_iff)
    then show ?thesis using sdiv_minus_minus [of "cur * x + f * y" "cur + f"] by (simp add: abs_if)
  qed
  moreover have "in_i64 ((\<bar>cur\<bar> * x + \<bar>f\<bar> * y) sdiv (\<bar>cur\<bar> + \<bar>f\<bar>))"
  proof -
    have "(\<bar>cur\<bar> + \<bar>f\<bar>) * min x y \<le> \<bar>cur\<bar> * x + \<bar>f\<bar> * y" "\<bar>cur\<bar> * x + \<bar>f\<bar> * y \<le> (\<bar>cur\<bar> + \<bar>f\<bar>) * max x y"
      unfolding distrib_right by (intro add_mono mult_left_mono; simp)+
    moreover have "0 < \<bar>cur\<bar> + \<bar>f\<bar>" using assms(1) by simp
    ultimately have "min x y \<le> (\<bar>cur\<bar> * x + \<bar>f\<bar> * y) sdiv (\<bar>cur\<bar> + \<bar>f\<bar>) \<and> (\<bar>cur\<bar> * x + \<bar>f\<bar> * y) sdiv (\<bar>cur\<bar> + \<bar>f\<bar>) \<le> max x y"
      by (intro sdiv_between) (simp_all only: mult.commute)
    then show ?thesis using assms(3,4) unfolding in_i64_def by linarith
  qed
  ultimately show ?thesis by (simp add: arithmetic_avg_def)
qed

text \<open>An inverse position is worth the sum of its quantities over their prices.\<close>

definition coin_units :: "int \<Rightarrow> price \<Rightarrow> int" where
  "coin_units q px = (if px > 0 then (\<bar>q\<bar> * kFixedScale) div px else 0)"

lemma harmonic_avg_exact:
  assumes "f \<noteq> 0" "0 \<le> cur * f"
  shows "harmonic_avg cur x f y (cur + f) =
    (if y \<le> 0 then x
     else if coin_units f y + coin_units cur x = 0 then y
     else i64 (((\<bar>cur\<bar> + \<bar>f\<bar>) * kFixedScale) div (coin_units f y + coin_units cur x)))"
proof -
  have nn: "0 \<le> coin_units q z" for q z by (simp add: coin_units_def kFixedScale_def pos_imp_zdiv_nonneg_iff)
  have pos: "harmonic_avg a x b y (a + b) = (if y \<le> 0 then x
     else if coin_units b y + coin_units a x = 0 then y
     else i64 (((\<bar>a\<bar> + \<bar>b\<bar>) * kFixedScale) div (coin_units b y + coin_units a x)))" if "0 \<le> a" "0 < b" for a b
    using that nn [of b y] nn [of a x]
    by (auto simp: harmonic_avg_def Let_def coin_units_def sdiv_pos kFixedScale_def)
  have neg: "harmonic_avg (- a) x (- b) y (- a + - b) = harmonic_avg a x b y (a + b)" if "0 \<le> a" "0 < b" for a b
  proof -
    have m: "(- c * kFixedScale) sdiv z = - ((c * kFixedScale) sdiv z)" if "0 < z" "0 \<le> c" for c z
      using that by (cases "c = 0") (simp_all add: sdiv_neg sdiv_pos kFixedScale_def)
    define B where "B = (b * kFixedScale) sdiv y"
    define A where "A = (a * kFixedScale) sdiv x"
    have n: "((- a + - b) * kFixedScale) sdiv (- u) = ((a + b) * kFixedScale) sdiv u" for u
      using sdiv_minus_minus [of "(a + b) * kFixedScale" u] by (simp only: minus_add_distrib [symmetric] mult_minus_left)
    have s: "- B + - A = - (B + A)" by simp
    show ?thesis
    proof (cases "y > 0")
      case True
      then have B: "(- b * kFixedScale) sdiv y = - B" using m that(2) by (simp add: B_def)
      show ?thesis
      proof (cases "a \<noteq> 0 \<and> x > 0")
        case T: True
        then have A: "(- a * kFixedScale) sdiv x = - A" using m that(1) by (simp add: A_def)
        show ?thesis using True T
          by (simp only: harmonic_avg_def Let_def B A s n neg_equal_0_iff_equal B_def [symmetric] A_def [symmetric] simp_thms if_True if_False)
      next
        case F: False
        then show ?thesis using True
          by (simp only: harmonic_avg_def Let_def B n neg_equal_0_iff_equal B_def [symmetric] simp_thms if_True if_False)
      qed
    qed (simp add: harmonic_avg_def)
  qed
  show ?thesis
  proof (cases "f > 0")
    case True
    then have "0 \<le> cur" using assms(2) by (simp add: zero_le_mult_iff)
    then show ?thesis using pos True by blast
  next
    case False
    then have c: "0 \<le> - cur" "0 < - f" using assms by (auto simp: zero_le_mult_iff)
    have u: "coin_units (- q) z = coin_units q z" for q z by (simp add: coin_units_def)
    show ?thesis using neg [OF c] pos [OF c] unfolding u abs_minus_cancel minus_minus by metis
  qed
qed

text \<open>C17: the position after a fill is the position before it plus the signed quantity; the other instruments keep
  theirs. Opening or adding makes the average price the mean of the two prices weighted by their quantities, rounded
  towards zero, for a linear contract, and their harmonic mean (quantity over coin) for an inverse one; reducing leaves
  the average, closing clears it, and crossing through flat starts again at the fill's price. PnL is realized only by
  the part that closes: the price difference to the average for a linear contract, the difference of the coin values
  for an inverse one. Fees and the traded quantity are added up.\<close>

theorem position_on_fill_exact:
  fixes i s px q fee inst t
  defines "f \<equiv> (if s = Buy then q else - q)" and "p \<equiv> tk_pos t i" and "p' \<equiv> tk_pos (tk_on_fill i s px q fee inst t) i"
  assumes q: "q > 0" and w: "in_i64 (po_avg_px p)" "in_i64 px"
  shows "po_qty p' = po_qty p + f \<and> (j \<noteq> i \<longrightarrow> tk_pos (tk_on_fill i s px q fee inst t) j = tk_pos t j) \<and>
    (0 \<le> po_qty p * f \<longrightarrow> po_avg_px p' =
       (if \<not> inverse_contract inst then (\<bar>po_qty p\<bar> * po_avg_px p + q * px) sdiv (\<bar>po_qty p\<bar> + q)
        else if px \<le> 0 then po_avg_px p
        else (let coin = (q * kFixedScale) div px + (if po_avg_px p > 0 then (\<bar>po_qty p\<bar> * kFixedScale) div po_avg_px p else 0)
              in if coin = 0 then px else i64 (((\<bar>po_qty p\<bar> + q) * kFixedScale) div coin)))) \<and>
    (po_qty p * f < 0 \<longrightarrow> po_avg_px p' = (if q < \<bar>po_qty p\<bar> then po_avg_px p else if q = \<bar>po_qty p\<bar> then 0 else px)) \<and>
    po_realized p' = po_realized p +
      (if 0 \<le> po_qty p * f then 0
       else let closed = sgn (po_qty p) * min q \<bar>po_qty p\<bar> in
         if \<not> inverse_contract inst then po_scale (i64 (((px - po_avg_px p) * closed) sdiv kFixedScale)) inst
         else if po_avg_px p \<le> 0 \<or> px \<le> 0 then 0
         else i64 ((closed * in_contract_multiplier inst * (px - po_avg_px p)) sdiv (po_avg_px p * px))) \<and>
    po_fees p' = po_fees p + fee \<and> po_gross_traded p' = po_gross_traded p + q"
proof -
  note e = tk_on_fill_pos [where i = i and s = s and px = px and q = q and fee = fee and inst = inst and t = t,
      folded p'_def, folded f_def p_def]
  have f0: "f \<noteq> 0" "\<bar>f\<bar> = q" using q by (simp_all add: f_def)
  have o: "fill_opens (po_qty p) f \<longleftrightarrow> 0 \<le> po_qty p * f"
    using f0 by (auto simp: fill_opens_def zero_le_mult_iff)
  have u: "coin_units f px = (q * kFixedScale) div px" if "px > 0" using that f0 by (simp add: coin_units_def)
  have 1: "po_avg_px p' = (if \<not> inverse_contract inst then (\<bar>po_qty p\<bar> * po_avg_px p + q * px) sdiv (\<bar>po_qty p\<bar> + q)
        else if px \<le> 0 then po_avg_px p
        else (let coin = (q * kFixedScale) div px + (if po_avg_px p > 0 then (\<bar>po_qty p\<bar> * kFixedScale) div po_avg_px p else 0)
              in if coin = 0 then px else i64 (((\<bar>po_qty p\<bar> + q) * kFixedScale) div coin)))" if "0 \<le> po_qty p * f"
    using arithmetic_avg_exact [OF f0(1) that w] harmonic_avg_exact [OF f0(1) that, of "po_avg_px p" px] f0(2) that u
    by (simp add: e(6) o Let_def coin_units_def)
  have 2: "po_avg_px p' = (if q < \<bar>po_qty p\<bar> then po_avg_px p else if q = \<bar>po_qty p\<bar> then 0 else px)" if "po_qty p * f < 0"
  proof -
    from that have "po_qty p + f = 0 \<longleftrightarrow> \<bar>f\<bar> = \<bar>po_qty p\<bar>" by (auto simp: mult_less_0_iff)
    then show ?thesis using that f0(2) by (simp add: e(6) o)
  qed
  have d: "(if po_qty p > 0 then 1 else - 1) = sgn (po_qty p)" if "\<not> 0 \<le> po_qty p * f" using that by (auto simp: sgn_if)
  have 3: "po_realized p' = po_realized p +
      (if 0 \<le> po_qty p * f then 0
       else let closed = sgn (po_qty p) * min q \<bar>po_qty p\<bar> in
         if \<not> inverse_contract inst then po_scale (i64 (((px - po_avg_px p) * closed) sdiv kFixedScale)) inst
         else if po_avg_px p \<le> 0 \<or> px \<le> 0 then 0
         else i64 ((closed * in_contract_multiplier inst * (px - po_avg_px p)) sdiv (po_avg_px p * px)))"
    using d f0(2) by (simp add: e(7) o closing_pnl_def inverse_pnl_def Let_def not_less ac_simps)
  show ?thesis using e(1,3,4,10) 1 2 3 by blast
qed

text \<open>Selling 1 at 7 of the 2 bought at 5 realizes 2.\<close>

theorem position_on_fill_exact_witness:
  "po_qty (tk_pos sample_tracker 1) = 200000000 \<and> po_avg_px (tk_pos sample_tracker 1) = 500000000 \<and>
   po_qty (tk_pos (tk_on_fill 1 Sell 700000000 100000000 0 sample_inst sample_tracker) 1) = 100000000 \<and>
   po_avg_px (tk_pos (tk_on_fill 1 Sell 700000000 100000000 0 sample_inst sample_tracker) 1) = 500000000 \<and>
   po_realized (tk_pos (tk_on_fill 1 Sell 700000000 100000000 0 sample_inst sample_tracker) 1) = 200000000"
proof -
  have lin: "\<not> inverse_contract sample_inst" by (simp add: inverse_contract_def sample_inst_def kEnabled_def kInverse_def)
  have s0: "po_qty (tk_pos tracker_new 1) = 0" "po_avg_px (tk_pos tracker_new 1) = 0" "po_realized (tk_pos tracker_new 1) = 0"
    by (simp_all add: tracker_new_def position_zero_def)
  have i: "in_i64 0" "in_i64 500000000" "in_i64 700000000" "in_i64 200000000" by (simp_all add: in_i64_def i64_min_def i64_max_def)
  have m: "(200000000 * 500000000) sdiv (200000000 :: int) = 500000000" "(200000000::int) * 100000000 sdiv kFixedScale = 200000000"
    by (simp_all add: kFixedScale_def sdiv_pos)
  have 1: "po_qty (tk_pos sample_tracker 1) = 200000000" "po_avg_px (tk_pos sample_tracker 1) = 500000000"
    "po_realized (tk_pos sample_tracker 1) = 0"
    using position_on_fill_exact [where q = 200000000 and inst = sample_inst and t = tracker_new and i = 1 and px = 500000000 and s = Buy and fee = 1000] lin s0 i m
    by (simp_all add: sample_tracker_def)
  show ?thesis
    using position_on_fill_exact [where q = 100000000 and inst = sample_inst and t = sample_tracker and i = 1 and px = 700000000 and s = Sell and fee = 0] lin 1 i m
    by (simp add: po_scale_def Let_def) (simp add: sample_inst_def)
qed

end
