(* ===== verification/Trading.thy ===== *)
theory Trading
  imports OpenQty Engine RiskProps PositionProps OmsIds
begin

unbundle bit_operations_syntax

text \<open>
  The risk check, the order manager and the positions together, as the order path of \<^verbatim>\<open>include/fastmm/core/engine.hpp\<close>
  composes them: the position limit as an invariant of every session whose venue messages keep to what the check counted on, and what
  a replace on its way does to it.
\<close>

section \<open>The invariant\<close>

abbreviation en_pos :: "engine_state \<Rightarrow> instrument_id \<Rightarrow> qty" where
  "en_pos e i \<equiv> po_qty (tk_pos (en_positions e) i)"

abbreviation en_open :: "engine_state \<Rightarrow> instrument_id \<Rightarrow> side \<Rightarrow> qty" where
  "en_open e \<equiv> om_open_qty (en_oms e)"

definition limit_inv :: "qty \<Rightarrow> engine_state \<Rightarrow> bool" where
  "limit_inv m e \<longleftrightarrow> oms_inv (en_oms e) \<and> rl_max_position (re_limits (en_risk e)) = m \<and>
     (\<forall>i. en_pos e i + en_open e i Buy \<le> m \<and> - m \<le> en_pos e i - en_open e i Sell)"

lemma limit_inv_moves:
  assumes "limit_inv m e" "oms_inv (en_oms e')" "re_limits (en_risk e') = re_limits (en_risk e)"
    "less_by i sd d (en_oms e) (en_oms e')" "0 \<le> c" "c \<le> d"
    "\<And>j. en_pos e' j = en_pos e j + (if j = i then side_sign sd * c else 0)"
  shows "limit_inv m e'"
proof -
  have "en_pos e' j + en_open e' j Buy \<le> m \<and> - m \<le> en_pos e' j - en_open e' j Sell" for j
  proof -
    have l: "en_open e' j sd' + (if j = i \<and> sd' = sd then d else 0) \<le> en_open e j sd'" for sd' using assms(4) by (simp add: less_by_def)
    have "en_pos e j + en_open e j Buy \<le> m" "- m \<le> en_pos e j - en_open e j Sell" using assms(1) by (simp_all add: limit_inv_def)
    then show ?thesis using l [of Buy] l [of Sell] assms(5,6) assms(7) [of j] by (cases sd) (auto simp: side_sign_def split: if_splits)
  qed
  then show ?thesis using assms(1-3) by (simp add: limit_inv_def)
qed

lemma limit_inv_still:
  assumes "limit_inv m e" "oms_inv (en_oms e')" "re_limits (en_risk e') = re_limits (en_risk e)"
    "\<And>i sd. en_open e' i sd = en_open e i sd" "\<And>i. en_pos e' i = en_pos e i"
  shows "limit_inv m e'"
  using assms by (simp add: limit_inv_def)

section \<open>Booking\<close>

lemma check_loss_fields [simp]:
  "en_positions (check_loss e) = en_positions e" "en_oms (check_loss e) = en_oms e" "en_instruments (check_loss e) = en_instruments e"
  "re_limits (en_risk (check_loss e)) = re_limits (en_risk e)"
  by (simp_all add: check_loss_def on_pnl_def trip_def count_trip_def)

lemma on_fill_qty:
  "po_qty (tk_pos (tk_on_fill i sd px q fee inst t) j) = po_qty (tk_pos t j) + (if j = i then side_sign sd * q else 0)"
  by (cases "j = i") (simp_all add: tk_on_fill_pos side_sign_def)

lemma correct_fill_qty [simp]: "po_qty (tk_pos (correct_fill i sd est px q fee inst t) j) = po_qty (tk_pos t j)"
  by (simp add: correct_fill_def Let_def)

lemma limit_inv_after:
  assumes inv: "limit_inv m e" and s: "oms_inv (fst su)" and t: "takes_out (en_oms e) su"
  shows "limit_inv m (after_oms_update su e)"
proof -
  let ?u = "snd su" and ?od = "u_order (snd su)"
  let ?c = "if it_contains (en_instruments e) (o_instrument ?od) then u_missed_qty ?u else 0"
  have l: "less_by (o_instrument ?od) (o_side ?od) (u_missed_qty ?u) (en_oms e) (fst su)" using t by (simp add: takes_out_def)
  then have n: "0 \<le> u_missed_qty ?u" by (simp add: less_by_def)
  show ?thesis
    by (rule limit_inv_moves [OF inv, where i = "o_instrument ?od" and sd = "o_side ?od" and c = ?c and d = "u_missed_qty ?u"])
      (use s l n in \<open>simp_all add: after_oms_update_def book_missed_fill_def Let_def on_fill_qty\<close>)
qed

lemma book_execution_qty:
  assumes "fst bf = fmsg_qty m"
  shows "po_qty (tk_pos (book_execution i sd inst m u bf t) j) =
    po_qty (tk_pos t j) + (if j = i then side_sign sd * max 0 (fmsg_qty m - u_corrected_qty u) else 0)"
  using assms by (cases bf) (auto simp: book_execution_def Let_def on_fill_qty max_def)

lemma limit_inv_fill:
  assumes inv: "limit_inv m e" and fits: "fill_fits fm (en_oms e)" and a: "asset \<noteq> BaseFee"
  shows "limit_inv m (engine_on_fill fm fee asset e)"
proof -
  obtain s u where f: "on_fill fm (en_oms e) = (s, u)" by fastforce
  have o: "oms_inv (en_oms e)" using inv by (simp add: limit_inv_def)
  then have s: "oms_inv s" using on_fill_inv [OF o, of fm] f by simp
  show ?thesis
  proof (cases "u_action u = Duplicate")
    case True
    then have "\<not> exec_fresh fm (en_oms e)" using on_fill_duplicate_iff [OF o, of fm] f by simp
    from on_fill_duplicate(1) [OF o this] have "om_open_qty s = om_open_qty (en_oms e)" using f by auto
    then show ?thesis using True f s by (intro limit_inv_still [OF inv]) (simp_all add: engine_on_fill_def)
  next
    case False
    note t = on_fill_takes [OF o fits f False]
    let ?from = "o_instrument (u_order u) \<noteq> o_instrument order_zero"
    let ?i = "if ?from then o_instrument (u_order u) else eh_instrument (fmsg_hdr fm)"
    let ?sd = "if ?from then o_side (u_order u) else fmsg_side fm"
    let ?inst = "it_get (en_instruments e) ?i"
    let ?d = "max 0 (fmsg_qty fm - u_corrected_qty u)"
    let ?e1 = "e\<lparr>en_oms := s\<rparr>"
    let ?e2 = "if it_contains (en_instruments e) ?i
        then check_loss (?e1\<lparr>en_positions := book_execution ?i ?sd ?inst fm u (booked_of ?inst ?sd fm fee asset) (en_positions e)\<rparr>) else ?e1"
    have b: "fst (booked_of inst sd fm fee asset) = fmsg_qty fm" for inst sd using a by (cases asset) (simp_all add: booked_of_def)
    have z: "?d = 0" if "\<not> ?from" using t that by (auto simp: order_zero_def kMaxInstruments_def)
    have "limit_inv m ?e2"
    proof (rule limit_inv_moves [OF inv])
      show "less_by (o_instrument (u_order u)) (o_side (u_order u)) ?d (en_oms e) (en_oms ?e2)" using t by simp
      show "en_pos ?e2 j = en_pos e j + (if j = o_instrument (u_order u)
          then side_sign (o_side (u_order u)) * (if it_contains (en_instruments e) ?i then ?d else 0) else 0)" for j
        using z by (cases ?from) (simp_all add: book_execution_qty [OF b])
    qed (use s in simp_all)
    moreover have "after_oms_update (s, u) ?e2 = ?e2\<lparr>en_oms := s\<rparr>" using t by (simp add: after_oms_update_def book_missed_fill_def)
    moreover have "?e2\<lparr>en_oms := s\<rparr> = ?e2" by simp
    ultimately show ?thesis using False f by (simp add: engine_on_fill_def Let_def)
  qed
qed

section \<open>Sending\<close>

lemma next_id_keeps: "next_cl_ord_id s = (s', cid) \<Longrightarrow> oms_inv s \<Longrightarrow> oms_inv s' \<and> om_open_qty s' = om_open_qty s \<and> live s' = live s \<and> order_at s' = order_at s"
  using oms_step_inv [OF step_next_id, of s]
  by (auto simp: next_cl_ord_id_def live_def order_at_def fun_eq_iff split: if_splits)

lemma on_ids_exhausted_limits [simp]: "re_limits (on_ids_exhausted r) = re_limits r"
  by (simp add: on_ids_exhausted_def trip_def count_trip_def)

lemma set_arm_keeps:
  assumes "oms_inv s" "h \<in> live s"
  shows "oms_inv (set_arm h arm s)" "om_open_qty (set_arm h arm s) = om_open_qty s" "live (set_arm h arm s) = live s"
    "order_at (set_arm h arm s) = (order_at s)(h := (order_at s h)\<lparr>o_arm := arm\<rparr>)"
  using quiet_inv [OF assms, of "\<lambda>od. od\<lparr>o_arm := arm\<rparr>"] live_ok [OF assms] assms
  by (simp_all add: set_arm_def quiet_def is_open_def order_ok_def live_upd_order order_at_upd_order)

lemma submit_open_qty:
  assumes "oms_inv s" "submit req cid now s = (s', r)" "cid \<noteq> 0" "0 \<le> nr_qty req"
  shows "om_open_qty s' i sd = om_open_qty s i sd + (if (\<exists>h. r = Inr h) \<and> i = nr_instrument req \<and> sd = nr_side req then nr_qty req else 0)"
proof (cases r)
  case (Inl rr)
  from assms(1,2) have "s' = s" using Inl by (cases rule: submit_cases) auto
  then show ?thesis using Inl by simp
next
  case (Inr h)
  note i = submit_inv [OF assms]
  have n: "h \<notin> live s" "live s' = insert h (live s)" "order_at s' h = new_order req cid now" "\<And>g. g \<noteq> h \<Longrightarrow> order_at s' g = order_at s g"
    using i(2) [OF Inr] by simp_all
  have "(\<Sum>g\<in>live s. open_leaves i sd (order_at s' g)) = (\<Sum>g\<in>live s. open_leaves i sd (order_at s g))"
    by (intro sum.cong refl) (metis n(1,4))
  then show ?thesis using i(1) n assms(1) Inr
    by (simp add: open_qty_total open_leaves_def new_order_def order_zero_def leaves_qty_def)
qed

text \<open>An order that passed the check fits in the limit with everything open on its side.\<close>

lemma new_fits:
  assumes inv: "limit_inv m e" and m: "0 < m" and i: "oi_instrument oi = nr_instrument req" "oi_side oi = nr_side req"
    and c: "check_new oi inst (new_inputs req False account v e) (en_risk e) = (r, NoReject)"
  shows "0 < oi_qty oi" "\<bar>en_pos e (oi_instrument oi) + side_sign (oi_side oi) * (en_open e (oi_instrument oi) (oi_side oi) + oi_qty oi)\<bar> \<le> m"
proof -
  let ?i = "oi_instrument oi" and ?sd = "oi_side oi"
  note p = evaluate_limits_pass [OF check_pass(1) [OF c [unfolded check_new_def]]]
  show q: "0 < oi_qty oi" using p(6) by (simp add: valid_qty_def)
  have opn: "0 \<le> en_open e ?i sd" for sd using inv by (simp add: limit_inv_def open_qty_nonneg)
  have b: "\<bar>en_pos e ?i\<bar> \<le> m" using inv opn [of Buy] opn [of Sell] unfolding limit_inv_def by (smt (verit))
  have "\<bar>en_pos e ?i + side_sign ?sd * (en_open e ?i ?sd + oi_qty oi)\<bar> \<le> max m \<bar>en_pos e ?i\<bar>"
    using not_exceeds [OF p(13), of "tk_pos (en_positions e) ?i" "en_open e ?i ?sd + oi_qty oi"] m inv q opn [of ?sd] i
    by (simp add: new_inputs_def Let_def limit_inv_def)
  with b show "\<bar>en_pos e ?i + side_sign ?sd * (en_open e ?i ?sd + oi_qty oi)\<bar> \<le> m" by (simp add: max_def split: if_splits)
qed

lemma check_limits: "check_new oi inst inp r = (r', v) \<Longrightarrow> re_limits r' = re_limits r"
  "check_replace oi od inst inp r = (r', v) \<Longrightarrow> re_limits r' = re_limits r"
  using risk_check_frame(1) [of oi inst inp 0 True r] risk_check_frame(1) [of oi inst inp "leaves_qty od" False r]
  by (simp_all add: check_new_def check_replace_def)

lemma limit_inv_send_new:
  assumes inv: "limit_inv m e" and q: "0 < nr_qty req"
    and fit: "\<bar>en_pos e (nr_instrument req) + side_sign (nr_side req) * (en_open e (nr_instrument req) (nr_side req) + nr_qty req)\<bar> \<le> m"
  shows "limit_inv m (fst (send_new req account v e))"
proof -
  obtain s1 cid where n: "next_cl_ord_id (en_oms e) = (s1, cid)" by fastforce
  have o: "oms_inv (en_oms e)" using inv by (simp add: limit_inv_def)
  note k = next_id_keeps [OF n o]
  show ?thesis
  proof (cases "cid = 0")
    case True
    then show ?thesis using n k by (intro limit_inv_still [OF inv]) (simp_all add: send_new_def)
  next
    case False
    let ?req = "req\<lparr>nr_venue := account, nr_account := account\<rparr>"
    obtain s2 r where s: "submit ?req cid (ev_now v) s1 = (s2, r)" by fastforce
    have o1: "oms_inv s1" and q': "0 \<le> nr_qty ?req" using k q by simp_all
    note i = submit_inv [OF o1 s False q'] and op = submit_open_qty [OF o1 s False q']
    define e' where "e' = fst (send_new req account v e)"
    have e': "en_positions e' = en_positions e" "en_risk e' = en_risk e" "oms_inv (en_oms e')" "om_open_qty (en_oms e') = om_open_qty s2"
      using n s False i set_arm_keeps [of s2 _ "ev_arm v"] unfolding e'_def by (cases r; simp add: send_new_def)+
    have "en_pos e' j + en_open e' j Buy \<le> m \<and> - m \<le> en_pos e' j - en_open e' j Sell" for j
    proof -
      have "en_pos e j + en_open e j Buy \<le> m" "- m \<le> en_pos e j - en_open e j Sell" using inv by (simp_all add: limit_inv_def)
      then show ?thesis using fit q op [of j Buy] op [of j Sell] k unfolding e'(1,4)
        by (cases "nr_side req"; cases "j = nr_instrument req"; cases r) (auto simp: side_sign_def)
    qed
    then show ?thesis using e' inv unfolding e'_def [symmetric] by (simp add: limit_inv_def)
  qed
qed

lemma limit_inv_risk: "limit_inv m e \<Longrightarrow> re_limits r = re_limits (en_risk e) \<Longrightarrow> limit_inv m (e\<lparr>en_risk := r\<rparr>)"
  by (simp add: limit_inv_def)

lemma limit_inv_new:
  assumes inv: "limit_inv m e" and m: "0 < m"
  shows "limit_inv m (fst (submit_new req False v e))"
proof (cases "it_contains (en_instruments e) (nr_instrument req) \<and> \<not> ev_awaiting v \<and> \<not> ev_priced_out v \<and>
    (\<exists>account. order_account req (it_get (en_instruments e) (nr_instrument req)) v = Inr account)")
  case True
  then obtain account where a: "order_account req (it_get (en_instruments e) (nr_instrument req)) v = Inr account" by blast
  let ?oi = "\<lparr>oi_instrument = nr_instrument req, oi_venue = account, oi_side = nr_side req, oi_type = nr_type req,
                        oi_price = nr_price req, oi_qty = nr_qty req, oi_tif = nr_tif req\<rparr>"
  obtain r rr where c: "check_new ?oi (it_get (en_instruments e) (nr_instrument req)) (new_inputs req False account v e) (en_risk e) = (r, rr)" by fastforce
  have i: "limit_inv m (e\<lparr>en_risk := r\<rparr>)" using check_limits(1) [OF c] by (intro limit_inv_risk inv)
  have e: "fst (submit_new req False v e) = (if rr \<noteq> NoReject then e\<lparr>en_risk := r\<rparr> else fst (send_new req account v (e\<lparr>en_risk := r\<rparr>)))"
    using True a c by (simp add: submit_new_def Let_def)
  show ?thesis
  proof (cases "rr = NoReject")
    case True
    note f = new_fits [OF inv m _ _ c [unfolded True], simplified]
    show ?thesis using True e limit_inv_send_new [OF i, of req account v] f by simp
  qed (use i e in simp)
qed (use inv in \<open>auto simp: submit_new_def Let_def split: sum.splits\<close>)

text \<open>A replace on its way is not part of the open quantity.\<close>

lemma request_replace_open_qty: "om_open_qty (fst (request_replace h new_id px q now s)) = om_open_qty s"
  by (auto simp: request_replace_def set_replace_def add_open_def split: prod.split)

lemma request_replace_live:
  assumes inv: "oms_inv s" and r: "request_replace h new_id px q now s = (s', res)" "res = None"
  shows "h \<in> live s'" "live s' = live s"
    "order_at s' = (order_at s)(h := (order_at s h)\<lparr>o_pending_cl_ord_id := new_id, o_pending_price := px, o_pending_qty := q, o_state := PendingReplace\<rparr>)"
proof -
  have h: "h \<in> live s" using r by (auto simp: request_replace_def pool_is_live_iff live_def split: if_splits)
  obtain ids where s': "s' = set_replace h new_id px q now (s\<lparr>om_ids := ids\<rparr>)"
  proof (cases "new_id = o_cl_ord_id (order_at s h)")
    case True
    then show thesis using r that [of "om_ids s"] by (auto simp: request_replace_def split: if_splits)
  next
    case False
    then show thesis using r that by (auto simp: request_replace_def add_open_def split: if_splits prod.splits)
  qed
  have p: "pool_inv (om_pool (s\<lparr>om_ids := ids\<rparr>))" "h \<in> live (s\<lparr>om_ids := ids\<rparr>)" "live (s\<lparr>om_ids := ids\<rparr>) = live s"
    "order_at (s\<lparr>om_ids := ids\<rparr>) = order_at s"
    using oms_inv_pool [OF inv] h by (simp_all add: live_def order_at_def fun_eq_iff)
  show "h \<in> live s'" "live s' = live s"
    "order_at s' = (order_at s)(h := (order_at s h)\<lparr>o_pending_cl_ord_id := new_id, o_pending_price := px, o_pending_qty := q, o_state := PendingReplace\<rparr>)"
    unfolding s' set_replace_def using upd_order_at [OF p(1,2)] p(3,4) h by simp_all
qed

lemma limit_inv_send_replace:
  assumes inv: "limit_inv m e" and q: "0 \<le> q"
  shows "limit_inv m (fst (send_replace h px q v e))"
proof -
  obtain s1 cid where n: "next_cl_ord_id (en_oms e) = (s1, cid)" by fastforce
  have o: "oms_inv (en_oms e)" using inv by (simp add: limit_inv_def)
  note k = next_id_keeps [OF n o]
  show ?thesis
  proof (cases "cid = 0")
    case True
    then show ?thesis using n k by (intro limit_inv_still [OF inv]) (simp_all add: send_replace_def)
  next
    case False
    obtain s2 r where s: "request_replace h cid px q (ev_now v) s1 = (s2, r)" by fastforce
    have o2: "oms_inv s2" using k False q by (intro request_replace_inv [OF _ s]) simp_all
    have op: "om_open_qty s2 = om_open_qty (en_oms e)" using request_replace_open_qty [of h cid px q "ev_now v" s1] s k by simp
    have "h \<in> live s2" if "r = None"
      using request_replace_live [OF conjunct1 [OF k] s] that by simp
    then show ?thesis using n s False o2 op set_arm_keeps [OF o2, of h "ev_arm v"]
      by (intro limit_inv_still [OF inv]) (cases r; simp add: send_replace_def)+
  qed
qed

lemma limit_inv_replace:
  assumes inv: "limit_inv m e"
  shows "limit_inv m (fst (submit_replace h px q v e))"
proof (cases "pool_is_live (om_pool (en_oms e)) h \<and> is_working (order_at (en_oms e) h) \<and> ev_supports_replace v")
  case True
  let ?od = "order_at (en_oms e) h"
  let ?oi = "\<lparr>oi_instrument = o_instrument ?od, oi_venue = o_venue ?od, oi_side = o_side ?od, oi_type = o_type ?od,
                    oi_price = px, oi_qty = q, oi_tif = o_tif ?od\<rparr>"
  obtain r rr where c: "check_replace ?oi ?od (it_get (en_instruments e) (o_instrument ?od)) (replace_inputs ?od v e) (en_risk e) = (r, rr)" by fastforce
  have i: "limit_inv m (e\<lparr>en_risk := r\<rparr>)" using check_limits(2) [OF c] by (intro limit_inv_risk inv)
  have e: "fst (submit_replace h px q v e) = (if rr \<noteq> NoReject then e\<lparr>en_risk := r\<rparr> else fst (send_replace h px q v (e\<lparr>en_risk := r\<rparr>)))"
    using True c by (simp add: submit_replace_def Let_def)
  show ?thesis
  proof (cases "rr = NoReject")
    case pass: True
    have "0 \<le> q" using evaluate_limits_pass(6) [OF check_pass(1) [OF c [unfolded check_replace_def pass]]] by (simp add: valid_qty_def)
    then show ?thesis using pass e limit_inv_send_replace [OF i, of q h px v] by simp
  qed (use i e in simp)
qed (use inv in \<open>auto simp: submit_replace_def Let_def\<close>)

section \<open>Sessions\<close>

lemma limit_inv_end_reconcile:
  assumes "limit_inv m e"
  shows "limit_inv m (end_reconcile v e)"
proof -
  let ?f = "\<lambda>u (s, x). let x' = after_oms_update (s, u) x in (en_oms x', x')"
  let ?g = "\<lambda>h (s, x). if pool_is_live (om_pool s) h then (case end_unseen h s of (s', u) \<Rightarrow> ?f u (s', x)) else (s, x)"
  have "fst (fold ?g hs (en_oms x, x)) = en_oms (snd (fold ?g hs (en_oms x, x))) \<and> limit_inv m (snd (fold ?g hs (en_oms x, x)))"
    if "limit_inv m x" for hs x
    using that
  proof (induction hs arbitrary: x)
    case (Cons h hs)
    show ?case
    proof (cases "pool_is_live (om_pool (en_oms x)) h")
      case True
      obtain s' u where u: "end_unseen h (en_oms x) = (s', u)" by fastforce
      have o: "oms_inv (en_oms x)" "h \<in> live (en_oms x)" using Cons.prems True by (simp_all add: limit_inv_def live_def pool_is_live_iff)
      have "limit_inv m (after_oms_update (s', u) x)"
        using end_unseen_inv [OF o] end_unseen_takes [OF o] u by (intro limit_inv_after Cons.prems) simp_all
      from Cons.IH [OF this] show ?thesis using True u by (simp add: Let_def)
    qed (use Cons in simp)
  qed simp
  note r = this [OF assms, of "unseen_orders v (en_oms e)"]
  obtain s x where f: "fold ?g (unseen_orders v (en_oms e)) (en_oms e, e) = (s, x)" by fastforce
  have "reconcile_end ?f v (en_oms e, e) = (s, x)" unfolding reconcile_end_def fst_conv f ..
  then show ?thesis using r by (simp add: end_reconcile_def f)
qed

text \<open>What the venue's acknowledgements and fills have to keep to: a replace leaves no more open than there was, a fill fits its
  order and is not charged in the base asset, and the session's own flattening does not count.\<close>

fun orderly :: "engine_event \<Rightarrow> engine_state \<Rightarrow> bool" where
  "orderly (EvNew req flatten v) e \<longleftrightarrow> \<not> flatten"
| "orderly (EvAck m) e \<longleftrightarrow> ack_no_growth m (en_oms e)"
| "orderly (EvFill m fee asset) e \<longleftrightarrow> fill_fits m (en_oms e) \<and> asset \<noteq> BaseFee"
| "orderly ev e \<longleftrightarrow> True"

fun orderly_run :: "engine_event list \<Rightarrow> engine_state \<Rightarrow> bool" where
  "orderly_run [] e \<longleftrightarrow> True"
| "orderly_run (ev # evs) e \<longleftrightarrow> orderly ev e \<and> orderly_run evs (engine_step ev e)"

lemma reconcile_begin_open_qty: "om_open_qty (reconcile_begin v w s) = om_open_qty s"
proof -
  have "om_open_qty (fold (\<lambda>h s. if in_scope (order_at s h) v then upd_order h f s else s) hs t) = om_open_qty t" for hs t f
    by (induction hs arbitrary: t) simp_all
  then show ?thesis by (simp add: reconcile_begin_def Let_def)
qed

lemma limit_inv_step:
  assumes inv: "limit_inv m e" and m: "0 < m" and ok: "orderly ev e"
  shows "limit_inv m (engine_step ev e)"
proof -
  have o: "oms_inv (en_oms e)" using inv by (simp add: limit_inv_def)
  show ?thesis
  proof (cases ev)
    case (EvCancel h)
    obtain s r where c: "request_cancel h (en_oms e) = (s, r)" by fastforce
    have "oms_inv s" "om_open_qty s = om_open_qty (en_oms e)"
      using request_cancel_inv [OF o, of h] c by (auto simp: request_cancel_def split: if_splits)
    then show ?thesis using EvCancel c by (intro limit_inv_still [OF inv]) (simp_all add: submit_cancel_def)
  next
    case (EvReconcileBegin v w)
    then show ?thesis using reconcile_begin_inv [OF o] by (intro limit_inv_still [OF inv]) (simp_all add: reconcile_begin_open_qty)
  next
    case (EvBook i mid now marks)
    then show ?thesis by (intro limit_inv_still [OF inv]) (simp_all add: engine_book_changed_def Let_def o on_book_def split: prod.split)
  qed (use ok o in \<open>simp_all add: limit_inv_new [OF inv m] limit_inv_replace [OF inv] limit_inv_after [OF inv] limit_inv_fill [OF inv]
      limit_inv_end_reconcile [OF inv] on_ack_inv on_reject_inv on_cancel_ack_inv on_cancel_reject_inv on_expired_inv reconcile_open_order_inv
      on_ack_takes on_reject_takes on_cancel_ack_takes on_cancel_reject_takes on_expired_takes reconcile_open_order_takes\<close>)
qed

lemma limit_inv_run: "limit_inv m e \<Longrightarrow> 0 < m \<Longrightarrow> orderly_run evs e \<Longrightarrow> limit_inv m (engine_run evs e)"
  by (induction evs arbitrary: e) (simp_all add: limit_inv_step)

text \<open>C5: \<^verbatim>\<open>max_position\<close> holds. In a session of the engine that starts inside the limit with no open order, orders, replaces, cancels,
  rejects, expiries, reconciliations and marks may come in any order, and so may acknowledgements and fills, as long as the acknowledgement of a
  replace leaves no more open than the order had, and a fill is one seen before, one that was booked already, or one that fits in an open
  order, with no commission in the base asset, and the session does not flatten. The position never leaves the limit then, and neither would it if
  every open order on one side were filled.\<close>

theorem position_limit_holds:
  assumes "oms_inv (en_oms e)" "live (en_oms e) = {}" "rl_max_position (re_limits (en_risk e)) = m" "0 < m" "\<And>i. \<bar>en_pos e i\<bar> \<le> m"
    "orderly_run evs e" "engine_run evs e = e'"
  shows "\<bar>en_pos e' i\<bar> \<le> m \<and> en_pos e' i + en_open e' i Buy \<le> m \<and> - m \<le> en_pos e' i - en_open e' i Sell"
proof -
  have "limit_inv m e" using assms(1-3,5) by (auto simp: limit_inv_def open_qty_total abs_le_iff minus_le_iff)
  from limit_inv_run [OF this assms(4,6)] have u: "limit_inv m e'" using assms(7) by simp
  then have "0 \<le> en_open e' i sd" for sd by (simp add: limit_inv_def open_qty_nonneg)
  from this [of Buy] this [of Sell] u show ?thesis unfolding limit_inv_def by (smt (verit))
qed


section \<open>Sample sessions\<close>

definition sample_table :: instrument_table where
  "sample_table = fst (it_add sample_market (fst (it_add (sample_market\<lparr>in_symbol := ''ETHUSDT''\<rparr>) it_new)))"

definition session_risk :: "qty \<Rightarrow> risk_engine" where
  "session_risk m = risk_engine_new (risk_limits_default\<lparr>rl_max_position := m, rl_stp := False\<rparr>) 5"

definition sample_view :: engine_view where
  "sample_view = \<lparr>ev_now = 20, ev_awaiting = False, ev_pools = False, ev_route = Inr 0, ev_priced_out = False, ev_gated = False,
     ev_balance_short = False, ev_window_full = False, ev_reduce_only = False, ev_supports_replace = True, ev_arm = 0\<rparr>"

definition session_start :: "qty \<Rightarrow> engine_state" where
  "session_start m = \<lparr>en_risk = session_risk m, en_positions = tracker_new, en_oms = oms_new 1 100, en_instruments = sample_table, en_pnl_carry = 0\<rparr>"

definition sample_cid :: "nat \<Rightarrow> cl_ord_id" where
  "sample_cid n = make_cl_ord_id 1 n"

definition sample_header :: event_header where
  "sample_header = \<lparr>eh_venue = 0, eh_flags = 0, eh_instrument = 1, eh_exch_ts = 20, eh_recv_ts = 21\<rparr>"

definition buy :: "qty \<Rightarrow> engine_event" where
  "buy q = EvNew (limit_order 1 Buy 500000000 q) False sample_view"

definition replace_to :: "nat \<Rightarrow> qty \<Rightarrow> engine_event" where
  "replace_to h q = EvReplace h 500000000 q sample_view"

definition acked :: "nat \<Rightarrow> bool \<Rightarrow> engine_event" where
  "acked n in_place = EvAck \<lparr>am_hdr = sample_header, am_cl_ord_id = sample_cid n, am_venue_order_id = ''7'', am_amended_in_place = in_place\<rparr>"

definition fill_msg :: "nat \<Rightarrow> qty \<Rightarrow> order_fill_msg" where
  "fill_msg n q = \<lparr>fmsg_hdr = sample_header, fmsg_cl_ord_id = sample_cid n, fmsg_venue_order_id = ''7'', fmsg_exec_id = '''',
     fmsg_price = 500000000, fmsg_qty = q, fmsg_cum_qty = 0, fmsg_side = Buy, fmsg_replayed = False\<rparr>"

definition filled :: "nat \<Rightarrow> qty \<Rightarrow> engine_event" where
  "filled n q = EvFill (fill_msg n q) 0 QuoteFee"

lemma sample_cid_nonzero: "n < 2 ^ 32 \<Longrightarrow> sample_cid n \<noteq> 0"
  using make_cl_ord_id_value [of 1 n] by (auto simp: sample_cid_def)

lemma sample_cid_eq: "n < 2 ^ 32 \<Longrightarrow> k < 2 ^ 32 \<Longrightarrow> sample_cid n = sample_cid k \<longleftrightarrow> n = k"
  using make_cl_ord_id_value [of 1 n] make_cl_ord_id_value [of 1 k] unfolding sample_cid_def by (metis add_left_cancel one_less_numeral_iff one_less_power zero_less_numeral semiring_norm(76))

lemma sample_table_simps: "it_contains sample_table 1" "it_get sample_table 1 = sample_market"
  "it_contains sample_table (Suc 0)" "it_get sample_table (Suc 0) = sample_market"
  by (simp_all add: sample_table_def it_contains_def it_get_def it_add_def it_new_def sample_market_def kMaxInstruments_def)

text \<open>What stays the same in a sample session, and what an order of it looks like.\<close>

definition session :: "qty \<Rightarrow> nat \<Rightarrow> engine_state \<Rightarrow> bool" where
  "session m c e \<longleftrightarrow> oms_inv (en_oms e) \<and> om_epoch (en_oms e) = 1 \<and> om_max_seq (en_oms e) = 100 \<and> om_seq (en_oms e) = c \<and>
     (\<exists>st. en_risk e = (session_risk m)\<lparr>re_stats := st\<rparr>) \<and> en_instruments e = sample_table"

definition buys :: "order \<Rightarrow> nat \<Rightarrow> qty \<Rightarrow> qty \<Rightarrow> order_state \<Rightarrow> bool" where
  "buys od n q k st \<longleftrightarrow> o_cl_ord_id od = sample_cid n \<and> o_qty od = q \<and> o_cum_qty od = k \<and> o_state od = st \<and> o_instrument od = 1 \<and> o_side od = Buy \<and>
     o_type od = Limit"

lemma session_risk_simps:
  "re_limits (session_risk m) = risk_limits_default\<lparr>rl_max_position := m, rl_stp := False\<rparr>" "re_kill (session_risk m) = 0"
  "re_portfolio (session_risk m) = False" "tb_rate (re_bucket (session_risk m)) = 0" "re_md (session_risk m) i = md_zero"
  "re_und_on (session_risk m) = False"
  by (simp_all add: session_risk_def risk_engine_new_def set_limits_def update_flags_def Let_def risk_limits_default_def reads_totals_def tb_configure_def)

lemma session_limits:
  assumes "ri_position inp = Some p" "\<bar>po_qty p + (ri_open_same_side inp - excl + x)\<bar> \<le> m" "0 < m" "0 < x" "1000 dvd x"
    "\<not> ri_feed_lagged inp" "ri_underlying inp = underlying_inputs_none" "\<not> ri_balance_short inp" "\<not> ri_primary_killed inp"
    "\<not> ri_account_full inp" "\<not> ri_reduce_only inp"
    "oi_instrument ord = 1" "oi_side ord = Buy" "oi_type ord = Limit" "oi_price ord = 500000000" "oi_qty ord = x"
  obtains st' where "risk_check ord sample_market inp excl cnt ((session_risk m)\<lparr>re_stats := st\<rparr>) = ((session_risk m)\<lparr>re_stats := st'\<rparr>, NoReject)"
proof -
  let ?r = "(session_risk m)\<lparr>re_stats := st\<rparr>"
  have "1000 \<le> x" using assms(4,5) by (rule zdvd_imp_le [rotated])
  then have inst: "enabled sample_market" "valid_price sample_market 500000000" "valid_qty sample_market x"
    "in_min_notional sample_market = 0"
    using assms(4,5) by (simp_all add: sample_market_def enabled_def kEnabled_def valid_price_def valid_qty_def on_tick_def on_lot_def smod_0_iff_dvd)
  have "\<not> exceeds_position (re_limits ?r) ord inp excl"
    using assms(2) unfolding exceeds_position_abs [OF assms(1)] by (simp add: session_risk_simps side_sign_def assms(13,16))
  then have "evaluate_limits ?r ord sample_market inp excl cnt = NoReject"
    unfolding evaluate_limits_def Let_def
    by (simp add: assms inst session_risk_simps kMaxInstruments_def older_than_def check_portfolio_def check_underlying_def Let_def
        md_zero_def risk_limits_default_def underlying_inputs_none_def)
  moreover have "try_take now (re_bucket ?r) = (re_bucket ?r, True)" for now by (simp add: try_take_def session_risk_simps)
  ultimately show thesis using that by (simp add: risk_check_eq Let_def)
qed

abbreviation roomy :: "engine_state \<Rightarrow> bool" where
  "roomy e \<equiv> pl_capacity (om_pool (en_oms e)) = 4096"

lemma session_start_ok: "session m 0 (session_start m)" "roomy (session_start m)" "live (en_oms (session_start m)) = {}" "en_pos (session_start m) 1 = 0"
proof -
  have "\<exists>st. session_risk m = (session_risk m)\<lparr>re_stats := st\<rparr>" by (rule exI [of _ "re_stats (session_risk m)"]) simp
  then show "session m 0 (session_start m)"
    using oms_new_inv(1) [of 1 100] by (simp add: session_def session_start_def) (simp add: oms_new_def oms_make_def)
  show "roomy (session_start m)" by (simp add: session_start_def oms_new_def oms_make_def pool_new_def pool_reset_def)
  show "live (en_oms (session_start m)) = {}" by (simp add: session_start_def oms_new_inv)
  show "en_pos (session_start m) 1 = 0" by (simp add: session_start_def tracker_new_def position_zero_def)
qed

lemma lookup_live:
  assumes "oms_inv s" "h \<in> live s" "c \<in> order_ids (order_at s h)"
  shows "lookup s c u = (h, u\<lparr>u_known := True, u_handle := h\<rparr>)" "h \<noteq> kNullHandle"
proof -
  have o: "open_handle s c = h \<and> h \<noteq> kNullHandle" using open_handle_iff [OF assms(1)] assms(2,3) by (simp add: open_ids_def)
  then show "lookup s c u = (h, u\<lparr>u_known := True, u_handle := h\<rparr>)" "h \<noteq> kNullHandle"
    by (auto simp: lookup_def open_handle_def split: option.splits if_splits)
qed

lemma upd_order_capacity [simp]: "pl_capacity (om_pool (upd_order h f s)) = pl_capacity (om_pool s)"
  by (simp add: upd_order_def pool_put_def)

lemma submit_accepts:
  assumes inv: "oms_inv s" and r: "nr_instrument req < kMaxInstruments" "c \<noteq> 0" "0 \<le> nr_qty req"
    and f: "\<And>h. h \<in> live s \<Longrightarrow> c \<notin> order_ids (order_at s h)" and cap: "card (live s) < pl_capacity (om_pool s)"
  obtains h s' where "submit req c now s = (s', Inr h)" "oms_inv s'" "h \<notin> live s" "live s' = insert h (live s)" "order_at s' h = new_order req c now"
    "\<And>g. g \<noteq> h \<Longrightarrow> order_at s' g = order_at s g" "pl_capacity (om_pool s') = pl_capacity (om_pool s)"
proof -
  obtain s' r where e: "submit req c now s = (s', r)" by fastforce
  have "(\<exists>h. r = Inr h) \<and> pl_capacity (om_pool s') = pl_capacity (om_pool s)"
    using inv e
  proof (cases rule: submit_cases)
    case (accepted h p k)
    have "pl_capacity p = pl_capacity (om_pool s)" using pool_allocate_law [OF oms_inv_pool [OF inv] accepted(4)] accepted(5) by auto
    then show ?thesis using accepted(3)
      by (simp add: accepted(9) install_order_def Let_def set_best_own_def add_open_qty_def add_open_count_def upd_stats_def upd_estimate_def upd_times_def)
  next
    case full
    then show ?thesis using cap by simp
  qed (use r f in \<open>auto simp: open_ids_def\<close>)
  then obtain h where "r = Inr h" and c: "pl_capacity (om_pool s') = pl_capacity (om_pool s)" by blast
  with that submit_inv [OF inv e r(2,3)] e show thesis by blast
qed

lemma session_buy:
  assumes S: "session m c e" "c < 99" and new: "\<And>h. h \<in> live (en_oms e) \<Longrightarrow> sample_cid (Suc c) \<notin> order_ids (order_at (en_oms e) h)"
    and q: "0 < q" "1000 dvd q" "0 < m" "\<bar>en_pos e 1 + en_open e 1 Buy + q\<bar> \<le> m" and few: "card (live (en_oms e)) < 4096" "roomy e"
  obtains h where "roomy (engine_step (buy q) e)" "h \<notin> live (en_oms e)" "session m (Suc c) (engine_step (buy q) e)" "live (en_oms (engine_step (buy q) e)) = insert h (live (en_oms e))"
    "buys (order_at (en_oms (engine_step (buy q) e)) h) (Suc c) q 0 PendingNew" "en_positions (engine_step (buy q) e) = en_positions e"
    "\<And>g. g \<noteq> h \<Longrightarrow> order_at (en_oms (engine_step (buy q) e)) g = order_at (en_oms e) g"
proof -
  let ?req = "limit_order 1 Buy 500000000 q"
  let ?s = "en_oms e" and ?s1 = "(en_oms e)\<lparr>om_seq := Suc c\<rparr>"
  obtain st where r: "en_risk e = (session_risk m)\<lparr>re_stats := st\<rparr>" using S(1) by (auto simp: session_def)
  have T: "en_instruments e = sample_table" using S(1) by (simp add: session_def)
  have acc: "order_account ?req sample_market sample_view = Inr 0"
    by (simp add: order_account_def sample_view_def limit_order_def sample_market_def)
  let ?oi = "\<lparr>oi_instrument = 1, oi_venue = 0, oi_side = Buy, oi_type = Limit, oi_price = 500000000, oi_qty = q, oi_tif = nr_tif ?req\<rparr>"
  have inp: "ri_position (new_inputs ?req False 0 sample_view e) = Some (tk_pos (en_positions e) 1)"
    "ri_open_same_side (new_inputs ?req False 0 sample_view e) = en_open e 1 Buy"
    "\<not> ri_feed_lagged (new_inputs ?req False 0 sample_view e)" "ri_underlying (new_inputs ?req False 0 sample_view e) = underlying_inputs_none"
    "\<not> ri_balance_short (new_inputs ?req False 0 sample_view e)" "\<not> ri_primary_killed (new_inputs ?req False 0 sample_view e)"
    "\<not> ri_account_full (new_inputs ?req False 0 sample_view e)" "\<not> ri_reduce_only (new_inputs ?req False 0 sample_view e)"
    by (simp_all add: new_inputs_def Let_def limit_order_def sample_view_def r session_risk_simps T sample_table_simps) (simp add: sample_market_def)
  obtain st' where c: "check_new ?oi sample_market (new_inputs ?req False 0 sample_view e) (en_risk e) = ((session_risk m)\<lparr>re_stats := st'\<rparr>, NoReject)"
    unfolding r check_new_def
    by (rule session_limits [of "new_inputs ?req False 0 sample_view e" "tk_pos (en_positions e) 1" 0 q m ?oi True st, OF inp(1)])
      (use q inp in simp_all)
  have n: "next_cl_ord_id ?s = (?s1, sample_cid (Suc c))" using S by (simp add: next_cl_ord_id_def session_def sample_cid_def)
  have o: "oms_inv ?s" using S(1) by (simp add: session_def)
  note k = next_id_keeps [OF n o]
  let ?req' = "?req\<lparr>nr_venue := 0, nr_account := 0\<rparr>"
  have lo: "nr_instrument ?req' = 1" "nr_side ?req' = Buy" "nr_qty ?req' = q" by (simp_all add: limit_order_def)
  obtain h s' where a: "submit ?req' (sample_cid (Suc c)) 20 ?s1 = (s', Inr h)" "oms_inv s'" "h \<notin> live ?s1" "live s' = insert h (live ?s1)"
    "order_at s' h = new_order ?req' (sample_cid (Suc c)) 20" "\<And>g. g \<noteq> h \<Longrightarrow> order_at s' g = order_at ?s1 g"
    "pl_capacity (om_pool s') = pl_capacity (om_pool ?s1)"
    by (rule submit_accepts [of ?s1 ?req' "sample_cid (Suc c)" 20])
      (use k S new q few lo in \<open>auto simp: sample_cid_nonzero kMaxInstruments_def session_def\<close>)
  have id: "id_source s' = id_source ?s1" using id_source_handlers(1) [of ?req' "sample_cid (Suc c)" 20 ?s1] a(1) by simp
  have e': "engine_step (buy q) e = e\<lparr>en_risk := (session_risk m)\<lparr>re_stats := st'\<rparr>, en_oms := set_arm h 0 s'\<rparr>"
    using acc c n a(1) sample_cid_nonzero [of "Suc c"] S(2)
    by (simp add: buy_def submit_new_def Let_def T sample_table_simps limit_order_def send_new_def) (simp add: sample_view_def limit_order_def sample_table_simps)
  have h': "h \<in> live s'" using a(4) by simp
  note arm = set_arm_keeps [OF a(2) h', of 0]
  have "id_source (set_arm h 0 s') = id_source ?s1" using id by (simp add: set_arm_def)
  then have "session m (Suc c) (engine_step (buy q) e)"
    unfolding session_def e' using arm S(1) T by (auto simp: id_source_def session_def)
  moreover have "roomy (engine_step (buy q) e)" using a(7) few(2) unfolding e' by (simp add: set_arm_def)
  moreover have "buys (order_at (en_oms (engine_step (buy q) e)) h) (Suc c) q 0 PendingNew"
    unfolding e' using arm(4) a(5) lo by (simp add: buys_def new_order_def order_zero_def limit_order_def)
  ultimately show thesis
    using that [of h] a(3,4,6) k arm unfolding e' by auto
qed

lemma after_none: "u_missed_qty (snd su) = 0 \<Longrightarrow> after_oms_update su e = e\<lparr>en_oms := fst su\<rparr>"
  by (simp add: after_oms_update_def book_missed_fill_def)

lemma session_oms: "session m c e \<Longrightarrow> oms_inv s \<Longrightarrow> id_source s = id_source (en_oms e) \<Longrightarrow> session m c (e\<lparr>en_oms := s\<rparr>)"
  by (auto simp: session_def id_source_def)

lemma session_ack:
  fixes e n in_place
  assumes S: "session m c e" and h: "h \<in> live (en_oms e)" "buys (order_at (en_oms e) h) n q k PendingNew"
  defines "e' \<equiv> engine_step (acked n in_place) e"
  shows "session m c e'" "roomy e \<Longrightarrow> roomy e'" "live (en_oms e') = live (en_oms e)" "buys (order_at (en_oms e') h) n q k Live"
    "en_positions e' = en_positions e" "\<And>g. g \<noteq> h \<Longrightarrow> order_at (en_oms e') g = order_at (en_oms e) g" "orderly (acked n in_place) e"
proof -
  let ?s = "en_oms e"
  let ?m = "\<lparr>am_hdr = sample_header, am_cl_ord_id = sample_cid n, am_venue_order_id = ''7'', am_amended_in_place = in_place\<rparr>"
  let ?f = "\<lambda>od. od\<lparr>o_state := Live, o_venue_order_id := ''7''\<rparr>"
  have o: "oms_inv ?s" using S by (simp add: session_def)
  note l = lookup_live [OF o h(1), of "sample_cid n"]
  have i: "sample_cid n \<in> order_ids (order_at ?s h)" using h(2) by (simp add: buys_def order_ids_def)
  have "open_handle ?s (sample_cid n) = h" by (rule lookup_handle [OF l(1) [OF i]])
  then show "orderly (acked n in_place) e" using h(2) by (simp add: acked_def ack_no_growth_def buys_def)
  have a: "fst (on_ack ?m ?s) = set_ack_times h ?m (upd_stats (\<lambda>st. st\<lparr>st_acked := st_acked st + 1\<rparr>) (upd_order h ?f ?s))"
    "u_missed_qty (snd (on_ack ?m ?s)) = 0"
    using l [OF i] h(2) by (simp_all add: on_ack_def Let_def buys_def finish_update_def update_zero_def)
  have e': "e' = e\<lparr>en_oms := fst (on_ack ?m ?s)\<rparr>" unfolding e'_def acked_def engine_step.simps by (rule after_none [OF a(2)])
  show "session m c e'" unfolding e' by (intro session_oms S on_ack_inv o id_source_on_ack)
  show "roomy e \<Longrightarrow> roomy e'" "live (en_oms e') = live ?s" "buys (order_at (en_oms e') h) n q k Live" "en_positions e' = en_positions e"
    "\<And>g. g \<noteq> h \<Longrightarrow> order_at (en_oms e') g = order_at ?s g"
    unfolding e' a(1) using h o
    by (simp_all add: set_ack_times_def live_upd_order order_at_upd_order buys_def) (simp add: upd_times_def upd_stats_def)
qed

lemma session_replace:
  fixes e h q
  assumes S: "session m c e" "c < 99" and h: "h \<in> live (en_oms e)" "buys (order_at (en_oms e) h) n q0 k st" "st = Live \<or> st = PartiallyFilled"
    and new: "\<And>g. g \<in> live (en_oms e) \<Longrightarrow> sample_cid (Suc c) \<notin> order_ids (order_at (en_oms e) g)"
    and q: "0 < q" "1000 dvd q" "0 < m" "\<bar>en_pos e 1 + (en_open e 1 Buy - (q0 - k) + q)\<bar> \<le> m"
  defines "e' \<equiv> engine_step (replace_to h q) e"
  shows "session m (Suc c) e'" "roomy e \<Longrightarrow> roomy e'" "live (en_oms e') = live (en_oms e)" "buys (order_at (en_oms e') h) n q0 k PendingReplace"
    "o_pending_cl_ord_id (order_at (en_oms e') h) = sample_cid (Suc c)" "o_pending_qty (order_at (en_oms e') h) = q"
    "en_positions e' = en_positions e" "\<And>g. g \<noteq> h \<Longrightarrow> order_at (en_oms e') g = order_at (en_oms e) g"
proof -
  let ?s = "en_oms e" and ?s1 = "(en_oms e)\<lparr>om_seq := Suc c\<rparr>" and ?od = "order_at (en_oms e) h"
  obtain stt where r: "en_risk e = (session_risk m)\<lparr>re_stats := stt\<rparr>" using S(1) by (auto simp: session_def)
  have T: "en_instruments e = sample_table" and o: "oms_inv ?s" using S(1) by (simp_all add: session_def)
  let ?oi = "\<lparr>oi_instrument = o_instrument ?od, oi_venue = o_venue ?od, oi_side = o_side ?od, oi_type = o_type ?od,
                    oi_price = 500000000, oi_qty = q, oi_tif = o_tif ?od\<rparr>"
  let ?inp = "replace_inputs ?od sample_view e"
  have od: "o_instrument ?od = 1" "o_side ?od = Buy" "o_type ?od = Limit" "leaves_qty ?od = q0 - k" "is_working ?od" "o_cl_ord_id ?od = sample_cid n"
    using h(2,3) by (auto simp: buys_def leaves_qty_def is_working_def)
  have inp: "ri_position ?inp = Some (tk_pos (en_positions e) 1)" "ri_open_same_side ?inp = en_open e 1 Buy"
    "\<not> ri_feed_lagged ?inp" "ri_underlying ?inp = underlying_inputs_none" "\<not> ri_balance_short ?inp" "\<not> ri_primary_killed ?inp"
    "\<not> ri_account_full ?inp" "\<not> ri_reduce_only ?inp"
    by (simp_all add: replace_inputs_def Let_def od sample_view_def r session_risk_simps)
  obtain st' where c: "check_replace ?oi ?od sample_market ?inp (en_risk e) = ((session_risk m)\<lparr>re_stats := st'\<rparr>, NoReject)"
    unfolding r check_replace_def
    by (rule session_limits [of ?inp "tk_pos (en_positions e) 1" "leaves_qty ?od" q m ?oi False stt, OF inp(1)])
      (use q inp od in simp_all)
  have n: "next_cl_ord_id ?s = (?s1, sample_cid (Suc c))" using S by (simp add: next_cl_ord_id_def session_def sample_cid_def)
  note k = next_id_keeps [OF n o]
  have new1: "open_handle ?s1 (sample_cid (Suc c)) = kNullHandle"
    using open_handle_null [of ?s1 "sample_cid (Suc c)"] new k by (auto simp: open_ids_def)
  obtain mm i where m: "ohm_assign (om_ids ?s1) (sample_cid (Suc c)) (of_nat h) = (mm, Some i)" using add_open_succeeds [of ?s1] k by blast
  have lv: "pool_is_live (om_pool ?s) h" using h(1) by (simp add: live_def pool_is_live_iff)
  have ne: "sample_cid (Suc c) \<noteq> o_cl_ord_id ?od" using new [OF h(1)] by (auto simp: order_ids_def)
  have at1: "order_at ?s1 = order_at ?s" using k by simp
  obtain s2 where rr: "request_replace h (sample_cid (Suc c)) 500000000 q 20 ?s1 = (s2, None)" "s2 = set_replace h (sample_cid (Suc c)) 500000000 q 20 (?s1\<lparr>om_ids := mm\<rparr>)"
    using lv ne new1 m od(5) at1 by (simp add: request_replace_def add_open_def)
  note rl = request_replace_live [OF conjunct1 [OF k] rr(1) refl]
  have o2: "oms_inv s2" using k q(1) sample_cid_nonzero [of "Suc c"] S(2) by (intro request_replace_inv [OF _ rr(1)]) simp_all
  note arm = set_arm_keeps [OF o2 rl(1), of 0]
  have ctn: "ev_supports_replace sample_view" "ev_now sample_view = 20" "ev_arm sample_view = 0" by (simp_all add: sample_view_def)
  have e': "e' = e\<lparr>en_risk := (session_risk m)\<lparr>re_stats := st'\<rparr>, en_oms := set_arm h 0 s2\<rparr>"
    using lv od(5) c n rr(1) sample_cid_nonzero [of "Suc c"] S(2) unfolding e'_def replace_to_def
    by (simp add: submit_replace_def Let_def T od(1) sample_table_simps send_replace_def ctn)
  have "id_source (set_arm h 0 s2) = id_source ?s1"
    using id_source_handlers(4) [of h "sample_cid (Suc c)" 500000000 q 20 ?s1] rr(1) by (simp add: set_arm_def)
  then show "session m (Suc c) e'" unfolding session_def e' using arm S(1) T by (auto simp: id_source_def session_def)
  show "roomy e \<Longrightarrow> roomy e'" unfolding e' by (simp add: set_arm_def rr(2) set_replace_def upd_times_def)
  show "live (en_oms e') = live ?s" "buys (order_at (en_oms e') h) n q0 k PendingReplace"
    "o_pending_cl_ord_id (order_at (en_oms e') h) = sample_cid (Suc c)" "o_pending_qty (order_at (en_oms e') h) = q"
    "en_positions e' = en_positions e" "\<And>g. g \<noteq> h \<Longrightarrow> order_at (en_oms e') g = order_at ?s g"
    unfolding e' using arm rl k h(2) by (simp_all add: buys_def)
qed

lemma session_replaced:
  fixes e n' in_place
  assumes S: "session m c e" and h: "h \<in> live (en_oms e)" "buys (order_at (en_oms e) h) n q k PendingReplace"
    and p: "o_pending_cl_ord_id (order_at (en_oms e) h) = sample_cid n'" "o_pending_qty (order_at (en_oms e) h) = q'" "sample_cid n' \<noteq> sample_cid n" "sample_cid n' \<noteq> 0" "0 \<le> q'"
    and k: "k = 0 \<or> \<not> in_place"
  defines "e' \<equiv> engine_step (acked n' in_place) e"
  shows "session m c e'" "live (en_oms e') = live (en_oms e)" "buys (order_at (en_oms e') h) n' q' 0 Live"
    "en_positions e' = en_positions e" "\<And>g. g \<noteq> h \<Longrightarrow> order_at (en_oms e') g = order_at (en_oms e) g"
proof -
  let ?s = "en_oms e"
  let ?m = "\<lparr>am_hdr = sample_header, am_cl_ord_id = sample_cid n', am_venue_order_id = ''7'', am_amended_in_place = in_place\<rparr>"
  have o: "oms_inv ?s" using S by (simp add: session_def)
  have i: "sample_cid n' \<in> order_ids (order_at ?s h)" using p by (simp add: order_ids_def)
  note l = lookup_live [OF o h(1) i]
  have st: "o_state (order_at ?s h) = PendingReplace" "am_cl_ord_id ?m = o_pending_cl_ord_id (order_at ?s h)"
    using h(2) p(1) by (simp_all add: buys_def)
  have "lookup ?s (am_cl_ord_id ?m) update_zero = (h, update_zero\<lparr>u_known := True, u_handle := h\<rparr>)" using l(1) by simp
  note a = on_ack_replace [OF o this l(2) st]
  have e': "e' = e\<lparr>en_oms := fst (on_ack ?m ?s)\<rparr>" unfolding e'_def acked_def engine_step.simps by (rule after_none [OF a(4)])
  show "session m c e'" unfolding e' by (intro session_oms S on_ack_inv o id_source_on_ack)
  show "live (en_oms e') = live ?s" "en_positions e' = en_positions e" "\<And>g. g \<noteq> h \<Longrightarrow> order_at (en_oms e') g = order_at ?s g"
    unfolding e' using a(1,2) by simp_all
  show "buys (order_at (en_oms e') h) n' q' 0 Live"
    unfolding e' using a(3) h(2) p k by (auto simp: buys_def replaced_def order_replace_def Let_def working_state_def)
qed

text \<open>A fill without an execution id or a venue's count, of an order nothing was estimated for.\<close>

lemma plain_fill:
  assumes o: "oms_inv s" and h: "h \<in> live s" "buys (order_at s h) n q k st" and x: "0 < x" "k + x \<le> q" and su: "on_fill (fill_msg n x) s = (s', u)"
  shows "live s' = (if k + x = q then live s - {h} else live s) \<and> (\<forall>g. g \<noteq> h \<longrightarrow> order_at s' g = order_at s g) \<and>
      (k + x < q \<longrightarrow> buys (order_at s' h) n q (k + x) (if st = Live \<or> st = PendingNew then PartiallyFilled else st)) \<and>
      u_action u = NoAction \<and> u_corrected_qty u = 0 \<and> u_missed_qty u = 0 \<and> o_instrument (u_order u) = 1 \<and> o_side (u_order u) = Buy \<and>
      (k + x < q \<longrightarrow> pl_capacity (om_pool s') = pl_capacity (om_pool s))"
proof -
  let ?m = "fill_msg n x" and ?od = "order_at s h"
  have i: "sample_cid n \<in> order_ids ?od" using h(2) by (simp add: buys_def order_ids_def)
  note l = lookup_live [OF o h(1) i]
  have od: "o_qty ?od = q" "o_cum_qty ?od = k" "o_state ?od = st" "o_instrument ?od = 1" "o_side ?od = Buy" using h(2) by (simp_all add: buys_def)
  let ?u1 = "update_zero\<lparr>u_fill_qty := x, u_fill_px := 500000000, u_known := True, u_handle := h\<rparr>"
  let ?s3 = "upd_stats (\<lambda>st. st\<lparr>st_fills := st_fills st + 1\<rparr>) s"
  let ?s5 = "book_fill h ?m (k + x) ?s3" and ?u3 = "?u1\<lparr>u_prev := st, u_changed := True\<rparr>"
  let ?s6 = "if st = Live \<or> st = PendingNew then upd_order h (\<lambda>od. od\<lparr>o_state := PartiallyFilled\<rparr>) ?s5 else ?s5"
  have m: "fmsg_exec_id ?m = []" "fmsg_cl_ord_id ?m = sample_cid n" "fmsg_qty ?m = x" "fmsg_price ?m = 500000000" "fmsg_cum_qty ?m = 0" "\<not> fmsg_replayed ?m"
    by (simp_all add: fill_msg_def)
  have cv: "fill_covered ?m h (s, ?u1) = (s, ?u1)" using l(2) m by (simp add: fill_covered_def)
  have fc: "fill_cum ?m 0 ?od = k + x" using x m od by (simp add: fill_cum_def)
  have f: "on_fill ?m s = (if k + x \<ge> q
      then terminate h Filled False (upd_stats (\<lambda>st. st\<lparr>st_filled := st_filled st + 1\<rparr>) ?s5, ?u3) else (?s6, finish_update ?s6 ?u3 h))"
    using l m cv fc od by (simp add: on_fill_def Let_def) (simp add: update_zero_def)
  have i3: "oms_inv ?s3" "h \<in> live ?s3" "o_cum_qty (order_at ?s3 h) \<le> k + x" "k + x \<le> o_qty (order_at ?s3 h)" using o h(1) x od by simp_all
  note i5 = book_fill_inv [OF i3, where m = ?m]
  have at5: "order_at ?s5 h = ?od\<lparr>o_cum_qty := k + x, o_venue_order_id := (if o_venue_order_id ?od = [] then ''7'' else o_venue_order_id ?od)\<rparr>"
    using i3(1,2) by (simp add: book_fill_def Let_def upd_order_commute order_at_upd_order fill_msg_def)
  show ?thesis
  proof (cases "k + x \<ge> q")
    case True
    let ?t = "upd_stats (\<lambda>st. st\<lparr>st_filled := st_filled st + 1\<rparr>) ?s5"
    have t: "terminate h Filled False (?t, ?u3) = (s', u)" using f su True by simp
    have h5: "oms_inv ?t" "h \<in> live ?t" using i5 h(1) by simp_all
    show ?thesis using terminate_inv [OF h5 t] terminate_update [OF h5 t] i5 at5 od True x(2) by (simp add: update_zero_def)
  next
    case False
    then have e: "s' = ?s6" "u = finish_update ?s6 ?u3 h" using f su by (simp_all split: if_splits)
    have "pl_capacity (om_pool ?s5) = pl_capacity (om_pool s)" by (simp add: book_fill_def Let_def add_open_qty_def upd_stats_def)
    then show ?thesis
      unfolding e using False i5 at5 h by (simp add: live_upd_order order_at_upd_order finish_update_def update_zero_def buys_def)
  qed
qed

lemma session_fill:
  fixes e n x
  assumes S: "session m c e" and h: "h \<in> live (en_oms e)" "buys (order_at (en_oms e) h) n q k st" and x: "0 < x" "k + x \<le> q"
  defines "e' \<equiv> engine_step (filled n x) e"
  shows "session m c e'" "k + x < q \<Longrightarrow> roomy e \<Longrightarrow> roomy e'"
    "live (en_oms e') = (if k + x = q then live (en_oms e) - {h} else live (en_oms e))"
    "k + x < q \<Longrightarrow> buys (order_at (en_oms e') h) n q (k + x) (if st = Live \<or> st = PendingNew then PartiallyFilled else st)"
    "en_pos e' 1 = en_pos e 1 + x" "\<And>g. g \<noteq> h \<Longrightarrow> order_at (en_oms e') g = order_at (en_oms e) g" "orderly (filled n x) e"
proof -
  let ?s = "en_oms e" and ?m = "fill_msg n x"
  have o: "oms_inv ?s" and T: "en_instruments e = sample_table" using S by (simp_all add: session_def)
  have m: "fmsg_exec_id ?m = []" "fmsg_cl_ord_id ?m = sample_cid n" "fmsg_qty ?m = x" "fmsg_price ?m = 500000000" "fmsg_cum_qty ?m = 0"
    by (simp_all add: fill_msg_def)
  obtain s' u where su: "on_fill ?m ?s = (s', u)" by fastforce
  note r = plain_fill [OF o h x su]
  have "sample_cid n \<in> order_ids (order_at ?s h)" using h(2) by (simp add: buys_def order_ids_def)
  note l = lookup_live [OF o h(1) this]
  show "orderly (filled n x) e"
    using r x l(2) m h(2) lookup_handle [OF l(1)] by (simp add: filled_def fill_fits_def su leaves_qty_def buys_def)
  have n1: "o_instrument order_zero \<noteq> 1" by (simp add: order_zero_def)
  have b: "booked_of sample_market Buy ?m 0 QuoteFee = (x, 0)" by (simp add: booked_of_def m)
  have e': "e' = check_loss (e\<lparr>en_oms := s', en_positions := tk_on_fill 1 Buy 500000000 x 0 sample_market (en_positions e)\<rparr>)"
    unfolding e'_def filled_def engine_step.simps engine_on_fill_def su using r n1 x(1) m
    by (simp add: Let_def T sample_table_simps b book_execution_def after_none check_loss_def net_pnl_def)
  have inv': "oms_inv s'" using on_fill_inv [OF o, of ?m] su by simp
  have "id_source s' = id_source ?s" using id_source_on_fill [of ?m ?s] su m(1) by simp
  then have "session m c (e\<lparr>en_oms := s', en_positions := t\<rparr>)" for t
    using session_oms [OF S inv'] by (simp add: session_def)
  moreover have "rl_max_loss (re_limits (en_risk e)) = 0" using S by (auto simp: session_def session_risk_simps risk_limits_default_def)
  then have "en_risk e' = en_risk e" unfolding e' by (simp add: check_loss_def on_pnl_def)
  ultimately show "session m c e'" unfolding session_def e' by (simp add: check_loss_def)
  show "k + x < q \<Longrightarrow> roomy e \<Longrightarrow> roomy e'" "live (en_oms e') = (if k + x = q then live ?s - {h} else live ?s)"
    "k + x < q \<Longrightarrow> buys (order_at (en_oms e') h) n q (k + x) (if st = Live \<or> st = PendingNew then PartiallyFilled else st)"
    "en_pos e' 1 = en_pos e 1 + x" "\<And>g. g \<noteq> h \<Longrightarrow> order_at (en_oms e') g = order_at ?s g"
    unfolding e' using r by (simp_all add: on_fill_qty side_sign_def)
qed

lemma buys_leaves: "buys od n q k st \<Longrightarrow> open_leaves 1 Buy od = q - k"
  by (simp add: buys_def open_leaves_def leaves_qty_def)

lemma session_open: "session m c e \<Longrightarrow> en_open e 1 Buy = (\<Sum>h\<in>live (en_oms e). open_leaves 1 Buy (order_at (en_oms e) h))"
  by (simp add: session_def open_qty_total)

lemma buys_ids:
  assumes "session m c e" "h \<in> live (en_oms e)" "buys (order_at (en_oms e) h) n q k st" "st \<noteq> PendingReplace"
  shows "order_ids (order_at (en_oms e) h) = {sample_cid n}"
  using live_pending [of "en_oms e" h] assms by (auto simp: session_def buys_def order_ids_def)

text \<open>An order replaced, a second one bought while the replace is on its way, and both filled.\<close>

lemma replace_and_buy:
  assumes S: "session m 1 e" "roomy e" and a: "live (en_oms e) = {a}" "buys (order_at (en_oms e) a) 1 q0 k st" "st = Live \<or> st = PartiallyFilled"
    and q: "0 < q" "1000 dvd q" "\<bar>en_pos e 1 + q\<bar> \<le> m" and x: "0 < x" "1000 dvd x" "\<bar>en_pos e 1 + (q0 - k) + x\<bar> \<le> m" and m: "0 < m"
  shows "en_pos (engine_run [replace_to a q, buy x, acked 2 False, filled 2 q, filled 3 x] e) 1 = en_pos e 1 + q + x"
proof -
  have c: "sample_cid 2 \<noteq> sample_cid 1" "sample_cid 3 \<noteq> sample_cid 1" "sample_cid 3 \<noteq> sample_cid 2" "sample_cid 2 \<noteq> 0" by (simp_all add: sample_cid_eq sample_cid_nonzero)
  have n2: "Suc 1 = 2" "Suc 2 = 3" by simp_all
  have aL: "a \<in> live (en_oms e)" using a(1) by simp
  have i0: "order_ids (order_at (en_oms e) a) = {sample_cid 1}" using buys_ids [OF S(1) aL a(2)] a(3) by auto
  have o0: "en_open e 1 Buy = q0 - k" using session_open [OF S(1)] a(1) buys_leaves [OF a(2)] by simp
  define e1 where "e1 = engine_step (replace_to a q) e"
  note r = session_replace [OF S(1) _ aL a(2,3), of q, unfolded n2, folded e1_def]
  have r1: "session m 2 e1" "roomy e1" "live (en_oms e1) = {a}" "buys (order_at (en_oms e1) a) 1 q0 k PendingReplace"
    "o_pending_cl_ord_id (order_at (en_oms e1) a) = sample_cid 2" "o_pending_qty (order_at (en_oms e1) a) = q" "en_positions e1 = en_positions e"
    using r a(1) i0 o0 q m c S(2) by simp_all
  have i1: "order_ids (order_at (en_oms e1) a) = {sample_cid 1, sample_cid 2}" using r1(4,5) c(4) by (auto simp: buys_def order_ids_def)
  have o1: "en_open e1 1 Buy = q0 - k" using session_open [OF r1(1)] r1(3) buys_leaves [OF r1(4)] by simp
  define e2 where "e2 = engine_step (buy x) e1"
  obtain b where b: "b \<notin> live (en_oms e1)" "session m 3 e2" "live (en_oms e2) = insert b (live (en_oms e1))" "buys (order_at (en_oms e2) b) 3 x 0 PendingNew"
    "en_positions e2 = en_positions e1" "\<And>g. g \<noteq> b \<Longrightarrow> order_at (en_oms e2) g = order_at (en_oms e1) g"
    by (rule session_buy [OF r1(1), of x, unfolded n2, folded e2_def]) (use r1 i1 o1 x m c in simp_all)
  have ab: "a \<noteq> b" "live (en_oms e2) = {a, b}" using b(1,3) r1(3) by auto
  define e3 where "e3 = engine_step (acked 2 False) e2"
  have a2: "a \<in> live (en_oms e2)" "buys (order_at (en_oms e2) a) 1 q0 k PendingReplace" "o_pending_cl_ord_id (order_at (en_oms e2) a) = sample_cid 2"
    "o_pending_qty (order_at (en_oms e2) a) = q" using ab b(6) r1 by simp_all
  note p = session_replaced [OF b(2) a2(1,2,3,4), where in_place = False, folded e3_def]
  have p3: "session m 3 e3" "live (en_oms e3) = {a, b}" "buys (order_at (en_oms e3) a) 2 q 0 Live" "en_positions e3 = en_positions e2"
    "buys (order_at (en_oms e3) b) 3 x 0 PendingNew"
    using p c q(1) ab b(4) by simp_all
  define e4 where "e4 = engine_step (filled 2 q) e3"
  have "a \<in> live (en_oms e3)" using p3(2) by simp
  note f = session_fill [OF p3(1) this p3(3), of q, folded e4_def]
  have f4: "session m 3 e4" "b \<in> live (en_oms e4)" "buys (order_at (en_oms e4) b) 3 x 0 PendingNew" "en_pos e4 1 = en_pos e3 1 + q"
    using f q(1) p3(2,5) ab(1) by auto
  have "en_pos (engine_step (filled 3 x) e4) 1 = en_pos e4 1 + x" using session_fill(5) [OF f4(1-3), of x] x(1) by simp
  then show ?thesis using f4(4) p3(4) b(5) r1(7)
    by (simp add: e4_def [symmetric] e3_def [symmetric] e2_def [symmetric] e1_def [symmetric])
qed

text \<open>The first order of a session.\<close>

lemma session_first:
  assumes "0 < q" "1000 dvd q" "q \<le> m"
  defines "e \<equiv> engine_run [buy q, acked 1 False] (session_start m)"
  obtains a where "session m 1 e" "roomy e" "live (en_oms e) = {a}" "buys (order_at (en_oms e) a) 1 q 0 Live" "en_pos e 1 = 0"
    "orderly_run [buy q, acked 1 False] (session_start m)"
proof -
  define e1 where "e1 = engine_step (buy q) (session_start m)"
  note s = session_start_ok [of m]
  have o: "en_open (session_start m) 1 Buy = 0" using session_open [OF s(1)] s(3) by simp
  obtain a where b: "session m 1 e1" "roomy e1" "live (en_oms e1) = {a}" "buys (order_at (en_oms e1) a) 1 q 0 PendingNew"
    "en_positions e1 = en_positions (session_start m)"
    by (rule session_buy [OF s(1), of q, folded e1_def]) (use s o assms(1-3) in simp_all)
  have aL: "a \<in> live (en_oms e1)" using b(3) by simp
  have e: "e = engine_step (acked 1 False) e1" by (simp add: e_def e1_def)
  note k = session_ack [OF b(1) aL b(4), where in_place = False, folded e]
  show thesis using that [of a] k b s(4) by (simp add: buy_def [symmetric] e1_def [symmetric]) (simp add: buy_def)
qed

text \<open>C6: a replace on its way is not counted, so \<^verbatim>\<open>max_position\<close> can be exceeded. The open quantity the checks read does not
  change when a replace is requested, whatever its quantity. So for every limit \<open>m\<close> and quantities in lots with \<open>q \<le> m\<close> and \<open>q0 + x \<le> m\<close> a
  session from a flat position ends at \<open>q + x\<close>: it buys \<open>q0\<close>, replaces that order to \<open>q\<close>, buys \<open>x\<close> more while the replace is pending,
  and both orders fill. With \<open>q0\<close> of one lot that is almost twice the limit. A replace need not raise the quantity for it: when \<open>k\<close> of the first order
  was filled before and the venue answers with a new order, the new order counts from zero again, and the session ends at \<open>k + q + x\<close>.\<close>

theorem pending_replace_exceeds_limit:
  assumes "0 < q0" "0 < q" "0 < x" "1000 dvd q0" "1000 dvd q" "1000 dvd x" "q \<le> m" "q0 + x \<le> m"
  shows "om_open_qty (fst (request_replace h new_id px q' now s)) = om_open_qty s \<and>
   rl_max_position (re_limits (en_risk (session_start m))) = m \<and>
   (\<exists>a. en_pos (engine_run [buy q0, acked 1 False, replace_to a q, buy x, acked 2 False, filled 2 q, filled 3 x] (session_start m)) 1 = q + x) \<and>
   (0 < k \<and> k < q0 \<and> k + q \<le> m \<longrightarrow>
     (\<exists>a. en_pos (engine_run [buy q0, acked 1 False, filled 1 k, replace_to a q, buy x, acked 2 False, filled 2 q, filled 3 x] (session_start m)) 1 = k + q + x))"
proof (intro conjI impI)
  show "om_open_qty (fst (request_replace h new_id px q' now s)) = om_open_qty s" by (rule request_replace_open_qty)
  show "rl_max_position (re_limits (en_risk (session_start m))) = m" by (simp add: session_start_def session_risk_simps)
  define e where "e = engine_run [buy q0, acked 1 False] (session_start m)"
  obtain a where a: "session m 1 e" "roomy e" "live (en_oms e) = {a}" "buys (order_at (en_oms e) a) 1 q0 0 Live" "en_pos e 1 = 0"
    by (rule session_first [of q0 m, folded e_def]) (use assms in simp_all)
  from replace_and_buy [OF a(1-4), of q x] a(5) assms
  show "\<exists>a. en_pos (engine_run [buy q0, acked 1 False, replace_to a q, buy x, acked 2 False, filled 2 q, filled 3 x] (session_start m)) 1 = q + x"
    by (intro exI [of _ a]) (simp add: e_def)
  assume k: "0 < k \<and> k < q0 \<and> k + q \<le> m"
  define e1 where "e1 = engine_step (filled 1 k) e"
  have aL: "a \<in> live (en_oms e)" using a(3) by simp
  note f = session_fill [OF a(1) aL a(4), of k, folded e1_def]
  have f1: "session m 1 e1" "roomy e1" "live (en_oms e1) = {a}" "buys (order_at (en_oms e1) a) 1 q0 k PartiallyFilled" "en_pos e1 1 = k"
    using f a(2,3,5) k by simp_all
  from replace_and_buy [OF f1(1-4), of q x] f1(5) assms k
  show "\<exists>a. en_pos (engine_run [buy q0, acked 1 False, filled 1 k, replace_to a q, buy x, acked 2 False, filled 2 q, filled 3 x] (session_start m)) 1 = k + q + x"
    by (intro exI [of _ a]) (simp add: e_def e1_def)
qed

text \<open>With a limit of 3 to a position of 5; and with a limit of 4 to 5, by a replace from 3 to 2 after 2 were filled.\<close>

theorem pending_replace_exceeds_limit_witness:
  "(\<exists>a. en_pos (engine_run [buy 100000000, acked 1 False, replace_to a 300000000, buy 200000000, acked 2 False, filled 2 300000000, filled 3 200000000]
      (session_start 300000000)) 1 = 500000000) \<and>
   (\<exists>a. en_pos (engine_run [buy 300000000, acked 1 False, filled 1 200000000, replace_to a 200000000, buy 100000000, acked 2 False,
      filled 2 200000000, filled 3 100000000] (session_start 400000000)) 1 = 500000000)"
  using pending_replace_exceeds_limit [of 100000000 300000000 200000000 300000000]
    pending_replace_exceeds_limit [of 300000000 200000000 100000000 400000000, where k = 200000000] by simp

text \<open>A buy of 1 is acknowledged and filled, within a limit of 3.\<close>

theorem position_limit_holds_witness:
  "\<exists>e'. e' = engine_run [buy 100000000, acked 1 False, filled 1 100000000] (session_start 300000000) \<and> en_pos e' 1 = 100000000 \<and>
     en_pos e' 1 + en_open e' 1 Buy \<le> 300000000"
proof -
  let ?evs = "[buy 100000000, acked 1 False, filled 1 100000000]" and ?e0 = "session_start 300000000"
  define e where "e = engine_run [buy 100000000, acked 1 False] ?e0"
  obtain a where a: "session 300000000 1 e" "roomy e" "live (en_oms e) = {a}" "buys (order_at (en_oms e) a) 1 100000000 0 Live" "en_pos e 1 = 0"
    "orderly_run [buy 100000000, acked 1 False] ?e0"
    by (rule session_first [of 100000000 300000000, folded e_def]) simp_all
  have aL: "a \<in> live (en_oms e)" using a(3) by simp
  note f = session_fill [OF a(1) aL a(4), of 100000000]
  have ok: "orderly_run ?evs ?e0" using a(6) f(7) by (simp add: e_def)
  have p: "en_pos (engine_run ?evs ?e0) 1 = 100000000" using f(5) a(5) by (simp add: e_def)
  have z: "\<bar>en_pos ?e0 i\<bar> \<le> 300000000" for i by (simp add: session_start_def tracker_new_def position_zero_def)
  have "oms_inv (en_oms ?e0)" "rl_max_position (re_limits (en_risk ?e0)) = 300000000"
    using session_start_ok(1) [of 300000000] by (auto simp: session_def session_risk_simps)
  from position_limit_holds [OF this(1) session_start_ok(3) this(2) _ z ok refl, of 1] p show ?thesis by simp
qed


end
