(* ===== verification/TokenBucketProps.thy ===== *)
theory TokenBucketProps
  imports TokenBucket
begin

unbundle bit_operations_syntax

text \<open>
  The rate limiter grants no more than its rate over any window, and waiting as long as it says is enough.
\<close>

section \<open>The rate limiter\<close>

lemma tb_gain_div:
  assumes "0 \<le> e" "e * int (tb_rate b) < 1000 * 2 ^ 63"
  shows "tb_gain b e = (e * int (tb_rate b)) div 1000"
proof -
  let ?x = "e * int (tb_rate b)"
  have "(?x * 1000000) div 1000000000 = ?x div 1000"
    using div_mult_mult2 [of 1000000 ?x 1000] by simp
  moreover have "in_i64 (?x div 1000)"
  proof -
    have "0 \<le> ?x" using assms(1) by simp
    then have "0 \<le> ?x div 1000" "?x div 1000 \<le> i64_max"
      using assms(2) div_mult_mod_eq [of ?x 1000] pos_mod_sign [of 1000 ?x] unfolding i64_max_def by (simp_all add: pos_imp_zdiv_nonneg_iff)
    then show ?thesis unfolding in_i64_def i64_min_def by simp
  qed
  ultimately show ?thesis using assms by (simp add: tb_gain_def kScale_def sdiv_pos)
qed

definition tb_wf :: "token_bucket \<Rightarrow> bool" where
  "tb_wf b \<longleftrightarrow> 0 \<le> tb_tokens b \<and> tb_tokens b \<le> tb_capacity b"

lemma tb_configure_fields [simp]:
  "tb_rate (tb_configure rate burst now b) = rate" "tb_last (tb_configure rate burst now b) = now"
  "tb_capacity (tb_configure rate burst now b) = int (if burst = 0 then rate else burst) * kScale"
  "tb_tokens (tb_configure rate burst now b) = tb_capacity (tb_configure rate burst now b)"
  by (simp_all add: tb_configure_def Let_def)

lemma tb_wf_configure: "tb_wf (tb_configure rate burst now b)"
  by (simp add: tb_wf_def kScale_def)

lemma refill_fields [simp]:
  "tb_rate (refill now b) = tb_rate b" "tb_capacity (refill now b) = tb_capacity b" "tb_last (refill now b) = max now (tb_last b)"
  by (simp_all add: refill_def Let_def max_def)

lemma refill_tokens:
  assumes "tb_wf b" "(max now (tb_last b) - tb_last b) * int (tb_rate b) < 1000 * 2 ^ 63"
  shows "tb_tokens (refill now b) = min (tb_capacity b) (tb_tokens b + ((max now (tb_last b) - tb_last b) * int (tb_rate b)) div 1000)"
    and "tb_wf (refill now b)"
proof -
  define e where "e = max now (tb_last b) - tb_last b"
  define x where "x = (e * int (tb_rate b)) div 1000"
  have e0: "0 \<le> e" by (simp add: e_def)
  have g: "tb_gain b e = x" unfolding x_def by (rule tb_gain_div [OF e0 assms(2) [folded e_def]])
  have x0: "0 \<le> x" using e0 by (simp add: x_def pos_imp_zdiv_nonneg_iff)
  have *: "tb_tokens (refill now b) = min (tb_capacity b) (tb_tokens b + x)"
  proof (cases "now \<le> tb_last b")
    case True
    then have "e = 0" by (simp add: e_def max_def)
    with True assms(1) show ?thesis by (simp add: refill_def tb_wf_def x_def)
  next
    case False
    then have "now - tb_last b = e" by (simp add: e_def max_def)
    with False g show ?thesis by (simp add: refill_def Let_def min_def)
  qed
  then show "tb_tokens (refill now b) = min (tb_capacity b) (tb_tokens b + ((max now (tb_last b) - tb_last b) * int (tb_rate b)) div 1000)"
    unfolding x_def e_def .
  show "tb_wf (refill now b)"
    using assms(1) x0 unfolding tb_wf_def * by simp
qed

lemma try_take_fields [simp]:
  "tb_rate (fst (try_take now b)) = tb_rate b" "tb_capacity (fst (try_take now b)) = tb_capacity b"
  "tb_rate b \<noteq> 0 \<Longrightarrow> tb_last (fst (try_take now b)) = max now (tb_last b)"
  by (simp_all add: try_take_def Let_def)

text \<open>One attempt: what is granted and what is left come from what was there and what the time brought.\<close>

lemma try_take_budget:
  assumes "tb_wf b" "tb_rate b \<noteq> 0" "(max now (tb_last b) - tb_last b) * int (tb_rate b) < 1000 * 2 ^ 63"
  defines "b' \<equiv> fst (try_take now b)" and "g \<equiv> snd (try_take now b)"
  shows "tb_wf b'" "1000 * (tb_tokens b' + (if g then kScale else 0)) \<le> 1000 * tb_tokens b + (tb_last b' - tb_last b) * int (tb_rate b)"
proof -
  note r = refill_tokens [OF assms(1,3)]
  have e: "g = (\<not> tb_tokens (refill now b) < kScale)" "tb_capacity b' = tb_capacity b"
    "tb_tokens b' = tb_tokens (refill now b) - (if g then kScale else 0)"
    using assms(2) by (auto simp: b'_def g_def try_take_def Let_def)
  show "tb_wf b'" using r(2) e unfolding tb_wf_def by (auto simp: kScale_def)
  have l: "tb_last b' = max now (tb_last b)" using assms(2) by (simp add: b'_def)
  have d: "1000 * (((max now (tb_last b) - tb_last b) * int (tb_rate b)) div 1000) \<le> (max now (tb_last b) - tb_last b) * int (tb_rate b)"
    using div_mult_mod_eq [of "(max now (tb_last b) - tb_last b) * int (tb_rate b)" 1000]
      pos_mod_sign [of 1000 "(max now (tb_last b) - tb_last b) * int (tb_rate b)"] by linarith
  show "1000 * (tb_tokens b' + (if g then kScale else 0)) \<le> 1000 * tb_tokens b + (tb_last b' - tb_last b) * int (tb_rate b)"
    using r(1) d unfolding l e(3) by (simp add: min_def split: if_splits)
qed

text \<open>Attempts at given times, and how many were granted.\<close>

fun takes :: "timestamp list \<Rightarrow> token_bucket \<Rightarrow> token_bucket \<times> nat" where
  "takes [] b = (b, 0)"
| "takes (t # ts) b =
     (let (b1, ok) = try_take t b; (b2, n) = takes ts b1 in (b2, n + (if ok then 1 else 0)))"

lemma takes_budget:
  assumes "tb_wf b" "tb_rate b \<noteq> 0" "tb_last b \<le> T" "\<And>t. t \<in> set ts \<Longrightarrow> t \<le> T" "(T - tb_last b) * int (tb_rate b) < 1000 * 2 ^ 63"
  defines "b' \<equiv> fst (takes ts b)" and "n \<equiv> snd (takes ts b)"
  shows "tb_wf b' \<and> tb_rate b' = tb_rate b \<and> tb_capacity b' = tb_capacity b \<and> tb_last b \<le> tb_last b' \<and> tb_last b' \<le> T \<and>
    1000 * (tb_tokens b' + kScale * int n) \<le> 1000 * tb_tokens b + (tb_last b' - tb_last b) * int (tb_rate b)"
  using assms(1-5) unfolding b'_def n_def
proof (induction ts arbitrary: b)
  case (Cons t ts)
  let ?b1 = "fst (try_take t b)"
  have m: "max t (tb_last b) \<le> T" using Cons.prems(3,4) by simp
  have mono: "(x - y) * int (tb_rate b) < 1000 * 2 ^ 63" if "x \<le> T" "tb_last b \<le> y" for x y
  proof -
    have "(x - y) * int (tb_rate b) \<le> (T - tb_last b) * int (tb_rate b)" using that by (intro mult_right_mono) simp_all
    with Cons.prems(5) show ?thesis by linarith
  qed
  have r: "(max t (tb_last b) - tb_last b) * int (tb_rate b) < 1000 * 2 ^ 63" using mono m by blast
  note s = try_take_budget [OF Cons.prems(1,2) r]
  have l: "tb_last ?b1 = max t (tb_last b)" using Cons.prems(2) by simp
  have IH: "tb_wf (fst (takes ts ?b1)) \<and> tb_rate (fst (takes ts ?b1)) = tb_rate ?b1 \<and> tb_capacity (fst (takes ts ?b1)) = tb_capacity ?b1 \<and>
      tb_last ?b1 \<le> tb_last (fst (takes ts ?b1)) \<and> tb_last (fst (takes ts ?b1)) \<le> T \<and>
      1000 * (tb_tokens (fst (takes ts ?b1)) + kScale * int (snd (takes ts ?b1))) \<le>
        1000 * tb_tokens ?b1 + (tb_last (fst (takes ts ?b1)) - tb_last ?b1) * int (tb_rate ?b1)"
    using s(1) Cons.prems(2,4) m mono l by (intro Cons.IH) simp_all
  show ?case using IH s(2) l by (auto simp: Let_def case_prod_beta algebra_simps)
qed simp

text \<open>C19: the rate limiter keeps its rate over every window. After any attempts \<open>xs\<close> since it was configured, the
  attempts \<open>ys\<close> up to a time \<open>T\<close> are granted at most the burst plus the rate times the length of the window that
  starts at the last of \<open>xs\<close>, whatever the order and the spacing of the attempts. (The window's refill has to fit 64
  bits, as the code's cast needs.)\<close>

theorem token_bucket_rate_bound:
  fixes rate burst :: nat and xs ys :: "timestamp list" and start T :: timestamp
  defines "b0 \<equiv> tb_configure rate burst start tb_new"
  defines "b \<equiv> fst (takes xs b0)"
  assumes "rate > 0" "\<And>t. t \<in> set (xs @ ys) \<Longrightarrow> t \<le> T" "start \<le> T" "(T - start) * int rate < 1000 * 2 ^ 63"
  shows "1000000000 * int (snd (takes ys b)) \<le> 1000000000 * int (if burst = 0 then rate else burst) + (T - tb_last b) * int rate"
proof -
  have 0: "tb_wf b0" "tb_rate b0 = rate" "tb_last b0 = start" "tb_capacity b0 = int (if burst = 0 then rate else burst) * kScale"
    by (simp_all add: b0_def tb_wf_configure)
  have 1: "tb_wf b \<and> tb_rate b = tb_rate b0 \<and> tb_capacity b = tb_capacity b0 \<and> tb_last b0 \<le> tb_last b \<and> tb_last b \<le> T \<and>
      1000 * (tb_tokens b + kScale * int (snd (takes xs b0))) \<le> 1000 * tb_tokens b0 + (tb_last b - tb_last b0) * int (tb_rate b0)"
    unfolding b_def using assms(3-6) 0 by (intro takes_budget) simp_all
  have "(T - tb_last b) * int (tb_rate b) \<le> (T - start) * int rate"
    using 1 0 by (auto intro!: mult_right_mono)
  then have r: "(T - tb_last b) * int (tb_rate b) < 1000 * 2 ^ 63" using assms(6) by linarith
  let ?b' = "fst (takes ys b)"
  have 2: "tb_wf ?b' \<and> tb_rate ?b' = tb_rate b \<and> tb_capacity ?b' = tb_capacity b \<and> tb_last b \<le> tb_last ?b' \<and> tb_last ?b' \<le> T \<and>
      1000 * (tb_tokens ?b' + kScale * int (snd (takes ys b))) \<le> 1000 * tb_tokens b + (tb_last ?b' - tb_last b) * int (tb_rate b)"
    using 1 0 assms(3,4) r by (intro takes_budget) simp_all
  have "(tb_last ?b' - tb_last b) * int (tb_rate b) \<le> (T - tb_last b) * int rate"
    using 1 2 0 by (auto intro!: mult_right_mono)
  moreover have "0 \<le> tb_tokens ?b'" "tb_tokens b \<le> int (if burst = 0 then rate else burst) * kScale"
    using 1 2 0 by (simp_all add: tb_wf_def)
  ultimately show ?thesis using 2 by (simp add: kScale_def)
qed

text \<open>Two orders a second with a burst of three: of five attempts within a second at most five are granted.\<close>

theorem token_bucket_rate_bound_witness:
  "1000000000 * int (snd (takes [1100, 1200, 500000000, 900000000, 1000000000] (fst (takes [1000] (tb_configure 2 3 500 tb_new))))) \<le>
     1000000000 * int 3 + (1000000000 - tb_last (fst (takes [1000] (tb_configure 2 3 500 tb_new)))) * int 2"
  using token_bucket_rate_bound [where rate = 2 and burst = 3 and xs = "[1000]" and ys = "[1100, 1200, 500000000, 900000000, 1000000000]" and T = 1000000000 and start = 500] by fastforce

lemma ceil_div:
  fixes n d :: int
  assumes "0 < d" "0 < n"
  shows "n \<le> ((n + d - 1) sdiv d) * d" "0 \<le> (n + d - 1) sdiv d"
proof -
  have "0 \<le> n + d - 1" using assms by simp
  then have e: "(n + d - 1) sdiv d = (n + d - 1) div d" using assms by (simp add: sdiv_pos)
  have "(n + d - 1) mod d < d" using assms(1) by simp
  then show "n \<le> ((n + d - 1) sdiv d) * d" unfolding e using div_mult_mod_eq [of "n + d - 1" d] by linarith
  show "0 \<le> (n + d - 1) sdiv d" unfolding e using assms by (simp add: pos_imp_zdiv_nonneg_iff)
qed

text \<open>The wait brings what is missing to a whole token.\<close>

lemma wait_ns_enough:
  assumes "tb_wf b" "tb_rate b \<noteq> 0" "tb_last b \<le> now" "(now - tb_last b) * int (tb_rate b) < 1000 * 2 ^ 63"
  defines "t \<equiv> tb_tokens b + ((now - tb_last b) * int (tb_rate b)) div 1000"
  shows "0 \<le> wait_ns now b" "1000 * (kScale - t) \<le> wait_ns now b * int (tb_rate b)"
proof -
  have g: "(if now > tb_last b then tb_tokens b + tb_gain b (now - tb_last b) else tb_tokens b) = t"
    using assms(3) tb_gain_div [OF _ assms(4)] by (simp add: t_def)
  have t0: "0 \<le> t" using assms(1,3) by (simp add: t_def tb_wf_def pos_imp_zdiv_nonneg_iff)
  have "0 \<le> wait_ns now b \<and> 1000 * (kScale - t) \<le> wait_ns now b * int (tb_rate b)"
  proof (cases "t \<ge> kScale")
    case True
    then show ?thesis using assms(2) g by (simp add: wait_ns_def Let_def)
  next
    case False
    define n where "n = (kScale - t) * 1000000000"
    define d where "d = int (tb_rate b) * kScale"
    have p: "0 < d" "0 < n" "n \<le> 1000000000000000" using assms(2) False t0 by (simp_all add: n_def d_def kScale_def)
    note c = ceil_div [OF p(1,2)]
    have "\<bar>(n + d - 1) sdiv d\<bar> \<le> n"
    proof -
      have "(n + d - 1) sdiv d = (n + d - 1) div d" using p by (simp add: sdiv_pos)
      also have "\<dots> = (n - 1) div d + 1" using p div_add_self2 [of d "n - 1"] by (simp add: algebra_simps)
      also have "\<dots> \<le> (n - 1) + 1" using p zdiv_mono2 [of "n - 1" 1 d] by simp
      finally show ?thesis using c(2) by simp
    qed
    then have "in_i64 ((n + d - 1) sdiv d)" using p(3) c(2) unfolding in_i64_def i64_min_def i64_max_def by simp
    then have w: "wait_ns now b = (n + d - 1) sdiv d"
      using assms(2) g False by (simp add: wait_ns_def Let_def n_def d_def)
    have nd: "n \<le> wait_ns now b * d" using c(1) w by simp
    have "1000 * (kScale - t) * kScale \<le> (wait_ns now b * int (tb_rate b)) * kScale"
      using nd unfolding n_def d_def by (simp add: kScale_def algebra_simps)
    then have "1000 * (kScale - t) \<le> wait_ns now b * int (tb_rate b)" by (simp add: kScale_def)
    with c(2) w show ?thesis by simp
  qed
  then show "0 \<le> wait_ns now b" "1000 * (kScale - t) \<le> wait_ns now b * int (tb_rate b)" by simp_all
qed

lemma take_after_wait:
  assumes "tb_wf b" "tb_rate b \<noteq> 0" "tb_last b \<le> now" "kScale \<le> tb_capacity b" "now + wait_ns now b \<le> later"
    "(later - tb_last b) * int (tb_rate b) < 1000 * 2 ^ 63" "now \<le> later"
  shows "snd (try_take later b)"
proof -
  define r where "r = int (tb_rate b)"
  define x where "x = (now - tb_last b) * r"
  define w where "w = (later - now) * r"
  have xw: "(later - tb_last b) * r = x + w" by (simp add: x_def w_def algebra_simps)
  have "0 \<le> w" using assms(7) by (simp add: w_def r_def)
  then have x: "x < 1000 * 2 ^ 63" using assms(6) xw unfolding r_def by linarith
  note e = wait_ns_enough [OF assms(1-3) x [unfolded x_def r_def], folded r_def, folded x_def]
  have "wait_ns now b * r \<le> w" using assms(5) unfolding w_def r_def by (intro mult_right_mono) simp_all
  with e(2) have "1000 * (kScale - tb_tokens b) \<le> 1000 * (x div 1000) + w" by simp
  moreover have "1000 * (x div 1000) \<le> x" using div_mult_mod_eq [of x 1000] pos_mod_sign [of 1000 x] by linarith
  ultimately have "kScale - tb_tokens b \<le> (x + w) div 1000" by (simp add: zdiv_mono1 [of "1000 * (kScale - tb_tokens b)" "x + w" 1000, simplified])
  moreover have m: "max later (tb_last b) = later" using assms(3,7) by simp
  then have "tb_tokens (refill later b) = min (tb_capacity b) (tb_tokens b + (x + w) div 1000)"
    using refill_tokens(1) [OF assms(1), of later] assms(6) xw by (simp add: r_def)
  ultimately have "kScale \<le> tb_tokens (refill later b)" using assms(4) by simp
  then show ?thesis using assms(2) by (simp add: try_take_def Let_def)
qed

text \<open>Waiting as long as \<^verbatim>\<open>wait_ns\<close> says is enough: an attempt then, or at any later time, is granted, for every
  bucket that attempts since it was configured can have left.\<close>

theorem wait_ns_suffices:
  fixes rate burst :: nat and xs :: "timestamp list" and start now later :: timestamp
  defines "b \<equiv> fst (takes xs (tb_configure rate burst start tb_new))"
  assumes "rate > 0" "\<And>t. t \<in> set xs \<Longrightarrow> t \<le> now" "start \<le> now" "now + wait_ns now b \<le> later" "(later - start) * int rate < 1000 * 2 ^ 63" "now \<le> later"
  shows "snd (try_take later b)"
proof -
  define b0 where "b0 = tb_configure rate burst start tb_new"
  have 0: "tb_wf b0" "tb_rate b0 = rate" "tb_last b0 = start" "tb_capacity b0 = int (if burst = 0 then rate else burst) * kScale"
    by (simp_all add: b0_def tb_wf_configure)
  have "(now - start) * int rate \<le> (later - start) * int rate" using assms(7) by (intro mult_right_mono) simp_all
  then have r: "(now - start) * int rate < 1000 * 2 ^ 63" using assms(6) by linarith
  have 1: "tb_wf b \<and> tb_rate b = tb_rate b0 \<and> tb_capacity b = tb_capacity b0 \<and> tb_last b0 \<le> tb_last b \<and> tb_last b \<le> now \<and>
      1000 * (tb_tokens b + kScale * int (snd (takes xs b0))) \<le> 1000 * tb_tokens b0 + (tb_last b - tb_last b0) * int (tb_rate b0)"
    unfolding b_def b0_def [symmetric] using assms(2-4) 0 r by (intro takes_budget) simp_all
  have "(later - tb_last b) * int (tb_rate b) \<le> (later - start) * int rate" using 1 0 by (auto intro!: mult_right_mono)
  then have "(later - tb_last b) * int (tb_rate b) < 1000 * 2 ^ 63" using assms(6) by linarith
  moreover have "kScale \<le> tb_capacity b" using 1 0 assms(2) by (simp add: kScale_def)
  ultimately show ?thesis using 1 0 assms(2,5,7) by (intro take_after_wait [of b now later]) simp_all
qed

text \<open>One order a second, the token taken at 0: a second later the next one is granted.\<close>

theorem wait_ns_suffices_witness:
  "wait_ns 0 (fst (takes [0] (tb_configure 1 1 0 tb_new))) = 1000000000 \<and>
   snd (try_take 1000000000 (fst (takes [0] (tb_configure 1 1 0 tb_new))))"
proof -
  have w: "wait_ns 0 (fst (takes [0] (tb_configure 1 1 0 tb_new))) = 1000000000"
    by (simp add: tb_configure_def try_take_def refill_def wait_ns_def kScale_def Let_def sdiv_pos in_i64_def i64_min_def i64_max_def)
  show ?thesis
    using wait_ns_suffices [where rate = 1 and burst = 1 and xs = "[0]" and now = 0 and start = 0 and later = 1000000000] w by simp
qed

text \<open>The refill drops the fraction of a token and still moves its reference time: attempts close enough together
  (\<open>gap\<close> nanoseconds apart with less than one millionth of a token each) leave an empty bucket empty for ever.\<close>

lemma refill_starves:
  assumes "tb_wf b" "tb_rate b \<noteq> 0" "tb_tokens b < kScale" "0 < gap" "gap * int (tb_rate b) < 1000"
  shows "snd (takes (map (\<lambda>k. tb_last b + gap * (int k + 1)) [0..<n]) b) = 0"
proof -
  have "takes (map (\<lambda>k. tb_last b + gap * (int k + 1)) [0..<n]) b = (b\<lparr>tb_last := tb_last b + gap * int n\<rparr>, 0)"
    using assms
  proof (induction n arbitrary: b)
    case (Suc n)
    have g: "tb_gain b gap = 0" using Suc.prems(4,5) tb_gain_div [of gap b] by simp
    let ?b1 = "b\<lparr>tb_last := tb_last b + gap\<rparr>"
    have r: "refill (tb_last b + gap) b = ?b1" using Suc.prems(1,4) g by (simp add: refill_def Let_def tb_wf_def)
    have t: "try_take (tb_last b + gap) b = (?b1, False)" using Suc.prems(2,3) r by (simp add: try_take_def Let_def)
    have "takes (map (\<lambda>k. tb_last ?b1 + gap * (int k + 1)) [0..<n]) ?b1 = (?b1\<lparr>tb_last := tb_last ?b1 + gap * int n\<rparr>, 0)"
      using Suc.prems by (intro Suc.IH) (simp_all add: tb_wf_def)
    moreover have "map (\<lambda>k. tb_last b + gap * (int k + 1)) [0..<Suc n] =
        (tb_last b + gap) # map (\<lambda>k. tb_last ?b1 + gap * (int k + 1)) [0..<n]"
      by (subst map_upt_Suc) (simp add: algebra_simps)
    ultimately show ?case using t by (simp add: algebra_simps)
  qed simp
  then show ?thesis by simp
qed

end
