(* ===== verification/Plans.thy ===== *)
theory Plans
  imports Instrument
begin

text \<open>
  \<^verbatim>\<open>src/core/underlying.cpp\<close> and \<^verbatim>\<open>src/core/fx.cpp\<close>: the plans the risk engine and the position tracker run with,
  built from the instrument table and the configuration. A configuration map (\<^verbatim>\<open>std::map\<close>) is the list of its
  entries in key order; an error message is a constructor with the values the message names.
\<close>

section \<open>Underlyings\<close>

datatype underlying_error =
    TooManyUnderlyings | BadUnderlyingName string | NamedTwice string | BadMaxNet string string
  | NoUnderlyingInstrument string bool

definition underlying_plan_empty :: underlying_plan where
  "underlying_plan_empty =
     \<lparr>up_count = 0, up_names = (\<lambda>_. []), up_max_net = (\<lambda>_. 0), up_of = (\<lambda>_. 0), up_members = (\<lambda>_. 0), up_begin = (\<lambda>_. 0)\<rparr>"

definition up_find :: "underlying_plan \<Rightarrow> string \<Rightarrow> nat option" where
  "up_find p name = find (\<lambda>u. same_currency (up_names p u) name) [0..<up_count p]"

text \<open>One instrument of the loop over the table, and one entry of the configuration.\<close>

definition up_scan ::
  "nat \<Rightarrow> string \<Rightarrow> instrument \<Rightarrow> underlying_plan \<times> nat \<times> bool \<Rightarrow> underlying_plan \<times> nat \<times> bool" where
  "up_scan u name inst st =
     (case st of (p, n, options) \<Rightarrow>
        if \<not> same_currency (in_base inst) name then (p, n, options)
        else if \<not> counts_toward_underlying inst then (p, n, True)
        else (p\<lparr>up_of := (up_of p)(in_id inst := u + 1), up_members := (up_members p)(n := in_id inst)\<rparr>, n + 1, options))"

definition parse_max_net :: "string \<Rightarrow> qty option" where
  "parse_max_net t =
     (if t = [] then Some 0
      else (case from_decimal t of None \<Rightarrow> None | Some q \<Rightarrow> if q < 0 then None else Some q))"

fun up_build ::
  "instrument list \<Rightarrow> (string \<times> string) list \<Rightarrow> underlying_plan \<Rightarrow> nat \<Rightarrow> underlying_error + underlying_plan" where
  "up_build table [] p n = Inr p"
| "up_build table ((name, t) # rest) p n =
     (if name = [] \<or> length name > kCurrencyCapacity then Inl (BadUnderlyingName name)
      else if up_find p name \<noteq> None then Inl (NamedTwice name)
      else (case parse_max_net t of
              None \<Rightarrow> Inl (BadMaxNet name t)
            | Some max_net \<Rightarrow>
                (let u = up_count p;
                     p1 = p\<lparr>up_count := u + 1, up_names := (up_names p)(u := fixed_string kCurrencyCapacity name),
                            up_max_net := (up_max_net p)(u := max_net), up_begin := (up_begin p)(u := n)\<rparr>;
                     (p2, n2, options) = fold (up_scan u name) table (p1, n, False);
                     p3 = p2\<lparr>up_begin := (up_begin p2)(u + 1 := n2)\<rparr>
                 in if up_begin p3 u = n2 then Inl (NoUnderlyingInstrument name options)
                    else up_build table rest p3 n2)))"

definition build_underlying_plan ::
  "instrument_table \<Rightarrow> (string \<times> string) list \<Rightarrow> underlying_error + underlying_plan" where
  "build_underlying_plan t spec =
     (if spec = [] then Inr underlying_plan_empty
      else if length spec > kMaxUnderlyings then Inl TooManyUnderlyings
      else up_build (it_by_id t) spec underlying_plan_empty 0)"

section \<open>Currencies\<close>

record accounting_spec =
  as_reporting :: string
  as_fx :: "(string \<times> string) list"
  as_stale_fx_ms :: int

datatype fx_plan_error =
    ReportingTooLong string | SourceFormat string string | SourceUnknown string string
  | SourceWrongPair string string | NoSettlementCurrency string | NoFxSource string string | TooManyCurrencies

definition fx_source_none :: fx_source where
  "fx_source_none = \<lparr>fs_instrument = None, fs_invert = False\<rparr>"

definition fx_plan_empty :: fx_plan where
  "fx_plan_empty =
     \<lparr>fp_count = 0, fp_names = (\<lambda>_. []), fp_sources = (\<lambda>_. fx_source_none), fp_ccy = (\<lambda>_. 0), fp_prices = (\<lambda>_. 0), fp_stale = 0\<rparr>"

definition find_slot :: "fx_plan \<Rightarrow> string \<Rightarrow> nat option" where
  "find_slot p ccy = find (\<lambda>i. fp_names p i = ccy) [0..<fp_count p]"

text \<open>\<^verbatim>\<open>"venue:symbol"\<close> at its first colon; neither part may be empty.\<close>

definition split_source :: "string \<Rightarrow> (string \<times> string) option" where
  "split_source w =
     (let v = takeWhile (\<lambda>c. c \<noteq> CHR '':'') w; r = dropWhile (\<lambda>c. c \<noteq> CHR '':'') w
      in if r = [] \<or> v = [] \<or> tl r = [] then None else Some (v, tl r))"

fun find_on_venue :: "instrument_table \<Rightarrow> string list \<Rightarrow> venue_id \<Rightarrow> string \<Rightarrow> string \<Rightarrow> instrument option" where
  "find_on_venue t [] v venue symbol = None"
| "find_on_venue t (name # names) v venue symbol =
     (case (if name = venue then it_find t v symbol else None) of
        Some inst \<Rightarrow> Some inst
      | None \<Rightarrow> find_on_venue t names (v + 1) venue symbol)"

definition resolve_source ::
  "instrument_table \<Rightarrow> string list \<Rightarrow> string \<Rightarrow> string \<times> string \<Rightarrow> fx_plan_error + string \<times> fx_source" where
  "resolve_source t venues rep entry =
     (case entry of (ccy, w) \<Rightarrow>
        (case split_source w of
           None \<Rightarrow> Inl (SourceFormat ccy w)
         | Some (venue, symbol) \<Rightarrow>
             (case find_on_venue t venues 0 venue symbol of
                None \<Rightarrow> Inl (SourceUnknown ccy w)
              | Some inst \<Rightarrow>
                  if in_base inst = ccy \<and> in_quote inst = rep
                  then Inr (ccy, \<lparr>fs_instrument = Some (in_id inst), fs_invert = False\<rparr>)
                  else if in_base inst = rep \<and> in_quote inst = ccy
                  then Inr (ccy, \<lparr>fs_instrument = Some (in_id inst), fs_invert = True\<rparr>)
                  else Inl (SourceWrongPair ccy w))))"

fun resolve_sources ::
  "instrument_table \<Rightarrow> string list \<Rightarrow> string \<Rightarrow> (string \<times> string) list \<Rightarrow> fx_plan_error + (string \<times> fx_source) list" where
  "resolve_sources t venues rep [] = Inr []"
| "resolve_sources t venues rep (x # xs) =
     (case resolve_source t venues rep x of
        Inl e \<Rightarrow> Inl e
      | Inr s \<Rightarrow> (case resolve_sources t venues rep xs of Inl e \<Rightarrow> Inl e | Inr ss \<Rightarrow> Inr (s # ss)))"

definition add_currency :: "string \<Rightarrow> fx_source option \<Rightarrow> fx_plan \<Rightarrow> fx_plan" where
  "add_currency sc src p =
     p\<lparr>fp_count := fp_count p + 1, fp_names := (fp_names p)(fp_count p := fixed_string kCurrencyCapacity sc),
       fp_sources := (fp_sources p)(fp_count p := (case src of Some s \<Rightarrow> s | None \<Rightarrow> fx_source_none))\<rparr>"

definition set_ccy :: "instrument_id \<Rightarrow> nat \<Rightarrow> fx_plan \<Rightarrow> fx_plan" where
  "set_ccy i slot p = p\<lparr>fp_ccy := (fp_ccy p)(i := slot)\<rparr>"

fun assign_currencies :: "bool \<Rightarrow> (string \<times> fx_source) list \<Rightarrow> instrument list \<Rightarrow> fx_plan \<Rightarrow> fx_plan_error + fx_plan" where
  "assign_currencies all_inst sources [] p = Inr p"
| "assign_currencies all_inst sources (inst # insts) p =
     (let required = (all_inst \<or> enabled inst); sc = settlement_ccy inst; src = map_of sources sc in
      if sc = [] \<and> required then Inl (NoSettlementCurrency (in_symbol inst))
      else (case find_slot p sc of
              Some slot \<Rightarrow> assign_currencies all_inst sources insts (set_ccy (in_id inst) slot p)
            | None \<Rightarrow>
                if src = None \<and> required then Inl (NoFxSource (in_symbol inst) sc)
                else if fp_count p = kMaxCurrencies then Inl TooManyCurrencies
                else assign_currencies all_inst sources insts (set_ccy (in_id inst) (fp_count p) (add_currency sc src p))))"

definition set_price :: "nat \<Rightarrow> fx_plan \<Rightarrow> fx_plan" where
  "set_price c p =
     (case fs_instrument (fp_sources p c) of
        Some i \<Rightarrow> p\<lparr>fp_prices := (fp_prices p)(i := c + 1)\<rparr>
      | None \<Rightarrow> p)"

definition build_fx_plan :: "instrument_table \<Rightarrow> accounting_spec \<Rightarrow> string list \<Rightarrow> bool \<Rightarrow> fx_plan_error + fx_plan" where
  "build_fx_plan t spec venues all_inst =
     (let rep = as_reporting spec in
      if rep = [] then Inr fx_plan_empty
      else if length rep > kCurrencyCapacity then Inl (ReportingTooLong rep)
      else (let p = fx_plan_empty\<lparr>fp_count := 1, fp_names := (\<lambda>_. [])(0 := fixed_string kCurrencyCapacity rep),
                                  fp_stale := as_stale_fx_ms spec * 1000000\<rparr>
            in case resolve_sources t venues rep (as_fx spec) of
                 Inl e \<Rightarrow> Inl e
               | Inr sources \<Rightarrow>
                   (case assign_currencies all_inst sources (it_by_id t) p of
                      Inl e \<Rightarrow> Inl e
                    | Inr q \<Rightarrow> Inr (fold set_price [1..<fp_count q] q))))"

text \<open>The plan a session runs with; the error of a table that is not covered is only a warning unless a limit reads
  the totals.\<close>

definition session_fx_plan ::
  "instrument_table \<Rightarrow> accounting_spec \<Rightarrow> string list \<Rightarrow> bool \<Rightarrow> bool \<Rightarrow> fx_plan_error + (fx_plan \<times> fx_plan_error option)" where
  "session_fx_plan t spec venues all_inst guarded =
     (case build_fx_plan t spec venues all_inst of
        Inr p \<Rightarrow> Inr (p, None)
      | Inl e \<Rightarrow> if guarded then Inl e else Inr (fx_plan_empty, Some e))"

end
