(* ===== verification/PlansProps.thy ===== *)
theory PlansProps
  imports Plans
begin

unbundle bit_operations_syntax

text \<open>
  The plans are right: every slot of an FX plan names the settlement currency of its instruments and its source prices
  that currency, and the members of an underlying are the instruments of the table that count towards it.
\<close>

section \<open>The instrument table\<close>

text \<open>A table is what adding instruments to an empty one gives; a refused instrument leaves it.\<close>

definition it_load :: "instrument list \<Rightarrow> instrument_table" where
  "it_load insts = fold (\<lambda>inst t. fst (it_add inst t)) insts it_new"

definition it_wf :: "instrument_table \<Rightarrow> bool" where
  "it_wf t \<longleftrightarrow> length (it_by_id t) \<le> kMaxInstruments \<and>
     (\<forall>i<length (it_by_id t). let inst = it_by_id t ! i in
        in_id inst = i \<and> in_tick inst > 0 \<and> in_lot inst > 0 \<and> it_by_symbol t (in_venue inst, in_symbol inst) = Some i) \<and>
     (\<forall>k i. it_by_symbol t k = Some i \<longrightarrow> i < length (it_by_id t) \<and>
        k = (in_venue (it_by_id t ! i), in_symbol (it_by_id t ! i)))"

lemma it_wf_new: "it_wf it_new"
  by (simp add: it_wf_def it_new_def)

definition it_insert :: "instrument \<Rightarrow> instrument_table \<Rightarrow> instrument_table" where
  "it_insert inst t = \<lparr>it_by_id = it_by_id t @ [inst\<lparr>in_id := length (it_by_id t)\<rparr>],
     it_by_symbol = (it_by_symbol t)((in_venue inst, in_symbol inst) \<mapsto> length (it_by_id t))\<rparr>"

lemma it_add_cases:
  "fst (it_add inst t) = t \<or>
   in_tick inst > 0 \<and> in_lot inst > 0 \<and> length (it_by_id t) \<noteq> kMaxInstruments \<and> it_by_symbol t (in_venue inst, in_symbol inst) = None \<and>
   fst (it_add inst t) = it_insert inst t"
  by (simp add: it_add_def it_insert_def Let_def)

lemma it_insert_wf:
  assumes "it_wf t" and a: "in_tick inst > 0" "in_lot inst > 0" "length (it_by_id t) \<noteq> kMaxInstruments"
    "it_by_symbol t (in_venue inst, in_symbol inst) = None"
  shows "it_wf (it_insert inst t)"
proof -
  let ?k = "(in_venue inst, in_symbol inst)" and ?x = "inst\<lparr>in_id := length (it_by_id t)\<rparr>"
  have t: "length (it_by_id t) \<le> kMaxInstruments"
    "\<And>i. i < length (it_by_id t) \<Longrightarrow> in_id (it_by_id t ! i) = i \<and> in_tick (it_by_id t ! i) > 0 \<and> in_lot (it_by_id t ! i) > 0 \<and>
       it_by_symbol t (in_venue (it_by_id t ! i), in_symbol (it_by_id t ! i)) = Some i"
    "\<And>k i. it_by_symbol t k = Some i \<Longrightarrow> i < length (it_by_id t) \<and> k = (in_venue (it_by_id t ! i), in_symbol (it_by_id t ! i))"
    using assms(1) unfolding it_wf_def Let_def by blast+
  have nth: "(it_by_id t @ [?x]) ! i = (if i < length (it_by_id t) then it_by_id t ! i else ?x)" if "i \<le> length (it_by_id t)" for i
    using that by (auto simp: nth_append)
  show ?thesis
    unfolding it_insert_def it_wf_def instrument_table.select_convs Let_def
  proof (intro conjI allI impI)
    show "length (it_by_id t @ [?x]) \<le> kMaxInstruments" using t(1) a(3) by simp
  next
    fix i assume i: "i < length (it_by_id t @ [?x])"
    then show "in_id ((it_by_id t @ [?x]) ! i) = i" "in_tick ((it_by_id t @ [?x]) ! i) > 0" "in_lot ((it_by_id t @ [?x]) ! i) > 0"
      using t(2) [of i] a(1,2) by (simp_all add: nth)
    show "((it_by_symbol t)(?k \<mapsto> length (it_by_id t))) (in_venue ((it_by_id t @ [?x]) ! i), in_symbol ((it_by_id t @ [?x]) ! i)) = Some i"
      using i t(2) [of i] a(4) by (cases "i < length (it_by_id t)") (auto simp: nth)
  next
    fix k i assume k: "((it_by_symbol t)(?k \<mapsto> length (it_by_id t))) k = Some i"
    show "i < length (it_by_id t @ [?x])" using k t(3) [of k i] by (cases "k = ?k") auto
    show "k = (in_venue ((it_by_id t @ [?x]) ! i), in_symbol ((it_by_id t @ [?x]) ! i))"
      using k t(3) [of k i] by (cases "k = ?k") (auto simp: nth)
  qed
qed

lemma it_add_wf: "it_wf t \<Longrightarrow> it_wf (fst (it_add inst t))"
  using it_add_cases [of inst t] it_insert_wf [of t inst] by metis

lemma it_load_wf: "it_wf (it_load insts)"
proof -
  have "it_wf t \<Longrightarrow> it_wf (fold (\<lambda>inst t. fst (it_add inst t)) insts t)" for t
    by (induction insts arbitrary: t) (simp_all add: it_add_wf)
  then show ?thesis by (simp add: it_load_def it_wf_new)
qed

lemma it_ids: "it_wf t \<Longrightarrow> map in_id (it_by_id t) = [0..<length (it_by_id t)]"
  by (rule nth_equalityI) (simp_all add: it_wf_def Let_def)

lemma it_find_wf: "it_wf t \<Longrightarrow> it_find t v name = Some inst \<Longrightarrow> \<exists>i<length (it_by_id t). inst = it_by_id t ! i"
proof -
  assume w: "it_wf t" and f: "it_find t v name = Some inst"
  from f obtain i where s: "it_by_symbol t (v, fixed_string kSymbolCapacity name) = Some i" "inst = it_by_id t ! i"
    by (auto simp: it_find_def split: option.splits)
  from w have "\<forall>k i. it_by_symbol t k = Some i \<longrightarrow> i < length (it_by_id t)" unfolding it_wf_def by blast
  with s show ?thesis by blast
qed

section \<open>Names\<close>

lemma same_currency_map: "same_currency a b \<longleftrightarrow> map up_char a = map up_char b"
  by (auto simp: same_currency_def list_eq_iff_nth_eq)

section \<open>The FX plan\<close>

text \<open>A source of currency \<open>ccy\<close>: an instrument of the table that prices it in \<open>rep\<close>, one way round or the other.\<close>

definition prices_pair :: "instrument_table \<Rightarrow> string \<Rightarrow> string \<Rightarrow> fx_source \<Rightarrow> bool" where
  "prices_pair t rep ccy s \<longleftrightarrow> (\<exists>i<length (it_by_id t). fs_instrument s = Some i \<and>
     (if fs_invert s then in_base (it_by_id t ! i) = rep \<and> in_quote (it_by_id t ! i) = ccy
      else in_base (it_by_id t ! i) = ccy \<and> in_quote (it_by_id t ! i) = rep))"

lemma find_on_venue_wf:
  "it_wf t \<Longrightarrow> find_on_venue t names v venue symbol = Some inst \<Longrightarrow> \<exists>i<length (it_by_id t). inst = it_by_id t ! i"
proof (induction names arbitrary: v)
  case (Cons name names)
  then show ?case using it_find_wf [of t v symbol inst] by (auto split: option.splits if_splits)
qed simp

lemma resolve_source_pair:
  assumes "it_wf t" "resolve_source t venues rep (ccy, w) = Inr (c, s)"
  shows "c = ccy \<and> prices_pair t rep ccy s"
proof -
  from assms(2) obtain inst venue symbol where f: "find_on_venue t venues 0 venue symbol = Some inst"
    and o: "c = ccy" "fs_instrument s = Some (in_id inst)"
      "if fs_invert s then in_base inst = rep \<and> in_quote inst = ccy else in_base inst = ccy \<and> in_quote inst = rep"
    by (auto simp: resolve_source_def split: option.splits if_splits)
  from find_on_venue_wf [OF assms(1) f] obtain i where i: "i < length (it_by_id t)" "inst = it_by_id t ! i" by blast
  have "in_id inst = i" using assms(1) i by (simp add: it_wf_def Let_def)
  with i o show ?thesis unfolding prices_pair_def by auto
qed

lemma resolve_sources_pair:
  "it_wf t \<Longrightarrow> resolve_sources t venues rep xs = Inr ss \<Longrightarrow> map_of ss ccy = Some s \<Longrightarrow> prices_pair t rep ccy s"
proof (induction xs arbitrary: ss)
  case (Cons x xs)
  obtain c w where x: "x = (c, w)" by fastforce
  from Cons.prems(2) obtain y ys where y: "resolve_source t venues rep x = Inr y" "resolve_sources t venues rep xs = Inr ys" "ss = y # ys"
    by (auto split: sum.splits)
  obtain c' s' where y': "y = (c', s')" by fastforce
  have "c' = c" "prices_pair t rep c s'" using resolve_source_pair [OF Cons.prems(1), of venues rep c w c' s'] y(1) x y' by auto
  then show ?case using Cons.IH [OF Cons.prems(1) y(2)] Cons.prems(3) y(3) y' by (auto split: if_splits)
qed simp

text \<open>The plan while the table is scanned: the names are the currencies found so far, each other than the first with its
  source, when the configuration has one.\<close>

definition source_or_none :: "(string \<times> fx_source) list \<Rightarrow> string \<Rightarrow> fx_source" where
  "source_or_none sources ccy = (case map_of sources ccy of Some s \<Rightarrow> s | None \<Rightarrow> fx_source_none)"

definition plan_ok :: "string \<Rightarrow> (string \<times> fx_source) list \<Rightarrow> fx_plan \<Rightarrow> bool" where
  "plan_ok rep sources p \<longleftrightarrow> 0 < fp_count p \<and> fp_count p \<le> kMaxCurrencies \<and> fp_names p 0 = rep \<and> (\<forall>i. fp_ccy p i < fp_count p) \<and>
     (\<forall>c<fp_count p. 0 < c \<longrightarrow> fp_sources p c = source_or_none sources (fp_names p c))"

definition all_sourced :: "(string \<times> fx_source) list \<Rightarrow> fx_plan \<Rightarrow> bool" where
  "all_sourced sources p \<longleftrightarrow> (\<forall>c<fp_count p. 0 < c \<longrightarrow> map_of sources (fp_names p c) \<noteq> None)"

lemma set_ccy_fields [simp]:
  "fp_count (set_ccy i c p) = fp_count p" "fp_names (set_ccy i c p) = fp_names p" "fp_sources (set_ccy i c p) = fp_sources p"
  "fp_ccy (set_ccy i c p) = (fp_ccy p)(i := c)"
  by (simp_all add: set_ccy_def)

lemma add_currency_fields [simp]:
  "fp_count (add_currency sc src p) = fp_count p + 1" "fp_ccy (add_currency sc src p) = fp_ccy p"
  "fp_names (add_currency sc src p) = (fp_names p)(fp_count p := fixed_string kCurrencyCapacity sc)"
  "fp_sources (add_currency sc src p) = (fp_sources p)(fp_count p := (case src of Some s \<Rightarrow> s | None \<Rightarrow> fx_source_none))"
  by (simp_all add: add_currency_def)

lemma plan_ok_set_ccy:
  "plan_ok rep sources p \<Longrightarrow> c < fp_count p \<Longrightarrow> plan_ok rep sources (set_ccy i c p)"
  "all_sourced sources p \<Longrightarrow> all_sourced sources (set_ccy i c p)"
  by (simp_all add: plan_ok_def all_sourced_def)

lemma plan_ok_add:
  fixes i :: instrument_id
  assumes "plan_ok rep sources p" "fp_count p \<noteq> kMaxCurrencies" "length sc \<le> kCurrencyCapacity"
  defines "q \<equiv> set_ccy i (fp_count p) (add_currency sc (map_of sources sc) p)"
  shows "plan_ok rep sources q" "map_of sources sc \<noteq> None \<Longrightarrow> all_sourced sources p \<Longrightarrow> all_sourced sources q"
proof -
  have q: "fp_count q = Suc (fp_count p)" "fp_names q = (fp_names p)(fp_count p := sc)" "fp_ccy q = (fp_ccy p)(i := fp_count p)"
    "fp_sources q = (fp_sources p)(fp_count p := source_or_none sources sc)"
    using assms(3) by (simp_all add: q_def fixed_string_def source_or_none_def)
  note p = assms(1) [unfolded plan_ok_def]
  have "fp_ccy q j < fp_count q" for j using p by (simp add: q less_Suc_eq)
  moreover have "fp_sources q c = source_or_none sources (fp_names q c)" if "c < fp_count q" "0 < c" for c
    using that p by (cases "c = fp_count p") (simp_all add: q)
  ultimately show "plan_ok rep sources q" using p assms(2) unfolding plan_ok_def by (simp add: q)
  show "all_sourced sources q" if "map_of sources sc \<noteq> None" "all_sourced sources p"
    unfolding all_sourced_def
  proof (intro allI impI)
    fix c assume "c < fp_count q" "0 < c"
    then show "map_of sources (fp_names q c) \<noteq> None"
      using that by (cases "c = fp_count p") (simp_all add: q all_sourced_def)
  qed
qed

lemma find_slot_None: "find_slot p sc = None \<Longrightarrow> i < fp_count p \<Longrightarrow> fp_names p i \<noteq> sc"
  and find_slot_Some: "find_slot p sc = Some i \<Longrightarrow> i < fp_count p \<and> fp_names p i = sc"
  by (simp_all add: find_slot_def find_None_iff find_Some_iff) auto

text \<open>What a scan of \<open>insts\<close> keeps and adds: the names of the slots stay, and each instrument has a slot with its own
  settlement currency.\<close>

definition scanned :: "instrument list \<Rightarrow> fx_plan \<Rightarrow> fx_plan \<Rightarrow> bool" where
  "scanned insts p q \<longleftrightarrow> fp_count p \<le> fp_count q \<and> (\<forall>c<fp_count p. fp_names q c = fp_names p c) \<and>
     (\<forall>i. i \<notin> in_id ` set insts \<longrightarrow> fp_ccy q i = fp_ccy p i) \<and>
     (\<forall>inst\<in>set insts. fp_names q (fp_ccy q (in_id inst)) = settlement_ccy inst)"

lemma scanned_Cons:
  assumes "scanned insts (set_ccy (in_id inst) c p') q" "c < fp_count p'" "fp_names p' c = settlement_ccy inst" "in_id inst \<notin> in_id ` set insts"
    "fp_count p \<le> fp_count p'" "\<And>c. c < fp_count p \<Longrightarrow> fp_names p' c = fp_names p c" "fp_ccy p' = fp_ccy p"
  shows "scanned (inst # insts) p q"
  using assms unfolding scanned_def by auto

lemma assign_ok:
  assumes "assign_currencies all_inst sources insts p = Inr q" "plan_ok rep sources p" "distinct (map in_id insts)"
    "\<And>inst. inst \<in> set insts \<Longrightarrow> length (settlement_ccy inst) \<le> kCurrencyCapacity"
  shows "plan_ok rep sources q \<and> scanned insts p q \<and>
    ((\<forall>inst\<in>set insts. all_inst \<or> enabled inst) \<longrightarrow> all_sourced sources p \<longrightarrow> all_sourced sources q)"
  using assms
proof (induction insts arbitrary: p)
  case Nil
  then show ?case by (simp add: scanned_def)
next
  case (Cons inst insts)
  let ?sc = "settlement_ccy inst"
  have len: "length ?sc \<le> kCurrencyCapacity" and d: "in_id inst \<notin> in_id ` set insts" "distinct (map in_id insts)"
    using Cons.prems(3,4) by auto
  show ?case
  proof (cases "find_slot p ?sc")
    case (Some slot)
    note s = find_slot_Some [OF Some]
    let ?p = "set_ccy (in_id inst) slot p"
    have "assign_currencies all_inst sources insts ?p = Inr q" using Cons.prems(1) Some by (auto simp: Let_def split: if_splits)
    from Cons.IH [OF this plan_ok_set_ccy(1) [OF Cons.prems(2)] d(2)] s Cons.prems(4)
    have "plan_ok rep sources q" "scanned insts ?p q" "(\<forall>inst\<in>set insts. all_inst \<or> enabled inst) \<longrightarrow> all_sourced sources ?p \<longrightarrow> all_sourced sources q"
      by auto
    moreover from this(2) have "scanned (inst # insts) p q" by (rule scanned_Cons) (use s d in auto)
    ultimately show ?thesis using plan_ok_set_ccy(2) by auto
  next
    case None
    let ?a = "add_currency ?sc (map_of sources ?sc) p" and ?p = "set_ccy (in_id inst) (fp_count p) (add_currency ?sc (map_of sources ?sc) p)"
    have c: "assign_currencies all_inst sources insts ?p = Inr q" "fp_count p \<noteq> kMaxCurrencies"
      "all_inst \<or> enabled inst \<Longrightarrow> map_of sources ?sc \<noteq> None"
      using Cons.prems(1) None by (auto simp: Let_def split: if_splits)
    note a = plan_ok_add [OF Cons.prems(2) c(2) len, where i = "in_id inst"]
    from Cons.IH [OF c(1) a(1) d(2)] Cons.prems(4)
    have "plan_ok rep sources q" "scanned insts ?p q" "(\<forall>inst\<in>set insts. all_inst \<or> enabled inst) \<longrightarrow> all_sourced sources ?p \<longrightarrow> all_sourced sources q"
      by auto
    moreover from this(2) have "scanned (inst # insts) p q" by (rule scanned_Cons) (use d len in \<open>auto simp: fixed_string_def\<close>)
    ultimately show ?thesis using a(2) c(3) by auto
  qed
qed

lemma set_price_fields [simp]:
  "fp_count (set_price c p) = fp_count p" "fp_names (set_price c p) = fp_names p" "fp_sources (set_price c p) = fp_sources p"
  "fp_ccy (set_price c p) = fp_ccy p"
  by (simp_all add: set_price_def split: option.split)

lemma set_prices_fields [simp]:
  "fp_count (fold set_price cs p) = fp_count p" "fp_names (fold set_price cs p) = fp_names p"
  "fp_sources (fold set_price cs p) = fp_sources p" "fp_ccy (fold set_price cs p) = fp_ccy p"
  by (induction cs arbitrary: p) simp_all

lemma set_prices:
  "fp_prices (fold set_price cs p) i = Suc c \<Longrightarrow> fp_prices p i = Suc c \<or> c \<in> set cs \<and> fs_instrument (fp_sources p c) = Some i"
proof (induction cs arbitrary: p)
  case (Cons d cs)
  from Cons.prems have "fp_prices (set_price d p) i = Suc c \<or> c \<in> set cs \<and> fs_instrument (fp_sources (set_price d p) c) = Some i"
    using Cons.IH [of "set_price d p"] by simp
  then show ?case by (auto simp: set_price_def split: option.splits if_splits)
qed simp

lemma assign_prices: "assign_currencies all_inst ss insts p = Inr q \<Longrightarrow> fp_prices q = fp_prices p"
proof (induction insts arbitrary: p)
  case (Cons inst insts)
  have "fp_prices (set_ccy i c p) = fp_prices p" "fp_prices (add_currency sc src p) = fp_prices p" for i c p sc src
    by (simp_all add: set_ccy_def add_currency_def)
  with Cons show ?case by (auto simp: Let_def split: if_splits option.splits)
qed simp

text \<open>C29: a plan that is built is well typed for the tracker and the risk engine that run with it. It has at least the
  reporting currency and at most eight; every instrument's slot is one of them and names the instrument's own settlement
  currency; a slot other than the first has no source or one that prices its currency in the reporting currency, the
  right way round; an instrument prices a slot only when it is that slot's source. When every instrument has to be
  converted, every slot has its source.\<close>

theorem fx_plan_typed:
  fixes insts spec venues all_inst
  defines "t \<equiv> it_load insts" and "rep \<equiv> as_reporting spec"
  assumes "build_fx_plan t spec venues all_inst = Inr p" "rep \<noteq> []"
    "\<And>inst. inst \<in> set (it_by_id t) \<Longrightarrow> length (in_base inst) \<le> kCurrencyCapacity \<and> length (in_quote inst) \<le> kCurrencyCapacity"
  shows "0 < fp_count p \<and> fp_count p \<le> kMaxCurrencies \<and> fp_names p 0 = rep \<and> fp_ccy p i < fp_count p \<and>
    (i < length (it_by_id t) \<longrightarrow> fp_names p (fp_ccy p i) = settlement_ccy (it_by_id t ! i)) \<and>
    (0 < c \<and> c < fp_count p \<longrightarrow> fs_instrument (fp_sources p c) = None \<or> prices_pair t rep (fp_names p c) (fp_sources p c)) \<and>
    (0 < c \<and> c < fp_count p \<and> (\<forall>inst\<in>set (it_by_id t). all_inst \<or> enabled inst) \<longrightarrow> prices_pair t rep (fp_names p c) (fp_sources p c)) \<and>
    (fp_prices p i = Suc d \<longrightarrow> 0 < d \<and> d < fp_count p \<and> fs_instrument (fp_sources p d) = Some i)"
proof -
  have wf: "it_wf t" unfolding t_def by (rule it_load_wf)
  define p0 where "p0 = fx_plan_empty\<lparr>fp_count := 1, fp_names := (\<lambda>_. [])(0 := fixed_string kCurrencyCapacity rep), fp_stale := as_stale_fx_ms spec * 1000000\<rparr>"
  from assms(3,4) obtain ss q where len: "length rep \<le> kCurrencyCapacity" and ss: "resolve_sources t venues rep (as_fx spec) = Inr ss"
    and q: "assign_currencies all_inst ss (it_by_id t) p0 = Inr q" and p: "p = fold set_price [1..<fp_count q] q"
    unfolding build_fx_plan_def Let_def rep_def [symmetric] p0_def by (auto split: sum.splits if_splits)
  have p0: "plan_ok rep ss p0" "all_sourced ss p0"
    using len by (simp_all add: p0_def plan_ok_def all_sourced_def fx_plan_empty_def fixed_string_def kMaxCurrencies_def)
  have sc: "length (settlement_ccy inst) \<le> kCurrencyCapacity" if "inst \<in> set (it_by_id t)" for inst
    using assms(5) [OF that] by (simp add: settlement_ccy_def)
  have d: "distinct (map in_id (it_by_id t))" using it_ids [OF wf] by simp
  from assign_ok [OF q p0(1) d sc]
  have ok: "plan_ok rep ss q" "scanned (it_by_id t) p0 q" "(\<forall>inst\<in>set (it_by_id t). all_inst \<or> enabled inst) \<Longrightarrow> all_sourced ss q"
    using p0(2) by auto
  have f: "fp_count p = fp_count q" "fp_names p = fp_names q" "fp_ccy p = fp_ccy q" "fp_sources p = fp_sources q" by (simp_all add: p)
  have 1: "fp_names q (fp_ccy q i) = settlement_ccy (it_by_id t ! i)" if "i < length (it_by_id t)"
  proof -
    have "in_id (it_by_id t ! i) = i" using wf that by (simp add: it_wf_def Let_def)
    moreover have "it_by_id t ! i \<in> set (it_by_id t)" using that by simp
    ultimately show ?thesis using ok(2) unfolding scanned_def by metis
  qed
  have src: "fp_sources q c = source_or_none ss (fp_names q c)" if "0 < c" "c < fp_count q" using ok(1) that by (simp add: plan_ok_def)
  have 2: "fs_instrument (fp_sources q c) = None \<or> prices_pair t rep (fp_names q c) (fp_sources q c)" if "0 < c" "c < fp_count q"
    using resolve_sources_pair [OF wf ss, of "fp_names q c"] unfolding src [OF that]
    by (simp add: source_or_none_def fx_source_none_def split: option.split)
  have 3: "prices_pair t rep (fp_names q c) (fp_sources q c)" if "0 < c" "c < fp_count q" "\<forall>inst\<in>set (it_by_id t). all_inst \<or> enabled inst"
    using resolve_sources_pair [OF wf ss, of "fp_names q c"] ok(3) [OF that(3)] that(1,2) unfolding src [OF that(1,2)]
    by (auto simp: source_or_none_def all_sourced_def split: option.split)
  have "fp_prices q = (\<lambda>_. 0)" using assign_prices [OF q] by (simp add: p0_def fx_plan_empty_def)
  then have 4: "0 < d \<and> d < fp_count q \<and> fs_instrument (fp_sources q d) = Some i" if "fp_prices p i = Suc d"
    using set_prices [of "[1..<fp_count q]" q i d] that by (simp add: p)
  show ?thesis using ok(1) 1 2 3 4 unfolding f plan_ok_def by blast
qed

definition sample_contract :: "string \<Rightarrow> string \<Rightarrow> string \<Rightarrow> bool \<Rightarrow> instrument" where
  "sample_contract name base quot on = \<lparr>in_id = 0, in_venue = 0, in_asset_class = Spot, in_flags = (if on then kEnabled else 0), in_price_decimals = 2,
     in_tick = 1000000, in_lot = 1000, in_min_qty = 1000, in_max_qty = 0, in_min_notional = 0, in_contract_multiplier = kFixedScale,
     in_max_notional = 0, in_expiry_ns = 0, in_strike = 0, in_symbol = name, in_base = base, in_quote = quot, in_option_type = NoOption\<rparr>"

definition usdt_spec :: "(string \<times> string) list \<Rightarrow> accounting_spec" where
  "usdt_spec fx = \<lparr>as_reporting = ''USDT'', as_fx = fx, as_stale_fx_ms = 0\<rparr>"

text \<open>An instrument settled in ETH, converted with the instrument that prices ETH in USDT.\<close>

theorem fx_plan_typed_witness:
  "\<exists>p. build_fx_plan (it_load [sample_contract ''A'' ''SOL'' ''ETH'' True, sample_contract ''B'' ''ETH'' ''USDT'' True])
     (usdt_spec [(''ETH'', ''v:B'')]) [''v''] False = Inr p \<and> fp_names p (fp_ccy p 0) = ''ETH'' \<and> fp_ccy p 0 < fp_count p"
proof -
  let ?insts = "[sample_contract ''A'' ''SOL'' ''ETH'' True, sample_contract ''B'' ''ETH'' ''USDT'' True]"
  have "\<not> isl (build_fx_plan (it_load ?insts) (usdt_spec [(''ETH'', ''v:B'')]) [''v''] False)" by code_simp
  then obtain p where p: "build_fx_plan (it_load ?insts) (usdt_spec [(''ETH'', ''v:B'')]) [''v''] False = Inr p"
    by (metis sum.collapse(2))
  have t: "length (it_by_id (it_load ?insts)) = 2 \<and> settlement_ccy (it_by_id (it_load ?insts) ! 0) = ''ETH'' \<and>
      list_all (\<lambda>inst. length (in_base inst) \<le> kCurrencyCapacity \<and> length (in_quote inst) \<le> kCurrencyCapacity) (it_by_id (it_load ?insts))"
    by code_simp
  show ?thesis
    using fx_plan_typed [OF p, of 0] t p by (auto simp: usdt_spec_def list_all_iff)
qed

text \<open>When the scan accepts a table: the currencies with a slot before it, and what each instrument adds.\<close>

definition slots :: "fx_plan \<Rightarrow> string set" where
  "slots p = fp_names p ` {..<fp_count p}"

lemma find_slot_slots: "find_slot p ccy = None \<longleftrightarrow> ccy \<notin> slots p"
  by (auto simp: find_slot_def find_None_iff slots_def)

lemma slots_set_ccy [simp]: "slots (set_ccy i c p) = slots p"
  by (simp add: slots_def)

lemma slots_add [simp]: "slots (add_currency ccy src p) = insert (fixed_string kCurrencyCapacity ccy) (slots p)"
  by (auto simp: slots_def lessThan_Suc)

lemma all_less_Cons_shift:
  assumes "\<And>k. k < length xs \<Longrightarrow> P (Suc k) \<longleftrightarrow> Q k"
  shows "(\<forall>k<length (x # xs). P k) \<longleftrightarrow> P 0 \<and> (\<forall>k<length xs. Q k)"
  using assms by (auto simp: less_Suc_eq_0_disj)

text \<open>Instrument \<open>k\<close> of the list passes when its currency has a slot, or a source, or is that of an earlier one.\<close>

definition covered :: "bool \<Rightarrow> (string \<times> fx_source) list \<Rightarrow> string set \<Rightarrow> instrument list \<Rightarrow> nat \<Rightarrow> bool" where
  "covered all_inst sources S insts k \<longleftrightarrow> (all_inst \<or> enabled (insts ! k) \<longrightarrow> settlement_ccy (insts ! k) \<noteq> [] \<and>
     (settlement_ccy (insts ! k) \<in> S \<or> map_of sources (settlement_ccy (insts ! k)) \<noteq> None \<or>
      (\<exists>j<k. settlement_ccy (insts ! j) = settlement_ccy (insts ! k))))"

lemma covered_Cons:
  "covered all_inst sources S (inst # insts) (Suc k) \<longleftrightarrow> covered all_inst sources (insert (settlement_ccy inst) S) insts k"
  by (auto simp: covered_def less_Suc_eq_0_disj)

lemma assign_accepts:
  assumes "card (slots p) = fp_count p" "fp_count p \<le> kMaxCurrencies"
    "\<And>inst. inst \<in> set insts \<Longrightarrow> length (settlement_ccy inst) \<le> kCurrencyCapacity"
  shows "(\<exists>q. assign_currencies all_inst sources insts p = Inr q) \<longleftrightarrow>
    (\<forall>k<length insts. covered all_inst sources (slots p) insts k) \<and> card (slots p \<union> settlement_ccy ` set insts) \<le> kMaxCurrencies"
  using assms
proof (induction insts arbitrary: p)
  case Nil
  then show ?case by simp
next
  case (Cons inst insts)
  let ?sc = "settlement_ccy inst"
  have len: "length ?sc \<le> kCurrencyCapacity" using Cons.prems(3) by simp
  have fin: "finite (slots p)" by (simp add: slots_def)
  have shift: "(\<forall>k<length (inst # insts). covered all_inst sources (slots p) (inst # insts) k) \<longleftrightarrow>
      covered all_inst sources (slots p) (inst # insts) 0 \<and> (\<forall>k<length insts. covered all_inst sources (insert ?sc (slots p)) insts k)"
    by (rule all_less_Cons_shift) (rule covered_Cons)
  have un: "slots p \<union> settlement_ccy ` set (inst # insts) = insert ?sc (slots p) \<union> settlement_ccy ` set insts" by auto
  show ?case
  proof (cases "find_slot p ?sc")
    case (Some slot)
    then have "?sc \<in> slots p" using find_slot_slots [of p ?sc] by simp
    then show ?thesis
      using Cons.IH [of "set_ccy (in_id inst) slot p"] Cons.prems Some unfolding shift un
      by (auto simp: covered_def [of _ _ _ _ 0] insert_absorb Let_def)
  next
    case None
    let ?p = "set_ccy (in_id inst) (fp_count p) (add_currency ?sc (map_of sources ?sc) p)"
    have new: "?sc \<notin> slots p" using None find_slot_slots [of p ?sc] by simp
    have s: "slots ?p = insert ?sc (slots p)" using len by (simp add: fixed_string_def)
    have ih: "(\<exists>q. assign_currencies all_inst sources insts ?p = Inr q) \<longleftrightarrow>
        (\<forall>k<length insts. covered all_inst sources (insert ?sc (slots p)) insts k) \<and>
        card (insert ?sc (slots p) \<union> settlement_ccy ` set insts) \<le> kMaxCurrencies" if "fp_count p \<noteq> kMaxCurrencies"
      using Cons.IH [of ?p] Cons.prems new fin that unfolding s by simp
    have "kMaxCurrencies < card (insert ?sc (slots p) \<union> settlement_ccy ` set insts)" if "fp_count p = kMaxCurrencies"
    proof -
      have "card (insert ?sc (slots p)) \<le> card (insert ?sc (slots p) \<union> settlement_ccy ` set insts)" using fin by (intro card_mono) auto
      then show ?thesis using that new fin Cons.prems(1) by simp
    qed
    then show ?thesis using ih new None unfolding shift un by (auto simp: covered_def [of _ _ _ _ 0] Let_def)
  qed
qed

text \<open>C30: when a configuration is accepted. With a reporting currency and resolved sources, a plan is built exactly when every
  instrument that has to be converted (an enabled one, or any when all are asked for) names a settlement currency which is the
  reporting currency, has a source, or is that of some instrument before it in the table, and there are at most eight currencies.
  The instrument before it need not be one that has to be converted, so the rule depends on the order of the table: behind
  a disabled instrument of the same currency an enabled one without a source is accepted, and its slot then has no instrument to
  price it, so that its rate is never known.\<close>

theorem fx_plan_accepted_exactly:
  fixes insts spec venues all_inst
  defines "T \<equiv> it_by_id (it_load insts)" and "rep \<equiv> as_reporting spec"
  defines "unsourced \<equiv> \<lambda>sources k. settlement_ccy (T ! k) \<noteq> rep \<and> map_of sources (settlement_ccy (T ! k)) = None"
  assumes "rep \<noteq> []" "length rep \<le> kCurrencyCapacity" "resolve_sources (it_load insts) venues rep (as_fx spec) = Inr sources"
    "\<And>inst. inst \<in> set T \<Longrightarrow> length (in_base inst) \<le> kCurrencyCapacity \<and> length (in_quote inst) \<le> kCurrencyCapacity"
  shows "((\<exists>p. build_fx_plan (it_load insts) spec venues all_inst = Inr p) \<longleftrightarrow>
      (\<forall>k<length T. all_inst \<or> enabled (T ! k) \<longrightarrow> settlement_ccy (T ! k) \<noteq> [] \<and>
         (unsourced sources k \<longrightarrow> (\<exists>j<k. settlement_ccy (T ! j) = settlement_ccy (T ! k)))) \<and>
      card (insert rep (settlement_ccy ` set T)) \<le> kMaxCurrencies) \<and>
    (\<forall>p k. build_fx_plan (it_load insts) spec venues all_inst = Inr p \<and> k < length T \<and> unsourced sources k \<longrightarrow>
      fs_instrument (fp_sources p (fp_ccy p k)) = None)"
proof -
  have wf: "it_wf (it_load insts)" by (rule it_load_wf)
  define p0 where "p0 = fx_plan_empty\<lparr>fp_count := 1, fp_names := (\<lambda>_. [])(0 := fixed_string kCurrencyCapacity rep), fp_stale := as_stale_fx_ms spec * 1000000\<rparr>"
  have b: "build_fx_plan (it_load insts) spec venues all_inst =
      (case assign_currencies all_inst sources T p0 of Inl e \<Rightarrow> Inl e | Inr q \<Rightarrow> Inr (fold set_price [1..<fp_count q] q))"
    using assms(4-6) unfolding build_fx_plan_def p0_def T_def rep_def by simp
  have p0: "plan_ok rep sources p0" "slots p0 = {rep}" "fp_count p0 = 1"
    using assms(5) by (simp_all add: p0_def plan_ok_def fx_plan_empty_def fixed_string_def kMaxCurrencies_def slots_def lessThan_Suc)
  have sc: "length (settlement_ccy inst) \<le> kCurrencyCapacity" if "inst \<in> set T" for inst
    using assms(7) [OF that] by (simp add: settlement_ccy_def)
  have d: "distinct (map in_id T)" unfolding T_def using it_ids [OF wf] by simp
  have acc: "(\<exists>p. build_fx_plan (it_load insts) spec venues all_inst = Inr p) \<longleftrightarrow>
      (\<forall>k<length T. covered all_inst sources {rep} T k) \<and> card (insert rep (settlement_ccy ` set T)) \<le> kMaxCurrencies"
    using assign_accepts [of p0 T all_inst sources] p0(2,3) sc unfolding b by (auto simp: kMaxCurrencies_def split: sum.splits)
  have "fs_instrument (fp_sources p (fp_ccy p k)) = None"
    if p: "build_fx_plan (it_load insts) spec venues all_inst = Inr p" and k: "k < length T" and u: "unsourced sources k" for p k
  proof -
    from p obtain q where q: "assign_currencies all_inst sources T p0 = Inr q" "p = fold set_price [1..<fp_count q] q"
      unfolding b by (auto split: sum.splits)
    from assign_ok [OF q(1) p0(1) d sc] have ok: "plan_ok rep sources q" "scanned T p0 q" by simp_all
    have "in_id (T ! k) = k" using wf k by (simp add: it_wf_def Let_def T_def)
    moreover have "T ! k \<in> set T" using k by simp
    ultimately have n: "fp_names q (fp_ccy q k) = settlement_ccy (T ! k)" using ok(2) unfolding scanned_def by metis
    then have "0 < fp_ccy q k" using u ok(1) by (cases "fp_ccy q k") (auto simp: plan_ok_def unsourced_def)
    then have "fp_sources q (fp_ccy q k) = source_or_none sources (settlement_ccy (T ! k))" using ok(1) n by (simp add: plan_ok_def)
    then show ?thesis using u by (simp add: q(2) source_or_none_def unsourced_def fx_source_none_def)
  qed
  moreover have "covered all_inst sources {rep} T k \<longleftrightarrow> (all_inst \<or> enabled (T ! k) \<longrightarrow> settlement_ccy (T ! k) \<noteq> [] \<and>
      (unsourced sources k \<longrightarrow> (\<exists>j<k. settlement_ccy (T ! j) = settlement_ccy (T ! k))))" for k
    by (auto simp: covered_def unsourced_def)
  ultimately show ?thesis unfolding acc by blast
qed

text \<open>An enabled instrument settled in ETH behind a disabled one, and no source for ETH.\<close>

theorem fx_plan_accepted_exactly_witness:
  "\<exists>p. build_fx_plan (it_load [sample_contract ''A'' ''BTC'' ''ETH'' False, sample_contract ''B'' ''SOL'' ''ETH'' True]) (usdt_spec []) [''v''] False = Inr p \<and>
     fs_instrument (fp_sources p (fp_ccy p 1)) = None"
proof -
  let ?insts = "[sample_contract ''A'' ''BTC'' ''ETH'' False, sample_contract ''B'' ''SOL'' ''ETH'' True]"
  have T: "map (\<lambda>inst. (enabled inst, settlement_ccy inst)) (it_by_id (it_load ?insts)) = [(False, ''ETH''), (True, ''ETH'')]"
    "list_all (\<lambda>inst. length (in_base inst) \<le> kCurrencyCapacity \<and> length (in_quote inst) \<le> kCurrencyCapacity) (it_by_id (it_load ?insts))"
    by code_simp+
  have n: "length (it_by_id (it_load ?insts)) = 2" using arg_cong [OF T(1), of length] by simp
  have k: "settlement_ccy (it_by_id (it_load ?insts) ! 0) = ''ETH''" "settlement_ccy (it_by_id (it_load ?insts) ! 1) = ''ETH''"
    "\<not> enabled (it_by_id (it_load ?insts) ! 0)"
    using arg_cong [OF T(1), of "\<lambda>xs. xs ! 0"] arg_cong [OF T(1), of "\<lambda>xs. xs ! 1"] n by simp_all
  have s: "settlement_ccy ` set (it_by_id (it_load ?insts)) = {''ETH''}"
    using arg_cong [OF T(1), of "\<lambda>xs. snd ` set xs"] by (simp add: image_image)
  have l: "length ''USDT'' \<le> kCurrencyCapacity" by code_simp
  have c: "card {''USDT'', ''ETH''} \<le> kMaxCurrencies" by (simp add: kMaxCurrencies_def)
  note f = fx_plan_accepted_exactly [of "usdt_spec []" ?insts "[''v'']" "[]" False]
  have ex: "\<exists>j<k. settlement_ccy (it_by_id (it_load ?insts) ! j) = settlement_ccy (it_by_id (it_load ?insts) ! k)"
    if "k < 2" "enabled (it_by_id (it_load ?insts) ! k)" for k
    using that k by (cases "k = 0") (auto simp: less_2_cases_iff)
  have e: "settlement_ccy (it_by_id (it_load ?insts) ! k) = ''ETH''" if "k < 2" for k using that k by (auto simp: less_2_cases_iff)
  from f show ?thesis using T(2) n k(2) s l c ex e unfolding usdt_spec_def list_all_iff by auto
qed

section \<open>The underlying plan\<close>

definition counts_for :: "string \<Rightarrow> instrument \<Rightarrow> bool" where
  "counts_for name inst \<longleftrightarrow> same_currency (in_base inst) name \<and> counts_toward_underlying inst"

text \<open>The loop over the table appends the ids of the instruments that count and marks them.\<close>

definition marked :: "nat \<Rightarrow> instrument_id list \<Rightarrow> nat \<Rightarrow> underlying_plan \<Rightarrow> underlying_plan" where
  "marked u ms n p = p\<lparr>up_of := (\<lambda>i. if i \<in> set ms then u + 1 else up_of p i),
     up_members := (\<lambda>k. if n \<le> k \<and> k < n + length ms then ms ! (k - n) else up_members p k)\<rparr>"

lemma marked_Nil: "marked u [] n p = p"
proof -
  have "(\<lambda>k. if n \<le> k \<and> k < n then f k else up_members p k) = up_members p" for f by auto
  then show ?thesis by (simp add: marked_def)
qed

lemma marked_Cons: "marked u ms (Suc n) (p\<lparr>up_of := (up_of p)(i := u + 1), up_members := (up_members p)(n := i)\<rparr>) = marked u (i # ms) n p"
  by (rule underlying_plan.equality) (auto simp: marked_def fun_eq_iff nth_Cons')

lemma up_scan_fold:
  "\<exists>opts. fold (up_scan u name) xs (p, n, opt) =
     (marked u (map in_id (filter (counts_for name) xs)) n p, n + length (filter (counts_for name) xs), opts)"
proof (induction xs arbitrary: p n opt)
  case Nil
  then show ?case by (simp add: marked_Nil)
next
  case (Cons x xs)
  show ?case
  proof (cases "counts_for name x")
    case True
    let ?p = "p\<lparr>up_of := (up_of p)(in_id x := u + 1), up_members := (up_members p)(n := in_id x)\<rparr>"
    have s: "up_scan u name x (p, n, opt) = (?p, Suc n, opt)" using True by (simp add: up_scan_def counts_for_def)
    show ?thesis using Cons.IH [of ?p "Suc n" opt] True unfolding fold_Cons o_apply s marked_Cons by simp
  next
    case False
    then obtain opt' where "up_scan u name x (p, n, opt) = (p, n, opt')"
      by (cases "same_currency (in_base x) name") (simp_all add: up_scan_def counts_for_def)
    then show ?thesis using Cons False by simp
  qed
qed

definition up_inv :: "instrument list \<Rightarrow> underlying_plan \<Rightarrow> nat \<Rightarrow> bool" where
  "up_inv table p n \<longleftrightarrow>
     (\<forall>u<up_count p. \<forall>v<up_count p. same_currency (up_names p u) (up_names p v) \<longrightarrow> u = v) \<and>
     (\<forall>i. up_of p i \<le> up_count p) \<and>
     (\<forall>u<up_count p. \<forall>inst\<in>set table. up_of p (in_id inst) = u + 1 \<longleftrightarrow> counts_for (up_names p u) inst) \<and>
     (\<forall>u<up_count p. up_begin p u < up_begin p (u + 1) \<and> up_begin p (u + 1) \<le> n \<and>
        map (up_members p) [up_begin p u..<up_begin p (u + 1)] = map in_id (filter (counts_for (up_names p u)) table)) \<and>
     (up_count p > 0 \<longrightarrow> up_begin p (up_count p) = n)"


text \<open>One more entry: its name is new, its members come after those before it.\<close>

definition add_underlying :: "instrument list \<Rightarrow> string \<Rightarrow> qty \<Rightarrow> underlying_plan \<Rightarrow> nat \<Rightarrow> underlying_plan" where
  "add_underlying table name mx p n =
     (let u = up_count p; ms = map in_id (filter (counts_for name) table);
          p1 = p\<lparr>up_count := u + 1, up_names := (up_names p)(u := name), up_max_net := (up_max_net p)(u := mx), up_begin := (up_begin p)(u := n)\<rparr>;
          p2 = marked u ms n p1
      in p2\<lparr>up_begin := (up_begin p2)(u + 1 := n + length ms)\<rparr>)"

lemma up_build_Cons:
  assumes "up_build table ((name, t) # rest) p n = Inr q"
  obtains mx where "length name \<le> kCurrencyCapacity" "up_find p name = None" "filter (counts_for name) table \<noteq> []"
    "up_build table rest (add_underlying table name mx p n) (n + length (filter (counts_for name) table)) = Inr q"
proof -
  from assms obtain mx where g: "length name \<le> kCurrencyCapacity" "up_find p name = None" "parse_max_net t = Some mx"
    by (auto split: if_splits option.splits)
  let ?p1 = "p\<lparr>up_count := up_count p + 1, up_names := (up_names p)(up_count p := name), up_max_net := (up_max_net p)(up_count p := mx),
      up_begin := (up_begin p)(up_count p := n)\<rparr>"
  from up_scan_fold [of "up_count p" name table ?p1 n False] obtain opts where
    f: "fold (up_scan (up_count p) name) table (?p1, n, False) =
      (marked (up_count p) (map in_id (filter (counts_for name) table)) n ?p1, n + length (filter (counts_for name) table), opts)" by blast
  have b: "up_begin (marked u ms k p') = up_begin p'" for u ms k p' by (simp add: marked_def)
  show ?thesis
    using that [of mx] g assms f by (auto simp: Let_def fixed_string_def b add_underlying_def split: if_splits)
qed

lemma add_underlying_fields:
  fixes table name mx p n
  defines "q \<equiv> add_underlying table name mx p n" and "ms \<equiv> map in_id (filter (counts_for name) table)"
  shows "up_count q = Suc (up_count p)" "up_names q = (up_names p)(up_count p := name)"
    "up_of q i = (if i \<in> set ms then Suc (up_count p) else up_of p i)"
    "up_members q k = (if n \<le> k \<and> k < n + length ms then ms ! (k - n) else up_members p k)"
    "up_begin q = (up_begin p)(up_count p := n, Suc (up_count p) := n + length ms)"
  by (simp_all add: q_def ms_def add_underlying_def Let_def marked_def)

lemma same_currency_trans: "same_currency a b \<Longrightarrow> same_currency a c \<Longrightarrow> same_currency b c"
  and same_currency_sym: "same_currency a b \<Longrightarrow> same_currency b a"
  by (simp_all add: same_currency_map)

lemma up_find_None: "up_find p name = None \<Longrightarrow> u < up_count p \<Longrightarrow> \<not> same_currency (up_names p u) name"
  by (simp add: up_find_def find_None_iff)

lemma members_old:
  "b \<le> n \<Longrightarrow> map (up_members (add_underlying table name mx p n)) [a..<b] = map (up_members p) [a..<b]"
  by (simp add: add_underlying_fields(4))

lemma members_new:
  "map (up_members (add_underlying table name mx p n)) [n..<n + length (filter (counts_for name) table)] =
     map in_id (filter (counts_for name) table)"
  by (rule nth_equalityI) (simp_all add: add_underlying_fields(4))

lemma up_inv_add:
  assumes inv: "up_inv table p n" and new: "up_find p name = None" and some: "filter (counts_for name) table \<noteq> []"
    and ids: "distinct (map in_id table)"
  shows "up_inv table (add_underlying table name mx p n) (n + length (filter (counts_for name) table))"
proof -
  define q where "q = add_underlying table name mx p n"
  define ms where "ms = map in_id (filter (counts_for name) table)"
  note f = add_underlying_fields [of table name mx p n, folded q_def ms_def]
  have len: "length (filter (counts_for name) table) = length ms" by (simp add: ms_def)
  note p = inv [unfolded up_inv_def]
  have mem: "in_id inst \<in> set ms \<longleftrightarrow> counts_for name inst" if "inst \<in> set table" for inst
    using that ids by (auto simp: ms_def distinct_map dest: inj_onD)
  have fresh: "\<not> counts_for name inst" if "counts_for (up_names p u) inst" "u < up_count p" for inst u
    using that up_find_None [OF new that(2)] same_currency_trans [of "in_base inst" "up_names p u" name] by (auto simp: counts_for_def)
  have slot: "up_begin q u < up_begin q (u + 1) \<and> up_begin q (u + 1) \<le> n + length ms \<and>
      map (up_members q) [up_begin q u..<up_begin q (u + 1)] = map in_id (filter (counts_for (up_names q u)) table)" if u: "u < up_count q" for u
  proof (cases "u = up_count p")
    case True
    have "ms \<noteq> []" using some by (simp add: ms_def)
    then show ?thesis using True members_new [of table name mx p n, folded q_def, unfolded len] by (simp add: f ms_def)
  next
    case False
    then have u': "u < up_count p" using u by (simp add: f)
    have b: "up_begin q u = up_begin p u" "up_begin q (u + 1) = up_begin p (u + 1)" "up_names q u = up_names p u"
      using u' p by (auto simp: f)
    have o: "up_begin p u < up_begin p (u + 1)" "up_begin p (u + 1) \<le> n"
      "map (up_members p) [up_begin p u..<up_begin p (u + 1)] = map in_id (filter (counts_for (up_names p u)) table)"
      using p u' by blast+
    show ?thesis using o members_old [OF o(2), of table name mx p "up_begin p u", folded q_def] unfolding b by simp
  qed
  have uniq: "u = v" if "u < up_count q" "v < up_count q" "same_currency (up_names q u) (up_names q v)" for u v
  proof (cases "u = up_count p \<or> v = up_count p")
    case True
    then show ?thesis using that up_find_None [OF new, of u] up_find_None [OF new, of v] same_currency_sym [OF that(3)]
      by (cases "u = v") (auto simp: f less_Suc_eq)
  next
    case False
    then have "u < up_count p" "v < up_count p" "same_currency (up_names p u) (up_names p v)" using that by (simp_all add: f)
    then show ?thesis using p by blast
  qed
  show ?thesis
    unfolding up_inv_def q_def [symmetric] len
  proof (intro conjI allI impI ballI)
    fix u v assume "u < up_count q" "v < up_count q" "same_currency (up_names q u) (up_names q v)"
    then show "u = v" by (rule uniq)
  next
    fix i show "up_of q i \<le> up_count q" using p by (simp add: f le_SucI)
  next
    fix u inst assume u: "u < up_count q" and i: "inst \<in> set table"
    show "up_of q (in_id inst) = u + 1 \<longleftrightarrow> counts_for (up_names q u) inst"
    proof (cases "u = up_count p")
      case True
      have "up_of p (in_id inst) \<noteq> Suc (up_count p)" using p by (auto dest: spec [of _ "in_id inst"])
      then show ?thesis using True mem [OF i] by (simp add: f)
    next
      case False
      then have "u < up_count p" using u by (simp add: f)
      moreover from this have "up_of p (in_id inst) = u + 1 \<longleftrightarrow> counts_for (up_names p u) inst" using p i by blast
      ultimately show ?thesis using False mem [OF i] fresh [of u inst] by (auto simp: f)
    qed
  next
    fix u assume u: "u < up_count q"
    show "up_begin q u < up_begin q (u + 1)" "up_begin q (u + 1) \<le> n + length ms"
      "map (up_members q) [up_begin q u..<up_begin q (u + 1)] = map in_id (filter (counts_for (up_names q u)) table)"
      using slot [OF u] by blast+
  next
    show "up_begin q (up_count q) = n + length ms" by (simp add: f)
  qed
qed

lemma up_build_ok:
  assumes "up_build table es p n = Inr q" "up_inv table p n" "distinct (map in_id table)"
  shows "(\<exists>m. up_inv table q m) \<and> up_count q = up_count p + length es \<and> (\<forall>u<up_count p. up_names q u = up_names p u) \<and>
    (\<forall>k<length es. up_names q (up_count p + k) = fst (es ! k))"
  using assms
proof (induction es arbitrary: p n)
  case Nil
  then show ?case by auto
next
  case (Cons e es)
  obtain name t where e: "e = (name, t)" by fastforce
  from Cons.prems(1) [unfolded e] obtain mx where b: "up_find p name = None" "filter (counts_for name) table \<noteq> []"
    "up_build table es (add_underlying table name mx p n) (n + length (filter (counts_for name) table)) = Inr q"
    by (rule up_build_Cons)
  note f = add_underlying_fields(1,2) [of table name mx p n]
  from Cons.IH [OF b(3) up_inv_add [OF Cons.prems(2) b(1,2) Cons.prems(3)] Cons.prems(3)]
  have r: "\<exists>m. up_inv table q m" "up_count q = Suc (up_count p) + length es" "\<And>u. u < Suc (up_count p) \<Longrightarrow> up_names q u = ((up_names p)(up_count p := name)) u"
    "\<And>k. k < length es \<Longrightarrow> up_names q (Suc (up_count p) + k) = fst (es ! k)"
    unfolding f by blast+
  have "up_names q (up_count p + k) = fst ((e # es) ! k)" if "k < length (e # es)" for k
    using that r(3) [of "up_count p"] r(4) [of "k - 1"] e by (cases k) simp_all
  moreover have "up_names q u = up_names p u" if "u < up_count p" for u using that r(3) [of u] by simp
  ultimately show ?case using r(1,2) by simp
qed

lemma filter_ids:
  assumes "it_wf t"
  shows "map in_id (filter P (it_by_id t)) = filter (\<lambda>i. P (it_by_id t ! i)) [0..<length (it_by_id t)]"
proof -
  have "filter P (it_by_id t) = map ((!) (it_by_id t)) (filter (\<lambda>i. P (it_by_id t ! i)) [0..<length (it_by_id t)])"
    using filter_map [of P "(!) (it_by_id t)" "[0..<length (it_by_id t)]"] by (simp add: map_nth comp_def)
  moreover have "in_id (it_by_id t ! i) = i" if "i < length (it_by_id t)" for i using assms that by (simp add: it_wf_def Let_def)
  ultimately show ?thesis by (auto intro!: map_idI)
qed

text \<open>The plan of the configured underlyings is exact. There is one underlying per entry, in their order and under its
  name, and its instruments are the table's instruments whose base is that name, whatever the case of the letters, and
  which count towards an underlying: at least one, each once, in the order of the table. An instrument is assigned to an
  underlying exactly when it is one of its instruments.\<close>

theorem underlying_plan_exact:
  fixes insts spec u i
  defines "t \<equiv> it_load insts"
  defines "is_member \<equiv> \<lambda>i. same_currency (in_base (it_by_id t ! i)) (fst (spec ! u)) \<and> counts_toward_underlying (it_by_id t ! i)"
  assumes "build_underlying_plan t spec = Inr p"
  shows "up_count p = length spec \<and>
    (u < length spec \<longrightarrow> up_names p u = fst (spec ! u) \<and>
       up_instruments p u = filter is_member [0..<length (it_by_id t)] \<and> up_instruments p u \<noteq> [] \<and>
       (i < length (it_by_id t) \<longrightarrow> (up_underlying_of p i = int u \<longleftrightarrow> is_member i)))"
proof (cases "spec = []")
  case True
  then show ?thesis using assms(3) by (auto simp: build_underlying_plan_def underlying_plan_empty_def)
next
  case False
  have wf: "it_wf t" unfolding t_def by (rule it_load_wf)
  have ids: "distinct (map in_id (it_by_id t))" using it_ids [OF wf] by simp
  have b: "up_build (it_by_id t) spec underlying_plan_empty 0 = Inr p"
    using assms(3) False by (simp add: build_underlying_plan_def split: if_splits)
  have i0: "up_inv (it_by_id t) underlying_plan_empty 0" and c0: "up_count underlying_plan_empty = 0"
    by (simp_all add: up_inv_def underlying_plan_empty_def)
  obtain m where r: "up_inv (it_by_id t) p m" "up_count p = length spec" "\<And>k. k < length spec \<Longrightarrow> up_names p k = fst (spec ! k)"
    using up_build_ok [OF b i0 ids] unfolding c0 add_0 by blast
  have P: "is_member = (\<lambda>i. counts_for (fst (spec ! u)) (it_by_id t ! i))" by (simp add: is_member_def counts_for_def fun_eq_iff)
  have mem: "up_instruments p u = filter is_member [0..<length (it_by_id t)]" "up_instruments p u \<noteq> []" if u: "u < length spec"
  proof -
    have b: "up_begin p u < up_begin p (u + 1)"
      "map (up_members p) [up_begin p u..<up_begin p (u + 1)] = map in_id (filter (counts_for (fst (spec ! u))) (it_by_id t))"
      using r u unfolding up_inv_def by simp_all
    have e: "up_instruments p u = map (up_members p) [up_begin p u..<up_begin p (u + 1)]" using r(2) u by (simp add: up_instruments_def)
    show "up_instruments p u = filter is_member [0..<length (it_by_id t)]" unfolding e b(2) P by (rule filter_ids [OF wf])
    show "up_instruments p u \<noteq> []" unfolding e using b(1) by simp
  qed
  have of: "up_underlying_of p i = int u \<longleftrightarrow> is_member i" if u: "u < length spec" and i: "i < length (it_by_id t)"
  proof -
    have "it_by_id t ! i \<in> set (it_by_id t)" "in_id (it_by_id t ! i) = i" "i < kMaxInstruments"
      using i wf by (auto simp: it_wf_def Let_def)
    moreover from this(1) have "up_of p (in_id (it_by_id t ! i)) = u + 1 \<longleftrightarrow> counts_for (fst (spec ! u)) (it_by_id t ! i)"
      using r u unfolding up_inv_def by metis
    ultimately show ?thesis by (auto simp: up_underlying_of_def P)
  qed
  show ?thesis using r(2,3) mem of by blast
qed

definition btc_insts :: "instrument list" where
  "btc_insts = [sample_contract ''A'' ''BTC'' ''USDT'' True, sample_contract ''B'' ''ETH'' ''USDT'' True, sample_contract ''C'' ''btc'' ''USD'' True]"

text \<open>Two instruments on BTC, spelt in two ways, and one on another base.\<close>

lemma upper_case:
  "up_char (CHR ''b'') = CHR ''B''" "up_char (CHR ''t'') = CHR ''T''" "up_char (CHR ''c'') = CHR ''C''"
  "up_char (CHR ''B'') = CHR ''B''" "up_char (CHR ''E'') = CHR ''E''" "up_char (CHR ''T'') = CHR ''T''" "up_char (CHR ''C'') = CHR ''C''"
  by (simp_all add: up_char_def Let_def char_of_def bit_0)

lemma btc_names: "same_currency ''BTC'' ''BTC''" "same_currency ''btc'' ''BTC''" "\<not> same_currency ''ETH'' ''BTC''"
  by (simp_all add: same_currency_map upper_case)

lemma btc_table:
  "it_by_id (it_load btc_insts) = [(sample_contract ''A'' ''BTC'' ''USDT'' True)\<lparr>in_id := 0\<rparr>,
     (sample_contract ''B'' ''ETH'' ''USDT'' True)\<lparr>in_id := 1\<rparr>, (sample_contract ''C'' ''btc'' ''USD'' True)\<lparr>in_id := 2\<rparr>]"
  by (simp add: it_load_def btc_insts_def it_new_def it_add_def sample_contract_def kMaxInstruments_def)

lemma btc_counts: "counts_toward_underlying ((sample_contract n base quot True)\<lparr>in_id := i\<rparr>)" "in_base ((sample_contract n base quot True)\<lparr>in_id := i\<rparr>) = base"
  by (simp_all add: counts_toward_underlying_def sample_contract_def coin_quoted_def kEnabled_def kCoinQuoted_def)

lemma btc_plan: "\<not> isl (build_underlying_plan (it_load btc_insts) [(''BTC'', '''')])"
  by (simp add: build_underlying_plan_def kMaxUnderlyings_def kCurrencyCapacity_def up_find_def underlying_plan_empty_def parse_max_net_def
      btc_table up_scan_def btc_names btc_counts Let_def)

lemma btc_members:
  "filter (\<lambda>i. same_currency (in_base (it_by_id (it_load btc_insts) ! i)) ''BTC'' \<and> counts_toward_underlying (it_by_id (it_load btc_insts) ! i))
     [0..<length (it_by_id (it_load btc_insts))] = [0, 2]"
  by (simp add: btc_table btc_names btc_counts upt_rec)

theorem underlying_plan_exact_witness:
  "\<exists>p. build_underlying_plan (it_load btc_insts) [(''BTC'', '''')] = Inr p \<and> up_instruments p 0 = [0, 2]"
proof -
  from btc_plan obtain p where p: "build_underlying_plan (it_load btc_insts) [(''BTC'', '''')] = Inr p"
    by (cases "build_underlying_plan (it_load btc_insts) [(''BTC'', '''')]") simp_all
  from underlying_plan_exact [OF p, of 0] p btc_members show ?thesis by simp
qed

end
