(* ===== verification/SimBook.thy ===== *)
theory SimBook
  imports L2Book
begin

unbundle bit_operations_syntax

text \<open>
  \<^verbatim>\<open>include/fastmm/sim/sim_book.hpp\<close>: the orders and the price levels of the simulated exchange. A side of
  a book is the list of its levels from the worst to the best, as the code stores it; a level heads a queue of
  orders that are linked through their handles in the engine's pool, \<open>kNullHandle\<close> being the end. A pointer
  to a level is its index.
\<close>

section \<open>Orders and levels\<close>

type_synonym account_id = nat

definition kMaxAccounts :: nat where "kMaxAccounts = 16"
definition kMaxSimLevels :: nat where "kMaxSimLevels = 2048"

text \<open>\<^verbatim>\<open>InstrumentId{}\<close>\<close>

definition instrument_invalid :: instrument_id where
  "instrument_invalid = 4294967295"

record sim_order =
  so_order_id :: nat
  so_cl_ord_id :: cl_ord_id
  so_price :: price
  so_qty :: qty
  so_cum_qty :: qty
  so_created :: timestamp
  so_instrument :: instrument_id
  so_next :: nat
  so_prev :: nat
  so_account :: account_id
  so_side :: side
  so_type :: order_type
  so_tif :: time_in_force
  so_reduce_only :: bool

text \<open>\<^verbatim>\<open>SimOrder{}\<close>\<close>

definition sim_order_zero :: sim_order where
  "sim_order_zero =
     \<lparr>so_order_id = 0, so_cl_ord_id = 0, so_price = 0, so_qty = 0, so_cum_qty = 0, so_created = 0,
      so_instrument = instrument_invalid, so_next = 0, so_prev = 0, so_account = 0, so_side = Buy, so_type = Limit,
      so_tif = Gtc, so_reduce_only = False\<rparr>"

definition so_leaves :: "sim_order \<Rightarrow> qty" where
  "so_leaves od = so_qty od - so_cum_qty od"

record price_level =
  pv_price :: price
  pv_qty :: qty
  pv_head :: nat
  pv_tail :: nat
  pv_count :: nat

section \<open>The book\<close>

record sim_book =
  sb_bids :: "price_level list"
  sb_asks :: "price_level list"
  sb_update_id :: nat

definition sb_new :: sim_book where
  "sb_new = \<lparr>sb_bids = [], sb_asks = [], sb_update_id = 0\<rparr>"

definition sb_levels :: "sim_book \<Rightarrow> side \<Rightarrow> price_level list" where
  "sb_levels b s = (if s = Buy then sb_bids b else sb_asks b)"

definition sb_set_levels :: "side \<Rightarrow> price_level list \<Rightarrow> sim_book \<Rightarrow> sim_book" where
  "sb_set_levels s v b = (if s = Buy then b\<lparr>sb_bids := v\<rparr> else b\<lparr>sb_asks := v\<rparr>)"

text \<open>A pointer to a level of a side is its index.\<close>

definition sb_best :: "sim_book \<Rightarrow> side \<Rightarrow> nat option" where
  "sb_best b s = (if sb_levels b s = [] then None else Some (length (sb_levels b s) - 1))"

definition sb_best_level :: "sim_book \<Rightarrow> side \<Rightarrow> level" where
  "sb_best_level b s =
     (case sb_best b s of
        None \<Rightarrow> level_zero
      | Some k \<Rightarrow> \<lparr>lv_price = pv_price (sb_levels b s ! k), lv_qty = pv_qty (sb_levels b s ! k)\<rparr>)"

definition sb_lower_bound :: "sim_book \<Rightarrow> side \<Rightarrow> price \<Rightarrow> nat" where
  "sb_lower_bound b s p =
     (let v = sb_levels b s; hi = length v in
      if hi > 0 \<and> better s p (pv_price (v ! (hi - 1))) then hi
      else lower_bound (\<lambda>k. better s p (pv_price (v ! k))) 0 hi)"

definition sb_find :: "sim_book \<Rightarrow> side \<Rightarrow> price \<Rightarrow> nat option" where
  "sb_find b s p =
     (let v = sb_levels b s; i = sb_lower_bound b s p in
      if i < length v \<and> pv_price (v ! i) = p then Some i else None)"

definition sb_find_or_insert :: "sim_book \<Rightarrow> side \<Rightarrow> price \<Rightarrow> sim_book \<times> nat option" where
  "sb_find_or_insert b s p =
     (let v = sb_levels b s; i = sb_lower_bound b s p in
      if i < length v \<and> pv_price (v ! i) = p then (b, Some i)
      else (case sv_insert_at kMaxSimLevels v i
                   \<lparr>pv_price = p, pv_qty = 0, pv_head = kNullHandle, pv_tail = kNullHandle, pv_count = 0\<rparr> of
              (v', ok) \<Rightarrow> if \<not> ok then (b, None) else (sb_set_levels s v' b, Some i)))"

definition sb_erase :: "side \<Rightarrow> nat \<Rightarrow> sim_book \<Rightarrow> sim_book" where
  "sb_erase s i b = sb_set_levels s (sv_erase_at (sb_levels b s) i) b"

text \<open>The scan from the best level down.\<close>

fun sb_sum :: "side \<Rightarrow> price \<Rightarrow> bool \<Rightarrow> price_level list \<Rightarrow> nat \<Rightarrow> qty \<Rightarrow> qty" where
  "sb_sum s limit is_market v 0 acc = acc"
| "sb_sum s limit is_market v (Suc i) acc =
     (if \<not> is_market \<and> \<not> at_or_better s (pv_price (v ! i)) limit then acc
      else sb_sum s limit is_market v i (acc + pv_qty (v ! i)))"

definition sb_qty_at_or_better :: "sim_book \<Rightarrow> side \<Rightarrow> price \<Rightarrow> bool \<Rightarrow> qty" where
  "sb_qty_at_or_better b s limit is_market =
     sb_sum s limit is_market (sb_levels b s) (length (sb_levels b s)) 0"

definition sb_snapshot :: "sim_book \<Rightarrow> side \<Rightarrow> nat \<Rightarrow> level list" where
  "sb_snapshot b s mx =
     (let v = sb_levels b s; n = (if length v < mx then length v else mx) in
      map (\<lambda>i. \<lparr>lv_price = pv_price (v ! (length v - 1 - i)), lv_qty = pv_qty (v ! (length v - 1 - i))\<rparr>) [0..<n])"

definition sb_depth :: "sim_book \<Rightarrow> side \<Rightarrow> nat" where
  "sb_depth b s = length (sb_levels b s)"

definition sb_bump_update_id :: "sim_book \<Rightarrow> sim_book" where
  "sb_bump_update_id b = b\<lparr>sb_update_id := sb_update_id b + 1\<rparr>"

definition sb_clear :: "sim_book \<Rightarrow> sim_book" where
  "sb_clear b = b\<lparr>sb_bids := [], sb_asks := []\<rparr>"

end
