(* ===== verification/Matching.thy ===== *)
theory Matching
  imports SimBook
begin

unbundle bit_operations_syntax

text \<open>
  \<^verbatim>\<open>include/fastmm/sim/matching_engine.hpp\<close> and \<^verbatim>\<open>src/sim/matching_engine.cpp\<close>: the continuous double auction
  of the simulated exchange. The record \<open>matching_engine\<close> has the members of the class, the containers being the
  models of theirs; each member function is a definition of the same name (\<open>submit_order\<close>, \<open>cancel_order\<close>,
  \<open>replace_order\<close> and \<open>match_order\<close> for the four whose names are taken). Every call on the sink is recorded in
  \<open>me_log\<close>, the latest first; what the sink answers is a function of that record. A sink that calls the engine back
  is not modelled. The loops over linked queues are partial functions: \<^const>\<open>None\<close> is a loop that does not end.
  Counters and quantities are unbounded integers.
\<close>

section \<open>Requests, results and events\<close>

record new_order =
  no_account :: account_id
  no_cl_ord_id :: cl_ord_id
  no_instrument :: instrument_id
  no_side :: side
  no_type :: order_type
  no_tif :: time_in_force
  no_price :: price
  no_qty :: qty
  no_reduce_only :: bool

datatype stp_mode = StpNone | CancelTaker | CancelMaker | CancelBoth

datatype cancel_reason =
    CrRequested | CrReplaced | CrIoc | CrFok | CrNoLiquidity | CrStp | CrReduceOnly

definition is_expiry :: "cancel_reason \<Rightarrow> bool" where
  "is_expiry r \<longleftrightarrow> r = CrIoc \<or> r = CrFok \<or> r = CrNoLiquidity \<or> r = CrReduceOnly"

text \<open>The calls on \<^verbatim>\<open>MatchingSink\<close>, each with its arguments.\<close>

datatype (plugins only: code size) sink_event =
    OnAck sim_order timestamp
  | OnReject new_order reject_reason timestamp
  | OnCancel sim_order cancel_reason timestamp
  | OnCancelReject account_id cl_ord_id instrument_id timestamp
  | OnFill sim_order sim_order price qty timestamp
  | OnBookChange instrument_id side price qty nat
  | OnTrade instrument_id price qty side nat timestamp

text \<open>What a sink answers to \<^verbatim>\<open>reducible\<close> is a function of the calls it has received, the latest
  first, and of the order; the default answers the leaves.\<close>

type_synonym sink = "sink_event list \<Rightarrow> sim_order \<Rightarrow> qty"

definition default_reducible :: sink where
  "default_reducible evs od = so_leaves od"

record submit_result =
  sr_order_id :: nat
  sr_reason :: reject_reason
  sr_filled :: qty
  sr_resting :: qty

definition submit_result_zero :: submit_result where
  "submit_result_zero = \<lparr>sr_order_id = 0, sr_reason = NoReject, sr_filled = 0, sr_resting = 0\<rparr>"

definition sr_accepted :: "submit_result \<Rightarrow> bool" where
  "sr_accepted r \<longleftrightarrow> sr_reason r = NoReject"

record account_ledger =
  al_bought :: qty
  al_sold :: qty
  al_buy_notional :: notional
  al_sell_notional :: notional
  al_fills :: nat

definition ledger_zero :: account_ledger where
  "ledger_zero = \<lparr>al_bought = 0, al_sold = 0, al_buy_notional = 0, al_sell_notional = 0, al_fills = 0\<rparr>"

definition al_net :: "account_ledger \<Rightarrow> qty" where
  "al_net l = al_bought l - al_sold l"

record matching_stats =
  ms_submits :: nat
  ms_rejects :: nat
  ms_cancels :: nat
  ms_cancel_rejects :: nat
  ms_replaces :: nat
  ms_fills :: nat
  ms_trades :: nat
  ms_stp_cancels :: nat
  ms_expired :: nat
  ms_pool_exhausted :: nat
  ms_level_full :: nat

definition matching_stats_zero :: matching_stats where
  "matching_stats_zero =
     \<lparr>ms_submits = 0, ms_rejects = 0, ms_cancels = 0, ms_cancel_rejects = 0, ms_replaces = 0, ms_fills = 0,
      ms_trades = 0, ms_stp_cancels = 0, ms_expired = 0, ms_pool_exhausted = 0, ms_level_full = 0\<rparr>"

section \<open>The engine\<close>

record matching_engine =
  me_count :: nat
  me_sink :: sink
  me_log :: "sink_event list"
  me_books :: "nat \<Rightarrow> sim_book"
  me_pool :: "sim_order pool"
  me_by_key :: "nat open_hash_map"
  me_stp :: "nat \<Rightarrow> stp_mode"
  me_ledgers :: "nat \<Rightarrow> account_ledger"
  me_stats :: matching_stats
  me_next_order_id :: nat
  me_next_trade_id :: nat

text \<open>The pool has \<open>2 ^ b\<close> slots and the key table twice as many.\<close>

definition me_make :: "nat \<Rightarrow> nat \<Rightarrow> sink \<Rightarrow> matching_engine" where
  "me_make b n sk =
     \<lparr>me_count = (if n = 0 then 1 else n), me_sink = sk, me_log = [], me_books = (\<lambda>i. sb_new),
      me_pool = pool_warm_up (pool_new (2 ^ b)), me_by_key = ohm_new (b + 1), me_stp = (\<lambda>i. StpNone),
      me_ledgers = (\<lambda>a. ledger_zero), me_stats = matching_stats_zero, me_next_order_id = 1,
      me_next_trade_id = 1\<rparr>"

definition me_new :: "nat \<Rightarrow> sink \<Rightarrow> matching_engine" where
  "me_new = me_make 16"

definition set_sink :: "sink \<Rightarrow> matching_engine \<Rightarrow> matching_engine" where
  "set_sink sk s = s\<lparr>me_sink := sk, me_log := []\<rparr>"

definition set_stp_all :: "account_id \<Rightarrow> stp_mode \<Rightarrow> matching_engine \<Rightarrow> matching_engine" where
  "set_stp_all a mode s =
     (if a \<ge> kMaxAccounts then s
      else s\<lparr>me_stp := fold (\<lambda>i f. f(i * kMaxAccounts + a := mode)) [0..<me_count s] (me_stp s)\<rparr>)"

definition set_stp :: "account_id \<Rightarrow> instrument_id \<Rightarrow> stp_mode \<Rightarrow> matching_engine \<Rightarrow> matching_engine" where
  "set_stp a i mode s =
     (if a < kMaxAccounts \<and> i < me_count s
      then s\<lparr>me_stp := (me_stp s)(i * kMaxAccounts + a := mode)\<rparr> else s)"

definition stp :: "matching_engine \<Rightarrow> account_id \<Rightarrow> instrument_id \<Rightarrow> stp_mode" where
  "stp s a i = (if a < kMaxAccounts \<and> i < me_count s then me_stp s (i * kMaxAccounts + a) else StpNone)"

subsection \<open>References\<close>

text \<open>An order is read through its handle, a level through instrument, side and index. A call on the
  sink is recorded; a question to it is answered from the record.\<close>

definition me_order :: "matching_engine \<Rightarrow> nat \<Rightarrow> sim_order" where
  "me_order s h = (case pool_get (me_pool s) h of Some od \<Rightarrow> od | None \<Rightarrow> sim_order_zero)"

definition upd_sim :: "nat \<Rightarrow> (sim_order \<Rightarrow> sim_order) \<Rightarrow> matching_engine \<Rightarrow> matching_engine" where
  "upd_sim h f s = s\<lparr>me_pool := pool_put (me_pool s) h (f (me_order s h))\<rparr>"

definition me_level :: "matching_engine \<Rightarrow> instrument_id \<Rightarrow> side \<Rightarrow> nat \<Rightarrow> price_level" where
  "me_level s i sd k = sb_levels (me_books s i) sd ! k"

definition set_book :: "instrument_id \<Rightarrow> sim_book \<Rightarrow> matching_engine \<Rightarrow> matching_engine" where
  "set_book i b s = s\<lparr>me_books := (me_books s)(i := b)\<rparr>"

definition upd_level ::
  "instrument_id \<Rightarrow> side \<Rightarrow> nat \<Rightarrow> (price_level \<Rightarrow> price_level) \<Rightarrow> matching_engine \<Rightarrow> matching_engine" where
  "upd_level i sd k f s =
     set_book i (sb_set_levels sd ((sb_levels (me_books s i) sd)[k := f (me_level s i sd k)]) (me_books s i)) s"

definition upd_mstats :: "(matching_stats \<Rightarrow> matching_stats) \<Rightarrow> matching_engine \<Rightarrow> matching_engine" where
  "upd_mstats f s = s\<lparr>me_stats := f (me_stats s)\<rparr>"

definition emit :: "sink_event \<Rightarrow> matching_engine \<Rightarrow> matching_engine" where
  "emit e s = s\<lparr>me_log := e # me_log s\<rparr>"

definition reducible :: "matching_engine \<Rightarrow> nat \<Rightarrow> qty" where
  "reducible s h = me_sink s (me_log s) (me_order s h)"

definition me_key :: "account_id \<Rightarrow> cl_ord_id \<Rightarrow> u64" where
  "me_key a cid = push_bit 48 (of_nat a) OR (cid AND 0xFFFFFFFFFFFF)"

definition crosses :: "side \<Rightarrow> price \<Rightarrow> price \<Rightarrow> bool" where
  "crosses taker px maker_px = (if taker = Buy then px \<ge> maker_px else px \<le> maker_px)"

subsection \<open>Helpers\<close>

definition book_changed :: "instrument_id \<Rightarrow> side \<Rightarrow> nat \<Rightarrow> matching_engine \<Rightarrow> matching_engine" where
  "book_changed i sd k s =
     (let s1 = set_book i (sb_bump_update_id (me_books s i)) s; l = me_level s1 i sd k in
      emit (OnBookChange i sd (pv_price l) (pv_qty l) (sb_update_id (me_books s1 i))) s1)"

definition book_level_gone :: "instrument_id \<Rightarrow> side \<Rightarrow> price \<Rightarrow> matching_engine \<Rightarrow> matching_engine" where
  "book_level_gone i sd px s =
     (let s1 = set_book i (sb_bump_update_id (me_books s i)) s in
      emit (OnBookChange i sd px 0 (sb_update_id (me_books s1 i))) s1)"

definition ledger_index :: "account_id \<Rightarrow> nat" where
  "ledger_index a = (if a < kMaxAccounts then a else kMaxAccounts - 1)"

definition ledger_add :: "sim_order \<Rightarrow> notional \<Rightarrow> qty \<Rightarrow> (nat \<Rightarrow> account_ledger) \<Rightarrow> (nat \<Rightarrow> account_ledger)" where
  "ledger_add od n q ls =
     (let a = ledger_index (so_account od); l = (ls a)\<lparr>al_fills := al_fills (ls a) + 1\<rparr> in
      ls(a := (if so_side od = Buy
               then l\<lparr>al_bought := al_bought l + q, al_buy_notional := al_buy_notional l + n\<rparr>
               else l\<lparr>al_sold := al_sold l + q, al_sell_notional := al_sell_notional l + n\<rparr>)))"

definition record_fill ::
  "sim_order \<Rightarrow> sim_order \<Rightarrow> price \<Rightarrow> qty \<Rightarrow> matching_engine \<Rightarrow> matching_engine" where
  "record_fill maker taker px q s =
     (let s1 = upd_mstats (\<lambda>m. m\<lparr>ms_fills := ms_fills m + 1, ms_trades := ms_trades m + 1\<rparr>) s;
          n = mul px q
      in s1\<lparr>me_ledgers := ledger_add taker n q (ledger_add maker n q (me_ledgers s1))\<rparr>)"

definition free_order :: "nat \<Rightarrow> matching_engine \<Rightarrow> matching_engine" where
  "free_order h s =
     (let od = me_order s h in
      s\<lparr>me_by_key := fst (ohm_erase (me_by_key s) (me_key (so_account od) (so_cl_ord_id od))),
        me_pool := pool_free (me_pool s) h\<rparr>)"

definition unlink ::
  "nat \<Rightarrow> instrument_id \<Rightarrow> side \<Rightarrow> nat \<Rightarrow> matching_engine \<Rightarrow> matching_engine" where
  "unlink h i sd k s =
     (let od = me_order s h;
          s1 = (if so_prev od \<noteq> kNullHandle then upd_sim (so_prev od) (\<lambda>p. p\<lparr>so_next := so_next od\<rparr>) s
                else upd_level i sd k (\<lambda>l. l\<lparr>pv_head := so_next od\<rparr>) s);
          od1 = me_order s1 h;
          s2 = (if so_next od1 \<noteq> kNullHandle then upd_sim (so_next od1) (\<lambda>n. n\<lparr>so_prev := so_prev od1\<rparr>) s1
                else upd_level i sd k (\<lambda>l. l\<lparr>pv_tail := so_prev od1\<rparr>) s1);
          s3 = upd_level i sd k (\<lambda>l. l\<lparr>pv_count := pv_count l - 1\<rparr>) s2
      in upd_sim h (\<lambda>x. x\<lparr>so_next := kNullHandle, so_prev := kNullHandle\<rparr>) s3)"

definition remove_resting :: "nat \<Rightarrow> cancel_reason \<Rightarrow> timestamp \<Rightarrow> matching_engine \<Rightarrow> matching_engine" where
  "remove_resting h why now s =
     (let od = me_order s h; i = so_instrument od; sd = so_side od in
      case sb_find (me_books s i) sd (so_price od) of
        None \<Rightarrow> free_order h (emit (OnCancel od why now) s)
      | Some k \<Rightarrow>
          (let s1 = upd_level i sd k (\<lambda>l. l\<lparr>pv_qty := pv_qty l - so_leaves od\<rparr>) s;
               s2 = unlink h i sd k s1;
               s3 = (if pv_count (me_level s2 i sd k) = 0
                     then (let s' = book_level_gone i sd (so_price od) s2
                           in set_book i (sb_erase sd k (me_books s' i)) s')
                     else book_changed i sd k s2)
           in free_order h (emit (OnCancel (me_order s3 h) why now) s3)))"

definition rest :: "nat \<Rightarrow> matching_engine \<Rightarrow> matching_engine" where
  "rest h s =
     (let od = me_order s h; i = so_instrument od; sd = so_side od in
      case sb_find_or_insert (me_books s i) sd (so_price od) of
        (b, None) \<Rightarrow>
          (let s1 = upd_mstats (\<lambda>m. m\<lparr>ms_level_full := ms_level_full m + 1\<rparr>) s;
               n = \<lparr>no_account = so_account od, no_cl_ord_id = so_cl_ord_id od, no_instrument = i, no_side = sd,
                    no_type = so_type od, no_tif = so_tif od, no_price = so_price od, no_qty = so_qty od,
                    no_reduce_only = so_reduce_only od\<rparr>
           in free_order h (emit (OnReject n VenueReject (so_created od)) s1))
      | (b, Some k) \<Rightarrow>
          (let s1 = set_book i b s; t = pv_tail (me_level s1 i sd k);
               s2 = upd_sim h (\<lambda>x. x\<lparr>so_prev := t, so_next := kNullHandle\<rparr>) s1;
               s3 = (if t \<noteq> kNullHandle then upd_sim t (\<lambda>x. x\<lparr>so_next := h\<rparr>) s2
                     else upd_level i sd k (\<lambda>l. l\<lparr>pv_head := h\<rparr>) s2);
               s4 = upd_level i sd k (\<lambda>l. l\<lparr>pv_tail := h, pv_count := pv_count l + 1,
                                            pv_qty := pv_qty l + so_leaves (me_order s3 h)\<rparr>) s3
           in book_changed i sd k s4))"

subsection \<open>Matching\<close>

text \<open>A resting order leaves its level without trading: self-trade prevention or the reduce-only rule.\<close>

definition cancel_maker ::
  "nat \<Rightarrow> instrument_id \<Rightarrow> side \<Rightarrow> nat \<Rightarrow> cancel_reason \<Rightarrow> timestamp \<Rightarrow> matching_engine \<Rightarrow> matching_engine" where
  "cancel_maker mh i sd k why now s =
     (let s1 = upd_level i sd k (\<lambda>l. l\<lparr>pv_qty := pv_qty l - so_leaves (me_order s mh)\<rparr>) s;
          s2 = unlink mh i sd k s1
      in free_order mh (emit (OnCancel (me_order s2 mh) why now) s2))"

definition count_expired :: "matching_engine \<Rightarrow> matching_engine" where
  "count_expired = upd_mstats (\<lambda>m. m\<lparr>ms_expired := ms_expired m + 1\<rparr>)"

text \<open>The trade of \<open>q\<close> between the maker and the taker, and what becomes of the maker.\<close>

definition do_fill ::
  "nat \<Rightarrow> nat \<Rightarrow> instrument_id \<Rightarrow> side \<Rightarrow> nat \<Rightarrow> price \<Rightarrow> qty \<Rightarrow> timestamp \<Rightarrow> matching_engine \<Rightarrow> matching_engine" where
  "do_fill th mh i sd k px q now s =
     (let s1 = upd_sim mh (\<lambda>x. x\<lparr>so_cum_qty := so_cum_qty x + q\<rparr>) s;
          s2 = upd_sim th (\<lambda>x. x\<lparr>so_cum_qty := so_cum_qty x + q\<rparr>) s1;
          s3 = upd_level i sd k (\<lambda>l. l\<lparr>pv_qty := pv_qty l - q\<rparr>) s2;
          maker = me_order s3 mh; taker = me_order s3 th;
          s4 = record_fill maker taker px q s3;
          s5 = emit (OnFill maker taker px q now) s4;
          s6 = emit (OnTrade (so_instrument taker) px q (so_side taker) (me_next_trade_id s5) now)
                 (s5\<lparr>me_next_trade_id := me_next_trade_id s5 + 1\<rparr>)
      in if so_leaves maker = 0 then free_order mh (unlink mh i sd k s6)
         else if so_reduce_only maker \<and> reducible s6 mh = 0
         then cancel_maker mh i sd k CrReduceOnly now (count_expired s6)
         else s6)"

text \<open>One pass of the inner loop: the taker goes on to the next order of the level, is ended by
  self-trade prevention, or has closed the position it reduces.\<close>

datatype match_step = NextMaker matching_engine nat | TakerDone matching_engine | TakerReduced matching_engine

definition match_maker ::
  "nat \<Rightarrow> stp_mode \<Rightarrow> instrument_id \<Rightarrow> side \<Rightarrow> nat \<Rightarrow> price \<Rightarrow> timestamp \<Rightarrow> nat \<Rightarrow> matching_engine \<Rightarrow> match_step" where
  "match_maker th mode i sd k px now mh s =
     (let maker = me_order s mh; taker = me_order s th; nxt = so_next maker; leaves = so_leaves taker;
          q = (if so_reduce_only taker then min leaves (reducible s th) else leaves)
      in if so_reduce_only taker \<and> q = 0 then TakerReduced s
         else if mode \<noteq> StpNone \<and> so_account maker = so_account taker
         then (let s1 = upd_mstats (\<lambda>m. m\<lparr>ms_stp_cancels := ms_stp_cancels m + 1\<rparr>) s;
                   s2 = (if mode = CancelMaker \<or> mode = CancelBoth then cancel_maker mh i sd k CrStp now s1 else s1)
               in if mode = CancelTaker \<or> mode = CancelBoth then TakerDone s2 else NextMaker s2 nxt)
         else (let m = (if so_reduce_only maker then min (so_leaves maker) (reducible s mh) else so_leaves maker)
               in if m = 0 then NextMaker (cancel_maker mh i sd k CrReduceOnly now (count_expired s)) nxt
                  else NextMaker (do_fill th mh i sd k px (min q m) now s) nxt))"

partial_function (option) match_queue ::
  "nat \<Rightarrow> stp_mode \<Rightarrow> instrument_id \<Rightarrow> side \<Rightarrow> nat \<Rightarrow> price \<Rightarrow> timestamp \<Rightarrow> nat \<Rightarrow> matching_engine \<Rightarrow>
   (matching_engine \<times> bool \<times> bool) option" where
  [code]: "match_queue th mode i sd k px now idx s =
     (if idx = kNullHandle \<or> \<not> so_leaves (me_order s th) > 0 then Some (s, False, False)
      else case match_maker th mode i sd k px now idx s of
             NextMaker s' nxt \<Rightarrow> match_queue th mode i sd k px now nxt s'
           | TakerDone s' \<Rightarrow> Some (s', True, False)
           | TakerReduced s' \<Rightarrow> Some (s', False, True))"

text \<open>What follows the inner loop: the level is announced or dropped, and the taker may have ended.\<close>

definition close_level :: "instrument_id \<Rightarrow> side \<Rightarrow> nat \<Rightarrow> price \<Rightarrow> matching_engine \<Rightarrow> matching_engine" where
  "close_level i sd k px s =
     (if pv_count (me_level s i sd k) = 0
      then (let s' = book_level_gone i sd px s in set_book i (sb_erase sd k (me_books s' i)) s')
      else book_changed i sd k s)"

definition end_taker :: "nat \<Rightarrow> cancel_reason \<Rightarrow> timestamp \<Rightarrow> matching_engine \<Rightarrow> matching_engine \<times> bool \<times> qty" where
  "end_taker th why now s =
     (free_order th (emit (OnCancel (me_order s th) why now) s), False, so_cum_qty (me_order s th))"

partial_function (option) match_loop ::
  "nat \<Rightarrow> stp_mode \<Rightarrow> timestamp \<Rightarrow> matching_engine \<Rightarrow> (matching_engine \<times> bool \<times> qty) option" where
  [code]: "match_loop th mode now s =
     (let taker = me_order s th; i = so_instrument taker; sd = opposite (so_side taker) in
      if \<not> so_leaves taker > 0 then Some (s, True, so_cum_qty taker)
      else case sb_best (me_books s i) sd of
             None \<Rightarrow> Some (s, True, so_cum_qty taker)
           | Some k \<Rightarrow>
               (let px = pv_price (me_level s i sd k) in
                if so_type taker \<noteq> Market \<and> \<not> crosses (so_side taker) (so_price taker) px
                then Some (s, True, so_cum_qty taker)
                else case match_queue th mode i sd k px now (pv_head (me_level s i sd k)) s of
                       None \<Rightarrow> None
                     | Some (s1, taker_done, taker_reduced) \<Rightarrow>
                         (let s2 = close_level i sd k px s1; t = me_order s2 th in
                          if taker_done then Some (end_taker th CrStp now s2)
                          else if taker_reduced \<or>
                                  (so_reduce_only t \<and> so_leaves t > 0 \<and> reducible s2 th = 0)
                          then Some (end_taker th CrReduceOnly now (count_expired s2))
                          else match_loop th mode now s2)))"

definition match_order :: "nat \<Rightarrow> timestamp \<Rightarrow> matching_engine \<Rightarrow> (matching_engine \<times> bool \<times> qty) option" where
  "match_order th now s =
     match_loop th (stp s (so_account (me_order s th)) (so_instrument (me_order s th))) now s"

text \<open>The pre-check of a fill-or-kill order with self-trade prevention: the queue of one level, whether the
  scan returned inside it, and the levels from the best down.\<close>

partial_function (option) fillable_queue ::
  "matching_engine \<Rightarrow> sim_order \<Rightarrow> stp_mode \<Rightarrow> nat \<Rightarrow> qty \<Rightarrow> (qty \<times> bool) option" where
  [code]: "fillable_queue s taker mode idx acc =
     (if idx = kNullHandle then Some (acc, False)
      else (let od = me_order s idx in
            if so_account od \<noteq> so_account taker
            then (let acc' = acc + so_leaves od in
                  if acc' \<ge> so_leaves taker then Some (acc', True)
                  else fillable_queue s taker mode (so_next od) acc')
            else if mode \<noteq> CancelMaker then Some (acc, True)
            else if acc \<ge> so_leaves taker then Some (acc, True)
            else fillable_queue s taker mode (so_next od) acc))"

fun fillable_levels ::
  "matching_engine \<Rightarrow> sim_order \<Rightarrow> stp_mode \<Rightarrow> price_level list \<Rightarrow> nat \<Rightarrow> qty \<Rightarrow> qty option" where
  "fillable_levels s taker mode v 0 acc = Some acc"
| "fillable_levels s taker mode v (Suc i) acc =
     (if so_type taker \<noteq> Market \<and> \<not> crosses (so_side taker) (so_price taker) (pv_price (v ! i)) then Some acc
      else case fillable_queue s taker mode (pv_head (v ! i)) acc of
             None \<Rightarrow> None
           | Some (acc', returned) \<Rightarrow>
               if returned then Some acc' else fillable_levels s taker mode v i acc')"

definition fillable :: "matching_engine \<Rightarrow> nat \<Rightarrow> qty option" where
  "fillable s th =
     (let taker = me_order s th; b = me_books s (so_instrument taker); opp = opposite (so_side taker);
          mode = stp s (so_account taker) (so_instrument taker)
      in if mode = StpNone then Some (sb_qty_at_or_better b opp (so_price taker) (so_type taker = Market))
         else fillable_levels s taker mode (sb_levels b opp) (length (sb_levels b opp)) 0)"

section \<open>Order entry\<close>

definition reject :: "new_order \<Rightarrow> reject_reason \<Rightarrow> timestamp \<Rightarrow> matching_engine \<Rightarrow> matching_engine \<times> submit_result" where
  "reject od why now s =
     (emit (OnReject od why now) (upd_mstats (\<lambda>m. m\<lparr>ms_rejects := ms_rejects m + 1\<rparr>) s),
      submit_result_zero\<lparr>sr_reason := why\<rparr>)"

text \<open>The order as it enters the pool.\<close>

definition make_sim_order :: "new_order \<Rightarrow> nat \<Rightarrow> timestamp \<Rightarrow> sim_order" where
  "make_sim_order od oid now =
     sim_order_zero
       \<lparr>so_order_id := oid, so_cl_ord_id := no_cl_ord_id od,
        so_price := (if no_type od = Market then 0 else no_price od), so_qty := no_qty od, so_created := now,
        so_instrument := no_instrument od, so_next := kNullHandle, so_prev := kNullHandle,
        so_account := no_account od, so_side := no_side od, so_type := no_type od,
        so_tif := (if no_type od = Market then Ioc else no_tif od), so_reduce_only := no_reduce_only od\<rparr>"

text \<open>The guards, in the order of the code; no guard is the passing of them all.\<close>

definition submit_guard :: "new_order \<Rightarrow> matching_engine \<Rightarrow> reject_reason option" where
  "submit_guard od s =
     (if no_instrument od \<ge> me_count s then Some InstrumentDisabled
      else if \<not> no_qty od > 0 then Some InvalidLot
      else if no_type od \<noteq> Market \<and> \<not> no_price od > 0 then Some InvalidTick
      else if ohm_contains (me_by_key s) (me_key (no_account od) (no_cl_ord_id od)) then Some DuplicateId
      else if no_type od = PostOnly \<and>
              (case sb_best (me_books s (no_instrument od)) (opposite (no_side od)) of
                 None \<Rightarrow> False
               | Some k \<Rightarrow> crosses (no_side od) (no_price od)
                             (pv_price (me_level s (no_instrument od) (opposite (no_side od)) k)))
      then Some PostOnlyWouldCross
      else None)"

text \<open>The allocated order is written, registered under its key and acknowledged.\<close>

definition enter_order :: "new_order \<Rightarrow> nat \<Rightarrow> timestamp \<Rightarrow> matching_engine \<Rightarrow> matching_engine" where
  "enter_order od h now s =
     (let x = make_sim_order od (me_next_order_id s) now;
          s1 = s\<lparr>me_pool := pool_put (me_pool s) h x, me_next_order_id := me_next_order_id s + 1\<rparr>;
          s2 = s1\<lparr>me_by_key := fst (ohm_insert (me_by_key s1) (me_key (no_account od) (no_cl_ord_id od)) h)\<rparr>
      in emit (OnAck x now) s2)"

definition expire_order :: "nat \<Rightarrow> cancel_reason \<Rightarrow> timestamp \<Rightarrow> matching_engine \<Rightarrow> matching_engine" where
  "expire_order h why now s =
     free_order h (emit (OnCancel (me_order s h) why now) (count_expired s))"

text \<open>What happens to the order after the sweep.\<close>

definition settle_order ::
  "new_order \<Rightarrow> nat \<Rightarrow> timestamp \<Rightarrow> submit_result \<Rightarrow> matching_engine \<Rightarrow> matching_engine \<times> submit_result" where
  "settle_order od h now r s =
     (let x = me_order s h; r1 = r\<lparr>sr_filled := so_cum_qty x\<rparr> in
      if so_leaves x = 0 then (free_order h s, r1)
      else if no_type od = Market \<or> so_tif x = Ioc \<or> so_tif x = Fok
      then (expire_order h (if no_type od = Market then CrNoLiquidity else CrIoc) now s, r1)
      else (let s1 = rest h s in
            if \<not> pool_is_live (me_pool s1) h then (s1, r1\<lparr>sr_reason := VenueReject\<rparr>)
            else (s1, r1\<lparr>sr_resting := so_leaves (me_order s1 h)\<rparr>)))"

definition submit_order :: "new_order \<Rightarrow> timestamp \<Rightarrow> matching_engine \<Rightarrow> (matching_engine \<times> submit_result) option" where
  "submit_order od now s0 =
     (let s = upd_mstats (\<lambda>m. m\<lparr>ms_submits := ms_submits m + 1\<rparr>) s0 in
      case submit_guard od s of
        Some why \<Rightarrow> Some (reject od why now s)
      | None \<Rightarrow>
          (case pool_allocate (me_pool s) of
             (p, h) \<Rightarrow>
               if h = kNullHandle
               then Some (reject od PoolExhausted now
                            (upd_mstats (\<lambda>m. m\<lparr>ms_pool_exhausted := ms_pool_exhausted m + 1\<rparr>) (s\<lparr>me_pool := p\<rparr>)))
               else (let s1 = enter_order od h now (s\<lparr>me_pool := p\<rparr>); x = me_order s1 h;
                         r = submit_result_zero\<lparr>sr_order_id := so_order_id x\<rparr>
                     in case (if so_tif x = Fok then fillable s1 h else Some (so_qty x)) of
                          None \<Rightarrow> None
                        | Some f \<Rightarrow>
                            if so_tif x = Fok \<and> (f < so_qty x \<or> (so_reduce_only x \<and> reducible s1 h < so_qty x))
                            then Some (expire_order h CrFok now s1, r)
                            else if no_type od = PostOnly then Some (settle_order od h now r s1)
                            else (case match_order h now s1 of
                                    None \<Rightarrow> None
                                  | Some (s2, ok, filled) \<Rightarrow>
                                      if \<not> ok then Some (s2, r\<lparr>sr_filled := filled\<rparr>)
                                      else Some (settle_order od h now r s2)))))"

definition cancel_order :: "account_id \<Rightarrow> cl_ord_id \<Rightarrow> timestamp \<Rightarrow> matching_engine \<Rightarrow> matching_engine \<times> bool" where
  "cancel_order a cid now s =
     (case ohm_find (me_by_key s) (me_key a cid) of
        None \<Rightarrow>
          (emit (OnCancelReject a cid instrument_invalid now)
             (upd_mstats (\<lambda>m. m\<lparr>ms_cancel_rejects := ms_cancel_rejects m + 1\<rparr>) s), False)
      | Some h \<Rightarrow>
          (remove_resting h CrRequested now (upd_mstats (\<lambda>m. m\<lparr>ms_cancels := ms_cancels m + 1\<rparr>) s), True))"

text \<open>The amendment in place: the order keeps its slot in the queue under a new identity.\<close>

definition amend_order ::
  "account_id \<Rightarrow> cl_ord_id \<Rightarrow> cl_ord_id \<Rightarrow> qty \<Rightarrow> timestamp \<Rightarrow> nat \<Rightarrow> nat \<Rightarrow> matching_engine \<Rightarrow>
   matching_engine \<times> submit_result" where
  "amend_order a orig new_id q now h k s =
     (let od = me_order s h; i = so_instrument od; sd = so_side od;
          s1 = emit (OnCancel od CrReplaced now) s;
          s2 = s1\<lparr>me_by_key := fst (ohm_erase (me_by_key s1) (me_key a orig))\<rparr>;
          s3 = upd_level i sd k (\<lambda>l. l\<lparr>pv_qty := pv_qty l - (so_leaves od - q)\<rparr>) s2;
          s4 = upd_sim h (\<lambda>x. x\<lparr>so_order_id := me_next_order_id s3, so_cl_ord_id := new_id, so_qty := q,
                                so_cum_qty := 0, so_created := now\<rparr>)
                 (s3\<lparr>me_next_order_id := me_next_order_id s3 + 1\<rparr>);
          s5 = s4\<lparr>me_by_key := fst (ohm_insert (me_by_key s4) (me_key a new_id) h)\<rparr>;
          s6 = (if q \<noteq> so_leaves od then book_changed i sd k s5 else s5);
          s7 = emit (OnAck (me_order s6 h) now) s6
      in (s7, submit_result_zero\<lparr>sr_order_id := so_order_id (me_order s7 h), sr_resting := q\<rparr>))"

text \<open>A resting order always has its level; where it has none the code would follow a null pointer.\<close>

definition replace_order ::
  "account_id \<Rightarrow> cl_ord_id \<Rightarrow> cl_ord_id \<Rightarrow> price \<Rightarrow> qty \<Rightarrow> timestamp \<Rightarrow> matching_engine \<Rightarrow>
   (matching_engine \<times> submit_result) option" where
  "replace_order a orig new_id px q now s0 =
     (let s = upd_mstats (\<lambda>m. m\<lparr>ms_replaces := ms_replaces m + 1\<rparr>) s0 in
      case ohm_find (me_by_key s) (me_key a orig) of
        None \<Rightarrow>
          (let n = \<lparr>no_account = a, no_cl_ord_id = new_id, no_instrument = instrument_invalid, no_side = Buy,
                    no_type = Limit, no_tif = Gtc, no_price = px, no_qty = q, no_reduce_only = False\<rparr>;
               s1 = emit (OnCancelReject a orig instrument_invalid now)
                      (upd_mstats (\<lambda>m. m\<lparr>ms_cancel_rejects := ms_cancel_rejects m + 1\<rparr>) s)
           in Some (reject n VenueUnknownOrder now s1))
      | Some h \<Rightarrow>
          (let od = me_order s h in
           if q > 0 \<and> px = so_price od \<and> q \<le> so_leaves od \<and> \<not> ohm_contains (me_by_key s) (me_key a new_id)
           then (case sb_find (me_books s (so_instrument od)) (so_side od) (so_price od) of
                   None \<Rightarrow> None
                 | Some k \<Rightarrow> Some (amend_order a orig new_id q now h k s))
           else submit_order
                  \<lparr>no_account = a, no_cl_ord_id = new_id, no_instrument = so_instrument od, no_side = so_side od,
                   no_type = so_type od, no_tif = so_tif od, no_price = px, no_qty = q,
                   no_reduce_only = so_reduce_only od\<rparr> now (remove_resting h CrReplaced now s)))"

section \<open>Mirroring historical decreases\<close>

text \<open>The newest order of the account at a level, from the tail back.\<close>

partial_function (option) newest_of :: "matching_engine \<Rightarrow> account_id \<Rightarrow> nat \<Rightarrow> nat option" where
  [code]: "newest_of s a idx =
     (if idx \<noteq> kNullHandle \<and> so_account (me_order s idx) \<noteq> a then newest_of s a (so_prev (me_order s idx))
      else Some idx)"

partial_function (option) reduce_loop ::
  "account_id \<Rightarrow> instrument_id \<Rightarrow> side \<Rightarrow> price \<Rightarrow> qty \<Rightarrow> timestamp \<Rightarrow> matching_engine \<Rightarrow> matching_engine option" where
  [code]: "reduce_loop a i sd px by now s =
     (if \<not> by > 0 then Some s
      else case sb_find (me_books s i) sd px of
             None \<Rightarrow> Some s
           | Some k \<Rightarrow>
               (case newest_of s a (pv_tail (me_level s i sd k)) of
                  None \<Rightarrow> None
                | Some h \<Rightarrow>
                    if h = kNullHandle then Some s
                    else if so_leaves (me_order s h) \<le> by
                    then reduce_loop a i sd px (by - so_leaves (me_order s h)) now
                           (remove_resting h CrRequested now
                              (upd_mstats (\<lambda>m. m\<lparr>ms_cancels := ms_cancels m + 1\<rparr>) s))
                    else Some (book_changed i sd k
                                (upd_level i sd k (\<lambda>l. l\<lparr>pv_qty := pv_qty l - by\<rparr>)
                                   (upd_sim h (\<lambda>x. x\<lparr>so_qty := so_qty x - by\<rparr>) s)))))"

definition reduce_account_qty ::
  "account_id \<Rightarrow> instrument_id \<Rightarrow> side \<Rightarrow> price \<Rightarrow> qty \<Rightarrow> timestamp \<Rightarrow> matching_engine \<Rightarrow> matching_engine option" where
  "reduce_account_qty a i sd px by now s =
     (if i \<ge> me_count s then Some s else reduce_loop a i sd px by now s)"

section \<open>Queries\<close>

definition me_find :: "matching_engine \<Rightarrow> account_id \<Rightarrow> cl_ord_id \<Rightarrow> sim_order option" where
  "me_find s a cid = map_option (me_order s) (ohm_find (me_by_key s) (me_key a cid))"

definition level_qty :: "matching_engine \<Rightarrow> instrument_id \<Rightarrow> side \<Rightarrow> price \<Rightarrow> qty" where
  "level_qty s i sd px =
     (case sb_find (me_books s i) sd px of None \<Rightarrow> 0 | Some k \<Rightarrow> pv_qty (me_level s i sd k))"

definition me_update_id :: "matching_engine \<Rightarrow> instrument_id \<Rightarrow> nat" where
  "me_update_id s i = sb_update_id (me_books s i)"

definition l2_snapshot :: "matching_engine \<Rightarrow> instrument_id \<Rightarrow> side \<Rightarrow> nat \<Rightarrow> level list" where
  "l2_snapshot s i sd n = sb_snapshot (me_books s i) sd n"

definition top_of_book :: "matching_engine \<Rightarrow> instrument_id \<Rightarrow> level \<times> level" where
  "top_of_book s i = (sb_best_level (me_books s i) Buy, sb_best_level (me_books s i) Sell)"

definition open_orders :: "matching_engine \<Rightarrow> nat" where
  "open_orders s = pl_size (me_pool s)"

definition ledger :: "matching_engine \<Rightarrow> account_id \<Rightarrow> account_ledger" where
  "ledger s a = me_ledgers s (ledger_index a)"

text \<open>The orders \<^verbatim>\<open>for_each_resting\<close> visits: a queue from its head, and the levels from the best down.\<close>

partial_function (option) fifo :: "matching_engine \<Rightarrow> nat \<Rightarrow> nat list \<Rightarrow> nat list option" where
  [code]: "fifo s idx visited =
     (if idx = kNullHandle then Some visited
      else fifo s (so_next (me_order s idx)) (visited @ [idx]))"

fun resting_levels :: "matching_engine \<Rightarrow> price_level list \<Rightarrow> nat \<Rightarrow> nat list \<Rightarrow> nat list option" where
  "resting_levels s v 0 visited = Some visited"
| "resting_levels s v (Suc i) visited =
     (case fifo s (pv_head (v ! i)) visited of
        None \<Rightarrow> None
      | Some visited' \<Rightarrow> resting_levels s v i visited')"

definition resting :: "matching_engine \<Rightarrow> instrument_id \<Rightarrow> side \<Rightarrow> nat list option" where
  "resting s i sd =
     (let v = sb_levels (me_books s i) sd in resting_levels s v (length v) [])"

partial_function (option) account_sum :: "matching_engine \<Rightarrow> account_id \<Rightarrow> nat \<Rightarrow> qty \<Rightarrow> qty option" where
  [code]: "account_sum s a idx acc =
     (if idx = kNullHandle then Some acc
      else (let od = me_order s idx in
            account_sum s a (so_next od) (if so_account od = a then acc + so_leaves od else acc)))"

fun best_of_levels :: "matching_engine \<Rightarrow> account_id \<Rightarrow> price_level list \<Rightarrow> nat \<Rightarrow> level option" where
  "best_of_levels s a v 0 = Some level_zero"
| "best_of_levels s a v (Suc i) =
     (case account_sum s a (pv_head (v ! i)) 0 of
        None \<Rightarrow> None
      | Some q \<Rightarrow> if q > 0 then Some \<lparr>lv_price = pv_price (v ! i), lv_qty = q\<rparr> else best_of_levels s a v i)"

definition best_of :: "matching_engine \<Rightarrow> account_id \<Rightarrow> instrument_id \<Rightarrow> side \<Rightarrow> level option" where
  "best_of s a i sd =
     (if i \<ge> me_count s then Some level_zero
      else (let v = sb_levels (me_books s i) sd in best_of_levels s a v (length v)))"

definition account_qty_at :: "matching_engine \<Rightarrow> account_id \<Rightarrow> instrument_id \<Rightarrow> side \<Rightarrow> price \<Rightarrow> qty option" where
  "account_qty_at s a i sd px =
     (if i \<ge> me_count s then Some 0
      else case sb_find (me_books s i) sd px of
             None \<Rightarrow> Some 0
           | Some k \<Rightarrow> account_sum s a (pv_head (me_level s i sd k)) 0)"

record side_exposure =
  se_orders :: nat
  se_leaves :: qty
  se_best :: price

definition exposure :: "matching_engine \<Rightarrow> account_id \<Rightarrow> instrument_id \<Rightarrow> side \<Rightarrow> side_exposure" where
  "exposure s a i sd =
     fold (\<lambda>h e. let od = me_order s h in
             if so_account od \<noteq> a \<or> so_instrument od \<noteq> i \<or> so_side od \<noteq> sd then e
             else e\<lparr>se_orders := se_orders e + 1, se_leaves := se_leaves e + so_leaves od,
                    se_best := (if se_best e = 0 \<or> better sd (so_price od) (se_best e)
                                then so_price od else se_best e)\<rparr>)
       (pool_handles (me_pool s)) \<lparr>se_orders = 0, se_leaves = 0, se_best = 0\<rparr>"

end
