(* ===== verification/MatchingInv.thy ===== *)
theory MatchingInv
  imports Matching L2BookProps
begin

unbundle bit_operations_syntax

text \<open>
  The representation of the exchange's books: every level heads a doubly linked queue of live orders of its price,
  its count and quantity are those of the queue, the levels of a side are sorted, the key table holds exactly the
  live orders. \<open>me_rep X s Q\<close> says so for the queues \<open>Q\<close>, with \<open>X\<close> the live orders that are in no queue (the
  incoming order during a sweep); \<open>me_inv\<close> is the invariant between operations. The lemmas follow the primitives of
  the code: unlinking, releasing, appending.
\<close>

section \<open>Views of the state\<close>

definition me_levels :: "matching_engine \<Rightarrow> instrument_id \<Rightarrow> side \<Rightarrow> price_level list" where
  "me_levels s i sd = sb_levels (me_books s i) sd"

lemma me_level_levels: "me_level s i sd k = me_levels s i sd ! k"
  by (simp add: me_level_def me_levels_def)

lemma sb_levels_set [simp]:
  "sb_levels (sb_set_levels sd v b) sd' = (if sd' = sd then v else sb_levels b sd')"
  "sb_update_id (sb_set_levels sd v b) = sb_update_id b"
  "sb_levels (sb_bump_update_id b) sd' = sb_levels b sd'"
  "sb_update_id (sb_bump_update_id b) = Suc (sb_update_id b)"
  by (cases sd; cases sd'; simp add: sb_levels_def sb_set_levels_def sb_bump_update_id_def)+

lemma me_order_upd_sim [simp]:
  "me_order (upd_sim h f s) g = (if g = h then f (me_order s h) else me_order s g)"
  by (simp add: me_order_def upd_sim_def pool_get_def pool_put_def)

lemma me_order_free [simp]:
  "me_order (free_order h s) g = (if g = h then sim_order_zero else me_order s g)"
  by (simp add: me_order_def free_order_def Let_def pool_get_def pool_free_def)

lemma upd_sim_frame [simp]:
  "me_count (upd_sim h f s) = me_count s" "me_sink (upd_sim h f s) = me_sink s"
  "me_log (upd_sim h f s) = me_log s" "me_books (upd_sim h f s) = me_books s"
  "me_by_key (upd_sim h f s) = me_by_key s" "me_stp (upd_sim h f s) = me_stp s"
  "me_ledgers (upd_sim h f s) = me_ledgers s" "me_stats (upd_sim h f s) = me_stats s"
  "me_next_order_id (upd_sim h f s) = me_next_order_id s"
  "me_next_trade_id (upd_sim h f s) = me_next_trade_id s"
  "me_levels (upd_sim h f s) = me_levels s"
  by (simp_all add: upd_sim_def me_levels_def fun_eq_iff)

lemma set_book_frame [simp]:
  "me_count (set_book i b s) = me_count s" "me_sink (set_book i b s) = me_sink s"
  "me_log (set_book i b s) = me_log s" "me_pool (set_book i b s) = me_pool s"
  "me_by_key (set_book i b s) = me_by_key s" "me_stp (set_book i b s) = me_stp s"
  "me_ledgers (set_book i b s) = me_ledgers s" "me_stats (set_book i b s) = me_stats s"
  "me_next_order_id (set_book i b s) = me_next_order_id s"
  "me_next_trade_id (set_book i b s) = me_next_trade_id s"
  "me_order (set_book i b s) = me_order s"
  "me_books (set_book i b s) j = (if j = i then b else me_books s j)"
  "me_levels (set_book i b s) j sd = (if j = i then sb_levels b sd else me_levels s j sd)"
  by (simp_all add: set_book_def me_levels_def me_order_def fun_eq_iff)

lemma upd_level_frame [simp]:
  "me_count (upd_level i sd k f s) = me_count s" "me_sink (upd_level i sd k f s) = me_sink s"
  "me_log (upd_level i sd k f s) = me_log s" "me_pool (upd_level i sd k f s) = me_pool s"
  "me_by_key (upd_level i sd k f s) = me_by_key s" "me_stp (upd_level i sd k f s) = me_stp s"
  "me_ledgers (upd_level i sd k f s) = me_ledgers s" "me_stats (upd_level i sd k f s) = me_stats s"
  "me_next_order_id (upd_level i sd k f s) = me_next_order_id s"
  "me_next_trade_id (upd_level i sd k f s) = me_next_trade_id s"
  "me_order (upd_level i sd k f s) = me_order s"
  "sb_update_id (me_books (upd_level i sd k f s) j) = sb_update_id (me_books s j)"
  "me_levels (upd_level i sd k f s) j sd' =
     (if j = i \<and> sd' = sd then (me_levels s i sd)[k := f (me_levels s i sd ! k)] else me_levels s j sd')"
  by (auto simp: upd_level_def me_level_def) (auto simp: me_levels_def)

lemma emit_frame [simp]:
  "me_count (emit e s) = me_count s" "me_sink (emit e s) = me_sink s"
  "me_log (emit e s) = e # me_log s" "me_books (emit e s) = me_books s" "me_pool (emit e s) = me_pool s"
  "me_by_key (emit e s) = me_by_key s" "me_stp (emit e s) = me_stp s"
  "me_ledgers (emit e s) = me_ledgers s" "me_stats (emit e s) = me_stats s"
  "me_next_order_id (emit e s) = me_next_order_id s" "me_next_trade_id (emit e s) = me_next_trade_id s"
  "me_order (emit e s) = me_order s" "me_levels (emit e s) = me_levels s"
  by (simp_all add: emit_def me_order_def me_levels_def fun_eq_iff)

lemma upd_mstats_frame [simp]:
  "me_count (upd_mstats f s) = me_count s" "me_sink (upd_mstats f s) = me_sink s"
  "me_log (upd_mstats f s) = me_log s" "me_books (upd_mstats f s) = me_books s" "me_pool (upd_mstats f s) = me_pool s"
  "me_by_key (upd_mstats f s) = me_by_key s" "me_stp (upd_mstats f s) = me_stp s"
  "me_ledgers (upd_mstats f s) = me_ledgers s"
  "me_next_order_id (upd_mstats f s) = me_next_order_id s" "me_next_trade_id (upd_mstats f s) = me_next_trade_id s"
  "me_order (upd_mstats f s) = me_order s" "me_levels (upd_mstats f s) = me_levels s"
  by (simp_all add: upd_mstats_def me_order_def me_levels_def fun_eq_iff)

lemma count_expired_frame [simp]:
  "me_count (count_expired s) = me_count s" "me_sink (count_expired s) = me_sink s"
  "me_log (count_expired s) = me_log s" "me_books (count_expired s) = me_books s"
  "me_pool (count_expired s) = me_pool s" "me_by_key (count_expired s) = me_by_key s"
  "me_stp (count_expired s) = me_stp s" "me_ledgers (count_expired s) = me_ledgers s"
  "me_next_order_id (count_expired s) = me_next_order_id s"
  "me_next_trade_id (count_expired s) = me_next_trade_id s"
  "me_order (count_expired s) = me_order s" "me_levels (count_expired s) = me_levels s"
  by (simp_all add: count_expired_def)

lemma record_fill_frame [simp]:
  "me_count (record_fill m t px q s) = me_count s" "me_sink (record_fill m t px q s) = me_sink s"
  "me_log (record_fill m t px q s) = me_log s" "me_books (record_fill m t px q s) = me_books s"
  "me_pool (record_fill m t px q s) = me_pool s" "me_by_key (record_fill m t px q s) = me_by_key s"
  "me_stp (record_fill m t px q s) = me_stp s"
  "me_next_order_id (record_fill m t px q s) = me_next_order_id s"
  "me_next_trade_id (record_fill m t px q s) = me_next_trade_id s"
  "me_order (record_fill m t px q s) = me_order s" "me_levels (record_fill m t px q s) = me_levels s"
  by (simp_all add: record_fill_def Let_def upd_mstats_def me_order_def me_levels_def fun_eq_iff)

lemma free_order_frame [simp]:
  "me_count (free_order h s) = me_count s" "me_sink (free_order h s) = me_sink s"
  "me_log (free_order h s) = me_log s" "me_books (free_order h s) = me_books s"
  "me_stp (free_order h s) = me_stp s" "me_ledgers (free_order h s) = me_ledgers s"
  "me_stats (free_order h s) = me_stats s" "me_next_order_id (free_order h s) = me_next_order_id s"
  "me_next_trade_id (free_order h s) = me_next_trade_id s" "me_levels (free_order h s) = me_levels s"
  by (simp_all add: free_order_def Let_def me_levels_def fun_eq_iff)

section \<open>Linked queues\<close>

text \<open>\<open>lseg pf nf p h xs t n\<close>: from \<open>h\<close>, whose predecessor is \<open>p\<close>, the links run through \<open>xs\<close> to \<open>n\<close>;
  \<open>t\<close> is the last of them, or \<open>p\<close>.\<close>

fun lseg :: "(nat \<Rightarrow> sim_order) \<Rightarrow> nat \<Rightarrow> nat \<Rightarrow> nat list \<Rightarrow> nat \<Rightarrow> nat \<Rightarrow> bool" where
  "lseg ord p h [] t n \<longleftrightarrow> h = n \<and> t = p"
| "lseg ord p h (x # xs) t n \<longleftrightarrow>
     h = x \<and> x \<noteq> kNullHandle \<and> so_prev (ord x) = p \<and> lseg ord x (so_next (ord x)) xs t n"

abbreviation dll :: "(nat \<Rightarrow> sim_order) \<Rightarrow> nat \<Rightarrow> nat list \<Rightarrow> nat \<Rightarrow> bool" where
  "dll ord h xs t \<equiv> lseg ord kNullHandle h xs t kNullHandle"

definition hd_or :: "nat \<Rightarrow> nat list \<Rightarrow> nat" where
  "hd_or n xs = (case xs of [] \<Rightarrow> n | x # _ \<Rightarrow> x)"

definition last_or :: "nat \<Rightarrow> nat list \<Rightarrow> nat" where
  "last_or p xs = (if xs = [] then p else last xs)"

lemma hd_or_simps [simp]: "hd_or n [] = n" "hd_or n (x # xs) = x" "hd_or n (xs @ ys) = hd_or (hd_or n ys) xs"
  by (simp_all add: hd_or_def split: list.splits)

lemma last_or_simps [simp]: "last_or p [] = p" "last_or p (xs @ [x]) = x" "last_or p (x # xs) = last_or x xs"
  "last_or p (xs @ ys) = last_or (last_or p xs) ys"
  by (simp_all add: last_or_def)

lemma lseg_append: "lseg ord p h (xs @ ys) t n \<longleftrightarrow>
    lseg ord p h xs (last_or p xs) (hd_or n ys) \<and> lseg ord (last_or p xs) (hd_or n ys) ys t n"
proof (induction xs arbitrary: p h)
  case Nil
  then show ?case by (cases ys) auto
qed auto

lemma lseg_ends: "lseg ord p h xs t n \<Longrightarrow> h = hd_or n xs \<and> t = last_or p xs"
  by (induction xs arbitrary: p h) auto

lemma lseg_not_null: "lseg ord p h xs t n \<Longrightarrow> kNullHandle \<notin> set xs"
  by (induction xs arbitrary: p h) auto

lemma lseg_cong:
  "(\<And>x. x \<in> set xs \<Longrightarrow> so_prev (ord' x) = so_prev (ord x) \<and> so_next (ord' x) = so_next (ord x)) \<Longrightarrow>
   lseg ord' p h xs t n = lseg ord p h xs t n"
  by (induction xs arbitrary: p h) auto

text \<open>Appending at the tail, and taking one out of the middle.\<close>

lemma dll_snoc:
  assumes "dll ord h xs t" "x \<notin> set xs" "x \<noteq> kNullHandle"
    and "\<And>y. y \<in> set xs \<Longrightarrow> so_prev (ord' y) = so_prev (ord y)"
    and "\<And>y. y \<in> set xs \<Longrightarrow> so_next (ord' y) = (if y = last xs then x else so_next (ord y))"
    and "so_prev (ord' x) = t" "so_next (ord' x) = kNullHandle" "distinct xs"
  shows "dll ord' (if xs = [] then x else h) (xs @ [x]) x"
proof (cases xs rule: rev_cases)
  case Nil
  then show ?thesis using assms by simp
next
  case (snoc ys y)
  have *: "lseg ord kNullHandle h ys (last_or kNullHandle ys) y" "so_prev (ord y) = last_or kNullHandle ys" "t = y" "y \<noteq> kNullHandle"
    using assms(1) unfolding snoc lseg_append by auto
  have "lseg ord' kNullHandle h ys (last_or kNullHandle ys) y"
    using *(1) assms(4,5,8) snoc by (subst lseg_cong [of ys ord' ord]) auto
  then show ?thesis using * assms snoc by (simp add: lseg_append)
qed

lemma dll_remove:
  assumes "dll ord h (xs @ x # ys) t" "distinct (xs @ x # ys)"
    and "\<And>y. y \<in> set xs \<Longrightarrow> so_prev (ord' y) = so_prev (ord y)"
    and "\<And>y. y \<in> set xs \<Longrightarrow> so_next (ord' y) = (if y = last xs then hd_or kNullHandle ys else so_next (ord y))"
    and "\<And>y. y \<in> set ys \<Longrightarrow> so_prev (ord' y) = (if y = hd ys then last_or kNullHandle xs else so_prev (ord y))"
    and "\<And>y. y \<in> set ys \<Longrightarrow> so_next (ord' y) = so_next (ord y)"
  shows "dll ord' (if xs = [] then hd_or kNullHandle ys else h) (xs @ ys) (if ys = [] then last_or kNullHandle xs else t)"
proof -
  let ?p = "last_or kNullHandle xs" and ?n = "hd_or kNullHandle ys"
  have sx: "lseg ord kNullHandle h xs ?p x" and x: "so_prev (ord x) = ?p" "so_next (ord x) = ?n"
    and sy: "lseg ord x ?n ys t kNullHandle"
    using assms(1) lseg_ends [of ord x "so_next (ord x)" ys t kNullHandle] unfolding lseg_append by auto
  have "lseg ord' kNullHandle (if xs = [] then ?n else h) xs ?p ?n"
  proof (cases xs rule: rev_cases)
    case (snoc zs z)
    have "lseg ord kNullHandle h zs (last_or kNullHandle zs) z" "z \<noteq> kNullHandle" "so_prev (ord z) = last_or kNullHandle zs"
      using sx unfolding snoc lseg_append by auto
    moreover have "lseg ord' kNullHandle h zs (last_or kNullHandle zs) z = lseg ord kNullHandle h zs (last_or kNullHandle zs) z"
      using assms(2,3,4) snoc by (intro lseg_cong) auto
    ultimately show ?thesis using assms(3,4) snoc by (simp add: lseg_append)
  qed simp
  moreover have "lseg ord' ?p ?n ys (if ys = [] then ?p else t) kNullHandle"
  proof (cases ys)
    case (Cons z zs)
    have "lseg ord z (so_next (ord z)) zs t kNullHandle" "z \<noteq> kNullHandle" using sy Cons by auto
    moreover have "lseg ord' z (so_next (ord z)) zs t kNullHandle = lseg ord z (so_next (ord z)) zs t kNullHandle"
      using assms(2,5,6) Cons by (intro lseg_cong) auto
    ultimately show ?thesis using assms(5,6) Cons by simp
  qed simp
  ultimately show ?thesis by (simp add: lseg_append)
qed

text \<open>An order without its links.\<close>

definition so_data :: "sim_order \<Rightarrow> sim_order" where
  "so_data od = od\<lparr>so_next := 0, so_prev := 0\<rparr>"

lemma so_data_upd [simp]:
  "so_data (od\<lparr>so_next := n\<rparr>) = so_data od" "so_data (od\<lparr>so_prev := n\<rparr>) = so_data od"
  by (simp_all add: so_data_def)

lemma so_dataD:
  assumes "so_data a = so_data b"
  shows "so_order_id a = so_order_id b" "so_cl_ord_id a = so_cl_ord_id b" "so_price a = so_price b"
    "so_qty a = so_qty b" "so_cum_qty a = so_cum_qty b" "so_created a = so_created b"
    "so_instrument a = so_instrument b" "so_account a = so_account b" "so_side a = so_side b"
    "so_type a = so_type b" "so_tif a = so_tif b" "so_reduce_only a = so_reduce_only b"
    "so_leaves a = so_leaves b"
  using assms by (cases a, cases b, simp add: so_data_def so_leaves_def)+

abbreviation me_live :: "matching_engine \<Rightarrow> nat set" where
  "me_live s \<equiv> pool_live (me_pool s)"

lemma upd_sim_pool [simp]:
  "pl_capacity (me_pool (upd_sim h f s)) = pl_capacity (me_pool s)"
  "me_live (upd_sim h f s) = me_live s"
  by (simp_all add: upd_sim_def pool_put_def pool_live_def)

lemma upd_sim_pool_inv [simp, intro]:
  "pool_inv (me_pool s) \<Longrightarrow> h \<in> me_live s \<Longrightarrow> pool_inv (me_pool (upd_sim h f s))"
  using pool_put_law [of "me_pool s" h] by (simp add: upd_sim_def)

lemma unlink_frame [simp]:
  "me_count (unlink h i sd k s) = me_count s" "me_sink (unlink h i sd k s) = me_sink s"
  "me_log (unlink h i sd k s) = me_log s" "me_by_key (unlink h i sd k s) = me_by_key s"
  "me_stp (unlink h i sd k s) = me_stp s" "me_ledgers (unlink h i sd k s) = me_ledgers s"
  "me_stats (unlink h i sd k s) = me_stats s"
  "me_next_order_id (unlink h i sd k s) = me_next_order_id s"
  "me_next_trade_id (unlink h i sd k s) = me_next_trade_id s"
  "sb_update_id (me_books (unlink h i sd k s) j) = sb_update_id (me_books s j)"
  "pl_capacity (me_pool (unlink h i sd k s)) = pl_capacity (me_pool s)"
  "me_live (unlink h i sd k s) = me_live s"
  by (simp_all add: unlink_def Let_def)

lemma unlink_data: "so_data (me_order (unlink h i sd k s) g) = so_data (me_order s g)"
  by (simp add: unlink_def Let_def)

lemma unlink_levels:
  assumes "k < length (me_levels s i sd)" "l = me_levels s i sd ! k"
    and "so_prev (me_order s h) \<noteq> h"
  shows "me_levels (unlink h i sd k s) j sd' =
    (if j = i \<and> sd' = sd
     then (me_levels s i sd)[k := l\<lparr>pv_head := (if so_prev (me_order s h) = kNullHandle then so_next (me_order s h) else pv_head l),
             pv_tail := (if so_next (me_order s h) = kNullHandle then so_prev (me_order s h) else pv_tail l),
             pv_count := pv_count l - 1\<rparr>]
     else me_levels s j sd')"
  using assms
  by (cases "so_prev (me_order s h) = kNullHandle"; cases "so_next (me_order s h) = kNullHandle")
    (simp_all add: unlink_def Let_def)

lemma unlink_orders:
  assumes "so_prev (me_order s h) \<noteq> h" "so_next (me_order s h) \<noteq> h"
  shows "me_order (unlink h i sd k s) g =
    (if g = h then (me_order s h)\<lparr>so_next := kNullHandle, so_prev := kNullHandle\<rparr>
     else let od = me_order s g;
              od1 = (if so_prev (me_order s h) \<noteq> kNullHandle \<and> g = so_prev (me_order s h)
                     then od\<lparr>so_next := so_next (me_order s h)\<rparr> else od)
          in if so_next (me_order s h) \<noteq> kNullHandle \<and> g = so_next (me_order s h)
             then od1\<lparr>so_prev := so_prev (me_order s h)\<rparr> else od1)"
  using assms
  by (cases "so_prev (me_order s h) = kNullHandle"; cases "so_next (me_order s h) = kNullHandle")
    (simp_all add: unlink_def Let_def)

text \<open>Unlinking the order \<open>h\<close> of a queue \<open>xs @ h # ys\<close> leaves \<open>xs @ ys\<close> and touches no other queue.\<close>

lemma unlink_queue:
  assumes q: "dll (me_order s) (pv_head l) (xs @ h # ys) (pv_tail l)" "distinct (xs @ h # ys)"
    and k: "k < length (me_levels s i sd)" "l = me_levels s i sd ! k"
  obtains l' where "me_levels (unlink h i sd k s) =
      (\<lambda>j sd'. if j = i \<and> sd' = sd then (me_levels s i sd)[k := l'] else me_levels s j sd')"
    "pv_price l' = pv_price l" "pv_qty l' = pv_qty l" "pv_count l' = pv_count l - 1"
    "dll (me_order (unlink h i sd k s)) (pv_head l') (xs @ ys) (pv_tail l')"
    "\<And>g. g \<notin> set (xs @ h # ys) \<Longrightarrow> me_order (unlink h i sd k s) g = me_order s g"
proof -
  let ?s' = "unlink h i sd k s" and ?p = "last_or kNullHandle xs" and ?n = "hd_or kNullHandle ys"
  have nn: "kNullHandle \<notin> set (xs @ h # ys)" using lseg_not_null [OF q(1)] .
  have links: "so_prev (me_order s h) = ?p" "so_next (me_order s h) = ?n"
    using q(1) lseg_ends [of "me_order s" h "so_next (me_order s h)" ys] unfolding lseg_append by auto
  have "xs \<noteq> [] \<Longrightarrow> last xs \<noteq> kNullHandle" using nn by (metis Un_iff last_in_set set_append)
  then have pn: "?p \<noteq> kNullHandle \<longleftrightarrow> xs \<noteq> []" "xs \<noteq> [] \<Longrightarrow> ?p = last xs" "?n \<noteq> kNullHandle \<longleftrightarrow> ys \<noteq> []"
    "ys \<noteq> [] \<Longrightarrow> ?n = hd ys"
    using nn by (auto simp: last_or_def hd_or_def split: list.splits)
  have "?p \<noteq> h" "?n \<noteq> h" using q(2) nn last_in_set [of xs] by (auto simp: last_or_def hd_or_def split: list.splits)
  note ord = unlink_orders [of s h i sd k, unfolded links, OF this]
  define l' where "l' = l\<lparr>pv_head := (if ?p = kNullHandle then ?n else pv_head l),
             pv_tail := (if ?n = kNullHandle then ?p else pv_tail l), pv_count := pv_count l - 1\<rparr>"
  have lv: "me_levels ?s' = (\<lambda>j sd'. if j = i \<and> sd' = sd then (me_levels s i sd)[k := l'] else me_levels s j sd')"
    using unlink_levels [OF k, of h] links \<open>?p \<noteq> h\<close> unfolding l'_def by (intro ext) simp
  have hx: "h \<notin> set xs" "h \<notin> set ys" "set xs \<inter> set ys = {}" using q(2) by auto
  have lx: "xs \<noteq> [] \<Longrightarrow> last xs \<notin> set ys" using hx(3) last_in_set [of xs] by blast
  have hy: "ys \<noteq> [] \<Longrightarrow> hd ys \<notin> set xs" using hx(3) hd_in_set [of ys] by blast
  have "dll (me_order ?s') (if xs = [] then ?n else pv_head l) (xs @ ys) (if ys = [] then ?p else pv_tail l)"
  proof (rule dll_remove [OF q])
    fix y assume y: "y \<in> set xs"
    then have "y \<noteq> h" "\<not> (?n \<noteq> kNullHandle \<and> y = ?n)" "xs \<noteq> []" using hx hy pn by auto
    then show "so_prev (me_order ?s' y) = so_prev (me_order s y)"
      "so_next (me_order ?s' y) = (if y = last xs then ?n else so_next (me_order s y))"
      using pn unfolding ord by (auto simp: Let_def)
  next
    fix y assume y: "y \<in> set ys"
    then have "y \<noteq> h" "\<not> (?p \<noteq> kNullHandle \<and> y = ?p)" "ys \<noteq> []" using hx lx pn by auto
    then show "so_prev (me_order ?s' y) = (if y = hd ys then ?p else so_prev (me_order s y))"
      "so_next (me_order ?s' y) = so_next (me_order s y)"
      using pn unfolding ord by (auto simp: Let_def)
  qed
  moreover have "pv_head l' = (if xs = [] then ?n else pv_head l)" "pv_tail l' = (if ys = [] then ?p else pv_tail l)"
    using pn by (simp_all add: l'_def)
  moreover have "me_order ?s' g = me_order s g" if "g \<notin> set (xs @ h # ys)" for g
  proof -
    have "g \<noteq> h" "\<not> (?p \<noteq> kNullHandle \<and> g = ?p)" "\<not> (?n \<noteq> kNullHandle \<and> g = ?n)"
      using that pn by auto
    then show ?thesis unfolding ord by (auto simp: Let_def)
  qed
  ultimately show thesis using that [OF lv] by (simp add: l'_def)
qed

lemma unlink_pool_inv:
  assumes "pool_inv (me_pool s)" "h \<in> me_live s"
    "so_prev (me_order s h) \<noteq> kNullHandle \<Longrightarrow> so_prev (me_order s h) \<in> me_live s"
    "so_next (me_order s h) \<noteq> kNullHandle \<Longrightarrow> so_next (me_order s h) \<in> me_live s"
    "so_prev (me_order s h) \<noteq> h"
  shows "pool_inv (me_pool (unlink h i sd k s))"
  using assms by (simp add: unlink_def Let_def)

section \<open>The representation\<close>

text \<open>A level and its queue.\<close>

definition queue_ok :: "(nat \<Rightarrow> sim_order) \<Rightarrow> instrument_id \<Rightarrow> side \<Rightarrow> price_level \<Rightarrow> nat list \<Rightarrow> bool" where
  "queue_ok ord i sd l q \<longleftrightarrow>
     distinct q \<and> dll ord (pv_head l) q (pv_tail l) \<and> pv_count l = length q \<and>
     pv_qty l = (\<Sum>h\<leftarrow>q. so_leaves (ord h)) \<and>
     (\<forall>h\<in>set q. so_instrument (ord h) = i \<and> so_side (ord h) = sd \<and> so_price (ord h) = pv_price l \<and>
        0 \<le> so_cum_qty (ord h) \<and> so_cum_qty (ord h) \<le> so_qty (ord h))"

definition best_last :: "side \<Rightarrow> price_level list \<Rightarrow> bool" where
  "best_last sd v \<longleftrightarrow> sorted_wrt (\<lambda>a b. better sd (pv_price b) (pv_price a)) v"

definition side_ok :: "(nat \<Rightarrow> sim_order) \<Rightarrow> instrument_id \<Rightarrow> side \<Rightarrow> price_level list \<Rightarrow> nat list list \<Rightarrow> bool" where
  "side_ok ord i sd v qs \<longleftrightarrow>
     list_all2 (queue_ok ord i sd) v qs \<and> best_last sd v \<and> length v \<le> kMaxSimLevels"

definition queued :: "matching_engine \<Rightarrow> (instrument_id \<Rightarrow> side \<Rightarrow> nat list list) \<Rightarrow> nat set" where
  "queued s Q = {h. \<exists>i<me_count s. \<exists>sd. h \<in> set (concat (Q i sd))}"

definition order_key :: "sim_order \<Rightarrow> u64" where
  "order_key od = me_key (so_account od) (so_cl_ord_id od)"

text \<open>The engine with the queues \<open>Q\<close> and the orders \<open>X\<close> that are live and in no queue.\<close>

definition me_rep :: "nat set \<Rightarrow> matching_engine \<Rightarrow> (instrument_id \<Rightarrow> side \<Rightarrow> nat list list) \<Rightarrow> bool" where
  "me_rep X s Q \<longleftrightarrow>
     pool_inv (me_pool s) \<and> ohm_inv (me_by_key s) \<and>
     pl_capacity (me_pool s) \<le> kMaxSize (2 ^ ohm_bits (me_by_key s)) \<and>
     (\<forall>i<me_count s. \<forall>sd. side_ok (me_order s) i sd (me_levels s i sd) (Q i sd)) \<and>
     me_live s = X \<union> queued s Q \<and> X \<inter> queued s Q = {} \<and>
     (\<forall>k h. ohm_find (me_by_key s) k = Some h \<longleftrightarrow> h \<in> me_live s \<and> order_key (me_order s h) = k) \<and>
     inj_on (\<lambda>h. so_order_id (me_order s h)) (me_live s) \<and>
     (\<forall>h\<in>me_live s. so_order_id (me_order s h) < me_next_order_id s)"

definition no_empty :: "matching_engine \<Rightarrow> (instrument_id \<Rightarrow> side \<Rightarrow> nat list list) \<Rightarrow> bool" where
  "no_empty s Q \<longleftrightarrow> (\<forall>i<me_count s. \<forall>sd. [] \<notin> set (Q i sd))"

definition all_open :: "matching_engine \<Rightarrow> (instrument_id \<Rightarrow> side \<Rightarrow> nat list list) \<Rightarrow> bool" where
  "all_open s Q \<longleftrightarrow> (\<forall>h\<in>queued s Q. 0 < so_leaves (me_order s h))"

definition uncrossed :: "matching_engine \<Rightarrow> bool" where
  "uncrossed s \<longleftrightarrow>
     (\<forall>i<me_count s. \<forall>b\<in>set (me_levels s i Buy). \<forall>a\<in>set (me_levels s i Sell). pv_price b < pv_price a)"

definition me_inv :: "matching_engine \<Rightarrow> bool" where
  "me_inv s \<longleftrightarrow> uncrossed s \<and> (\<exists>Q. me_rep {} s Q \<and> no_empty s Q \<and> all_open s Q)"

subsection \<open>Rewriting one queue\<close>

definition set_queues ::
  "instrument_id \<Rightarrow> side \<Rightarrow> nat list list \<Rightarrow> (instrument_id \<Rightarrow> side \<Rightarrow> nat list list) \<Rightarrow>
   (instrument_id \<Rightarrow> side \<Rightarrow> nat list list)" where
  "set_queues i sd qs Q = Q(i := (Q i)(sd := qs))"

lemma set_queues_apply [simp]:
  "set_queues i sd qs Q j sd' = (if j = i \<and> sd' = sd then qs else Q j sd')"
  by (simp add: set_queues_def)

lemma set_queues_twice [simp]: "set_queues i sd a (set_queues i sd b Q) = set_queues i sd a Q"
  by (simp add: set_queues_def)

lemma queue_ok_cong:
  "(\<And>h. h \<in> set q \<Longrightarrow> ord' h = ord h) \<Longrightarrow> queue_ok ord' i sd l q = queue_ok ord i sd l q"
proof -
  assume eq: "\<And>h. h \<in> set q \<Longrightarrow> ord' h = ord h"
  have "(\<Sum>h\<leftarrow>q. so_leaves (ord' h)) = (\<Sum>h\<leftarrow>q. so_leaves (ord h))"
    using eq by (intro arg_cong [where f = sum_list] map_cong) auto
  moreover have "dll ord' (pv_head l) q (pv_tail l) = dll ord (pv_head l) q (pv_tail l)"
    using eq by (intro lseg_cong) simp
  ultimately show ?thesis unfolding queue_ok_def using eq by simp
qed

lemma side_ok_cong:
  assumes "\<And>h. h \<in> set (concat qs) \<Longrightarrow> ord' h = ord h"
  shows "side_ok ord' i sd v qs = side_ok ord i sd v qs"
proof -
  have "list_all2 (queue_ok ord' i sd) v qs = list_all2 (queue_ok ord i sd) v qs"
  proof (rule list.rel_cong [OF refl refl])
    fix l q assume "q \<in> set qs"
    then show "queue_ok ord' i sd l q = queue_ok ord i sd l q" using assms by (intro queue_ok_cong) auto
  qed
  then show ?thesis by (simp add: side_ok_def)
qed

lemma side_okD:
  assumes "side_ok ord i sd v qs" "k < length qs"
  shows "queue_ok ord i sd (v ! k) (qs ! k)" "k < length v"
  using assms list_all2_nthD2 [of "queue_ok ord i sd" v qs k] by (auto simp: side_ok_def dest: list_all2_lengthD)

lemma side_ok_length: "side_ok ord i sd v qs \<Longrightarrow> length qs = length v"
  by (auto simp: side_ok_def dest: list_all2_lengthD)

lemma side_ok_handle:
  assumes "side_ok ord i sd v qs" "h \<in> set (concat qs)"
  obtains k where "k < length qs" "k < length v" "h \<in> set (qs ! k)" "so_instrument (ord h) = i" "so_side (ord h) = sd"
    "so_price (ord h) = pv_price (v ! k)" "0 \<le> so_cum_qty (ord h)" "so_cum_qty (ord h) \<le> so_qty (ord h)"
proof -
  obtain q where q: "q \<in> set qs" "h \<in> set q" using assms(2) by auto
  then obtain k where k: "k < length qs" "h \<in> set (qs ! k)" by (metis in_set_conv_nth)
  have "queue_ok ord i sd (v ! k) (qs ! k)" "k < length v" using side_okD [OF assms(1) k(1)] by auto
  then show thesis using that [of k] k by (auto simp: queue_ok_def)
qed

lemma best_last_nth:
  assumes "best_last sd v" "j < k" "k < length v"
  shows "better sd (pv_price (v ! k)) (pv_price (v ! j))"
  using assms by (auto simp: best_last_def sorted_wrt_iff_nth_less)

lemma best_last_inj:
  assumes "best_last sd v" "j < length v" "k < length v" "pv_price (v ! j) = pv_price (v ! k)"
  shows "j = k"
proof (rule ccontr)
  assume "j \<noteq> k"
  then have "j < k \<or> k < j" by arith
  then show False using best_last_nth [OF assms(1), of j k] best_last_nth [OF assms(1), of k j] assms by auto
qed

lemma queue_okD:
  assumes "queue_ok ord i sd l q"
  shows "distinct q" "dll ord (pv_head l) q (pv_tail l)" "pv_count l = length q"
    "pv_qty l = (\<Sum>h\<leftarrow>q. so_leaves (ord h))"
    "\<And>h. h \<in> set q \<Longrightarrow> so_instrument (ord h) = i \<and> so_side (ord h) = sd \<and> so_price (ord h) = pv_price l \<and>
       0 \<le> so_cum_qty (ord h) \<and> so_cum_qty (ord h) \<le> so_qty (ord h)"
  using assms unfolding queue_ok_def by blast+

lemma side_ok_disjoint:
  assumes "side_ok ord i sd v qs" "j < length qs" "k < length qs" "h \<in> set (qs ! j)" "h \<in> set (qs ! k)"
  shows "j = k"
proof -
  note a = side_okD [OF assms(1,2)] and b = side_okD [OF assms(1,3)]
  have "pv_price (v ! j) = so_price (ord h)" "pv_price (v ! k) = so_price (ord h)"
    using queue_okD(5) [OF a(1) assms(4)] queue_okD(5) [OF b(1) assms(5)] by simp_all
  then show ?thesis using assms(1) a(2) b(2) best_last_inj [of sd v j k] by (simp add: side_ok_def)
qed

lemma side_ok_upd:
  assumes ok: "side_ok ord i sd v qs" and k: "k < length qs" and l: "queue_ok ord' i sd l' q'"
    and p: "pv_price l' = pv_price (v ! k)"
    and fr: "\<And>h. h \<in> set (concat qs) \<Longrightarrow> h \<notin> set (qs ! k) \<Longrightarrow> ord' h = ord h"
  shows "side_ok ord' i sd (v[k := l']) (qs[k := q'])"
proof -
  have kv: "k < length v" "length v = length qs" using side_okD(2) [OF ok k] side_ok_length [OF ok] by auto
  have q: "queue_ok ord' i sd (v[k := l'] ! j) (qs[k := q'] ! j)" if j: "j < length v" for j
  proof (cases "j = k")
    case False
    have "queue_ok ord' i sd (v ! j) (qs ! j) = queue_ok ord i sd (v ! j) (qs ! j)"
    proof (rule queue_ok_cong)
      fix h assume h: "h \<in> set (qs ! j)"
      have "h \<notin> set (qs ! k)" using side_ok_disjoint [OF ok _ k h] j kv False by auto
      moreover have "h \<in> set (concat qs)" using h j kv nth_mem [of j qs] by auto
      ultimately show "ord' h = ord h" using fr by blast
    qed
    then show ?thesis using side_okD(1) [OF ok] j kv False by simp
  qed (use l kv in simp)
  have "best_last sd (v[k := l'])"
    using ok p kv unfolding side_ok_def best_last_def sorted_wrt_iff_nth_less
    by (simp add: nth_list_update)
  then show ?thesis using q ok kv by (simp add: side_ok_def list_all2_conv_all_nth)
qed

subsection \<open>Consequences of the representation\<close>

lemma me_repD:
  assumes "me_rep X s Q"
  shows "pool_inv (me_pool s)" "ohm_inv (me_by_key s)"
    "pl_capacity (me_pool s) \<le> kMaxSize (2 ^ ohm_bits (me_by_key s))"
    "\<And>i sd. i < me_count s \<Longrightarrow> side_ok (me_order s) i sd (me_levels s i sd) (Q i sd)"
    "me_live s = X \<union> queued s Q" "X \<inter> queued s Q = {}"
    "\<And>k h. ohm_find (me_by_key s) k = Some h \<longleftrightarrow> h \<in> me_live s \<and> order_key (me_order s h) = k"
    "inj_on (\<lambda>h. so_order_id (me_order s h)) (me_live s)"
    "\<And>h. h \<in> me_live s \<Longrightarrow> so_order_id (me_order s h) < me_next_order_id s"
  using assms unfolding me_rep_def by blast+

lemma live_not_null: "pool_inv p \<Longrightarrow> h \<in> pool_live p \<Longrightarrow> h \<noteq> kNullHandle"
  using pool.live_bound [of p] by auto

lemma queued_side: "i < me_count s \<Longrightarrow> set (concat (Q i sd)) \<subseteq> queued s Q"
  by (auto simp: queued_def)

lemma queued_cases:
  assumes "me_rep X s Q" "h \<in> queued s Q"
  obtains i sd k where "i < me_count s" "k < length (Q i sd)" "k < length (me_levels s i sd)" "h \<in> set (Q i sd ! k)"
    "so_instrument (me_order s h) = i" "so_side (me_order s h) = sd"
    "so_price (me_order s h) = pv_price (me_levels s i sd ! k)"
    "0 \<le> so_cum_qty (me_order s h)" "so_cum_qty (me_order s h) \<le> so_qty (me_order s h)"
proof -
  obtain i sd where i: "i < me_count s" "h \<in> set (concat (Q i sd))" using assms(2) unfolding queued_def by blast
  show thesis
    by (rule side_ok_handle [OF me_repD(4) [OF assms(1) i(1)] i(2)]) (use that [OF i(1)] in blast)
qed

lemma queued_place:
  assumes rep: "me_rep X s Q" and i: "i < me_count s" "k < length (Q i sd)" "h \<in> set (Q i sd ! k)"
    and j: "j < me_count s" "h \<in> set (concat (Q j sd'))"
  shows "j = i \<and> sd' = sd"
proof -
  have a: "h \<in> set (concat (Q i sd))" using i(2,3) by auto
  show ?thesis
    by (rule side_ok_handle [OF me_repD(4) [OF rep i(1)] a], rule side_ok_handle [OF me_repD(4) [OF rep j(1)] j(2)]) auto
qed

text \<open>What is queued when one queue shrinks or grows.\<close>

lemma queuedI: "i < me_count s \<Longrightarrow> h \<in> set (concat (Q i sd)) \<Longrightarrow> h \<in> queued s Q"
  unfolding queued_def by blast

lemma in_concat_nth: "h \<in> set (concat qs) \<longleftrightarrow> (\<exists>j<length qs. h \<in> set (qs ! j))"
  by (auto simp: set_conv_nth [of qs])

lemma in_concat_upd:
  assumes "k < length qs"
  shows "h \<in> set (concat (qs[k := q])) \<longleftrightarrow> h \<in> set q \<or> (\<exists>j<length qs. j \<noteq> k \<and> h \<in> set (qs ! j))"
  unfolding in_concat_nth using assms by (metis length_list_update nth_list_update_eq nth_list_update_neq)

lemma queued_upd:
  assumes rep: "me_rep X s Q" and i: "i < me_count s" "k < length (Q i sd)" and c: "me_count s' = me_count s"
  shows "queued s' (set_queues i sd ((Q i sd)[k := q]) Q) = queued s Q - set (Q i sd ! k) \<union> set q"
    (is "queued s' ?Q = ?R")
proof (intro set_eqI iffI)
  fix h assume "h \<in> queued s' ?Q"
  then obtain j sd' where j: "j < me_count s" "h \<in> set (concat (?Q j sd'))" using c unfolding queued_def by auto
  show "h \<in> ?R"
  proof (cases "j = i \<and> sd' = sd")
    case True
    then have "h \<in> set q \<or> (\<exists>j<length (Q i sd). j \<noteq> k \<and> h \<in> set (Q i sd ! j))"
      using j(2) in_concat_upd [OF i(2)] by simp
    then show ?thesis
    proof (elim disjE exE conjE)
      fix m assume m: "m < length (Q i sd)" "m \<noteq> k" "h \<in> set (Q i sd ! m)"
      have "h \<notin> set (Q i sd ! k)" using side_ok_disjoint [OF me_repD(4) [OF rep i(1)] m(1) i(2) m(3)] m(2) by blast
      moreover have "h \<in> set (concat (Q i sd))" using m unfolding in_concat_nth by blast
      ultimately show ?thesis using queuedI [of i s h Q sd] i(1) by blast
    qed simp
  next
    case False
    then have "h \<in> set (concat (Q j sd'))" using j(2) by (auto split: if_splits)
    then show ?thesis using queued_place [OF rep i, of h j sd'] queuedI [of j s h Q sd'] j(1) False by blast
  qed
next
  fix h assume r: "h \<in> ?R"
  show "h \<in> queued s' ?Q"
  proof (cases "h \<in> set q")
    case True
    then have "h \<in> set (concat (?Q i sd))" using in_concat_upd [OF i(2), of h q] by simp
    then show ?thesis using i(1) c queuedI [of i s' h ?Q sd] by simp
  next
    case False
    then obtain j sd' where j: "j < me_count s" "h \<in> set (concat (Q j sd'))" "h \<notin> set (Q i sd ! k)"
      using r unfolding queued_def by blast
    have "h \<in> set (concat (?Q j sd'))"
    proof (cases "j = i \<and> sd' = sd")
      case True
      then obtain m where "m < length (Q i sd)" "h \<in> set (Q i sd ! m)" using j(2) unfolding in_concat_nth by blast
      then show ?thesis using True j(3) in_concat_upd [OF i(2), of h q] by auto
    qed (use j(2) in auto)
    then show ?thesis using j(1) c queuedI [of j s' h ?Q sd'] by simp
  qed
qed

lemma me_rep_cong:
  assumes "me_pool s' = me_pool s" "me_by_key s' = me_by_key s" "me_count s' = me_count s" "me_levels s' = me_levels s"
    "me_next_order_id s' = me_next_order_id s"
  shows "me_rep X s' Q = me_rep X s Q"
proof -
  have "me_order s' = me_order s" using assms(1) by (simp add: me_order_def fun_eq_iff)
  moreover have "queued s' Q = queued s Q" using assms(3) by (simp add: queued_def)
  ultimately show ?thesis using assms unfolding me_rep_def by simp
qed

lemma me_rep_neutral [simp]:
  "me_rep X (emit e s) Q = me_rep X s Q" "me_rep X (upd_mstats f s) Q = me_rep X s Q"
  "me_rep X (count_expired s) Q = me_rep X s Q" "me_rep X (record_fill m t px q s) Q = me_rep X s Q"
  "me_rep X (s\<lparr>me_next_trade_id := n\<rparr>) Q = me_rep X s Q"
  "me_rep X (set_book i (sb_bump_update_id (me_books s i)) s) Q = me_rep X s Q"
  by (rule me_rep_cong; auto simp: me_levels_def fun_eq_iff)+

subsection \<open>Taking an order out of its queue, and releasing it\<close>

text \<open>The general step: one level and its queue are rewritten, orders keep their identities.\<close>

lemma me_rep_step:
  assumes rep: "me_rep X s Q" and i: "i < me_count s" and k: "k < length (Q i sd)"
    and pool: "pool_inv (me_pool s')" "me_live s' = me_live s"
      "pl_capacity (me_pool s') = pl_capacity (me_pool s)"
    and fr: "me_by_key s' = me_by_key s" "me_count s' = me_count s" "me_next_order_id s' = me_next_order_id s"
    and lv: "me_levels s' = (\<lambda>j sd'. if j = i \<and> sd' = sd then (me_levels s i sd)[k := l'] else me_levels s j sd')"
    and q: "queue_ok (me_order s') i sd l' q'" "pv_price l' = pv_price (me_levels s i sd ! k)"
    and ord: "\<And>h. h \<in> queued s Q \<Longrightarrow> h \<notin> set (Q i sd ! k) \<Longrightarrow> me_order s' h = me_order s h"
    and ids: "\<And>h. h \<in> me_live s \<Longrightarrow> order_key (me_order s' h) = order_key (me_order s h) \<and>
        so_order_id (me_order s' h) = so_order_id (me_order s h)"
    and X: "X' \<union> set q' = X \<union> set (Q i sd ! k)" "X' \<inter> set q' = {}" "X' \<inter> (queued s Q - set (Q i sd ! k)) = {}"
      "set q' \<inter> (queued s Q - set (Q i sd ! k)) = {}"
  shows "me_rep X' s' (set_queues i sd ((Q i sd)[k := q']) Q)"
proof -
  note R = me_repD [OF rep]
  have sub: "set (Q i sd ! k) \<subseteq> queued s Q" using i k queuedI [of i s _ Q sd] in_concat_nth [of _ "Q i sd"] by blast
  have qd: "queued s' (set_queues i sd ((Q i sd)[k := q']) Q) = queued s Q - set (Q i sd ! k) \<union> set q'"
    by (rule queued_upd [OF rep i k fr(2)])
  have sides: "side_ok (me_order s') j sd' (me_levels s' j sd') (set_queues i sd ((Q i sd)[k := q']) Q j sd')"
    if j: "j < me_count s" for j sd'
  proof (cases "j = i \<and> sd' = sd")
    case True
    then show ?thesis
      using side_ok_upd [OF R(4) [OF i] k q] ord queuedI [where Q = Q and sd = sd, OF i] unfolding lv by simp
  next
    case False
    have "side_ok (me_order s') j sd' (me_levels s j sd') (Q j sd') = side_ok (me_order s) j sd' (me_levels s j sd') (Q j sd')"
    proof (rule side_ok_cong)
      fix h assume h: "h \<in> set (concat (Q j sd'))"
      have "h \<notin> set (Q i sd ! k)" using queued_place [OF rep i k _ j h] False by blast
      then show "me_order s' h = me_order s h" using ord queuedI [where Q = Q and sd = sd', OF j h] by blast
    qed
    then show ?thesis using R(4) [OF j, of sd'] False unfolding lv set_queues_apply by (simp only: if_False)
  qed
  have live: "me_live s' = X' \<union> (queued s Q - set (Q i sd ! k) \<union> set q')"
    using X(1) sub unfolding pool(2) R(5) by blast
  have "inj_on (\<lambda>h. so_order_id (me_order s' h)) (me_live s')"
    using R(8) ids unfolding pool(2) inj_on_def by simp
  moreover have "ohm_find (me_by_key s) m = Some h \<longleftrightarrow> h \<in> me_live s \<and> order_key (me_order s' h) = m" for m h
    using R(7) ids by metis
  ultimately show ?thesis
    using R(1-3,9) pool fr sides live X(2-4) ids unfolding me_rep_def qd by (simp add: Int_Un_distrib)
qed

lemma member_split:
  assumes "me_rep X s Q" "i < me_count s" "k < length (Q i sd)" "Q i sd ! k = xs @ h # ys"
  shows "h \<in> me_live s" "h \<notin> X" "h \<notin> set xs" "h \<notin> set ys" "k < length (me_levels s i sd)"
    "queue_ok (me_order s) i sd (me_levels s i sd ! k) (xs @ h # ys)" "set (xs @ h # ys) \<subseteq> queued s Q"
proof -
  note R = me_repD [OF assms(1)]
  show q: "queue_ok (me_order s) i sd (me_levels s i sd ! k) (xs @ h # ys)" "k < length (me_levels s i sd)"
    using side_okD [OF R(4) [OF assms(2)] assms(3)] assms(4) by simp_all
  show sub: "set (xs @ h # ys) \<subseteq> queued s Q"
    using assms(2-4) queuedI [of i s _ Q sd] in_concat_nth [of _ "Q i sd"] by (metis subsetI)
  show "h \<in> me_live s" "h \<notin> X" using sub R(5,6) by auto
  show "h \<notin> set xs" "h \<notin> set ys" using queue_okD(1) [OF q(1)] by auto
qed

lemma take_out:
  assumes rep: "me_rep X s Q" and i: "i < me_count s" and k: "k < length (Q i sd)" "Q i sd ! k = xs @ h # ys"
    and s': "s' = unlink h i sd k (upd_level i sd k (\<lambda>l. l\<lparr>pv_qty := pv_qty l - so_leaves (me_order s h)\<rparr>) s)"
  shows "me_rep (insert h X) s' (set_queues i sd ((Q i sd)[k := xs @ ys]) Q)"
    "\<And>g. so_data (me_order s' g) = so_data (me_order s g)" "h \<notin> X" "me_live s' = me_live s"
    "pv_count (me_levels s' i sd ! k) = length (xs @ ys)"
    "map pv_price (me_levels s' j sd') = map pv_price (me_levels s j sd')"
    "\<And>g. g \<notin> set (xs @ h # ys) \<Longrightarrow> me_order s' g = me_order s g"
    "\<not> (j = i \<and> sd' = sd) \<Longrightarrow> me_levels s' j sd' = me_levels s j sd'"
    "\<exists>l. me_levels s' i sd = (me_levels s i sd)[k := l] \<and> pv_price l = pv_price (me_levels s i sd ! k)"
proof -
  let ?s1 = "upd_level i sd k (\<lambda>l. l\<lparr>pv_qty := pv_qty l - so_leaves (me_order s h)\<rparr>) s"
  note R = me_repD [OF rep] and M = member_split [OF rep i k]
  define l where "l = me_levels ?s1 i sd ! k"
  have l: "l = (me_levels s i sd ! k)\<lparr>pv_qty := pv_qty (me_levels s i sd ! k) - so_leaves (me_order s h)\<rparr>"
    using M(5) by (simp add: l_def)
  note q = queue_okD [OF M(6)]
  have kk: "k < length (me_levels ?s1 i sd)" using M(5) by simp
  have d: "dll (me_order ?s1) (pv_head l) (xs @ h # ys) (pv_tail l)" using q(2) l by simp
  obtain l' where l': "me_levels s' = (\<lambda>j sd'. if j = i \<and> sd' = sd then (me_levels ?s1 i sd)[k := l'] else me_levels ?s1 j sd')"
    "pv_price l' = pv_price l" "pv_qty l' = pv_qty l" "pv_count l' = pv_count l - 1"
    "dll (me_order s') (pv_head l') (xs @ ys) (pv_tail l')"
    "\<And>g. g \<notin> set (xs @ h # ys) \<Longrightarrow> me_order s' g = me_order ?s1 g"
    using unlink_queue [OF d q(1) kk l_def, folded s'] by blast
  have lv: "me_levels s' = (\<lambda>j sd'. if j = i \<and> sd' = sd then (me_levels s i sd)[k := l'] else me_levels s j sd')"
    unfolding l'(1) by (intro ext) simp
  show "me_order s' g = me_order s g" if "g \<notin> set (xs @ h # ys)" for g using l'(6) [OF that] by simp
  show "\<exists>l. me_levels s' i sd = (me_levels s i sd)[k := l] \<and> pv_price l = pv_price (me_levels s i sd ! k)"
    unfolding lv using l'(2) l by (intro exI [of _ l']) simp
  show "\<not> (j = i \<and> sd' = sd) \<Longrightarrow> me_levels s' j sd' = me_levels s j sd'" unfolding lv by auto
  show data: "so_data (me_order s' g) = so_data (me_order s g)" for g
    using unlink_data [of h i sd k ?s1 g] unfolding s' by simp
  note D = so_dataD [OF data]
  show "h \<notin> X" by (rule M(2))
  show live: "me_live s' = me_live s" unfolding s' by simp
  have len: "pv_count l' = length (xs @ ys)" using l'(4) l q(3) by simp
  show "pv_count (me_levels s' i sd ! k) = length (xs @ ys)" unfolding lv using M(5) len by simp
  show "map pv_price (me_levels s' j sd') = map pv_price (me_levels s j sd')"
  proof (cases "j = i \<and> sd' = sd")
    case True
    have "map pv_price ((me_levels s i sd)[k := l']) = (map pv_price (me_levels s i sd))[k := pv_price (me_levels s i sd ! k)]"
      using l'(2) l by (simp add: map_update)
    moreover have "(map pv_price (me_levels s i sd))[k := pv_price (me_levels s i sd ! k)] = map pv_price (me_levels s i sd)"
      by (metis list_update_id map_update)
    ultimately show ?thesis using True unfolding lv by simp
  qed (auto simp: lv)
  have qok: "queue_ok (me_order s') i sd l' (xs @ ys)"
  proof -
    have "pv_qty l' = (\<Sum>h\<leftarrow>xs @ ys. so_leaves (me_order s h))" using l'(3) l q(4) by simp
    moreover have "distinct (xs @ ys)" using q(1) by simp
    moreover have "pv_price l' = pv_price (me_levels s i sd ! k)" using l'(2) l by simp
    ultimately show ?thesis unfolding queue_ok_def D using l'(5) q(5) len by simp
  qed
  have links: "so_prev (me_order s h) = last_or kNullHandle xs" "so_next (me_order s h) = hd_or kNullHandle ys"
    using q(2) lseg_ends [of "me_order s" h "so_next (me_order s h)" ys] unfolding lseg_append by auto
  have all: "set (xs @ h # ys) \<subseteq> me_live s" using M(7) R(5) by blast
  have "pool_inv (me_pool s')" unfolding s'
  proof (rule unlink_pool_inv; simp only: upd_level_frame links)
    show "last_or kNullHandle xs \<noteq> kNullHandle \<Longrightarrow> last_or kNullHandle xs \<in> me_live s"
      using all last_in_set [of xs] by (auto simp: last_or_def split: if_splits)
    show "hd_or kNullHandle ys \<noteq> kNullHandle \<Longrightarrow> hd_or kNullHandle ys \<in> me_live s"
      using all by (auto simp: hd_or_def split: list.splits)
    show "last_or kNullHandle xs \<noteq> h"
      using M(1,3) live_not_null [OF R(1)] last_in_set [of xs] by (auto simp: last_or_def)
  qed (use R(1) M(1) in simp_all)
  then show "me_rep (insert h X) s' (set_queues i sd ((Q i sd)[k := xs @ ys]) Q)"
  proof (rule me_rep_step [OF rep i k(1) _ live _ _ _ _ lv qok])
    show "pl_capacity (me_pool s') = pl_capacity (me_pool s)" "me_by_key s' = me_by_key s" "me_count s' = me_count s"
      "me_next_order_id s' = me_next_order_id s" unfolding s' by simp_all
    show "pv_price l' = pv_price (me_levels s i sd ! k)" using l'(2) l by simp
    show "me_order s' g = me_order s g" if "g \<notin> set (Q i sd ! k)" for g
      using l'(6) [of g] that unfolding k(2) by simp
    show "order_key (me_order s' g) = order_key (me_order s g) \<and>
        so_order_id (me_order s' g) = so_order_id (me_order s g)" for g
      unfolding order_key_def D by simp
    show "insert h X \<union> set (xs @ ys) = X \<union> set (Q i sd ! k)" unfolding k(2) by auto
    show "insert h X \<inter> set (xs @ ys) = {}" "insert h X \<inter> (queued s Q - set (Q i sd ! k)) = {}"
      "set (xs @ ys) \<inter> (queued s Q - set (Q i sd ! k)) = {}"
      using R(6) M(3,4,7) unfolding k(2) by auto
  qed
qed


text \<open>Releasing an order that is in no queue.\<close>

lemma release:
  assumes rep: "me_rep (insert h X) s Q" and h: "h \<notin> X"
  shows "me_rep X (free_order h s) Q" "me_live (free_order h s) = me_live s - {h}"
proof -
  note R = me_repD [OF rep]
  let ?s' = "free_order h s" and ?k = "order_key (me_order s h)"
  have hl: "h \<in> me_live s" using R(5) by blast
  have pool: "pool_inv (me_pool ?s')" "me_live ?s' = me_live s - {h}"
    "pl_capacity (me_pool ?s') = pl_capacity (me_pool s)"
    using pool_free_law [OF R(1) hl] by (simp_all add: free_order_def Let_def)
  show "me_live ?s' = me_live s - {h}" by (rule pool(2))
  obtain m where m: "ohm_erase (me_by_key s) ?k = (m, ohm_find (me_by_key s) ?k \<noteq> None)" "ohm_inv m"
    "ohm_find m = (ohm_find (me_by_key s))(?k := None)" "ohm_bits m = ohm_bits (me_by_key s)"
    using ohm_erase_law [OF R(2), of ?k] by blast
  have key: "me_by_key ?s' = m" using m(1) by (simp add: free_order_def Let_def order_key_def)
  have q: "queued ?s' Q = queued s Q" by (simp add: queued_def)
  have ord: "me_order ?s' g = me_order s g" if "g \<in> queued s Q" for g using that R(6) by auto
  have "side_ok (me_order ?s') i sd (me_levels ?s' i sd) (Q i sd)" if i: "i < me_count s" for i sd
  proof -
    have "side_ok (me_order ?s') i sd (me_levels s i sd) (Q i sd) = side_ok (me_order s) i sd (me_levels s i sd) (Q i sd)"
      using ord queuedI [where Q = Q and sd = sd, OF i] by (intro side_ok_cong) blast
    then show ?thesis using R(4) [OF i] by simp
  qed
  moreover have "ohm_find m k = Some g \<longleftrightarrow> g \<in> me_live s - {h} \<and> order_key (me_order ?s' g) = k" for k g
    using R(7) [of k g] R(7) [of ?k h] hl unfolding m(3) by auto
  moreover have "inj_on (\<lambda>g. so_order_id (me_order ?s' g)) (me_live s - {h})"
    using R(8) unfolding inj_on_def by simp
  moreover have "\<forall>g\<in>me_live s - {h}. so_order_id (me_order ?s' g) < me_next_order_id ?s'" using R(9) by simp
  moreover have "me_live s - {h} = X \<union> queued s Q" "X \<inter> queued s Q = {}" using R(5,6) h by auto
  ultimately show "me_rep X ?s' Q"
    using R(3) pool(1,3) m(2,4) unfolding me_rep_def key q pool(2) by simp
qed

text \<open>Writing an order without moving it.\<close>

lemma write_free:
  assumes rep: "me_rep X s Q" and h: "h \<in> X"
    and f: "order_key (f (me_order s h)) = order_key (me_order s h)" "so_order_id (f (me_order s h)) = so_order_id (me_order s h)"
  shows "me_rep X (upd_sim h f s) Q"
proof -
  note R = me_repD [OF rep]
  let ?s' = "upd_sim h f s"
  have hl: "h \<in> me_live s" using R(5) h by blast
  have q: "queued ?s' Q = queued s Q" by (simp add: queued_def)
  have "side_ok (me_order ?s') i sd (me_levels s i sd) (Q i sd)" if i: "i < me_count s" for i sd
  proof -
    have "me_order ?s' g = me_order s g" if "g \<in> set (concat (Q i sd))" for g
      using queuedI [where Q = Q and sd = sd, OF i that] R(6) h by auto
    then show ?thesis using R(4) [OF i, of sd] side_ok_cong [of "Q i sd" "me_order ?s'"] by blast
  qed
  moreover have "order_key (me_order ?s' g) = order_key (me_order s g)" "so_order_id (me_order ?s' g) = so_order_id (me_order s g)" for g
    using f by simp_all
  ultimately show ?thesis using R hl unfolding me_rep_def q by (simp add: upd_sim_pool_inv)
qed

text \<open>A level with no orders is dropped.\<close>

lemma drop_level:
  assumes rep: "me_rep X s Q" and i: "i < me_count s" and k: "k < length (Q i sd)" "Q i sd ! k = []"
    and s': "s' = set_book i (sb_erase sd k (me_books s i)) s"
  shows "me_rep X s' (set_queues i sd (take k (Q i sd) @ drop (Suc k) (Q i sd)) Q)"
    "me_levels s' i sd = take k (me_levels s i sd) @ drop (Suc k) (me_levels s i sd)"
    "\<not> (j = i \<and> sd' = sd) \<Longrightarrow> me_levels s' j sd' = me_levels s j sd'"
    "queued s' (set_queues i sd (take k (Q i sd) @ drop (Suc k) (Q i sd)) Q) = queued s Q"
proof -
  note R = me_repD [OF rep]
  let ?v = "me_levels s i sd" and ?qs = "Q i sd" and ?Q = "set_queues i sd (take k (Q i sd) @ drop (Suc k) (Q i sd)) Q"
  have ok: "side_ok (me_order s) i sd ?v ?qs" by (rule R(4) [OF i])
  have kv: "k < length ?v" "length ?v = length ?qs" using side_okD(2) [OF ok k(1)] side_ok_length [OF ok] by auto
  show lv: "me_levels s' i sd = take k ?v @ drop (Suc k) ?v"
    unfolding s' sb_erase_def sv_erase_at_def using kv(1) by (simp add: me_levels_def)
  show lo: "\<not> (j = i \<and> sd' = sd) \<Longrightarrow> me_levels s' j sd' = me_levels s j sd'" for j sd'
    unfolding s' sb_erase_def by (auto simp: me_levels_def)
  have cat: "set (concat (take k ?qs @ drop (Suc k) ?qs)) = set (concat ?qs)"
  proof -
    have "?qs = take k ?qs @ [] # drop (Suc k) ?qs" using id_take_nth_drop [OF k(1)] k(2) by simp
    then have "concat ?qs = concat (take k ?qs @ [] # drop (Suc k) ?qs)" by (rule arg_cong)
    then show ?thesis by simp
  qed
  have co: "me_count s' = me_count s" unfolding s' by simp
  have "set (concat (?Q j sd')) = set (concat (Q j sd'))" for j sd'
    using cat by (cases "j = i \<and> sd' = sd") auto
  then show q: "queued s' ?Q = queued s Q" unfolding queued_def co by (simp only:)
  have "side_ok (me_order s) i sd (take k ?v @ drop (Suc k) ?v) (take k ?qs @ drop (Suc k) ?qs)"
  proof -
    have "list_all2 (queue_ok (me_order s) i sd) (take k ?v @ drop (Suc k) ?v) (take k ?qs @ drop (Suc k) ?qs)"
      using ok by (intro list_all2_appendI list_all2_takeI list_all2_dropI) (auto simp: side_ok_def)
    moreover have "best_last sd (take k ?v @ drop (Suc k) ?v)"
    proof -
      have "best_last sd (take k ?v @ ?v ! k # drop (Suc k) ?v)"
        using ok id_take_nth_drop [OF kv(1)] unfolding side_ok_def by simp
      then show ?thesis unfolding best_last_def sorted_wrt_append by simp
    qed
    moreover have "length (take k ?v @ drop (Suc k) ?v) \<le> length ?v" by simp
    ultimately show ?thesis using ok unfolding side_ok_def by (metis le_trans)
  qed
  then have "side_ok (me_order s) j sd' (me_levels s' j sd') (?Q j sd')" if "j < me_count s" for j sd'
    using R(4) [OF that, of sd'] lv lo [of j sd'] by (cases "j = i \<and> sd' = sd") auto
  then show "me_rep X s' ?Q"
    using R unfolding me_rep_def q unfolding s' by simp
qed

subsection \<open>Finding a level\<close>

lemma best_last_mono:
  assumes "best_last sd v" "i \<le> j" "j < length v" "better sd p (pv_price (v ! j))"
  shows "better sd p (pv_price (v ! i))"
proof (cases "i = j")
  case False
  then have "better sd (pv_price (v ! j)) (pv_price (v ! i))" using assms(2,3) by (intro best_last_nth [OF assms(1)]) auto
  then show ?thesis by (rule better_trans [OF assms(4)])
qed (use assms(4) in simp)

lemma sb_lower_bound_takeWhile:
  assumes "best_last sd (sb_levels b sd)"
  shows "sb_lower_bound b sd p = length (takeWhile (\<lambda>l. better sd p (pv_price l)) (sb_levels b sd))"
proof -
  define v where "v = sb_levels b sd"
  define P where "P = (\<lambda>l::price_level. better sd p (pv_price l))"
  have mono: "P (v ! i)" if "i \<le> j" "j < length v" "P (v ! j)" for i j
    using best_last_mono [OF assms, folded v_def, OF that(1,2)] that(3) unfolding P_def by blast
  have eq: "sb_lower_bound b sd p =
      (if length v > 0 \<and> P (v ! (length v - 1)) then length v else lower_bound (\<lambda>i. P (v ! i)) 0 (length v))"
    unfolding sb_lower_bound_def Let_def P_def v_def by (rule refl)
  have "sb_lower_bound b sd p = length (takeWhile P v)"
  proof (cases "length v > 0 \<and> P (v ! (length v - 1))")
    case True
    have "P x" if x: "x \<in> set v" for x
    proof -
      obtain i where i: "i < length v" "x = v ! i" using x by (metis in_set_conv_nth)
      have "P (v ! i)" by (rule mono [of i "length v - 1"]) (use i True in auto)
      then show ?thesis using i by simp
    qed
    then have tw: "takeWhile P v = v" by (simp add: takeWhile_eq_all_conv)
    show ?thesis unfolding eq tw using True by simp
  next
    case False
    have "lower_bound (\<lambda>i. P (v ! i)) 0 (length v) = length (takeWhile P v)"
      using mono by (rule lower_bound_takeWhile)
    then show ?thesis unfolding eq using False by (simp only: if_False)
  qed
  then show ?thesis unfolding P_def v_def .
qed

lemma takeWhile_bound:
  assumes "k = length (takeWhile P v)"
  shows "k \<le> length v" "\<And>j. j < k \<Longrightarrow> P (v ! j)" "k < length v \<Longrightarrow> \<not> P (v ! k)"
proof -
  show "k \<le> length v" using assms by (simp add: length_takeWhile_le)
  show "P (v ! j)" if "j < k" for j
    using that assms nth_mem [of j "takeWhile P v"] takeWhile_nth [of j P v] by (metis set_takeWhileD)
  show "k < length v \<Longrightarrow> \<not> P (v ! k)" using assms nth_length_takeWhile [of P v] by simp
qed

lemma sb_find_Some:
  assumes "best_last sd (sb_levels b sd)"
  shows "sb_find b sd p = Some k \<longleftrightarrow> k < length (sb_levels b sd) \<and> pv_price (sb_levels b sd ! k) = p"
proof -
  let ?v = "sb_levels b sd"
  define n where "n = sb_lower_bound b sd p"
  note T = takeWhile_bound [OF n_def [unfolded sb_lower_bound_takeWhile [OF assms]]]
  have "k = n" if "k < length ?v" "pv_price (?v ! k) = p"
  proof (rule ccontr)
    assume "k \<noteq> n"
    then consider "k < n" | "n < k" by arith
    then show False
    proof cases
      case 1
      then show False using T(2) [of k] that by simp
    next
      case 2
      then have "better sd p (pv_price (?v ! n))" using best_last_nth [OF assms 2] that by simp
      then show False using T(3) 2 that(1) by simp
    qed
  qed
  then show ?thesis unfolding sb_find_def Let_def n_def [symmetric] by auto
qed

lemma sb_find_None:
  assumes "best_last sd (sb_levels b sd)"
  shows "sb_find b sd p = None \<longleftrightarrow> p \<notin> pv_price ` set (sb_levels b sd)"
proof -
  have "p \<in> pv_price ` set (sb_levels b sd) \<longleftrightarrow> (\<exists>k<length (sb_levels b sd). pv_price (sb_levels b sd ! k) = p)"
    by (auto simp: set_conv_nth)
  also have "\<dots> \<longleftrightarrow> (\<exists>k. sb_find b sd p = Some k)" using sb_find_Some [OF assms] by blast
  finally show ?thesis by (metis not_None_eq)
qed

text \<open>A new level is inserted in its place, unless the side is full.\<close>

definition empty_level :: "price \<Rightarrow> price_level" where
  "empty_level p = \<lparr>pv_price = p, pv_qty = 0, pv_head = kNullHandle, pv_tail = kNullHandle, pv_count = 0\<rparr>"

lemma sb_find_or_insert_cases:
  assumes s: "best_last sd (sb_levels b sd)"
  obtains (found) k where "sb_find_or_insert b sd p = (b, Some k)" "k < length (sb_levels b sd)"
      "pv_price (sb_levels b sd ! k) = p"
  | (full) "sb_find_or_insert b sd p = (b, None)" "length (sb_levels b sd) = kMaxSimLevels"
      "p \<notin> pv_price ` set (sb_levels b sd)"
  | (new) k v where "sb_find_or_insert b sd p = (sb_set_levels sd v b, Some k)"
      "v = take k (sb_levels b sd) @ empty_level p # drop k (sb_levels b sd)" "best_last sd v"
      "k \<le> length (sb_levels b sd)" "length (sb_levels b sd) \<noteq> kMaxSimLevels"
      "p \<notin> pv_price ` set (sb_levels b sd)"
proof -
  let ?v = "sb_levels b sd"
  define n where "n = sb_lower_bound b sd p"
  note T = takeWhile_bound [OF n_def [unfolded sb_lower_bound_takeWhile [OF s]]]
  show thesis
  proof (cases "n < length ?v \<and> pv_price (?v ! n) = p")
    case True
    then show thesis using found [of n] unfolding sb_find_or_insert_def Let_def n_def [symmetric] by simp
  next
    case nf: False
    have none: "sb_find b sd p = None" unfolding sb_find_def Let_def n_def [symmetric] using nf by simp
    have np: "p \<notin> pv_price ` set ?v" using none sb_find_None [OF s] by simp
    show thesis
    proof (cases "length ?v = kMaxSimLevels")
      case True
      then have "sb_find_or_insert b sd p = (b, None)"
        unfolding sb_find_or_insert_def Let_def n_def [symmetric] using nf by (simp add: sv_insert_at_def)
      then show thesis using full True np by blast
    next
      case False
      let ?w = "take n ?v @ empty_level p # drop n ?v"
      have eq: "sb_find_or_insert b sd p = (sb_set_levels sd ?w b, Some n)"
        unfolding sb_find_or_insert_def Let_def n_def [symmetric] using nf False T(1)
        by (auto simp: sv_insert_at_def empty_level_def)
      have lo: "better sd p (pv_price a)" if "a \<in> set (take n ?v)" for a
        using that T(2) by (auto simp: in_set_conv_nth)
      have hi: "better sd (pv_price a) p" if "a \<in> set (drop n ?v)" for a
      proof -
        obtain j where j: "j < length ?v - n" "a = ?v ! (n + j)" using \<open>a \<in> _\<close> T(1) by (auto simp: in_set_conv_nth)
        have "better sd (pv_price (?v ! n)) p"
          using T(3) j(1) nf better_linear [of sd p "pv_price (?v ! n)"] by auto
        moreover have "better sd (pv_price (?v ! (n + j))) (pv_price (?v ! n))" if "j \<noteq> 0"
          using j(1) that by (intro best_last_nth [OF s]) auto
        ultimately show ?thesis using j(2) better_trans [of sd "pv_price (?v ! (n + j))"] by (cases "j = 0") auto
      qed
      have srt: "sorted_wrt (\<lambda>a b. better sd (pv_price b) (pv_price a)) (take n ?v)"
        "sorted_wrt (\<lambda>a b. better sd (pv_price b) (pv_price a)) (drop n ?v)"
        "\<forall>x\<in>set (take n ?v). \<forall>y\<in>set (drop n ?v). better sd (pv_price y) (pv_price x)"
        using s append_take_drop_id [of n ?v] unfolding best_last_def by (metis sorted_wrt_append)+
      have "best_last sd ?w" unfolding best_last_def sorted_wrt_append
        using srt lo hi by (simp add: empty_level_def)
      then show thesis using new [OF eq refl _ T(1) False np] by blast
    qed
  qed
qed

subsection \<open>Announcing and dropping a level\<close>

lemma book_changed_frame [simp]:
  "me_count (book_changed i sd k s) = me_count s" "me_sink (book_changed i sd k s) = me_sink s"
  "me_pool (book_changed i sd k s) = me_pool s" "me_by_key (book_changed i sd k s) = me_by_key s"
  "me_stp (book_changed i sd k s) = me_stp s" "me_ledgers (book_changed i sd k s) = me_ledgers s"
  "me_stats (book_changed i sd k s) = me_stats s"
  "me_next_order_id (book_changed i sd k s) = me_next_order_id s"
  "me_next_trade_id (book_changed i sd k s) = me_next_trade_id s"
  "me_order (book_changed i sd k s) = me_order s" "me_levels (book_changed i sd k s) = me_levels s"
  "me_rep X (book_changed i sd k s) Q = me_rep X s Q"
  "me_log (book_changed i sd k s) = OnBookChange i sd (pv_price (me_levels s i sd ! k))
     (pv_qty (me_levels s i sd ! k)) (Suc (sb_update_id (me_books s i))) # me_log s"
  by (simp_all add: book_changed_def Let_def me_level_levels) (auto simp: me_levels_def fun_eq_iff)

lemma book_level_gone_frame [simp]:
  "me_count (book_level_gone i sd px s) = me_count s" "me_sink (book_level_gone i sd px s) = me_sink s"
  "me_pool (book_level_gone i sd px s) = me_pool s" "me_by_key (book_level_gone i sd px s) = me_by_key s"
  "me_stp (book_level_gone i sd px s) = me_stp s" "me_ledgers (book_level_gone i sd px s) = me_ledgers s"
  "me_stats (book_level_gone i sd px s) = me_stats s"
  "me_next_order_id (book_level_gone i sd px s) = me_next_order_id s"
  "me_next_trade_id (book_level_gone i sd px s) = me_next_trade_id s"
  "me_order (book_level_gone i sd px s) = me_order s" "me_levels (book_level_gone i sd px s) = me_levels s"
  "me_rep X (book_level_gone i sd px s) Q = me_rep X s Q"
  "me_log (book_level_gone i sd px s) = OnBookChange i sd px 0 (Suc (sb_update_id (me_books s i))) # me_log s"
  by (simp_all add: book_level_gone_def Let_def) (auto simp: me_levels_def fun_eq_iff)

lemma close_level_frame [simp]:
  "me_count (close_level i sd k px s) = me_count s" "me_sink (close_level i sd k px s) = me_sink s"
  "me_pool (close_level i sd k px s) = me_pool s" "me_by_key (close_level i sd k px s) = me_by_key s"
  "me_stp (close_level i sd k px s) = me_stp s" "me_ledgers (close_level i sd k px s) = me_ledgers s"
  "me_stats (close_level i sd k px s) = me_stats s"
  "me_next_order_id (close_level i sd k px s) = me_next_order_id s"
  "me_next_trade_id (close_level i sd k px s) = me_next_trade_id s"
  "me_order (close_level i sd k px s) = me_order s"
  by (simp_all add: close_level_def Let_def)

text \<open>The queues after a level was announced: it is gone if it had no orders.\<close>

definition close_queues :: "nat \<Rightarrow> nat list list \<Rightarrow> nat list list" where
  "close_queues k qs = (if qs ! k = [] then take k qs @ drop (Suc k) qs else qs)"

lemma close_level:
  assumes rep: "me_rep X s Q" and i: "i < me_count s" and k: "k < length (Q i sd)"
    and s': "s' = close_level i sd k px s"
  shows "me_rep X s' (set_queues i sd (close_queues k (Q i sd)) Q)"
    "queued s' (set_queues i sd (close_queues k (Q i sd)) Q) = queued s Q"
    "me_levels s' i sd = (if Q i sd ! k = [] then take k (me_levels s i sd) @ drop (Suc k) (me_levels s i sd)
       else me_levels s i sd)"
    "\<And>j sd'. \<not> (j = i \<and> sd' = sd) \<Longrightarrow> me_levels s' j sd' = me_levels s j sd'"
    "me_log s' = OnBookChange i sd (if Q i sd ! k = [] then px else pv_price (me_levels s i sd ! k))
       (if Q i sd ! k = [] then 0 else pv_qty (me_levels s i sd ! k)) (Suc (sb_update_id (me_books s i))) # me_log s"
proof -
  have q: "queue_ok (me_order s) i sd (me_levels s i sd ! k) (Q i sd ! k)"
    using side_okD [OF me_repD(4) [OF rep i] k] by simp
  have c: "pv_count (me_level s i sd k) = 0 \<longleftrightarrow> Q i sd ! k = []"
    using queue_okD(3) [OF q] by (simp add: me_level_levels)
  have "me_rep X s' (set_queues i sd (close_queues k (Q i sd)) Q) \<and>
    queued s' (set_queues i sd (close_queues k (Q i sd)) Q) = queued s Q \<and>
    me_levels s' i sd = (if Q i sd ! k = [] then take k (me_levels s i sd) @ drop (Suc k) (me_levels s i sd)
       else me_levels s i sd) \<and>
    (\<forall>j sd'. \<not> (j = i \<and> sd' = sd) \<longrightarrow> me_levels s' j sd' = me_levels s j sd')"
  proof (cases "Q i sd ! k = []")
    case True
    let ?g = "book_level_gone i sd px s"
    have g: "s' = set_book i (sb_erase sd k (me_books ?g i)) ?g"
      unfolding s' close_level_def using c True by (simp add: Let_def)
    have rg: "me_rep X ?g Q" "i < me_count ?g" using rep i by simp_all
    have qg: "queued ?g Q = queued s Q" by (simp add: queued_def)
    show ?thesis
      using drop_level [OF rg k True g] True unfolding close_queues_def qg by simp
  next
    case False
    then have "s' = book_changed i sd k s" unfolding s' close_level_def using c by simp
    moreover have "set_queues i sd (Q i sd) Q = Q" by (simp add: set_queues_def)
    ultimately show ?thesis using rep False by (simp add: close_queues_def queued_def)
  qed
  then show "me_rep X s' (set_queues i sd (close_queues k (Q i sd)) Q)"
    "queued s' (set_queues i sd (close_queues k (Q i sd)) Q) = queued s Q"
    "me_levels s' i sd = (if Q i sd ! k = [] then take k (me_levels s i sd) @ drop (Suc k) (me_levels s i sd)
       else me_levels s i sd)"
    "\<And>j sd'. \<not> (j = i \<and> sd' = sd) \<Longrightarrow> me_levels s' j sd' = me_levels s j sd'" by blast+
  show "me_log s' = OnBookChange i sd (if Q i sd ! k = [] then px else pv_price (me_levels s i sd ! k))
       (if Q i sd ! k = [] then 0 else pv_qty (me_levels s i sd ! k)) (Suc (sb_update_id (me_books s i))) # me_log s"
    unfolding s' close_level_def using c by (simp add: Let_def)
qed

subsection \<open>A resting order leaves the book\<close>

lemma cancel_maker_rep:
  assumes rep: "me_rep X s Q" and i: "i < me_count s" and k: "k < length (Q i sd)" "Q i sd ! k = xs @ h # ys"
    and s': "s' = cancel_maker h i sd k why now s"
  shows "me_rep X s' (set_queues i sd ((Q i sd)[k := xs @ ys]) Q)"
    "\<And>g. g \<noteq> h \<Longrightarrow> so_data (me_order s' g) = so_data (me_order s g)"
    "me_live s' = me_live s - {h}"
    "\<And>j sd'. map pv_price (me_levels s' j sd') = map pv_price (me_levels s j sd')"
    "\<exists>od. so_data od = so_data (me_order s h) \<and> me_log s' = OnCancel od why now # me_log s"
    "\<And>g. g \<notin> set (xs @ h # ys) \<Longrightarrow> me_order s' g = me_order s g"
    "\<And>j sd'. \<not> (j = i \<and> sd' = sd) \<Longrightarrow> me_levels s' j sd' = me_levels s j sd'"
    "\<exists>l. me_levels s' i sd = (me_levels s i sd)[k := l] \<and> pv_price l = pv_price (me_levels s i sd ! k)"
proof -
  let ?t = "unlink h i sd k (upd_level i sd k (\<lambda>l. l\<lparr>pv_qty := pv_qty l - so_leaves (me_order s h)\<rparr>) s)"
  have eq: "s' = free_order h (emit (OnCancel (me_order ?t h) why now) ?t)"
    unfolding s' cancel_maker_def Let_def by simp
  note T = take_out [OF rep i k refl]
  have rt: "me_rep (insert h X) (emit (OnCancel (me_order ?t h) why now) ?t) (set_queues i sd ((Q i sd)[k := xs @ ys]) Q)"
    using T(1) by simp
  note F = release [OF rt T(3)]
  show "me_rep X s' (set_queues i sd ((Q i sd)[k := xs @ ys]) Q)" unfolding eq by (rule F(1))
  show "so_data (me_order s' g) = so_data (me_order s g)" if "g \<noteq> h" for g
    unfolding eq using T(2) that by simp
  show "me_live s' = me_live s - {h}" unfolding eq F(2) using T(4) by simp
  show "map pv_price (me_levels s' j sd') = map pv_price (me_levels s j sd')" for j sd'
    unfolding eq using T(6) [of j sd'] by simp
  show "\<exists>od. so_data od = so_data (me_order s h) \<and> me_log s' = OnCancel od why now # me_log s"
    unfolding eq using T(2) [of h] by (intro exI [of _ "me_order ?t h"]) simp
  show "me_order s' g = me_order s g" if "g \<notin> set (xs @ h # ys)" for g
    unfolding eq using T(7) [OF that] that by simp
  show "me_levels s' j sd' = me_levels s j sd'" if "\<not> (j = i \<and> sd' = sd)" for j sd'
    unfolding eq using T(8) [OF that] by simp
  show "\<exists>l. me_levels s' i sd = (me_levels s i sd)[k := l] \<and> pv_price l = pv_price (me_levels s i sd ! k)"
    unfolding eq using T(9) by simp
qed

end
