(* ===== verification/MatchingSweep.thy ===== *)
theory MatchingSweep
  imports MatchingInv
begin

unbundle bit_operations_syntax

text \<open>
  The sweep of an incoming order through the opposite side of its book. A pass of the inner loop is one of five
  cases; a fill either leaves the maker in its queue or takes it out. The loops are then followed by their events:
  \<open>progress\<close> collects what a part of the sweep does, and composes.
\<close>

section \<open>A sweep\<close>

text \<open>A sink never answers a negative quantity for an order that has leaves.\<close>

definition sink_ok :: "sink \<Rightarrow> bool" where
  "sink_ok sk \<longleftrightarrow> (\<forall>evs od. 0 \<le> so_leaves od \<longrightarrow> 0 \<le> sk evs od)"

text \<open>The state while the order \<open>th\<close> sweeps the side \<open>sd\<close> of its instrument.\<close>

definition sweeping :: "nat \<Rightarrow> instrument_id \<Rightarrow> side \<Rightarrow> matching_engine \<Rightarrow> (instrument_id \<Rightarrow> side \<Rightarrow> nat list list) \<Rightarrow> bool" where
  "sweeping th i sd s Q \<longleftrightarrow>
     me_rep {th} s Q \<and> i < me_count s \<and> so_instrument (me_order s th) = i \<and> so_side (me_order s th) = opposite sd \<and>
     0 \<le> so_cum_qty (me_order s th) \<and> so_cum_qty (me_order s th) \<le> so_qty (me_order s th) \<and>
     all_open s Q \<and> sink_ok (me_sink s)"

lemma sweepingD:
  assumes "sweeping th i sd s Q"
  shows "me_rep {th} s Q" "i < me_count s" "so_instrument (me_order s th) = i" "so_side (me_order s th) = opposite sd"
    "0 \<le> so_cum_qty (me_order s th)" "so_cum_qty (me_order s th) \<le> so_qty (me_order s th)" "all_open s Q"
    "sink_ok (me_sink s)"
  using assms unfolding sweeping_def by blast+

text \<open>The fill itself, before the maker leaves its queue.\<close>

definition fill_core ::
  "nat \<Rightarrow> nat \<Rightarrow> instrument_id \<Rightarrow> side \<Rightarrow> nat \<Rightarrow> price \<Rightarrow> qty \<Rightarrow> timestamp \<Rightarrow> matching_engine \<Rightarrow> matching_engine" where
  "fill_core th mh i sd k px q now s =
     (let s1 = upd_sim mh (\<lambda>x. x\<lparr>so_cum_qty := so_cum_qty x + q\<rparr>) s;
          s2 = upd_sim th (\<lambda>x. x\<lparr>so_cum_qty := so_cum_qty x + q\<rparr>) s1;
          s3 = upd_level i sd k (\<lambda>l. l\<lparr>pv_qty := pv_qty l - q\<rparr>) s2;
          maker = me_order s3 mh; taker = me_order s3 th;
          s4 = record_fill maker taker px q s3;
          s5 = emit (OnFill maker taker px q now) s4
      in emit (OnTrade (so_instrument taker) px q (so_side taker) (me_next_trade_id s5) now)
           (s5\<lparr>me_next_trade_id := me_next_trade_id s5 + 1\<rparr>))"

lemma me_next_trade_upd [simp]:
  "me_order (s\<lparr>me_next_trade_id := n\<rparr>) = me_order s" "me_levels (s\<lparr>me_next_trade_id := n\<rparr>) = me_levels s"
  by (simp_all add: me_order_def me_levels_def fun_eq_iff)

lemma fill_core_frame [simp]:
  "me_count (fill_core th mh i sd k px q now s) = me_count s"
  "me_sink (fill_core th mh i sd k px q now s) = me_sink s"
  "me_by_key (fill_core th mh i sd k px q now s) = me_by_key s"
  "me_stp (fill_core th mh i sd k px q now s) = me_stp s"
  "me_next_order_id (fill_core th mh i sd k px q now s) = me_next_order_id s"
  "me_live (fill_core th mh i sd k px q now s) = me_live s"
  "pl_capacity (me_pool (fill_core th mh i sd k px q now s)) = pl_capacity (me_pool s)"
  by (simp_all add: fill_core_def Let_def)

lemma fill_core_orders:
  "mh \<noteq> th \<Longrightarrow> me_order (fill_core th mh i sd k px q now s) g =
     (if g = mh \<or> g = th then (me_order s g)\<lparr>so_cum_qty := so_cum_qty (me_order s g) + q\<rparr> else me_order s g)"
  by (simp add: fill_core_def Let_def)

lemma fill_core_levels:
  "me_levels (fill_core th mh i sd k px q now s) = (\<lambda>j sd'. if j = i \<and> sd' = sd
     then (me_levels s i sd)[k := (me_levels s i sd ! k)\<lparr>pv_qty := pv_qty (me_levels s i sd ! k) - q\<rparr>]
     else me_levels s j sd')"
  by (intro ext) (simp add: fill_core_def Let_def)

lemma fill_core_log:
  "mh \<noteq> th \<Longrightarrow> me_log (fill_core th mh i sd k px q now s) =
     OnTrade (so_instrument (me_order s th)) px q (so_side (me_order s th)) (me_next_trade_id s) now #
     OnFill ((me_order s mh)\<lparr>so_cum_qty := so_cum_qty (me_order s mh) + q\<rparr>)
       ((me_order s th)\<lparr>so_cum_qty := so_cum_qty (me_order s th) + q\<rparr>) px q now # me_log s"
  by (simp add: fill_core_def Let_def)

lemma fill_core_ledgers:
  "mh \<noteq> th \<Longrightarrow> me_ledgers (fill_core th mh i sd k px q now s) =
     ledger_add ((me_order s th)\<lparr>so_cum_qty := so_cum_qty (me_order s th) + q\<rparr>) (mul px q) q
       (ledger_add ((me_order s mh)\<lparr>so_cum_qty := so_cum_qty (me_order s mh) + q\<rparr>) (mul px q) q (me_ledgers s))"
  by (simp add: fill_core_def Let_def record_fill_def)

lemma do_fill_core:
  assumes "mh \<noteq> th"
  shows "do_fill th mh i sd k px q now s =
    (let s' = fill_core th mh i sd k px q now s in
     if so_leaves (me_order s' mh) = 0 then free_order mh (unlink mh i sd k s')
     else if so_reduce_only (me_order s' mh) \<and> reducible s' mh = 0
     then cancel_maker mh i sd k CrReduceOnly now (count_expired s') else s')"
  using assms by (simp add: do_fill_def fill_core_def Let_def)

lemma sum_leaves_upd:
  "distinct xs \<Longrightarrow> h \<in> set xs \<Longrightarrow> (\<And>g. g \<in> set xs \<Longrightarrow> g \<noteq> h \<Longrightarrow> f' g = f g) \<Longrightarrow>
   (\<Sum>g\<leftarrow>xs. f' g) = (\<Sum>g\<leftarrow>xs. f g) + (f' h - f h :: int)"
proof (induction xs)
  case (Cons x xs)
  show ?case
  proof (cases "x = h")
    case True
    have "(\<Sum>g\<leftarrow>xs. f' g) = (\<Sum>g\<leftarrow>xs. f g)"
      using True Cons.prems by (intro arg_cong [where f = sum_list] map_cong) auto
    then show ?thesis using True by simp
  next
    case False
    then show ?thesis using Cons by simp
  qed
qed simp

lemma fill_core_rep:
  assumes sw: "sweeping th i sd s Q" and k: "k < length (Q i sd)" "Q i sd ! k = xs @ mh # ys"
    and q: "0 < q" "q \<le> so_leaves (me_order s mh)" "q \<le> so_leaves (me_order s th)"
    and s': "s' = fill_core th mh i sd k px q now s"
  shows "me_rep {th} s' Q" "mh \<noteq> th"
proof -
  note S = sweepingD [OF sw] and M = member_split [OF sweepingD(1,2) [OF sw] k]
  note R = me_repD [OF S(1)]
  show ne: "mh \<noteq> th" using M(2) by simp
  note O = fill_core_orders [OF ne, where i = i and sd = sd and k = k and px = px and q = q and now = now and s = s, folded s']
  let ?l = "me_levels s i sd ! k"
  let ?l' = "?l\<lparr>pv_qty := pv_qty ?l - q\<rparr>"
  note Q = queue_okD [OF M(6)]
  have thq: "th \<notin> set (xs @ mh # ys)" using M(7) R(6) by auto
  have "queue_ok (me_order s') i sd ?l' (xs @ mh # ys)"
  proof -
    have "(\<Sum>h\<leftarrow>xs @ mh # ys. so_leaves (me_order s' h)) = (\<Sum>h\<leftarrow>xs @ mh # ys. so_leaves (me_order s h)) +
        (so_leaves (me_order s' mh) - so_leaves (me_order s mh))"
      using thq by (intro sum_leaves_upd [OF Q(1)]) (auto simp: O)
    then have "pv_qty ?l' = (\<Sum>h\<leftarrow>xs @ mh # ys. so_leaves (me_order s' h))" using Q(4) by (simp add: O so_leaves_def)
    moreover have "dll (me_order s') (pv_head ?l) (xs @ mh # ys) (pv_tail ?l)"
      using Q(2) by (subst lseg_cong [of _ "me_order s'" "me_order s"]) (auto simp: O)
    moreover have "so_instrument (me_order s' h) = i \<and> so_side (me_order s' h) = sd \<and>
        so_price (me_order s' h) = pv_price ?l \<and> 0 \<le> so_cum_qty (me_order s' h) \<and> so_cum_qty (me_order s' h) \<le> so_qty (me_order s' h)"
      if h: "h \<in> set (xs @ mh # ys)" for h
      using Q(5) [OF h] thq h q by (auto simp: O so_leaves_def)
    ultimately show ?thesis using Q(1,3) unfolding queue_ok_def by simp
  qed
  moreover have "pool_inv (me_pool s')"
  proof -
    have "th \<in> me_live s" using R(5) by blast
    then show ?thesis unfolding s' fill_core_def Let_def using R(1) M(1) by simp
  qed
  ultimately have "me_rep {th} s' (set_queues i sd ((Q i sd)[k := xs @ mh # ys]) Q)"
  proof (intro me_rep_step [OF S(1,2) k(1), where l' = ?l'])
    show "me_levels s' = (\<lambda>j sd'. if j = i \<and> sd' = sd then (me_levels s i sd)[k := ?l'] else me_levels s j sd')"
      unfolding s' fill_core_levels ..
    show "me_order s' h = me_order s h" if "h \<in> queued s Q" "h \<notin> set (Q i sd ! k)" for h
      using that R(6) unfolding k(2) by (auto simp: O)
    show "order_key (me_order s' h) = order_key (me_order s h) \<and> so_order_id (me_order s' h) = so_order_id (me_order s h)" for h
      by (simp add: O order_key_def)
    show "{th} \<inter> set (xs @ mh # ys) = {}" using thq by blast
    show "{th} \<inter> (queued s Q - set (Q i sd ! k)) = {}" using R(6) by blast
  qed (simp_all add: s' k(2))
  moreover have "set_queues i sd ((Q i sd)[k := xs @ mh # ys]) Q = Q"
    using k by (metis list_update_id set_queues_def fun_upd_triv)
  ultimately show "me_rep {th} s' Q" by simp
qed

text \<open>What never changes in an order while it trades.\<close>

definition so_static :: "sim_order \<Rightarrow> sim_order" where
  "so_static od = od\<lparr>so_next := 0, so_prev := 0, so_cum_qty := 0\<rparr>"

lemma so_staticD:
  assumes "so_static a = so_static b"
  shows "so_order_id a = so_order_id b" "so_cl_ord_id a = so_cl_ord_id b" "so_price a = so_price b"
    "so_qty a = so_qty b" "so_created a = so_created b"
    "so_instrument a = so_instrument b" "so_account a = so_account b" "so_side a = so_side b"
    "so_type a = so_type b" "so_tif a = so_tif b" "so_reduce_only a = so_reduce_only b"
  using assms by (cases a, cases b, simp add: so_static_def)+

lemma so_static_upd [simp]:
  "so_static (od\<lparr>so_next := n\<rparr>) = so_static od" "so_static (od\<lparr>so_prev := n\<rparr>) = so_static od"
  "so_static (od\<lparr>so_cum_qty := q\<rparr>) = so_static od"
  by (simp_all add: so_static_def)

lemma so_data_static: "so_data a = so_data b \<Longrightarrow> so_static a = so_static b"
  by (cases a, cases b, simp add: so_data_def so_static_def)

lemma upd_level_id: "k < length (me_levels s i sd) \<Longrightarrow> f (me_levels s i sd ! k) = me_levels s i sd ! k \<Longrightarrow> upd_level i sd k f s = s"
proof -
  assume "k < length (me_levels s i sd)" "f (me_levels s i sd ! k) = me_levels s i sd ! k"
  then have "sb_set_levels sd ((sb_levels (me_books s i) sd)[k := f (me_level s i sd k)]) (me_books s i) = me_books s i"
    by (cases sd) (auto simp: me_level_def me_levels_def sb_set_levels_def sb_levels_def)
  then show ?thesis by (simp add: upd_level_def set_book_def)
qed

text \<open>A fill leaves the maker in the queue with what is left of it, or takes it out.\<close>

lemma do_fill_cases:
  assumes sw: "sweeping th i sd s Q" and k: "k < length (Q i sd)" "Q i sd ! k = xs @ mh # ys"
    and q: "0 < q" "q \<le> so_leaves (me_order s mh)" "q \<le> so_leaves (me_order s th)"
    and s': "s' = do_fill th mh i sd k px q now s"
  obtains (kept) "me_rep {th} s' Q" "q < so_leaves (me_order s mh)"
      "s' = fill_core th mh i sd k px q now s"
  | (gone) s1 evs where "me_rep {th} s' (set_queues i sd ((Q i sd)[k := xs @ ys]) Q)"
      "s1 = fill_core th mh i sd k px q now s"
      "so_reduce_only (me_order s mh) \<or> q = so_leaves (me_order s mh)"
      "\<And>g. g \<noteq> mh \<Longrightarrow> so_data (me_order s' g) = so_data (me_order s1 g)"
      "\<And>g. g \<notin> set (xs @ mh # ys) \<Longrightarrow> me_order s' g = me_order s1 g"
      "me_live s' = me_live s - {mh}" "me_log s' = evs @ me_log s1" "evs = [] \<or> (\<exists>od why. evs = [OnCancel od why now])"
      "\<And>j sd'. map pv_price (me_levels s' j sd') = map pv_price (me_levels s1 j sd')"
      "\<And>j sd'. \<not> (j = i \<and> sd' = sd) \<Longrightarrow> me_levels s' j sd' = me_levels s j sd'"
      "me_ledgers s' = me_ledgers s1" "me_sink s' = me_sink s" "me_stp s' = me_stp s"
      "me_next_order_id s' = me_next_order_id s" "me_count s' = me_count s"
      "\<exists>l. me_levels s' i sd = (me_levels s i sd)[k := l] \<and> pv_price l = pv_price (me_levels s i sd ! k)"
proof -
  note S = sweepingD [OF sw] and M = member_split [OF sweepingD(1,2) [OF sw] k]
  define s1 where "s1 = fill_core th mh i sd k px q now s"
  note F = fill_core_rep [OF sw k q s1_def]
  have c: "me_count s1 = me_count s" "me_live s1 = me_live s" "me_sink s1 = me_sink s" "me_stp s1 = me_stp s"
    "me_next_order_id s1 = me_next_order_id s" unfolding s1_def by simp_all
  have i1: "i < me_count s1" using S(2) c by simp
  have o1: "me_order s1 mh = (me_order s mh)\<lparr>so_cum_qty := so_cum_qty (me_order s mh) + q\<rparr>"
    unfolding s1_def using fill_core_orders [OF F(2)] by simp
  have lv: "\<not> (j = i \<and> sd' = sd) \<Longrightarrow> me_levels s1 j sd' = me_levels s j sd'" for j sd'
    unfolding s1_def fill_core_levels by auto
  have l1: "me_levels s1 i sd = (me_levels s i sd)[k := (me_levels s i sd ! k)\<lparr>pv_qty := pv_qty (me_levels s i sd ! k) - q\<rparr>]"
    unfolding s1_def fill_core_levels by simp
  have lx: "\<exists>l. v = (me_levels s i sd)[k := l] \<and> pv_price l = pv_price (me_levels s i sd ! k)"
    if "\<exists>l. v = (me_levels s1 i sd)[k := l] \<and> pv_price l = pv_price (me_levels s1 i sd ! k)" for v
    using that M(5) unfolding l1 by auto
  have lf: "so_leaves (me_order s1 mh) = so_leaves (me_order s mh) - q" using o1 by (simp add: so_leaves_def)
  have ro: "so_reduce_only (me_order s1 mh) = so_reduce_only (me_order s mh)" using o1 by simp
  note eq = do_fill_core [OF F(2), where i = i and sd = sd and k = k and px = px and q = q and now = now and s = s,
      folded s' s1_def, unfolded Let_def]
  consider (a) "so_leaves (me_order s1 mh) = 0" | (b) "so_leaves (me_order s1 mh) \<noteq> 0" "so_reduce_only (me_order s1 mh) \<and> reducible s1 mh = 0"
    | (c) "so_leaves (me_order s1 mh) \<noteq> 0" "\<not> (so_reduce_only (me_order s1 mh) \<and> reducible s1 mh = 0)" by blast
  then show thesis
  proof cases
    case c
    then have "s' = s1" unfolding eq by (auto split: if_splits)
    then show thesis using kept F(1) c(1) lf q(2) s1_def by simp
  next
    case b
    then have e: "s' = cancel_maker mh i sd k CrReduceOnly now (count_expired s1)" unfolding eq by auto
    have rc: "me_rep {th} (count_expired s1) Q" "i < me_count (count_expired s1)" using F(1) i1 by simp_all
    note C = cancel_maker_rep [OF rc k e]
    obtain od where od: "me_log s' = OnCancel od CrReduceOnly now # me_log s1" using C(5) by auto
    show thesis
    proof (rule gone [OF C(1) s1_def, where evs = "[OnCancel od CrReduceOnly now]"])
      show "me_ledgers s' = me_ledgers s1" "me_sink s' = me_sink s" "me_stp s' = me_stp s"
        "me_next_order_id s' = me_next_order_id s" "me_count s' = me_count s"
        unfolding e cancel_maker_def Let_def using c by simp_all
      show "me_log s' = [OnCancel od CrReduceOnly now] @ me_log s1" using od by simp
      show "\<exists>l. me_levels s' i sd = (me_levels s i sd)[k := l] \<and> pv_price l = pv_price (me_levels s i sd ! k)"
        by (rule lx) (use C(8) in simp)
    qed (use C b ro c lv in simp_all)
  next
    case a
    then have e: "s' = free_order mh (unlink mh i sd k s1)" using eq by simp
    note M1 = member_split [OF F(1) i1 k]
    have "upd_level i sd k (\<lambda>l. l\<lparr>pv_qty := pv_qty l - so_leaves (me_order s1 mh)\<rparr>) s1 = s1"
      using M1(5) a by (intro upd_level_id) simp_all
    then have u: "unlink mh i sd k s1 = unlink mh i sd k (upd_level i sd k (\<lambda>l. l\<lparr>pv_qty := pv_qty l - so_leaves (me_order s1 mh)\<rparr>) s1)"
      by simp
    note T = take_out [OF F(1) i1 k u] and L = release [OF take_out(1,3) [OF F(1) i1 k u]]
    show thesis
    proof (rule gone [OF _ s1_def, where evs = "[]"])
      show "me_rep {th} s' (set_queues i sd ((Q i sd)[k := xs @ ys]) Q)" unfolding e by (rule L(1))
      show "so_data (me_order s' g) = so_data (me_order s1 g)" if "g \<noteq> mh" for g unfolding e using T(2) that by simp
      show "me_order s' g = me_order s1 g" if "g \<notin> set (xs @ mh # ys)" for g unfolding e using T(7) [OF that] that by simp
      show "me_live s' = me_live s - {mh}" unfolding e L(2) T(4) c(2) ..
      show "map pv_price (me_levels s' j sd') = map pv_price (me_levels s1 j sd')" for j sd'
        unfolding e using T(6) [of j sd'] by simp
      show "me_levels s' j sd' = me_levels s j sd'" if "\<not> (j = i \<and> sd' = sd)" for j sd'
        unfolding e using T(8) [OF that] lv [OF that] by simp
      show "\<exists>l. me_levels s' i sd = (me_levels s i sd)[k := l] \<and> pv_price l = pv_price (me_levels s i sd ! k)"
        by (rule lx) (use T(9) e in simp)
    qed (use a lf c in \<open>simp_all add: e\<close>)
  qed
qed

text \<open>The cases of one pass of the inner loop.\<close>

lemma match_maker_cases:
  assumes sw: "sweeping th i sd s Q" and k: "k < length (Q i sd)" "Q i sd ! k = xs @ mh # ys"
    and t: "0 < so_leaves (me_order s th)"
  obtains (reduced) "match_maker th mode i sd k px now mh s = TakerReduced s" "so_reduce_only (me_order s th)"
  | (stop) "match_maker th mode i sd k px now mh s =
        TakerDone (upd_mstats (\<lambda>m. m\<lparr>ms_stp_cancels := ms_stp_cancels m + 1\<rparr>) s)"
      "mode = CancelTaker" "so_account (me_order s mh) = so_account (me_order s th)"
  | (both) f where "match_maker th mode i sd k px now mh s =
        TakerDone (cancel_maker mh i sd k CrStp now (upd_mstats f s))"
      "mode = CancelBoth" "so_account (me_order s mh) = so_account (me_order s th)"
  | (skip) f why where "match_maker th mode i sd k px now mh s =
        NextMaker (cancel_maker mh i sd k why now (upd_mstats f s)) (so_next (me_order s mh))"
      "so_reduce_only (me_order s mh) \<or> mode = CancelMaker \<and> so_account (me_order s mh) = so_account (me_order s th)"
  | (fill) q where "match_maker th mode i sd k px now mh s =
        NextMaker (do_fill th mh i sd k px q now s) (so_next (me_order s mh))"
      "0 < q" "q \<le> so_leaves (me_order s mh)" "q \<le> so_leaves (me_order s th)"
      "mode = StpNone \<or> so_account (me_order s mh) \<noteq> so_account (me_order s th)"
      "so_reduce_only (me_order s mh) \<or> so_reduce_only (me_order s th) \<or>
         q = min (so_leaves (me_order s th)) (so_leaves (me_order s mh))"
proof -
  note S = sweepingD [OF sw] and M = member_split [OF sweepingD(1,2) [OF sw] k]
  let ?t = "me_order s th" and ?m = "me_order s mh"
  have m0: "0 < so_leaves ?m" using S(7) M(7) by (auto simp: all_open_def)
  have r0: "0 \<le> reducible s th" "0 \<le> reducible s mh" using S(8) t m0 by (auto simp: sink_ok_def reducible_def)
  define q0 where "q0 = (if so_reduce_only ?t then min (so_leaves ?t) (reducible s th) else so_leaves ?t)"
  define m1 where "m1 = (if so_reduce_only ?m then min (so_leaves ?m) (reducible s mh) else so_leaves ?m)"
  have b: "0 \<le> q0" "q0 \<le> so_leaves ?t" "0 \<le> m1" "m1 \<le> so_leaves ?m" "\<not> so_reduce_only ?t \<Longrightarrow> q0 = so_leaves ?t"
    "\<not> so_reduce_only ?m \<Longrightarrow> m1 = so_leaves ?m"
    using t m0 r0 by (auto simp: q0_def m1_def)
  note eq = match_maker_def [of th mode i sd k px now mh s, unfolded Let_def, folded q0_def m1_def]
  consider (r) "so_reduce_only ?t \<and> q0 = 0"
    | (s) "\<not> (so_reduce_only ?t \<and> q0 = 0)" "mode \<noteq> StpNone \<and> so_account ?m = so_account ?t"
    | (z) "\<not> (so_reduce_only ?t \<and> q0 = 0)" "\<not> (mode \<noteq> StpNone \<and> so_account ?m = so_account ?t)" "m1 = 0"
    | (f) "\<not> (so_reduce_only ?t \<and> q0 = 0)" "\<not> (mode \<noteq> StpNone \<and> so_account ?m = so_account ?t)" "m1 \<noteq> 0" by blast
  then show thesis
  proof cases
    case r
    then show thesis using reduced eq by simp
  next
    case s
    then show thesis
      using stop both [of "\<lambda>m. m\<lparr>ms_stp_cancels := ms_stp_cancels m + 1\<rparr>"]
        skip [of CrStp "\<lambda>m. m\<lparr>ms_stp_cancels := ms_stp_cancels m + 1\<rparr>"] eq
      by (cases mode) simp_all
  next
    case z
    then have "so_reduce_only ?m" using b(6) m0 by auto
    then show thesis using skip [of CrReduceOnly "\<lambda>m. m\<lparr>ms_expired := ms_expired m + 1\<rparr>"] z eq by (simp add: count_expired_def)
  next
    case f
    have q: "0 < min q0 m1" using f b t by (cases "so_reduce_only ?t") auto
    show thesis
    proof (rule fill [of "min q0 m1"])
      show "match_maker th mode i sd k px now mh s = NextMaker (do_fill th mh i sd k px (min q0 m1) now s) (so_next ?m)"
        using eq f by simp
      show "so_reduce_only ?m \<or> so_reduce_only ?t \<or> min q0 m1 = min (so_leaves ?t) (so_leaves ?m)"
        using b(5,6) by auto
    qed (use q b f in auto)
  qed
qed

section \<open>What a sweep does\<close>

text \<open>The resting orders of a side in the order they are entitled to trade: best level first, oldest first.\<close>

definition prio :: "(instrument_id \<Rightarrow> side \<Rightarrow> nat list list) \<Rightarrow> instrument_id \<Rightarrow> side \<Rightarrow> nat list" where
  "prio Q i sd = concat (rev (Q i sd))"

definition ahead :: "nat list \<Rightarrow> nat \<Rightarrow> nat \<Rightarrow> bool" where
  "ahead P g h \<longleftrightarrow> (\<exists>xs ys zs. P = xs @ g # ys @ h # zs)"

definition taker_crosses :: "sim_order \<Rightarrow> price \<Rightarrow> bool" where
  "taker_crosses t px \<longleftrightarrow> so_type t = Market \<or> crosses (so_side t) (so_price t) px"

text \<open>A fill is fair when it trades a resting order of the other side at that order's price, within the limit of the
  taker, and not against the same account under self-trade prevention.\<close>

fun fair :: "(sim_order \<Rightarrow> bool) \<Rightarrow> stp_mode \<Rightarrow> sim_order \<Rightarrow> sink_event \<Rightarrow> bool" where
  "fair rst mode t0 (OnFill m t px q now) \<longleftrightarrow>
     0 < q \<and> px = so_price m \<and> rst m \<and> so_static t = so_static t0 \<and>
     so_side m = opposite (so_side t) \<and> so_instrument m = so_instrument t \<and>
     taker_crosses t px \<and> (mode \<noteq> StpNone \<longrightarrow> so_account m \<noteq> so_account t)"
| "fair rst mode t0 e \<longleftrightarrow> True"

fun fill_qty :: "sink_event \<Rightarrow> qty" where
  "fill_qty (OnFill m t px q now) = q"
| "fill_qty e = 0"

definition fill_sum :: "sink_event list \<Rightarrow> qty" where
  "fill_sum evs = (\<Sum>e\<leftarrow>evs. fill_qty e)"

fun maker_ids :: "sink_event \<Rightarrow> nat set" where
  "maker_ids (OnFill m t px q now) = {so_order_id m}"
| "maker_ids e = {}"

definition fill_ids :: "sink_event list \<Rightarrow> nat set" where
  "fill_ids evs = (\<Union>e\<in>set evs. maker_ids e)"

lemma fill_ids_event:
  assumes "n \<in> fill_ids evs"
  obtains m t px q now where "OnFill m t px q now \<in> set evs" "n = so_order_id m"
proof -
  obtain e where "e \<in> set evs" "n \<in> maker_ids e" using assms unfolding fill_ids_def by blast
  then show thesis using that by (cases e rule: sink_event.exhaust) auto
qed

lemma fill_simps [simp]:
  "fill_sum [] = 0" "fill_sum (e # evs) = fill_qty e + fill_sum evs" "fill_sum (xs @ ys) = fill_sum xs + fill_sum ys"
  "fill_ids [] = {}" "fill_ids (xs @ ys) = fill_ids xs \<union> fill_ids ys"
  "fill_ids (e # evs) = maker_ids e \<union> fill_ids evs"
  by (simp_all add: fill_sum_def fill_ids_def)

text \<open>The quantity the taker can take from a list of makers, without reduce-only orders: its own orders are removed or
  end it.\<close>

fun avail :: "stp_mode \<Rightarrow> account_id \<Rightarrow> sim_order list \<Rightarrow> qty" where
  "avail mode a [] = 0"
| "avail mode a (m # ms) =
     (if mode \<noteq> StpNone \<and> so_account m = a then (if mode = CancelMaker then avail mode a ms else 0)
      else so_leaves m + avail mode a ms)"

definition avail_of ::
  "nat \<Rightarrow> stp_mode \<Rightarrow> instrument_id \<Rightarrow> side \<Rightarrow> matching_engine \<Rightarrow> (instrument_id \<Rightarrow> side \<Rightarrow> nat list list) \<Rightarrow> qty" where
  "avail_of th mode i sd s Q =
     avail mode (so_account (me_order s th))
       (map (me_order s) (filter (\<lambda>g. taker_crosses (me_order s th) (so_price (me_order s g))) (prio Q i sd)))"

text \<open>The ledgers net to zero: what is bought is sold.\<close>

definition ledger_nets :: "(nat \<Rightarrow> account_ledger) \<Rightarrow> qty \<times> notional" where
  "ledger_nets ls =
     (\<Sum>a<kMaxAccounts. al_bought (ls a) - al_sold (ls a), \<Sum>a<kMaxAccounts. al_buy_notional (ls a) - al_sell_notional (ls a))"

lemma ledger_nets_add:
  "ledger_nets (ledger_add od n q ls) =
     (fst (ledger_nets ls) + (if so_side od = Buy then q else - q), snd (ledger_nets ls) + (if so_side od = Buy then n else - n))"
proof -
  have idx: "ledger_index (so_account od) < kMaxAccounts" by (simp add: ledger_index_def kMaxAccounts_def)
  have upd: "(\<Sum>a<kMaxAccounts. f ((ls(m := l)) a)) = (\<Sum>a<kMaxAccounts. f (ls a)) + (f l - f (ls m))"
    if "m < kMaxAccounts" for m l and f :: "account_ledger \<Rightarrow> int"
  proof -
    have "(\<Sum>a<kMaxAccounts. f ((ls(m := l)) a)) = f l + (\<Sum>a\<in>{..<kMaxAccounts} - {m}. f (ls a))"
      using that by (subst sum.remove [of _ m]) auto
    moreover have "(\<Sum>a<kMaxAccounts. f (ls a)) = f (ls m) + (\<Sum>a\<in>{..<kMaxAccounts} - {m}. f (ls a))"
      using that by (subst sum.remove [of _ m]) auto
    ultimately show ?thesis by simp
  qed
  show ?thesis
    unfolding ledger_nets_def ledger_add_def Let_def
    using upd [OF idx, of "\<lambda>l. al_bought l - al_sold l"] upd [OF idx, of "\<lambda>l. al_buy_notional l - al_sell_notional l"]
    by (cases "so_side od") simp_all
qed

definition no_reduce :: "nat \<Rightarrow> instrument_id \<Rightarrow> side \<Rightarrow> matching_engine \<Rightarrow> (instrument_id \<Rightarrow> side \<Rightarrow> nat list list) \<Rightarrow> bool" where
  "no_reduce th i sd s Q \<longleftrightarrow>
     \<not> so_reduce_only (me_order s th) \<and> (\<forall>g\<in>set (prio Q i sd). \<not> so_reduce_only (me_order s g))"

definition is_resting :: "matching_engine \<Rightarrow> nat list \<Rightarrow> sim_order \<Rightarrow> bool" where
  "is_resting s P m \<longleftrightarrow> (\<exists>g\<in>set P. so_static m = so_static (me_order s g))"

text \<open>A part of the sweep of \<open>th\<close>, with the events it emits.\<close>

definition progress ::
  "nat \<Rightarrow> stp_mode \<Rightarrow> instrument_id \<Rightarrow> side \<Rightarrow> matching_engine \<Rightarrow> (instrument_id \<Rightarrow> side \<Rightarrow> nat list list) \<Rightarrow>
   matching_engine \<Rightarrow> (instrument_id \<Rightarrow> side \<Rightarrow> nat list list) \<Rightarrow> sink_event list \<Rightarrow> bool" where
  "progress th mode i sd s Q s' Q' evs \<longleftrightarrow>
     (me_log s' = evs @ me_log s \<and> me_count s' = me_count s \<and> me_sink s' = me_sink s \<and> me_stp s' = me_stp s \<and>
      me_next_order_id s' = me_next_order_id s \<and> ledger_nets (me_ledgers s') = ledger_nets (me_ledgers s)) \<and>
     (\<forall>j sd'. \<not> (j = i \<and> sd' = sd) \<longrightarrow> Q' j sd' = Q j sd' \<and> me_levels s' j sd' = me_levels s j sd') \<and>
     (\<forall>g\<in>me_live s'. g \<in> me_live s \<and> so_static (me_order s' g) = so_static (me_order s g)) \<and>
     prio Q' i sd = filter (\<lambda>g. g \<in> me_live s') (prio Q i sd) \<and> th \<in> me_live s' \<and>
     pv_price ` set (me_levels s' i sd) \<subseteq> pv_price ` set (me_levels s i sd) \<and>
     (\<forall>e\<in>set evs. fair (is_resting s (prio Q i sd)) mode (me_order s th) e) \<and>
     so_cum_qty (me_order s' th) = so_cum_qty (me_order s th) + fill_sum evs \<and>
     (\<forall>g h. ahead (prio Q i sd) g h \<longrightarrow> so_order_id (me_order s h) \<in> fill_ids evs \<longrightarrow> g \<in> me_live s' \<longrightarrow>
        so_reduce_only (me_order s g) \<or> so_reduce_only (me_order s th)) \<and>
     (no_reduce th i sd s Q \<longrightarrow> so_leaves (me_order s th) \<le> avail_of th mode i sd s Q \<longrightarrow>
        so_leaves (me_order s' th) \<le> avail_of th mode i sd s' Q')"

lemma progressD:
  assumes "progress th mode i sd s Q s' Q' evs"
  shows "me_log s' = evs @ me_log s" "me_count s' = me_count s" "me_sink s' = me_sink s" "me_stp s' = me_stp s"
    "me_next_order_id s' = me_next_order_id s" "ledger_nets (me_ledgers s') = ledger_nets (me_ledgers s)"
    "\<And>j sd'. \<not> (j = i \<and> sd' = sd) \<Longrightarrow> Q' j sd' = Q j sd' \<and> me_levels s' j sd' = me_levels s j sd'"
    "\<And>g. g \<in> me_live s' \<Longrightarrow> g \<in> me_live s \<and> so_static (me_order s' g) = so_static (me_order s g)"
    "prio Q' i sd = filter (\<lambda>g. g \<in> me_live s') (prio Q i sd)" "th \<in> me_live s'"
    "pv_price ` set (me_levels s' i sd) \<subseteq> pv_price ` set (me_levels s i sd)"
    "\<And>e. e \<in> set evs \<Longrightarrow> fair (is_resting s (prio Q i sd)) mode (me_order s th) e"
    "so_cum_qty (me_order s' th) = so_cum_qty (me_order s th) + fill_sum evs"
    "\<And>g h. ahead (prio Q i sd) g h \<Longrightarrow> so_order_id (me_order s h) \<in> fill_ids evs \<Longrightarrow> g \<in> me_live s' \<Longrightarrow>
        so_reduce_only (me_order s g) \<or> so_reduce_only (me_order s th)"
    "no_reduce th i sd s Q \<Longrightarrow> so_leaves (me_order s th) \<le> avail_of th mode i sd s Q \<Longrightarrow>
        so_leaves (me_order s' th) \<le> avail_of th mode i sd s' Q'"
  using assms unfolding progress_def by blast+

lemma ahead_filter:
  assumes "ahead P g h" "p g" "p h"
  shows "ahead (filter p P) g h"
proof -
  obtain xs ys zs where "P = xs @ g # ys @ h # zs" using assms(1) unfolding ahead_def by blast
  then have "filter p P = filter p xs @ g # filter p ys @ h # filter p zs" using assms(2,3) by simp
  then show ?thesis unfolding ahead_def by blast
qed

lemma ahead_mem: "ahead P g h \<Longrightarrow> g \<in> set P \<and> h \<in> set P"
  unfolding ahead_def by auto

lemma fair_mono:
  assumes "fair r mode t e" "\<And>m. r m \<Longrightarrow> r' m" "so_static t' = so_static t"
  shows "fair r' mode t' e"
  using assms by (cases e) auto

lemma progress_refl: "th \<in> me_live s \<Longrightarrow> set (prio Q i sd) \<subseteq> me_live s \<Longrightarrow> progress th mode i sd s Q s Q []"
  unfolding progress_def by (auto intro!: filter_True [symmetric])

lemma progress_trans:
  assumes a: "progress th mode i sd s Q s1 Q1 evs1" and b: "progress th mode i sd s1 Q1 s2 Q2 evs2"
    and th: "th \<in> me_live s"
    and inj: "inj_on (\<lambda>h. so_order_id (me_order s h)) (me_live s)" "set (prio Q i sd) \<subseteq> me_live s"
  shows "progress th mode i sd s Q s2 Q2 (evs2 @ evs1)"
proof -
  note A = progressD [OF a] and B = progressD [OF b]
  have sub: "me_live s2 \<subseteq> me_live s1" "me_live s1 \<subseteq> me_live s" using A(8) B(8) by auto
  have p1: "set (prio Q1 i sd) \<subseteq> set (prio Q i sd)" unfolding A(9) by auto
  have st1: "so_static (me_order s1 g) = so_static (me_order s g)" if "g \<in> me_live s1" for g using A(8) [OF that] by blast
  have sth: "so_static (me_order s1 th) = so_static (me_order s th)" by (rule st1 [OF A(10)])
  have "prio Q2 i sd = filter (\<lambda>g. g \<in> me_live s2) (prio Q i sd)"
    unfolding B(9) A(9) filter_filter using sub by (intro filter_cong) auto
  moreover have "fair (is_resting s (prio Q i sd)) mode (me_order s th) e" if "e \<in> set (evs2 @ evs1)" for e
  proof (cases "e \<in> set evs1")
    case False
    then have f: "fair (is_resting s1 (prio Q1 i sd)) mode (me_order s1 th) e" using B(12) that by auto
    have "is_resting s (prio Q i sd) m" if m: "is_resting s1 (prio Q1 i sd) m" for m
    proof -
      obtain g where g: "g \<in> set (prio Q1 i sd)" "so_static m = so_static (me_order s1 g)"
        using m unfolding is_resting_def by blast
      have "g \<in> me_live s1" using g(1) unfolding A(9) by simp
      then show ?thesis using g p1 st1 unfolding is_resting_def by auto
    qed
    then show ?thesis by (rule fair_mono [OF f]) (use sth in auto)
  qed (use A(12) in blast)
  moreover have "so_reduce_only (me_order s g) \<or> so_reduce_only (me_order s th)"
    if w: "ahead (prio Q i sd) g h" "so_order_id (me_order s h) \<in> fill_ids (evs2 @ evs1)" "g \<in> me_live s2" for g h
  proof (cases "so_order_id (me_order s h) \<in> fill_ids evs1")
    case True
    then show ?thesis using A(14) [OF w(1) True] w(3) sub by blast
  next
    case False
    then have h2: "so_order_id (me_order s h) \<in> fill_ids evs2" using w(2) by simp
    then obtain m t px q now where m: "OnFill m t px q now \<in> set evs2" "so_order_id (me_order s h) = so_order_id m"
      by (rule fill_ids_event)
    obtain x where x: "x \<in> set (prio Q1 i sd)" "so_static m = so_static (me_order s1 x)"
      using B(12) [OF m(1)] unfolding fair.simps is_resting_def by blast
    have xl: "x \<in> me_live s1" "x \<in> set (prio Q i sd)" using x(1) unfolding A(9) by auto
    have "so_order_id (me_order s x) = so_order_id (me_order s h)"
      using so_staticD(1) [OF x(2)] so_staticD(1) [OF st1 [OF xl(1)]] m(2) by simp
    moreover have "x \<in> me_live s" "h \<in> me_live s" using xl(2) inj(2) ahead_mem [OF w(1)] by auto
    ultimately have "x = h" using inj(1) unfolding inj_on_def by blast
    have gl: "g \<in> me_live s1" using w(3) sub by blast
    have "ahead (prio Q1 i sd) g h" unfolding A(9) using w(1) gl xl(1) \<open>x = h\<close> by (intro ahead_filter) auto
    moreover have "so_order_id (me_order s1 h) \<in> fill_ids evs2"
      using h2 so_staticD(1) [OF st1 [OF xl(1)]] \<open>x = h\<close> by simp
    ultimately have "so_reduce_only (me_order s1 g) \<or> so_reduce_only (me_order s1 th)" using B(14) w(3) by blast
    then show ?thesis using so_staticD(11) [OF st1 [OF gl]] so_staticD(11) [OF sth] by simp
  qed
  moreover have "so_leaves (me_order s2 th) \<le> avail_of th mode i sd s2 Q2"
    if nr: "no_reduce th i sd s Q" "so_leaves (me_order s th) \<le> avail_of th mode i sd s Q"
  proof -
    have "no_reduce th i sd s1 Q1"
      using nr(1) p1 so_staticD(11) [OF sth] so_staticD(11) [OF st1] unfolding no_reduce_def A(9) by auto
    then show ?thesis using B(15) A(15) nr by blast
  qed
  ultimately show ?thesis
    unfolding progress_def
    using A(1-8) B(1-8,10) A(11) B(11) A(13) B(13) by (auto simp: algebra_simps)
qed

subsection \<open>One pass\<close>

lemma prio_live: "me_rep X s Q \<Longrightarrow> i < me_count s \<Longrightarrow> set (prio Q i sd) \<subseteq> queued s Q \<and> set (prio Q i sd) \<subseteq> me_live s"
  using queuedI [of i s _ Q sd] me_repD(5) [of X s Q] unfolding prio_def by auto

lemma distinct_concat_nth:
  "(\<And>j. j < length qs \<Longrightarrow> distinct (qs ! j)) \<Longrightarrow>
   (\<And>j k h. j < length qs \<Longrightarrow> k < length qs \<Longrightarrow> h \<in> set (qs ! j) \<Longrightarrow> h \<in> set (qs ! k) \<Longrightarrow> j = k) \<Longrightarrow>
   distinct (concat qs)"
proof (induction qs)
  case (Cons q qs)
  have "distinct (concat qs)"
  proof (rule Cons.IH)
    show "distinct (qs ! j)" if "j < length qs" for j using Cons.prems(1) [of "Suc j"] that by simp
    show "j = k" if "j < length qs" "k < length qs" "h \<in> set (qs ! j)" "h \<in> set (qs ! k)" for j k h
      using Cons.prems(2) [of "Suc j" "Suc k" h] that by simp
  qed
  moreover have "set q \<inter> set (concat qs) = {}"
  proof (rule ccontr)
    assume "set q \<inter> set (concat qs) \<noteq> {}"
    then obtain h where h: "h \<in> set q" "h \<in> set (concat qs)" by blast
    then obtain j where "j < length qs" "h \<in> set (qs ! j)" unfolding in_concat_nth by blast
    then show False using Cons.prems(2) [of 0 "Suc j" h] h(1) by simp
  qed
  ultimately show ?case using Cons.prems(1) [of 0] by simp
qed simp

lemma distinct_prio:
  assumes "me_rep X s Q" "i < me_count s"
  shows "distinct (prio Q i sd)"
proof -
  note ok = me_repD(4) [OF assms, of sd]
  have "distinct (concat (Q i sd))"
    using side_ok_disjoint [OF ok] queue_okD(1) [OF side_okD(1) [OF ok]] by (intro distinct_concat_nth) blast+
  then have "distinct (concat (rev (Q i sd)))"
    by (simp add: distinct_concat_rev) 
  then show ?thesis by (simp add: prio_def)
qed

lemma prio_last: "Q i sd = qs @ [q] \<Longrightarrow> prio Q i sd = q @ concat (rev qs)"
  by (simp add: prio_def)

lemma prio_set_last: "Q i sd = qs @ [q] \<Longrightarrow> prio (set_queues i sd ((Q i sd)[length qs := q']) Q) i sd = q' @ concat (rev qs)"
  by (simp add: prio_def)

lemma avail_rest_cong:
  assumes "\<And>g. g \<in> set P \<Longrightarrow> so_data (me_order s' g) = so_data (me_order s g)"
    and "so_static (me_order s' th) = so_static (me_order s th)"
  shows "avail mode (so_account (me_order s' th))
      (map (me_order s') (filter (\<lambda>g. taker_crosses (me_order s' th) (so_price (me_order s' g))) P)) =
    avail mode (so_account (me_order s th))
      (map (me_order s) (filter (\<lambda>g. taker_crosses (me_order s th) (so_price (me_order s g))) P))"
proof -
  have t: "taker_crosses (me_order s' th) = taker_crosses (me_order s th)" "so_account (me_order s' th) = so_account (me_order s th)"
    using so_staticD [OF assms(2)] by (simp_all add: taker_crosses_def fun_eq_iff)
  show ?thesis using assms(1) unfolding t
  proof (induction P)
    case (Cons g P)
    have "so_data (me_order s' g) = so_data (me_order s g)" using Cons.prems by simp
    note D = so_dataD [OF this]
    have "avail mode (so_account (me_order s th))
        (map (me_order s') (filter (\<lambda>g. taker_crosses (me_order s th) (so_price (me_order s' g))) P)) =
      avail mode (so_account (me_order s th))
        (map (me_order s) (filter (\<lambda>g. taker_crosses (me_order s th) (so_price (me_order s g))) P))"
      using Cons by simp
    then show ?case by (cases mode) (simp_all add: D)
  qed simp
qed

lemma avail_nonneg: "(\<And>m. m \<in> set ms \<Longrightarrow> 0 \<le> so_leaves m) \<Longrightarrow> 0 \<le> avail mode a ms"
  by (induction ms) auto

text \<open>The taker is at the maker \<open>mh\<close> of the best level; those ahead of it are reduce-only orders that stay.\<close>

definition at_maker ::
  "nat \<Rightarrow> instrument_id \<Rightarrow> side \<Rightarrow> matching_engine \<Rightarrow> (instrument_id \<Rightarrow> side \<Rightarrow> nat list list) \<Rightarrow>
   nat list list \<Rightarrow> nat list \<Rightarrow> nat \<Rightarrow> nat list \<Rightarrow> bool" where
  "at_maker th i sd s Q qs xs mh ys \<longleftrightarrow>
     sweeping th i sd s Q \<and> Q i sd = qs @ [xs @ mh # ys] \<and> 0 < so_leaves (me_order s th) \<and>
     taker_crosses (me_order s th) (pv_price (me_levels s i sd ! length qs)) \<and>
     (so_reduce_only (me_order s th) \<or> (\<forall>g\<in>set xs. so_reduce_only (me_order s g)))"

lemma at_makerD:
  assumes "at_maker th i sd s Q qs xs mh ys"
  shows "sweeping th i sd s Q" "Q i sd = qs @ [xs @ mh # ys]" "0 < so_leaves (me_order s th)"
    "taker_crosses (me_order s th) (pv_price (me_levels s i sd ! length qs))"
    "\<And>g. g \<in> set xs \<Longrightarrow> so_reduce_only (me_order s g) \<or> so_reduce_only (me_order s th)"
    "length qs < length (Q i sd)" "Q i sd ! length qs = xs @ mh # ys"
    "me_rep {th} s Q" "i < me_count s" "mh \<noteq> th" "th \<in> me_live s" "mh \<in> me_live s"
    "so_price (me_order s mh) = pv_price (me_levels s i sd ! length qs)"
    "so_instrument (me_order s mh) = i" "so_side (me_order s mh) = sd" "mh \<in> set (prio Q i sd)"
    "prio Q i sd = xs @ mh # ys @ concat (rev qs)" "distinct (prio Q i sd)" "set (prio Q i sd) \<subseteq> me_live s"
    "th \<notin> set (prio Q i sd)" "length qs < length (me_levels s i sd)"
proof -
  show a: "sweeping th i sd s Q" "Q i sd = qs @ [xs @ mh # ys]" "0 < so_leaves (me_order s th)"
    "taker_crosses (me_order s th) (pv_price (me_levels s i sd ! length qs))"
    "\<And>g. g \<in> set xs \<Longrightarrow> so_reduce_only (me_order s g) \<or> so_reduce_only (me_order s th)" using assms unfolding at_maker_def by blast+
  show k: "length qs < length (Q i sd)" "Q i sd ! length qs = xs @ mh # ys" using a(2) by simp_all
  note S = sweepingD [OF a(1)]
  show "me_rep {th} s Q" "i < me_count s" by (rule S)+
  note M = member_split [OF S(1,2) k] and R = me_repD [OF S(1)]
  show "mh \<noteq> th" "mh \<in> me_live s" "length qs < length (me_levels s i sd)" using M by auto
  show "th \<in> me_live s" using R(5) by blast
  show "so_price (me_order s mh) = pv_price (me_levels s i sd ! length qs)" "so_instrument (me_order s mh) = i"
    "so_side (me_order s mh) = sd" using queue_okD(5) [OF M(6), of mh] by simp_all
  show p: "prio Q i sd = xs @ mh # ys @ concat (rev qs)" using prio_last [of Q i sd qs, OF a(2)] by simp
  show "mh \<in> set (prio Q i sd)" unfolding p by simp
  show "distinct (prio Q i sd)" by (rule distinct_prio [OF S(1,2)])
  show "set (prio Q i sd) \<subseteq> me_live s" using prio_live [OF S(1,2)] by blast
  show "th \<notin> set (prio Q i sd)" using prio_live [OF S(1,2), of sd] R(6) by auto
qed

lemma ahead_head:
  assumes "distinct P" "P = xs @ h # zs" "ahead P g h"
  shows "g \<in> set xs"
proof -
  obtain as bs cs where *: "P = as @ g # bs @ h # cs" using assms(3) unfolding ahead_def by blast
  have "as @ g # bs = xs"
  proof -
    have e: "(as @ g # bs) @ h # cs = xs @ h # zs" using * assms(2) by simp
    have n: "h \<notin> set (as @ g # bs)" using assms(1) unfolding * by auto
    have "h \<notin> set cs" using assms(1) unfolding * by auto
    with e n show ?thesis using append_Cons_eq_iff [of h "as @ g # bs" cs xs zs] by blast
  qed
  then show ?thesis by auto
qed

lemma filter_remove1: "distinct (xs @ h # zs) \<Longrightarrow> set (xs @ h # zs) \<subseteq> L \<Longrightarrow> filter (\<lambda>g. g \<in> L - {h}) (xs @ h # zs) = xs @ zs"
proof -
  assume a: "distinct (xs @ h # zs)" "set (xs @ h # zs) \<subseteq> L"
  have "filter (\<lambda>g. g \<in> L - {h}) xs = xs" "filter (\<lambda>g. g \<in> L - {h}) zs = zs"
    using a by (auto intro!: filter_True)
  then show ?thesis by simp
qed

text \<open>The maker leaves without trading.\<close>

lemma skip_progress:
  assumes at: "at_maker th i sd s Q qs xs mh ys"
    and s': "s' = cancel_maker mh i sd (length qs) why now (upd_mstats f s)"
    and why: "so_reduce_only (me_order s mh) \<or>
      mode \<noteq> StpNone \<and> mode \<noteq> CancelTaker \<and> so_account (me_order s mh) = so_account (me_order s th)"
    and Q': "Q' = set_queues i sd (qs @ [xs @ ys]) Q"
  shows "\<exists>od. progress th mode i sd s Q s' Q' [OnCancel od why now]" "sweeping th i sd s' Q'"
    "\<exists>l. me_levels s' i sd = (me_levels s i sd)[length qs := l] \<and> pv_price l = pv_price (me_levels s i sd ! length qs)"
    "\<And>g. g \<in> me_live s' \<Longrightarrow> so_data (me_order s' g) = so_data (me_order s g)"
    "me_live s' = me_live s - {mh}"
proof -
  note A = at_makerD [OF at]
  let ?s = "upd_mstats f s" and ?k = "length qs"
  have r: "me_rep {th} ?s Q" "i < me_count ?s" using A(8,9) by simp_all
  note C = cancel_maker_rep [OF r A(6,7) s']
  have Qe: "set_queues i sd ((Q i sd)[?k := xs @ ys]) Q = Q'" unfolding Q' A(2) by simp
  show live: "me_live s' = me_live s - {mh}" using C(3) by simp
  show data: "so_data (me_order s' g) = so_data (me_order s g)" if "g \<in> me_live s'" for g
    using C(2) [of g] that live by simp
  have thl: "th \<in> me_live s'" using A(10,11) live by simp
  have oth: "me_order s' th = me_order s th" using C(6) [of th] A(2,17,20) by (simp add: prio_last)
  have fr: "me_count s' = me_count s" "me_sink s' = me_sink s" "me_stp s' = me_stp s"
    "me_next_order_id s' = me_next_order_id s" "me_ledgers s' = me_ledgers s"
    unfolding s' cancel_maker_def Let_def by simp_all
  obtain od where od: "so_data od = so_data (me_order s mh)" "me_log s' = OnCancel od why now # me_log s"
    using C(5) by auto
  have lv: "me_levels s' j sd' = me_levels s j sd'" if "\<not> (j = i \<and> sd' = sd)" for j sd' using C(7) [OF that] by simp
  have pr: "map pv_price (me_levels s' j sd') = map pv_price (me_levels s j sd')" for j sd' using C(4) [of j sd'] by simp
  have p': "prio Q' i sd = xs @ ys @ concat (rev qs)" unfolding Q' prio_def by simp
  have flt: "prio Q' i sd = filter (\<lambda>g. g \<in> me_live s') (prio Q i sd)"
    using filter_remove1 [of xs mh "ys @ concat (rev qs)" "me_live s"] A(17-19) unfolding live p' by simp
  have "progress th mode i sd s Q s' Q' [OnCancel od why now]"
    unfolding progress_def
  proof (intro conjI allI ballI impI)
    show "pv_price ` set (me_levels s' i sd) \<subseteq> pv_price ` set (me_levels s i sd)" using pr [of i sd] by (metis list.set_map subset_refl)
    show "so_static (me_order s' g) = so_static (me_order s g)" if "g \<in> me_live s'" for g
      using data [OF that] by (rule so_data_static)
    show "Q' j sd' = Q j sd'" if "\<not> (j = i \<and> sd' = sd)" for j sd' using that unfolding Q' by auto
    show "so_leaves (me_order s' th) \<le> avail_of th mode i sd s' Q'"
      if nr: "no_reduce th i sd s Q" "so_leaves (me_order s th) \<le> avail_of th mode i sd s Q"
    proof -
      have n: "xs = []" "\<not> so_reduce_only (me_order s mh)"
        using nr(1) A(5,17) unfolding no_reduce_def by (cases xs; auto)+
      then have st: "mode \<noteq> StpNone \<and> mode \<noteq> CancelTaker \<and> so_account (me_order s mh) = so_account (me_order s th)"
        using why by simp
      have cm: "taker_crosses (me_order s th) (so_price (me_order s mh))" using A(4,13) by simp
      have m: "mode = CancelMaker"
      proof (rule ccontr)
        assume "mode \<noteq> CancelMaker"
        then have "avail_of th mode i sd s Q = 0" using st cm n(1) unfolding avail_of_def A(17) by simp
        then show False using nr(2) A(3) by simp
      qed
      have d: "so_data (me_order s' g) = so_data (me_order s g)" if "g \<in> set (ys @ concat (rev qs))" for g
      proof -
        have "g \<in> set (prio Q i sd)" "g \<noteq> mh" using that A(18) unfolding A(17) by auto
        then show ?thesis using data [of g] A(19) live by auto
      qed
      have "avail_of th mode i sd s' Q' = avail_of th mode i sd s Q"
        using avail_rest_cong [of "ys @ concat (rev qs)" s' s th mode, OF d] oth cm st m n(1)
        unfolding avail_of_def p' A(17) by simp
      then show ?thesis using nr(2) oth by simp
    qed
  qed (use od(2) fr lv live thl flt oth in \<open>simp_all add: fill_ids_def\<close>)
  then show "\<exists>od. progress th mode i sd s Q s' Q' [OnCancel od why now]" by blast
  have q: "queued s' Q' \<subseteq> queued s Q"
    using queued_upd [OF A(8,9,6) fr(1), of "xs @ ys"] member_split(7) [OF A(8,9,6,7)] A(7) unfolding Qe by auto
  have "all_open s' Q'"
    unfolding all_open_def
  proof
    fix g assume g: "g \<in> queued s' Q'"
    have "g \<in> me_live s'" using me_repD(5) [OF C(1) [unfolded Qe]] g by blast
    then show "0 < so_leaves (me_order s' g)"
      using sweepingD(7) [OF A(1)] g q so_dataD(13) [OF data] unfolding all_open_def by auto
  qed
  then show "sweeping th i sd s' Q'"
    using sweepingD [OF A(1)] C(1) oth fr unfolding sweeping_def Qe by simp
  show "\<exists>l. me_levels s' i sd = (me_levels s i sd)[?k := l] \<and> pv_price l = pv_price (me_levels s i sd ! ?k)"
    using C(8) by simp
qed

lemma side_flip: "(a::side) = opposite b \<longleftrightarrow> b = opposite a"
  by (cases a; cases b) auto

lemma fill_nets:
  assumes "so_side t = opposite (so_side m)"
  shows "ledger_nets (ledger_add t n q (ledger_add m n q ls)) = ledger_nets ls"
  using assms by (cases "so_side m") (simp_all add: ledger_nets_add)

text \<open>The maker trades.\<close>

lemma fill_progress:
  assumes at: "at_maker th i sd s Q qs xs mh ys"
    and s': "s' = do_fill th mh i sd (length qs) (pv_price (me_levels s i sd ! length qs)) q now s"
    and q: "0 < q" "q \<le> so_leaves (me_order s mh)" "q \<le> so_leaves (me_order s th)"
      "mode = StpNone \<or> so_account (me_order s mh) \<noteq> so_account (me_order s th)"
  obtains Q' evs b where "progress th mode i sd s Q s' Q' evs" "sweeping th i sd s' Q'"
    "Q' = set_queues i sd (qs @ [if b then xs @ mh # ys else xs @ ys]) Q"
    "b \<Longrightarrow> q < so_leaves (me_order s mh)" "\<not> b \<Longrightarrow> so_reduce_only (me_order s mh) \<or> q = so_leaves (me_order s mh)"
    "so_leaves (me_order s' th) = so_leaves (me_order s th) - q"
    "\<exists>l. me_levels s' i sd = (me_levels s i sd)[length qs := l] \<and> pv_price l = pv_price (me_levels s i sd ! length qs)"
    "\<And>e. e \<in> set evs \<Longrightarrow> \<forall>j sd' p x u. e \<noteq> OnBookChange j sd' p x u"
proof -
  note A = at_makerD [OF at] and S = sweepingD [OF at_makerD(1) [OF at]]
  let ?px = "pv_price (me_levels s i sd ! length qs)"
  define s1 where "s1 = fill_core th mh i sd (length qs) ?px q now s"
  let ?m = "(me_order s mh)\<lparr>so_cum_qty := so_cum_qty (me_order s mh) + q\<rparr>"
  let ?t = "(me_order s th)\<lparr>so_cum_qty := so_cum_qty (me_order s th) + q\<rparr>"
  define fe where "fe = [OnTrade (so_instrument (me_order s th)) ?px q (so_side (me_order s th)) (me_next_trade_id s) now,
     OnFill ?m ?t ?px q now]"
  have o1: "me_order s1 g = (if g = mh \<or> g = th then (me_order s g)\<lparr>so_cum_qty := so_cum_qty (me_order s g) + q\<rparr> else me_order s g)" for g
    unfolding s1_def by (rule fill_core_orders [OF A(10)])
  have g1: "me_log s1 = fe @ me_log s" unfolding s1_def fill_core_log [OF A(10)] fe_def by simp
  have ln: "ledger_nets (me_ledgers s1) = ledger_nets (me_ledgers s)"
    unfolding s1_def fill_core_ledgers [OF A(10)] using S(4) A(15) by (intro fill_nets) simp
  have fr1: "me_count s1 = me_count s" "me_sink s1 = me_sink s" "me_stp s1 = me_stp s"
    "me_next_order_id s1 = me_next_order_id s" "me_live s1 = me_live s" unfolding s1_def by simp_all
  have lv1: "me_levels s1 j sd' = me_levels s j sd'" if "\<not> (j = i \<and> sd' = sd)" for j sd'
    using that unfolding s1_def fill_core_levels by auto
  have lk1: "\<exists>l. me_levels s1 i sd = (me_levels s i sd)[length qs := l] \<and> pv_price l = ?px"
    unfolding s1_def fill_core_levels by (intro exI [of _ "(me_levels s i sd ! length qs)\<lparr>pv_qty := pv_qty (me_levels s i sd ! length qs) - q\<rparr>"]) simp
  text \<open>the state after the fill: \<open>b\<close> says whether the maker stays\<close>
  obtain b evs where X: "me_rep {th} s' (set_queues i sd (qs @ [if b then xs @ mh # ys else xs @ ys]) Q)"
    "b \<Longrightarrow> q < so_leaves (me_order s mh)" "\<not> b \<Longrightarrow> so_reduce_only (me_order s mh) \<or> q = so_leaves (me_order s mh)"
    "\<And>g. g \<in> me_live s' \<Longrightarrow> so_data (me_order s' g) = so_data (me_order s1 g)" "me_order s' th = me_order s1 th"
    "me_live s' = (if b then me_live s else me_live s - {mh})" "me_log s' = evs @ fe @ me_log s"
    "evs = [] \<or> (\<exists>od why. evs = [OnCancel od why now])"
    "\<And>j sd'. \<not> (j = i \<and> sd' = sd) \<Longrightarrow> me_levels s' j sd' = me_levels s j sd'"
    "me_ledgers s' = me_ledgers s1" "me_sink s' = me_sink s" "me_stp s' = me_stp s"
    "me_next_order_id s' = me_next_order_id s" "me_count s' = me_count s"
    "\<exists>l. me_levels s' i sd = (me_levels s i sd)[length qs := l] \<and> pv_price l = ?px"
  proof (cases rule: do_fill_cases [OF A(1,6,7) q(1-3) s'])
    case 1
    have "set_queues i sd (qs @ [xs @ mh # ys]) Q = Q" using A(2) by (metis set_queues_def fun_upd_triv)
    then show thesis using that [of True "[]"] 1 lk1 lv1 fr1 g1 unfolding s1_def [symmetric] by simp
  next
    case (2 s2 evs)
    have "s2 = s1" using 2(2) s1_def by simp
    have "th \<notin> set (xs @ mh # ys)" using A(20) unfolding A(17) by auto
    then show thesis
      using that [of False evs] 2 A(2) g1 unfolding \<open>s2 = s1\<close> by simp
  qed
  define Q' where "Q' = set_queues i sd (qs @ [if b then xs @ mh # ys else xs @ ys]) Q"
  have p': "prio Q' i sd = (if b then xs @ mh # ys else xs @ ys) @ concat (rev qs)" unfolding Q'_def prio_def by simp
  have flt: "prio Q' i sd = filter (\<lambda>g. g \<in> me_live s') (prio Q i sd)"
  proof (cases b)
    case True
    then have "filter (\<lambda>g. g \<in> me_live s') (prio Q i sd) = prio Q i sd" using A(19) X(6) by (intro filter_True) auto
    then show ?thesis using True A(17) unfolding p' by simp
  next
    case False
    then show ?thesis
      using filter_remove1 [of xs mh "ys @ concat (rev qs)" "me_live s"] A(17-19) X(6) unfolding p' by simp
  qed
  have thl: "th \<in> me_live s'" using X(6) A(10,11) by simp
  have st: "so_static (me_order s' g) = so_static (me_order s g)" if "g \<in> me_live s'" for g
  proof -
    have "so_static (me_order s' g) = so_static (me_order s1 g)" by (rule so_data_static [OF X(4) [OF that]])
    then show ?thesis by (simp add: o1)
  qed
  have lth: "so_leaves (me_order s' th) = so_leaves (me_order s th) - q" unfolding X(5) o1 by (simp add: so_leaves_def)
  have cm: "taker_crosses (me_order s th) (so_price (me_order s mh))" using A(4,13) by simp
  have pg: "progress th mode i sd s Q s' Q' (evs @ fe)"
    unfolding progress_def
  proof (intro conjI allI ballI impI)
    show "pv_price ` set (me_levels s' i sd) \<subseteq> pv_price ` set (me_levels s i sd)"
    proof -
      obtain l where l: "me_levels s' i sd = (me_levels s i sd)[length qs := l]" "pv_price l = ?px" using X(15) by blast
      have "?px \<in> pv_price ` set (me_levels s i sd)" using nth_mem [OF A(21)] by blast
      then show ?thesis using set_update_subset_insert [of "me_levels s i sd" "length qs" l] l by auto
    qed
    show "Q' j sd' = Q j sd'" if "\<not> (j = i \<and> sd' = sd)" for j sd' using that unfolding Q'_def by auto
    show "fair (is_resting s (prio Q i sd)) mode (me_order s th) e" if "e \<in> set (evs @ fe)" for e
    proof -
      have f: "fair (is_resting s (prio Q i sd)) mode (me_order s th) (OnFill ?m ?t ?px q now)"
        using A(4,13-16) S(3,4) q(1,4) by (auto simp: is_resting_def taker_crosses_def)
      have "(\<exists>od why. e = OnCancel od why now) \<or> e \<in> set fe" using that X(8) by auto
      then show ?thesis using f unfolding fe_def by auto
    qed
    show "so_reduce_only (me_order s g) \<or> so_reduce_only (me_order s th)"
      if w: "ahead (prio Q i sd) g h" "so_order_id (me_order s h) \<in> fill_ids (evs @ fe)" for g h
    proof -
      have "fill_ids (evs @ fe) = {so_order_id (me_order s mh)}" using X(8) unfolding fe_def by auto
      then have "so_order_id (me_order s h) = so_order_id (me_order s mh)" using w(2) by simp
      moreover have "h \<in> me_live s" using ahead_mem [OF w(1)] A(19) by blast
      ultimately have "h = mh" using me_repD(8) [OF A(8)] A(12) unfolding inj_on_def by blast
      then have "g \<in> set xs" using ahead_head [OF A(18) A(17)] w(1) by blast
      then show ?thesis by (rule A(5))
    qed
    show "so_cum_qty (me_order s' th) = so_cum_qty (me_order s th) + fill_sum (evs @ fe)"
      using X(8) unfolding X(5) o1 fe_def by auto
    show "so_leaves (me_order s' th) \<le> avail_of th mode i sd s' Q'"
      if nr: "no_reduce th i sd s Q" "so_leaves (me_order s th) \<le> avail_of th mode i sd s Q"
    proof -
      have n: "xs = []" "\<not> so_reduce_only (me_order s mh)"
        using nr(1) A(5,17) unfolding no_reduce_def by (cases xs; auto)+
      have d: "so_data (me_order s' g) = so_data (me_order s g)" if g: "g \<in> set (ys @ concat (rev qs))" for g
      proof -
        have gp: "g \<in> set (prio Q i sd)" "g \<noteq> mh" using g A(18) unfolding A(17) by auto
        moreover have "g \<in> me_live s'" using gp A(19) X(6) by auto
        moreover have "g \<noteq> th" using gp A(20) by blast
        ultimately show ?thesis using X(4) [of g] by (simp add: o1)
      qed
      have tc: "taker_crosses (me_order s' th) = taker_crosses (me_order s th)" "so_account (me_order s' th) = so_account (me_order s th)"
        unfolding X(5) o1 by (simp_all add: taker_crosses_def fun_eq_iff)
      define rest where "rest = avail mode (so_account (me_order s th))
          (map (me_order s) (filter (\<lambda>g. taker_crosses (me_order s th) (so_price (me_order s g))) (ys @ concat (rev qs))))"
      have rest': "avail mode (so_account (me_order s' th))
          (map (me_order s') (filter (\<lambda>g. taker_crosses (me_order s' th) (so_price (me_order s' g))) (ys @ concat (rev qs)))) = rest"
        unfolding rest_def by (rule avail_rest_cong [OF d st [OF thl]])
      have a: "avail_of th mode i sd s Q = so_leaves (me_order s mh) + rest"
        using q(4) cm n(1) unfolding avail_of_def A(17) rest_def by auto
      have "avail_of th mode i sd s' Q' = so_leaves (me_order s mh) - q + rest"
      proof (cases b)
        case True
        have "mh \<in> me_live s'" using X(6) True A(12) by simp
        note D = so_dataD [OF X(4) [OF this]]
        have om: "so_leaves (me_order s' mh) = so_leaves (me_order s mh) - q" "so_price (me_order s' mh) = so_price (me_order s mh)"
          "so_account (me_order s' mh) = so_account (me_order s mh)" unfolding D by (simp_all add: o1 so_leaves_def)
        have c': "taker_crosses (me_order s' th) (so_price (me_order s' mh))" using cm unfolding tc om .
        have nn: "\<not> (mode \<noteq> StpNone \<and> so_account (me_order s' mh) = so_account (me_order s' th))" using q(4) unfolding tc om by blast
        have "avail_of th mode i sd s' Q' = so_leaves (me_order s' mh) + rest"
          using True n(1) c' nn unfolding avail_of_def p' rest' [symmetric] by auto
        then show ?thesis using om(1) by simp
      next
        case False
        then have "avail_of th mode i sd s' Q' = rest" using n(1) unfolding avail_of_def p' rest' [symmetric] by simp
        then show ?thesis using X(3) False n(2) by simp
      qed
      then show ?thesis using nr(2) a lth by simp
    qed
  qed (use X fr1 ln flt thl st in \<open>simp_all split: if_splits\<close>)
  have swp: "sweeping th i sd s' Q'"
  proof -
    have mh0: "0 < so_leaves (me_order s' mh)" if b
    proof -
      have "mh \<in> me_live s'" using X(6) that A(12) by simp
      then show ?thesis using so_dataD(13) [OF X(4)] X(2) that by (simp add: o1 so_leaves_def)
    qed
    have "0 < so_leaves (me_order s' g)" if g: "g \<in> queued s' Q'" for g
    proof (cases "g = mh")
      case True
      have "b"
      proof (rule ccontr)
        assume "\<not> b"
        then have "mh \<notin> me_live s'" using X(6) by simp
        then show False using me_repD(5) [OF X(1)] g True unfolding Q'_def by blast
      qed
      then show ?thesis using mh0 True by simp
    next
      case False
      have gl: "g \<in> me_live s'" "g \<noteq> th" using me_repD(5,6) [OF X(1)] g unfolding Q'_def by auto
      then have "g \<in> queued s Q" using X(6) me_repD(5) [OF A(8)] by (auto split: if_splits)
      then show ?thesis using S(7) so_dataD(13) [OF X(4) [OF gl(1)]] False gl(2) by (simp add: o1 all_open_def)
    qed
    then show ?thesis
      using S X(1,5,11,14) q unfolding sweeping_def all_open_def Q'_def by (simp add: o1 so_leaves_def)
  qed
  have ev: "\<forall>j sd' p x u. e \<noteq> OnBookChange j sd' p x u" if "e \<in> set (evs @ fe)" for e
    using that X(8) unfolding fe_def by auto
  show thesis by (rule that [of Q' "evs @ fe" b]) (use pg swp ev Q'_def X(2,3,15) lth in blast)+
qed

end
