(* ===== verification/MatchingLoop.thy ===== *)
theory MatchingLoop
  imports MatchingSweep
begin

unbundle bit_operations_syntax

text \<open>
  The two loops of the sweep, followed from one level to the next: both end, the depth feed is up to date whenever a
  level was announced, and the sweep ends with the incoming order filled, clear of the opposite side, or ended by
  self-trade prevention or the reduce-only rule.
\<close>

subsection \<open>The inner loop\<close>

lemma next_maker:
  assumes "at_maker th i sd s Q qs xs mh ys"
  shows "so_next (me_order s mh) = hd_or kNullHandle ys" "mh \<noteq> kNullHandle"
proof -
  note A = at_makerD [OF assms]
  note M = member_split [OF A(8,9,6,7)]
  have d: "dll (me_order s) (pv_head (me_levels s i sd ! length qs)) (xs @ mh # ys) (pv_tail (me_levels s i sd ! length qs))"
    by (rule queue_okD(2) [OF M(6)])
  show "so_next (me_order s mh) = hd_or kNullHandle ys"
    using d lseg_ends [of "me_order s" mh "so_next (me_order s mh)" ys] unfolding lseg_append by auto
  show "mh \<noteq> kNullHandle" using lseg_not_null [OF d] by auto
qed

definition sweep_left :: "nat \<Rightarrow> instrument_id \<Rightarrow> side \<Rightarrow> matching_engine \<Rightarrow> (instrument_id \<Rightarrow> side \<Rightarrow> nat list list) \<Rightarrow> nat" where
  "sweep_left th i sd s Q = length (prio Q i sd) + nat (so_leaves (me_order s th))"

fun is_change :: "sink_event \<Rightarrow> bool" where
  "is_change (OnBookChange j sd p x u) = True"
| "is_change e = False"

definition no_change :: "sink_event list \<Rightarrow> bool" where
  "no_change evs \<longleftrightarrow> (\<forall>e\<in>set evs. \<not> is_change e)"

lemma no_change_simps [simp]: "no_change []" "no_change (xs @ ys) \<longleftrightarrow> no_change xs \<and> no_change ys"
  "no_change [OnCancel od why now]"
  by (auto simp: no_change_def)

text \<open>What the inner loop returns: the taker ended by self-trade prevention (\<open>d\<close>), its position closed (\<open>r\<close>), or
  the queue or the taker exhausted.\<close>

definition queue_swept ::
  "nat \<Rightarrow> stp_mode \<Rightarrow> instrument_id \<Rightarrow> side \<Rightarrow> nat list list \<Rightarrow> bool \<Rightarrow> matching_engine \<Rightarrow>
   (instrument_id \<Rightarrow> side \<Rightarrow> nat list list) \<Rightarrow> matching_engine \<Rightarrow> bool \<Rightarrow> bool \<Rightarrow> bool" where
  "queue_swept th mode i sd qs busy s Q s' d r \<longleftrightarrow>
     (\<exists>Q' q' evs. progress th mode i sd s Q s' Q' evs \<and> sweeping th i sd s' Q' \<and> Q' = set_queues i sd (qs @ [q']) Q \<and>
        no_change evs \<and>
        (\<exists>l. me_levels s' i sd = (me_levels s i sd)[length qs := l] \<and> pv_price l = pv_price (me_levels s i sd ! length qs)) \<and>
        (d \<or> r \<longrightarrow> no_reduce th i sd s Q \<longrightarrow> \<not> so_leaves (me_order s th) \<le> avail_of th mode i sd s Q) \<and>
        sweep_left th i sd s' Q' \<le> sweep_left th i sd s Q \<and>
        (busy \<longrightarrow> \<not> d \<longrightarrow> \<not> r \<longrightarrow> sweep_left th i sd s' Q' < sweep_left th i sd s Q))"

lemma prio_inj:
  assumes "sweeping th i sd s Q"
  shows "th \<in> me_live s" "inj_on (\<lambda>h. so_order_id (me_order s h)) (me_live s)" "set (prio Q i sd) \<subseteq> me_live s"
  using me_repD(5,8) [OF sweepingD(1) [OF assms]] prio_live [OF sweepingD(1,2) [OF assms]] by auto

lemma queue_swept_trans:
  assumes sw: "sweeping th i sd s Q" and lv: "length qs < length (me_levels s i sd)"
    and p: "progress th mode i sd s Q s1 Q1 evs" "Q1 = set_queues i sd (qs @ [q1]) Q" "no_change evs"
    and l: "\<exists>l. me_levels s1 i sd = (me_levels s i sd)[length qs := l] \<and> pv_price l = pv_price (me_levels s i sd ! length qs)"
    and less: "sweep_left th i sd s1 Q1 < sweep_left th i sd s Q"
    and next_step: "queue_swept th mode i sd qs busy s1 Q1 s' d r"
  shows "queue_swept th mode i sd qs True s Q s' d r"
proof -
  obtain Q' q' evs' where n: "progress th mode i sd s1 Q1 s' Q' evs'" "sweeping th i sd s' Q'" "Q' = set_queues i sd (qs @ [q']) Q1"
    "no_change evs'" "\<exists>l. me_levels s' i sd = (me_levels s1 i sd)[length qs := l] \<and> pv_price l = pv_price (me_levels s1 i sd ! length qs)"
    "d \<or> r \<longrightarrow> no_reduce th i sd s1 Q1 \<longrightarrow> \<not> so_leaves (me_order s1 th) \<le> avail_of th mode i sd s1 Q1"
    "sweep_left th i sd s' Q' \<le> sweep_left th i sd s1 Q1"
    using next_step unfolding queue_swept_def by blast
  have t: "progress th mode i sd s Q s' Q' (evs' @ evs)"
    by (rule progress_trans [OF p(1) n(1) prio_inj [OF sw]])
  have lx: "\<exists>l. me_levels s' i sd = (me_levels s i sd)[length qs := l] \<and> pv_price l = pv_price (me_levels s i sd ! length qs)"
    using n(5) l lv by auto
  have nr: "no_reduce th i sd s1 Q1" if "no_reduce th i sd s Q"
  proof -
    note P = progressD [OF p(1)]
    have "so_reduce_only (me_order s1 g) = so_reduce_only (me_order s g)" if "g \<in> me_live s1" for g
      using so_staticD(11) P(8) [OF that] by blast
    then show ?thesis using that P(9,10) unfolding no_reduce_def by auto
  qed
  have dr: "\<not> so_leaves (me_order s th) \<le> avail_of th mode i sd s Q" if "d \<or> r" "no_reduce th i sd s Q"
    using n(6) that nr progressD(15) [OF p(1) that(2)] by blast
  show ?thesis unfolding queue_swept_def
    by (rule exI [of _ Q'], rule exI [of _ q'], rule exI [of _ "evs' @ evs"])
      (use t n(2,3,4,7) p(2,3) lx dr less in auto)
qed

lemma progress_stats:
  assumes "sweeping th i sd s Q"
  shows "progress th mode i sd s Q (upd_mstats f s) Q []" "sweeping th i sd (upd_mstats f s) Q"
proof -
  have "filter (\<lambda>g. g \<in> me_live s) (prio Q i sd) = prio Q i sd"
    using prio_inj(3) [OF assms] by (intro filter_True) auto
  then show "progress th mode i sd s Q (upd_mstats f s) Q []"
    using prio_inj(1) [OF assms] unfolding progress_def by (auto simp: avail_of_def)
  show "sweeping th i sd (upd_mstats f s) Q"
    using assms by (simp add: sweeping_def all_open_def queued_def)
qed

text \<open>The loop stops where it is.\<close>

lemma swept_here:
  assumes sw: "sweeping th i sd s Q" and Q: "Q i sd = qs @ [q]"
    and dr: "d \<or> r \<Longrightarrow> no_reduce th i sd s Q \<Longrightarrow> \<not> so_leaves (me_order s th) \<le> avail_of th mode i sd s Q"
    and busy: "busy \<Longrightarrow> d \<or> r"
  shows "queue_swept th mode i sd qs busy s Q (upd_mstats f s) d r"
proof -
  have "set_queues i sd (qs @ [q]) Q = Q" using Q by (simp add: set_queues_def fun_upd_idem)
  then show ?thesis
    unfolding queue_swept_def using progress_stats [OF sw] dr busy
    by (intro exI [of _ Q] exI [of _ q] exI [of _ "[]"])
      (auto simp: sweep_left_def intro: exI [of _ "me_levels s i sd ! length qs"])
qed

lemma upd_mstats_id [simp]: "upd_mstats (\<lambda>m. m) s = s"
  by (simp add: upd_mstats_def)

lemma stp_stops:
  assumes at: "at_maker th i sd s Q qs xs mh ys" and m: "mode = CancelTaker \<or> mode = CancelBoth"
    and a: "so_account (me_order s mh) = so_account (me_order s th)" and nr: "no_reduce th i sd s Q"
  shows "\<not> so_leaves (me_order s th) \<le> avail_of th mode i sd s Q"
proof -
  note A = at_makerD [OF at]
  have "xs = []" using nr A(5,17) unfolding no_reduce_def by (cases xs) auto
  moreover have "taker_crosses (me_order s th) (so_price (me_order s mh))" using A(4,13) by simp
  ultimately have "avail_of th mode i sd s Q = 0" using m a unfolding avail_of_def A(17) by auto
  then show ?thesis using A(3) by simp
qed

lemma sweep_left_skip:
  assumes "Q i sd = qs @ [xs @ mh # ys]" "Q' = set_queues i sd (qs @ [xs @ ys]) Q" "so_leaves (me_order s' th) = so_leaves (me_order s th)"
  shows "sweep_left th i sd s' Q' < sweep_left th i sd s Q"
  using assms by (simp add: sweep_left_def prio_def)

lemma match_queue_total:
  assumes "sweeping th i sd s Q" "Q i sd = qs @ [xs @ ys]" "idx = hd_or kNullHandle ys"
    and "taker_crosses (me_order s th) (pv_price (me_levels s i sd ! length qs))"
    and "0 < so_leaves (me_order s th) \<Longrightarrow> so_reduce_only (me_order s th) \<or> (\<forall>g\<in>set xs. so_reduce_only (me_order s g))"
    and "px = pv_price (me_levels s i sd ! length qs)"
  shows "\<exists>s' d r. match_queue th mode i sd (length qs) px now idx s = Some (s', d, r) \<and>
    queue_swept th mode i sd qs (ys \<noteq> [] \<and> 0 < so_leaves (me_order s th)) s Q s' d r"
  using assms
proof (induction ys arbitrary: s Q xs idx)
  case Nil
  have "queue_swept th mode i sd qs False s Q s False False"
    using swept_here [OF Nil.prems(1), of qs xs False False mode False "\<lambda>m. m"] Nil.prems(2) by simp
  moreover have "match_queue th mode i sd (length qs) px now idx s = Some (s, False, False)"
    using Nil.prems(3) by (subst match_queue.simps) simp
  ultimately show ?case by auto
next
  case (Cons mh ys)
  show ?case
  proof (cases "0 < so_leaves (me_order s th)")
    case False
    have "queue_swept th mode i sd qs False s Q s False False"
      using swept_here [OF Cons.prems(1), of qs "xs @ mh # ys" False False mode False "\<lambda>m. m"] Cons.prems(2) by simp
    moreover have "match_queue th mode i sd (length qs) px now idx s = Some (s, False, False)"
      using False by (subst match_queue.simps) simp
    ultimately show ?thesis using False by auto
  next
    case t: True
    have at: "at_maker th i sd s Q qs xs mh ys"
      unfolding at_maker_def using Cons.prems t by auto
    note A = at_makerD [OF at] and N = next_maker [OF at]
    have idx: "idx = mh" using Cons.prems(3) by simp
    have step: "match_queue th mode i sd (length qs) px now idx s =
        (case match_maker th mode i sd (length qs) px now mh s of
             NextMaker s' nxt \<Rightarrow> match_queue th mode i sd (length qs) px now nxt s'
           | TakerDone s' \<Rightarrow> Some (s', True, False)
           | TakerReduced s' \<Rightarrow> Some (s', False, True))"
      using N(2) t unfolding idx by (subst match_queue.simps) simp
    text \<open>the rest of the loop, after a step that leaves the queue \<open>xs' @ ys\<close>\<close>
    have go: "\<exists>s' d r. match_queue th mode i sd (length qs) px now (hd_or kNullHandle ys) s1 = Some (s', d, r) \<and>
        queue_swept th mode i sd qs True s Q s' d r"
      if p: "progress th mode i sd s Q s1 Q1 evs" "sweeping th i sd s1 Q1" "Q1 = set_queues i sd (qs @ [xs' @ ys]) Q" "no_change evs"
        and l: "\<exists>l. me_levels s1 i sd = (me_levels s i sd)[length qs := l] \<and> pv_price l = pv_price (me_levels s i sd ! length qs)"
        and less: "sweep_left th i sd s1 Q1 < sweep_left th i sd s Q"
        and ro: "0 < so_leaves (me_order s1 th) \<Longrightarrow> so_reduce_only (me_order s1 th) \<or> (\<forall>g\<in>set xs'. so_reduce_only (me_order s1 g))" for s1 Q1 evs xs'
    proof -
      have px: "pv_price (me_levels s1 i sd ! length qs) = pv_price (me_levels s i sd ! length qs)" using l A(21) by auto
      have "taker_crosses (me_order s1 th) = taker_crosses (me_order s th)"
        using so_staticD [OF conjunct2 [OF progressD(8) [OF p(1) progressD(10) [OF p(1)]]]]
        by (simp add: taker_crosses_def fun_eq_iff)
      then have tc: "taker_crosses (me_order s1 th) (pv_price (me_levels s1 i sd ! length qs))" using A(4) px by simp
      have "Q1 i sd = qs @ [xs' @ ys]" using p(3) by simp
      from Cons.IH [OF p(2) this refl tc ro] Cons.prems(6) px
      obtain s' d r where "match_queue th mode i sd (length qs) px now (hd_or kNullHandle ys) s1 = Some (s', d, r)"
        "queue_swept th mode i sd qs (ys \<noteq> [] \<and> 0 < so_leaves (me_order s1 th)) s1 Q1 s' d r" by auto
      then show ?thesis using queue_swept_trans [OF A(1,21) p(1,3,4) l less] by blast
    qed
    have busy: "(mh # ys \<noteq> [] \<and> 0 < so_leaves (me_order s th)) = True" using t by simp
    have "\<exists>s' d r. match_queue th mode i sd (length qs) px now idx s = Some (s', d, r) \<and>
        queue_swept th mode i sd qs True s Q s' d r"
    proof (cases rule: match_maker_cases [OF A(1,6,7) t, of mode px now])
      case 1
      have "queue_swept th mode i sd qs True s Q s False True"
        using swept_here [OF A(1,2), of False True mode True "\<lambda>m. m"] 1(2) by (simp add: no_reduce_def)
      moreover have "match_queue th mode i sd (length qs) px now idx s = Some (s, False, True)" unfolding step 1(1) by simp
      ultimately show ?thesis by blast
    next
      case 2
      have "queue_swept th mode i sd qs True s Q (upd_mstats (\<lambda>m. m\<lparr>ms_stp_cancels := ms_stp_cancels m + 1\<rparr>) s) True False"
        by (rule swept_here [OF A(1,2)]) (use stp_stops [OF at _ 2(3)] 2(2) in auto)
      moreover have "match_queue th mode i sd (length qs) px now idx s =
          Some (upd_mstats (\<lambda>m. m\<lparr>ms_stp_cancels := ms_stp_cancels m + 1\<rparr>) s, True, False)" unfolding step 2(1) by simp
      ultimately show ?thesis by blast
    next
      case (3 f)
      define s1 where "s1 = cancel_maker mh i sd (length qs) CrStp now (upd_mstats f s)"
      have w: "so_reduce_only (me_order s mh) \<or> mode \<noteq> StpNone \<and> mode \<noteq> CancelTaker \<and> so_account (me_order s mh) = so_account (me_order s th)"
        using 3 by simp
      note K = skip_progress [OF at s1_def w refl]
      obtain od where od: "progress th mode i sd s Q s1 (set_queues i sd (qs @ [xs @ ys]) Q) [OnCancel od CrStp now]" using K(1) by blast
      have "sweep_left th i sd s1 (set_queues i sd (qs @ [xs @ ys]) Q) < sweep_left th i sd s Q"
        by (rule sweep_left_skip [of Q i sd qs xs mh ys, OF A(2) refl]) (rule so_dataD(13) [OF K(4) [OF progressD(10) [OF od]]])
      then have "queue_swept th mode i sd qs True s Q s1 True False"
        unfolding queue_swept_def using od K(2,3) stp_stops [OF at _ 3(3)] 3(2)
        by (intro exI [of _ "set_queues i sd (qs @ [xs @ ys]) Q"] exI [of _ "xs @ ys"] exI [of _ "[OnCancel od CrStp now]"]) auto
      moreover have "match_queue th mode i sd (length qs) px now idx s = Some (s1, True, False)" unfolding step 3(1) s1_def by simp
      ultimately show ?thesis by blast
    next
      case (4 f why)
      define s1 where "s1 = cancel_maker mh i sd (length qs) why now (upd_mstats f s)"
      have w: "so_reduce_only (me_order s mh) \<or> mode \<noteq> StpNone \<and> mode \<noteq> CancelTaker \<and> so_account (me_order s mh) = so_account (me_order s th)"
        using 4 by auto
      note K = skip_progress [OF at s1_def w refl]
      obtain od where od: "progress th mode i sd s Q s1 (set_queues i sd (qs @ [xs @ ys]) Q) [OnCancel od why now]" using K(1) by blast
      note st = so_staticD(11) [OF conjunct2 [OF progressD(8) [OF od]]]
      have xl: "g \<in> me_live s1" if "g \<in> set xs" for g using that A(17-19) K(5) by auto
      have "\<exists>s' d r. match_queue th mode i sd (length qs) px now (hd_or kNullHandle ys) s1 = Some (s', d, r) \<and>
          queue_swept th mode i sd qs True s Q s' d r"
      proof (rule go [OF od K(2) refl _ K(3)])
        show "sweep_left th i sd s1 (set_queues i sd (qs @ [xs @ ys]) Q) < sweep_left th i sd s Q"
          by (rule sweep_left_skip [of Q i sd qs xs mh ys, OF A(2) refl]) (rule so_dataD(13) [OF K(4) [OF progressD(10) [OF od]]])
        show "so_reduce_only (me_order s1 th) \<or> (\<forall>g\<in>set xs. so_reduce_only (me_order s1 g))"
          using A(5) st [OF xl] st [OF progressD(10) [OF od]] by blast
      qed simp
      then show ?thesis unfolding step 4(1) N(1) s1_def by simp
    next
      case (5 q)
      define s1 where "s1 = do_fill th mh i sd (length qs) (pv_price (me_levels s i sd ! length qs)) q now s"
      obtain Q1 evs b where F: "progress th mode i sd s Q s1 Q1 evs" "sweeping th i sd s1 Q1"
        "Q1 = set_queues i sd (qs @ [if b then xs @ mh # ys else xs @ ys]) Q"
        "b \<Longrightarrow> q < so_leaves (me_order s mh)" "so_leaves (me_order s1 th) = so_leaves (me_order s th) - q"
        "\<exists>l. me_levels s1 i sd = (me_levels s i sd)[length qs := l] \<and> pv_price l = pv_price (me_levels s i sd ! length qs)"
        "\<And>e. e \<in> set evs \<Longrightarrow> \<forall>j sd' p x u. e \<noteq> OnBookChange j sd' p x u"
        by (rule fill_progress [OF at s1_def 5(2-5)]) blast
      note st = so_staticD(11) [OF conjunct2 [OF progressD(8) [OF F(1)]]]
      have nc: "no_change evs" unfolding no_change_def using F(7) by (metis is_change.elims(2))
      have "\<exists>s' d r. match_queue th mode i sd (length qs) px now (hd_or kNullHandle ys) s1 = Some (s', d, r) \<and>
          queue_swept th mode i sd qs True s Q s' d r"
      proof (rule go [OF F(1,2) _ nc F(6), where xs' = "if b then xs @ [mh] else xs"])
        show "Q1 = set_queues i sd (qs @ [(if b then xs @ [mh] else xs) @ ys]) Q" using F(3) by simp
        show "sweep_left th i sd s1 Q1 < sweep_left th i sd s Q"
        proof -
          have "nat (so_leaves (me_order s1 th)) < nat (so_leaves (me_order s th))" using F(5) 5(2,4) by simp
          moreover have "length (prio Q1 i sd) \<le> length (prio Q i sd)" using F(3) A(2) by (simp add: prio_def)
          ultimately show ?thesis unfolding sweep_left_def by linarith
        qed
        show "so_reduce_only (me_order s1 th) \<or> (\<forall>g\<in>set (if b then xs @ [mh] else xs). so_reduce_only (me_order s1 g))"
          if l: "0 < so_leaves (me_order s1 th)"
        proof -
          have pl: "g \<in> me_live s1" if "g \<in> set (if b then xs @ [mh] else xs)" for g
          proof -
            have "g \<in> set (prio Q1 i sd)" using that F(3) by (auto simp: prio_def split: if_splits)
            then show ?thesis using progressD(9) [OF F(1)] by simp
          qed
          have "so_reduce_only (me_order s mh) \<or> so_reduce_only (me_order s th)" if b
            using 5(6) F(4,5) l that by auto
          then show ?thesis using A(5) st [OF pl] st [OF progressD(10) [OF F(1)]] by (auto split: if_splits)
        qed
      qed
      moreover have "s1 = do_fill th mh i sd (length qs) px q now s" using s1_def Cons.prems(6) by simp
      ultimately show ?thesis unfolding step 5(1) N(1) by simp
    qed
    then show ?thesis unfolding busy .
  qed
qed

subsection \<open>The depth feed\<close>

text \<open>The quantity at a price according to the last depth update that named it.\<close>

fun feed_qty :: "sink_event list \<Rightarrow> instrument_id \<Rightarrow> side \<Rightarrow> price \<Rightarrow> qty" where
  "feed_qty [] i sd px = 0"
| "feed_qty (OnBookChange j sd' p x u # es) i sd px = (if j = i \<and> sd' = sd \<and> p = px then x else feed_qty es i sd px)"
| "feed_qty (e # es) i sd px = feed_qty es i sd px"

definition qty_at :: "price_level list \<Rightarrow> price \<Rightarrow> qty" where
  "qty_at v px = (\<Sum>l\<leftarrow>v. if pv_price l = px then pv_qty l else 0)"

definition feed_ok :: "matching_engine \<Rightarrow> bool" where
  "feed_ok s \<longleftrightarrow> (\<forall>i<me_count s. \<forall>sd px. feed_qty (me_log s) i sd px = qty_at (me_levels s i sd) px)"

lemma feed_qty_skip: "no_change evs \<Longrightarrow> feed_qty (evs @ es) i sd px = feed_qty es i sd px"
proof (induction evs)
  case (Cons e evs)
  then show ?case by (cases e) (simp_all add: no_change_def)
qed simp

lemma qty_at_none: "px \<notin> pv_price ` set v \<Longrightarrow> qty_at v px = 0"
  by (induction v) (auto simp: qty_at_def)

lemma qty_at_split:
  assumes "k < length v"
  shows "qty_at v px = qty_at (take k v @ drop (Suc k) v) px + (if pv_price (v ! k) = px then pv_qty (v ! k) else 0)"
  using arg_cong [OF id_take_nth_drop [OF assms], of "\<lambda>v. \<Sum>l\<leftarrow>v. if pv_price l = px then pv_qty l else 0"]
  by (simp add: qty_at_def)

lemma qty_at_nth:
  assumes "best_last sd v" "k < length v"
  shows "qty_at v (pv_price (v ! k)) = pv_qty (v ! k)" "qty_at (take k v @ drop (Suc k) v) (pv_price (v ! k)) = 0"
proof -
  have "pv_price (v ! k) \<notin> pv_price ` set (take k v @ drop (Suc k) v)"
  proof
    assume "pv_price (v ! k) \<in> pv_price ` set (take k v @ drop (Suc k) v)"
    then obtain l where l: "l \<in> set (take k v) \<union> set (drop (Suc k) v)" "pv_price (v ! k) = pv_price l" by auto
    have "\<exists>j<length v. j \<noteq> k \<and> l = v ! j"
    proof (cases "l \<in> set (take k v)")
      case True
      then obtain j where "j < length (take k v)" "l = take k v ! j" by (metis in_set_conv_nth)
      then show ?thesis by (intro exI [of _ j]) simp
    next
      case False
      then obtain j where "j < length (drop (Suc k) v)" "l = drop (Suc k) v ! j" using l(1) by (metis in_set_conv_nth Un_iff)
      then show ?thesis by (intro exI [of _ "Suc k + j"]) simp
    qed
    then show False using best_last_inj [OF assms(1) _ assms(2)] l(2) by metis
  qed
  then show z: "qty_at (take k v @ drop (Suc k) v) (pv_price (v ! k)) = 0" by (rule qty_at_none)
  show "qty_at v (pv_price (v ! k)) = pv_qty (v ! k)" using qty_at_split [OF assms(2), of "pv_price (v ! k)"] z by simp
qed

lemma qty_at_update:
  assumes "pv_price l = pv_price (v ! k)" "px \<noteq> pv_price l"
  shows "qty_at (v[k := l]) px = qty_at v px"
proof (cases "k < length v")
  case True
  then show ?thesis using qty_at_split [of k v px] qty_at_split [of k "v[k := l]" px] assms by simp
qed (simp add: list_update_beyond not_less)

lemma level_qty_at:
  assumes "best_last sd (me_levels s i sd)"
  shows "level_qty s i sd px = qty_at (me_levels s i sd) px"
proof -
  have b: "best_last sd (sb_levels (me_books s i) sd)" using assms by (simp add: me_levels_def)
  show ?thesis
  proof (cases "sb_find (me_books s i) sd px")
    case None
    then show ?thesis using sb_find_None [OF b, of px] by (simp add: level_qty_def qty_at_none me_levels_def)
  next
    case (Some k)
    then have "k < length (me_levels s i sd)" "pv_price (me_levels s i sd ! k) = px"
      using sb_find_Some [OF b, of px k] by (simp_all add: me_levels_def)
    then show ?thesis using qty_at_nth(1) [OF assms, of k] Some by (auto simp: level_qty_def me_level_levels)
  qed
qed

text \<open>Announcing a level brings the feed up to date.\<close>

lemma feed_close:
  assumes rep: "me_rep X s1 Q1" and i: "i < me_count s1" and k: "k < length (Q1 i sd)"
    and px: "px = pv_price (me_levels s1 i sd ! k)" and s2: "s2 = close_level i sd k px s1"
    and stale: "\<And>j sd' p. j < me_count s1 \<Longrightarrow> \<not> (j = i \<and> sd' = sd \<and> p = px) \<Longrightarrow>
      feed_qty (me_log s1) j sd' p = qty_at (me_levels s1 j sd') p"
  shows "feed_ok s2"
  unfolding feed_ok_def
proof (intro allI impI)
  fix j sd' p assume "j < me_count s2"
  then have j: "j < me_count s1" using s2 by simp
  note C = close_level [OF rep i k s2]
  let ?v = "me_levels s1 i sd"
  note ok = me_repD(4) [OF rep i, of sd]
  have kv: "k < length ?v" using side_okD(2) [OF ok k] .
  have srt: "best_last sd ?v" using ok by (simp add: side_ok_def)
  show "feed_qty (me_log s2) j sd' p = qty_at (me_levels s2 j sd') p"
  proof (cases "j = i \<and> sd' = sd")
    case False
    then show ?thesis using stale [OF j, of sd' p] C(4) [OF False] C(5) by auto
  next
    case True
    have np: "qty_at ?v p = qty_at (take k ?v @ drop (Suc k) ?v) p + (if p = px then pv_qty (?v ! k) else 0)"
      using qty_at_split [OF kv, of p] px by auto
    show ?thesis
    proof (cases "p = px")
      case pt: True
      have "qty_at ?v px = pv_qty (?v ! k)" unfolding px by (rule qty_at_nth(1) [OF srt kv])
      then have "qty_at (take k ?v @ drop (Suc k) ?v) px = 0" using np pt by simp
      then show ?thesis using True pt C(3,5) \<open>qty_at ?v px = _\<close> px by (simp split: if_splits)
    next
      case pf: False
      then show ?thesis using True stale [OF j, of sd' p] np C(3,5) px by (auto split: if_splits)
    qed
  qed
qed

subsection \<open>The outer loop\<close>

lemma close_progress:
  assumes sw: "sweeping th i sd s Q" and k: "k < length (Q i sd)" and s': "s' = close_level i sd k px s"
    and Q': "Q' = set_queues i sd (close_queues k (Q i sd)) Q"
  shows "\<exists>p x u. progress th mode i sd s Q s' Q' [OnBookChange i sd p x u]" "sweeping th i sd s' Q'"
    "sweep_left th i sd s' Q' = sweep_left th i sd s Q"
proof -
  note S = sweepingD [OF sw]
  note C = close_level [OF S(1,2) k s', folded Q']
  have o: "me_order s' = me_order s" "me_live s' = me_live s" unfolding s' by simp_all
  have fr: "me_count s' = me_count s" "me_sink s' = me_sink s" "me_stp s' = me_stp s"
    "me_next_order_id s' = me_next_order_id s" "me_ledgers s' = me_ledgers s" unfolding s' by simp_all
  have p: "prio Q' i sd = prio Q i sd"
  proof (cases "Q i sd ! k = []")
    case True
    have "concat (rev (take k (Q i sd) @ Q i sd ! k # drop (Suc k) (Q i sd))) = concat (rev (Q i sd))"
      using id_take_nth_drop [OF k] by simp
    then show ?thesis using True unfolding Q' prio_def close_queues_def by simp
  qed (simp add: Q' prio_def close_queues_def)
  have pv: "pv_price ` set (me_levels s' i sd) \<subseteq> pv_price ` set (me_levels s i sd)"
    unfolding C(3) by (auto dest: in_set_takeD in_set_dropD)
  have flt: "filter (\<lambda>g. g \<in> me_live s) (prio Q i sd) = prio Q i sd"
    using prio_inj(3) [OF sw] by (intro filter_True) auto
  have "progress th mode i sd s Q s' Q'
      [OnBookChange i sd (if Q i sd ! k = [] then px else pv_price (me_levels s i sd ! k))
       (if Q i sd ! k = [] then 0 else pv_qty (me_levels s i sd ! k)) (Suc (sb_update_id (me_books s i)))]"
    unfolding progress_def o p flt fr using C(4,5) pv prio_inj(1) [OF sw]
    by (auto simp: Q' avail_of_def o p [unfolded Q'])
  then show "\<exists>p x u. progress th mode i sd s Q s' Q' [OnBookChange i sd p x u]" by blast
  show "sweeping th i sd s' Q'"
    using S C(1,2) unfolding sweeping_def all_open_def o fr by simp
  show "sweep_left th i sd s' Q' = sweep_left th i sd s Q" unfolding sweep_left_def p o ..
qed

lemma close_queues_last:
  "close_queues (length qs) (qs @ [q]) = (if q = [] then qs else qs @ [q])"
  by (simp add: close_queues_def)

lemma no_emptyD: "no_empty s Q \<Longrightarrow> i < me_count s \<Longrightarrow> Q i sd = qs @ [q] \<Longrightarrow> q \<noteq> [] \<and> [] \<notin> set qs"
proof -
  assume "no_empty s Q" "i < me_count s" and q: "Q i sd = qs @ [q]"
  then have "[] \<notin> set (Q i sd)" unfolding no_empty_def by blast
  then show ?thesis unfolding q by auto
qed

text \<open>What is left of the side no longer crosses the taker.\<close>

definition clear_of :: "sim_order \<Rightarrow> price_level list \<Rightarrow> bool" where
  "clear_of t v \<longleftrightarrow> (\<forall>l\<in>set v. \<not> taker_crosses t (pv_price l))"

lemma worse_no_cross:
  assumes "best_last sd v" "v \<noteq> []" "so_side t = opposite sd" "\<not> taker_crosses t (pv_price (last v))"
  shows "clear_of t v"
  unfolding clear_of_def
proof
  fix l assume "l \<in> set v"
  then obtain j where j: "j < length v" "l = v ! j" by (metis in_set_conv_nth)
  have "pv_price (last v) = pv_price l \<or> better sd (pv_price (last v)) (pv_price l)"
    using best_last_nth [OF assms(1), of j "length v - 1"] j assms(2) by (cases "j = length v - 1") (auto simp: last_conv_nth)
  then show "\<not> taker_crosses t (pv_price l)"
    using assms(3,4) by (cases sd) (auto simp: taker_crosses_def crosses_def better_def)
qed

text \<open>One round of the outer loop: the best level is swept and announced.\<close>

lemma match_round:
  assumes sw: "sweeping th i sd s Q" and ne: "no_empty s Q" and Q: "Q i sd = qs @ [q]"
    and t: "0 < so_leaves (me_order s th)" and px: "px = pv_price (me_levels s i sd ! length qs)"
    and cr: "taker_crosses (me_order s th) px"
  obtains s1 d r s2 Q2 evs where
    "match_queue th mode i sd (length qs) px now (pv_head (me_levels s i sd ! length qs)) s = Some (s1, d, r)"
    "s2 = close_level i sd (length qs) px s1" "progress th mode i sd s Q s2 Q2 evs" "sweeping th i sd s2 Q2" "no_empty s2 Q2"
    "feed_ok s \<Longrightarrow> feed_ok s2"
    "d \<or> r \<Longrightarrow> no_reduce th i sd s Q \<Longrightarrow> \<not> so_leaves (me_order s th) \<le> avail_of th mode i sd s Q"
    "\<not> d \<Longrightarrow> \<not> r \<Longrightarrow> sweep_left th i sd s2 Q2 < sweep_left th i sd s Q"
proof -
  note S = sweepingD [OF sw]
  let ?k = "length qs"
  have k: "?k < length (Q i sd)" "Q i sd ! ?k = q" using Q by simp_all
  note ok = side_okD [OF me_repD(4) [OF S(1,2)] k(1)]
  have q: "q \<noteq> []" "[] \<notin> set qs" using no_emptyD [OF ne S(2) Q] by auto
  have hd: "pv_head (me_levels s i sd ! ?k) = hd_or kNullHandle q"
    using lseg_ends [OF queue_okD(2) [OF ok(1)]] k(2) by simp
  obtain s1 d r where m: "match_queue th mode i sd ?k px now (pv_head (me_levels s i sd ! ?k)) s = Some (s1, d, r)"
    "queue_swept th mode i sd qs (q \<noteq> [] \<and> 0 < so_leaves (me_order s th)) s Q s1 d r"
    using match_queue_total [where mode = mode and now = now and xs = "[]" and ys = q, OF sw _ hd _ _ px] Q cr px by auto
  obtain Q1 q1 evs1 where g: "progress th mode i sd s Q s1 Q1 evs1" "sweeping th i sd s1 Q1" "Q1 = set_queues i sd (qs @ [q1]) Q"
    "no_change evs1" "\<exists>l. me_levels s1 i sd = (me_levels s i sd)[?k := l] \<and> pv_price l = pv_price (me_levels s i sd ! ?k)"
    "d \<or> r \<longrightarrow> no_reduce th i sd s Q \<longrightarrow> \<not> so_leaves (me_order s th) \<le> avail_of th mode i sd s Q"
    "\<not> d \<longrightarrow> \<not> r \<longrightarrow> sweep_left th i sd s1 Q1 < sweep_left th i sd s Q"
    using m(2) q t unfolding queue_swept_def by auto
  note P = progressD [OF g(1)] and S1 = sweepingD [OF g(2)]
  have k1: "?k < length (Q1 i sd)" "Q1 i sd = qs @ [q1]" using g(3) by simp_all
  have px1: "px = pv_price (me_levels s1 i sd ! ?k)" using g(5) ok(2) px by auto
  define s2 where "s2 = close_level i sd ?k px s1"
  define Q2 where "Q2 = set_queues i sd (close_queues ?k (Q1 i sd)) Q1"
  note C = close_progress [OF g(2) k1(1) s2_def Q2_def]
  obtain p x u where c: "progress th mode i sd s1 Q1 s2 Q2 [OnBookChange i sd p x u]" using C(1) [of mode] by blast
  have pr: "progress th mode i sd s Q s2 Q2 ([OnBookChange i sd p x u] @ evs1)"
    by (rule progress_trans [OF g(1) c prio_inj [OF sw]])
  have ne2: "no_empty s2 Q2"
    unfolding no_empty_def
  proof (intro allI impI)
    fix j sd' assume j: "j < me_count s2"
    have jc: "j < me_count s" using j P(2) progressD(2) [OF c] by simp
    show "[] \<notin> set (Q2 j sd')"
    proof (cases "j = i \<and> sd' = sd")
      case True
      show ?thesis using True k1(2) q(2) unfolding Q2_def by (auto simp: close_queues_last)
    next
      case False
      then have "Q2 j sd' = Q j sd'" unfolding Q2_def g(3) by auto
      then show ?thesis using ne jc unfolding no_empty_def by simp
    qed
  qed
  have fd: "feed_ok s2" if "feed_ok s"
  proof (rule feed_close [OF S1(1,2) k1(1) px1 s2_def])
    fix j sd' p assume j: "j < me_count s1" and n: "\<not> (j = i \<and> sd' = sd \<and> p = px)"
    have "feed_qty (me_log s1) j sd' p = feed_qty (me_log s) j sd' p" unfolding P(1) by (rule feed_qty_skip [OF g(4)])
    also have "\<dots> = qty_at (me_levels s j sd') p" using that j P(2) unfolding feed_ok_def by simp
    also have "\<dots> = qty_at (me_levels s1 j sd') p"
    proof (cases "j = i \<and> sd' = sd")
      case True
      then show ?thesis using g(5) n px qty_at_update [of _ "me_levels s i sd" ?k p] by auto
    next
      case False
      then show ?thesis using P(7) by simp
    qed
    finally show "feed_qty (me_log s1) j sd' p = qty_at (me_levels s1 j sd') p" .
  qed
  show thesis
    by (rule that [OF m(1) s2_def pr C(2) ne2 fd]) (use g(6,7) C(3) in auto)
qed

text \<open>How the sweep ends: the taker is done or clear of the book, or it is ended where it is.\<close>

definition sweep_ends ::
  "nat \<Rightarrow> stp_mode \<Rightarrow> instrument_id \<Rightarrow> side \<Rightarrow> timestamp \<Rightarrow> matching_engine \<Rightarrow>
   (instrument_id \<Rightarrow> side \<Rightarrow> nat list list) \<Rightarrow> matching_engine \<times> bool \<times> qty \<Rightarrow> bool" where
  "sweep_ends th mode i sd now s Q res \<longleftrightarrow>
     (\<exists>s0 Q' evs. progress th mode i sd s Q s0 Q' evs \<and> sweeping th i sd s0 Q' \<and> no_empty s0 Q' \<and> (feed_ok s \<longrightarrow> feed_ok s0) \<and>
        (res = (s0, True, so_cum_qty (me_order s0 th)) \<and>
           (so_leaves (me_order s0 th) = 0 \<or> clear_of (me_order s0 th) (me_levels s0 i sd)) \<or>
         (\<exists>why f. res = end_taker th why now (upd_mstats f s0)) \<and>
           (no_reduce th i sd s Q \<longrightarrow> \<not> so_leaves (me_order s th) \<le> avail_of th mode i sd s Q)))"

lemma no_reduce_progress: "progress th mode i sd s Q s1 Q1 evs \<Longrightarrow> no_reduce th i sd s Q \<Longrightarrow> no_reduce th i sd s1 Q1"
proof -
  assume p: "progress th mode i sd s Q s1 Q1 evs" and n: "no_reduce th i sd s Q"
  note P = progressD [OF p]
  have "so_reduce_only (me_order s1 g) = so_reduce_only (me_order s g)" if "g \<in> me_live s1" for g
    using so_staticD(11) P(8) [OF that] by blast
  then show ?thesis using n P(9,10) unfolding no_reduce_def by auto
qed

lemma sweep_ends_trans:
  assumes sw: "sweeping th i sd s Q" and p: "progress th mode i sd s Q s2 Q2 evs" and f: "feed_ok s \<Longrightarrow> feed_ok s2"
    and e: "sweep_ends th mode i sd now s2 Q2 res"
  shows "sweep_ends th mode i sd now s Q res"
proof -
  obtain s0 Q' evs' where g: "progress th mode i sd s2 Q2 s0 Q' evs'" "sweeping th i sd s0 Q'" "no_empty s0 Q'"
    "feed_ok s2 \<longrightarrow> feed_ok s0"
    "res = (s0, True, so_cum_qty (me_order s0 th)) \<and>
           (so_leaves (me_order s0 th) = 0 \<or> clear_of (me_order s0 th) (me_levels s0 i sd)) \<or>
         (\<exists>why f. res = end_taker th why now (upd_mstats f s0)) \<and>
           (no_reduce th i sd s2 Q2 \<longrightarrow> \<not> so_leaves (me_order s2 th) \<le> avail_of th mode i sd s2 Q2)"
    using e unfolding sweep_ends_def by blast
  have t: "progress th mode i sd s Q s0 Q' (evs' @ evs)" by (rule progress_trans [OF p g(1) prio_inj [OF sw]])
  have "no_reduce th i sd s Q \<longrightarrow> \<not> so_leaves (me_order s th) \<le> avail_of th mode i sd s Q"
    if "no_reduce th i sd s2 Q2 \<longrightarrow> \<not> so_leaves (me_order s2 th) \<le> avail_of th mode i sd s2 Q2"
    using that no_reduce_progress [OF p] progressD(15) [OF p] by blast
  then show ?thesis unfolding sweep_ends_def using t g f by blast
qed

lemma match_loop_total:
  assumes "sweeping th i sd s Q" "no_empty s Q"
  shows "\<exists>res. match_loop th mode now s = Some res \<and> sweep_ends th mode i sd now s Q res"
  using assms
proof (induction "sweep_left th i sd s Q" arbitrary: s Q rule: less_induct)
  case less
  note sw = less.prems(1) and ne = less.prems(2)
  note S = sweepingD [OF sw]
  let ?t = "me_order s th" and ?v = "me_levels s i sd"
  have refl: "progress th mode i sd s Q s Q []" by (rule progress_refl) (use prio_inj [OF sw] in auto)
  have side: "so_instrument ?t = i" "opposite (so_side ?t) = sd" using S(3,4) by simp_all
  have stop: "sweep_ends th mode i sd now s Q (s, True, so_cum_qty ?t)"
    if "so_leaves ?t = 0 \<or> clear_of ?t ?v"
    unfolding sweep_ends_def using refl sw ne that by blast
  note ok = me_repD(4) [OF S(1,2), of sd]
  show ?case
  proof (cases "0 < so_leaves ?t")
    case False
    then have "so_leaves ?t = 0" using S(6) by (simp add: so_leaves_def)
    then show ?thesis using stop False by (subst match_loop.simps) (simp add: Let_def)
  next
    case t: True
    show ?thesis
    proof (cases "?v = []")
      case True
      then have "sb_best (me_books s i) sd = None" by (simp add: sb_best_def me_levels_def)
      then show ?thesis using stop True t side by (subst match_loop.simps) (simp add: Let_def clear_of_def)
    next
      case v: False
      have best: "sb_best (me_books s i) sd = Some (length ?v - 1)" using v by (simp add: sb_best_def me_levels_def)
      obtain qs q where Q: "Q i sd = qs @ [q]" using side_ok_length [OF ok] v by (metis length_0_conv rev_exhaust)
      have len: "length ?v - 1 = length qs" using side_ok_length [OF ok] Q by simp
      define px where "px = pv_price (?v ! length qs)"
      have lst: "px = pv_price (last ?v)" using v len by (simp add: px_def last_conv_nth)
      show ?thesis
      proof (cases "taker_crosses ?t px")
        case False
        then have "clear_of ?t ?v" using worse_no_cross [of sd ?v ?t] ok v S(4) lst by (simp add: side_ok_def)
        then show ?thesis using stop t side best False len
          by (subst match_loop.simps) (simp add: Let_def me_level_levels px_def taker_crosses_def)
      next
        case cr: True
        obtain s1 d r s2 Q2 evs where R:
          "match_queue th mode i sd (length qs) px now (pv_head (me_levels s i sd ! length qs)) s = Some (s1, d, r)"
          "s2 = close_level i sd (length qs) px s1" "progress th mode i sd s Q s2 Q2 evs" "sweeping th i sd s2 Q2" "no_empty s2 Q2"
          "feed_ok s \<Longrightarrow> feed_ok s2"
          "d \<or> r \<Longrightarrow> no_reduce th i sd s Q \<Longrightarrow> \<not> so_leaves (me_order s th) \<le> avail_of th mode i sd s Q"
          "\<not> d \<Longrightarrow> \<not> r \<Longrightarrow> sweep_left th i sd s2 Q2 < sweep_left th i sd s Q"
          by (rule match_round [OF sw ne Q t px_def cr, of mode now]) blast
        have step: "match_loop th mode now s =
            (let t = me_order s2 th in
             if d then Some (end_taker th CrStp now s2)
             else if r \<or> (so_reduce_only t \<and> so_leaves t > 0 \<and> reducible s2 th = 0)
             then Some (end_taker th CrReduceOnly now (count_expired s2))
             else match_loop th mode now s2)"
        proof -
          have ncr: "(so_type ?t \<noteq> Market \<and> \<not> crosses (so_side ?t) (so_price ?t) px) = False"
            using cr by (simp add: taker_crosses_def)
          show ?thesis
            using t side best len R(1,2) ncr
            by (subst match_loop.simps) (simp only: Let_def me_level_levels option.case prod.case if_False px_def [symmetric] if_True simp_thms)
        qed
        have dr: ?thesis if "match_loop th mode now s = Some (end_taker th why now (upd_mstats f s2))"
          "no_reduce th i sd s Q \<longrightarrow> \<not> so_leaves (me_order s th) \<le> avail_of th mode i sd s Q" for why f
          unfolding sweep_ends_def using that R(3-6) by blast
        show ?thesis
        proof (cases "d \<or> r")
          case True
          show ?thesis
            using dr [of CrStp "\<lambda>m. m"] dr [of CrReduceOnly "\<lambda>m. m\<lparr>ms_expired := ms_expired m + 1\<rparr>"] True R(7) step
            by (cases d) (auto simp: Let_def count_expired_def)
        next
          case False
          show ?thesis
          proof (cases "so_reduce_only (me_order s2 th) \<and> so_leaves (me_order s2 th) > 0 \<and> reducible s2 th = 0")
            case True
            have "so_reduce_only ?t"
              using True so_staticD(11) [OF conjunct2 [OF progressD(8) [OF R(3) progressD(10) [OF R(3)]]]] by simp
            then show ?thesis
              using dr [of CrReduceOnly "\<lambda>m. m\<lparr>ms_expired := ms_expired m + 1\<rparr>"] step True False
              by (simp add: Let_def count_expired_def no_reduce_def)
          next
            case nr: False
            have "match_loop th mode now s = match_loop th mode now s2" unfolding step Let_def using nr False by auto
            moreover obtain res where "match_loop th mode now s2 = Some res" "sweep_ends th mode i sd now s2 Q2 res"
              using less.hyps [OF R(8) R(4,5)] False by blast
            ultimately show ?thesis using sweep_ends_trans [OF sw R(3,6)] by auto
          qed
        qed
      qed
    qed
  qed
qed

end
