(* ===== verification/MatchingOps.thy ===== *)
theory MatchingOps
  imports MatchingLoop
begin

unbundle bit_operations_syntax

text \<open>
  Orders come to rest, leave the book and enter the engine; the pre-check of a fill-or-kill order. \<open>rest\<close> either
  appends the order behind every order at its price or a better one, or finds no room for a new level and releases it;
  \<open>remove_resting\<close> takes exactly one order out of the queues; both announce the level they changed, so that the feed
  stays in step. \<open>enter_order\<close> finds room in the key table whenever the pool had a slot. \<open>fillable\<close> ends on every
  well-formed book and never promises more than the sweep can reach.
\<close>

section \<open>An order comes to rest\<close>

lemma feed_step:
  assumes "feed_ok s" "me_log s' = OnBookChange i sd px x u # evs @ me_log s" "no_change evs" "me_count s' = me_count s"
    and "\<And>j sd' p. j < me_count s \<Longrightarrow> \<not> (j = i \<and> sd' = sd \<and> p = px) \<Longrightarrow> qty_at (me_levels s' j sd') p = qty_at (me_levels s j sd') p"
    and "qty_at (me_levels s' i sd) px = x"
  shows "feed_ok s'"
  unfolding feed_ok_def
proof (intro allI impI)
  fix j sd' p assume j: "j < me_count s'"
  show "feed_qty (me_log s') j sd' p = qty_at (me_levels s' j sd') p"
  proof (cases "j = i \<and> sd' = sd \<and> p = px")
    case True
    then show ?thesis using assms(2,6) by simp
  next
    case False
    then have "feed_qty (me_log s') j sd' p = feed_qty (me_log s) j sd' p"
      using assms(2) feed_qty_skip [OF assms(3)] by auto
    then show ?thesis using assms(1,4) assms(5) [OF _ False] j unfolding feed_ok_def by simp
  qed
qed

lemma feed_keep:
  assumes "feed_ok s" "me_log s' = evs @ me_log s" "no_change evs" "me_count s' = me_count s" "me_levels s' = me_levels s"
  shows "feed_ok s'"
  using assms feed_qty_skip [OF assms(3)] unfolding feed_ok_def by simp

lemma list_all2_insert:
  "list_all2 P v qs \<Longrightarrow> P l q \<Longrightarrow> list_all2 P (take k v @ l # drop k v) (take k qs @ q # drop k qs)"
  by (intro list_all2_appendI list.rel_intros list_all2_takeI list_all2_dropI)

text \<open>A new level with an empty queue.\<close>

lemma insert_level:
  assumes rep: "me_rep X s Q" and i: "i < me_count s" and v: "v = take k (me_levels s i sd) @ empty_level p # drop k (me_levels s i sd)"
    and b: "best_last sd v" and len: "length (me_levels s i sd) \<noteq> kMaxSimLevels"
    and s': "s' = set_book i (sb_set_levels sd v (me_books s i)) s"
  shows "me_rep X s' (set_queues i sd (take k (Q i sd) @ [] # drop k (Q i sd)) Q)"
    "queued s' (set_queues i sd (take k (Q i sd) @ [] # drop k (Q i sd)) Q) = queued s Q"
    "me_levels s' = (\<lambda>j sd'. if j = i \<and> sd' = sd then v else me_levels s j sd')"
proof -
  note R = me_repD [OF rep]
  let ?Q = "set_queues i sd (take k (Q i sd) @ [] # drop k (Q i sd)) Q"
  show lv: "me_levels s' = (\<lambda>j sd'. if j = i \<and> sd' = sd then v else me_levels s j sd')"
    unfolding s' by (intro ext) (auto simp: me_levels_def)
  have "set (concat (take k (Q i sd) @ [] # drop k (Q i sd))) = set (concat (Q i sd))"
    using append_take_drop_id [of k "Q i sd"] by (metis append_Nil concat.simps(2) concat_append)
  then have "set (concat (?Q j sd')) = set (concat (Q j sd'))" for j sd' by (cases "j = i \<and> sd' = sd") auto
  moreover have c: "me_count s' = me_count s" unfolding s' by simp
  ultimately show q: "queued s' ?Q = queued s Q" unfolding queued_def by (simp only:)
  have o: "me_order s' = me_order s" unfolding s' by simp
  have "side_ok (me_order s) j sd' (me_levels s' j sd') (?Q j sd')" if j: "j < me_count s" for j sd'
  proof (cases "j = i \<and> sd' = sd")
    case True
    have "queue_ok (me_order s) i sd (empty_level p) []" by (simp add: queue_ok_def empty_level_def)
    then have "list_all2 (queue_ok (me_order s) i sd) v (take k (Q i sd) @ [] # drop k (Q i sd))"
      using R(4) [OF i, of sd] unfolding side_ok_def v by (intro list_all2_insert) auto
    moreover have "length v \<le> kMaxSimLevels"
    proof -
      have "length v = Suc (length (me_levels s i sd))" unfolding v by simp
      moreover have "length (me_levels s i sd) \<le> kMaxSimLevels" using R(4) [OF i, of sd] by (simp add: side_ok_def)
      ultimately show ?thesis using len by simp
    qed
    ultimately show ?thesis using True b lv by (simp add: side_ok_def)
  next
    case False
    then show ?thesis using R(4) [OF j, of sd'] lv by auto
  qed
  then show "me_rep X s' ?Q" using R unfolding me_rep_def q o c unfolding s' by simp
qed

text \<open>Appending an order at the tail of a level.\<close>

definition link_tail :: "nat \<Rightarrow> instrument_id \<Rightarrow> side \<Rightarrow> nat \<Rightarrow> matching_engine \<Rightarrow> matching_engine" where
  "link_tail h i sd k s1 =
     (let t = pv_tail (me_level s1 i sd k);
          s2 = upd_sim h (\<lambda>x. x\<lparr>so_prev := t, so_next := kNullHandle\<rparr>) s1;
          s3 = (if t \<noteq> kNullHandle then upd_sim t (\<lambda>x. x\<lparr>so_next := h\<rparr>) s2
                else upd_level i sd k (\<lambda>l. l\<lparr>pv_head := h\<rparr>) s2)
      in upd_level i sd k (\<lambda>l. l\<lparr>pv_tail := h, pv_count := pv_count l + 1,
                               pv_qty := pv_qty l + so_leaves (me_order s3 h)\<rparr>) s3)"

lemma link_tail_frame [simp]:
  "me_count (link_tail h i sd k s) = me_count s" "me_sink (link_tail h i sd k s) = me_sink s"
  "me_log (link_tail h i sd k s) = me_log s" "me_by_key (link_tail h i sd k s) = me_by_key s"
  "me_stp (link_tail h i sd k s) = me_stp s" "me_ledgers (link_tail h i sd k s) = me_ledgers s"
  "me_stats (link_tail h i sd k s) = me_stats s" "me_next_order_id (link_tail h i sd k s) = me_next_order_id s"
  "me_live (link_tail h i sd k s) = me_live s"
  "pl_capacity (me_pool (link_tail h i sd k s)) = pl_capacity (me_pool s)"
  by (simp_all add: link_tail_def Let_def)

lemma link_tail_orders:
  assumes "pv_tail (me_levels s i sd ! k) \<noteq> h"
  shows "me_order (link_tail h i sd k s) g =
    (if g = h then (me_order s h)\<lparr>so_prev := pv_tail (me_levels s i sd ! k), so_next := kNullHandle\<rparr>
     else if pv_tail (me_levels s i sd ! k) \<noteq> kNullHandle \<and> g = pv_tail (me_levels s i sd ! k)
     then (me_order s g)\<lparr>so_next := h\<rparr> else me_order s g)"
  using assms by (simp add: link_tail_def Let_def me_level_levels)

lemma link_tail_levels:
  assumes "k < length (me_levels s i sd)" "l = me_levels s i sd ! k" "pv_tail l \<noteq> h"
  shows "me_levels (link_tail h i sd k s) = (\<lambda>j sd'. if j = i \<and> sd' = sd
     then (me_levels s i sd)[k := l\<lparr>pv_head := (if pv_tail l = kNullHandle then h else pv_head l), pv_tail := h,
            pv_count := pv_count l + 1, pv_qty := pv_qty l + so_leaves (me_order s h)\<rparr>]
     else me_levels s j sd')"
  using assms by (intro ext) (simp add: link_tail_def Let_def me_level_levels so_leaves_def)

lemma link_tail_rep:
  assumes rep: "me_rep (insert h X) s Q" and hX: "h \<notin> X" and i: "i < me_count s" and k: "k < length (Q i sd)"
    and od: "so_instrument (me_order s h) = i" "so_side (me_order s h) = sd" "so_price (me_order s h) = pv_price (me_levels s i sd ! k)"
      "0 \<le> so_cum_qty (me_order s h)" "so_cum_qty (me_order s h) \<le> so_qty (me_order s h)"
    and s': "s' = link_tail h i sd k s"
  shows "me_rep X s' (set_queues i sd ((Q i sd)[k := Q i sd ! k @ [h]]) Q)"
    "\<And>g. so_data (me_order s' g) = so_data (me_order s g)"
    "\<exists>l. me_levels s' = (\<lambda>j sd'. if j = i \<and> sd' = sd then (me_levels s i sd)[k := l] else me_levels s j sd') \<and>
       pv_price l = pv_price (me_levels s i sd ! k)"
proof -
  note R = me_repD [OF rep] and ok = side_okD [OF me_repD(4) [OF rep i] k]
  let ?q = "Q i sd ! k" and ?l = "me_levels s i sd ! k"
  note q = queue_okD [OF ok(1)]
  have sub: "set ?q \<subseteq> queued s Q" using i k queuedI [of i s _ Q sd] in_concat_nth [of _ "Q i sd"] by blast
  have hl: "h \<in> me_live s" "h \<notin> queued s Q" using R(5,6) by auto
  have hn: "h \<noteq> kNullHandle" using live_not_null [OF R(1) hl(1)] .
  have hq: "h \<notin> set ?q" using sub hl(2) by blast
  have tl: "pv_tail ?l = last_or kNullHandle ?q" using lseg_ends [OF q(2)] by simp
  have tn: "pv_tail ?l \<noteq> h" using tl hq hn last_in_set [of ?q] by (auto simp: last_or_def)
  have nn: "kNullHandle \<notin> set ?q" using lseg_not_null [OF q(2)] .
  have "?q \<noteq> [] \<Longrightarrow> last ?q \<noteq> kNullHandle" using nn by (metis last_in_set)
  then have t0: "pv_tail ?l = kNullHandle \<longleftrightarrow> ?q = []" "?q \<noteq> [] \<Longrightarrow> pv_tail ?l = last ?q"
    using tl by (auto simp: last_or_def)
  note O = link_tail_orders [OF tn, folded s'] and L = link_tail_levels [OF ok(2) refl tn, folded s']
  let ?l' = "?l\<lparr>pv_head := (if pv_tail ?l = kNullHandle then h else pv_head ?l), pv_tail := h,
            pv_count := pv_count ?l + 1, pv_qty := pv_qty ?l + so_leaves (me_order s h)\<rparr>"
  show data: "so_data (me_order s' g) = so_data (me_order s g)" for g by (simp add: O)
  note D = so_dataD [OF data]
  show "\<exists>l. me_levels s' = (\<lambda>j sd'. if j = i \<and> sd' = sd then (me_levels s i sd)[k := l] else me_levels s j sd') \<and>
       pv_price l = pv_price ?l" using L by (intro exI [of _ ?l']) simp
  have "dll (me_order s') (if ?q = [] then h else pv_head ?l) (?q @ [h]) h"
  proof (rule dll_snoc [OF q(2) hq hn _ _ _ _ q(1)])
    fix y assume y: "y \<in> set ?q"
    then have "y \<noteq> h" "?q \<noteq> []" using hq by auto
    then show "so_prev (me_order s' y) = so_prev (me_order s y)"
      "so_next (me_order s' y) = (if y = last ?q then h else so_next (me_order s y))"
      using t0 by (auto simp: O)
  qed (simp_all add: O)
  then have "queue_ok (me_order s') i sd ?l' (?q @ [h])"
    unfolding queue_ok_def D using q hq od t0(1) by auto
  moreover have "pool_inv (me_pool s')"
  proof -
    have "pv_tail ?l \<noteq> kNullHandle \<Longrightarrow> pv_tail ?l \<in> me_live s"
      using t0 sub R(5) by (metis Un_iff last_in_set subsetD)
    then show ?thesis unfolding s' link_tail_def Let_def using R(1) hl(1) by (simp add: me_level_levels)
  qed
  ultimately show "me_rep X s' (set_queues i sd ((Q i sd)[k := ?q @ [h]]) Q)"
  proof (intro me_rep_step [OF rep i k, where l' = ?l'])
    show "me_levels s' = (\<lambda>j sd'. if j = i \<and> sd' = sd then (me_levels s i sd)[k := ?l'] else me_levels s j sd')" by (rule L)
    show "me_order s' g = me_order s g" if "g \<in> queued s Q" "g \<notin> set ?q" for g
    proof -
      have "g \<noteq> h" using that hl(2) by blast
      moreover have "\<not> (pv_tail ?l \<noteq> kNullHandle \<and> g = pv_tail ?l)" using that(2) t0 last_in_set [of ?q] by auto
      ultimately show ?thesis by (auto simp: O)
    qed
    show "order_key (me_order s' g) = order_key (me_order s g) \<and> so_order_id (me_order s' g) = so_order_id (me_order s g)" for g
      by (simp add: order_key_def D)
    show "X \<union> set (?q @ [h]) = insert h X \<union> set ?q" by auto
    show "X \<inter> set (?q @ [h]) = {}" "X \<inter> (queued s Q - set ?q) = {}" "set (?q @ [h]) \<inter> (queued s Q - set ?q) = {}"
      using hX R(6) sub hl(2) by auto
  qed (simp_all add: s')
qed

lemma rest_eq:
  assumes "so_instrument (me_order s h) = i" "so_side (me_order s h) = sd" "so_price (me_order s h) = p"
  shows "rest h s =
     (case sb_find_or_insert (me_books s i) sd p of
        (b, None) \<Rightarrow> free_order h (emit (OnReject \<lparr>no_account = so_account (me_order s h), no_cl_ord_id = so_cl_ord_id (me_order s h),
            no_instrument = i, no_side = sd, no_type = so_type (me_order s h), no_tif = so_tif (me_order s h), no_price = p,
            no_qty = so_qty (me_order s h), no_reduce_only = so_reduce_only (me_order s h)\<rparr> VenueReject (so_created (me_order s h)))
            (upd_mstats (\<lambda>m. m\<lparr>ms_level_full := ms_level_full m + 1\<rparr>) s))
      | (b, Some k) \<Rightarrow> book_changed i sd k (link_tail h i sd k (set_book i b s)))"
  unfolding rest_def link_tail_def Let_def assms by (rule refl)

text \<open>The tail of a level is behind every order at its price or a better one.\<close>

definition behind :: "side \<Rightarrow> (nat \<Rightarrow> sim_order) \<Rightarrow> price \<Rightarrow> nat \<Rightarrow> nat list \<Rightarrow> nat list \<Rightarrow> bool" where
  "behind sd ord p h P P' \<longleftrightarrow> (\<exists>xs ys. P = xs @ ys \<and> P' = xs @ h # ys \<and>
     (\<forall>g\<in>set xs. at_or_better sd (so_price (ord g)) p) \<and> (\<forall>g\<in>set ys. better sd p (so_price (ord g))))"

lemma tail_behind:
  assumes ok: "side_ok ord i sd v qs" and k: "k < length qs"
  shows "behind sd ord (pv_price (v ! k)) h (concat (rev qs)) (concat (rev (qs[k := qs ! k @ [h]])))"
proof -
  let ?p = "pv_price (v ! k)"
  have len: "length qs = length v" by (rule side_ok_length [OF ok])
  have b: "better sd (pv_price (v ! b)) (pv_price (v ! a))" if "a < b" "b < length qs" for a b
    using ok that len unfolding side_ok_def best_last_def sorted_wrt_iff_nth_less by simp
  have pr: "so_price (ord g) = pv_price (v ! j)" if "j < length qs" "g \<in> set (qs ! j)" for j g
    using queue_okD(5) [OF side_okD(1) [OF ok that(1)]] that(2) by blast
  have up: "at_or_better sd (so_price (ord g)) ?p" if g: "g \<in> set (concat (drop (Suc k) qs))" for g
  proof -
    obtain j where j: "j < length (drop (Suc k) qs)" "g \<in> set (drop (Suc k) qs ! j)"
      using g unfolding in_concat_nth by blast
    then have "so_price (ord g) = pv_price (v ! (Suc k + j))" using pr [of "Suc k + j" g] by simp
    moreover have "Suc k + j < length qs" using j(1) k by simp
    ultimately show ?thesis using b [of k "Suc k + j"] by (cases sd) (simp_all add: better_def at_or_better_def)
  qed
  have down: "better sd ?p (so_price (ord g))" if g: "g \<in> set (concat (take k qs))" for g
  proof -
    obtain j where j: "j < length (take k qs)" "g \<in> set (take k qs ! j)"
      using g unfolding in_concat_nth by blast
    then have "so_price (ord g) = pv_price (v ! j)" using pr [of j g] by simp
    then show ?thesis using b [of j k] j(1) k by simp
  qed
  have here: "at_or_better sd (so_price (ord g)) ?p" if "g \<in> set (qs ! k)" for g
    using pr [OF k that] by (cases sd) (simp_all add: at_or_better_def)
  have qs: "qs = take k qs @ qs ! k # drop (Suc k) qs" by (rule id_take_nth_drop [OF k])
  have e: "concat (rev qs) = (concat (rev (drop (Suc k) qs)) @ qs ! k) @ concat (rev (take k qs))"
    using arg_cong [OF qs, of "\<lambda>x. concat (rev x)"] by (simp only: rev_append rev.simps concat_append concat.simps append_assoc append.simps append_Nil2)
  have e': "concat (rev (qs[k := qs ! k @ [h]])) = (concat (rev (drop (Suc k) qs)) @ qs ! k) @ h # concat (rev (take k qs))"
    using k by (simp add: upd_conv_take_nth_drop)
  show ?thesis unfolding behind_def e e'
    by (rule exI [of _ "concat (rev (drop (Suc k) qs)) @ qs ! k"], rule exI [of _ "concat (rev (take k qs))"])
      (use up down here in auto)
qed

text \<open>The order rests, or the side has no room for its level and it is rejected.\<close>

lemma rest_cases:
  assumes rep: "me_rep (insert h X) s Q" and hX: "h \<notin> X" and i: "i < me_count s"
    and od: "so_instrument (me_order s h) = i" "so_side (me_order s h) = sd" "so_price (me_order s h) = p"
      "0 \<le> so_cum_qty (me_order s h)" "so_cum_qty (me_order s h) < so_qty (me_order s h)"
    and ne: "no_empty s Q" and ao: "all_open s Q"
  obtains (full) n f where "rest h s = free_order h (emit (OnReject n VenueReject (so_created (me_order s h))) (upd_mstats f s))"
  | (rested) Q' x u where "me_rep X (rest h s) Q'" "no_empty (rest h s) Q'" "all_open (rest h s) Q'"
      "\<And>g. so_data (me_order (rest h s) g) = so_data (me_order s g)"
      "me_log (rest h s) = OnBookChange i sd p x u # me_log s" "me_live (rest h s) = me_live s"
      "me_count (rest h s) = me_count s" "me_sink (rest h s) = me_sink s" "me_stp (rest h s) = me_stp s"
      "me_ledgers (rest h s) = me_ledgers s" "me_next_order_id (rest h s) = me_next_order_id s"
      "\<And>j sd'. \<not> (j = i \<and> sd' = sd) \<Longrightarrow> me_levels (rest h s) j sd' = me_levels s j sd' \<and> Q' j sd' = Q j sd'"
      "pv_price ` set (me_levels (rest h s) i sd) \<subseteq> insert p (pv_price ` set (me_levels s i sd))"
      "feed_ok s \<Longrightarrow> feed_ok (rest h s)" "behind sd (me_order s) p h (prio Q i sd) (prio Q' i sd)"
proof -
  have b: "best_last sd (sb_levels (me_books s i) sd)"
    using me_repD(4) [OF rep i, of sd] by (simp add: side_ok_def me_levels_def)
  note rest = rest_eq [OF od(1-3)]
  text \<open>both ways to find the level\<close>
  have go: thesis if r: "rest h s = book_changed i sd k (link_tail h i sd k s1)"
    and s1: "me_rep (insert h X) s1 Q1" "k < length (Q1 i sd)" "pv_price (me_levels s1 i sd ! k) = p" "queued s1 Q1 = queued s Q"
      "\<And>q. q \<in> set ((Q1 i sd)[k := Q1 i sd ! k @ [h]]) \<Longrightarrow> q \<noteq> []"
      "\<And>j sd'. \<not> (j = i \<and> sd' = sd) \<Longrightarrow> me_levels s1 j sd' = me_levels s j sd' \<and> Q1 j sd' = Q j sd'"
      "pv_price ` set (me_levels s1 i sd) = insert p (pv_price ` set (me_levels s i sd))"
      "\<And>p'. p' \<noteq> p \<Longrightarrow> qty_at (me_levels s1 i sd) p' = qty_at (me_levels s i sd) p'"
      "me_order s1 = me_order s" "me_log s1 = me_log s" "me_pool s1 = me_pool s" "me_count s1 = me_count s" "me_sink s1 = me_sink s"
      "me_stp s1 = me_stp s" "me_ledgers s1 = me_ledgers s" "me_next_order_id s1 = me_next_order_id s"
      "prio Q1 i sd = prio Q i sd" for s1 Q1 k
  proof -
    let ?s2 = "link_tail h i sd k s1" and ?Q' = "set_queues i sd ((Q1 i sd)[k := Q1 i sd ! k @ [h]]) Q1"
    have i1: "i < me_count s1" using i s1(12) by simp
    note T = link_tail_rep [OF s1(1) hX i1 s1(2) _ _ _ _ _ refl, unfolded s1(9), OF od(1,2) _ od(4)]
    have cq: "so_cum_qty (me_order s h) \<le> so_qty (me_order s h)" using od(5) by simp
    note T = T [OF od(3) [folded s1(3)] cq]
    obtain l where l: "me_levels ?s2 = (\<lambda>j sd'. if j = i \<and> sd' = sd then (me_levels s1 i sd)[k := l] else me_levels s1 j sd')"
      "pv_price l = pv_price (me_levels s1 i sd ! k)" using T(3) by blast
    have kv: "k < length (me_levels s1 i sd)" using side_okD(2) [OF me_repD(4) [OF s1(1) i1] s1(2)] .
    have q2: "queued ?s2 ?Q' = insert h (queued s Q)"
    proof -
      have "set (Q1 i sd ! k) \<subseteq> queued s1 Q1" using i1 s1(2) queuedI [of i s1 _ Q1 sd] in_concat_nth [of _ "Q1 i sd"] by blast
      then show ?thesis using queued_upd [OF s1(1) i1 s1(2), of ?s2 "Q1 i sd ! k @ [h]"] s1(4) by auto
    qed
    have qr: "queued (rest h s) ?Q' = insert h (queued s Q)" using q2 unfolding r by (simp add: queued_def)
    show thesis
    proof (rule rested [of ?Q' "pv_qty (me_levels ?s2 i sd ! k)" "Suc (sb_update_id (me_books ?s2 i))"])
      show "me_rep X (rest h s) ?Q'" unfolding r using T(1) by simp
      show "no_empty (rest h s) ?Q'"
        unfolding no_empty_def
      proof (intro allI impI)
        fix j sd' assume "j < me_count (rest h s)"
        then have "j < me_count s" unfolding r using s1(12) by simp
        then show "[] \<notin> set (?Q' j sd')" using ne s1(5,6) unfolding no_empty_def by (cases "j = i \<and> sd' = sd") auto
      qed
      show dt: "so_data (me_order (rest h s) g) = so_data (me_order s g)" for g unfolding r using T(2) by simp
      show "all_open (rest h s) ?Q'"
        unfolding all_open_def qr so_dataD(13) [OF dt] using ao od(5) by (auto simp: all_open_def so_leaves_def)
      have lx: "pv_price (me_levels ?s2 i sd ! k) = p" using l kv s1(3) by simp
      show "me_log (rest h s) = OnBookChange i sd p (pv_qty (me_levels ?s2 i sd ! k)) (Suc (sb_update_id (me_books ?s2 i))) # me_log s"
        unfolding r using s1(10) lx by simp
      show "me_live (rest h s) = me_live s" "me_count (rest h s) = me_count s" "me_sink (rest h s) = me_sink s"
        "me_stp (rest h s) = me_stp s" "me_ledgers (rest h s) = me_ledgers s" "me_next_order_id (rest h s) = me_next_order_id s"
        unfolding r using s1(11-16) by simp_all
      show "me_levels (rest h s) j sd' = me_levels s j sd' \<and> ?Q' j sd' = Q j sd'" if "\<not> (j = i \<and> sd' = sd)" for j sd'
        using s1(6) [OF that] that unfolding r by (auto simp: l(1))
      show "pv_price ` set (me_levels (rest h s) i sd) \<subseteq> insert p (pv_price ` set (me_levels s i sd))"
        using set_update_subset_insert [of "me_levels s1 i sd" k l] l(2) s1(3,7) unfolding r by (auto simp: l(1))
      show "behind sd (me_order s) p h (prio Q i sd) (prio ?Q' i sd)"
        using tail_behind [OF me_repD(4) [OF s1(1) i1] s1(2), of h] s1(3,9,17) by (simp add: prio_def)
      show "feed_ok (rest h s)" if f: "feed_ok s"
      proof (rule feed_step [OF f, where evs = "[]"])
        show "me_log (rest h s) = OnBookChange i sd p (pv_qty (me_levels ?s2 i sd ! k)) (Suc (sb_update_id (me_books ?s2 i))) # [] @ me_log s"
          unfolding r using s1(10) lx by simp
        show "qty_at (me_levels (rest h s) j sd') p' = qty_at (me_levels s j sd') p'"
          if n: "\<not> (j = i \<and> sd' = sd \<and> p' = p)" for j sd' p'
          using n s1(6,8) l s1(3) qty_at_update [of l "me_levels s1 i sd" k p'] unfolding r
          by (cases "j = i \<and> sd' = sd") auto
        have "best_last sd (me_levels ?s2 i sd)" using me_repD(4) [OF T(1), of i sd] i1 by (simp add: side_ok_def)
        then show "qty_at (me_levels (rest h s) i sd) p = pv_qty (me_levels ?s2 i sd ! k)"
          using qty_at_nth(1) [of sd "me_levels ?s2 i sd" k] lx kv unfolding r by (simp add: l(1))
      qed (simp_all add: r s1(12))
    qed
  qed
  show thesis
  proof (cases rule: sb_find_or_insert_cases [OF b, of p])
    case (1 k)
    have e: "set_book i (me_books s i) s = s" by (simp add: set_book_def)
    have kv: "k < length (me_levels s i sd)" "pv_price (me_levels s i sd ! k) = p" using 1 by (simp_all add: me_levels_def)
    have kq: "k < length (Q i sd)" using kv side_ok_length [OF me_repD(4) [OF rep i, of sd]] by simp
    show thesis
    proof (rule go [of k s Q])
      show "q \<noteq> []" if "q \<in> set ((Q i sd)[k := Q i sd ! k @ [h]])" for q
        using that ne i set_update_subset_insert [of "Q i sd" k "Q i sd ! k @ [h]"] unfolding no_empty_def by auto
      show "pv_price ` set (me_levels s i sd) = insert p (pv_price ` set (me_levels s i sd))"
        using kv nth_mem [OF kv(1)] by auto
    qed (use rest 1 e rep kv kq in simp_all)
  next
    case 2
    then show thesis using full rest by simp
  next
    case (3 k v)
    define s1 where "s1 = set_book i (sb_set_levels sd v (me_books s i)) s"
    have v: "v = take k (me_levels s i sd) @ empty_level p # drop k (me_levels s i sd)" using 3(2) by (simp add: me_levels_def)
    have len: "length (me_levels s i sd) \<noteq> kMaxSimLevels" "k \<le> length (me_levels s i sd)" using 3(4,5) by (simp_all add: me_levels_def)
    note I = insert_level [OF rep i v 3(3) len(1) s1_def]
    have lq: "length (Q i sd) = length (me_levels s i sd)" using side_ok_length [OF me_repD(4) [OF rep i, of sd]] .
    let ?Q1 = "set_queues i sd (take k (Q i sd) @ [] # drop k (Q i sd)) Q"
    show thesis
    proof (rule go [of k s1 ?Q1])
      show "rest h s = book_changed i sd k (link_tail h i sd k s1)" using rest 3(1) s1_def by simp
      show "me_rep (insert h X) s1 ?Q1" "queued s1 ?Q1 = queued s Q" by (rule I)+
      show "k < length (?Q1 i sd)" using len lq by simp
      show "pv_price (me_levels s1 i sd ! k) = p" unfolding I(3) using v len(2) by (simp add: nth_append empty_level_def)
      show "q \<noteq> []" if "q \<in> set ((?Q1 i sd)[k := ?Q1 i sd ! k @ [h]])" for q
      proof -
        have "(?Q1 i sd)[k := ?Q1 i sd ! k @ [h]] = take k (Q i sd) @ [h] # drop k (Q i sd)"
          using len(2) lq by (simp add: nth_append list_update_append)
        then have "q = [h] \<or> q \<in> set (Q i sd)" using that by (auto dest: in_set_takeD in_set_dropD)
        moreover have "[] \<notin> set (Q i sd)" using ne i unfolding no_empty_def by blast
        ultimately show ?thesis by auto
      qed
      show "me_levels s1 j sd' = me_levels s j sd' \<and> ?Q1 j sd' = Q j sd'" if "\<not> (j = i \<and> sd' = sd)" for j sd'
        using that unfolding I(3) by auto
      have "set (take k (me_levels s i sd)) \<union> set (drop k (me_levels s i sd)) = set (me_levels s i sd)"
        by (metis append_take_drop_id set_append)
      then show "pv_price ` set (me_levels s1 i sd) = insert p (pv_price ` set (me_levels s i sd))"
        unfolding I(3) v by (auto simp: empty_level_def)
      show "qty_at (me_levels s1 i sd) p' = qty_at (me_levels s i sd) p'" if "p' \<noteq> p" for p'
      proof -
        have "qty_at (me_levels s i sd) p' = qty_at (take k (me_levels s i sd) @ drop k (me_levels s i sd)) p'" by simp
        then show ?thesis unfolding I(3) v using that by (simp add: qty_at_def empty_level_def del: append_take_drop_id)
      qed
      show "prio ?Q1 i sd = prio Q i sd"
        unfolding prio_def set_queues_apply using arg_cong [OF append_take_drop_id [of k "Q i sd"], of "\<lambda>x. concat (rev x)"]
        by (simp del: append_take_drop_id)
    qed (simp_all add: s1_def)
  qed
qed

section \<open>The state between operations\<close>

definition me_good :: "matching_engine \<Rightarrow> (instrument_id \<Rightarrow> side \<Rightarrow> nat list list) \<Rightarrow> bool" where
  "me_good s Q \<longleftrightarrow> me_rep {} s Q \<and> no_empty s Q \<and> all_open s Q"

lemma me_inv_good: "me_inv s \<longleftrightarrow> uncrossed s \<and> (\<exists>Q. me_good s Q)"
  by (simp add: me_inv_def me_good_def)

lemma me_good_cong:
  assumes "me_pool s' = me_pool s" "me_by_key s' = me_by_key s" "me_count s' = me_count s" "me_levels s' = me_levels s"
    "me_next_order_id s' = me_next_order_id s"
  shows "me_good s' Q = me_good s Q"
proof -
  have "me_order s' = me_order s" using assms(1) by (simp add: me_order_def fun_eq_iff)
  then show ?thesis
    using me_rep_cong [OF assms] assms by (simp add: me_good_def no_empty_def all_open_def queued_def)
qed

lemma me_good_neutral [simp]:
  "me_good (emit e s) Q = me_good s Q" "me_good (upd_mstats f s) Q = me_good s Q" "me_good (count_expired s) Q = me_good s Q"
  by (rule me_good_cong; simp)+

lemma uncrossed_mono:
  assumes "uncrossed s" "me_count s' = me_count s"
    and "\<And>i sd. i < me_count s \<Longrightarrow> pv_price ` set (me_levels s' i sd) \<subseteq> pv_price ` set (me_levels s i sd)"
  shows "uncrossed s'"
  unfolding uncrossed_def
proof (intro allI impI ballI)
  fix i b a assume i: "i < me_count s'" and b: "b \<in> set (me_levels s' i Buy)" and a: "a \<in> set (me_levels s' i Sell)"
  have ic: "i < me_count s" using i assms(2) by simp
  obtain b' where b': "b' \<in> set (me_levels s i Buy)" "pv_price b = pv_price b'" using assms(3) [OF ic, of Buy] b by blast
  obtain a' where a': "a' \<in> set (me_levels s i Sell)" "pv_price a = pv_price a'" using assms(3) [OF ic, of Sell] a by blast
  show "pv_price b < pv_price a" using assms(1) ic b' a' unfolding uncrossed_def by auto
qed

section \<open>A resting order is removed\<close>

lemma resting_place:
  assumes "me_good s Q" "h \<in> me_live s"
  obtains k xs ys where "so_instrument (me_order s h) < me_count s" "k < length (Q (so_instrument (me_order s h)) (so_side (me_order s h)))"
    "Q (so_instrument (me_order s h)) (so_side (me_order s h)) ! k = xs @ h # ys"
    "pv_price (me_levels s (so_instrument (me_order s h)) (so_side (me_order s h)) ! k) = so_price (me_order s h)"
    "sb_find (me_books s (so_instrument (me_order s h))) (so_side (me_order s h)) (so_price (me_order s h)) = Some k"
proof -
  have rep: "me_rep {} s Q" using assms(1) by (simp add: me_good_def)
  have "h \<in> queued s Q" using me_repD(5) [OF rep] assms(2) by simp
  then obtain i sd k where c: "i < me_count s" "k < length (Q i sd)" "k < length (me_levels s i sd)" "h \<in> set (Q i sd ! k)"
    "so_instrument (me_order s h) = i" "so_side (me_order s h) = sd" "so_price (me_order s h) = pv_price (me_levels s i sd ! k)"
    by (rule queued_cases [OF rep]) blast
  obtain xs ys where sp: "Q i sd ! k = xs @ h # ys" using c(4) by (metis split_list)
  have "best_last sd (sb_levels (me_books s i) sd)" using me_repD(4) [OF rep c(1), of sd] by (simp add: side_ok_def me_levels_def)
  then have "sb_find (me_books s i) sd (so_price (me_order s h)) = Some k"
    using sb_find_Some c(3,7) by (simp add: me_levels_def)
  then show thesis using that c sp by simp
qed

lemma remove_resting_good:
  assumes good: "me_good s Q" and h: "h \<in> me_live s" and i: "i = so_instrument (me_order s h)" and sd: "sd = so_side (me_order s h)"
    and s': "s' = remove_resting h why now s"
  obtains Q' od x u where "me_good s' Q'" "me_live s' = me_live s - {h}"
    "\<And>g. g \<noteq> h \<Longrightarrow> so_data (me_order s' g) = so_data (me_order s g)"
    "so_data od = so_data (me_order s h)"
    "me_log s' = OnCancel od why now # OnBookChange i sd (so_price (me_order s h)) x u # me_log s"
    "me_count s' = me_count s" "me_sink s' = me_sink s" "me_stp s' = me_stp s" "me_ledgers s' = me_ledgers s"
    "me_next_order_id s' = me_next_order_id s"
    "\<And>j sd'. \<not> (j = i \<and> sd' = sd) \<Longrightarrow> Q' j sd' = Q j sd' \<and> me_levels s' j sd' = me_levels s j sd'"
    "prio Q' i sd = filter (\<lambda>g. g \<noteq> h) (prio Q i sd)"
    "pv_price ` set (me_levels s' i sd) \<subseteq> pv_price ` set (me_levels s i sd)"
    "feed_ok s \<Longrightarrow> feed_ok s'" "i < me_count s" "h \<in> set (prio Q i sd)"
proof -
  have rep: "me_rep {} s Q" "no_empty s Q" "all_open s Q" using good by (simp_all add: me_good_def)
  obtain k xs ys where K: "i < me_count s" "k < length (Q i sd)" "Q i sd ! k = xs @ h # ys"
    "pv_price (me_levels s i sd ! k) = so_price (me_order s h)"
    "sb_find (me_books s i) sd (so_price (me_order s h)) = Some k"
    using resting_place [OF good h] unfolding i sd by metis
  define s2 where "s2 = unlink h i sd k (upd_level i sd k (\<lambda>l. l\<lparr>pv_qty := pv_qty l - so_leaves (me_order s h)\<rparr>) s)"
  define s3 where "s3 = close_level i sd k (so_price (me_order s h)) s2"
  let ?Q1 = "set_queues i sd ((Q i sd)[k := xs @ ys]) Q"
  define Q' where "Q' = set_queues i sd (close_queues k (?Q1 i sd)) ?Q1"
  have eq: "s' = free_order h (emit (OnCancel (me_order s3 h) why now) s3)"
    unfolding s' remove_resting_def Let_def i [symmetric] sd [symmetric] K(5) s3_def close_level_def s2_def by simp
  note T = take_out [OF rep(1) K(1-3) s2_def]
  have c2: "me_count s2 = me_count s" unfolding s2_def by simp
  have i2: "i < me_count s2" using K(1) c2 by simp
  have k2: "k < length (?Q1 i sd)" using K(2) by simp
  note C = close_level [where Q = ?Q1, OF T(1) i2 k2 s3_def, folded Q'_def]
  have o3: "me_order s3 = me_order s2" "me_live s3 = me_live s" "me_count s3 = me_count s" unfolding s3_def using T(4) c2 by simp_all
  have r3: "me_rep (insert h {}) (emit (OnCancel (me_order s3 h) why now) s3) Q'" using C(1) by simp
  note F = release [OF r3, simplified, folded eq]
  have live: "me_live s' = me_live s - {h}" using F(2) o3(2) by simp
  have data: "so_data (me_order s' g) = so_data (me_order s g)" if "g \<noteq> h" for g
    unfolding eq using T(2) [of g] that o3(1) by simp
  have fr: "me_count s' = me_count s" "me_sink s' = me_sink s" "me_stp s' = me_stp s" "me_ledgers s' = me_ledgers s"
    "me_next_order_id s' = me_next_order_id s" unfolding eq s3_def s2_def by simp_all
  have lv: "me_levels s' = me_levels s3" unfolding eq by simp
  have qd: "queued s3 Q' = queued s Q - {h}"
  proof -
    have "queued s2 ?Q1 = queued s Q - set (xs @ h # ys) \<union> set (xs @ ys)"
      using queued_upd [OF rep(1) K(1,2) c2, of "xs @ ys"] K(3) by simp
    moreover have "distinct (xs @ h # ys)" "set (xs @ h # ys) \<subseteq> queued s Q"
      using queue_okD(1) [OF member_split(6) [OF rep(1) K(1-3)]] member_split(7) [OF rep(1) K(1-3)] by auto
    ultimately show ?thesis using C(2) by auto
  qed
  have qd': "queued s' Q' = queued s Q - {h}" using qd unfolding queued_def fr(1) o3(3) .
  have "no_empty s' Q'"
    unfolding no_empty_def
  proof (intro allI impI)
    fix j sd' assume "j < me_count s'"
    then have j: "[] \<notin> set (Q j sd')" using rep(2) fr(1) unfolding no_empty_def by simp
    show "[] \<notin> set (Q' j sd')"
    proof (cases "j = i \<and> sd' = sd")
      case False
      then show ?thesis using j unfolding Q'_def by auto
    next
      case True
      have "set (take k (Q i sd) @ drop (Suc k) (Q i sd)) \<subseteq> set (Q i sd)" by (auto dest: in_set_takeD in_set_dropD)
      moreover have "set ((Q i sd)[k := xs @ ys]) \<subseteq> insert (xs @ ys) (set (Q i sd))" by (rule set_update_subset_insert)
      ultimately show ?thesis using j True K(2) unfolding Q'_def close_queues_def by auto
    qed
  qed
  moreover have "all_open s' Q'"
    unfolding all_open_def qd' using rep(3) so_dataD(13) [OF data] by (auto simp: all_open_def)
  ultimately have good': "me_good s' Q'" using F(1) by (simp add: me_good_def)
  have pr: "prio Q' i sd = filter (\<lambda>g. g \<noteq> h) (prio Q i sd)"
  proof -
    have q: "Q i sd = take k (Q i sd) @ (xs @ h # ys) # drop (Suc k) (Q i sd)" using id_take_nth_drop [OF K(2)] K(3) by simp
    have p: "prio Q i sd = concat (rev (drop (Suc k) (Q i sd))) @ xs @ h # ys @ concat (rev (take k (Q i sd)))"
      using arg_cong [OF q, of "\<lambda>x. concat (rev x)"] by (simp add: prio_def)
    have "distinct (prio Q i sd)" by (rule distinct_prio [OF rep(1) K(1)])
    then have "filter (\<lambda>g. g \<noteq> h) (prio Q i sd) = concat (rev (drop (Suc k) (Q i sd))) @ xs @ ys @ concat (rev (take k (Q i sd)))"
      using filter_remove1 [of "concat (rev (drop (Suc k) (Q i sd))) @ xs" h "ys @ concat (rev (take k (Q i sd)))" UNIV]
      unfolding p by simp
    moreover have "prio Q' i sd = concat (rev (drop (Suc k) (Q i sd))) @ xs @ ys @ concat (rev (take k (Q i sd)))"
      using K(2) unfolding Q'_def prio_def close_queues_def by (auto simp: upd_conv_take_nth_drop nth_append)
    ultimately show ?thesis by simp
  qed
  have pv: "pv_price ` set (me_levels s' i sd) \<subseteq> pv_price ` set (me_levels s i sd)"
  proof -
    have "pv_price ` set (me_levels s3 i sd) \<subseteq> pv_price ` set (me_levels s2 i sd)"
      unfolding C(3) by (auto dest: in_set_takeD in_set_dropD)
    moreover have "pv_price ` set (me_levels s2 i sd) = pv_price ` set (me_levels s i sd)"
      using arg_cong [OF T(6) [of i sd], of set] by simp
    ultimately show ?thesis unfolding lv by simp
  qed
  have kv: "k < length (me_levels s i sd)" by (rule member_split(5) [OF rep(1) K(1-3)])
  obtain l where l: "me_levels s2 i sd = (me_levels s i sd)[k := l]" "pv_price l = pv_price (me_levels s i sd ! k)" using T(9) by blast
  have px2: "so_price (me_order s h) = pv_price (me_levels s2 i sd ! k)" using l kv K(4) by simp
  have lg: "me_log s' = OnCancel (me_order s3 h) why now # OnBookChange i sd (so_price (me_order s h))
      (if xs @ ys = [] then 0 else pv_qty (me_levels s2 i sd ! k)) (Suc (sb_update_id (me_books s2 i))) # me_log s"
    unfolding eq using C(5) K(2) px2 by (simp add: s2_def)
  have fd: "feed_ok s'" if f: "feed_ok s"
  proof -
    have "feed_ok s3"
    proof (rule feed_close [of "insert h {}" s2 ?Q1 i k sd, OF T(1) i2 k2 px2 s3_def])
      fix j sd' p assume j: "j < me_count s2" and n: "\<not> (j = i \<and> sd' = sd \<and> p = so_price (me_order s h))"
      have "feed_qty (me_log s2) j sd' p = qty_at (me_levels s j sd') p"
        using f j c2 unfolding feed_ok_def s2_def by simp
      also have "\<dots> = qty_at (me_levels s2 j sd') p"
        using n l K(4) T(8) [of j sd'] qty_at_update [of l "me_levels s i sd" k p] by (cases "j = i \<and> sd' = sd") auto
      finally show "feed_qty (me_log s2) j sd' p = qty_at (me_levels s2 j sd') p" .
    qed
    then show "feed_ok s'" by (rule feed_keep [where evs = "[OnCancel (me_order s3 h) why now]"]) (simp_all add: eq)
  qed
  have hp: "h \<in> set (prio Q i sd)" using K(3) nth_mem [OF K(2)] unfolding prio_def by (force intro: bexI [of _ "Q i sd ! k"])
  show thesis
  proof (rule that [OF good' live data _ lg fr])
    show "so_data (me_order s3 h) = so_data (me_order s h)" using T(2) o3(1) by simp
    show "Q' j sd' = Q j sd' \<and> me_levels s' j sd' = me_levels s j sd'" if "\<not> (j = i \<and> sd' = sd)" for j sd'
      using that C(4) [OF that] T(8) [OF that] unfolding lv Q'_def by auto
  qed (use pr pv fd K(1) hp in auto)
qed

section \<open>An order enters\<close>

lemma make_sim_order_simps [simp]:
  "so_order_id (make_sim_order od n now) = n" "so_cl_ord_id (make_sim_order od n now) = no_cl_ord_id od"
  "so_qty (make_sim_order od n now) = no_qty od" "so_cum_qty (make_sim_order od n now) = 0"
  "so_instrument (make_sim_order od n now) = no_instrument od" "so_account (make_sim_order od n now) = no_account od"
  "so_side (make_sim_order od n now) = no_side od" "so_type (make_sim_order od n now) = no_type od"
  "so_reduce_only (make_sim_order od n now) = no_reduce_only od" "so_leaves (make_sim_order od n now) = no_qty od"
  "so_price (make_sim_order od n now) = (if no_type od = Market then 0 else no_price od)"
  "so_tif (make_sim_order od n now) = (if no_type od = Market then Ioc else no_tif od)"
  by (simp_all add: make_sim_order_def sim_order_zero_def so_leaves_def)

lemma key_card:
  assumes "me_rep X s Q"
  shows "ohm_size (me_by_key s) \<le> card (me_live s)"
proof -
  note R = me_repD [OF assms]
  let ?f = "ohm_find (me_by_key s)"
  have "inj_on (\<lambda>k. the (?f k)) (dom ?f)"
  proof (rule inj_onI)
    fix a b assume a: "a \<in> dom ?f" "b \<in> dom ?f" "the (?f a) = the (?f b)"
    then show "a = b" using R(7) by (metis domIff option.exhaust_sel)
  qed
  moreover have "(\<lambda>k. the (?f k)) ` dom ?f \<subseteq> me_live s"
    using R(7) by (metis (no_types, lifting) domIff image_subsetI option.exhaust_sel)
  ultimately have "card (dom ?f) \<le> card (me_live s)" by (rule card_inj_on_le) simp
  then show ?thesis using ohm_size_dom [OF R(2)] by simp
qed

lemma enter_rep:
  assumes good: "me_good s Q" and a: "pool_allocate (me_pool s) = (p, h)" "h \<noteq> kNullHandle"
    and new: "\<not> ohm_contains (me_by_key s) (me_key (no_account od) (no_cl_ord_id od))"
    and s': "s' = enter_order od h now (s\<lparr>me_pool := p\<rparr>)"
  shows "me_rep {h} s' Q" "h \<notin> me_live s" "me_live s' = insert h (me_live s)"
    "me_order s' = (me_order s)(h := make_sim_order od (me_next_order_id s) now)" "me_levels s' = me_levels s"
    "me_log s' = OnAck (make_sim_order od (me_next_order_id s) now) now # me_log s"
    "me_count s' = me_count s" "me_sink s' = me_sink s" "me_stp s' = me_stp s" "me_ledgers s' = me_ledgers s"
    "me_next_order_id s' = Suc (me_next_order_id s)" "queued s' Q = queued s Q"
proof -
  have rep: "me_rep {} s Q" using good by (simp add: me_good_def)
  note R = me_repD [OF rep]
  let ?x = "make_sim_order od (me_next_order_id s) now" and ?k = "me_key (no_account od) (no_cl_ord_id od)"
  note A = pool.alloc_put [OF R(1) a, of ?x]
  show hn: "h \<notin> me_live s" using A by blast
  have "card (me_live s) < pl_capacity (me_pool s)" using pool.alloc_succeeds [OF R(1) a(1)] a(2) by simp
  then have room: "ohm_size (me_by_key s) < kMaxSize (2 ^ ohm_bits (me_by_key s))" using key_card [OF rep] R(3) by simp
  have nk: "ohm_find (me_by_key s) ?k = None" using new by (simp add: ohm_contains_def)
  obtain m j where m: "ohm_insert (me_by_key s) ?k h = (m, Some j, True)" "ohm_inv m"
    "ohm_find m = (ohm_find (me_by_key s))(?k \<mapsto> h)" "ohm_bits m = ohm_bits (me_by_key s)"
    by (rule ohm_insert_new [OF R(2) nk room, of h]) blast
  have pool: "me_pool s' = pool_put p h ?x" and key: "me_by_key s' = m"
    unfolding s' enter_order_def Let_def using m(1) by simp_all
  show fr: "me_levels s' = me_levels s" "me_log s' = OnAck ?x now # me_log s"
    "me_count s' = me_count s" "me_sink s' = me_sink s" "me_stp s' = me_stp s" "me_ledgers s' = me_ledgers s"
    "me_next_order_id s' = Suc (me_next_order_id s)"
    unfolding s' enter_order_def Let_def by (simp_all add: me_levels_def fun_eq_iff)
  show ord: "me_order s' = (me_order s)(h := ?x)"
    using A by (auto simp: me_order_def pool fun_eq_iff)
  show live: "me_live s' = insert h (me_live s)" using A pool by simp
  show q: "queued s' Q = queued s Q" by (simp add: queued_def fr(3))
  have hq: "h \<notin> queued s Q" using hn R(5) by simp
  have "side_ok (me_order s') i sd (me_levels s' i sd) (Q i sd)" if i: "i < me_count s" for i sd
  proof -
    have "me_order s' g = me_order s g" if "g \<in> set (concat (Q i sd))" for g
      using queuedI [where Q = Q and sd = sd, OF i that] hq unfolding ord by auto
    then show ?thesis using R(4) [OF i, of sd] side_ok_cong [of "Q i sd" "me_order s'"] fr(1) by simp
  qed
  moreover have "ohm_find m k = Some g \<longleftrightarrow> g \<in> insert h (me_live s) \<and> order_key (me_order s' g) = k" for k g
  proof (cases "g = h")
    case True
    have "ohm_find (me_by_key s) k \<noteq> Some h" using R(7) [of k h] hn by simp
    then show ?thesis unfolding m(3) ord True by (auto simp: order_key_def)
  next
    case False
    then show ?thesis using R(7) [of k g] nk unfolding m(3) ord by auto
  qed
  moreover have "inj_on (\<lambda>g. so_order_id (me_order s' g)) (insert h (me_live s))"
  proof -
    have n: "so_order_id (me_order s g) \<noteq> me_next_order_id s" if "g \<in> me_live s" for g
      using R(9) [OF that] by simp
    have "inj_on (\<lambda>g. so_order_id (me_order s' g)) (me_live s)" using R(8) hn unfolding ord by (auto simp: inj_on_def)
    moreover have "so_order_id (me_order s' h) \<notin> (\<lambda>g. so_order_id (me_order s' g)) ` (me_live s - {h})"
      using n unfolding ord by (auto dest: sym)
    ultimately show ?thesis by simp
  qed
  moreover have "\<forall>g\<in>insert h (me_live s). so_order_id (me_order s' g) < Suc (me_next_order_id s)"
    using R(9) unfolding ord by (auto intro: less_SucI)
  moreover have "pool_inv (me_pool s')" "pl_capacity (me_pool s') = pl_capacity (me_pool s)" using A pool by simp_all
  ultimately show "me_rep {h} s' Q"
    using R(3,5) m(2,4) hq unfolding me_rep_def key q live fr(3,7) by simp
qed

text \<open>An order that is in no queue leaves: the rest of the engine is as before.\<close>

lemma leave_good:
  assumes "me_rep {h} s Q" "no_empty s Q" "all_open s Q"
  shows "me_good (free_order h s) Q" "me_live (free_order h s) = me_live s - {h}"
proof -
  have r: "me_rep (insert h {}) s Q" using assms(1) by simp
  have hq: "h \<notin> queued s Q" using me_repD(6) [OF assms(1)] by auto
  note F = release [OF r]
  show "me_live (free_order h s) = me_live s - {h}" using F by simp
  show "me_good (free_order h s) Q"
    using F(1) assms(2,3) hq unfolding me_good_def no_empty_def all_open_def queued_def by auto
qed

section \<open>The fill-or-kill check\<close>

lemma avail_none: "avail StpNone a (xs @ ys) = (\<Sum>m\<leftarrow>xs. so_leaves m) + avail StpNone a ys"
  by (induction xs) auto

lemma taker_crosses_side:
  "so_side t = opposite sd \<Longrightarrow> taker_crosses t p \<longleftrightarrow> so_type t = Market \<or> at_or_better sd p (so_price t)"
  by (cases sd) (auto simp: taker_crosses_def crosses_def at_or_better_def)

text \<open>Orders of the queues of the first \<open>n\<close> levels, the best first, that the taker crosses.\<close>

definition crossing :: "sim_order \<Rightarrow> (nat \<Rightarrow> sim_order) \<Rightarrow> nat list list \<Rightarrow> sim_order list" where
  "crossing t ord qs = map ord (filter (\<lambda>g. taker_crosses t (so_price (ord g))) (concat (rev qs)))"

lemma crossing_take:
  assumes "side_ok ord i sd v qs" "n < length qs"
  shows "crossing t ord (take (Suc n) qs) =
    (if taker_crosses t (pv_price (v ! n)) then map ord (qs ! n) else []) @ crossing t ord (take n qs)"
proof -
  note q = queue_okD(5) [OF side_okD(1) [OF assms]]
  have "filter (\<lambda>g. taker_crosses t (so_price (ord g))) (qs ! n) = (if taker_crosses t (pv_price (v ! n)) then qs ! n else [])"
    using q by (auto simp: filter_empty_conv intro!: filter_True)
  then show ?thesis unfolding crossing_def take_Suc_conv_app_nth [OF assms(2)] by simp
qed

lemma crossing_open:
  assumes "\<And>h. h \<in> set (concat qs) \<Longrightarrow> 0 \<le> so_leaves (ord h)"
  shows "0 \<le> avail mode a (crossing t ord (take n qs))"
proof (rule avail_nonneg)
  fix m assume "m \<in> set (crossing t ord (take n qs))"
  then show "0 \<le> so_leaves m" using assms unfolding crossing_def by (auto dest: in_set_takeD)
qed

lemma sb_sum_avail:
  assumes ok: "side_ok ord i sd v qs" and t: "so_side t = opposite sd"
    and opn: "\<And>h. h \<in> set (concat qs) \<Longrightarrow> 0 \<le> so_leaves (ord h)"
  shows "n \<le> length qs \<Longrightarrow> sb_sum sd (so_price t) (so_type t = Market) v n acc \<le> acc + avail StpNone a (crossing t ord (take n qs))"
proof (induction n arbitrary: acc)
  case (Suc n)
  show ?case
  proof (cases "taker_crosses t (pv_price (v ! n))")
    case True
    have "sb_sum sd (so_price t) (so_type t = Market) v (Suc n) acc =
        sb_sum sd (so_price t) (so_type t = Market) v n (acc + pv_qty (v ! n))"
      using True taker_crosses_side [OF t, of "pv_price (v ! n)"] by auto
    also have "\<dots> \<le> acc + pv_qty (v ! n) + avail StpNone a (crossing t ord (take n qs))"
      using Suc by simp
    also have "pv_qty (v ! n) = (\<Sum>m\<leftarrow>map ord (qs ! n). so_leaves m)"
      using queue_okD(4) [OF side_okD(1) [OF ok, of n]] Suc.prems by (simp add: comp_def)
    finally show ?thesis
      using crossing_take [OF ok, of n t] Suc.prems True by (simp add: avail_none comp_def)
  next
    case False
    then show ?thesis
      using crossing_open [of qs ord StpNone a t "Suc n", OF opn] taker_crosses_side [OF t, of "pv_price (v ! n)"] by simp
  qed
qed (simp add: crossing_def)

lemma fillable_queue_total:
  assumes "lseg (me_order s) p idx q u kNullHandle"
    and "\<And>h. h \<in> set q \<Longrightarrow> 0 \<le> so_leaves (me_order s h)" "mode \<noteq> StpNone"
  shows "\<exists>acc' ret. fillable_queue s t mode idx acc = Some (acc', ret) \<and>
    (\<forall>ms. (\<forall>m\<in>set ms. 0 \<le> so_leaves m) \<longrightarrow>
       (if ret then acc' else acc' + avail mode (so_account t) ms) \<le> acc + avail mode (so_account t) (map (me_order s) q @ ms))"
  using assms(1,2)
proof (induction q arbitrary: p idx acc)
  case Nil
  then have "fillable_queue s t mode idx acc = Some (acc, False)" by (subst fillable_queue.simps) simp
  then show ?case by (intro exI [of _ acc] exI [of _ False]) simp
next
  case (Cons h q)
  let ?o = "me_order s h" and ?a = "so_account t"
  have idx: "idx = h" "h \<noteq> kNullHandle" "lseg (me_order s) h (so_next ?o) q u kNullHandle" using Cons.prems(1) by auto
  have nn: "0 \<le> avail mode ?a (map (me_order s) q @ ms)" if "\<forall>m\<in>set ms. 0 \<le> so_leaves m" for ms
    using Cons.prems(2) that by (intro avail_nonneg) auto
  have IH: "\<exists>acc' ret. fillable_queue s t mode (so_next ?o) acc1 = Some (acc', ret) \<and>
    (\<forall>ms. (\<forall>m\<in>set ms. 0 \<le> so_leaves m) \<longrightarrow>
       (if ret then acc' else acc' + avail mode ?a ms) \<le> acc1 + avail mode ?a (map (me_order s) q @ ms))" for acc1
    using Cons.IH [OF idx(3)] Cons.prems(2) by simp
  show ?case
  proof (cases "so_account ?o = ?a")
    case False
    have av: "avail mode ?a (map (me_order s) (h # q) @ ms) = so_leaves ?o + avail mode ?a (map (me_order s) q @ ms)" for ms
      using False by simp
    show ?thesis
    proof (cases "acc + so_leaves ?o \<ge> so_leaves t")
      case True
      then have "fillable_queue s t mode idx acc = Some (acc + so_leaves ?o, True)"
        using idx False by (subst fillable_queue.simps) (simp add: Let_def)
      moreover have "acc + so_leaves ?o \<le> acc + avail mode ?a (map (me_order s) (h # q) @ ms)" if "\<forall>m\<in>set ms. 0 \<le> so_leaves m" for ms
        using nn [OF that] unfolding av by simp
      ultimately show ?thesis by auto
    next
      case go: False
      have "fillable_queue s t mode idx acc = fillable_queue s t mode (so_next ?o) (acc + so_leaves ?o)"
        using idx False go by (subst fillable_queue.simps) (simp add: Let_def)
      then show ?thesis using IH [of "acc + so_leaves ?o"] unfolding av by (simp add: add.assoc)
    qed
  next
    case own: True
    show ?thesis
    proof (cases "mode = CancelMaker \<and> acc < so_leaves t")
      case True
      then have "fillable_queue s t mode idx acc = fillable_queue s t mode (so_next ?o) acc"
        using idx own by (subst fillable_queue.simps) (simp add: Let_def)
      then show ?thesis using IH [of acc] own True by simp
    next
      case False
      then have "fillable_queue s t mode idx acc = Some (acc, True)"
        using idx own by (subst fillable_queue.simps) (auto simp: Let_def)
      moreover have "0 \<le> avail mode ?a (map (me_order s) (h # q) @ ms)" if "\<forall>m\<in>set ms. 0 \<le> so_leaves m" for ms
        using Cons.prems(2) that by (intro avail_nonneg) auto
      ultimately show ?thesis by auto
    qed
  qed
qed

lemma fillable_levels_total:
  assumes ok: "side_ok (me_order s) i sd v qs" and m: "mode \<noteq> StpNone"
    and opn: "\<And>h. h \<in> set (concat qs) \<Longrightarrow> 0 \<le> so_leaves (me_order s h)"
  shows "n \<le> length qs \<Longrightarrow> \<exists>f. fillable_levels s t mode v n acc = Some f \<and>
    f \<le> acc + avail mode (so_account t) (crossing t (me_order s) (take n qs))"
proof (induction n arbitrary: acc)
  case 0
  then show ?case by (simp add: crossing_def)
next
  case (Suc n)
  have nl: "n < length qs" using Suc.prems by simp
  note q = queue_okD [OF side_okD(1) [OF ok nl]]
  let ?ms = "crossing t (me_order s) (take n qs)"
  have ms: "\<forall>m\<in>set ?ms. 0 \<le> so_leaves m" using opn unfolding crossing_def by (auto dest: in_set_takeD)
  show ?case
  proof (cases "taker_crosses t (pv_price (v ! n))")
    case True
    have hq: "0 \<le> so_leaves (me_order s h)" if "h \<in> set (qs ! n)" for h
      using opn [of h] that nl in_concat_nth [of h qs] by blast
    obtain acc' ret where r: "fillable_queue s t mode (pv_head (v ! n)) acc = Some (acc', ret)"
      "(if ret then acc' else acc' + avail mode (so_account t) ?ms) \<le>
         acc + avail mode (so_account t) (map (me_order s) (qs ! n) @ ?ms)"
      using fillable_queue_total [OF q(2) hq m, of t acc] ms by blast
    have av: "avail mode (so_account t) (crossing t (me_order s) (take (Suc n) qs)) =
        avail mode (so_account t) (map (me_order s) (qs ! n) @ ?ms)"
      using crossing_take [OF ok nl, of t] True by simp
    have st: "fillable_levels s t mode v (Suc n) acc = (if ret then Some acc' else fillable_levels s t mode v n acc')"
      using True r(1) by (auto simp: taker_crosses_def)
    show ?thesis
    proof (cases ret)
      case True
      then show ?thesis using st r(2) av by simp
    next
      case False
      obtain f where "fillable_levels s t mode v n acc' = Some f" "f \<le> acc' + avail mode (so_account t) ?ms"
        using Suc.IH [of acc'] nl by auto
      then show ?thesis using st r(2) av False by simp
    qed
  next
    case False
    then show ?thesis
      using crossing_open [of qs "me_order s" mode "so_account t" t "Suc n", OF opn] by (auto simp: taker_crosses_def)
  qed
qed

lemma fillable_total:
  assumes sw: "sweeping th i sd s Q"
  shows "\<exists>f. fillable s th = Some f \<and> f \<le> avail_of th (stp s (so_account (me_order s th)) i) i sd s Q"
proof -
  note S = sweepingD [OF sw]
  let ?t = "me_order s th"
  have side: "so_instrument ?t = i" "opposite (so_side ?t) = sd" using S(3,4) by simp_all
  note ok = me_repD(4) [OF S(1,2), of sd]
  have opn: "0 \<le> so_leaves (me_order s h)" if "h \<in> set (concat (Q i sd))" for h
    using S(7) queuedI [where Q = Q and sd = sd, OF S(2) that] by (auto simp: all_open_def less_imp_le)
  have all: "take (length (me_levels s i sd)) (Q i sd) = Q i sd" using side_ok_length [OF ok] by simp
  have av: "avail_of th m i sd s Q = avail m (so_account ?t) (crossing ?t (me_order s) (Q i sd))" for m
    by (simp add: avail_of_def crossing_def prio_def)
  show ?thesis
  proof (cases "stp s (so_account ?t) i = StpNone")
    case True
    then have "fillable s th = Some (sb_sum sd (so_price ?t) (so_type ?t = Market) (me_levels s i sd) (length (me_levels s i sd)) 0)"
      using side by (simp add: fillable_def Let_def sb_qty_at_or_better_def me_levels_def)
    then show ?thesis
      using sb_sum_avail [OF ok S(4) opn, where n = "length (me_levels s i sd)" and a = "so_account ?t" and acc = 0] side_ok_length [OF ok]
      unfolding av True all by auto
  next
    case False
    then have "fillable s th = fillable_levels s ?t (stp s (so_account ?t) i) (me_levels s i sd) (length (me_levels s i sd)) 0"
      using side by (simp add: fillable_def Let_def me_levels_def)
    then show ?thesis
      using fillable_levels_total [OF ok False opn, where n = "length (me_levels s i sd)" and t = ?t and acc = 0] side_ok_length [OF ok]
      unfolding av all by auto
  qed
qed

end
