(* ===== verification/MatchingEntry.thy ===== *)
theory MatchingEntry
  imports MatchingOps
begin

unbundle bit_operations_syntax

text \<open>
  The submission of an order. \<open>submit_ok\<close> collects what a submission leaves behind: the representation and the feed are
  kept, the ledgers still net out, the fills are fair and in priority order, a fill-or-kill order trades all or nothing
  when no reduce-only order takes part, and what rests stands behind every order at its price or a better one.
  \<open>submit_total\<close> shows that every submission to a well-formed engine returns and satisfies it.
\<close>

section \<open>A new order\<close>

text \<open>What a submission leaves behind, the queues being \<open>Q\<close> before it.\<close>

definition submit_ok ::
  "new_order \<Rightarrow> timestamp \<Rightarrow> matching_engine \<Rightarrow> (instrument_id \<Rightarrow> side \<Rightarrow> nat list list) \<Rightarrow>
   matching_engine \<Rightarrow> submit_result \<Rightarrow> (instrument_id \<Rightarrow> side \<Rightarrow> nat list list) \<Rightarrow> sink_event list \<Rightarrow> bool" where
  "submit_ok od now s Q s' r Q' evs \<longleftrightarrow>
     (me_good s' Q' \<and> (uncrossed s \<longrightarrow> uncrossed s') \<and> (feed_ok s \<longrightarrow> feed_ok s') \<and>
      ledger_nets (me_ledgers s') = ledger_nets (me_ledgers s) \<and>
      me_count s' = me_count s \<and> me_sink s' = me_sink s \<and> me_stp s' = me_stp s \<and> me_log s' = evs @ me_log s) \<and>
     (let i = no_instrument od; sd = opposite (no_side od); P = prio Q i sd in
      sr_filled r = fill_sum evs \<and>
      (\<forall>e\<in>set evs. fair (is_resting s P) (stp s (no_account od) i) (make_sim_order od (me_next_order_id s) now) e) \<and>
      (\<forall>g h. ahead P g h \<longrightarrow> so_order_id (me_order s h) \<in> fill_ids evs \<longrightarrow> g \<in> me_live s' \<longrightarrow>
         so_reduce_only (me_order s g) \<or> no_reduce_only od) \<and>
      (no_type od \<noteq> Market \<longrightarrow> no_tif od = Fok \<longrightarrow> \<not> no_reduce_only od \<longrightarrow> (\<forall>g\<in>set P. \<not> so_reduce_only (me_order s g)) \<longrightarrow>
         sr_filled r = 0 \<or> sr_filled r = no_qty od) \<and>
      (sr_order_id r \<noteq> 0 \<longrightarrow> no_type od \<noteq> PostOnly \<longrightarrow> no_type od = Market \<or> no_tif od \<noteq> Fok \<longrightarrow>
         \<not> no_reduce_only od \<longrightarrow> (\<forall>g\<in>set P. \<not> so_reduce_only (me_order s g)) \<longrightarrow>
         no_qty od \<le> avail (stp s (no_account od) i) (no_account od)
           (map (me_order s) (filter (\<lambda>g. taker_crosses (make_sim_order od (me_next_order_id s) now) (so_price (me_order s g))) P)) \<longrightarrow>
         sr_filled r = no_qty od) \<and>
      (0 < sr_resting r \<longrightarrow> sr_filled r + sr_resting r = no_qty od \<and> no_type od \<noteq> Market \<and>
         (\<exists>h. so_order_id (me_order s' h) = sr_order_id r \<and>
              behind (no_side od) (me_order s) (no_price od) h (prio Q i (no_side od)) (prio Q' i (no_side od)))))"

lemma reject_ok:
  assumes "me_good s Q" "s1 = upd_mstats f (s\<lparr>me_pool := p\<rparr>)" "p = me_pool s"
  shows "submit_ok od now s Q (fst (reject od why now s1)) (snd (reject od why now s1)) Q [OnReject od why now]"
proof -
  have e: "fst (reject od why now s1) = emit (OnReject od why now) (upd_mstats (\<lambda>m. m\<lparr>ms_rejects := ms_rejects m + 1\<rparr>) (upd_mstats f s))"
    "snd (reject od why now s1) = submit_result_zero\<lparr>sr_reason := why\<rparr>"
    using assms(2,3) by (simp_all add: reject_def)
  have f: "feed_ok s \<Longrightarrow> feed_ok (fst (reject od why now s1))"
    by (rule feed_keep [where evs = "[OnReject od why now]"]) (simp_all add: e no_change_def)
  have u: "uncrossed s \<Longrightarrow> uncrossed (fst (reject od why now s1))"
    by (rule uncrossed_mono [of s]) (simp_all add: e)
  show ?thesis using assms(1) f u unfolding submit_ok_def Let_def e
    by (simp add: submit_result_zero_def)
qed

text \<open>The order \<open>h\<close> has been accepted and is in no queue yet.\<close>

definition entered :: "new_order \<Rightarrow> timestamp \<Rightarrow> matching_engine \<Rightarrow> (instrument_id \<Rightarrow> side \<Rightarrow> nat list list) \<Rightarrow> nat \<Rightarrow> matching_engine \<Rightarrow> bool" where
  "entered od now s Q h s1 \<longleftrightarrow>
     sweeping h (no_instrument od) (opposite (no_side od)) s1 Q \<and> no_empty s1 Q \<and> h \<notin> me_live s \<and> me_live s1 = insert h (me_live s) \<and>
     me_order s1 = (me_order s)(h := make_sim_order od (me_next_order_id s) now) \<and> me_levels s1 = me_levels s \<and>
     me_log s1 = OnAck (make_sim_order od (me_next_order_id s) now) now # me_log s \<and>
     me_count s1 = me_count s \<and> me_sink s1 = me_sink s \<and> me_stp s1 = me_stp s \<and> me_ledgers s1 = me_ledgers s \<and>
     me_good s Q \<and> 0 < no_qty od"

lemma enteredD:
  assumes "entered od now s Q h s1"
  shows "sweeping h (no_instrument od) (opposite (no_side od)) s1 Q" "no_empty s1 Q" "h \<notin> me_live s" "me_live s1 = insert h (me_live s)"
    "me_order s1 h = make_sim_order od (me_next_order_id s) now" "\<And>g. g \<noteq> h \<Longrightarrow> me_order s1 g = me_order s g"
    "me_levels s1 = me_levels s"
    "me_log s1 = OnAck (make_sim_order od (me_next_order_id s) now) now # me_log s"
    "me_count s1 = me_count s" "me_sink s1 = me_sink s" "me_stp s1 = me_stp s" "me_ledgers s1 = me_ledgers s"
    "me_good s Q" "0 < no_qty od"
  using assms unfolding entered_def by auto

lemma enter_entered:
  assumes good: "me_good s Q" and a: "pool_allocate (me_pool s) = (p, h)" "h \<noteq> kNullHandle"
    and g: "no_instrument od < me_count s" "0 < no_qty od" "\<not> ohm_contains (me_by_key s) (me_key (no_account od) (no_cl_ord_id od))"
    and sk: "sink_ok (me_sink s)"
  shows "entered od now s Q h (enter_order od h now (s\<lparr>me_pool := p\<rparr>))"
proof -
  note E = enter_rep [OF good a g(3) refl]
  let ?s1 = "enter_order od h now (s\<lparr>me_pool := p\<rparr>)"
  have g': "no_empty s Q" "all_open s Q" "me_rep {} s Q" using good by (simp_all add: me_good_def)
  have ne: "no_empty ?s1 Q" using g'(1) E(7) by (simp add: no_empty_def)
  have ao: "all_open ?s1 Q"
    using g'(2) E(2,4,12) me_repD(5) [OF g'(3)] by (auto simp: all_open_def)
  have "sweeping h (no_instrument od) (opposite (no_side od)) ?s1 Q"
    unfolding sweeping_def using E(1,4,7,8) ao g sk by (simp add: order.strict_implies_order)
  then show ?thesis unfolding entered_def using E ne good g(2) by simp
qed

lemma is_resting_entered:
  assumes "entered od now s Q h s1" "i < me_count s"
  shows "is_resting s1 (prio Q i sd) = is_resting s (prio Q i sd)"
proof
  fix m
  have "set (prio Q i sd) \<subseteq> me_live s"
    using prio_live [of "{}" s Q i sd] enteredD(13) [OF assms(1)] assms(2) by (simp add: me_good_def)
  then have "me_order s1 g = me_order s g" if "g \<in> set (prio Q i sd)" for g
    using that enteredD(3,6) [OF assms(1)] by (metis subsetD)
  then show "is_resting s1 (prio Q i sd) m = is_resting s (prio Q i sd) m" by (simp add: is_resting_def)
qed

fun is_fill :: "sink_event \<Rightarrow> bool" where
  "is_fill (OnFill m t px q now) = True"
| "is_fill e = False"

definition no_fills :: "sink_event list \<Rightarrow> bool" where
  "no_fills evs \<longleftrightarrow> (\<forall>e\<in>set evs. \<not> is_fill e)"

lemma no_fill_event: "\<not> is_fill e \<Longrightarrow> fill_qty e = 0 \<and> maker_ids e = {} \<and> fair r mode t e"
  by (cases e) simp_all

lemma no_fills_sum: "no_fills evs \<Longrightarrow> fill_sum evs = 0 \<and> fill_ids evs = {} \<and> (\<forall>e\<in>set evs. fair r mode t e)"
  by (induction evs) (auto simp: no_fills_def no_fill_event)

text \<open>The sweep of the accepted order, or nothing of it.\<close>

definition swept ::
  "new_order \<Rightarrow> matching_engine \<Rightarrow> (instrument_id \<Rightarrow> side \<Rightarrow> nat list list) \<Rightarrow> nat \<Rightarrow> matching_engine \<Rightarrow>
   matching_engine \<Rightarrow> (instrument_id \<Rightarrow> side \<Rightarrow> nat list list) \<Rightarrow> sink_event list \<Rightarrow> bool" where
  "swept od s Q h s1 s2 Q2 evs \<longleftrightarrow>
     progress h (stp s (no_account od) (no_instrument od)) (no_instrument od) (opposite (no_side od)) s1 Q s2 Q2 evs \<and>
     sweeping h (no_instrument od) (opposite (no_side od)) s2 Q2 \<and> no_empty s2 Q2 \<and> (feed_ok s1 \<longrightarrow> feed_ok s2)"

lemma swept_start:
  assumes "entered od now s Q h s1"
  shows "swept od s Q h s1 s1 Q []"
  unfolding swept_def using enteredD(1,2) [OF assms] prio_inj [OF enteredD(1) [OF assms]] progress_refl by blast

lemma swept_order:
  assumes en: "entered od now s Q h s1" and sw: "swept od s Q h s1 s2 Q2 evs"
  shows "so_static (me_order s2 h) = so_static (make_sim_order od (me_next_order_id s) now)"
    "so_cum_qty (me_order s2 h) = fill_sum evs" "me_log s2 = evs @ me_log s1"
    "me_levels s2 (no_instrument od) (no_side od) = me_levels s (no_instrument od) (no_side od)"
    "Q2 (no_instrument od) (no_side od) = Q (no_instrument od) (no_side od)"
proof -
  note E = enteredD [OF en]
  have p: "progress h (stp s (no_account od) (no_instrument od)) (no_instrument od) (opposite (no_side od)) s1 Q s2 Q2 evs"
    using sw by (simp add: swept_def)
  note P = progressD [OF p]
  show "so_static (me_order s2 h) = so_static (make_sim_order od (me_next_order_id s) now)" using P(8) [OF P(10)] E(5) by simp
  show "so_cum_qty (me_order s2 h) = fill_sum evs" using P(13) E(5) by simp
  show "me_log s2 = evs @ me_log s1" by (rule P(1))
  have "no_side od \<noteq> opposite (no_side od)" by (cases "no_side od") simp_all
  then show "me_levels s2 (no_instrument od) (no_side od) = me_levels s (no_instrument od) (no_side od)"
    "Q2 (no_instrument od) (no_side od) = Q (no_instrument od) (no_side od)" using P(7) E(7) by auto
qed

text \<open>The book has the quantity of the order, and no reduce-only order is involved.\<close>

definition plenty ::
  "new_order \<Rightarrow> matching_engine \<Rightarrow> (instrument_id \<Rightarrow> side \<Rightarrow> nat list list) \<Rightarrow> nat \<Rightarrow> matching_engine \<Rightarrow> bool" where
  "plenty od s Q h s1 \<longleftrightarrow> no_type od \<noteq> PostOnly \<and> (no_type od = Market \<or> no_tif od \<noteq> Fok) \<and>
     no_reduce h (no_instrument od) (opposite (no_side od)) s1 Q \<and>
     no_qty od \<le> avail_of h (stp s (no_account od) (no_instrument od)) (no_instrument od) (opposite (no_side od)) s1 Q"

lemma submit_okI:
  assumes en: "entered od now s Q h s1" and sw: "swept od s Q h s1 s2 Q2 evs"
    and good: "me_good s' Q'" "uncrossed s \<Longrightarrow> uncrossed s'" "feed_ok s2 \<Longrightarrow> feed_ok s'"
    and fr: "me_ledgers s' = me_ledgers s2" "me_count s' = me_count s2" "me_sink s' = me_sink s2" "me_stp s' = me_stp s2"
      "me_log s' = evs' @ me_log s2" "no_fills evs'" "me_live s' \<subseteq> me_live s2"
    and r: "sr_filled r = so_cum_qty (me_order s2 h)"
      "no_type od \<noteq> Market \<Longrightarrow> no_tif od = Fok \<Longrightarrow> no_reduce h (no_instrument od) (opposite (no_side od)) s1 Q \<Longrightarrow>
         sr_filled r = 0 \<or> sr_filled r = no_qty od"
      "plenty od s Q h s1 \<Longrightarrow> sr_filled r = no_qty od"
      "0 < sr_resting r \<Longrightarrow> sr_filled r + sr_resting r = no_qty od \<and> no_type od \<noteq> Market \<and>
         (\<exists>h. so_order_id (me_order s' h) = sr_order_id r \<and>
            behind (no_side od) (me_order s) (no_price od) h (prio Q (no_instrument od) (no_side od)) (prio Q' (no_instrument od) (no_side od)))"
  shows "submit_ok od now s Q s' r Q' (evs' @ evs @ [OnAck (make_sim_order od (me_next_order_id s) now) now])"
proof -
  let ?i = "no_instrument od" and ?sd = "opposite (no_side od)" and ?t = "make_sim_order od (me_next_order_id s) now"
  note E = enteredD [OF en] and O = swept_order [OF en sw] and N = no_fills_sum [OF fr(6)]
  have p: "progress h (stp s (no_account od) ?i) ?i ?sd s1 Q s2 Q2 evs" using sw by (simp add: swept_def)
  note P = progressD [OF p]
  have i: "?i < me_count s" using sweepingD(2) [OF E(1)] E(9) by simp
  have live: "set (prio Q ?i ?sd) \<subseteq> me_live s" using prio_live [of "{}" s Q ?i ?sd] E(13) i by (simp add: me_good_def)
  have same: "me_order s1 g = me_order s g" if "g \<in> set (prio Q ?i ?sd)" for g
  proof -
    have "g \<noteq> h" using that live E(3) by blast
    then show ?thesis by (rule E(6))
  qed
  have feed: "feed_ok s'" if "feed_ok s"
  proof -
    have "feed_ok s1" by (rule feed_keep [OF that, where evs = "[OnAck ?t now]"]) (simp_all add: E(7,8,9) no_change_def)
    then show ?thesis using sw good(3) by (simp add: swept_def)
  qed
  have fair: "\<forall>e\<in>set (evs' @ evs @ [OnAck ?t now]). fair (is_resting s (prio Q ?i ?sd)) (stp s (no_account od) ?i) ?t e"
    using N P(12) is_resting_entered [OF en i] E(5) by auto
  have prty: "so_reduce_only (me_order s g) \<or> no_reduce_only od"
    if a: "ahead (prio Q ?i ?sd) g k" "so_order_id (me_order s k) \<in> fill_ids (evs' @ evs @ [OnAck ?t now])" "g \<in> me_live s'" for g k
  proof -
    have m: "g \<in> set (prio Q ?i ?sd)" "k \<in> set (prio Q ?i ?sd)" using ahead_mem [OF a(1)] by blast+
    have "so_order_id (me_order s1 k) \<in> fill_ids evs" using a(2) N same [OF m(2)] by simp
    then have "so_reduce_only (me_order s1 g) \<or> so_reduce_only (me_order s1 h)"
      using P(14) [OF a(1)] a(3) fr(7) by blast
    then show ?thesis using same [OF m(1)] E(5) by simp
  qed
  have fok: "sr_filled r = 0 \<or> sr_filled r = no_qty od"
    if "no_type od \<noteq> Market" "no_tif od = Fok" "\<not> no_reduce_only od" "\<forall>g\<in>set (prio Q ?i ?sd). \<not> so_reduce_only (me_order s g)"
    by (rule r(2) [OF that(1,2)]) (use that(3,4) same E(5) in \<open>simp add: no_reduce_def\<close>)
  have full: "sr_filled r = no_qty od"
    if "no_type od \<noteq> PostOnly" "no_type od = Market \<or> no_tif od \<noteq> Fok" "\<not> no_reduce_only od" "\<forall>g\<in>set (prio Q ?i ?sd). \<not> so_reduce_only (me_order s g)"
      and en: "no_qty od \<le> avail (stp s (no_account od) ?i) (no_account od)
           (map (me_order s) (filter (\<lambda>g. taker_crosses ?t (so_price (me_order s g))) (prio Q ?i ?sd)))"
  proof (rule r(3))
    have fe: "filter (\<lambda>g. taker_crosses ?t (so_price (me_order s1 g))) (prio Q ?i ?sd) = filter (\<lambda>g. taker_crosses ?t (so_price (me_order s g))) (prio Q ?i ?sd)"
      by (rule filter_cong [OF refl]) (simp add: same)
    have me: "map (me_order s1) (filter (\<lambda>g. taker_crosses ?t (so_price (me_order s g))) (prio Q ?i ?sd)) =
        map (me_order s) (filter (\<lambda>g. taker_crosses ?t (so_price (me_order s g))) (prio Q ?i ?sd))"
      by (rule map_cong [OF refl]) (simp add: same)
    have "avail_of h (stp s (no_account od) ?i) ?i ?sd s1 Q = avail (stp s (no_account od) ?i) (no_account od)
           (map (me_order s) (filter (\<lambda>g. taker_crosses ?t (so_price (me_order s g))) (prio Q ?i ?sd)))"
      unfolding avail_of_def E(5) fe me make_sim_order_simps by (rule refl)
    then show "plenty od s Q h s1" using that same E(5) by (simp add: plenty_def no_reduce_def)
  qed
  have g: "me_good s' Q' \<and> (uncrossed s \<longrightarrow> uncrossed s') \<and> (feed_ok s \<longrightarrow> feed_ok s') \<and>
      ledger_nets (me_ledgers s') = ledger_nets (me_ledgers s) \<and>
      me_count s' = me_count s \<and> me_sink s' = me_sink s \<and> me_stp s' = me_stp s \<and>
      me_log s' = (evs' @ evs @ [OnAck ?t now]) @ me_log s"
    using good feed fr P(1-4,6) E(8-12) by simp
  have fl: "sr_filled r = fill_sum (evs' @ evs @ [OnAck ?t now])" using r(1) O(2) N by simp
  show ?thesis unfolding submit_ok_def Let_def
    using g fl fair prty fok full r(4) by blast
qed

lemma swept_uncrossed:
  assumes "entered od now s Q h s1" "swept od s Q h s1 s2 Q2 evs" "uncrossed s"
  shows "uncrossed s2"
proof (rule uncrossed_mono [OF assms(3)])
  note E = enteredD [OF assms(1)]
  have p: "progress h (stp s (no_account od) (no_instrument od)) (no_instrument od) (opposite (no_side od)) s1 Q s2 Q2 evs"
    using assms(2) by (simp add: swept_def)
  note P = progressD [OF p]
  show "me_count s2 = me_count s" using P(2) E(9) by simp
  show "pv_price ` set (me_levels s2 i sd) \<subseteq> pv_price ` set (me_levels s i sd)" for i sd
    using P(7) [of i sd] P(11) E(7) by (cases "i = no_instrument od \<and> sd = opposite (no_side od)") auto
qed

text \<open>The order leaves with what it has traded.\<close>

lemma leave_ok:
  assumes en: "entered od now s Q h s1" and sw: "swept od s Q h s1 s2 Q2 evs"
    and s3: "me_rep {h} s3 Q2" "no_empty s3 Q2" "all_open s3 Q2"
    and fr: "me_ledgers s3 = me_ledgers s2" "me_count s3 = me_count s2" "me_sink s3 = me_sink s2" "me_stp s3 = me_stp s2"
      "me_log s3 = evs' @ me_log s2" "no_fills evs'" "no_change evs'" "me_live s3 = me_live s2" "me_levels s3 = me_levels s2"
    and r: "sr_filled r = so_cum_qty (me_order s2 h)" "sr_resting r = 0"
      "no_type od \<noteq> Market \<Longrightarrow> no_tif od = Fok \<Longrightarrow> no_reduce h (no_instrument od) (opposite (no_side od)) s1 Q \<Longrightarrow>
         sr_filled r = 0 \<or> sr_filled r = no_qty od"
      "plenty od s Q h s1 \<Longrightarrow> sr_filled r = no_qty od"
  shows "submit_ok od now s Q (free_order h s3) r Q2 (evs' @ evs @ [OnAck (make_sim_order od (me_next_order_id s) now) now])"
proof (rule submit_okI [OF en sw])
  note L = leave_good [OF s3]
  show "me_good (free_order h s3) Q2" "me_live (free_order h s3) \<subseteq> me_live s2" using L fr(8) by auto
  show "uncrossed (free_order h s3)" if "uncrossed s"
    by (rule uncrossed_mono [OF swept_uncrossed [OF en sw that]]) (simp_all add: fr(2,9))
  show "feed_ok (free_order h s3)" if "feed_ok s2"
    by (rule feed_keep [OF that, where evs = evs']) (simp_all add: fr)
qed (use fr r in simp_all)

lemma sweeping_parts:
  assumes "swept od s Q h s1 s2 Q2 evs"
  shows "me_rep {h} s2 Q2" "no_empty s2 Q2" "all_open s2 Q2" "h \<in> me_live s2"
    "0 \<le> so_cum_qty (me_order s2 h)" "so_cum_qty (me_order s2 h) \<le> so_qty (me_order s2 h)" "no_instrument od < me_count s2"
  using assms me_repD(5) [of "{h}" s2 Q2] unfolding swept_def sweeping_def by auto

lemma expire_ok:
  assumes en: "entered od now s Q h s1" and sw: "swept od s Q h s1 s2 Q2 evs"
    and r: "sr_filled r = so_cum_qty (me_order s2 h)" "sr_resting r = 0"
      "no_type od \<noteq> Market \<Longrightarrow> no_tif od = Fok \<Longrightarrow> no_reduce h (no_instrument od) (opposite (no_side od)) s1 Q \<Longrightarrow>
         sr_filled r = 0 \<or> sr_filled r = no_qty od"
      "plenty od s Q h s1 \<Longrightarrow> sr_filled r = no_qty od"
    and e: "\<not> is_fill e" "\<not> is_change e" and s': "s' = free_order h (emit e (upd_mstats f s2))"
  shows "submit_ok od now s Q s' r Q2 ([e] @ evs @ [OnAck (make_sim_order od (me_next_order_id s) now) now])"
  unfolding s'
  by (rule leave_ok [OF en sw]) (use sweeping_parts [OF sw] r e in \<open>simp_all add: no_fills_def no_change_def no_empty_def all_open_def queued_def\<close>)

text \<open>A limit order comes to rest: it crosses nothing that is left.\<close>

lemma not_crossed:
  assumes "clear_of t (me_levels s i (opposite sd))" "so_side t = sd" "so_type t \<noteq> Market" "so_price t = p" "l \<in> set (me_levels s i (opposite sd))"
  shows "sd = Buy \<Longrightarrow> p < pv_price l" "sd = Sell \<Longrightarrow> pv_price l < p"
  using assms by (auto simp: clear_of_def taker_crosses_def crosses_def not_le)

lemma uncrossed_insert:
  assumes u: "uncrossed s" and c: "me_count s' = me_count s"
    and same: "\<And>j sd'. \<not> (j = i \<and> sd' = sd) \<Longrightarrow> me_levels s' j sd' = me_levels s j sd'"
    and ins: "pv_price ` set (me_levels s' i sd) \<subseteq> insert p (pv_price ` set (me_levels s i sd))"
    and opp: "\<And>l. l \<in> set (me_levels s i (opposite sd)) \<Longrightarrow> sd = Buy \<Longrightarrow> p < pv_price l"
      "\<And>l. l \<in> set (me_levels s i (opposite sd)) \<Longrightarrow> sd = Sell \<Longrightarrow> pv_price l < p"
  shows "uncrossed s'"
  unfolding uncrossed_def
proof (intro allI impI ballI)
  fix j b a assume j: "j < me_count s'" and b: "b \<in> set (me_levels s' j Buy)" and a: "a \<in> set (me_levels s' j Sell)"
  have old: "pv_price b' < pv_price a'" if "b' \<in> set (me_levels s j Buy)" "a' \<in> set (me_levels s j Sell)" for b' a'
    using u j c that unfolding uncrossed_def by auto
  show "pv_price b < pv_price a"
  proof (cases "j = i")
    case False
    then show ?thesis using old a b same by auto
  next
    case ji: True
    show ?thesis
    proof (cases sd)
      case Buy
      then have "a \<in> set (me_levels s j Sell)" using a same [of j Sell] by simp
      moreover have "pv_price b = p \<or> (\<exists>b'\<in>set (me_levels s j Buy). pv_price b = pv_price b')" using b ins ji Buy by auto
      ultimately show ?thesis using old opp(1) [of a] ji Buy by auto
    next
      case Sell
      then have "b \<in> set (me_levels s j Buy)" using b same [of j Buy] by simp
      moreover have "pv_price a = p \<or> (\<exists>a'\<in>set (me_levels s j Sell). pv_price a = pv_price a')" using a ins ji Sell by auto
      ultimately show ?thesis using old opp(2) [of b] ji Sell by auto
    qed
  qed
qed

lemma behind_cong:
  assumes "behind sd ord p h P P'" "\<And>g. g \<in> set P \<Longrightarrow> so_price (ord g) = so_price (ord' g)"
  shows "behind sd ord' p h P P'"
proof -
  obtain xs ys where "P = xs @ ys" "P' = xs @ h # ys" "\<forall>g\<in>set xs. at_or_better sd (so_price (ord g)) p"
    "\<forall>g\<in>set ys. better sd p (so_price (ord g))" using assms(1) unfolding behind_def by blast
  then show ?thesis using assms(2) unfolding behind_def by (intro exI [of _ xs] exI [of _ ys]) simp
qed

lemma swept_own_price:
  assumes en: "entered od now s Q h s1" and sw: "swept od s Q h s1 s2 Q2 evs" and g: "g \<in> set (prio Q (no_instrument od) (no_side od))"
  shows "so_price (me_order s2 g) = so_price (me_order s g)"
proof -
  note E = enteredD [OF en] and W = sweeping_parts [OF sw]
  have p: "progress h (stp s (no_account od) (no_instrument od)) (no_instrument od) (opposite (no_side od)) s1 Q s2 Q2 evs"
    using sw by (simp add: swept_def)
  have "g \<in> set (prio Q2 (no_instrument od) (no_side od))" using g swept_order(5) [OF en sw] by (simp add: prio_def)
  then have "g \<in> me_live s2" using prio_live [OF W(1,7), of "no_side od"] by blast
  then have "so_static (me_order s2 g) = so_static (me_order s1 g)" using progressD(8) [OF p] by blast
  moreover have "g \<in> me_live s"
    using g prio_live [of "{}" s Q "no_instrument od" "no_side od"] E(13) sweepingD(2) [OF E(1)] E(9) by (auto simp: me_good_def)
  ultimately show ?thesis using so_staticD(3) E(3,6) by metis
qed

lemma rest_ok:
  assumes en: "entered od now s Q h s1" and sw: "swept od s Q h s1 s2 Q2 evs"
    and opn: "so_leaves (me_order s2 h) \<noteq> 0" and ty: "no_type od \<noteq> Market" "no_tif od \<noteq> Fok"
    and clear: "uncrossed s \<Longrightarrow> clear_of (me_order s2 h) (me_levels s2 (no_instrument od) (opposite (no_side od)))"
    and r: "sr_filled r = so_cum_qty (me_order s2 h)" "sr_resting r = 0" "sr_order_id r = me_next_order_id s"
      "plenty od s Q h s1 \<Longrightarrow> sr_filled r = no_qty od"
  shows "\<exists>Q' evs'. submit_ok od now s Q (rest h s2)
     (if \<not> pool_is_live (me_pool (rest h s2)) h then r\<lparr>sr_reason := VenueReject\<rparr>
      else r\<lparr>sr_resting := so_leaves (me_order (rest h s2) h)\<rparr>) Q' evs'"
proof -
  let ?i = "no_instrument od" and ?sd = "no_side od" and ?t = "make_sim_order od (me_next_order_id s) now"
  note W = sweeping_parts [OF sw] and O = swept_order [OF en sw]
  note T = so_staticD [OF O(1)]
  have od: "so_instrument (me_order s2 h) = ?i" "so_side (me_order s2 h) = ?sd" "so_price (me_order s2 h) = no_price od"
    "so_type (me_order s2 h) = no_type od" "so_qty (me_order s2 h) = no_qty od" "so_order_id (me_order s2 h) = me_next_order_id s"
    using T ty by simp_all
  have lt: "so_cum_qty (me_order s2 h) < so_qty (me_order s2 h)" using opn W(6) by (simp add: so_leaves_def)
  have empty_not: "h \<notin> {}" by simp
  show ?thesis
  proof (cases rule: rest_cases [OF W(1) empty_not W(7) od(1-3) W(5) lt W(2,3)])
    case full: (1 n f)
    have "h \<notin> me_live (rest h s2)"
      unfolding full using leave_good(2) [of h "emit (OnReject n VenueReject (so_created (me_order s2 h))) (upd_mstats f s2)" Q2] W
      by (simp add: no_empty_def all_open_def queued_def)
    then have d: "\<not> pool_is_live (me_pool (rest h s2)) h" by (simp add: pool_is_live_iff)
    have "submit_ok od now s Q (rest h s2) (r\<lparr>sr_reason := VenueReject\<rparr>) Q2
       ([OnReject n VenueReject (so_created (me_order s2 h))] @ evs @ [OnAck ?t now])"
      by (rule expire_ok [OF en sw _ _ _ _ _ _ full]) (use r ty in simp_all)
    then show ?thesis using d by auto
  next
    case rested: (2 Q' x u)
    have d: "pool_is_live (me_pool (rest h s2)) h" using rested(6) W(4) by (simp add: pool_is_live_iff)
    note D = so_dataD [OF rested(4)]
    let ?r = "r\<lparr>sr_resting := so_leaves (me_order (rest h s2) h)\<rparr>"
    have "submit_ok od now s Q (rest h s2) ?r Q' ([OnBookChange ?i ?sd (no_price od) x u] @ evs @ [OnAck ?t now])"
    proof (rule submit_okI [OF en sw])
      show "me_good (rest h s2) Q'" using rested(1-3) by (simp add: me_good_def)
      show "feed_ok (rest h s2)" if "feed_ok s2" using that by (rule rested(14))
      show "uncrossed (rest h s2)" if u: "uncrossed s"
      proof (rule uncrossed_insert [OF swept_uncrossed [OF en sw u] rested(7) _ rested(13)])
        show "me_levels (rest h s2) j sd' = me_levels s2 j sd'" if "\<not> (j = ?i \<and> sd' = ?sd)" for j sd' using rested(12) [OF that] by simp
        show "?sd = Buy \<Longrightarrow> no_price od < pv_price l" "?sd = Sell \<Longrightarrow> pv_price l < no_price od"
          if "l \<in> set (me_levels s2 ?i (opposite ?sd))" for l
          using not_crossed [OF clear [OF u] od(2) _ od(3) that] od(4) ty by simp_all
      qed
      have q: "prio Q2 ?i ?sd = prio Q ?i ?sd" using O(5) by (simp add: prio_def)
      have "behind ?sd (me_order s) (no_price od) h (prio Q ?i ?sd) (prio Q' ?i ?sd)"
      proof (rule behind_cong [OF rested(15) [unfolded q]])
        show "so_price (me_order s2 g) = so_price (me_order s g)" if "g \<in> set (prio Q ?i ?sd)" for g
          by (rule swept_own_price [OF en sw that])
      qed
      then show "sr_filled ?r + sr_resting ?r = no_qty od \<and> no_type od \<noteq> Market \<and>
         (\<exists>g. so_order_id (me_order (rest h s2) g) = sr_order_id ?r \<and>
            behind ?sd (me_order s) (no_price od) g (prio Q ?i ?sd) (prio Q' ?i ?sd))"
        using r ty D(13) [of h] D(1) [of h] od(5,6) by (auto simp: so_leaves_def)
    qed (use rested r ty in \<open>simp_all add: no_fills_def\<close>)
    then show ?thesis using d by auto
  qed
qed

lemma settle_ok:
  assumes en: "entered od now s Q h s1" and sw: "swept od s Q h s1 s2 Q2 evs"
    and clear: "so_leaves (me_order s2 h) = 0 \<or> clear_of (me_order s2 h) (me_levels s2 (no_instrument od) (opposite (no_side od)))"
    and fok: "no_type od \<noteq> Market \<Longrightarrow> no_tif od = Fok \<Longrightarrow> no_reduce h (no_instrument od) (opposite (no_side od)) s1 Q \<Longrightarrow>
         so_cum_qty (me_order s2 h) = 0 \<or> so_cum_qty (me_order s2 h) = no_qty od"
    and full: "plenty od s Q h s1 \<Longrightarrow> so_cum_qty (me_order s2 h) = no_qty od"
    and r: "sr_resting r = 0" "sr_order_id r = me_next_order_id s"
    and res: "settle_order od h now r s2 = (s', r')"
  shows "\<exists>Q' evs'. submit_ok od now s Q s' r' Q' evs'"
proof -
  let ?r = "r\<lparr>sr_filled := so_cum_qty (me_order s2 h)\<rparr>"
  note W = sweeping_parts [OF sw]
  have tif: "so_tif (me_order s2 h) = (if no_type od = Market then Ioc else no_tif od)"
    using so_staticD(10) [OF swept_order(1) [OF en sw]] by simp
  show ?thesis
  proof (cases "so_leaves (me_order s2 h) = 0")
    case True
    then have e: "s' = free_order h s2" "r' = ?r" using res by (simp_all add: settle_order_def Let_def)
    have "submit_ok od now s Q (free_order h s2) ?r Q2 ([] @ evs @ [OnAck (make_sim_order od (me_next_order_id s) now) now])"
      by (rule leave_ok [OF en sw]) (use W r fok full in \<open>simp_all add: no_fills_def\<close>)
    then show ?thesis unfolding e by blast
  next
    case opn: False
    show ?thesis
    proof (cases "no_type od = Market \<or> so_tif (me_order s2 h) = Ioc \<or> so_tif (me_order s2 h) = Fok")
      case True
      then have e: "s' = expire_order h (if no_type od = Market then CrNoLiquidity else CrIoc) now s2" "r' = ?r"
        using res opn by (simp_all add: settle_order_def Let_def)
      have "\<exists>e. submit_ok od now s Q s' ?r Q2 ([e] @ evs @ [OnAck (make_sim_order od (me_next_order_id s) now) now])"
        by (rule exI, rule expire_ok [OF en sw _ _ _ _ _ _ e(1) [unfolded expire_order_def count_expired_def]]) (use r fok full in simp_all)
      then show ?thesis unfolding e(2) by blast
    next
      case False
      let ?s3 = "rest h s2"
      have e: "s' = ?s3" "r' = (if \<not> pool_is_live (me_pool ?s3) h then ?r\<lparr>sr_reason := VenueReject\<rparr>
          else ?r\<lparr>sr_resting := so_leaves (me_order ?s3 h)\<rparr>)"
        using res opn False by (auto simp: settle_order_def Let_def split: if_splits)
      show ?thesis unfolding e
        by (rule rest_ok [OF en sw opn]) (use False clear opn tif r full in \<open>auto split: if_splits\<close>)
    qed
  qed
qed

lemma swept_avail_clear:
  assumes "clear_of (me_order s th) (me_levels s i sd)" "me_rep X s Q" "i < me_count s"
  shows "avail_of th mode i sd s Q = 0"
proof -
  have "\<not> taker_crosses (me_order s th) (so_price (me_order s g))" if g: "g \<in> set (prio Q i sd)" for g
  proof -
    have "g \<in> set (concat (Q i sd))" using g by (auto simp: prio_def)
    then obtain j where j: "j < length (Q i sd)" "g \<in> set (Q i sd ! j)" unfolding in_concat_nth by blast
    note ok = side_okD [OF me_repD(4) [OF assms(2,3)] j(1)]
    have "so_price (me_order s g) = pv_price (me_levels s i sd ! j)" using queue_okD(5) [OF ok(1)] j(2) by blast
    then show ?thesis using assms(1) nth_mem [OF ok(2)] by (simp add: clear_of_def)
  qed
  then have "filter (\<lambda>g. taker_crosses (me_order s th) (so_price (me_order s g))) (prio Q i sd) = []" by (simp add: filter_empty_conv)
  then show ?thesis by (simp add: avail_of_def)
qed

lemma match_ok:
  assumes en: "entered od now s Q h s1" and fill: "so_tif (me_order s1 h) = Fok \<Longrightarrow> so_qty (me_order s1 h) \<le> f \<and> fillable s1 h = Some f"
  shows "\<exists>s2 ok filled. match_order h now s1 = Some (s2, ok, filled) \<and>
    (if ok then \<forall>r s' r'. sr_resting r = 0 \<longrightarrow> sr_order_id r = me_next_order_id s \<longrightarrow> settle_order od h now r s2 = (s', r') \<longrightarrow>
       (\<exists>Q' evs'. submit_ok od now s Q s' r' Q' evs')
     else \<forall>r. sr_resting r = 0 \<longrightarrow> (\<exists>Q' evs'. submit_ok od now s Q s2 (r\<lparr>sr_filled := filled\<rparr>) Q' evs'))"
proof -
  let ?i = "no_instrument od" and ?sd = "opposite (no_side od)" and ?m = "stp s (no_account od) (no_instrument od)"
  note E = enteredD [OF en]
  have st: "stp s1 (so_account (me_order s1 h)) (so_instrument (me_order s1 h)) = ?m" using E(5,9,11) by (simp add: stp_def)
  obtain res where res: "match_order h now s1 = Some res" "sweep_ends h ?m ?i ?sd now s1 Q res"
    using match_loop_total [OF E(1,2), of ?m now] unfolding match_order_def st by blast
  obtain s0 Q' evs where S: "progress h ?m ?i ?sd s1 Q s0 Q' evs" "sweeping h ?i ?sd s0 Q'" "no_empty s0 Q'" "feed_ok s1 \<longrightarrow> feed_ok s0"
    "res = (s0, True, so_cum_qty (me_order s0 h)) \<and>
           (so_leaves (me_order s0 h) = 0 \<or> clear_of (me_order s0 h) (me_levels s0 ?i ?sd)) \<or>
         (\<exists>why f. res = end_taker h why now (upd_mstats f s0)) \<and>
           (no_reduce h ?i ?sd s1 Q \<longrightarrow> \<not> so_leaves (me_order s1 h) \<le> avail_of h ?m ?i ?sd s1 Q)"
    using res(2) unfolding sweep_ends_def by blast
  have sw: "swept od s Q h s1 s0 Q' evs" using S(1-4) by (simp add: swept_def)
  note W = sweeping_parts [OF sw]
  have tif: "so_tif (me_order s1 h) = Fok" if "no_type od \<noteq> Market" "no_tif od = Fok" using that E(5) by simp
  have av: "so_leaves (me_order s1 h) \<le> avail_of h ?m ?i ?sd s1 Q" if "so_tif (me_order s1 h) = Fok"
  proof -
    have m: "stp s1 (so_account (me_order s1 h)) ?i = ?m" using st E(5) by simp
    show ?thesis using fillable_total [OF E(1)] fill [OF that] E(5) unfolding m by auto
  qed
  have qty: "so_qty (me_order s0 h) = no_qty od" using so_staticD(4) [OF swept_order(1) [OF en sw]] by simp
  have c0: "so_cum_qty (me_order s0 h) = no_qty od"
    if z: "so_leaves (me_order s0 h) \<le> 0" using z W(6) qty by (simp add: so_leaves_def)
  consider (finished) "res = (s0, True, so_cum_qty (me_order s0 h))"
        "so_leaves (me_order s0 h) = 0 \<or> clear_of (me_order s0 h) (me_levels s0 ?i ?sd)"
    | (ended) why f where "res = end_taker h why now (upd_mstats f s0)"
        "no_reduce h ?i ?sd s1 Q \<longrightarrow> \<not> so_leaves (me_order s1 h) \<le> avail_of h ?m ?i ?sd s1 Q"
    using S(5) by blast
  then show ?thesis
  proof cases
    case finished
    note r = finished(1) and c = finished(2)
    have full: "so_cum_qty (me_order s0 h) = no_qty od" if f: "plenty od s Q h s1"
    proof (rule c0)
      have "so_leaves (me_order s0 h) \<le> avail_of h ?m ?i ?sd s0 Q'"
        by (rule progressD(15) [OF S(1)]) (use f E(5) in \<open>simp_all add: plenty_def\<close>)
      then show "so_leaves (me_order s0 h) \<le> 0" using c swept_avail_clear [OF _ W(1,7)] by auto
    qed
    have fok: "so_cum_qty (me_order s0 h) = no_qty od"
      if f: "no_type od \<noteq> Market" "no_tif od = Fok" "no_reduce h ?i ?sd s1 Q"
    proof (rule c0)
      have "so_leaves (me_order s0 h) \<le> avail_of h ?m ?i ?sd s0 Q'" by (rule progressD(15) [OF S(1) f(3) av [OF tif [OF f(1,2)]]])
      then show "so_leaves (me_order s0 h) \<le> 0" using c swept_avail_clear [OF _ W(1,7)] by auto
    qed
    have "\<exists>Q' evs'. submit_ok od now s Q s' r' Q' evs'"
      if "sr_resting r = 0" "sr_order_id r = me_next_order_id s" "settle_order od h now r s0 = (s', r')" for r s' r'
      by (rule settle_ok [OF en sw c _ _ that]) (use fok full in blast)+
    then show ?thesis using res(1) r by auto
  next
    case (ended why f)
    note r = ended(1) and nr = ended(2)
    have "\<exists>Q' evs'. submit_ok od now s Q (free_order h (emit (OnCancel (me_order s0 h) why now) (upd_mstats f s0)))
        (r\<lparr>sr_filled := so_cum_qty (me_order s0 h)\<rparr>) Q' evs'" if "sr_resting r = 0" for r
      by (rule exI, rule exI, rule expire_ok [OF en sw _ _ _ _ _ _ refl]) (use that nr av tif E(5) in \<open>auto simp: plenty_def\<close>)
    then show ?thesis using res(1) r by (auto simp: end_taker_def)
  qed
qed

lemma submit_ok_stats: "submit_ok od now (upd_mstats f s) Q s' r Q' evs = submit_ok od now s Q s' r Q' evs"
  by (simp add: submit_ok_def Let_def is_resting_def [abs_def] uncrossed_def feed_ok_def stp_def)

lemma post_only_clear:
  assumes en: "entered od now s Q h s1" and po: "no_type od = PostOnly" and g: "submit_guard od s = None"
  shows "clear_of (me_order s1 h) (me_levels s1 (no_instrument od) (opposite (no_side od)))"
proof -
  let ?i = "no_instrument od" and ?sd = "opposite (no_side od)"
  note E = enteredD [OF en]
  have i: "?i < me_count s" using sweepingD(2) [OF E(1)] E(9) by simp
  have b: "best_last ?sd (me_levels s ?i ?sd)" using me_repD(4) [of "{}" s Q ?i ?sd] E(13) i by (simp add: me_good_def side_ok_def)
  show ?thesis
  proof (cases "me_levels s ?i ?sd = []")
    case True
    then show ?thesis using E(7) by (simp add: clear_of_def)
  next
    case False
    have "sb_best (me_books s ?i) ?sd = Some (length (me_levels s ?i ?sd) - 1)"
      using False by (simp add: sb_best_def me_levels_def)
    then have "\<not> crosses (no_side od) (no_price od) (pv_price (last (me_levels s ?i ?sd)))"
      using g po False by (auto simp: submit_guard_def me_level_levels last_conv_nth split: if_splits)
    then have "\<not> taker_crosses (me_order s1 h) (pv_price (last (me_levels s ?i ?sd)))"
      using E(5) po by (simp add: taker_crosses_def)
    then show ?thesis using worse_no_cross [OF b False] E(5,7) by simp
  qed
qed

lemma submit_total:
  assumes good: "me_good s Q" and sk: "sink_ok (me_sink s)"
  shows "\<exists>s' r Q' evs. submit_order od now s = Some (s', r) \<and> submit_ok od now s Q s' r Q' evs"
proof -
  define t where "t = upd_mstats (\<lambda>m. m\<lparr>ms_submits := ms_submits m + 1\<rparr>) s"
  have gt: "me_good t Q" "sink_ok (me_sink t)" using good sk by (simp_all add: t_def)
  have "\<exists>s' r Q' evs. submit_order od now s = Some (s', r) \<and> submit_ok od now t Q s' r Q' evs"
  proof (cases "submit_guard od t")
    case (Some why)
    then have "submit_order od now s = Some (reject od why now t)" by (simp add: submit_order_def Let_def t_def)
    moreover have "t = upd_mstats (\<lambda>m. m) (t\<lparr>me_pool := me_pool t\<rparr>)" by simp
    ultimately show ?thesis using reject_ok [OF gt(1), of t "\<lambda>m. m" "me_pool t" od now why] by (metis prod.collapse)
  next
    case g: None
    obtain p h where a: "pool_allocate (me_pool t) = (p, h)" by fastforce
    show ?thesis
    proof (cases "h = kNullHandle")
      case True
      have pi: "pool_inv (me_pool t)" using gt(1) me_repD(1) [of "{}" t Q] by (simp add: me_good_def)
      have "kNullHandle \<ge> pl_capacity (me_pool t)" using pool.live_bound [OF pi] by simp
      then have p: "p = me_pool t" using pool.alloc_law [OF pi a] True by auto
      have "submit_order od now s = Some (reject od PoolExhausted now
            (upd_mstats (\<lambda>m. m\<lparr>ms_pool_exhausted := ms_pool_exhausted m + 1\<rparr>) (t\<lparr>me_pool := p\<rparr>)))"
        using g a True by (simp add: submit_order_def Let_def t_def)
      then show ?thesis using reject_ok [OF gt(1) refl p] by (metis prod.collapse)
    next
      case False
      define s1 where "s1 = enter_order od h now (t\<lparr>me_pool := p\<rparr>)"
      define r where "r = submit_result_zero\<lparr>sr_order_id := so_order_id (me_order s1 h)\<rparr>"
      have en: "entered od now t Q h s1"
        unfolding s1_def by (rule enter_entered [OF gt(1) a False _ _ _ gt(2)]) (use g in \<open>auto simp: submit_guard_def split: if_splits\<close>)
      note E = enteredD [OF en]
      have r0: "sr_resting r = 0" "sr_order_id r = me_next_order_id t" "sr_filled r = 0" using E(5) by (simp_all add: r_def submit_result_zero_def)
      obtain f where f: "(if so_tif (me_order s1 h) = Fok then fillable s1 h else Some (so_qty (me_order s1 h))) = Some f"
        using fillable_total [OF E(1)] by (cases "so_tif (me_order s1 h) = Fok") auto
      have sub: "submit_order od now s =
         (if so_tif (me_order s1 h) = Fok \<and> (f < so_qty (me_order s1 h) \<or> (so_reduce_only (me_order s1 h) \<and> reducible s1 h < so_qty (me_order s1 h)))
          then Some (expire_order h CrFok now s1, r)
          else if no_type od = PostOnly then Some (settle_order od h now r s1)
          else (case match_order h now s1 of None \<Rightarrow> None
                | Some (s2, ok, filled) \<Rightarrow> if \<not> ok then Some (s2, r\<lparr>sr_filled := filled\<rparr>) else Some (settle_order od h now r s2)))"
        by (simp only: submit_order_def Let_def t_def [symmetric] g a option.case prod.case False if_False s1_def [symmetric] r_def [symmetric] f)
      have swz: "swept od t Q h s1 s1 Q []" by (rule swept_start [OF en])
      have cum: "so_cum_qty (me_order s1 h) = 0" using E(5) by simp
      consider (fok) "submit_order od now s = Some (expire_order h CrFok now s1, r)" "so_tif (me_order s1 h) = Fok"
        | (post) "no_type od = PostOnly" "submit_order od now s = Some (settle_order od h now r s1)"
        | (match) "submit_order od now s = (case match_order h now s1 of None \<Rightarrow> None
                | Some (s2, ok, filled) \<Rightarrow> if \<not> ok then Some (s2, r\<lparr>sr_filled := filled\<rparr>) else Some (settle_order od h now r s2))"
            "so_tif (me_order s1 h) = Fok \<Longrightarrow> so_qty (me_order s1 h) \<le> f \<and> fillable s1 h = Some f"
        using sub f by (auto split: if_splits)
      then show ?thesis
      proof cases
        case fok
        have isfok: "no_type od \<noteq> Market" "no_tif od = Fok" using fok(2) E(5) by (simp_all split: if_splits)
        have "\<exists>e. submit_ok od now t Q (expire_order h CrFok now s1) r Q ([e] @ [] @ [OnAck (make_sim_order od (me_next_order_id t) now) now])"
          unfolding expire_order_def count_expired_def
          by (rule exI, rule expire_ok [OF en swz _ _ _ _ _ _ refl]) (use r0 cum isfok in \<open>auto simp: plenty_def\<close>)
        then show ?thesis using fok(1) by blast
      next
        case post
        obtain s' r' where e: "settle_order od h now r s1 = (s', r')" by fastforce
        have "\<exists>Q' evs'. submit_ok od now t Q s' r' Q' evs'"
          by (rule settle_ok [OF en swz disjI2 [OF post_only_clear [OF en post(1) g]] _ _ r0(1,2) e]) (use cum post(1) in \<open>simp_all add: plenty_def\<close>)
        then show ?thesis using post(2) e by auto
      next
        case match
        obtain s2 ok filled where m: "match_order h now s1 = Some (s2, ok, filled)"
          "if ok then \<forall>r s' r'. sr_resting r = 0 \<longrightarrow> sr_order_id r = me_next_order_id t \<longrightarrow> settle_order od h now r s2 = (s', r') \<longrightarrow>
             (\<exists>Q' evs'. submit_ok od now t Q s' r' Q' evs')
           else \<forall>r. sr_resting r = 0 \<longrightarrow> (\<exists>Q' evs'. submit_ok od now t Q s2 (r\<lparr>sr_filled := filled\<rparr>) Q' evs')"
          using match_ok [OF en match(2)] by blast
        show ?thesis
        proof (cases ok)
          case True
          obtain s' r' where e: "settle_order od h now r s2 = (s', r')" by fastforce
          then show ?thesis using match(1) m True r0 by auto
        next
          case False
          then show ?thesis using match(1) m r0 by auto
        qed
      qed
    qed
  qed
  then show ?thesis unfolding t_def submit_ok_stats .
qed

end
