(* ===== verification/MatchingRuns.thy ===== *)
theory MatchingRuns
  imports MatchingEntry
begin

unbundle bit_operations_syntax

text \<open>
  The other operations of the engine and their sequences: the amendment in place, the visit of the resting orders,
  mirrored decreases, the fresh engine. \<open>op_ok\<close> is what every operation keeps, \<open>run_ok\<close> that any sequence of
  operations returns and keeps it.
\<close>

section \<open>An order is rewritten in its queue\<close>

lemma rewrite_rep:
  assumes good: "me_good s Q" and i: "i < me_count s" and k: "k < length (Q i sd)" and h: "h \<in> set (Q i sd ! k)"
    and ord: "me_order s' = (me_order s)(h := x)" and live: "me_live s' = me_live s" "pool_inv (me_pool s')"
      "pl_capacity (me_pool s') = pl_capacity (me_pool s)" and c: "me_count s' = me_count s"
    and lv: "me_levels s' = (\<lambda>j sd'. if j = i \<and> sd' = sd
       then (me_levels s i sd)[k := (me_levels s i sd ! k)\<lparr>pv_qty := pv_qty (me_levels s i sd ! k) + so_leaves x - so_leaves (me_order s h)\<rparr>]
       else me_levels s j sd')"
    and x: "so_instrument x = so_instrument (me_order s h)" "so_side x = so_side (me_order s h)" "so_price x = so_price (me_order s h)"
      "so_next x = so_next (me_order s h)" "so_prev x = so_prev (me_order s h)" "0 \<le> so_cum_qty x" "0 < so_leaves x"
    and keys: "ohm_inv (me_by_key s')" "ohm_bits (me_by_key s') = ohm_bits (me_by_key s)"
      "\<And>key g. ohm_find (me_by_key s') key = Some g \<longleftrightarrow> g \<in> me_live s \<and> order_key (me_order s' g) = key"
    and ids: "so_order_id x = so_order_id (me_order s h) \<or> so_order_id x = me_next_order_id s"
      "so_order_id x < me_next_order_id s'" "me_next_order_id s \<le> me_next_order_id s'"
  shows "me_good s' Q"
proof -
  have g: "me_rep {} s Q" "no_empty s Q" "all_open s Q" using good by (simp_all add: me_good_def)
  note R = me_repD [OF g(1)]
  let ?l = "me_levels s i sd ! k"
  let ?l' = "?l\<lparr>pv_qty := pv_qty ?l + so_leaves x - so_leaves (me_order s h)\<rparr>"
  note q = queue_okD [OF side_okD(1) [OF R(4) [OF i, of sd] k]]
  have hq: "h \<in> queued s Q" using queuedI [of i s h Q sd] i k h in_concat_nth [of h "Q i sd"] by blast
  have qok: "queue_ok (me_order s') i sd ?l' (Q i sd ! k)"
  proof -
    have "dll (me_order s') (pv_head ?l) (Q i sd ! k) (pv_tail ?l)"
      using q(2) by (subst lseg_cong [of _ "me_order s'" "me_order s"]) (auto simp: ord x(4,5))
    moreover have "(\<Sum>g\<leftarrow>Q i sd ! k. so_leaves (me_order s' g)) = (\<Sum>g\<leftarrow>Q i sd ! k. so_leaves (me_order s g)) + (so_leaves x - so_leaves (me_order s h))"
      using sum_leaves_upd [OF q(1) h, of "\<lambda>g. so_leaves (me_order s' g)" "\<lambda>g. so_leaves (me_order s g)"] by (simp add: ord)
    ultimately show ?thesis
      using q x(1-3,6,7) h unfolding queue_ok_def by (auto simp: ord so_leaves_def)
  qed
  have other: "me_order s' g = me_order s g" if "g \<in> set (concat (Q j sd'))" "j < me_count s" "\<not> (j = i \<and> sd' = sd)" for g j sd'
  proof -
    have "g \<noteq> h" using queued_place [OF g(1) i k h that(2), of sd'] that(1,3) by blast
    then show ?thesis by (simp add: ord)
  qed
  have "side_ok (me_order s') j sd' (me_levels s' j sd') (Q j sd')" if j: "j < me_count s" for j sd'
  proof (cases "j = i \<and> sd' = sd")
    case True
    have "side_ok (me_order s') i sd ((me_levels s i sd)[k := ?l']) ((Q i sd)[k := Q i sd ! k])"
      by (rule side_ok_upd [OF R(4) [OF i, of sd] k qok]) (use h in \<open>auto simp: ord\<close>)
    then show ?thesis using True by (simp add: lv)
  next
    case False
    have "me_levels s' j sd' = me_levels s j sd'" using False by (simp only: lv if_False)
    then show ?thesis using R(4) [OF j, of sd'] side_ok_cong [of "Q j sd'" "me_order s'" "me_order s"] other [OF _ j False] by simp
  qed
  moreover have "queued s' Q = queued s Q" by (simp add: queued_def c)
  moreover have "inj_on (\<lambda>g. so_order_id (me_order s' g)) (me_live s)"
  proof (rule inj_onI)
    fix a b assume ab: "a \<in> me_live s" "b \<in> me_live s" "so_order_id (me_order s' a) = so_order_id (me_order s' b)"
    have hl: "h \<in> me_live s" using hq R(5) by simp
    have *: "so_order_id (me_order s' g) = so_order_id x \<Longrightarrow> g \<in> me_live s \<Longrightarrow> g = h" for g
      using ids(1) R(9) [of g] inj_onD [OF R(8), of g h] hl by (cases "g = h") (auto simp: ord)
    have hx: "so_order_id (me_order s' h) = so_order_id x" by (simp add: ord)
    consider "a = h" | "b = h" | "a \<noteq> h" "b \<noteq> h" by blast
    then show "a = b"
    proof cases
      case 1
      then show ?thesis using * [of b] ab(2,3) hx by metis
    next
      case 2
      then show ?thesis using * [of a] ab(1,3) hx by metis
    next
      case 3
      then have "so_order_id (me_order s a) = so_order_id (me_order s b)" using ab(3) by (simp add: ord)
      then show ?thesis using inj_onD [OF R(8) _ ab(1,2)] by blast
    qed
  qed
  moreover have "\<forall>g\<in>me_live s. so_order_id (me_order s' g) < me_next_order_id s'"
    using R(9) ids(2,3) by (auto simp: ord intro: order_less_le_trans)
  ultimately have "me_rep {} s' Q" using R keys live unfolding me_rep_def c by simp
  moreover have "no_empty s' Q" "all_open s' Q" using g(2,3) x(7) unfolding no_empty_def all_open_def queued_def c ord by auto
  ultimately show ?thesis by (simp add: me_good_def)
qed

lemma rewrite_feed:
  assumes f: "feed_ok s" and good: "me_good s' Q" and i: "i < me_count s" and k: "k < length (me_levels s i sd)"
    and lv: "me_levels s' = (\<lambda>j sd'. if j = i \<and> sd' = sd then (me_levels s i sd)[k := l] else me_levels s j sd')"
    and pl: "pv_price l = pv_price (me_levels s i sd ! k)" and c: "me_count s' = me_count s"
    and log: "me_log s' = OnBookChange i sd (pv_price l) (pv_qty l) u # evs @ me_log s" "no_change evs"
  shows "feed_ok s'"
proof (rule feed_step [OF f log c])
  show "qty_at (me_levels s' j sd') p = qty_at (me_levels s j sd') p" if "\<not> (j = i \<and> sd' = sd \<and> p = pv_price l)" for j sd' p
    using that qty_at_update [of l "me_levels s i sd" k p] pl by (cases "j = i \<and> sd' = sd") (auto simp: lv)
  have "best_last sd (me_levels s' i sd)" using me_repD(4) [of "{}" s' Q i sd] good i c by (simp add: me_good_def side_ok_def)
  then show "qty_at (me_levels s' i sd) (pv_price l) = pv_qty l"
    using qty_at_nth(1) [of sd "me_levels s' i sd" k] k by (simp add: lv)
qed

section \<open>Visiting the orders\<close>

lemma fifo_queue:
  "lseg (me_order s) p idx q u kNullHandle \<Longrightarrow> fifo s idx visited = Some (visited @ q)"
proof (induction q arbitrary: p idx visited)
  case Nil
  then show ?case by (subst fifo.simps) simp
next
  case (Cons h q)
  then have "fifo s idx visited = fifo s (so_next (me_order s h)) (visited @ [h])" by (subst fifo.simps) simp
  then show ?case using Cons by auto
qed

lemma resting_levels_prio:
  assumes "side_ok (me_order s) i sd v qs"
  shows "n \<le> length qs \<Longrightarrow> resting_levels s v n visited = Some (visited @ concat (rev (take n qs)))"
proof (induction n arbitrary: visited)
  case (Suc n)
  then have n: "n < length qs" by simp
  have "fifo s (pv_head (v ! n)) visited = Some (visited @ qs ! n)"
    by (rule fifo_queue [OF queue_okD(2) [OF side_okD(1) [OF assms n]]])
  then show ?case using Suc n by (simp add: take_Suc_conv_app_nth)
qed simp

lemma resting_prio:
  assumes "me_rep X s Q" "i < me_count s"
  shows "resting s i sd = Some (prio Q i sd)"
proof -
  note ok = me_repD(4) [OF assms, of sd]
  show ?thesis
    using resting_levels_prio [OF ok, of "length (Q i sd)" "[]"] side_ok_length [OF ok]
    by (simp add: resting_def prio_def me_levels_def Let_def)
qed

section \<open>Amending in place\<close>

lemma me_key_bit: "bit (me_key a c) n \<longleftrightarrow> (if n < 48 then bit c n else n < 64 \<and> bit (of_nat a :: u64) (n - 48))"
proof -
  have m: "bit (0xFFFFFFFFFFFF :: u64) n \<longleftrightarrow> n < 48"
  proof -
    have e: "(0xFFFFFFFFFFFF :: u64) = mask 48" by (simp add: mask_eq_exp_minus_1)
    show ?thesis unfolding e bit_mask_iff by auto
  qed
  show ?thesis unfolding me_key_def bit_or_iff bit_and_iff bit_push_bit_iff m by (auto dest: bit_imp_le_length)
qed

lemma me_key_account:
  assumes "me_key a c = me_key a' c'"
  shows "me_key a d = me_key a' d"
proof (rule bit_word_eqI)
  fix n assume "n < LENGTH(64)"
  show "bit (me_key a d) n \<longleftrightarrow> bit (me_key a' d) n"
    using arg_cong [OF assms, of "\<lambda>k. bit k n"] by (simp add: me_key_bit split: if_splits)
qed

lemma me_field_upd [simp]:
  "me_levels (s\<lparr>me_by_key := m\<rparr>) = me_levels s" "me_levels (s\<lparr>me_next_order_id := n\<rparr>) = me_levels s"
  "me_order (s\<lparr>me_by_key := m\<rparr>) = me_order s" "me_order (s\<lparr>me_next_order_id := n\<rparr>) = me_order s"
  by (simp_all add: me_levels_def me_order_def fun_eq_iff)

lemma amend_keys:
  assumes rep: "me_rep X s Q" and f: "ohm_find (me_by_key s) (me_key a orig) = Some h"
    and new: "\<not> ohm_contains (me_by_key s) (me_key a new_id)"
    and m: "m = fst (ohm_insert (fst (ohm_erase (me_by_key s) (me_key a orig))) (me_key a new_id) h)"
  shows "ohm_inv m" "ohm_bits m = ohm_bits (me_by_key s)"
    "ohm_find m = (ohm_find (me_by_key s))(me_key a orig := None, me_key a new_id \<mapsto> h)"
proof -
  note R = me_repD [OF rep]
  obtain m1 where e: "ohm_erase (me_by_key s) (me_key a orig) = (m1, True)" "ohm_inv m1"
    "ohm_find m1 = (ohm_find (me_by_key s))(me_key a orig := None)" "ohm_bits m1 = ohm_bits (me_by_key s)"
    using ohm_erase_law [OF R(2), of "me_key a orig"] f by auto
  have n: "ohm_find m1 (me_key a new_id) = None" using new by (simp add: e(3) ohm_contains_def)
  have fd: "me_key a orig \<in> dom (ohm_find (me_by_key s))" using f by blast
  have "dom (ohm_find m1) = dom (ohm_find (me_by_key s)) - {me_key a orig}" by (simp add: e(3))
  then have "ohm_size m1 = ohm_size (me_by_key s) - 1" "0 < ohm_size (me_by_key s)"
    using ohm_size_dom [OF e(2)] ohm_size_dom [OF R(2)] fd by (auto simp: card_Diff_singleton_if card_gt_0_iff)
  moreover have "ohm_size (me_by_key s) \<le> kMaxSize (2 ^ ohm_bits (me_by_key s))"
  proof -
    have "card (me_live s) \<le> pl_capacity (me_pool s)"
      using pool.live_bound [OF R(1)] card_mono [of "{..<pl_capacity (me_pool s)}" "me_live s"] by auto
    then show ?thesis using key_card [OF rep] R(3) by simp
  qed
  ultimately have room: "ohm_size m1 < kMaxSize (2 ^ ohm_bits m1)" by (simp add: e(4))
  show "ohm_inv m" "ohm_bits m = ohm_bits (me_by_key s)"
    "ohm_find m = (ohm_find (me_by_key s))(me_key a orig := None, me_key a new_id \<mapsto> h)"
    by (rule ohm_insert_new [OF e(2) n room, of h], simp add: m e)+
qed

lemma amend_good:
  assumes good: "me_good s Q" and f: "ohm_find (me_by_key s) (me_key a orig) = Some h"
    and q: "0 < q" "q \<le> so_leaves (me_order s h)" and new: "\<not> ohm_contains (me_by_key s) (me_key a new_id)"
    and k: "sb_find (me_books s (so_instrument (me_order s h))) (so_side (me_order s h)) (so_price (me_order s h)) = Some k"
    and res: "amend_order a orig new_id q now h k s = (s', r)"
  obtains evs where "me_good s' Q" "me_live s' = me_live s"
    "me_order s' = (me_order s)(h := (me_order s h)\<lparr>so_order_id := me_next_order_id s, so_cl_ord_id := new_id, so_qty := q,
                                so_cum_qty := 0, so_created := now\<rparr>)"
    "r = submit_result_zero\<lparr>sr_order_id := me_next_order_id s, sr_resting := q\<rparr>"
    "ohm_find (me_by_key s') (me_key a new_id) = Some h"
    "me_count s' = me_count s" "me_sink s' = me_sink s" "me_stp s' = me_stp s" "me_ledgers s' = me_ledgers s"
    "me_log s' = evs @ me_log s" "no_fills evs" "h \<in> me_live s"
    "\<And>j sd. map pv_price (me_levels s' j sd) = map pv_price (me_levels s j sd)" "feed_ok s \<Longrightarrow> feed_ok s'"
proof -
  define i where "i = so_instrument (me_order s h)"
  define sd where "sd = so_side (me_order s h)"
  have g: "me_rep {} s Q" using good by (simp add: me_good_def)
  note R = me_repD [OF g]
  have h: "h \<in> me_live s" "order_key (me_order s h) = me_key a orig" using R(7) f by auto
  obtain k' xs ys where K: "i < me_count s" "k' < length (Q i sd)" "Q i sd ! k' = xs @ h # ys"
    "pv_price (me_levels s i sd ! k') = so_price (me_order s h)"
    "sb_find (me_books s i) sd (so_price (me_order s h)) = Some k'"
    using resting_place [OF good h(1)] unfolding i_def sd_def by metis
  have kk: "k' = k" using K(5) k by (simp add: i_def sd_def)
  note K = K [unfolded kk]
  have kv: "k < length (me_levels s i sd)" by (rule member_split(5) [OF g K(1-3)])
  define x where "x = (me_order s h)\<lparr>so_order_id := me_next_order_id s, so_cl_ord_id := new_id, so_qty := q,
                                so_cum_qty := 0, so_created := now\<rparr>"
  define s3 where "s3 = upd_level i sd k (\<lambda>l. l\<lparr>pv_qty := pv_qty l - (so_leaves (me_order s h) - q)\<rparr>)
     ((emit (OnCancel (me_order s h) CrReplaced now) s)
        \<lparr>me_by_key := fst (ohm_erase (me_by_key (emit (OnCancel (me_order s h) CrReplaced now) s)) (me_key a orig))\<rparr>)"
  define s4 where "s4 = upd_sim h (\<lambda>x. x\<lparr>so_order_id := me_next_order_id s3, so_cl_ord_id := new_id, so_qty := q,
                                so_cum_qty := 0, so_created := now\<rparr>) (s3\<lparr>me_next_order_id := me_next_order_id s3 + 1\<rparr>)"
  define s5 where "s5 = s4\<lparr>me_by_key := fst (ohm_insert (me_by_key s4) (me_key a new_id) h)\<rparr>"
  define s6 where "s6 = (if q \<noteq> so_leaves (me_order s h) then book_changed i sd k s5 else s5)"
  have eq: "s' = emit (OnAck (me_order s6 h) now) s6" "r = submit_result_zero\<lparr>sr_order_id := so_order_id (me_order s6 h), sr_resting := q\<rparr>"
    using res unfolding amend_order_def Let_def i_def [symmetric] sd_def [symmetric]
      s3_def [symmetric] s4_def [symmetric] s5_def [symmetric] s6_def [symmetric] by simp_all
  have f3: "me_order s3 = me_order s" "me_pool s3 = me_pool s" "me_next_order_id s3 = me_next_order_id s" "me_count s3 = me_count s"
    "me_log s3 = OnCancel (me_order s h) CrReplaced now # me_log s" "me_by_key s3 = fst (ohm_erase (me_by_key s) (me_key a orig))"
    "me_sink s3 = me_sink s" "me_stp s3 = me_stp s" "me_ledgers s3 = me_ledgers s"
    unfolding s3_def by (simp_all add: me_order_def [abs_def])
  have pool: "me_pool s' = pool_put (me_pool s) h x"
    unfolding eq s6_def s5_def s4_def upd_sim_def x_def by (simp add: f3 me_order_def)
  have P: "pool_inv (me_pool s')" "me_live s' = me_live s" "pl_capacity (me_pool s') = pl_capacity (me_pool s)"
    "pool_get (me_pool s') = (pool_get (me_pool s))(h \<mapsto> x)"
    using pool.put_law [OF R(1) h(1), of x] unfolding pool by simp_all
  have ord: "me_order s' = (me_order s)(h := x)" by (simp add: me_order_def P(4) fun_eq_iff)
  have fr: "me_count s' = me_count s" "me_sink s' = me_sink s" "me_stp s' = me_stp s" "me_ledgers s' = me_ledgers s"
    "me_next_order_id s' = Suc (me_next_order_id s)"
    "me_by_key s' = fst (ohm_insert (fst (ohm_erase (me_by_key s) (me_key a orig))) (me_key a new_id) h)"
    unfolding eq s6_def s5_def s4_def by (simp_all add: f3)
  note M = amend_keys [OF g f new fr(6)]
  have lx: "so_leaves x = q" by (simp add: x_def so_leaves_def)
  have lv: "me_levels s' = (\<lambda>j sd'. if j = i \<and> sd' = sd
       then (me_levels s i sd)[k := (me_levels s i sd ! k)\<lparr>pv_qty := pv_qty (me_levels s i sd ! k) + so_leaves x - so_leaves (me_order s h)\<rparr>]
       else me_levels s j sd')"
  proof -
    have "me_levels s' = me_levels s3" unfolding eq s6_def s5_def s4_def by (simp add: fun_eq_iff)
    also have "\<dots> = (\<lambda>j sd'. if j = i \<and> sd' = sd
       then (me_levels s i sd)[k := (me_levels s i sd ! k)\<lparr>pv_qty := pv_qty (me_levels s i sd ! k) - (so_leaves (me_order s h) - q)\<rparr>]
       else me_levels s j sd')"
      unfolding s3_def by (intro ext) simp
    also have "pv_qty (me_levels s i sd ! k) - (so_leaves (me_order s h) - q) = pv_qty (me_levels s i sd ! k) + so_leaves x - so_leaves (me_order s h)"
      by (simp add: lx)
    finally show ?thesis .
  qed
  have key: "order_key x = me_key a new_id"
    using me_key_account [of "so_account (me_order s h)" "so_cl_ord_id (me_order s h)" a orig new_id] h(2) by (simp add: order_key_def x_def)
  have good': "me_good s' Q"
  proof (rule rewrite_rep [OF good K(1,2) _ ord P(2,1,3) fr(1) lv])
    show "ohm_find (me_by_key s') ky = Some g \<longleftrightarrow> g \<in> me_live s \<and> order_key (me_order s' g) = ky" for ky g
    proof (cases "g = h")
      case True
      have "ohm_find (me_by_key s) ky = Some h \<longleftrightarrow> ky = me_key a orig" using R(7) [of ky h] h by auto
      then show ?thesis using True h(1) key f new unfolding M(3) ord by (auto simp: ohm_contains_def)
    next
      case False
      have "ohm_find (me_by_key s) (me_key a new_id) = None" using new by (simp add: ohm_contains_def)
      then show ?thesis using False f R(7) [of ky g] R(7) [of "me_key a new_id" g] unfolding M(3) ord by auto
    qed
  qed (use M q K(3) in \<open>simp_all add: lx fr, simp_all add: x_def\<close>)
  have map: "map pv_price (me_levels s' j sd') = map pv_price (me_levels s j sd')" for j sd'
    using kv by (auto simp: lv intro: nth_equalityI simp: nth_list_update)
  have oh: "me_order s6 h = x" using fun_cong [OF ord, of h] by (simp add: eq)
  show thesis
  proof (cases "q = so_leaves (me_order s h)")
    case True
    have lvs: "me_levels s' = me_levels s" using True lv lx by (auto simp: fun_eq_iff)
    have log: "me_log s' = [OnAck x now, OnCancel (me_order s h) CrReplaced now] @ me_log s"
      unfolding eq oh using True by (simp add: s6_def s5_def s4_def f3)
    have feed: "feed_ok s'" if "feed_ok s" by (rule feed_keep [OF that log]) (simp_all add: no_change_def fr lvs)
    show thesis
      by (rule that [OF good' P(2) ord [unfolded x_def] _ _ fr(1-4) log _ h(1) map feed])
        (simp_all add: eq(2) oh M(3) no_fills_def, simp_all add: x_def)
  next
    case False
    define l where "l = me_levels s' i sd ! k"
    have pl: "pv_price l = so_price (me_order s h)" using kv K(4) by (simp add: l_def lv)
    have l5: "me_levels s5 i sd ! k = l" unfolding l_def eq s6_def using False by simp
    have log5: "me_log s5 = OnCancel (me_order s h) CrReplaced now # me_log s" by (simp add: s5_def s4_def f3)
    have log: "me_log s' = [OnAck x now, OnBookChange i sd (pv_price l) (pv_qty l) (Suc (sb_update_id (me_books s5 i))),
         OnCancel (me_order s h) CrReplaced now] @ me_log s"
      unfolding eq oh using False by (simp add: s6_def l5 log5)
    have feed: "feed_ok s'" if "feed_ok s"
    proof -
      have l6: "me_levels s6 = me_levels s'" "me_good s6 Q" using good' by (simp_all add: eq)
      have g6: "me_log s6 = OnBookChange i sd (pv_price l) (pv_qty l) (Suc (sb_update_id (me_books s5 i))) #
            [OnCancel (me_order s h) CrReplaced now] @ me_log s" using log by (simp add: eq)
      have le: "l = (me_levels s i sd ! k)\<lparr>pv_qty := pv_qty (me_levels s i sd ! k) + so_leaves x - so_leaves (me_order s h)\<rparr>"
        using kv by (simp add: l_def lv)
      have lv6: "me_levels s6 = (\<lambda>j sd'. if j = i \<and> sd' = sd then (me_levels s i sd)[k := l] else me_levels s j sd')"
        unfolding l6(1) lv le by (rule refl)
      have c6: "me_count s6 = me_count s" using fr(1) by (simp add: eq)
      have "feed_ok s6"
        by (rule rewrite_feed [OF that l6(2) K(1) kv lv6 _ c6 g6]) (simp_all add: le no_change_def)
      then show ?thesis by (rule feed_keep [where evs = "[OnAck x now]"]) (simp_all add: eq oh no_change_def)
    qed
    show thesis
      by (rule that [OF good' P(2) ord [unfolded x_def] _ _ fr(1-4) log _ h(1) map feed])
        (simp_all add: eq(2) oh M(3) no_fills_def, simp_all add: x_def)
  qed
qed

section \<open>What every operation keeps\<close>

definition op_ok :: "matching_engine \<Rightarrow> matching_engine \<Rightarrow> bool" where
  "op_ok s s' \<longleftrightarrow> me_inv s' \<and> (feed_ok s \<longrightarrow> feed_ok s') \<and> ledger_nets (me_ledgers s') = ledger_nets (me_ledgers s) \<and>
     me_count s' = me_count s \<and> me_sink s' = me_sink s"

lemma op_ok_trans: "op_ok s s1 \<Longrightarrow> op_ok s1 s2 \<Longrightarrow> op_ok s s2"
  by (auto simp: op_ok_def)

lemma op_okI:
  assumes "me_good s' Q" "uncrossed s" "feed_ok s \<Longrightarrow> feed_ok s'" "me_ledgers s' = me_ledgers s"
    "me_count s' = me_count s" "me_sink s' = me_sink s"
    "\<And>i sd. i < me_count s \<Longrightarrow> pv_price ` set (me_levels s' i sd) \<subseteq> pv_price ` set (me_levels s i sd)"
  shows "op_ok s s'"
  unfolding op_ok_def me_inv_good using assms uncrossed_mono [OF assms(2,5,7)] by auto

lemma stats_op:
  assumes "me_inv s"
  shows "op_ok s (upd_mstats f s)" "\<not> is_change e \<Longrightarrow> op_ok s (emit e s)"
proof -
  obtain Q where g: "me_good s Q" "uncrossed s" using assms me_inv_good by blast
  show "op_ok s (upd_mstats f s)"
    by (rule op_okI [where Q = Q, OF _ g(2)]) (use g(1) in \<open>simp_all add: feed_ok_def\<close>)
  show "op_ok s (emit e s)" if "\<not> is_change e"
  proof (rule op_okI [where Q = Q, OF _ g(2)])
    show "feed_ok (emit e s)" if "feed_ok s"
      by (rule feed_keep [OF that, where evs = "[e]"]) (use \<open>\<not> is_change e\<close> in \<open>simp_all add: no_change_def\<close>)
  qed (use g(1) in simp_all)
qed

lemma event_op: "me_inv s \<Longrightarrow> \<not> is_change e \<Longrightarrow> op_ok s (emit e (upd_mstats f s))"
  using op_ok_trans [OF stats_op(1) stats_op(2)] stats_op(1) by (simp add: op_ok_def)

lemma submit_op:
  assumes "me_inv s" "sink_ok (me_sink s)"
  obtains s' r where "submit_order od now s = Some (s', r)" "op_ok s s'"
proof -
  obtain Q where g: "me_good s Q" "uncrossed s" using assms(1) me_inv_good by blast
  obtain s' r Q' evs where r: "submit_order od now s = Some (s', r)" "submit_ok od now s Q s' r Q' evs"
    using submit_total [OF g(1) assms(2)] by blast
  then have "op_ok s s'" using g(2) unfolding submit_ok_def op_ok_def me_inv_good by blast
  then show thesis using that r(1) by blast
qed

lemma remove_op:
  assumes "me_inv s" "h \<in> me_live s"
  shows "op_ok s (remove_resting h why now s)"
proof -
  obtain Q where g: "me_good s Q" "uncrossed s" using assms(1) me_inv_good by blast
  let ?s' = "remove_resting h why now s" and ?i = "so_instrument (me_order s h)" and ?sd = "so_side (me_order s h)"
  show ?thesis
  proof (rule remove_resting_good [OF g(1) assms(2) refl refl refl, of why now])
    fix Q' od x u
    assume g': "me_good ?s' Q'" and fr: "me_count ?s' = me_count s" "me_sink ?s' = me_sink s" "me_ledgers ?s' = me_ledgers s"
      and lv: "\<And>j sd'. \<not> (j = ?i \<and> sd' = ?sd) \<Longrightarrow> Q' j sd' = Q j sd' \<and> me_levels ?s' j sd' = me_levels s j sd'"
        "pv_price ` set (me_levels ?s' ?i ?sd) \<subseteq> pv_price ` set (me_levels s ?i ?sd)"
      and f: "feed_ok s \<Longrightarrow> feed_ok ?s'"
    show ?thesis
    proof (rule op_okI [OF g' g(2) f fr(3,1,2)])
      show "pv_price ` set (me_levels ?s' j sd') \<subseteq> pv_price ` set (me_levels s j sd')" for j sd'
        using lv(1) [of j sd'] lv(2) by (cases "j = ?i \<and> sd' = ?sd") auto
    qed
  qed
qed

lemma key_live:
  assumes "me_inv s" "ohm_find (me_by_key s) k = Some h"
  shows "h \<in> me_live s"
proof -
  obtain Q where "me_rep {} s Q" using assms(1) by (auto simp: me_inv_def)
  then show ?thesis using me_repD(7) assms(2) by blast
qed

lemma op_ok_inv: "op_ok s s' \<Longrightarrow> me_inv s'"
  by (simp add: op_ok_def)

lemma cancel_op:
  assumes "me_inv s"
  shows "op_ok s (fst (cancel_order a cid now s))"
proof (cases "ohm_find (me_by_key s) (me_key a cid)")
  case None
  let ?f = "\<lambda>m. m\<lparr>ms_cancel_rejects := ms_cancel_rejects m + 1\<rparr>"
  have "op_ok s (emit (OnCancelReject a cid instrument_invalid now) (upd_mstats ?f s))"
    by (rule event_op [OF assms]) simp
  then show ?thesis using None by (simp add: cancel_order_def)
next
  case (Some h)
  let ?s = "upd_mstats (\<lambda>m. m\<lparr>ms_cancels := ms_cancels m + 1\<rparr>) s"
  have s1: "op_ok s ?s" by (rule stats_op(1) [OF assms])
  have "h \<in> me_live ?s" using key_live [OF assms Some] by simp
  then have "op_ok s (remove_resting h CrRequested now ?s)" using op_ok_trans [OF s1 remove_op [OF op_ok_inv [OF s1]]] by blast
  then show ?thesis using Some by (simp add: cancel_order_def)
qed

lemma replace_op:
  assumes inv: "me_inv s0" and sk: "sink_ok (me_sink s0)"
  obtains s' r where "replace_order a orig new_id px q now s0 = Some (s', r)" "op_ok s0 s'"
proof -
  define s where "s = upd_mstats (\<lambda>m. m\<lparr>ms_replaces := ms_replaces m + 1\<rparr>) s0"
  have s: "op_ok s0 s" unfolding s_def by (rule stats_op(1) [OF inv])
  have sks: "sink_ok (me_sink s)" using sk by (simp add: s_def)
  note i = op_ok_inv [OF s]
  show thesis
  proof (cases "ohm_find (me_by_key s) (me_key a orig)")
    case None
    define s1 where "s1 = emit (OnCancelReject a orig instrument_invalid now) (upd_mstats (\<lambda>m. m\<lparr>ms_cancel_rejects := ms_cancel_rejects m + 1\<rparr>) s)"
    have s1: "op_ok s s1"
      unfolding s1_def by (rule event_op [OF i]) simp
    obtain n where n: "replace_order a orig new_id px q now s0 = Some (reject n VenueUnknownOrder now s1)"
      using None unfolding replace_order_def Let_def s_def [symmetric] s1_def by simp
    have "op_ok s1 (fst (reject n VenueUnknownOrder now s1))"
      unfolding reject_def fst_conv by (rule event_op [OF op_ok_inv [OF s1]]) simp
    then show thesis using that n op_ok_trans [OF s] op_ok_trans [OF s1] by (metis prod.collapse)
  next
    case (Some h)
    note hl = key_live [OF i Some]
    obtain Q where g: "me_good s Q" "uncrossed s" using i me_inv_good by blast
    obtain k where k: "sb_find (me_books s (so_instrument (me_order s h))) (so_side (me_order s h)) (so_price (me_order s h)) = Some k"
      using resting_place [OF g(1) hl] by blast
    show thesis
    proof (cases "q > 0 \<and> px = so_price (me_order s h) \<and> q \<le> so_leaves (me_order s h) \<and> \<not> ohm_contains (me_by_key s) (me_key a new_id)")
      case True
      obtain s' r where a: "amend_order a orig new_id q now h k s = (s', r)" by fastforce
      have e: "replace_order a orig new_id px q now s0 = Some (s', r)"
        using Some True k a unfolding replace_order_def Let_def s_def [symmetric] by simp
      have "op_ok s s'"
      proof (rule amend_good [OF g(1) Some _ _ _ k a])
        assume "me_good s' Q" "me_count s' = me_count s" "me_sink s' = me_sink s" "me_ledgers s' = me_ledgers s"
          and m: "\<And>j sd. map pv_price (me_levels s' j sd) = map pv_price (me_levels s j sd)" and "feed_ok s \<Longrightarrow> feed_ok s'"
        then show "op_ok s s'"
          by (intro op_okI [OF _ g(2)]) (auto simp: arg_cong [OF m, of set, simplified])
      qed (use True in simp_all)
      then show thesis using that e op_ok_trans [OF s] by blast
    next
      case False
      let ?s1 = "remove_resting h CrReplaced now s"
      have s1: "op_ok s ?s1" by (rule remove_op [OF i hl])
      have sk1: "sink_ok (me_sink ?s1)" using s1 sks by (simp add: op_ok_def)
      obtain s' r where r: "submit_order
                  \<lparr>no_account = a, no_cl_ord_id = new_id, no_instrument = so_instrument (me_order s h), no_side = so_side (me_order s h),
                   no_type = so_type (me_order s h), no_tif = so_tif (me_order s h), no_price = px, no_qty = q,
                   no_reduce_only = so_reduce_only (me_order s h)\<rparr> now ?s1 = Some (s', r)" "op_ok ?s1 s'"
        by (rule submit_op [OF op_ok_inv [OF s1] sk1])
      have e: "replace_order a orig new_id px q now s0 = Some (s', r)"
        using r(1) by (simp only: replace_order_def Let_def s_def [symmetric] Some option.case False if_False)
      then show thesis using that r(2) op_ok_trans [OF s] op_ok_trans [OF s1] by blast
    qed
  qed
qed

section \<open>Mirrored decreases\<close>

lemma newest_queue:
  assumes "lseg (me_order s) kNullHandle hh q tt n"
  shows "\<exists>h. newest_of s a (last_or kNullHandle q) = Some h \<and>
    (h = kNullHandle \<and> (\<forall>g\<in>set q. so_account (me_order s g) \<noteq> a) \<or> h \<in> set q \<and> so_account (me_order s h) = a)"
  using assms
proof (induction q arbitrary: tt n rule: rev_induct)
  case Nil
  then show ?case by (subst newest_of.simps) simp
next
  case (snoc x q)
  have l: "lseg (me_order s) kNullHandle hh q (last_or kNullHandle q) x" "x \<noteq> kNullHandle" "so_prev (me_order s x) = last_or kNullHandle q"
    using snoc.prems by (simp_all add: lseg_append)
  show ?case
  proof (cases "so_account (me_order s x) = a")
    case True
    then have "newest_of s a x = Some x" by (subst newest_of.simps) simp
    then show ?thesis using True by auto
  next
    case False
    have "newest_of s a x = newest_of s a (last_or kNullHandle q)" using False l by (subst newest_of.simps) simp
    then show ?thesis using snoc.IH [OF l(1)] False by auto
  qed
qed

lemma account_sum_queue:
  "lseg (me_order s) p idx q u kNullHandle \<Longrightarrow>
   account_sum s a idx acc = Some (acc + (\<Sum>g\<leftarrow>filter (\<lambda>g. so_account (me_order s g) = a) q. so_leaves (me_order s g)))"
proof (induction q arbitrary: p idx acc)
  case Nil
  then show ?case by (subst account_sum.simps) simp
next
  case (Cons h q)
  have "account_sum s a idx acc = account_sum s a (so_next (me_order s h))
      (if so_account (me_order s h) = a then acc + so_leaves (me_order s h) else acc)"
    using Cons.prems by (subst account_sum.simps) (simp add: Let_def)
  then show ?case using Cons by auto
qed

text \<open>The quantity of an account at a price.\<close>

definition acct_at :: "matching_engine \<Rightarrow> account_id \<Rightarrow> nat list \<Rightarrow> price \<Rightarrow> qty" where
  "acct_at s a P px = (\<Sum>g\<leftarrow>filter (\<lambda>g. so_account (me_order s g) = a) (filter (\<lambda>g. so_price (me_order s g) = px) P). so_leaves (me_order s g))"

lemma filter_price:
  assumes ok: "side_ok ord i sd v qs"
  shows "k < length qs \<Longrightarrow> pv_price (v ! k) = px \<Longrightarrow> filter (\<lambda>g. so_price (ord g) = px) (concat (rev qs)) = qs ! k"
    "px \<notin> pv_price ` set v \<Longrightarrow> filter (\<lambda>g. so_price (ord g) = px) (concat (rev qs)) = []"
proof -
  have len: "length qs = length v" by (rule side_ok_length [OF ok])
  have pr: "so_price (ord g) = pv_price (v ! j)" if "j < length qs" "g \<in> set (qs ! j)" for j g
    using queue_okD(5) [OF side_okD(1) [OF ok that(1)]] that(2) by blast
  show "filter (\<lambda>g. so_price (ord g) = px) (concat (rev qs)) = []" if n: "px \<notin> pv_price ` set v"
  proof -
    have "so_price (ord g) \<noteq> px" if g: "g \<in> set (concat qs)" for g
    proof -
      obtain j where j: "j < length qs" "g \<in> set (qs ! j)" using g unfolding in_concat_nth by blast
      then show ?thesis using pr [OF j] n nth_mem [of j v] len by (metis image_eqI)
    qed
    then show ?thesis by (simp add: filter_empty_conv)
  qed
  assume k: "k < length qs" "pv_price (v ! k) = px"
  have b: "best_last sd v" using ok by (simp add: side_ok_def)
  have other: "so_price (ord g) \<noteq> px" if "j < length qs" "g \<in> set (qs ! j)" "j \<noteq> k" for j g
    using pr [OF that(1,2)] best_last_inj [OF b, of j k] that k len by auto
  have up: "filter (\<lambda>g. so_price (ord g) = px) (concat (rev (drop (Suc k) qs))) = []"
  proof -
    have "so_price (ord g) \<noteq> px" if g: "g \<in> set (concat (drop (Suc k) qs))" for g
    proof -
      obtain j where j: "j < length (drop (Suc k) qs)" "g \<in> set (drop (Suc k) qs ! j)" using g unfolding in_concat_nth by blast
      then have "Suc k + j < length qs" "g \<in> set (qs ! (Suc k + j))" by simp_all
      then show ?thesis by (rule other) simp
    qed
    then show ?thesis by (simp add: filter_empty_conv)
  qed
  have down: "filter (\<lambda>g. so_price (ord g) = px) (concat (rev (take k qs))) = []"
  proof -
    have "so_price (ord g) \<noteq> px" if g: "g \<in> set (concat (take k qs))" for g
    proof -
      obtain j where j: "j < length (take k qs)" "g \<in> set (take k qs ! j)" using g unfolding in_concat_nth by blast
      then have "j < length qs" "g \<in> set (qs ! j)" "j \<noteq> k" by simp_all
      then show ?thesis by (rule other)
    qed
    then show ?thesis by (simp add: filter_empty_conv)
  qed
  have here: "filter (\<lambda>g. so_price (ord g) = px) (qs ! k) = qs ! k" using pr [OF k(1)] k(2) by (simp add: filter_id_conv)
  have "concat (rev qs) = concat (rev (drop (Suc k) qs)) @ qs ! k @ concat (rev (take k qs))"
    using arg_cong [OF id_take_nth_drop [OF k(1)], of "\<lambda>x. concat (rev x)"]
    by (simp only: rev_append rev.simps concat_append concat.simps append_assoc append.simps append_Nil2)
  then show "filter (\<lambda>g. so_price (ord g) = px) (concat (rev qs)) = qs ! k" using up down here by simp
qed

lemma account_qty_prio:
  assumes rep: "me_rep X s Q" and i: "i < me_count s"
  shows "account_qty_at s a i sd px = Some (acct_at s a (prio Q i sd) px)"
proof -
  note ok = me_repD(4) [OF assms, of sd]
  have b: "best_last sd (sb_levels (me_books s i) sd)" using ok by (simp add: side_ok_def me_levels_def)
  show ?thesis
  proof (cases "sb_find (me_books s i) sd px")
    case None
    then have "px \<notin> pv_price ` set (me_levels s i sd)" using sb_find_None [OF b] by (simp add: me_levels_def)
    then show ?thesis using None i filter_price(2) [OF ok] by (simp add: account_qty_at_def acct_at_def prio_def)
  next
    case (Some k)
    then have k: "k < length (me_levels s i sd)" "pv_price (me_levels s i sd ! k) = px" using sb_find_Some [OF b] by (simp_all add: me_levels_def)
    have kq: "k < length (Q i sd)" using k side_ok_length [OF ok] by simp
    have "account_sum s a (pv_head (me_levels s i sd ! k)) 0 =
        Some (0 + (\<Sum>g\<leftarrow>filter (\<lambda>g. so_account (me_order s g) = a) (Q i sd ! k). so_leaves (me_order s g)))"
      by (rule account_sum_queue [OF queue_okD(2) [OF side_okD(1) [OF ok kq]]])
    then show ?thesis using Some i filter_price(1) [OF ok kq k(2)]
      by (simp add: account_qty_at_def acct_at_def prio_def me_level_levels)
  qed
qed

definition acct_of :: "matching_engine \<Rightarrow> account_id \<Rightarrow> price \<Rightarrow> nat \<Rightarrow> qty" where
  "acct_of s a px g = (if so_account (me_order s g) = a \<and> so_price (me_order s g) = px then so_leaves (me_order s g) else 0)"

lemma acct_at_sum: "distinct P \<Longrightarrow> acct_at s a P px = (\<Sum>g\<in>set P. acct_of s a px g)"
proof (induction P)
  case (Cons g P)
  have "acct_at s a (g # P) px = acct_of s a px g + acct_at s a P px" by (simp add: acct_at_def acct_of_def)
  then show ?case using Cons by simp
qed (simp add: acct_at_def)

lemma acct_of_data:
  assumes "so_data (me_order s' g) = so_data (me_order s g)"
  shows "acct_of s' a px g = acct_of s a px g"
  unfolding acct_of_def so_dataD [OF assms] by (rule refl)

lemma acct_at_removed:
  assumes d: "distinct P" and h: "h \<in> set P" and o: "\<And>g. g \<noteq> h \<Longrightarrow> so_data (me_order s' g) = so_data (me_order s g)"
  shows "acct_at s' a (filter (\<lambda>g. g \<noteq> h) P) px = acct_at s a P px - acct_of s a px h"
proof -
  have "(\<Sum>g\<in>set P. acct_of s a px g) = acct_of s a px h + (\<Sum>g\<in>set P - {h}. acct_of s a px g)" using h by (simp add: sum.remove)
  moreover have "(\<Sum>g\<in>set P - {h}. acct_of s' a px g) = (\<Sum>g\<in>set P - {h}. acct_of s a px g)"
    by (rule sum.cong [OF refl], rule acct_of_data, rule o) simp
  moreover have "set (filter (\<lambda>g. g \<noteq> h) P) = set P - {h}" by auto
  ultimately show ?thesis using d by (simp add: acct_at_sum)
qed

lemma acct_at_rewritten:
  assumes d: "distinct P" and h: "h \<in> set P" and o: "\<And>g. g \<noteq> h \<Longrightarrow> me_order s' g = me_order s g"
  shows "acct_at s' a P px = acct_at s a P px - acct_of s a px h + acct_of s' a px h"
proof -
  have "(\<Sum>g\<in>set P - {h}. acct_of s' a px g) = (\<Sum>g\<in>set P - {h}. acct_of s a px g)"
    by (rule sum.cong [OF refl]) (simp add: o acct_of_def)
  then show ?thesis using d h by (simp add: acct_at_sum sum.remove [of "set P" h])
qed

lemma acct_of_nonneg: "me_good s Q \<Longrightarrow> i < me_count s \<Longrightarrow> g \<in> set (prio Q i sd) \<Longrightarrow> 0 \<le> acct_of s a px g"
  using prio_live [of "{}" s Q i sd] by (auto simp: acct_of_def me_good_def all_open_def intro!: less_imp_le)

text \<open>A partial decrease rewrites the newest order.\<close>

lemma shrink_ok:
  assumes good: "me_good s Q" and u: "uncrossed s" and i: "i < me_count s" and k: "k < length (Q i sd)" and h: "h \<in> set (Q i sd ! k)"
    and amount: "0 < amount" "amount < so_leaves (me_order s h)"
    and s': "s' = book_changed i sd k (upd_level i sd k (\<lambda>l. l\<lparr>pv_qty := pv_qty l - amount\<rparr>)
                (upd_sim h (\<lambda>x. x\<lparr>so_qty := so_qty x - amount\<rparr>) s))"
  shows "op_ok s s'" "me_good s' Q" "me_order s' = (me_order s)(h := (me_order s h)\<lparr>so_qty := so_qty (me_order s h) - amount\<rparr>)"
proof -
  have g: "me_rep {} s Q" using good by (simp add: me_good_def)
  note R = me_repD [OF g] and q = queue_okD [OF side_okD(1) [OF me_repD(4) [OF g i] k]]
  have kv: "k < length (me_levels s i sd)" by (rule side_okD(2) [OF R(4) [OF i] k])
  let ?x = "(me_order s h)\<lparr>so_qty := so_qty (me_order s h) - amount\<rparr>"
  let ?l = "(me_levels s i sd ! k)\<lparr>pv_qty := pv_qty (me_levels s i sd ! k) + so_leaves ?x - so_leaves (me_order s h)\<rparr>"
  show ord: "me_order s' = (me_order s)(h := ?x)" unfolding s' by (simp add: fun_eq_iff)
  have lx: "so_leaves ?x = so_leaves (me_order s h) - amount" by (simp add: so_leaves_def)
  have lv: "me_levels s' = (\<lambda>j sd'. if j = i \<and> sd' = sd then (me_levels s i sd)[k := ?l] else me_levels s j sd')"
    unfolding s' lx by (intro ext) (simp add: algebra_simps)
  have hl: "h \<in> me_live s" using R(5) queuedI [of i s h Q sd] i k h in_concat_nth [of h "Q i sd"] by blast
  have fr: "me_count s' = me_count s" "me_by_key s' = me_by_key s" "me_next_order_id s' = me_next_order_id s"
    "me_sink s' = me_sink s" "me_ledgers s' = me_ledgers s" "me_live s' = me_live s" "pl_capacity (me_pool s') = pl_capacity (me_pool s)"
    "pool_inv (me_pool s')"
    unfolding s' using R(1) hl by simp_all
  have "0 \<le> so_cum_qty (me_order s h)" using q(5) h by blast
  moreover have "order_key (me_order s' g) = order_key (me_order s g)" for g by (simp add: ord order_key_def)
  ultimately show good': "me_good s' Q"
    by (intro rewrite_rep [OF good i k h ord fr(6,8,7,1) lv]) (use R R(9) [OF hl] amount fr lx in simp_all)
  show "op_ok s s'"
  proof (rule op_okI [OF good' u _ fr(5,1,4)])
    obtain n where log: "me_log s' = OnBookChange i sd (pv_price ?l) (pv_qty ?l) n # [] @ me_log s"
      unfolding s' lx using kv by (simp add: algebra_simps)
    show "feed_ok s'" if "feed_ok s" by (rule rewrite_feed [OF that good' i kv lv _ fr(1) log]) simp_all
    have "map pv_price ((me_levels s i sd)[k := ?l]) = map pv_price (me_levels s i sd)"
      using kv by (simp add: map_update list_update_same_conv)
    then have "map pv_price (me_levels s' j sd') = map pv_price (me_levels s j sd')" for j sd' by (simp add: lv)
    then show "pv_price ` set (me_levels s' j sd') \<subseteq> pv_price ` set (me_levels s j sd')" for j sd'
      by (metis list.set_map order_refl)
  qed
qed

lemma reduce_loop_ok:
  assumes "me_inv s" "i < me_count s"
  shows "\<exists>s'. reduce_loop a i sd px amount now s = Some s' \<and> op_ok s s' \<and>
    (\<forall>a'. account_qty_at s' a' i sd px =
       map_option (\<lambda>x. if a' = a \<and> 0 < amount then max 0 (x - amount) else x) (account_qty_at s a' i sd px))"
  using assms
proof (induction "card (me_live s)" arbitrary: s amount rule: less_induct)
  case less
  obtain Q where g: "me_good s Q" "uncrossed s" using less.prems(1) me_inv_good by blast
  have rep: "me_rep {} s Q" using g(1) by (simp add: me_good_def)
  note R = me_repD [OF rep] and ok = me_repD(4) [OF rep less.prems(2), of sd] and aq = account_qty_prio [OF rep less.prems(2)]
  have dp: "distinct (prio Q i sd)" by (rule distinct_prio [OF rep less.prems(2)])
  have b: "best_last sd (sb_levels (me_books s i) sd)" using ok by (simp add: side_ok_def me_levels_def)
  have self: "op_ok s s" using less.prems(1) by (simp add: op_ok_def)
  show ?case
  proof (cases "amount > 0")
    case False
    then have "reduce_loop a i sd px amount now s = Some s" by (subst reduce_loop.simps) simp
    then show ?thesis using self False by (auto simp: option.map_ident)
  next
    case pos: True
    have stays: ?thesis if "reduce_loop a i sd px amount now s = Some s" "acct_at s a (prio Q i sd) px = 0"
      using that self pos aq by auto
    show ?thesis
    proof (cases "sb_find (me_books s i) sd px")
      case None
      then have "px \<notin> pv_price ` set (me_levels s i sd)" using sb_find_None [OF b] by (simp add: me_levels_def)
      then have "acct_at s a (prio Q i sd) px = 0" using filter_price(2) [OF ok] by (simp add: acct_at_def prio_def)
      moreover have "reduce_loop a i sd px amount now s = Some s" using None pos by (subst reduce_loop.simps) simp
      ultimately show ?thesis using stays by blast
    next
      case (Some k)
      then have k: "k < length (me_levels s i sd)" "pv_price (me_levels s i sd ! k) = px" using sb_find_Some [OF b] by (simp_all add: me_levels_def)
      have kq: "k < length (Q i sd)" using k side_ok_length [OF ok] by simp
      note q = queue_okD [OF side_okD(1) [OF ok kq]]
      have fp: "filter (\<lambda>g. so_price (me_order s g) = px) (prio Q i sd) = Q i sd ! k"
        using filter_price(1) [OF ok kq k(2)] by (simp add: prio_def)
      obtain h where h: "newest_of s a (pv_tail (me_levels s i sd ! k)) = Some h"
        "h = kNullHandle \<and> (\<forall>g\<in>set (Q i sd ! k). so_account (me_order s g) \<noteq> a) \<or> h \<in> set (Q i sd ! k) \<and> so_account (me_order s h) = a"
        using newest_queue [OF q(2), of a] lseg_ends [OF q(2)] by auto
      have loop: "reduce_loop a i sd px amount now s =
          (if h = kNullHandle then Some s
           else if so_leaves (me_order s h) \<le> amount
           then reduce_loop a i sd px (amount - so_leaves (me_order s h)) now
                  (remove_resting h CrRequested now (upd_mstats (\<lambda>m. m\<lparr>ms_cancels := ms_cancels m + 1\<rparr>) s))
           else Some (book_changed i sd k (upd_level i sd k (\<lambda>l. l\<lparr>pv_qty := pv_qty l - amount\<rparr>)
                        (upd_sim h (\<lambda>x. x\<lparr>so_qty := so_qty x - amount\<rparr>) s))))"
        using Some pos h(1) by (subst reduce_loop.simps) (simp add: me_level_levels)
      show ?thesis
      proof (cases "h = kNullHandle")
        case True
        then have "\<forall>g\<in>set (Q i sd ! k). so_account (me_order s g) \<noteq> a" using h(2) lseg_not_null [OF q(2)] by auto
        then have "acct_at s a (prio Q i sd) px = 0" unfolding acct_at_def fp by (simp add: filter_empty_conv)
        then show ?thesis using stays loop True by simp
      next
        case False
        then have hq: "h \<in> set (Q i sd ! k)" "so_account (me_order s h) = a" using h(2) by auto
        have hc: "h \<in> set (concat (Q i sd))" using hq kq unfolding in_concat_nth by blast
        have hp: "h \<in> set (prio Q i sd)" using hc by (simp add: prio_def)
        have hl: "h \<in> me_live s" using R(5) queuedI [of i s h Q sd] hc less.prems(2) by blast
        have hd: "so_instrument (me_order s h) = i" "so_side (me_order s h) = sd" "so_price (me_order s h) = px" using q(5) hq k(2) by auto
        have ac: "acct_of s a' px h = (if a' = a then so_leaves (me_order s h) else 0)" for a' using hq hd by (simp add: acct_of_def)
        have opn: "0 < so_leaves (me_order s h)" using g(1) R(5) hl by (simp add: me_good_def all_open_def)
        show ?thesis
        proof (cases "so_leaves (me_order s h) \<le> amount")
          case True
          define s0 where "s0 = upd_mstats (\<lambda>m. m\<lparr>ms_cancels := ms_cancels m + 1\<rparr>) s"
          define s1 where "s1 = remove_resting h CrRequested now s0"
          have z: "me_good s0 Q" "h \<in> me_live s0" "me_order s0 = me_order s" "me_live s0 = me_live s" "me_count s0 = me_count s"
            using g(1) hl by (simp_all add: s0_def)
          have hd0: "i = so_instrument (me_order s0 h)" "sd = so_side (me_order s0 h)" using hd z(3) by simp_all
          obtain Q1 where Q1: "me_good s1 Q1" "me_live s1 = me_live s - {h}" "prio Q1 i sd = filter (\<lambda>g. g \<noteq> h) (prio Q i sd)"
            "\<And>g. g \<noteq> h \<Longrightarrow> so_data (me_order s1 g) = so_data (me_order s g)" "me_count s1 = me_count s"
            by (rule remove_resting_good [OF z(1,2) hd0 s1_def]) (use z in auto)
          have op1: "op_ok s s1"
            unfolding s1_def s0_def using op_ok_trans [OF stats_op(1) [OF less.prems(1)] remove_op [OF op_ok_inv [OF stats_op(1) [OF less.prems(1)]]]] hl by simp
          have card: "card (me_live s1) < card (me_live s)" unfolding Q1(2) using hl by (intro psubset_card_mono) auto
          have i1: "i < me_count s1" using less.prems(2) Q1(5) by simp
          obtain s' where s': "reduce_loop a i sd px (amount - so_leaves (me_order s h)) now s1 = Some s'" "op_ok s1 s'"
            "\<And>a'. account_qty_at s' a' i sd px = map_option (\<lambda>x. if a' = a \<and> 0 < amount - so_leaves (me_order s h)
                then max 0 (x - (amount - so_leaves (me_order s h))) else x) (account_qty_at s1 a' i sd px)"
            using less.hyps [OF card op_ok_inv [OF op1] i1, of "amount - so_leaves (me_order s h)"] by auto
          have rep1: "me_rep {} s1 Q1" using Q1(1) by (simp add: me_good_def)
          have q1: "account_qty_at s1 a' i sd px = Some (acct_at s a' (prio Q i sd) px - (if a' = a then so_leaves (me_order s h) else 0))" for a'
            using account_qty_prio [OF rep1 i1, of a' sd px] acct_at_removed [OF dp hp Q1(4), of a' px] ac [of a'] Q1(3) by simp
          have nn: "0 \<le> acct_at s1 a (prio Q1 i sd) px"
            unfolding acct_at_sum [OF distinct_prio [OF rep1 i1]] using acct_of_nonneg [OF Q1(1) i1] by (rule sum_nonneg)
          have n1: "0 \<le> acct_at s a (prio Q i sd) px - so_leaves (me_order s h)"
            using nn account_qty_prio [OF rep1 i1, of a sd px] q1 [of a] by simp
          have "account_qty_at s' a' i sd px =
             map_option (\<lambda>x. if a' = a \<and> 0 < amount then max 0 (x - amount) else x) (account_qty_at s a' i sd px)" for a'
            using s'(3) [of a'] q1 [of a'] aq [of a' sd px] pos True n1 by auto
          moreover have "reduce_loop a i sd px amount now s = Some s'" using loop False True s'(1) by (simp add: s1_def s0_def)
          ultimately show ?thesis using op_ok_trans [OF op1 s'(2)] by blast
        next
          case part: False
          define s' where "s' = book_changed i sd k (upd_level i sd k (\<lambda>l. l\<lparr>pv_qty := pv_qty l - amount\<rparr>)
                        (upd_sim h (\<lambda>x. x\<lparr>so_qty := so_qty x - amount\<rparr>) s))"
          have lt: "amount < so_leaves (me_order s h)" using part by simp
          note S = shrink_ok [OF g less.prems(2) kq hq(1) pos lt s'_def]
          have rep1: "me_rep {} s' Q" "i < me_count s'" using S(1,2) less.prems(2) by (simp_all add: me_good_def op_ok_def)
          have "acct_of s' a' px h = (if a' = a then so_leaves (me_order s h) - amount else 0)" for a'
            using hq hd by (simp add: acct_of_def S(3) so_leaves_def)
          then have "acct_at s' a' (prio Q i sd) px = acct_at s a' (prio Q i sd) px - (if a' = a then amount else 0)" for a'
            using acct_at_rewritten [OF dp hp, of s' s a' px] ac [of a'] S(3) by simp
          moreover have "0 \<le> acct_at s a (prio Q i sd) px - so_leaves (me_order s h)"
          proof -
            have "0 \<le> (\<Sum>g\<in>set (prio Q i sd) - {h}. acct_of s a px g)"
              by (rule sum_nonneg, rule acct_of_nonneg [OF g(1) less.prems(2), of _ sd]) simp
            then show ?thesis using ac [of a] hp by (simp add: acct_at_sum [OF dp] sum.remove [of _ h])
          qed
          ultimately have "account_qty_at s' a' i sd px =
             map_option (\<lambda>x. if a' = a \<and> 0 < amount then max 0 (x - amount) else x) (account_qty_at s a' i sd px)" for a'
            using account_qty_prio [OF rep1, of a' sd px] aq [of a' sd px] pos lt by auto
          moreover have "reduce_loop a i sd px amount now s = Some s'" using loop False part by (simp add: s'_def)
          ultimately show ?thesis using S(1) by blast
        qed
      qed
    qed
  qed
qed

section \<open>A fresh engine\<close>

lemma warm_up_inv:
  assumes "pool_inv p" "\<And>xs. free_chain (pl_slots p) (pl_free_head p) xs \<Longrightarrow> set xs = {h. h < pl_unused p \<and> \<not> word_bit (pl_live p) h} \<Longrightarrow>
     free_chain (pl_slots (pool_warm_up p)) (pl_free_head p) xs"
  shows "pool_inv (pool_warm_up p)" "pool_live (pool_warm_up p) = pool_live p" "pl_capacity (pool_warm_up p) = pl_capacity p"
proof -
  show l: "pool_live (pool_warm_up p) = pool_live p" "pl_capacity (pool_warm_up p) = pl_capacity p"
    by (simp_all add: pool_warm_up_def pool_live_def)
  have e: "pl_unused (pool_warm_up p) = pl_unused p" "pl_live (pool_warm_up p) = pl_live p" "pl_size (pool_warm_up p) = pl_size p"
    "pl_free_head (pool_warm_up p) = pl_free_head p" by (simp_all add: pool_warm_up_def)
  show "pool_inv (pool_warm_up p)" using assms unfolding pool_inv_def l e by blast
qed

lemma fresh_pool:
  assumes "n < kNullHandle"
  shows "pool_inv (pool_warm_up (pool_new n :: 'a pool))" "pool_live (pool_warm_up (pool_new n :: 'a pool)) = {}"
    "pl_capacity (pool_warm_up (pool_new n :: 'a pool)) = n"
proof -
  note N = pool_new_inv [OF assms, where ?'a = 'a]
  have u: "pl_unused (pool_new n :: 'a pool) = 0" "pl_capacity (pool_new n :: 'a pool) = n" by (simp_all add: pool_new_def pool_reset_def)
  note W = warm_up_inv [OF conjunct1 [OF N]]
  have fc: "free_chain (pl_slots (pool_warm_up (pool_new n :: 'a pool))) (pl_free_head (pool_new n :: 'a pool)) xs"
    if "free_chain (pl_slots (pool_new n :: 'a pool)) (pl_free_head (pool_new n :: 'a pool)) xs"
      "set xs = {h. h < pl_unused (pool_new n :: 'a pool) \<and> \<not> word_bit (pl_live (pool_new n :: 'a pool)) h}" for xs
    using that u by auto
  show "pool_inv (pool_warm_up (pool_new n :: 'a pool))" "pool_live (pool_warm_up (pool_new n :: 'a pool)) = {}"
    "pl_capacity (pool_warm_up (pool_new n :: 'a pool)) = n"
    using W [OF fc] N u by simp_all
qed

lemma me_make_good:
  assumes b: "2 \<le> b" "b < 32"
  shows "me_inv (me_make b n sk)" "feed_ok (me_make b n sk)" "ledger_nets (me_ledgers (me_make b n sk)) = (0, 0)"
    "me_sink (me_make b n sk) = sk" "me_log (me_make b n sk) = []"
proof -
  let ?s = "me_make b n sk"
  have "(2 :: nat) ^ b \<le> 2 ^ 31" using b(2) by (intro power_increasing) simp_all
  then have small: "2 ^ b < kNullHandle" by (simp add: kNullHandle_def)
  note P = fresh_pool [OF small, where ?'a = sim_order]
  have H: "ohm_inv (ohm_new (b + 1) :: nat open_hash_map)" "ohm_find (ohm_new (b + 1) :: nat open_hash_map) = Map.empty"
    using ohm_new_inv [of "b + 1", where ?'v = nat] b(1) by simp_all
  have cap: "(2 :: nat) ^ b \<le> kMaxSize (2 ^ (b + 1))" by (simp add: kMaxSize_def)
  have f: "me_pool ?s = pool_warm_up (pool_new (2 ^ b))" "me_by_key ?s = ohm_new (b + 1)" "ohm_bits (ohm_new (b + 1) :: nat open_hash_map) = b + 1"
    by (simp_all add: me_make_def ohm_new_def)
  have l: "me_levels ?s i sd = []" for i sd by (cases sd) (simp_all add: me_levels_def me_make_def sb_new_def sb_levels_def)
  let ?Q = "\<lambda>i sd. []"
  have q: "queued ?s ?Q = {}" by (simp add: queued_def)
  have "me_rep {} ?s ?Q"
    unfolding me_rep_def q f using P H cap f(3) by (simp add: l side_ok_def best_last_def)
  then have "me_good ?s ?Q" by (simp add: me_good_def no_empty_def all_open_def q)
  moreover have "uncrossed ?s" by (simp add: uncrossed_def l)
  ultimately show "me_inv ?s" using me_inv_good by blast
  show "feed_ok ?s" unfolding feed_ok_def l by (simp add: me_make_def qty_at_def)
  show "ledger_nets (me_ledgers ?s) = (0, 0)" by (simp add: me_make_def ledger_nets_def ledger_zero_def)
  show "me_sink ?s = sk" "me_log ?s = []" by (simp_all add: me_make_def)
qed

lemma stp_op:
  assumes "me_inv s"
  shows "op_ok s (set_stp a i mode s)" "op_ok s (set_stp_all a mode s)"
proof -
  have "op_ok s (s\<lparr>me_stp := f\<rparr>)" for f
  proof -
    obtain Q where g: "me_good s Q" "uncrossed s" using assms me_inv_good by blast
    have l: "me_levels (s\<lparr>me_stp := f\<rparr>) = me_levels s" by (simp add: me_levels_def fun_eq_iff)
    have "me_good (s\<lparr>me_stp := f\<rparr>) Q" using g(1) by (subst me_good_cong [of _ s]) (simp_all add: l)
    then show ?thesis by (rule op_okI [OF _ g(2)]) (simp_all add: l feed_ok_def)
  qed
  moreover have "op_ok s s" using assms by (simp add: op_ok_def)
  ultimately show "op_ok s (set_stp a i mode s)" "op_ok s (set_stp_all a mode s)" by (simp_all add: set_stp_def set_stp_all_def)
qed

lemma reduce_op:
  assumes "me_inv s"
  obtains s' where "reduce_account_qty a i sd px amount now s = Some s'" "op_ok s s'"
proof (cases "i < me_count s")
  case True
  then show thesis using reduce_loop_ok [OF assms True, of a sd px amount now] that by (auto simp: reduce_account_qty_def)
next
  case False
  then show thesis using that [of s] assms by (simp add: reduce_account_qty_def op_ok_def)
qed

section \<open>Sequences of operations\<close>

datatype (plugins only: code size) engine_op =
    OpSubmit new_order timestamp
  | OpCancel account_id cl_ord_id timestamp
  | OpReplace account_id cl_ord_id cl_ord_id price qty timestamp
  | OpReduce account_id instrument_id side price qty timestamp
  | OpStp account_id instrument_id stp_mode
  | OpStpAll account_id stp_mode

fun me_apply :: "engine_op \<Rightarrow> matching_engine \<Rightarrow> matching_engine option" where
  "me_apply (OpSubmit od now) s = map_option fst (submit_order od now s)"
| "me_apply (OpCancel a cid now) s = Some (fst (cancel_order a cid now s))"
| "me_apply (OpReplace a orig new_id px q now) s = map_option fst (replace_order a orig new_id px q now s)"
| "me_apply (OpReduce a i sd px amount now) s = reduce_account_qty a i sd px amount now s"
| "me_apply (OpStp a i mode) s = Some (set_stp a i mode s)"
| "me_apply (OpStpAll a mode) s = Some (set_stp_all a mode s)"

fun me_run :: "engine_op list \<Rightarrow> matching_engine \<Rightarrow> matching_engine option" where
  "me_run [] s = Some s"
| "me_run (x # xs) s = Option.bind (me_apply x s) (me_run xs)"

lemma apply_op:
  assumes "me_inv s" "sink_ok (me_sink s)"
  obtains s' where "me_apply x s = Some s'" "op_ok s s'"
proof (cases x)
  case (OpSubmit od now)
  obtain s' r where "submit_order od now s = Some (s', r)" "op_ok s s'" by (rule submit_op [OF assms])
  then show thesis using that OpSubmit by simp
next
  case (OpCancel a cid now)
  then show thesis using that cancel_op [OF assms(1)] by simp
next
  case (OpReplace a orig new_id px q now)
  obtain s' r where "replace_order a orig new_id px q now s = Some (s', r)" "op_ok s s'" by (rule replace_op [OF assms])
  then show thesis using that OpReplace by simp
next
  case (OpReduce a i sd px amount now)
  obtain s' where "reduce_account_qty a i sd px amount now s = Some s'" "op_ok s s'" by (rule reduce_op [OF assms(1)])
  then show thesis using that OpReduce by simp
next
  case (OpStp a i mode)
  then show thesis using that stp_op(1) [OF assms(1)] by simp
next
  case (OpStpAll a mode)
  then show thesis using that stp_op(2) [OF assms(1)] by simp
qed

lemma run_ok:
  assumes "me_inv s" "sink_ok (me_sink s)"
  shows "\<exists>s'. me_run xs s = Some s' \<and> op_ok s s'"
  using assms
proof (induction xs arbitrary: s)
  case Nil
  then show ?case by (simp add: op_ok_def)
next
  case (Cons x xs)
  obtain s1 where s1: "me_apply x s = Some s1" "op_ok s s1" by (rule apply_op [OF Cons.prems])
  have "me_inv s1" "sink_ok (me_sink s1)" using s1(2) Cons.prems by (simp_all add: op_ok_def)
  then obtain s2 where "me_run xs s1 = Some s2" "op_ok s1 s2" using Cons.IH by blast
  then show ?case using s1 op_ok_trans by auto
qed

end
