(* ===== verification/MatchingProps.thy ===== *)
theory MatchingProps
  imports MatchingRuns "HOL-Library.Code_Target_Nat"
begin

unbundle bit_operations_syntax

text \<open>
  What the matching engine promises, stated for every engine a sequence of operations can reach from a fresh one of at least
  four slots (the code has \<open>2 ^ 16\<close>): it always answers, its books are never crossed, its levels are the sums of their
  queues, its feed replays the book, its ledgers net out; priority, fairness and completeness of the fills of a new
  order; cancels, replaces and decreases. The resting orders of a side are named in the order \<open>resting\<close> visits them, as
  \<^verbatim>\<open>for_each_resting\<close> does. The one thing required of the sink is that \<^verbatim>\<open>reducible\<close> is not negative for an order with
  nothing overfilled (\<open>sink_ok\<close>), which the default satisfies.
\<close>

section \<open>Reached engines\<close>

lemma run_fresh:
  assumes "2 \<le> b" "b < 32" "sink_ok sk"
  obtains s where "me_run ops (me_make b n sk) = Some s" "me_inv s" "feed_ok s" "ledger_nets (me_ledgers s) = (0, 0)"
    "me_count s = (if n = 0 then 1 else n)" "sink_ok (me_sink s)"
proof -
  note M = me_make_good [OF assms(1,2), of n sk]
  have sk: "sink_ok (me_sink (me_make b n sk))" using assms(3) M(4) by simp
  obtain s where "me_run ops (me_make b n sk) = Some s" "op_ok (me_make b n sk) s" using run_ok [OF M(1) sk] by blast
  then show thesis using that M assms(3) by (simp add: op_ok_def me_make_def)
qed

lemma submit_fresh:
  assumes "2 \<le> b" "b < 32" "sink_ok sk" "no_instrument od < (if n = 0 then 1 else n)"
  obtains s s' r Q Q' evs where "me_run ops (me_make b n sk) = Some s" "submit_order od now s = Some (s', r)"
    "submit_ok od now s Q s' r Q' evs" "me_log s' = evs @ me_log s"
    "\<And>sd. resting s (no_instrument od) sd = Some (prio Q (no_instrument od) sd)"
    "\<And>sd. resting s' (no_instrument od) sd = Some (prio Q' (no_instrument od) sd)"
    "\<And>sd. set (prio Q' (no_instrument od) sd) \<subseteq> me_live s'"
proof -
  obtain s where s: "me_run ops (me_make b n sk) = Some s" "me_inv s" "me_count s = (if n = 0 then 1 else n)" "sink_ok (me_sink s)"
    by (rule run_fresh [OF assms(1-3)])
  obtain Q where g: "me_good s Q" using s(2) me_inv_good by blast
  obtain s' r Q' evs where r: "submit_order od now s = Some (s', r)" "submit_ok od now s Q s' r Q' evs"
    using submit_total [OF g s(4)] by blast
  have g': "me_good s' Q'" "me_count s' = me_count s" "me_log s' = evs @ me_log s" using r(2) by (auto simp: submit_ok_def)
  have i: "no_instrument od < me_count s" "no_instrument od < me_count s'" using assms(4) s(3) g'(2) by simp_all
  have rep: "me_rep {} s Q" "me_rep {} s' Q'" using g g'(1) by (simp_all add: me_good_def)
  show thesis
    using that [OF s(1) r g'(3)] resting_prio [OF rep(1) i(1)] resting_prio [OF rep(2) i(2)] prio_live [OF rep(2) i(2)] by simp
qed

lemma submit_okD:
  assumes "submit_ok od now s Q s' r Q' evs"
  shows "sr_filled r = fill_sum evs"
    "list_all (fair (is_resting s (prio Q (no_instrument od) (opposite (no_side od)))) (stp s (no_account od) (no_instrument od))
       (make_sim_order od (me_next_order_id s) now)) evs"
    "\<And>g h. ahead (prio Q (no_instrument od) (opposite (no_side od))) g h \<Longrightarrow> so_order_id (me_order s h) \<in> fill_ids evs \<Longrightarrow>
       g \<in> me_live s' \<Longrightarrow> so_reduce_only (me_order s g) \<or> no_reduce_only od"
    "no_type od \<noteq> Market \<Longrightarrow> no_tif od = Fok \<Longrightarrow> \<not> no_reduce_only od \<Longrightarrow>
       (\<forall>g\<in>set (prio Q (no_instrument od) (opposite (no_side od))). \<not> so_reduce_only (me_order s g)) \<Longrightarrow> sr_filled r = 0 \<or> sr_filled r = no_qty od"
    "sr_order_id r \<noteq> 0 \<Longrightarrow> no_type od \<noteq> PostOnly \<Longrightarrow> no_type od = Market \<or> no_tif od \<noteq> Fok \<Longrightarrow> \<not> no_reduce_only od \<Longrightarrow>
       (\<forall>g\<in>set (prio Q (no_instrument od) (opposite (no_side od))). \<not> so_reduce_only (me_order s g)) \<Longrightarrow>
       no_qty od \<le> avail (stp s (no_account od) (no_instrument od)) (no_account od)
           (map (me_order s) (filter (\<lambda>g. taker_crosses (make_sim_order od (me_next_order_id s) now) (so_price (me_order s g)))
              (prio Q (no_instrument od) (opposite (no_side od))))) \<Longrightarrow> sr_filled r = no_qty od"
    "0 < sr_resting r \<Longrightarrow> sr_filled r + sr_resting r = no_qty od \<and>
       (\<exists>h. so_order_id (me_order s' h) = sr_order_id r \<and>
          behind (no_side od) (me_order s) (no_price od) h (prio Q (no_instrument od) (no_side od)) (prio Q' (no_instrument od) (no_side od)))"
proof -
  note S = assms [unfolded submit_ok_def Let_def]
  show "sr_filled r = fill_sum evs" using S by blast
  show "list_all (fair (is_resting s (prio Q (no_instrument od) (opposite (no_side od)))) (stp s (no_account od) (no_instrument od))
       (make_sim_order od (me_next_order_id s) now)) evs" using S unfolding list_all_iff by blast
qed (use assms [unfolded submit_ok_def Let_def] in blast)+

lemma best_of_total:
  assumes "me_inv s"
  shows "\<exists>l. best_of s a i sd = Some l" "\<exists>q. account_qty_at s a i sd px = Some q"
proof -
  obtain Q where rep: "me_rep {} s Q" using assms by (auto simp: me_inv_def)
  show "\<exists>q. account_qty_at s a i sd px = Some q"
    using account_qty_prio [OF rep, of i a sd px] by (cases "i < me_count s") (auto simp: account_qty_at_def)
  show "\<exists>l. best_of s a i sd = Some l"
  proof (cases "i < me_count s")
    case True
    note ok = me_repD(4) [OF rep True, of sd]
    have "k \<le> length (Q i sd) \<Longrightarrow> \<exists>l. best_of_levels s a (me_levels s i sd) k = Some l" for k
    proof (induction k)
      case (Suc k)
      have k: "k < length (Q i sd)" using Suc.prems by simp
      show ?case using account_sum_queue [OF queue_okD(2) [OF side_okD(1) [OF ok k]], of a 0] Suc by auto
    qed simp
    then show ?thesis using True side_ok_length [OF ok] by (auto simp: best_of_def me_levels_def Let_def)
  qed (simp add: best_of_def)
qed

lemma prio_sorted:
  assumes ok: "side_ok ord i sd v qs"
  shows "sorted_wrt (\<lambda>g h. at_or_better sd (so_price (ord g)) (so_price (ord h))) (concat (rev qs))"
proof -
  have "n \<le> length qs \<Longrightarrow> sorted_wrt (\<lambda>g h. at_or_better sd (so_price (ord g)) (so_price (ord h))) (concat (rev (take n qs)))" for n
  proof (induction n)
    case (Suc n)
    then have n: "n < length qs" by simp
    have len: "length qs = length v" by (rule side_ok_length [OF ok])
    have pr: "so_price (ord g) = pv_price (v ! j)" if "j < length qs" "g \<in> set (qs ! j)" for j g
      using queue_okD(5) [OF side_okD(1) [OF ok that(1)]] that(2) by blast
    have b: "best_last sd v" using ok by (simp add: side_ok_def)
    have here: "sorted_wrt (\<lambda>g h. at_or_better sd (so_price (ord g)) (so_price (ord h))) (qs ! n)"
      unfolding sorted_wrt_iff_nth_less using pr [OF n] by (auto simp: at_or_better_def)
    have "at_or_better sd (so_price (ord g)) (so_price (ord h))" if g: "g \<in> set (qs ! n)" and h: "h \<in> set (concat (take n qs))" for g h
    proof -
      obtain j where j: "j < length (take n qs)" "h \<in> set (take n qs ! j)" using h unfolding in_concat_nth by blast
      then have "so_price (ord h) = pv_price (v ! j)" "j < n" using pr [of j h] by simp_all
      then show ?thesis using pr [OF n g] best_last_nth [OF b, of j n] n len by (simp add: better_def at_or_better_def split: if_splits)
    qed
    then show ?case using here Suc n by (simp add: take_Suc_conv_app_nth sorted_wrt_append)
  qed simp
  then show ?thesis using order_refl [of "length qs"] by (metis take_all order_refl)
qed

section \<open>Properties\<close>

definition sample_order :: "account_id \<Rightarrow> cl_ord_id \<Rightarrow> side \<Rightarrow> time_in_force \<Rightarrow> price \<Rightarrow> qty \<Rightarrow> bool \<Rightarrow> new_order" where
  "sample_order a cid sd tif px q ro =
     \<lparr>no_account = a, no_cl_ord_id = cid, no_instrument = 0, no_side = sd, no_type = Limit, no_tif = tif,
      no_price = px, no_qty = q, no_reduce_only = ro\<rparr>"

definition two_offers :: "engine_op list" where
  "two_offers = [OpSubmit (sample_order 2 1 Sell Gtc 100 5 False) 1, OpSubmit (sample_order 3 2 Sell Gtc 100 5 False) 2]"

lemma default_sink_ok: "sink_ok default_reducible"
  by (simp add: sink_ok_def default_reducible_def)

text \<open>C4: whatever is asked of an engine, every operation returns: no sweep, no walk along a queue and no decrease runs
  forever. The engine stays well formed, with its queues, keys and levels in agreement, and its queries return too.\<close>

theorem engine_always_answers:
  assumes "2 \<le> b" "b < 32" "sink_ok sk"
  shows "\<exists>s. me_run ops (me_make b n sk) = Some s \<and> me_inv s \<and>
    (\<forall>a i sd px. (\<exists>l. best_of s a i sd = Some l) \<and> (\<exists>q. account_qty_at s a i sd px = Some q))"
proof -
  obtain s where "me_run ops (me_make b n sk) = Some s" "me_inv s" by (rule run_fresh [OF assms])
  then show ?thesis using best_of_total by blast
qed

theorem engine_always_answers_witness:
  "\<exists>s. me_run two_offers (me_new 1 default_reducible) = Some s \<and> me_inv s"
  using engine_always_answers [of 16 default_reducible two_offers 1] default_sink_ok by (auto simp: me_new_def)

text \<open>C7: no book is ever crossed: after any sequence of operations every bid is below every offer of its instrument.\<close>

theorem book_never_crossed:
  assumes "2 \<le> b" "b < 32" "sink_ok sk"
  shows "\<exists>s. me_run ops (me_make b n sk) = Some s \<and>
    (\<forall>i. me_count s \<le> i \<or>
       list_all (\<lambda>bid. list_all (\<lambda>ask. pv_price bid < pv_price ask) (sb_levels (me_books s i) Sell)) (sb_levels (me_books s i) Buy))"
proof -
  obtain s where "me_run ops (me_make b n sk) = Some s" "me_inv s" by (rule run_fresh [OF assms])
  then show ?thesis by (auto simp: me_inv_def uncrossed_def me_levels_def list_all_iff not_le)
qed

theorem book_never_crossed_witness:
  "\<exists>s. me_run (two_offers @ [OpSubmit (sample_order 1 3 Buy Gtc 101 7 False) 3]) (me_new 1 default_reducible) = Some s \<and>
    (\<forall>i. me_count s \<le> i \<or>
       list_all (\<lambda>bid. list_all (\<lambda>ask. pv_price bid < pv_price ask) (sb_levels (me_books s i) Sell)) (sb_levels (me_books s i) Buy))"
  using book_never_crossed [of 16 default_reducible "two_offers @ [OpSubmit (sample_order 1 3 Buy Gtc 101 7 False) 3]" 1] default_sink_ok
  by (simp add: me_new_def)

text \<open>C11: the resting orders of a side are visited once each, from the best price to the worst, all of them with
  something left to trade, and the quantity a level shows is the sum of what is left of its orders.\<close>

theorem levels_are_sums:
  assumes "2 \<le> b" "b < 32" "sink_ok sk"
  shows "\<exists>s. me_run ops (me_make b n sk) = Some s \<and>
    (\<forall>i sd px. me_count s \<le> i \<or>
       (\<exists>P. resting s i sd = Some P \<and> distinct P \<and> list_all (\<lambda>g. 0 < so_leaves (me_order s g)) P \<and>
          sorted_wrt (\<lambda>g h. at_or_better sd (so_price (me_order s g)) (so_price (me_order s h))) P \<and>
          level_qty s i sd px = (\<Sum>g\<leftarrow>filter (\<lambda>g. so_price (me_order s g) = px) P. so_leaves (me_order s g))))"
proof -
  obtain s where s: "me_run ops (me_make b n sk) = Some s" "me_inv s" by (rule run_fresh [OF assms])
  obtain Q where g: "me_good s Q" using s(2) me_inv_good by blast
  have rep: "me_rep {} s Q" using g by (simp add: me_good_def)
  have "\<exists>P. resting s i sd = Some P \<and> distinct P \<and> list_all (\<lambda>g. 0 < so_leaves (me_order s g)) P \<and>
          sorted_wrt (\<lambda>g h. at_or_better sd (so_price (me_order s g)) (so_price (me_order s h))) P \<and>
          level_qty s i sd px = (\<Sum>g\<leftarrow>filter (\<lambda>g. so_price (me_order s g) = px) P. so_leaves (me_order s g))"
    if i: "i < me_count s" for i sd px
  proof (rule exI [of _ "prio Q i sd"], intro conjI)
    note ok = me_repD(4) [OF rep i, of sd]
    show "resting s i sd = Some (prio Q i sd)" by (rule resting_prio [OF rep i])
    show "distinct (prio Q i sd)" by (rule distinct_prio [OF rep i])
    show "list_all (\<lambda>g. 0 < so_leaves (me_order s g)) (prio Q i sd)"
      using g prio_live [OF rep i, of sd] unfolding list_all_iff me_good_def all_open_def by blast
    show "sorted_wrt (\<lambda>g h. at_or_better sd (so_price (me_order s g)) (so_price (me_order s h))) (prio Q i sd)"
      unfolding prio_def by (rule prio_sorted [OF ok])
    have b: "best_last sd (sb_levels (me_books s i) sd)" using ok by (simp add: side_ok_def me_levels_def)
    show "level_qty s i sd px = (\<Sum>g\<leftarrow>filter (\<lambda>g. so_price (me_order s g) = px) (prio Q i sd). so_leaves (me_order s g))"
    proof (cases "sb_find (me_books s i) sd px")
      case None
      then have "px \<notin> pv_price ` set (me_levels s i sd)" using sb_find_None [OF b] by (simp add: me_levels_def)
      then show ?thesis using None filter_price(2) [OF ok] by (simp add: level_qty_def prio_def)
    next
      case (Some k)
      then have k: "k < length (me_levels s i sd)" "pv_price (me_levels s i sd ! k) = px" using sb_find_Some [OF b] by (simp_all add: me_levels_def)
      have kq: "k < length (Q i sd)" using k side_ok_length [OF ok] by simp
      show ?thesis using Some filter_price(1) [OF ok kq k(2)] queue_okD(4) [OF side_okD(1) [OF ok kq]]
        by (simp add: level_qty_def prio_def me_level_levels)
    qed
  qed
  then show ?thesis using s(1) by (meson not_le)
qed

theorem levels_are_sums_witness:
  "\<exists>s P. me_run two_offers (me_new 1 default_reducible) = Some s \<and> resting s 0 Sell = Some P \<and> distinct P \<and>
     level_qty s 0 Sell 100 = (\<Sum>g\<leftarrow>filter (\<lambda>g. so_price (me_order s g) = 100) P. so_leaves (me_order s g))"
proof -
  obtain s where s: "me_run two_offers (me_make 16 1 default_reducible) = Some s" "me_count s = 1"
    by (rule run_fresh [of 16 default_reducible two_offers 1]) (use default_sink_ok in simp_all)
  have "\<exists>t. me_run two_offers (me_make 16 1 default_reducible) = Some t \<and> (me_count t \<le> 0 \<or>
       (\<exists>P. resting t 0 Sell = Some P \<and> distinct P \<and>
          level_qty t 0 Sell 100 = (\<Sum>g\<leftarrow>filter (\<lambda>g. so_price (me_order t g) = 100) P. so_leaves (me_order t g))))"
    using levels_are_sums [of 16 default_reducible two_offers 1] default_sink_ok by fastforce
  then show ?thesis using s by (auto simp: me_new_def)
qed

text \<open>C9: a receiver that keeps the last announced quantity per price has the book: after any sequence of operations the
  latest announcement of a price is the quantity that rests there, and a price never announced holds nothing.\<close>

theorem feed_replays_book:
  assumes "2 \<le> b" "b < 32" "sink_ok sk"
  shows "\<exists>s. me_run ops (me_make b n sk) = Some s \<and>
    (\<forall>i sd px. me_count s \<le> i \<or> feed_qty (me_log s) i sd px = level_qty s i sd px)"
proof -
  obtain s where s: "me_run ops (me_make b n sk) = Some s" "me_inv s" "feed_ok s" by (rule run_fresh [OF assms])
  obtain Q where rep: "me_rep {} s Q" using s(2) by (auto simp: me_inv_def)
  have "feed_qty (me_log s) i sd px = level_qty s i sd px" if i: "i < me_count s" for i sd px
  proof -
    have "best_last sd (me_levels s i sd)" using me_repD(4) [OF rep i, of sd] by (simp add: side_ok_def)
    then show ?thesis using level_qty_at [of sd s i px] s(3) i by (simp add: feed_ok_def)
  qed
  then show ?thesis using s(1) by (meson not_le)
qed

theorem feed_replays_book_witness:
  "\<exists>s. me_run two_offers (me_new 1 default_reducible) = Some s \<and> feed_qty (me_log s) 0 Sell 100 = level_qty s 0 Sell 100"
proof -
  obtain s where s: "me_run two_offers (me_make 16 1 default_reducible) = Some s" "me_count s = 1"
    by (rule run_fresh [of 16 default_reducible two_offers 1]) (use default_sink_ok in simp_all)
  then show ?thesis using feed_replays_book [of 16 default_reducible two_offers 1] default_sink_ok
    by (auto simp: me_new_def elim!: allE [of _ 0])
qed

text \<open>C21: trading creates nothing: over all accounts together what was bought was sold, in quantity and in notional.\<close>

theorem ledgers_net_to_zero:
  assumes "2 \<le> b" "b < 32" "sink_ok sk"
  shows "\<exists>s. me_run ops (me_make b n sk) = Some s \<and> (\<Sum>a<kMaxAccounts. al_net (ledger s a)) = 0 \<and>
    (\<Sum>a<kMaxAccounts. al_buy_notional (ledger s a)) = (\<Sum>a<kMaxAccounts. al_sell_notional (ledger s a))"
proof -
  obtain s where s: "me_run ops (me_make b n sk) = Some s" "ledger_nets (me_ledgers s) = (0, 0)" by (rule run_fresh [OF assms])
  then show ?thesis by (simp add: ledger_nets_def al_net_def ledger_def ledger_index_def sum_subtractf)
qed

theorem ledgers_net_to_zero_witness:
  "\<exists>s. me_run (two_offers @ [OpSubmit (sample_order 1 3 Buy Gtc 101 7 False) 3]) (me_new 1 default_reducible) = Some s \<and>
    (\<Sum>a<kMaxAccounts. al_net (ledger s a)) = 0"
  using ledgers_net_to_zero [of 16 default_reducible "two_offers @ [OpSubmit (sample_order 1 3 Buy Gtc 101 7 False) 3]" 1] default_sink_ok
  by (auto simp: me_new_def)

text \<open>The fills respect priority: an order ahead of one that traded is gone, unless it is reduce-only.\<close>

definition in_priority :: "matching_engine \<Rightarrow> nat list \<Rightarrow> nat list \<Rightarrow> sink_event list \<Rightarrow> bool" where
  "in_priority s P P' evs \<longleftrightarrow>
     (\<forall>g h. ahead P g h \<longrightarrow> so_order_id (me_order s h) \<in> fill_ids evs \<longrightarrow> g \<in> set P' \<longrightarrow> so_reduce_only (me_order s g))"

text \<open>C2: price-time priority. After any sequence of operations a new order that is not reduce-only trades with the
  resting orders in the order they are visited: when an order has traded, every order ahead of it, at a better price
  or earlier at its price, has left the book, a reduce-only one apart.\<close>

theorem price_time_priority:
  assumes "2 \<le> b" "b < 32" "sink_ok sk" "no_instrument od < (if n = 0 then 1 else n)" "\<not> no_reduce_only od"
  shows "\<exists>s s' r P P' evs. me_run ops (me_make b n sk) = Some s \<and> submit_order od now s = Some (s', r) \<and>
    resting s (no_instrument od) (opposite (no_side od)) = Some P \<and> resting s' (no_instrument od) (opposite (no_side od)) = Some P' \<and>
    me_log s' = evs @ me_log s \<and> in_priority s P P' evs"
proof (rule submit_fresh [OF assms(1-4), of ops now])
  fix s s' r Q Q' evs
  let ?i = "no_instrument od" and ?sd = "opposite (no_side od)"
  assume s: "me_run ops (me_make b n sk) = Some s" "submit_order od now s = Some (s', r)" "submit_ok od now s Q s' r Q' evs"
    "me_log s' = evs @ me_log s" "\<And>sd. resting s ?i sd = Some (prio Q ?i sd)" "\<And>sd. resting s' ?i sd = Some (prio Q' ?i sd)"
    "\<And>sd. set (prio Q' ?i sd) \<subseteq> me_live s'"
  have "in_priority s (prio Q ?i ?sd) (prio Q' ?i ?sd) evs"
    unfolding in_priority_def using submit_okD(3) [OF s(3)] s(7) [of ?sd] assms(5) by blast
  then show ?thesis using s(1,2,4-6) by blast
qed

theorem price_time_priority_witness:
  "\<exists>s s' r P P' evs. me_run two_offers (me_new 1 default_reducible) = Some s \<and>
    submit_order (sample_order 1 3 Buy Gtc 101 7 False) 3 s = Some (s', r) \<and>
    resting s 0 Sell = Some P \<and> resting s' 0 Sell = Some P' \<and> me_log s' = evs @ me_log s \<and> in_priority s P P' evs"
  using price_time_priority [of 16 default_reducible "sample_order 1 3 Buy Gtc 101 7 False" 1 two_offers 3] default_sink_ok
  by (simp add: me_new_def sample_order_def)

text \<open>C12: every fill of a new order is fair. Its maker was resting on the other side of the instrument, it is made at
  the maker's price, inside the limit of the taker, for a positive quantity, and under self-trade prevention never
  between orders of one account. What the caller is told is filled is the sum of the fills.\<close>

theorem fills_are_fair:
  assumes "2 \<le> b" "b < 32" "sink_ok sk" "no_instrument od < (if n = 0 then 1 else n)"
  shows "\<exists>s s' r P evs. me_run ops (me_make b n sk) = Some s \<and> submit_order od now s = Some (s', r) \<and>
    resting s (no_instrument od) (opposite (no_side od)) = Some P \<and> me_log s' = evs @ me_log s \<and>
    list_all (fair (is_resting s P) (stp s (no_account od) (no_instrument od)) (make_sim_order od (me_next_order_id s) now)) evs \<and>
    sr_filled r = fill_sum evs"
proof (rule submit_fresh [OF assms, of ops now])
  fix s s' r Q Q' evs
  let ?i = "no_instrument od"
  assume s: "me_run ops (me_make b n sk) = Some s" "submit_order od now s = Some (s', r)" "submit_ok od now s Q s' r Q' evs"
    "me_log s' = evs @ me_log s" "\<And>sd. resting s ?i sd = Some (prio Q ?i sd)"
  show ?thesis using s(1,2,4,5) submit_okD(1,2) [OF s(3)] by blast
qed

theorem fills_are_fair_witness:
  "\<exists>s s' r P evs. me_run two_offers (me_new 1 default_reducible) = Some s \<and>
    submit_order (sample_order 1 3 Buy Gtc 101 7 False) 3 s = Some (s', r) \<and> resting s 0 Sell = Some P \<and> me_log s' = evs @ me_log s \<and>
    list_all (fair (is_resting s P) (stp s 1 0) (make_sim_order (sample_order 1 3 Buy Gtc 101 7 False) (me_next_order_id s) 3)) evs \<and>
    sr_filled r = fill_sum evs"
  using fills_are_fair [of 16 default_reducible "sample_order 1 3 Buy Gtc 101 7 False" 1 two_offers 3] default_sink_ok
  by (simp add: me_new_def sample_order_def)

text \<open>C15: a fill-or-kill order trades all of its quantity or none of it, as long as neither it nor a resting order of the
  other side is reduce-only, whatever the self-trade prevention of its account.\<close>

theorem fok_all_or_nothing:
  assumes "2 \<le> b" "b < 32" "sink_ok sk" "no_instrument od < (if n = 0 then 1 else n)"
    and "no_type od \<noteq> Market" "no_tif od = Fok" "\<not> no_reduce_only od"
  shows "\<exists>s s' r P. me_run ops (me_make b n sk) = Some s \<and> submit_order od now s = Some (s', r) \<and>
    resting s (no_instrument od) (opposite (no_side od)) = Some P \<and>
    (sr_filled r = 0 \<or> sr_filled r = no_qty od \<or> list_ex (\<lambda>g. so_reduce_only (me_order s g)) P)"
proof (rule submit_fresh [OF assms(1-4), of ops now])
  fix s s' r Q Q' evs
  let ?i = "no_instrument od" and ?sd = "opposite (no_side od)"
  assume s: "me_run ops (me_make b n sk) = Some s" "submit_order od now s = Some (s', r)" "submit_ok od now s Q s' r Q' evs"
    "\<And>sd. resting s ?i sd = Some (prio Q ?i sd)"
  have "sr_filled r = 0 \<or> sr_filled r = no_qty od \<or> list_ex (\<lambda>g. so_reduce_only (me_order s g)) (prio Q ?i ?sd)"
    using submit_okD(4) [OF s(3) assms(5-7)] unfolding list_ex_iff by blast
  then show ?thesis using s(1,2,4) by blast
qed

theorem fok_all_or_nothing_witness:
  "\<exists>s s' r P. me_run two_offers (me_new 1 default_reducible) = Some s \<and>
    submit_order (sample_order 1 3 Buy Fok 100 12 False) 3 s = Some (s', r) \<and> resting s 0 Sell = Some P \<and>
    (sr_filled r = 0 \<or> sr_filled r = 12 \<or> list_ex (\<lambda>g. so_reduce_only (me_order s g)) P)"
  using fok_all_or_nothing [of 16 default_reducible "sample_order 1 3 Buy Fok 100 12 False" 1 two_offers 3] default_sink_ok
  by (simp add: me_new_def sample_order_def)

text \<open>C18: an order fills whole when the book has its quantity: an accepted order that may take and is not fill-or-kill
  trades everything when the orders its price reaches add up to its quantity, its account has no self-trade prevention
  and no reduce-only order is involved.\<close>

theorem taker_fills_whole:
  assumes "2 \<le> b" "b < 32" "sink_ok sk" "no_instrument od < (if n = 0 then 1 else n)"
    and "no_type od \<noteq> PostOnly" "no_type od = Market \<or> no_tif od \<noteq> Fok" "\<not> no_reduce_only od"
  shows "\<exists>s s' r P. me_run ops (me_make b n sk) = Some s \<and> submit_order od now s = Some (s', r) \<and>
    resting s (no_instrument od) (opposite (no_side od)) = Some P \<and>
    (sr_order_id r = 0 \<or> sr_filled r = no_qty od \<or> list_ex (\<lambda>g. so_reduce_only (me_order s g)) P \<or>
     stp s (no_account od) (no_instrument od) \<in> {CancelTaker, CancelMaker, CancelBoth} \<or>
     (\<Sum>g\<leftarrow>filter (\<lambda>g. no_type od = Market \<or> crosses (no_side od) (no_price od) (so_price (me_order s g))) P. so_leaves (me_order s g)) < no_qty od)"
proof (rule submit_fresh [OF assms(1-4), of ops now])
  fix s s' :: matching_engine and r Q Q' evs
  let ?i = "no_instrument od" and ?sd = "opposite (no_side od)" and ?t = "make_sim_order od (me_next_order_id s) now"
  assume s: "me_run ops (me_make b n sk) = Some s" "submit_order od now s = Some (s', r)" "submit_ok od now s Q s' r Q' evs"
    "\<And>sd. resting s ?i sd = Some (prio Q ?i sd)"
  have c: "taker_crosses ?t p \<longleftrightarrow> no_type od = Market \<or> crosses (no_side od) (no_price od) p" for p
    by (auto simp: taker_crosses_def)
  have a: "avail StpNone x ms = (\<Sum>m\<leftarrow>ms. so_leaves m)" for x ms using avail_none [of x ms "[]"] by simp
  have m: "stp s (no_account od) ?i = StpNone \<or> stp s (no_account od) ?i \<in> {CancelTaker, CancelMaker, CancelBoth}"
    by (cases "stp s (no_account od) ?i") simp_all
  show ?thesis
  proof (intro exI conjI)
    show "sr_order_id r = 0 \<or> sr_filled r = no_qty od \<or> list_ex (\<lambda>g. so_reduce_only (me_order s g)) (prio Q ?i ?sd) \<or>
     stp s (no_account od) ?i \<in> {CancelTaker, CancelMaker, CancelBoth} \<or>
     (\<Sum>g\<leftarrow>filter (\<lambda>g. no_type od = Market \<or> crosses (no_side od) (no_price od) (so_price (me_order s g))) (prio Q ?i ?sd). so_leaves (me_order s g)) < no_qty od"
      using submit_okD(5) [OF s(3) _ assms(5-7)] m unfolding c list_ex_iff by (auto simp: a comp_def not_less)
  qed (use s in simp_all)
qed

theorem taker_fills_whole_witness:
  "\<exists>s s' r P. me_run two_offers (me_new 1 default_reducible) = Some s \<and>
    submit_order (sample_order 1 3 Buy Ioc 100 10 False) 3 s = Some (s', r) \<and> resting s 0 Sell = Some P \<and>
    (sr_order_id r = 0 \<or> sr_filled r = 10 \<or> list_ex (\<lambda>g. so_reduce_only (me_order s g)) P \<or>
     stp s 1 0 \<in> {CancelTaker, CancelMaker, CancelBoth} \<or>
     (\<Sum>g\<leftarrow>filter (\<lambda>g. crosses Buy 100 (so_price (me_order s g))) P. so_leaves (me_order s g)) < 10)"
  using taker_fills_whole [of 16 default_reducible "sample_order 1 3 Buy Ioc 100 10 False" 1 two_offers 3] default_sink_ok
  by (simp add: me_new_def sample_order_def)

text \<open>C22: what is left of a new order rests behind the orders that were there: the orders of its side keep their order,
  all those at its price or a better one are ahead of it, all those behind it are at a worse price. What traded and
  what rests add up to its quantity.\<close>

theorem rests_behind:
  assumes "2 \<le> b" "b < 32" "sink_ok sk" "no_instrument od < (if n = 0 then 1 else n)"
  shows "\<exists>s s' r P P'. me_run ops (me_make b n sk) = Some s \<and> submit_order od now s = Some (s', r) \<and>
    resting s (no_instrument od) (no_side od) = Some P \<and> resting s' (no_instrument od) (no_side od) = Some P' \<and>
    (sr_resting r \<le> 0 \<or>
     sr_filled r + sr_resting r = no_qty od \<and>
     (\<exists>h. so_order_id (me_order s' h) = sr_order_id r \<and> behind (no_side od) (me_order s) (no_price od) h P P'))"
proof (rule submit_fresh [OF assms, of ops now])
  fix s s' r Q Q' evs
  let ?i = "no_instrument od"
  assume s: "me_run ops (me_make b n sk) = Some s" "submit_order od now s = Some (s', r)" "submit_ok od now s Q s' r Q' evs"
    "\<And>sd. resting s ?i sd = Some (prio Q ?i sd)" "\<And>sd. resting s' ?i sd = Some (prio Q' ?i sd)"
  show ?thesis using s(1,2,4,5) submit_okD(6) [OF s(3)] by (meson not_le)
qed

theorem rests_behind_witness:
  "\<exists>s s' r P P'. me_run two_offers (me_new 1 default_reducible) = Some s \<and>
    submit_order (sample_order 1 3 Sell Gtc 100 7 False) 3 s = Some (s', r) \<and> resting s 0 Sell = Some P \<and> resting s' 0 Sell = Some P' \<and>
    (sr_resting r \<le> 0 \<or> sr_filled r + sr_resting r = 7 \<and>
     (\<exists>h. so_order_id (me_order s' h) = sr_order_id r \<and> behind Sell (me_order s) 100 h P P'))"
  using rests_behind [of 16 default_reducible "sample_order 1 3 Sell Gtc 100 7 False" 1 two_offers 3] default_sink_ok
  by (simp add: me_new_def sample_order_def)

lemma find_key:
  assumes "me_find s a cid = Some x"
  obtains h where "ohm_find (me_by_key s) (me_key a cid) = Some h" "me_order s h = x"
  using assms by (auto simp: me_find_def)

lemma run_inv:
  assumes "2 \<le> b" "b < 32" "sink_ok sk" "me_run ops (me_make b n sk) = Some s"
  obtains Q where "me_good s Q" "uncrossed s" "sink_ok (me_sink s)"
proof -
  obtain t where "me_run ops (me_make b n sk) = Some t" "me_inv t" "sink_ok (me_sink t)" by (rule run_fresh [OF assms(1-3)])
  then show thesis using that assms(4) me_inv_good by auto
qed

lemma lost_key:
  assumes good: "me_good s Q" and k: "ohm_find (me_by_key s) k = Some h"
    and live: "me_live s' \<subseteq> me_live s" "me_good s' Q'"
    and old: "\<And>g. g \<noteq> h \<Longrightarrow> order_key (me_order s' g) = order_key (me_order s g)"
    and h: "h \<in> me_live s' \<Longrightarrow> order_key (me_order s' h) \<noteq> k"
  shows "ohm_find (me_by_key s') k = None"
proof (cases "ohm_find (me_by_key s') k")
  case (Some g)
  have R: "me_rep {} s Q" "me_rep {} s' Q'" using good live(2) by (simp_all add: me_good_def)
  have g: "g \<in> me_live s'" "order_key (me_order s' g) = k" using me_repD(7) [OF R(2)] Some by auto
  then have "g \<noteq> h" using h by blast
  then have "ohm_find (me_by_key s) k = Some g" using me_repD(7) [OF R(1)] g live(1) old by auto
  then show ?thesis using k \<open>g \<noteq> h\<close> by simp
qed

text \<open>C25: a cancel takes exactly its order out: the order leaves its queue, the others of its side keep their places,
  the other sides are untouched, and its id is free again.\<close>

theorem cancel_exact:
  assumes "2 \<le> b" "b < 32" "sink_ok sk" "me_run ops (me_make b n sk) = Some s" "me_find s a cid = Some x"
  shows "\<exists>s' h P. cancel_order a cid now s = (s', True) \<and> me_order s h = x \<and>
    resting s (so_instrument x) (so_side x) = Some P \<and> h \<in> set P \<and>
    resting s' (so_instrument x) (so_side x) = Some (filter (\<lambda>g. g \<noteq> h) P) \<and>
    (\<forall>i sd. i = so_instrument x \<and> sd = so_side x \<or> me_count s \<le> i \<or> resting s' i sd = resting s i sd) \<and>
    me_find s' a cid = None"
proof -
  obtain h where h: "ohm_find (me_by_key s) (me_key a cid) = Some h" "me_order s h = x" by (rule find_key [OF assms(5)])
  obtain Q where g: "me_good s Q" by (rule run_inv [OF assms(1-4)])
  define s0 where "s0 = upd_mstats (\<lambda>m. m\<lparr>ms_cancels := ms_cancels m + 1\<rparr>) s"
  define s' where "s' = remove_resting h CrRequested now s0"
  have rep: "me_rep {} s Q" using g by (simp add: me_good_def)
  have hl: "h \<in> me_live s" using me_repD(7) [OF rep] h(1) by blast
  have z: "me_good s0 Q" "h \<in> me_live s0" "me_order s0 = me_order s" "me_live s0 = me_live s" "me_count s0 = me_count s"
    using g hl by (simp_all add: s0_def)
  have x: "so_instrument x = so_instrument (me_order s0 h)" "so_side x = so_side (me_order s0 h)" using h z by simp_all
  obtain Q' where Q': "me_good s' Q'" "me_live s' = me_live s - {h}" "\<And>g. g \<noteq> h \<Longrightarrow> so_data (me_order s' g) = so_data (me_order s g)"
    "me_count s' = me_count s" "\<And>j sd'. \<not> (j = so_instrument x \<and> sd' = so_side x) \<Longrightarrow> Q' j sd' = Q j sd'"
    "prio Q' (so_instrument x) (so_side x) = filter (\<lambda>g. g \<noteq> h) (prio Q (so_instrument x) (so_side x))"
    "so_instrument x < me_count s" "h \<in> set (prio Q (so_instrument x) (so_side x))"
    by (rule remove_resting_good [OF z(1,2) x s'_def]) (use z in auto)
  have rep': "me_rep {} s' Q'" using Q'(1) by (simp add: me_good_def)
  have c: "cancel_order a cid now s = (s', True)" using h(1) by (simp add: cancel_order_def s'_def s0_def)
  have ok: "order_key (me_order s' g) = order_key (me_order s g)" if "g \<noteq> h" for g
    unfolding order_key_def so_dataD [OF Q'(3) [OF that]] by (rule refl)
  have lost: "me_find s' a cid = None"
    using lost_key [OF g h(1) _ Q'(1) ok] Q'(2) by (simp add: me_find_def)
  have others: "resting s' i sd = resting s i sd" if "\<not> (i = so_instrument x \<and> sd = so_side x)" "i < me_count s" for i sd
    using resting_prio [OF rep that(2)] resting_prio [OF rep', of i sd] that Q'(4) Q'(5) [OF that(1)] by (simp add: prio_def)
  show ?thesis
  proof (intro exI conjI)
    show "\<forall>i sd. i = so_instrument x \<and> sd = so_side x \<or> me_count s \<le> i \<or> resting s' i sd = resting s i sd"
      using others by (meson not_le)
    show "resting s (so_instrument x) (so_side x) = Some (prio Q (so_instrument x) (so_side x))" by (rule resting_prio [OF rep Q'(7)])
    show "resting s' (so_instrument x) (so_side x) = Some (filter (\<lambda>g. g \<noteq> h) (prio Q (so_instrument x) (so_side x)))"
      using resting_prio [OF rep'] Q'(4,6,7) by simp
  qed (use c h lost Q'(8) in simp_all)
qed

text \<open>C23: a replace at the same price for no more than what is left keeps the place in the queue: the order is visited
  where it was, under its new id, with the new quantity and nothing of it traded, and the old id is free again.\<close>

theorem replace_keeps_place:
  assumes "2 \<le> b" "b < 32" "sink_ok sk" "me_run ops (me_make b n sk) = Some s" "me_find s a orig = Some x"
    and "0 < q" "q \<le> so_leaves x" "px = so_price x" "me_find s a new_id = None"
  shows "\<exists>s' r. replace_order a orig new_id px q now s = Some (s', r) \<and> sr_accepted r \<and> sr_resting r = q \<and> sr_filled r = 0 \<and>
    (\<forall>i sd. me_count s \<le> i \<or> resting s' i sd = resting s i sd) \<and>
    me_find s' a new_id = Some (x\<lparr>so_order_id := me_next_order_id s, so_cl_ord_id := new_id, so_qty := q, so_cum_qty := 0, so_created := now\<rparr>) \<and>
    me_find s' a orig = None"
proof -
  obtain h where h: "ohm_find (me_by_key s) (me_key a orig) = Some h" "me_order s h = x" by (rule find_key [OF assms(5)])
  obtain Q where g: "me_good s Q" by (rule run_inv [OF assms(1-4)])
  define s0 where "s0 = upd_mstats (\<lambda>m. m\<lparr>ms_replaces := ms_replaces m + 1\<rparr>) s"
  have z: "me_good s0 Q" "me_order s0 = me_order s" "me_live s0 = me_live s" "me_count s0 = me_count s" "me_by_key s0 = me_by_key s"
    "me_next_order_id s0 = me_next_order_id s" using g by (simp_all add: s0_def)
  have rep: "me_rep {} s Q" using g by (simp add: me_good_def)
  have hl: "h \<in> me_live s0" using me_repD(7) [OF rep] h(1) z(3) by blast
  have new: "\<not> ohm_contains (me_by_key s0) (me_key a new_id)" using assms(9) z(5) by (simp add: me_find_def ohm_contains_def)
  obtain k where k: "sb_find (me_books s0 (so_instrument (me_order s0 h))) (so_side (me_order s0 h)) (so_price (me_order s0 h)) = Some k"
    by (rule resting_place [OF z(1) hl])
  obtain s' r where a: "amend_order a orig new_id q now h k s0 = (s', r)" by fastforce
  have h0: "ohm_find (me_by_key s0) (me_key a orig) = Some h" using h(1) z(5) by simp
  have l0: "q \<le> so_leaves (me_order s0 h)" using assms(7) h(2) z(2) by simp
  have e: "replace_order a orig new_id px q now s = Some (s', r)"
    using h0 k a l0 new assms(6,8) h(2) z(2) unfolding replace_order_def Let_def s0_def [symmetric] by simp
  note A = amend_good [OF z(1) h0 assms(6) l0 new k a]
  have f: "me_good s' Q" "me_live s' = me_live s"
    "me_order s' = (me_order s)(h := x\<lparr>so_order_id := me_next_order_id s, so_cl_ord_id := new_id, so_qty := q, so_cum_qty := 0, so_created := now\<rparr>)"
    "r = submit_result_zero\<lparr>sr_order_id := me_next_order_id s, sr_resting := q\<rparr>"
    "ohm_find (me_by_key s') (me_key a new_id) = Some h" "me_count s' = me_count s"
    by (rule A, use z h(2) in simp)+
  have rep': "me_rep {} s' Q" using f(1) by (simp add: me_good_def)
  have kn: "me_key a new_id \<noteq> me_key a orig" using new h0 by (auto simp: ohm_contains_def)
  have "ohm_find (me_by_key s') (me_key a orig) = None"
  proof (rule lost_key [OF g h(1) _ f(1)])
    show "order_key (me_order s' h) \<noteq> me_key a orig" using me_repD(7) [OF rep', of "me_key a new_id" h] f(5) kn by simp
  qed (simp_all add: f(2,3))
  then show ?thesis
    using e f(3-6) resting_prio [OF rep] resting_prio [OF rep'] not_le
    by (intro exI conjI) (auto simp: me_find_def sr_accepted_def submit_result_zero_def)
qed

text \<open>C27: a mirrored decrease takes from the account what it is asked to, or all the account has at that price, and
  nothing from anyone else there.\<close>

theorem reduce_exact:
  assumes "2 \<le> b" "b < 32" "sink_ok sk" "i < (if n = 0 then 1 else n)"
  shows "\<exists>s s' q. me_run ops (me_make b n sk) = Some s \<and> reduce_account_qty a i sd px amount now s = Some s' \<and>
    account_qty_at s a i sd px = Some q \<and>
    account_qty_at s' a i sd px = Some (if 0 < amount then max 0 (q - amount) else q) \<and>
    (\<forall>a'. a' = a \<or> account_qty_at s' a' i sd px = account_qty_at s a' i sd px)"
proof -
  obtain s where s: "me_run ops (me_make b n sk) = Some s" "me_inv s" "me_count s = (if n = 0 then 1 else n)" by (rule run_fresh [OF assms(1-3)])
  have i: "i < me_count s" using assms(4) s(3) by simp
  obtain s' where s': "reduce_loop a i sd px amount now s = Some s'"
    "\<And>a'. account_qty_at s' a' i sd px =
       map_option (\<lambda>x. if a' = a \<and> 0 < amount then max 0 (x - amount) else x) (account_qty_at s a' i sd px)"
    using reduce_loop_ok [OF s(2) i, of a sd px amount now] by blast
  obtain q where q: "account_qty_at s a i sd px = Some q" using best_of_total(2) [OF s(2)] by blast
  have o: "a' = a \<or> account_qty_at s' a' i sd px = account_qty_at s a' i sd px" for a'
    using s'(2) [of a'] by (cases "a' = a") (simp_all add: option.map_ident)
  show ?thesis
  proof (intro exI conjI)
    show "reduce_account_qty a i sd px amount now s = Some s'" using s'(1) i by (simp add: reduce_account_qty_def)
    show "account_qty_at s' a i sd px = Some (if 0 < amount then max 0 (q - amount) else q)" using s'(2) [of a] q by simp
    show "\<forall>a'. a' = a \<or> account_qty_at s' a' i sd px = account_qty_at s a' i sd px" using o by blast
  qed (use s q in simp_all)
qed

theorem reduce_exact_witness:
  "\<exists>s s' q. me_run two_offers (me_new 1 default_reducible) = Some s \<and> reduce_account_qty 2 0 Sell 100 3 9 s = Some s' \<and>
    account_qty_at s 2 0 Sell 100 = Some q \<and> account_qty_at s' 2 0 Sell 100 = Some (max 0 (q - 3)) \<and>
    (\<forall>a'. a' = 2 \<or> account_qty_at s' a' 0 Sell 100 = account_qty_at s a' 0 Sell 100)"
  using reduce_exact [of 16 default_reducible 0 1 two_offers 2 Sell 100 3 9] default_sink_ok by (simp add: me_new_def)

section \<open>Evaluated examples\<close>

text \<open>The key as arithmetic, for evaluation.\<close>

lemma me_key_arith [code]: "me_key a cid = of_nat a * 281474976710656 + cid mod 281474976710656"
proof -
  have "(0xFFFFFFFFFFFF :: u64) = mask 48" by (simp add: mask_eq_exp_minus_1)
  then have c: "cid AND 0xFFFFFFFFFFFF = take_bit 48 cid" by (simp only: take_bit_eq_mask)
  have "push_bit 48 (of_nat a :: u64) AND take_bit 48 cid = 0" by (rule bit_word_eqI) (simp add: bit_simps)
  then have "me_key a cid = push_bit 48 (of_nat a) + take_bit 48 cid" unfolding me_key_def c by (simp only: disjunctive_add_eq_or)
  then show ?thesis by (simp add: push_bit_eq_mult take_bit_eq_mod)
qed

definition one_offer :: "engine_op list" where
  "one_offer = [OpSubmit (sample_order 2 1 Sell Gtc 100 5 False) 1]"

lemma one_offer_found:
  "Option.bind (me_run one_offer (me_make 2 1 default_reducible))
     (\<lambda>s. map_option (\<lambda>x. (so_leaves x, so_price x, so_instrument x, so_side x)) (me_find s 2 1)) = Some (5, 100, 0, Sell)"
  by code_simp

lemma one_offer_absent:
  "map_option (\<lambda>s. me_find s 2 4) (me_run one_offer (me_make 2 1 default_reducible)) = Some None"
  by code_simp

theorem cancel_exact_witness:
  "\<exists>s s' h P. me_run one_offer (me_make 2 1 default_reducible) = Some s \<and> cancel_order 2 1 9 s = (s', True) \<and>
    resting s 0 Sell = Some P \<and> h \<in> set P \<and> resting s' 0 Sell = Some (filter (\<lambda>g. g \<noteq> h) P) \<and> me_find s' 2 1 = None"
proof -
  obtain s x where s: "me_run one_offer (me_make 2 1 default_reducible) = Some s" "me_find s 2 1 = Some x"
    "so_instrument x = 0" "so_side x = Sell"
    using one_offer_found by (auto simp: bind_eq_Some_conv)
  then show ?thesis using cancel_exact [OF _ _ default_sink_ok s(1,2), of 9] by auto
qed

theorem replace_keeps_place_witness:
  "\<exists>s s' r. me_run one_offer (me_make 2 1 default_reducible) = Some s \<and> replace_order 2 1 4 100 3 9 s = Some (s', r) \<and>
    sr_resting r = 3 \<and> resting s' 0 Sell = resting s 0 Sell \<and> me_find s' 2 1 = None"
proof -
  obtain s x where s: "me_run one_offer (me_make 2 1 default_reducible) = Some s" "me_find s 2 1 = Some x"
    "so_leaves x = 5" "so_price x = 100"
    using one_offer_found by (auto simp: bind_eq_Some_conv)
  have n: "me_find s 2 4 = None" using one_offer_absent s(1) by simp
  have c: "me_count s = 1"
    by (rule run_fresh [of 2 default_reducible one_offer 1]) (use default_sink_ok s(1) in simp_all)
  show ?thesis using replace_keeps_place [OF _ _ default_sink_ok s(1,2), of 3 100 4 9] s n c by (auto elim!: allE [of _ 0])
qed

definition reduce_three :: sink where
  "reduce_three evs od = (if so_account od = 2 then max 0 (3 - so_cum_qty od) else so_leaves od)"

text \<open>A fill-or-kill order may trade in part when a resting order is reduce-only: the check counts all that is left
  of the reduce-only order, the sweep takes only what still reduces the position of its account.\<close>

theorem fok_partly_filled:
  "Option.bind (me_run [OpSubmit (sample_order 2 1 Sell Gtc 100 5 True) 1] (me_make 2 1 reduce_three))
     (\<lambda>s. map_option (\<lambda>(s', r). (sr_accepted r, sr_filled r)) (submit_order (sample_order 1 3 Buy Fok 100 5 False) 3 s)) = Some (True, 3)"
  by code_simp

end
