(* ===== verification/Seqlock.thy ===== *)
theory Seqlock
  imports Prelude
begin

text \<open>
  \<^verbatim>\<open>include/fastmm/core/seqlock.hpp\<close>: \<^verbatim>\<open>Seqlocked<T>\<close>, the publication of a snapshot by one writer to readers that
  never block it. A step of \<open>sq_step\<close> is one access to shared memory: a load or store of the sequence, or the copy of
  one unit of the payload, the units of a \<^verbatim>\<open>memcpy\<close> in any order. Steps of the writer and of a reader interleave freely,
  so a reader sees torn copies; the fences of the code order the copies against the sequence, which is what the
  interleaving of steps expresses. Readers change nothing a reader or the writer reads, so one stands for all. The
  sequence is a 32-bit word. \<open>sq_hist\<close>, the values published, the first being the initial one, and the start of a load
  in \<open>RCopy\<close> are read by no step. The spinlock of the sanitizer build is left out.
\<close>

section \<open>The threads\<close>

datatype 'a seq_writer = WIdle | WLoaded u32 "'a list" | WCopy u32 "'a list" "nat set"

datatype 'a seq_reader = RIdle | RCopy u32 "'a list" "nat set" nat | RDone "'a list" u32 bool

record 'a seqlock =
  sq_seq :: u32
  sq_data :: "'a list"
  sq_writer :: "'a seq_writer"
  sq_reader :: "'a seq_reader"
  sq_hist :: "'a list list"

definition sq_init :: "'a list \<Rightarrow> 'a seqlock" where
  "sq_init v = \<lparr>sq_seq = 0, sq_data = v, sq_writer = WIdle, sq_reader = RIdle, sq_hist = [v]\<rparr>"

text \<open>The stores that have finished.\<close>

definition sq_stores :: "'a seqlock \<Rightarrow> nat" where
  "sq_stores s = length (sq_hist s) - 1"

definition sq_version :: "'a seqlock \<Rightarrow> u32" where
  "sq_version s = drop_bit 1 (sq_seq s)"

fun is_copying :: "'a seq_reader \<Rightarrow> bool" where
  "is_copying (RCopy q out todo n) = True"
| "is_copying r = False"

fun is_writing :: "'a seq_writer \<Rightarrow> bool" where
  "is_writing (WCopy q v todo) = True"
| "is_writing w = False"

inductive sq_step :: "'a seqlock \<Rightarrow> 'a seqlock \<Rightarrow> bool" where
  store_load: "sq_writer s = WIdle \<Longrightarrow> length v = length (sq_data s) \<Longrightarrow>
    sq_step s (s\<lparr>sq_writer := WLoaded (sq_seq s) v\<rparr>)"
| store_odd: "sq_writer s = WLoaded q v \<Longrightarrow>
    sq_step s (s\<lparr>sq_seq := q + 1, sq_writer := WCopy q v {..<length (sq_data s)}\<rparr>)"
| store_copy: "sq_writer s = WCopy q v todo \<Longrightarrow> i \<in> todo \<Longrightarrow>
    sq_step s (s\<lparr>sq_data := (sq_data s)[i := v ! i], sq_writer := WCopy q v (todo - {i})\<rparr>)"
| store_even: "sq_writer s = WCopy q v {} \<Longrightarrow>
    sq_step s (s\<lparr>sq_seq := q + 2, sq_writer := WIdle, sq_hist := sq_hist s @ [v]\<rparr>)"
| load_odd: "\<not> is_copying (sq_reader s) \<Longrightarrow> odd (sq_seq s) \<Longrightarrow>
    sq_step s (s\<lparr>sq_reader := RDone out 0 False\<rparr>)"
| load_even: "\<not> is_copying (sq_reader s) \<Longrightarrow> even (sq_seq s) \<Longrightarrow> length out = length (sq_data s) \<Longrightarrow>
    sq_step s (s\<lparr>sq_reader := RCopy (sq_seq s) out {..<length (sq_data s)} (sq_stores s)\<rparr>)"
| load_copy: "sq_reader s = RCopy q out todo n \<Longrightarrow> i \<in> todo \<Longrightarrow>
    sq_step s (s\<lparr>sq_reader := RCopy q (out[i := sq_data s ! i]) (todo - {i}) n\<rparr>)"
| load_check: "sq_reader s = RCopy q out {} n \<Longrightarrow>
    sq_step s (s\<lparr>sq_reader := RDone out (drop_bit 1 q) (q = sq_seq s)\<rparr>)"

inductive sq_reachable :: "'a list \<Rightarrow> 'a seqlock \<Rightarrow> bool" for v where
  start: "sq_reachable v (sq_init v)"
| step: "sq_reachable v s \<Longrightarrow> sq_step s s' \<Longrightarrow> sq_reachable v s'"

section \<open>Invariant\<close>

text \<open>The sequence counts half stores; outside a store the payload is the last value published; what an
  undisturbed reader has copied is what is there.\<close>

definition sq_writer_ok :: "'a seqlock \<Rightarrow> bool" where
  "sq_writer_ok s \<longleftrightarrow>
     (case sq_writer s of
        WIdle \<Rightarrow> sq_seq s = of_nat (2 * sq_stores s) \<and> sq_data s = last (sq_hist s)
      | WLoaded q v \<Rightarrow> sq_seq s = of_nat (2 * sq_stores s) \<and> sq_data s = last (sq_hist s) \<and> q = sq_seq s \<and>
          length v = length (sq_data s)
      | WCopy q v todo \<Rightarrow> q = of_nat (2 * sq_stores s) \<and> sq_seq s = q + 1 \<and> length v = length (sq_data s) \<and>
          (\<forall>i<length (sq_data s). i \<in> todo \<or> sq_data s ! i = v ! i))"

definition sq_reader_ok :: "'a seqlock \<Rightarrow> bool" where
  "sq_reader_ok s \<longleftrightarrow>
     (case sq_reader s of
        RCopy q out todo n \<Rightarrow> n \<le> sq_stores s \<and> q = of_nat (2 * n) \<and> length out = length (sq_data s) \<and>
          (n = sq_stores s \<longrightarrow> \<not> is_writing (sq_writer s) \<longrightarrow>
             (\<forall>i<length (sq_data s). i \<in> todo \<or> out ! i = sq_data s ! i))
      | _ \<Rightarrow> True)"

definition sq_inv :: "'a seqlock \<Rightarrow> bool" where
  "sq_inv s \<longleftrightarrow> sq_hist s \<noteq> [] \<and> sq_writer_ok s \<and> sq_reader_ok s"

lemmas sq_inv_defs = sq_inv_def sq_writer_ok_def sq_reader_ok_def

lemma parity: "even (of_nat (2 * n) :: u32)" "odd (of_nat (2 * n) + 1 :: u32)"
  by (simp_all add: even_word_iff)

lemma even_not_writing: "sq_inv s \<Longrightarrow> even (sq_seq s) \<Longrightarrow> \<not> is_writing (sq_writer s)"
  using parity(2) by (cases "sq_writer s") (auto simp: sq_inv_defs)

lemma sq_stores_cong [simp]:
  "sq_stores (s\<lparr>sq_seq := q\<rparr>) = sq_stores s" "sq_stores (s\<lparr>sq_data := d\<rparr>) = sq_stores s"
  "sq_stores (s\<lparr>sq_writer := w\<rparr>) = sq_stores s" "sq_stores (s\<lparr>sq_reader := r\<rparr>) = sq_stores s"
  by (simp_all add: sq_stores_def)

lemma list_update_at: "j < length xs \<Longrightarrow> xs[i := x] ! j = (if j = i then x else xs ! j)"
  by (cases "j = i") auto

lemma sq_inv_step:
  assumes "sq_step s s'" "sq_inv s"
  shows "sq_inv s'"
  using assms
proof (induction rule: sq_step.induct)
  case (store_load s v)
  then show ?case by (auto simp: sq_inv_defs split: seq_reader.splits)
next
  case (store_odd s q v)
  then show ?case by (auto simp: sq_inv_defs split: seq_reader.splits)
next
  case (store_copy s q v todo i)
  then show ?case by (auto simp: sq_inv_defs list_update_at split: seq_reader.splits)
next
  case (store_even s q v)
  have "sq_data s = v" using store_even by (auto simp: sq_inv_defs intro: nth_equalityI)
  moreover have "sq_stores (s\<lparr>sq_seq := q + 2, sq_writer := WIdle, sq_hist := sq_hist s @ [v]\<rparr>) = Suc (sq_stores s)"
    using store_even by (simp add: sq_inv_defs sq_stores_def)
  ultimately show ?case using store_even by (auto simp: sq_inv_defs algebra_simps split: seq_reader.splits)
next
  case (load_odd s out)
  then show ?case by (auto simp: sq_inv_defs split: seq_writer.splits)
next
  case (load_even s out)
  then have "\<not> is_writing (sq_writer s)" by (intro even_not_writing)
  then have "sq_seq s = of_nat (2 * sq_stores s)" using load_even(4) by (auto simp: sq_inv_defs split: seq_writer.splits)
  then show ?case using load_even by (auto simp: sq_inv_defs split: seq_writer.splits)
next
  case (load_copy s q out todo n i)
  then show ?case by (auto simp: sq_inv_defs list_update_at split: seq_writer.splits)
next
  case (load_check s q out n)
  then show ?case by (auto simp: sq_inv_defs split: seq_writer.splits)
qed

lemma sq_reachable_inv: "sq_reachable v s \<Longrightarrow> sq_inv s"
  by (induction rule: sq_reachable.induct) (auto simp: sq_inv_step, simp add: sq_inv_defs sq_init_def sq_stores_def)

lemma twice_mod: "2 * n mod 4294967296 = 2 * (n mod (2147483648 :: nat))"
  using mod_mult_mult1 [of 2 n 2147483648] by simp

text \<open>Fewer than \<open>2 ^ 31\<close> stores cannot bring the sequence back to where it was.\<close>

lemma sequence_differs:
  assumes "n \<le> m" "m < n + 2 ^ 31"
  shows "(of_nat (2 * n) :: u32) = of_nat (2 * m) \<longleftrightarrow> n = m" "(of_nat (2 * n) :: u32) \<noteq> of_nat (2 * m) + 1"
proof -
  show "(of_nat (2 * n) :: u32) = of_nat (2 * m) \<longleftrightarrow> n = m"
  proof
    assume "(of_nat (2 * n) :: u32) = of_nat (2 * m)"
    then have "unat (of_nat (2 * n) :: u32) = unat (of_nat (2 * m) :: u32)" by simp
    then have "(2 * n) mod 2 ^ 32 = (2 * m) mod 2 ^ 32" unfolding unat_of_nat by simp
    then have "n mod 2 ^ 31 = m mod 2 ^ 31" by (simp add: twice_mod)
    then have "2 ^ 31 dvd m - n" using mod_eq_dvd_iff_nat [OF assms(1), of "2 ^ 31"] by simp
    then show "n = m" using assms dvd_imp_le [of "2 ^ 31" "m - n"] by linarith
  qed simp
  show "(of_nat (2 * n) :: u32) \<noteq> of_nat (2 * m) + 1" using parity [of n] parity [of m] by metis
qed

section \<open>Property\<close>

text \<open>C35: a load succeeds exactly when no store overlapped it, and what it returns is then the value the last store
  published, whole, with the number of that store (modulo \<open>2 ^ 31\<close>) as its version. Stores may interleave with the copy
  in every way, as long as fewer than \<open>2 ^ 31\<close> of them finish while it runs, after which the sequence repeats.\<close>

theorem seqlock_load_consistent:
  assumes "sq_reachable v s" "sq_reader s = RCopy q out {} n" "sq_stores s < n + 2 ^ 31"
    and "sq_step s s'" "sq_reader s' = RDone out' version ok"
  shows "(ok \<longleftrightarrow> sq_stores s = n \<and> \<not> is_writing (sq_writer s)) \<and>
    (ok \<longrightarrow> out' = sq_hist s ! n \<and> unat version = n mod 2 ^ 31)"
proof -
  have inv: "sq_inv s" by (rule sq_reachable_inv [OF assms(1)])
  have e: "out' = out" "version = drop_bit 1 q" "ok \<longleftrightarrow> q = sq_seq s"
    using assms(4,2,5) by (auto elim: sq_step.cases)
  have r: "n \<le> sq_stores s" "q = of_nat (2 * n)" "length out = length (sq_data s)"
    using inv assms(2) by (simp_all add: sq_inv_defs)
  note D = sequence_differs [OF r(1) assms(3)]
  have ok: "ok \<longleftrightarrow> sq_stores s = n \<and> \<not> is_writing (sq_writer s)"
    using inv D e(3) r(2) by (auto simp: sq_inv_defs split: seq_writer.splits)
  have "out = sq_hist s ! n" if o: "sq_stores s = n" "\<not> is_writing (sq_writer s)"
  proof -
    have "sq_data s = last (sq_hist s)" using inv o(2) by (auto simp: sq_inv_defs split: seq_writer.splits)
    moreover have "sq_hist s ! n = last (sq_hist s)" using inv o(1) by (simp add: sq_inv_defs sq_stores_def last_conv_nth)
    moreover have "out = sq_data s" using inv assms(2) o r(3) by (auto simp: sq_inv_defs intro: nth_equalityI)
    ultimately show ?thesis by simp
  qed
  moreover have "unat version = n mod 2 ^ 31"
    unfolding e(2) r(2) unat_drop_bit_eq unat_of_nat by (simp add: drop_bit_eq_div twice_mod)
  ultimately show ?thesis using ok e(1) by blast
qed

theorem seqlock_load_consistent_witness:
  "\<exists>s s'. sq_reachable [7 :: nat] s \<and> sq_step s s' \<and> sq_reader s' = RDone [7] 0 True \<and> sq_hist s ! 0 = [7]"
proof -
  let ?s0 = "sq_init [7 :: nat]"
  let ?s1 = "?s0\<lparr>sq_reader := RCopy 0 [0] {..<1} 0\<rparr>"
  let ?s2 = "?s1\<lparr>sq_reader := RCopy 0 [7] {} 0\<rparr>"
  let ?s3 = "?s2\<lparr>sq_reader := RDone [7] 0 True\<rparr>"
  have "sq_step ?s0 ?s1" using load_even [of ?s0 "[0]"] by (simp add: sq_init_def sq_stores_def)
  moreover have "sq_step ?s1 ?s2" using load_copy [of ?s1 0 "[0]" "{..<1}" 0 0] by (simp add: sq_init_def lessThan_Suc)
  ultimately have r: "sq_reachable [7] ?s2" using sq_reachable.step [OF sq_reachable.step [OF sq_reachable.start]] by blast
  have st: "sq_step ?s2 ?s3" using load_check [of ?s2 0 "[7]" 0] by (simp add: sq_init_def)
  have h: "sq_hist ?s2 ! 0 = [7]"
    using seqlock_load_consistent [OF r _ _ st, of 0 "[7]" 0 "[7]" 0 True] by (simp add: sq_init_def sq_stores_def)
  show ?thesis by (rule exI [of _ ?s2], rule exI [of _ ?s3]) (use r st h in simp)
qed

end
