(* ===== verification/VenueHealth.thy ===== *)
theory VenueHealth
  imports Order
begin

text \<open>
  \<^verbatim>\<open>include/fastmm/core/venue_health.hpp\<close>: how late the market data of a venue arrives, against the least lag of the last
  seconds, and how long its acknowledgements take. \<open>vh_slot\<close> has the members of \<^verbatim>\<open>Slot\<close>; the tracker is the function from
  venues to slots. The ring of the minima of completed buckets is a list of \<open>kBuckets - 1\<close> entries; \<open>kNone\<close>, the largest
  64-bit integer, stands for a bucket without a sample. Times are nanoseconds.
\<close>

section \<open>The tracker\<close>

definition kVenues :: nat where "kVenues = 8"
definition kVhBuckets :: nat where "kVhBuckets = 8"
definition kBucket :: duration where "kBucket = 1000000000"
definition kWindow :: duration where "kWindow = kBucket * int kVhBuckets"
definition kGateHold :: duration where "kGateHold = 100000000"
definition kNone :: int where "kNone = i64_max"

record vh_slot =
  vs_bucket_end :: timestamp
  vs_cur_min :: int
  vs_done_min :: int
  vs_lag :: int
  vs_md_ts :: timestamp
  vs_gate_until :: timestamp
  vs_md_samples :: nat
  vs_gate_engagements :: nat
  vs_done :: "int list"
  vs_next :: nat
  vs_rtt :: int
  vs_srtt :: int
  vs_ack_ts :: timestamp
  vs_ack_samples :: nat

definition vh_slot_zero :: vh_slot where
  "vh_slot_zero =
     \<lparr>vs_bucket_end = 0, vs_cur_min = kNone, vs_done_min = kNone, vs_lag = 0, vs_md_ts = 0, vs_gate_until = 0,
      vs_md_samples = 0, vs_gate_engagements = 0, vs_done = replicate (kVhBuckets - 1) 0, vs_next = 0, vs_rtt = 0,
      vs_srtt = 0, vs_ack_ts = 0, vs_ack_samples = 0\<rparr>"

type_synonym venue_health = "nat \<Rightarrow> vh_slot"

definition vh_new :: venue_health where
  "vh_new = (\<lambda>v. vh_slot_zero)"

text \<open>The loop of \<^verbatim>\<open>roll\<close>: one bucket is closed per pass.\<close>

function roll_loop :: "timestamp \<Rightarrow> vh_slot \<Rightarrow> vh_slot" where
  "roll_loop now s =
     (if now \<ge> vs_bucket_end s
      then roll_loop now (s\<lparr>vs_done := (vs_done s)[vs_next s := vs_cur_min s],
                            vs_next := (vs_next s + 1) mod (kVhBuckets - 1),
                            vs_cur_min := kNone, vs_bucket_end := vs_bucket_end s + kBucket\<rparr>)
      else s)"
  by pat_completeness auto
termination
  by (relation "measure (\<lambda>(now, s). nat (now + 1 - vs_bucket_end s))") (auto simp: kBucket_def)

declare roll_loop.simps [simp del]

definition least_done :: "int list \<Rightarrow> int" where
  "least_done ms = fold (\<lambda>m acc. if m < acc then m else acc) ms kNone"

definition roll :: "timestamp \<Rightarrow> vh_slot \<Rightarrow> vh_slot" where
  "roll now s =
     (let s1 = (if vs_bucket_end s = 0 \<or> now - vs_bucket_end s \<ge> kWindow
                then s\<lparr>vs_done := replicate (kVhBuckets - 1) kNone, vs_next := 0, vs_cur_min := kNone,
                       vs_bucket_end := now + kBucket\<rparr>
                else roll_loop now s)
      in s1\<lparr>vs_done_min := least_done (vs_done s1)\<rparr>)"

definition vh_base :: "vh_slot \<Rightarrow> int" where
  "vh_base s = (if vs_cur_min s < vs_done_min s then vs_cur_min s else vs_done_min s)"

definition over_limit :: "int \<Rightarrow> timestamp \<Rightarrow> duration \<Rightarrow> vh_slot \<Rightarrow> vh_slot \<times> bool" where
  "over_limit lag now limit s =
     (if lag - vh_base s \<le> limit then (s, False)
      else (let engaged = (now \<ge> vs_gate_until s); s1 = s\<lparr>vs_gate_until := now + kGateHold\<rparr> in
            (if engaged then s1\<lparr>vs_gate_engagements := vs_gate_engagements s1 + 1\<rparr> else s1, engaged)))"

definition md_sample :: "int \<Rightarrow> timestamp \<Rightarrow> vh_slot \<Rightarrow> vh_slot" where
  "md_sample lag now s =
     (let s1 = (if now \<ge> vs_bucket_end s then roll now s else s);
          s2 = (if lag < vs_cur_min s1 then s1\<lparr>vs_cur_min := lag\<rparr> else s1)
      in s2\<lparr>vs_lag := lag, vs_md_ts := now, vs_md_samples := vs_md_samples s2 + 1\<rparr>)"

definition on_md :: "venue_id \<Rightarrow> int \<Rightarrow> timestamp \<Rightarrow> duration \<Rightarrow> venue_health \<Rightarrow> venue_health \<times> bool" where
  "on_md v lag now limit h =
     (if v \<ge> kVenues then (h, False)
      else (let s = md_sample lag now (h v) in
            if limit \<le> 0 then (h(v := s), False)
            else (case over_limit lag now limit s of (s', engaged) \<Rightarrow> (h(v := s'), engaged))))"

definition vh_on_ack :: "venue_id \<Rightarrow> duration \<Rightarrow> timestamp \<Rightarrow> venue_health \<Rightarrow> venue_health" where
  "vh_on_ack v rtt now h =
     (if v \<ge> kVenues \<or> rtt < 0 then h
      else (let s = h v in
            h(v := s\<lparr>vs_rtt := rtt,
                     vs_srtt := (if vs_ack_samples s = 0 then rtt else vs_srtt s + (rtt - vs_srtt s) sdiv 8),
                     vs_ack_ts := now, vs_ack_samples := vs_ack_samples s + 1\<rparr>)))"

definition copy_feed :: "venue_health \<Rightarrow> nat \<Rightarrow> venue_health \<Rightarrow> venue_health" where
  "copy_feed from v h =
     (if v \<ge> kVenues then h
      else (let f = from v in
            h(v := (h v)\<lparr>vs_bucket_end := vs_bucket_end f, vs_cur_min := vs_cur_min f, vs_done_min := vs_done_min f,
                         vs_lag := vs_lag f, vs_md_ts := vs_md_ts f, vs_md_samples := vs_md_samples f,
                         vs_done := vs_done f, vs_next := vs_next f\<rparr>)))"

definition vh_gated :: "venue_id \<Rightarrow> timestamp \<Rightarrow> venue_health \<Rightarrow> bool" where
  "vh_gated v now h \<longleftrightarrow> v < kVenues \<and> now < vs_gate_until (h v)"

record venue_health_view =
  vv_feed_lag :: duration
  vv_feed_lag_base :: duration
  vv_feed_lag_excess :: duration
  vv_ack_rtt :: duration
  vv_ack_rtt_smoothed :: duration
  vv_md_updated :: timestamp
  vv_ack_updated :: timestamp
  vv_md_samples :: nat
  vv_ack_samples :: nat
  vv_gate_engagements :: nat
  vv_gated :: bool

definition vh_view_zero :: venue_health_view where
  "vh_view_zero =
     \<lparr>vv_feed_lag = 0, vv_feed_lag_base = 0, vv_feed_lag_excess = 0, vv_ack_rtt = 0, vv_ack_rtt_smoothed = 0,
      vv_md_updated = 0, vv_ack_updated = 0, vv_md_samples = 0, vv_ack_samples = 0, vv_gate_engagements = 0,
      vv_gated = False\<rparr>"

definition vh_view :: "venue_id \<Rightarrow> timestamp \<Rightarrow> venue_health \<Rightarrow> venue_health_view" where
  "vh_view v now h =
     (if v \<ge> kVenues then vh_view_zero
      else (let s = h v;
                out = (if vs_md_samples s \<noteq> 0
                       then vh_view_zero\<lparr>vv_feed_lag := vs_lag s, vv_feed_lag_base := vh_base s,
                                         vv_feed_lag_excess := vs_lag s - vh_base s\<rparr>
                       else vh_view_zero)
            in out\<lparr>vv_ack_rtt := vs_rtt s, vv_ack_rtt_smoothed := vs_srtt s, vv_md_updated := vs_md_ts s,
                   vv_ack_updated := vs_ack_ts s, vv_md_samples := vs_md_samples s, vv_ack_samples := vs_ack_samples s,
                   vv_gate_engagements := vs_gate_engagements s, vv_gated := (now < vs_gate_until s)\<rparr>))"

section \<open>The sliding minimum\<close>

text \<open>The least lag of the samples taken from \<open>a\<close> on and before \<open>b\<close>.\<close>

definition least_lag :: "(timestamp \<times> int) list \<Rightarrow> timestamp \<Rightarrow> timestamp \<Rightarrow> int" where
  "least_lag xs a b = fold min (map snd (filter (\<lambda>(t, lag). a \<le> t \<and> t < b) xs)) kNone"

lemma fold_min_acc: "fold min xs (min a c) = min a (fold min xs (c :: int))"
proof (induction xs arbitrary: c)
  case (Cons x xs)
  have "min x (min a c) = min a (min x c)" by (simp add: min_def)
  then show ?case using Cons [of "min x c"] by simp
qed simp

lemma least_lag_append: "least_lag (xs @ [(t, lag)]) a b = (if a \<le> t \<and> t < b then min lag (least_lag xs a b) else least_lag xs a b)"
  by (simp add: least_lag_def)

lemma least_lag_split:
  assumes "a \<le> c" "c \<le> b"
  shows "least_lag xs a b = min (least_lag xs a c) (least_lag xs c b)"
proof (induction xs rule: rev_induct)
  case Nil
  then show ?case by (simp add: least_lag_def)
next
  case (snoc x xs)
  obtain t lag where x: "x = (t, lag)" by (cases x)
  show ?case unfolding x least_lag_append snoc using assms by (auto simp: min_def)
qed

lemma least_lag_none: "(\<And>t lag. (t, lag) \<in> set xs \<Longrightarrow> t < a) \<Longrightarrow> least_lag xs a b = kNone"
proof -
  assume "\<And>t lag. (t, lag) \<in> set xs \<Longrightarrow> t < a"
  then have "filter (\<lambda>(t, lag). a \<le> t \<and> t < b) xs = []" by (fastforce simp: filter_empty_conv)
  then show ?thesis by (simp add: least_lag_def)
qed

lemma least_lag_bound: "least_lag xs a b \<le> kNone"
proof -
  have "fold min ys c \<le> c" for ys and c :: int by (induction ys arbitrary: c) (auto intro: order_trans min.cobounded2)
  then show ?thesis by (simp add: least_lag_def)
qed

lemma least_lag_empty [simp]: "least_lag xs a a = kNone"
proof -
  have "filter (\<lambda>(t, lag). a \<le> t \<and> t < a) xs = []" by (auto simp: filter_empty_conv)
  then show ?thesis by (simp add: least_lag_def)
qed

text \<open>The ring before the entry at \<open>vs_next\<close> is overwritten, from the oldest bucket to the newest.\<close>

definition ring_ok :: "(timestamp \<times> int) list \<Rightarrow> vh_slot \<Rightarrow> bool" where
  "ring_ok xs s \<longleftrightarrow>
     length (vs_done s) = 7 \<and> vs_next s < 7 \<and> 0 < vs_bucket_end s \<and> (\<forall>(t, lag)\<in>set xs. t < vs_bucket_end s) \<and>
     vs_cur_min s = least_lag xs (vs_bucket_end s - kBucket) (vs_bucket_end s) \<and>
     (\<forall>i<7. vs_done s ! ((vs_next s + i) mod 7) =
        least_lag xs (vs_bucket_end s - int (8 - i) * kBucket) (vs_bucket_end s - int (7 - i) * kBucket))"

lemma kBucket_pos: "0 < kBucket" by (simp add: kBucket_def)

lemma ring_pass:
  assumes "ring_ok xs s"
  shows "ring_ok xs (s\<lparr>vs_done := (vs_done s)[vs_next s := vs_cur_min s], vs_next := (vs_next s + 1) mod (kVhBuckets - 1),
            vs_cur_min := kNone, vs_bucket_end := vs_bucket_end s + kBucket\<rparr>)" (is "ring_ok xs ?s'")
proof -
  let ?B = "vs_bucket_end s" and ?n = "vs_next s"
  have r: "length (vs_done s) = 7" "?n < 7" "0 < ?B" "\<And>t lag. (t, lag) \<in> set xs \<Longrightarrow> t < ?B"
    "vs_cur_min s = least_lag xs (?B - kBucket) ?B"
    "\<And>i. i < 7 \<Longrightarrow> vs_done s ! ((?n + i) mod 7) = least_lag xs (?B - int (8 - i) * kBucket) (?B - int (7 - i) * kBucket)"
    using assms by (auto simp: ring_ok_def)
  have seven: "kVhBuckets - 1 = 7" by (simp add: kVhBuckets_def)
  have "(vs_done s)[?n := vs_cur_min s] ! (((?n + 1) mod 7 + i) mod 7) =
      least_lag xs (?B + kBucket - int (8 - i) * kBucket) (?B + kBucket - int (7 - i) * kBucket)" if i: "i < 7" for i
  proof (cases "i = 6")
    case True
    have "((?n + 1) mod 7 + 6) mod 7 = ?n" using r(2) by (simp add: mod_simps)
    then show ?thesis using True r(1,2,5) by (simp add: algebra_simps)
  next
    case False
    have e: "((?n + 1) mod 7 + i) mod 7 = (?n + Suc i) mod 7" by (simp add: mod_simps)
    have "(?n + Suc i) mod 7 \<noteq> ?n" using False i r(2) by presburger
    then have "(vs_done s)[?n := vs_cur_min s] ! ((?n + Suc i) mod 7) = vs_done s ! ((?n + Suc i) mod 7)" by simp
    also have "\<dots> = least_lag xs (?B - int (8 - Suc i) * kBucket) (?B - int (7 - Suc i) * kBucket)" using False i by (intro r(6)) simp
    also have "?B - int (8 - Suc i) * kBucket = ?B + kBucket - int (8 - i) * kBucket"
      using False i by (simp add: algebra_simps of_nat_diff)
    also have "?B - int (7 - Suc i) * kBucket = ?B + kBucket - int (7 - i) * kBucket"
      using False i by (simp add: algebra_simps of_nat_diff)
    finally show ?thesis unfolding e .
  qed
  moreover have "least_lag xs ?B (?B + kBucket) = kNone" by (rule least_lag_none) (use r(4) in blast)
  moreover have "t < ?B + kBucket" if "(t, lag) \<in> set xs" for t lag using r(4) [OF that] kBucket_pos by simp
  ultimately show ?thesis using r(1-3) kBucket_pos unfolding ring_ok_def seven by auto
qed

lemma roll_loop_ok:
  assumes "ring_ok xs s" "vs_bucket_end s \<le> now + kBucket"
  shows "ring_ok xs (roll_loop now s)" "now < vs_bucket_end (roll_loop now s)" "vs_bucket_end (roll_loop now s) \<le> now + kBucket"
  using assms
proof (induction now s rule: roll_loop.induct)
  case (1 now s)
  let ?s' = "s\<lparr>vs_done := (vs_done s)[vs_next s := vs_cur_min s], vs_next := (vs_next s + 1) mod (kVhBuckets - 1),
            vs_cur_min := kNone, vs_bucket_end := vs_bucket_end s + kBucket\<rparr>"
  {
    case 1
    then show ?case using "1.IH"(1) ring_pass [OF 1(1)] by (subst roll_loop.simps) auto
  next
    case 2
    then show ?case using "1.IH"(2) ring_pass [OF 2(1)] by (subst roll_loop.simps) auto
  next
    case 3
    then show ?case using "1.IH"(3) ring_pass [OF 3(1)] by (subst roll_loop.simps) auto
  }
qed

lemma least_done_min: "least_done ms = fold min ms kNone"
proof -
  have "fold (\<lambda>m acc. if m < acc then m else acc) ms c = fold min ms c" for c :: int
    by (induction ms arbitrary: c) (simp_all add: min_def)
  then show ?thesis by (simp add: least_done_def)
qed

lemma fold_min_set: "fold min ms (c :: int) = Min (insert c (set ms))"
  using Min.set_eq_fold [of c ms] by simp

text \<open>The least of the ring is the least of the seven buckets before the current one.\<close>

lemma ring_least:
  assumes "ring_ok xs s"
  shows "least_done (vs_done s) = least_lag xs (vs_bucket_end s - 8 * kBucket) (vs_bucket_end s - kBucket)"
proof -
  let ?B = "vs_bucket_end s" and ?n = "vs_next s"
  have r: "length (vs_done s) = 7" "?n < 7"
    "\<And>i. i < 7 \<Longrightarrow> vs_done s ! ((?n + i) mod 7) = least_lag xs (?B - int (8 - i) * kBucket) (?B - int (7 - i) * kBucket)"
    using assms by (auto simp: ring_ok_def)
  let ?rot = "rotate ?n (vs_done s)"
  have nth: "?rot ! i = least_lag xs (?B - int (8 - i) * kBucket) (?B - int (7 - i) * kBucket)" if "i < 7" for i
    using nth_rotate [of i "vs_done s" ?n] r(1) r(3) [OF that] that by simp
  have "k \<le> 7 \<Longrightarrow> fold min (take k ?rot) kNone = least_lag xs (?B - 8 * kBucket) (?B - int (8 - k) * kBucket)" for k
  proof (induction k)
    case (Suc k)
    have k: "k < 7" using Suc.prems by simp
    have le: "?B - 8 * kBucket \<le> ?B - int (8 - k) * kBucket" "?B - int (8 - k) * kBucket \<le> ?B - int (7 - k) * kBucket"
      using kBucket_pos by (simp_all add: mult_right_mono)
    have "fold min (take (Suc k) ?rot) kNone = min (?rot ! k) (fold min (take k ?rot) kNone)"
      using k r(1) by (simp add: take_Suc_conv_app_nth)
    also have "\<dots> = least_lag xs (?B - 8 * kBucket) (?B - int (7 - k) * kBucket)"
      using Suc k nth [OF k] least_lag_split [OF le] by (simp add: min.commute)
    finally show ?case by simp
  qed simp
  from this [of 7] have "fold min ?rot kNone = least_lag xs (?B - 8 * kBucket) (?B - kBucket)" using r(1) by simp
  then show ?thesis by (simp add: least_done_min fold_min_set)
qed

definition vh_ok :: "(timestamp \<times> int) list \<Rightarrow> vh_slot \<Rightarrow> bool" where
  "vh_ok xs s \<longleftrightarrow>
     (if xs = [] then vs_bucket_end s = 0 \<and> vs_md_samples s = 0
      else ring_ok xs s \<and> vs_done_min s = least_done (vs_done s) \<and> vs_md_samples s = length xs \<and> vs_lag s = snd (last xs) \<and>
        vs_bucket_end s - kBucket \<le> fst (last xs) \<and> fst (last xs) < vs_bucket_end s)"

lemma ring_ok_cong:
  "ring_ok xs (s\<lparr>vs_done_min := d\<rparr>) = ring_ok xs s" "ring_ok xs (s\<lparr>vs_lag := l\<rparr>) = ring_ok xs s"
  "ring_ok xs (s\<lparr>vs_md_ts := t\<rparr>) = ring_ok xs s" "ring_ok xs (s\<lparr>vs_md_samples := n\<rparr>) = ring_ok xs s"
  by (simp_all add: ring_ok_def)

lemma roll_ok:
  assumes ok: "vh_ok xs s" and now: "0 < now" "vs_bucket_end s \<le> now" and s': "s' = roll now s"
  shows "ring_ok xs s'" "now < vs_bucket_end s'" "vs_bucket_end s' \<le> now + kBucket" "vs_done_min s' = least_done (vs_done s')"
proof -
  show "vs_done_min s' = least_done (vs_done s')" by (simp add: s' roll_def Let_def)
  have seven: "kVhBuckets - 1 = 7" "kWindow = 8 * kBucket" by (simp_all add: kVhBuckets_def kWindow_def)
  have "ring_ok xs s' \<and> now < vs_bucket_end s' \<and> vs_bucket_end s' \<le> now + kBucket"
  proof (cases "vs_bucket_end s = 0 \<or> now - vs_bucket_end s \<ge> kWindow")
    case True
    have old: "t < now - 7 * kBucket" if "(t, lag) \<in> set xs" for t lag
    proof -
      have "ring_ok xs s" using that ok by (auto simp: vh_ok_def split: if_splits)
      then have "t < vs_bucket_end s" "0 < vs_bucket_end s" using that by (auto simp: ring_ok_def)
      then show ?thesis using True seven(2) kBucket_pos by auto
    qed
    have none: "least_lag xs (now + kBucket - int (8 - i) * kBucket) b = kNone" if "i \<le> 7" for i b
    proof (rule least_lag_none)
      fix t lag assume "(t, lag) \<in> set xs"
      then have "t < now - 7 * kBucket" by (rule old)
      also have "\<dots> \<le> now + kBucket - int (8 - i) * kBucket"
        using mult_right_mono [of "int (8 - i)" 8 kBucket] kBucket_pos by simp
      finally show "t < now + kBucket - int (8 - i) * kBucket" .
    qed
    have b: "t < now + kBucket" if "(t, lag) \<in> set xs" for t lag using old [OF that] kBucket_pos by simp
    have cur: "least_lag xs now (now + kBucket) = kNone" using none [of 7 "now + kBucket"] by simp
    have e: "s' = s\<lparr>vs_done := replicate 7 kNone, vs_next := 0, vs_cur_min := kNone, vs_bucket_end := now + kBucket,
          vs_done_min := least_done (replicate 7 kNone)\<rparr>"
      using True by (simp add: s' roll_def Let_def kVhBuckets_def)
    show ?thesis unfolding e ring_ok_def using now(1) kBucket_pos none b cur by auto
  next
    case False
    then have "xs \<noteq> []" using ok by (auto simp: vh_ok_def)
    then have r: "ring_ok xs s" using ok by (simp add: vh_ok_def)
    have e: "s' = (roll_loop now s)\<lparr>vs_done_min := least_done (vs_done (roll_loop now s))\<rparr>"
      using False by (simp add: s' roll_def Let_def)
    have le: "vs_bucket_end s \<le> now + kBucket" using now(2) kBucket_pos by simp
    show ?thesis unfolding e using roll_loop_ok [OF r le] by (simp add: ring_ok_cong)
  qed
  then show "ring_ok xs s'" "now < vs_bucket_end s'" "vs_bucket_end s' \<le> now + kBucket" by auto
qed

lemma ring_add:
  assumes r: "ring_ok xs s" and now: "vs_bucket_end s - kBucket \<le> now" "now < vs_bucket_end s"
  shows "ring_ok (xs @ [(now, lag)]) (if lag < vs_cur_min s then s\<lparr>vs_cur_min := lag\<rparr> else s)"
proof -
  have cur: "least_lag (xs @ [(now, lag)]) (vs_bucket_end s - kBucket) (vs_bucket_end s) = (if lag < vs_cur_min s then lag else vs_cur_min s)"
    using r now by (simp add: least_lag_append ring_ok_def min_def)
  have old: "least_lag (xs @ [(now, lag)]) (vs_bucket_end s - int (8 - i) * kBucket) (vs_bucket_end s - int (7 - i) * kBucket) =
      least_lag xs (vs_bucket_end s - int (8 - i) * kBucket) (vs_bucket_end s - int (7 - i) * kBucket)" if "i < 7" for i
  proof -
    have "1 * kBucket \<le> int (7 - i) * kBucket" by (rule mult_right_mono) (use that kBucket_pos in simp_all)
    then have n: "\<not> now < vs_bucket_end s - int (7 - i) * kBucket" using now by linarith
    show ?thesis by (simp only: least_lag_append n simp_thms if_False)
  qed
  show ?thesis using r now(2) cur old unfolding ring_ok_def by (cases "lag < vs_cur_min s") simp_all
qed

lemma md_sample_ok:
  assumes ok: "vh_ok xs s" and now: "0 < now" "xs = [] \<or> fst (last xs) \<le> now"
  shows "vh_ok (xs @ [(now, lag)]) (md_sample lag now s)"
proof -
  define s1 where "s1 = (if now \<ge> vs_bucket_end s then roll now s else s)"
  have s1: "ring_ok xs s1 \<and> now < vs_bucket_end s1 \<and> vs_bucket_end s1 - kBucket \<le> now \<and> vs_done_min s1 = least_done (vs_done s1)"
  proof (cases "now \<ge> vs_bucket_end s")
    case True
    then show ?thesis using roll_ok [OF ok now(1) True refl] by (simp add: s1_def)
  next
    case False
    then have "xs \<noteq> []" using ok now(1) by (auto simp: vh_ok_def)
    then show ?thesis using ok now False by (auto simp: vh_ok_def s1_def)
  qed
  have n: "vs_md_samples s1 = length xs"
  proof -
    have "vs_md_samples (roll_loop m x) = vs_md_samples x" for m x
      by (induction m x rule: roll_loop.induct) (subst roll_loop.simps, simp)
    then have "vs_md_samples s1 = vs_md_samples s" by (simp add: s1_def roll_def Let_def)
    then show ?thesis using ok by (auto simp: vh_ok_def split: if_splits)
  qed
  let ?s2 = "if lag < vs_cur_min s1 then s1\<lparr>vs_cur_min := lag\<rparr> else s1"
  have e: "md_sample lag now s = ?s2\<lparr>vs_lag := lag, vs_md_ts := now, vs_md_samples := vs_md_samples ?s2 + 1\<rparr>"
    by (simp add: md_sample_def Let_def s1_def)
  have "ring_ok (xs @ [(now, lag)]) ?s2" using s1 by (intro ring_add) auto
  then have "ring_ok (xs @ [(now, lag)]) (md_sample lag now s)" unfolding e by (simp only: ring_ok_cong)
  then show ?thesis using s1 n unfolding vh_ok_def e by auto
qed

lemma vh_ok_base:
  assumes "vh_ok xs s" "xs \<noteq> []"
  shows "vh_base s = least_lag xs (vs_bucket_end s - kWindow) (vs_bucket_end s)"
proof -
  have r: "ring_ok xs s" "vs_done_min s = least_done (vs_done s)" using assms by (simp_all add: vh_ok_def)
  have "vh_base s = min (vs_done_min s) (vs_cur_min s)" by (simp add: vh_base_def min_def)
  also have "\<dots> = min (least_lag xs (vs_bucket_end s - 8 * kBucket) (vs_bucket_end s - kBucket)) (least_lag xs (vs_bucket_end s - kBucket) (vs_bucket_end s))"
    using r ring_least [OF r(1)] by (simp add: ring_ok_def)
  also have "\<dots> = least_lag xs (vs_bucket_end s - 8 * kBucket) (vs_bucket_end s)"
    by (rule least_lag_split [symmetric]) (use kBucket_pos in simp_all)
  finally show ?thesis by (simp add: kWindow_def kVhBuckets_def mult.commute)
qed

lemma over_limit_ok: "vh_ok xs (fst (over_limit lag now limit s)) = vh_ok xs s"
  by (simp add: over_limit_def Let_def vh_ok_def ring_ok_def)

definition vh_run :: "venue_id \<Rightarrow> duration \<Rightarrow> (timestamp \<times> int) list \<Rightarrow> venue_health \<Rightarrow> venue_health" where
  "vh_run v limit = fold (\<lambda>(now, lag) h. fst (on_md v lag now limit h))"

lemma on_md_ok:
  assumes "v < kVenues" "vh_ok xs (h v)" "0 < now" "xs = [] \<or> fst (last xs) \<le> now"
  shows "vh_ok (xs @ [(now, lag)]) (fst (on_md v lag now limit h) v)"
  using assms md_sample_ok [OF assms(2-4), of lag] over_limit_ok [of "xs @ [(now, lag)]" lag now limit "md_sample lag now (h v)"]
  by (auto simp: on_md_def Let_def split: prod.splits)

lemma vh_run_ok:
  assumes "v < kVenues"
  shows "sorted (map fst xs) \<Longrightarrow> (\<forall>x\<in>set xs. 0 < fst x) \<Longrightarrow> vh_ok xs (vh_run v limit xs vh_new v)"
proof (induction xs rule: rev_induct)
  case Nil
  then show ?case by (simp add: vh_run_def vh_ok_def vh_new_def vh_slot_zero_def)
next
  case (snoc x xs)
  obtain now lag where x: "x = (now, lag)" by (cases x)
  have "xs = [] \<or> fst (last xs) \<le> now" using snoc.prems(1) x by (cases xs rule: rev_cases) (auto simp: sorted_append)
  then have "vh_ok (xs @ [(now, lag)]) (fst (on_md v lag now limit (vh_run v limit xs vh_new)) v)"
    using snoc x by (intro on_md_ok [OF assms]) (simp_all add: sorted_append)
  then show ?case by (simp add: vh_run_def x)
qed

section \<open>Properties\<close>

text \<open>A message over the limit holds its venue for the time of the gate from its arrival; one that is not changes
  nothing, and a message engages the gate exactly when it is over the limit and the gate was not holding.\<close>

lemma venue_gate_exact:
  assumes "v < kVenues" "0 < limit" "on_md v lag now limit h = (h', engaged)"
  shows "(engaged \<longleftrightarrow> limit < lag - vh_base (h' v) \<and> \<not> vh_gated v now h) \<and>
    (vh_gated v t h' \<longleftrightarrow> (if limit < lag - vh_base (h' v) then t < now + kGateHold else vh_gated v t h))"
proof -
  have g: "vs_gate_until (md_sample lag now s) = vs_gate_until s" for s
  proof -
    have "vs_gate_until (roll_loop m x) = vs_gate_until x" for m x
      by (induction m x rule: roll_loop.induct) (subst roll_loop.simps, simp)
    then show ?thesis by (simp add: md_sample_def roll_def Let_def)
  qed
  have b: "vh_base (s\<lparr>vs_gate_until := x\<rparr>) = vh_base s" "vh_base (s\<lparr>vs_gate_until := x, vs_gate_engagements := n\<rparr>) = vh_base s" for s x n
    by (simp_all add: vh_base_def)
  show ?thesis using assms
    by (auto simp: on_md_def over_limit_def Let_def vh_gated_def g b split: if_splits)
qed

text \<open>C36: the lag of a venue is compared with the least lag of the last seconds. After any messages whose times do not go
  back, the baseline is the least lag of those that came in a window of \<open>kWindow\<close> ending at most one bucket after the last
  message: every message of the last seven seconds counts, none older than eight does, whatever the gaps between them.\<close>

theorem venue_lag_base_exact:
  assumes "v < kVenues" "xs \<noteq> []" "sorted (map fst xs)" "\<forall>x\<in>set xs. 0 < fst x"
  shows "\<exists>e. fst (last xs) < e \<and> e \<le> fst (last xs) + kBucket \<and>
    vv_feed_lag_base (vh_view v now (vh_run v limit xs vh_new)) = least_lag xs (e - kWindow) e \<and>
    vv_feed_lag (vh_view v now (vh_run v limit xs vh_new)) = snd (last xs) \<and>
    vv_feed_lag_excess (vh_view v now (vh_run v limit xs vh_new)) = snd (last xs) - least_lag xs (e - kWindow) e"
proof -
  let ?s = "vh_run v limit xs vh_new v"
  have ok: "vh_ok xs ?s" by (rule vh_run_ok [OF assms(1,3,4)])
  have f: "vs_md_samples ?s \<noteq> 0" "vs_lag ?s = snd (last xs)" "vs_bucket_end ?s - kBucket \<le> fst (last xs)" "fst (last xs) < vs_bucket_end ?s"
    using ok assms(2) by (simp_all add: vh_ok_def)
  show ?thesis
    by (rule exI [of _ "vs_bucket_end ?s"]) (use vh_ok_base [OF ok assms(2)] f assms(1) in \<open>simp add: vh_view_def Let_def\<close>)
qed

theorem venue_lag_base_exact_witness:
  "\<exists>e. 9500000000 < e \<and> e \<le> 9500000000 + kBucket \<and>
    vv_feed_lag_base (vh_view 0 0 (vh_run 0 5 [(1, 70), (2000000000, 30), (9500000000, 40)] vh_new)) =
      least_lag [(1, 70), (2000000000, 30), (9500000000, 40)] (e - kWindow) e"
  using venue_lag_base_exact [of 0 "[(1, 70), (2000000000, 30), (9500000000, 40)]" 0 5] by (auto simp: kVenues_def)

end
