(* ===== verification/OrderBudget.thy ===== *)
theory OrderBudget
  imports Order
begin

text \<open>
  \<^verbatim>\<open>include/fastmm/core/order_budget.hpp\<close>: what the engine's own rate limit and the windows of a venue still admit, and how
  long a refused order has to wait. The records have the members of the structs; \<open>kUnlimited\<close> is the largest 64-bit
  integer. The loop of \<^verbatim>\<open>wait_from\<close> over the three windows is a fold over their list.
\<close>

definition kUnlimited :: int where "kUnlimited = i64_max"

record rate_window =
  rw_window_ms :: int
  rw_used :: int
  rw_limit :: int
  rw_cap :: int
  rw_ends_ns :: int

definition rate_window_zero :: rate_window where
  "rate_window_zero = \<lparr>rw_window_ms = 0, rw_used = 0, rw_limit = 0, rw_cap = -1, rw_ends_ns = 0\<rparr>"

definition rw_known :: "rate_window \<Rightarrow> bool" where
  "rw_known w \<longleftrightarrow> rw_limit w > 0"

definition rw_admits :: "rate_window \<Rightarrow> int" where
  "rw_admits w = (if rw_cap w \<ge> 0 then min (rw_cap w) (rw_limit w) else rw_limit w)"

definition rw_remaining :: "rate_window \<Rightarrow> int" where
  "rw_remaining w = (if rw_known w then max 0 (rw_admits w - rw_used w) else i64_max)"

record order_budget =
  ob_local_tokens :: int
  ob_local_wait_ns :: int
  ob_orders_10s :: rate_window
  ob_orders_1m :: rate_window
  ob_orders_1d :: rate_window
  ob_weight :: rate_window
  ob_venue_paused :: bool
  ob_paused_until_ns :: int
  ob_venue_known :: bool
  ob_orders_taken :: nat
  ob_wait_ns :: int

definition order_budget_zero :: order_budget where
  "order_budget_zero =
     \<lparr>ob_local_tokens = kUnlimited, ob_local_wait_ns = 0, ob_orders_10s = rate_window_zero, ob_orders_1m = rate_window_zero,
      ob_orders_1d = rate_window_zero, ob_weight = rate_window_zero, ob_venue_paused = False, ob_paused_until_ns = 0,
      ob_venue_known = False, ob_orders_taken = 0, ob_wait_ns = 0\<rparr>"

definition orders_remaining :: "order_budget \<Rightarrow> int" where
  "orders_remaining b =
     (if ob_venue_paused b then 0
      else min (min (min (ob_local_tokens b) (rw_remaining (ob_orders_10s b))) (rw_remaining (ob_orders_1m b)))
             (rw_remaining (ob_orders_1d b)))"

definition wait_until :: "int \<Rightarrow> int \<Rightarrow> int \<Rightarrow> int" where
  "wait_until now end_ns wait = (if end_ns = 0 then kUnlimited else max wait (end_ns - now))"

definition ob_windows :: "order_budget \<Rightarrow> rate_window list" where
  "ob_windows b = [ob_orders_10s b, ob_orders_1m b, ob_orders_1d b]"

definition wait_from :: "int \<Rightarrow> order_budget \<Rightarrow> int" where
  "wait_from now b =
     (if orders_remaining b > 0 then 0
      else (let w0 = (if ob_local_tokens b > 0 then 0 else ob_local_wait_ns b);
                w1 = fold (\<lambda>w wait. if rw_remaining w = 0 \<and> wait \<noteq> kUnlimited then wait_until now (rw_ends_ns w) wait else wait)
                       (ob_windows b) w0;
                w2 = (if ob_venue_paused b \<and> w1 \<noteq> kUnlimited then wait_until now (ob_paused_until_ns b) w1 else w1)
            in max w2 0))"

section \<open>Facts\<close>

text \<open>The ends a refused order waits for: the bucket's, those of the windows that admit nothing and the pause's, as waits
  from now, an unknown one as no end.\<close>

definition end_wait :: "int \<Rightarrow> int \<Rightarrow> int" where
  "end_wait now end_ns = (if end_ns = 0 then kUnlimited else end_ns - now)"

definition shut_waits :: "int \<Rightarrow> rate_window list \<Rightarrow> int list" where
  "shut_waits now ws = map (\<lambda>w. end_wait now (rw_ends_ns w)) (filter (\<lambda>w. rw_remaining w = 0) ws)"

definition blocking :: "int \<Rightarrow> order_budget \<Rightarrow> int list" where
  "blocking now b =
     (if ob_local_tokens b > 0 then [] else [ob_local_wait_ns b]) @
     shut_waits now (ob_windows b) @
     (if ob_venue_paused b then [end_wait now (ob_paused_until_ns b)] else [])"

lemma wait_until_max:
  "x \<le> kUnlimited \<Longrightarrow> end_wait now e \<le> kUnlimited \<Longrightarrow> x \<noteq> kUnlimited \<Longrightarrow> wait_until now e x = max x (end_wait now e)"
  by (auto simp: wait_until_def end_wait_def max_def)

lemma shut_waits_simps:
  "shut_waits now [] = []"
  "shut_waits now (w # ws) = (if rw_remaining w = 0 then end_wait now (rw_ends_ns w) # shut_waits now ws else shut_waits now ws)"
  by (simp_all add: shut_waits_def)

lemma fold_max_le: "\<forall>x\<in>set xs. x \<le> k \<Longrightarrow> x \<le> (k :: int) \<Longrightarrow> fold max xs x \<le> k"
  by (induction xs arbitrary: x) auto

lemma fold_windows:
  "\<forall>y\<in>set (shut_waits now ws). y \<le> kUnlimited \<Longrightarrow> x \<le> kUnlimited \<Longrightarrow>
    fold (\<lambda>w wait. if rw_remaining w = 0 \<and> wait \<noteq> kUnlimited then wait_until now (rw_ends_ns w) wait else wait) ws x =
    fold max (shut_waits now ws) x"
proof (induction ws arbitrary: x)
  case (Cons w ws)
  show ?case
  proof (cases "rw_remaining w = 0")
    case True
    then have e: "end_wait now (rw_ends_ns w) \<le> kUnlimited" using Cons.prems(1) by (simp add: shut_waits_simps)
    have m: "(if x \<noteq> kUnlimited then wait_until now (rw_ends_ns w) x else x) = max (end_wait now (rw_ends_ns w)) x"
      using wait_until_max [of x now "rw_ends_ns w"] Cons.prems(2) e by (auto simp: max.commute)
    have l: "max (end_wait now (rw_ends_ns w)) x \<le> kUnlimited" using e Cons.prems(2) by simp
    have r: "\<forall>y\<in>set (shut_waits now ws). y \<le> kUnlimited" using Cons.prems(1) True by (simp add: shut_waits_simps)
    show ?thesis using Cons.IH [OF r l] True m by (simp add: shut_waits_simps)
  next
    case False
    then show ?thesis using Cons.IH [of x] Cons.prems by (simp add: shut_waits_simps)
  qed
qed (simp add: shut_waits_simps)

lemma fold_max_append: "fold max (xs @ ys) (x :: int) = fold max ys (fold max xs x)" by simp

lemma fold_max_start: "max (fold max xs x) (y :: int) = fold max xs (max x y)"
proof (induction xs arbitrary: x)
  case (Cons a xs)
  have "max (max a x) y = max a (max x y)" by (simp add: max_def)
  then show ?case using Cons [of "max a x"] by simp
qed simp

section \<open>Property\<close>

text \<open>C37: a refused order is told how long every limit that refuses it lasts: the wait is the longest of the waits for the
  engine's bucket, for the end of each window that admits nothing and for the end of the pause, without end where one of
  these is unknown, and never negative; an order that is admitted is told not to wait.\<close>

theorem wait_from_exact:
  assumes "\<forall>x\<in>set (blocking now b). x \<le> kUnlimited"
  shows "wait_from now b = (if orders_remaining b > 0 then 0 else fold max (blocking now b) 0)"
proof (cases "orders_remaining b > 0")
  case False
  define w0 where "w0 = (if ob_local_tokens b > 0 then 0 else ob_local_wait_ns b)"
  define w1 where "w1 = fold max (shut_waits now (ob_windows b)) w0"
  have k: "0 \<le> kUnlimited" by (simp add: kUnlimited_def i64_max_def)
  have w0: "w0 \<le> kUnlimited" using assms k by (auto simp: w0_def blocking_def)
  have s: "\<forall>x\<in>set (shut_waits now (ob_windows b)). x \<le> kUnlimited" using assms by (auto simp: blocking_def)
  have p: "ob_venue_paused b \<Longrightarrow> end_wait now (ob_paused_until_ns b) \<le> kUnlimited" using assms by (auto simp: blocking_def)
  have W: "w1 \<le> kUnlimited" using fold_max_le [OF s w0] by (simp add: w1_def)
  have "wait_from now b = max (if ob_venue_paused b \<and> w1 \<noteq> kUnlimited then wait_until now (ob_paused_until_ns b) w1 else w1) 0"
    using False unfolding wait_from_def Let_def w0_def [symmetric] fold_windows [OF s w0] w1_def [symmetric] by simp
  also have "\<dots> = max (fold max (if ob_venue_paused b then [end_wait now (ob_paused_until_ns b)] else []) w1) 0"
    using wait_until_max [of w1 now "ob_paused_until_ns b"] W p by (auto simp: max.commute)
  also have "\<dots> = fold max (blocking now b) 0"
    unfolding blocking_def fold_max_append w1_def fold_max_start by (simp add: w0_def max.commute)
  finally show ?thesis using False by simp
qed (simp add: wait_from_def)

theorem wait_from_exact_witness:
  "wait_from 1000 (order_budget_zero\<lparr>ob_orders_10s := \<lparr>rw_window_ms = 10000, rw_used = 50, rw_limit = 50, rw_cap = 45, rw_ends_ns = 4000\<rparr>\<rparr>) = 3000"
proof -
  let ?b = "order_budget_zero\<lparr>ob_orders_10s := \<lparr>rw_window_ms = 10000, rw_used = 50, rw_limit = 50, rw_cap = 45, rw_ends_ns = 4000\<rparr>\<rparr>"
  have b: "blocking 1000 ?b = [3000]" "orders_remaining ?b = 0"
    by (simp_all add: blocking_def shut_waits_def ob_windows_def order_budget_zero_def rate_window_zero_def rw_remaining_def rw_known_def rw_admits_def
        end_wait_def kUnlimited_def i64_max_def orders_remaining_def)
  have "wait_from 1000 ?b = (if orders_remaining ?b > 0 then 0 else fold max (blocking 1000 ?b) 0)"
    by (rule wait_from_exact)
      (simp only: b, simp add: kUnlimited_def i64_max_def)
  then show ?thesis by (simp only: b) simp
qed

end
