(* ===== verification/Spec2Isabelle.thy ===== *)
theory Spec2Isabelle
  imports FixedPoint SpscRing Pool BucketBits FlatMap CounterKeyMap RecentMap OmsProps BookFeed Trading TokenBucketProps PlansProps MatchingProps Seqlock VenueHealth OrderBudget
begin

text \<open>
  \<^bold>\<open>FastMM, a market-making engine: a model of its trading core.\<close>

  FastMM (C++, under \<^verbatim>\<open>src/\<close>) quotes on electronic markets. Connectors turn what a venue sends into messages; the
  engine (\<^verbatim>\<open>include/fastmm/core/engine.hpp\<close>) applies them to its components and asks a strategy for orders; every order
  passes the risk engine before the order manager registers it and the connector sends it. This library models the
  components that decide whether the engine's picture of the market, of its orders and of its positions is right, and
  whether an order may leave:

  \<^item> \<^bold>\<open>Numbers.\<close> Prelude, FixedPoint (\<^verbatim>\<open>fixed_point.hpp\<close>): prices, quantities and notionals are 64-bit integers in
    units of 1e-8; products and quotients go through 128 bits and are cast back, which the model writes as \<open>i64\<close>; decimal
    strings are parsed and printed. Enums (\<^verbatim>\<open>enums.hpp\<close>).
  \<^item> \<^bold>\<open>Containers\<close> (\<^verbatim>\<open>core/containers/\<close>, \<^verbatim>\<open>spsc_ring.hpp\<close>). Probing holds the two loops of a linearly probed table
    once; OpenHashMap, CounterKeyMap and RecentMap are the tables built on it, FlatMap the sorted one, Pool the slab with
    its free list, BucketBits (on BitWords) the bit sets per bucket, RingBuffer the ring with eviction, SpscRing the
    lock-free queue of two threads, as a step relation of its individual loads and stores.
  \<^item> \<^bold>\<open>Order manager.\<close> Order (\<^verbatim>\<open>order.hpp\<close>, \<^verbatim>\<open>messages.hpp\<close>, \<^verbatim>\<open>strong_id.hpp\<close>): orders, requests, venue messages. Oms
    (\<^verbatim>\<open>oms.hpp\<close>): the record \<^verbatim>\<open>oms\<close> has the members of class \<^verbatim>\<open>Oms\<close>, and each handler is a function from the state to the
    state and what the engine has to do. OmsRouting, OmsInv, OmsOps, OmsHandlers, OmsIds and OmsProps build up the
    invariant and the properties.
  \<^item> \<^bold>\<open>Market data.\<close> L2Book (\<^verbatim>\<open>book/l2_book.hpp\<close>): the price-level book with its bounded sides; L2BookProps. BookSyncer
    (\<^verbatim>\<open>book/book_syncer.hpp\<close>): the state machine that joins a snapshot to a stream of deltas by their update ids,
    over the rules of a venue; BookFeed puts both together.
  \<^item> \<^bold>\<open>Static data.\<close> Instrument (\<^verbatim>\<open>instrument.hpp\<close>, \<^verbatim>\<open>fx.hpp\<close>, \<^verbatim>\<open>fees.hpp\<close>, \<^verbatim>\<open>underlying.hpp\<close>); Plans and PlansProps
    (\<^verbatim>\<open>src/core/fx.cpp\<close>, \<^verbatim>\<open>src/core/underlying.cpp\<close>): which currency and which underlying every instrument belongs to.
  \<^item> \<^bold>\<open>Positions.\<close> Position, PositionProps (\<^verbatim>\<open>position.hpp\<close>): average cost, marks, funding and the running totals in one
    currency or several.
  \<^item> \<^bold>\<open>Risk.\<close> TokenBucket, TokenBucketProps, Risk, RiskProps (\<^verbatim>\<open>risk.hpp\<close>, \<^verbatim>\<open>risk_limits.hpp\<close>): the rate limiter, the
    kill switch, the checks of a new order and of a replace, the headroom.
  \<^item> \<^bold>\<open>The engine's order path.\<close> Engine (\<^verbatim>\<open>engine.hpp\<close>): \<^verbatim>\<open>submit_new\<close>, \<^verbatim>\<open>submit_replace\<close>, \<^verbatim>\<open>submit_cancel\<close>, the handlers
    of the messages about orders and the booking of fills, over the order manager, the risk engine and the positions; a session is
    a list of events. OpenQty shows what each operation of the order manager does to the open quantity the checks read, Trading the
    position limit over sessions.
  \<^item> \<^bold>\<open>Simulated exchange.\<close> SimBook, Matching (\<^verbatim>\<open>sim/sim_book.hpp\<close>, \<^verbatim>\<open>sim/matching_engine.hpp\<close>,
    \<^verbatim>\<open>src/sim/matching_engine.cpp\<close>): the continuous auction that the strategies are tested against, with the FIFO queues of
    its levels linked through the slots of one pool. MatchingInv relates the links to lists, MatchingSweep and MatchingLoop
    follow the sweep of a taker, MatchingOps and MatchingEntry the entry of an order, MatchingRuns the other operations and
    their sequences; MatchingProps states the properties.

  \<^item> \<^bold>\<open>What connectors and the engine tell each other.\<close> Seqlock (\<^verbatim>\<open>seqlock.hpp\<close>): the snapshots a connector publishes to
    the engine, as a step relation of the accesses to shared memory. OrderBudget (\<^verbatim>\<open>order_budget.hpp\<close>): what goes through
    it, the windows of a venue's rate limits and the wait of a refused order. VenueHealth (\<^verbatim>\<open>venue_health.hpp\<close>): the lag of
    a feed against its sliding minimum, and the gate on it.

  \<^bold>\<open>How the code is modelled.\<close> A class is a record of its members, an array indexed by an id a function, a pointer into a
  table an index or an option; a member function is a definition of the same name (with a prefix where the name is taken)
  from the state to the new state and its result. Every early return, failed result and refused operation is a branch. A
  signed 64-bit addition is an addition of integers, which agrees with the code whenever it does not overflow (overflow is
  undefined in C++); every place where the code narrows 128 bits is written out, and counters and keys that wrap are words.
  An operation of an atomic word is one step.

  \<^bold>\<open>What is shown.\<close>
  \<^item> Containers refine the map, set or queue they stand for, for every sequence of operations; the loops of a probed table
    end within as many steps as it has slots (the fuel of \<open>lp_probe\<close> and \<open>lp_shift\<close>, which is therefore enough) when it has
    at least eight of them; the two-thread ring loses, repeats and tears nothing.
  \<^item> The order manager keeps its books: open quantity, counters, tables and slots agree after every sequence of requests
    and messages; a message reaches the order it names, an execution is booked once, a late fill is accounted on the record
    of its order, and reconciliation ends exactly the orders the venue no longer has.
  \<^item> The book follows the venue on every level it keeps, and a synchronised feed is the venue's book: no gap is applied.
  \<^item> The totals that the loss limit and the exposure caps read are the sums of what the instruments carry, at the current
    rates; a fill moves a position by the average-cost method, the mean of linear and the
    harmonic mean of inverse contracts.
  \<^item> An order passes the risk engine exactly when it is inside every limit, and the rooms it reports are what its limits admit; the rate limiter keeps its rate over every window and a
    caller that waits as told is served; the position limit holds over every interleaving of orders, acknowledgements,
    fills, cancels, reconciliations and marks, provided the
    acknowledgement of a replace leaves no more open than the order had and fills fit their orders; a replace on its way is
    not counted, and sessions with one go past the limit, up to almost twice.
  \<^item> A plan built from the configuration is well typed for the components that run with it, and it is known which
    configurations are accepted.
  \<^item> The matching engine answers whatever it is asked: its loops, which are partial functions here, end on every engine that
    operations can reach. It trades in price-time priority, at the makers' prices and within the takers' limits, fills a
    taker whole when the book can, never leaves a book crossed, announces a feed from which the book can be rebuilt, and
    its ledgers net to zero. A fill-or-kill order trades all or nothing, unless a reduce-only order stands in its way.
  \<^item> A load through the sequence lock returns a whole published value or reports failure; a refused order is told the
    longest of the waits that refuse it; the baseline of a feed's lag is its least lag over the last seconds.

  \<^bold>\<open>Interfaces\<close> are locales: \<open>map_table\<close> (inserts, assigns, erases and clears of a bounded map, interpreted by the hash
  map and the sorted map), \<open>key_table\<close> (a table whose client inserts absent keys only, interpreted by the counter-key map), the probing and ring locales of the containers, \<open>slot_pool\<close> (the slots the order manager and the matching engine draw from), \<open>sync_rules\<close> (what the syncer needs of a venue's update ids, interpreted by the venues'
  own rules).

  \<^bold>\<open>Not modelled.\<close> Networking, TLS, venue connectors, JSON and configuration parsing, files, databases, telemetry and the
  processes around the engine are input and output over libraries; strategies, option pricing and latency models compute
  in floating point; the SBE and MDP3 schemas are generated. Of the core the quote manager, the timer wheel, balances, the
  order-by-order book and the treasury are not modelled, and of the simulator its transport and accounts, which need a model
  of messages in flight; what the risk engine, the order path and the matching engine ask of them is an
  input here. Of the engine itself the dispatch, the hooks, the journal, the records and the quoting are left out, and a venue's
  report of a position, which replaces ours.
\<close>

end
